(* ===== verification/Prelude.thy ===== *)
theory Prelude
  imports Main "HOL-Library.Word"
begin

text \<open>
  The shared layer of the development: machine types, the kernel monad (a state
  transformer whose outcomes are a result, a kernel panic, a process that went to sleep, or a
  loop that did not end within its bound), weakest preconditions and preservation rules over
  that monad, little-endian byte encodings, and list lemmas used by several components.
\<close>

unbundle bit_operations_syntax

section \<open>Machine types\<close>

type_synonym byte = "8 word"
type_synonym u16 = "16 word"
type_synonym u32 = "32 word"

named_theorems wp_simps \<open>equations that push a weakest precondition through a command\<close>
named_theorems keeps_intro \<open>rules that show a command keeps a state predicate\<close>
named_theorems kdefs \<open>the defining equations of the monad's combinators\<close>

lemma uint_byte_eq_iff [simp]: "uint (a :: byte) = uint b \<longleftrightarrow> a = b"
  by (simp add: word_uint_eq_iff)

lemma uint_byte_eq_0 [simp]: "uint (a :: byte) = 0 \<longleftrightarrow> a = 0"
  by (simp add: uint_0_iff)

section \<open>The kernel monad\<close>

text \<open>Wait channels: the addresses that the kernel passes to \<open>sleep\<close> and \<open>wakeup\<close>.\<close>

datatype chan =
    LogChan | TicksChan | InputChan
  | BufLockChan nat | InodeLockChan nat | BufIOChan nat
  | PipeReadChan u32 | PipeWriteChan u32 | ProcChan nat

text \<open>
  \<open>Ok x s\<close>: the call returned \<open>x\<close> in state \<open>s\<close>. \<open>Panic m\<close>: it called \<open>panic(m)\<close>, which never
  returns. \<open>Block c s\<close>: the running process sleeps on channel \<open>c\<close>. \<open>Diverge\<close>: a pointer-chasing
  loop did not end within the bound that the model gives it.
\<close>

datatype ('s, 'a) outcome = Ok 'a 's | Panic string | Block "chan option" 's | Diverge

type_synonym ('s, 'a) kern = "'s \<Rightarrow> ('s, 'a) outcome"

definition ret :: "'a \<Rightarrow> ('s, 'a) kern" where
  [kdefs]: "ret x = (\<lambda>s. Ok x s)"

definition bnd :: "('s, 'a) kern \<Rightarrow> ('a \<Rightarrow> ('s, 'b) kern) \<Rightarrow> ('s, 'b) kern" where
  [kdefs]: "bnd m f = (\<lambda>s. case m s of
       Ok x t \<Rightarrow> f x t | Panic e \<Rightarrow> Panic e | Block c t \<Rightarrow> Block c t | Diverge \<Rightarrow> Diverge)"

definition thn :: "('s, 'a) kern \<Rightarrow> ('s, 'b) kern \<Rightarrow> ('s, 'b) kern" where
  [kdefs]: "thn m n = bnd m (\<lambda>_. n)"

definition panic :: "string \<Rightarrow> ('s, 'a) kern" where
  [kdefs]: "panic e = (\<lambda>_. Panic e)"

definition blocks :: "chan option \<Rightarrow> ('s, 'a) kern" where
  [kdefs]: "blocks c = (\<lambda>s. Block c s)"

definition diverge :: "('s, 'a) kern" where
  [kdefs]: "diverge = (\<lambda>_. Diverge)"

definition gets :: "('s \<Rightarrow> 'a) \<Rightarrow> ('s, 'a) kern" where
  [kdefs]: "gets f = (\<lambda>s. Ok (f s) s)"

definition modify :: "('s \<Rightarrow> 's) \<Rightarrow> ('s, unit) kern" where
  [kdefs]: "modify f = (\<lambda>s. Ok () (f s))"

definition whenk :: "bool \<Rightarrow> ('s, unit) kern \<Rightarrow> ('s, unit) kern" where
  [kdefs]: "whenk b m = (if b then m else ret ())"

fun foreach :: "'b list \<Rightarrow> ('b \<Rightarrow> ('s, unit) kern) \<Rightarrow> ('s, unit) kern" where
  "foreach [] f = ret ()"
| "foreach (x # xs) f = thn (f x) (foreach xs f)"

text \<open>Run a command \<open>n\<close> times and collect its results.\<close>

fun repeatk :: "nat \<Rightarrow> ('s, 'a) kern \<Rightarrow> ('s, 'a list) kern" where
  "repeatk 0 m = ret []"
| "repeatk (Suc n) m = bnd m (\<lambda>x. bnd (repeatk n m) (\<lambda>xs. ret (x # xs)))"

lemma bnd_Ok: "m s = Ok x t \<Longrightarrow> bnd m f s = f x t"
  by (simp add: bnd_def)

lemma thn_Ok: "m s = Ok x t \<Longrightarrow> thn m n s = n t"
  by (simp add: thn_def bnd_def)

lemma bnd_eq_Ok:
  "bnd m f s = Ok y u \<longleftrightarrow> (\<exists>x t. m s = Ok x t \<and> f x t = Ok y u)"
  by (simp add: bnd_def split: outcome.splits)

lemma thn_eq_Ok: "thn m n s = Ok y u \<longleftrightarrow> (\<exists>x t. m s = Ok x t \<and> n t = Ok y u)"
  by (simp add: thn_def bnd_eq_Ok)

lemma ret_apply [simp]: "ret x s = Ok x s"
  by (simp add: ret_def)

lemma gets_apply [simp]: "gets f s = Ok (f s) s"
  by (simp add: gets_def)

lemma modify_apply [simp]: "modify f s = Ok () (f s)"
  by (simp add: modify_def)

lemma panic_apply [simp]: "panic e s = Panic e"
  by (simp add: panic_def)

lemma bnd_gets [simp]: "bnd (gets f) g s = g (f s) s"
  by (simp add: bnd_def)

lemma bnd_ret [simp]: "bnd (ret x) g s = g x s"
  by (simp add: bnd_def)

lemma thn_modify [simp]: "thn (modify f) n s = n (f s)"
  by (simp add: thn_def bnd_def)

lemma thn_ret [simp]: "thn (ret x) n s = n s"
  by (simp add: thn_def bnd_def)

lemma whenk_apply: "whenk b m s = (if b then m s else Ok () s)"
  by (simp add: whenk_def)

lemma foreach_append: "foreach (xs @ ys) f = thn (foreach xs f) (foreach ys f)"
  by (induction xs) (auto simp: thn_def bnd_def fun_eq_iff split: outcome.splits)

section \<open>Weakest preconditions and preserved predicates\<close>

text \<open>
  \<open>wp m Q s\<close>: if \<open>m\<close> returns from \<open>s\<close>, \<open>Q\<close> holds of its result and state. It is partial in
  panics and sleeping only; \<open>returns\<close> below is the total version.
\<close>

definition wp :: "('s, 'a) kern \<Rightarrow> ('a \<Rightarrow> 's \<Rightarrow> bool) \<Rightarrow> 's \<Rightarrow> bool" where
  "wp m Q s = (case m s of Ok x t \<Rightarrow> Q x t | _ \<Rightarrow> True)"

definition returns :: "('s, 'a) kern \<Rightarrow> ('a \<Rightarrow> 's \<Rightarrow> bool) \<Rightarrow> 's \<Rightarrow> bool" where
  "returns m Q s = (case m s of Ok x t \<Rightarrow> Q x t | _ \<Rightarrow> False)"

lemma wp_ret [wp_simps]: "wp (ret x) Q s = Q x s"
  by (simp add: wp_def)

lemma wp_bnd [wp_simps]: "wp (bnd m f) Q s = wp m (\<lambda>x. wp (f x) Q) s"
  by (simp add: wp_def bnd_def split: outcome.splits)

lemma wp_thn [wp_simps]: "wp (thn m n) Q s = wp m (\<lambda>_. wp n Q) s"
  by (simp add: thn_def wp_bnd)

lemma wp_gets [wp_simps]: "wp (gets f) Q s = Q (f s) s"
  by (simp add: wp_def)

lemma wp_modify [wp_simps]: "wp (modify f) Q s = Q () (f s)"
  by (simp add: wp_def)

lemma wp_panic [wp_simps]: "wp (panic e) Q s"
  by (simp add: wp_def)

lemma wp_blocks [wp_simps]: "wp (blocks c) Q s"
  by (simp add: wp_def blocks_def)

lemma wp_diverge [wp_simps]: "wp diverge Q s"
  by (simp add: wp_def diverge_def)

lemma wp_whenk [wp_simps]: "wp (whenk b m) Q s = (if b then wp m Q s else Q () s)"
  by (simp add: whenk_def wp_ret)

lemma wp_if: "wp (if b then m else n) Q s = (if b then wp m Q s else wp n Q s)"
  by simp

lemma wp_mono: "wp m Q s \<Longrightarrow> (\<And>x t. Q x t \<Longrightarrow> R x t) \<Longrightarrow> wp m R s"
  by (auto simp: wp_def split: outcome.splits)

lemma wp_OkD: "wp m Q s \<Longrightarrow> m s = Ok x t \<Longrightarrow> Q x t"
  by (simp add: wp_def)

lemma wpI: "(\<And>x t. m s = Ok x t \<Longrightarrow> Q x t) \<Longrightarrow> wp m Q s"
  by (auto simp: wp_def split: outcome.splits)

lemma returns_bnd: "returns m (\<lambda>x. returns (f x) Q) s \<Longrightarrow> returns (bnd m f) Q s"
  by (auto simp: returns_def bnd_def split: outcome.splits)

lemma returns_iff: "returns m Q s \<longleftrightarrow> (\<exists>x t. m s = Ok x t \<and> Q x t)"
  by (auto simp: returns_def split: outcome.splits)

text \<open>\<open>keeps I m\<close>: whenever \<open>m\<close> returns, the predicate \<open>I\<close> still holds.\<close>

definition keeps :: "('s \<Rightarrow> bool) \<Rightarrow> ('s, 'a) kern \<Rightarrow> bool" where
  "keeps I m = (\<forall>s. I s \<longrightarrow> wp m (\<lambda>_. I) s)"

lemma keepsI: "(\<And>s x t. I s \<Longrightarrow> m s = Ok x t \<Longrightarrow> I t) \<Longrightarrow> keeps I m"
  by (auto simp: keeps_def intro!: wpI)

lemma keepsD: "keeps I m \<Longrightarrow> I s \<Longrightarrow> m s = Ok x t \<Longrightarrow> I t"
  by (auto simp: keeps_def dest: wp_OkD)

lemma keeps_wp: "keeps I m \<Longrightarrow> I s \<Longrightarrow> (\<And>x t. I t \<Longrightarrow> Q x t) \<Longrightarrow> wp m Q s"
  by (auto simp: keeps_def intro: wp_mono)

lemma keeps_ret [keeps_intro]: "keeps I (ret x)"
  by (simp add: keeps_def wp_ret)

lemma keeps_gets [keeps_intro]: "keeps I (gets f)"
  by (simp add: keeps_def wp_gets)

lemma keeps_panic [keeps_intro]: "keeps I (panic e)"
  by (simp add: keeps_def wp_panic)

lemma keeps_blocks [keeps_intro]: "keeps I (blocks c)"
  by (simp add: keeps_def wp_blocks)

lemma keeps_diverge [keeps_intro]: "keeps I diverge"
  by (simp add: keeps_def wp_diverge)

lemma keeps_modify: "(\<And>s. I s \<Longrightarrow> I (f s)) \<Longrightarrow> keeps I (modify f)"
  by (simp add: keeps_def wp_modify)

lemma keeps_bnd [keeps_intro]: "keeps I m \<Longrightarrow> (\<And>x. keeps I (f x)) \<Longrightarrow> keeps I (bnd m f)"
  by (auto simp: keeps_def wp_bnd intro: wp_mono)

lemma keeps_thn [keeps_intro]: "keeps I m \<Longrightarrow> keeps I n \<Longrightarrow> keeps I (thn m n)"
  by (auto simp: thn_def intro: keeps_bnd)

lemma keeps_whenk [keeps_intro]: "keeps I m \<Longrightarrow> keeps I (whenk b m)"
  by (auto simp: whenk_def intro: keeps_ret)

lemma keeps_if [keeps_intro]: "keeps I m \<Longrightarrow> keeps I n \<Longrightarrow> keeps I (if b then m else n)"
  by simp

lemma keeps_case_option [keeps_intro]:
  "keeps I m \<Longrightarrow> (\<And>x. keeps I (f x)) \<Longrightarrow> keeps I (case v of None \<Rightarrow> m | Some x \<Rightarrow> f x)"
  by (cases v) auto

lemma keeps_case_prod [keeps_intro]:
  "(\<And>x y. keeps I (f x y)) \<Longrightarrow> keeps I (case v of (x, y) \<Rightarrow> f x y)"
  by (cases v) auto

lemma keeps_let [keeps_intro]: "(\<And>x. keeps I (f x)) \<Longrightarrow> keeps I (Let v f)"
  by (simp add: Let_def)

lemma keeps_foreach [keeps_intro]: "(\<And>x. keeps I (f x)) \<Longrightarrow> keeps I (foreach xs f)"
  by (induction xs) (auto intro: keeps_ret keeps_thn)

section \<open>Transition systems\<close>

text \<open>What a component that runs as a state machine promises: its initial states satisfy the
  invariant and each step keeps it. Every state it can reach then satisfies it.\<close>

locale transition_system =
  fixes init :: "'s \<Rightarrow> bool" and step :: "'s \<Rightarrow> 's \<Rightarrow> bool" and inv :: "'s \<Rightarrow> bool"
  assumes init_inv: "init s \<Longrightarrow> inv s"
    and step_inv: "step s t \<Longrightarrow> inv s \<Longrightarrow> inv t"
begin

lemma steps_inv: "step\<^sup>*\<^sup>* s t \<Longrightarrow> inv s \<Longrightarrow> inv t"
  by (induction rule: rtranclp_induct) (auto intro: step_inv)

lemma reachable_inv: "init s \<Longrightarrow> step\<^sup>*\<^sup>* s t \<Longrightarrow> inv t"
  using init_inv steps_inv by blast

end

section \<open>Little-endian encodings\<close>

text \<open>The x86 stores a multi-byte integer with its least significant byte first.\<close>

definition le16 :: "u16 \<Rightarrow> byte list" where
  "le16 w = [ucast w, ucast (drop_bit 8 w)]"

definition un16 :: "byte list \<Rightarrow> u16" where
  "un16 bs = (ucast (bs ! 0) OR push_bit 8 (ucast (bs ! 1)))"

definition le32 :: "u32 \<Rightarrow> byte list" where
  "le32 w = [ucast w, ucast (drop_bit 8 w), ucast (drop_bit 16 w), ucast (drop_bit 24 w)]"

definition un32 :: "byte list \<Rightarrow> u32" where
  "un32 bs = (ucast (bs ! 0) OR push_bit 8 (ucast (bs ! 1)) OR push_bit 16 (ucast (bs ! 2))
      OR push_bit 24 (ucast (bs ! 3)))"

lemma length_le16 [simp]: "length (le16 w) = 2"
  by (simp add: le16_def)

lemma length_le32 [simp]: "length (le32 w) = 4"
  by (simp add: le32_def)

lemma un16_le16 [simp]: "un16 (le16 w @ bs) = w"
  by (rule bit_word_eqI) (auto simp: un16_def le16_def bit_simps not_le)

lemma un32_le32 [simp]: "un32 (le32 w @ bs) = w"
proof (rule bit_word_eqI)
  fix n
  assume "n < LENGTH(32)"
  then consider "n < 8" | "8 \<le> n" "n < 16" | "16 \<le> n" "n < 24" | "24 \<le> n" "n < 32"
    by fastforce
  then show "bit (un32 (le32 w @ bs)) n = bit w n"
    by cases (auto simp: un32_def le32_def bit_simps)
qed

lemma un16_le16' [simp]: "un16 (le16 w) = w"
  using un16_le16 [of w "[]"] by simp

lemma un32_le32' [simp]: "un32 (le32 w) = w"
  using un32_le32 [of w "[]"] by simp

section \<open>Lists\<close>

text \<open>\<open>memcpy\<close>-style overwrite of part of a byte array, the target long enough.\<close>

definition splice :: "nat \<Rightarrow> 'a list \<Rightarrow> 'a list \<Rightarrow> 'a list" where
  "splice off src dst = take off dst @ src @ drop (off + length src) dst"

lemma length_splice [simp]:
  "off + length src \<le> length dst \<Longrightarrow> length (splice off src dst) = length dst"
  by (simp add: splice_def)

lemma splice_read:
  "off + length src \<le> length dst \<Longrightarrow> take (length src) (drop off (splice off src dst)) = src"
  by (simp add: splice_def)

lemma nth_splice:
  "off + length src \<le> length dst \<Longrightarrow> i < length dst \<Longrightarrow>
   splice off src dst ! i =
     (if i < off then dst ! i else if i < off + length src then src ! (i - off) else dst ! i)"
  by (auto simp: splice_def nth_append min_def)

text \<open>Slices of a byte array.\<close>

definition slice :: "nat \<Rightarrow> nat \<Rightarrow> 'a list \<Rightarrow> 'a list" where
  "slice off n xs = take n (drop off xs)"

lemma length_slice [simp]: "off + n \<le> length xs \<Longrightarrow> length (slice off n xs) = n"
  by (simp add: slice_def)

lemma nth_slice: "i < n \<Longrightarrow> off + n \<le> length xs \<Longrightarrow> slice off n xs ! i = xs ! (off + i)"
  by (simp add: slice_def)

lemma slice_splice_same: "off + length src \<le> length dst \<Longrightarrow> slice off (length src) (splice off src dst) = src"
  by (simp add: slice_def splice_read)

lemma slice_splice_disjoint:
  assumes "off + length src \<le> length dst" "off' + n \<le> length dst"
    and "off' + n \<le> off \<or> off + length src \<le> off'"
  shows "slice off' n (splice off src dst) = slice off' n dst"
  by (rule nth_equalityI) (use assms in \<open>auto simp: nth_slice nth_splice\<close>)

text \<open>A search loop over an array: the first index whose element satisfies the test.\<close>

fun find_index :: "('a \<Rightarrow> bool) \<Rightarrow> 'a list \<Rightarrow> nat option" where
  "find_index p [] = None"
| "find_index p (x # xs) = (if p x then Some 0 else map_option Suc (find_index p xs))"

lemma find_index_None: "find_index p xs = None \<longleftrightarrow> (\<forall>x \<in> set xs. \<not> p x)"
  by (induction xs) auto

lemma find_index_Some:
  "find_index p xs = Some i \<longleftrightarrow> i < length xs \<and> p (xs ! i) \<and> (\<forall>j < i. \<not> p (xs ! j))"
proof (induction xs arbitrary: i)
  case Nil
  then show ?case by simp
next
  case (Cons x xs)
  show ?case
    by (cases i) (auto simp: Cons.IH less_Suc_eq_0_disj)
qed

end
