(* ===== verification/Memory.thy ===== *)
theory Memory
  imports Prelude
begin

text \<open>
  Byte-addressed memory, 32-bit loads and stores, and the address arithmetic of
  \<open>mmu.h\<close> and \<open>memlayout.h\<close>. Memory is indexed by kernel virtual address: the kernel reaches
  physical address \<open>pa\<close> at \<open>P2V(pa)\<close>, so the byte at \<open>P2V(pa)\<close> is physical byte \<open>pa\<close>.
\<close>

type_synonym memory = "u32 \<Rightarrow> byte"

lemma unat_u32_less: "unat (w :: u32) < 2 ^ 32"
  using unsigned_less [of w, where ?'a = nat] by simp

section \<open>Constants and address macros\<close>

definition PGSIZE :: u32 where "PGSIZE = 4096"
definition PGSHIFT :: nat where "PGSHIFT = 12"
definition PTXSHIFT :: nat where "PTXSHIFT = 12"
definition PDXSHIFT :: nat where "PDXSHIFT = 22"
definition NPDENTRIES :: nat where "NPDENTRIES = 1024"
definition EXTMEM :: u32 where "EXTMEM = 0x100000"
definition PHYSTOP :: u32 where "PHYSTOP = 0xE000000"
definition DEVSPACE :: u32 where "DEVSPACE = 0xFE000000"
definition KERNBASE :: u32 where "KERNBASE = 0x80000000"
definition KERNLINK :: u32 where "KERNLINK = KERNBASE + EXTMEM"

definition V2P :: "u32 \<Rightarrow> u32" where "V2P a = a - KERNBASE"
definition P2V :: "u32 \<Rightarrow> u32" where "P2V a = a + KERNBASE"

definition PDX :: "u32 \<Rightarrow> u32" where "PDX va = drop_bit PDXSHIFT va AND 0x3FF"
definition PTX :: "u32 \<Rightarrow> u32" where "PTX va = drop_bit PTXSHIFT va AND 0x3FF"
definition PGADDR :: "u32 \<Rightarrow> u32 \<Rightarrow> u32 \<Rightarrow> u32" where
  "PGADDR d t off = push_bit PDXSHIFT d OR push_bit PTXSHIFT t OR off"
definition PGROUNDUP :: "u32 \<Rightarrow> u32" where
  "PGROUNDUP sz = (sz + PGSIZE - 1) AND NOT (PGSIZE - 1)"
definition PGROUNDDOWN :: "u32 \<Rightarrow> u32" where
  "PGROUNDDOWN a = a AND NOT (PGSIZE - 1)"

definition PTE_P :: u32 where "PTE_P = 0x001"
definition PTE_W :: u32 where "PTE_W = 0x002"
definition PTE_U :: u32 where "PTE_U = 0x004"
definition PTE_A :: u32 where "PTE_A = 0x020"
definition PTE_PG :: u32 where "PTE_PG = 0x200"
definition PTE_C :: u32 where "PTE_C = 0x400"
definition PTE_PG_ON :: "u32 \<Rightarrow> u32" where "PTE_PG_ON pte = pte OR PTE_PG"
definition PTE_P_ON :: "u32 \<Rightarrow> u32" where "PTE_P_ON pte = pte OR PTE_P"
definition PTE_PG_OFF :: "u32 \<Rightarrow> u32" where "PTE_PG_OFF pte = pte AND NOT PTE_PG"
definition PTE_A_OFF :: "u32 \<Rightarrow> u32" where "PTE_A_OFF pte = pte AND NOT PTE_A"
definition PTE_P_OFF :: "u32 \<Rightarrow> u32" where "PTE_P_OFF pte = pte AND NOT PTE_P"
definition PTE_ADDR :: "u32 \<Rightarrow> u32" where "PTE_ADDR pte = pte AND NOT 0xFFF"
definition PTE_FLAGS :: "u32 \<Rightarrow> u32" where "PTE_FLAGS pte = pte AND 0xFFF"

lemmas layout_defs = PGSIZE_def PGSHIFT_def PTXSHIFT_def PDXSHIFT_def NPDENTRIES_def
  EXTMEM_def PHYSTOP_def DEVSPACE_def KERNBASE_def KERNLINK_def

lemmas pte_bits = PTE_P_def PTE_W_def PTE_U_def PTE_A_def PTE_PG_def PTE_C_def

lemma P2V_V2P [simp]: "P2V (V2P a) = a"
  by (simp add: P2V_def V2P_def)

lemma V2P_P2V [simp]: "V2P (P2V a) = a"
  by (simp add: P2V_def V2P_def)

lemma V2P_inj [simp]: "V2P a = V2P b \<longleftrightarrow> a = b"
  by (metis P2V_V2P)

text \<open>
  Adding \<open>KERNBASE\<close> twice is the identity on 32 bits, so \<open>P2V\<close> and \<open>V2P\<close> are the same function.
\<close>

lemma P2V_eq_V2P: "P2V a = V2P a"
  by (simp add: P2V_def V2P_def KERNBASE_def)

section \<open>Words in memory\<close>

definition ld32 :: "memory \<Rightarrow> u32 \<Rightarrow> u32" where
  "ld32 m a = un32 [m a, m (a + 1), m (a + 2), m (a + 3)]"

definition st32 :: "memory \<Rightarrow> u32 \<Rightarrow> u32 \<Rightarrow> memory" where
  "st32 m a v = m(a := le32 v ! 0, a + 1 := le32 v ! 1, a + 2 := le32 v ! 2, a + 3 := le32 v ! 3)"

lemma word_add_neq:
  fixes a :: u32
  shows "a + 1 \<noteq> a" "a + 2 \<noteq> a" "a + 3 \<noteq> a" "a + 1 \<noteq> a + 2" "a + 1 \<noteq> a + 3" "a + 2 \<noteq> a + 3"
    "a \<noteq> a + 1" "a \<noteq> a + 2" "a \<noteq> a + 3" "a + 2 \<noteq> a + 1" "a + 3 \<noteq> a + 1" "a + 3 \<noteq> a + 2"
  by simp_all

lemma ld32_st32_same [simp]: "ld32 (st32 m a v) a = v"
proof -
  have "ld32 (st32 m a v) a = un32 [le32 v ! 0, le32 v ! 1, le32 v ! 2, le32 v ! 3]"
    by (simp add: ld32_def st32_def word_add_neq)
  also have "[le32 v ! 0, le32 v ! 1, le32 v ! 2, le32 v ! 3] = le32 v"
    by (simp add: le32_def)
  finally show ?thesis by simp
qed

text \<open>Word-aligned addresses.\<close>

definition aligned4 :: "u32 \<Rightarrow> bool" where
  "aligned4 a = (unat a mod 4 = 0)"

lemma unat_mod4_add: "unat (a + of_nat i :: u32) mod 4 = (unat a + i) mod 4"
proof -
  have "unat (a + of_nat i) mod 4 = ((unat a + i) mod 2 ^ 32) mod 4"
    by (simp add: unat_word_ariths unat_of_nat mod_simps)
  also have "\<dots> = (unat a + i) mod 4"
    by (rule mod_mod_cancel) simp
  finally show ?thesis .
qed

lemma aligned4_offset_inj:
  assumes "aligned4 a" "aligned4 b" "i < 4" "j < 4" "a + of_nat i = b + of_nat j"
  shows "a = b"
proof -
  have "unat (a + of_nat i) mod 4 = i" "unat (b + of_nat j) mod 4 = j"
    using assms(1-4) by (auto simp: unat_mod4_add aligned4_def mod_add_left_eq [symmetric])
  with assms(5) have "i = j" by simp
  with assms(5) show ?thesis by simp
qed

lemma aligned4_disjoint:
  assumes "aligned4 a" "aligned4 b" "a \<noteq> b"
  shows "b \<notin> {a, a + 1, a + 2, a + 3}" "b + 1 \<notin> {a, a + 1, a + 2, a + 3}"
    "b + 2 \<notin> {a, a + 1, a + 2, a + 3}" "b + 3 \<notin> {a, a + 1, a + 2, a + 3}"
proof -
  have *: "b + of_nat j \<noteq> a + of_nat i" if "i < 4" "j < 4" for i j
    using aligned4_offset_inj [OF assms(2,1) that(2,1)] assms(3) by metis
  show "b \<notin> {a, a + 1, a + 2, a + 3}"
    using * [of 0 0] * [of 1 0] * [of 2 0] * [of 3 0] by simp
  show "b + 1 \<notin> {a, a + 1, a + 2, a + 3}"
    using * [of 0 1] * [of 1 1] * [of 2 1] * [of 3 1] by simp
  show "b + 2 \<notin> {a, a + 1, a + 2, a + 3}"
    using * [of 0 2] * [of 1 2] * [of 2 2] * [of 3 2] by simp
  show "b + 3 \<notin> {a, a + 1, a + 2, a + 3}"
    using * [of 0 3] * [of 1 3] * [of 2 3] * [of 3 3] by simp
qed

lemma ld32_st32_other:
  assumes "aligned4 a" "aligned4 b" "a \<noteq> b"
  shows "ld32 (st32 m a v) b = ld32 m b"
  using aligned4_disjoint [OF assms] by (simp add: ld32_def st32_def)

text \<open>A load reads four bytes, so it depends on those four only.\<close>

lemma ld32_cong:
  "(\<And>i. i < 4 \<Longrightarrow> m (a + of_nat i) = m' (a + of_nat i)) \<Longrightarrow> ld32 m a = ld32 m' a"
proof -
  assume *: "\<And>i. i < 4 \<Longrightarrow> m (a + of_nat i) = m' (a + of_nat i)"
  show ?thesis
    using * [of 0] * [of 1] * [of 2] * [of 3] by (simp add: ld32_def)
qed

section \<open>Pages\<close>

definition page_aligned :: "u32 \<Rightarrow> bool" where
  "page_aligned a = (unat a mod 4096 = 0)"

lemma page_aligned_aligned4: "page_aligned a \<Longrightarrow> aligned4 a"
  by (auto simp: page_aligned_def aligned4_def dest: mod_mod_cancel [of 4 4096, symmetric])

text \<open>\<open>in_page p a\<close>: byte \<open>a\<close> lies in the page that starts at \<open>p\<close>.\<close>

definition in_page :: "u32 \<Rightarrow> u32 \<Rightarrow> bool" where
  "in_page p a = (unat (a - p) < 4096)"

lemma PGROUNDDOWN_sub: "PGROUNDDOWN a = a - take_bit 12 a"
proof -
  have "(PGSIZE - 1 :: u32) = mask 12" by (simp add: PGSIZE_def mask_eq_exp_minus_1)
  then have "PGROUNDDOWN a = push_bit 12 (drop_bit 12 a)"
    unfolding PGROUNDDOWN_def by (auto intro!: bit_word_eqI simp: bit_simps)
  also have "\<dots> = a - take_bit 12 a"
    using bits_ident [of 12 a] by (simp add: eq_diff_eq)
  finally show ?thesis .
qed

lemma unat_PGROUNDDOWN: "unat (PGROUNDDOWN a) = unat a - unat a mod 4096"
proof -
  have t: "unat (take_bit 12 a) = unat a mod 4096"
    by (simp add: take_bit_eq_mod unat_mod_distrib)
  have "unat (take_bit 12 a) \<le> unat a" by (simp add: t)
  then have "unat (a - take_bit 12 a) = unat a - unat (take_bit 12 a)"
    by (simp only: unat_sub_if' if_True)
  then show ?thesis by (simp only: PGROUNDDOWN_sub t)
qed

lemma PGROUNDUP_eq: "PGROUNDUP a = PGROUNDDOWN (a + 4095)"
  by (simp add: PGROUNDUP_def PGROUNDDOWN_def PGSIZE_def add.commute)

lemma unat_PGROUNDUP:
  assumes "unat a + 4095 < 2 ^ 32"
  shows "unat (PGROUNDUP a) = (unat a + 4095) - (unat a + 4095) mod 4096"
proof -
  have "unat (a + 4095) = unat a + 4095"
    using assms by (simp add: unat_plus_if')
  then show ?thesis by (simp add: PGROUNDUP_eq unat_PGROUNDDOWN)
qed

lemma PGROUNDUP_aligned:
  assumes "unat a mod 4096 = 0" "unat a + 4095 < 2 ^ 32"
  shows "PGROUNDUP a = a"
proof -
  have "(unat a + 4095) mod 4096 = 4095"
    using assms(1) by (auto elim!: dvdE simp: mod_eq_0_iff_dvd)
  then show ?thesis
    using unat_PGROUNDUP [OF assms(2)] by (simp add: word_unat_eq_iff)
qed

end
