(* ===== verification/Kernel.thy ===== *)
theory Kernel
  imports Memory
begin

text \<open>
  The part of the kernel state that every component shares: the spinlocks held by the
  CPU that runs the code. This is the view of one CPU of the lock protocol of
  \<open>spinlock.c\<close>; theory \<open>Spinlock\<close> models the protocol itself over several CPUs and proves that its
  \<open>acquire\<close> and \<open>release\<close> have exactly this effect on the set of locks the caller holds.
\<close>

section \<open>Locks\<close>

datatype lockid =
    LKmem | LPtable | LBcache | LIcache | LLog | LFtable | LTicks | LCons | LIde
  | LPipe u32 | LBuf nat | LInode nat

record kbase =
  held :: "lockid set"

definition acquire :: "lockid \<Rightarrow> ('z kbase_scheme, unit) kern" where
  "acquire l = bnd (gets held) (\<lambda>h.
     if l \<in> h then panic ''acquire'' else modify (\<lambda>s. s\<lparr>held := insert l (held s)\<rparr>))"

definition release :: "lockid \<Rightarrow> ('z kbase_scheme, unit) kern" where
  "release l = bnd (gets held) (\<lambda>h.
     if l \<in> h then modify (\<lambda>s. s\<lparr>held := held s - {l}\<rparr>) else panic ''release'')"

definition holding :: "lockid \<Rightarrow> ('z kbase_scheme, bool) kern" where
  "holding l = gets (\<lambda>s. l \<in> held s)"

lemma acquire_free [simp]: "l \<notin> held s \<Longrightarrow> acquire l s = Ok () (s\<lparr>held := insert l (held s)\<rparr>)"
  by (simp add: acquire_def)

lemma release_held [simp]: "l \<in> held s \<Longrightarrow> release l s = Ok () (s\<lparr>held := held s - {l}\<rparr>)"
  by (simp add: release_def)

lemma acquire_twice: "l \<in> held s \<Longrightarrow> acquire l s = Panic ''acquire''"
  by (simp add: acquire_def)

lemma release_free: "l \<notin> held s \<Longrightarrow> release l s = Panic ''release''"
  by (simp add: release_def)

lemma wp_acquire [wp_simps]:
  "wp (acquire l) Q s = (l \<notin> held s \<longrightarrow> Q () (s\<lparr>held := insert l (held s)\<rparr>))"
  by (simp add: acquire_def wp_def)

lemma wp_release [wp_simps]:
  "wp (release l) Q s = (l \<in> held s \<longrightarrow> Q () (s\<lparr>held := held s - {l}\<rparr>))"
  by (simp add: release_def wp_def)

lemma wp_holding [wp_simps]: "wp (holding l) Q s = Q (l \<in> held s) s"
  by (simp add: holding_def wp_gets)

text \<open>A command that neither takes nor drops a spinlock across its call.\<close>

definition lock_balanced :: "('z kbase_scheme, 'a) kern \<Rightarrow> bool" where
  "lock_balanced m = (\<forall>H. keeps (\<lambda>s. held s = H) m)"

end
