(* ===== verification/Spinlock.thy ===== *)
theory Spinlock
  imports Kernel
begin

text \<open>
  Spinlocks on a multiprocessor (\<open>spinlock.c\<close>): the per-CPU nesting of interrupt disabling
  (\<open>pushcli\<close>, \<open>popcli\<close>), the atomic exchange that takes a lock, and an interleaving step relation
  in which the processors run \<open>acquire\<close> and \<open>release\<close> concurrently. The invariant of that relation
  gives mutual exclusion; the last section shows that one uninterrupted call has the effect on
  the caller's set of locks that theory \<open>Kernel\<close> uses for the rest of the kernel.
\<close>

section \<open>State\<close>

record cpu =
  apicid :: int
  ncli :: int
  intena :: bool

record spinlock =
  locked :: u32
  lkname :: string
  lkcpu :: "nat option"
  pcs :: "u32 list"

text \<open>
  Processors are named by their index in \<open>cpus\<close>; \<open>lapicid\<close> is what the local APIC of a
  processor answers and \<open>eif\<close> the interrupt flag of its \<open>eflags\<close> register.
\<close>

record smp =
  locks :: "lockid \<Rightarrow> spinlock"
  cpus :: "cpu list"
  lapicid :: "nat \<Rightarrow> int"
  eif :: "nat \<Rightarrow> bool"
  smem :: memory

definition set_lock :: "lockid \<Rightarrow> (spinlock \<Rightarrow> spinlock) \<Rightarrow> ('z smp_scheme, unit) kern" where
  "set_lock l f = modify (\<lambda>s. s\<lparr>locks := (locks s)(l := f (locks s l))\<rparr>)"

definition set_cpu :: "nat \<Rightarrow> (cpu \<Rightarrow> cpu) \<Rightarrow> ('z smp_scheme, unit) kern" where
  "set_cpu i f = modify (\<lambda>s. s\<lparr>cpus := (cpus s)[i := f (cpus s ! i)]\<rparr>)"

definition set_if :: "nat \<Rightarrow> bool \<Rightarrow> ('z smp_scheme, unit) kern" where
  "set_if c b = modify (\<lambda>s. s\<lparr>eif := (eif s)(c := b)\<rparr>)"

section \<open>Operations\<close>

definition mycpu :: "nat \<Rightarrow> ('z smp_scheme, nat) kern" where
  "mycpu c = bnd (gets (\<lambda>s. eif s c)) (\<lambda>on.
     if on then panic ''mycpu called with interrupts enabled''
     else bnd (gets (\<lambda>s. find_index (\<lambda>x. apicid x = lapicid s c) (cpus s))) (\<lambda>r.
       case r of Some i \<Rightarrow> ret i | None \<Rightarrow> panic ''unknown apicid''))"

definition pushcli :: "nat \<Rightarrow> ('z smp_scheme, unit) kern" where
  "pushcli c =
     bnd (gets (\<lambda>s. eif s c)) (\<lambda>eflags.
     thn (set_if c False) (
     bnd (mycpu c) (\<lambda>i.
     bnd (gets (\<lambda>s. ncli (cpus s ! i))) (\<lambda>n.
     thn (whenk (n = 0) (set_cpu i (\<lambda>x. x\<lparr>intena := eflags\<rparr>)))
     (set_cpu i (\<lambda>x. x\<lparr>ncli := ncli x + 1\<rparr>))))))"

definition popcli :: "nat \<Rightarrow> ('z smp_scheme, unit) kern" where
  "popcli c =
     bnd (gets (\<lambda>s. eif s c)) (\<lambda>eflags.
     if eflags then panic ''popcli - interruptible''
     else bnd (mycpu c) (\<lambda>i.
       thn (set_cpu i (\<lambda>x. x\<lparr>ncli := ncli x - 1\<rparr>)) (
       bnd (gets (\<lambda>s. cpus s ! i)) (\<lambda>x.
       if ncli x < 0 then panic ''popcli''
       else whenk (ncli x = 0 \<and> intena x) (set_if c True)))))"

definition initlock :: "lockid \<Rightarrow> string \<Rightarrow> ('z smp_scheme, unit) kern" where
  "initlock l name = set_lock l (\<lambda>k. k\<lparr>lkname := name, locked := 0, lkcpu := None\<rparr>)"

definition spin_holding :: "nat \<Rightarrow> lockid \<Rightarrow> ('z smp_scheme, bool) kern" where
  "spin_holding c l = bnd (gets (\<lambda>s. locks s l)) (\<lambda>k.
     if locked k \<noteq> 0 then bnd (mycpu c) (\<lambda>i. ret (lkcpu k = Some i)) else ret False)"

text \<open>The chain of saved frame pointers, at most ten frames; the rest of \<open>pcs\<close> is zero.\<close>

fun callerpcs_loop :: "memory \<Rightarrow> nat \<Rightarrow> u32 \<Rightarrow> u32 list" where
  "callerpcs_loop m 0 ebp = []"
| "callerpcs_loop m (Suc n) ebp =
     (if ebp = 0 \<or> ebp < KERNBASE \<or> ebp = 0xffffffff then replicate (Suc n) 0
      else ld32 m (ebp + 4) # callerpcs_loop m n (ld32 m ebp))"

definition getcallerpcs :: "memory \<Rightarrow> u32 \<Rightarrow> u32 list" where
  "getcallerpcs m v = callerpcs_loop m 10 (v - 8)"

definition xchg_locked :: "lockid \<Rightarrow> u32 \<Rightarrow> ('z smp_scheme, u32) kern" where
  "xchg_locked l v = bnd (gets (\<lambda>s. locked (locks s l))) (\<lambda>old.
     thn (set_lock l (\<lambda>k. k\<lparr>locked := v\<rparr>)) (ret old))"

text \<open>
  \<open>acquire\<close> in three parts: up to the loop, the loop, and the recording of the owner; \<open>v\<close> is the
  stack address of its argument. \<open>release\<close> in two parts, around the store that frees the lock.
\<close>

definition acquire_enter :: "nat \<Rightarrow> lockid \<Rightarrow> ('z smp_scheme, unit) kern" where
  "acquire_enter c l = thn (pushcli c) (bnd (spin_holding c l) (\<lambda>h.
     if h then panic ''acquire'' else ret ()))"

fun acquire_spin :: "nat \<Rightarrow> lockid \<Rightarrow> ('z smp_scheme, unit) kern" where
  "acquire_spin 0 l = diverge"
| "acquire_spin (Suc fuel) l = bnd (xchg_locked l 1) (\<lambda>old.
     if old \<noteq> 0 then acquire_spin fuel l else ret ())"

definition acquire_exit :: "nat \<Rightarrow> lockid \<Rightarrow> u32 \<Rightarrow> ('z smp_scheme, unit) kern" where
  "acquire_exit c l v = bnd (mycpu c) (\<lambda>i.
     thn (set_lock l (\<lambda>k. k\<lparr>lkcpu := Some i\<rparr>)) (
     bnd (gets smem) (\<lambda>m. set_lock l (\<lambda>k. k\<lparr>pcs := getcallerpcs m v\<rparr>))))"

definition spin_acquire :: "nat \<Rightarrow> nat \<Rightarrow> lockid \<Rightarrow> u32 \<Rightarrow> ('z smp_scheme, unit) kern" where
  "spin_acquire fuel c l v =
     thn (acquire_enter c l) (thn (acquire_spin fuel l) (acquire_exit c l v))"

definition release_enter :: "nat \<Rightarrow> lockid \<Rightarrow> ('z smp_scheme, unit) kern" where
  "release_enter c l = bnd (spin_holding c l) (\<lambda>h.
     if \<not> h then panic ''release''
     else set_lock l (\<lambda>k. k\<lparr>pcs := (pcs k)[0 := 0], lkcpu := None\<rparr>))"

definition release_exit :: "nat \<Rightarrow> lockid \<Rightarrow> ('z smp_scheme, unit) kern" where
  "release_exit c l = thn (set_lock l (\<lambda>k. k\<lparr>locked := 0\<rparr>)) (popcli c)"

definition spin_release :: "nat \<Rightarrow> lockid \<Rightarrow> ('z smp_scheme, unit) kern" where
  "spin_release c l = thn (release_enter c l) (release_exit c l)"

section \<open>Effect of each operation on a well-formed machine\<close>

definition hw_ok :: "'z smp_scheme \<Rightarrow> bool" where
  "hw_ok s = (distinct (map apicid (cpus s)) \<and> (\<forall>i < length (cpus s). apicid (cpus s ! i) = lapicid s i))"

lemma find_cpu:
  assumes "hw_ok s" "c < length (cpus s)"
  shows "find_index (\<lambda>x. apicid x = lapicid s c) (cpus s) = Some c"
  using assms by (auto simp: hw_ok_def find_index_Some distinct_conv_nth)

lemma mycpu_run:
  "hw_ok s \<Longrightarrow> c < length (cpus s) \<Longrightarrow>
   mycpu c s = (if eif s c then Panic ''mycpu called with interrupts enabled'' else Ok c s)"
  by (simp add: mycpu_def find_cpu)

lemma hw_ok_update [simp]:
  "hw_ok (s\<lparr>eif := e\<rparr>) = hw_ok s" "hw_ok (s\<lparr>locks := k\<rparr>) = hw_ok s"
  by (simp_all add: hw_ok_def)

lemma hw_ok_cpus:
  assumes "hw_ok s" "apicid x = apicid (cpus s ! c)"
  shows "hw_ok (s\<lparr>cpus := (cpus s)[c := x]\<rparr>)"
proof (cases "c < length (cpus s)")
  case True
  then have "map apicid ((cpus s)[c := x]) = map apicid (cpus s)"
    by (metis assms(2) map_update list_update_id nth_map)
  then show ?thesis
    using assms True by (simp add: hw_ok_def) (metis nth_list_update)
qed (use assms in \<open>simp add: hw_ok_def list_update_beyond\<close>)

definition push_cpu :: "nat \<Rightarrow> 'z smp_scheme \<Rightarrow> cpu" where
  "push_cpu c s = (let x = cpus s ! c in
     x\<lparr>intena := (if ncli x = 0 then eif s c else intena x), ncli := ncli x + 1\<rparr>)"

lemma pushcli_run:
  assumes "hw_ok s" "c < length (cpus s)"
  shows "pushcli c s = Ok () (s\<lparr>eif := (eif s)(c := False), cpus := (cpus s)[c := push_cpu c s]\<rparr>)"
  using assms
  by (simp add: pushcli_def kdefs set_if_def set_cpu_def push_cpu_def Let_def
      mycpu_run [of "s\<lparr>eif := (eif s)(c := False)\<rparr>"])

lemma popcli_run:
  assumes "hw_ok s" "c < length (cpus s)" "\<not> eif s c" "ncli (cpus s ! c) \<ge> 1"
  shows "popcli c s = Ok () (let x = cpus s ! c in
    s\<lparr>cpus := (cpus s)[c := x\<lparr>ncli := ncli x - 1\<rparr>],
      eif := (if ncli x = 1 \<and> intena x then (eif s)(c := True) else eif s)\<rparr>)"
  using assms by (simp add: popcli_def kdefs set_if_def set_cpu_def Let_def mycpu_run)

lemma popcli_unbalanced:
  assumes "hw_ok s" "c < length (cpus s)" "\<not> eif s c" "ncli (cpus s ! c) \<le> 0"
  shows "popcli c s = Panic ''popcli''"
  using assms by (simp add: popcli_def kdefs set_cpu_def mycpu_run)

lemma spin_holding_run:
  assumes "hw_ok s" "c < length (cpus s)" "\<not> eif s c"
  shows "spin_holding c l s = Ok (locked (locks s l) \<noteq> 0 \<and> lkcpu (locks s l) = Some c) s"
  using assms by (simp add: spin_holding_def kdefs mycpu_run)

section \<open>Processors running concurrently\<close>

text \<open>Where a processor is in \<open>acquire\<close> or \<open>release\<close>.\<close>

datatype lock_pc = Outside | Spinning lockid u32 | Acquired lockid u32 | Releasing lockid

text \<open>
  \<open>crit s c\<close> is the set of locks whose \<open>acquire\<close> has returned on processor \<open>c\<close> and whose \<open>release\<close>
  has not been called: the critical sections \<open>c\<close> is in.
\<close>

record machine = smp +
  pc :: "nat \<Rightarrow> lock_pc"
  crit :: "nat \<Rightarrow> lockid set"

inductive lock_step :: "machine \<Rightarrow> machine \<Rightarrow> bool" where
  enter: "c < length (cpus s) \<Longrightarrow> pc s c = Outside \<Longrightarrow> acquire_enter c l s = Ok () t \<Longrightarrow>
    lock_step s (t\<lparr>pc := (pc t)(c := Spinning l v)\<rparr>)"
| spin_busy: "c < length (cpus s) \<Longrightarrow> pc s c = Spinning l v \<Longrightarrow> xchg_locked l 1 s = Ok old t \<Longrightarrow>
    old \<noteq> 0 \<Longrightarrow> lock_step s t"
| spin_free: "c < length (cpus s) \<Longrightarrow> pc s c = Spinning l v \<Longrightarrow> xchg_locked l 1 s = Ok old t \<Longrightarrow>
    old = 0 \<Longrightarrow> lock_step s (t\<lparr>pc := (pc t)(c := Acquired l v)\<rparr>)"
| taken: "c < length (cpus s) \<Longrightarrow> pc s c = Acquired l v \<Longrightarrow> acquire_exit c l v s = Ok () t \<Longrightarrow>
    lock_step s (t\<lparr>pc := (pc t)(c := Outside), crit := (crit t)(c := insert l (crit t c))\<rparr>)"
| leave: "c < length (cpus s) \<Longrightarrow> pc s c = Outside \<Longrightarrow> release_enter c l s = Ok () t \<Longrightarrow>
    lock_step s (t\<lparr>pc := (pc t)(c := Releasing l), crit := (crit t)(c := crit t c - {l})\<rparr>)"
| free: "c < length (cpus s) \<Longrightarrow> pc s c = Releasing l \<Longrightarrow> release_exit c l s = Ok () t \<Longrightarrow>
    lock_step s (t\<lparr>pc := (pc t)(c := Outside)\<rparr>)"
| interrupts: "c < length (cpus s) \<Longrightarrow> pc s c = Outside \<Longrightarrow> ncli (cpus s ! c) = 0 \<Longrightarrow>
    lock_step s (s\<lparr>eif := (eif s)(c := b)\<rparr>)"

definition lock_init :: "machine \<Rightarrow> bool" where
  "lock_init s = (hw_ok s \<and> (\<forall>l. locked (locks s l) = 0 \<and> lkcpu (locks s l) = None) \<and>
     (\<forall>c. pc s c = Outside \<and> crit s c = {}) \<and> (\<forall>c < length (cpus s). ncli (cpus s ! c) = 0))"

definition lock_reachable :: "machine \<Rightarrow> machine \<Rightarrow> bool" where
  "lock_reachable s0 s = (lock_init s0 \<and> lock_step\<^sup>*\<^sup>* s0 s)"

section \<open>Invariant\<close>

text \<open>A processor owns a lock from the exchange that takes it to the store that frees it.\<close>

fun pc_owns :: "lock_pc \<Rightarrow> lockid \<Rightarrow> bool" where
  "pc_owns (Acquired k v) l = (k = l)"
| "pc_owns (Releasing k) l = (k = l)"
| "pc_owns _ l = False"

fun pc_lock :: "lock_pc \<Rightarrow> lockid set" where
  "pc_lock Outside = {}"
| "pc_lock (Spinning l v) = {l}"
| "pc_lock (Acquired l v) = {l}"
| "pc_lock (Releasing l) = {l}"

definition owners :: "machine \<Rightarrow> lockid \<Rightarrow> nat set" where
  "owners s l = {c. c < length (cpus s) \<and> (l \<in> crit s c \<or> pc_owns (pc s c) l)}"

lemma owners_update [simp]:
  "owners (s\<lparr>locks := k\<rparr>) l = owners s l" "owners (s\<lparr>eif := e\<rparr>) l = owners s l"
  by (simp_all add: owners_def)

lemma hw_ok_machine [simp]:
  "hw_ok (s\<lparr>pc := p\<rparr>) = hw_ok s" "hw_ok (s\<lparr>crit := C\<rparr>) = hw_ok s"
  by (simp_all add: hw_ok_def)

definition lock_word_ok :: "machine \<Rightarrow> lockid \<Rightarrow> bool" where
  "lock_word_ok s l =
     (if locked (locks s l) = 0 then owners s l = {} else \<exists>c. owners s l = {c})"

definition lock_cpu_ok :: "machine \<Rightarrow> lockid \<Rightarrow> bool" where
  "lock_cpu_ok s l = (\<forall>c. lkcpu (locks s l) = Some c \<longleftrightarrow> c < length (cpus s) \<and> l \<in> crit s c)"

definition cpu_ok :: "machine \<Rightarrow> nat \<Rightarrow> bool" where
  "cpu_ok s c = (finite (crit s c) \<and> pc_lock (pc s c) \<inter> crit s c = {} \<and>
     ncli (cpus s ! c) = int (card (crit s c)) + int (card (pc_lock (pc s c))) \<and>
     (ncli (cpus s ! c) > 0 \<longrightarrow> \<not> eif s c))"

definition lock_inv :: "machine \<Rightarrow> bool" where
  "lock_inv s = (hw_ok s \<and> (\<forall>l. lock_word_ok s l \<and> lock_cpu_ok s l) \<and>
     (\<forall>c < length (cpus s). cpu_ok s c))"

lemma cpu_ok_off:
  assumes "lock_inv s" "c < length (cpus s)" "pc s c \<noteq> Outside \<or> crit s c \<noteq> {}"
  shows "\<not> eif s c" "ncli (cpus s ! c) \<ge> 1"
proof -
  have ok: "cpu_ok s c" using assms by (simp add: lock_inv_def)
  then have "card (crit s c) > 0 \<or> card (pc_lock (pc s c)) > 0"
    using assms(3) by (cases "pc s c") (auto simp: cpu_ok_def card_gt_0_iff)
  then show "\<not> eif s c" "ncli (cpus s ! c) \<ge> 1"
    using ok by (auto simp: cpu_ok_def)
qed

lemma inv_not_free:
  assumes "lock_inv s" "c \<in> owners s l"
  shows "locked (locks s l) \<noteq> 0"
  using assms by (auto simp: lock_inv_def lock_word_ok_def split: if_splits)

lemma inv_lkcpu: "lock_inv s \<Longrightarrow> c < length (cpus s) \<Longrightarrow> lkcpu (locks s l) = Some c \<longleftrightarrow> l \<in> crit s c"
  by (simp add: lock_inv_def lock_cpu_ok_def)

lemma inv_holding:
  assumes "lock_inv s" "c < length (cpus s)"
  shows "(locked (locks s l) \<noteq> 0 \<and> lkcpu (locks s l) = Some c) \<longleftrightarrow> l \<in> crit s c"
  using assms inv_lkcpu [OF assms] inv_not_free [OF assms(1), of c l] by (auto simp: owners_def)

lemma owners_unique: "lock_inv s \<Longrightarrow> c \<in> owners s l \<Longrightarrow> owners s l = {c}"
  by (auto simp: lock_inv_def lock_word_ok_def split: if_splits)

text \<open>A step of processor \<open>c\<close> on lock \<open>l\<close> only has to be checked at \<open>c\<close> and \<open>l\<close>.\<close>

lemma lock_inv_local:
  assumes "lock_inv s" "hw_ok t" "length (cpus t) = length (cpus s)" "c < length (cpus s)"
    and other_cpu: "\<And>d. d \<noteq> c \<Longrightarrow> pc t d = pc s d \<and> crit t d = crit s d \<and> cpus t ! d = cpus s ! d \<and> eif t d = eif s d"
    and other_lock: "\<And>k. k \<noteq> l \<Longrightarrow> locks t k = locks s k \<and> pc_owns (pc t c) k = pc_owns (pc s c) k \<and>
      (k \<in> crit t c \<longleftrightarrow> k \<in> crit s c)"
    and "lock_word_ok t l" "lock_cpu_ok t l" "cpu_ok t c"
  shows "lock_inv t"
proof -
  have own: "owners t k = owners s k" if "k \<noteq> l" for k
    using other_cpu other_lock [OF that] assms(3) by (auto simp: owners_def) metis+
  have crit: "k \<in> crit t d \<longleftrightarrow> k \<in> crit s d" if "k \<noteq> l" for k d
    using other_cpu [of d] other_lock [OF that] by (cases "d = c") auto
  have "lock_word_ok t k \<and> lock_cpu_ok t k" for k
    using assms(1,3,7,8) own crit other_lock
    by (cases "k = l") (auto simp: lock_inv_def lock_word_ok_def lock_cpu_ok_def)
  moreover have "cpu_ok t d" if "d < length (cpus t)" for d
    using that assms(1,3,9) other_cpu [of d] by (cases "d = c") (auto simp: lock_inv_def cpu_ok_def)
  ultimately show ?thesis using assms(2) by (simp add: lock_inv_def)
qed

lemma acquire_enter_run:
  assumes "lock_inv s" "c < length (cpus s)"
  shows "acquire_enter c l s = (if l \<in> crit s c then Panic ''acquire''
    else Ok () (s\<lparr>eif := (eif s)(c := False), cpus := (cpus s)[c := push_cpu c s]\<rparr>))"
proof -
  let ?t = "s\<lparr>eif := (eif s)(c := False), cpus := (cpus s)[c := push_cpu c s]\<rparr>"
  have hw: "hw_ok s" using assms(1) by (simp add: lock_inv_def)
  then have "hw_ok ?t" using hw_ok_cpus [of "s\<lparr>eif := (eif s)(c := False)\<rparr>" "push_cpu c s" c]
    by (simp add: push_cpu_def Let_def)
  then have "spin_holding c l ?t = Ok (l \<in> crit s c) ?t"
    using assms inv_holding [OF assms, of l] by (simp add: spin_holding_run)
  then show ?thesis
    using assms hw by (simp add: acquire_enter_def thn_Ok [OF pushcli_run] bnd_Ok)
qed

lemma release_enter_run:
  assumes "lock_inv s" "c < length (cpus s)" "\<not> eif s c"
  shows "release_enter c l s = (if l \<in> crit s c
    then Ok () (s\<lparr>locks := (locks s)(l := (locks s l)\<lparr>pcs := (pcs (locks s l))[0 := 0], lkcpu := None\<rparr>)\<rparr>)
    else Panic ''release'')"
proof -
  have "hw_ok s" using assms(1) by (simp add: lock_inv_def)
  then have "spin_holding c l s = Ok (l \<in> crit s c) s"
    using assms inv_holding [OF assms(1,2), of l] by (simp add: spin_holding_run)
  then show ?thesis by (simp add: release_enter_def bnd_Ok set_lock_def)
qed

lemma release_enter_on:
  assumes "hw_ok s" "c < length (cpus s)" "eif s c"
  shows "release_enter c l s \<noteq> Ok u t"
  using assms by (simp add: release_enter_def kdefs spin_holding_def mycpu_run split: if_splits)

lemma acquire_exit_run:
  assumes "hw_ok s" "c < length (cpus s)" "\<not> eif s c"
  shows "acquire_exit c l v s = Ok () (s\<lparr>locks := (locks s)(l :=
    (locks s l)\<lparr>lkcpu := Some c, pcs := getcallerpcs (smem s) v\<rparr>)\<rparr>)"
  using assms by (simp add: acquire_exit_def mycpu_run kdefs set_lock_def)

lemma release_exit_run:
  assumes "hw_ok s" "c < length (cpus s)" "\<not> eif s c" "ncli (cpus s ! c) \<ge> 1"
  shows "release_exit c l s = Ok () (let x = cpus s ! c in
    s\<lparr>locks := (locks s)(l := (locks s l)\<lparr>locked := 0\<rparr>),
      cpus := (cpus s)[c := x\<lparr>ncli := ncli x - 1\<rparr>],
      eif := (if ncli x = 1 \<and> intena x then (eif s)(c := True) else eif s)\<rparr>)"
  using assms by (simp add: release_exit_def set_lock_def popcli_run Let_def)

lemma xchg_run: "xchg_locked l v s =
    Ok (locked (locks s l)) (s\<lparr>locks := (locks s)(l := (locks s l)\<lparr>locked := v\<rparr>)\<rparr>)"
  by (simp add: xchg_locked_def set_lock_def)

section \<open>Every step keeps the invariant\<close>

lemma step_enter:
  assumes "lock_inv s" "c < length (cpus s)" "pc s c = Outside" "l \<notin> crit s c"
  shows "lock_inv (s\<lparr>eif := (eif s)(c := False), cpus := (cpus s)[c := push_cpu c s],
    pc := (pc s)(c := Spinning l v)\<rparr>)" (is "lock_inv ?t")
proof (rule lock_inv_local [OF assms(1), where c = c and l = l])
  have hw: "hw_ok s" using assms(1) by (simp add: lock_inv_def)
  then have "hw_ok (s\<lparr>cpus := (cpus s)[c := push_cpu c s]\<rparr>)"
    by (rule hw_ok_cpus) (simp add: push_cpu_def Let_def)
  then show "hw_ok ?t" by (simp add: hw_ok_def)
  have "owners ?t l = owners s l" using assms by (auto simp: owners_def)
  with assms(1) show "lock_word_ok ?t l" by (simp add: lock_inv_def lock_word_ok_def)
  show "lock_cpu_ok ?t l" using assms(1) by (simp add: lock_inv_def lock_cpu_ok_def)
  show "cpu_ok ?t c"
    using assms by (auto simp: lock_inv_def cpu_ok_def push_cpu_def Let_def)
qed (use assms in auto)

lemma step_spin_busy:
  assumes "lock_inv s" "c < length (cpus s)" "locked (locks s l) \<noteq> 0"
  shows "lock_inv (s\<lparr>locks := (locks s)(l := (locks s l)\<lparr>locked := 1\<rparr>)\<rparr>)" (is "lock_inv ?t")
proof (rule lock_inv_local [OF assms(1), where c = c and l = l])
  show "lock_word_ok ?t l"
    using assms by (simp add: lock_inv_def lock_word_ok_def)
  show "lock_cpu_ok ?t l" using assms(1) by (simp add: lock_inv_def lock_cpu_ok_def)
  show "cpu_ok ?t c" using assms by (simp add: lock_inv_def cpu_ok_def)
qed (use assms in \<open>auto simp: lock_inv_def\<close>)

lemma step_spin_free:
  assumes "lock_inv s" "c < length (cpus s)" "pc s c = Spinning l v" "locked (locks s l) = 0"
  shows "lock_inv (s\<lparr>locks := (locks s)(l := (locks s l)\<lparr>locked := 1\<rparr>),
    pc := (pc s)(c := Acquired l v)\<rparr>)" (is "lock_inv ?t")
proof (rule lock_inv_local [OF assms(1), where c = c and l = l])
  have "owners s l = {}" using assms by (simp add: lock_inv_def lock_word_ok_def)
  then have "owners ?t l = {c}" using assms(2) by (auto simp: owners_def)
  then show "lock_word_ok ?t l" by (simp add: lock_word_ok_def)
  show "lock_cpu_ok ?t l" using assms(1) by (simp add: lock_inv_def lock_cpu_ok_def)
  show "cpu_ok ?t c" using assms by (auto simp: lock_inv_def cpu_ok_def)
qed (use assms in \<open>auto simp: lock_inv_def\<close>)

lemma step_taken:
  assumes "lock_inv s" "c < length (cpus s)" "pc s c = Acquired l v"
  shows "lock_inv (s\<lparr>locks := (locks s)(l := (locks s l)\<lparr>lkcpu := Some c, pcs := x\<rparr>),
    pc := (pc s)(c := Outside), crit := (crit s)(c := insert l (crit s c))\<rparr>)" (is "lock_inv ?t")
proof (rule lock_inv_local [OF assms(1), where c = c and l = l])
  have "c \<in> owners s l" using assms by (simp add: owners_def)
  then have own: "owners s l = {c}" by (rule owners_unique [OF assms(1)])
  then have o: "d = c" if "d < length (cpus s)" "l \<in> crit s d" for d
    using that by (auto simp: owners_def)
  have "owners ?t l = owners s l" using assms by (auto simp: owners_def)
  with assms(1) show "lock_word_ok ?t l" by (simp add: lock_inv_def lock_word_ok_def)
  show "lock_cpu_ok ?t l" using o assms(2) by (auto simp: lock_cpu_ok_def)
  have "l \<notin> crit s c" using assms by (auto simp: lock_inv_def cpu_ok_def)
  then show "cpu_ok ?t c" using assms by (auto simp: lock_inv_def cpu_ok_def)
qed (use assms in \<open>auto simp: lock_inv_def\<close>)

lemma step_leave:
  assumes "lock_inv s" "c < length (cpus s)" "pc s c = Outside" "l \<in> crit s c"
  shows "lock_inv (s\<lparr>locks := (locks s)(l := (locks s l)\<lparr>pcs := x, lkcpu := None\<rparr>),
    pc := (pc s)(c := Releasing l), crit := (crit s)(c := crit s c - {l})\<rparr>)" (is "lock_inv ?t")
proof (rule lock_inv_local [OF assms(1), where c = c and l = l])
  have "c \<in> owners s l" using assms by (simp add: owners_def)
  then have own: "owners s l = {c}" by (rule owners_unique [OF assms(1)])
  then have o: "d = c" if "d < length (cpus s)" "l \<in> crit s d" for d
    using that by (auto simp: owners_def)
  have "owners ?t l = owners s l" using assms by (auto simp: owners_def)
  with assms(1) show "lock_word_ok ?t l" by (simp add: lock_inv_def lock_word_ok_def)
  show "lock_cpu_ok ?t l" using o by (auto simp: lock_cpu_ok_def)
  have "card (crit s c) = Suc (card (crit s c - {l}))"
    using assms by (intro card.remove) (auto simp: lock_inv_def cpu_ok_def)
  then show "cpu_ok ?t c" using assms by (auto simp: lock_inv_def cpu_ok_def)
qed (use assms in \<open>auto simp: lock_inv_def\<close>)

lemma step_free:
  assumes "lock_inv s" "c < length (cpus s)" "pc s c = Releasing l"
    and "e = eif s \<or> (e = (eif s)(c := True) \<and> ncli (cpus s ! c) = 1)"
  shows "lock_inv (s\<lparr>locks := (locks s)(l := (locks s l)\<lparr>locked := 0\<rparr>),
    cpus := (cpus s)[c := (cpus s ! c)\<lparr>ncli := ncli (cpus s ! c) - 1\<rparr>], eif := e,
    pc := (pc s)(c := Outside)\<rparr>)" (is "lock_inv ?t")
proof (rule lock_inv_local [OF assms(1), where c = c and l = l])
  have "hw_ok s" using assms(1) by (simp add: lock_inv_def)
  then have "hw_ok (s\<lparr>cpus := (cpus s)[c := (cpus s ! c)\<lparr>ncli := ncli (cpus s ! c) - 1\<rparr>]\<rparr>)"
    by (rule hw_ok_cpus) simp
  then show "hw_ok ?t" by (simp add: hw_ok_def)
  have "c \<in> owners s l" using assms by (simp add: owners_def)
  then have own: "owners s l = {c}" by (rule owners_unique [OF assms(1)])
  moreover have "l \<notin> crit s c" using assms by (auto simp: lock_inv_def cpu_ok_def)
  ultimately have "owners ?t l = {}" by (auto simp: owners_def)
  then show "lock_word_ok ?t l" by (simp add: lock_word_ok_def)
  show "lock_cpu_ok ?t l" using assms(1) by (simp add: lock_inv_def lock_cpu_ok_def)
  show "cpu_ok ?t c" using assms by (auto simp: lock_inv_def cpu_ok_def)
qed (use assms in auto)

lemma step_interrupts:
  assumes "lock_inv s" "c < length (cpus s)" "ncli (cpus s ! c) = 0"
  shows "lock_inv (s\<lparr>eif := (eif s)(c := b)\<rparr>)"
  using assms by (simp add: lock_inv_def lock_word_ok_def lock_cpu_ok_def) (auto simp: cpu_ok_def)

lemma lock_step_inv: "lock_step s t \<Longrightarrow> lock_inv s \<Longrightarrow> lock_inv t"
proof (induction rule: lock_step.induct)
  case (enter c s l t v)
  then show ?case using step_enter [of s c l v] by (auto simp: acquire_enter_run split: if_splits)
next
  case (spin_busy c s l v old t)
  then show ?case using step_spin_busy [of s c l] by (auto simp: xchg_run)
next
  case (spin_free c s l v old t)
  then show ?case using step_spin_free [of s c l v] by (auto simp: xchg_run)
next
  case (taken c s l v t)
  then have "\<not> eif s c" "hw_ok s" using cpu_ok_off [of s c] by (auto simp: lock_inv_def)
  with taken show ?case
    using step_taken [of s c l v] by (auto simp: acquire_exit_run)
next
  case (leave c s l t)
  then have "\<not> eif s c" using release_enter_on [of s c l] by (auto simp: lock_inv_def)
  with leave show ?case
    using step_leave [of s c l] by (auto simp: release_enter_run split: if_splits)
next
  case (free c s l t)
  then have "\<not> eif s c" "hw_ok s" "ncli (cpus s ! c) \<ge> 1" using cpu_ok_off [of s c] by (auto simp: lock_inv_def)
  with free show ?case
    using step_free [of s c l "eif t"] by (auto simp: release_exit_run Let_def)
next
  case (interrupts c s b)
  then show ?case by (simp add: step_interrupts)
qed

lemma lock_init_inv: "lock_init s \<Longrightarrow> lock_inv s"
  by (auto simp: lock_init_def lock_inv_def lock_word_ok_def lock_cpu_ok_def cpu_ok_def owners_def)

interpretation spin: transition_system lock_init lock_step lock_inv
  by unfold_locales (auto intro: lock_init_inv lock_step_inv)

section \<open>One uninterrupted call\<close>

text \<open>The locks that processor \<open>c\<close> holds, as the rest of the kernel sees them.\<close>

definition view :: "nat \<Rightarrow> 'z smp_scheme \<Rightarrow> kbase" where
  "view c s = \<lparr>held = {l. locked (locks s l) \<noteq> 0 \<and> lkcpu (locks s l) = Some c}\<rparr>"

lemma spin_acquire_run:
  assumes "hw_ok s" "c < length (cpus s)" "locked (locks s l) = 0" "lkcpu (locks s l) \<noteq> Some c"
  shows "spin_acquire (Suc fuel) c l v s = Ok () (s\<lparr>eif := (eif s)(c := False),
    cpus := (cpus s)[c := push_cpu c s],
    locks := (locks s)(l := (locks s l)\<lparr>locked := 1, lkcpu := Some c, pcs := getcallerpcs (smem s) v\<rparr>)\<rparr>)"
proof -
  let ?s = "s\<lparr>eif := (eif s)(c := False), cpus := (cpus s)[c := push_cpu c s]\<rparr>"
  have hw: "hw_ok ?s" using assms(1) hw_ok_cpus [of "s\<lparr>eif := (eif s)(c := False)\<rparr>" "push_cpu c s" c]
    by (simp add: push_cpu_def Let_def)
  have "acquire_enter c l s = Ok () ?s"
    using assms hw by (simp add: acquire_enter_def thn_Ok [OF pushcli_run] bnd_Ok [OF spin_holding_run])
  moreover have "acquire_spin (Suc fuel) l ?s = Ok () (?s\<lparr>locks := (locks s)(l := (locks s l)\<lparr>locked := 1\<rparr>)\<rparr>)"
    using assms(3) by (simp add: bnd_Ok [OF xchg_run])
  ultimately show ?thesis
    using assms(2) hw by (simp add: spin_acquire_def thn_Ok acquire_exit_run del: acquire_spin.simps)
qed

lemma acquire_busy_spins:
  assumes "locked (locks s l) \<noteq> 0"
  shows "acquire_spin fuel l s = Diverge"
  using assms
proof (induction fuel arbitrary: s)
  case (Suc fuel)
  then show ?case by (simp add: bnd_Ok [OF xchg_run])
qed (simp add: diverge_def)

section \<open>Properties\<close>

text \<open>C6: mutual exclusion. In every state that the processors can reach by running \<open>acquire\<close> and
  \<open>release\<close> in any interleaving, two processors are never in the critical section of the same lock,
  the test \<open>holding\<close> is exact, and a processor that is in a critical section has its interrupts off.\<close>

theorem spinlock_mutual_exclusion:
  assumes "lock_reachable s0 s" and "c < length (cpus s)" and "l \<in> crit s c"
  shows "(d < length (cpus s) \<and> l \<in> crit s d \<longrightarrow> d = c) \<and> \<not> eif s c \<and>
    spin_holding c l s = Ok True s \<and> acquire_enter c l s = Panic ''acquire''"
proof -
  have inv: "lock_inv s" using assms(1) spin.reachable_inv by (auto simp: lock_reachable_def)
  then have off: "\<not> eif s c" and hw: "hw_ok s"
    using assms cpu_ok_off(1) [of s c] by (auto simp: lock_inv_def)
  have "owners s l = {c}" using assms inv by (intro owners_unique) (auto simp: owners_def)
  then have "d < length (cpus s) \<and> l \<in> crit s d \<longrightarrow> d = c" by (auto simp: owners_def)
  with off hw show ?thesis
    using assms inv inv_holding [OF inv assms(2), of l]
    by (simp add: spin_holding_run acquire_enter_run)
qed

text \<open>Two processors; the first takes the process table lock.\<close>

definition smp2 :: machine where
  "smp2 = \<lparr>locks = (\<lambda>_. \<lparr>locked = 0, lkname = [], lkcpu = None, pcs = replicate 10 0\<rparr>),
     cpus = [\<lparr>apicid = 0, ncli = 0, intena = False\<rparr>, \<lparr>apicid = 1, ncli = 0, intena = False\<rparr>],
     lapicid = int, eif = (\<lambda>_. True), smem = (\<lambda>_. 0), pc = (\<lambda>_. Outside), crit = (\<lambda>_. {})\<rparr>"

lemma smp2_init: "lock_init smp2"
  by (auto simp: lock_init_def smp2_def hw_ok_def nth_Cons' less_Suc_eq)

lemma smp2_reach: "\<exists>s. lock_reachable smp2 s \<and> length (cpus s) = 2 \<and> LPtable \<in> crit s 0"
proof -
  note inv = lock_init_inv [OF smp2_init]
  let ?a = "smp2\<lparr>eif := (eif smp2)(0 := False), cpus := (cpus smp2)[0 := push_cpu 0 smp2],
    pc := (pc smp2)(0 := Spinning LPtable 0)\<rparr>"
  let ?b = "?a\<lparr>locks := (locks ?a)(LPtable := (locks ?a LPtable)\<lparr>locked := 1\<rparr>),
    pc := (pc ?a)(0 := Acquired LPtable 0)\<rparr>"
  have n: "0 < length (cpus smp2)" "pc smp2 0 = Outside" "LPtable \<notin> crit smp2 0"
    "locked (locks smp2 LPtable) = 0" "length (cpus smp2) = 2"
    by (simp_all add: smp2_def)
  have a: "lock_step smp2 ?a"
    using lock_step.enter [of 0 smp2 LPtable _ 0] n inv by (simp add: acquire_enter_run)
  have b: "lock_step ?a ?b"
    using lock_step.spin_free [of 0 ?a LPtable 0 0] n by (simp add: xchg_run)
  have "lock_inv ?b" using lock_step_inv [OF b lock_step_inv [OF a inv]] .
  then obtain t where t: "acquire_exit 0 LPtable 0 ?b = Ok () t" "length (cpus t) = 2"
    using acquire_exit_run [of ?b 0 LPtable 0] n by (auto simp: lock_inv_def)
  let ?c = "t\<lparr>pc := (pc t)(0 := Outside), crit := (crit t)(0 := insert LPtable (crit t 0))\<rparr>"
  have "lock_step ?b ?c" using lock_step.taken [of 0 ?b LPtable 0 t] t n by simp
  with a b have "lock_step\<^sup>*\<^sup>* smp2 ?c"
    by (meson converse_rtranclp_into_rtranclp rtranclp.rtrancl_refl)
  with t smp2_init show ?thesis
    by (intro exI [of _ ?c]) (simp add: lock_reachable_def)
qed

theorem spinlock_mutual_exclusion_witness:
  "\<exists>s. lock_reachable smp2 s \<and> LPtable \<in> crit s 0 \<and> \<not> eif s 0"
  using smp2_reach spinlock_mutual_exclusion [of smp2 _ 0 LPtable] by fastforce

text \<open>Refinement. On a machine whose lock \<open>l\<close> is free or held by the caller, \<open>acquire\<close> changes
  the caller's set of held locks, or panics, exactly as the abstract \<open>acquire\<close> on that set does; the
  loop needs one exchange. \<open>release\<close> with interrupts off does too.\<close>

theorem spinlock_refines_held:
  assumes "lock_inv s" and "c < length (cpus s)"
    and "l \<in> crit s c \<or> locked (locks s l) = 0"
  shows "map_outcome (view c) id (spin_acquire (Suc fuel) c l v s) = acquire l (view c s) \<and>
    (\<not> eif s c \<longrightarrow> map_outcome (view c) id (spin_release c l s) = release l (view c s))"
proof -
  have held: "l \<in> held (view c s) \<longleftrightarrow> l \<in> crit s c"
    using inv_holding [OF assms(1,2), of l] by (simp add: view_def)
  have hw: "hw_ok s" using assms(1) by (simp add: lock_inv_def)
  have acq: "map_outcome (view c) id (spin_acquire (Suc fuel) c l v s) = acquire l (view c s)"
  proof (cases "l \<in> crit s c")
    case True
    then show ?thesis
      using held acquire_enter_run [OF assms(1,2), of l]
      by (simp add: spin_acquire_def thn_def bnd_def acquire_twice)
  next
    case False
    then have "locked (locks s l) = 0" "lkcpu (locks s l) \<noteq> Some c"
      using assms inv_lkcpu by auto
    then show ?thesis
      using held False assms(2) hw by (auto simp: spin_acquire_run view_def)
  qed
  have "map_outcome (view c) id (spin_release c l s) = release l (view c s)" if off: "\<not> eif s c"
  proof (cases "l \<in> crit s c")
    case True
    then have "ncli (cpus s ! c) \<ge> 1" using assms cpu_ok_off(2) by blast
    then show ?thesis
      using True held off hw assms(1,2)
      by (auto simp: spin_release_def thn_Ok [OF trans [OF release_enter_run if_P]]
          release_exit_run view_def Let_def)
  next
    case False
    then show ?thesis
      using held off assms(1,2) by (simp add: spin_release_def thn_def bnd_def release_enter_run release_free)
  qed
  with acq show ?thesis by blast
qed

theorem spinlock_refines_held_witness:
  "map_outcome (view 0) id (spin_acquire (Suc 0) 0 LKmem 0 smp2) = acquire LKmem (view 0 smp2)"
  using spinlock_refines_held [OF lock_init_inv [OF smp2_init], of 0 LKmem 0 0]
  by (simp add: smp2_def)

end
