(* ===== verification/Kalloc.thy ===== *)
theory Kalloc
  imports Kernel
begin

text \<open>
  The physical page allocator of \<open>kalloc.c\<close>: a free list threaded through the free
  pages themselves, a count of free pages, and one reference count per physical page. \<open>kend\<close>
  is the linker symbol \<open>end\<close>, the first address after the loaded kernel.
\<close>

section \<open>State and operations\<close>

record kmem = kbase +
  mem :: memory
  freelist :: u32
  use_lock :: bool
  amount_of_free_pages :: u32
  page_refs_num :: "u32 \<Rightarrow> u32"
  kend :: u32

text \<open>Index of the page of physical address \<open>pa\<close> in \<open>page_refs_num\<close>.\<close>

definition pgidx :: "u32 \<Rightarrow> u32" where
  "pgidx pa = drop_bit PGSHIFT pa"

definition refs_of :: "'z kmem_scheme \<Rightarrow> u32 \<Rightarrow> u32" where
  "refs_of s v = page_refs_num s (pgidx (V2P v))"

definition set_refs :: "u32 \<Rightarrow> (u32 \<Rightarrow> u32) \<Rightarrow> 'z kmem_scheme \<Rightarrow> 'z kmem_scheme" where
  "set_refs pa f s =
     s\<lparr>page_refs_num := (page_refs_num s)(pgidx pa := f (page_refs_num s (pgidx pa)))\<rparr>"

definition lock_kmem :: "('z kmem_scheme, unit) kern" where
  "lock_kmem = bnd (gets use_lock) (\<lambda>u. whenk u (acquire LKmem))"

definition unlock_kmem :: "('z kmem_scheme, unit) kern" where
  "unlock_kmem = bnd (gets use_lock) (\<lambda>u. whenk u (release LKmem))"

definition kfree :: "u32 \<Rightarrow> ('z kmem_scheme, unit) kern" where
  "kfree v =
     bnd (gets kend) (\<lambda>e.
     if unat v mod unat PGSIZE \<noteq> 0 \<or> v < e \<or> V2P v \<ge> PHYSTOP then panic ''kfree''
     else
       thn lock_kmem (
       thn (bnd (gets (\<lambda>s. page_refs_num s (pgidx (V2P v)))) (\<lambda>n.
         if n = 0 then
           modify (\<lambda>s. s\<lparr>amount_of_free_pages := amount_of_free_pages s + 1,
                          mem := st32 (mem s) v (freelist s),
                          freelist := v\<rparr>)
         else if n > 0 then modify (set_refs (V2P v) (\<lambda>n. n - 1))
         else ret ()))
       unlock_kmem))"

definition kalloc :: "('z kmem_scheme, u32) kern" where
  "kalloc =
     thn lock_kmem (
     bnd (gets freelist) (\<lambda>r.
     thn (whenk (r \<noteq> 0)
            (modify (\<lambda>s. set_refs (V2P r) (\<lambda>_. 1)
               (s\<lparr>freelist := ld32 (mem s) r,
                  amount_of_free_pages := amount_of_free_pages s - 1\<rparr>))))
     (thn unlock_kmem (ret r))))"

text \<open>
  \<open>freerange\<close> frees every whole page of \<open>[vstart, vend)\<close>. The loop counter \<open>p\<close> goes up by a page
  and stops when \<open>p + PGSIZE\<close> passes \<open>vend\<close>; the 32-bit address space has \<open>2^20\<close> pages, so a
  bound of that many iterations is reached only if \<open>p\<close> wraps around.
\<close>

fun freerange_loop :: "nat \<Rightarrow> u32 \<Rightarrow> u32 \<Rightarrow> ('z kmem_scheme, unit) kern" where
  "freerange_loop 0 p vend = diverge"
| "freerange_loop (Suc fuel) p vend =
     (if p + PGSIZE \<le> vend then
        thn (kfree p) (thn (modify (set_refs (V2P p) (\<lambda>_. 0)))
          (freerange_loop fuel (p + PGSIZE) vend))
      else ret ())"

definition freerange :: "u32 \<Rightarrow> u32 \<Rightarrow> ('z kmem_scheme, unit) kern" where
  "freerange vstart vend = freerange_loop (2 ^ 20) (PGROUNDUP vstart) vend"

definition kinit1 :: "u32 \<Rightarrow> u32 \<Rightarrow> ('z kmem_scheme, unit) kern" where
  "kinit1 vstart vend =
     thn (modify (\<lambda>s. s\<lparr>held := held s - {LKmem}, use_lock := False, amount_of_free_pages := 0\<rparr>))
     (freerange vstart vend)"

definition kinit2 :: "u32 \<Rightarrow> u32 \<Rightarrow> ('z kmem_scheme, unit) kern" where
  "kinit2 vstart vend = thn (freerange vstart vend) (modify (\<lambda>s. s\<lparr>use_lock := True\<rparr>))"

definition dec_ref_count :: "u32 \<Rightarrow> ('z kmem_scheme, unit) kern" where
  "dec_ref_count pa =
     bnd (gets kend) (\<lambda>e.
     if pa < V2P e \<or> pa \<ge> PHYSTOP then panic ''dec_ref_count''
     else thn (acquire LKmem) (thn (modify (set_refs pa (\<lambda>n. n - 1))) (release LKmem)))"

definition inc_ref_count :: "u32 \<Rightarrow> ('z kmem_scheme, unit) kern" where
  "inc_ref_count pa =
     bnd (gets kend) (\<lambda>e.
     if pa < V2P e \<or> pa \<ge> PHYSTOP then panic ''inc_ref_count''
     else thn (acquire LKmem) (thn (modify (set_refs pa (\<lambda>n. n + 1))) (release LKmem)))"

definition get_ref_count :: "u32 \<Rightarrow> ('z kmem_scheme, u32) kern" where
  "get_ref_count pa =
     bnd (gets kend) (\<lambda>e.
     if pa < V2P e \<or> pa \<ge> PHYSTOP then panic ''get_ref_count''
     else thn (acquire LKmem) (
          bnd (gets (\<lambda>s. page_refs_num s (pgidx pa))) (\<lambda>count.
          thn (release LKmem) (ret count))))"

definition numberOfFreePages :: "('z kmem_scheme, int) kern" where
  "numberOfFreePages =
     thn (acquire LKmem) (
     bnd (gets (\<lambda>s. sint (amount_of_free_pages s))) (\<lambda>n.
     thn (release LKmem) (ret n)))"

section \<open>The free list\<close>

text \<open>\<open>fl m p xs\<close>: starting at \<open>p\<close>, the next-pointers in memory lead through the pages \<open>xs\<close> to null.\<close>

primrec fl :: "memory \<Rightarrow> u32 \<Rightarrow> u32 list \<Rightarrow> bool" where
  "fl m p [] = (p = 0)"
| "fl m p (x # xs) = (p = x \<and> x \<noteq> 0 \<and> fl m (ld32 m x) xs)"

text \<open>A page that the allocator may hand out.\<close>

definition page_ok :: "'z kmem_scheme \<Rightarrow> u32 \<Rightarrow> bool" where
  "page_ok s v = (unat v mod 4096 = 0 \<and> kend s \<le> v \<and> V2P v < PHYSTOP \<and> v \<noteq> 0)"

text \<open>
  The allocator's invariant, for the list \<open>xs\<close> of free pages: the chain in memory is \<open>xs\<close>, its
  pages are distinct, allocatable and unreferenced, and the counter is their number.
\<close>

definition kmem_inv :: "u32 list \<Rightarrow> 'z kmem_scheme \<Rightarrow> bool" where
  "kmem_inv xs s = (fl (mem s) (freelist s) xs \<and> distinct xs \<and>
     (\<forall>x \<in> set xs. page_ok s x \<and> refs_of s x = 0) \<and>
     unat (amount_of_free_pages s) = length xs)"

section \<open>Page arithmetic\<close>

lemma unat_V2P: "KERNBASE \<le> v \<Longrightarrow> unat (V2P v) = unat v - 2 ^ 31"
  by (simp add: V2P_def KERNBASE_def unat_sub_if' word_le_nat_alt)

lemma unat_pgidx: "unat (pgidx pa) = unat pa div 4096"
  by (simp add: pgidx_def PGSHIFT_def drop_bit_eq_div unat_div)

lemma V2P_mod_page: "unat (V2P v) mod 4096 = unat v mod 4096"
proof -
  have "unat (V2P v) mod 4096 = (unat v + 2 ^ 31) mod 2 ^ 32 mod 4096"
    by (simp add: P2V_eq_V2P [symmetric] P2V_def KERNBASE_def unat_word_ariths)
  also have "\<dots> = (unat v + 2 ^ 31) mod 4096"
    by (rule mod_mod_cancel) simp
  also have "\<dots> = unat v mod 4096"
    using mod_add_right_eq [of "unat v" "2 ^ 31" 4096] by simp
  finally show ?thesis .
qed

lemma pgidx_inj:
  assumes "unat v mod 4096 = 0" "unat w mod 4096 = 0" "pgidx (V2P v) = pgidx (V2P w)"
  shows "v = w"
proof -
  have "unat (V2P v) div 4096 = unat (V2P w) div 4096"
    using assms(3) by (metis unat_pgidx)
  then have "unat (V2P v) = unat (V2P w)"
    using assms(1,2) V2P_mod_page [of v] V2P_mod_page [of w] by (metis div_mult_mod_eq)
  then show ?thesis by (metis P2V_V2P word_unat_eq_iff)
qed

lemma page_ok_aligned: "page_ok s v \<Longrightarrow> aligned4 v"
  by (auto simp: page_ok_def intro: page_aligned_aligned4 simp: page_aligned_def)

text \<open>There are at most \<open>PHYSTOP / PGSIZE\<close> allocatable pages, so the counter cannot overflow.\<close>

lemma page_ok_card:
  assumes "distinct xs" "\<forall>x \<in> set xs. page_ok s x"
  shows "length xs \<le> 57344"
proof -
  let ?f = "\<lambda>v. unat (pgidx (V2P v))"
  have "inj_on ?f (set xs)"
    using assms(2) by (auto simp: inj_on_def page_ok_def simp flip: word_unat_eq_iff intro: pgidx_inj)
  moreover have "?f ` set xs \<subseteq> {..<57344}"
    using assms(2) by (auto simp: page_ok_def unat_pgidx PHYSTOP_def word_less_nat_alt)
  ultimately have "card (set xs) \<le> card {..<57344 :: nat}"
    by (metis card_inj_on_le finite_lessThan)
  with assms(1) show ?thesis by (simp add: distinct_card)
qed

section \<open>Free-list lemmas\<close>

lemma fl_store:
  assumes "v \<notin> set xs" "aligned4 v" "\<forall>x \<in> set xs. aligned4 x"
  shows "fl (st32 m v w) p xs = fl m p xs"
  using assms by (induction xs arbitrary: p) (auto simp: ld32_st32_other)

lemma fl_null: "fl m p xs \<Longrightarrow> p = 0 \<longleftrightarrow> xs = []"
  by (cases xs) auto

lemma refs_of_set_refs:
  assumes "unat v mod 4096 = 0" "unat w mod 4096 = 0"
  shows "refs_of (set_refs (V2P v) f s) w = (if w = v then f (refs_of s v) else refs_of s w)"
  using assms pgidx_inj by (auto simp: refs_of_def set_refs_def)

lemma set_refs_simps [simp]:
  "mem (set_refs pa f s) = mem s" "freelist (set_refs pa f s) = freelist s"
  "use_lock (set_refs pa f s) = use_lock s" "held (set_refs pa f s) = held s"
  "amount_of_free_pages (set_refs pa f s) = amount_of_free_pages s" "kend (set_refs pa f s) = kend s"
  by (simp_all add: set_refs_def)

lemma page_ok_set_refs [simp]: "page_ok (set_refs pa f s) v = page_ok s v"
  by (simp add: page_ok_def)

text \<open>The kernel lock is free, or not in use yet.\<close>

definition kmem_ready :: "'z kmem_scheme \<Rightarrow> bool" where
  "kmem_ready s = (use_lock s \<longrightarrow> LKmem \<notin> held s)"

lemma held_restore: "l \<notin> held s \<Longrightarrow> s\<lparr>held := insert l (held s) - {l}\<rparr> = s"
  by (cases s) simp

lemma lock_kmem_run: "kmem_ready s \<Longrightarrow>
    lock_kmem s = Ok () (if use_lock s then s\<lparr>held := insert LKmem (held s)\<rparr> else s)"
  by (simp add: lock_kmem_def whenk_apply kmem_ready_def)

lemma unlock_kmem_run: "(use_lock s \<longrightarrow> LKmem \<in> held s) \<Longrightarrow>
    unlock_kmem s = Ok () (if use_lock s then s\<lparr>held := held s - {LKmem}\<rparr> else s)"
  by (simp add: unlock_kmem_def whenk_apply)

section \<open>Behaviour of allocation and freeing\<close>

text \<open>The successor state of a \<open>kalloc\<close> that returns \<open>x\<close>, and of the two kinds of \<open>kfree\<close>.\<close>

definition popped :: "u32 \<Rightarrow> 'z kmem_scheme \<Rightarrow> 'z kmem_scheme" where
  "popped x s = set_refs (V2P x) (\<lambda>_. 1)
     (s\<lparr>freelist := ld32 (mem s) x, amount_of_free_pages := amount_of_free_pages s - 1\<rparr>)"

definition pushed :: "u32 \<Rightarrow> 'z kmem_scheme \<Rightarrow> 'z kmem_scheme" where
  "pushed v s = s\<lparr>amount_of_free_pages := amount_of_free_pages s + 1,
     mem := st32 (mem s) v (freelist s), freelist := v\<rparr>"

lemma kalloc_run:
  assumes "kmem_ready s"
  shows "kalloc s = Ok (freelist s) (if freelist s = 0 then s else popped (freelist s) s)"
  using assms
  by (cases "use_lock s")
    (simp_all add: kalloc_def kdefs lock_kmem_run unlock_kmem_run popped_def set_refs_def kmem_ready_def)

lemma kfree_run:
  assumes "kmem_ready s" "page_ok s v"
  shows "kfree v s = Ok () (if refs_of s v = 0 then pushed v s else set_refs (V2P v) (\<lambda>n. n - 1) s)"
  using assms
  by (cases "use_lock s")
    (simp_all add: kfree_def kdefs lock_kmem_run unlock_kmem_run pushed_def set_refs_def refs_of_def
      page_ok_def PGSIZE_def not_le not_less word_neq_0_conv kmem_ready_def)

lemma kfree_bad: "\<not> page_ok s v \<Longrightarrow> v \<noteq> 0 \<Longrightarrow> kfree v s = Panic ''kfree''"
  by (auto simp: kfree_def page_ok_def PGSIZE_def not_le not_less)

lemma kmem_inv_Cons:
  assumes "kmem_inv (x # xs) s"
  shows "freelist s = x" "page_ok s x" "refs_of s x = 0" "x \<noteq> 0" "x \<notin> set xs"
  using assms by (auto simp: kmem_inv_def)

lemma popped_inv:
  assumes "kmem_inv (x # xs) s"
  shows "kmem_inv xs (popped x s)"
proof -
  have "\<forall>y \<in> set xs. unat y mod 4096 = 0 \<and> y \<noteq> x" and x: "unat x mod 4096 = 0"
    using assms by (auto simp: kmem_inv_def page_ok_def)
  then have "\<forall>y \<in> set xs. refs_of (popped x s) y = 0"
    using assms by (auto simp: popped_def refs_of_set_refs kmem_inv_def) (auto simp: refs_of_def)
  moreover have "unat (amount_of_free_pages s - 1) = length xs"
  proof -
    have "unat (amount_of_free_pages s) = Suc (length xs)" using assms by (simp add: kmem_inv_def)
    then show ?thesis by (simp add: unat_sub_if')
  qed
  ultimately show ?thesis
    using assms by (auto simp: kmem_inv_def popped_def page_ok_def)
qed

lemma pushed_inv:
  assumes "kmem_inv xs s" "page_ok s v" "refs_of s v = 0" "v \<notin> set xs"
  shows "kmem_inv (v # xs) (pushed v s)"
proof -
  have "\<forall>x \<in> set xs. aligned4 x" "aligned4 v"
    using assms by (auto simp: kmem_inv_def intro: page_ok_aligned)
  then have "fl (st32 (mem s) v (freelist s)) (freelist s) xs"
    using assms by (simp add: fl_store kmem_inv_def)
  moreover have "length xs \<le> 57344"
    using assms(1) by (auto simp: kmem_inv_def intro: page_ok_card)
  then have "unat (amount_of_free_pages s + 1) = Suc (length xs)"
    using assms(1) by (simp add: kmem_inv_def unat_plus_if')
  ultimately show ?thesis
    using assms by (auto simp: kmem_inv_def pushed_def page_ok_def refs_of_def)
qed

lemma dec_refs_inv:
  assumes "kmem_inv xs s" "page_ok s v" "refs_of s v \<noteq> 0"
  shows "kmem_inv xs (set_refs (V2P v) (\<lambda>n. n - 1) s)"
proof -
  have "v \<notin> set xs" using assms by (auto simp: kmem_inv_def)
  then have "\<forall>x \<in> set xs. refs_of (set_refs (V2P v) (\<lambda>n. n - 1) s) x = 0"
    using assms by (auto simp: kmem_inv_def page_ok_def refs_of_set_refs)
  with assms show ?thesis by (simp add: kmem_inv_def)
qed

lemma popped_ready [simp]: "kmem_ready (popped x s) = kmem_ready s"
  by (simp add: kmem_ready_def popped_def)

lemma pushed_ready [simp]: "kmem_ready (pushed x s) = kmem_ready s"
  by (simp add: kmem_ready_def pushed_def)

lemma set_refs_ready [simp]: "kmem_ready (set_refs pa f s) = kmem_ready s"
  by (simp add: kmem_ready_def)

section \<open>The allocator as a page source\<close>

text \<open>
  What a client of the allocator relies on: while pages are left, \<open>alloc\<close> hands out the next
  one and it is not handed out again; when none is left it returns the null page and changes
  nothing.
\<close>

locale page_source =
  fixes alloc :: "('s, 'p) kern" and inv :: "'p list \<Rightarrow> 's \<Rightarrow> bool"
    and ready :: "'s \<Rightarrow> bool" and null :: 'p
  assumes alloc_some: "inv (x # xs) s \<Longrightarrow> ready s \<Longrightarrow> \<exists>t. alloc s = Ok x t \<and> inv xs t \<and> ready t"
    and alloc_none: "inv [] s \<Longrightarrow> ready s \<Longrightarrow> alloc s = Ok null s"
    and inv_distinct: "inv xs s \<Longrightarrow> distinct xs \<and> null \<notin> set xs"
begin

lemma source_run:
  assumes "inv xs s" "ready s" "n \<le> length xs"
  shows "\<exists>t. repeatk n alloc s = Ok (take n xs) t \<and> inv (drop n xs) t \<and> ready t"
  using assms
proof (induction n arbitrary: xs s)
  case 0
  then show ?case by simp
next
  case (Suc n)
  then obtain x ys where xs: "xs = x # ys" by (cases xs) auto
  with Suc.prems obtain t where t: "alloc s = Ok x t" "inv ys t" "ready t"
    using alloc_some by blast
  with Suc.prems xs obtain u where "repeatk n alloc t = Ok (take n ys) u" "inv (drop n ys) u" "ready u"
    using Suc.IH [of ys t] by auto
  with t xs show ?case by (simp add: bnd_def)
qed

lemma source_exhausted:
  assumes "inv xs s" "ready s"
  shows "\<exists>t. repeatk (length xs + k) alloc s = Ok (xs @ replicate k null) t \<and> inv [] t"
  using assms
proof (induction xs arbitrary: s)
  case Nil
  then have "alloc s = Ok null s" by (rule alloc_none)
  then have "repeatk k alloc s = Ok (replicate k null) s" by (induction k) (auto simp: bnd_def)
  with Nil show ?case by simp
next
  case (Cons x xs)
  then obtain t where t: "alloc s = Ok x t" "inv xs t" "ready t"
    using alloc_some by blast
  with Cons.IH [of t] show ?case by (auto simp: bnd_def)
qed

end

interpretation km: page_source kalloc kmem_inv kmem_ready 0
proof unfold_locales
  fix x xs and s :: "'a kmem_scheme"
  assume "kmem_inv (x # xs) s" "kmem_ready s"
  then show "\<exists>t. kalloc s = Ok x t \<and> kmem_inv xs t \<and> kmem_ready t"
    using kmem_inv_Cons [of x xs s] popped_inv [of x xs s] by (auto simp: kalloc_run)
next
  fix s :: "'a kmem_scheme"
  assume "kmem_inv [] s" "kmem_ready s"
  then show "kalloc s = Ok 0 s" by (simp add: kalloc_run kmem_inv_def)
next
  fix xs and s :: "'a kmem_scheme"
  assume "kmem_inv xs s"
  then show "distinct xs \<and> 0 \<notin> set xs" by (auto simp: kmem_inv_def page_ok_def)
qed

section \<open>Boot: freeing a range of pages\<close>

definition pages :: "u32 \<Rightarrow> nat \<Rightarrow> u32 list" where
  "pages p n = map (\<lambda>i. p + of_nat (4096 * i)) [0..<n]"

lemma pages_Suc: "pages p (Suc n) = p # pages (p + 4096) n"
  by (simp add: pages_def map_upt_Suc add_ac del: upt_Suc)

lemma pages_0 [simp]: "pages p 0 = []"
  by (simp add: pages_def)

lemma unat_page:
  assumes "unat p + 4096 * n < 2 ^ 32" "i \<le> n"
  shows "unat (p + of_nat (4096 * i) :: u32) = unat p + 4096 * i"
proof -
  have "4096 * i \<le> 4096 * n" using assms by simp
  then have "unat p + 4096 * i < 2 ^ 32" using assms by linarith
  then show ?thesis by (simp add: unat_word_ariths unat_of_nat mod_simps)
qed

lemma pages_bounds:
  assumes "unat p + 4096 * n < 2 ^ 32" "x \<in> set (pages p n)"
  shows "\<exists>i < n. unat x = unat p + 4096 * i"
  using assms unat_page [OF assms(1)] by (fastforce simp: pages_def)

text \<open>A range of memory that the allocator may take over.\<close>

definition free_range_ok :: "'z kmem_scheme \<Rightarrow> u32 \<Rightarrow> nat \<Rightarrow> bool" where
  "free_range_ok s p n = (unat p mod 4096 = 0 \<and> unat (kend s) \<le> unat p \<and> 2 ^ 31 \<le> unat p \<and>
     unat p + 4096 * n \<le> 2 ^ 31 + unat PHYSTOP)"

lemma free_range_page_ok:
  assumes "free_range_ok s p n" "x \<in> set (pages p n)"
  shows "page_ok s x"
proof -
  have lim: "unat p + 4096 * n < 2 ^ 32" using assms(1) by (simp add: free_range_ok_def PHYSTOP_def)
  from pages_bounds [OF lim assms(2)] obtain i where i: "i < n" "unat x = unat p + 4096 * i" by blast
  have b: "unat x + 4096 \<le> unat p + 4096 * n" using i by (simp add: Suc_le_eq flip: mult_Suc_right)
  have "unat (V2P x) = unat x - 2 ^ 31"
    using assms(1) i by (intro unat_V2P) (simp add: free_range_ok_def word_le_nat_alt KERNBASE_def)
  then show ?thesis
    using assms(1) i b
    by (auto simp: free_range_ok_def page_ok_def word_le_nat_alt word_less_nat_alt PHYSTOP_def
        unat_eq_0 [symmetric])
qed

lemma clear_refs_inv:
  assumes "kmem_inv xs s" "page_ok s v"
  shows "kmem_inv xs (set_refs (V2P v) (\<lambda>_. 0) s)"
  using assms by (auto simp: kmem_inv_def refs_of_set_refs page_ok_def)

lemma free_range_ok_frame:
  "kend t = kend s \<Longrightarrow> free_range_ok t p n = free_range_ok s p n"
  by (simp add: free_range_ok_def)

lemma freerange_loop_run:
  assumes "n < fuel" "free_range_ok s p n" "kmem_inv xs s" "kmem_ready s"
    and "\<forall>x \<in> set (pages p n). refs_of s x = 0 \<and> x \<notin> set xs"
    and "unat p + 4096 * n \<le> unat vend" "unat vend < unat p + 4096 * Suc n"
    and "unat p + 4096 * Suc n < 2 ^ 32"
  shows "\<exists>t. freerange_loop fuel p vend s = Ok () t \<and> kmem_inv (rev (pages p n) @ xs) t"
  using assms
proof (induction n arbitrary: fuel p s xs)
  case 0
  have "unat (p + PGSIZE) = unat p + 4096"
    using 0 by (simp add: PGSIZE_def unat_plus_if')
  with 0 show ?case by (cases fuel) (auto simp: word_le_nat_alt)
next
  case (Suc n)
  obtain f where fuel: "fuel = Suc f" using Suc.prems(1) by (cases fuel) auto
  have step: "unat (p + 4096) = unat p + 4096"
    using Suc.prems(8) by (simp add: unat_plus_if')
  have go: "p + PGSIZE \<le> vend"
    using Suc.prems(6) step by (simp add: word_le_nat_alt PGSIZE_def)
  have p: "page_ok s p" "refs_of s p = 0" "p \<notin> set xs"
    using Suc.prems free_range_page_ok [OF Suc.prems(2)] by (auto simp: pages_Suc)
  let ?t = "set_refs (V2P p) (\<lambda>_. 0) (pushed p s)"
  have kend: "kend ?t = kend s" by (simp add: pushed_def)
  have "page_ok (pushed p s) p" using p(1) by (simp add: page_ok_def pushed_def)
  then have inv: "kmem_inv (p # xs) ?t"
    using pushed_inv [OF Suc.prems(3) p] by (intro clear_refs_inv)
  have fresh: "p \<notin> set (pages (p + 4096) n)"
    using pages_bounds [of "p + 4096" n p] Suc.prems(8) step by auto
  have al: "\<forall>x \<in> set (pages p (Suc n)). unat x mod 4096 = 0"
    using free_range_page_ok [OF Suc.prems(2)] by (auto simp: page_ok_def)
  then have "\<forall>x \<in> set (pages (p + 4096) n). refs_of ?t x = 0 \<and> x \<notin> set (p # xs)"
    using Suc.prems(5) fresh by (auto simp: pages_Suc refs_of_set_refs) (auto simp: refs_of_def pushed_def)
  moreover have "free_range_ok ?t (p + 4096) n"
    using Suc.prems(2) step by (simp add: free_range_ok_def pushed_def) 
  moreover have "n < f" using Suc.prems(1) fuel by simp
  ultimately obtain u where u: "freerange_loop f (p + 4096) vend ?t = Ok () u"
    "kmem_inv (rev (pages (p + 4096) n) @ p # xs) u"
    using Suc.IH [of f ?t "p + 4096" "p # xs"] Suc.prems(4,6,7,8) inv step by auto
  have "freerange_loop fuel p vend s = freerange_loop f (p + 4096) vend ?t"
    using go p Suc.prems(4) by (simp add: fuel thn_Ok [OF kfree_run] PGSIZE_def)
  with u show ?case by (simp add: pages_Suc)
qed

section \<open>Properties\<close>

text \<open>\<open>kalloc\<close> returns the page at the head of the free list and gives it one reference, or
  returns null and changes nothing when no page is free. In both cases the free list, the free
  page counter and the reference counts of the remaining free pages stay consistent.\<close>

theorem kalloc_spec:
  assumes "kmem_inv xs s" and "kmem_ready s"
  shows "case xs of
      [] \<Rightarrow> kalloc s = Ok 0 s
    | x # ys \<Rightarrow> (\<exists>t. kalloc s = Ok x t \<and> kmem_inv ys t \<and> refs_of t x = 1 \<and> mem t = mem s \<and> held t = held s)"
proof (cases xs)
  case Nil
  with assms show ?thesis by (simp add: km.alloc_none)
next
  case (Cons x ys)
  with assms have "page_ok s x" "kmem_inv ys (popped x s)"
    by (auto dest: kmem_inv_Cons intro: popped_inv)
  moreover from \<open>page_ok s x\<close> have "refs_of (popped x s) x = 1"
    by (simp add: popped_def refs_of_set_refs page_ok_def)
  ultimately show ?thesis
    using assms Cons kmem_inv_Cons [of x ys s] by (simp add: kalloc_run) (simp add: popped_def)
qed

text \<open>A machine with two free pages.\<close>

definition kmem2 :: kmem where
  "kmem2 = \<lparr>held = {}, mem = st32 (st32 (\<lambda>_. 0) 0x80400000 0x80401000) 0x80401000 0,
     freelist = 0x80400000, use_lock = True, amount_of_free_pages = 2,
     page_refs_num = (\<lambda>_. 0), kend = 0x80110000\<rparr>"

lemma kmem2_inv: "kmem_inv [0x80400000, 0x80401000] kmem2" "kmem_ready kmem2"
proof -
  have "ld32 (mem kmem2) 0x80400000 = 0x80401000"
    by (simp add: kmem2_def ld32_st32_other aligned4_def)
  moreover have "ld32 (mem kmem2) 0x80401000 = 0"
    by (simp add: kmem2_def)
  ultimately show "kmem_inv [0x80400000, 0x80401000] kmem2"
    by (simp add: kmem_inv_def page_ok_def refs_of_def) (simp add: kmem2_def V2P_def KERNBASE_def PHYSTOP_def)
  show "kmem_ready kmem2" by (simp add: kmem_ready_def kmem2_def)
qed

theorem kalloc_spec_witness:
  "\<exists>t. kalloc kmem2 = Ok 0x80400000 t \<and> kmem_inv [0x80401000] t \<and> refs_of t 0x80400000 = 1"
  using kalloc_spec [OF kmem2_inv] by auto

text \<open>\<open>kfree\<close> of an allocatable page: with no reference left it goes to the head of the free
  list and the counter goes up by one; otherwise only its reference count drops. The allocator's
  invariant holds again in both cases. Any other non-null address panics.\<close>

theorem kfree_spec:
  assumes "kmem_inv xs s" and "kmem_ready s" and "v \<noteq> 0" and "v \<notin> set xs"
  shows "if \<not> page_ok s v then kfree v s = Panic ''kfree''
    else if refs_of s v = 0 then (\<exists>t. kfree v s = Ok () t \<and> kmem_inv (v # xs) t)
    else (\<exists>t. kfree v s = Ok () t \<and> kmem_inv xs t \<and> refs_of t v = refs_of s v - 1)"
  using assms pushed_inv [OF assms(1)] dec_refs_inv [OF assms(1)]
  by (auto simp: kfree_bad kfree_run refs_of_set_refs page_ok_def)

theorem kfree_spec_witness:
  "kfree 0x80400001 kmem2 = Panic ''kfree'' \<and>
   (\<exists>t. kfree 0x80402000 kmem2 = Ok () t \<and> kmem_inv [0x80402000, 0x80400000, 0x80401000] t)"
proof -
  have "\<not> page_ok kmem2 0x80400001" by (simp add: page_ok_def)
  moreover have "page_ok kmem2 0x80402000" "refs_of kmem2 0x80402000 = 0"
    by (simp_all add: page_ok_def refs_of_def kmem2_def V2P_def KERNBASE_def PHYSTOP_def)
  ultimately show ?thesis
    using kfree_spec [OF kmem2_inv, where v = "0x80400001"] kfree_spec [OF kmem2_inv, where v = "0x80402000"] by simp
qed

text \<open>\<open>kfree\<close> does not undo \<open>kalloc\<close>: \<open>kalloc\<close> gives the page one reference, and \<open>kfree\<close> of a page
  with one reference only drops the count. The page is then neither allocated nor on the free
  list; the free list stays one page shorter until the page is freed a second time.\<close>

theorem kalloc_kfree_loses_page:
  assumes "kmem_inv (x # xs) s" and "kmem_ready s"
  shows "\<exists>t. bnd kalloc kfree s = Ok () t \<and> kmem_inv xs t \<and> refs_of t x = 0 \<and>
    (\<exists>u. kfree x t = Ok () u \<and> kmem_inv (x # xs) u)"
proof -
  let ?t = "set_refs (V2P x) (\<lambda>n. n - 1) (popped x s)"
  note c = kmem_inv_Cons [OF assms(1)]
  have ok: "page_ok (popped x s) x" "page_ok ?t x" using c(2) by (simp_all add: popped_def page_ok_def)
  have r: "refs_of (popped x s) x = 1" "refs_of ?t x = 0"
    using c(2) by (simp_all add: popped_def refs_of_set_refs page_ok_def)
  have inv: "kmem_inv xs ?t"
    using dec_refs_inv [OF popped_inv [OF assms(1)] ok(1)] r by simp
  have "bnd kalloc kfree s = Ok () ?t"
    using assms(2) c r ok by (simp add: bnd_Ok [OF kalloc_run] kfree_run)
  moreover have "kfree x ?t = Ok () (pushed x ?t)" "kmem_inv (x # xs) (pushed x ?t)"
    using pushed_inv [OF inv ok(2) r(2) c(5)] assms(2) ok r by (simp_all add: kfree_run)
  ultimately show ?thesis using inv r by blast
qed

theorem kalloc_kfree_loses_page_witness:
  "\<exists>t. bnd kalloc kfree kmem2 = Ok () t \<and> kmem_inv [0x80401000] t"
  using kalloc_kfree_loses_page [OF kmem2_inv] by blast

text \<open>Boot: \<open>kinit1\<close> over a page-aligned range between the end of the kernel and the top of
  physical memory terminates within its bound and puts every whole page of the range on the
  free list, each exactly once, with the counter at their number.\<close>

theorem kinit1_frees_range:
  assumes "free_range_ok s vstart n" and "freelist s = 0" and "\<forall>i. page_refs_num s i = 0"
    and "vend = vstart + of_nat (4096 * n)"
  shows "\<exists>t. kinit1 vstart vend s = Ok () t \<and> kmem_inv (rev (pages vstart n)) t"
proof -
  let ?s = "s\<lparr>held := held s - {LKmem}, use_lock := False, amount_of_free_pages := 0\<rparr>"
  have lim: "unat vstart + 4096 * Suc n < 2 ^ 32"
    using assms(1) by (simp add: free_range_ok_def PHYSTOP_def)
  have "PGROUNDUP vstart = vstart"
    using assms(1) lim by (intro PGROUNDUP_aligned) (auto simp: free_range_ok_def)
  moreover have "unat vend = unat vstart + 4096 * n"
    using unat_page [of vstart n n] lim assms(4) by simp
  moreover have "kmem_inv [] ?s" "kmem_ready ?s" "free_range_ok ?s vstart n"
    using assms by (auto simp: kmem_inv_def kmem_ready_def free_range_ok_def)
  moreover have "n < 2 ^ 20" using lim by simp
  ultimately show ?thesis
    using freerange_loop_run [of n "2 ^ 20" ?s vstart "[]" vend] assms(3) lim
    by (simp add: kinit1_def freerange_def refs_of_def)
qed

theorem kinit1_frees_range_witness:
  "\<exists>t. kinit1 0x80400000 0x80402000 (kmem2\<lparr>freelist := 0\<rparr>) = Ok () t \<and>
     kmem_inv [0x80401000, 0x80400000] t"
proof -
  have "pages 0x80400000 2 = [0x80400000, 0x80401000]"
    by (simp add: pages_Suc numeral_2_eq_2)
  then show ?thesis
    using kinit1_frees_range [of "kmem2\<lparr>freelist := 0\<rparr>" "0x80400000" 2 "0x80402000"]
    by (simp add: free_range_ok_def kmem2_def PHYSTOP_def)
qed

text \<open>Reference counts.\<close>

definition counted :: "'z kmem_scheme \<Rightarrow> u32 \<Rightarrow> bool" where
  "counted s pa = (V2P (kend s) \<le> pa \<and> pa < PHYSTOP)"

lemma ref_count_run:
  assumes "counted s pa" "LKmem \<notin> held s"
  shows "get_ref_count pa s = Ok (page_refs_num s (pgidx pa)) s"
    "inc_ref_count pa s = Ok () (set_refs pa (\<lambda>n. n + 1) s)"
    "dec_ref_count pa s = Ok () (set_refs pa (\<lambda>n. n - 1) s)"
proof -
  have h: "held (set_refs pa f t) = held t" for f and t :: "'a kmem_scheme" by simp
  have r: "(set_refs pa f (s\<lparr>held := H\<rparr>))\<lparr>held := held s\<rparr> = set_refs pa f s" for f H
    by (cases s) (simp add: set_refs_def)
  have e: "insert LKmem (held s) - {LKmem} = held s" using assms(2) by auto
  have n: "\<not> (pa < V2P (kend s) \<or> PHYSTOP \<le> pa)" using assms(1) by (auto simp: counted_def)
  show "get_ref_count pa s = Ok (page_refs_num s (pgidx pa)) s"
    using assms(2) n e by (simp add: get_ref_count_def thn_def bnd_def)
  show "inc_ref_count pa s = Ok () (set_refs pa (\<lambda>n. n + 1) s)"
    using assms(2) n e by (simp add: inc_ref_count_def thn_def bnd_def r)
  show "dec_ref_count pa s = Ok () (set_refs pa (\<lambda>n. n - 1) s)"
    using assms(2) n e by (simp add: dec_ref_count_def thn_def bnd_def r)
qed

end
