(* ===== verification/Cstring.thy ===== *)
theory Cstring
  imports Memory
begin

text \<open>
  The byte and string routines of \<open>string.c\<close>, translated loop by loop over byte
  memory, and what they compute. Loops that count down \<open>n\<close> are structural recursions; the
  unbounded \<open>strlen\<close> loop is a partial function whose value is \<open>None\<close> when it never finds a NUL.
\<close>

section \<open>Translation\<close>

text \<open>\<open>rep stosb\<close> and \<open>rep stosl\<close>, the string instructions behind \<open>x86.h\<close>'s inline assembly.\<close>

fun stosb :: "memory \<Rightarrow> u32 \<Rightarrow> byte \<Rightarrow> nat \<Rightarrow> memory" where
  "stosb m a c 0 = m"
| "stosb m a c (Suc n) = stosb (m(a := c)) (a + 1) c n"

fun stosl :: "memory \<Rightarrow> u32 \<Rightarrow> u32 \<Rightarrow> nat \<Rightarrow> memory" where
  "stosl m a w 0 = m"
| "stosl m a w (Suc n) = stosl (st32 m a w) (a + 4) w n"

definition memset :: "memory \<Rightarrow> u32 \<Rightarrow> u32 \<Rightarrow> u32 \<Rightarrow> memory" where
  "memset m dst c n =
     (if unat dst mod 4 = 0 \<and> unat n mod 4 = 0 then
        (let c' = c AND 0xFF in
         stosl m dst (push_bit 24 c' OR push_bit 16 c' OR push_bit 8 c' OR c') (unat n div 4))
      else stosb m dst (ucast c) (unat n))"

fun memcmp_loop :: "memory \<Rightarrow> u32 \<Rightarrow> u32 \<Rightarrow> nat \<Rightarrow> int" where
  "memcmp_loop m s1 s2 0 = 0"
| "memcmp_loop m s1 s2 (Suc n) =
     (if m s1 \<noteq> m s2 then uint (m s1) - uint (m s2) else memcmp_loop m (s1 + 1) (s2 + 1) n)"

definition memcmp :: "memory \<Rightarrow> u32 \<Rightarrow> u32 \<Rightarrow> u32 \<Rightarrow> int" where
  "memcmp m v1 v2 n = memcmp_loop m v1 v2 (unat n)"

fun copy_up :: "memory \<Rightarrow> u32 \<Rightarrow> u32 \<Rightarrow> nat \<Rightarrow> memory" where
  "copy_up m d s 0 = m"
| "copy_up m d s (Suc n) = copy_up (m(d := m s)) (d + 1) (s + 1) n"

fun copy_down :: "memory \<Rightarrow> u32 \<Rightarrow> u32 \<Rightarrow> nat \<Rightarrow> memory" where
  "copy_down m d s 0 = m"
| "copy_down m d s (Suc n) = copy_down (m(d - 1 := m (s - 1))) (d - 1) (s - 1) n"

definition memmove :: "memory \<Rightarrow> u32 \<Rightarrow> u32 \<Rightarrow> u32 \<Rightarrow> memory" where
  "memmove m dst src n =
     (if src < dst \<and> src + n > dst then copy_down m (dst + n) (src + n) (unat n)
      else copy_up m dst src (unat n))"

definition memcpy :: "memory \<Rightarrow> u32 \<Rightarrow> u32 \<Rightarrow> u32 \<Rightarrow> memory" where
  "memcpy m dst src n = memmove m dst src n"

fun strncmp_loop :: "memory \<Rightarrow> u32 \<Rightarrow> u32 \<Rightarrow> nat \<Rightarrow> int" where
  "strncmp_loop m p q 0 = 0"
| "strncmp_loop m p q (Suc n) =
     (if m p \<noteq> 0 \<and> m p = m q then strncmp_loop m (p + 1) (q + 1) n
      else uint (m p) - uint (m q))"

definition strncmp :: "memory \<Rightarrow> u32 \<Rightarrow> u32 \<Rightarrow> u32 \<Rightarrow> int" where
  "strncmp m p q n = strncmp_loop m p q (unat n)"

fun strncpy_loop :: "memory \<Rightarrow> u32 \<Rightarrow> u32 \<Rightarrow> nat \<Rightarrow> memory" where
  "strncpy_loop m s t 0 = m"
| "strncpy_loop m s t (Suc n) =
     (let m' = m(s := m t) in
      if m t \<noteq> 0 then strncpy_loop m' (s + 1) (t + 1) n else stosb m' (s + 1) 0 n)"

definition strncpy :: "memory \<Rightarrow> u32 \<Rightarrow> u32 \<Rightarrow> int \<Rightarrow> memory" where
  "strncpy m s t n = strncpy_loop m s t (nat n)"

fun safestrcpy_loop :: "memory \<Rightarrow> u32 \<Rightarrow> u32 \<Rightarrow> nat \<Rightarrow> memory" where
  "safestrcpy_loop m s t 0 = m(s := 0)"
| "safestrcpy_loop m s t (Suc n) =
     (let m' = m(s := m t) in
      if m t \<noteq> 0 then safestrcpy_loop m' (s + 1) (t + 1) n else m'(s + 1 := 0))"

definition safestrcpy :: "memory \<Rightarrow> u32 \<Rightarrow> u32 \<Rightarrow> int \<Rightarrow> memory" where
  "safestrcpy m s t n = (if n \<le> 0 then m else safestrcpy_loop m s t (nat (n - 1)))"

partial_function (option) strlen_from :: "memory \<Rightarrow> u32 \<Rightarrow> int \<Rightarrow> int option" where
  "strlen_from m s n = (if m (s + of_int n) = 0 then Some n else strlen_from m s (n + 1))"

definition strlen :: "memory \<Rightarrow> u32 \<Rightarrow> int option" where
  "strlen m s = strlen_from m s 0"

section \<open>Memory ranges\<close>

text \<open>The \<open>n\<close> bytes from \<open>p\<close>, and the C string among them: the bytes before the first NUL.\<close>

definition bytes :: "memory \<Rightarrow> u32 \<Rightarrow> nat \<Rightarrow> byte list" where
  "bytes m p n = map (\<lambda>i. m (p + of_nat i)) [0..<n]"

definition cstr :: "memory \<Rightarrow> u32 \<Rightarrow> nat \<Rightarrow> byte list" where
  "cstr m p n = takeWhile (\<lambda>c. c \<noteq> 0) (bytes m p n)"

lemma length_bytes [simp]: "length (bytes m p n) = n"
  by (simp add: bytes_def)

lemma bytes_0 [simp]: "bytes m p 0 = []"
  by (simp add: bytes_def)

lemma bytes_Suc: "bytes m p (Suc n) = m p # bytes m (p + 1) n"
  by (simp add: bytes_def map_upt_Suc add.assoc del: upt_Suc)

lemma cstr_0 [simp]: "cstr m p 0 = []"
  by (simp add: cstr_def)

lemma cstr_Suc: "cstr m p (Suc n) = (if m p = 0 then [] else m p # cstr m (p + 1) n)"
  by (simp add: cstr_def bytes_Suc)

text \<open>\<open>a\<close> is one of the \<open>n\<close> bytes from \<open>p\<close> (addresses wrap at 32 bits).\<close>

definition in_range :: "u32 \<Rightarrow> nat \<Rightarrow> u32 \<Rightarrow> bool" where
  "in_range p n a = (unat (a - p) < n)"

lemma unat_diff_Suc:
  fixes a p :: u32
  assumes "a \<noteq> p"
  shows "unat (a - p) = Suc (unat (a - (p + 1)))"
proof -
  have eq: "a - p = 1 + (a - (p + 1))" by simp
  moreover have "1 + (a - (p + 1)) \<noteq> 0" using assms by simp
  ultimately show ?thesis by (metis unatSuc)
qed

lemma in_range_0 [simp]: "\<not> in_range p 0 a"
  by (simp add: in_range_def)

lemma in_range_Suc: "n < 2 ^ 32 \<Longrightarrow> in_range p (Suc n) a \<longleftrightarrow> a = p \<or> in_range (p + 1) n a"
  by (cases "a = p") (auto simp: in_range_def unat_diff_Suc)

lemma not_in_range_below: "n < 2 ^ 32 \<Longrightarrow> \<not> in_range (p + 1) n p"
proof -
  assume "n < 2 ^ 32"
  moreover have "p - (p + 1) = (- 1 :: u32)" by simp
  ultimately show ?thesis by (simp add: in_range_def unsigned_minus_1_eq_mask mask_eq_exp_minus_1)
qed

section \<open>What the routines compute\<close>

lemma stosb_apply:
  "n \<le> 2 ^ 32 \<Longrightarrow> stosb m a c n x = (if in_range a n x then c else m x)"
  by (induction n arbitrary: m a) (auto simp: in_range_Suc not_in_range_below)

lemma stosb_add: "stosb m a c (k + n) = stosb (stosb m a c k) (a + of_nat k) c n"
  by (induction k arbitrary: m a) (simp_all add: add_ac)

lemma stosl_stosb:
  assumes "\<And>i. i < 4 \<Longrightarrow> le32 w ! i = b"
  shows "stosl m a w n = stosb m a b (4 * n)"
proof (induction n arbitrary: m a)
  case 0
  then show ?case by simp
next
  case (Suc n)
  have "st32 m a w = stosb m a b 4"
    using assms [of 0] assms [of 1] assms [of 2] assms [of 3]
    by (simp add: st32_def eval_nat_numeral add.assoc)
  then show ?case
    using stosb_add [of m a b 4 "4 * n"] by (simp add: Suc.IH)
qed

lemma memset_pattern:
  assumes "i < 4"
  shows "le32 (push_bit 24 (c AND 0xFF) OR push_bit 16 (c AND 0xFF) OR push_bit 8 (c AND 0xFF)
            OR (c AND 0xFF)) ! i = (ucast c :: byte)"
proof -
  have c: "c AND 0xFF = take_bit 8 c"
    by (simp add: take_bit_eq_mask mask_eq_exp_minus_1)
  from assms consider "i = 0" | "i = 1" | "i = 2" | "i = 3" by fastforce
  then show ?thesis
    unfolding c le32_def by cases (auto intro!: bit_word_eqI simp: bit_simps)
qed

lemma memset_apply: "memset m dst c n x = (if in_range dst (unat n) x then ucast c else m x)"
proof (cases "unat dst mod 4 = 0 \<and> unat n mod 4 = 0")
  case True
  then have "memset m dst c n = stosb m dst (ucast c) (4 * (unat n div 4))"
    unfolding memset_def Let_def by (simp only: stosl_stosb [OF memset_pattern] simp_thms if_True)
  moreover have "4 * (unat n div 4) = unat n" using True by auto
  ultimately show ?thesis using unat_u32_less [of n] by (simp add: stosb_apply)
next
  case False
  then show ?thesis
    unfolding memset_def using unat_u32_less [of n] by (simp only: if_False stosb_apply)
qed

lemma copy_up_apply:
  assumes "n \<le> 2 ^ 32" and "d = s \<or> n \<le> unat (d - s)"
  shows "copy_up m d s n x = (if in_range d n x then m (s + (x - d)) else m x)"
  using assms
proof (induction n arbitrary: m d s)
  case 0
  then show ?case by simp
next
  case (Suc n)
  have "(d + 1) - (s + 1) = d - s" by simp
  with Suc have IH: "copy_up (m(d := m s)) (d + 1) (s + 1) n x =
      (if in_range (d + 1) n x then (m(d := m s)) ((s + 1) + (x - (d + 1))) else (m(d := m s)) x)"
    by auto
  have "in_range (d + 1) n x \<Longrightarrow> (m(d := m s)) (s + (x - d)) = m (s + (x - d))"
  proof (cases "d = s")
    case False
    assume r: "in_range (d + 1) n x"
    then have "x \<noteq> d" using Suc.prems not_in_range_below by fastforce
    with r have "unat (x - d) < Suc n"
      by (simp add: in_range_def unat_diff_Suc)
    with False Suc.prems have "x - d \<noteq> d - s" by auto
    then have "s + (x - d) \<noteq> d" by (auto simp: algebra_simps)
    then show ?thesis by simp
  qed simp
  then show ?case
    using Suc.prems by (auto simp: IH in_range_Suc)
qed

text \<open>The downward copy; \<open>d\<close> and \<open>s\<close> point one past the last byte.\<close>

lemma copy_down_apply:
  assumes "n \<le> 2 ^ 32" and "d = s \<or> n \<le> unat (s - d)"
  shows "copy_down m d s n x = (if in_range x n (d - 1) then m (s + (x - d)) else m x)"
  using assms
proof (induction n arbitrary: m d s)
  case 0
  then show ?case by simp
next
  case (Suc n)
  have range: "in_range x (Suc n) (d - 1) \<longleftrightarrow> x = d - 1 \<or> in_range x n (d - 1 - 1)"
    using unat_diff_Suc [of "d - 1" x] Suc.prems(1)
    by (cases "x = d - 1") (auto simp: in_range_def algebra_simps)
  have below: "\<not> in_range (d - 1) n (d - 1 - 1)"
    using not_in_range_below [of n "d - 2"] Suc.prems(1) by simp
  have "(s - 1) - (d - 1) = s - d" by simp
  with Suc have IH: "copy_down (m(d - 1 := m (s - 1))) (d - 1) (s - 1) n x =
      (if in_range x n (d - 1 - 1) then (m(d - 1 := m (s - 1))) ((s - 1) + (x - (d - 1)))
       else (m(d - 1 := m (s - 1))) x)"
    by auto
  have "in_range x n (d - 1 - 1) \<Longrightarrow> (m(d - 1 := m (s - 1))) (s + (x - d)) = m (s + (x - d))"
  proof (cases "d = s")
    case False
    assume r: "in_range x n (d - 1 - 1)"
    with below have "x \<noteq> d - 1" by auto
    with r have "unat (d - 1 - x) < Suc n"
      using range by (simp add: in_range_def)
    moreover from False Suc.prems have "Suc n \<le> unat (s - d)" by simp
    ultimately have "d - 1 - x \<noteq> s - d" by (metis not_le)
    moreover have "s - d = (s + (x - d)) - x" by simp
    ultimately have "s + (x - d) \<noteq> d - 1" by metis
    then show ?thesis by simp
  qed simp
  then show ?case
    by (auto simp: IH range)
qed

lemma in_range_reverse:
  "in_range x (unat n) (dst + n - 1) \<longleftrightarrow> in_range dst (unat n) x"
proof -
  define k where "k = x - dst"
  have *: "dst + n - 1 - x = n - 1 - k" by (simp add: k_def)
  show ?thesis
    unfolding in_range_def * k_def [symmetric] by unat_arith
qed

lemma memmove_apply:
  assumes "unat src + unat n < 2 ^ 32" and "unat dst + unat n < 2 ^ 32"
  shows "memmove m dst src n x = (if in_range dst (unat n) x then m (src + (x - dst)) else m x)"
proof (cases "src < dst \<and> src + n > dst")
  case True
  have "unat n \<le> unat ((src + n) - (dst + n))"
    using True assms by (simp add: unat_arith_simps)
  then show ?thesis
    using True copy_down_apply [of "unat n" "dst + n" "src + n" m x] unat_u32_less [of n]
    by (simp add: memmove_def in_range_reverse)
next
  case False
  have "dst = src \<or> unat n \<le> unat (dst - src)"
    using False assms
    by (cases "dst = src")
      (auto simp: unat_sub_if' unat_plus_if' word_less_nat_alt linorder_neq_iff)
  then show ?thesis
    using False copy_up_apply [of "unat n" dst src m x] unat_u32_less [of n]
    by (simp only: memmove_def if_False)
qed

lemma strncmp_loop_0: "strncmp_loop m p q n = 0 \<longleftrightarrow> cstr m p n = cstr m q n"
  by (induction n arbitrary: p q) (auto simp: cstr_Suc)

lemma memcmp_loop_0: "memcmp_loop m p q n = 0 \<longleftrightarrow> bytes m p n = bytes m q n"
  by (induction n arbitrary: p q) (auto simp: bytes_Suc)

text \<open>\<open>strncpy\<close> copies the string and pads the rest of the field with NULs.\<close>

lemma disjoint_shift:
  assumes "\<forall>i < Suc n. \<forall>j < Suc n. (s :: u32) + of_nat i \<noteq> t + of_nat j"
  shows "\<forall>i < n. \<forall>j < n. (s + 1) + of_nat i \<noteq> (t + 1) + of_nat j"
    and "\<And>k. k < n \<Longrightarrow> t + 1 + of_nat k \<noteq> s" and "s \<noteq> t"
proof -
  have *: "s + of_nat i \<noteq> t + of_nat j" if "i < Suc n" "j < Suc n" for i j
    using assms that by blast
  show "\<forall>i < n. \<forall>j < n. (s + 1) + of_nat i \<noteq> (t + 1) + of_nat j"
    using * [of "Suc _" "Suc _"] by (auto simp: add.assoc)
  show "t + 1 + of_nat k \<noteq> s" if "k < n" for k
    using * [of 0 "Suc k"] that by (auto simp: add.assoc)
  show "s \<noteq> t" using * [of 0 0] by simp
qed

lemma bytes_upd_other:
  "(\<And>k. k < n \<Longrightarrow> p + of_nat k \<noteq> a) \<Longrightarrow> bytes (m(a := v)) p n = bytes m p n"
  by (auto simp: bytes_def)

lemma bytes_same_prefix: "(\<And>k. k < n \<Longrightarrow> m (p + of_nat k) = m' (p + of_nat k)) \<Longrightarrow> bytes m p n = bytes m' p n"
  by (auto simp: bytes_def)

lemma cstr_upd_other:
  "(\<And>k. k < n \<Longrightarrow> p + of_nat k \<noteq> a) \<Longrightarrow> cstr (m(a := v)) p n = cstr m p n"
  by (simp add: cstr_def bytes_upd_other)

lemma in_range_of_nat: "k < 2 ^ 32 \<Longrightarrow> in_range p n (p + of_nat k) \<longleftrightarrow> k < n"
  by (simp add: in_range_def unat_of_nat)

lemma stosb_bytes:
  assumes "n < 2 ^ 32"
  shows "bytes (stosb m a c n) a n = replicate n c"
  by (rule nth_equalityI) (use assms in \<open>auto simp: bytes_def stosb_apply in_range_of_nat\<close>)

lemma strncpy_loop_frame:
  assumes "n < 2 ^ 32" and "\<not> in_range s n x"
  shows "strncpy_loop m s t n x = m x"
  using assms
proof (induction n arbitrary: m s t)
  case 0
  then show ?case by simp
next
  case (Suc n)
  then have "x \<noteq> s" "\<not> in_range (s + 1) n x" by (auto simp: in_range_Suc)
  with Suc show ?case by (auto simp: Let_def stosb_apply)
qed

lemma strncpy_loop_bytes:
  assumes "n < 2 ^ 32" and "\<forall>i < n. \<forall>j < n. s + of_nat i \<noteq> t + of_nat j"
  shows "bytes (strncpy_loop m s t n) s n =
     cstr m t n @ replicate (n - length (cstr m t n)) 0"
  using assms
proof (induction n arbitrary: m s t)
  case 0
  then show ?case by simp
next
  case (Suc n)
  let ?m = "m(s := m t)"
  note sh = disjoint_shift [OF Suc.prems(2)]
  have at_s: "strncpy_loop ?m (s + 1) (t + 1) n s = m t"
    using Suc.prems(1) not_in_range_below [of n s] by (simp add: strncpy_loop_frame)
  have st: "stosb ?m (s + 1) 0 n s = m t"
    using Suc.prems(1) not_in_range_below [of n s] by (simp add: stosb_apply)
  have cs: "cstr ?m (t + 1) n = cstr m (t + 1) n"
    by (rule cstr_upd_other) (rule sh(2))
  have n: "n < 2 ^ 32" using Suc.prems(1) by simp
  have IH: "bytes (strncpy_loop ?m (s + 1) (t + 1) n) (s + 1) n =
      cstr m (t + 1) n @ replicate (n - length (cstr m (t + 1) n)) 0"
    by (subst Suc.IH [OF n sh(1)]) (simp only: cs)
  show ?case
    using IH at_s st stosb_bytes [OF n, of ?m "s + 1" 0]
    by (cases "m t = 0") (simp_all add: Let_def bytes_Suc cstr_Suc)
qed

lemma safestrcpy_loop_frame:
  assumes "n < 2 ^ 32 - 1" and "\<not> in_range s (Suc n) x"
  shows "safestrcpy_loop m s t n x = m x"
  using assms
proof (induction n arbitrary: m s t)
  case 0
  then show ?case by (auto simp: in_range_def)
next
  case (Suc n)
  then have *: "x \<noteq> s" "\<not> in_range (s + 1) (Suc n) x"
    by (auto simp: in_range_Suc [of "Suc n" s])
  then have "x \<noteq> s + 1" by (auto simp: in_range_def)
  with Suc * show ?case by (auto simp: Let_def)
qed

lemma safestrcpy_loop_cstr:
  assumes "n < 2 ^ 32 - 1" and "\<forall>i < Suc n. \<forall>j < Suc n. s + of_nat i \<noteq> t + of_nat j"
  shows "cstr (safestrcpy_loop m s t n) s (Suc n) = cstr m t n"
  using assms
proof (induction n arbitrary: m s t)
  case 0
  then show ?case by (simp add: cstr_Suc)
next
  case (Suc n)
  let ?m = "m(s := m t)"
  note sh = disjoint_shift [OF Suc.prems(2)]
  have at_s: "safestrcpy_loop ?m (s + 1) (t + 1) n s = m t"
    using Suc.prems(1) not_in_range_below [of "Suc n" s] by (simp add: safestrcpy_loop_frame)
  have cs: "cstr ?m (t + 1) n = cstr m (t + 1) n"
    by (rule cstr_upd_other) (simp add: sh(2))
  have n: "n < 2 ^ 32 - 1" using Suc.prems(1) by simp
  have IH: "cstr (safestrcpy_loop ?m (s + 1) (t + 1) n) (s + 1) (Suc n) = cstr m (t + 1) n"
    by (subst Suc.IH [OF n sh(1)]) (simp only: cs)
  show ?case
    using IH at_s by (simp add: Let_def cstr_Suc [of _ s] cstr_Suc [of _ t])
qed

lemma strlen_from_nul:
  assumes "m (s + of_nat k) = 0" and "\<forall>i < k. m (s + of_nat i) \<noteq> 0" and "j \<le> k"
  shows "strlen_from m s (int j) = Some (int k)"
  using assms(3)
proof (induction "k - j" arbitrary: j)
  case 0
  then show ?case using assms by (simp add: strlen_from.simps)
next
  case (Suc d)
  then have j: "j < k" by simp
  with Suc.hyps have "strlen_from m s (int (Suc j)) = Some (int k)"
    by (intro Suc.hyps(1)) auto
  with j have "j < k" "strlen_from m s (int (Suc j)) = Some (int k)" by auto
  then show ?case using assms(2) by (subst strlen_from.simps) (simp add: add.commute)
qed

section \<open>Properties\<close>

text \<open>\<open>memmove\<close> copies the source range as it was before the call, even when the two
  ranges overlap, and changes no byte outside the destination range. The hypotheses say that
  the one-past-the-end pointers of the two objects are representable.\<close>

theorem memmove_copies:
  assumes "unat src + unat n < 2 ^ 32" and "unat dst + unat n < 2 ^ 32"
  shows "memmove m dst src n = (\<lambda>x. if in_range dst (unat n) x then m (src + (x - dst)) else m x)"
  using memmove_apply [OF assms] by (simp add: fun_eq_iff)

theorem memmove_copies_witness:
  "unat (10 :: u32) + unat (4 :: u32) < 2 ^ 32 \<and> unat (12 :: u32) + unat (4 :: u32) < 2 ^ 32 \<and>
   memmove (\<lambda>a. ucast a) 12 10 4 15 = 13"
proof -
  have h: "unat (10 :: u32) + unat (4 :: u32) < 2 ^ 32" "unat (12 :: u32) + unat (4 :: u32) < 2 ^ 32"
    by simp_all
  show ?thesis
    using h memmove_copies [OF h, of "\<lambda>a. ucast a"] by (simp add: in_range_def)
qed

text \<open>\<open>memset\<close> fills exactly the \<open>n\<close> bytes from \<open>dst\<close> with the low byte of \<open>c\<close>, on the
  word-wise path (\<open>stosl\<close>, both \<open>dst\<close> and \<open>n\<close> multiples of four) as on the byte-wise one.\<close>

theorem memset_fills:
  "memset m dst c n = (\<lambda>x. if in_range dst (unat n) x then ucast c else m x)"
  by (simp add: fun_eq_iff memset_apply)

text \<open>\<open>strncmp\<close> returns 0 exactly when the two strings, cut at their first NUL and at
  \<open>n\<close> bytes, are equal; this is the comparison that directory lookup relies on.\<close>

theorem strncmp_equal_iff:
  "strncmp m p q n = 0 \<longleftrightarrow> cstr m p (unat n) = cstr m q (unat n)"
  by (simp add: strncmp_def strncmp_loop_0)

text \<open>\<open>safestrcpy\<close> into a buffer of \<open>n > 0\<close> bytes leaves a NUL-terminated string: the source
  string cut to \<open>n - 1\<close> bytes, which is shorter than the buffer; it writes no byte outside the buffer.\<close>

theorem safestrcpy_terminated:
  assumes "0 < n" and "n < 2 ^ 31"
    and "\<forall>i < nat n. \<forall>j < nat n. s + of_nat i \<noteq> t + of_nat j"
  shows "cstr (safestrcpy m s t n) s (nat n) = cstr m t (nat n - 1) \<and>
    length (cstr (safestrcpy m s t n) s (nat n)) < nat n \<and>
    (\<forall>x. \<not> in_range s (nat n) x \<longrightarrow> safestrcpy m s t n x = m x)"
proof -
  have n: "nat n = Suc (nat (n - 1))" "nat (n - 1) < 2 ^ 32 - 1" using assms(1,2) by auto
  have "cstr (safestrcpy m s t n) s (nat n) = cstr m t (nat n - 1)"
    using safestrcpy_loop_cstr [of "nat (n - 1)" s t m] assms n by (simp add: safestrcpy_def)
  moreover have "length (cstr m t (nat n - 1)) \<le> nat n - 1"
    unfolding cstr_def using length_takeWhile_le [of _ "bytes m t (nat n - 1)"] by simp
  ultimately show ?thesis
    using safestrcpy_loop_frame [of "nat (n - 1)" s _ m t] assms(1) n
    by (auto simp: safestrcpy_def)
qed

theorem safestrcpy_terminated_witness:
  "cstr (safestrcpy (\<lambda>a. 65) 100 200 4) 100 (nat 4) = [65, 65, 65]"
proof -
  have d: "\<forall>i < nat 4. \<forall>j < nat 4. (100 :: u32) + of_nat i \<noteq> 200 + of_nat j"
  proof (intro allI impI)
    fix i j :: nat
    assume "i < nat 4" "j < nat 4"
    then have "i \<in> {0, 1, 2, 3}" "j \<in> {0, 1, 2, 3}" by auto
    then show "(100 :: u32) + of_nat i \<noteq> 200 + of_nat j" by auto
  qed
  have "cstr (safestrcpy (\<lambda>a. 65) 100 200 4) 100 (nat 4) = cstr (\<lambda>a. 65) 200 (nat 4 - 1)"
    using safestrcpy_terminated [of 4 100 200 "\<lambda>a. 65", OF _ _ d] by simp
  also have "cstr (\<lambda>a. 65) 200 (nat 4 - 1) = [65, 65, 65]"
    by (simp add: cstr_def bytes_def upt_rec)
  finally show ?thesis .
qed

end
