(* ===== verification/Pagetable.thy ===== *)
theory Pagetable
  imports Kalloc Cstring
begin

text \<open>
  Two-level page tables in memory (the first part of \<open>vm.c\<close>): walking and extending a page
  table, and copying bytes to user addresses through it. Page directories and page tables are pages
  at kernel addresses.
\<close>

section \<open>Operations\<close>

lemma PGROUNDDOWN_offset: "unat (va - PGROUNDDOWN va) = unat va mod 4096"
  by (simp add: PGROUNDDOWN_sub take_bit_eq_mod unat_mod_distrib)

definition ld :: "u32 \<Rightarrow> ('z kmem_scheme, u32) kern" where
  "ld a = gets (\<lambda>s. ld32 (mem s) a)"

definition st :: "u32 \<Rightarrow> u32 \<Rightarrow> ('z kmem_scheme, unit) kern" where
  "st a v = modify (\<lambda>s. s\<lparr>mem := st32 (mem s) a v\<rparr>)"

definition pde_addr :: "u32 \<Rightarrow> u32 \<Rightarrow> u32" where
  "pde_addr pgdir va = pgdir + 4 * PDX va"

definition pte_addr :: "u32 \<Rightarrow> u32 \<Rightarrow> u32" where
  "pte_addr pgtab va = pgtab + 4 * PTX va"

text \<open>The result is the address of the entry, 0 when there is none.\<close>

definition walkpgdir :: "u32 \<Rightarrow> u32 \<Rightarrow> bool \<Rightarrow> ('z kmem_scheme, u32) kern" where
  "walkpgdir pgdir va alloc =
     bnd (ld (pde_addr pgdir va)) (\<lambda>pde.
     if pde AND PTE_P \<noteq> 0 then ret (pte_addr (P2V (PTE_ADDR pde)) va)
     else if \<not> alloc then ret 0
     else
       bnd kalloc (\<lambda>pgtab.
       if pgtab = 0 then ret 0
       else
         thn (modify (\<lambda>s. s\<lparr>mem := memset (mem s) pgtab 0 PGSIZE\<rparr>)) (
         thn (st (pde_addr pgdir va) (V2P pgtab OR PTE_P OR PTE_W OR PTE_U))
         (ret (pte_addr pgtab va)))))"

definition map_one :: "u32 \<Rightarrow> u32 \<Rightarrow> u32 \<Rightarrow> u32 \<Rightarrow> ('z kmem_scheme, bool) kern" where
  "map_one pgdir a pa perm =
     bnd (walkpgdir pgdir a True) (\<lambda>pte.
     if pte = 0 then ret False
     else
       bnd (ld pte) (\<lambda>e.
       if e AND PTE_P \<noteq> 0 then panic ''remap''
       else thn (st pte (pa OR perm OR PTE_P)) (ret True)))"

text \<open>The loop of \<open>mappages\<close> with the number of pages after the one at \<open>a\<close>.\<close>

fun map_pages :: "nat \<Rightarrow> u32 \<Rightarrow> u32 \<Rightarrow> u32 \<Rightarrow> u32 \<Rightarrow> ('z kmem_scheme, int) kern" where
  "map_pages 0 pgdir a pa perm = bnd (map_one pgdir a pa perm) (\<lambda>ok. ret (if ok then 0 else -1))"
| "map_pages (Suc n) pgdir a pa perm = bnd (map_one pgdir a pa perm) (\<lambda>ok.
     if ok then map_pages n pgdir (a + PGSIZE) (pa + PGSIZE) perm else ret (-1))"

definition mappages :: "u32 \<Rightarrow> u32 \<Rightarrow> u32 \<Rightarrow> u32 \<Rightarrow> u32 \<Rightarrow> ('z kmem_scheme, int) kern" where
  "mappages pgdir va n pa perm =
     (let a = PGROUNDDOWN va; last = PGROUNDDOWN (va + n - 1) in
      map_pages (unat (last - a) div 4096) pgdir a pa perm)"

definition global_mappages :: "u32 \<Rightarrow> u32 \<Rightarrow> u32 \<Rightarrow> u32 \<Rightarrow> u32 \<Rightarrow> ('z kmem_scheme, int) kern" where
  "global_mappages pgdir va n pa perm = mappages pgdir va n pa perm"

definition global_walkpgdir :: "u32 \<Rightarrow> u32 \<Rightarrow> bool \<Rightarrow> ('z kmem_scheme, u32) kern" where
  "global_walkpgdir pgdir va alloc = walkpgdir pgdir va alloc"

text \<open>Code that dereferences the result of a walk without a test: null there is a fault.\<close>

definition walk_entry :: "u32 \<Rightarrow> u32 \<Rightarrow> ('z kmem_scheme, u32) kern" where
  "walk_entry pgdir va = bnd (walkpgdir pgdir va False) (\<lambda>pte.
     if pte = 0 then panic ''null pte'' else ret pte)"

text \<open>Store bytes at consecutive addresses.\<close>

definition store_bytes :: "memory \<Rightarrow> u32 \<Rightarrow> byte list \<Rightarrow> memory" where
  "store_bytes m p bs = (\<lambda>a. if unat (a - p) < length bs then bs ! unat (a - p) else m a)"

definition inituvm :: "u32 \<Rightarrow> byte list \<Rightarrow> ('z kmem_scheme, unit) kern" where
  "inituvm pgdir init =
     (if int (length init) \<ge> 4096 then panic ''inituvm: more than a page''
      else
        bnd kalloc (\<lambda>p.
        if p = 0 then panic ''memset at null''
        else
        thn (modify (\<lambda>s. s\<lparr>mem := memset (mem s) p 0 PGSIZE\<rparr>)) (
        thn (mappages pgdir 0 PGSIZE (V2P p) (PTE_W OR PTE_U))
        (modify (\<lambda>s. s\<lparr>mem := store_bytes (mem s) p init\<rparr>)))))"

definition clearpteu :: "u32 \<Rightarrow> u32 \<Rightarrow> ('z kmem_scheme, unit) kern" where
  "clearpteu pgdir uva =
     bnd (walkpgdir pgdir uva False) (\<lambda>pte.
     if pte = 0 then panic ''clearpteu''
     else bnd (ld pte) (\<lambda>e. st pte (e AND NOT PTE_U)))"

definition uva2ka :: "u32 \<Rightarrow> u32 \<Rightarrow> ('z kmem_scheme, u32) kern" where
  "uva2ka pgdir uva =
     bnd (walk_entry pgdir uva) (\<lambda>pte.
     bnd (ld pte) (\<lambda>e.
     if e AND PTE_P = 0 then ret 0
     else if e AND PTE_U = 0 then ret 0
     else ret (P2V (PTE_ADDR e))))"

function copyout :: "u32 \<Rightarrow> u32 \<Rightarrow> byte list \<Rightarrow> ('z kmem_scheme, int) kern" where
  "copyout pgdir va bs =
     (if bs = [] then ret 0
      else
        let va0 = PGROUNDDOWN va in
        bnd (uva2ka pgdir va0) (\<lambda>pa0.
        if pa0 = 0 then ret (-1)
        else
          let n = min (4096 - unat (va - va0)) (length bs) in
          thn (modify (\<lambda>s. s\<lparr>mem := store_bytes (mem s) (pa0 + (va - va0)) (take n bs)\<rparr>))
          (copyout pgdir (va0 + PGSIZE) (drop n bs))))"
  by pat_completeness auto
termination
proof (relation "measure (\<lambda>(d, va, bs). length bs)")
  fix pgdir va :: u32 and bs :: "byte list" and x xa xb
  assume "bs \<noteq> []" "x = PGROUNDDOWN va" "xa = min (4096 - unat (va - x)) (length bs)"
  moreover have "unat (va - PGROUNDDOWN va) < 4096"
    by (simp add: PGROUNDDOWN_offset)
  ultimately show "((pgdir, x + PGSIZE, drop xa bs), pgdir, va, bs) \<in> measure (\<lambda>(d, va, bs). length bs)" by auto
qed auto

declare copyout.simps [simp del]

section \<open>Entries of a table\<close>

text \<open>Word \<open>i\<close> of the page at \<open>p\<close>.\<close>

definition slot :: "u32 \<Rightarrow> u32 \<Rightarrow> u32" where
  "slot p i = p + 4 * i"

lemma page_number:
  assumes "page_aligned p"
  obtains k where "unat p = 4096 * k" "k < 1048576"
proof -
  obtain k where k: "unat p = 4096 * k" using assms by (auto simp: page_aligned_def)
  moreover have "k < 1048576" using k unat_u32_less [of p] by simp
  ultimately show ?thesis by (rule that)
qed

lemma unat_page_offset:
  assumes "page_aligned p" "k < 4096"
  shows "unat (p + of_nat k) = unat p + k"
proof -
  obtain j where "unat p = 4096 * j" "j < 1048576" using assms(1) by (rule page_number)
  then show ?thesis using assms(2) by (simp add: unat_plus_if' unat_of_nat)
qed

lemma unat_slot:
  assumes "page_aligned p" "unat i < 1024"
  shows "unat (slot p i) = unat p + 4 * unat i"
proof -
  have "slot p i = p + of_nat (4 * unat i)" by (simp add: slot_def)
  then show ?thesis using unat_page_offset [OF assms(1), of "4 * unat i"] assms(2) by simp
qed

lemma slot_eq_iff:
  assumes "page_aligned p" "unat i < 1024" "page_aligned q" "unat j < 1024"
  shows "slot p i = slot q j \<longleftrightarrow> p = q \<and> i = j"
proof
  assume "slot p i = slot q j"
  then have e: "unat p + 4 * unat i = unat q + 4 * unat j"
    using unat_slot [OF assms(1,2)] unat_slot [OF assms(3,4)] by simp
  obtain k l where "unat p = 4096 * k" "unat q = 4096 * l"
    using assms(1,3) by (metis page_number)
  with e assms(2,4) have "k = l" "unat p = 4096 * k" "unat q = 4096 * l" by linarith+
  with e have "unat p = unat q" "unat i = unat j" by simp_all
  then show "p = q \<and> i = j" by (simp add: word_unat_eq_iff)
qed simp

lemma aligned4_slot:
  assumes "page_aligned p" "unat i < 1024"
  shows "aligned4 (slot p i)"
proof -
  obtain k where "unat p = 4096 * k" using assms(1) by (rule page_number)
  then have "unat (slot p i) = 4 * (1024 * k + unat i)" using unat_slot [OF assms] by simp
  then show ?thesis by (simp add: aligned4_def)
qed

lemma ld32_st32_slot:
  assumes "page_aligned p" "unat i < 1024" "page_aligned q" "unat j < 1024"
  shows "ld32 (st32 m (slot p i) v) (slot q j) = (if p = q \<and> i = j then v else ld32 m (slot q j))"
  using slot_eq_iff [OF assms] aligned4_slot [OF assms(1,2)] aligned4_slot [OF assms(3,4)]
  by (auto simp: ld32_st32_other)

lemma page_of_offset:
  assumes "page_aligned t" "page_aligned q" "k < 4096" "unat (q + of_nat k - t) < 4096"
  shows "q = t"
proof -
  obtain i j where ij: "unat q = 4096 * i" "i < 1048576" "unat t = 4096 * j" "j < 1048576"
    using assms(1,2) by (metis page_number)
  have qk: "unat (q + of_nat k) = 4096 * i + k"
    using unat_page_offset [OF assms(2,3)] ij(1) by simp
  have "unat q = unat t"
  proof (cases "unat t \<le> unat (q + of_nat k)")
    case True
    then have "unat (q + of_nat k - t) = 4096 * i + k - 4096 * j"
      using qk ij(3) by (simp add: unat_sub_if' del: of_nat_numeral)
    then have "i = j" using assms(3,4) True qk ij(3) by linarith
    then show ?thesis using ij by simp
  next
    case False
    then have "unat (q + of_nat k - t) = 4096 * i + k + 2 ^ 32 - 4096 * j"
      using qk ij(3) by (simp add: unat_sub_if')
    then show ?thesis using assms(4) ij(4) by simp
  qed
  then show ?thesis by (simp add: word_unat_eq_iff)
qed

lemma slot_in_range:
  assumes "page_aligned t" "page_aligned q" "unat j < 1024" "i < 4"
  shows "in_range t 4096 (slot q j + of_nat i) \<longleftrightarrow> q = t"
proof -
  have e: "slot q j + of_nat i = q + of_nat (4 * unat j + i)"
    by (simp add: slot_def)
  have k: "4 * unat j + i < 4096" using assms(3,4) by simp
  have "q = t" if "in_range t 4096 (slot q j + of_nat i)"
    using page_of_offset [OF assms(1,2) k] that e by (simp add: in_range_def)
  moreover have "in_range q 4096 (slot q j + of_nat i)"
    unfolding e using k by (subst in_range_of_nat) auto
  ultimately show ?thesis by blast
qed

lemma ld32_zero_page:
  assumes "page_aligned t" "page_aligned q" "unat j < 1024"
  shows "ld32 (memset m t 0 PGSIZE) (slot q j) = (if q = t then 0 else ld32 m (slot q j))"
proof -
  have *: "memset m t 0 PGSIZE (slot q j + of_nat i) = (if q = t then 0 else m (slot q j + of_nat i))"
    if "i < 4" for i
    using slot_in_range [OF assms that] by (simp add: memset_apply PGSIZE_def)
  show ?thesis
    using * [of 0] * [of 1] * [of 2] * [of 3] by (simp add: ld32_def un32_def)
qed

lemma PDX_bound: "unat (PDX va) < 1024" and PTX_bound: "unat (PTX va) < 1024"
proof -
  have "x AND 0x3FF = take_bit 10 (x :: u32)" for x
    by (simp add: take_bit_eq_mask mask_eq_exp_minus_1)
  then show "unat (PDX va) < 1024" "unat (PTX va) < 1024"
    by (simp_all add: PDX_def PTX_def take_bit_eq_mod unat_mod_distrib)
qed

lemma page_aligned_PTE_ADDR: "page_aligned (P2V (PTE_ADDR e))"
proof -
  have "PTE_ADDR e = PGROUNDDOWN e" by (simp add: PTE_ADDR_def PGROUNDDOWN_def PGSIZE_def)
  then have "unat (PTE_ADDR e) mod 4096 = 0"
    by (simp add: unat_PGROUNDDOWN minus_mod_eq_mult_div)
  then show ?thesis by (simp add: page_aligned_def V2P_mod_page P2V_eq_V2P)
qed

text \<open>A page-aligned address survives being packed with flags.\<close>

lemma page_aligned_low: "page_aligned a \<Longrightarrow> n < 12 \<Longrightarrow> \<not> bit a n"
proof -
  assume "page_aligned a" "n < 12"
  then have "take_bit 12 a = 0"
    by (simp add: page_aligned_def take_bit_eq_mod word_unat_eq_iff unat_mod_distrib)
  then have "\<not> bit (take_bit 12 a) n" by simp
  with \<open>n < 12\<close> show "\<not> bit a n" by (simp add: bit_take_bit_iff)
qed

lemma PTE_ADDR_mask: "PTE_ADDR e = e AND NOT (mask 12)"
  by (simp add: PTE_ADDR_def mask_eq_exp_minus_1)

lemma PTE_ADDR_flags:
  assumes "page_aligned a"
  shows "PTE_ADDR (a OR take_bit 12 f) = a"
  by (rule bit_word_eqI) (use page_aligned_low [OF assms] in \<open>auto simp: PTE_ADDR_mask bit_simps\<close>)

lemma page_aligned_V2P: "page_aligned (V2P a) = page_aligned a"
  by (simp add: page_aligned_def V2P_mod_page)

section \<open>A page table as an address space\<close>

text \<open>
  \<open>pte_of m d va\<close> is the entry of page directory \<open>d\<close> for address \<open>va\<close>, 0 when there is no page
  table for it; \<open>table_of\<close> is the page table an entry of the directory points to.
\<close>

definition pde_of :: "memory \<Rightarrow> u32 \<Rightarrow> u32 \<Rightarrow> u32" where
  "pde_of m d i = ld32 m (slot d i)"

definition table_of :: "memory \<Rightarrow> u32 \<Rightarrow> u32 \<Rightarrow> u32" where
  "table_of m d i = P2V (PTE_ADDR (pde_of m d i))"

definition pte_of :: "memory \<Rightarrow> u32 \<Rightarrow> u32 \<Rightarrow> u32" where
  "pte_of m d va = (if pde_of m d (PDX va) AND PTE_P = 0 then 0
     else ld32 m (slot (table_of m d (PDX va)) (PTX va)))"

text \<open>The index of the page of an address, from which both indices of a walk are computed.\<close>

definition vpage :: "u32 \<Rightarrow> nat" where
  "vpage va = unat va div 4096"

definition is_dir :: "memory \<Rightarrow> u32 \<Rightarrow> u32 \<Rightarrow> bool" where
  "is_dir m d i = (unat i < 1024 \<and> pde_of m d i AND PTE_P \<noteq> 0)"

text \<open>
  A page directory in memory, with the pages \<open>xs\<close> free: its tables are pages of their own, no two
  entries share a table, and no free page is part of it.
\<close>

definition pt_ok :: "u32 list \<Rightarrow> memory \<Rightarrow> u32 \<Rightarrow> bool" where
  "pt_ok xs m d = (page_aligned d \<and> d \<notin> set xs \<and>
     (\<forall>i. is_dir m d i \<longrightarrow> table_of m d i \<noteq> 0 \<and> table_of m d i \<noteq> d \<and>
       table_of m d i \<notin> set xs \<and> (\<forall>j. is_dir m d j \<longrightarrow> table_of m d i = table_of m d j \<longrightarrow> i = j)))"

lemma PDX_nat: "unat (PDX va) = unat va div 4194304"
  and PTX_nat: "unat (PTX va) = unat va div 4096 mod 1024"
proof -
  have m: "x AND 0x3FF = take_bit 10 (x :: u32)" for x
    by (simp add: take_bit_eq_mask mask_eq_exp_minus_1)
  show "unat (PTX va) = unat va div 4096 mod 1024"
    by (simp add: PTX_def PTXSHIFT_def m take_bit_eq_mod drop_bit_eq_div unat_mod_distrib unat_div_distrib)
  have "unat va div 4194304 < 1024" using unat_u32_less [of va] by (simp add: less_mult_imp_div_less)
  then show "unat (PDX va) = unat va div 4194304"
    by (simp add: PDX_def PDXSHIFT_def m take_bit_eq_mod drop_bit_eq_div unat_mod_distrib unat_div_distrib)
qed

lemma vpage_eq_iff: "vpage a = vpage b \<longleftrightarrow> PDX a = PDX b \<and> PTX a = PTX b"
proof -
  have "unat (PDX v) = vpage v div 1024 \<and> unat (PTX v) = vpage v mod 1024" for v
    by (simp add: vpage_def PDX_nat PTX_nat div_mult2_eq [symmetric])
  then show ?thesis
    by (metis div_mult_mod_eq word_unat_eq_iff)
qed

lemma page_aligned_table: "page_aligned (table_of m d i)"
  by (simp add: table_of_def page_aligned_PTE_ADDR)

lemma pte_addr_slot: "pde_addr d va = slot d (PDX va)" "pte_addr t va = slot t (PTX va)"
  by (simp_all add: pde_addr_def pte_addr_def slot_def)

text \<open>Writing an entry of a table of \<open>d\<close> changes the address space at that page only.\<close>

lemma pde_of_store:
  assumes "pt_ok xs m d" "page_aligned t" "t \<noteq> d" "unat k < 1024" "unat i < 1024"
  shows "pde_of (st32 m (slot t k) e) d i = pde_of m d i"
  using assms by (simp add: pde_of_def ld32_st32_slot pt_ok_def)

lemma store_entry:
  assumes "pt_ok xs m d" "is_dir m d (PDX a)"
  shows "pt_ok xs (st32 m (slot (table_of m d (PDX a)) (PTX a)) e) d"
    and "pte_of (st32 m (slot (table_of m d (PDX a)) (PTX a)) e) d b =
      (if vpage b = vpage a then e else pte_of m d b)"
proof -
  let ?t = "table_of m d (PDX a)" let ?m = "st32 m (slot ?t (PTX a)) e"
  have t: "?t \<noteq> d" using assms by (auto simp: pt_ok_def)
  have p: "pde_of ?m d i = pde_of m d i" if "unat i < 1024" for i
    using pde_of_store [OF assms(1) page_aligned_table t PTX_bound that] .
  then have q: "table_of ?m d i = table_of m d i" "is_dir ?m d i = is_dir m d i" if "unat i < 1024" for i
    using that by (simp_all add: table_of_def is_dir_def)
  have u: "unat i < 1024" if "is_dir m' d i" for m' i using that by (simp add: is_dir_def)
  show "pt_ok xs ?m d"
    using assms(1) q unfolding pt_ok_def by (metis u)
  have inj: "PDX b = PDX a" if "is_dir m d (PDX b)" "table_of m d (PDX b) = ?t"
    using assms that unfolding pt_ok_def by blast
  show "pte_of ?m d b = (if vpage b = vpage a then e else pte_of m d b)"
  proof (cases "is_dir m d (PDX b)")
    case True
    then have "pte_of ?m d b = (if ?t = table_of m d (PDX b) \<and> PTX a = PTX b then e else pte_of m d b)"
      using p [OF PDX_bound] q(1) [OF PDX_bound]
      by (simp add: pte_of_def is_dir_def ld32_st32_slot page_aligned_table PTX_bound)
    also have "?t = table_of m d (PDX b) \<and> PTX a = PTX b \<longleftrightarrow> vpage b = vpage a"
      using True inj vpage_eq_iff [of b a] by metis
    finally show ?thesis .
  next
    case False
    then have "vpage b \<noteq> vpage a" using assms(2) vpage_eq_iff [of b a] by metis
    then show ?thesis using False p [OF PDX_bound] by (simp add: pte_of_def is_dir_def PDX_bound)
  qed
qed

text \<open>Adding an empty table changes no entry.\<close>

definition with_table :: "u32 \<Rightarrow> u32 \<Rightarrow> u32 \<Rightarrow> memory \<Rightarrow> memory" where
  "with_table d i x m = st32 (memset m x 0 PGSIZE) (slot d i) (V2P x OR PTE_P OR PTE_W OR PTE_U)"

lemma with_table_slot:
  assumes "page_aligned x" "page_aligned d" "x \<noteq> d" "unat i < 1024" "page_aligned q" "unat j < 1024"
  shows "ld32 (with_table d i x m) (slot q j) =
    (if q = d \<and> j = i then V2P x OR PTE_P OR PTE_W OR PTE_U else if q = x then 0 else ld32 m (slot q j))"
  using assms by (auto simp: with_table_def ld32_st32_slot ld32_zero_page)

lemma new_pde:
  assumes "page_aligned x"
  shows "PTE_ADDR (V2P x OR PTE_P OR PTE_W OR PTE_U) = V2P x" "(V2P x OR PTE_P OR PTE_W OR PTE_U) AND PTE_P \<noteq> 0"
proof -
  have "(PTE_P OR PTE_W OR PTE_U :: u32) = take_bit 12 7"
    by (simp add: pte_bits)
  then show "PTE_ADDR (V2P x OR PTE_P OR PTE_W OR PTE_U) = V2P x"
    using PTE_ADDR_flags [of "V2P x" 7] assms by (simp add: page_aligned_V2P)
  have "bit ((V2P x OR PTE_P OR PTE_W OR PTE_U) AND PTE_P) 0"
    by (simp add: pte_bits bit_simps)
  then show "(V2P x OR PTE_P OR PTE_W OR PTE_U) AND PTE_P \<noteq> 0" by (metis bit_0_eq bot_apply bot_bool_def)
qed

lemma add_table:
  assumes ok: "pt_ok (x # xs) m d" and x: "page_aligned x" "x \<noteq> 0" "x \<notin> set xs"
    and a: "\<not> is_dir m d (PDX a)"
  shows "pt_ok xs (with_table d (PDX a) x m) d" "is_dir (with_table d (PDX a) x m) d (PDX a)"
    "table_of (with_table d (PDX a) x m) d (PDX a) = x"
    "pte_of (with_table d (PDX a) x m) d b = pte_of m d b"
proof -
  let ?m = "with_table d (PDX a) x m"
  have d: "page_aligned d" "d \<noteq> x" "d \<notin> set xs" using ok by (auto simp: pt_ok_def)
  have p: "pde_of ?m d i = (if i = PDX a then V2P x OR PTE_P OR PTE_W OR PTE_U else pde_of m d i)"
    if "unat i < 1024" for i
    using with_table_slot [OF x(1) d(1) d(2) [symmetric] PDX_bound d(1) that] d by (simp add: pde_of_def)
  then show new: "is_dir ?m d (PDX a)" "table_of ?m d (PDX a) = x"
    using new_pde [OF x(1)] by (simp_all add: is_dir_def table_of_def PDX_bound)
  have old: "is_dir ?m d i = is_dir m d i" "table_of ?m d i = table_of m d i"
    if "i \<noteq> PDX a" "unat i < 1024" for i
    using that p by (simp_all add: is_dir_def table_of_def)
  have u: "unat i < 1024" if "is_dir m' d i" for m' i using that by (simp add: is_dir_def)
  have tx: "table_of m d i \<noteq> x" if "is_dir m d i" for i
    using ok that by (auto simp: pt_ok_def)
  have "table_of ?m d i \<noteq> 0 \<and> table_of ?m d i \<noteq> d \<and> table_of ?m d i \<notin> set xs \<and>
      (\<forall>j. is_dir ?m d j \<longrightarrow> table_of ?m d i = table_of ?m d j \<longrightarrow> i = j)" if "is_dir ?m d i" for i
  proof (cases "i = PDX a")
    case True
    then show ?thesis using new x d tx old u by metis
  next
    case False
    then have i: "is_dir m d i" using old u that by metis
    then have "table_of m d i \<noteq> 0" "table_of m d i \<noteq> d" "table_of m d i \<notin> set xs"
      "\<And>j. is_dir m d j \<Longrightarrow> table_of m d i = table_of m d j \<Longrightarrow> i = j"
      using ok by (auto simp: pt_ok_def)
    then show ?thesis using old(1,2) [OF False u [OF that]] i new tx old u by metis
  qed
  then show "pt_ok xs ?m d" using d by (simp add: pt_ok_def)
  show "pte_of ?m d b = pte_of m d b"
  proof (cases "PDX b = PDX a")
    case True
    then have "pte_of ?m d b = ld32 ?m (slot x (PTX b))"
      using new by (simp add: pte_of_def is_dir_def)
    also have "\<dots> = 0"
      using with_table_slot [OF x(1) d(1) d(2) [symmetric] PDX_bound x(1) PTX_bound] d by auto
    also have "\<dots> = pte_of m d b" using True a by (simp add: pte_of_def is_dir_def PDX_bound)
    finally show ?thesis .
  next
    case False
    have "ld32 ?m (slot (table_of m d (PDX b)) (PTX b)) = ld32 m (slot (table_of m d (PDX b)) (PTX b))"
      if "is_dir m d (PDX b)"
      using with_table_slot [OF x(1) d(1) d(2) [symmetric] PDX_bound page_aligned_table PTX_bound] tx [OF that] ok that
      by (auto simp: pt_ok_def)
    then show ?thesis using False p [OF PDX_bound, of b] old(2) [OF False PDX_bound]
      by (auto simp: pte_of_def is_dir_def PDX_bound)
  qed
qed

section \<open>Running the walk\<close>

definition pt_state :: "u32 list \<Rightarrow> u32 \<Rightarrow> 'z kmem_scheme \<Rightarrow> bool" where
  "pt_state xs d s = (kmem_inv xs s \<and> kmem_ready s \<and> pt_ok xs (mem s) d)"

lemma fl_cong: "(\<And>x. x \<in> set xs \<Longrightarrow> ld32 m' x = ld32 m x) \<Longrightarrow> fl m' p xs = fl m p xs"
  by (induction xs arbitrary: p) auto

lemma kmem_inv_mem:
  assumes "kmem_inv xs s" "\<And>x. x \<in> set xs \<Longrightarrow> ld32 m' x = ld32 (mem s) x"
  shows "kmem_inv xs (s\<lparr>mem := m'\<rparr>)"
  using assms fl_cong [of xs m' "mem s"] by (auto simp: kmem_inv_def page_ok_def refs_of_def)

lemma free_page_slot: "kmem_inv xs s \<Longrightarrow> x \<in> set xs \<Longrightarrow> page_aligned x \<and> x = slot x 0"
  by (auto simp: kmem_inv_def page_ok_def page_aligned_def slot_def)

lemma slot_nonzero: "page_aligned t \<Longrightarrow> t \<noteq> 0 \<Longrightarrow> unat i < 1024 \<Longrightarrow> slot t i \<noteq> 0"
  by (metis add_is_0 unat_eq_zero unat_slot)

lemma pt_state_store:
  assumes "pt_state xs d s" "is_dir (mem s) d (PDX a)"
  shows "pt_state xs d (s\<lparr>mem := st32 (mem s) (slot (table_of (mem s) d (PDX a)) (PTX a)) e\<rparr>)"
proof -
  let ?t = "table_of (mem s) d (PDX a)"
  have k: "kmem_inv xs s" "pt_ok xs (mem s) d" using assms(1) by (auto simp: pt_state_def)
  then have t: "?t \<notin> set xs" using assms(2) by (auto simp: pt_ok_def)
  have "ld32 (st32 (mem s) (slot ?t (PTX a)) e) x = ld32 (mem s) x" if "x \<in> set xs" for x
  proof -
    have x: "page_aligned x" "x = slot x 0" using free_page_slot [OF k(1) that] by auto
    have "ld32 (st32 (mem s) (slot ?t (PTX a)) e) (slot x 0) = ld32 (mem s) (slot x 0)"
      using ld32_st32_slot [OF page_aligned_table PTX_bound x(1), where j = 0] t that by auto
    with x(2) show ?thesis by simp
  qed
  then show ?thesis
    using assms store_entry(1) [OF k(2) assms(2)] kmem_inv_mem [OF k(1)]
    by (simp add: pt_state_def kmem_ready_def)
qed

lemma walk_alloc:
  assumes "pt_state xs d s"
  shows "(\<not> is_dir (mem s) d (PDX a) \<and> xs = [] \<and> walkpgdir d a True s = Ok 0 s) \<or>
    (\<exists>ys s'. walkpgdir d a True s = Ok (slot (table_of (mem s') d (PDX a)) (PTX a)) s' \<and>
       is_dir (mem s') d (PDX a) \<and> pt_state ys d s' \<and> (\<forall>b. pte_of (mem s') d b = pte_of (mem s) d b) \<and>
       length xs \<le> Suc (length ys))"
proof (cases "is_dir (mem s) d (PDX a)")
  case True
  then have "walkpgdir d a True s = Ok (slot (table_of (mem s) d (PDX a)) (PTX a)) s"
    by (simp add: walkpgdir_def ld_def pte_addr_slot is_dir_def pde_of_def table_of_def)
  then show ?thesis using True assms by (intro disjI2 exI [of _ xs] exI [of _ s]) auto
next
  case False
  then have w: "walkpgdir d a True s = (bnd kalloc (\<lambda>t. if t = 0 then ret 0 else
      thn (modify (\<lambda>s. s\<lparr>mem := memset (mem s) t 0 PGSIZE\<rparr>)) (
      thn (st (pde_addr d a) (V2P t OR PTE_P OR PTE_W OR PTE_U)) (ret (pte_addr t a))))) s"
    by (simp add: walkpgdir_def ld_def pte_addr_slot is_dir_def pde_of_def PDX_bound)
  have k: "kmem_inv xs s" "kmem_ready s" "pt_ok xs (mem s) d" using assms by (auto simp: pt_state_def)
  show ?thesis
  proof (cases xs)
    case Nil
    then have "kalloc s = Ok 0 s" using k kalloc_run [OF k(2)] by (simp add: kmem_inv_def)
    then have "walkpgdir d a True s = Ok 0 s" by (simp add: w bnd_Ok)
    then show ?thesis using False Nil by blast
  next
    case (Cons x ys)
    let ?m = "with_table d (PDX a) x (mem s)" let ?s = "(popped x s)\<lparr>mem := ?m\<rparr>"
    note f = kmem_inv_Cons [OF k(1) [unfolded Cons]]
    have x: "page_aligned x" using f(2) by (simp add: page_ok_def page_aligned_def)
    note t = add_table [OF k(3) [unfolded Cons] x f(4,5) False]
    have m: "mem (popped x s) = mem s" by (simp add: popped_def)
    have e: "walkpgdir d a True s = Ok (slot x (PTX a)) ?s"
      using f kalloc_run [OF k(2)] by (simp add: w bnd_Ok st_def m pte_addr_slot with_table_def)
    have d: "page_aligned d" "d \<noteq> x" "d \<notin> set ys" using k(3) Cons by (auto simp: pt_ok_def)
    have "ld32 ?m y = ld32 (mem (popped x s)) y" if "y \<in> set ys" for y
    proof -
      have y: "page_aligned y" "y = slot y 0" using free_page_slot [OF k(1)] that Cons by auto
      have "ld32 ?m (slot y 0) = ld32 (mem s) (slot y 0)"
        using with_table_slot [OF x d(1) d(2) [symmetric] PDX_bound y(1), where j = 0] that d f(5) by auto
      with y(2) m show ?thesis by simp
    qed
    then have "kmem_inv ys ?s" by (intro kmem_inv_mem popped_inv) (use k(1) Cons in auto)
    moreover have "kmem_ready ?s" using k(2) by (simp add: kmem_ready_def popped_def)
    ultimately show ?thesis using e t Cons
      by (intro disjI2 exI [of _ ys] exI [of _ ?s]) (simp add: pt_state_def)
  qed
qed

section \<open>Mapping pages\<close>

lemma map_one_run:
  fixes s :: "'a kmem_scheme"
  assumes "pt_state xs d s" "pte_of (mem s) d a AND PTE_P = 0"
  shows "(xs = [] \<and> map_one d a pa perm s = Ok False s) \<or>
    (\<exists>ys s'. map_one d a pa perm s = Ok True s' \<and> pt_state ys d s' \<and> length xs \<le> Suc (length ys) \<and>
       (\<forall>b. pte_of (mem s') d b = (if vpage b = vpage a then pa OR perm OR PTE_P else pte_of (mem s) d b)))"
  using walk_alloc [OF assms(1), of a]
proof (elim disjE exE conjE)
  assume "xs = []" "walkpgdir d a True s = Ok 0 s"
  then have "map_one d a pa perm s = Ok False s" by (simp add: map_one_def bnd_Ok)
  then show ?thesis using \<open>xs = []\<close> by blast
next
  fix ys and s1 :: "'a kmem_scheme"
  let ?p = "slot (table_of (mem s1) d (PDX a)) (PTX a)"
  assume w: "walkpgdir d a True s = Ok ?p s1" and dir: "is_dir (mem s1) d (PDX a)"
    and st1: "pt_state ys d s1" and same: "\<forall>b. pte_of (mem s1) d b = pte_of (mem s) d b"
    and len: "length xs \<le> Suc (length ys)"
  let ?s = "s1\<lparr>mem := st32 (mem s1) ?p (pa OR perm OR PTE_P)\<rparr>"
  have ok: "pt_ok ys (mem s1) d" using st1 by (simp add: pt_state_def)
  then have "?p \<noteq> 0" using dir by (intro slot_nonzero page_aligned_table PTX_bound) (auto simp: pt_ok_def)
  moreover have "ld32 (mem s1) ?p AND PTE_P = 0"
    using same assms(2) dir by (metis is_dir_def pte_of_def)
  ultimately have "map_one d a pa perm s = Ok True ?s"
    using w by (simp add: map_one_def bnd_Ok ld_def st_def)
  then show ?thesis
    using pt_state_store [OF st1 dir] store_entry(2) [OF ok dir] same len
    by (intro disjI2 exI [of _ ys] exI [of _ ?s]) simp
qed

lemma vpage_next: "Suc (vpage a) < 1048576 \<Longrightarrow> vpage (a + PGSIZE) = Suc (vpage a)"
proof -
  assume "Suc (vpage a) < 1048576"
  then have "unat a + 4096 < 2 ^ 32" by (simp add: vpage_def)
  then have "unat (a + 4096) = unat a + 4096" by (simp add: unat_plus_if')
  then show ?thesis by (simp add: vpage_def PGSIZE_def)
qed

text \<open>The entries of the pages from page \<open>i\<close> to page \<open>i + n\<close>, mapped from \<open>pa\<close>.\<close>

definition mapped :: "nat \<Rightarrow> nat \<Rightarrow> u32 \<Rightarrow> u32 \<Rightarrow> (u32 \<Rightarrow> u32) \<Rightarrow> u32 \<Rightarrow> u32" where
  "mapped i n pa perm f b = (if i \<le> vpage b \<and> vpage b \<le> i + n
     then (pa + of_nat (4096 * (vpage b - i))) OR perm OR PTE_P else f b)"

lemma mapped_Suc:
  assumes "\<And>b. g b = (if vpage b = i then pa OR perm OR PTE_P else f b)"
  shows "mapped (Suc i) n (pa + PGSIZE) perm g b = mapped i (Suc n) pa perm f b"
proof -
  have *: "pa + PGSIZE + of_nat (4096 * (vpage b - Suc i)) = pa + of_nat (4096 * (vpage b - i))"
    if "i < vpage b"
  proof -
    have "4096 * (vpage b - i) = 4096 + 4096 * (vpage b - Suc i)" using that by (simp flip: mult_Suc_right)
    then show ?thesis by (simp only: of_nat_add of_nat_numeral PGSIZE_def add.assoc)
  qed
  show ?thesis
  proof (cases "i < vpage b")
    case True
    then show ?thesis using assms [of b] unfolding mapped_def * [OF True] by (simp add: Suc_le_eq)
  next
    case False
    then show ?thesis using assms [of b] by (auto simp: mapped_def)
  qed
qed

lemma map_pages_run:
  assumes "pt_state xs d s" "vpage a + n < 1048576"
    "\<And>b. vpage a \<le> vpage b \<Longrightarrow> vpage b \<le> vpage a + n \<Longrightarrow> pte_of (mem s) d b AND PTE_P = 0"
  shows "\<exists>r s' ys. map_pages n d a pa perm s = Ok r s' \<and> pt_state ys d s' \<and> r \<in> {0, -1} \<and>
    (n < length xs \<longrightarrow> r = 0) \<and> (r = 0 \<longrightarrow> (\<forall>b. pte_of (mem s') d b = mapped (vpage a) n pa perm (pte_of (mem s) d) b))"
  using assms
proof (induction n arbitrary: a pa s xs)
  case 0
  have pa0: "pte_of (mem s) d a AND PTE_P = 0" using "0.prems"(3) [of a] by simp
  show ?case
    using map_one_run [OF "0.prems"(1) pa0, of pa perm]
  proof (elim disjE exE conjE)
    assume "xs = []" "map_one d a pa perm s = Ok False s"
    then show ?thesis using "0.prems"(1)
      by (intro exI [of _ "-1"] exI [of _ s] exI [of _ xs]) (simp add: bnd_def)
  next
    fix ys s' assume "map_one d a pa perm s = Ok True s'" "pt_state ys d s'"
      "\<forall>b. pte_of (mem s') d b = (if vpage b = vpage a then pa OR perm OR PTE_P else pte_of (mem s) d b)"
    then show ?thesis by (intro exI [of _ 0] exI [of _ s'] exI [of _ ys]) (auto simp: bnd_Ok mapped_def)
  qed
next
  case (Suc n)
  have pa0: "pte_of (mem s) d a AND PTE_P = 0" using Suc.prems(3) [of a] by simp
  show ?case
    using map_one_run [OF Suc.prems(1) pa0, of pa perm]
  proof (elim disjE exE conjE)
    assume "xs = []" "map_one d a pa perm s = Ok False s"
    then show ?thesis using Suc.prems(1)
      by (intro exI [of _ "-1"] exI [of _ s] exI [of _ xs]) (simp add: bnd_def)
  next
    fix ys s1
    assume m: "map_one d a pa perm s = Ok True s1" and p: "pt_state ys d s1" and l: "length xs \<le> Suc (length ys)"
      and e: "\<forall>b. pte_of (mem s1) d b = (if vpage b = vpage a then pa OR perm OR PTE_P else pte_of (mem s) d b)"
    have v: "vpage (a + PGSIZE) = Suc (vpage a)" using vpage_next Suc.prems(2) by simp
    have "pte_of (mem s1) d b AND PTE_P = 0"
      if "vpage (a + PGSIZE) \<le> vpage b" "vpage b \<le> vpage (a + PGSIZE) + n" for b
      using Suc.prems(3) [of b] that e v by simp
    with Suc.IH [OF p, of "a + PGSIZE" "pa + PGSIZE"] v Suc.prems(2)
    obtain r s' zs where r: "map_pages n d (a + PGSIZE) (pa + PGSIZE) perm s1 = Ok r s'" "pt_state zs d s'" "r \<in> {0, -1}"
      "n < length ys \<longrightarrow> r = 0" "r = 0 \<longrightarrow> (\<forall>b. pte_of (mem s') d b =
         mapped (Suc (vpage a)) n (pa + PGSIZE) perm (pte_of (mem s1) d) b)" by auto
    have "mapped (Suc (vpage a)) n (pa + PGSIZE) perm (pte_of (mem s1) d) b =
      mapped (vpage a) (Suc n) pa perm (pte_of (mem s) d) b" for b
      by (rule mapped_Suc) (use e in blast)
    then show ?thesis using m r l by (intro exI [of _ r] exI [of _ s'] exI [of _ zs]) (auto simp: bnd_Ok)
  qed
qed

lemma vpage_PGROUNDDOWN: "vpage (PGROUNDDOWN a) = vpage a" "unat (PGROUNDDOWN a) = 4096 * vpage a"
  by (simp_all add: vpage_def unat_PGROUNDDOWN minus_mod_eq_mult_div)

text \<open>C3: \<open>mappages\<close> on a page directory whose tables are in order. When no page from the first to
  the last of the range is present, the call does not panic; it returns 0 whenever there are as many
  free pages as pages to map, and when it returns 0 the address space is the old one with exactly
  those pages mapped, in order, from \<open>pa\<close> on with the given permissions; the page directory
  and the free list stay well formed on success and on failure.\<close>

theorem mappages_maps_range:
  assumes "pt_state xs d s" "0 < n" "unat va + unat n \<le> 2 ^ 32"
    "\<And>b. vpage va \<le> vpage b \<Longrightarrow> vpage b \<le> vpage (va + n - 1) \<Longrightarrow> pte_of (mem s) d b AND PTE_P = 0"
  shows "\<exists>r s' ys. mappages d va n pa perm s = Ok r s' \<and> pt_state ys d s' \<and> r \<in> {0, -1} \<and>
    (vpage (va + n - 1) - vpage va < length xs \<longrightarrow> r = 0) \<and>
    (r = 0 \<longrightarrow> (\<forall>b. pte_of (mem s') d b =
       (if vpage va \<le> vpage b \<and> vpage b \<le> vpage (va + n - 1)
        then (pa + of_nat (4096 * (vpage b - vpage va))) OR perm OR PTE_P else pte_of (mem s) d b)))"
proof -
  let ?k = "vpage (va + n - 1) - vpage va"
  have "0 < unat n" using assms(2) by (simp add: word_less_nat_alt)
  then have "unat (va + n - 1) = unat va + unat n - 1"
  proof -
    have "unat (n - 1) = unat n - 1" using \<open>0 < unat n\<close> by (metis unat_minus_one unat_0 less_numeral_extra(3))
    moreover have "va + n - 1 = va + (n - 1)" by simp
    ultimately show ?thesis using assms(3) \<open>0 < unat n\<close> by (simp only: unat_plus_if') simp
  qed
  then have le: "vpage va \<le> vpage (va + n - 1)" using \<open>0 < unat n\<close> by (simp add: vpage_def div_le_mono)
  have b: "vpage w < 1048576" for w using unat_u32_less [of w] by (simp add: vpage_def less_mult_imp_div_less)
  have "unat (PGROUNDDOWN (va + n - 1) - PGROUNDDOWN va) = 4096 * ?k"
    using le by (simp add: unat_sub_if' vpage_PGROUNDDOWN diff_mult_distrib2)
  then have e: "mappages d va n pa perm = map_pages ?k d (PGROUNDDOWN va) pa perm"
    by (simp add: mappages_def Let_def)
  have "\<And>b. vpage (PGROUNDDOWN va) \<le> vpage b \<Longrightarrow> vpage b \<le> vpage (PGROUNDDOWN va) + ?k \<Longrightarrow>
      pte_of (mem s) d b AND PTE_P = 0"
    using assms(4) le by (simp add: vpage_PGROUNDDOWN)
  with map_pages_run [OF assms(1), of "PGROUNDDOWN va" ?k pa perm]
  obtain r s' ys where "mappages d va n pa perm s = Ok r s'" "pt_state ys d s'" "r \<in> {0, -1}"
    "?k < length xs \<longrightarrow> r = 0" "r = 0 \<longrightarrow> (\<forall>b. pte_of (mem s') d b = mapped (vpage va) ?k pa perm (pte_of (mem s) d) b)"
    using le b [of "va + n - 1"] unfolding e vpage_PGROUNDDOWN by auto
  then show ?thesis
    using le by (intro exI [of _ r] exI [of _ s'] exI [of _ ys]) (simp only: mapped_def le_add_diff_inverse simp_thms)
qed

lemma kmem2_empty_dir:
  assumes "unat i < 1024"
  shows "pde_of (mem kmem2) 0x80402000 i = 0"
proof -
  have p: "page_aligned 0x80400000" "page_aligned 0x80401000" "page_aligned 0x80402000"
    by (simp_all add: page_aligned_def)
  have "mem kmem2 = st32 (st32 (\<lambda>_. 0) (slot 0x80400000 0) 0x80401000) (slot 0x80401000 0) 0"
    by (simp add: kmem2_def slot_def)
  then show ?thesis
    using ld32_st32_slot [OF p(1) _ p(3) assms, where i = 0] ld32_st32_slot [OF p(2) _ p(3) assms, where i = 0]
    by (simp add: pde_of_def) (simp add: ld32_def un32_def)
qed

theorem mappages_maps_range_witness:
  "\<exists>s' ys. mappages 0x80402000 0x1000 PGSIZE 0x5000 (PTE_W OR PTE_U) kmem2 = Ok 0 s' \<and>
     pt_state ys 0x80402000 s' \<and> pte_of (mem s') 0x80402000 0x1234 = 0x5007 \<and>
     pte_of (mem s') 0x80402000 0x2000 = 0"
proof -
  have none: "\<not> is_dir (mem kmem2) 0x80402000 i" for i
    using kmem2_empty_dir [of i] by (auto simp: is_dir_def)
  have "pt_ok [0x80400000, 0x80401000] (mem kmem2) 0x80402000"
    using none by (simp add: pt_ok_def page_aligned_def)
  then have s: "pt_state [0x80400000, 0x80401000] 0x80402000 kmem2"
    by (simp add: pt_state_def kmem2_inv)
  have z: "pte_of (mem kmem2) 0x80402000 b = 0" for b
    using none [of "PDX b"] by (simp add: pte_of_def is_dir_def PDX_bound)
  have v: "vpage 0x1000 = 1" "vpage 0x1FFF = 1" "vpage 0x1234 = 1" "vpage 0x2000 = 2"
    by (simp_all add: vpage_def)
  from mappages_maps_range [OF s, where n = PGSIZE and va = "0x1000" and pa = "0x5000" and perm = "PTE_W OR PTE_U"]
  obtain r s' ys where r: "mappages 0x80402000 0x1000 PGSIZE 0x5000 (PTE_W OR PTE_U) kmem2 = Ok r s'"
    "pt_state ys 0x80402000 s'" "r = 0"
    "r = 0 \<longrightarrow> (\<forall>b. pte_of (mem s') 0x80402000 b = (if vpage 0x1000 \<le> vpage b \<and> vpage b \<le> vpage 0x1FFF
      then (0x5000 + of_nat (4096 * (vpage b - vpage 0x1000))) OR (PTE_W OR PTE_U) OR PTE_P else 0))"
    by (auto simp: z PGSIZE_def v)
  from r(3,4) have "pte_of (mem s') 0x80402000 0x1234 = 0x5007" "pte_of (mem s') 0x80402000 0x2000 = 0"
    by (simp_all add: v pte_bits)
  with r show ?thesis by blast
qed

section \<open>Changes that leave a page table alone\<close>

lemma page_offset_nat: "unat (va AND 0xFFF :: u32) = unat va mod 4096"
proof -
  have "va AND 0xFFF = take_bit 12 va" by (simp add: take_bit_eq_mask mask_eq_exp_minus_1)
  then show ?thesis by (simp add: take_bit_eq_mod unat_mod_distrib)
qed

lemma pte_of_vpage: "vpage a = vpage b \<Longrightarrow> pte_of m d a = pte_of m d b"
  by (simp add: vpage_eq_iff pte_of_def)

lemma is_dir_store:
  assumes "pt_ok xs m d" "is_dir m d (PDX a)"
  shows "is_dir (st32 m (slot (table_of m d (PDX a)) (PTX a)) e) d i = is_dir m d i"
proof -
  have "table_of m d (PDX a) \<noteq> d" using assms by (auto simp: pt_ok_def)
  then have "unat i < 1024 \<Longrightarrow> pde_of (st32 m (slot (table_of m d (PDX a)) (PTX a)) e) d i = pde_of m d i"
    by (rule pde_of_store [OF assms(1) page_aligned_table _ PTX_bound])
  then show ?thesis by (auto simp: is_dir_def)
qed

lemma walk_present:
  assumes "pt_ok xs (mem s) d" "is_dir (mem s) d (PDX a)"
  shows "walk_entry d a s = Ok (slot (table_of (mem s) d (PDX a)) (PTX a)) s"
    and "ld (slot (table_of (mem s) d (PDX a)) (PTX a)) s = Ok (pte_of (mem s) d a) s"
proof -
  have "slot (table_of (mem s) d (PDX a)) (PTX a) \<noteq> 0"
    using assms by (intro slot_nonzero page_aligned_table PTX_bound) (auto simp: pt_ok_def)
  moreover have "walkpgdir d a False s = Ok (slot (table_of (mem s) d (PDX a)) (PTX a)) s"
    using assms(2) by (simp add: walkpgdir_def ld_def pte_addr_slot is_dir_def pde_of_def table_of_def)
  ultimately show "walk_entry d a s = Ok (slot (table_of (mem s) d (PDX a)) (PTX a)) s"
    by (simp add: walk_entry_def bnd_def)
  show "ld (slot (table_of (mem s) d (PDX a)) (PTX a)) s = Ok (pte_of (mem s) d a) s"
    using assms(2) by (simp add: ld_def pte_of_def is_dir_def)
qed

lemma walk_slot:
  assumes "is_dir (mem s) d (PDX a)"
  shows "walkpgdir d a False s = Ok (slot (table_of (mem s) d (PDX a)) (PTX a)) s"
  using assms by (simp add: walkpgdir_def ld_def pte_addr_slot is_dir_def pde_of_def table_of_def)

text \<open>Changes within one page that is not part of a page directory.\<close>

definition same_outside :: "u32 \<Rightarrow> memory \<Rightarrow> memory \<Rightarrow> bool" where
  "same_outside x m m' = (\<forall>a. \<not> in_range x 4096 a \<longrightarrow> m' a = m a)"

lemma ld32_outside:
  assumes "same_outside x m m'" "page_aligned x" "page_aligned q" "q \<noteq> x" "unat j < 1024"
  shows "ld32 m' (slot q j) = ld32 m (slot q j)"
  using assms slot_in_range [OF assms(2,3,5)] by (intro ld32_cong) (auto simp: same_outside_def)

lemma pt_outside:
  assumes "pt_ok (x # xs) m d" "same_outside x m m'" "page_aligned x"
  shows "pt_ok xs m' d" "pte_of m' d b = pte_of m d b" "is_dir m' d i = is_dir m d i"
    "is_dir m d i \<Longrightarrow> table_of m' d i = table_of m d i"
proof -
  have d: "page_aligned d" "d \<noteq> x" using assms(1) by (auto simp: pt_ok_def)
  have p: "pde_of m' d i = pde_of m d i" if "unat i < 1024" for i
    using ld32_outside [OF assms(2,3) d that] by (simp add: pde_of_def)
  then show i: "is_dir m' d i = is_dir m d i" and t: "is_dir m d i \<Longrightarrow> table_of m' d i = table_of m d i" for i
    by (auto simp: is_dir_def table_of_def)
  show "pt_ok xs m' d" using assms(1) i t unfolding pt_ok_def by (metis list.set_intros(2))
  show "pte_of m' d b = pte_of m d b"
  proof (cases "is_dir m d (PDX b)")
    case True
    then have "table_of m d (PDX b) \<noteq> x" using assms(1) by (auto simp: pt_ok_def)
    then show ?thesis
      using True ld32_outside [OF assms(2,3) page_aligned_table _ PTX_bound] t [OF True] p [OF PDX_bound]
      by (simp add: pte_of_def)
  next
    case False
    then show ?thesis using p [OF PDX_bound] by (simp add: pte_of_def is_dir_def PDX_bound)
  qed
qed

lemma page_end: "page_aligned a \<Longrightarrow> KERNBASE \<le> a \<Longrightarrow> V2P a < PHYSTOP \<Longrightarrow> unat a + 4096 < 2 ^ 32"
  by (simp add: unat_V2P word_less_nat_alt word_le_nat_alt PHYSTOP_def KERNBASE_def)

lemma copy_page:
  assumes "unat x + 4096 < 2 ^ 32" "unat y + 4096 < 2 ^ 32"
  shows "same_outside x m (memmove m x y PGSIZE)" "bytes (memmove m x y PGSIZE) x 4096 = bytes m y 4096"
proof -
  have a: "memmove m x y PGSIZE b = (if in_range x 4096 b then m (y + (b - x)) else m b)" for b
    using memmove_apply [of y PGSIZE x m b] assms by (simp add: PGSIZE_def)
  then show "same_outside x m (memmove m x y PGSIZE)" by (simp add: same_outside_def)
  show "bytes (memmove m x y PGSIZE) x 4096 = bytes m y 4096"
    by (rule nth_equalityI) (auto simp: bytes_def a in_range_of_nat)
qed

lemma page_bytes_store:
  assumes "page_aligned x" "page_aligned t" "t \<noteq> x" "unat i < 1024"
  shows "bytes (st32 m (slot t i) v) x 4096 = bytes m x 4096"
proof -
  have *: "x + of_nat k \<noteq> slot t i + of_nat j" if "k < 4096" "j < 4" for k j
  proof
    assume "x + of_nat k = slot t i + of_nat j"
    then have "in_range x 4096 (slot t i + of_nat j)"
      using that in_range_of_nat [of k x 4096] by simp
    then show False using slot_in_range [OF assms(1,2,4) that(2)] assms(3) by simp
  qed
  have "st32 m (slot t i) v (x + of_nat k) = m (x + of_nat k)" if "k < 4096" for k
    using * [OF that, of 0] * [OF that, of 1] * [OF that, of 2] * [OF that, of 3]
    by (simp add: st32_def)
  then show ?thesis by (simp add: bytes_def)
qed

section \<open>User addresses\<close>

text \<open>The kernel address of a user address, and whether its page is present.\<close>

definition translate :: "memory \<Rightarrow> u32 \<Rightarrow> u32 \<Rightarrow> u32" where
  "translate m d va = P2V (PTE_ADDR (pte_of m d va)) + (va AND 0xFFF)"

definition present :: "memory \<Rightarrow> u32 \<Rightarrow> u32 \<Rightarrow> bool" where
  "present m d va = (pte_of m d va AND PTE_P \<noteq> 0)"

text \<open>The frame that a user page is mapped to, and a range of user addresses that can be written
  through the page table: present user pages in frames of their own, apart from the tables.\<close>

definition frame_of :: "memory \<Rightarrow> u32 \<Rightarrow> u32 \<Rightarrow> u32" where
  "frame_of m d va = P2V (PTE_ADDR (pte_of m d va))"

definition user_page :: "memory \<Rightarrow> u32 \<Rightarrow> u32 \<Rightarrow> bool" where
  "user_page m d a = (is_dir m d (PDX a) \<and> pte_of m d a AND PTE_P \<noteq> 0 \<and> pte_of m d a AND PTE_U \<noteq> 0 \<and>
     frame_of m d a \<noteq> 0 \<and> pt_ok [frame_of m d a] m d)"

definition user_range :: "memory \<Rightarrow> u32 \<Rightarrow> u32 \<Rightarrow> nat \<Rightarrow> bool" where
  "user_range m d va n = ((\<forall>i < n. user_page m d (va + of_nat i)) \<and>
     (\<forall>i < n. \<forall>j < n. frame_of m d (va + of_nat i) = frame_of m d (va + of_nat j) \<longrightarrow>
        vpage (va + of_nat i) = vpage (va + of_nat j)))"

lemma page_offset_sub: "va - PGROUNDDOWN va = va AND 0xFFF"
  by (simp add: PGROUNDDOWN_sub take_bit_eq_mask mask_eq_exp_minus_1)

lemma frame_of_vpage: "vpage a = vpage b \<Longrightarrow> frame_of m d a = frame_of m d b"
  by (simp add: frame_of_def pte_of_vpage [of a b])

lemma uva2ka_run:
  assumes "user_page (mem s) d a"
  shows "uva2ka d (PGROUNDDOWN a) s = Ok (frame_of (mem s) d a) s"
proof -
  have v: "vpage (PGROUNDDOWN a) = vpage a" by (rule vpage_PGROUNDDOWN)
  then have "PDX (PGROUNDDOWN a) = PDX a" by (simp add: vpage_eq_iff)
  then have dir: "is_dir (mem s) d (PDX (PGROUNDDOWN a))" using assms by (simp add: user_page_def)
  have ok: "pt_ok [frame_of (mem s) d a] (mem s) d" using assms by (simp add: user_page_def)
  show ?thesis
    using assms walk_present [OF ok dir] pte_of_vpage [OF v, of "mem s" d]
    by (simp add: uva2ka_def bnd_def user_page_def frame_of_def)
qed

lemma unat_add_of_nat: "unat (va :: u32) + n < 2 ^ 32 \<Longrightarrow> unat (va + of_nat n) = unat va + n"
  by (simp add: unat_plus_if' unat_of_nat)

text \<open>The bytes of one page: what a chunk of \<open>copyout\<close> writes.\<close>

lemma same_page_offset:
  assumes "unat va mod 4096 + i < 4096"
  shows "vpage (va + of_nat i) = vpage va" "(va + of_nat i) AND 0xFFF = (va AND 0xFFF) + of_nat i"
proof -
  have "unat va div 4096 < 1048576" using unat_u32_less [of va] by (simp add: less_mult_imp_div_less)
  moreover have "unat va = 4096 * (unat va div 4096) + unat va mod 4096" by simp
  ultimately have "unat va + i < 4096 * 1048576" using assms by linarith
  then have u: "unat (va + of_nat i) = unat va + i" by (intro unat_add_of_nat) simp
  have "unat va + i = (unat va mod 4096 + i) + 4096 * (unat va div 4096)" by simp
  then have "(unat va + i) div 4096 = unat va div 4096 + (unat va mod 4096 + i) div 4096"
    by (simp only: div_mult_self2)
  then have "(unat va + i) div 4096 = unat va div 4096" using assms by simp
  then show "vpage (va + of_nat i) = vpage va" using u by (simp add: vpage_def)
  have m: "(unat va + i) mod 4096 = unat va mod 4096 + i"
    using assms by (metis mod_add_left_eq mod_less)
  have "unat ((va AND 0xFFF) + of_nat i) = unat va mod 4096 + i"
    using assms page_offset_nat [of va] by (simp add: unat_plus_if' unat_of_nat)
  then show "(va + of_nat i) AND 0xFFF = (va AND 0xFFF) + of_nat i"
    by (simp add: word_unat_eq_iff page_offset_nat u m)
qed

lemma store_bytes_page:
  assumes "unat off + length bs \<le> 4096"
  shows "same_outside f m (store_bytes m (f + off) bs)"
    and "i < length bs \<Longrightarrow> store_bytes m (f + off) bs (f + off + of_nat i) = bs ! i"
proof -
  have "in_range f 4096 a" if "unat (a - (f + off)) < length bs" for a
  proof -
    have "a - f = off + (a - (f + off))" by simp
    moreover have "unat (off + (a - (f + off))) = unat off + unat (a - (f + off))"
      using that assms by (subst unat_plus_if') auto
    ultimately show ?thesis using that assms by (simp add: in_range_def)
  qed
  then show "same_outside f m (store_bytes m (f + off) bs)"
    by (auto simp: same_outside_def store_bytes_def)
  show "store_bytes m (f + off) bs (f + off + of_nat i) = bs ! i" if "i < length bs"
    using that assms by (simp add: store_bytes_def unat_of_nat)
qed

lemma user_page_outside:
  assumes "same_outside f m m'" "page_aligned f" "pt_ok [f] m d"
  shows "pte_of m' d b = pte_of m d b" "frame_of m' d b = frame_of m d b"
    "user_page m d a \<Longrightarrow> user_page m' d a"
proof -
  note o = pt_outside [OF assms(3,1,2)]
  show "pte_of m' d b = pte_of m d b" "frame_of m' d b = frame_of m d b" for b
    by (simp_all add: frame_of_def o)
  then show "user_page m' d a" if "user_page m d a"
  proof -
    have u: "is_dir m d (PDX a)" "frame_of m d a \<noteq> 0" "pt_ok [frame_of m d a] m d" using that by (auto simp: user_page_def)
    have "pt_ok [frame_of m d a] m' d"
      using u(3) o(3,4) unfolding pt_ok_def by metis
    then show ?thesis using that o by (simp add: user_page_def frame_of_def)
  qed
qed

lemma frame_in_range:
  assumes "page_aligned f" "page_aligned g" "in_range g 4096 (f + (a AND 0xFFF))"
  shows "f = g"
proof (rule page_of_offset [OF assms(2,1)])
  show "unat (a AND 0xFFF) < 4096" by (simp add: page_offset_nat)
  show "unat (f + of_nat (unat (a AND 0xFFF)) - g) < 4096" using assms(3) by (simp add: in_range_def)
qed

lemma page_aligned_frame: "page_aligned (frame_of m d a)"
  by (simp add: frame_of_def page_aligned_PTE_ADDR)

lemma next_page: "4096 * (a div 4096) + 4096 \<le> b \<Longrightarrow> a div 4096 < b div (4096 :: nat)"
proof -
  assume "4096 * (a div 4096) + 4096 \<le> b"
  then have "(4096 * Suc (a div 4096)) div 4096 \<le> b div 4096" by (intro div_le_mono) simp
  then show ?thesis by simp
qed

lemma user_range_inj:
  "user_range m d va n \<Longrightarrow> i < n \<Longrightarrow> j < n \<Longrightarrow> frame_of m d (va + of_nat i) = frame_of m d (va + of_nat j) \<Longrightarrow>
    vpage (va + of_nat i) = vpage (va + of_nat j)"
  unfolding user_range_def by blast

lemma user_range_later:
  assumes "user_range m d va n" "k + j \<le> n"
  shows "user_range m d (va + of_nat k) j"
proof -
  have e: "va + of_nat k + of_nat i = va + of_nat (k + i)" for i by (simp add: add.assoc)
  have b: "k + i < n" if "i < j" for i using assms(2) that by simp
  show ?thesis using assms(1) b unfolding user_range_def e by blast
qed

lemma user_range_outside:
  assumes "same_outside f m m'" "page_aligned f" "pt_ok [f] m d" "user_range m d va n"
  shows "user_range m' d va n"
  using assms(4) user_page_outside(3) [OF assms(1-3)] unfolding user_range_def user_page_outside(2) [OF assms(1-3)] by blast

lemma copyout_run:
  assumes "user_range (mem s) d va (length bs)" "unat va + length bs < 2 ^ 32"
  shows "\<exists>m'. copyout d va bs s = Ok 0 (s\<lparr>mem := m'\<rparr>) \<and> (\<forall>b. pte_of m' d b = pte_of (mem s) d b) \<and>
    (\<forall>i < length bs. m' (frame_of (mem s) d (va + of_nat i) + ((va + of_nat i) AND 0xFFF)) = bs ! i) \<and>
    (\<forall>a. (\<forall>i < length bs. \<not> in_range (frame_of (mem s) d (va + of_nat i)) 4096 a) \<longrightarrow> m' a = mem s a)"
  using assms
proof (induction "length bs" arbitrary: va bs s rule: less_induct)
  case less
  show ?case
  proof (cases "bs = []")
    case True
    then show ?thesis by (intro exI [of _ "mem s"]) (simp add: copyout.simps)
  next
    case False
    let ?o = "va AND 0xFFF" let ?k = "min (4096 - unat ?o) (length bs)"
    let ?f = "frame_of (mem s) d va" let ?va = "PGROUNDDOWN va + PGSIZE"
    let ?m = "store_bytes (mem s) (?f + ?o) (take ?k bs)" let ?s = "s\<lparr>mem := ?m\<rparr>"
    have o: "unat ?o = unat va mod 4096" "unat ?o < 4096" by (simp_all add: page_offset_nat)
    have up: "user_page (mem s) d (va + of_nat i)" if "i < length bs" for i
      using less.prems(1) that by (auto simp: user_range_def)
    have up0: "user_page (mem s) d va" using up [of 0] False by simp
    then have ok: "?f \<noteq> 0" "pt_ok [?f] (mem s) d" by (auto simp: user_page_def)
    have fa: "page_aligned ?f" by (simp add: frame_of_def page_aligned_PTE_ADDR)
    have tl: "unat ?o + length (take ?k bs) \<le> 4096" using o by simp
    note sb = store_bytes_page [OF tl, where f = ?f and m = "mem s"]
    note uo = user_page_outside [OF sb(1) fa ok(2)]
    have run: "copyout d va bs s = copyout d ?va (drop ?k bs) ?s"
      using False uva2ka_run [OF up0] ok(1)
      by (subst copyout.simps) (simp add: Let_def bnd_def page_offset_sub)
    have first: "?m (frame_of (mem s) d (va + of_nat i) + ((va + of_nat i) AND 0xFFF)) = bs ! i" if "i < ?k" for i
    proof -
      have "i < 4096 - unat ?o" using that by simp
      then have "unat va mod 4096 + i < 4096" using o by linarith
      note sp = same_page_offset [OF this]
      show ?thesis using sb(2) [of i] that frame_of_vpage [OF sp(1), of "mem s" d] sp(2)
        by (simp add: add.assoc)
    qed
    have outside: "?m a = mem s a" if h: "\<forall>i < length bs. \<not> in_range (frame_of (mem s) d (va + of_nat i)) 4096 a" for a
    proof -
      have "\<not> in_range ?f 4096 a" using h [rule_format, of 0] False by simp
      then show ?thesis using sb(1) by (simp add: same_outside_def)
    qed
    show ?thesis
    proof (cases "?k = length bs")
      case True
      then have "copyout d va bs s = Ok 0 ?s" using run by (simp add: copyout.simps)
      then show ?thesis using first True uo(1) outside by (intro exI [of _ ?m]) simp
    next
      case more: False
      then have k: "?k = 4096 - unat ?o" "?k < length bs" by simp_all
      have va: "?va = va + of_nat ?k"
      proof -
        have "of_nat ?k = PGSIZE - ?o" unfolding k(1) using o(2)
          by (simp add: PGSIZE_def of_nat_diff)
        moreover have "PGROUNDDOWN va = va - ?o" by (simp add: page_offset_sub [symmetric])
        ultimately show ?thesis by simp
      qed
      have va_i: "?va + of_nat i = va + of_nat (?k + i)" for i unfolding va by (simp add: add.assoc)
      have uva: "unat ?va = unat va + ?k"
        unfolding va by (rule unat_add_of_nat) (use less.prems(2) k(2) in linarith)
      have r: "user_range (mem ?s) d ?va (length (drop ?k bs))"
        using user_range_outside [OF sb(1) fa ok(2)] user_range_later [OF less.prems(1), of ?k] k(2)
        unfolding va by simp
      have l: "length (drop ?k bs) < length bs" using k o False by simp
      have u: "unat ?va + length (drop ?k bs) < 2 ^ 32" using less.prems(2) uva k(2) by simp
      have ms: "mem ?s = ?m" by simp
      from less.hyps [OF l r u] obtain m' where m'0: "copyout d ?va (drop ?k bs) ?s = Ok 0 (?s\<lparr>mem := m'\<rparr>)"
        "\<forall>b. pte_of m' d b = pte_of (mem ?s) d b"
        "\<forall>i < length (drop ?k bs). m' (frame_of (mem ?s) d (?va + of_nat i) + ((?va + of_nat i) AND 0xFFF)) = drop ?k bs ! i"
        "\<forall>a. (\<forall>i < length (drop ?k bs). \<not> in_range (frame_of (mem ?s) d (?va + of_nat i)) 4096 a) \<longrightarrow> m' a = mem ?s a"
        by blast
      note m' = m'0 [unfolded ms]
      have late: "m' (frame_of (mem s) d (va + of_nat i) + ((va + of_nat i) AND 0xFFF)) = bs ! i"
        if "?k \<le> i" "i < length bs" for i
      proof -
        define j where "j = i - ?k"
        then have j: "i = ?k + j" using le_add_diff_inverse [OF that(1)] by (simp only:)
        then have "j < length (drop ?k bs)" using that by simp
        then have "m' (frame_of ?m d (?va + of_nat j) + ((?va + of_nat j) AND 0xFFF)) = drop ?k bs ! j" using m'(3) by blast
        then show ?thesis unfolding va_i j uo(2) using that(2) j by simp
      qed
      have early: "m' (frame_of (mem s) d (va + of_nat i) + ((va + of_nat i) AND 0xFFF)) = bs ! i" if i: "i < ?k" for i
      proof -
        let ?a = "frame_of (mem s) d (va + of_nat i) + ((va + of_nat i) AND 0xFFF)"
        have "\<not> in_range (frame_of ?m d (?va + of_nat j)) 4096 ?a" if j: "j < length (drop ?k bs)" for j
        proof
          assume "in_range (frame_of ?m d (?va + of_nat j)) 4096 ?a"
          then have "frame_of (mem s) d (va + of_nat i) = frame_of (mem s) d (va + of_nat (?k + j))"
            unfolding uo(2) va_i by (rule frame_in_range [OF page_aligned_frame page_aligned_frame])
          then have "vpage (va + of_nat i) = vpage (va + of_nat (?k + j))"
            by (intro user_range_inj [OF less.prems(1)]) (use i j in \<open>simp_all\<close>)
          moreover have "vpage (va + of_nat i) = vpage va"
            using same_page_offset(1) [of va i] i o less_diff_conv [of i 4096 "unat ?o"] by simp
          moreover have "vpage va < vpage (va + of_nat (?k + j))"
          proof -
            have "unat (va + of_nat (?k + j)) = unat va + (?k + j)"
              by (rule unat_add_of_nat) (use less.prems(2) j in simp)
            moreover have "4096 * (unat va div 4096) + 4096 \<le> unat va + (?k + j)"
              using k(1) o mult_div_mod_eq [of 4096 "unat va"] by linarith
            ultimately show ?thesis unfolding vpage_def by (simp only: next_page)
          qed
          ultimately show False by simp
        qed
        then have "m' ?a = ?m ?a" using m'(4) by blast
        with first [OF i] show ?thesis by simp
      qed
      have "m' a = mem s a" if a: "\<forall>i < length bs. \<not> in_range (frame_of (mem s) d (va + of_nat i)) 4096 a" for a
      proof -
        have "\<not> in_range (frame_of ?m d (?va + of_nat j)) 4096 a" if "j < length (drop ?k bs)" for j
        proof -
          have "?k + j < length bs" using that by simp
          then show ?thesis using a unfolding va_i uo(2) by blast
        qed
        then have "m' a = ?m a" using m'(4) by blast
        also have "\<dots> = mem s a" by (rule outside [OF a])
        finally show ?thesis .
      qed
      moreover have "m' (frame_of (mem s) d (va + of_nat i) + ((va + of_nat i) AND 0xFFF)) = bs ! i" if "i < length bs" for i
        using early late that by (cases "i < ?k") auto
      ultimately show ?thesis using run m'(1,2) uo(1) by (intro exI [of _ m']) simp
    qed
  qed
qed

text \<open>\<open>copyout\<close> into a range of present user pages returns 0, changes no entry of the page table,
  and afterwards each byte of the range, read through the page table, is the byte that was
  copied; memory outside the frames of the range is unchanged.\<close>

theorem copyout_read_back:
  assumes "user_range (mem s) d va (length bs)" "unat va + length bs < 2 ^ 32"
  shows "\<exists>m'. copyout d va bs s = Ok 0 (s\<lparr>mem := m'\<rparr>) \<and> (\<forall>b. pte_of m' d b = pte_of (mem s) d b) \<and>
    (\<forall>i < length bs. m' (translate m' d (va + of_nat i)) = bs ! i) \<and>
    (\<forall>a. (\<forall>i < length bs. \<not> in_range (frame_of (mem s) d (va + of_nat i)) 4096 a) \<longrightarrow> m' a = mem s a)"
proof -
  obtain m' where m': "copyout d va bs s = Ok 0 (s\<lparr>mem := m'\<rparr>)" "\<forall>b. pte_of m' d b = pte_of (mem s) d b"
    "\<forall>i < length bs. m' (frame_of (mem s) d (va + of_nat i) + ((va + of_nat i) AND 0xFFF)) = bs ! i"
    "\<forall>a. (\<forall>i < length bs. \<not> in_range (frame_of (mem s) d (va + of_nat i)) 4096 a) \<longrightarrow> m' a = mem s a"
    using copyout_run [OF assms] by blast
  have "translate m' d a = frame_of (mem s) d a + (a AND 0xFFF)" for a
    using m'(2) by (simp add: translate_def frame_of_def)
  then show ?thesis using m' by (intro exI [of _ m']) simp
qed

text \<open>A page directory with one table and two pages, at user addresses 0 and 0x1000.\<close>

definition two_pages :: "u32 \<Rightarrow> u32 \<Rightarrow> memory" where
  "two_pages e0 e1 = st32 (st32 (st32 (\<lambda>_. 0) (slot 0x80001000 0) 0x2007) (slot 0x80002000 0) e0) (slot 0x80002000 1) e1"

lemma two_pages_entry:
  "ld32 (two_pages e0 e1) (slot 0x80002000 0) = e0" "ld32 (two_pages e0 e1) (slot 0x80002000 1) = e1"
  by (simp_all add: two_pages_def slot_def ld32_st32_other aligned4_def)

lemma two_pages_table:
  "table_of (two_pages e0 e1) 0x80001000 0 = 0x80002000"
  "is_dir (two_pages e0 e1) 0x80001000 i \<longleftrightarrow> i = 0"
proof -
  have p: "page_aligned 0x80001000" "page_aligned 0x80002000" by (simp_all add: page_aligned_def)
  have z: "ld32 (\<lambda>_. 0) a = 0" for a by (simp add: ld32_def un32_def)
  have d: "pde_of (two_pages e0 e1) 0x80001000 i = (if i = 0 then 0x2007 else 0)" if "unat i < 1024" for i
    using that ld32_st32_slot [OF p(1) _ p(1) that, where i = 0] ld32_st32_slot [OF p(2) _ p(1) that, where i = 0]
      ld32_st32_slot [OF p(2) _ p(1) that, where i = 1]
    by (simp add: pde_of_def two_pages_def z)
  then show "table_of (two_pages e0 e1) 0x80001000 0 = 0x80002000"
    by (simp add: table_of_def PTE_ADDR_def P2V_def KERNBASE_def)
  show "is_dir (two_pages e0 e1) 0x80001000 i \<longleftrightarrow> i = 0"
    using d [of i] by (auto simp: is_dir_def PTE_P_def split: if_splits)
qed

lemma two_pages_dir:
  "pt_ok [] (two_pages e0 e1) 0x80001000" "is_dir (two_pages e0 e1) 0x80001000 0"
  "pte_of (two_pages e0 e1) 0x80001000 0 = e0" "pte_of (two_pages e0 e1) 0x80001000 0x1000 = e1"
proof -
  let ?m = "two_pages e0 e1"
  show "is_dir ?m 0x80001000 0" by (simp add: two_pages_table)
  show "pt_ok [] ?m 0x80001000" by (simp add: pt_ok_def two_pages_table page_aligned_def)
  have x: "PDX 0 = 0" "PTX 0 = 0" "PDX 0x1000 = 0" "PTX 0x1000 = 1"
    by (simp_all add: PDX_def PTX_def PDXSHIFT_def PTXSHIFT_def)
  have "pde_of ?m 0x80001000 0 AND PTE_P \<noteq> 0"
    using two_pages_table(2) [of e0 e1 0] by (simp add: is_dir_def)
  then show "pte_of ?m 0x80001000 0 = e0" "pte_of ?m 0x80001000 0x1000 = e1"
    by (simp_all add: pte_of_def x two_pages_table two_pages_entry)
qed

theorem copyout_read_back_witness:
  "\<exists>(s :: kmem) m'. copyout 0x80001000 0xFFE [1, 2, 3, 4] s = Ok 0 (s\<lparr>mem := m'\<rparr>) \<and>
     m' (translate m' 0x80001000 0xFFF) = 2 \<and> m' (translate m' 0x80001000 0x1000) = 3"
proof -
  fix b :: kmem
  define s where "s = b\<lparr>mem := two_pages 0x3007 0x4007\<rparr>"
  have m: "mem s = two_pages 0x3007 0x4007" by (simp add: s_def)
  have v: "vpage 0xFFE = vpage 0" "vpage 0xFFF = vpage 0" "vpage 0x1000 = 1" "vpage 0x1001 = vpage 0x1000" "vpage 0 = 0"
    by (simp_all add: vpage_def)
  have p: "pte_of (mem s) 0x80001000 0xFFE = 0x3007" "pte_of (mem s) 0x80001000 0xFFF = 0x3007"
    "pte_of (mem s) 0x80001000 0x1000 = 0x4007" "pte_of (mem s) 0x80001000 0x1001 = 0x4007"
    using two_pages_dir [of "0x3007" "0x4007"] pte_of_vpage [OF v(1)] pte_of_vpage [OF v(2)] pte_of_vpage [OF v(4)]
    by (simp_all add: m)
  have x: "PDX 0xFFE = 0" "PDX 0xFFF = 0" "PDX 0x1000 = 0" "PDX 0x1001 = 0"
    by (simp_all add: PDX_def PDXSHIFT_def)
  have f: "P2V (PTE_ADDR 0x3007) = 0x80003000" "P2V (PTE_ADDR 0x4007) = 0x80004000"
    by (simp_all add: P2V_def PTE_ADDR_def KERNBASE_def)
  have ok: "pt_ok [y] (mem s) 0x80001000" if "y \<noteq> 0x80001000" "y \<noteq> 0x80002000" for y
    using that by (simp add: m pt_ok_def two_pages_table page_aligned_def)
  have up: "user_page (mem s) 0x80001000 a" if "a \<in> {0xFFE, 0xFFF, 0x1000, 0x1001}" for a
    using that p x f ok by (auto simp: user_page_def frame_of_def m two_pages_table PTE_P_def PTE_U_def)
  have four: "i < 4 \<longleftrightarrow> i = 0 \<or> i = 1 \<or> i = 2 \<or> i = 3" for i :: nat by auto
  have r: "user_range (mem s) 0x80001000 0xFFE (length [1, 2, 3, 4 :: byte])"
  proof -
    have e: "0xFFE + of_nat 0 = (0xFFE :: u32)" "0xFFE + of_nat 1 = (0xFFF :: u32)" "0xFFE + of_nat 2 = (0x1000 :: u32)"
      "0xFFE + of_nat 3 = (0x1001 :: u32)" by simp_all
    have fr: "frame_of (mem s) 0x80001000 0xFFE = 0x80003000" "frame_of (mem s) 0x80001000 0xFFF = 0x80003000"
      "frame_of (mem s) 0x80001000 0x1000 = 0x80004000" "frame_of (mem s) 0x80001000 0x1001 = 0x80004000"
      by (simp_all add: frame_of_def p f)
    have ul: "user_page (mem s) 0x80001000 (0xFFE + of_nat i)" if "i < 4" for i
      using that up unfolding four by (elim disjE) (simp_all only: e insert_iff simp_thms)
    have "vpage (0xFFE + of_nat i) = vpage (0xFFE + of_nat j)"
      if "i < 4" "j < 4" "frame_of (mem s) 0x80001000 (0xFFE + of_nat i) = frame_of (mem s) 0x80001000 (0xFFE + of_nat j)" for i j
      using that unfolding four by (elim disjE) (simp_all only: e fr v, simp_all)
    then show ?thesis using ul by (simp add: user_range_def)
  qed
  have l: "unat (0xFFE :: u32) + length [1, 2, 3, 4 :: byte] < 2 ^ 32" by simp
  from copyout_read_back [OF r l] obtain m' where m': "copyout 0x80001000 0xFFE [1, 2, 3, 4] s = Ok 0 (s\<lparr>mem := m'\<rparr>)"
    "\<forall>i < length [1, 2, 3, 4 :: byte]. m' (translate m' 0x80001000 (0xFFE + of_nat i)) = [1, 2, 3, 4] ! i" by blast
  show ?thesis using m'(1) m'(2) [rule_format, of 1] m'(2) [rule_format, of 2]
    by (intro exI [of _ s] exI [of _ m']) simp
qed

end
