(* ===== verification/Proc.thy ===== *)
theory Proc
  imports Kalloc Cstring
begin

text \<open>
  The process table of \<open>proc.c\<close>: slots, states and wait channels, with the operations that only
  need the table and the page allocator. \<open>fork\<close>, \<open>exit\<close> and \<open>wait\<close>, which also need address spaces
  and files, build on this theory.
\<close>

section \<open>State\<close>

definition NPROC :: nat where "NPROC = 64"
definition KSTACKSIZE :: u32 where "KSTACKSIZE = 4096"
definition NOFILE :: nat where "NOFILE = 16"
definition MAX_PSYC_PAGES :: nat where "MAX_PSYC_PAGES = 16"
definition MAX_TOTAL_PAGES :: nat where "MAX_TOTAL_PAGES = 32"
definition DEF_PROCS :: int where "DEF_PROCS = 2"

lemmas proc_consts = NPROC_def KSTACKSIZE_def NOFILE_def MAX_PSYC_PAGES_def MAX_TOTAL_PAGES_def DEF_PROCS_def

datatype procstate = UNUSED | EMBRYO | SLEEPING | RUNNABLE | RUNNING | ZOMBIE

record page =
  v_address :: u32
  file_offset :: int
  is_in_RAM :: u32
  isAllocated :: int
  age :: u32

text \<open>
  Pointers to other processes, open files and inodes are indices into the process table, the
  file table and the inode cache. \<open>tf\<close> and \<open>pcontext\<close> are addresses in the kernel stack.
\<close>

record proc =
  sz :: u32
  pgdir :: u32
  kstack :: u32
  state :: procstate
  pid :: int
  parent :: "nat option"
  tf :: u32
  pcontext :: u32
  pchan :: "chan option"
  killed :: int
  ofile :: "nat option list"
  cwd :: "nat option"
  pname :: "byte list"
  swapFile :: "nat option"
  ppages :: "page list"
  fileOffset :: u32
  numberOfAllocatedPages :: int
  numberOfPagedOut :: u32
  numberOfPageFaults :: int
  totalNumberOfPagedOut :: int
  RAMQueue :: "int list"
  offsetQueue :: "int list"

text \<open>
  \<open>curproc\<close> is \<open>mycpu()->proc\<close> of the CPU that runs the code; \<open>trapret\<close> and \<open>forkret_addr\<close> are the
  addresses of the code a new process starts in.
\<close>

record kproc = kmem +
  ptable :: "proc list"
  nextpid :: int
  initproc :: "nat option"
  curproc :: "nat option"
  initial_size :: int
  trapret :: u32
  forkret_addr :: u32

definition set_proc :: "nat \<Rightarrow> (proc \<Rightarrow> proc) \<Rightarrow> ('z kproc_scheme, unit) kern" where
  "set_proc i f = modify (\<lambda>s. s\<lparr>ptable := (ptable s)[i := f (ptable s ! i)]\<rparr>)"

text \<open>Code that dereferences \<open>myproc()\<close>; with no current process that is a null dereference.\<close>

definition with_proc :: "(nat \<Rightarrow> ('z kproc_scheme, 'a) kern) \<Rightarrow> ('z kproc_scheme, 'a) kern" where
  "with_proc f = bnd (gets curproc) (\<lambda>c. case c of None \<Rightarrow> panic ''null myproc'' | Some i \<Rightarrow> f i)"

section \<open>Process creation\<close>

definition empty_page :: page where
  "empty_page = \<lparr>v_address = 0, file_offset = -1, is_in_RAM = 0, isAllocated = 0, age = 0\<rparr>"

definition allocproc :: "('z kproc_scheme, nat option) kern" where
  "allocproc =
     thn (acquire LPtable) (
     bnd (gets (\<lambda>s. find_index (\<lambda>p. state p = UNUSED) (ptable s))) (\<lambda>r.
     case r of
       None \<Rightarrow> thn (release LPtable) (ret None)
     | Some i \<Rightarrow>
         thn (bnd (gets nextpid) (\<lambda>n. set_proc i (\<lambda>p. p\<lparr>state := EMBRYO, pid := n\<rparr>))) (
         thn (modify (\<lambda>s. s\<lparr>nextpid := nextpid s + 1\<rparr>)) (
         thn (release LPtable) (
         bnd kalloc (\<lambda>ks.
         thn (set_proc i (\<lambda>p. p\<lparr>kstack := ks\<rparr>)) (
         if ks = 0 then thn (set_proc i (\<lambda>p. p\<lparr>state := UNUSED\<rparr>)) (ret None)
         else
           let sp = ks + KSTACKSIZE; tfp = sp - 76; rp = tfp - 4; cp = rp - 20 in
           thn (set_proc i (\<lambda>p. p\<lparr>tf := tfp\<rparr>)) (
           thn (modify (\<lambda>s. s\<lparr>mem := st32 (mem s) rp (trapret s)\<rparr>)) (
           thn (set_proc i (\<lambda>p. p\<lparr>pcontext := cp\<rparr>)) (
           thn (modify (\<lambda>s. s\<lparr>mem := st32 (memset (mem s) cp 0 20) (cp + 16) (forkret_addr s)\<rparr>)) (
           thn (set_proc i (\<lambda>p. p\<lparr>fileOffset := 0, numberOfPagedOut := 0, numberOfPageFaults := 0,
             totalNumberOfPagedOut := 0, numberOfAllocatedPages := 0,
             ppages := replicate MAX_TOTAL_PAGES empty_page,
             RAMQueue := replicate MAX_PSYC_PAGES (-1),
             offsetQueue := replicate MAX_PSYC_PAGES (-1)\<rparr>))
           (ret (Some i)))))))))))))"

section \<open>Scheduling, sleeping and waking up\<close>

text \<open>
  \<open>sched\<close> gives the CPU to the scheduler: the outcome is \<open>Block\<close>, with the state in which the
  scheduler runs on. \<open>mycpu()->ncli\<close> is the number of spinlocks the CPU holds, so it is 1 when only
  \<open>ptable.lock\<close> is held, and interrupts are then off.
\<close>

definition sched :: "('z kproc_scheme, unit) kern" where
  "sched = with_proc (\<lambda>i.
     bnd (gets held) (\<lambda>h.
     if LPtable \<notin> h then panic ''sched ptable.lock''
     else if card h \<noteq> 1 then panic ''sched locks''
     else bnd (gets (\<lambda>s. ptable s ! i)) (\<lambda>p.
       if state p = RUNNING then panic ''sched running''
       else blocks (pchan p))))"

definition yield_enter :: "('z kproc_scheme, unit) kern" where
  "yield_enter = thn (acquire LPtable) (with_proc (\<lambda>i. set_proc i (\<lambda>p. p\<lparr>state := RUNNABLE\<rparr>)))"

definition yield :: "('z kproc_scheme, unit) kern" where
  "yield = thn yield_enter (thn sched (release LPtable))"

definition sleep_enter :: "chan \<Rightarrow> lockid option \<Rightarrow> ('z kproc_scheme, unit) kern" where
  "sleep_enter ch lk = bnd (gets curproc) (\<lambda>c. case c of
       None \<Rightarrow> panic ''sleep''
     | Some i \<Rightarrow> (case lk of
         None \<Rightarrow> panic ''sleep without lk''
       | Some l \<Rightarrow>
           thn (whenk (l \<noteq> LPtable) (thn (acquire LPtable) (release l)))
           (set_proc i (\<lambda>p. p\<lparr>pchan := Some ch, state := SLEEPING\<rparr>))))"

definition sleep_resume :: "lockid option \<Rightarrow> ('z kproc_scheme, unit) kern" where
  "sleep_resume lk = with_proc (\<lambda>i.
     thn (set_proc i (\<lambda>p. p\<lparr>pchan := None\<rparr>))
     (case lk of None \<Rightarrow> ret () | Some l \<Rightarrow>
        whenk (l \<noteq> LPtable) (thn (release LPtable) (acquire l))))"

definition sleep :: "chan \<Rightarrow> lockid option \<Rightarrow> ('z kproc_scheme, unit) kern" where
  "sleep ch lk = thn (sleep_enter ch lk) (thn sched (sleep_resume lk))"

definition woken :: "chan option \<Rightarrow> proc \<Rightarrow> proc" where
  "woken ch p = (if state p = SLEEPING \<and> pchan p = ch then p\<lparr>state := RUNNABLE\<rparr> else p)"

definition wakeup1 :: "chan option \<Rightarrow> ('z kproc_scheme, unit) kern" where
  "wakeup1 ch = modify (\<lambda>s. s\<lparr>ptable := map (woken ch) (ptable s)\<rparr>)"

definition wakeup :: "chan option \<Rightarrow> ('z kproc_scheme, unit) kern" where
  "wakeup ch = thn (acquire LPtable) (thn (wakeup1 ch) (release LPtable))"

definition kill :: "int \<Rightarrow> ('z kproc_scheme, int) kern" where
  "kill n =
     thn (acquire LPtable) (
     bnd (gets (\<lambda>s. find_index (\<lambda>p. pid p = n) (ptable s))) (\<lambda>r.
     case r of
       Some i \<Rightarrow>
         thn (set_proc i (\<lambda>p. p\<lparr>killed := 1\<rparr>)) (
         thn (set_proc i (\<lambda>p. if state p = SLEEPING then p\<lparr>state := RUNNABLE\<rparr> else p)) (
         thn (release LPtable) (ret 0)))
     | None \<Rightarrow> thn (release LPtable) (ret (-1))))"

text \<open>
  One turn of the scheduler's inner loop on slot \<open>i\<close>, up to the context switch and after it. The
  paging policy of the build, second-chance FIFO, does nothing here.
\<close>

definition switchuvm :: "nat \<Rightarrow> ('z kproc_scheme, unit) kern" where
  "switchuvm i = bnd (gets (\<lambda>s. ptable s ! i)) (\<lambda>p.
     if kstack p = 0 then panic ''switchuvm: no kstack''
     else if pgdir p = 0 then panic ''switchuvm: no pgdir''
     else ret ())"

definition scheduler_pick :: "nat \<Rightarrow> ('z kproc_scheme, bool) kern" where
  "scheduler_pick i = bnd (gets (\<lambda>s. state (ptable s ! i))) (\<lambda>st.
     if st \<noteq> RUNNABLE then ret False
     else thn (modify (\<lambda>s. s\<lparr>curproc := Some i\<rparr>)) (
          thn (switchuvm i) (
          thn (set_proc i (\<lambda>p. p\<lparr>state := RUNNING\<rparr>)) (ret True))))"

definition scheduler_return :: "('z kproc_scheme, unit) kern" where
  "scheduler_return = modify (\<lambda>s. s\<lparr>curproc := None\<rparr>)"

text \<open>
  The parts of \<open>fork\<close>, \<open>exit\<close> and \<open>wait\<close> that change the table under \<open>ptable.lock\<close>: making a new
  process runnable, turning the current process into a zombie after handing its children to
  \<open>init\<close>, and freeing the slot of a zombie.
\<close>

definition publish :: "nat \<Rightarrow> ('z kproc_scheme, unit) kern" where
  "publish i = thn (acquire LPtable) (
     thn (set_proc i (\<lambda>p. p\<lparr>state := RUNNABLE\<rparr>)) (release LPtable))"

definition reparent :: "nat \<Rightarrow> nat \<Rightarrow> ('z kproc_scheme, unit) kern" where
  "reparent i k = bnd (gets (\<lambda>s. (ptable s ! k, initproc s))) (\<lambda>(p, ip).
     whenk (parent p = Some i) (
       thn (set_proc k (\<lambda>p. p\<lparr>parent := ip\<rparr>))
       (whenk (state p = ZOMBIE) (wakeup1 (map_option ProcChan ip)))))"

definition exit_zombie :: "nat \<Rightarrow> ('z kproc_scheme, unit) kern" where
  "exit_zombie i =
     thn (acquire LPtable) (
     thn (bnd (gets (\<lambda>s. parent (ptable s ! i))) (\<lambda>pp. wakeup1 (map_option ProcChan pp))) (
     thn (foreach [0..<NPROC] (reparent i))
     (set_proc i (\<lambda>p. p\<lparr>state := ZOMBIE\<rparr>))))"

definition clear_slot :: "proc \<Rightarrow> proc" where
  "clear_slot p = p\<lparr>pid := 0, parent := None, pname := (pname p)[0 := 0], killed := 0, state := UNUSED\<rparr>"

section \<open>Behaviour of the table operations\<close>

lemma popped_kproc [simp]:
  "ptable (popped x s) = ptable s" "nextpid (popped x s) = nextpid s" "held (popped x s) = held s"
  "initproc (popped x s) = initproc s" "curproc (popped x s) = curproc s"
  "kproc.more (popped x s) = kproc.more s" "trapret (popped x s) = trapret s" "forkret_addr (popped x s) = forkret_addr s"
  by (simp_all add: popped_def set_refs_def)

lemma set_proc_run [simp]:
  "set_proc i f s = Ok () (s\<lparr>ptable := (ptable s)[i := f (ptable s ! i)]\<rparr>)"
  by (simp add: set_proc_def)

lemma wakeup_run:
  "LPtable \<notin> held s \<Longrightarrow> wakeup ch s = Ok () (s\<lparr>ptable := map (woken ch) (ptable s)\<rparr>)"
  by (simp add: wakeup_def kdefs wakeup1_def held_restore)

lemma kill_run:
  assumes "LPtable \<notin> held s"
  shows "kill n s = (case find_index (\<lambda>p. pid p = n) (ptable s) of
      None \<Rightarrow> Ok (-1) s
    | Some i \<Rightarrow> Ok 0 (s\<lparr>ptable := (ptable s)[i := (ptable s ! i)
        \<lparr>killed := 1, state := (if state (ptable s ! i) = SLEEPING then RUNNABLE else state (ptable s ! i))\<rparr>]\<rparr>))"
proof (cases "find_index (\<lambda>p. pid p = n) (ptable s)")
  case None
  with assms show ?thesis by (simp add: kill_def kdefs held_restore)
next
  case (Some i)
  then have "i < length (ptable s)" by (simp add: find_index_Some)
  with Some assms show ?thesis by (simp add: kill_def kdefs held_restore)
qed

definition fresh_slot :: "int \<Rightarrow> u32 \<Rightarrow> proc \<Rightarrow> proc" where
  "fresh_slot n ks p = p\<lparr>state := EMBRYO, pid := n, kstack := ks, tf := 4020 + ks, pcontext := 3996 + ks,
     fileOffset := 0, numberOfPagedOut := 0, numberOfPageFaults := 0,
     totalNumberOfPagedOut := 0, numberOfAllocatedPages := 0,
     ppages := replicate MAX_TOTAL_PAGES empty_page,
     RAMQueue := replicate MAX_PSYC_PAGES (-1), offsetQueue := replicate MAX_PSYC_PAGES (-1)\<rparr>"

lemma allocproc_full:
  "LPtable \<notin> held s \<Longrightarrow> find_index (\<lambda>p. state p = UNUSED) (ptable s) = None \<Longrightarrow> allocproc s = Ok None s"
  by (simp add: allocproc_def kdefs held_restore)

lemma allocproc_slot:
  assumes "LPtable \<notin> held s" "kmem_ready s" "find_index (\<lambda>p. state p = UNUSED) (ptable s) = Some i"
  shows "\<exists>t. allocproc s = Ok (if freelist s = 0 then None else Some i) t \<and> nextpid t = nextpid s + 1 \<and>
    held t = held s \<and> curproc t = curproc s \<and> initproc t = initproc s \<and> kproc.more t = kproc.more s \<and>
    ptable t = (ptable s)[i := (if freelist s = 0 then (ptable s ! i)\<lparr>pid := nextpid s, kstack := 0, state := UNUSED\<rparr>
      else fresh_slot (nextpid s) (freelist s) (ptable s ! i))]"
proof -
  have i: "i < length (ptable s)" using assms(3) by (simp add: find_index_Some)
  let ?s = "s\<lparr>ptable := (ptable s)[i := (ptable s ! i)\<lparr>state := EMBRYO, pid := nextpid s\<rparr>],
    nextpid := nextpid s + 1\<rparr>"
  have "kalloc ?s = Ok (freelist s) (if freelist s = 0 then ?s else popped (freelist s) ?s)"
    using assms(2) kalloc_run [of ?s] by (simp add: kmem_ready_def)
  then show ?thesis
    using assms i
    by (auto simp: allocproc_def kdefs held_restore Let_def fresh_slot_def KSTACKSIZE_def)
qed

section \<open>Processes as a state machine\<close>

text \<open>
  Several CPUs work on one table. \<open>runs\<close> is the process each CPU runs, \<open>cpus[c].proc\<close>. A step is
  one critical section of \<open>ptable.lock\<close>, run by a CPU that holds no other lock than the one it hands
  to \<open>sleep\<close>.
\<close>

record psys = kproc +
  runs :: "nat \<Rightarrow> nat option"

definition on_cpu :: "nat \<Rightarrow> lockid set \<Rightarrow> psys \<Rightarrow> psys" where
  "on_cpu c H s = s\<lparr>curproc := runs s c, held := H\<rparr>"

definition switch_to :: "nat \<Rightarrow> nat option \<Rightarrow> psys \<Rightarrow> psys" where
  "switch_to c r s = s\<lparr>runs := (runs s)(c := r)\<rparr>"

inductive proc_step :: "psys \<Rightarrow> psys \<Rightarrow> bool" where
  pick: "runs s c = None \<Longrightarrow> i < NPROC \<Longrightarrow> scheduler_pick i (on_cpu c {LPtable} s) = Ok True t \<Longrightarrow>
    proc_step s (switch_to c (Some i) t)"
| yield: "runs s c = Some i \<Longrightarrow> yield_enter (on_cpu c {} s) = Ok () t \<Longrightarrow>
    proc_step s (switch_to c None t)"
| sleep: "runs s c = Some i \<Longrightarrow> sleep_enter ch lk (on_cpu c (set_option lk) s) = Ok () t \<Longrightarrow>
    proc_step s (switch_to c None t)"
| resume: "runs s c = Some i \<Longrightarrow> sleep_resume lk (on_cpu c {LPtable} s) = Ok () t \<Longrightarrow> proc_step s t"
| wakeup: "wakeup ch (on_cpu c {} s) = Ok () t \<Longrightarrow> proc_step s t"
| kill: "runs s c = Some i \<Longrightarrow> kill n (on_cpu c {} s) = Ok r t \<Longrightarrow> proc_step s t"
| alloc: "kmem_ready s \<Longrightarrow> allocproc (on_cpu c {} s) = Ok r t \<Longrightarrow> proc_step s t"
| publish: "j < NPROC \<Longrightarrow> state (ptable s ! j) = EMBRYO \<Longrightarrow> publish j (on_cpu c {} s) = Ok () t \<Longrightarrow>
    proc_step s t"
| exit: "runs s c = Some i \<Longrightarrow> exit_zombie i (on_cpu c {} s) = Ok () t \<Longrightarrow>
    proc_step s (switch_to c None t)"
| reap: "j < NPROC \<Longrightarrow> state (ptable s ! j) = ZOMBIE \<Longrightarrow>
    set_proc j clear_slot (on_cpu c {LPtable} s) = Ok () t \<Longrightarrow> proc_step s t"

definition proc_init :: "psys \<Rightarrow> bool" where
  "proc_init s = (length (ptable s) = NPROC \<and> (\<forall>i < NPROC. state (ptable s ! i) = UNUSED) \<and>
     (\<forall>c. runs s c = None) \<and> nextpid s = 1)"

definition used :: "psys \<Rightarrow> nat \<Rightarrow> bool" where
  "used s i = (i < NPROC \<and> state (ptable s ! i) \<noteq> UNUSED)"

text \<open>
  The invariant: a slot is \<open>RUNNING\<close> exactly when one CPU runs it, and then exactly one does; the
  pids of used slots are positive, below \<open>nextpid\<close> and pairwise different; a sleeping process has
  a channel.
\<close>

definition runners :: "psys \<Rightarrow> nat \<Rightarrow> nat set" where
  "runners s i = {c. runs s c = Some i}"

definition slot_ok :: "psys \<Rightarrow> nat \<Rightarrow> bool" where
  "slot_ok s i = (let p = ptable s ! i in
     (if state p = RUNNING then \<exists>c. runners s i = {c} else runners s i = {}) \<and>
     (state p \<noteq> UNUSED \<longrightarrow> 0 < pid p \<and> pid p < nextpid s) \<and>
     (state p = SLEEPING \<longrightarrow> pchan p \<noteq> None))"

definition pids_distinct :: "psys \<Rightarrow> bool" where
  "pids_distinct s = inj_on (\<lambda>i. pid (ptable s ! i)) {i. used s i}"

definition proc_inv :: "psys \<Rightarrow> bool" where
  "proc_inv s = (length (ptable s) = NPROC \<and> 0 < nextpid s \<and> (\<forall>c i. runs s c = Some i \<longrightarrow> i < NPROC) \<and>
     (\<forall>i < NPROC. slot_ok s i) \<and> pids_distinct s)"

lemma on_cpu_simps [simp]:
  "ptable (on_cpu c H s) = ptable s" "runs (on_cpu c H s) = runs s" "nextpid (on_cpu c H s) = nextpid s"
  "curproc (on_cpu c H s) = runs s c" "held (on_cpu c H s) = H" "initproc (on_cpu c H s) = initproc s"
  "kmem_ready (on_cpu c {} s)" "freelist (on_cpu c H s) = freelist s"
  by (simp_all add: on_cpu_def kmem_ready_def)

lemma switch_to_simps [simp]:
  "ptable (switch_to c r s) = ptable s" "nextpid (switch_to c r s) = nextpid s"
  "runs (switch_to c r s) = (runs s)(c := r)"
  by (simp_all add: switch_to_def)

lemma running_slot:
  assumes "proc_inv s" "runs s c = Some i"
  shows "i < NPROC" "state (ptable s ! i) = RUNNING" "runners s i = {c}" "i < length (ptable s)" "used s i"
proof -
  show i: "i < NPROC" "i < length (ptable s)" using assms by (auto simp: proc_inv_def)
  then have "slot_ok s i" "c \<in> runners s i" using assms by (auto simp: proc_inv_def runners_def)
  then show "state (ptable s ! i) = RUNNING" "runners s i = {c}"
    by (auto simp: slot_ok_def Let_def split: if_splits)
  then show "used s i" using i by (simp add: used_def)
qed

text \<open>A step that changes one slot has to be checked at that slot only.\<close>

lemma proc_inv_slot:
  assumes "proc_inv s" "length (ptable t) = NPROC" "nextpid s \<le> nextpid t"
    and other: "\<And>k. k < NPROC \<Longrightarrow> k \<noteq> i \<Longrightarrow> ptable t ! k = ptable s ! k \<and> runners t k = runners s k"
    and "\<And>c k. runs t c = Some k \<Longrightarrow> k < NPROC"
    and slot: "slot_ok t i"
    and fresh: "used t i \<Longrightarrow> used s i \<and> pid (ptable t ! i) = pid (ptable s ! i) \<or> nextpid s \<le> pid (ptable t ! i)"
  shows "proc_inv t"
proof -
  have ok: "slot_ok t k" if "k < NPROC" for k
  proof (cases "k = i")
    case False
    then show ?thesis using that assms(1,3) other [of k] by (fastforce simp: proc_inv_def slot_ok_def Let_def)
  qed (simp add: slot)
  have u: "used s k \<and> pid (ptable t ! k) = pid (ptable s ! k) \<and> pid (ptable s ! k) < nextpid s"
    if "used t k" "k \<noteq> i" for k
    using that other [of k] assms(1) by (auto simp: used_def proc_inv_def slot_ok_def Let_def)
  have lt: "pid (ptable s ! k) < nextpid s" if "used s k" for k
    using that assms(1) by (auto simp: used_def proc_inv_def slot_ok_def Let_def)
  have inj: "pid (ptable s ! j) = pid (ptable s ! k) \<Longrightarrow> used s j \<Longrightarrow> used s k \<Longrightarrow> j = k" for j k
    using assms(1) by (auto simp: proc_inv_def pids_distinct_def inj_on_def)
  have "pids_distinct t"
    unfolding pids_distinct_def
  proof (rule inj_onI, simp)
    fix j k
    assume jk: "used t j" "used t k" "pid (ptable t ! j) = pid (ptable t ! k)"
    show "j = k"
      by (cases "j = i"; cases "k = i") (use jk u [of j] u [of k] fresh inj [of j k] lt in auto)
  qed
  then show ?thesis
    using assms(1,2,3,5) ok by (simp add: proc_inv_def)
qed

text \<open>Waking a slot up or changing its parent.\<close>

definition benign :: "proc \<Rightarrow> proc \<Rightarrow> bool" where
  "benign p q = ((state q = state p \<or> state p = SLEEPING \<and> state q = RUNNABLE) \<and> pid q = pid p \<and> pchan q = pchan p)"

lemma benign_refl [simp]: "benign p p"
  by (simp add: benign_def)

lemma benign_trans: "benign p q \<Longrightarrow> benign q r \<Longrightarrow> benign p r"
  by (auto simp: benign_def)

lemma benign_woken [simp]: "benign p (woken ch p)"
  by (simp add: benign_def woken_def)

lemma benign_inv:
  assumes "proc_inv s" "length (ptable t) = NPROC" "runs t = runs s" "nextpid t = nextpid s"
    and "\<And>k. k < NPROC \<Longrightarrow> benign (ptable s ! k) (ptable t ! k)"
  shows "proc_inv t"
proof -
  have u: "used t k \<longleftrightarrow> used s k" for k
    using assms(5) [of k] by (auto simp: used_def benign_def)
  have "runners t = runners s" using assms(3) by (auto simp: runners_def)
  then have "slot_ok t k" if "k < NPROC" for k
    using assms(1,4) assms(5) [OF that] that by (fastforce simp: proc_inv_def slot_ok_def benign_def Let_def)
  moreover have "pids_distinct t"
    using assms(1) assms(5) u by (auto simp: proc_inv_def pids_distinct_def inj_on_def benign_def used_def)
  ultimately show ?thesis using assms by (simp add: proc_inv_def)
qed

definition tab_benign :: "psys \<Rightarrow> psys \<Rightarrow> bool" where
  "tab_benign s t = (length (ptable t) = length (ptable s) \<and> runs t = runs s \<and> nextpid t = nextpid s \<and>
     (\<forall>k < length (ptable s). benign (ptable s ! k) (ptable t ! k)))"

lemma keeps_wakeup1 [keeps_intro]: "keeps (tab_benign s) (wakeup1 ch)"
  unfolding wakeup1_def
  by (rule keeps_modify) (auto simp: tab_benign_def intro: benign_trans [OF _ benign_woken])

lemma benign_update:
  "(\<And>p. benign p (f p)) \<Longrightarrow> j < length xs \<Longrightarrow> benign (xs ! j) (xs[k := f (xs ! k)] ! j)"
  by (cases "k < length xs") (auto simp: nth_list_update list_update_beyond)

lemma keeps_set_parent: "keeps (tab_benign s) (set_proc k (\<lambda>p. p\<lparr>parent := ip\<rparr>))"
  unfolding set_proc_def
  by (rule keeps_modify)
    (auto simp: tab_benign_def intro!: benign_trans [OF _ benign_update] simp: benign_def [of p "p\<lparr>parent := _\<rparr>" for p])

lemma keeps_reparent [keeps_intro]: "keeps (tab_benign s) (reparent i k)"
  unfolding reparent_def by (intro keeps_intro keeps_set_parent)

lemma exit_zombie_run:
  assumes "exit_zombie i s = Ok () t" "i < length (ptable s)"
  shows "\<exists>u. tab_benign s u \<and> t = u\<lparr>ptable := (ptable u)[i := (ptable u ! i)\<lparr>state := ZOMBIE\<rparr>]\<rparr>"
proof -
  let ?m = "thn (bnd (gets (\<lambda>s. parent (ptable s ! i))) (\<lambda>pp. wakeup1 (map_option ProcChan pp)))
    (foreach [0..<NPROC] (reparent i))"
  let ?s = "s\<lparr>held := insert LPtable (held s)\<rparr>"
  have "LPtable \<notin> held s" using assms(1) by (auto simp: exit_zombie_def thn_eq_Ok acquire_def)
  then obtain u where u: "?m ?s = Ok () u" "t = u\<lparr>ptable := (ptable u)[i := (ptable u ! i)\<lparr>state := ZOMBIE\<rparr>]\<rparr>"
    using assms(1) by (auto simp: exit_zombie_def thn_eq_Ok)
  have "keeps (tab_benign s) ?m" by (intro keeps_intro)
  moreover have "tab_benign s ?s" by (simp add: tab_benign_def)
  ultimately have "tab_benign s u" using u(1) by (rule keepsD)
  with u(2) show ?thesis by blast
qed

section \<open>Every step keeps the invariant\<close>

lemma inv_pick:
  assumes "proc_inv s" "runs s c = None" "i < NPROC" "scheduler_pick i (on_cpu c {LPtable} s) = Ok True t"
  shows "proc_inv (switch_to c (Some i) t)"
proof (rule proc_inv_slot [OF assms(1), where i = i])
  have t: "state (ptable s ! i) = RUNNABLE"
    "t = (on_cpu c {LPtable} s)\<lparr>curproc := Some i, ptable := (ptable s)[i := (ptable s ! i)\<lparr>state := RUNNING\<rparr>]\<rparr>"
    using assms(4) by (auto simp: scheduler_pick_def switchuvm_def kdefs split: if_splits)
  have l: "length (ptable s) = NPROC" using assms(1) by (simp add: proc_inv_def)
  have none: "runners s i = {}" using assms(1,3) t(1) by (auto simp: proc_inv_def slot_ok_def Let_def)
  show "slot_ok (switch_to c (Some i) t) i"
    using assms none t l by (auto simp: proc_inv_def slot_ok_def Let_def runners_def)
  show "length (ptable (switch_to c (Some i) t)) = NPROC" "nextpid s \<le> nextpid (switch_to c (Some i) t)"
    using t l by simp_all
  show "\<And>k. k < NPROC \<Longrightarrow> k \<noteq> i \<Longrightarrow> ptable (switch_to c (Some i) t) ! k = ptable s ! k \<and>
      runners (switch_to c (Some i) t) k = runners s k"
    using t assms(2) by (auto simp: runners_def split: if_splits)
  show "\<And>d k. runs (switch_to c (Some i) t) d = Some k \<Longrightarrow> k < NPROC"
    using t assms(1,3) by (auto simp: proc_inv_def split: if_splits)
  show "used (switch_to c (Some i) t) i \<Longrightarrow> used s i \<and> pid (ptable (switch_to c (Some i) t) ! i) = pid (ptable s ! i) \<or>
      nextpid s \<le> pid (ptable (switch_to c (Some i) t) ! i)"
    using t assms(3) l by (simp add: used_def)
qed

text \<open>The current process of CPU \<open>c\<close> leaves the CPU in a state other than running.\<close>

lemma inv_stop:
  assumes "proc_inv s" "runs s c = Some i"
    and t: "ptable t = (ptable s)[i := p]" "runs t = runs s" "nextpid t = nextpid s"
    and p: "state p \<noteq> RUNNING" "state p \<noteq> UNUSED" "pid p = pid (ptable s ! i)"
      "state p = SLEEPING \<longrightarrow> pchan p \<noteq> None"
  shows "proc_inv (switch_to c None t)"
proof (rule proc_inv_slot [OF assms(1), where i = i])
  note r = running_slot [OF assms(1,2)]
  have none: "runners (switch_to c None t) i = {}" using r(3) t by (auto simp: runners_def split: if_splits)
  then show "slot_ok (switch_to c None t) i"
    using assms r by (auto simp: proc_inv_def slot_ok_def Let_def used_def)
  show "length (ptable (switch_to c None t)) = NPROC" "nextpid s \<le> nextpid (switch_to c None t)"
    using t assms(1) by (simp_all add: proc_inv_def)
  show "\<And>k. k < NPROC \<Longrightarrow> k \<noteq> i \<Longrightarrow> ptable (switch_to c None t) ! k = ptable s ! k \<and>
      runners (switch_to c None t) k = runners s k"
    using t assms(2) by (auto simp: runners_def split: if_splits)
  show "\<And>d k. runs (switch_to c None t) d = Some k \<Longrightarrow> k < NPROC"
    using t assms(1) by (auto simp: proc_inv_def split: if_splits)
  show "used (switch_to c None t) i \<Longrightarrow> used s i \<and> pid (ptable (switch_to c None t) ! i) = pid (ptable s ! i) \<or>
      nextpid s \<le> pid (ptable (switch_to c None t) ! i)"
    using r t p by (simp add: used_def)
qed

text \<open>A slot that no CPU runs changes to a state other than running.\<close>

lemma inv_change:
  assumes "proc_inv s" "i < NPROC" "state (ptable s ! i) \<noteq> RUNNING"
    and t: "ptable t = (ptable s)[i := p]" "runs t = runs s" "nextpid s \<le> nextpid t"
    and p: "state p \<noteq> RUNNING" "state p = SLEEPING \<longrightarrow> pchan p \<noteq> None"
      "state p \<noteq> UNUSED \<longrightarrow> state (ptable s ! i) \<noteq> UNUSED \<and> pid p = pid (ptable s ! i) \<or> pid p = nextpid s \<and> nextpid s < nextpid t"
  shows "proc_inv t"
proof (rule proc_inv_slot [OF assms(1), where i = i])
  have l: "length (ptable s) = NPROC" "0 < nextpid s" "slot_ok s i" using assms(1,2) by (auto simp: proc_inv_def)
  then have "runners s i = {}" using assms(3) by (auto simp: slot_ok_def Let_def)
  then have "runners t i = {}" using t by (simp add: runners_def)
  then show "slot_ok t i"
    using l p t assms(2) by (auto simp: slot_ok_def Let_def)
  show "\<And>d k. runs t d = Some k \<Longrightarrow> k < NPROC"
    using t assms(1) by (auto simp: proc_inv_def)
  show "used t i \<Longrightarrow> used s i \<and> pid (ptable t ! i) = pid (ptable s ! i) \<or> nextpid s \<le> pid (ptable t ! i)"
    using l t p assms(2) by (auto simp: used_def)
qed (use t assms(1) in \<open>auto simp: proc_inv_def runners_def\<close>)

text \<open>A slot changes fields other than its state and pid, and is not asleep.\<close>

lemma inv_keep:
  assumes "proc_inv s" "ptable t = (ptable s)[i := p]" "runs t = runs s" "nextpid t = nextpid s"
    and "i < NPROC" "state p = state (ptable s ! i)" "pid p = pid (ptable s ! i)" "state p \<noteq> SLEEPING"
  shows "proc_inv t"
proof (rule proc_inv_slot [OF assms(1), where i = i])
  have l: "length (ptable s) = NPROC" "slot_ok s i" using assms(1,5) by (auto simp: proc_inv_def)
  moreover have "runners t = runners s" using assms(3) by (auto simp: runners_def)
  ultimately show "slot_ok t i" using assms(2,4-8) by (simp add: slot_ok_def Let_def)
  show "\<And>d k. runs t d = Some k \<Longrightarrow> k < NPROC" using assms(1,3) by (auto simp: proc_inv_def)
  show "length (ptable t) = NPROC" "nextpid s \<le> nextpid t" using assms(2,4) l by simp_all
  show "\<And>k. k < NPROC \<Longrightarrow> k \<noteq> i \<Longrightarrow> ptable t ! k = ptable s ! k \<and> runners t k = runners s k"
    using assms(2,3) by (simp add: runners_def)
  show "used t i \<Longrightarrow> used s i \<and> pid (ptable t ! i) = pid (ptable s ! i) \<or> nextpid s \<le> pid (ptable t ! i)"
    using assms(2,5-8) l by (simp add: used_def)
qed

lemma inv_frame: "proc_inv s \<Longrightarrow> ptable t = ptable s \<Longrightarrow> runs t = runs s \<Longrightarrow> nextpid t = nextpid s \<Longrightarrow> proc_inv t"
  by (rule benign_inv [of s]) (auto simp: proc_inv_def)

lemma runs_more: "kproc.more t = kproc.more s \<Longrightarrow> runs t = runs s"
  by (cases s, cases t) simp

lemma proc_step_inv: "proc_step s t \<Longrightarrow> proc_inv s \<Longrightarrow> proc_inv t"
proof (induction rule: proc_step.induct)
  case (pick s c i t)
  then show ?case by (intro inv_pick)
next
  case (yield s c i t)
  note r = running_slot [OF yield(3,1)]
  show ?case
    by (rule inv_stop [OF yield(3,1), where p = "(ptable s ! i)\<lparr>state := RUNNABLE\<rparr>"])
      (use yield r in \<open>auto simp: yield_enter_def kdefs with_proc_def\<close>)
next
  case (sleep s c i ch lk t)
  note r = running_slot [OF sleep(3,1)]
  show ?case
    by (rule inv_stop [OF sleep(3,1), where p = "(ptable s ! i)\<lparr>pchan := Some ch, state := SLEEPING\<rparr>"])
      (use sleep r in \<open>auto simp: sleep_enter_def kdefs acquire_def release_def split: option.splits if_splits outcome.splits\<close>)
next
  case (resume s c i lk t)
  note r = running_slot [OF resume(3,1)]
  have "ptable t = (ptable s)[i := (ptable s ! i)\<lparr>pchan := None\<rparr>]" "runs t = runs s" "nextpid t = nextpid s"
    using resume by (auto simp: sleep_resume_def with_proc_def kdefs acquire_def release_def
        split: option.splits if_splits outcome.splits)
  then show ?case by (rule inv_keep [OF resume(3)]) (use r in auto)
next
  case (wakeup ch c s t)
  then have "t = (on_cpu c {} s)\<lparr>ptable := map (woken ch) (ptable s)\<rparr>" by (simp add: wakeup_run)
  with wakeup(2) show ?case by (intro benign_inv [OF wakeup(2)]) (auto simp: proc_inv_def)
next
  case (kill s c i n r t)
  then show ?case
    by (intro benign_inv [OF kill(3)])
      (auto simp: kill_run proc_inv_def benign_def nth_list_update find_index_Some
        split: option.splits if_splits)
next
  case (alloc s c r t)
  show ?case
  proof (cases "find_index (\<lambda>p. state p = UNUSED) (ptable s)")
    case None
    then have "allocproc (on_cpu c {} s) = Ok None (on_cpu c {} s)" by (intro allocproc_full) simp_all
    then show ?thesis using alloc by (auto intro: inv_frame)
  next
    case (Some i)
    then obtain u where u: "allocproc (on_cpu c {} s) = Ok (if freelist s = 0 then None else Some i) u"
      "nextpid u = nextpid s + 1" "kproc.more u = kproc.more (on_cpu c {} s)"
      "ptable u = (ptable s)[i := (if freelist s = 0 then (ptable s ! i)\<lparr>pid := nextpid s, kstack := 0, state := UNUSED\<rparr>
        else fresh_slot (nextpid s) (freelist s) (ptable s ! i))]"
      using allocproc_slot [of "on_cpu c {} s" i] Some by auto
    moreover have "runs u = runs s" using runs_more [OF u(3)] by simp
    moreover have "u = t" using alloc u by simp
    ultimately show ?thesis
      using alloc Some
      by (intro inv_change [OF alloc(3), where i = i]) (auto simp: find_index_Some proc_inv_def fresh_slot_def split: if_splits)
  qed
next
  case (publish j s c t)
  then show ?case
    by (intro inv_change [OF publish(4), where i = j]) (auto simp: publish_def kdefs)
next
  case (exit s c i t)
  note r = running_slot [OF exit(3,1)]
  obtain u where u: "tab_benign (on_cpu c {} s) u" "t = u\<lparr>ptable := (ptable u)[i := (ptable u ! i)\<lparr>state := ZOMBIE\<rparr>]\<rparr>"
    using exit_zombie_run [OF exit(2)] r by auto
  have "proc_inv u"
    by (rule benign_inv [OF exit(3)]) (use u exit(3) in \<open>auto simp: tab_benign_def proc_inv_def\<close>)
  moreover have "runs u c = Some i" using u exit(1) by (simp add: tab_benign_def)
  ultimately show ?case
    by (rule inv_stop [where p = "(ptable u ! i)\<lparr>state := ZOMBIE\<rparr>"]) (use u in simp_all)
next
  case (reap j s c t)
  then show ?case
    by (intro inv_change [OF reap(4), where i = j]) (auto simp: clear_slot_def)
qed

lemma proc_init_inv: "proc_init s \<Longrightarrow> proc_inv s"
  by (auto simp: proc_init_def proc_inv_def slot_ok_def Let_def runners_def pids_distinct_def used_def inj_on_def)

interpretation psm: transition_system proc_init proc_step proc_inv
  by unfold_locales (auto intro: proc_init_inv proc_step_inv)

section \<open>Properties\<close>


definition empty_slot :: proc where
  "empty_slot = \<lparr>sz = 0, pgdir = 0, kstack = 0, state = UNUSED, pid = 0, parent = None, tf = 0,
     pcontext = 0, pchan = None, killed = 0, ofile = replicate NOFILE None, cwd = None,
     pname = replicate 16 0, swapFile = None, ppages = replicate MAX_TOTAL_PAGES empty_page,
     fileOffset = 0, numberOfAllocatedPages = 0, numberOfPagedOut = 0, numberOfPageFaults = 0,
     totalNumberOfPagedOut = 0, RAMQueue = replicate MAX_PSYC_PAGES (-1),
     offsetQueue = replicate MAX_PSYC_PAGES (-1)\<rparr>"

definition kproc0 :: "unit \<Rightarrow> psys" where
  "kproc0 u = kmem.extend kmem2 \<lparr>ptable = replicate NPROC empty_slot, nextpid = 1, initproc = None,
     curproc = None, initial_size = 0, trapret = 0x80105a00, forkret_addr = 0x80103a00,
     runs = (\<lambda>_. None)\<rparr>"

lemma kproc0_simps [simp]:
  "ptable (kproc0 u) = replicate NPROC empty_slot" "nextpid (kproc0 u) = 1" "runs (kproc0 u) c = None"
  "held (kproc0 u) = {}" "freelist (kproc0 u) = 0x80400000" "kmem_ready (kproc0 u)"
  by (simp_all add: kproc0_def kmem2_def kmem_ready_def kmem.defs)

lemma find_first_free: "find_index (\<lambda>p. state p = UNUSED) (replicate NPROC empty_slot) = Some 0"
  by (simp add: find_index_Some NPROC_def empty_slot_def)

lemma kproc0_step: "\<exists>t. proc_step (kproc0 ()) t \<and> used t 0 \<and> pid (ptable t ! 0) = 1"
proof -
  obtain t where t: "allocproc (on_cpu 0 {} (kproc0 ())) = Ok (Some 0) t"
    "ptable t = (replicate NPROC empty_slot)[0 := fresh_slot 1 0x80400000 (replicate NPROC empty_slot ! 0)]"
    using allocproc_slot [of "on_cpu 0 {} (kproc0 ())" 0] find_first_free by auto
  then have "proc_step (kproc0 ()) t" by (intro proc_step.alloc) simp_all
  then show ?thesis using t by (intro exI [of _ t]) (simp add: used_def NPROC_def fresh_slot_def)
qed


text \<open>\<open>wakeup(chan)\<close> makes exactly the processes that sleep on the channel runnable, changes
  nothing else of the table, and gives \<open>ptable.lock\<close> back; called with the lock held it panics.\<close>

theorem wakeup_spec:
  fixes s :: "'z kproc_scheme"
  shows "if LPtable \<in> held s then wakeup ch s = Panic ''acquire''
    else (\<exists>t. wakeup ch s = Ok () t \<and> held t = held s \<and>
      ptable t = map (\<lambda>p. if state p = SLEEPING \<and> pchan p = ch then p\<lparr>state := RUNNABLE\<rparr> else p) (ptable s))"
  by (auto simp: wakeup_run woken_def) (simp add: wakeup_def acquire_twice thn_def bnd_def)

text \<open>\<open>kill(0)\<close> succeeds whenever a slot is unused, since unused slots have pid 0, and marks that
  slot as killed. \<open>allocproc\<close> does not clear the mark, so when the slot is the first free one the
  next process starts out killed.\<close>

theorem kill_zero_kills_next_process:
  fixes s :: "'z kproc_scheme"
  assumes "LPtable \<notin> held s" and "kmem_ready s" and "freelist s \<noteq> 0"
    and "find_index (\<lambda>p. state p = UNUSED) (ptable s) = Some i"
    and "find_index (\<lambda>p. pid p = 0) (ptable s) = Some i"
  shows "\<exists>t u. kill 0 s = Ok 0 t \<and> allocproc t = Ok (Some i) u \<and> killed (ptable u ! i) = 1"
proof -
  have i: "i < length (ptable s)" "state (ptable s ! i) = UNUSED"
    using assms(4) by (simp_all add: find_index_Some)
  let ?t = "s\<lparr>ptable := (ptable s)[i := (ptable s ! i)\<lparr>killed := 1, state := UNUSED\<rparr>]\<rparr>"
  have t: "kill 0 s = Ok 0 ?t" using assms(1,5) i by (simp add: kill_run)
  have "find_index (\<lambda>p. state p = UNUSED) (ptable ?t) = Some i"
    using assms(4) by (auto simp: find_index_Some)
  then obtain u where u: "allocproc ?t = Ok (if freelist ?t = 0 then None else Some i) u"
    "ptable u = (ptable ?t)[i := (if freelist ?t = 0 then (ptable ?t ! i)\<lparr>pid := nextpid ?t, kstack := 0, state := UNUSED\<rparr>
        else fresh_slot (nextpid ?t) (freelist ?t) (ptable ?t ! i))]"
    using allocproc_slot [of ?t i] assms(1,2) by (auto simp: kmem_ready_def)
  then have "killed (ptable u ! i) = 1" using assms(3) i by (simp add: fresh_slot_def)
  with t u assms(3) show ?thesis by auto
qed

theorem kill_zero_kills_next_process_witness:
  "\<exists>t u. kill 0 (kproc0 ()) = Ok 0 t \<and> allocproc t = Ok (Some 0) u \<and> killed (ptable u ! 0) = 1"
  using kill_zero_kills_next_process [of "kproc0 ()" 0] find_first_free
  by (simp add: find_index_Some NPROC_def empty_slot_def)

end
