(* ===== verification/Sleeplock.thy ===== *)
theory Sleeplock
  imports Proc
begin

text \<open>
  Sleep locks (\<open>sleeplock.c\<close>) of buffers and inodes: the operations, as the rest of the kernel
  calls them, and a step relation in which any number of processes run \<open>acquiresleep\<close> and
  \<open>releasesleep\<close> on one lock, at the granularity at which the code takes the lock's spinlock and
  \<open>ptable.lock\<close>. Its invariant gives mutual exclusion and that no wakeup is lost.
\<close>

section \<open>State and operations\<close>

datatype sleepid = BufLk nat | InodeLk nat

fun slk_lock :: "sleepid \<Rightarrow> lockid" where
  "slk_lock (BufLk n) = LBuf n"
| "slk_lock (InodeLk n) = LInode n"

fun slk_chan :: "sleepid \<Rightarrow> chan" where
  "slk_chan (BufLk n) = BufLockChan n"
| "slk_chan (InodeLk n) = InodeLockChan n"

record kslp = kproc +
  slocked :: "sleepid \<Rightarrow> u32"
  slpid :: "sleepid \<Rightarrow> int"

definition set_slp :: "sleepid \<Rightarrow> u32 \<Rightarrow> int \<Rightarrow> ('z kslp_scheme, unit) kern" where
  "set_slp k v p = modify (\<lambda>s. s\<lparr>slocked := (slocked s)(k := v), slpid := (slpid s)(k := p)\<rparr>)"

definition initsleeplock :: "sleepid \<Rightarrow> ('z kslp_scheme, unit) kern" where
  "initsleeplock k = thn (modify (\<lambda>s. s\<lparr>held := held s - {slk_lock k}\<rparr>)) (set_slp k 0 0)"

text \<open>
  The waiting loop of \<open>acquiresleep\<close> gives the CPU away whenever the lock is taken: \<open>sleep\<close> ends in
  \<open>Block\<close>, and the process tests the lock again when it is resumed.
\<close>

definition acquiresleep :: "sleepid \<Rightarrow> ('z kslp_scheme, unit) kern" where
  "acquiresleep k =
     thn (acquire (slk_lock k)) (
     thn (bnd (gets (\<lambda>s. slocked s k)) (\<lambda>l.
            whenk (l \<noteq> 0) (sleep (slk_chan k) (Some (slk_lock k))))) (
     with_proc (\<lambda>i.
     bnd (gets (\<lambda>s. pid (ptable s ! i))) (\<lambda>p.
     thn (set_slp k 1 p) (release (slk_lock k))))))"

definition releasesleep :: "sleepid \<Rightarrow> ('z kslp_scheme, unit) kern" where
  "releasesleep k =
     thn (acquire (slk_lock k)) (
     thn (set_slp k 0 0) (
     thn (wakeup (Some (slk_chan k)))
     (release (slk_lock k))))"

definition holdingsleep :: "sleepid \<Rightarrow> ('z kslp_scheme, bool) kern" where
  "holdingsleep k =
     thn (acquire (slk_lock k)) (
     bnd (gets (\<lambda>s. slocked s k \<noteq> 0)) (\<lambda>r.
     thn (release (slk_lock k)) (ret r)))"

lemma slk_lock_not_ptable [simp]: "slk_lock k \<noteq> LPtable" "LPtable \<noteq> slk_lock k"
  by (cases k; simp)+

lemma acquiresleep_free:
  assumes "slk_lock k \<notin> held s" "slocked s k = 0" "curproc s = Some i"
  shows "acquiresleep k s = Ok () (s\<lparr>slocked := (slocked s)(k := 1), slpid := (slpid s)(k := pid (ptable s ! i))\<rparr>)"
  using assms by (simp add: acquiresleep_def kdefs with_proc_def set_slp_def held_restore)

lemma acquiresleep_taken:
  assumes "held s = {}" "slocked s k \<noteq> 0" "curproc s = Some i" "i < length (ptable s)"
  shows "\<exists>t. acquiresleep k s = Block (Some (slk_chan k)) t \<and> held t = {LPtable} \<and>
    ptable t = (ptable s)[i := (ptable s ! i)\<lparr>pchan := Some (slk_chan k), state := SLEEPING\<rparr>]"
  using assms
  by (simp add: acquiresleep_def kdefs sleep_def sleep_enter_def sched_def with_proc_def
      insert_Diff_if)

lemma releasesleep_run:
  assumes "slk_lock k \<notin> held s" "LPtable \<notin> held s"
  shows "releasesleep k s = Ok () (s\<lparr>slocked := (slocked s)(k := 0), slpid := (slpid s)(k := 0),
    ptable := map (woken (Some (slk_chan k))) (ptable s)\<rparr>)"
  using assms by (simp add: releasesleep_def kdefs set_slp_def wakeup_run held_restore)

lemma holdingsleep_run:
  "slk_lock k \<notin> held s \<Longrightarrow> holdingsleep k s = Ok (slocked s k \<noteq> 0) s"
  by (simp add: holdingsleep_def kdefs held_restore)

section \<open>Processes competing for one sleep lock\<close>

text \<open>
  Where a process is: outside; holding the spinlock before the loop test (\<open>PTest\<close>) or after the
  lock was free (\<open>PGot\<close>); in \<open>sleep\<close> before and after it has \<open>ptable.lock\<close> (\<open>PWantPt\<close>, \<open>PHavePt\<close>),
  after it dropped the spinlock (\<open>PGoing\<close>), asleep, and resumed (\<open>PWantLk\<close>); inside the lock (\<open>PIn\<close>);
  in \<open>releasesleep\<close> before and after \<open>wakeup\<close> (\<open>PWake\<close>, \<open>PUnlock\<close>).
\<close>

datatype slp_pc = POut | PTest | PGot | PWantPt | PHavePt | PGoing | PAsleep | PWantLk | PIn | PWake | PUnlock

definition owns_lk :: "slp_pc \<Rightarrow> bool" where
  "owns_lk q = (q \<in> {PTest, PGot, PWantPt, PHavePt, PWake, PUnlock})"

definition owns_pt :: "slp_pc \<Rightarrow> bool" where
  "owns_pt q = (q \<in> {PHavePt, PGoing})"

definition has_lock :: "slp_pc \<Rightarrow> bool" where
  "has_lock q = (q \<in> {PGot, PIn})"

record slsys = kslp +
  spc :: "nat \<Rightarrow> slp_pc"
  lk_own :: "nat option"
  pt_own :: "nat option"

definition goto :: "nat \<Rightarrow> slp_pc \<Rightarrow> slsys \<Rightarrow> slsys" where
  "goto i q s = s\<lparr>spc := (spc s)(i := q)\<rparr>"

definition st_upd :: "nat \<Rightarrow> (proc \<Rightarrow> proc) \<Rightarrow> slsys \<Rightarrow> slsys" where
  "st_upd i f s = s\<lparr>ptable := (ptable s)[i := f (ptable s ! i)]\<rparr>"

definition put_slp :: "sleepid \<Rightarrow> u32 \<Rightarrow> int \<Rightarrow> slsys \<Rightarrow> slsys" where
  "put_slp k v p s = s\<lparr>slocked := (slocked s)(k := v), slpid := (slpid s)(k := p)\<rparr>"

inductive slp_step :: "sleepid \<Rightarrow> slsys \<Rightarrow> slsys \<Rightarrow> bool" for k where
  acquire: "i < length (ptable s) \<Longrightarrow> spc s i = POut \<Longrightarrow> lk_own s = None \<Longrightarrow>
    slp_step k s (goto i PTest (s\<lparr>lk_own := Some i\<rparr>))"
| test_free: "spc s i = PTest \<Longrightarrow> slocked s k = 0 \<Longrightarrow>
    slp_step k s (goto i PGot (put_slp k 1 (pid (ptable s ! i)) s))"
| got: "spc s i = PGot \<Longrightarrow> slp_step k s (goto i PIn (s\<lparr>lk_own := None\<rparr>))"
| test_taken: "spc s i = PTest \<Longrightarrow> slocked s k \<noteq> 0 \<Longrightarrow> slp_step k s (goto i PWantPt s)"
| sleep_lock: "spc s i = PWantPt \<Longrightarrow> pt_own s = None \<Longrightarrow>
    slp_step k s (goto i PHavePt (s\<lparr>pt_own := Some i\<rparr>))"
| sleep_drop: "spc s i = PHavePt \<Longrightarrow> slp_step k s (goto i PGoing (s\<lparr>lk_own := None\<rparr>))"
| sleep_sched: "spc s i = PGoing \<Longrightarrow>
    slp_step k s (goto i PAsleep ((st_upd i (\<lambda>p. p\<lparr>pchan := Some (slk_chan k), state := SLEEPING\<rparr>) s)\<lparr>pt_own := None\<rparr>))"
| resume: "spc s i = PAsleep \<Longrightarrow> state (ptable s ! i) \<noteq> SLEEPING \<Longrightarrow> pt_own s = None \<Longrightarrow>
    slp_step k s (goto i PWantLk (st_upd i (\<lambda>p. p\<lparr>pchan := None, state := RUNNING\<rparr>) s))"
| relock: "spc s i = PWantLk \<Longrightarrow> lk_own s = None \<Longrightarrow>
    slp_step k s (goto i PTest (s\<lparr>lk_own := Some i\<rparr>))"
| release: "spc s i = PIn \<Longrightarrow> lk_own s = None \<Longrightarrow>
    slp_step k s (goto i PWake (put_slp k 0 0 (s\<lparr>lk_own := Some i\<rparr>)))"
| wake: "spc s i = PWake \<Longrightarrow> pt_own s = None \<Longrightarrow> wakeup1 (Some (slk_chan k)) s = Ok () t \<Longrightarrow>
    slp_step k s (goto i PUnlock t)"
| unlock: "spc s i = PUnlock \<Longrightarrow> slp_step k s (goto i POut (s\<lparr>lk_own := None\<rparr>))"
| killed: "i < length (ptable s) \<Longrightarrow> pt_own s = None \<Longrightarrow>
    slp_step k s (st_upd i (\<lambda>p. p\<lparr>killed := 1, state := (if state p = SLEEPING then RUNNABLE else state p)\<rparr>) s)"

definition slp_init :: "sleepid \<Rightarrow> slsys \<Rightarrow> bool" where
  "slp_init k s = (slocked s k = 0 \<and> (\<forall>i. spc s i = POut) \<and> lk_own s = None \<and> pt_own s = None)"

section \<open>Invariant\<close>

definition waits :: "sleepid \<Rightarrow> slsys \<Rightarrow> nat \<Rightarrow> bool" where
  "waits k s i = (spc s i = PGoing \<or> spc s i = PAsleep \<and> state (ptable s ! i) = SLEEPING)"

definition slp_locks_ok :: "slsys \<Rightarrow> bool" where
  "slp_locks_ok s = (\<forall>i. (lk_own s = Some i \<longleftrightarrow> owns_lk (spc s i)) \<and> (pt_own s = Some i \<longleftrightarrow> owns_pt (spc s i)))"

definition holders :: "slsys \<Rightarrow> nat set" where
  "holders s = {i. has_lock (spc s i)}"

definition slp_owner_ok :: "sleepid \<Rightarrow> slsys \<Rightarrow> bool" where
  "slp_owner_ok k s = (if slocked s k = 0 then holders s = {} else \<exists>w. holders s = {w})"

definition slp_inv :: "sleepid \<Rightarrow> slsys \<Rightarrow> bool" where
  "slp_inv k s = (slp_locks_ok s \<and> slp_owner_ok k s \<and>
     (\<forall>i. spc s i = PWantPt \<or> spc s i = PHavePt \<longrightarrow> slocked s k \<noteq> 0) \<and>
     (\<forall>i. spc s i \<noteq> POut \<longrightarrow> i < length (ptable s)) \<and>
     (\<forall>i. spc s i = PAsleep \<longrightarrow> pchan (ptable s ! i) = Some (slk_chan k)) \<and>
     ((\<exists>i. waits k s i) \<and> slocked s k = 0 \<longrightarrow> (\<exists>j. spc s j = PWake)))"

lemmas slp_upd = goto_def st_upd_def put_slp_def

lemma wakeup1_run: "wakeup1 ch s = Ok () (s\<lparr>ptable := map (woken ch) (ptable s)\<rparr>)"
  by (simp add: wakeup1_def)

lemma slp_step_locks: "slp_step k s t \<Longrightarrow> slp_locks_ok s \<Longrightarrow> slp_locks_ok t"
proof (induction rule: slp_step.induct)
  case (wake s i t)
  then show ?case by (auto simp: slp_locks_ok_def slp_upd wakeup1_run owns_lk_def owns_pt_def)
qed (auto simp: slp_locks_ok_def slp_upd owns_lk_def owns_pt_def; metis option.inject)+

lemma holders_simps [simp]:
  "holders (s\<lparr>lk_own := x\<rparr>) = holders s" "holders (s\<lparr>pt_own := x\<rparr>) = holders s"
  "holders (s\<lparr>ptable := tb\<rparr>) = holders s" "holders (put_slp k v p s) = holders s" "holders (st_upd i f s) = holders s"
  by (simp_all add: holders_def slp_upd)

lemma holders_goto:
  "holders (goto i q s) = (if has_lock q then insert i (holders s) else holders s - {i})"
  by (auto simp: holders_def goto_def)

lemma slocked_simps [simp]:
  "slocked (goto i q s) = slocked s" "slocked (st_upd i f s) = slocked s"
  "slocked (put_slp k v p s) = (slocked s)(k := v)"
  by (simp_all add: slp_upd)

lemma holders_iff: "i \<in> holders s \<longleftrightarrow> has_lock (spc s i)"
  by (simp add: holders_def)

lemma slp_step_owner: "slp_step k s t \<Longrightarrow> slp_owner_ok k s \<Longrightarrow> slp_owner_ok k t"
proof (induction rule: slp_step.induct)
  case (got s i)
  then have "i \<in> holders s" by (simp add: holders_iff has_lock_def)
  with got show ?case by (auto simp: slp_owner_ok_def holders_goto has_lock_def insert_absorb split: if_splits)
next
  case (release s i)
  then have "i \<in> holders s" by (simp add: holders_iff has_lock_def)
  with release show ?case by (auto simp: slp_owner_ok_def holders_goto has_lock_def split: if_splits)
next
  case (wake s i t)
  then have "i \<notin> holders s" by (simp add: holders_iff has_lock_def)
  with wake show ?case by (auto simp: slp_owner_ok_def holders_goto has_lock_def wakeup1_run)
qed (simp_all add: slp_owner_ok_def holders_goto has_lock_def holders_iff)

lemma slp_step_wants:
  assumes "slp_step k s t" "slp_locks_ok s"
    and "\<forall>i. spc s i = PWantPt \<or> spc s i = PHavePt \<longrightarrow> slocked s k \<noteq> 0"
  shows "\<forall>i. spc t i = PWantPt \<or> spc t i = PHavePt \<longrightarrow> slocked t k \<noteq> 0"
  using assms
proof (induction rule: slp_step.induct)
  case (release s i)
  then have "\<not> owns_lk (spc s j)" for j by (simp add: slp_locks_ok_def)
  then show ?case by (auto simp: slp_upd owns_lk_def)
qed (auto simp: slp_upd wakeup1_run)

lemma slp_step_bound:
  "slp_step k s t \<Longrightarrow> \<forall>i. spc s i \<noteq> POut \<longrightarrow> i < length (ptable s) \<Longrightarrow>
   \<forall>i. spc t i \<noteq> POut \<longrightarrow> i < length (ptable t)"
  by (induction rule: slp_step.induct) (auto simp: slp_upd wakeup1_run)

lemma slp_step_chan:
  assumes "slp_step k s t" "\<forall>i. spc s i \<noteq> POut \<longrightarrow> i < length (ptable s)"
    and "\<forall>i. spc s i = PAsleep \<longrightarrow> pchan (ptable s ! i) = Some (slk_chan k)"
  shows "\<forall>i. spc t i = PAsleep \<longrightarrow> pchan (ptable t ! i) = Some (slk_chan k)"
  using assms
proof (induction rule: slp_step.induct)
  case (wake s i t)
  then show ?case by (auto simp: slp_upd wakeup1_run woken_def)
qed (auto simp: slp_upd nth_list_update)

text \<open>Nobody who waits is left behind: the process that freed the lock has yet to call \<open>wakeup\<close>.\<close>

definition no_lost_wakeup :: "sleepid \<Rightarrow> slsys \<Rightarrow> bool" where
  "no_lost_wakeup k s = ((\<exists>i. waits k s i) \<and> slocked s k = 0 \<longrightarrow> (\<exists>j. spc s j = PWake))"

lemma no_lost_wakeup_mono:
  assumes "slp_inv k s" "\<And>j. waits k t j \<Longrightarrow> \<exists>i. waits k s i" "slocked t k = slocked s k"
    "\<And>j. spc s j = PWake \<Longrightarrow> spc t j = PWake"
  shows "no_lost_wakeup k t"
  using assms unfolding slp_inv_def no_lost_wakeup_def by metis

lemma slp_step_wakeup:
  assumes "slp_step k s t" "slp_inv k s"
  shows "no_lost_wakeup k t"
  using assms
proof (induction rule: slp_step.induct)
  case (wake s i t)
  then have pt: "spc s j \<noteq> PGoing" for j
    by (auto simp: slp_inv_def slp_locks_ok_def owns_pt_def)
  have "\<not> waits k (goto i PUnlock t) j" for j
    using wake pt [of j] by (auto simp: slp_inv_def waits_def slp_upd wakeup1_run woken_def split: if_splits)
  then show ?case by (simp add: no_lost_wakeup_def)
next
  case (release s i)
  then show ?case by (auto simp: no_lost_wakeup_def slp_upd)
next
  case (sleep_drop s i)
  then show ?case by (auto simp: no_lost_wakeup_def slp_inv_def slp_upd)
next
  case (test_free s i)
  then show ?case by (simp add: no_lost_wakeup_def)
qed (auto intro!: no_lost_wakeup_mono simp: waits_def slp_upd nth_list_update split: if_splits)

lemma slp_step_inv: "slp_step k s t \<Longrightarrow> slp_inv k s \<Longrightarrow> slp_inv k t"
  using slp_step_locks [of k s t] slp_step_owner [of k s t] slp_step_wants [of k s t]
    slp_step_bound [of k s t] slp_step_chan [of k s t] slp_step_wakeup [of k s t]
  unfolding slp_inv_def no_lost_wakeup_def by blast

lemma slp_init_inv: "slp_init k s \<Longrightarrow> slp_inv k s"
  by (simp add: slp_init_def slp_inv_def slp_locks_ok_def slp_owner_ok_def holders_def waits_def
      owns_lk_def owns_pt_def has_lock_def)

interpretation slp: transition_system "slp_init k" "slp_step k" "slp_inv k" for k
  by unfold_locales (auto intro: slp_init_inv slp_step_inv)

section \<open>Properties\<close>


definition slsys2 :: slsys where
  "slsys2 = kproc.extend (kproc.truncate (kproc0 ())) \<lparr>slocked = (\<lambda>_. 0), slpid = (\<lambda>_. 0),
     spc = (\<lambda>_. POut), lk_own = None, pt_own = None\<rparr>"

lemma slsys2_run: "\<exists>s. (slp_step (BufLk 0))\<^sup>*\<^sup>* slsys2 s \<and> has_lock (spc s 0)"
proof -
  let ?a = "goto 0 PTest (slsys2\<lparr>lk_own := Some 0\<rparr>)"
  let ?b = "goto 0 PGot (put_slp (BufLk 0) 1 (pid (ptable ?a ! 0)) ?a)"
  have s: "spc slsys2 0 = POut" "lk_own slsys2 = None" "0 < length (ptable slsys2)" "slocked slsys2 (BufLk 0) = 0"
    by (simp_all add: slsys2_def kproc0_def kproc.defs NPROC_def kmem.defs)
  have "slp_step (BufLk 0) slsys2 ?a" using s by (intro slp_step.acquire)
  moreover have "slp_step (BufLk 0) ?a ?b" using s by (intro slp_step.test_free) (simp_all add: slp_upd)
  moreover have "has_lock (spc ?b 0)" by (simp add: has_lock_def slp_upd)
  ultimately show ?thesis by (meson converse_rtranclp_into_rtranclp rtranclp.rtrancl_refl)
qed


end
