(* ===== verification/Bio.thy ===== *)
theory Bio
  imports Sleeplock
begin

text \<open>
  The buffer cache of \<open>bio.c\<close> on the memory disk driver \<open>memide.c\<close>: a fixed array of buffers
  threaded on a circular, doubly linked list in order of last use. The theory refines the list to
  a HOL list, shows that at most one buffer caches a block, and gives the effect of \<open>bread\<close>,
  \<open>bwrite\<close> and \<open>brelse\<close> on the contents of the disk as a client sees them.
\<close>

section \<open>State\<close>

definition NBUF :: nat where "NBUF = 30"
definition BSIZE :: nat where "BSIZE = 512"
definition ROOTDEV :: nat where "ROOTDEV = 1"

text \<open>
  \<open>bvalid\<close> and \<open>bdirty\<close> are the bits \<open>B_VALID\<close> and \<open>B_DIRTY\<close> of \<open>flags\<close>. Buffers are named by their
  index in \<open>bcache.buf\<close>; index \<open>NBUF\<close> is the list head \<open>bcache.head\<close>.
\<close>

record buf =
  bvalid :: bool
  bdirty :: bool
  bdev :: nat
  blockno :: nat
  brefcnt :: u32
  bprev :: nat
  bnext :: nat
  bdata :: "byte list"

text \<open>
  \<open>writes\<close> records, in order, the block writes the driver has done: a crash leaves the disk as some
  prefix of them made it.
\<close>

record kbio = kslp +
  bufs :: "buf list"
  disk :: "nat \<Rightarrow> byte list"
  disksize :: nat
  writes :: "(nat \<times> byte list) list"

definition HEAD :: nat where "HEAD = NBUF"

definition set_buf :: "nat \<Rightarrow> (buf \<Rightarrow> buf) \<Rightarrow> ('z kbio_scheme, unit) kern" where
  "set_buf b f = modify (\<lambda>s. s\<lparr>bufs := (bufs s)[b := f (bufs s ! b)]\<rparr>)"

definition getbuf :: "nat \<Rightarrow> ('z kbio_scheme, buf) kern" where
  "getbuf b = gets (\<lambda>s. bufs s ! b)"

section \<open>The disk driver\<close>

definition iderw :: "nat \<Rightarrow> ('z kbio_scheme, unit) kern" where
  "iderw b =
     bnd (holdingsleep (BufLk b)) (\<lambda>h.
     bnd (getbuf b) (\<lambda>x.
     bnd (gets disksize) (\<lambda>n.
     if \<not> h then panic ''iderw: buf not locked''
     else if bvalid x \<and> \<not> bdirty x then panic ''iderw: nothing to do''
     else if bdev x \<noteq> 1 then panic ''iderw: request not for disk 1''
     else if blockno x \<ge> n then panic ''iderw: block out of range''
     else
       thn (if bdirty x then
              thn (set_buf b (\<lambda>x. x\<lparr>bdirty := False\<rparr>))
              (modify (\<lambda>s. s\<lparr>disk := (disk s)(blockno x := bdata x),
                              writes := writes s @ [(blockno x, bdata x)]\<rparr>))
            else bnd (gets disk) (\<lambda>d. set_buf b (\<lambda>y. y\<lparr>bdata := d (blockno x)\<rparr>)))
       (set_buf b (\<lambda>x. x\<lparr>bvalid := True\<rparr>)))))"

section \<open>Buffer operations\<close>

definition link_front :: "nat \<Rightarrow> ('z kbio_scheme, unit) kern" where
  "link_front b =
     bnd (getbuf HEAD) (\<lambda>h.
     thn (set_buf b (\<lambda>x. x\<lparr>bnext := bnext h\<rparr>)) (
     thn (set_buf b (\<lambda>x. x\<lparr>bprev := HEAD\<rparr>)) (
     thn (set_buf (bnext h) (\<lambda>x. x\<lparr>bprev := b\<rparr>))
     (set_buf HEAD (\<lambda>x. x\<lparr>bnext := b\<rparr>)))))"

definition binit :: "('z kbio_scheme, unit) kern" where
  "binit =
     thn (modify (\<lambda>s. s\<lparr>held := held s - {LBcache}\<rparr>)) (
     thn (set_buf HEAD (\<lambda>x. x\<lparr>bprev := HEAD\<rparr>)) (
     thn (set_buf HEAD (\<lambda>x. x\<lparr>bnext := HEAD\<rparr>))
     (foreach [0..<NBUF] (\<lambda>b. thn (initsleeplock (BufLk b)) (link_front b)))))"

text \<open>A walk over the list from \<open>b\<close>, by \<open>next\<close> or \<open>prev\<close>, to the first buffer that passes the test.\<close>

fun bwalk :: "nat \<Rightarrow> (buf \<Rightarrow> nat) \<Rightarrow> (buf \<Rightarrow> bool) \<Rightarrow> nat \<Rightarrow> ('z kbio_scheme, nat option) kern" where
  "bwalk 0 nx p b = diverge"
| "bwalk (Suc fuel) nx p b =
     (if b = HEAD then ret None
      else bnd (getbuf b) (\<lambda>x. if p x then ret (Some b) else bwalk fuel nx p (nx x)))"

definition bget :: "nat \<Rightarrow> nat \<Rightarrow> ('z kbio_scheme, nat) kern" where
  "bget dev bno =
     thn (acquire LBcache) (
     bnd (getbuf HEAD) (\<lambda>h.
     bnd (bwalk (NBUF + 1) bnext (\<lambda>x. bdev x = dev \<and> blockno x = bno) (bnext h)) (\<lambda>r.
     case r of
       Some b \<Rightarrow>
         thn (set_buf b (\<lambda>x. x\<lparr>brefcnt := brefcnt x + 1\<rparr>)) (
         thn (release LBcache) (
         thn (acquiresleep (BufLk b)) (ret b)))
     | None \<Rightarrow>
         bnd (bwalk (NBUF + 1) bprev (\<lambda>x. brefcnt x = 0 \<and> \<not> bdirty x) (bprev h)) (\<lambda>q.
         case q of
           Some b \<Rightarrow>
             thn (set_buf b (\<lambda>x. x\<lparr>bdev := dev, blockno := bno, bvalid := False, bdirty := False, brefcnt := 1\<rparr>)) (
             thn (release LBcache) (
             thn (acquiresleep (BufLk b)) (ret b)))
         | None \<Rightarrow> panic ''bget: no buffers''))))"

definition bread :: "nat \<Rightarrow> nat \<Rightarrow> ('z kbio_scheme, nat) kern" where
  "bread dev bno =
     bnd (bget dev bno) (\<lambda>b.
     bnd (getbuf b) (\<lambda>x.
     thn (whenk (\<not> bvalid x) (iderw b)) (ret b)))"

definition bwrite :: "nat \<Rightarrow> ('z kbio_scheme, unit) kern" where
  "bwrite b =
     bnd (holdingsleep (BufLk b)) (\<lambda>h.
     if \<not> h then panic ''bwrite''
     else thn (set_buf b (\<lambda>x. x\<lparr>bdirty := True\<rparr>)) (iderw b))"

definition brelse :: "nat \<Rightarrow> ('z kbio_scheme, unit) kern" where
  "brelse b =
     bnd (holdingsleep (BufLk b)) (\<lambda>h.
     if \<not> h then panic ''brelse''
     else
       thn (releasesleep (BufLk b)) (
       thn (acquire LBcache) (
       thn (set_buf b (\<lambda>x. x\<lparr>brefcnt := brefcnt x - 1\<rparr>)) (
       thn (bnd (getbuf b) (\<lambda>x. whenk (brefcnt x = 0) (
              thn (set_buf (bnext x) (\<lambda>y. y\<lparr>bprev := bprev x\<rparr>)) (
              thn (set_buf (bprev x) (\<lambda>y. y\<lparr>bnext := bnext x\<rparr>))
              (link_front b)))))
       (release LBcache)))))"

section \<open>Linked lists\<close>

text \<open>\<open>path nx a xs z\<close>: following \<open>nx\<close> from \<open>a\<close> goes through \<open>xs\<close> and then to \<open>z\<close>.\<close>

primrec path :: "(nat \<Rightarrow> nat) \<Rightarrow> nat \<Rightarrow> nat list \<Rightarrow> nat \<Rightarrow> bool" where
  "path nx a [] z = (nx a = z)"
| "path nx a (x # xs) z = (nx a = x \<and> path nx x xs z)"

lemma path_append: "path nx a (xs @ y # ys) z \<longleftrightarrow> path nx a xs y \<and> path nx y ys z"
  by (induction xs arbitrary: a) auto

lemma path_upd: "c \<noteq> a \<Longrightarrow> c \<notin> set xs \<Longrightarrow> path (nx(c := v)) a xs z = path nx a xs z"
  by (induction xs arbitrary: a) auto

lemma path_last: "path nx a xs z \<Longrightarrow> distinct (a # xs) \<Longrightarrow> path (nx(last (a # xs) := v)) a xs v"
proof (induction xs arbitrary: a)
  case (Cons x xs)
  then show ?case by (cases "xs = []") auto
qed simp

lemma path_unlink:
  assumes "path nx h (ys @ b # zs) h" "distinct (h # ys @ b # zs)"
  shows "path (nx(last (h # ys) := nx b)) h (ys @ zs) h"
proof (cases zs)
  case Nil
  with assms path_last [of nx h ys b "nx b"] show ?thesis by (simp add: path_append)
next
  case (Cons z zs')
  have "path nx h ys b" "nx b = z" "path nx z zs' h" using assms(1) Cons by (simp_all add: path_append)
  moreover have "last (h # ys) \<noteq> z" "last (h # ys) \<notin> set zs'"
    using assms(2) Cons last_in_set [of "h # ys"] by auto
  ultimately show ?thesis
    using assms(2) Cons path_last [of nx h ys b z] by (simp add: path_append path_upd)
qed

lemma path_link:
  assumes "path nx h xs h" "b \<noteq> h" "b \<notin> set xs" "distinct (h # xs)"
  shows "path (nx(b := nx h, h := b)) h (b # xs) h"
  using assms by (cases xs) (auto simp: path_upd)

lemma path_link_back:
  assumes "path pv h (rev xs) h" "b \<noteq> h" "b \<notin> set xs" "distinct (h # xs)"
  shows "path (pv(b := h, hd (xs @ [h]) := b)) h (rev (b # xs)) h"
proof -
  have l: "hd (xs @ [h]) = last (h # rev xs)" by (cases xs) auto
  have "hd (xs @ [h]) \<noteq> b" using assms by (cases xs) auto
  moreover have "path (pv(b := h)) h (rev xs) h" using assms by (simp add: path_upd)
  then have "path ((pv(b := h))(last (h # rev xs) := b)) h (rev xs) b"
    using assms by (intro path_last) auto
  ultimately show ?thesis by (simp add: l path_append)
qed

section \<open>The list of buffers in order of use\<close>

definition nx_of :: "buf list \<Rightarrow> nat \<Rightarrow> nat" where "nx_of B b = bnext (B ! b)"
definition pv_of :: "buf list \<Rightarrow> nat \<Rightarrow> nat" where "pv_of B b = bprev (B ! b)"

text \<open>
  \<open>links B xs\<close>: the list through the buffers is \<open>xs\<close>, forwards and backwards. \<open>lru B xs\<close>: and it holds
  every buffer.
\<close>

definition links :: "buf list \<Rightarrow> nat list \<Rightarrow> bool" where
  "links B xs = (length B = Suc NBUF \<and> distinct xs \<and> set xs \<subseteq> {..<NBUF} \<and>
     path (nx_of B) HEAD xs HEAD \<and> path (pv_of B) HEAD (rev xs) HEAD)"

definition lru :: "buf list \<Rightarrow> nat list \<Rightarrow> bool" where
  "lru B xs = (links B xs \<and> set xs = {..<NBUF})"

lemma nx_upd: "i < length B \<Longrightarrow> nx_of (B[i := x]) = (nx_of B)(i := bnext x)"
  by (auto simp: nx_of_def fun_eq_iff nth_list_update)

lemma pv_upd: "i < length B \<Longrightarrow> pv_of (B[i := x]) = (pv_of B)(i := bprev x)"
  by (auto simp: pv_of_def fun_eq_iff nth_list_update)

lemma links_facts:
  assumes "links B xs"
  shows "HEAD \<notin> set xs" "distinct (HEAD # xs)" "HEAD < length B" "length B = Suc NBUF"
    "\<And>b. b \<in> set xs \<Longrightarrow> b < length B"
  using assms by (auto simp: links_def HEAD_def)

lemma lru_length: "lru B xs \<Longrightarrow> length xs = NBUF"
  using distinct_card [of xs] by (auto simp: lru_def links_def)

lemma path_hd: "path nx a xs z \<Longrightarrow> nx a = hd (xs @ [z])"
  by (cases xs) auto

lemma links_pv_nx:
  assumes "links B (ys @ b # zs)"
  shows "pv_of B b = last (HEAD # ys)" "nx_of B b = last (HEAD # rev zs)"
proof -
  have "path (pv_of B) b (rev ys) HEAD" "path (nx_of B) b zs HEAD"
    using assms by (auto simp: links_def path_append)
  then show "pv_of B b = last (HEAD # ys)" "nx_of B b = last (HEAD # rev zs)"
    by (auto dest!: path_hd simp: hd_append hd_rev last_rev)
qed

definition core :: "buf \<Rightarrow> buf" where
  "core x = x\<lparr>bprev := 0, bnext := 0\<rparr>"

definition same_core :: "buf list \<Rightarrow> buf list \<Rightarrow> bool" where
  "same_core B C = (length C = length B \<and> (\<forall>b < length B. core (C ! b) = core (B ! b)))"

lemma same_coreD:
  assumes "same_core B C" "b < length B"
  shows "bvalid (C ! b) = bvalid (B ! b)" "bdirty (C ! b) = bdirty (B ! b)" "bdev (C ! b) = bdev (B ! b)"
    "blockno (C ! b) = blockno (B ! b)" "brefcnt (C ! b) = brefcnt (B ! b)" "bdata (C ! b) = bdata (B ! b)"
proof -
  have "core (C ! b) = core (B ! b)" using assms by (simp add: same_core_def)
  then show "bvalid (C ! b) = bvalid (B ! b)" "bdirty (C ! b) = bdirty (B ! b)" "bdev (C ! b) = bdev (B ! b)"
    "blockno (C ! b) = blockno (B ! b)" "brefcnt (C ! b) = brefcnt (B ! b)" "bdata (C ! b) = bdata (B ! b)"
    by (cases "C ! b", cases "B ! b", simp add: core_def)+
qed

definition unlinked :: "nat \<Rightarrow> buf list \<Rightarrow> buf list" where
  "unlinked b B = (let x = B ! b; B1 = B[bnext x := (B ! bnext x)\<lparr>bprev := bprev x\<rparr>] in
     B1[bprev x := (B1 ! bprev x)\<lparr>bnext := bnext x\<rparr>])"

definition fronted :: "nat \<Rightarrow> buf list \<Rightarrow> buf list" where
  "fronted b B = (let h = B ! HEAD; B1 = B[b := (B ! b)\<lparr>bnext := bnext h, bprev := HEAD\<rparr>];
     B2 = B1[bnext h := (B1 ! bnext h)\<lparr>bprev := b\<rparr>] in B2[HEAD := (B2 ! HEAD)\<lparr>bnext := b\<rparr>])"

lemma link_front_run:
  "link_front b s = Ok () (s\<lparr>bufs := fronted b (bufs s)\<rparr>)"
  by (cases "b < length (bufs s)")
    (simp_all add: link_front_def kdefs getbuf_def set_buf_def fronted_def Let_def list_update_beyond)

lemma nx_of_same: "nx_of (B[i := (B ! i)\<lparr>bprev := v\<rparr>]) = nx_of B"
  by (cases "i < length B") (auto simp: nx_of_def fun_eq_iff nth_list_update list_update_beyond)

lemma pv_of_same: "pv_of (B[i := (B ! i)\<lparr>bnext := v\<rparr>]) = pv_of B"
  by (cases "i < length B") (auto simp: pv_of_def fun_eq_iff nth_list_update list_update_beyond)

lemma nx_unlinked: "bprev (B ! b) < length B \<Longrightarrow> nx_of (unlinked b B) = (nx_of B)(pv_of B b := nx_of B b)"
  by (simp add: unlinked_def Let_def nx_upd nx_of_same pv_of_def) (simp add: nx_of_def)

lemma pv_unlinked: "bnext (B ! b) < length B \<Longrightarrow> pv_of (unlinked b B) = (pv_of B)(nx_of B b := pv_of B b)"
  by (simp add: unlinked_def Let_def pv_upd pv_of_same nx_of_def) (simp add: pv_of_def)

lemma links_neighbours:
  assumes "links B (ys @ b # zs)"
  shows "bprev (B ! b) < length B" "bnext (B ! b) < length B"
proof -
  note f = links_facts [OF assms] and pn = links_pv_nx [OF assms]
  have "last (HEAD # ys) \<in> insert HEAD (set ys)" "last (HEAD # rev zs) \<in> insert HEAD (set zs)"
    by (metis last_in_set list.distinct(1) list.set(2)) (metis last_in_set list.distinct(1) list.set(2) set_rev)
  then show "bprev (B ! b) < length B" "bnext (B ! b) < length B"
    using pn f(3,5) by (auto simp: pv_of_def nx_of_def)
qed

lemma links_unlinked:
  assumes "links B (ys @ b # zs)"
  shows "links (unlinked b B) (ys @ zs)"
proof -
  note n = links_neighbours [OF assms] and pn = links_pv_nx [OF assms] and f = links_facts [OF assms]
  have "path (nx_of (unlinked b B)) HEAD (ys @ zs) HEAD"
    using path_unlink [of "nx_of B" HEAD ys b zs] assms f(2) n pn
    by (simp add: nx_unlinked links_def)
  moreover have "path (pv_of (unlinked b B)) HEAD (rev zs @ rev ys) HEAD"
    using path_unlink [of "pv_of B" HEAD "rev zs" b "rev ys"] assms f(1,2) n pn
    by (simp add: pv_unlinked links_def Int_commute conj_commute)
  ultimately show ?thesis
    using assms by (auto simp: links_def unlinked_def Let_def)
qed

lemma links_fronted:
  assumes "links B xs" "b < NBUF" "b \<notin> set xs"
  shows "links (fronted b B) (b # xs)"
proof -
  note f = links_facts [OF assms(1)]
  have b: "b < length B" "b \<noteq> HEAD" using assms by (auto simp: links_def HEAD_def)
  have h: "nx_of B HEAD = hd (xs @ [HEAD])" using assms(1) by (auto simp: links_def dest: path_hd)
  then have hl: "bnext (B ! HEAD) < length B" using f by (cases xs) (auto simp: nx_of_def)
  have hb: "bnext (B ! HEAD) \<noteq> b" using h assms(3) b by (cases xs) (auto simp: nx_of_def)
  have "nx_of (fronted b B) = (nx_of B)(b := nx_of B HEAD, HEAD := b)"
    using b f(3) hl hb by (simp add: fronted_def Let_def nx_upd) (auto simp: nx_of_def fun_eq_iff nth_list_update)
  moreover have "pv_of (fronted b B) = (pv_of B)(b := HEAD, hd (xs @ [HEAD]) := b)"
    using b f(3) hl hb h by (simp add: fronted_def Let_def pv_upd) (auto simp: pv_of_def nx_of_def fun_eq_iff nth_list_update)
  ultimately show ?thesis
    using assms f path_link [of "nx_of B" HEAD xs b] path_link_back [of "pv_of B" HEAD xs b] b
    by (simp add: links_def fronted_def Let_def)
qed

lemma same_core_refl [simp]: "same_core B B"
  by (simp add: same_core_def)

lemma same_core_trans: "same_core A B \<Longrightarrow> same_core B C \<Longrightarrow> same_core A C"
  by (simp add: same_core_def)

lemma same_core_upd: "core x = core (B ! i) \<Longrightarrow> same_core B (B[i := x])"
  by (simp add: same_core_def) (metis list_update_beyond nth_list_update not_le)

lemma same_core_fronted: "same_core B (fronted b B)"
  unfolding fronted_def Let_def
  by (intro same_core_trans [OF same_core_trans [OF same_core_upd same_core_upd] same_core_upd])
    (simp_all add: core_def)

lemma same_core_unlinked: "same_core B (unlinked b B)"
  unfolding unlinked_def Let_def
  by (intro same_core_trans [OF same_core_upd same_core_upd]) (simp_all add: core_def)

lemma lru_move_front:
  assumes "lru B xs" "b < NBUF"
  shows "lru (fronted b (unlinked b B)) (b # remove1 b xs)"
proof -
  obtain ys zs where xs: "xs = ys @ b # zs" using assms by (metis lessThan_iff lru_def split_list)
  then have d: "b \<notin> set (ys @ zs)" "remove1 b xs = ys @ zs"
    using assms(1) by (auto simp: lru_def links_def remove1_append)
  have "links (unlinked b B) (ys @ zs)" using assms(1) xs by (intro links_unlinked) (simp add: lru_def)
  from links_fronted [OF this assms(2) d(1)] show ?thesis
    using assms(1) xs d by (auto simp: lru_def)
qed

lemma bwalk_run:
  assumes "path (\<lambda>b. nx (bufs s ! b)) a xs HEAD" "HEAD \<notin> set xs" "length xs < fuel"
  shows "bwalk fuel nx p (nx (bufs s ! a)) s = Ok (find (\<lambda>b. p (bufs s ! b)) xs) s"
  using assms
proof (induction xs arbitrary: a fuel)
  case Nil
  then show ?case by (cases fuel) auto
next
  case (Cons x xs)
  then obtain f where "fuel = Suc f" by (cases fuel) auto
  with Cons show ?case by (auto simp: getbuf_def)
qed

section \<open>The cache as its clients see it\<close>

text \<open>The contents of block \<open>k\<close> of the disk: the cached copy when there is a valid one.\<close>

definition caches :: "nat \<Rightarrow> buf \<Rightarrow> bool" where
  "caches k x = (bdev x = ROOTDEV \<and> blockno x = k)"

definition cached_at :: "'z kbio_scheme \<Rightarrow> nat \<Rightarrow> nat option" where
  "cached_at s k = find_index (\<lambda>x. caches k x \<and> bvalid x) (take NBUF (bufs s))"

definition content :: "'z kbio_scheme \<Rightarrow> nat \<Rightarrow> byte list" where
  "content s k = (case cached_at s k of Some b \<Rightarrow> bdata (bufs s ! b) | None \<Rightarrow> disk s k)"

text \<open>
  The cache's invariant while exactly the buffers in \<open>L\<close> are in use: locks and reference counts
  agree with \<open>L\<close>, a block has at most one buffer, a clean unlocked buffer holds what the disk holds,
  and a dirty buffer is valid.
\<close>

definition bufs_held :: "nat set \<Rightarrow> 'z kbio_scheme \<Rightarrow> bool" where
  "bufs_held L s = (L \<subseteq> {..<NBUF} \<and> (\<forall>b < NBUF. (slocked s (BufLk b) \<noteq> 0 \<longleftrightarrow> b \<in> L) \<and>
     brefcnt (bufs s ! b) = (if b \<in> L then 1 else 0)))"

definition bufs_unique :: "buf list \<Rightarrow> bool" where
  "bufs_unique B = (\<forall>b < NBUF. \<forall>c < NBUF. \<forall>k. caches k (B ! b) \<and> caches k (B ! c) \<longrightarrow> b = c)"

definition buf_ok :: "nat \<Rightarrow> (nat \<Rightarrow> byte list) \<Rightarrow> bool \<Rightarrow> buf \<Rightarrow> bool" where
  "buf_ok n d inuse x =
     ((bdirty x \<longrightarrow> bvalid x \<and> bdev x = ROOTDEV) \<and>
      (bvalid x \<and> bdev x = ROOTDEV \<longrightarrow> blockno x < n \<and> length (bdata x) = BSIZE) \<and>
      (bvalid x \<and> bdev x = ROOTDEV \<and> \<not> bdirty x \<and> \<not> inuse \<longrightarrow> bdata x = d (blockno x)))"

definition bio_ok :: "nat set \<Rightarrow> 'z kbio_scheme \<Rightarrow> bool" where
  "bio_ok L s = ((\<exists>xs. lru (bufs s) xs) \<and> bufs_held L s \<and> bufs_unique (bufs s) \<and>
     (\<forall>b < NBUF. buf_ok (disksize s) (disk s) (b \<in> L) (bufs s ! b)) \<and> (\<forall>k. length (disk s k) = BSIZE))"

text \<open>A process runs in the kernel and holds no spinlock.\<close>

definition quiet :: "'z kproc_scheme \<Rightarrow> bool" where
  "quiet s = (held s = {} \<and> curproc s \<noteq> None)"

definition woke_only :: "proc list \<Rightarrow> proc list \<Rightarrow> bool" where
  "woke_only P Q = (length Q = length P \<and> (\<forall>i < length P. Q ! i = P ! i \<or>
     state (P ! i) = SLEEPING \<and> Q ! i = (P ! i)\<lparr>state := RUNNABLE\<rparr>))"

lemma woke_only_refl [simp]: "woke_only P P"
  by (simp add: woke_only_def)

lemma woke_only_trans: "woke_only P Q \<Longrightarrow> woke_only Q R \<Longrightarrow> woke_only P R"
  by (fastforce simp: woke_only_def)

lemma woke_only_woken [simp]: "woke_only P (map (woken ch) P)"
  by (simp add: woke_only_def woken_def)

text \<open>What a cache operation leaves alone: everything but locks, buffers, the disk, and sleepers.\<close>

definition bio_frame :: "'z kbio_scheme \<Rightarrow> 'z kbio_scheme \<Rightarrow> bool" where
  "bio_frame s t = (\<exists>pt sl sp B d w. woke_only (ptable s) pt \<and>
     t = s\<lparr>ptable := pt, slocked := sl, slpid := sp, bufs := B, disk := d, writes := w\<rparr>)"

lemma bio_frameI:
  "woke_only (ptable s) pt \<Longrightarrow> bio_frame s (s\<lparr>ptable := pt, slocked := sl, slpid := sp, bufs := B, disk := d, writes := w\<rparr>)"
  unfolding bio_frame_def by blast

lemma bio_frame_refl [simp]: "bio_frame s s"
  using bio_frameI [of s "ptable s", where sl = "slocked s" and sp = "slpid s" and B = "bufs s"
      and d = "disk s" and w = "writes s"] by simp

lemma bio_frame_trans: "bio_frame s t \<Longrightarrow> bio_frame t u \<Longrightarrow> bio_frame s u"
  by (clarsimp simp: bio_frame_def) (blast intro: woke_only_trans)

lemma bio_frameD:
  assumes "bio_frame s t"
  shows "held t = held s" "curproc t = curproc s" "disksize t = disksize s" "kbio.more t = kbio.more s"
    "mem t = mem s" "quiet t = quiet s" "woke_only (ptable s) (ptable t)"
  using assms by (auto simp: bio_frame_def quiet_def)

lemma bio_ok_length: "bio_ok L s \<Longrightarrow> length (bufs s) = Suc NBUF"
  by (auto simp: bio_ok_def lru_def links_def)

lemma find_index_take:
  assumes "NBUF \<le> length B"
  shows "find_index p (take NBUF B) = Some b \<longleftrightarrow> b < NBUF \<and> p (B ! b) \<and> (\<forall>c < b. \<not> p (B ! c))"
  using assms by (auto simp: find_index_Some)

lemma content_cached:
  assumes "bio_ok L s" "b < NBUF" "caches k (bufs s ! b)" "bvalid (bufs s ! b)"
  shows "cached_at s k = Some b" "content s k = bdata (bufs s ! b)"
proof -
  have u: "c = b" if "c < NBUF" "caches k (bufs s ! c)" for c
    using assms that unfolding bio_ok_def bufs_unique_def by blast
  have "bufs s ! b \<in> set (take NBUF (bufs s))"
    using assms(2) bio_ok_length [OF assms(1)] by (auto simp: in_set_conv_nth intro!: exI [of _ b])
  then have "cached_at s k \<noteq> None"
    using assms(3,4) by (auto simp: cached_at_def find_index_None)
  then obtain c where c: "cached_at s k = Some c" by blast
  then have "c < NBUF" "caches k (bufs s ! c)"
    using bio_ok_length [OF assms(1)] by (auto simp: cached_at_def find_index_take)
  with u c show "cached_at s k = Some b" by auto
  then show "content s k = bdata (bufs s ! b)" by (simp add: content_def)
qed

lemma content_uncached:
  assumes "bio_ok L s" "\<And>b. b < NBUF \<Longrightarrow> \<not> (caches k (bufs s ! b) \<and> bvalid (bufs s ! b))"
  shows "content s k = disk s k"
proof -
  have "cached_at s k = None"
    using assms bio_ok_length [OF assms(1)]
    by (auto simp: cached_at_def find_index_None in_set_conv_nth)
  then show ?thesis by (simp add: content_def)
qed

lemma find_index_map: "find_index p xs = find_index (\<lambda>x. x) (map p xs)"
  by (induction xs) auto

text \<open>The contents of a block depend on what the buffers cache and on the disk only.\<close>

lemma content_cong:
  assumes "length (bufs s) = Suc NBUF" "length (bufs t) = Suc NBUF" "disk t k = disk s k"
    and "\<And>b. b < NBUF \<Longrightarrow> (caches k (bufs t ! b) \<and> bvalid (bufs t ! b)) = (caches k (bufs s ! b) \<and> bvalid (bufs s ! b)) \<and>
      (caches k (bufs s ! b) \<and> bvalid (bufs s ! b) \<longrightarrow> bdata (bufs t ! b) = bdata (bufs s ! b))"
  shows "content t k = content s k"
proof -
  have "map (\<lambda>x. caches k x \<and> bvalid x) (take NBUF (bufs t)) = map (\<lambda>x. caches k x \<and> bvalid x) (take NBUF (bufs s))"
    using assms by (intro nth_equalityI) auto
  then have "cached_at t k = cached_at s k"
    unfolding cached_at_def by (metis find_index_map)
  moreover have "bdata (bufs t ! b) = bdata (bufs s ! b)" if "cached_at s k = Some b" for b
    using that assms by (auto simp: cached_at_def find_index_take)
  ultimately show ?thesis using assms(3) by (auto simp: content_def split: option.splits)
qed

lemma brelse_last:
  assumes xs: "lru (bufs s) xs" and q: "quiet s" and b: "b < NBUF" "slocked s (BufLk b) \<noteq> 0" "brefcnt (bufs s ! b) = 1"
  shows "\<exists>C. brelse b s = Ok () (s\<lparr>ptable := map (woken (Some (BufLockChan b))) (ptable s),
      slocked := (slocked s)(BufLk b := 0), slpid := (slpid s)(BufLk b := 0), bufs := C\<rparr>) \<and>
    lru C (b # remove1 b xs) \<and> same_core ((bufs s)[b := (bufs s ! b)\<lparr>brefcnt := 0\<rparr>]) C"
proof -
  have len: "length (bufs s) = Suc NBUF" using xs by (simp add: lru_def links_def)
  let ?B = "(bufs s)[b := (bufs s ! b)\<lparr>brefcnt := 0\<rparr>]"
  let ?C = "fronted b (unlinked b ?B)"
  have sc: "same_core ?B ?C" by (intro same_core_trans [OF same_core_unlinked same_core_fronted])
  have "nx_of ?B = nx_of (bufs s)" "pv_of ?B = pv_of (bufs s)"
    using b len by (auto simp: nx_of_def pv_of_def fun_eq_iff nth_list_update)
  then have "lru ?B xs" using xs by (simp add: lru_def links_def)
  then have lru: "lru ?C (b # remove1 b xs)" using b(1) by (rule lru_move_front)
  have "brelse b s = Ok () (s\<lparr>ptable := map (woken (Some (BufLockChan b))) (ptable s),
      slocked := (slocked s)(BufLk b := 0), slpid := (slpid s)(BufLk b := 0), bufs := ?C\<rparr>)"
    using q b len
    by (simp add: brelse_def kdefs holdingsleep_run releasesleep_run quiet_def getbuf_def set_buf_def
        link_front_run unlinked_def Let_def held_restore)
  with lru sc show ?thesis by blast
qed

lemma brelse_run:
  assumes "bio_ok L s" "quiet s" "b \<in> L"
    and clean: "\<not> bdirty (bufs s ! b) \<Longrightarrow> bvalid (bufs s ! b) \<Longrightarrow> bdev (bufs s ! b) = ROOTDEV \<Longrightarrow>
      bdata (bufs s ! b) = disk s (blockno (bufs s ! b))"
  shows "\<exists>t. brelse b s = Ok () t \<and> bio_ok (L - {b}) t \<and> bio_frame s t \<and> disk t = disk s \<and> writes t = writes s \<and>
    (\<forall>c < NBUF. core (bufs t ! c) = core ((bufs s ! c)\<lparr>brefcnt := (if c = b then 0 else brefcnt (bufs s ! c))\<rparr>))"
proof -
  have b: "b < NBUF" "slocked s (BufLk b) \<noteq> 0" "brefcnt (bufs s ! b) = 1"
    using assms(1,3) by (auto simp: bio_ok_def bufs_held_def)
  obtain xs where xs: "lru (bufs s) xs" using assms(1) by (auto simp: bio_ok_def)
  have len: "length (bufs s) = Suc NBUF" using bio_ok_length [OF assms(1)] .
  let ?B = "(bufs s)[b := (bufs s ! b)\<lparr>brefcnt := 0\<rparr>]"
  obtain C where run: "brelse b s = Ok () (s\<lparr>ptable := map (woken (Some (BufLockChan b))) (ptable s),
      slocked := (slocked s)(BufLk b := 0), slpid := (slpid s)(BufLk b := 0), bufs := C\<rparr>)"
    and lru: "lru C (b # remove1 b xs)" and sc: "same_core ?B C"
    using brelse_last [OF xs assms(2) b] by blast
  let ?t = "s\<lparr>ptable := map (woken (Some (BufLockChan b))) (ptable s), slocked := (slocked s)(BufLk b := 0),
    slpid := (slpid s)(BufLk b := 0), bufs := C\<rparr>"
  have bc: "?B ! c = (if c = b then (bufs s ! b)\<lparr>brefcnt := 0\<rparr> else bufs s ! c)" for c
    using b len by (simp add: nth_list_update)
  have c: "bvalid (C ! c) = bvalid (bufs s ! c)" "bdirty (C ! c) = bdirty (bufs s ! c)"
    "bdev (C ! c) = bdev (bufs s ! c)" "blockno (C ! c) = blockno (bufs s ! c)" "bdata (C ! c) = bdata (bufs s ! c)"
    "brefcnt (C ! c) = (if c = b then 0 else brefcnt (bufs s ! c))"
    "core (C ! c) = core (?B ! c)" if "c < NBUF" for c
    using same_coreD [OF sc, of c] sc that len bc [of c] by (simp_all add: same_core_def)
  have "bio_ok (L - {b}) ?t"
    unfolding bio_ok_def
  proof (intro conjI allI impI)
    show "\<exists>xs. lru (bufs ?t) xs" using lru by auto
    show "bufs_held (L - {b}) ?t" using assms(1) c b by (auto simp: bio_ok_def bufs_held_def)
    show "bufs_unique (bufs ?t)" using assms(1) c by (simp add: bio_ok_def bufs_unique_def caches_def)
    fix k
    show "length (disk ?t k) = BSIZE" using assms(1) by (simp add: bio_ok_def)
  next
    fix e
    assume "e < NBUF"
    then show "buf_ok (disksize ?t) (disk ?t) (e \<in> L - {b}) (bufs ?t ! e)"
      using assms(1) c [of e] clean by (auto simp: bio_ok_def buf_ok_def)
  qed
  moreover have "bio_frame s ?t"
    using bio_frameI [of s "ptable ?t", where d = "disk s" and w = "writes s"] by simp
  moreover have "core (C ! e) = core ((bufs s ! e)\<lparr>brefcnt := (if e = b then 0 else brefcnt (bufs s ! e))\<rparr>)" if "e < NBUF" for e
    using c(7) [OF that] bc [of e] by simp
  ultimately show ?thesis using run by (intro exI [of _ ?t]) simp
qed

text \<open>Blocks that the log has pinned in the cache.\<close>

definition pinned :: "'z kbio_scheme \<Rightarrow> nat set" where
  "pinned s = {blockno (bufs s ! b) |b. b < NBUF \<and> bdirty (bufs s ! b)}"

lemma pinned_finite [simp]: "finite (pinned s)"
  by (auto simp: pinned_def)

lemma pinned_iff: "j \<in> pinned s \<longleftrightarrow> (\<exists>b < NBUF. bdirty (bufs s ! b) \<and> j = blockno (bufs s ! b))"
  by (auto simp: pinned_def)

lemma free_buffer:
  assumes "bio_ok L s" "card L + card (pinned s) < NBUF"
  shows "\<exists>b < NBUF. b \<notin> L \<and> \<not> bdirty (bufs s ! b)"
proof (rule ccontr)
  assume no: "\<not> ?thesis"
  let ?D = "{b. b < NBUF \<and> bdirty (bufs s ! b)}"
  have fin: "finite L" using assms(1) by (auto simp: bio_ok_def bufs_held_def intro: finite_subset)
  have "inj_on (\<lambda>b. blockno (bufs s ! b)) ?D"
    using assms(1) by (auto simp: inj_on_def bio_ok_def buf_ok_def bufs_unique_def caches_def)
  moreover have "(\<lambda>b. blockno (bufs s ! b)) ` ?D = pinned s" by (auto simp: pinned_def)
  ultimately have "card ?D = card (pinned s)" by (metis card_image)
  moreover have "{..<NBUF} \<subseteq> L \<union> ?D" using no by auto
  then have "NBUF \<le> card (L \<union> ?D)" using fin card_mono [of "L \<union> ?D" "{..<NBUF}"] by simp
  moreover have "card (L \<union> ?D) \<le> card L + card ?D" by (rule card_Un_le)
  ultimately show False using assms(2) by simp
qed

definition locked_buf :: "nat \<Rightarrow> int \<Rightarrow> buf \<Rightarrow> 'z kbio_scheme \<Rightarrow> 'z kbio_scheme" where
  "locked_buf b p x s = s\<lparr>bufs := (bufs s)[b := x], slocked := (slocked s)(BufLk b := 1), slpid := (slpid s)(BufLk b := p)\<rparr>"

lemma nx_pv_lambda: "(\<lambda>b. bnext (B ! b)) = nx_of B" "(\<lambda>b. bprev (B ! b)) = pv_of B"
  by (simp_all add: nx_of_def pv_of_def fun_eq_iff)

lemma bwalk_next:
  assumes "lru (bufs s) xs"
  shows "bwalk (NBUF + 1) bnext p (bnext (bufs s ! HEAD)) s = Ok (find (\<lambda>b. p (bufs s ! b)) xs) s"
  using assms lru_length [OF assms] links_facts(1) [of "bufs s" xs]
  by (intro bwalk_run) (auto simp: lru_def links_def nx_pv_lambda)

lemma bwalk_prev:
  assumes "lru (bufs s) xs"
  shows "bwalk (NBUF + 1) bprev p (bprev (bufs s ! HEAD)) s = Ok (find (\<lambda>b. p (bufs s ! b)) (rev xs)) s"
  using assms lru_length [OF assms] links_facts(1) [of "bufs s" xs]
  by (intro bwalk_run) (auto simp: lru_def links_def nx_pv_lambda)

lemma held_same: "held s = H \<Longrightarrow> s\<lparr>held := H\<rparr> = s"
  by simp

lemma lock_new_buf:
  assumes "quiet s"
  shows "\<exists>p. thn (set_buf b f) (thn (release LBcache) (thn (acquiresleep (BufLk b)) (ret b))) (s\<lparr>held := {LBcache}\<rparr>) =
    (if slocked s (BufLk b) = 0 then Ok b (locked_buf b p (f (bufs s ! b)) s)
     else thn (acquiresleep (BufLk b)) (ret b) (s\<lparr>bufs := (bufs s)[b := f (bufs s ! b)]\<rparr>))"
proof -
  obtain i where "curproc s = Some i" "held s = {}" using assms by (auto simp: quiet_def)
  then show ?thesis
    by (intro exI [of _ "pid (ptable s ! i)"])
      (simp add: set_buf_def thn_Ok [OF release_held] thn_Ok [OF acquiresleep_free [where i = i]] locked_buf_def held_same)
qed

lemma bget_hit:
  assumes "lru (bufs s) xs" "quiet s" "find (\<lambda>b. caches k (bufs s ! b)) xs = Some b" "slocked s (BufLk b) = 0"
  shows "\<exists>p. bget ROOTDEV k s = Ok b (locked_buf b p ((bufs s ! b)\<lparr>brefcnt := brefcnt (bufs s ! b) + 1\<rparr>) s)"
proof -
  let ?s = "s\<lparr>held := {LBcache}\<rparr>"
  have a: "acquire LBcache s = Ok () ?s" using assms(2) by (simp add: quiet_def)
  have w: "bwalk (NBUF + 1) bnext (\<lambda>x. bdev x = ROOTDEV \<and> blockno x = k) (bnext (bufs ?s ! HEAD)) ?s = Ok (Some b) ?s"
    using bwalk_next [of ?s xs "caches k"] assms(1,3) unfolding caches_def by simp
  have "bget ROOTDEV k s = thn (set_buf b (\<lambda>x. x\<lparr>brefcnt := brefcnt x + 1\<rparr>))
      (thn (release LBcache) (thn (acquiresleep (BufLk b)) (ret b))) ?s"
    by (simp only: bget_def thn_def bnd_def getbuf_def gets_def a w outcome.case option.case)
  then show ?thesis using lock_new_buf [OF assms(2), of b] assms(4) by simp
qed

lemma bget_miss:
  assumes "lru (bufs s) xs" "quiet s" "find (\<lambda>b. caches k (bufs s ! b)) xs = None"
    and "find (\<lambda>b. brefcnt (bufs s ! b) = 0 \<and> \<not> bdirty (bufs s ! b)) (rev xs) = Some b" "slocked s (BufLk b) = 0"
  shows "\<exists>p. bget ROOTDEV k s = Ok b (locked_buf b p
    ((bufs s ! b)\<lparr>bdev := ROOTDEV, blockno := k, bvalid := False, bdirty := False, brefcnt := 1\<rparr>) s)"
proof -
  let ?s = "s\<lparr>held := {LBcache}\<rparr>"
  have a: "acquire LBcache s = Ok () ?s" using assms(2) by (simp add: quiet_def)
  have w: "bwalk (NBUF + 1) bnext (\<lambda>x. bdev x = ROOTDEV \<and> blockno x = k) (bnext (bufs ?s ! HEAD)) ?s = Ok None ?s"
    using bwalk_next [of ?s xs "caches k"] assms(1,3) unfolding caches_def by simp
  have v: "bwalk (NBUF + 1) bprev (\<lambda>x. brefcnt x = 0 \<and> \<not> bdirty x) (bprev (bufs ?s ! HEAD)) ?s = Ok (Some b) ?s"
    using bwalk_prev [of ?s xs "\<lambda>x. brefcnt x = 0 \<and> \<not> bdirty x"] assms(1,4) by simp
  have "bget ROOTDEV k s = thn (set_buf b (\<lambda>x. x\<lparr>bdev := ROOTDEV, blockno := k, bvalid := False, bdirty := False, brefcnt := 1\<rparr>))
      (thn (release LBcache) (thn (acquiresleep (BufLk b)) (ret b))) ?s"
    by (simp only: bget_def thn_def bnd_def getbuf_def gets_def a w v outcome.case option.case)
  then show ?thesis using lock_new_buf [OF assms(2), of b] assms(5) by simp
qed

lemma iderw_read:
  assumes "quiet s" "slocked s (BufLk b) \<noteq> 0" "b < length (bufs s)" "\<not> bvalid (bufs s ! b)" "\<not> bdirty (bufs s ! b)"
    "bdev (bufs s ! b) = ROOTDEV" "blockno (bufs s ! b) < disksize s"
  shows "iderw b s = Ok () (s\<lparr>bufs := (bufs s)[b := (bufs s ! b)\<lparr>bdata := disk s (blockno (bufs s ! b)), bvalid := True\<rparr>]\<rparr>)"
  using assms by (simp add: iderw_def kdefs holdingsleep_run quiet_def getbuf_def set_buf_def ROOTDEV_def)

lemma iderw_write:
  assumes "quiet s" "slocked s (BufLk b) \<noteq> 0" "b < length (bufs s)" "bdirty (bufs s ! b)"
    "bdev (bufs s ! b) = ROOTDEV" "blockno (bufs s ! b) < disksize s"
  shows "iderw b s = Ok () (s\<lparr>bufs := (bufs s)[b := (bufs s ! b)\<lparr>bdirty := False, bvalid := True\<rparr>],
    disk := (disk s)(blockno (bufs s ! b) := bdata (bufs s ! b)),
    writes := writes s @ [(blockno (bufs s ! b), bdata (bufs s ! b))]\<rparr>)"
  using assms by (simp add: iderw_def kdefs holdingsleep_run quiet_def getbuf_def set_buf_def ROOTDEV_def)

text \<open>The buffer that \<open>bread\<close> hands out, as a value: valid, locked, holding the block's contents.\<close>

definition fetched :: "nat \<Rightarrow> nat \<Rightarrow> buf \<Rightarrow> 'z kbio_scheme \<Rightarrow> bool" where
  "fetched k b y s = (let x = bufs s ! b in
     caches k y \<and> bvalid y \<and> brefcnt y = 1 \<and> bdata y = content s k \<and> bdirty y = bdirty x \<and>
     (bdirty y \<longrightarrow> caches k x) \<and> bnext y = bnext x \<and> bprev y = bprev x \<and>
     (\<forall>c < NBUF. c \<noteq> b \<longrightarrow> \<not> caches k (bufs s ! c)) \<and>
     (\<forall>j. j \<noteq> k \<longrightarrow> caches j x \<longrightarrow> bvalid x \<longrightarrow> bdata x = disk s j))"

lemma bread_after:
  assumes "bget ROOTDEV k s = Ok b (locked_buf b p y s)" "quiet s" "b < length (bufs s)" "caches k y"
    "bvalid y \<or> \<not> bdirty y" "k < disksize s"
  shows "bread ROOTDEV k s = Ok b (locked_buf b p (if bvalid y then y else y\<lparr>bdata := disk s k, bvalid := True\<rparr>) s)"
proof -
  let ?t = "locked_buf b p y s"
  have t: "quiet ?t" "slocked ?t (BufLk b) \<noteq> 0" "b < length (bufs ?t)" "bufs ?t ! b = y" "disksize ?t = disksize s"
    "disk ?t = disk s"
    using assms(2,3) by (simp_all add: locked_buf_def quiet_def)
  show ?thesis
  proof (cases "bvalid y")
    case True
    then show ?thesis using assms(1) t by (simp add: bread_def kdefs getbuf_def)
  next
    case False
    then have "iderw b ?t = Ok () (?t\<lparr>bufs := (bufs ?t)[b := y\<lparr>bdata := disk s k, bvalid := True\<rparr>]\<rparr>)"
      using iderw_read [of ?t b] t assms(4-6) by (simp add: caches_def)
    then show ?thesis using assms(1,3) t False
      by (simp add: bread_def kdefs getbuf_def) (simp add: locked_buf_def)
  qed
qed

lemma bio_okD:
  assumes "bio_ok L s" "b < NBUF"
  shows "slocked s (BufLk b) \<noteq> 0 \<longleftrightarrow> b \<in> L" "brefcnt (bufs s ! b) = (if b \<in> L then 1 else 0)"
    "buf_ok (disksize s) (disk s) (b \<in> L) (bufs s ! b)"
    "c < NBUF \<Longrightarrow> caches k (bufs s ! b) \<Longrightarrow> caches k (bufs s ! c) \<Longrightarrow> b = c"
proof -
  show "slocked s (BufLk b) \<noteq> 0 \<longleftrightarrow> b \<in> L" "brefcnt (bufs s ! b) = (if b \<in> L then 1 else 0)"
    "buf_ok (disksize s) (disk s) (b \<in> L) (bufs s ! b)"
    using assms by (auto simp: bio_ok_def bufs_held_def)
  show "c < NBUF \<Longrightarrow> caches k (bufs s ! b) \<Longrightarrow> caches k (bufs s ! c) \<Longrightarrow> b = c"
    using assms unfolding bio_ok_def bufs_unique_def by blast
qed

lemma bread_hit:
  assumes ok: "bio_ok L s" and q: "quiet s" and k: "k < disksize s" and xs: "lru (bufs s) xs"
    and hit: "find (\<lambda>b. caches k (bufs s ! b)) xs = Some b" and nl: "b \<notin> L"
  shows "\<exists>p y. bread ROOTDEV k s = Ok b (locked_buf b p y s) \<and> b < NBUF \<and> fetched k b y s"
proof -
  have b: "b < NBUF" "caches k (bufs s ! b)"
    using find_Some_iff [of "\<lambda>b. caches k (bufs s ! b)" xs b] hit xs by (auto simp: lru_def)
  let ?y = "(bufs s ! b)\<lparr>brefcnt := brefcnt (bufs s ! b) + 1\<rparr>"
  let ?z = "if bvalid ?y then ?y else ?y\<lparr>bdata := disk s k, bvalid := True\<rparr>"
  obtain p where p: "bget ROOTDEV k s = Ok b (locked_buf b p ?y s)"
    using bget_hit [OF xs q hit] bio_okD(1) [OF ok b(1)] nl by auto
  have v: "bvalid ?y \<or> \<not> bdirty ?y" "caches k ?y"
    using bio_okD(3) [OF ok b(1)] b by (auto simp: buf_ok_def caches_def)
  have "bdata ?z = content s k"
  proof (cases "bvalid (bufs s ! b)")
    case True
    then show ?thesis using content_cached(2) [OF ok b] by simp
  next
    case False
    then have "content s k = disk s k" using bio_okD(4) [OF ok] b by (intro content_uncached [OF ok]) blast
    with False show ?thesis by simp
  qed
  moreover have "\<forall>c < NBUF. c \<noteq> b \<longrightarrow> \<not> caches k (bufs s ! c)"
    using b bio_okD(4) [OF ok b(1)] by blast
  ultimately have "fetched k b ?z s"
    using b nl bio_okD(2) [OF ok b(1)] by (simp add: fetched_def Let_def) (simp add: caches_def)
  moreover have "b < length (bufs s)" using b bio_ok_length [OF ok] by simp
  from bread_after [OF p q this v(2,1) k] have "bread ROOTDEV k s = Ok b (locked_buf b p ?z s)" .
  ultimately show ?thesis using b by blast
qed

lemma find_hit: "find p xs = Some b \<Longrightarrow> b \<in> set xs \<and> p b"
  by (induction xs) (auto split: if_splits)

lemma bread_miss:
  assumes ok: "bio_ok L s" and q: "quiet s" and k: "k < disksize s" and xs: "lru (bufs s) xs"
    and miss: "find (\<lambda>b. caches k (bufs s ! b)) xs = None" and room: "card L + card (pinned s) < NBUF"
  shows "\<exists>b p y. bread ROOTDEV k s = Ok b (locked_buf b p y s) \<and> b < NBUF \<and> b \<notin> L \<and> fetched k b y s"
proof -
  have set: "set xs = {..<NBUF}" using xs by (simp add: lru_def)
  have none: "\<not> caches k (bufs s ! c)" if "c < NBUF" for c using miss set that by (auto simp: find_None_iff)
  have "find (\<lambda>b. brefcnt (bufs s ! b) = 0 \<and> \<not> bdirty (bufs s ! b)) (rev xs) \<noteq> None"
    using free_buffer [OF ok room] bio_okD(2) [OF ok] set by (auto simp: find_None_iff)
  then obtain b where f: "find (\<lambda>b. brefcnt (bufs s ! b) = 0 \<and> \<not> bdirty (bufs s ! b)) (rev xs) = Some b" by auto
  then have b: "b < NBUF" "brefcnt (bufs s ! b) = 0" "\<not> bdirty (bufs s ! b)"
    using find_hit [OF f] set by auto
  then have nl: "b \<notin> L" using bio_okD(2) [OF ok b(1)] by auto
  let ?y = "(bufs s ! b)\<lparr>bdev := ROOTDEV, blockno := k, bvalid := False, bdirty := False, brefcnt := 1\<rparr>"
  obtain p where p: "bget ROOTDEV k s = Ok b (locked_buf b p ?y s)"
    using bget_miss [OF xs q miss f] bio_okD(1) [OF ok b(1)] nl by auto
  have "content s k = disk s k" using none by (intro content_uncached [OF ok]) auto
  then have "fetched k b (?y\<lparr>bdata := disk s k, bvalid := True\<rparr>) s"
    using b nl none bio_okD(3) [OF ok b(1)] by (auto simp: fetched_def Let_def caches_def buf_ok_def)
  moreover have "bread ROOTDEV k s = Ok b (locked_buf b p (?y\<lparr>bdata := disk s k, bvalid := True\<rparr>) s)"
    using bread_after [OF p q _ _ _ k] b bio_ok_length [OF ok] by (simp add: caches_def)
  ultimately show ?thesis using b nl by blast
qed

lemma bread_form:
  assumes "bio_ok L s" "quiet s" "\<And>b. b \<in> L \<Longrightarrow> \<not> caches k (bufs s ! b)" "k < disksize s"
    "card L + card (pinned s) < NBUF"
  shows "\<exists>b p y. bread ROOTDEV k s = Ok b (locked_buf b p y s) \<and> b < NBUF \<and> b \<notin> L \<and> fetched k b y s"
proof -
  obtain xs where xs: "lru (bufs s) xs" using assms(1) by (auto simp: bio_ok_def)
  show ?thesis
  proof (cases "find (\<lambda>b. caches k (bufs s ! b)) xs")
    case None
    then show ?thesis using bread_miss [OF assms(1,2,4) xs] assms(5) by blast
  next
    case (Some b)
    then have "caches k (bufs s ! b)" by (auto simp: find_Some_iff)
    then have "b \<notin> L" using assms(3) by auto
    then show ?thesis using bread_hit [OF assms(1,2,4) xs Some] by blast
  qed
qed

lemma locked_buf_simps [simp]:
  "disk (locked_buf b p y s) = disk s" "writes (locked_buf b p y s) = writes s"
  "disksize (locked_buf b p y s) = disksize s" "bufs (locked_buf b p y s) = (bufs s)[b := y]"
  by (simp_all add: locked_buf_def)

lemma locked_buf_frame: "bio_frame s (locked_buf b p y s)"
proof -
  have "locked_buf b p y s = s\<lparr>ptable := ptable s, slocked := (slocked s)(BufLk b := 1),
      slpid := (slpid s)(BufLk b := p), bufs := (bufs s)[b := y], disk := disk s, writes := writes s\<rparr>"
    by (cases s) (simp add: locked_buf_def)
  then show ?thesis by (simp only: bio_frameI woke_only_refl)
qed

lemma lru_upd:
  assumes "lru B xs" "bnext y = bnext (B ! b)" "bprev y = bprev (B ! b)"
  shows "lru (B[b := y]) xs"
proof (cases "b < length B")
  case True
  then have "nx_of (B[b := y]) = nx_of B" "pv_of (B[b := y]) = pv_of B"
    using assms by (auto simp: nx_upd pv_upd nx_of_def pv_of_def fun_eq_iff)
  with assms show ?thesis by (simp add: lru_def links_def)
qed (use assms in \<open>simp add: list_update_beyond\<close>)

text \<open>What \<open>bread\<close> gives its caller.\<close>

definition bread_post :: "nat set \<Rightarrow> nat \<Rightarrow> 'z kbio_scheme \<Rightarrow> nat \<Rightarrow> 'z kbio_scheme \<Rightarrow> bool" where
  "bread_post L k s b t = (b < NBUF \<and> b \<notin> L \<and> bio_ok (insert b L) t \<and> bio_frame s t \<and>
     disk t = disk s \<and> writes t = writes s \<and> caches k (bufs t ! b) \<and> bvalid (bufs t ! b) \<and>
     bdata (bufs t ! b) = content s k \<and> (bdirty (bufs t ! b) \<longleftrightarrow> k \<in> pinned s) \<and>
     content t = content s \<and> pinned t = pinned s \<and> (\<forall>c \<in> L. bufs t ! c = bufs s ! c))"

lemma fetched_bio_ok:
  assumes ok: "bio_ok L s" and b: "b < NBUF" "b \<notin> L" and k: "k < disksize s" and y: "fetched k b y s"
  shows "bio_ok (insert b L) (locked_buf b p y s)" (is "bio_ok _ ?t")
proof -
  have len: "length (bufs s) = Suc NBUF" using bio_ok_length [OF ok] .
  have nth: "bufs ?t ! c = (if c = b then y else bufs s ! c)" for c using b len by simp
  have lencon: "length (content s k) = BSIZE"
    using ok len by (auto simp: content_def cached_at_def find_index_take bio_ok_def buf_ok_def caches_def split: option.splits)
  show ?thesis
    unfolding bio_ok_def
  proof (intro conjI allI impI)
    obtain xs where "lru (bufs s) xs" using ok by (auto simp: bio_ok_def)
    then show "\<exists>xs. lru (bufs ?t) xs" using y by (auto simp: fetched_def Let_def intro!: lru_upd)
    show "bufs_held (insert b L) ?t"
      using ok b y nth by (auto simp: bio_ok_def bufs_held_def fetched_def Let_def locked_buf_def)
    have "d = e" if "d < NBUF" "e < NBUF" "caches j (bufs ?t ! d)" "caches j (bufs ?t ! e)" for d e j
      using that y nth [of d] nth [of e] bio_okD(4) [OF ok that(1,2), of j]
      by (auto simp: fetched_def Let_def caches_def split: if_splits)
    then show "bufs_unique (bufs ?t)" unfolding bufs_unique_def by blast
    show "length (disk ?t j) = BSIZE" for j using ok by (simp add: bio_ok_def)
  next
    fix c
    assume c: "c < NBUF"
    show "buf_ok (disksize ?t) (disk ?t) (c \<in> insert b L) (bufs ?t ! c)"
      using bio_okD(3) [OF ok c] y k lencon nth [of c] b
      by (auto simp: buf_ok_def fetched_def Let_def caches_def)
  qed
qed

lemma fetched_content:
  assumes ok: "bio_ok L s" and b: "b < NBUF" "b \<notin> L" and k: "k < disksize s" and y: "fetched k b y s"
  shows "content (locked_buf b p y s) j = content s j" (is "content ?t j = _")
proof -
  have len: "length (bufs s) = Suc NBUF" using bio_ok_length [OF ok] .
  have nth: "bufs ?t ! c = (if c = b then y else bufs s ! c)" for c using b len by simp
  have ok': "bio_ok (insert b L) ?t" using fetched_bio_ok [OF assms] .
  show ?thesis
  proof (cases "j = k")
    case True
    have "content ?t k = bdata (bufs ?t ! b)"
      using y nth [of b] by (intro content_cached(2) [OF ok' b(1)]) (auto simp: fetched_def Let_def)
    with True y nth [of b] show ?thesis by (simp add: fetched_def Let_def)
  next
    case False
    then have ny: "\<not> caches j y" using y by (simp add: fetched_def Let_def caches_def)
    show ?thesis
    proof (cases "caches j (bufs s ! b) \<and> bvalid (bufs s ! b)")
      case True
      then have "content s j = disk s j"
        using content_cached(2) [OF ok b(1)] y False by (auto simp: fetched_def Let_def)
      moreover have "content ?t j = disk ?t j"
      proof (rule content_uncached [OF ok'])
        fix c
        assume "c < NBUF"
        then show "\<not> (caches j (bufs ?t ! c) \<and> bvalid (bufs ?t ! c))"
          using nth [of c] bio_okD(4) [OF ok b(1), of c j] True ny by (cases "c = b") auto
      qed
      ultimately show ?thesis by simp
    next
      case no: False
      show ?thesis
      proof (rule content_cong)
        fix c
        assume "c < NBUF"
        show "(caches j (bufs ?t ! c) \<and> bvalid (bufs ?t ! c)) = (caches j (bufs s ! c) \<and> bvalid (bufs s ! c)) \<and>
          (caches j (bufs s ! c) \<and> bvalid (bufs s ! c) \<longrightarrow> bdata (bufs ?t ! c) = bdata (bufs s ! c))"
          using no ny nth [of c] by (cases "c = b") auto
      qed (use len in simp_all)
    qed
  qed
qed

lemma fetched_pinned:
  assumes ok: "bio_ok L s" and b: "b < NBUF" and y: "fetched k b y s"
  shows "pinned (locked_buf b p y s) = pinned s" "bdirty y \<longleftrightarrow> k \<in> pinned s"
proof -
  have len: "length (bufs s) = Suc NBUF" using bio_ok_length [OF ok] .
  have nth: "bufs (locked_buf b p y s) ! c = (if c = b then y else bufs s ! c)" for c using b len by simp
  have "(blockno (bufs (locked_buf b p y s) ! c), bdirty (bufs (locked_buf b p y s) ! c)) = (blockno (bufs s ! c), bdirty (bufs s ! c))
      \<or> \<not> bdirty (bufs (locked_buf b p y s) ! c) \<and> \<not> bdirty (bufs s ! c)" for c
    using nth [of c] y by (auto simp: fetched_def Let_def caches_def)
  then show "pinned (locked_buf b p y s) = pinned s"
    by (auto simp: pinned_def) metis+
  have "caches k (bufs s ! c)" if "c < NBUF" "bdirty (bufs s ! c)" "blockno (bufs s ! c) = k" for c
    using that bio_okD(3) [OF ok that(1)] by (auto simp: caches_def buf_ok_def)
  then show "bdirty y \<longleftrightarrow> k \<in> pinned s"
    using y b by (auto simp: pinned_def fetched_def Let_def caches_def)
qed

lemma bread_run:
  assumes "bio_ok L s" "quiet s" "\<And>b. b \<in> L \<Longrightarrow> \<not> caches k (bufs s ! b)" "k < disksize s"
    "card L + card (pinned s) < NBUF"
  shows "\<exists>b t. bread ROOTDEV k s = Ok b t \<and> bread_post L k s b t"
proof -
  obtain b p y where r: "bread ROOTDEV k s = Ok b (locked_buf b p y s)" and b: "b < NBUF" "b \<notin> L" and y: "fetched k b y s"
    using bread_form [OF assms] by blast
  have nth: "bufs (locked_buf b p y s) ! b = y" using b bio_ok_length [OF assms(1)] by simp
  have oth: "\<forall>c \<in> L. bufs (locked_buf b p y s) ! c = bufs s ! c"
    using b(2) by (metis locked_buf_simps(4) nth_list_update_neq)
  have "bread_post L k s b (locked_buf b p y s)"
    using b y nth fetched_bio_ok [OF assms(1) b assms(4) y] fetched_content [OF assms(1) b assms(4) y]
      fetched_pinned [OF assms(1) b(1) y] locked_buf_frame oth
    by (auto simp: bread_post_def fetched_def Let_def fun_eq_iff)
  with r show ?thesis by blast
qed

text \<open>Changing a buffer that the caller has locked, and the disk block it caches.\<close>

definition put_buf :: "nat \<Rightarrow> buf \<Rightarrow> (nat \<Rightarrow> byte list) \<Rightarrow> (nat \<times> byte list) list \<Rightarrow> 'z kbio_scheme \<Rightarrow> 'z kbio_scheme" where
  "put_buf b y d w s = s\<lparr>bufs := (bufs s)[b := y], disk := d, writes := w\<rparr>"

lemma put_buf_simps [simp]:
  "bufs (put_buf b y d w s) = (bufs s)[b := y]" "disk (put_buf b y d w s) = d" "writes (put_buf b y d w s) = w"
  "disksize (put_buf b y d w s) = disksize s" "slocked (put_buf b y d w s) = slocked s"
  by (simp_all add: put_buf_def)

lemma put_buf_frame: "bio_frame s (put_buf b y d w s)"
proof -
  have "put_buf b y d w s = s\<lparr>ptable := ptable s, slocked := slocked s, slpid := slpid s,
      bufs := (bufs s)[b := y], disk := d, writes := w\<rparr>"
    by (cases s) (simp add: put_buf_def)
  then show ?thesis by (simp only: bio_frameI woke_only_refl)
qed

definition held_upd :: "nat \<Rightarrow> nat \<Rightarrow> buf \<Rightarrow> (nat \<Rightarrow> byte list) \<Rightarrow> 'z kbio_scheme \<Rightarrow> bool" where
  "held_upd k b y d s = (let x = bufs s ! b in
     caches k x \<and> bvalid x \<and> caches k y \<and> bvalid y \<and> brefcnt y = brefcnt x \<and> bnext y = bnext x \<and> bprev y = bprev x \<and>
     length (bdata y) = BSIZE \<and> length (d k) = BSIZE \<and> (\<forall>j. j \<noteq> k \<longrightarrow> d j = disk s j))"

lemma put_buf_ok:
  assumes ok: "bio_ok L s" and b: "b \<in> L" and y: "held_upd k b y d s"
  shows "bio_ok L (put_buf b y d w s)" (is "bio_ok L ?t")
proof -
  have len: "length (bufs s) = Suc NBUF" using bio_ok_length [OF ok] .
  have bn: "b < NBUF" using ok b by (auto simp: bio_ok_def bufs_held_def)
  have nth: "bufs ?t ! c = (if c = b then y else bufs s ! c)" for c using bn len by simp
  have key: "caches j (bufs ?t ! c) = caches j (bufs s ! c)" for c j
    using nth [of c] y by (auto simp: held_upd_def Let_def caches_def)
  have klt: "k < disksize s" using bio_okD(3) [OF ok bn] y by (auto simp: buf_ok_def held_upd_def Let_def caches_def)
  show ?thesis
    unfolding bio_ok_def
  proof (intro conjI allI impI)
    obtain xs where "lru (bufs s) xs" using ok by (auto simp: bio_ok_def)
    then show "\<exists>xs. lru (bufs ?t) xs" using y by (auto simp: held_upd_def Let_def intro!: lru_upd)
    show "bufs_held L ?t"
      using ok y nth by (auto simp: bio_ok_def bufs_held_def held_upd_def Let_def)
    show "bufs_unique (bufs ?t)" using ok key unfolding bio_ok_def bufs_unique_def by presburger
    show "length (disk ?t j) = BSIZE" for j using ok y by (cases "j = k") (auto simp: bio_ok_def held_upd_def Let_def)
  next
    fix c
    assume c: "c < NBUF"
    show "buf_ok (disksize ?t) (disk ?t) (c \<in> L) (bufs ?t ! c)"
    proof (cases "c = b")
      case True
      then show ?thesis using y b klt nth [of b] by (auto simp: buf_ok_def held_upd_def Let_def caches_def)
    next
      case False
      then have "\<not> caches k (bufs s ! c)" using bio_okD(4) [OF ok c bn] y by (auto simp: held_upd_def Let_def)
      then show ?thesis
        using bio_okD(3) [OF ok c] y nth [of c] False by (auto simp: buf_ok_def held_upd_def Let_def caches_def)
    qed
  qed
qed

lemma put_buf_content:
  assumes ok: "bio_ok L s" and b: "b \<in> L" and y: "held_upd k b y d s"
  shows "content (put_buf b y d w s) = (content s)(k := bdata y)" (is "content ?t = _")
proof
  fix j
  have len: "length (bufs s) = Suc NBUF" using bio_ok_length [OF ok] .
  have bn: "b < NBUF" using ok b by (auto simp: bio_ok_def bufs_held_def)
  have nth: "bufs ?t ! c = (if c = b then y else bufs s ! c)" for c using bn len by simp
  show "content ?t j = ((content s)(k := bdata y)) j"
  proof (cases "j = k")
    case True
    have "content ?t k = bdata (bufs ?t ! b)"
      by (rule content_cached(2) [OF put_buf_ok [OF assms] bn]) (use y nth [of b] in \<open>auto simp: held_upd_def Let_def\<close>)
    with True nth [of b] show ?thesis by simp
  next
    case False
    have "content ?t j = content s j"
    proof (rule content_cong)
      fix c
      show "(caches j (bufs ?t ! c) \<and> bvalid (bufs ?t ! c)) = (caches j (bufs s ! c) \<and> bvalid (bufs s ! c)) \<and>
          (caches j (bufs s ! c) \<and> bvalid (bufs s ! c) \<longrightarrow> bdata (bufs ?t ! c) = bdata (bufs s ! c))"
        using y False nth [of c] by (cases "c = b") (auto simp: held_upd_def Let_def caches_def)
    qed (use len y False in \<open>simp_all add: held_upd_def Let_def\<close>)
    with False show ?thesis by simp
  qed
qed

lemma put_buf_pinned:
  assumes ok: "bio_ok L s" and b: "b \<in> L" and y: "held_upd k b y d s"
  shows "pinned (put_buf b y d w s) = (if bdirty y then insert k (pinned s) else pinned s - {k})" (is "pinned ?t = _")
proof -
  have len: "length (bufs s) = Suc NBUF" using bio_ok_length [OF ok] .
  have bn: "b < NBUF" using ok b by (auto simp: bio_ok_def bufs_held_def)
  have nth: "bufs ?t ! c = (if c = b then y else bufs s ! c)" for c using bn len by simp
  have k: "blockno y = k" "blockno (bufs s ! b) = k" "caches k (bufs s ! b)" using y by (auto simp: held_upd_def Let_def caches_def)
  have d: "caches (blockno (bufs s ! c)) (bufs s ! c)" if "c < NBUF" "bdirty (bufs s ! c)" for c
    using that bio_okD(3) [OF ok that(1)] by (auto simp: buf_ok_def caches_def)
  have o: "blockno (bufs s ! c) \<noteq> k" if "c < NBUF" "bdirty (bufs s ! c)" "c \<noteq> b" for c
    using d [OF that(1,2)] bio_okD(4) [OF ok that(1) bn] k that(3) by blast
  have split: "(\<exists>c < NBUF. P c) \<longleftrightarrow> P b \<or> (\<exists>c < NBUF. c \<noteq> b \<and> P c)" for P using bn by blast
  have m: "j \<in> pinned ?t \<longleftrightarrow> (if bdirty y then j = k \<or> j \<in> pinned s else j \<in> pinned s \<and> j \<noteq> k)" for j
  proof -
    have t: "j \<in> pinned ?t \<longleftrightarrow> (bdirty y \<and> j = k) \<or> (\<exists>c < NBUF. c \<noteq> b \<and> bdirty (bufs s ! c) \<and> j = blockno (bufs s ! c))"
      unfolding pinned_iff [of j ?t] split [of "\<lambda>c. bdirty (bufs ?t ! c) \<and> j = blockno (bufs ?t ! c)"]
      using nth k(1) by metis
    have "j \<in> pinned s \<longleftrightarrow> (bdirty (bufs s ! b) \<and> j = k) \<or> (\<exists>c < NBUF. c \<noteq> b \<and> bdirty (bufs s ! c) \<and> j = blockno (bufs s ! c))"
      using k(2) split [of "\<lambda>c. bdirty (bufs s ! c) \<and> j = blockno (bufs s ! c)"] by (simp add: pinned_iff)
    with t show ?thesis using o by auto
  qed
  show ?thesis
  proof (rule set_eqI)
    fix j
    show "j \<in> pinned ?t \<longleftrightarrow> j \<in> (if bdirty y then insert k (pinned s) else pinned s - {k})"
      using m [of j] by (simp split: if_splits)
  qed
qed

lemma bwrite_run:
  assumes ok: "bio_ok L s" and q: "quiet s" and b: "b \<in> L" and k: "caches k (bufs s ! b)" "bvalid (bufs s ! b)"
  shows "\<exists>t. bwrite b s = Ok () t \<and> bio_ok L t \<and> bio_frame s t \<and> disk t = (disk s)(k := bdata (bufs s ! b)) \<and>
    writes t = writes s @ [(k, bdata (bufs s ! b))] \<and> content t = content s \<and> pinned t = pinned s - {k} \<and>
    bufs t = (bufs s)[b := (bufs s ! b)\<lparr>bdirty := False\<rparr>]"
proof -
  let ?x = "bufs s ! b"
  let ?d = "(disk s)(k := bdata ?x)"
  let ?w = "writes s @ [(k, bdata ?x)]"
  have bn: "b < NBUF" "b < length (bufs s)" using ok b bio_ok_length [OF ok] by (auto simp: bio_ok_def bufs_held_def)
  have l: "slocked s (BufLk b) \<noteq> 0" "blockno ?x < disksize s" "length (bdata ?x) = BSIZE"
    using bio_okD(1,3) [OF ok bn(1)] b k by (auto simp: buf_ok_def caches_def)
  have e: "?x\<lparr>bdirty := False, bvalid := True\<rparr> = ?x\<lparr>bdirty := False\<rparr>" using k(2) by (cases ?x) simp
  have "bwrite b s = Ok () (put_buf b (?x\<lparr>bdirty := False, bvalid := True\<rparr>) ?d ?w s)"
    using q l bn k iderw_write [of "s\<lparr>bufs := (bufs s)[b := ?x\<lparr>bdirty := True\<rparr>]\<rparr>" b]
    by (simp add: bwrite_def kdefs holdingsleep_run quiet_def set_buf_def caches_def put_buf_def)
  then have "bwrite b s = Ok () (put_buf b (?x\<lparr>bdirty := False\<rparr>) ?d ?w s)" by (simp only: e)
  moreover have u: "held_upd k b (?x\<lparr>bdirty := False\<rparr>) ?d s"
    using k l by (simp add: held_upd_def Let_def caches_def)
  moreover have "content s k = bdata ?x" using content_cached(2) [OF ok bn(1) k] .
  then have "content (put_buf b (?x\<lparr>bdirty := False\<rparr>) ?d ?w s) = content s"
    using put_buf_content [OF ok b u] by (auto simp: fun_eq_iff)
  ultimately show ?thesis
    using put_buf_ok [OF ok b u] put_buf_pinned [OF ok b u] put_buf_frame [of s b]
    by (intro exI [of _ "put_buf b (?x\<lparr>bdirty := False\<rparr>) ?d ?w s"]) simp
qed

lemma pinned_cached:
  assumes ok: "bio_ok L s" and b: "b < NBUF" and k: "caches k (bufs s ! b)"
  shows "k \<in> pinned s \<longleftrightarrow> bdirty (bufs s ! b)"
proof
  assume "k \<in> pinned s"
  then obtain c where c: "c < NBUF" "bdirty (bufs s ! c)" "k = blockno (bufs s ! c)" by (auto simp: pinned_iff)
  then have "caches k (bufs s ! c)" using bio_okD(3) [OF ok c(1)] by (auto simp: buf_ok_def caches_def)
  then have "b = c" using bio_okD(4) [OF ok b c(1) k] by blast
  with c show "bdirty (bufs s ! b)" by simp
next
  assume "bdirty (bufs s ! b)"
  with b k show "k \<in> pinned s" by (auto simp: pinned_iff caches_def)
qed

text \<open>Writing new data into a locked buffer.\<close>

definition set_data :: "nat \<Rightarrow> byte list \<Rightarrow> ('z kbio_scheme, unit) kern" where
  "set_data b d = set_buf b (\<lambda>x. x\<lparr>bdata := d\<rparr>)"

lemma set_data_run:
  assumes ok: "bio_ok L s" and b: "b \<in> L" and k: "caches k (bufs s ! b)" "bvalid (bufs s ! b)" and d: "length d = BSIZE"
  shows "\<exists>t. set_data b d s = Ok () t \<and> bio_ok L t \<and> bio_frame s t \<and> disk t = disk s \<and> writes t = writes s \<and>
    content t = (content s)(k := d) \<and> pinned t = pinned s \<and> bufs t = (bufs s)[b := (bufs s ! b)\<lparr>bdata := d\<rparr>]"
proof -
  let ?x = "bufs s ! b"
  let ?t = "put_buf b (?x\<lparr>bdata := d\<rparr>) (disk s) (writes s) s"
  have bn: "b < NBUF" using ok b by (auto simp: bio_ok_def bufs_held_def)
  have u: "held_upd k b (?x\<lparr>bdata := d\<rparr>) (disk s) s"
    using k d ok by (simp add: held_upd_def Let_def caches_def bio_ok_def)
  from pinned_cached [OF ok bn k(1)] have "pinned ?t = pinned s" using put_buf_pinned [OF ok b u] by auto
  moreover have "set_data b d s = Ok () ?t" by (simp add: set_data_def set_buf_def put_buf_def)
  ultimately show ?thesis
    using put_buf_ok [OF ok b u] put_buf_content [OF ok b u] put_buf_frame [of s b]
    by (intro exI [of _ ?t]) simp
qed

lemma core_fields:
  assumes "core x = core y"
  shows "bvalid x = bvalid y" "bdirty x = bdirty y" "bdev x = bdev y" "blockno x = blockno y" "bdata x = bdata y"
    "brefcnt x = brefcnt y"
  using assms by (cases x, cases y, simp add: core_def)+

text \<open>Giving a buffer back. Its data must be on disk, or pinned for the log.\<close>

lemma brelse_client:
  assumes ok: "bio_ok L s" and q: "quiet s" and b: "b \<in> L"
    and clean: "\<not> bdirty (bufs s ! b) \<Longrightarrow> bvalid (bufs s ! b) \<Longrightarrow> bdev (bufs s ! b) = ROOTDEV \<Longrightarrow>
      bdata (bufs s ! b) = disk s (blockno (bufs s ! b))"
  shows "\<exists>t. brelse b s = Ok () t \<and> bio_ok (L - {b}) t \<and> bio_frame s t \<and> disk t = disk s \<and> writes t = writes s \<and>
    content t = content s \<and> pinned t = pinned s \<and>
    (\<forall>c \<in> L - {b}. core (bufs t ! c) = core (bufs s ! c))"
proof -
  obtain t where t: "brelse b s = Ok () t" "bio_ok (L - {b}) t" "bio_frame s t" "disk t = disk s" "writes t = writes s"
    and c: "\<forall>c < NBUF. core (bufs t ! c) = core ((bufs s ! c)\<lparr>brefcnt := (if c = b then 0 else brefcnt (bufs s ! c))\<rparr>)"
    using brelse_run [OF ok q b] clean by blast
  have f: "bvalid (bufs t ! c) = bvalid (bufs s ! c)" "bdirty (bufs t ! c) = bdirty (bufs s ! c)"
    "bdev (bufs t ! c) = bdev (bufs s ! c)" "blockno (bufs t ! c) = blockno (bufs s ! c)"
    "bdata (bufs t ! c) = bdata (bufs s ! c)" if "c < NBUF" for c
    using core_fields [of "bufs t ! c" "(bufs s ! c)\<lparr>brefcnt := (if c = b then 0 else brefcnt (bufs s ! c))\<rparr>"] c that
    by simp_all
  have "content t = content s"
    by (rule ext, rule content_cong)
      (use f bio_ok_length [OF ok] bio_ok_length [OF t(2)] t(4) in \<open>simp_all add: caches_def\<close>)
  moreover have "pinned t = pinned s"
    using f by (simp add: set_eq_iff pinned_iff cong: conj_cong)
  moreover have "core (bufs t ! e) = core (bufs s ! e)" if "e \<in> L - {b}" for e
  proof -
    have "e < NBUF" using ok that by (auto simp: bio_ok_def bufs_held_def)
    moreover have "(bufs s ! e)\<lparr>brefcnt := brefcnt (bufs s ! e)\<rparr> = bufs s ! e" by simp
    ultimately show ?thesis using c that by auto
  qed
  ultimately show ?thesis using t by blast
qed

section \<open>Initialisation\<close>

lemma binit_loop:
  assumes "links (bufs s) []" "n \<le> NBUF"
  shows "\<exists>t. foreach [0..<n] (\<lambda>b. thn (initsleeplock (BufLk b)) (link_front b)) s = Ok () t \<and>
    links (bufs t) (rev [0..<n]) \<and> same_core (bufs s) (bufs t) \<and> (\<forall>b < n. slocked t (BufLk b) = 0) \<and>
    disk t = disk s \<and> disksize t = disksize s \<and> writes t = writes s \<and> held t \<subseteq> held s \<and> curproc t = curproc s \<and>
    kbio.more t = kbio.more s"
  using assms(2)
proof (induction n)
  case 0
  then show ?case using assms(1) by simp
next
  case (Suc n)
  then obtain t where t: "foreach [0..<n] (\<lambda>b. thn (initsleeplock (BufLk b)) (link_front b)) s = Ok () t"
    "links (bufs t) (rev [0..<n])" "same_core (bufs s) (bufs t)" "\<forall>b < n. slocked t (BufLk b) = 0"
    "disk t = disk s" "disksize t = disksize s" "writes t = writes s" "held t \<subseteq> held s" "curproc t = curproc s"
    "kbio.more t = kbio.more s" by auto
  let ?u = "t\<lparr>held := held t - {LBuf n}, slocked := (slocked t)(BufLk n := 0), slpid := (slpid t)(BufLk n := 0),
    bufs := fronted n (bufs t)\<rparr>"
  have "foreach [0..<Suc n] (\<lambda>b. thn (initsleeplock (BufLk b)) (link_front b)) s = Ok () ?u"
    using t(1) by (simp add: foreach_append thn_def bnd_def initsleeplock_def set_slp_def link_front_run)
  moreover have "links (bufs ?u) (rev [0..<Suc n])"
    using links_fronted [OF t(2), of n] Suc.prems by simp
  moreover have "same_core (bufs s) (bufs ?u)"
    using same_core_trans [OF t(3) same_core_fronted] by simp
  ultimately show ?case using t(4-10) by (intro exI [of _ ?u]) (auto simp: less_Suc_eq)
qed

lemma fresh_bio_ok:
  assumes "lru (bufs t) xs" "\<forall>b < NBUF. slocked t (BufLk b) = 0" "\<forall>k. length (disk t k) = BSIZE"
    and "\<forall>b < NBUF. \<not> bvalid (bufs t ! b) \<and> \<not> bdirty (bufs t ! b) \<and> bdev (bufs t ! b) \<noteq> ROOTDEV \<and> brefcnt (bufs t ! b) = 0"
  shows "bio_ok {} t" "content t = disk t" "pinned t = {}"
proof -
  show ok: "bio_ok {} t"
    using assms by (auto simp: bio_ok_def bufs_held_def bufs_unique_def buf_ok_def caches_def)
  show "content t = disk t"
    by (rule ext, rule content_uncached [OF ok]) (use assms(4) in auto)
  show "pinned t = {}" using assms(4) by (auto simp: pinned_def)
qed

lemma binit_run:
  assumes "length (bufs s) = Suc NBUF" "\<forall>k. length (disk s k) = BSIZE"
    and "\<forall>b < NBUF. \<not> bvalid (bufs s ! b) \<and> \<not> bdirty (bufs s ! b) \<and> bdev (bufs s ! b) \<noteq> ROOTDEV \<and> brefcnt (bufs s ! b) = 0"
  shows "\<exists>t. binit s = Ok () t \<and> lru (bufs t) (rev [0..<NBUF]) \<and> bio_ok {} t \<and> content t = disk s \<and>
    disk t = disk s \<and> pinned t = {} \<and> disksize t = disksize s \<and> writes t = writes s \<and>
    held t \<subseteq> held s \<and> curproc t = curproc s \<and> kbio.more t = kbio.more s \<and>
    (\<forall>b < NBUF. \<not> bvalid (bufs t ! b) \<and> \<not> bdirty (bufs t ! b) \<and> bdev (bufs t ! b) \<noteq> ROOTDEV \<and> brefcnt (bufs t ! b) = 0 \<and>
      bdev (bufs t ! b) = bdev (bufs s ! b) \<and> slocked t (BufLk b) = 0)"
proof -
  let ?B = "(bufs s)[HEAD := (bufs s ! HEAD)\<lparr>bprev := HEAD, bnext := HEAD\<rparr>]"
  let ?s = "s\<lparr>held := held s - {LBcache}, bufs := ?B\<rparr>"
  have h: "HEAD < length (bufs s)" using assms(1) by (simp add: HEAD_def)
  then have "links (bufs ?s) []"
    using assms(1) by (simp add: links_def nx_of_def pv_of_def)
  from binit_loop [OF this, of NBUF] obtain t where t:
    "foreach [0..<NBUF] (\<lambda>b. thn (initsleeplock (BufLk b)) (link_front b)) ?s = Ok () t"
    "links (bufs t) (rev [0..<NBUF])" "same_core ?B (bufs t)" "\<forall>b < NBUF. slocked t (BufLk b) = 0"
    "disk t = disk s" "disksize t = disksize s" "writes t = writes s" "held t \<subseteq> held s" "curproc t = curproc s"
    "kbio.more t = kbio.more s" by auto
  have "binit s = Ok () t" using t(1) h by (simp add: binit_def set_buf_def)
  moreover have "lru (bufs t) (rev [0..<NBUF])" using t(2) by (auto simp: lru_def)
  moreover have "\<forall>b < NBUF. \<not> bvalid (bufs t ! b) \<and> \<not> bdirty (bufs t ! b) \<and> bdev (bufs t ! b) \<noteq> ROOTDEV \<and> brefcnt (bufs t ! b) = 0"
    using same_coreD [OF t(3)] assms(1,3) by (auto simp: HEAD_def)
  moreover have "\<forall>b < NBUF. bdev (bufs t ! b) = bdev (bufs s ! b)"
    using same_coreD(3) [OF t(3)] assms(1) by (auto simp: HEAD_def)
  ultimately show ?thesis
    using fresh_bio_ok [of t "rev [0..<NBUF]"] t assms(2) by auto
qed

section \<open>Properties\<close>

text \<open>\<open>binit\<close> links the thirty buffers into one circular list, most recently initialised first,
  and leaves a cache that satisfies its invariant and shows the disk as it is.\<close>

theorem binit_establishes_cache:
  assumes "length (bufs s) = Suc NBUF" and "\<forall>k. length (disk s k) = BSIZE"
    and "\<forall>b < NBUF. \<not> bvalid (bufs s ! b) \<and> \<not> bdirty (bufs s ! b) \<and> bdev (bufs s ! b) \<noteq> ROOTDEV \<and> brefcnt (bufs s ! b) = 0"
  shows "\<exists>t. binit s = Ok () t \<and> lru (bufs t) (rev [0..<NBUF]) \<and> bio_ok {} t \<and> content t = disk s"
  using binit_run [OF assms] by blast

definition bio0 :: kbio where
  "bio0 = kproc.extend ((kproc.truncate (kproc0 ()))\<lparr>curproc := Some 0\<rparr>) \<lparr>slocked = (\<lambda>_. 0), slpid = (\<lambda>_. 0),
     bufs = replicate (Suc NBUF) \<lparr>bvalid = False, bdirty = False, bdev = 0, blockno = 0, brefcnt = 0, bprev = 0,
       bnext = 0, bdata = replicate BSIZE 0\<rparr>,
     disk = (\<lambda>k. replicate BSIZE (of_nat k)), disksize = 1000, writes = []\<rparr>"

lemma bio0_simps [simp]:
  "length (bufs bio0) = Suc NBUF" "length (disk bio0 k) = BSIZE" "held bio0 = {}" "curproc bio0 = Some 0"
  "disk bio0 k = replicate BSIZE (of_nat k)" "disksize bio0 = 1000" "writes bio0 = []"
  "b < NBUF \<Longrightarrow> \<not> bvalid (bufs bio0 ! b)" "b < NBUF \<Longrightarrow> \<not> bdirty (bufs bio0 ! b)"
  "b < NBUF \<Longrightarrow> bdev (bufs bio0 ! b) = 0" "b < NBUF \<Longrightarrow> brefcnt (bufs bio0 ! b) = 0"
  by (simp_all add: bio0_def kproc.defs kproc0_def kmem.defs kmem2_def nth_append del: replicate_Suc)

theorem binit_establishes_cache_witness:
  "\<exists>t. binit bio0 = Ok () t \<and> bio_ok {} t \<and> content t 7 = replicate BSIZE 7"
  using binit_establishes_cache [of bio0] by (force simp: ROOTDEV_def)

lemma bio_boot: "\<exists>s. binit bio0 = Ok () s \<and> lru (bufs s) (rev [0..<NBUF]) \<and> bio_ok {} s \<and> quiet s \<and> pinned s = {} \<and>
    disksize s = 1000 \<and> content s 7 = replicate BSIZE 7"
  using binit_run [of bio0] by (fastforce simp: ROOTDEV_def quiet_def)

lemma bio_boot_fresh: "\<exists>s. binit bio0 = Ok () s \<and> lru (bufs s) (rev [0..<NBUF]) \<and> bio_ok {} s \<and> quiet s \<and> pinned s = {} \<and>
    content s 7 = replicate BSIZE 7 \<and> content s = disk s \<and> (\<forall>b < NBUF. bdev (bufs s ! b) = 0)"
  using binit_run [of bio0] by (fastforce simp: ROOTDEV_def quiet_def)

text \<open>C28: \<open>bread\<close>. As long as buffers in use and pinned blocks leave a buffer free, \<open>bread\<close> returns a
  locked buffer with the current contents of the block, no two buffers cache the same block, and
  no other block's contents change; it neither writes to the disk nor loses a pinned block.\<close>

theorem bread_returns_contents:
  assumes "bio_ok L s" and "quiet s" and "k < disksize s" and "card L + card (pinned s) < NBUF"
    and "\<And>b. b \<in> L \<Longrightarrow> \<not> caches k (bufs s ! b)"
  shows "\<exists>b t. bread ROOTDEV k s = Ok b t \<and> b \<notin> L \<and> bio_ok (insert b L) t \<and> bdata (bufs t ! b) = content s k \<and>
    content t = content s \<and> pinned t = pinned s \<and> writes t = writes s"
  using bread_run [OF assms(1,2) assms(5) assms(3,4)] by (auto simp: bread_post_def)

theorem bread_returns_contents_witness:
  "\<exists>s b t. binit bio0 = Ok () s \<and> bread ROOTDEV 7 s = Ok b t \<and> bdata (bufs t ! b) = replicate BSIZE 7"
proof -
  obtain s where s: "binit bio0 = Ok () s" "bio_ok {} s" "quiet s" "pinned s = {}" "disksize s = 1000" "content s 7 = replicate BSIZE 7"
    using bio_boot by blast
  then have "\<exists>b t. bread ROOTDEV 7 s = Ok b t \<and> bdata (bufs t ! b) = content s 7"
    using bread_returns_contents [of "{}" s 7] by (auto simp: NBUF_def)
  with s show ?thesis by metis
qed

text \<open>C7: the replacement policy. On a miss \<open>bget\<close> recycles the least recently used buffer that is
  neither referenced nor dirty, and panics when there is none; \<open>brelse\<close> of the last reference makes
  the buffer the most recently used one.\<close>

theorem cache_replacement_is_lru:
  assumes "lru (bufs s) xs" and "quiet s" and "find (\<lambda>b. caches k (bufs s ! b)) xs = None"
  shows "case find (\<lambda>b. brefcnt (bufs s ! b) = 0 \<and> \<not> bdirty (bufs s ! b)) (rev xs) of
      None \<Rightarrow> bget ROOTDEV k s = Panic ''bget: no buffers''
    | Some b \<Rightarrow> slocked s (BufLk b) = 0 \<longrightarrow> (\<exists>t. bget ROOTDEV k s = Ok b t \<and> caches k (bufs t ! b) \<and> lru (bufs t) xs \<and>
        (\<exists>u. brelse b t = Ok () u \<and> lru (bufs u) (b # remove1 b xs)))"
proof (cases "find (\<lambda>b. brefcnt (bufs s ! b) = 0 \<and> \<not> bdirty (bufs s ! b)) (rev xs)")
  case None
  let ?s = "s\<lparr>held := {LBcache}\<rparr>"
  have "acquire LBcache s = Ok () ?s" using assms(2) by (simp add: quiet_def)
  moreover have "bwalk (NBUF + 1) bnext (\<lambda>x. bdev x = ROOTDEV \<and> blockno x = k) (bnext (bufs ?s ! HEAD)) ?s = Ok None ?s"
    using bwalk_next [of ?s xs "caches k"] assms(1,3) unfolding caches_def by simp
  moreover have "bwalk (NBUF + 1) bprev (\<lambda>x. brefcnt x = 0 \<and> \<not> bdirty x) (bprev (bufs ?s ! HEAD)) ?s = Ok None ?s"
    using bwalk_prev [of ?s xs "\<lambda>x. brefcnt x = 0 \<and> \<not> bdirty x"] assms(1) None by simp
  ultimately have "bget ROOTDEV k s = Panic ''bget: no buffers''"
    by (simp only: bget_def thn_def bnd_def getbuf_def gets_def outcome.case option.case panic_def)
  with None show ?thesis by simp
next
  case (Some b)
  have "b < NBUF" using assms(1) find_hit [OF Some] by (auto simp: lru_def)
  show ?thesis
  proof (cases "slocked s (BufLk b) = 0")
    case True
    let ?y = "(bufs s ! b)\<lparr>bdev := ROOTDEV, blockno := k, bvalid := False, bdirty := False, brefcnt := 1\<rparr>"
    obtain p where p: "bget ROOTDEV k s = Ok b (locked_buf b p ?y s)" using bget_miss [OF assms Some True] by blast
    have l: "lru (bufs (locked_buf b p ?y s)) xs" using assms(1) by (simp add: lru_upd)
    have b: "b < length (bufs s)" using \<open>b < NBUF\<close> assms(1) by (simp add: lru_def links_def)
    let ?t = "locked_buf b p ?y s"
    have t: "quiet ?t" "slocked ?t (BufLk b) \<noteq> 0" "bufs ?t ! b = ?y"
      using assms(2) b by (simp_all add: locked_buf_def quiet_def)
    then have "brefcnt (bufs ?t ! b) = 1" "caches k (bufs ?t ! b)" by (simp_all add: caches_def)
    moreover from this have "\<exists>u. brelse b ?t = Ok () u \<and> lru (bufs u) (b # remove1 b xs)"
      using brelse_last [OF l t(1) \<open>b < NBUF\<close> t(2)] by force
    ultimately have "\<exists>t. bget ROOTDEV k s = Ok b t \<and> caches k (bufs t ! b) \<and> lru (bufs t) xs \<and>
        (\<exists>u. brelse b t = Ok () u \<and> lru (bufs u) (b # remove1 b xs))"
      using p l by blast
    with Some show ?thesis by simp
  qed (simp add: Some)
qed

theorem cache_replacement_is_lru_witness:
  "\<exists>s t. binit bio0 = Ok () s \<and> bget ROOTDEV 7 s = Ok 0 t \<and> lru (bufs t) (rev [0..<NBUF])"
proof -
  obtain s where s: "binit bio0 = Ok () s" "lru (bufs s) (rev [0..<NBUF])" "bio_ok {} s" "quiet s" "pinned s = {}" "content s 7 = replicate BSIZE 7"
    and c: "content s = disk s" "\<forall>b < NBUF. bdev (bufs s ! b) = 0"
    using bio_boot_fresh by blast
  have z: "0 < NBUF" by (simp add: NBUF_def)
  have "find (\<lambda>b. caches 7 (bufs s ! b)) (rev [0..<NBUF]) = None"
    using c(2) by (auto simp: find_None_iff caches_def ROOTDEV_def)
  moreover have "find (\<lambda>b. brefcnt (bufs s ! b) = 0 \<and> \<not> bdirty (bufs s ! b)) (rev (rev [0..<NBUF])) = Some 0"
  proof -
    have "\<not> bdirty (bufs s ! 0)" using s(5) z by (auto simp: pinned_def)
    moreover have "[0..<NBUF] = 0 # [Suc 0..<NBUF]" using z by (rule upt_conv_Cons)
    ultimately show ?thesis using bio_okD(2) [OF s(3) z] by (simp del: upt_Suc)
  qed
  moreover have "slocked s (BufLk 0) = 0" using bio_okD(1) [OF s(3) z] by simp
  ultimately show ?thesis
    using cache_replacement_is_lru [OF s(2,4), of 7] s(1) by auto
qed

end
