(* ===== verification/Log.thy ===== *)
theory Log
  imports Bio
begin

text \<open>
  The write-ahead log of \<open>log.c\<close>: transactions, the two-phase commit, and recovery at boot. The main
  result is crash atomicity: after any prefix of the block writes of a commit, recovery leaves the
  file system either as it was before the transaction or as it is after it.
\<close>

section \<open>State and operations\<close>

definition MAXOPBLOCKS :: nat where "MAXOPBLOCKS = 10"
definition LOGSIZE :: nat where "LOGSIZE = MAXOPBLOCKS * 3"

lemma LOGSIZE_pos [simp]: "0 < LOGSIZE"
  by (simp add: LOGSIZE_def MAXOPBLOCKS_def)

record klog = kbio +
  lstart :: nat
  lsize :: nat
  outstanding :: int
  committing :: bool
  ldev :: nat
  lhn :: nat
  lhblock :: "nat list"

text \<open>The header block on disk: the count, then the block numbers, as 32-bit words.\<close>

definition hdr_word :: "byte list \<Rightarrow> nat \<Rightarrow> nat" where
  "hdr_word d i = unat (un32 (slice (4 * i) 4 d))"

definition hdr_bytes :: "nat \<Rightarrow> nat list \<Rightarrow> byte list" where
  "hdr_bytes n bs = concat (map (\<lambda>w. le32 (of_nat w)) (n # take n bs))"

definition install_trans :: "('z klog_scheme, unit) kern" where
  "install_trans = bnd (gets lhn) (\<lambda>n. foreach [0..<n] (\<lambda>tail.
     bnd (gets (\<lambda>s. (ldev s, lstart s + tail + 1, lhblock s ! tail))) (\<lambda>(dev, a, c).
     bnd (bread dev a) (\<lambda>lbuf.
     bnd (bread dev c) (\<lambda>dbuf.
     thn (bnd (getbuf lbuf) (\<lambda>x. set_data dbuf (bdata x))) (
     thn (bwrite dbuf) (
     thn (brelse lbuf)
     (brelse dbuf))))))))"

text \<open>
  A header count outside 0..\<open>LOGSIZE\<close>, which only a corrupted disk has and which would overflow
  \<open>log.lh.block\<close>, stops the model.
\<close>

definition read_head :: "('z klog_scheme, unit) kern" where
  "read_head =
     bnd (gets (\<lambda>s. (ldev s, lstart s))) (\<lambda>(dev, a).
     bnd (bread dev a) (\<lambda>b.
     bnd (getbuf b) (\<lambda>x.
     let n = hdr_word (bdata x) 0 in
     if n > LOGSIZE then panic ''read_head: block array overflow''
     else thn (modify (\<lambda>s. s\<lparr>lhn := n,
            lhblock := map (\<lambda>i. hdr_word (bdata x) (i + 1)) [0..<n] @ drop n (lhblock s)\<rparr>))
          (brelse b))))"

definition write_head :: "('z klog_scheme, unit) kern" where
  "write_head =
     bnd (gets (\<lambda>s. (ldev s, lstart s))) (\<lambda>(dev, a).
     bnd (bread dev a) (\<lambda>b.
     bnd (gets (\<lambda>s. (lhn s, lhblock s))) (\<lambda>(n, bs).
     thn (bnd (getbuf b) (\<lambda>x. set_data b (splice 0 (hdr_bytes n bs) (bdata x)))) (
     thn (bwrite b)
     (brelse b)))))"

definition recover_from_log :: "('z klog_scheme, unit) kern" where
  "recover_from_log =
     thn read_head (
     thn install_trans (
     thn (modify (\<lambda>s. s\<lparr>lhn := 0\<rparr>))
     write_head))"

definition begin_op :: "('z klog_scheme, unit) kern" where
  "begin_op =
     thn (acquire LLog) (
     bnd (gets (\<lambda>s. (committing s, int (lhn s) + (outstanding s + 1) * int MAXOPBLOCKS > int LOGSIZE))) (\<lambda>(c, full).
     if c then sleep LogChan (Some LLog)
     else if full then sleep LogChan (Some LLog)
     else thn (modify (\<lambda>s. s\<lparr>outstanding := outstanding s + 1\<rparr>)) (release LLog)))"

definition write_log :: "('z klog_scheme, unit) kern" where
  "write_log = bnd (gets lhn) (\<lambda>n. foreach [0..<n] (\<lambda>tail.
     bnd (gets (\<lambda>s. (ldev s, lstart s + tail + 1, lhblock s ! tail))) (\<lambda>(dev, a, c).
     bnd (bread dev a) (\<lambda>to.
     bnd (bread dev c) (\<lambda>from.
     thn (bnd (getbuf from) (\<lambda>x. set_data to (bdata x))) (
     thn (bwrite to) (
     thn (brelse from)
     (brelse to))))))))"

definition commit :: "('z klog_scheme, unit) kern" where
  "commit = bnd (gets lhn) (\<lambda>n. whenk (n > 0) (
     thn write_log (
     thn write_head (
     thn install_trans (
     thn (modify (\<lambda>s. s\<lparr>lhn := 0\<rparr>))
     write_head)))))"

definition end_op :: "('z klog_scheme, unit) kern" where
  "end_op =
     thn (acquire LLog) (
     thn (modify (\<lambda>s. s\<lparr>outstanding := outstanding s - 1\<rparr>)) (
     bnd (gets (\<lambda>s. (committing s, outstanding s = 0))) (\<lambda>(c, last).
     if c then panic ''log.committing''
     else
       thn (if last then modify (\<lambda>s. s\<lparr>committing := True\<rparr>) else wakeup (Some LogChan)) (
       thn (release LLog)
       (whenk last (
          thn commit (
          thn (acquire LLog) (
          thn (modify (\<lambda>s. s\<lparr>committing := False\<rparr>)) (
          thn (wakeup (Some LogChan))
          (release LLog))))))))))"

definition log_write :: "nat \<Rightarrow> ('z klog_scheme, unit) kern" where
  "log_write b =
     bnd (gets (\<lambda>s. (lhn s, lsize s, outstanding s))) (\<lambda>(n, size, out).
     if n \<ge> LOGSIZE \<or> int n \<ge> int size - 1 then panic ''too big a transaction''
     else if out < 1 then panic ''log_write outside of trans''
     else
       thn (acquire LLog) (
       bnd (getbuf b) (\<lambda>x.
       bnd (gets (\<lambda>s. find_index (\<lambda>k. k = blockno x) (take (lhn s) (lhblock s)))) (\<lambda>r.
       let i = (case r of Some i \<Rightarrow> i | None \<Rightarrow> n) in
       thn (modify (\<lambda>s. s\<lparr>lhblock := (lhblock s)[i := blockno x]\<rparr>)) (
       thn (whenk (i = n) (modify (\<lambda>s. s\<lparr>lhn := n + 1\<rparr>))) (
       thn (set_buf b (\<lambda>x. x\<lparr>bdirty := True\<rparr>))
       (release LLog)))))))"

section \<open>Copying one block to another through the cache\<close>

definition copy_release :: "nat \<Rightarrow> nat \<Rightarrow> ('z kbio_scheme, unit) kern" where
  "copy_release src dst =
     thn (bnd (getbuf src) (\<lambda>x. set_data dst (bdata x))) (
     thn (bwrite dst) (
     thn (brelse src)
     (brelse dst)))"

text \<open>The effect of copying block \<open>a\<close> to block \<open>c\<close> and writing it.\<close>

definition copied :: "nat \<Rightarrow> byte list \<Rightarrow> 'z kbio_scheme \<Rightarrow> 'z kbio_scheme \<Rightarrow> bool" where
  "copied c v s t = (bio_ok {} t \<and> bio_frame s t \<and> disk t = (disk s)(c := v) \<and> writes t = writes s @ [(c, v)] \<and>
     content t = (content s)(c := v) \<and> pinned t = pinned s - {c})"

lemma copy_release_run:
  assumes ok: "bio_ok {bs, bd} s" and q: "quiet s" and ne: "bs \<noteq> bd" "a \<noteq> c"
    and src: "caches a (bufs s ! bs)" "bvalid (bufs s ! bs)" "\<not> bdirty (bufs s ! bs) \<Longrightarrow> bdata (bufs s ! bs) = disk s a"
    and dst: "caches c (bufs s ! bd)" "bvalid (bufs s ! bd)"
  shows "\<exists>t. copy_release bs bd s = Ok () t \<and> copied c (bdata (bufs s ! bs)) s t"
proof -
  let ?v = "bdata (bufs s ! bs)"
  have n: "bs < NBUF" "bd < NBUF" using ok by (auto simp: bio_ok_def bufs_held_def)
  have v: "length ?v = BSIZE" using bio_okD(3) [OF ok n(1)] src by (auto simp: buf_ok_def caches_def)
  obtain s1 where s1: "set_data bd ?v s = Ok () s1" "bio_ok {bs, bd} s1" "bio_frame s s1" "disk s1 = disk s"
    "writes s1 = writes s" "content s1 = (content s)(c := ?v)" "pinned s1 = pinned s"
    "bufs s1 = (bufs s)[bd := (bufs s ! bd)\<lparr>bdata := ?v\<rparr>]"
    using set_data_run [OF ok _ dst v] by auto
  have b1: "bufs s1 ! bd = (bufs s ! bd)\<lparr>bdata := ?v\<rparr>" "bufs s1 ! bs = bufs s ! bs"
    using s1(8) ne n bio_ok_length [OF ok] by auto
  obtain s2 where s2: "bwrite bd s1 = Ok () s2" "bio_ok {bs, bd} s2" "bio_frame s1 s2" "disk s2 = (disk s)(c := ?v)"
    "writes s2 = writes s @ [(c, ?v)]" "content s2 = content s1" "pinned s2 = pinned s - {c}"
    "bufs s2 = (bufs s1)[bd := (bufs s1 ! bd)\<lparr>bdirty := False\<rparr>]"
    using bwrite_run [OF s1(2) _ _, of bd c] b1 dst q bio_frameD(6) [OF s1(3)] s1 by (auto simp: caches_def)
  have b2: "bufs s2 ! bs = bufs s ! bs" "bdata (bufs s2 ! bd) = ?v" "blockno (bufs s2 ! bd) = c" "\<not> bdirty (bufs s2 ! bd)"
    using s2(8) b1 ne n bio_ok_length [OF s1(2)] dst by (auto simp: caches_def)
  have q2: "quiet s2" using q bio_frameD(6) [OF s1(3)] bio_frameD(6) [OF s2(3)] by simp
  obtain s3 where s3: "brelse bs s2 = Ok () s3" "bio_ok {bd} s3" "bio_frame s2 s3" "disk s3 = disk s2" "writes s3 = writes s2"
    "content s3 = content s2" "pinned s3 = pinned s2" "core (bufs s3 ! bd) = core (bufs s2 ! bd)"
    using brelse_client [OF s2(2) q2, of bs] b2 src s2(4) ne by (auto simp: caches_def insert_Diff_if)
  have q3: "quiet s3" using q2 bio_frameD(6) [OF s3(3)] by simp
  obtain t where t: "brelse bd s3 = Ok () t" "bio_ok {} t" "bio_frame s3 t" "disk t = disk s3" "writes t = writes s3"
    "content t = content s3" "pinned t = pinned s3"
    using brelse_client [OF s3(2) q3, of bd] core_fields [OF s3(8)] b2 s3(4) s2(4) by auto
  have "copy_release bs bd s = Ok () t"
    using s1(1) s2(1) s3(1) t(1) by (simp add: copy_release_def kdefs getbuf_def)
  moreover have "bio_frame s t" by (intro bio_frame_trans [OF s1(3) bio_frame_trans [OF s2(3) bio_frame_trans [OF s3(3) t(3)]]])
  ultimately show ?thesis using s1 s2 s3 t by (auto simp: copied_def)
qed

text \<open>Reading two blocks into two buffers.\<close>

lemma bread_two:
  assumes "bio_ok {} s" "quiet s" "x < disksize s" "y < disksize s" "x \<noteq> y" "card (pinned s) + 1 < NBUF"
  shows "\<exists>b c t u. bread ROOTDEV x s = Ok b t \<and> bread ROOTDEV y t = Ok c u \<and> bio_ok {b, c} u \<and> b \<noteq> c \<and> bio_frame s u \<and>
    disk u = disk s \<and> writes u = writes s \<and> content u = content s \<and> pinned u = pinned s \<and>
    caches x (bufs u ! b) \<and> bvalid (bufs u ! b) \<and> bdata (bufs u ! b) = content s x \<and> (bdirty (bufs u ! b) \<longleftrightarrow> x \<in> pinned s) \<and>
    caches y (bufs u ! c) \<and> bvalid (bufs u ! c) \<and> bdata (bufs u ! c) = content s y \<and> (bdirty (bufs u ! c) \<longleftrightarrow> y \<in> pinned s)"
proof -
  obtain b t where b: "bread ROOTDEV x s = Ok b t" "bread_post {} x s b t"
    using bread_run [of "{}" s x] assms by auto
  have t: "quiet t" "disksize t = disksize s"
    using b(2) assms(2) bio_frameD(3,6) [of s t] by (auto simp: bread_post_def)
  obtain c u where c: "bread ROOTDEV y t = Ok c u" "bread_post {b} y t c u"
    using bread_run [of "{b}" t y] b(2) t assms by (auto simp: bread_post_def caches_def)
  have "bio_frame s u" using b(2) c(2) bio_frame_trans [of s t u] by (auto simp: bread_post_def)
  moreover have "bufs u ! b = bufs t ! b" "{c, b} = {b, c}" using c(2) by (auto simp: bread_post_def)
  ultimately show ?thesis
    using b(1) c(1) b(2) [unfolded bread_post_def] c(2) [unfolded bread_post_def]
    by (intro exI [of _ b] exI [of _ c] exI [of _ t] exI [of _ u]) simp
qed

lemma content_unpinned:
  assumes "bio_ok {} s" "k \<notin> pinned s"
  shows "content s k = disk s k"
proof (cases "\<exists>b < NBUF. caches k (bufs s ! b) \<and> bvalid (bufs s ! b)")
  case True
  then obtain b where b: "b < NBUF" "caches k (bufs s ! b)" "bvalid (bufs s ! b)" by blast
  then have "\<not> bdirty (bufs s ! b)" using pinned_cached [OF assms(1)] assms(2) by blast
  then show ?thesis
    using bio_okD(3) [OF assms(1) b(1)] content_cached(2) [OF assms(1) b] b by (simp add: buf_ok_def caches_def)
next
  case False
  then show ?thesis using content_uncached [OF assms(1)] by blast
qed

section \<open>Sequences of block writes\<close>

fun apply_writes :: "(nat \<times> byte list) list \<Rightarrow> (nat \<Rightarrow> byte list) \<Rightarrow> nat \<Rightarrow> byte list" where
  "apply_writes [] d = d"
| "apply_writes ((k, v) # ws) d = apply_writes ws (d(k := v))"

lemma apply_writes_append: "apply_writes (xs @ ys) d = apply_writes ys (apply_writes xs d)"
  by (induction xs arbitrary: d) auto

lemma apply_writes_other: "k \<notin> fst ` set ws \<Longrightarrow> apply_writes ws d k = d k"
  by (induction ws arbitrary: d) auto

lemma apply_writes_in:
  assumes "distinct (map fst ws)" "(k, v) \<in> set ws"
  shows "apply_writes ws d k = v"
  using assms
proof (induction ws arbitrary: d)
  case (Cons w ws)
  obtain k' v' where w: "w = (k', v')" by (cases w)
  show ?case
  proof (cases "(k, v) = w")
    case True
    then have "k \<notin> fst ` set ws" using Cons.prems(1) by (simp flip: True)
    then show ?thesis using True by (simp add: apply_writes_other flip: True)
  next
    case False
    then show ?thesis using Cons w by auto
  qed
qed simp

lemma copied_frame: "copied c v s t \<Longrightarrow> bio_frame r s \<Longrightarrow> bio_frame r t"
  using bio_frame_trans by (auto simp: copied_def)

lemma copy_loop:
  assumes "bio_ok {} s"
    and step: "\<And>i t. i < n \<Longrightarrow> bio_ok {} t \<Longrightarrow> bio_frame s t \<Longrightarrow> pinned t \<subseteq> pinned s \<Longrightarrow>
      content t (src i) = content s (src i) \<Longrightarrow> \<exists>u. body i t = Ok () u \<and> copied (dst i) (content s (src i)) t u"
    and disj: "\<And>i j. i < n \<Longrightarrow> j < n \<Longrightarrow> src i \<noteq> dst j"
  shows "\<exists>t. foreach [0..<n] body s = Ok () t \<and> bio_ok {} t \<and> bio_frame s t \<and>
    (let ws = map (\<lambda>i. (dst i, content s (src i))) [0..<n] in
     disk t = apply_writes ws (disk s) \<and> writes t = writes s @ ws \<and> content t = apply_writes ws (content s)) \<and>
    pinned t = pinned s - dst ` {..<n}"
  using step disj
proof (induction n)
  case 0
  then show ?case using assms(1) by simp
next
  case (Suc n)
  let ?ws = "map (\<lambda>i. (dst i, content s (src i))) [0..<n]"
  obtain t where t: "foreach [0..<n] body s = Ok () t" "bio_ok {} t" "bio_frame s t" "disk t = apply_writes ?ws (disk s)"
    "writes t = writes s @ ?ws" "content t = apply_writes ?ws (content s)" "pinned t = pinned s - dst ` {..<n}"
    using Suc.IH Suc.prems by (auto simp: Let_def)
  have "content t (src n) = content s (src n)"
    unfolding t(6)
  proof (rule apply_writes_other)
    have "src n \<noteq> dst j" if "j < n" for j using Suc.prems(2) [of n j] that by simp
    then show "src n \<notin> fst ` set ?ws" by (simp add: image_iff)
  qed
  then obtain u where u: "body n t = Ok () u" "copied (dst n) (content s (src n)) t u"
    using Suc.prems(1) [of n t] t(2,3,7) by auto
  have "foreach [0..<Suc n] body s = Ok () u"
    using t(1) u(1) by (simp add: foreach_append thn_def bnd_def)
  moreover have "pinned u = pinned s - dst ` {..<Suc n}" using u(2) t(7) by (auto simp: copied_def lessThan_Suc)
  ultimately show ?case
    using u(2) t copied_frame [OF u(2) t(3)]
    by (auto simp: copied_def Let_def apply_writes_append)
qed

section \<open>Layout of the log\<close>

text \<open>
  The log occupies the \<open>LOGSIZE\<close> blocks from \<open>lstart\<close> (\<open>mkfs\<close> sets \<open>nlog\<close> to \<open>LOGSIZE\<close>) of the root device.
  The logged blocks are different blocks of the disk outside of it, and the cache pins them.
\<close>

definition log_region :: "'z klog_scheme \<Rightarrow> nat set" where
  "log_region s = {lstart s..<lstart s + LOGSIZE}"

definition log_ok :: "'z klog_scheme \<Rightarrow> bool" where
  "log_ok s = (ldev s = ROOTDEV \<and> lstart s + LOGSIZE \<le> disksize s \<and> disksize s < 2 ^ 32 \<and> lsize s \<le> LOGSIZE \<and>
     lhn s < LOGSIZE \<and> length (lhblock s) = LOGSIZE \<and> distinct (take (lhn s) (lhblock s)) \<and>
     (\<forall>i < lhn s. lhblock s ! i < disksize s \<and> lhblock s ! i \<notin> log_region s) \<and>
     pinned s \<subseteq> set (take (lhn s) (lhblock s)))"

lemma klog_frame:
  fixes s :: "'z klog_scheme"
  assumes "bio_frame s t"
  shows "lstart t = lstart s" "ldev t = ldev s" "lhn t = lhn s" "lhblock t = lhblock s" "lsize t = lsize s"
    "outstanding t = outstanding s" "committing t = committing s" "klog.more t = klog.more s"
  using assms by (auto simp: bio_frame_def)

lemma pinned_room:
  assumes "log_ok s" "lhn s + 2 \<le> NBUF"
  shows "card (pinned s) + 1 < NBUF"
proof -
  have "card (pinned s) \<le> card (set (take (lhn s) (lhblock s)))"
    using assms(1) by (intro card_mono) (auto simp: log_ok_def)
  also have "\<dots> \<le> lhn s" using assms(1) card_length [of "take (lhn s) (lhblock s)"] by simp
  finally show ?thesis using assms(2) by simp
qed

section \<open>The header block\<close>

lemma slice_concat:
  assumes "\<And>x. length (f x) = 4" "i < length xs"
  shows "slice (4 * i) 4 (concat (map f xs) @ r) = f (xs ! i)"
  using assms(2)
proof (induction xs arbitrary: i)
  case (Cons x xs)
  then show ?case
  proof (cases i)
    case 0
    then show ?thesis using assms(1) [of x] by (simp add: slice_def)
  next
    case (Suc j)
    then have "slice (4 * i) 4 (concat (map f (x # xs)) @ r) = slice (4 * j) 4 (concat (map f xs) @ r)"
      using assms(1) [of x] by (simp add: slice_def)
    with Suc Cons show ?thesis by simp
  qed
qed simp

lemma length_hdr_bytes: "n \<le> length bs \<Longrightarrow> length (hdr_bytes n bs) = 4 * Suc n"
  by (simp add: hdr_bytes_def length_concat comp_def sum_list_triv)

lemma hdr_word_bytes:
  assumes "n \<le> length bs" "n < 2 ^ 32" "i < n \<Longrightarrow> bs ! i < 2 ^ 32"
  shows "hdr_word (splice 0 (hdr_bytes n bs) d) 0 = n"
    "i < n \<Longrightarrow> hdr_word (splice 0 (hdr_bytes n bs) d) (i + 1) = bs ! i"
proof -
  let ?f = "\<lambda>w. le32 (of_nat w)"
  have w: "hdr_word (splice 0 (hdr_bytes n bs) d) j = unat (of_nat ((n # take n bs) ! j) :: u32)" if "j \<le> n" for j
    using slice_concat [of ?f j "n # take n bs" "drop (length (hdr_bytes n bs)) d"] that assms(1)
    by (simp add: hdr_word_def splice_def hdr_bytes_def)
  show "hdr_word (splice 0 (hdr_bytes n bs) d) 0 = n" using w [of 0] assms(2) by (simp add: unat_of_nat)
  show "i < n \<Longrightarrow> hdr_word (splice 0 (hdr_bytes n bs) d) (i + 1) = bs ! i"
    using w [of "i + 1"] assms(3) by (simp add: unat_of_nat)
qed

lemma rewrite_block:
  assumes "bio_ok {} s" "quiet s" "k < disksize s" "card (pinned s) < NBUF" "\<And>d. length d = BSIZE \<Longrightarrow> length (f d) = BSIZE"
  shows "\<exists>b u t. bread ROOTDEV k s = Ok b u \<and> klog.more u = klog.more s \<and> bio_frame s u \<and>
    thn (bnd (getbuf b) (\<lambda>x. set_data b (f (bdata x)))) (thn (bwrite b) (brelse b)) u = Ok () t \<and>
    copied k (f (content s k)) s t"
proof -
  obtain b u where b: "bread ROOTDEV k s = Ok b u" "bread_post {} k s b u"
    using bread_run [of "{}" s k] assms by auto
  note u = b(2) [unfolded bread_post_def]
  have bn: "b < NBUF" and uok: "bio_ok {b} u" using u by auto
  have qu: "quiet u" using u assms(2) bio_frameD(6) [of s u] by simp
  have len: "length (content s k) = BSIZE" using bio_okD(3) [OF uok bn] u by (auto simp: buf_ok_def caches_def)
  let ?v = "f (content s k)"
  have len': "length ?v = BSIZE" using assms(5) [OF len] .
  obtain s1 where s1: "set_data b ?v u = Ok () s1" "bio_ok {b} s1" "bio_frame u s1" "disk s1 = disk u" "writes s1 = writes u"
    "content s1 = (content u)(k := ?v)" "pinned s1 = pinned u" "bufs s1 = (bufs u)[b := (bufs u ! b)\<lparr>bdata := ?v\<rparr>]"
    using set_data_run [OF uok _ _ _ len', of b k] u by auto
  have b1: "bufs s1 ! b = (bufs u ! b)\<lparr>bdata := ?v\<rparr>" using s1(8) bn bio_ok_length [OF uok] by simp
  have q1: "quiet s1" using qu bio_frameD(6) [OF s1(3)] by simp
  obtain s2 where s2: "bwrite b s1 = Ok () s2" "bio_ok {b} s2" "bio_frame s1 s2" "disk s2 = (disk s1)(k := ?v)"
    "writes s2 = writes s1 @ [(k, ?v)]" "content s2 = content s1" "pinned s2 = pinned s1 - {k}"
    "bufs s2 = (bufs s1)[b := (bufs s1 ! b)\<lparr>bdirty := False\<rparr>]"
    using bwrite_run [OF s1(2) q1, of b k] b1 u by (auto simp: caches_def)
  have b2: "bdata (bufs s2 ! b) = ?v" "blockno (bufs s2 ! b) = k"
    using s2(8) b1 bn bio_ok_length [OF s1(2)] u by (auto simp: caches_def)
  have q2: "quiet s2" using q1 bio_frameD(6) [OF s2(3)] by simp
  obtain t where t: "brelse b s2 = Ok () t" "bio_ok {} t" "bio_frame s2 t" "disk t = disk s2" "writes t = writes s2"
    "content t = content s2" "pinned t = pinned s2"
    using brelse_client [OF s2(2) q2, of b] b2 s2(4) by auto
  have "thn (bnd (getbuf b) (\<lambda>x. set_data b (f (bdata x)))) (thn (bwrite b) (brelse b)) u = Ok () t"
    using s1(1) s2(1) t(1) u by (simp add: kdefs getbuf_def)
  moreover have su: "bio_frame s u" using u by simp
  moreover have "bio_frame s t"
    by (rule bio_frame_trans [OF su bio_frame_trans [OF s1(3) bio_frame_trans [OF s2(3) t(3)]]])
  then have "copied k ?v s t"
    using u t s2(4-7) s1(4-7) unfolding copied_def by (simp only: append_assoc)
  ultimately show ?thesis
    using b(1) klog_frame(8) [OF su] by blast
qed

lemma write_head_run:
  assumes "bio_ok {} s" "quiet s" "ldev s = ROOTDEV" "lstart s < disksize s" "card (pinned s) < NBUF"
    "lhn s \<le> LOGSIZE" "length (lhblock s) = LOGSIZE"
  shows "\<exists>t. write_head s = Ok () t \<and> copied (lstart s) (splice 0 (hdr_bytes (lhn s) (lhblock s)) (content s (lstart s))) s t"
proof -
  let ?f = "\<lambda>d. splice 0 (hdr_bytes (lhn s) (lhblock s)) d"
  have "length (?f d) = BSIZE" if "length d = BSIZE" for d
    using that assms(6,7) by (simp add: length_hdr_bytes BSIZE_def LOGSIZE_def MAXOPBLOCKS_def)
  from rewrite_block [OF assms(1,2,4,5), of ?f] this obtain b u t where
    "bread ROOTDEV (lstart s) s = Ok b u" "bio_frame s u"
    "thn (bnd (getbuf b) (\<lambda>x. set_data b (?f (bdata x)))) (thn (bwrite b) (brelse b)) u = Ok () t"
    "copied (lstart s) (?f (content s (lstart s))) s t" by blast
  then show ?thesis
    using assms(3) klog_frame(3,4) [of s u] by (simp add: write_head_def bnd_Ok)
qed

section \<open>The two copying phases\<close>

lemma copy_body:
  assumes "bio_ok {} t" "quiet t" "x < disksize t" "y < disksize t" "x \<noteq> y" "card (pinned t) + 1 < NBUF"
  shows "\<exists>u. bnd (bread ROOTDEV x) (\<lambda>b. bnd (bread ROOTDEV y) (\<lambda>c. copy_release b c)) t = Ok () u \<and> copied y (content t x) t u"
    "\<exists>u. bnd (bread ROOTDEV x) (\<lambda>b. bnd (bread ROOTDEV y) (\<lambda>c. copy_release c b)) t = Ok () u \<and> copied x (content t y) t u"
proof -
  obtain b c r u where r: "bread ROOTDEV x t = Ok b r" "bread ROOTDEV y r = Ok c u" and ok: "bio_ok {b, c} u" and ne: "b \<noteq> c"
    and fr: "bio_frame t u" and e: "disk u = disk t" "writes u = writes t" "content u = content t" "pinned u = pinned t"
    and bx: "caches x (bufs u ! b)" "bvalid (bufs u ! b)" "bdata (bufs u ! b) = content t x" "bdirty (bufs u ! b) \<longleftrightarrow> x \<in> pinned t"
    and cy: "caches y (bufs u ! c)" "bvalid (bufs u ! c)" "bdata (bufs u ! c) = content t y" "bdirty (bufs u ! c) \<longleftrightarrow> y \<in> pinned t"
    using bread_two [OF assms] by blast
  have q: "quiet u" using assms(2) bio_frameD(6) [OF fr] by simp
  have up: "copied k v u w \<Longrightarrow> copied k v t w" for k v w
    using e fr bio_frame_trans by (auto simp: copied_def)
  have cl: "\<not> bdirty (bufs u ! b) \<Longrightarrow> bdata (bufs u ! b) = disk u x" "\<not> bdirty (bufs u ! c) \<Longrightarrow> bdata (bufs u ! c) = disk u y"
    using bx cy e content_unpinned [OF assms(1)] by auto
  obtain w where w: "copy_release b c u = Ok () w" "copied y (content t x) u w"
    using copy_release_run [OF ok q ne assms(5) bx(1,2) cl(1) cy(1,2)] bx by auto
  then show "\<exists>u. bnd (bread ROOTDEV x) (\<lambda>b. bnd (bread ROOTDEV y) (\<lambda>c. copy_release b c)) t = Ok () u \<and> copied y (content t x) t u"
    using r up by (auto simp: bnd_Ok)
  have "{c, b} = {b, c}" by auto
  then obtain w' where "copy_release c b u = Ok () w'" "copied x (content t y) u w'"
    using copy_release_run [of c b u y x] ok q ne assms(5) cy bx cl by auto
  then show "\<exists>u. bnd (bread ROOTDEV x) (\<lambda>b. bnd (bread ROOTDEV y) (\<lambda>c. copy_release c b)) t = Ok () u \<and> copied x (content t y) t u"
    using r up by (auto simp: bnd_Ok)
qed

text \<open>The block writes of the phases of a commit.\<close>

definition log_writes :: "'z klog_scheme \<Rightarrow> (nat \<times> byte list) list" where
  "log_writes s = map (\<lambda>i. (lstart s + i + 1, content s (lhblock s ! i))) [0..<lhn s]"

definition home_writes :: "(nat \<Rightarrow> byte list) \<Rightarrow> 'z klog_scheme \<Rightarrow> (nat \<times> byte list) list" where
  "home_writes d s = map (\<lambda>i. (lhblock s ! i, d (lstart s + i + 1))) [0..<lhn s]"

definition phase :: "(nat \<times> byte list) list \<Rightarrow> 'z kbio_scheme \<Rightarrow> 'z kbio_scheme \<Rightarrow> bool" where
  "phase ws s t = (bio_ok {} t \<and> bio_frame s t \<and> disk t = apply_writes ws (disk s) \<and> writes t = writes s @ ws \<and>
     content t = apply_writes ws (content s) \<and> pinned t = pinned s - fst ` set ws)"

lemma copied_phase: "copied k v s t \<longleftrightarrow> phase [(k, v)] s t"
  by (auto simp: copied_def phase_def)

lemma phase_trans: "phase xs s t \<Longrightarrow> phase ys t u \<Longrightarrow> phase (xs @ ys) s u"
  using bio_frame_trans by (auto simp: phase_def apply_writes_append)

lemma log_ok_entry:
  assumes "log_ok s" "i < lhn s" "j < lhn s"
  shows "lstart s + i + 1 < disksize s" "lhblock s ! i < disksize s" "lstart s + j + 1 \<noteq> lhblock s ! i"
proof -
  have "lhblock s ! i < disksize s" "lhblock s ! i \<notin> {lstart s..<lstart s + LOGSIZE}" "lhn s < LOGSIZE" "lstart s + LOGSIZE \<le> disksize s"
    using assms by (auto simp: log_ok_def log_region_def)
  then show "lstart s + i + 1 < disksize s" "lhblock s ! i < disksize s" "lstart s + j + 1 \<noteq> lhblock s ! i"
    using assms(2,3) by auto
qed

lemma write_log_run:
  assumes ok: "bio_ok {} s" and q: "quiet s" and l: "log_ok s" "lhn s + 2 \<le> NBUF"
  shows "\<exists>t. write_log s = Ok () t \<and> phase (log_writes s) s t"
proof -
  let ?body = "\<lambda>tail. bnd (gets (\<lambda>s. (ldev s, lstart s + tail + 1, lhblock s ! tail))) (\<lambda>(dev, a, c).
     bnd (bread dev a) (\<lambda>to. bnd (bread dev c) (\<lambda>from. copy_release from to)))"
  have step: "\<exists>u. ?body i t = Ok () u \<and> copied (lstart s + i + 1) (content s (lhblock s ! i)) t u"
    if "i < lhn s" "bio_ok {} t" "bio_frame s t" "pinned t \<subseteq> pinned s" "content t (lhblock s ! i) = content s (lhblock s ! i)" for i t
  proof -
    have "card (pinned t) + 1 < NBUF"
      using pinned_room [OF l] card_mono [OF pinned_finite that(4)] by linarith
    then show ?thesis
      using copy_body(2) [OF that(2), of "lstart s + i + 1" "lhblock s ! i"] log_ok_entry [OF l(1) that(1,1)] q that
        bio_frameD(3,6) [OF that(3)] klog_frame [OF that(3)] l(1) by (auto simp: log_ok_def)
  qed
  have "\<exists>t. foreach [0..<lhn s] ?body s = Ok () t \<and> bio_ok {} t \<and> bio_frame s t \<and>
    (let ws = map (\<lambda>i. (lstart s + i + 1, content s (lhblock s ! i))) [0..<lhn s] in
     disk t = apply_writes ws (disk s) \<and> writes t = writes s @ ws \<and> content t = apply_writes ws (content s)) \<and>
    pinned t = pinned s - (\<lambda>i. lstart s + i + 1) ` {..<lhn s}"
    by (rule copy_loop [OF ok step]) (use log_ok_entry [OF l(1)] in \<open>auto simp: eq_commute\<close>)
  moreover have "fst ` set (log_writes s) = (\<lambda>i. lstart s + i + 1) ` {..<lhn s}"
    by (auto simp: log_writes_def image_iff)
  ultimately show ?thesis
    by (auto simp: write_log_def phase_def log_writes_def copy_release_def Let_def)
qed

lemma install_trans_run:
  assumes ok: "bio_ok {} s" and q: "quiet s" and l: "log_ok s" "lhn s + 2 \<le> NBUF"
  shows "\<exists>t. install_trans s = Ok () t \<and> phase (home_writes (content s) s) s t"
proof -
  let ?body = "\<lambda>tail. bnd (gets (\<lambda>s. (ldev s, lstart s + tail + 1, lhblock s ! tail))) (\<lambda>(dev, a, c).
     bnd (bread dev a) (\<lambda>lbuf. bnd (bread dev c) (\<lambda>dbuf. copy_release lbuf dbuf)))"
  have step: "\<exists>u. ?body i t = Ok () u \<and> copied (lhblock s ! i) (content s (lstart s + i + 1)) t u"
    if "i < lhn s" "bio_ok {} t" "bio_frame s t" "pinned t \<subseteq> pinned s" "content t (lstart s + i + 1) = content s (lstart s + i + 1)" for i t
  proof -
    have "card (pinned t) + 1 < NBUF"
      using pinned_room [OF l] card_mono [OF pinned_finite that(4)] by linarith
    then show ?thesis
      using copy_body(1) [OF that(2), of "lstart s + i + 1" "lhblock s ! i"] log_ok_entry [OF l(1) that(1,1)] q that
        bio_frameD(3,6) [OF that(3)] klog_frame [OF that(3)] l(1) by (auto simp: log_ok_def)
  qed
  have "\<exists>t. foreach [0..<lhn s] ?body s = Ok () t \<and> bio_ok {} t \<and> bio_frame s t \<and>
    (let ws = map (\<lambda>i. (lhblock s ! i, content s (lstart s + i + 1))) [0..<lhn s] in
     disk t = apply_writes ws (disk s) \<and> writes t = writes s @ ws \<and> content t = apply_writes ws (content s)) \<and>
    pinned t = pinned s - (\<lambda>i. lhblock s ! i) ` {..<lhn s}"
    by (rule copy_loop [OF ok step]) (use log_ok_entry [OF l(1)] in \<open>auto\<close>)
  moreover have "fst ` set (home_writes (content s) s) = (\<lambda>i. lhblock s ! i) ` {..<lhn s}"
    by (simp add: home_writes_def image_image atLeast0LessThan)
  ultimately show ?thesis
    by (auto simp: install_trans_def phase_def home_writes_def copy_release_def Let_def)
qed

lemma log_fields_bio [simp]:
  "content (s\<lparr>lhn := n\<rparr>) = content s" "content (s\<lparr>lhblock := bs\<rparr>) = content s"
  "bio_ok L (s\<lparr>lhn := n\<rparr>) = bio_ok L s" "bio_ok L (s\<lparr>lhblock := bs\<rparr>) = bio_ok L s"
  "pinned (s\<lparr>lhn := n\<rparr>) = pinned s" "pinned (s\<lparr>lhblock := bs\<rparr>) = pinned s"
  "quiet (s\<lparr>lhn := n\<rparr>) = quiet s" "quiet (s\<lparr>lhblock := bs\<rparr>) = quiet s"
  by (simp_all add: content_def cached_at_def bio_ok_def bufs_held_def pinned_def quiet_def fun_eq_iff split: option.split)

lemma log_fields_frame:
  assumes "bio_frame s u"
  shows "bio_frame (s\<lparr>lhn := n, lhblock := bs\<rparr>) (u\<lparr>lhn := n, lhblock := bs\<rparr>)"
proof -
  obtain pt sl sp B d w where *: "woke_only (ptable s) pt"
    "u = s\<lparr>ptable := pt, slocked := sl, slpid := sp, bufs := B, disk := d, writes := w\<rparr>"
    using assms by (auto simp: bio_frame_def)
  have "u\<lparr>lhn := n, lhblock := bs\<rparr> =
      (s\<lparr>lhn := n, lhblock := bs\<rparr>)\<lparr>ptable := pt, slocked := sl, slpid := sp, bufs := B, disk := d, writes := w\<rparr>"
    unfolding *(2) by (cases s) simp
  with *(1) show ?thesis using bio_frameI [of "s\<lparr>lhn := n, lhblock := bs\<rparr>" pt] by simp
qed

lemma lhn_frame:
  assumes "bio_frame s u"
  shows "bio_frame (s\<lparr>lhn := n\<rparr>) (u\<lparr>lhn := n\<rparr>)"
proof -
  have "u\<lparr>lhn := n, lhblock := lhblock s\<rparr> = u\<lparr>lhn := n\<rparr>"
    using klog_frame(4) [OF assms] by (cases u) simp
  then show ?thesis using log_fields_frame [OF assms, where n = n and bs = "lhblock s"] by simp
qed

lemma read_head_run:
  assumes ok: "bio_ok {} s" and q: "quiet s" and l: "ldev s = ROOTDEV" "lstart s < disksize s" "card (pinned s) < NBUF"
    and n: "hdr_word (content s (lstart s)) 0 = n" "n \<le> LOGSIZE" and p: "lstart s \<notin> pinned s"
  shows "\<exists>t. read_head s = Ok () t \<and> phase [] (s\<lparr>lhn := n,
    lhblock := map (\<lambda>i. hdr_word (content s (lstart s)) (i + 1)) [0..<n] @ drop n (lhblock s)\<rparr>) t"
proof -
  obtain b u where b: "bread ROOTDEV (lstart s) s = Ok b u" "bread_post {} (lstart s) s b u"
    using bread_run [of "{}" s "lstart s"] ok q l by auto
  note u = b(2) [unfolded bread_post_def]
  have su: "bio_frame s u" using u by simp
  let ?up = "\<lambda>s. s\<lparr>lhn := n, lhblock := map (\<lambda>i. hdr_word (content s (lstart s)) (i + 1)) [0..<n] @ drop n (lhblock s)\<rparr>"
  have lu: "lstart u = lstart s" "lhblock u = lhblock s" using klog_frame [OF su] by simp_all
  have up: "content (?up u) = content u" "bio_ok {b} (?up u)" "pinned (?up u) = pinned u" "quiet (?up u)"
    using u q bio_frameD(6) [OF su] by simp_all
  have fr: "bio_frame (?up s) (?up u)"
    using log_fields_frame [OF su] u lu by simp
  have cl: "bdata (bufs u ! b) = disk u (blockno (bufs u ! b))"
    using u content_unpinned [OF ok p] by (simp add: caches_def)
  obtain t where t: "brelse b (?up u) = Ok () t" "bio_ok {} t" "bio_frame (?up u) t" "disk t = disk u" "writes t = writes u"
    "content t = content u" "pinned t = pinned u"
    using brelse_client [OF up(2) up(4), of b] cl up by auto
  have "read_head s = Ok () t"
    using b(1) t(1) u n lu l(1) by (simp add: read_head_def bnd_Ok getbuf_def)
  moreover have "phase [] (?up s) t"
    using t u bio_frame_trans [OF fr t(3)] by (simp add: phase_def)
  ultimately show ?thesis by blast
qed

section \<open>Commit\<close>

lemma log_ok_phase:
  assumes "log_ok s" "phase ws s t"
  shows "log_ok t"
  using assms klog_frame [of s t] bio_frameD(3) [of s t] by (auto simp: phase_def log_ok_def log_region_def)

lemma phase_quiet: "phase ws s t \<Longrightarrow> quiet t = quiet s"
  using bio_frameD(6) [of s t] by (auto simp: phase_def)

definition head_block :: "nat \<Rightarrow> 'z klog_scheme \<Rightarrow> byte list \<Rightarrow> byte list" where
  "head_block n s d = splice 0 (hdr_bytes n (lhblock s)) d"

definition commit_head :: "'z klog_scheme \<Rightarrow> byte list" where
  "commit_head s = head_block (lhn s) s (content s (lstart s))"

definition home_copies :: "'z klog_scheme \<Rightarrow> (nat \<times> byte list) list" where
  "home_copies s = map (\<lambda>i. (lhblock s ! i, content s (lhblock s ! i))) [0..<lhn s]"

text \<open>Every block write of a commit, in order.\<close>

definition commit_writes :: "'z klog_scheme \<Rightarrow> (nat \<times> byte list) list" where
  "commit_writes s = log_writes s @ (lstart s, commit_head s) # home_copies s @ [(lstart s, head_block 0 s (commit_head s))]"

lemma log_writes_keys:
  "distinct (map fst (log_writes s))" "fst ` set (log_writes s) = {lstart s + 1..<lstart s + lhn s + 1}"
proof -
  have m: "map fst (log_writes s) = map (\<lambda>i. lstart s + i + 1) [0..<lhn s]" by (simp add: log_writes_def)
  show "distinct (map fst (log_writes s))" unfolding m by (simp add: distinct_map inj_on_def)
  have "fst ` set (log_writes s) = (+) (lstart s + 1) ` {0..<lhn s}"
    by (simp add: log_writes_def image_image)
  also have "\<dots> = {lstart s + 1..<lstart s + lhn s + 1}"
    unfolding image_add_atLeastLessThan by (simp add: add_ac)
  finally show "fst ` set (log_writes s) = {lstart s + 1..<lstart s + lhn s + 1}" .
qed

lemma take_map_nth: "n \<le> length xs \<Longrightarrow> map ((!) xs) [0..<n] = take n xs"
  by (rule nth_equalityI) auto

lemma home_copies_keys:
  assumes "log_ok s"
  shows "map fst (home_copies s) = take (lhn s) (lhblock s)" "distinct (map fst (home_copies s))"
    "fst ` set (home_copies s) = set (take (lhn s) (lhblock s))"
proof -
  have "map fst (home_copies s) = map (\<lambda>i. lhblock s ! i) [0..<lhn s]" by (simp add: home_copies_def)
  then show m: "map fst (home_copies s) = take (lhn s) (lhblock s)"
    using assms by (simp add: take_map_nth log_ok_def)
  with assms show "distinct (map fst (home_copies s))" by (simp add: log_ok_def)
  show "fst ` set (home_copies s) = set (take (lhn s) (lhblock s))" unfolding m [symmetric] by simp
qed

lemma logged_content:
  assumes "log_ok s" "i < lhn s"
  shows "apply_writes (log_writes s) d (lstart s + i + 1) = content s (lhblock s ! i)"
  by (rule apply_writes_in) (use assms log_writes_keys(1) in \<open>auto simp: log_writes_def\<close>)

lemma log_ok_head:
  assumes "log_ok s"
  shows "lstart s \<notin> pinned s" "lstart s \<notin> fst ` set (log_writes s)" "lstart s \<notin> set (take (lhn s) (lhblock s))"
proof -
  show n: "lstart s \<notin> set (take (lhn s) (lhblock s))"
    using assms by (auto simp: log_ok_def log_region_def in_set_conv_nth)
  then show "lstart s \<notin> pinned s" using assms by (auto simp: log_ok_def)
  show "lstart s \<notin> fst ` set (log_writes s)" by (simp add: log_writes_keys)
qed

lemma commit_run:
  assumes ok: "bio_ok {} s" and q: "quiet s" and l: "log_ok s" "lhn s + 2 \<le> NBUF" and n: "0 < lhn s"
  shows "\<exists>t. commit s = Ok () t \<and> phase (commit_writes s) (s\<lparr>lhn := 0\<rparr>) t \<and> pinned t = {}"
proof -
  obtain t1 where t1: "write_log s = Ok () t1" "phase (log_writes s) s t1" using write_log_run [OF ok q l] by blast
  note l1 = log_ok_phase [OF l(1) t1(2)] and f1 = klog_frame [of s t1]
  have e1: "lhn t1 = lhn s" "lhblock t1 = lhblock s" "lstart t1 = lstart s" "bio_ok {} t1" "quiet t1"
    using t1(2) f1 phase_quiet [OF t1(2)] q by (auto simp: phase_def)
  have c1: "content t1 (lstart s) = content s (lstart s)"
    using t1(2) log_ok_head(2) [OF l(1)] by (simp add: phase_def apply_writes_other)
  obtain t2 where t2: "write_head t1 = Ok () t2" "phase [(lstart s, commit_head s)] t1 t2"
    using write_head_run [of t1] l1 e1 c1 pinned_room [OF l1] l(2)
    by (auto simp: log_ok_def copied_phase commit_head_def head_block_def)
  note p2 = phase_trans [OF t1(2) t2(2)] and l2 = log_ok_phase [OF l1 t2(2)]
  have e2: "lhn t2 = lhn s" "lhblock t2 = lhblock s" "lstart t2 = lstart s" "bio_ok {} t2" "quiet t2"
    using p2 klog_frame [of s t2] phase_quiet [OF p2] q by (auto simp: phase_def)
  have "content t2 (lstart s + i + 1) = content s (lhblock s ! i)" if "i < lhn s" for i
    using p2 logged_content [OF l(1) that] by (simp add: phase_def apply_writes_append)
  then have h: "home_writes (content t2) t2 = home_copies s"
    using e2 by (simp add: home_writes_def home_copies_def)
  obtain t3 where t3: "install_trans t2 = Ok () t3" "phase (home_copies s) t2 t3"
    using install_trans_run [OF e2(4,5) l2] l(2) e2(1) h by auto
  note p3 = phase_trans [OF p2 t3(2)]
  have e3: "lhblock t3 = lhblock s" "lstart t3 = lstart s" "bio_ok {} t3" "quiet t3" "ldev t3 = ldev s" "disksize t3 = disksize s"
    using p3 klog_frame [of s t3] phase_quiet [OF p3] q bio_frameD(3) [of s t3] by (auto simp: phase_def)
  have "pinned t3 = {}"
    using p3 l(1) home_copies_keys(3) [OF l(1)] by (auto simp: phase_def log_ok_def image_Un)
  moreover have c3: "content t3 (lstart s) = commit_head s"
    using t3(2) t2(2) log_ok_head(3) [OF l(1)] home_copies_keys(3) [OF l(1)]
    by (simp add: phase_def apply_writes_other)
  ultimately obtain t4 where t4: "write_head (t3\<lparr>lhn := 0\<rparr>) = Ok () t4"
    "phase [(lstart s, head_block 0 s (commit_head s))] (t3\<lparr>lhn := 0\<rparr>) t4"
    using write_head_run [of "t3\<lparr>lhn := 0\<rparr>"] e3 l(1) by (auto simp: log_ok_def copied_phase head_block_def NBUF_def)
  have "commit s = Ok () t4"
    using n t1(1) t2(1) t3(1) t4(1) by (simp add: commit_def whenk_apply thn_Ok)
  moreover have "phase (commit_writes s) (s\<lparr>lhn := 0\<rparr>) t4"
  proof -
    have "phase ((log_writes s @ [(lstart s, commit_head s)]) @ home_copies s) (s\<lparr>lhn := 0\<rparr>) (t3\<lparr>lhn := 0\<rparr>)"
      using p3 lhn_frame [of s t3] by (simp add: phase_def)
    from phase_trans [OF this t4(2)] show ?thesis by (simp add: commit_writes_def)
  qed
  moreover have "pinned t4 = {}" using t4(2) \<open>pinned t3 = {}\<close> by (simp add: phase_def)
  ultimately show ?thesis by blast
qed

section \<open>Recovery\<close>

text \<open>A machine that has just booted from disk contents \<open>d\<close> with the log at \<open>start\<close>: nothing is pinned.\<close>

definition booted :: "nat \<Rightarrow> (nat \<Rightarrow> byte list) \<Rightarrow> 'z klog_scheme \<Rightarrow> bool" where
  "booted start d r = (bio_ok {} r \<and> quiet r \<and> disk r = d \<and> pinned r = {} \<and> ldev r = ROOTDEV \<and> lstart r = start \<and>
     start + LOGSIZE \<le> disksize r \<and> disksize r < 2 ^ 32 \<and> lsize r \<le> LOGSIZE \<and> length (lhblock r) = LOGSIZE)"

text \<open>The block numbers in a header block, and what recovery copies for them.\<close>

definition hdr_blocks :: "byte list \<Rightarrow> nat list" where
  "hdr_blocks h = map (\<lambda>i. hdr_word h (i + 1)) [0..<hdr_word h 0]"

definition recovery_copies :: "nat \<Rightarrow> (nat \<Rightarrow> byte list) \<Rightarrow> (nat \<times> byte list) list" where
  "recovery_copies start d = map (\<lambda>i. (hdr_blocks (d start) ! i, d (start + i + 1))) [0..<hdr_word (d start) 0]"

lemma recover_run:
  assumes r: "booted start d r" and n: "hdr_word (d start) 0 + 2 \<le> NBUF" "hdr_word (d start) 0 < LOGSIZE"
    and b: "distinct (hdr_blocks (d start))" "\<forall>k \<in> set (hdr_blocks (d start)). k < disksize r \<and> k \<notin> {start..<start + LOGSIZE}"
  shows "\<exists>t v. recover_from_log r = Ok () t \<and> disk t = apply_writes (recovery_copies start d @ [(start, v)]) d \<and>
    bio_ok {} t \<and> pinned t = {} \<and> lhn t = 0 \<and> content t = disk t"
proof -
  let ?n = "hdr_word (d start) 0"
  let ?bs = "hdr_blocks (d start) @ drop ?n (lhblock r)"
  note rd = r [unfolded booted_def]
  have c: "content r = d" using rd content_unpinned [of r] by (auto simp: fun_eq_iff)
  obtain t1 where t1: "read_head r = Ok () t1" "phase [] (r\<lparr>lhn := ?n, lhblock := ?bs\<rparr>) t1"
    using read_head_run [of r ?n] rd c n(2) by (auto simp: hdr_blocks_def NBUF_def)
  let ?r = "r\<lparr>lhn := ?n, lhblock := ?bs\<rparr>"
  have take: "take ?n ?bs = hdr_blocks (d start)" "length (hdr_blocks (d start)) = ?n" by (simp_all add: hdr_blocks_def)
  have nth: "?bs ! i = hdr_blocks (d start) ! i" if "i < ?n" for i using that take by (simp add: nth_append)
  have "log_ok ?r"
    using rd b n(2) take nth by (auto simp: log_ok_def log_region_def)
  then have l1: "log_ok t1" using t1(2) by (rule log_ok_phase)
  have e1: "lhn t1 = ?n" "lhblock t1 = ?bs" "lstart t1 = start" "bio_ok {} t1" "quiet t1" "content t1 = d" "disk t1 = d" "pinned t1 = {}"
    using t1(2) klog_frame [of ?r t1] phase_quiet [OF t1(2)] rd c by (auto simp: phase_def)
  have h: "home_writes (content t1) t1 = recovery_copies start d"
    using e1 nth by (simp add: home_writes_def recovery_copies_def)
  obtain t2 where t2: "install_trans t1 = Ok () t2" "phase (recovery_copies start d) t1 t2"
    using install_trans_run [OF e1(4,5) l1] n(1) e1(1) h by auto
  have e2: "lhblock t2 = ?bs" "lstart t2 = start" "bio_ok {} t2" "quiet t2" "ldev t2 = ROOTDEV" "disksize t2 = disksize r" "pinned t2 = {}"
    using t2(2) klog_frame [of t1 t2] phase_quiet [OF t2(2)] e1 l1 bio_frameD(3) [of t1 t2] t1(2) bio_frameD(3) [of ?r t1]
    by (auto simp: phase_def log_ok_def)
  obtain t3 v where t3: "write_head (t2\<lparr>lhn := 0\<rparr>) = Ok () t3" "phase [(start, v)] (t2\<lparr>lhn := 0\<rparr>) t3"
    using write_head_run [of "t2\<lparr>lhn := 0\<rparr>"] e2 rd take n(2) by (auto simp: copied_phase NBUF_def)
  have "recover_from_log r = Ok () t3"
    using t1(1) t2(1) t3(1) by (simp add: recover_from_log_def thn_Ok)
  moreover have "disk t3 = apply_writes (recovery_copies start d @ [(start, v)]) d"
    using t2(2) t3(2) e1 by (simp add: phase_def apply_writes_append)
  moreover have "bio_ok {} t3" "pinned t3 = {}" "lhn t3 = 0"
    using t3(2) e2 klog_frame(3) [of "t2\<lparr>lhn := 0\<rparr>" t3] by (auto simp: phase_def)
  ultimately show ?thesis using content_unpinned [of t3] by (auto simp: fun_eq_iff)
qed

section \<open>Crashes during a commit\<close>

lemma take_commit_writes:
  assumes "k \<le> length (commit_writes s)"
  shows "k \<le> lhn s \<and> take k (commit_writes s) = take k (log_writes s) \<or>
    (\<exists>j \<le> lhn s. take k (commit_writes s) = log_writes s @ (lstart s, commit_head s) # take j (home_copies s)) \<or>
    take k (commit_writes s) = commit_writes s"
proof -
  have len: "length (log_writes s) = lhn s" "length (home_copies s) = lhn s" by (simp_all add: log_writes_def home_copies_def)
  have "length (commit_writes s) = lhn s + Suc (Suc (lhn s))" using len by (simp add: commit_writes_def)
  with assms consider "k \<le> lhn s" | "lhn s < k" "k - Suc (lhn s) \<le> lhn s" | "k = length (commit_writes s)" by linarith
  then show ?thesis
  proof cases
    case 1
    then show ?thesis using len by (simp add: commit_writes_def)
  next
    case 2
    then have "take k (commit_writes s) = log_writes s @ (lstart s, commit_head s) # take (k - Suc (lhn s)) (home_copies s)"
      using len by (simp add: commit_writes_def take_Cons')
    with 2(2) show ?thesis by blast
  qed simp
qed

lemma set_take_fst: "fst ` set (take j ws) \<subseteq> fst ` set ws"
  by (rule image_mono) (rule set_take_subset)

lemma not_logged:
  assumes "bio_ok {} s" "log_ok s" "b \<notin> set (take (lhn s) (lhblock s))"
  shows "content s b = disk s b"
  using assms by (intro content_unpinned) (auto simp: log_ok_def)

lemma home_copies_in:
  assumes "log_ok s" "b \<in> set (take (lhn s) (lhblock s))"
  shows "apply_writes (home_copies s) d b = content s b"
proof (rule apply_writes_in [OF home_copies_keys(2) [OF assms(1)]])
  have "b \<in> fst ` set (home_copies s)" using home_copies_keys(3) [OF assms(1)] assms(2) by simp
  then show "(b, content s b) \<in> set (home_copies s)" by (auto simp: home_copies_def)
qed

lemma commit_head_decodes:
  assumes "log_ok s"
  shows "hdr_word (commit_head s) 0 = lhn s" "hdr_blocks (commit_head s) = take (lhn s) (lhblock s)"
    "hdr_word (head_block 0 s h) 0 = 0"
proof -
  have b: "lhn s \<le> length (lhblock s)" "lhn s < 2 ^ 32" "i < lhn s \<Longrightarrow> lhblock s ! i < 2 ^ 32" for i
    using assms by (auto simp: log_ok_def LOGSIZE_def MAXOPBLOCKS_def intro: less_trans)
  show n: "hdr_word (commit_head s) 0 = lhn s"
    using hdr_word_bytes(1) [OF b(1,2), of 0] b(3) by (simp add: commit_head_def head_block_def)
  have "hdr_word (commit_head s) (i + 1) = lhblock s ! i" if "i < lhn s" for i
    using hdr_word_bytes(2) [OF b(1,2), of i] b(3) that by (simp add: commit_head_def head_block_def)
  then show "hdr_blocks (commit_head s) = take (lhn s) (lhblock s)"
    using n b(1) by (intro nth_equalityI) (simp_all add: hdr_blocks_def)
  show "hdr_word (head_block 0 s h) 0 = 0"
    using hdr_word_bytes(1) [of 0 "lhblock s" 0] by (simp add: head_block_def)
qed

lemma empty_header_recovery:
  assumes "booted start d r" "hdr_word (d start) 0 = 0"
  shows "\<exists>u. recover_from_log r = Ok () u \<and> (\<forall>b. b \<noteq> start \<longrightarrow> disk u b = d b)"
  using recover_run [OF assms(1)] assms(2)
  by (auto simp: hdr_blocks_def recovery_copies_def NBUF_def)

text \<open>The disk after the header was written and before it was cleared.\<close>

lemma committed_disk:
  assumes l: "log_ok s" and d: "d = apply_writes (log_writes s @ (lstart s, commit_head s) # take j (home_copies s)) (disk s)"
  shows "d (lstart s) = commit_head s" "recovery_copies (lstart s) d = home_copies s"
    "b \<notin> log_region s \<Longrightarrow> b \<notin> set (take (lhn s) (lhblock s)) \<Longrightarrow> d b = disk s b"
proof -
  have keys: "fst ` set (take j (home_copies s)) \<subseteq> set (take (lhn s) (lhblock s))"
    using set_take_fst [of j "home_copies s"] home_copies_keys(3) [OF l] by simp
  have region: "x \<notin> set (take (lhn s) (lhblock s))" if "x \<in> log_region s" for x
    using l that by (auto simp: log_ok_def in_set_conv_nth)
  have nt: "x \<notin> fst ` set (take j (home_copies s))" if "x \<in> log_region s" for x
    using region [OF that] keys by blast
  have "lstart s \<in> log_region s" by (simp add: log_region_def)
  then show h: "d (lstart s) = commit_head s"
    unfolding d using nt by (simp add: apply_writes_append apply_writes_other)
  have "d (lstart s + i + 1) = content s (lhblock s ! i)" if "i < lhn s" for i
  proof -
    have "lstart s + i + 1 \<in> log_region s" using l that by (simp add: log_region_def log_ok_def)
    from nt [OF this] show ?thesis
      unfolding d using logged_content [OF l that] by (simp add: apply_writes_append apply_writes_other)
  qed
  then show "recovery_copies (lstart s) d = home_copies s"
    using h commit_head_decodes [OF l] l by (simp add: recovery_copies_def home_copies_def log_ok_def)
  show "d b = disk s b" if "b \<notin> log_region s" "b \<notin> set (take (lhn s) (lhblock s))"
  proof -
    have "b \<notin> fst ` set (log_writes s)" "b \<noteq> lstart s"
      using that(1) l by (auto simp: log_writes_keys log_region_def log_ok_def)
    moreover have "b \<notin> fst ` set (take j (home_copies s))" using keys that(2) by blast
    ultimately show ?thesis unfolding d by (simp add: apply_writes_append apply_writes_other)
  qed
qed

lemma committed_recovery:
  assumes ok: "bio_ok {} s" and l: "log_ok s" "lhn s + 2 \<le> NBUF" and ds: "disksize r = disksize s"
    and d: "d = apply_writes (log_writes s @ (lstart s, commit_head s) # take j (home_copies s)) (disk s)"
    and r: "booted (lstart s) d r"
  shows "\<exists>u. recover_from_log r = Ok () u \<and> (\<forall>b. b \<notin> log_region s \<longrightarrow> disk u b = content s b)"
proof -
  note c = committed_disk [OF l(1) d] and h = commit_head_decodes [OF l(1)]
  have "\<forall>k \<in> set (take (lhn s) (lhblock s)). k < disksize s \<and> k \<notin> {lstart s..<lstart s + LOGSIZE}"
    using l(1) by (auto simp: log_ok_def log_region_def in_set_conv_nth)
  then obtain u v where u: "recover_from_log r = Ok () u" "disk u = apply_writes (home_copies s @ [(lstart s, v)]) d"
    using recover_run [OF r] c h l ds by (auto simp: log_ok_def)
  have "disk u b = content s b" if b: "b \<notin> log_region s" for b
  proof (cases "b \<in> set (take (lhn s) (lhblock s))")
    case True
    have "b \<noteq> lstart s" using b by (auto simp: log_region_def)
    with True show ?thesis using u(2) home_copies_in [OF l(1) True] by (simp add: apply_writes_append)
  next
    case False
    have "b \<noteq> lstart s" using b by (auto simp: log_region_def)
    moreover have "b \<notin> fst ` set (home_copies s)" using False home_copies_keys(3) [OF l(1)] by simp
    ultimately show ?thesis
      using u(2) c(3) [OF b False] not_logged [OF ok l(1) False] by (simp add: apply_writes_append apply_writes_other)
  qed
  with u(1) show ?thesis by blast
qed

lemma uncommitted_recovery:
  assumes l: "log_ok s" and e: "hdr_word (disk s (lstart s)) 0 = 0" and k: "k \<le> lhn s"
    and r: "booted (lstart s) (apply_writes (take k (commit_writes s)) (disk s)) r"
  shows "\<exists>u. recover_from_log r = Ok () u \<and> (\<forall>b. b \<notin> log_region s \<longrightarrow> disk u b = disk s b)"
proof -
  let ?d = "apply_writes (take k (commit_writes s)) (disk s)"
  have w: "take k (commit_writes s) = take k (log_writes s)"
    using k by (simp add: commit_writes_def log_writes_def)
  have "fst ` set (take k (log_writes s)) \<subseteq> log_region s - {lstart s}"
    using set_take_fst [of k "log_writes s"] l by (auto simp: log_writes_keys log_region_def log_ok_def)
  then have d: "?d b = disk s b" if "b \<notin> log_region s \<or> b = lstart s" for b
    unfolding w using that by (intro apply_writes_other) auto
  obtain u where "recover_from_log r = Ok () u" "\<forall>b. b \<noteq> lstart s \<longrightarrow> disk u b = ?d b"
    using empty_header_recovery [OF r] d e by auto
  moreover have "lstart s \<in> log_region s" by (simp add: log_region_def)
  ultimately show ?thesis using d by metis
qed

lemma finished_recovery:
  assumes ok: "bio_ok {} s" and l: "log_ok s" and r: "booted (lstart s) (apply_writes (commit_writes s) (disk s)) r"
  shows "\<exists>u. recover_from_log r = Ok () u \<and> (\<forall>b. b \<notin> log_region s \<longrightarrow> disk u b = content s b)"
proof -
  let ?d = "apply_writes (commit_writes s) (disk s)"
  have d: "?d = (apply_writes (home_copies s) (apply_writes (log_writes s @ [(lstart s, commit_head s)]) (disk s)))
      (lstart s := head_block 0 s (commit_head s))"
    by (simp add: commit_writes_def apply_writes_append)
  have d': "?d b = content s b" if b: "b \<notin> log_region s" for b
  proof (cases "b \<in> set (take (lhn s) (lhblock s))")
    case True
    then show ?thesis using home_copies_in [OF l True] b unfolding d by (auto simp: log_region_def)
  next
    case False
    have "b \<notin> fst ` set (log_writes s)" "b \<noteq> lstart s" "b \<notin> fst ` set (home_copies s)"
      using b l False home_copies_keys(3) [OF l] by (auto simp: log_writes_keys log_region_def log_ok_def)
    then show ?thesis
      using not_logged [OF ok l False] unfolding d by (simp add: apply_writes_append apply_writes_other)
  qed
  have "hdr_word (?d (lstart s)) 0 = 0" unfolding d using commit_head_decodes(3) [OF l] by simp
  then obtain u where "recover_from_log r = Ok () u" "\<forall>b. b \<noteq> lstart s \<longrightarrow> disk u b = ?d b"
    using empty_header_recovery [OF r] by blast
  moreover have "lstart s \<in> log_region s" by (simp add: log_region_def)
  ultimately show ?thesis using d' by metis
qed

lemma content_length:
  assumes "bio_ok {} s"
  shows "length (content s k) = BSIZE"
proof (cases "cached_at s k")
  case None
  then show ?thesis using assms by (simp add: content_def bio_ok_def)
next
  case (Some b)
  then have "b < NBUF" "caches k (bufs s ! b)" "bvalid (bufs s ! b)"
    using bio_ok_length [OF assms] find_index_take [of "bufs s"] by (auto simp: cached_at_def)
  then show ?thesis using Some bio_okD(3) [OF assms] by (simp add: content_def buf_ok_def caches_def)
qed

lemma head_block_length:
  "log_ok s \<Longrightarrow> n \<le> lhn s \<Longrightarrow> length h = BSIZE \<Longrightarrow> length (head_block n s h) = BSIZE"
  by (simp add: head_block_def length_hdr_bytes log_ok_def BSIZE_def LOGSIZE_def MAXOPBLOCKS_def)

lemma commit_value_length:
  assumes "bio_ok {} s" "log_ok s" "(x, v) \<in> set (commit_writes s)"
  shows "length v = BSIZE"
  using assms head_block_length [OF assms(2)] content_length [OF assms(1)]
  by (auto simp: commit_writes_def log_writes_def home_copies_def commit_head_def)

lemma apply_writes_length:
  assumes "\<And>x v. (x, v) \<in> set ws \<Longrightarrow> length v = n" "\<And>k. length (d k) = n"
  shows "length (apply_writes ws d k) = n"
  using assms
proof (induction ws arbitrary: d)
  case (Cons w ws)
  obtain x v where w: "w = (x, v)" by (cases w)
  have "length (apply_writes ws (d(x := v)) k) = n"
  proof (rule Cons.IH)
    show "\<And>x v. (x, v) \<in> set ws \<Longrightarrow> length v = n" using Cons.prems(1) by (meson list.set_intros(2))
    show "length ((d(x := v)) j) = n" for j using Cons.prems(1) [of x v] Cons.prems(2) w by simp
  qed
  with w show ?case by simp
qed simp

section \<open>Recording a block in the transaction\<close>

definition logged :: "'z klog_scheme \<Rightarrow> nat list" where
  "logged s = take (lhn s) (lhblock s)"

definition log_add :: "nat \<Rightarrow> 'z klog_scheme \<Rightarrow> 'z klog_scheme" where
  "log_add k s = (if k \<in> set (logged s) then s else s\<lparr>lhn := lhn s + 1, lhblock := (lhblock s)[lhn s := k]\<rparr>)"

lemma find_first_eq:
  "find_index (\<lambda>k. k = x) xs = (if x \<in> set xs then find_index (\<lambda>k. k = x) xs else None)"
  by (auto simp: find_index_None)

lemma log_write_form:
  assumes "quiet s" "lhn s < LOGSIZE" "int (lhn s) < int (lsize s) - 1" "outstanding s \<ge> 1" "lhn s < length (lhblock s)"
  shows "log_write b s = Ok () ((log_add (blockno (bufs s ! b)) s)\<lparr>bufs := (bufs s)[b := (bufs s ! b)\<lparr>bdirty := True\<rparr>]\<rparr>)"
proof (cases "blockno (bufs s ! b) \<in> set (take (lhn s) (lhblock s))")
  case True
  then obtain i where i: "find_index (\<lambda>k. k = blockno (bufs s ! b)) (take (lhn s) (lhblock s)) = Some i"
    by (cases "find_index (\<lambda>k. k = blockno (bufs s ! b)) (take (lhn s) (lhblock s))") (auto simp: find_index_None)
  then have "i < lhn s" "lhblock s ! i = blockno (bufs s ! b)" by (auto simp: find_index_Some)
  moreover from this have "(lhblock s)[i := blockno (bufs s ! b)] = lhblock s" by (metis list_update_id)
  ultimately show ?thesis
    using assms True i
    by (simp add: log_write_def kdefs quiet_def getbuf_def set_buf_def Let_def log_add_def logged_def held_same)
next
  case False
  then have "find_index (\<lambda>k. k = blockno (bufs s ! b)) (take (lhn s) (lhblock s)) = None" by (auto simp: find_index_None)
  then show ?thesis
    using assms False
    by (simp add: log_write_def kdefs quiet_def getbuf_def set_buf_def Let_def log_add_def logged_def held_same)
qed

lemma log_add_bio [simp]:
  "bufs (log_add k s) = bufs s" "disk (log_add k s) = disk s" "writes (log_add k s) = writes s"
  "content (log_add k s) = content s" "bio_ok L (log_add k s) = bio_ok L s" "pinned (log_add k s) = pinned s"
  "disksize (log_add k s) = disksize s" "ldev (log_add k s) = ldev s" "lstart (log_add k s) = lstart s"
  by (simp_all add: log_add_def)

lemma logged_add:
  assumes "lhn s < length (lhblock s)"
  shows "logged (log_add k s) = (if k \<in> set (logged s) then logged s else logged s @ [k])"
  using assms by (auto simp: logged_def log_add_def take_Suc_conv_app_nth)

lemma log_ok_logged:
  "log_ok s \<longleftrightarrow> ldev s = ROOTDEV \<and> lstart s + LOGSIZE \<le> disksize s \<and> disksize s < 2 ^ 32 \<and> lsize s \<le> LOGSIZE \<and>
     lhn s < LOGSIZE \<and> length (lhblock s) = LOGSIZE \<and> distinct (logged s) \<and>
     (\<forall>k \<in> set (logged s). k < disksize s \<and> k \<notin> log_region s) \<and> pinned s \<subseteq> set (logged s)"
  unfolding log_ok_def logged_def all_set_conv_all_nth by (auto simp: min_def)

lemma log_write_run:
  assumes ok: "bio_ok L s" and q: "quiet s" and b: "b \<in> L" and k: "caches k (bufs s ! b)" "bvalid (bufs s ! b)"
    and l: "log_ok s" "k < disksize s" "k \<notin> log_region s" and n: "lhn s < LOGSIZE" "int (lhn s) < int (lsize s) - 1" "outstanding s \<ge> 1"
  shows "\<exists>t. log_write b s = Ok () t \<and> bio_ok L t \<and> quiet t \<and> log_ok t \<and> disk t = disk s \<and> writes t = writes s \<and>
    content t = content s \<and> pinned t = insert k (pinned s) \<and>
    logged t = (if k \<in> set (logged s) then logged s else logged s @ [k]) \<and> lstart t = lstart s \<and> disksize t = disksize s \<and>
    bufs t = (bufs s)[b := (bufs s ! b)\<lparr>bdirty := True\<rparr>]"
proof -
  let ?x = "(bufs s ! b)\<lparr>bdirty := True\<rparr>"
  let ?a = "log_add k s"
  let ?t = "put_buf b ?x (disk ?a) (writes ?a) ?a"
  have bn: "b < NBUF" using ok b by (auto simp: bio_ok_def bufs_held_def)
  have len: "lhn s < length (lhblock s)" using l(1) n(1) by (simp add: log_ok_def)
  have t: "log_write b s = Ok () ?t"
    using log_write_form [OF q n len, of b] k by (simp add: caches_def put_buf_def)
  have u: "held_upd k b ?x (disk ?a) ?a"
    using k bio_okD(3) [OF ok bn] ok by (auto simp: held_upd_def Let_def caches_def buf_ok_def bio_ok_def)
  have ok': "bio_ok L ?a" using ok by simp
  have "content s k = bdata (bufs s ! b)" using content_cached(2) [OF ok bn k] .
  then have "content ?t = content s" using put_buf_content [OF ok' b u] by (auto simp: fun_eq_iff)
  moreover have p: "pinned ?t = insert k (pinned s)" using put_buf_pinned [OF ok' b u] by simp
  moreover have lg: "logged ?t = (if k \<in> set (logged s) then logged s else logged s @ [k])"
    using logged_add [OF len, of k] by (simp add: logged_def put_buf_def)
  moreover have "log_ok ?t"
    using l n(1,2) p lg unfolding log_ok_logged by (auto simp: put_buf_def log_add_def log_region_def)
  moreover have "quiet ?t" using q by (simp add: quiet_def put_buf_def log_add_def)
  ultimately show ?thesis
    using t put_buf_ok [OF ok' b u] by (intro exI [of _ ?t]) (simp add: put_buf_def)
qed

section \<open>Properties\<close>

text \<open>C1: crash atomicity. Take any state in which a transaction is ready to commit and the log on
  disk is empty. \<open>commit\<close> succeeds; and if the machine stops after any number \<open>k\<close> of its block writes
  and boots from the disk as it is then, \<open>recover_from_log\<close> succeeds and leaves every block outside
  the log as before the transaction, when the header had not been written yet, and as after the
  transaction otherwise.\<close>

theorem commit_crash_atomic:
  assumes "bio_ok {} s" and "quiet s" and "log_ok s" and "0 < lhn s" and "lhn s + 2 \<le> NBUF"
    and "hdr_word (disk s (lstart s)) 0 = 0" and "k \<le> length (commit_writes s)"
    and "booted (lstart s) (apply_writes (take k (commit_writes s)) (disk s)) r" and "disksize r = disksize s"
  shows "\<exists>t u. commit s = Ok () t \<and> writes t = writes s @ commit_writes s \<and> recover_from_log r = Ok () u \<and>
    (\<forall>b. b \<notin> log_region s \<longrightarrow> disk u b = (if k \<le> lhn s then disk s b else content s b))"
proof -
  obtain t where t: "commit s = Ok () t" "phase (commit_writes s) (s\<lparr>lhn := 0\<rparr>) t" using commit_run [OF assms(1,2,3,5,4)] by blast
  have "\<exists>u. recover_from_log r = Ok () u \<and> (\<forall>b. b \<notin> log_region s \<longrightarrow> disk u b = (if k \<le> lhn s then disk s b else content s b))"
  proof (cases "k \<le> lhn s")
    case True
    then show ?thesis using uncommitted_recovery [OF assms(3,6) True assms(8)] by simp
  next
    case False
    then consider j where "take k (commit_writes s) = log_writes s @ (lstart s, commit_head s) # take j (home_copies s)"
      | "take k (commit_writes s) = commit_writes s"
      using take_commit_writes [OF assms(7)] by blast
    then show ?thesis
    proof cases
      case 1
      then show ?thesis using committed_recovery [OF assms(1,3,5,9) _ assms(8)] False by simp
    next
      case 2
      then show ?thesis using finished_recovery [OF assms(1,3)] assms(8) False by simp
    qed
  qed
  with t show ?thesis by (auto simp: phase_def)
qed

text \<open>A machine with one block of a transaction in the log, and one that boots after a crash.\<close>

definition klog0 :: klog where
  "klog0 = kbio.extend (kbio.truncate bio0) \<lparr>lstart = 256, lsize = 30, outstanding = 1, committing = False,
     ldev = ROOTDEV, lhn = 0, lhblock = replicate LOGSIZE 0\<rparr>"

lemma klog0_bio [simp]:
  "bufs klog0 = bufs bio0" "disk klog0 = disk bio0" "disksize klog0 = 1000" "writes klog0 = []" "held klog0 = {}"
  "curproc klog0 = Some 0"
  by (simp_all add: klog0_def kbio.defs)

lemma klog_more:
  "kbio.more (t :: klog) = kbio.more s \<Longrightarrow> lstart t = lstart s \<and> lsize t = lsize s \<and> outstanding t = outstanding s \<and>
    ldev t = ldev s \<and> lhn t = lhn s \<and> lhblock t = lhblock s"
  by (cases s, cases t) simp

lemma log_boot:
  "\<exists>s :: klog. booted 256 (disk bio0) s \<and> lhn s = 0 \<and> outstanding s = 1 \<and> lsize s = 30 \<and> disksize s = 1000 \<and> lru (bufs s) (rev [0..<NBUF]) \<and>
    (\<forall>b < NBUF. \<not> bvalid (bufs s ! b) \<and> \<not> bdirty (bufs s ! b) \<and> bdev (bufs s ! b) \<noteq> ROOTDEV \<and> brefcnt (bufs s ! b) = 0 \<and> slocked s (BufLk b) = 0)"
proof -
  have "\<forall>b < NBUF. \<not> bvalid (bufs klog0 ! b) \<and> \<not> bdirty (bufs klog0 ! b) \<and> bdev (bufs klog0 ! b) \<noteq> ROOTDEV \<and> brefcnt (bufs klog0 ! b) = 0"
    by (simp add: ROOTDEV_def)
  then obtain t where t: "lru (bufs t) (rev [0..<NBUF])" "bio_ok {} t" "disk t = disk klog0" "pinned t = {}" "disksize t = disksize klog0"
      "held t \<subseteq> held klog0" "curproc t = curproc klog0" "kbio.more t = kbio.more klog0"
    "\<forall>b < NBUF. \<not> bvalid (bufs t ! b) \<and> \<not> bdirty (bufs t ! b) \<and> bdev (bufs t ! b) \<noteq> ROOTDEV \<and> brefcnt (bufs t ! b) = 0 \<and>
      bdev (bufs t ! b) = bdev (bufs klog0 ! b) \<and> slocked t (BufLk b) = 0"
    using binit_run [of klog0] by auto
  have "lstart t = 256 \<and> lsize t = 30 \<and> outstanding t = 1 \<and> ldev t = ROOTDEV \<and> lhn t = 0 \<and> lhblock t = replicate LOGSIZE 0"
    using klog_more [OF t(8)] by (simp add: klog0_def kbio.defs)
  with t show ?thesis
    by (intro exI [of _ t]) (simp add: booted_def quiet_def LOGSIZE_def MAXOPBLOCKS_def ROOTDEV_def)
qed

lemma one_block_transaction:
  "\<exists>s :: klog. bio_ok {} s \<and> quiet s \<and> log_ok s \<and> logged s = [500] \<and> disk s = disk bio0 \<and> lstart s = 256 \<and> disksize s = 1000 \<and>
    content s 500 = replicate BSIZE 9"
proof -
  obtain s0 :: klog where s0: "booted 256 (disk bio0) s0" "lhn s0 = 0" "outstanding s0 = 1" "lsize s0 = 30" "disksize s0 = 1000"
    using log_boot by blast
  note bt = s0(1) [unfolded booted_def]
  obtain b u where b: "bread ROOTDEV 500 s0 = Ok b u" "bread_post {} 500 s0 b u"
    using bread_run [of "{}" s0 500] bt s0(5) by (auto simp: NBUF_def)
  note u = b(2) [unfolded bread_post_def]
  have fu: "bio_frame s0 u" and uok: "bio_ok {b} u" using u by auto
  obtain v where v: "bio_ok {b} v" "bio_frame u v" "disk v = disk u" "content v = (content u)(500 := replicate BSIZE 9)" "pinned v = pinned u"
    "bufs v = (bufs u)[b := (bufs u ! b)\<lparr>bdata := replicate BSIZE 9\<rparr>]"
    using set_data_run [OF uok _ _ _ length_replicate, of b 500 9] u by auto
  have fv: "bio_frame s0 v" using bio_frame_trans [OF fu v(2)] .
  have kv: "caches 500 (bufs v ! b)" "bvalid (bufs v ! b)"
    using v(6) u bio_ok_length [OF uok] by (auto simp: caches_def)
  have qv: "quiet v" using bt bio_frameD(6) [OF fv] by simp
  have lv: "log_ok v" "lhn v = 0" "logged v = []" "outstanding v = 1" "lsize v = 30" "disksize v = 1000" "lstart v = 256"
    using klog_frame [OF fv] bio_frameD(3) [OF fv] bt s0 v(5) u by (auto simp: log_ok_def logged_def)
  have p: "500 < disksize v" "500 \<notin> log_region v" "lhn v < LOGSIZE" "int (lhn v) < int (lsize v) - 1" "outstanding v \<ge> 1"
    using lv by (simp_all add: log_region_def LOGSIZE_def MAXOPBLOCKS_def)
  obtain w where "log_write b v = Ok () w" and wp: "bio_ok {b} w \<and> quiet w \<and> log_ok w \<and> disk w = disk v \<and> writes w = writes v \<and>
    content w = content v \<and> pinned w = insert 500 (pinned v) \<and>
    logged w = (if 500 \<in> set (logged v) then logged v else logged v @ [500]) \<and> lstart w = lstart v \<and> disksize w = disksize v \<and>
    bufs w = (bufs v)[b := (bufs v ! b)\<lparr>bdirty := True\<rparr>]"
    using log_write_run [OF v(1) qv _ kv lv(1) p] by blast
  then have w: "bio_ok {b} w" "quiet w" "log_ok w" "disk w = disk v" "content w = content v" "logged w = [500]"
    "lstart w = 256" "bufs w = (bufs v)[b := (bufs v ! b)\<lparr>bdirty := True\<rparr>]" "disksize w = 1000"
    using lv(3,6,7) by simp_all
  have dw: "bdirty (bufs w ! b)" using w(8) u bio_ok_length [OF v(1)] by simp
  obtain t where t: "bio_ok {} t" "bio_frame w t" "disk t = disk w" "content t = content w" "pinned t = pinned w"
    using brelse_client [OF w(1,2), of b] dw by auto
  have "log_ok t" "logged t = [500]" "lstart t = 256" "disksize t = 1000" "quiet t"
    using klog_frame [OF t(2)] bio_frameD(3,6) [OF t(2)] t(5) w by (auto simp: log_ok_def logged_def log_region_def)
  moreover have "disk t = disk bio0" "content t 500 = replicate BSIZE 9" using t w v u bt by auto
  ultimately show ?thesis using t(1) by blast
qed

theorem commit_crash_atomic_witness:
  "\<exists>(s :: klog) (r :: klog) t u. content s 500 \<noteq> disk s 500 \<and> commit s = Ok () t \<and> recover_from_log r = Ok () u \<and> disk u 500 = content s 500"
proof -
  obtain s :: klog where s: "bio_ok {} s" "quiet s" "log_ok s" "logged s = [500]" "disk s = disk bio0" "lstart s = 256"
    "disksize s = 1000" "content s 500 = replicate BSIZE 9"
    using one_block_transaction by blast
  have n: "lhn s = 1" using arg_cong [OF s(4), of length] s(3) by (simp add: logged_def log_ok_def)
  let ?d = "apply_writes (take 2 (commit_writes s)) (disk s)"
  obtain s0 :: klog where s0: "booted 256 (disk bio0) s0" "disksize s0 = 1000" "lru (bufs s0) (rev [0..<NBUF])"
    "\<forall>b < NBUF. \<not> bvalid (bufs s0 ! b) \<and> \<not> bdirty (bufs s0 ! b) \<and> bdev (bufs s0 ! b) \<noteq> ROOTDEV \<and> brefcnt (bufs s0 ! b) = 0 \<and> slocked s0 (BufLk b) = 0"
    using log_boot by blast
  let ?r = "s0\<lparr>disk := ?d\<rparr>"
  have "length (?d k) = BSIZE" for k
  proof -
    obtain t where "commit s = Ok () t" "phase (commit_writes s) (s\<lparr>lhn := 0\<rparr>) t"
      using commit_run [OF s(1-3)] n by (auto simp: NBUF_def)
    have "length v = BSIZE" if "(x, v) \<in> set (take 2 (commit_writes s))" for x v
      using that n commit_value_length [OF s(1,3)] by (auto dest: in_set_takeD)
    then show ?thesis using apply_writes_length [of "take 2 (commit_writes s)" BSIZE "disk s"] s(5) by auto
  qed
  then have "bio_ok {} ?r" "pinned ?r = {}"
    using fresh_bio_ok [of ?r "rev [0..<NBUF]"] s0 by auto
  then have "booted (lstart s) ?d ?r"
    using s0(1) s(6) by (simp add: booted_def quiet_def)
  moreover have "hdr_word (disk s (lstart s)) 0 = 0"
    using s by (simp add: hdr_word_def slice_def BSIZE_def un32_def)
  moreover have "2 \<le> length (commit_writes s)" by (simp add: commit_writes_def)
  ultimately obtain t u where "commit s = Ok () t" "recover_from_log ?r = Ok () u"
    "\<forall>b. b \<notin> log_region s \<longrightarrow> disk u b = (if 2 \<le> lhn s then disk s b else content s b)"
    using commit_crash_atomic [OF s(1-3), of 2 ?r] n s(7) s0(2) by (auto simp: NBUF_def)
  moreover have "500 \<notin> log_region s" using s(6) by (simp add: log_region_def LOGSIZE_def MAXOPBLOCKS_def)
  moreover have "content s 500 \<noteq> disk s 500" using s(5,8) by (simp add: BSIZE_def)
  moreover have "disk u 500 = content s 500" using calculation(3,4) n by simp
  ultimately show ?thesis by blast
qed

text \<open>The call \<open>begin_op\<close> admits a file system call only while the log is not committing and only when
  every admitted call, this one included, can still log \<open>MAXOPBLOCKS\<close> blocks on top of those already
  in the transaction; a call that does not fit sleeps on the log's channel with the log lock released
  and the reservation unchanged.\<close>

theorem begin_op_reserves:
  assumes "held s = {}" and "curproc s = Some i" and "i < length (ptable s)"
  shows "if \<not> committing s \<and> int (lhn s) + (outstanding s + 1) * int MAXOPBLOCKS \<le> int LOGSIZE
    then begin_op s = Ok () (s\<lparr>outstanding := outstanding s + 1\<rparr>)
    else \<exists>t. begin_op s = Block (Some LogChan) t \<and> held t = {LPtable} \<and> outstanding t = outstanding s \<and> lhn t = lhn s \<and>
      ptable t = (ptable s)[i := (ptable s ! i)\<lparr>pchan := Some LogChan, state := SLEEPING\<rparr>]"
  using assms
  by (cases s) (auto simp: begin_op_def kdefs sleep_def sleep_enter_def sched_def with_proc_def set_proc_def insert_Diff_if not_le)

lemma klog0_ptable [simp]: "ptable klog0 = replicate NPROC empty_slot"
  by (simp add: klog0_def bio0_def kproc0_def kbio.defs kproc.defs kmem.defs)

lemma klog0_log [simp]: "outstanding klog0 = 1" "lhn klog0 = 0" "committing klog0 = False" "lsize klog0 = 30"
  "ldev klog0 = ROOTDEV" "lhblock klog0 = replicate LOGSIZE 0"
  by (simp_all add: klog0_def kbio.defs)

theorem begin_op_reserves_witness:
  "begin_op klog0 = Ok () (klog0\<lparr>outstanding := 2\<rparr>) \<and> (\<exists>t. begin_op (klog0\<lparr>lhn := 11\<rparr>) = Block (Some LogChan) t)"
  using begin_op_reserves [of klog0 0] begin_op_reserves [of "klog0\<lparr>lhn := 11\<rparr>" 0]
  by (auto simp: MAXOPBLOCKS_def LOGSIZE_def NPROC_def)

text \<open>Log absorption. \<open>log_write\<close> of a buffer the caller holds adds its block to the transaction
  once, however often it is written, pins the buffer so that the cache cannot recycle it before the
  commit, and writes nothing to the disk; what a reader sees of the blocks does not change.\<close>

theorem log_write_absorbs:
  assumes "bio_ok L s" and "quiet s" and "b \<in> L" and "caches k (bufs s ! b)" and "bvalid (bufs s ! b)"
    and "log_ok s" and "k < disksize s" and "k \<notin> log_region s"
    and "lhn s < LOGSIZE" and "int (lhn s) < int (lsize s) - 1" and "outstanding s \<ge> 1"
  shows "\<exists>t. log_write b s = Ok () t \<and> bio_ok L t \<and> log_ok t \<and> disk t = disk s \<and> writes t = writes s \<and>
    content t = content s \<and> pinned t = insert k (pinned s) \<and>
    take (lhn t) (lhblock t) = (if k \<in> set (take (lhn s) (lhblock s)) then take (lhn s) (lhblock s)
       else take (lhn s) (lhblock s) @ [k])"
  using log_write_run [OF assms] unfolding logged_def by blast

theorem log_write_absorbs_witness:
  "\<exists>(s :: klog) b t. log_write b s = Ok () t \<and> lhn s = 0 \<and> take (lhn t) (lhblock t) = [500] \<and> pinned t = {500}"
proof -
  obtain s0 :: klog where s0: "booted 256 (disk bio0) s0" "lhn s0 = 0" "outstanding s0 = 1" "lsize s0 = 30" "disksize s0 = 1000"
    using log_boot by blast
  note bt = s0(1) [unfolded booted_def]
  obtain b v where b: "bread ROOTDEV 500 s0 = Ok b v" "bread_post {} 500 s0 b v"
    using bread_run [of "{}" s0 500] bt s0(5) by (auto simp: NBUF_def)
  note v = b(2) [unfolded bread_post_def]
  have fv: "bio_frame s0 v" and ok: "bio_ok {b} v" and kv: "caches 500 (bufs v ! b)" "bvalid (bufs v ! b)" using v by auto
  have qv: "quiet v" using bt bio_frameD(6) [OF fv] by simp
  have lv: "log_ok v" "lhn v = 0" "outstanding v = 1" "lsize v = 30" "disksize v = 1000" "lstart v = 256" "pinned v = {}"
    using klog_frame [OF fv] bio_frameD(3) [OF fv] bt s0 v by (auto simp: log_ok_def)
  have p: "500 < disksize v" "500 \<notin> log_region v" "lhn v < LOGSIZE" "int (lhn v) < int (lsize v) - 1" "outstanding v \<ge> 1"
    using lv by (simp_all add: log_region_def LOGSIZE_def MAXOPBLOCKS_def)
  show ?thesis
    using log_write_absorbs [OF ok qv _ kv lv(1) p] lv(2,7) by fastforce
qed

end
