(* ===== verification/Inode.thy ===== *)
theory Inode
  imports Log
begin

text \<open>
  The lower layers of \<open>fs.c\<close>: the block allocator with its bitmap, inodes on disk, the cache of
  inodes in memory with its reference counts, and the mapping from the blocks of a file to blocks
  of the disk. Block and inode numbers are natural numbers; on disk they are 32-bit words.
\<close>

section \<open>State\<close>

definition NINODE :: nat where "NINODE = 50"
definition NDIRECT :: nat where "NDIRECT = 12"
definition NINDIRECT :: nat where "NINDIRECT = BSIZE div 4"
definition MAXFILE :: nat where "MAXFILE = NDIRECT + NINDIRECT"
definition DINODESIZE :: nat where "DINODESIZE = 64"
definition IPB :: nat where "IPB = BSIZE div DINODESIZE"
definition BPB :: nat where "BPB = BSIZE * 8"
definition T_DIR :: u16 where "T_DIR = 1"
definition T_FILE :: u16 where "T_FILE = 2"
definition T_DEV :: u16 where "T_DEV = 3"

record superblock =
  sbsize :: nat
  nblocks :: nat
  ninodes :: nat
  nlog :: nat
  logstart :: nat
  inodestart :: nat
  bmapstart :: nat

record dinode =
  dtype :: u16
  dmajor :: u16
  dminor :: u16
  dnlink :: u16
  dsize :: u32
  daddrs :: "nat list"

text \<open>The sleep lock of the inode at index \<open>i\<close> of the cache is \<open>InodeLk i\<close>.\<close>

record inode =
  idev :: nat
  inum :: nat
  iref :: int
  ivalid :: bool
  itype :: u16
  major :: u16
  minor :: u16
  nlink :: u16
  isize :: u32
  addrs :: "nat list"

record kinode = klog +
  sb :: superblock
  icache :: "inode list"

definition IBLOCK :: "nat \<Rightarrow> superblock \<Rightarrow> nat" where
  "IBLOCK i b = i div IPB + inodestart b"

definition BBLOCK :: "nat \<Rightarrow> superblock \<Rightarrow> nat" where
  "BBLOCK n b = n div BPB + bmapstart b"

definition get_inode :: "nat \<Rightarrow> ('z kinode_scheme, inode) kern" where
  "get_inode i = gets (\<lambda>s. icache s ! i)"

definition set_inode :: "nat \<Rightarrow> (inode \<Rightarrow> inode) \<Rightarrow> ('z kinode_scheme, unit) kern" where
  "set_inode i f = modify (\<lambda>s. s\<lparr>icache := (icache s)[i := f (icache s ! i)]\<rparr>)"

text \<open>Words in a block, and an inode in a block at a slot.\<close>

abbreviation uint_at :: "byte list \<Rightarrow> nat \<Rightarrow> nat" where
  "uint_at \<equiv> hdr_word"

definition put_uint :: "nat \<Rightarrow> nat \<Rightarrow> byte list \<Rightarrow> byte list" where
  "put_uint j v d = splice (4 * j) (le32 (of_nat v)) d"

definition dinode_bytes :: "dinode \<Rightarrow> byte list" where
  "dinode_bytes x = le16 (dtype x) @ le16 (dmajor x) @ le16 (dminor x) @ le16 (dnlink x) @ le32 (dsize x) @
     concat (map (\<lambda>a. le32 (of_nat a)) (daddrs x))"

definition dinode_at :: "byte list \<Rightarrow> nat \<Rightarrow> dinode" where
  "dinode_at d k = (let x = drop (DINODESIZE * k) d in
     \<lparr>dtype = un16 x, dmajor = un16 (drop 2 x), dminor = un16 (drop 4 x), dnlink = un16 (drop 6 x),
      dsize = un32 (drop 8 x), daddrs = map (\<lambda>j. unat (un32 (drop (12 + 4 * j) x))) [0..<NDIRECT + 1]\<rparr>)"

section \<open>Blocks\<close>

definition readsb :: "nat \<Rightarrow> ('z kinode_scheme, superblock) kern" where
  "readsb dev =
     bnd (bread dev 1) (\<lambda>b.
     bnd (getbuf b) (\<lambda>x.
     thn (brelse b)
     (ret \<lparr>sbsize = uint_at (bdata x) 0, nblocks = uint_at (bdata x) 1, ninodes = uint_at (bdata x) 2,
           nlog = uint_at (bdata x) 3, logstart = uint_at (bdata x) 4, inodestart = uint_at (bdata x) 5,
           bmapstart = uint_at (bdata x) 6\<rparr>)))"

definition bzero :: "nat \<Rightarrow> nat \<Rightarrow> ('z kinode_scheme, unit) kern" where
  "bzero dev bno =
     bnd (bread dev bno) (\<lambda>b.
     thn (set_data b (replicate BSIZE 0)) (
     thn (log_write b)
     (brelse b)))"

definition bitmask :: "nat \<Rightarrow> byte" where
  "bitmask bi = push_bit (bi mod 8) 1"

definition bit_free :: "byte list \<Rightarrow> nat \<Rightarrow> bool" where
  "bit_free d bi = (d ! (bi div 8) AND bitmask bi = 0)"

fun balloc_from :: "nat \<Rightarrow> nat list \<Rightarrow> ('z kinode_scheme, nat) kern" where
  "balloc_from dev [] = panic ''balloc: out of blocks''"
| "balloc_from dev (b # bs) =
     bnd (gets sb) (\<lambda>sp.
     bnd (bread dev (BBLOCK b sp)) (\<lambda>bp.
     bnd (getbuf bp) (\<lambda>x.
     case find (bit_free (bdata x)) [0..<min BPB (sbsize sp - b)] of
       Some bi \<Rightarrow>
         thn (set_data bp ((bdata x)[bi div 8 := bdata x ! (bi div 8) OR bitmask bi])) (
         thn (log_write bp) (
         thn (brelse bp) (
         thn (bzero dev (b + bi))
         (ret (b + bi)))))
     | None \<Rightarrow> thn (brelse bp) (balloc_from dev bs))))"

definition balloc :: "nat \<Rightarrow> ('z kinode_scheme, nat) kern" where
  "balloc dev = bnd (gets sb) (\<lambda>sp.
     balloc_from dev (map (\<lambda>i. i * BPB) [0..<(sbsize sp + BPB - 1) div BPB]))"

definition bfree :: "nat \<Rightarrow> nat \<Rightarrow> ('z kinode_scheme, unit) kern" where
  "bfree dev b =
     bnd (readsb dev) (\<lambda>sp.
     thn (modify (\<lambda>s. s\<lparr>sb := sp\<rparr>)) (
     bnd (bread dev (BBLOCK b sp)) (\<lambda>bp.
     bnd (getbuf bp) (\<lambda>x.
     let bi = b mod BPB in
     if bit_free (bdata x) bi then panic ''freeing free block''
     else
       thn (set_data bp ((bdata x)[bi div 8 := bdata x ! (bi div 8) AND NOT (bitmask bi)])) (
       thn (log_write bp)
       (brelse bp))))))"

section \<open>Inodes\<close>

definition iinit :: "nat \<Rightarrow> ('z kinode_scheme, unit) kern" where
  "iinit dev =
     thn (modify (\<lambda>s. s\<lparr>held := held s - {LIcache}\<rparr>)) (
     thn (foreach [0..<NINODE] (\<lambda>i. initsleeplock (InodeLk i)))
     (bnd (readsb dev) (\<lambda>sp. modify (\<lambda>s. s\<lparr>sb := sp\<rparr>))))"

definition initlog :: "nat \<Rightarrow> ('z kinode_scheme, unit) kern" where
  "initlog dev =
     thn (modify (\<lambda>s. s\<lparr>held := held s - {LLog}\<rparr>)) (
     bnd (readsb dev) (\<lambda>sp.
     thn (modify (\<lambda>s. s\<lparr>lstart := logstart sp, lsize := nlog sp, ldev := dev\<rparr>))
     recover_from_log))"

definition iget :: "nat \<Rightarrow> nat \<Rightarrow> ('z kinode_scheme, nat) kern" where
  "iget dev n =
     thn (acquire LIcache) (
     bnd (gets (\<lambda>s. (find_index (\<lambda>x. iref x > 0 \<and> idev x = dev \<and> inum x = n) (icache s),
                     find_index (\<lambda>x. iref x = 0) (icache s)))) (\<lambda>(hit, empty).
     case hit of
       Some i \<Rightarrow>
         thn (set_inode i (\<lambda>x. x\<lparr>iref := iref x + 1\<rparr>)) (
         thn (release LIcache) (ret i))
     | None \<Rightarrow> (case empty of
         None \<Rightarrow> panic ''iget: no inodes''
       | Some i \<Rightarrow>
           thn (set_inode i (\<lambda>x. x\<lparr>idev := dev, inum := n, iref := 1, ivalid := False\<rparr>)) (
           thn (release LIcache) (ret i)))))"

fun ialloc_from :: "nat \<Rightarrow> u16 \<Rightarrow> nat list \<Rightarrow> ('z kinode_scheme, nat) kern" where
  "ialloc_from dev ty [] = panic ''ialloc: no inodes''"
| "ialloc_from dev ty (n # ns) =
     bnd (gets sb) (\<lambda>sp.
     bnd (bread dev (IBLOCK n sp)) (\<lambda>bp.
     bnd (getbuf bp) (\<lambda>x.
     if dtype (dinode_at (bdata x) (n mod IPB)) = 0 then
       thn (set_data bp (splice (DINODESIZE * (n mod IPB)) (le16 ty @ replicate (DINODESIZE - 2) 0) (bdata x))) (
       thn (log_write bp) (
       thn (brelse bp)
       (iget dev n)))
     else thn (brelse bp) (ialloc_from dev ty ns))))"

definition ialloc :: "nat \<Rightarrow> u16 \<Rightarrow> ('z kinode_scheme, nat) kern" where
  "ialloc dev ty = bnd (gets sb) (\<lambda>sp. ialloc_from dev ty [1..<ninodes sp])"

definition to_dinode :: "inode \<Rightarrow> dinode" where
  "to_dinode ip = \<lparr>dtype = itype ip, dmajor = major ip, dminor = minor ip, dnlink = nlink ip,
     dsize = isize ip, daddrs = addrs ip\<rparr>"

definition iupdate :: "nat \<Rightarrow> ('z kinode_scheme, unit) kern" where
  "iupdate i =
     bnd (get_inode i) (\<lambda>ip.
     bnd (gets sb) (\<lambda>sp.
     bnd (bread (idev ip) (IBLOCK (inum ip) sp)) (\<lambda>bp.
     bnd (getbuf bp) (\<lambda>x.
     thn (set_data bp (splice (DINODESIZE * (inum ip mod IPB)) (dinode_bytes (to_dinode ip)) (bdata x))) (
     thn (log_write bp)
     (brelse bp))))))"

definition idup :: "nat \<Rightarrow> ('z kinode_scheme, nat) kern" where
  "idup i =
     thn (acquire LIcache) (
     thn (set_inode i (\<lambda>x. x\<lparr>iref := iref x + 1\<rparr>)) (
     thn (release LIcache) (ret i)))"

definition load_dinode :: "dinode \<Rightarrow> inode \<Rightarrow> inode" where
  "load_dinode d ip = ip\<lparr>itype := dtype d, major := dmajor d, minor := dminor d, nlink := dnlink d,
     isize := dsize d, addrs := daddrs d\<rparr>"

text \<open>\<open>ilock\<close> and \<open>iunlock\<close> test for the null pointer, so they take an optional index.\<close>

definition ilock :: "nat option \<Rightarrow> ('z kinode_scheme, unit) kern" where
  "ilock r = (case r of None \<Rightarrow> panic ''ilock'' | Some i \<Rightarrow>
     bnd (get_inode i) (\<lambda>ip0.
     if iref ip0 < 1 then panic ''ilock''
     else
       thn (acquiresleep (InodeLk i)) (
       bnd (get_inode i) (\<lambda>ip.
       whenk (\<not> ivalid ip) (
         bnd (gets sb) (\<lambda>sp.
         bnd (bread (idev ip) (IBLOCK (inum ip) sp)) (\<lambda>bp.
         bnd (getbuf bp) (\<lambda>x.
         thn (set_inode i (load_dinode (dinode_at (bdata x) (inum ip mod IPB)))) (
         thn (brelse bp) (
         thn (set_inode i (\<lambda>y. y\<lparr>ivalid := True\<rparr>)) (
         bnd (get_inode i) (\<lambda>y.
         if itype y = 0 then panic ''ilock: no type'' else ret ()))))))))))))"

definition iunlock :: "nat option \<Rightarrow> ('z kinode_scheme, unit) kern" where
  "iunlock r = (case r of None \<Rightarrow> panic ''iunlock'' | Some i \<Rightarrow>
     bnd (holdingsleep (InodeLk i)) (\<lambda>h.
     bnd (get_inode i) (\<lambda>ip.
     if \<not> h \<or> iref ip < 1 then panic ''iunlock'' else releasesleep (InodeLk i))))"

definition itrunc :: "nat \<Rightarrow> ('z kinode_scheme, unit) kern" where
  "itrunc i =
     thn (foreach [0..<NDIRECT] (\<lambda>k.
       bnd (get_inode i) (\<lambda>ip.
       whenk (addrs ip ! k \<noteq> 0) (
         thn (bfree (idev ip) (addrs ip ! k))
         (set_inode i (\<lambda>x. x\<lparr>addrs := (addrs x)[k := 0]\<rparr>)))))) (
     thn (bnd (get_inode i) (\<lambda>ip.
       whenk (addrs ip ! NDIRECT \<noteq> 0) (
         bnd (bread (idev ip) (addrs ip ! NDIRECT)) (\<lambda>bp.
         thn (foreach [0..<NINDIRECT] (\<lambda>j.
           bnd (getbuf bp) (\<lambda>x.
           whenk (uint_at (bdata x) j \<noteq> 0) (bfree (idev ip) (uint_at (bdata x) j))))) (
         thn (brelse bp) (
         thn (bfree (idev ip) (addrs ip ! NDIRECT))
         (set_inode i (\<lambda>x. x\<lparr>addrs := (addrs x)[NDIRECT := 0]\<rparr>)))))))) (
     thn (set_inode i (\<lambda>x. x\<lparr>isize := 0\<rparr>))
     (iupdate i)))"

definition iput :: "nat \<Rightarrow> ('z kinode_scheme, unit) kern" where
  "iput i =
     thn (acquiresleep (InodeLk i)) (
     bnd (get_inode i) (\<lambda>ip.
     thn (whenk (ivalid ip \<and> nlink ip = 0) (
       thn (acquire LIcache) (
       bnd (get_inode i) (\<lambda>x.
       thn (release LIcache)
       (whenk (iref x = 1) (
          thn (itrunc i) (
          thn (set_inode i (\<lambda>x. x\<lparr>itype := 0\<rparr>)) (
          thn (iupdate i)
          (set_inode i (\<lambda>x. x\<lparr>ivalid := False\<rparr>)))))))))) (
     thn (releasesleep (InodeLk i)) (
     thn (acquire LIcache) (
     thn (set_inode i (\<lambda>x. x\<lparr>iref := iref x - 1\<rparr>))
     (release LIcache))))))"

definition iunlockput :: "nat \<Rightarrow> ('z kinode_scheme, unit) kern" where
  "iunlockput i = thn (iunlock (Some i)) (iput i)"

section \<open>Blocks of a file\<close>

definition bmap :: "nat \<Rightarrow> nat \<Rightarrow> ('z kinode_scheme, nat) kern" where
  "bmap i bn =
     bnd (get_inode i) (\<lambda>ip.
     if bn < NDIRECT then
       (if addrs ip ! bn = 0 then
          bnd (balloc (idev ip)) (\<lambda>addr.
          thn (set_inode i (\<lambda>x. x\<lparr>addrs := (addrs x)[bn := addr]\<rparr>))
          (ret addr))
        else ret (addrs ip ! bn))
     else if bn - NDIRECT < NINDIRECT then
       bnd (if addrs ip ! NDIRECT = 0 then
              bnd (balloc (idev ip)) (\<lambda>addr.
              thn (set_inode i (\<lambda>x. x\<lparr>addrs := (addrs x)[NDIRECT := addr]\<rparr>))
              (ret addr))
            else ret (addrs ip ! NDIRECT)) (\<lambda>ind.
       bnd (bread (idev ip) ind) (\<lambda>bp.
       bnd (getbuf bp) (\<lambda>x.
       bnd (if uint_at (bdata x) (bn - NDIRECT) = 0 then
              bnd (balloc (idev ip)) (\<lambda>addr.
              thn (bnd (getbuf bp) (\<lambda>y. set_data bp (put_uint (bn - NDIRECT) addr (bdata y)))) (
              thn (log_write bp)
              (ret addr)))
            else ret (uint_at (bdata x) (bn - NDIRECT))) (\<lambda>addr.
       thn (brelse bp) (ret addr)))))
     else panic ''bmap: out of range'')"

section \<open>Reading and updating a block inside a transaction\<close>

text \<open>What file system code leaves alone when it goes through the cache and the log.\<close>

definition fs_frame :: "'z kinode_scheme \<Rightarrow> 'z kinode_scheme \<Rightarrow> bool" where
  "fs_frame s t = (sb t = sb s \<and> icache t = icache s \<and> held t = held s \<and> curproc t = curproc s \<and>
     disksize t = disksize s \<and> lstart t = lstart s \<and> lsize t = lsize s \<and> outstanding t = outstanding s \<and>
     mem t = mem s \<and> quiet t = quiet s)"

lemma fs_frame_refl [simp]: "fs_frame s s"
  by (simp add: fs_frame_def)

lemma fs_frame_trans: "fs_frame s t \<Longrightarrow> fs_frame t u \<Longrightarrow> fs_frame s u"
  by (simp add: fs_frame_def)

lemma kinode_more: "klog.more (t :: 'z kinode_scheme) = klog.more s \<Longrightarrow> sb t = sb s \<and> icache t = icache s"
  by (cases s, cases t) simp

lemma bio_fs_frame:
  fixes s t :: "'z kinode_scheme"
  assumes "bio_frame s t"
  shows "fs_frame s t"
  using klog_frame [OF assms] bio_frameD [OF assms] kinode_more [of t s] by (simp add: fs_frame_def)

text \<open>
  \<open>tx L n s\<close>: file system code runs inside a transaction, holds the buffers in \<open>L\<close> and can still log
  \<open>n\<close> blocks: neither the log nor the cache overflows.
\<close>

definition tx :: "nat set \<Rightarrow> nat \<Rightarrow> 'z kinode_scheme \<Rightarrow> bool" where
  "tx L n s = (bio_ok L s \<and> quiet s \<and> log_ok s \<and> outstanding s \<ge> 1 \<and> lhn s + n \<le> LOGSIZE \<and>
     lhn s + n < lsize s \<and> lhn s + n + card L < NBUF)"

lemma txD:
  assumes "tx L n s"
  shows "bio_ok L s" "quiet s" "log_ok s" "outstanding s \<ge> 1" "lhn s + n \<le> LOGSIZE" "lhn s + n < lsize s"
    "lhn s + n + card L < NBUF" "card L + card (pinned s) < NBUF" "finite L"
proof -
  have "card (pinned s) \<le> card (set (take (lhn s) (lhblock s)))"
    using assms by (intro card_mono) (auto simp: tx_def log_ok_def)
  also have "\<dots> \<le> lhn s" using card_length [of "take (lhn s) (lhblock s)"] by simp
  finally show "card L + card (pinned s) < NBUF" using assms by (simp add: tx_def)
  show "finite L" using assms by (auto simp: tx_def bio_ok_def bufs_held_def intro: finite_subset)
qed (use assms in \<open>simp_all add: tx_def\<close>)

definition same_bufs :: "nat set \<Rightarrow> 'z kbio_scheme \<Rightarrow> 'z kbio_scheme \<Rightarrow> bool" where
  "same_bufs L s t = (\<forall>c \<in> L. core (bufs t ! c) = core (bufs s ! c))"

lemma same_bufs_trans: "same_bufs L s t \<Longrightarrow> same_bufs L t u \<Longrightarrow> same_bufs L s u"
  by (simp add: same_bufs_def)

text \<open>The state after a block was read (nothing changed) or its contents replaced by \<open>d\<close>.\<close>

definition rd :: "nat set \<Rightarrow> nat \<Rightarrow> 'z kinode_scheme \<Rightarrow> 'z kinode_scheme \<Rightarrow> bool" where
  "rd L n s t = (tx L n t \<and> fs_frame s t \<and> content t = content s \<and> same_bufs L s t \<and> disk t = disk s)"

definition upd :: "nat set \<Rightarrow> nat \<Rightarrow> nat \<Rightarrow> byte list \<Rightarrow> 'z kinode_scheme \<Rightarrow> 'z kinode_scheme \<Rightarrow> bool" where
  "upd L n k d s t = (tx L n t \<and> fs_frame s t \<and> content t = (content s)(k := d) \<and> same_bufs L s t \<and> disk t = disk s)"

definition plain_block :: "nat \<Rightarrow> 'z kinode_scheme \<Rightarrow> bool" where
  "plain_block k s = (k < disksize s \<and> k \<notin> log_region s)"

lemma plain_block_frame: "fs_frame s t \<Longrightarrow> plain_block k t = plain_block k s"
  by (simp add: plain_block_def fs_frame_def log_region_def)

lemma tx_bio_frame:
  fixes s t :: "'z kinode_scheme"
  assumes "tx L n s" "bio_frame s t" "bio_ok M t" "pinned t = pinned s" "card M \<le> card L + j" "j \<le> n"
  shows "tx M (n - j) t"
  using assms klog_frame [OF assms(2)] bio_frameD [OF assms(2)]
  by (auto simp: tx_def log_ok_def log_region_def)

lemma clean_content:
  assumes "bio_ok L s" "k \<notin> pinned s" "\<And>b. b \<in> L \<Longrightarrow> \<not> caches k (bufs s ! b)"
  shows "content s k = disk s k"
proof (cases "\<exists>b < NBUF. caches k (bufs s ! b) \<and> bvalid (bufs s ! b)")
  case True
  then obtain b where b: "b < NBUF" "caches k (bufs s ! b)" "bvalid (bufs s ! b)" by blast
  then have "bdata (bufs s ! b) = disk s k"
    using bio_okD(3) [OF assms(1) b(1)] pinned_cached [OF assms(1) b(1,2)] assms(2,3) by (auto simp: buf_ok_def caches_def)
  then show ?thesis using content_cached(2) [OF assms(1) b] by simp
next
  case False
  then show ?thesis using content_uncached [OF assms(1)] by blast
qed

lemma bread_tx:
  fixes s :: "'z kinode_scheme"
  assumes "tx L (Suc n) s" "\<And>b. b \<in> L \<Longrightarrow> \<not> caches k (bufs s ! b)" "k < disksize s"
  shows "\<exists>b t. bread ROOTDEV k s = Ok b t \<and> bread_post L k s b t \<and> tx (insert b L) n t"
proof -
  obtain b t where t: "bread ROOTDEV k s = Ok b t" "bread_post L k s b t"
    using bread_run [OF txD(1,2) [OF assms(1)] assms(2,3) txD(8) [OF assms(1)]] by blast
  have "tx (insert b L) (Suc n - 1) t"
    using assms(1) t(2) txD(9) [OF assms(1)] by (intro tx_bio_frame [of L "Suc n" s]) (auto simp: bread_post_def)
  with t show ?thesis by auto
qed

lemma read_block:
  fixes s :: "'z kinode_scheme"
  assumes "tx L (Suc n) s" "\<And>b. b \<in> L \<Longrightarrow> \<not> caches k (bufs s ! b)" "k < disksize s"
  shows "\<exists>b t u. bread ROOTDEV k s = Ok b t \<and> bdata (bufs t ! b) = content s k \<and> icache t = icache s \<and> b \<notin> L \<and> sb t = sb s \<and>
    brelse b t = Ok () u \<and> rd L (Suc n) s u"
proof -
  obtain b t where t: "bread ROOTDEV k s = Ok b t" "bread_post L k s b t" "tx (insert b L) n t"
    using bread_tx [OF assms] by blast
  note p = t(2) [unfolded bread_post_def]
  have "bdata (bufs t ! b) = disk t (blockno (bufs t ! b))" if "\<not> bdirty (bufs t ! b)"
    using that p clean_content [OF txD(1) [OF assms(1)] _ assms(2)] by (auto simp: caches_def)
  then obtain u where u: "brelse b t = Ok () u" "bio_ok (insert b L - {b}) u" "bio_frame t u" "disk u = disk t"
    "content u = content t" "pinned u = pinned t" "\<forall>c \<in> insert b L - {b}. core (bufs u ! c) = core (bufs t ! c)"
    using brelse_client [OF txD(1,2) [OF t(3)], of b] by auto
  have L: "insert b L - {b} = L" using p by auto
  have fu: "bio_frame s u" using bio_frame_trans p u(3) by blast
  have "tx L (Suc n - 0) u"
    using u L p fu by (intro tx_bio_frame [OF assms(1)]) auto
  moreover have "same_bufs L s u" using u(7) p L by (auto simp: same_bufs_def)
  moreover have "fs_frame s t" using p by (auto intro: bio_fs_frame)
  ultimately have "rd L (Suc n) s u" "icache t = icache s" "sb t = sb s" using bio_fs_frame [OF fu] u p by (auto simp: rd_def fs_frame_def)
  then show ?thesis using t(1) u(1) p by blast
qed

lemma log_write_fs:
  fixes s :: "'z kinode_scheme"
  assumes "bio_ok L s" "quiet s" "log_ok s" "lhn s < LOGSIZE" "int (lhn s) < int (lsize s) - 1" "outstanding s \<ge> 1" "b \<in> L"
    "caches k (bufs s ! b)" "bvalid (bufs s ! b)" "k < disksize s" "k \<notin> log_region s"
  shows "\<exists>t. log_write b s = Ok () t \<and> bio_ok L t \<and> quiet t \<and> log_ok t \<and> disk t = disk s \<and> content t = content s \<and>
    bufs t = (bufs s)[b := (bufs s ! b)\<lparr>bdirty := True\<rparr>] \<and> lhn t \<le> lhn s + 1 \<and> fs_frame s t"
proof -
  have len: "lhn s < length (lhblock s)" using assms(3,4) by (simp add: log_ok_def)
  obtain t where t: "log_write b s = Ok () t" "bio_ok L t" "quiet t" "log_ok t" "disk t = disk s" "content t = content s"
    "bufs t = (bufs s)[b := (bufs s ! b)\<lparr>bdirty := True\<rparr>]"
    using log_write_run [OF assms(1,2,7,8,9,3,10,11,4,5,6)] by blast
  have "t = (log_add (blockno (bufs s ! b)) s)\<lparr>bufs := (bufs s)[b := (bufs s ! b)\<lparr>bdirty := True\<rparr>]\<rparr>"
    using log_write_form [OF assms(2,4,5,6) len, of b] t(1) by simp
  then have "lhn t \<le> lhn s + 1" "fs_frame s t" using assms(2) by (auto simp: log_add_def fs_frame_def quiet_def)
  with t show ?thesis by blast
qed

lemma update_block:
  fixes s :: "'z kinode_scheme"
  assumes s: "tx L (Suc n) s" and k: "\<And>b. b \<in> L \<Longrightarrow> \<not> caches k (bufs s ! b)" "plain_block k s" and d: "length d = BSIZE"
  shows "\<exists>b t u v w. bread ROOTDEV k s = Ok b t \<and> bdata (bufs t ! b) = content s k \<and> set_data b d t = Ok () u \<and>
    log_write b u = Ok () v \<and> brelse b v = Ok () w \<and> upd L n k d s w"
proof -
  have k2: "k < disksize s" "k \<notin> log_region s" using k(2) by (simp_all add: plain_block_def)
  obtain b t where t: "bread ROOTDEV k s = Ok b t" "bread_post L k s b t" "tx (insert b L) n t"
    using bread_tx [OF s k(1) k2(1)] by blast
  note p = t(2) [unfolded bread_post_def]
  have b: "b < NBUF" "b \<notin> L" "caches k (bufs t ! b)" "bvalid (bufs t ! b)" "bio_frame s t" using p by auto
  obtain u where u: "set_data b d t = Ok () u" "bio_ok (insert b L) u" "bio_frame t u" "disk u = disk t"
    "content u = (content t)(k := d)" "pinned u = pinned t" "bufs u = (bufs t)[b := (bufs t ! b)\<lparr>bdata := d\<rparr>]"
    using set_data_run [OF txD(1) [OF t(3)] _ b(3,4) d] by blast
  have fu: "bio_frame s u" using bio_frame_trans b(5) u(3) by blast
  have txu: "tx (insert b L) (n - 0) u"
    by (rule tx_bio_frame [OF t(3) u(3)]) (use u in auto)
  have bl: "b < length (bufs t)" using b(1) bio_ok_length [OF txD(1) [OF t(3)]] by simp
  have lu: "lhn u = lhn s" "lsize u = lsize s" "log_region u = log_region s" "disksize u = disksize s" "outstanding u = outstanding s"
    using klog_frame [OF fu] bio_frameD [OF fu] by (simp_all add: log_region_def)
  have pre: "lhn u < LOGSIZE" "int (lhn u) < int (lsize u) - 1" "outstanding u \<ge> 1" "k < disksize u" "k \<notin> log_region u"
    "caches k (bufs u ! b)" "bvalid (bufs u ! b)"
    using txD [OF s] lu k2 u(7) bl b by (auto simp: caches_def)
  obtain v where v: "log_write b u = Ok () v" "bio_ok (insert b L) v" "quiet v" "log_ok v" "disk v = disk u" "content v = content u"
    "bufs v = (bufs u)[b := (bufs u ! b)\<lparr>bdirty := True\<rparr>]" "lhn v \<le> lhn u + 1" "fs_frame u v"
    using log_write_fs [OF txD(1-3) [OF txu] pre(1-3) _ pre(6,7,4,5)] by blast
  have "bdirty (bufs v ! b)" using v(7) u(7) bl by simp
  then obtain w where w: "brelse b v = Ok () w" "bio_ok (insert b L - {b}) w" "bio_frame v w" "disk w = disk v"
    "content w = content v" "pinned w = pinned v" "\<forall>c \<in> insert b L - {b}. core (bufs w ! c) = core (bufs v ! c)"
    using brelse_client [OF v(2,3), of b] by auto
  have L: "insert b L - {b} = L" using b by auto
  have fw: "fs_frame s w"
    using fs_frame_trans [OF fs_frame_trans [OF bio_fs_frame [OF fu] v(9)] bio_fs_frame [OF w(3)]] .
  have "lhn w \<le> lhn s + 1" using klog_frame [OF w(3)] v(8) lu by simp
  moreover have "log_ok w" using v(4) klog_frame [OF w(3)] bio_frameD [OF w(3)] w(6) by (simp add: log_ok_def log_region_def)
  ultimately have "tx L n w" using txD [OF s] w(2) L fw by (auto simp: tx_def fs_frame_def)
  moreover have "bufs v ! c = bufs t ! c" if "c \<in> L" for c using that b(2) v(7) u(7) by (cases "c = b") auto
  then have "same_bufs L s w" using w(7) p L by (auto simp: same_bufs_def)
  ultimately have "upd L n k d s w" using fw w u v p by (auto simp: upd_def)
  then show ?thesis using t(1) u(1) v(1) w(1) p by blast
qed

lemma content_length_fs: "tx L n s \<Longrightarrow> length (content s k) = BSIZE"
  using bio_ok_length [of L s]
  by (auto simp: tx_def content_def cached_at_def find_index_take bio_ok_def buf_ok_def caches_def split: option.splits)

lemma upd_content: "upd L n k d s t \<Longrightarrow> content t = (content s)(k := d)"
  by (simp add: upd_def)

lemma updD: "upd L n k d s t \<Longrightarrow> tx L n t" "upd L n k d s t \<Longrightarrow> fs_frame s t" "upd L n k d s t \<Longrightarrow> same_bufs L s t"
  by (simp_all add: upd_def)

lemma rdD: "rd L n s t \<Longrightarrow> tx L n t" "rd L n s t \<Longrightarrow> fs_frame s t" "rd L n s t \<Longrightarrow> same_bufs L s t" "rd L n s t \<Longrightarrow> content t = content s"
  by (simp_all add: rd_def)

lemma same_bufs_caches:
  assumes "same_bufs L s t" "b \<in> L"
  shows "caches k (bufs t ! b) = caches k (bufs s ! b)"
  using assms core_fields [of "bufs t ! b" "bufs s ! b"] by (auto simp: same_bufs_def caches_def)

lemma bzero_run:
  fixes s :: "'z kinode_scheme"
  assumes "tx L (Suc n) s" "\<And>b. b \<in> L \<Longrightarrow> \<not> caches k (bufs s ! b)" "plain_block k s"
  shows "\<exists>t. bzero ROOTDEV k s = Ok () t \<and> upd L n k (replicate BSIZE 0) s t"
proof -
  obtain b t u v w where "bread ROOTDEV k s = Ok b t" "set_data b (replicate BSIZE 0) t = Ok () u"
    "log_write b u = Ok () v" "brelse b v = Ok () w" "upd L n k (replicate BSIZE 0) s w"
    using update_block [OF assms length_replicate] by blast
  then show ?thesis by (auto simp: bzero_def bnd_Ok thn_Ok)
qed

section \<open>The block allocator\<close>

text \<open>The free bitmap as the kernel sees it, and the layout a file system on disk has: bitmap
  blocks are in range, outside the log, and no block of a bitmap is a block it can hand out.\<close>

definition block_used :: "'z kinode_scheme \<Rightarrow> nat \<Rightarrow> bool" where
  "block_used s b = (\<not> bit_free (content s (BBLOCK b (sb s))) (b mod BPB))"

definition layout_ok :: "'z kinode_scheme \<Rightarrow> bool" where
  "layout_ok s = ((\<forall>b < sbsize (sb s). plain_block (BBLOCK b (sb s)) s \<and> block_used s (BBLOCK b (sb s))) \<and>
     (\<forall>b < sbsize (sb s). \<not> block_used s b \<longrightarrow> plain_block b s))"

lemma BPB_pos [simp]: "0 < BPB"
  by (simp add: BPB_def BSIZE_def)

lemma bit_bitmask: "j < 8 \<Longrightarrow> bit (bitmask bi) j \<longleftrightarrow> j = bi mod 8"
  by (auto simp: bitmask_def push_bit_eq_mult bit_exp_iff possible_bit_word)

lemma bit_free_iff: "bit_free d bi \<longleftrightarrow> \<not> bit (d ! (bi div 8)) (bi mod 8)"
proof -
  have m: "bi mod 8 < 8" by simp
  show ?thesis
  proof
    assume "bit_free d bi"
    then show "\<not> bit (d ! (bi div 8)) (bi mod 8)"
      using bit_bitmask [OF m, of bi] unfolding bit_free_def by (metis bit_0_eq bit_and_iff bot_apply bot_bool_def)
  next
    assume n: "\<not> bit (d ! (bi div 8)) (bi mod 8)"
    show "bit_free d bi" unfolding bit_free_def
      by (rule bit_word_eqI) (use n in \<open>auto simp: bit_and_iff bit_bitmask\<close>)
  qed
qed

lemma bit_free_update:
  assumes "length d = BSIZE" "bi < BPB" "bj < BPB"
  shows "bit_free (d[bi div 8 := d ! (bi div 8) OR bitmask bi]) bj \<longleftrightarrow> bj \<noteq> bi \<and> bit_free d bj"
    "bit_free (d[bi div 8 := d ! (bi div 8) AND NOT (bitmask bi)]) bj \<longleftrightarrow> bj = bi \<or> bit_free d bj"
proof -
  have "bi div 8 < length d" using assms by (simp add: BPB_def)
  moreover have "bj mod 8 = bi mod 8 \<and> bj div 8 = bi div 8 \<longleftrightarrow> bj = bi" by (metis div_mult_mod_eq)
  ultimately show "bit_free (d[bi div 8 := d ! (bi div 8) OR bitmask bi]) bj \<longleftrightarrow> bj \<noteq> bi \<and> bit_free d bj"
    "bit_free (d[bi div 8 := d ! (bi div 8) AND NOT (bitmask bi)]) bj \<longleftrightarrow> bj = bi \<or> bit_free d bj"
    by (auto simp: bit_free_iff nth_list_update bit_or_iff bit_and_iff bit_not_iff bit_bitmask possible_bit_word)
qed

lemma find_first: "find p xs = Some x \<longleftrightarrow> (\<exists>i < length xs. xs ! i = x \<and> p x \<and> (\<forall>j < i. \<not> p (xs ! j)))"
  by (auto simp: find_Some_iff)

text \<open>The contents of the disk after block \<open>b\<close> was marked used and zeroed.\<close>

definition alloc_content :: "superblock \<Rightarrow> nat \<Rightarrow> (nat \<Rightarrow> byte list) \<Rightarrow> nat \<Rightarrow> byte list" where
  "alloc_content sp b c = (let k = BBLOCK b sp; bi = b mod BPB in
     c(k := (c k)[bi div 8 := c k ! (bi div 8) OR bitmask bi], b := replicate BSIZE 0))"

definition alloc_post :: "nat set \<Rightarrow> nat \<Rightarrow> 'z kinode_scheme \<Rightarrow> nat \<Rightarrow> 'z kinode_scheme \<Rightarrow> bool" where
  "alloc_post L n s b t = (b < sbsize (sb s) \<and> \<not> block_used s b \<and> (\<forall>c < b. block_used s c) \<and>
     tx L n t \<and> fs_frame s t \<and> same_bufs L s t \<and> content t = alloc_content (sb s) b (content s))"

text \<open>The buffers the caller holds are neither bitmap blocks nor blocks to be allocated.\<close>

definition unheld :: "nat set \<Rightarrow> 'z kinode_scheme \<Rightarrow> bool" where
  "unheld L s = (\<forall>c \<in> L. \<forall>b < sbsize (sb s). \<not> caches (BBLOCK b (sb s)) (bufs s ! c) \<and>
     (\<not> block_used s b \<longrightarrow> \<not> caches b (bufs s ! c)))"

lemma block_used_rd: "rd L n s t \<Longrightarrow> block_used t = block_used s"
  by (simp add: rd_def block_used_def fs_frame_def fun_eq_iff)

lemma layout_ok_rd: "rd L n s t \<Longrightarrow> layout_ok t = layout_ok s"
  using block_used_rd [of L n s t] plain_block_frame [of s t] by (simp add: rd_def layout_ok_def fs_frame_def)

lemma unheld_rd: "rd L n s t \<Longrightarrow> unheld L t = unheld L s"
  using block_used_rd [of L n s t] same_bufs_caches [of L s t] by (simp add: rd_def unheld_def fs_frame_def)

lemma alloc_post_rd: "rd L n s t \<Longrightarrow> alloc_post L m t b u \<Longrightarrow> alloc_post L m s b u"
  using block_used_rd [of L n s t] fs_frame_trans [of s t u] same_bufs_trans [of L s t u]
  by (simp add: alloc_post_def rd_def fs_frame_def)

lemma balloc_hit:
  fixes s :: "'z kinode_scheme"
  assumes s: "tx L (Suc (Suc n)) s" "layout_ok s" "unheld L s" and b: "b < sbsize (sb s)" "b mod BPB = bi" "\<not> block_used s b"
    and first: "\<forall>c < b. block_used s c"
  shows "\<exists>bp t u v w x. bread ROOTDEV (BBLOCK b (sb s)) s = Ok bp t \<and> bdata (bufs t ! bp) = content s (BBLOCK b (sb s)) \<and>
    set_data bp ((content s (BBLOCK b (sb s)))[bi div 8 := content s (BBLOCK b (sb s)) ! (bi div 8) OR bitmask bi]) t = Ok () u \<and>
    log_write bp u = Ok () v \<and> brelse bp v = Ok () w \<and> bzero ROOTDEV b w = Ok () x \<and> alloc_post L n s b x"
proof -
  let ?k = "BBLOCK b (sb s)"
  let ?d = "(content s ?k)[bi div 8 := content s ?k ! (bi div 8) OR bitmask bi]"
  have k: "plain_block ?k s" "plain_block b s" "block_used s ?k" using s(2) b by (simp_all add: layout_ok_def)
  have u: "\<not> caches ?k (bufs s ! c)" "\<not> caches b (bufs s ! c)" if "c \<in> L" for c
    using s(3) that b by (simp_all add: unheld_def)
  obtain bp t y v w where w: "bread ROOTDEV ?k s = Ok bp t" "bdata (bufs t ! bp) = content s ?k" "set_data bp ?d t = Ok () y"
    "log_write bp y = Ok () v" "brelse bp v = Ok () w" "upd L (Suc n) ?k ?d s w"
    using update_block [OF s(1) u(1) k(1), of ?d] content_length_fs [OF s(1)] by auto
  have c: "\<not> caches b (bufs w ! c)" if "c \<in> L" for c
    using u(2) that same_bufs_caches [OF updD(3) [OF w(6)] that] by simp
  obtain x where x: "bzero ROOTDEV b w = Ok () x" "upd L n b (replicate BSIZE 0) w x"
    using bzero_run [OF updD(1) [OF w(6)] c] k(2) plain_block_frame [OF updD(2) [OF w(6)]] by blast
  have "content x = alloc_content (sb s) b (content s)"
    using upd_content [OF w(6)] upd_content [OF x(2)] b(2) by (simp add: alloc_content_def Let_def)
  then have "alloc_post L n s b x"
    using updD [OF x(2)] updD [OF w(6)] b first fs_frame_trans same_bufs_trans by (auto simp: alloc_post_def)
  with w x show ?thesis by blast
qed

lemma bitmap_row:
  assumes "bi < BPB"
  shows "BBLOCK (j * BPB + bi) sp = BBLOCK (j * BPB) sp" "(j * BPB + bi) mod BPB = bi"
  using assms by (simp_all add: BBLOCK_def)

lemma block_used_row: "bi < BPB \<Longrightarrow> block_used s (j * BPB + bi) \<longleftrightarrow> \<not> bit_free (content s (BBLOCK (j * BPB) (sb s))) bi"
  by (simp add: block_used_def bitmap_row)

lemma find_upt_None: "find p [0..<m] = None \<longleftrightarrow> (\<forall>i < m. \<not> p i)"
  by (auto simp: find_None_iff)

lemma find_upt_Some: "find p [0..<m] = Some i \<longleftrightarrow> i < m \<and> p i \<and> (\<forall>j < i. \<not> p j)"
  by (auto simp: find_Some_iff)

lemma less_row: "c < Suc j * BPB \<Longrightarrow> c < j * BPB \<or> (\<exists>bi < BPB. c = j * BPB + bi)"
  by (metis add_diff_inverse_nat add.commute less_diff_conv2 mult_Suc not_less)

lemma row_count:
  assumes "f < n" "N = (n + BPB - 1) div BPB"
  shows "f < N * BPB"
proof -
  have "n + BPB - 1 < Suc N * BPB" using assms(2) dividend_less_div_times [of BPB "n + BPB - 1"] by simp
  then show ?thesis using assms(1) by simp
qed

lemma balloc_from_run:
  fixes s :: "'z kinode_scheme"
  assumes "tx L (Suc (Suc n)) s" "layout_ok s" "unheld L s" "\<forall>c < j * BPB. block_used s c"
    and "f < sbsize (sb s)" "\<not> block_used s f" and "N = (sbsize (sb s) + BPB - 1) div BPB"
  shows "\<exists>b t. balloc_from ROOTDEV (map (\<lambda>i. i * BPB) [j..<N]) s = Ok b t \<and> alloc_post L n s b t"
  using assms
proof (induction "N - j" arbitrary: j s)
  case 0
  then have "N * BPB \<le> j * BPB" by simp
  then have "f < j * BPB" using row_count [OF 0(6,8)] by linarith
  then show ?case using 0(5,7) by blast
next
  case (Suc m)
  let ?r = "j * BPB"
  let ?k = "BBLOCK ?r (sb s)"
  let ?m = "min BPB (sbsize (sb s) - ?r)"
  have jN: "j < N" using Suc.hyps(2) by simp
  then have up: "[j..<N] = j # [Suc j..<N]" by (simp add: upt_conv_Cons)
  have fr: "?r \<le> f" using Suc.prems(4,6) not_le by blast
  show ?case
  proof (cases "find (bit_free (content s ?k)) [0..<?m]")
    case (Some bi)
    then have bi: "bi < BPB" "?r + bi < sbsize (sb s)" "bit_free (content s ?k) bi" "\<forall>i < bi. \<not> bit_free (content s ?k) i"
      by (auto simp: find_upt_Some)
    have first: "\<forall>c < ?r + bi. block_used s c"
    proof (intro allI impI)
      fix c assume c: "c < ?r + bi"
      show "block_used s c"
      proof (cases "c < ?r")
        case False
        then have "c = ?r + (c - ?r)" "c - ?r < bi" using c by auto
        then show ?thesis using block_used_row [of "c - ?r" s j] bi(1,4) by auto
      qed (use Suc.prems(4) in blast)
    qed
    have b: "\<not> block_used s (?r + bi)" "(?r + bi) mod BPB = bi" "BBLOCK (?r + bi) (sb s) = ?k"
      using bi block_used_row [of bi s j] bitmap_row [of bi] by simp_all
    obtain bp t u v w x where "bread ROOTDEV ?k s = Ok bp t" "bdata (bufs t ! bp) = content s ?k"
      "set_data bp ((content s ?k)[bi div 8 := content s ?k ! (bi div 8) OR bitmask bi]) t = Ok () u"
      "log_write bp u = Ok () v" "brelse bp v = Ok () w" "bzero ROOTDEV (?r + bi) w = Ok () x" "alloc_post L n s (?r + bi) x"
      using balloc_hit [OF Suc.prems(1-3) bi(2) b(2,1) first] unfolding b(3) by blast
    then show ?thesis using Some up by (simp add: bnd_Ok thn_Ok getbuf_def)
  next
    case None
    have "?r < sbsize (sb s)" using fr Suc.prems(5) by simp
    then have k: "plain_block ?k s" "\<And>c. c \<in> L \<Longrightarrow> \<not> caches ?k (bufs s ! c)"
      using Suc.prems(2,3) by (auto simp: layout_ok_def unheld_def)
    obtain b t u where u: "bread ROOTDEV ?k s = Ok b t" "bdata (bufs t ! b) = content s ?k" "brelse b t = Ok () u"
      "rd L (Suc (Suc n)) s u"
      using read_block [OF Suc.prems(1) k(2)] k(1) by (auto simp: plain_block_def)
    have used: "block_used s c" if "c < Suc j * BPB" "c < sbsize (sb s)" for c
      using less_row [OF that(1)] Suc.prems(4) None that(2) block_used_row [of _ s j] by (auto simp: find_upt_None)
    have size: "\<not> sbsize (sb s) < Suc j * BPB" using used Suc.prems(5,6) by (meson less_trans)
    then have all: "\<forall>c < Suc j * BPB. block_used s c" using used by (meson less_le_trans not_le)
    have fu: "sb u = sb s" using rdD(2) [OF u(4)] by (simp add: fs_frame_def)
    obtain b' t' where "balloc_from ROOTDEV (map (\<lambda>i. i * BPB) [Suc j..<N]) u = Ok b' t' \<and> alloc_post L n u b' t'"
      using Suc.hyps(1) [of "Suc j" u, OF Suc_inject [OF Suc.hyps(2) [unfolded Suc_diff_Suc [OF jN, symmetric]]]] Suc.prems rdD(1) [OF u(4)] layout_ok_rd [OF u(4)] unheld_rd [OF u(4)]
        block_used_rd [OF u(4)] all fu by auto
    then show ?thesis using None up u alloc_post_rd [OF u(4)] by (auto simp: bnd_Ok thn_Ok getbuf_def)
  qed
qed

lemma balloc_run:
  fixes s :: "'z kinode_scheme"
  assumes "tx L (Suc (Suc n)) s" "layout_ok s" "unheld L s" "f < sbsize (sb s)" "\<not> block_used s f"
  shows "\<exists>b t. balloc ROOTDEV s = Ok b t \<and> alloc_post L n s b t"
  using balloc_from_run [OF assms(1-3), of 0 f] assms(4,5) by (simp add: balloc_def)

lemma balloc_from_full:
  fixes s :: "'z kinode_scheme"
  assumes "tx L (Suc n) s" "layout_ok s" "unheld L s" "\<forall>c < sbsize (sb s). block_used s c"
    and "\<forall>b \<in> set bs. \<exists>i. b = i * BPB \<and> b < sbsize (sb s)"
  shows "balloc_from ROOTDEV bs s = Panic ''balloc: out of blocks''"
  using assms
proof (induction bs arbitrary: s)
  case (Cons r bs)
  obtain i where r: "r = i * BPB" "r < sbsize (sb s)" using Cons.prems(5) by auto
  let ?k = "BBLOCK r (sb s)"
  have k: "?k < disksize s" "\<And>c. c \<in> L \<Longrightarrow> \<not> caches ?k (bufs s ! c)"
    using Cons.prems(2,3) r by (auto simp: layout_ok_def unheld_def plain_block_def)
  obtain b t u where u: "bread ROOTDEV ?k s = Ok b t" "bdata (bufs t ! b) = content s ?k" "brelse b t = Ok () u" "rd L (Suc n) s u"
    using read_block [OF Cons.prems(1) k(2,1)] by blast
  have "find (bit_free (content s ?k)) [0..<min BPB (sbsize (sb s) - r)] = None"
    using Cons.prems(4) block_used_row [of _ s i] unfolding find_upt_None r(1) by (metis add.commute less_diff_conv min_less_iff_conj)
  moreover have "sb u = sb s" using rdD(2) [OF u(4)] by (simp add: fs_frame_def)
  ultimately show ?case
    using u Cons.IH [of u] Cons.prems rdD(1) [OF u(4)] layout_ok_rd [OF u(4)] unheld_rd [OF u(4)] block_used_rd [OF u(4)]
    by (simp add: bnd_Ok thn_Ok getbuf_def)
qed simp

definition sb_of :: "byte list \<Rightarrow> superblock" where
  "sb_of d = \<lparr>sbsize = uint_at d 0, nblocks = uint_at d 1, ninodes = uint_at d 2, nlog = uint_at d 3,
     logstart = uint_at d 4, inodestart = uint_at d 5, bmapstart = uint_at d 6\<rparr>"

lemma readsb_run:
  fixes s :: "'z kinode_scheme"
  assumes "tx L (Suc n) s" "\<And>b. b \<in> L \<Longrightarrow> \<not> caches 1 (bufs s ! b)" "1 < disksize s"
  shows "\<exists>t. readsb ROOTDEV s = Ok (sb_of (content s 1)) t \<and> rd L (Suc n) s t"
proof -
  obtain b t u where "bread ROOTDEV 1 s = Ok b t" "bdata (bufs t ! b) = content s 1" "brelse b t = Ok () u" "rd L (Suc n) s u"
    using read_block [OF assms] by blast
  then show ?thesis by (auto simp: readsb_def bnd_Ok thn_Ok getbuf_def sb_of_def)
qed

definition sb_on_disk :: "'z kinode_scheme \<Rightarrow> bool" where
  "sb_on_disk s = (sb_of (content s 1) = sb s \<and> 1 < disksize s)"

definition free_content :: "superblock \<Rightarrow> nat \<Rightarrow> (nat \<Rightarrow> byte list) \<Rightarrow> nat \<Rightarrow> byte list" where
  "free_content sp b c = (let k = BBLOCK b sp; bi = b mod BPB in
     c(k := (c k)[bi div 8 := c k ! (bi div 8) AND NOT (bitmask bi)]))"

lemma sb_update_same: "sb t = x \<Longrightarrow> t\<lparr>sb := x\<rparr> = t"
  by (cases t) simp

lemma bfree_run:
  fixes s :: "'z kinode_scheme"
  assumes s: "tx L (Suc n) s" "sb_on_disk s" and k: "plain_block (BBLOCK b (sb s)) s"
    and L: "\<And>c. c \<in> L \<Longrightarrow> \<not> caches 1 (bufs s ! c) \<and> \<not> caches (BBLOCK b (sb s)) (bufs s ! c)"
  shows "if block_used s b
    then \<exists>t. bfree ROOTDEV b s = Ok () t \<and> tx L n t \<and> fs_frame s t \<and> same_bufs L s t \<and> content t = free_content (sb s) b (content s)
    else bfree ROOTDEV b s = Panic ''freeing free block''"
proof -
  let ?k = "BBLOCK b (sb s)"
  let ?bi = "b mod BPB"
  let ?d = "(content s ?k)[?bi div 8 := content s ?k ! (?bi div 8) AND NOT (bitmask ?bi)]"
  obtain t where t: "readsb ROOTDEV s = Ok (sb s) t" "rd L (Suc n) s t"
    using readsb_run [OF s(1), of] L s(2) by (auto simp: sb_on_disk_def)
  have e: "sb t = sb s" using rdD(2) [OF t(2)] by (simp add: fs_frame_def)
  have c: "\<not> caches ?k (bufs t ! c)" if "c \<in> L" for c using L that same_bufs_caches [OF rdD(3) [OF t(2)] that] by simp
  have kt: "plain_block ?k t" using k plain_block_frame [OF rdD(2) [OF t(2)]] by simp
  have len: "length ?d = BSIZE" using content_length_fs [OF s(1)] by simp
  obtain bp u v w x where x: "bread ROOTDEV ?k t = Ok bp u" "bdata (bufs u ! bp) = content t ?k" "set_data bp ?d u = Ok () v"
    "log_write bp v = Ok () w" "brelse bp w = Ok () x" "upd L n ?k ?d t x"
    using update_block [OF rdD(1) [OF t(2)] c kt len] by blast
  have ct: "content t = content s" using rdD(4) [OF t(2)] .
  have "content x = free_content (sb s) b (content s)"
    using upd_content [OF x(6)] ct by (simp add: free_content_def Let_def)
  moreover have "bfree ROOTDEV b s = (if bit_free (content s ?k) ?bi then Panic ''freeing free block'' else Ok () x)"
    using t(1) x(1-5) e ct by (auto simp: bfree_def bnd_Ok thn_Ok getbuf_def sb_update_same Let_def)
  ultimately show ?thesis
    using updD [OF x(6)] rdD(2,3) [OF t(2)] fs_frame_trans same_bufs_trans by (auto simp: block_used_def)
qed

lemma alloc_content_other: "b \<noteq> k \<Longrightarrow> k \<noteq> BBLOCK b sp \<Longrightarrow> alloc_content sp b c k = c k"
  by (simp add: alloc_content_def Let_def)

lemma byte_or_and_not: "(x :: byte) AND m = 0 \<Longrightarrow> (x OR m) AND NOT m = x"
proof (rule bit_word_eqI)
  fix n assume z: "x AND m = 0" and n: "n < LENGTH(8)"
  have "\<not> bit (x AND m) n" using z by simp
  then show "bit ((x OR m) AND NOT m) n = bit x n"
    using n by (auto simp: bit_or_iff bit_and_iff bit_not_iff possible_bit_word)
qed

lemma alloc_then_free:
  assumes "bit_free (c (BBLOCK b sp)) (b mod BPB)" "b \<noteq> BBLOCK b sp"
    "length (c (BBLOCK b sp)) = BSIZE"
  shows "free_content sp b (alloc_content sp b c) = c(b := replicate BSIZE 0)"
proof -
  let ?bi = "b mod BPB"
  have "b mod BPB < BPB" by simp
  then have "?bi div 8 < BSIZE" by (simp add: BPB_def)
  then show ?thesis
    using assms byte_or_and_not [of "c (BBLOCK b sp) ! (?bi div 8)" "bitmask ?bi"]
    by (simp add: free_content_def alloc_content_def Let_def bit_free_def fun_eq_iff)
qed

section \<open>Properties of the allocator\<close>

lemma block_used_alloc:
  assumes "layout_ok s" "alloc_post L n s b t" "c < sbsize (sb s)" "length (content s (BBLOCK b (sb s))) = BSIZE"
  shows "block_used t c \<longleftrightarrow> c = b \<or> block_used s c"
proof -
  let ?k = "BBLOCK c (sb s)"
  have e: "sb t = sb s" "content t = alloc_content (sb s) b (content s)" "\<not> block_used s b"
    using assms(2) by (simp_all add: alloc_post_def fs_frame_def)
  have n: "?k \<noteq> b" using assms(1,3) e(3) by (auto simp: layout_ok_def)
  show ?thesis
  proof (cases "?k = BBLOCK b (sb s)")
    case True
    then have "c div BPB = b div BPB" by (simp add: BBLOCK_def)
    then have "c mod BPB = b mod BPB \<longleftrightarrow> c = b" by (metis div_mult_mod_eq)
    then show ?thesis
      using bit_free_update(1) [OF assms(4), of "b mod BPB" "c mod BPB"] True n e
      by (auto simp: block_used_def alloc_content_def Let_def)
  next
    case False
    then show ?thesis using n e by (auto simp: block_used_def alloc_content_def Let_def)
  qed
qed

text \<open>C38: inside a transaction with room for two blocks, \<open>balloc\<close> returns the lowest free block of
  the disk; in the contents that the kernel sees, that block is now zero, its bit in the bitmap is
  set, and no other block changed. When every block is in use it panics.\<close>

theorem balloc_spec:
  assumes "tx {} (Suc (Suc n)) s" and "layout_ok s"
  shows "if \<exists>f < sbsize (sb s). \<not> block_used s f
    then \<exists>b t. balloc ROOTDEV s = Ok b t \<and> b < sbsize (sb s) \<and> \<not> block_used s b \<and> (\<forall>c < b. block_used s c) \<and>
      tx {} n t \<and> content t b = replicate BSIZE 0 \<and> (\<forall>k. k \<noteq> b \<and> k \<noteq> BBLOCK b (sb s) \<longrightarrow> content t k = content s k) \<and>
      (\<forall>c < sbsize (sb s). block_used t c = (c = b \<or> block_used s c))
    else balloc ROOTDEV s = Panic ''balloc: out of blocks''"
proof (cases "\<exists>f < sbsize (sb s). \<not> block_used s f")
  case True
  then obtain f where f: "f < sbsize (sb s)" "\<not> block_used s f" by blast
  obtain b t where b: "balloc ROOTDEV s = Ok b t" "alloc_post {} n s b t"
    using balloc_run [OF assms _ f] by (auto simp: unheld_def)
  then show ?thesis
    using True block_used_alloc [OF assms(2) b(2) _ content_length_fs [OF assms(1)]]
    by (auto simp: alloc_post_def alloc_content_def Let_def)
next
  case False
  have "\<forall>b \<in> set (map (\<lambda>i. i * BPB) [0..<(sbsize (sb s) + BPB - 1) div BPB]). \<exists>i. b = i * BPB \<and> b < sbsize (sb s)"
  proof
    fix b assume "b \<in> set (map (\<lambda>i. i * BPB) [0..<(sbsize (sb s) + BPB - 1) div BPB])"
    then obtain i where i: "b = i * BPB" "i < (sbsize (sb s) + BPB - 1) div BPB"
      by (metis (no_types, lifting) imageE list.set_map atLeastLessThan_iff set_upt)
    then have "Suc i * BPB \<le> sbsize (sb s) + BPB - 1" by (metis Suc_leI less_eq_div_iff_mult_less_eq BPB_pos)
    then show "\<exists>i. b = i * BPB \<and> b < sbsize (sb s)" using i(1) BPB_pos unfolding mult_Suc by (intro exI [of _ i]) linarith
  qed
  then show ?thesis
    using False balloc_from_full [OF assms(1,2), of] by (simp add: balloc_def unheld_def)
qed

text \<open>Allocating a block and freeing it again restores the bitmap, so that the disk differs from
  before only in the freed block, now zero; freeing it a second time panics.\<close>

theorem balloc_bfree_roundtrip:
  assumes "tx {} (Suc (Suc (Suc (Suc n)))) s" and "layout_ok s" and "sb_on_disk s" and "block_used s 1"
    and "1 \<notin> range (\<lambda>b. BBLOCK b (sb s))" and "f < sbsize (sb s)" and "\<not> block_used s f"
  shows "\<exists>b t u. balloc ROOTDEV s = Ok b t \<and> bfree ROOTDEV b t = Ok () u \<and>
    content u = (content s)(b := replicate BSIZE 0) \<and> bfree ROOTDEV b u = Panic ''freeing free block''"
proof -
  obtain b t where b: "balloc ROOTDEV s = Ok b t" "alloc_post {} (Suc (Suc n)) s b t"
    using balloc_run [OF assms(1,2) _ assms(6,7)] by (auto simp: unheld_def)
  note p = b(2) [unfolded alloc_post_def]
  let ?k = "BBLOCK b (sb s)"
  have t: "tx {} (Suc (Suc n)) t" "fs_frame s t" "sb t = sb s" "b < sbsize (sb s)" "disksize t = disksize s"
    using p by (auto simp: fs_frame_def)
  have bk: "b \<noteq> ?k" using assms(2) p by (auto simp: layout_ok_def)
  have one: "content t 1 = content s 1"
    using p assms(4,5) alloc_content_other [of b 1 "sb s" "content s"] by auto
  have kt: "plain_block ?k t" using assms(2) t(4) plain_block_frame [OF t(2)] by (simp add: layout_ok_def)
  have len: "length (content s ?k) = BSIZE" using content_length_fs [OF assms(1)] .
  have used: "block_used t b" using block_used_alloc [OF assms(2) b(2) t(4) len] by simp
  have sbt: "sb_on_disk t" using assms(3) one t by (simp add: sb_on_disk_def)
  obtain u where u: "bfree ROOTDEV b t = Ok () u" "tx {} (Suc n) u" "fs_frame t u" "content u = free_content (sb s) b (content t)"
    using bfree_run [OF t(1) sbt, of b] kt used t(3) by auto
  have cu: "content u = (content s)(b := replicate BSIZE 0)"
    using u(4) p alloc_then_free [of "content s" b "sb s"] bk len by (simp add: block_used_def)
  have su: "sb u = sb s" "sb_on_disk u" "plain_block ?k u" "\<not> block_used u b"
    using u(3) t(3) cu assms(4) p sbt one kt plain_block_frame [OF u(3)] bk by (auto simp: fs_frame_def sb_on_disk_def block_used_def)
  then have "bfree ROOTDEV b u = Panic ''freeing free block''"
    using bfree_run [OF u(2), of b] by auto
  with b u cu show ?thesis by blast
qed

section \<open>A machine with a small file system\<close>

definition kinode0 :: "(nat \<Rightarrow> byte list) \<Rightarrow> superblock \<Rightarrow> inode list \<Rightarrow> kinode" where
  "kinode0 d sp ic = klog.extend (klog0\<lparr>disk := d, lstart := 2\<rparr>) \<lparr>sb = sp, icache = ic\<rparr>"

lemma kinode0_simps [simp]:
  "bufs (kinode0 d sp ic) = bufs bio0" "disk (kinode0 d sp ic) = d" "disksize (kinode0 d sp ic) = 1000" "held (kinode0 d sp ic) = {}"
  "curproc (kinode0 d sp ic) = Some 0" "lstart (kinode0 d sp ic) = 2" "lsize (kinode0 d sp ic) = 30" "outstanding (kinode0 d sp ic) = 1"
  "ldev (kinode0 d sp ic) = ROOTDEV" "lhn (kinode0 d sp ic) = 0" "lhblock (kinode0 d sp ic) = replicate LOGSIZE 0"
  "sb (kinode0 d sp ic) = sp" "icache (kinode0 d sp ic) = ic"
  using klog0_bio klog0_log by (simp_all add: kinode0_def klog.defs)

lemma kinode_full_more:
  "kbio.more (t :: kinode) = kbio.more s \<Longrightarrow> lstart t = lstart s \<and> lsize t = lsize s \<and> outstanding t = outstanding s \<and>
    ldev t = ldev s \<and> lhn t = lhn s \<and> lhblock t = lhblock s \<and> sb t = sb s \<and> icache t = icache s"
  by (cases s, cases t) simp

lemma tx_boot:
  assumes "\<And>k. length (d k) = BSIZE"
  shows "\<exists>s :: kinode. tx {} 20 s \<and> content s = d \<and> disk s = d \<and> sb s = sp \<and> icache s = ic \<and> lstart s = 2 \<and> disksize s = 1000"
proof -
  let ?s = "kinode0 d sp ic"
  have "\<forall>b < NBUF. \<not> bvalid (bufs ?s ! b) \<and> \<not> bdirty (bufs ?s ! b) \<and> bdev (bufs ?s ! b) \<noteq> ROOTDEV \<and> brefcnt (bufs ?s ! b) = 0"
    by (simp add: ROOTDEV_def)
  then obtain t where t: "bio_ok {} t" "disk t = disk ?s" "pinned t = {}" "disksize t = disksize ?s"
      "held t \<subseteq> held ?s" "curproc t = curproc ?s" "kbio.more t = kbio.more ?s"
    "\<forall>b < NBUF. \<not> bvalid (bufs t ! b)"
    using binit_run [of ?s] assms by auto
  have m: "lstart t = 2 \<and> lsize t = 30 \<and> outstanding t = 1 \<and> ldev t = ROOTDEV \<and> lhn t = 0 \<and> lhblock t = replicate LOGSIZE 0 \<and>
    sb t = sp \<and> icache t = ic"
    using kinode_full_more [OF t(7)] by simp
  then have "tx {} 20 t"
    using t by (simp add: tx_def quiet_def log_ok_def LOGSIZE_def MAXOPBLOCKS_def ROOTDEV_def NBUF_def)
  moreover have "content t = d"
    using content_uncached [OF t(1)] t(2,8) by (auto simp: fun_eq_iff)
  ultimately show ?thesis using m t by auto
qed

text \<open>A disk of 1000 blocks whose first 64 blocks are in use; block 58 is the bitmap.\<close>

definition sb0 :: superblock where
  "sb0 = \<lparr>sbsize = 1000, nblocks = 941, ninodes = 200, nlog = 30, logstart = 2, inodestart = 32, bmapstart = 58\<rparr>"

definition sb0_bytes :: "byte list" where
  "sb0_bytes = concat (map (\<lambda>w. le32 (of_nat w)) [1000, 941, 200, 30, 2, 32, 58 :: nat]) @ replicate (BSIZE - 28) 0"

definition disk0 :: "nat \<Rightarrow> byte list" where
  "disk0 = (\<lambda>_. replicate BSIZE 0)(1 := sb0_bytes, 58 := replicate 8 (- 1) @ replicate (BSIZE - 8) 0)"

lemma disk0_length [simp]: "length (disk0 k) = BSIZE"
  by (simp add: disk0_def sb0_bytes_def BSIZE_def)

lemma hdr_word_concat:
  assumes "i < length ws" "\<forall>w \<in> set ws. w < 2 ^ 32"
  shows "hdr_word (concat (map (\<lambda>w. le32 (of_nat w)) ws) @ r) i = ws ! i"
  using assms slice_concat [of "\<lambda>w. le32 (of_nat w)" i ws r] by (simp add: hdr_word_def unat_of_nat take_bit_nat_eq_self)

lemma sb0_on_disk: "sb_of sb0_bytes = sb0"
proof -
  have "hdr_word sb0_bytes i = [1000, 941, 200, 30, 2, 32, 58] ! i" if "i < 7" for i
    unfolding sb0_bytes_def by (rule hdr_word_concat) (use that in auto)
  then show ?thesis by (simp add: sb_of_def sb0_def)
qed

lemma disk0_used:
  fixes s :: kinode
  assumes "content s = disk0" "sb s = sb0" "b < 1000"
  shows "block_used s b \<longleftrightarrow> b < 64"
proof -
  have b: "BBLOCK b sb0 = 58" "b mod BPB = b" using assms(3) by (simp_all add: BBLOCK_def sb0_def BPB_def BSIZE_def)
  have "disk0 58 ! (b div 8) = (if b div 8 < 8 then - 1 else 0)"
    using assms(3) by (simp add: disk0_def nth_append BSIZE_def)
  then have "bit (disk0 58 ! (b div 8)) (b mod 8) \<longleftrightarrow> b < 64" by (simp add: bit_minus_1_iff possible_bit_word) linarith
  then show ?thesis using assms b by (simp add: block_used_def bit_free_iff)
qed

lemma disk0_layout:
  fixes s :: kinode
  assumes "content s = disk0" "sb s = sb0" "lstart s = 2" "disksize s = 1000"
  shows "layout_ok s" "sb_on_disk s" "block_used s 1" "1 \<notin> range (\<lambda>b. BBLOCK b (sb s))" "sbsize (sb s) = 1000" "\<not> block_used s 100"
proof -
  have B: "BBLOCK b (sb s) = 58" if "b < 1000" for b using that assms(2) by (simp add: BBLOCK_def sb0_def BPB_def BSIZE_def)
  show n: "sbsize (sb s) = 1000" using assms(2) by (simp add: sb0_def)
  show "layout_ok s"
    using B disk0_used [OF assms(1,2)] assms(3,4) n
    by (auto simp: layout_ok_def plain_block_def log_region_def LOGSIZE_def MAXOPBLOCKS_def)
  show "sb_on_disk s" using assms sb0_on_disk by (simp add: sb_on_disk_def disk0_def)
  show "block_used s 1" "\<not> block_used s 100" using disk0_used [OF assms(1,2)] by simp_all
  show "1 \<notin> range (\<lambda>b. BBLOCK b (sb s))" using assms(2) by (auto simp: BBLOCK_def sb0_def)
qed

theorem balloc_spec_witness:
  "\<exists>(s :: kinode) t. balloc ROOTDEV s = Ok 64 t \<and> content t 64 = replicate BSIZE 0 \<and> block_used t 64 \<and> \<not> block_used s 64"
proof -
  obtain s :: kinode where s: "tx {} 20 s" "content s = disk0" "sb s = sb0" "lstart s = 2" "disksize s = 1000"
    using tx_boot [of disk0 sb0 "[]"] by auto
  note l = disk0_layout [OF s(2-5)]
  have "\<exists>f < sbsize (sb s). \<not> block_used s f" using l by (intro exI [of _ 100]) simp
  then obtain b t where b: "balloc ROOTDEV s = Ok b t" "b < 1000" "\<not> block_used s b" "\<forall>c < b. block_used s c"
    "content t b = replicate BSIZE 0" "block_used t b"
    using balloc_spec [of 18 s] s(1) l(1,5) by auto
  have "b = 64"
    using b(2-4) disk0_used [OF s(2,3)] by (metis linorder_neqE_nat less_trans not_less_iff_gr_or_eq)
  then show ?thesis using b by blast
qed

theorem balloc_bfree_roundtrip_witness:
  "\<exists>(s :: kinode) b t u. balloc ROOTDEV s = Ok b t \<and> bfree ROOTDEV b t = Ok () u \<and> bfree ROOTDEV b u = Panic ''freeing free block''"
proof -
  obtain s :: kinode where s: "tx {} 20 s" "content s = disk0" "sb s = sb0" "lstart s = 2" "disksize s = 1000"
    using tx_boot [of disk0 sb0 "[]"] by auto
  note l = disk0_layout [OF s(2-5)]
  show ?thesis using balloc_bfree_roundtrip [of 16 s 100] s(1) l by auto
qed

section \<open>Inodes on disk\<close>

lemma length_dinode_bytes: "length (daddrs x) = NDIRECT + 1 \<Longrightarrow> length (dinode_bytes x) = DINODESIZE"
  by (simp add: dinode_bytes_def length_concat comp_def sum_list_triv DINODESIZE_def NDIRECT_def)

definition dinode_wf :: "dinode \<Rightarrow> bool" where
  "dinode_wf x = (length (daddrs x) = NDIRECT + 1 \<and> (\<forall>a \<in> set (daddrs x). a < 2 ^ 32))"

lemma un32_concat:
  assumes "j < length ws" "\<forall>w \<in> set ws. w < 2 ^ 32"
  shows "unat (un32 (drop (4 * j) (concat (map (\<lambda>w. le32 (of_nat w)) ws) @ r))) = ws ! j"
  using assms
proof (induction ws arbitrary: j)
  case (Cons w ws)
  show ?case
  proof (cases j)
    case 0
    then show ?thesis using Cons.prems by (simp add: unat_of_nat take_bit_nat_eq_self)
  next
    case (Suc k)
    then show ?thesis using Cons by simp
  qed
qed simp

lemma dinode_at_bytes:
  assumes "dinode_wf x"
  shows "dinode_at (dinode_bytes x @ r) 0 = x"
proof -
  let ?c = "concat (map (\<lambda>a. le32 (of_nat a)) (daddrs x))"
  have d: "drop (12 + 4 * j) (dinode_bytes x @ r) = drop (4 * j) (?c @ r)" for j
    by (simp add: dinode_bytes_def)
  have "daddrs (dinode_at (dinode_bytes x @ r) 0) = daddrs x"
    using assms un32_concat [of _ "daddrs x" r]
    by (intro nth_equalityI) (auto simp: dinode_at_def Let_def dinode_wf_def d simp del: upt_Suc drop_append)
  moreover have "dtype (dinode_at (dinode_bytes x @ r) 0) = dtype x" "dmajor (dinode_at (dinode_bytes x @ r) 0) = dmajor x"
    "dminor (dinode_at (dinode_bytes x @ r) 0) = dminor x" "dnlink (dinode_at (dinode_bytes x @ r) 0) = dnlink x"
    "dsize (dinode_at (dinode_bytes x @ r) 0) = dsize x"
    by (simp_all add: dinode_at_def Let_def dinode_bytes_def)
  ultimately show ?thesis by (cases x) (cases "dinode_at (dinode_bytes x @ r) 0", simp)
qed

lemma dinode_at_splice:
  assumes "dinode_wf x" "DINODESIZE * (k + 1) \<le> length d"
  shows "dinode_at (splice (DINODESIZE * k) (dinode_bytes x) d) k = x"
proof -
  have "drop (DINODESIZE * k) (splice (DINODESIZE * k) (dinode_bytes x) d) =
    dinode_bytes x @ drop (DINODESIZE * k + length (dinode_bytes x)) d"
    using assms(2) by (simp add: splice_def)
  then show ?thesis
    using dinode_at_bytes [OF assms(1), of "drop (DINODESIZE * k + length (dinode_bytes x)) d"] by (simp add: dinode_at_def)
qed

lemma dinode_at_cong:
  assumes "\<And>i. i < DINODESIZE \<Longrightarrow> d ! (DINODESIZE * k + i) = e ! (DINODESIZE * k + i)"
    and "DINODESIZE * (k + 1) \<le> length d" "DINODESIZE * (k + 1) \<le> length e"
  shows "dinode_at d k = dinode_at e k"
proof -
  let ?x = "drop (DINODESIZE * k) d" and ?y = "drop (DINODESIZE * k) e"
  have n: "?x ! i = ?y ! i" if "i < DINODESIZE" for i using assms that by simp
  have l: "DINODESIZE \<le> length ?x" "DINODESIZE \<le> length ?y" using assms(2,3) by simp_all
  have 16: "un16 (drop i ?x) = un16 (drop i ?y)" if "i + 2 \<le> DINODESIZE" for i
    using that n [of i] n [of "i + 1"] l unfolding un16_def by (simp del: drop_drop)
  have 32: "un32 (drop i ?x) = un32 (drop i ?y)" if "i + 4 \<le> DINODESIZE" for i
    using that n [of i] n [of "i + 1"] n [of "i + 2"] n [of "i + 3"] l unfolding un32_def by (simp del: drop_drop)
  have "map (\<lambda>j. unat (un32 (drop (12 + 4 * j) ?x))) [0..<NDIRECT + 1] = map (\<lambda>j. unat (un32 (drop (12 + 4 * j) ?y))) [0..<NDIRECT + 1]"
    by (rule map_cong [OF refl]) (use 32 in \<open>auto simp: NDIRECT_def DINODESIZE_def simp del: drop_drop\<close>)
  then show ?thesis
    using 16 [of 0] 16 [of 2] 16 [of 4] 16 [of 6] 32 [of 8] unfolding dinode_at_def Let_def by (simp add: DINODESIZE_def del: drop_drop upt_Suc)
qed

lemma dinode_at_splice_other:
  assumes "length (dinode_bytes x) = DINODESIZE" "DINODESIZE * (k + 1) \<le> length d" "DINODESIZE * (j + 1) \<le> length d" "j \<noteq> k"
  shows "dinode_at (splice (DINODESIZE * k) (dinode_bytes x) d) j = dinode_at d j"
proof (rule dinode_at_cong)
  fix i assume i: "i < DINODESIZE"
  have "DINODESIZE * j + i < DINODESIZE * k \<or> DINODESIZE * k + DINODESIZE \<le> DINODESIZE * j + i"
    using assms(4) i by (cases "j < k") (auto simp: DINODESIZE_def)
  then show "splice (DINODESIZE * k) (dinode_bytes x) d ! (DINODESIZE * j + i) = d ! (DINODESIZE * j + i)"
    using assms(1-3) i by (auto simp: nth_splice)
qed (use assms in simp_all)

lemma iupdate_run:
  fixes s :: "'z kinode_scheme"
  assumes s: "tx {} (Suc n) s" and i: "idev (icache s ! i) = ROOTDEV" "dinode_wf (to_dinode (icache s ! i))"
    and k: "plain_block (IBLOCK (inum (icache s ! i)) (sb s)) s"
  shows "\<exists>t. iupdate i s = Ok () t \<and> upd {} n (IBLOCK (inum (icache s ! i)) (sb s))
    (splice (DINODESIZE * (inum (icache s ! i) mod IPB)) (dinode_bytes (to_dinode (icache s ! i)))
      (content s (IBLOCK (inum (icache s ! i)) (sb s)))) s t"
proof -
  let ?ip = "icache s ! i"
  let ?k = "IBLOCK (inum ?ip) (sb s)"
  let ?d = "splice (DINODESIZE * (inum ?ip mod IPB)) (dinode_bytes (to_dinode ?ip)) (content s ?k)"
  have "inum ?ip mod IPB < IPB" by (simp add: IPB_def BSIZE_def DINODESIZE_def)
  then have "DINODESIZE * (inum ?ip mod IPB) + DINODESIZE \<le> BSIZE" by (simp add: IPB_def BSIZE_def DINODESIZE_def)
  then have len: "length ?d = BSIZE"
    using length_dinode_bytes [of "to_dinode ?ip"] i(2) content_length_fs [OF s] by (simp add: dinode_wf_def)
  obtain b t u v w where "bread ROOTDEV ?k s = Ok b t" "bdata (bufs t ! b) = content s ?k" "set_data b ?d t = Ok () u"
    "log_write b u = Ok () v" "brelse b v = Ok () w" "upd {} n ?k ?d s w"
    using update_block [OF s _ k len] by auto
  then show ?thesis using i(1) by (auto simp: iupdate_def get_inode_def bnd_Ok thn_Ok getbuf_def)
qed

lemma quiet_cases: "quiet s \<Longrightarrow> \<exists>p. curproc s = Some p \<and> held s = {}"
  by (auto simp: quiet_def)

lemma tx_locked [simp]:
  "tx L n (s\<lparr>slocked := (slocked s)(InodeLk i := v), slpid := p\<rparr>) = tx L n s"
  "content (s\<lparr>slocked := f, slpid := p\<rparr>) = content s"
  by (simp_all add: tx_def bio_ok_def bufs_held_def quiet_def log_ok_def log_region_def pinned_def content_def cached_at_def fun_eq_iff split: option.split)

lemma tx_icache [simp]:
  "tx L n (s\<lparr>icache := c\<rparr>) = tx L n s" "content (s\<lparr>icache := c\<rparr>) = content s"
  by (simp_all add: tx_def bio_ok_def bufs_held_def quiet_def log_ok_def log_region_def pinned_def content_def cached_at_def fun_eq_iff split: option.split)

lemma tx_mono: "tx L n s \<Longrightarrow> m \<le> n \<Longrightarrow> tx L m s"
  by (auto simp: tx_def)

definition loaded :: "'z kinode_scheme \<Rightarrow> inode \<Rightarrow> inode" where
  "loaded s ip = (load_dinode (dinode_at (content s (IBLOCK (inum ip) (sb s))) (inum ip mod IPB)) ip)\<lparr>ivalid := True\<rparr>"

lemma ilock_load:
  fixes s :: "'z kinode_scheme"
  assumes s: "tx {} (Suc n) s" and i: "i < length (icache s)" "idev (icache s ! i) = ROOTDEV" "\<not> ivalid (icache s ! i)"
    "iref (icache s ! i) \<ge> 1" and l: "slocked s (InodeLk i) = 0" and k: "IBLOCK (inum (icache s ! i)) (sb s) < disksize s"
    and ty: "itype (loaded s (icache s ! i)) \<noteq> 0"
  shows "\<exists>t. ilock (Some i) s = Ok () t \<and> icache t = (icache s)[i := loaded s (icache s ! i)] \<and> content t = content s \<and> tx {} (Suc n) t"
proof -
  let ?ip = "icache s ! i"
  let ?k = "IBLOCK (inum ?ip) (sb s)"
  obtain p where p: "curproc s = Some p" "held s = {}" using quiet_cases txD(2) [OF s] by blast
  let ?s1 = "s\<lparr>slocked := (slocked s)(InodeLk i := 1), slpid := (slpid s)(InodeLk i := pid (ptable s ! p))\<rparr>"
  have a: "acquiresleep (InodeLk i) s = Ok () ?s1" using acquiresleep_free [of "InodeLk i" s p] l p by simp
  have s1: "tx {} (Suc n) ?s1" using s by simp
  obtain b t where b: "bread ROOTDEV ?k ?s1 = Ok b t" "bread_post {} ?k ?s1 b t" "tx {b} n t"
    using bread_tx [OF s1, of ?k] k by auto
  note bp = b(2) [unfolded bread_post_def]
  have ft: "bio_frame ?s1 t" using bp by simp
  have ic: "icache t = icache s" using bio_fs_frame [OF ft] by (simp add: fs_frame_def)
  let ?x = "load_dinode (dinode_at (content s ?k) (inum ?ip mod IPB)) ?ip"
  let ?t1 = "t\<lparr>icache := (icache s)[i := ?x]\<rparr>"
  have t1: "tx {b} n ?t1" using b(3) by simp
  have "bdata (bufs ?t1 ! b) = disk ?t1 (blockno (bufs ?t1 ! b))" if "\<not> bdirty (bufs ?t1 ! b)"
    using that bp clean_content [OF txD(1) [OF s1], of ?k] by (auto simp: caches_def)
  then obtain u where u: "brelse b ?t1 = Ok () u" "bio_ok {} u" "bio_frame ?t1 u" "content u = content ?t1" "pinned u = pinned ?t1"
    using brelse_client [OF txD(1,2) [OF t1], of b] by auto
  have "tx {} (Suc n - 0) (u\<lparr>icache := icache t\<rparr>)"
  proof (rule tx_bio_frame [OF s1])
    have "bio_frame t (u\<lparr>icache := icache t\<rparr>)" using u(3) unfolding bio_frame_def by (cases t, cases u) auto
    then show "bio_frame ?s1 (u\<lparr>icache := icache t\<rparr>)" using bio_frame_trans [OF ft] by blast
    show "bio_ok {} (u\<lparr>icache := icache t\<rparr>)" using u(2) by (simp add: bio_ok_def bufs_held_def)
    show "pinned (u\<lparr>icache := icache t\<rparr>) = pinned ?s1" using u(5) bp by (simp add: pinned_def)
  qed simp_all
  then have txu: "tx {} (Suc n) u" by simp
  have icu: "icache u = (icache s)[i := ?x]" "sb t = sb s" using bio_fs_frame [OF u(3)] bio_fs_frame [OF ft] by (simp_all add: fs_frame_def)
  have ld: "?x\<lparr>ivalid := True\<rparr> = loaded s ?ip" by (simp add: loaded_def)
  have "ilock (Some i) s = Ok () (u\<lparr>icache := (icache s)[i := loaded s ?ip]\<rparr>)"
    using a b(1) u(1) i bp ic icu ty ld
    by (simp add: ilock_def get_inode_def set_inode_def thn_Ok bnd_Ok whenk_apply getbuf_def)
  then show ?thesis using txu u(4) bp by auto
qed

text \<open>An inode survives on disk. After \<open>iupdate\<close> of a cached inode, a cache entry for the same
  inode that has not been read yet gets back, from \<open>ilock\<close>, exactly the type, device numbers, link
  count, size and block addresses that \<open>iupdate\<close> wrote, and other inodes in the block are untouched.\<close>

theorem iupdate_ilock_roundtrip:
  fixes s :: "'z kinode_scheme"
  assumes "tx {} (Suc (Suc n)) s" and "i < length (icache s)" and "idev (icache s ! i) = ROOTDEV"
    and "dinode_wf (to_dinode (icache s ! i))" and "plain_block (IBLOCK (inum (icache s ! i)) (sb s)) s"
    and "itype (icache s ! i) \<noteq> 0"
    and "idev x = ROOTDEV" and "inum x = inum (icache s ! i)" and "\<not> ivalid x" and "iref x \<ge> 1"
  shows "\<exists>t. iupdate i s = Ok () t \<and> icache t = icache s \<and>
    (\<forall>m. m div IPB = inum x div IPB \<and> m \<noteq> inum x \<longrightarrow>
       dinode_at (content t (IBLOCK m (sb s))) (m mod IPB) = dinode_at (content s (IBLOCK m (sb s))) (m mod IPB)) \<and>
    (slocked t (InodeLk i) = 0 \<longrightarrow> (\<exists>u. ilock (Some i) (t\<lparr>icache := (icache t)[i := x]\<rparr>) = Ok () u \<and>
       icache u ! i = (icache s ! i)\<lparr>iref := iref x, ivalid := True\<rparr>))"
proof -
  let ?ip = "icache s ! i"
  let ?k = "IBLOCK (inum ?ip) (sb s)"
  let ?j = "inum ?ip mod IPB"
  let ?d = "splice (DINODESIZE * ?j) (dinode_bytes (to_dinode ?ip)) (content s ?k)"
  obtain t where t: "iupdate i s = Ok () t" "upd {} (Suc n) ?k ?d s t"
    using iupdate_run [OF assms(1,3,4,5)] by blast
  have fr: "sb t = sb s" "icache t = icache s" "disksize t = disksize s" using updD(2) [OF t(2)] by (simp_all add: fs_frame_def)
  have ct: "content t = (content s)(?k := ?d)" using upd_content [OF t(2)] .
  have len: "length (content s ?k) = BSIZE" using content_length_fs [OF assms(1)] .
  have slot: "DINODESIZE * (m mod IPB + 1) \<le> BSIZE" for m
    using mod_less_divisor [of IPB m] by (simp add: IPB_def BSIZE_def DINODESIZE_def)
  have lb: "length (dinode_bytes (to_dinode ?ip)) = DINODESIZE" using assms(4) length_dinode_bytes by (simp add: dinode_wf_def)
  have other: "dinode_at (content t (IBLOCK m (sb s))) (m mod IPB) = dinode_at (content s (IBLOCK m (sb s))) (m mod IPB)"
    if "m div IPB = inum x div IPB" "m \<noteq> inum x" for m
  proof -
    have "m mod IPB \<noteq> ?j" using that assms(8) by (metis div_mult_mod_eq)
    moreover have "IBLOCK m (sb s) = ?k" using that(1) assms(8) by (simp add: IBLOCK_def)
    ultimately show ?thesis using ct dinode_at_splice_other [OF lb _ _ _, of ?j "content s ?k" "m mod IPB"] slot len by simp
  qed
  let ?t1 = "t\<lparr>icache := (icache t)[i := x]\<rparr>"
  have xi: "icache ?t1 ! i = x" using assms(2) fr by simp
  have ld: "loaded ?t1 x = ?ip\<lparr>iref := iref x, ivalid := True\<rparr>"
    using ct assms fr dinode_at_splice [OF assms(4), of ?j "content s ?k"] slot len
    by (cases ?ip, cases x) (simp add: loaded_def load_dinode_def to_dinode_def)
  have "\<exists>u. ilock (Some i) ?t1 = Ok () u \<and> icache u ! i = ?ip\<lparr>iref := iref x, ivalid := True\<rparr>" if "slocked t (InodeLk i) = 0"
    using ilock_load [of n ?t1 i] updD(1) [OF t(2)] xi ld assms fr that by (auto simp: plain_block_def)
  with t(1) fr(2) other show ?thesis by blast
qed

definition inode0 :: inode where
  "inode0 = \<lparr>idev = ROOTDEV, inum = 3, iref = 1, ivalid = True, itype = T_FILE, major = 0, minor = 0, nlink = 1, isize = 700,
     addrs = [70, 71] @ replicate 11 0\<rparr>"

theorem iupdate_ilock_roundtrip_witness:
  "\<exists>(s :: kinode) t. iupdate 0 s = Ok () t \<and> icache s = [inode0] \<and> icache t = [inode0]"
proof -
  obtain s :: kinode where s: "tx {} 20 s" "content s = disk0" "sb s = sb0" "icache s = [inode0]" "lstart s = 2" "disksize s = 1000"
    using tx_boot [of disk0 sb0 "[inode0]"] by auto
  have "dinode_wf (to_dinode inode0)" "IBLOCK 3 sb0 = 32"
    by (auto simp: dinode_wf_def to_dinode_def inode0_def NDIRECT_def IBLOCK_def IPB_def BSIZE_def DINODESIZE_def sb0_def)
  then show ?thesis
    using iupdate_ilock_roundtrip [of 18 s 0 "inode0\<lparr>ivalid := False\<rparr>"] s
    by (auto simp: inode0_def T_FILE_def plain_block_def log_region_def LOGSIZE_def MAXOPBLOCKS_def)
qed

section \<open>The inode cache\<close>

text \<open>Reference counts are not negative, and an inode is cached at most once.\<close>

definition icache_ok :: "inode list \<Rightarrow> bool" where
  "icache_ok c = ((\<forall>i < length c. iref (c ! i) \<ge> 0) \<and>
     (\<forall>i < length c. \<forall>j < length c. iref (c ! i) > 0 \<and> iref (c ! j) > 0 \<and> idev (c ! i) = idev (c ! j) \<and> inum (c ! i) = inum (c ! j) \<longrightarrow> i = j))"

lemma icache_ok_update:
  assumes "icache_ok c" "iref x \<ge> 0"
    and "\<And>j. j < length c \<Longrightarrow> j \<noteq> i \<Longrightarrow> iref (c ! j) > 0 \<Longrightarrow> idev (c ! j) = idev x \<Longrightarrow> inum (c ! j) \<noteq> inum x"
  shows "icache_ok (c[i := x])"
proof -
  have n: "c[i := x] ! j = (if j = i then x else c ! j)" if "j < length c" for j using that by (simp add: nth_list_update)
  have "iref (c[i := x] ! j) \<ge> 0" if "j < length c" for j
    using n [OF that] assms(1,2) that unfolding icache_ok_def by (cases "j = i") auto
  moreover have "j = k" if "j < length c" "k < length c" "iref (c[i := x] ! j) > 0" "iref (c[i := x] ! k) > 0"
    "idev (c[i := x] ! j) = idev (c[i := x] ! k)" "inum (c[i := x] ! j) = inum (c[i := x] ! k)" for j k
  proof (cases "j = i \<or> k = i")
    case True
    then show ?thesis using that assms(3) n by metis
  next
    case False
    then show ?thesis using that assms(1) n by (metis icache_ok_def)
  qed
  ultimately show ?thesis by (simp add: icache_ok_def)
qed

lemma icache_okD:
  assumes "icache_ok c" "i < length c" "j < length c" "iref (c ! i) > 0" "iref (c ! j) > 0"
    "idev (c ! j) = idev (c ! i)" "inum (c ! j) = inum (c ! i)"
  shows "j = i"
  using assms unfolding icache_ok_def by metis

lemma iget_run:
  assumes "LIcache \<notin> held s"
  shows "iget dev n s = (case find_index (\<lambda>x. iref x > 0 \<and> idev x = dev \<and> inum x = n) (icache s) of
      Some i \<Rightarrow> Ok i (s\<lparr>icache := (icache s)[i := (icache s ! i)\<lparr>iref := iref (icache s ! i) + 1\<rparr>]\<rparr>)
    | None \<Rightarrow> (case find_index (\<lambda>x. iref x = 0) (icache s) of
        None \<Rightarrow> Panic ''iget: no inodes''
      | Some i \<Rightarrow> Ok i (s\<lparr>icache := (icache s)[i := (icache s ! i)\<lparr>idev := dev, inum := n, iref := 1, ivalid := False\<rparr>]\<rparr>)))"
  using assms by (cases s) (auto simp: iget_def kdefs set_inode_def split: option.split)

text \<open>C39: the inode cache is a cache. From a well-formed cache, \<open>iget\<close> either panics because all
  entries are referenced by others, or returns an entry for the inode it was asked for with one more
  reference; the other entries are untouched, and an inode is still cached at most once.\<close>

theorem iget_keeps_cache:
  assumes "LIcache \<notin> held s" and "icache_ok (icache s)"
  shows "(iget dev n s = Panic ''iget: no inodes'' \<and> (\<forall>x \<in> set (icache s). iref x > 0 \<and> \<not> (idev x = dev \<and> inum x = n))) \<or>
    (\<exists>i t. iget dev n s = Ok i t \<and> i < length (icache s) \<and> icache_ok (icache t) \<and>
      idev (icache t ! i) = dev \<and> inum (icache t ! i) = n \<and> iref (icache t ! i) = iref (icache s ! i) + 1 \<and>
      (\<forall>j < length (icache s). j \<noteq> i \<longrightarrow> icache t ! j = icache s ! j))"
proof (cases "find_index (\<lambda>x. iref x > 0 \<and> idev x = dev \<and> inum x = n) (icache s)")
  case (Some i)
  then have i: "i < length (icache s)" "iref (icache s ! i) > 0" "idev (icache s ! i) = dev" "inum (icache s ! i) = n"
    by (auto simp: find_index_Some)
  have "icache_ok ((icache s)[i := (icache s ! i)\<lparr>iref := iref (icache s ! i) + 1\<rparr>])"
  proof (rule icache_ok_update [OF assms(2)])
    fix j assume "j < length (icache s)" "j \<noteq> i" "0 < iref (icache s ! j)"
      "idev (icache s ! j) = idev ((icache s ! i)\<lparr>iref := iref (icache s ! i) + 1\<rparr>)"
    then show "inum (icache s ! j) \<noteq> inum ((icache s ! i)\<lparr>iref := iref (icache s ! i) + 1\<rparr>)"
      using icache_okD [OF assms(2) i(1) _ i(2), of j] by simp blast
  qed (use i(2) in simp)
  moreover have "iget dev n s = Ok i (s\<lparr>icache := (icache s)[i := (icache s ! i)\<lparr>iref := iref (icache s ! i) + 1\<rparr>]\<rparr>)"
    using iget_run [OF assms(1), of dev n] Some by simp
  ultimately show ?thesis using i by (intro disjI2 exI conjI) (assumption | simp)+
next
  case None
  then have miss: "\<not> (iref (icache s ! i) > 0 \<and> idev (icache s ! i) = dev \<and> inum (icache s ! i) = n)" if "i < length (icache s)" for i
    using that nth_mem [OF that] None unfolding find_index_None by blast
  show ?thesis
  proof (cases "find_index (\<lambda>x. iref x = 0) (icache s)")
    case none: None
    have "iref x > 0" if "x \<in> set (icache s)" for x
    proof -
      have "iref x \<ge> 0" using that assms(2) by (auto simp: icache_ok_def in_set_conv_nth)
      then show ?thesis using none that by (auto simp: find_index_None less_le)
    qed
    then show ?thesis using iget_run [OF assms(1), of dev n] None none by (auto simp: find_index_None)
  next
    case (Some i)
    then have i: "i < length (icache s)" "iref (icache s ! i) = 0" by (auto simp: find_index_Some)
    then have "icache_ok ((icache s)[i := (icache s ! i)\<lparr>idev := dev, inum := n, iref := 1, ivalid := False\<rparr>])"
      using miss by (intro icache_ok_update [OF assms(2)]) auto
    moreover have "iget dev n s = Ok i (s\<lparr>icache := (icache s)[i := (icache s ! i)\<lparr>idev := dev, inum := n, iref := 1, ivalid := False\<rparr>]\<rparr>)"
      using iget_run [OF assms(1), of dev n] None Some by simp
    ultimately show ?thesis using i by (intro disjI2 exI conjI) (assumption | simp)+
  qed
qed

theorem iget_keeps_cache_witness:
  "\<exists>(s :: kinode) t. iget ROOTDEV 3 s = Ok 0 t \<and> icache s = [inode0, inode0\<lparr>iref := 0\<rparr>] \<and> iref (icache t ! 0) = 2 \<and>
    icache_ok (icache t)"
proof -
  obtain s :: kinode where s: "tx {} 20 s" "icache s = [inode0, inode0\<lparr>iref := 0\<rparr>]"
    using tx_boot [of disk0 sb0 "[inode0, inode0\<lparr>iref := 0\<rparr>]"] by auto
  have h: "LIcache \<notin> held s" using txD(2) [OF s(1)] by (simp add: quiet_def)
  have c: "icache_ok (icache s)" using s(2) by (auto simp: icache_ok_def inode0_def less_Suc_eq nth_Cons')
  let ?t = "s\<lparr>icache := [inode0\<lparr>iref := 2\<rparr>, inode0\<lparr>iref := 0\<rparr>]\<rparr>"
  have g: "iget ROOTDEV 3 s = Ok 0 ?t"
    using iget_run [OF h, of ROOTDEV 3] s(2) by (simp add: inode0_def)
  then have "icache_ok (icache ?t)" using iget_keeps_cache [OF h c, of ROOTDEV 3] by auto
  then show ?thesis using g s(2) by (intro exI [of _ s] exI [of _ ?t]) simp
qed

end
