(* ===== verification/Ring.thy ===== *)
theory Ring
  imports Prelude
begin

text \<open>
  Ring buffers with free-running 32-bit counters, as the console (\<open>console.c\<close>) and the pipes
  (\<open>pipe.c\<close>) use them: the counters wrap around modulo \<open>2^32\<close>, the array is indexed modulo its size,
  and the size divides \<open>2^32\<close>. The interface is a bounded queue.
\<close>

section \<open>A bounded queue\<close>

locale bounded_queue =
  fixes cap :: nat and wf :: "'q \<Rightarrow> bool" and items :: "'q \<Rightarrow> 'a list"
    and push :: "'a \<Rightarrow> 'q \<Rightarrow> 'q" and front :: "'q \<Rightarrow> 'a" and pop :: "'q \<Rightarrow> 'q"
  assumes bounded: "wf q \<Longrightarrow> length (items q) \<le> cap"
    and push_wf: "wf q \<Longrightarrow> length (items q) < cap \<Longrightarrow> wf (push x q)"
    and push_items: "wf q \<Longrightarrow> length (items q) < cap \<Longrightarrow> items (push x q) = items q @ [x]"
    and front_items: "wf q \<Longrightarrow> items q \<noteq> [] \<Longrightarrow> front q = hd (items q)"
    and pop_wf: "wf q \<Longrightarrow> items q \<noteq> [] \<Longrightarrow> wf (pop q)"
    and pop_items: "wf q \<Longrightarrow> items q \<noteq> [] \<Longrightarrow> items (pop q) = tl (items q)"
begin

lemma push_all:
  "wf q \<Longrightarrow> length (items q) + length xs \<le> cap \<Longrightarrow> wf (fold push xs q) \<and> items (fold push xs q) = items q @ xs"
proof (induction xs arbitrary: q)
  case (Cons x xs)
  then have "length (items q) < cap" by simp
  then show ?case using Cons push_wf [of q x] push_items [of q x] by simp
qed simp

lemma pop_many:
  "wf q \<Longrightarrow> n \<le> length (items q) \<Longrightarrow> wf ((pop ^^ n) q) \<and> items ((pop ^^ n) q) = drop n (items q)"
proof (induction n)
  case (Suc n)
  then have "items ((pop ^^ n) q) \<noteq> []" by simp
  then show ?case using Suc pop_wf pop_items by (simp add: drop_Suc tl_drop)
qed simp

lemma front_many: "wf q \<Longrightarrow> n < length (items q) \<Longrightarrow> front ((pop ^^ n) q) = items q ! n"
  using pop_many [of q n] front_items by (simp add: hd_drop_conv_nth)

end

section \<open>Counters modulo \<open>2^32\<close>\<close>

definition ring_items :: "nat \<Rightarrow> 'a list \<Rightarrow> u32 \<Rightarrow> u32 \<Rightarrow> 'a list" where
  "ring_items N b r w = map (\<lambda>i. b ! (unat (r + of_nat i) mod N)) [0..<unat (w - r)]"

definition ring_wf :: "nat \<Rightarrow> 'a list \<Rightarrow> u32 \<Rightarrow> u32 \<Rightarrow> bool" where
  "ring_wf N b r w = (length b = N \<and> unat (w - r) \<le> N)"

lemma length_ring_items [simp]: "length (ring_items N b r w) = unat (w - r)"
  by (simp add: ring_items_def)

lemma ring_empty: "ring_items N b r w = [] \<longleftrightarrow> r = w"
  by (simp add: ring_items_def unat_eq_0) auto

lemma ring_items_self [simp]: "ring_items N b r r = []"
  by (simp add: ring_empty)

lemma unat_add_mod: "N dvd 2 ^ 32 \<Longrightarrow> unat (r + of_nat i :: u32) mod N = (unat r + i) mod N"
  by (simp add: unat_word_ariths unat_of_nat take_bit_eq_mod mod_mod_cancel mod_add_right_eq)

lemma ring_slot_free:
  assumes "N dvd 2 ^ 32" "i < unat (w - r)" "unat (w - r) < N"
  shows "unat (r + of_nat i) mod N \<noteq> unat (w :: u32) mod N"
proof -
  have "w = r + of_nat (unat (w - r))" by simp
  then have w: "unat w mod N = (unat r + unat (w - r)) mod N" using unat_add_mod [OF assms(1)] by metis
  have "(unat r + i) mod N \<noteq> (unat r + unat (w - r)) mod N"
  proof
    assume "(unat r + i) mod N = (unat r + unat (w - r)) mod N"
    then have "N dvd unat r + unat (w - r) - (unat r + i)"
      using mod_eq_dvd_iff_nat [of "unat r + i" "unat r + unat (w - r)" N] assms(2) by auto
    then show False using assms(2,3) nat_dvd_not_less [of "unat (w - r) - i" N] by simp
  qed
  then show ?thesis using w unat_add_mod [OF assms(1)] by metis
qed

lemma unat_Suc_diff:
  assumes "unat (w - r) < 2 ^ 32 - 1"
  shows "unat (w + 1 - r :: u32) = Suc (unat (w - r))"
proof -
  have "unat ((w - r) + 1) = (unat (w - r) + 1) mod 2 ^ 32" by (simp add: unat_word_ariths)
  then show ?thesis using assms by (simp add: algebra_simps)
qed

lemma ring_push:
  assumes "N dvd 2 ^ 32" "N < 2 ^ 32" "ring_wf N b r w" "unat (w - r) < N"
  shows "ring_items N (b[unat w mod N := x]) r (w + 1) = ring_items N b r w @ [x]"
    "ring_wf N (b[unat w mod N := x]) r (w + 1)"
proof -
  have u: "unat (w + 1 - r) = Suc (unat (w - r))" using unat_Suc_diff [of w r] assms by simp
  have n: "0 < N" using assms(4) by simp
  have e: "r + of_nat (unat (w - r)) = w" by simp
  have l: "unat w mod N < length b" using assms(3) n by (simp add: ring_wf_def)
  have "map (\<lambda>i. b[unat w mod N := x] ! (unat (r + of_nat i) mod N)) [0..<unat (w - r)] = ring_items N b r w"
    unfolding ring_items_def using ring_slot_free [OF assms(1) _ assms(4)]
    by (intro map_cong refl) (metis atLeastLessThan_iff nth_list_update_neq set_upt)
  then show "ring_items N (b[unat w mod N := x]) r (w + 1) = ring_items N b r w @ [x]"
    using u e l unfolding ring_items_def by simp
  show "ring_wf N (b[unat w mod N := x]) r (w + 1)" using assms(3,4) u by (simp add: ring_wf_def)
qed

lemma ring_pop:
  assumes "ring_wf N b r w" "r \<noteq> w"
  shows "b ! (unat r mod N) = hd (ring_items N b r w)" "ring_items N b (r + 1) w = tl (ring_items N b r w)" "ring_wf N b (r + 1) w"
proof -
  have "unat (w - r) \<noteq> 0" using assms(2) by (simp add: unat_eq_0)
  then obtain k where k: "unat (w - r) = Suc k" using not0_implies_Suc by blast
  have "unat (w - r) = Suc (unat (w - (r + 1)))"
    using assms(2) unat_Suc_diff [of "w - 1" r] k unat_minus_one [of "w - r"] by (simp add: algebra_simps)
  then have k': "unat (w - (r + 1)) = k" using k by simp
  show "b ! (unat r mod N) = hd (ring_items N b r w)" using k by (simp add: ring_items_def upt_conv_Cons del: upt_Suc)
  have "ring_items N b r w = b ! (unat r mod N) # map (\<lambda>i. b ! (unat (r + of_nat i) mod N)) [1..<Suc k]"
    using k by (simp add: ring_items_def upt_conv_Cons del: upt_Suc)
  moreover have "map (\<lambda>i. b ! (unat (r + of_nat i) mod N)) [1..<Suc k] = map (\<lambda>i. b ! (unat (r + 1 + of_nat i) mod N)) [0..<k]"
    by (rule nth_equalityI) (simp_all add: algebra_simps del: upt_Suc)
  ultimately show "ring_items N b (r + 1) w = tl (ring_items N b r w)" using k' by (simp add: ring_items_def)
  show "ring_wf N b (r + 1) w" using assms(1) k k' by (simp add: ring_wf_def)
qed

text \<open>Taking back the last element, as the console does on backspace.\<close>

lemma ring_unpush:
  assumes "ring_wf N b r w" "r \<noteq> w"
  shows "ring_items N b r (w - 1) = butlast (ring_items N b r w)" "ring_wf N b r (w - 1)"
proof -
  have "unat (w - r) \<noteq> 0" using assms(2) by (simp add: unat_eq_0)
  then obtain k where k: "unat (w - r) = Suc k" using not0_implies_Suc by blast
  have "unat (w - r - 1) = k" using k unat_minus_one [of "w - r"] assms(2) by simp
  then have k': "unat (w - 1 - r) = k" by (simp add: algebra_simps)
  show "ring_items N b r (w - 1) = butlast (ring_items N b r w)"
    using k k' by (simp add: ring_items_def)
  show "ring_wf N b r (w - 1)" using assms(1) k k' by (simp add: ring_wf_def)
qed

section \<open>Ring buffers are bounded queues\<close>

record 'a ring =
  rbuf :: "'a list"
  rr :: u32
  rw :: u32

definition rpush :: "nat \<Rightarrow> 'a \<Rightarrow> 'a ring \<Rightarrow> 'a ring" where
  "rpush N x q = q\<lparr>rbuf := (rbuf q)[unat (rw q) mod N := x], rw := rw q + 1\<rparr>"

definition rpop :: "'a ring \<Rightarrow> 'a ring" where
  "rpop q = q\<lparr>rr := rr q + 1\<rparr>"

definition rfront :: "nat \<Rightarrow> 'a ring \<Rightarrow> 'a" where
  "rfront N q = rbuf q ! (unat (rr q) mod N)"

lemma ring_bounded_queue:
  assumes "N dvd 2 ^ 32" "N < 2 ^ 32"
  shows "bounded_queue N (\<lambda>q. ring_wf N (rbuf q) (rr q) (rw q)) (\<lambda>q. ring_items N (rbuf q) (rr q) (rw q)) (rpush N) (rfront N) rpop"
proof
  fix q :: "'a ring" and x
  assume q: "ring_wf N (rbuf q) (rr q) (rw q)"
  show "length (ring_items N (rbuf q) (rr q) (rw q)) \<le> N" using q by (simp add: ring_wf_def)
  { assume "length (ring_items N (rbuf q) (rr q) (rw q)) < N"
    then have u: "unat (rw q - rr q) < N" by simp
    show "ring_wf N (rbuf (rpush N x q)) (rr (rpush N x q)) (rw (rpush N x q))"
      "ring_items N (rbuf (rpush N x q)) (rr (rpush N x q)) (rw (rpush N x q)) = ring_items N (rbuf q) (rr q) (rw q) @ [x]"
      using ring_push [OF assms q u, of x] by (simp_all add: rpush_def) }
  { assume "ring_items N (rbuf q) (rr q) (rw q) \<noteq> []"
    then have "rr q \<noteq> rw q" by (simp add: ring_empty)
    then show "rfront N q = hd (ring_items N (rbuf q) (rr q) (rw q))"
      "ring_wf N (rbuf (rpop q)) (rr (rpop q)) (rw (rpop q))"
      "ring_items N (rbuf (rpop q)) (rr (rpop q)) (rw (rpop q)) = tl (ring_items N (rbuf q) (rr q) (rw q))"
      using ring_pop [OF q] by (simp_all add: rfront_def rpop_def) }
qed

end
