(* ===== verification/Console.thy ===== *)
theory Console
  imports Inode Ring
begin

text \<open>
  The console (\<open>console.c\<close>): formatted printing, the CGA screen with its cursor, and line-edited
  input in a ring buffer that the interrupt handler fills and readers drain.
\<close>

section \<open>State\<close>

definition INPUT_BUF :: nat where "INPUT_BUF = 128"
definition BACKSPACE :: int where "BACKSPACE = 0x100"
definition NDEV :: nat where "NDEV = 10"
definition CONSOLE :: nat where "CONSOLE = 1"

text \<open>Function pointers in the device table \<open>devsw\<close>, by name.\<close>

datatype devfn = ConsoleRead | ConsoleWrite

text \<open>
  \<open>crt\<close> is the CGA memory, \<open>cpos\<close> the cursor position the controller stores, \<open>uart_out\<close> what was sent
  to the serial port, oldest first. \<open>ibuf\<close>, \<open>ir\<close>, \<open>iw\<close> and \<open>ie\<close> are the fields of \<open>input\<close>.
\<close>

record kcons = kinode +
  panicked :: bool
  locking :: bool
  uart :: bool
  uart_out :: "byte list"
  crt :: "nat \<Rightarrow> u16"
  cpos :: nat
  ibuf :: "byte list"
  ir :: u32
  iw :: u32
  ie :: u32
  devsw :: "nat \<Rightarrow> devfn option \<times> devfn option"

definition str :: "string \<Rightarrow> byte list" where
  "str cs = map of_char cs"

section \<open>Output\<close>

definition uartputc :: "int \<Rightarrow> ('z kcons_scheme, unit) kern" where
  "uartputc c = modify (\<lambda>s. if uart s then s\<lparr>uart_out := uart_out s @ [of_int c]\<rparr> else s)"

definition cga_move :: "int \<Rightarrow> nat \<Rightarrow> nat" where
  "cga_move c pos = (if c = 10 then pos + (80 - pos mod 80) else if c = BACKSPACE then (if pos > 0 then pos - 1 else pos) else pos + 1)"

definition cga_scroll :: "nat \<Rightarrow> (nat \<Rightarrow> u16) \<Rightarrow> nat \<Rightarrow> u16" where
  "cga_scroll pos m = (\<lambda>i. if pos \<le> i \<and> i < 24 * 80 then 0 else if i < 23 * 80 then m (i + 80) else m i)"

definition cgaputc :: "int \<Rightarrow> ('z kcons_scheme, unit) kern" where
  "cgaputc c = bnd (gets (\<lambda>s. (cpos s, crt s))) (\<lambda>(pos0, m0).
     let m1 = (if c = 10 \<or> c = BACKSPACE then m0 else m0(pos0 := of_int (c mod 256) OR 0x0700));
         pos1 = cga_move c pos0 in
     if pos1 > 25 * 80 then panic ''pos under/overflow''
     else
       let scroll = (pos1 div 80 \<ge> 24);
           pos2 = (if scroll then pos1 - 80 else pos1);
           m2 = (if scroll then cga_scroll pos2 m1 else m1) in
       modify (\<lambda>s. s\<lparr>cpos := pos2 mod 2 ^ 16, crt := m2(pos2 := 0x0720)\<rparr>))"

definition consputc :: "int \<Rightarrow> ('z kcons_scheme, unit) kern" where
  "consputc c = bnd (gets panicked) (\<lambda>f.
     if f then diverge
     else thn (if c = BACKSPACE then thn (uartputc 8) (thn (uartputc 32) (uartputc 8)) else uartputc c)
          (cgaputc c))"

text \<open>The digits of a number, least significant first; \<open>digit_char\<close> indexes \<open>0123456789abcdef\<close>.\<close>

fun digs :: "nat \<Rightarrow> nat \<Rightarrow> nat list" where
  "digs b x = (if b < 2 \<or> x < b then [x mod b] else x mod b # digs b (x div b))"

declare digs.simps [simp del]

definition digit_char :: "nat \<Rightarrow> byte" where
  "digit_char d = (str ''0123456789abcdef'') ! d"

definition printint_text :: "u32 \<Rightarrow> nat \<Rightarrow> bool \<Rightarrow> byte list" where
  "printint_text xx b sign =
     (let neg = (sign \<and> sint xx < 0); x = (if neg then - xx else xx) in
      (if neg then str ''-'' else []) @ rev (map digit_char (digs b (unat x))))"

definition printint :: "u32 \<Rightarrow> nat \<Rightarrow> bool \<Rightarrow> ('z kcons_scheme, unit) kern" where
  "printint xx b sign = foreach (printint_text xx b sign) (\<lambda>c. consputc (uint c))"

text \<open>The variable arguments of \<open>cprintf\<close>: words, or strings (a null pointer is \<open>None\<close>).\<close>

datatype carg = AInt u32 | AStr "byte list option"

definition puts :: "byte list \<Rightarrow> ('z kcons_scheme, unit) kern" where
  "puts t = foreach t (\<lambda>c. consputc (uint c))"

fun cprintf_loop :: "byte list \<Rightarrow> carg list \<Rightarrow> ('z kcons_scheme, unit) kern" where
  "cprintf_loop [] args = ret ()"
| "cprintf_loop [c] args = (if c \<noteq> 37 then consputc (uint c) else ret ())"
| "cprintf_loop (c # d # fmt) args =
     (if c \<noteq> 37 then thn (consputc (uint c)) (cprintf_loop (d # fmt) args)
      else if d = of_char CHR ''d'' then (case args of AInt x # as \<Rightarrow> thn (printint x 10 True) (cprintf_loop fmt as)
                                          | _ \<Rightarrow> panic ''cprintf: no integer argument'')
      else if d = of_char CHR ''x'' \<or> d = of_char CHR ''p'' then
        (case args of AInt x # as \<Rightarrow> thn (printint x 16 False) (cprintf_loop fmt as)
         | _ \<Rightarrow> panic ''cprintf: no integer argument'')
      else if d = of_char CHR ''s'' then
        (case args of AStr s # as \<Rightarrow> thn (puts (case s of None \<Rightarrow> str ''(null)'' | Some t \<Rightarrow> t)) (cprintf_loop fmt as)
         | _ \<Rightarrow> panic ''cprintf: no string argument'')
      else if d = 37 then thn (consputc 37) (cprintf_loop fmt args)
      else thn (consputc 37) (thn (consputc (uint d)) (cprintf_loop fmt args)))"

definition cprintf :: "byte list \<Rightarrow> carg list \<Rightarrow> ('z kcons_scheme, unit) kern" where
  "cprintf fmt args = bnd (gets locking) (\<lambda>l.
     thn (whenk l (acquire LCons)) (
     thn (cprintf_loop fmt args)
     (whenk l (release LCons))))"

section \<open>Process listing\<close>

fun state_name :: "procstate \<Rightarrow> byte list" where
  "state_name UNUSED = str ''unused''"
| "state_name EMBRYO = str ''embryo''"
| "state_name SLEEPING = str ''sleep ''"
| "state_name RUNNABLE = str ''runble''"
| "state_name RUNNING = str ''run   ''"
| "state_name ZOMBIE = str ''zombie''"

definition procdump :: "('z kcons_scheme, unit) kern" where
  "procdump = bnd (gets ptable) (\<lambda>ps.
     thn (foreach ps (\<lambda>p. whenk (state p \<noteq> UNUSED) (
       thn (cprintf (str ''%d state=%s alloc-memory-pages=%d paged-out=%d page-faults=%d  paged-out-total-num=%d %s'')
         [AInt (of_int (pid p)), AStr (Some (state_name (state p))), AInt (of_int (numberOfAllocatedPages p)),
          AInt (numberOfPagedOut p), AInt (of_int (numberOfPageFaults p)), AInt (of_int (totalNumberOfPagedOut p)),
          AStr (Some (takeWhile (\<lambda>c. c \<noteq> 0) (pname p)))])
       (cprintf [10] [])))) (
     bnd numberOfFreePages (\<lambda>n. bnd (gets initial_size) (\<lambda>i.
     cprintf (str ''%d/%d free pages in the system'' @ [10]) [AInt (of_int n), AInt (of_int i)]))))"

section \<open>Input\<close>

definition Ctrl :: "char \<Rightarrow> int" where
  "Ctrl x = of_char x - of_char CHR ''@''"

text \<open>The loop of control-U: erase up to the start of the line. The edited part is at most the
  whole buffer, so \<open>INPUT_BUF\<close> rounds always end it; more is impossible by \<open>input_ok\<close> below.\<close>

fun kill_line :: "nat \<Rightarrow> ('z kcons_scheme, unit) kern" where
  "kill_line 0 = diverge"
| "kill_line (Suc fuel) = bnd (gets (\<lambda>s. ie s \<noteq> iw s \<and> ibuf s ! (unat (ie s - 1) mod INPUT_BUF) \<noteq> 10)) (\<lambda>more.
     if more then thn (modify (\<lambda>s. s\<lparr>ie := ie s - 1\<rparr>)) (thn (consputc BACKSPACE) (kill_line fuel)) else ret ())"

definition intr_char :: "int \<Rightarrow> ('z kcons_scheme, unit) kern" where
  "intr_char c =
     (if c = Ctrl CHR ''P'' then ret ()
      else if c = Ctrl CHR ''U'' then kill_line (INPUT_BUF + 1)
      else if c = Ctrl CHR ''H'' \<or> c = 0x7f then
        bnd (gets (\<lambda>s. ie s \<noteq> iw s)) (\<lambda>b. whenk b (thn (modify (\<lambda>s. s\<lparr>ie := ie s - 1\<rparr>)) (consputc BACKSPACE)))
      else bnd (gets (\<lambda>s. c \<noteq> 0 \<and> unat (ie s - ir s) < INPUT_BUF)) (\<lambda>room. whenk room (
        let d = (if c = 13 then 10 else c) in
        thn (modify (\<lambda>s. s\<lparr>ibuf := (ibuf s)[unat (ie s) mod INPUT_BUF := of_int d], ie := ie s + 1\<rparr>)) (
        thn (consputc d) (
        bnd (gets (\<lambda>s. d = 10 \<or> d = Ctrl CHR ''D'' \<or> ie s = ir s + of_nat INPUT_BUF)) (\<lambda>e.
        whenk e (thn (modify (\<lambda>s. s\<lparr>iw := ie s\<rparr>)) (wakeup (Some InputChan)))))))))"

text \<open>\<open>codes\<close> are the values that \<open>getc\<close> returns, one after the other, before a negative one.\<close>

definition consoleintr :: "int list \<Rightarrow> ('z kcons_scheme, unit) kern" where
  "consoleintr codes =
     thn (acquire LCons) (
     thn (foreach codes intr_char) (
     thn (release LCons)
     (whenk (Ctrl CHR ''P'' \<in> set codes) procdump)))"

text \<open>
  The reading loop: \<open>None\<close> when the process was killed, otherwise the bytes read. It sleeps when no
  line is available; a control-D that is not the first byte is left for the next call.
\<close>

fun cread_loop :: "nat \<Rightarrow> byte list \<Rightarrow> ('z kcons_scheme, byte list option) kern" where
  "cread_loop 0 acc = ret (Some acc)"
| "cread_loop (Suc n) acc =
     bnd (gets (\<lambda>s. ir s = iw s)) (\<lambda>empty.
     if empty then with_proc (\<lambda>p. bnd (gets (\<lambda>s. killed (ptable s ! p))) (\<lambda>k.
       if k \<noteq> 0 then ret None else thn (sleep InputChan (Some LCons)) diverge))
     else
       bnd (gets (\<lambda>s. ibuf s ! (unat (ir s) mod INPUT_BUF))) (\<lambda>c.
       if uint c = Ctrl CHR ''D'' then thn (whenk (acc = []) (modify (\<lambda>s. s\<lparr>ir := ir s + 1\<rparr>))) (ret (Some acc))
       else thn (modify (\<lambda>s. s\<lparr>ir := ir s + 1\<rparr>)) (
         if c = 10 then ret (Some (acc @ [c])) else cread_loop n (acc @ [c]))))"

definition consoleread :: "nat \<Rightarrow> int \<Rightarrow> ('z kcons_scheme, int \<times> byte list) kern" where
  "consoleread ip n =
     thn (iunlock (Some ip)) (
     thn (acquire LCons) (
     bnd (cread_loop (nat n) []) (\<lambda>r.
     thn (release LCons) (
     thn (ilock (Some ip))
     (case r of None \<Rightarrow> ret (-1, []) | Some bs \<Rightarrow> ret (int (length bs), bs))))))"

definition consolewrite :: "nat \<Rightarrow> byte list \<Rightarrow> ('z kcons_scheme, int) kern" where
  "consolewrite ip bs =
     thn (iunlock (Some ip)) (
     thn (acquire LCons) (
     thn (puts bs) (
     thn (release LCons) (
     thn (ilock (Some ip))
     (ret (int (length bs)))))))"

definition consoleinit :: "('z kcons_scheme, unit) kern" where
  "consoleinit = modify (\<lambda>s. s\<lparr>held := held s - {LCons},
     devsw := (devsw s)(CONSOLE := (Some ConsoleRead, Some ConsoleWrite)), locking := True\<rparr>)"

section \<open>The screen\<close>

definition screen_ok :: "'z kcons_scheme \<Rightarrow> bool" where
  "screen_ok s = (cpos s < 24 * 80 \<and> \<not> panicked s)"

definition out_frame :: "'z kcons_scheme \<Rightarrow> 'z kcons_scheme \<Rightarrow> bool" where
  "out_frame s t = (\<exists>u m p. t = s\<lparr>uart_out := u, crt := m, cpos := p\<rparr>)"

lemma out_frameI: "out_frame s (s\<lparr>uart_out := u, crt := m, cpos := p\<rparr>)"
  unfolding out_frame_def by blast

lemma out_frame_refl [simp]: "out_frame s s"
  using out_frameI [of s, where u = "uart_out s" and m = "crt s" and p = "cpos s"] by simp

lemma out_frame_trans: "out_frame s t \<Longrightarrow> out_frame t u \<Longrightarrow> out_frame s u"
  unfolding out_frame_def by clarsimp blast

lemma out_frameD:
  assumes "out_frame s t"
  shows "held t = held s" "ibuf t = ibuf s" "ir t = ir s" "iw t = iw s" "ie t = ie s" "panicked t = panicked s"
    "ptable t = ptable s" "curproc t = curproc s" "locking t = locking s" "icache t = icache s"
  using assms by (auto simp: out_frame_def)

lemma uartputc_frame: "\<exists>t. uartputc c s = Ok () t \<and> out_frame s t \<and> cpos t = cpos s"
proof -
  have "out_frame s (s\<lparr>uart_out := u\<rparr>)" for u using out_frameI [of s, where u = u and m = "crt s" and p = "cpos s"] by simp
  then show ?thesis by (simp add: uartputc_def)
qed

lemma cga_move_bound:
  assumes "pos < 24 * 80"
  shows "cga_move c pos \<le> 24 * 80"
proof -
  obtain q r where q: "pos = 80 * q + r" "r < 80" using div_mult_mod_eq [of pos 80] by (metis mod_less_divisor mult.commute zero_less_numeral)
  then have "q < 24" using assms by simp
  then have "pos + (80 - pos mod 80) \<le> 1920" using q by simp
  then show ?thesis using assms by (auto simp: cga_move_def)
qed

text \<open>The cursor never leaves the screen. From a cursor position on the 24 rows that scroll,
  \<open>cgaputc\<close> of any character succeeds (its overflow panic is unreachable) and leaves the cursor on
  those rows with a blank under it.\<close>

theorem cgaputc_in_bounds:
  assumes "cpos s < 24 * 80"
  shows "\<exists>t. cgaputc c s = Ok () t \<and> cpos t < 24 * 80 \<and> crt t (cpos t) = 0x0720"
proof -
  let ?p = "cga_move c (cpos s)"
  have p: "?p \<le> 1920" using cga_move_bound [OF assms] by simp
  have d: "?p div 80 \<ge> 24 \<longleftrightarrow> ?p = 1920" using p by (simp add: less_eq_div_iff_mult_less_eq)
  show ?thesis
  proof (cases "?p = 1920")
    case True
    then show ?thesis by (simp add: cgaputc_def Let_def)
  next
    case False
    then show ?thesis using p d by (simp add: cgaputc_def Let_def)
  qed
qed

theorem cgaputc_in_bounds_witness:
  "\<exists>(s :: kcons) t. cgaputc 65 s = Ok () t \<and> cpos s = 1919 \<and> cpos t < 1920"
proof -
  obtain s :: kcons where s: "cpos s = 1919" by (meson kcons.select_convs)
  show ?thesis using cgaputc_in_bounds [of s 65] s by auto
qed

lemma consputc_run:
  assumes "screen_ok s"
  shows "\<exists>t. consputc c s = Ok () t \<and> screen_ok t \<and> out_frame s t"
proof -
  have cga: "\<exists>t. cgaputc c s = Ok () t \<and> cpos t < 1920 \<and> out_frame s t" if c: "cpos s < 1920" for s
  proof -
    let ?p = "cga_move c (cpos s)"
    have p: "?p \<le> 1920" using cga_move_bound c by simp
    have fr: "out_frame s (s\<lparr>cpos := q, crt := m\<rparr>)" for q m
      using out_frameI [of s, where u = "uart_out s" and m = m and p = q] by (cases s) simp
    have d: "24 \<le> ?p div 80 \<longleftrightarrow> ?p = 1920" using p by (simp add: less_eq_div_iff_mult_less_eq)
    show ?thesis by (cases "?p = 1920") (use p d fr in \<open>simp_all add: cgaputc_def Let_def\<close>)
  qed
  have u: "\<exists>t. (if c = BACKSPACE then thn (uartputc 8) (thn (uartputc 32) (uartputc 8)) else uartputc c) s = Ok () t \<and>
    out_frame s t \<and> cpos t = cpos s"
  proof (cases "c = BACKSPACE")
    case True
    obtain t where t: "uartputc 8 s = Ok () t" "out_frame s t" "cpos t = cpos s" using uartputc_frame by blast
    obtain v where v: "uartputc 32 t = Ok () v" "out_frame t v" "cpos v = cpos t" using uartputc_frame by blast
    obtain w where w: "uartputc 8 v = Ok () w" "out_frame v w" "cpos w = cpos v" using uartputc_frame by blast
    show ?thesis using True t v w out_frame_trans [OF out_frame_trans [OF t(2) v(2)] w(2)] by (simp add: thn_Ok)
  next
    case False
    then show ?thesis using uartputc_frame by auto
  qed
  then obtain t where t: "(if c = BACKSPACE then thn (uartputc 8) (thn (uartputc 32) (uartputc 8)) else uartputc c) s = Ok () t"
    "out_frame s t" "cpos t = cpos s" by blast
  obtain v where v: "cgaputc c t = Ok () v" "cpos v < 1920" "out_frame t v"
    using cga [of t] t(3) assms by (auto simp: screen_ok_def)
  have f: "out_frame s v" using out_frame_trans [OF t(2) v(3)] .
  have "consputc c s = Ok () v" using assms t(1) v(1) by (simp add: consputc_def screen_ok_def thn_Ok)
  then show ?thesis using f v(2) out_frameD(6) [OF f] assms by (auto simp: screen_ok_def)
qed

section \<open>Line editing\<close>

text \<open>The bytes ready for readers, and the bytes of the line being edited.\<close>

definition ready :: "'z kcons_scheme \<Rightarrow> byte list" where
  "ready s = ring_items INPUT_BUF (ibuf s) (ir s) (iw s)"

definition editing :: "'z kcons_scheme \<Rightarrow> byte list" where
  "editing s = ring_items INPUT_BUF (ibuf s) (iw s) (ie s)"

definition input_ok :: "'z kcons_scheme \<Rightarrow> bool" where
  "input_ok s = (length (ibuf s) = INPUT_BUF \<and> unat (iw s - ir s) + unat (ie s - iw s) = unat (ie s - ir s) \<and>
     unat (ie s - ir s) \<le> INPUT_BUF \<and> 10 \<notin> set (editing s))"

text \<open>The editor as a function on the two byte strings.\<close>

definition edit :: "int \<Rightarrow> byte list \<times> byte list \<Rightarrow> byte list \<times> byte list" where
  "edit c p = (case p of (rs, ed) \<Rightarrow>
     if c = Ctrl CHR ''P'' then (rs, ed)
     else if c = Ctrl CHR ''U'' then (rs, [])
     else if c = Ctrl CHR ''H'' \<or> c = 0x7f then (rs, butlast ed)
     else if c \<noteq> 0 \<and> length rs + length ed < INPUT_BUF then
       (let d = (if c = 13 then 10 else c); ed' = ed @ [of_int d] in
        if d = 10 \<or> d = Ctrl CHR ''D'' \<or> length rs + length ed' = INPUT_BUF then (rs @ ed', []) else (rs, ed'))
     else (rs, ed))"

lemma ring_split:
  fixes r w e :: u32
  assumes "unat (w - r) + unat (e - w) = unat (e - r)"
  shows "ring_items N b r e = ring_items N b r w @ ring_items N b w e"
proof -
  have "[a..<a + b] = map (\<lambda>i. a + i) [0..<b]" for a b :: nat by (rule nth_equalityI) simp_all
  then have "[0..<unat (e - r)] = [0..<unat (w - r)] @ map (\<lambda>i. unat (w - r) + i) [0..<unat (e - w)]"
    using upt_add_eq_append [of 0 "unat (w - r)" "unat (e - w)"] assms by (metis add_0 zero_le)
  moreover have "r + of_nat (unat (w - r) + i) = w + of_nat i" for i by simp
  ultimately show ?thesis unfolding ring_items_def by (simp add: comp_def)
qed

lemma ready_editing: "input_ok s \<Longrightarrow> ring_items INPUT_BUF (ibuf s) (ir s) (ie s) = ready s @ editing s"
  by (simp add: input_ok_def ready_def editing_def ring_split)

lemma out_frame_input:
  assumes "out_frame s t"
  shows "input_ok t = input_ok s" "ready t = ready s" "editing t = editing s"
  using out_frameD [OF assms] by (simp_all add: input_ok_def ready_def editing_def)

lemma input_wf: "input_ok s \<Longrightarrow> ring_wf INPUT_BUF (ibuf s) (iw s) (ie s) \<and> ring_wf INPUT_BUF (ibuf s) (ir s) (ie s)"
  by (simp add: input_ok_def ring_wf_def)

lemma erase_one:
  assumes "input_ok s" "ie s \<noteq> iw s"
  shows "input_ok (s\<lparr>ie := ie s - 1\<rparr>)" "ready (s\<lparr>ie := ie s - 1\<rparr>) = ready s" "editing (s\<lparr>ie := ie s - 1\<rparr>) = butlast (editing s)"
proof -
  show "ready (s\<lparr>ie := ie s - 1\<rparr>) = ready s" by (simp add: ready_def)
  show e: "editing (s\<lparr>ie := ie s - 1\<rparr>) = butlast (editing s)"
    using ring_unpush(1) [of INPUT_BUF "ibuf s" "iw s" "ie s"] input_wf [OF assms(1)] assms(2) by (simp add: editing_def)
  have n: "unat (ie s - iw s) \<noteq> 0" using assms(2) by (simp add: unat_eq_0)
  then have "unat (ie s - ir s) \<noteq> 0" using assms(1) by (simp add: input_ok_def)
  then have "unat (ie s - ir s - 1) = unat (ie s - ir s) - 1" by (metis unat_minus_one unat_0)
  moreover have "unat (ie s - iw s - 1) = unat (ie s - iw s) - 1" using n by (metis unat_minus_one unat_0)
  ultimately have u: "unat (ie s - 1 - ir s) = unat (ie s - ir s) - 1" "unat (ie s - 1 - iw s) = unat (ie s - iw s) - 1"
    by (simp_all add: diff_right_commute)
  show "input_ok (s\<lparr>ie := ie s - 1\<rparr>)"
    using assms(1) n u in_set_butlastD [of 10 "editing s"] unfolding input_ok_def e by auto
qed

lemma kill_line_run:
  assumes "input_ok s" "screen_ok s" "unat (ie s - iw s) < fuel"
  shows "\<exists>t. kill_line fuel s = Ok () t \<and> input_ok t \<and> screen_ok t \<and> ready t = ready s \<and> editing t = [] \<and> held t = held s"
  using assms
proof (induction fuel arbitrary: s)
  case (Suc fuel)
  show ?case
  proof (cases "ie s = iw s")
    case True
    then have "editing s = []" by (simp add: editing_def ring_empty)
    then show ?thesis using True Suc.prems by simp
  next
    case False
    have n: "unat (ie s - iw s) \<noteq> 0" using False by (simp add: unat_eq_0)
    have "ibuf s ! (unat (ie s - 1) mod INPUT_BUF) = last (editing s)"
    proof -
      obtain k where k: "unat (ie s - iw s) = Suc k" using n not0_implies_Suc by blast
      have "ie s - iw s = of_nat (Suc k)" unfolding k [symmetric] by simp
      then have "iw s + of_nat k = ie s - 1" by (simp add: algebra_simps)
      then show ?thesis using k by (simp add: editing_def ring_items_def)
    qed
    moreover have "editing s \<noteq> []" using False by (simp add: editing_def ring_empty)
    ultimately have more: "ibuf s ! (unat (ie s - 1) mod INPUT_BUF) \<noteq> 10" using Suc.prems(1) last_in_set by (fastforce simp: input_ok_def)
    let ?s = "s\<lparr>ie := ie s - 1\<rparr>"
    note e = erase_one [OF Suc.prems(1) False]
    obtain t where t: "consputc BACKSPACE ?s = Ok () t" "screen_ok t" "out_frame ?s t"
      using consputc_run [of ?s BACKSPACE] Suc.prems(2) by (auto simp: screen_ok_def)
    have "unat (ie s - iw s - 1) = unat (ie s - iw s) - 1" using n by (metis unat_minus_one unat_0)
    then have "unat (ie t - iw t) < fuel" using out_frameD [OF t(3)] Suc.prems(3) n by (simp add: diff_right_commute)
    moreover have "input_ok t" "ready t = ready s" "held t = held s" using out_frame_input [OF t(3)] e out_frameD [OF t(3)] by simp_all
    ultimately obtain u where "kill_line fuel t = Ok () u \<and> input_ok u \<and> screen_ok u \<and> ready u = ready s \<and> editing u = [] \<and> held u = held s"
      using Suc.IH [of t] t(2) by auto
    then show ?thesis using False more t(1) by (simp add: thn_Ok)
  qed
qed simp

definition typed :: "byte \<Rightarrow> 'z kcons_scheme \<Rightarrow> 'z kcons_scheme" where
  "typed x s = s\<lparr>ibuf := (ibuf s)[unat (ie s) mod INPUT_BUF := x], ie := ie s + 1\<rparr>"

lemma typed_simps [simp]:
  "ibuf (typed x s) = (ibuf s)[unat (ie s) mod INPUT_BUF := x]" "ie (typed x s) = ie s + 1" "ir (typed x s) = ir s" "iw (typed x s) = iw s"
  "held (typed x s) = held s" "screen_ok (typed x s) = screen_ok s" "ptable (typed x s) = ptable s"
  by (simp_all add: typed_def screen_ok_def)

lemma push_one:
  assumes "input_ok s" "unat (ie s - ir s) < INPUT_BUF"
  shows "ready (typed x s) = ready s"
    "editing (typed x s) = editing s @ [x]" "length (ibuf (typed x s)) = INPUT_BUF"
    "unat (iw (typed x s) - ir (typed x s)) + unat (ie (typed x s) - iw (typed x s)) = unat (ie (typed x s) - ir (typed x s))" "unat (ie (typed x s) - ir (typed x s)) = Suc (unat (ie s - ir s))"
proof -
  have N: "INPUT_BUF dvd 2 ^ 32" "INPUT_BUF < 2 ^ 32" by (simp_all add: INPUT_BUF_def)
  have i: "length (ibuf s) = INPUT_BUF" "unat (iw s - ir s) + unat (ie s - iw s) = unat (ie s - ir s)"
    using assms(1) by (simp_all add: input_ok_def)
  show "length (ibuf (typed x s)) = INPUT_BUF" using i(1) by simp
  show r: "unat (ie (typed x s) - ir (typed x s)) = Suc (unat (ie s - ir s))"
    using unat_Suc_diff [of "ie s" "ir s"] assms(2) N(2) by simp
  have "unat (ie (typed x s) - iw (typed x s)) = Suc (unat (ie s - iw s))"
    using unat_Suc_diff [of "ie s" "iw s"] assms(2) i(2) N(2) by simp
  then show sum: "unat (iw (typed x s) - ir (typed x s)) + unat (ie (typed x s) - iw (typed x s)) = unat (ie (typed x s) - ir (typed x s))" using r i(2) by simp
  have "ring_items INPUT_BUF (ibuf (typed x s)) (ir s) (ie s + 1) = (ready s @ editing s) @ [x]"
    using ring_push(1) [OF N, of "ibuf s" "ir s" "ie s" x] input_wf [OF assms(1)] assms(2) ready_editing [OF assms(1)] by simp
  moreover have "ring_items INPUT_BUF (ibuf (typed x s)) (ir s) (ie s + 1) = ready (typed x s) @ editing (typed x s)"
    using ring_split [of "iw (typed x s)" "ir (typed x s)" "ie (typed x s)" INPUT_BUF "ibuf (typed x s)"] sum by (simp add: ready_def editing_def)
  ultimately have "ready (typed x s) @ editing (typed x s) = ready s @ (editing s @ [x])" by simp
  moreover have "length (ready (typed x s)) = length (ready s)" by (simp add: ready_def)
  ultimately show "ready (typed x s) = ready s" "editing (typed x s) = editing s @ [x]" by simp_all
qed

lemma uint_numeral_10: "uint (10 :: byte) = 10"
  by simp

lemma commit_line:
  assumes "length (ibuf s) = INPUT_BUF" "unat (iw s - ir s) + unat (ie s - iw s) = unat (ie s - ir s)" "unat (ie s - ir s) \<le> INPUT_BUF"
  shows "input_ok (s\<lparr>iw := ie s, ptable := P\<rparr>)" "ready (s\<lparr>iw := ie s, ptable := P\<rparr>) = ready s @ editing s"
    "editing (s\<lparr>iw := ie s, ptable := P\<rparr>) = []"
  using assms ring_split [of "iw s" "ir s" "ie s" INPUT_BUF "ibuf s"]
  by (simp_all add: input_ok_def ready_def editing_def ring_empty)

lemma intr_char_run:
  fixes s :: "'z kcons_scheme"
  assumes ok: "input_ok s" "screen_ok s" "LPtable \<notin> held s" and c: "0 \<le> c" "c < 256"
  shows "\<exists>t. intr_char c s = Ok () t \<and> input_ok t \<and> screen_ok t \<and> held t = held s \<and> (ready t, editing t) = edit c (ready s, editing s)"
proof -
  have len: "length (ready s) + length (editing s) = unat (ie s - ir s)"
    using ok(1) by (simp add: input_ok_def ready_def editing_def)
  consider (P) "c = Ctrl CHR ''P''" | (U) "c = Ctrl CHR ''U''" | (H) "c = Ctrl CHR ''H'' \<or> c = 0x7f"
    | (N) "c \<noteq> Ctrl CHR ''P''" "c \<noteq> Ctrl CHR ''U''" "c \<noteq> Ctrl CHR ''H''" "c \<noteq> 0x7f" by blast
  then show ?thesis
  proof cases
    case P
    then show ?thesis using ok by (simp add: intr_char_def edit_def)
  next
    case U
    have "unat (ie s - iw s) < INPUT_BUF + 1" using ok(1) by (simp add: input_ok_def)
    then obtain t where "kill_line (INPUT_BUF + 1) s = Ok () t \<and> input_ok t \<and> screen_ok t \<and> ready t = ready s \<and> editing t = [] \<and> held t = held s"
      using kill_line_run [OF ok(1,2)] by blast
    moreover have "c \<noteq> Ctrl CHR ''P''" using U by (simp add: Ctrl_def)
    ultimately show ?thesis using U by (simp add: intr_char_def edit_def del: kill_line.simps)
  next
    case H
    then have d: "c \<noteq> Ctrl CHR ''P''" "c \<noteq> Ctrl CHR ''U''" by (auto simp: Ctrl_def)
    show ?thesis
    proof (cases "ie s = iw s")
      case True
      then have "editing s = []" by (simp add: editing_def ring_empty)
      then show ?thesis using True H d ok by (auto simp: intr_char_def edit_def whenk_def)
    next
      case False
      let ?s = "s\<lparr>ie := ie s - 1\<rparr>"
      obtain t where t: "consputc BACKSPACE ?s = Ok () t" "screen_ok t" "out_frame ?s t"
        using consputc_run [of ?s BACKSPACE] ok(2) by (auto simp: screen_ok_def)
      then show ?thesis
        using H d False erase_one [OF ok(1) False] out_frame_input [OF t(3)] out_frameD [OF t(3)]
        by (auto simp: intr_char_def edit_def whenk_def)
    qed
  next
    case N
    show ?thesis
    proof (cases "c \<noteq> 0 \<and> unat (ie s - ir s) < INPUT_BUF")
      case False
      then show ?thesis using N ok len by (auto simp: intr_char_def edit_def whenk_def)
    next
      case True
      let ?d = "if c = 13 then 10 else c :: int"
      let ?s = "typed (of_int ?d) s"
      note p = push_one [OF ok(1), of "of_int ?d"]
      obtain t where t: "consputc ?d ?s = Ok () t" "screen_ok t" "out_frame ?s t"
        using consputc_run [of ?s ?d] ok(2) by auto
      note f = out_frameD [OF t(3)] out_frame_input [OF t(3)]
      let ?e = "?d = 10 \<or> ?d = Ctrl CHR ''D'' \<or> ie t = ir t + of_nat INPUT_BUF"
      have full: "ie t = ir t + of_nat INPUT_BUF \<longleftrightarrow> unat (ie s - ir s) + 1 = INPUT_BUF"
      proof -
        have "ie t = ir t + of_nat INPUT_BUF \<longleftrightarrow> unat (ie t - ir t) = unat (of_nat INPUT_BUF :: u32)"
          unfolding word_unat_eq_iff [symmetric] by (auto simp: algebra_simps)
        then show ?thesis using f p(5) True by (simp add: INPUT_BUF_def)
      qed
      have run: "intr_char c s = (if ?e then wakeup (Some InputChan) (t\<lparr>iw := ie t\<rparr>) else Ok () t)"
        using N True t(1) by (simp add: intr_char_def whenk_def Let_def typed_def [symmetric] thn_Ok)
      have ed: "edit c (ready s, editing s) = (if ?e then (ready s @ editing s @ [of_int ?d], []) else (ready s, editing s @ [of_int ?d]))"
        using N True len full by (auto simp: edit_def Let_def)
      show ?thesis
      proof (cases ?e)
        case e: True
        have "wakeup (Some InputChan) (t\<lparr>iw := ie t\<rparr>) = Ok () (t\<lparr>iw := ie t, ptable := map (woken (Some InputChan)) (ptable t)\<rparr>)"
          using wakeup_run [of "t\<lparr>iw := ie t\<rparr>" "Some InputChan"] ok(3) f(1) by (cases t) simp
        moreover have "input_ok (t\<lparr>iw := ie t, ptable := map (woken (Some InputChan)) (ptable t)\<rparr>)"
            "ready (t\<lparr>iw := ie t, ptable := map (woken (Some InputChan)) (ptable t)\<rparr>) = ready t @ editing t"
            "editing (t\<lparr>iw := ie t, ptable := map (woken (Some InputChan)) (ptable t)\<rparr>) = []"
          using commit_line [of t] f p True by simp_all
        ultimately show ?thesis using run ed e f p True t(2) by (auto simp: screen_ok_def)
      next
        case e: False
        have "uint (of_int ?d :: byte) = ?d" using c by (simp add: unsigned_of_int take_bit_int_eq_self)
        then have "of_int ?d \<noteq> (10 :: byte)" using e by (metis uint_byte_eq_iff uint_numeral_10)
        then have "input_ok t" using f p True ok(1) by (auto simp: input_ok_def)
        then show ?thesis using run ed e f p True t(2) by auto
      qed
    qed
  qed
qed

text \<open>C19: line editing. The interrupt handler implements, on a ring buffer with wrapping counters, an
  editor on two byte strings: the bytes ready for readers and the line being typed. Ordinary
  characters extend the line, backspace and control-U erase only within it, and newline, control-D or
  a full buffer hands the whole line to the readers; the input buffer never overflows.\<close>

theorem consoleintr_refines_edit:
  fixes s :: "'z kcons_scheme"
  assumes "input_ok s" and "screen_ok s" and "LCons \<notin> held s" and "LPtable \<notin> held s"
    and "\<forall>c \<in> set codes. 0 \<le> c \<and> c < 256 \<and> c \<noteq> Ctrl CHR ''P''"
  shows "\<exists>t. consoleintr codes s = Ok () t \<and> input_ok t \<and> (ready t, editing t) = fold edit codes (ready s, editing s) \<and>
    length (ready t) + length (editing t) \<le> INPUT_BUF"
proof -
  have loop: "\<exists>t. foreach codes intr_char u = Ok () t \<and> input_ok t \<and> screen_ok t \<and> held t = held u \<and>
      (ready t, editing t) = fold edit codes (ready u, editing u)"
    if "input_ok u" "screen_ok u" "LPtable \<notin> held u" "\<forall>c \<in> set codes. 0 \<le> c \<and> c < 256" for u codes
    using that
  proof (induction codes arbitrary: u)
    case (Cons c codes)
    obtain v where v: "intr_char c u = Ok () v" "input_ok v" "screen_ok v" "held v = held u" "(ready v, editing v) = edit c (ready u, editing u)"
      using intr_char_run [of u c] Cons.prems by auto
    then obtain t where "foreach codes intr_char v = Ok () t" "input_ok t" "screen_ok t" "held t = held u"
        "(ready t, editing t) = fold edit codes (edit c (ready u, editing u))"
      using Cons.IH [of v] Cons.prems by auto
    then show ?case using v(1) by (simp add: thn_Ok)
  qed simp
  let ?u = "s\<lparr>held := insert LCons (held s)\<rparr>"
  have u: "input_ok ?u" "screen_ok ?u" "LPtable \<notin> held ?u" "ready ?u = ready s" "editing ?u = editing s"
    using assms by (simp_all add: input_ok_def screen_ok_def ready_def editing_def)
  obtain t where t: "foreach codes intr_char ?u = Ok () t" "input_ok t" "held t = held ?u"
    "(ready t, editing t) = fold edit codes (ready s, editing s)"
    using loop [OF u(1-3), of codes] assms(5) u(4,5) by auto
  let ?t = "t\<lparr>held := held t - {LCons}\<rparr>"
  have "consoleintr codes s = Ok () ?t"
    using t(1,3) assms(3,5) by (auto simp: consoleintr_def thn_Ok whenk_def)
  moreover have "input_ok ?t" "ready ?t = ready t" "editing ?t = editing t"
    using t(2) by (simp_all add: input_ok_def ready_def editing_def)
  moreover have "length (ready t) + length (editing t) \<le> INPUT_BUF"
    using t(2) by (simp add: input_ok_def ready_def editing_def)
  ultimately show ?thesis using t(4) by auto
qed

text \<open>A console at boot, for the witnesses.\<close>

lemma console_boot:
  "\<exists>s :: kcons. input_ok s \<and> screen_ok s \<and> held s = {} \<and> ready s = [] \<and> editing s = [] \<and> cpos s = 0 \<and> curproc s = Some 0"
proof -
  let ?s = "kinode.extend (kinode.truncate (kinode0 disk0 sb0 [])) \<lparr>panicked = False, locking = True, uart = True, uart_out = [],
    crt = (\<lambda>_. 0), cpos = 0, ibuf = replicate INPUT_BUF 0, ir = 0, iw = 0, ie = 0, devsw = (\<lambda>_. (None, None))\<rparr>"
  have "held ?s = {}" "curproc ?s = Some 0"
    using kinode0_simps(4,5) [of disk0 sb0 "[]"] by (simp_all add: kinode.defs)
  then show ?thesis
    by (intro exI [of _ ?s]) (simp add: input_ok_def screen_ok_def ready_def editing_def ring_empty kinode.defs)
qed

theorem consoleintr_refines_edit_witness:
  "\<exists>(s :: kcons) t. consoleintr [104, 120, 8, 105, 13] s = Ok () t \<and> ready t = str ''hi'' @ [10] \<and> editing t = []"
proof -
  obtain s :: kcons where s: "input_ok s" "screen_ok s" "held s = {}" "ready s = []" "editing s = []" using console_boot by blast
  have "fold edit [104, 120, 8, 105, 13] ([], []) = (str ''hi'' @ [10], [])"
    by (simp add: edit_def Ctrl_def INPUT_BUF_def str_def)
  then show ?thesis using consoleintr_refines_edit [OF s(1,2), of "[104, 120, 8, 105, 13]"] s(3-5) by (auto simp: Ctrl_def)
qed

section \<open>Reading a line\<close>

text \<open>What a read of up to \<open>n\<close> bytes takes from the ready bytes: through the first newline, or up to
  the first control-D.\<close>

fun take_line :: "nat \<Rightarrow> byte list \<Rightarrow> byte list" where
  "take_line 0 xs = []"
| "take_line (Suc n) [] = []"
| "take_line (Suc n) (c # cs) = (if c = 4 then [] else if c = 10 then [c] else c # take_line n cs)"

definition line_ends :: "nat \<Rightarrow> byte list \<Rightarrow> bool" where
  "line_ends n xs = (n \<le> length xs \<or> (\<exists>c \<in> set (take n xs). c = 4 \<or> c = 10))"

lemma advance_read:
  assumes "input_ok s" "ir s \<noteq> iw s"
  shows "ibuf s ! (unat (ir s) mod INPUT_BUF) = hd (ready s)" "input_ok (s\<lparr>ir := ir s + 1\<rparr>)"
    "ready (s\<lparr>ir := ir s + 1\<rparr>) = tl (ready s)" "ready s \<noteq> []"
proof -
  have wf: "ring_wf INPUT_BUF (ibuf s) (ir s) (iw s)" using assms(1) by (simp add: input_ok_def ring_wf_def)
  show "ibuf s ! (unat (ir s) mod INPUT_BUF) = hd (ready s)" "ready (s\<lparr>ir := ir s + 1\<rparr>) = tl (ready s)" "ready s \<noteq> []"
    using ring_pop(1,2) [OF wf assms(2)] assms(2) by (simp_all add: ready_def ring_empty)
  have n: "unat (iw s - ir s) \<noteq> 0" using assms(2) by (simp add: unat_eq_0)
  then have "unat (ie s - ir s) \<noteq> 0" using assms(1) by (simp add: input_ok_def)
  then have "unat (ie s - ir s - 1) = unat (ie s - ir s) - 1" "unat (iw s - ir s - 1) = unat (iw s - ir s) - 1"
    using n by (metis unat_minus_one unat_0)+
  then show "input_ok (s\<lparr>ir := ir s + 1\<rparr>)"
    using assms(1) n by (auto simp: input_ok_def editing_def diff_diff_add)
qed

lemma cread_loop_run:
  assumes "input_ok s" "line_ends n (ready s)"
  shows "\<exists>t. cread_loop n acc s = Ok (Some (acc @ take_line n (ready s))) t \<and> input_ok t \<and> held t = held s \<and>
    ready t = drop (length (take_line n (ready s)) + (if acc = [] \<and> 0 < n \<and> hd (ready s) = 4 then 1 else 0)) (ready s)"
  using assms
proof (induction n arbitrary: s acc)
  case (Suc n)
  have ne: "ir s \<noteq> iw s"
  proof
    assume "ir s = iw s"
    then have "ready s = []" by (simp add: ready_def)
    then show False using Suc.prems(2) by (simp add: line_ends_def)
  qed
  note a = advance_read [OF Suc.prems(1) ne]
  obtain c cs where r: "ready s = c # cs" using a(4) by (cases "ready s") auto
  have u: "uint c = Ctrl CHR ''D'' \<longleftrightarrow> c = 4" by (simp add: Ctrl_def word_uint_eq_iff)
  show ?case
  proof (cases "c = 4 \<or> c = 10")
    case True
    then show ?thesis
      using ne a r u Suc.prems(1) by (cases "c = 4"; cases "acc = []") (auto simp: whenk_def)
  next
    case False
    have "line_ends n (ready (s\<lparr>ir := ir s + 1\<rparr>))" using Suc.prems(2) False r a(3) by (simp add: line_ends_def)
    then obtain t where "cread_loop n (acc @ [c]) (s\<lparr>ir := ir s + 1\<rparr>) = Ok (Some (acc @ [c] @ take_line n cs)) t" "input_ok t"
      "held t = held s" "ready t = drop (length (take_line n cs)) cs"
      using Suc.IH [OF a(2), of "acc @ [c]"] a(3) r by auto
    then show ?thesis using ne a r u False by (simp add: whenk_def)
  qed
qed simp

text \<open>A reader of the console gets one line. When the ready bytes hold a full line or at least the
  \<open>n\<close> bytes asked for, the read does not sleep; it returns the bytes through the first newline, or up
  to the first control-D, and removes exactly these. A control-D is consumed only when it comes
  first, so that it is seen once as an end of file.\<close>

theorem console_reads_line:
  assumes "input_ok s" and "line_ends n (ready s)"
  shows "\<exists>t. cread_loop n [] s = Ok (Some (take_line n (ready s))) t \<and> input_ok t \<and>
    ready t = drop (length (take_line n (ready s)) + (if 0 < n \<and> hd (ready s) = 4 then 1 else 0)) (ready s)"
  using cread_loop_run [OF assms, of "[]"] by auto

theorem console_reads_line_witness:
  "\<exists>(s :: kcons) t. cread_loop 4 [] s = Ok (Some (str ''hi'' @ [10])) t \<and> ready s = str ''hi'' @ [10, 120] \<and> ready t = [120]"
proof -
  obtain s0 :: kcons where s0: "input_ok s0" using console_boot by blast
  let ?s = "s0\<lparr>ibuf := str ''hi'' @ [10, 120] @ replicate 124 0, ir := 0, iw := 4, ie := 4\<rparr>"
  have r: "ready ?s = str ''hi'' @ [10, 120]" by (simp add: ready_def ring_items_def INPUT_BUF_def str_def upt_rec)
  have "input_ok ?s" by (simp add: input_ok_def INPUT_BUF_def editing_def str_def)
  moreover have four: "(4 :: nat) = Suc (Suc (Suc (Suc 0)))" by simp
  moreover have "line_ends 4 (ready ?s)" using r by (simp add: line_ends_def str_def)
  ultimately obtain t where t: "cread_loop 4 [] ?s = Ok (Some (take_line 4 (ready ?s))) t"
    "ready t = drop (length (take_line 4 (ready ?s)) + (if 0 < (4 :: nat) \<and> hd (ready ?s) = 4 then 1 else 0)) (ready ?s)"
    using console_reads_line by blast
  have "take_line 4 (str ''hi'' @ [10, 120]) = str ''hi'' @ [10]"
    unfolding four by (simp add: str_def)
  moreover from this have "ready t = [120]" using t(2) r by (simp add: str_def)
  ultimately show ?thesis using t(1) r by (intro exI [of _ ?s] exI [of _ t]) (simp del: cread_loop.simps)
qed

section \<open>Printing numbers\<close>

definition num_of :: "nat \<Rightarrow> nat list \<Rightarrow> nat" where
  "num_of b ds = foldr (\<lambda>d a. d + b * a) ds 0"

lemma digs_spec:
  assumes "2 \<le> b"
  shows "num_of b (digs b x) = x" "\<forall>d \<in> set (digs b x). d < b" "digs b x \<noteq> []" "0 < x \<Longrightarrow> last (digs b x) \<noteq> 0"
    "x < b ^ k \<Longrightarrow> 0 < k \<Longrightarrow> length (digs b x) \<le> k"
proof -
  show "num_of b (digs b x) = x"
    using assms by (induction b x rule: digs.induct) (subst digs.simps, auto simp: num_of_def)
  show "\<forall>d \<in> set (digs b x). d < b"
    using assms by (induction b x rule: digs.induct) (subst digs.simps, auto)
  show ne: "digs b x \<noteq> []" by (subst digs.simps) simp
  show "0 < x \<Longrightarrow> last (digs b x) \<noteq> 0"
    using assms
  proof (induction b x rule: digs.induct)
    case (1 b x)
    show ?case
    proof (cases "b < 2 \<or> x < b")
      case True
      then show ?thesis using 1(2,3) by (subst digs.simps) auto
    next
      case False
      then have "0 < x div b" by (simp add: div_greater_zero_iff)
      moreover have "digs b (x div b) \<noteq> []" by (subst digs.simps) simp
      ultimately show ?thesis using 1(1,3) False by (subst digs.simps) simp
    qed
  qed
  show "x < b ^ k \<Longrightarrow> 0 < k \<Longrightarrow> length (digs b x) \<le> k"
  proof (induction k arbitrary: x)
    case (Suc k)
    show ?case
    proof (cases "x < b")
      case True
      then show ?thesis by (subst digs.simps) simp
    next
      case False
      then have k: "0 < k" using Suc.prems(1) by (cases k) auto
      have "x div b < b ^ k" using Suc.prems(1) by (simp add: less_mult_imp_div_less mult.commute)
      then show ?thesis using Suc.IH k False assms by (subst digs.simps) simp
    qed
  qed simp
qed

text \<open>\<open>printint\<close> prints a numeral. The text is an optional minus sign, printed exactly when a
  signed argument is negative, and the digits of the magnitude, most significant first and without
  leading zeros; the digits denote the magnitude also for the most negative number; and the text fits
  the 16 bytes of the local buffer.\<close>

theorem printint_text_numeral:
  assumes "b = 10 \<or> b = 16"
  shows "\<exists>ds. printint_text xx b sign = (if sign \<and> sint xx < 0 then [45] else []) @ map digit_char ds \<and>
    num_of b (rev ds) = (if sign \<and> sint xx < 0 then nat (- sint xx) else unat xx) \<and>
    (\<forall>d \<in> set ds. d < b) \<and> (hd ds = 0 \<longrightarrow> ds = [0]) \<and> length (printint_text xx b sign) \<le> 16"
proof -
  let ?neg = "sign \<and> sint xx < 0"
  let ?x = "unat (if ?neg then - xx else xx)"
  let ?ds = "rev (digs b ?x)"
  have b: "2 \<le> b" using assms by auto
  note d = digs_spec [OF b, of ?x]
  have x: "?x = (if ?neg then nat (- sint xx) else unat xx)"
  proof (cases ?neg)
    case True
    have "uint (of_int k :: u32) = k" if "0 \<le> k" "k < 2 ^ 32" for k
      using that by (simp add: unsigned_of_int take_bit_int_eq_self)
    from this [of "- sint xx"] have "uint (- xx) = - sint xx" using True sint_ge [of xx] by simp
    then show ?thesis using True by (simp add: unat_eq_nat_uint)
  qed auto
  have "?x < b ^ 10"
  proof -
    have "?x < 2 ^ 32" using unsigned_less [of "if ?neg then - xx else xx"] by simp
    also have "(2 :: nat) ^ 32 \<le> 10 ^ 10" by simp
    also have "(10 :: nat) ^ 10 \<le> b ^ 10" using assms by (intro power_mono) auto
    finally show ?thesis .
  qed
  then have len: "length ?ds \<le> 10" using d(5) [of 10] by simp
  have "?ds = [0]" if "hd ?ds = 0"
    using that d(3,4) by (cases "?x = 0") (auto simp: hd_rev digs.simps [of b 0] assms)
  then show ?thesis
    using d(1,2) x len by (intro exI [of _ ?ds]) (auto simp: printint_text_def Let_def rev_map str_def)
qed

theorem printint_text_numeral_witness:
  "\<exists>ds. printint_text (- 2147483648) 10 True = [45] @ map digit_char ds \<and> num_of 10 (rev ds) = 2147483648"
  using printint_text_numeral [of 10 "- 2147483648" True] by auto

end
