(* ===== verification/Fs.thy ===== *)
theory Fs
  imports Console
begin

text \<open>
  The upper layers of \<open>fs.c\<close>: reading and writing the contents of a file, directories and path
  names. \<open>readi\<close> returns the bytes it copies to its destination and \<open>writei\<close> takes the bytes it copies
  from its source; the callers do the copy. A name buffer \<open>char name[DIRSIZ]\<close> is a list of
  \<open>DIRSIZ\<close> bytes, a path the bytes of the string before its NUL.
\<close>

section \<open>File contents\<close>

definition stati :: "nat \<Rightarrow> ('z kcons_scheme, u16 \<times> nat \<times> nat \<times> u16 \<times> u32) kern" where
  "stati i = bnd (get_inode i) (\<lambda>ip. ret (itype ip, idev ip, inum ip, nlink ip, isize ip))"

text \<open>\<open>chunk off n\<close> is the variable \<open>m\<close>: the part of the next \<open>n\<close> bytes that lies in the block of \<open>off\<close>.\<close>

definition chunk :: "nat \<Rightarrow> nat \<Rightarrow> nat" where
  "chunk off n = min n (BSIZE - off mod BSIZE)"

lemma chunk_bounds: "0 < n \<Longrightarrow> 0 < chunk off n" "chunk off n \<le> n" "off mod BSIZE + chunk off n \<le> BSIZE"
  using mod_less_divisor [of BSIZE off] by (auto simp: chunk_def BSIZE_def)

function readi_loop :: "nat \<Rightarrow> nat \<Rightarrow> nat \<Rightarrow> ('z kcons_scheme, byte list) kern" where
  "readi_loop i off n =
     (if n = 0 then ret []
      else
        bnd (bmap i (off div BSIZE)) (\<lambda>addr.
        bnd (get_inode i) (\<lambda>ip.
        bnd (bread (idev ip) addr) (\<lambda>bp.
        bnd (getbuf bp) (\<lambda>x.
        let m = chunk off n in
        thn (brelse bp) (
        bnd (readi_loop i (off + m) (n - m)) (\<lambda>rest.
        ret (slice (off mod BSIZE) m (bdata x) @ rest))))))))"
  by pat_completeness auto
termination by (relation "measure (\<lambda>(i, off, n). n)") (auto simp: chunk_def BSIZE_def)

declare readi_loop.simps [simp del]

text \<open>The device functions behind \<open>devsw[major].read\<close> and \<open>devsw[major].write\<close>.\<close>

fun dev_read :: "devfn \<Rightarrow> nat \<Rightarrow> int \<Rightarrow> ('z kcons_scheme, int \<times> byte list) kern" where
  "dev_read ConsoleRead i n = consoleread i n"
| "dev_read ConsoleWrite i n = panic ''devsw: wrong function''"

fun dev_write :: "devfn \<Rightarrow> nat \<Rightarrow> byte list \<Rightarrow> ('z kcons_scheme, int) kern" where
  "dev_write ConsoleWrite i bs = consolewrite i bs"
| "dev_write ConsoleRead i bs = panic ''devsw: wrong function''"

definition readi :: "nat \<Rightarrow> u32 \<Rightarrow> u32 \<Rightarrow> ('z kcons_scheme, int \<times> byte list) kern" where
  "readi i off n =
     bnd (get_inode i) (\<lambda>ip.
     if itype ip = T_DEV then
       bnd (gets devsw) (\<lambda>d.
       if sint (major ip) < 0 \<or> sint (major ip) \<ge> int NDEV then ret (-1, [])
       else (case fst (d (unat (major ip))) of None \<Rightarrow> ret (-1, []) | Some f \<Rightarrow> dev_read f i (sint n)))
     else if off > isize ip \<or> off + n < off then ret (-1, [])
     else
       let k = (if off + n > isize ip then isize ip - off else n) in
       bnd (readi_loop i (unat off) (unat k)) (\<lambda>bs. ret (sint k, bs)))"

function writei_loop :: "nat \<Rightarrow> nat \<Rightarrow> byte list \<Rightarrow> ('z kcons_scheme, unit) kern" where
  "writei_loop i off src =
     (if src = [] then ret ()
      else
        bnd (bmap i (off div BSIZE)) (\<lambda>addr.
        bnd (get_inode i) (\<lambda>ip.
        bnd (bread (idev ip) addr) (\<lambda>bp.
        bnd (getbuf bp) (\<lambda>x.
        let m = chunk off (length src) in
        thn (set_data bp (splice (off mod BSIZE) (take m src) (bdata x))) (
        thn (log_write bp) (
        thn (brelse bp)
        (writei_loop i (off + m) (drop m src)))))))))"
  by pat_completeness auto
termination by (relation "measure (\<lambda>(i, off, src). length src)") (auto simp: chunk_def BSIZE_def)

declare writei_loop.simps [simp del]

text \<open>\<open>src\<close> holds the \<open>n\<close> bytes that the call writes.\<close>

definition writei :: "nat \<Rightarrow> byte list \<Rightarrow> u32 \<Rightarrow> u32 \<Rightarrow> ('z kcons_scheme, int) kern" where
  "writei i src off n =
     bnd (get_inode i) (\<lambda>ip.
     if itype ip = T_DEV then
       bnd (gets devsw) (\<lambda>d.
       if sint (major ip) < 0 \<or> sint (major ip) \<ge> int NDEV then ret (-1)
       else (case snd (d (unat (major ip))) of None \<Rightarrow> ret (-1) | Some f \<Rightarrow> dev_write f i (take (nat (sint n)) src)))
     else if off > isize ip \<or> off + n < off then ret (-1)
     else if unat (off + n) > MAXFILE * BSIZE then ret (-1)
     else
       thn (writei_loop i (unat off) (take (unat n) src)) (
       bnd (get_inode i) (\<lambda>jp.
       thn (whenk (n > 0 \<and> off + n > isize jp) (
         thn (set_inode i (\<lambda>x. x\<lparr>isize := off + n\<rparr>))
         (iupdate i)))
       (ret (sint n)))))"

section \<open>Directories\<close>

definition DIRSIZ :: nat where "DIRSIZ = 14"
definition DIRENTSIZE :: nat where "DIRENTSIZE = 16"

text \<open>\<open>strncmp\<close> and \<open>strncpy\<close> on byte buffers; \<open>namecmp_strncmp\<close> relates the first to \<open>string.c\<close>.\<close>

fun cmp_bytes :: "nat \<Rightarrow> byte list \<Rightarrow> byte list \<Rightarrow> int" where
  "cmp_bytes 0 p q = 0"
| "cmp_bytes (Suc n) p q =
     (if hd p \<noteq> 0 \<and> hd p = hd q then cmp_bytes n (tl p) (tl q) else uint (hd p) - uint (hd q))"

definition namecmp :: "byte list \<Rightarrow> byte list \<Rightarrow> int" where
  "namecmp s t = cmp_bytes DIRSIZ s t"

definition name_field :: "byte list \<Rightarrow> byte list" where
  "name_field name = take DIRSIZ (takeWhile (\<lambda>c. c \<noteq> 0) name @ replicate DIRSIZ 0)"

definition de_inum :: "byte list \<Rightarrow> u16" where "de_inum de = un16 de"
definition de_name :: "byte list \<Rightarrow> byte list" where "de_name de = slice 2 DIRSIZ de"

fun dirlookup_from :: "nat \<Rightarrow> byte list \<Rightarrow> nat list \<Rightarrow> ('z kcons_scheme, (nat \<times> nat) option) kern" where
  "dirlookup_from dp name [] = ret None"
| "dirlookup_from dp name (off # offs) =
     bnd (readi dp (of_nat off) (of_nat DIRENTSIZE)) (\<lambda>(r, de).
     if r \<noteq> int DIRENTSIZE then panic ''dirlookup read''
     else if de_inum de = 0 then dirlookup_from dp name offs
     else if namecmp name (de_name de) = 0 then
       bnd (get_inode dp) (\<lambda>x.
       bnd (iget (idev x) (unat (de_inum de))) (\<lambda>ip. ret (Some (ip, off))))
     else dirlookup_from dp name offs)"

text \<open>The offsets that the loop \<open>for(off = 0; off < dp->size; off += sizeof(de))\<close> visits.\<close>

definition dir_offsets :: "u32 \<Rightarrow> nat list" where
  "dir_offsets dsz = map (\<lambda>k. k * DIRENTSIZE) [0..<(unat dsz + DIRENTSIZE - 1) div DIRENTSIZE]"

text \<open>Result: the inode found and the offset of its entry (\<open>*poff\<close>).\<close>

definition dirlookup :: "nat \<Rightarrow> byte list \<Rightarrow> ('z kcons_scheme, (nat \<times> nat) option) kern" where
  "dirlookup dp name =
     bnd (get_inode dp) (\<lambda>x.
     if itype x \<noteq> T_DIR then panic ''dirlookup not DIR''
     else dirlookup_from dp name (dir_offsets (isize x)))"

fun free_dirent :: "nat \<Rightarrow> u32 \<Rightarrow> nat list \<Rightarrow> ('z kcons_scheme, nat) kern" where
  "free_dirent dp dsz [] = ret (length (dir_offsets dsz) * DIRENTSIZE)"
| "free_dirent dp dsz (off # offs) =
     bnd (readi dp (of_nat off) (of_nat DIRENTSIZE)) (\<lambda>(r, de).
     if r \<noteq> int DIRENTSIZE then panic ''dirlink read''
     else if de_inum de = 0 then ret off
     else free_dirent dp dsz offs)"

definition dirlink :: "nat \<Rightarrow> byte list \<Rightarrow> nat \<Rightarrow> ('z kcons_scheme, int) kern" where
  "dirlink dp name n =
     bnd (dirlookup dp name) (\<lambda>r.
     case r of
       Some (ip, _) \<Rightarrow> thn (iput ip) (ret (-1))
     | None \<Rightarrow>
         bnd (get_inode dp) (\<lambda>x.
         bnd (free_dirent dp (isize x) (dir_offsets (isize x))) (\<lambda>off.
         bnd (writei dp (le16 (of_nat n) @ name_field name) (of_nat off) (of_nat DIRENTSIZE)) (\<lambda>w.
         if w \<noteq> int DIRENTSIZE then panic ''dirlink'' else ret 0))))"

section \<open>Paths\<close>

abbreviation slash :: byte where "slash \<equiv> 47"

definition skipelem :: "byte list \<Rightarrow> byte list \<Rightarrow> (byte list \<times> byte list) option" where
  "skipelem pth name =
     (let p = dropWhile (\<lambda>c. c = slash) pth in
      if p = [] then None
      else
        let elem = takeWhile (\<lambda>c. c \<noteq> slash) p; rest = dropWhile (\<lambda>c. c \<noteq> slash) p;
            name' = (if length elem \<ge> DIRSIZ then splice 0 (take DIRSIZ elem) name else splice 0 (elem @ [0]) name) in
        Some (dropWhile (\<lambda>c. c = slash) rest, name'))"

lemma skipelem_shorter:
  assumes "skipelem pth name = Some (rest, name')"
  shows "length rest < length pth"
proof -
  let ?p = "dropWhile (\<lambda>c. c = slash) pth"
  have p: "?p \<noteq> []" "rest = dropWhile (\<lambda>c. c = slash) (dropWhile (\<lambda>c. c \<noteq> slash) ?p)"
    using assms by (auto simp: skipelem_def Let_def split: if_splits)
  then obtain c cs where c: "?p = c # cs" by (cases ?p) auto
  then have "c \<noteq> slash" using hd_dropWhile [OF p(1)] by simp
  then have "length (dropWhile (\<lambda>c. c \<noteq> slash) ?p) < length ?p"
    using c length_dropWhile_le [of "\<lambda>c. c \<noteq> slash" cs] by simp
  moreover have "length rest \<le> length (dropWhile (\<lambda>c. c \<noteq> slash) ?p)" unfolding p(2) by (rule length_dropWhile_le)
  moreover have "length ?p \<le> length pth" by (rule length_dropWhile_le)
  ultimately show ?thesis by linarith
qed

definition ROOTINO :: nat where "ROOTINO = 1"

function namex_loop :: "nat \<Rightarrow> byte list \<Rightarrow> bool \<Rightarrow> byte list \<Rightarrow> ('z kcons_scheme, nat option \<times> byte list) kern" where
  "namex_loop ip pth par name =
     (case skipelem pth name of
        None \<Rightarrow> if par then thn (iput ip) (ret (None, name)) else ret (Some ip, name)
      | Some (pth', name') \<Rightarrow>
          thn (ilock (Some ip)) (
          bnd (get_inode ip) (\<lambda>x.
          if itype x \<noteq> T_DIR then thn (iunlockput ip) (ret (None, name'))
          else if par \<and> pth' = [] then thn (iunlock (Some ip)) (ret (Some ip, name'))
          else
            bnd (dirlookup ip name') (\<lambda>r.
            case r of
              None \<Rightarrow> thn (iunlockput ip) (ret (None, name'))
            | Some (next, _) \<Rightarrow> thn (iunlockput ip) (namex_loop next pth' par name')))))"
  by pat_completeness auto
termination
  by (relation "measure (\<lambda>(ip, pth, par, name). length pth)") (auto dest: skipelem_shorter)

declare namex_loop.simps [simp del]

definition namex :: "byte list \<Rightarrow> bool \<Rightarrow> byte list \<Rightarrow> ('z kcons_scheme, nat option \<times> byte list) kern" where
  "namex pth par name =
     bnd (if pth \<noteq> [] \<and> hd pth = slash then iget ROOTDEV ROOTINO
          else with_proc (\<lambda>p. bnd (gets (\<lambda>s. cwd (ptable s ! p))) (\<lambda>c.
            case c of None \<Rightarrow> panic ''idup: null inode'' | Some i \<Rightarrow> idup i))) (\<lambda>ip.
     namex_loop ip pth par name)"

text \<open>The buffer \<open>name\<close> of the callers is uninitialised: its contents are an argument.\<close>

definition namei :: "byte list \<Rightarrow> ('z kcons_scheme, nat option) kern" where
  "namei pth = bnd (namex pth False (replicate DIRSIZ 0)) (\<lambda>(r, _). ret r)"

definition nameiparent :: "byte list \<Rightarrow> byte list \<Rightarrow> ('z kcons_scheme, nat option \<times> byte list) kern" where
  "nameiparent pth name = namex pth True name"

section \<open>Names of swap files\<close>

definition itoa :: "int \<Rightarrow> byte list" where
  "itoa i = (if i < 0 then str ''-'' else []) @ rev (map (\<lambda>d. str ''0123456789'' ! d) (digs 10 (nat \<bar>i\<bar>)))"

definition swap_path :: "int \<Rightarrow> byte list" where
  "swap_path p = str ''/.swap'' @ itoa p"

section \<open>Reading an allocated file\<close>

text \<open>The disk block of block \<open>n\<close> of a file, and the byte at offset \<open>p\<close>, in the contents that the
  kernel sees.\<close>

definition fblk :: "(nat \<Rightarrow> byte list) \<Rightarrow> inode \<Rightarrow> nat \<Rightarrow> nat" where
  "fblk c ip n = (if n < NDIRECT then addrs ip ! n else uint_at (c (addrs ip ! NDIRECT)) (n - NDIRECT))"

definition fbyte :: "(nat \<Rightarrow> byte list) \<Rightarrow> inode \<Rightarrow> nat \<Rightarrow> byte" where
  "fbyte c ip p = c (fblk c ip (p div BSIZE)) ! (p mod BSIZE)"

text \<open>The first \<open>nb\<close> blocks of the file are allocated.\<close>

definition file_ok :: "nat \<Rightarrow> inode \<Rightarrow> 'z kinode_scheme \<Rightarrow> bool" where
  "file_ok nb ip s = (idev ip = ROOTDEV \<and> nb \<le> MAXFILE \<and> length (addrs ip) = NDIRECT + 1 \<and>
     (\<forall>n < nb. fblk (content s) ip n \<noteq> 0 \<and> plain_block (fblk (content s) ip n) s) \<and>
     (NDIRECT < nb \<longrightarrow> addrs ip ! NDIRECT \<noteq> 0 \<and> plain_block (addrs ip ! NDIRECT) s))"

lemma file_ok_frame: "fs_frame s t \<Longrightarrow> content t = content s \<Longrightarrow> file_ok nb ip t = file_ok nb ip s"
  by (simp add: file_ok_def plain_block_frame)

lemma rd_refl: "tx L n s \<Longrightarrow> rd L n s s"
  by (simp add: rd_def same_bufs_def)

lemma rd_trans: "rd L n s t \<Longrightarrow> rd L n t u \<Longrightarrow> rd L n s u"
  using fs_frame_trans [of s t u] same_bufs_trans [of L s t u] by (simp add: rd_def)

lemma bmap_run:
  fixes s :: "'z kinode_scheme"
  assumes s: "tx {} (Suc m) s" and f: "file_ok nb (icache s ! i) s" and n: "n < nb"
  shows "\<exists>t. bmap i n s = Ok (fblk (content s) (icache s ! i) n) t \<and> rd {} (Suc m) s t"
proof (cases "n < NDIRECT")
  case True
  then have "addrs (icache s ! i) ! n \<noteq> 0" using f n by (auto simp: file_ok_def fblk_def)
  then show ?thesis using True rd_refl [OF s] by (simp add: bmap_def get_inode_def fblk_def)
next
  case False
  let ?ip = "icache s ! i"
  let ?a = "addrs ?ip ! NDIRECT"
  have a: "?a \<noteq> 0" "?a < disksize s" "idev ?ip = ROOTDEV" "fblk (content s) ?ip n \<noteq> 0"
    using f n False by (auto simp: file_ok_def plain_block_def)
  have r: "n - NDIRECT < NINDIRECT" using f n False unfolding file_ok_def MAXFILE_def by linarith
  obtain b t u where u: "bread ROOTDEV ?a s = Ok b t" "bdata (bufs t ! b) = content s ?a" "brelse b t = Ok () u" "rd {} (Suc m) s u"
    using read_block [OF s _ a(2)] by auto
  have v: "uint_at (content s ?a) (n - NDIRECT) \<noteq> 0" "fblk (content s) ?ip n = uint_at (content s ?a) (n - NDIRECT)"
    using a(4) False by (simp_all add: fblk_def)
  have "bmap i n s = Ok (uint_at (content s ?a) (n - NDIRECT)) u"
    using False r a u v(1) by (simp add: bmap_def get_inode_def getbuf_def bnd_Ok thn_Ok)
  then show ?thesis using u(4) v(2) by auto
qed

definition file_bytes :: "(nat \<Rightarrow> byte list) \<Rightarrow> inode \<Rightarrow> nat \<Rightarrow> nat \<Rightarrow> byte list" where
  "file_bytes c ip off n = map (fbyte c ip) [off..<off + n]"

lemma length_file_bytes [simp]: "length (file_bytes c ip off n) = n"
  by (simp add: file_bytes_def)

lemma chunk_block:
  assumes "p < chunk off n"
  shows "(off + p) div BSIZE = off div BSIZE" "(off + p) mod BSIZE = off mod BSIZE + p"
proof -
  have b: "off mod BSIZE + p < BSIZE" using assms chunk_bounds(3) [of off n] by linarith
  have "off + p = BSIZE * (off div BSIZE) + (off mod BSIZE + p)" by simp
  then show "(off + p) div BSIZE = off div BSIZE" "(off + p) mod BSIZE = off mod BSIZE + p"
    using b by (metis add.commute div_eq_0_iff div_mult_self4 mod_div_trivial add_0 mod_less mod_mult_self4 less_nat_zero_code neq0_conv)+
qed

lemma file_bytes_chunk:
  assumes "length (c (fblk c ip (off div BSIZE))) = BSIZE" "0 < n"
  shows "slice (off mod BSIZE) (chunk off n) (c (fblk c ip (off div BSIZE))) @ file_bytes c ip (off + chunk off n) (n - chunk off n) =
    file_bytes c ip off n"
proof -
  let ?m = "chunk off n"
  have "slice (off mod BSIZE) ?m (c (fblk c ip (off div BSIZE))) = file_bytes c ip off ?m"
    by (rule nth_equalityI) (use assms chunk_bounds [where off = off and n = n] chunk_block [of _ off n] in \<open>auto simp: nth_slice file_bytes_def fbyte_def\<close>)
  moreover have "[off..<off + n] = [off..<off + ?m] @ [off + ?m..<off + ?m + (n - ?m)]"
    using chunk_bounds(2) [of off n] upt_add_eq_append [of off "off + ?m" "n - ?m"] by simp
  ultimately show ?thesis by (simp add: file_bytes_def)
qed

lemma readi_loop_run:
  fixes s :: "'z kcons_scheme"
  assumes "tx {} (Suc m) s" "file_ok nb (icache s ! i) s" "n = 0 \<or> (off + n - 1) div BSIZE < nb"
  shows "\<exists>t. readi_loop i off n s = Ok (file_bytes (content s) (icache s ! i) off n) t \<and> rd {} (Suc m) s t"
  using assms
proof (induction n arbitrary: off s rule: less_induct)
  case (less n)
  let ?ip = "icache s ! i"
  show ?case
  proof (cases "n = 0")
    case True
    then show ?thesis using less.prems(1) by (auto simp: readi_loop.simps [of i off 0] file_bytes_def intro: rd_refl)
  next
    case False
    let ?m = "chunk off n"
    have cb: "0 < ?m" "?m \<le> n" using chunk_bounds [where off = off and n = n] False by auto
    have nb: "off div BSIZE < nb"
      using less.prems(3) False by (metis add_diff_assoc div_le_mono le_add1 le_less_trans less_one not_le)
    obtain t where t: "bmap i (off div BSIZE) s = Ok (fblk (content s) ?ip (off div BSIZE)) t" "rd {} (Suc m) s t"
      using bmap_run [OF less.prems(1,2) nb] by blast
    let ?a = "fblk (content s) ?ip (off div BSIZE)"
    have ft: "icache t = icache s" "content t = content s" "fs_frame s t" "disksize t = disksize s"
      using rdD [OF t(2)] by (auto simp: fs_frame_def)
    have a: "?a < disksize t" "idev ?ip = ROOTDEV" using less.prems(2) nb ft(4) by (auto simp: file_ok_def plain_block_def)
    obtain b u v where v: "bread ROOTDEV ?a t = Ok b u" "bdata (bufs u ! b) = content s ?a" "brelse b u = Ok () v" "rd {} (Suc m) t v"
      using read_block [OF rdD(1) [OF t(2)] _ a(1)] ft by auto
    have sv: "rd {} (Suc m) s v" using rd_trans [OF t(2) v(4)] .
    have fv: "icache v = icache s" "content v = content s" "fs_frame s v" using rdD [OF sv] by (auto simp: fs_frame_def)
    have "(n - ?m = 0 \<or> (off + ?m + (n - ?m) - 1) div BSIZE < nb)" using less.prems(3) False cb by auto
    then obtain w where w: "readi_loop i (off + ?m) (n - ?m) v = Ok (file_bytes (content s) ?ip (off + ?m) (n - ?m)) w" "rd {} (Suc m) v w"
      using less.IH [of "n - ?m" v "off + ?m"] cb rdD(1) [OF sv] less.prems(2) file_ok_frame [OF fv(3,2)] fv by auto
    have "readi_loop i off n s = Ok (slice (off mod BSIZE) ?m (content s ?a) @ file_bytes (content s) ?ip (off + ?m) (n - ?m)) w"
      using False t(1) v(1-3) w(1) ft(1) a(2)
      by (subst readi_loop.simps) (simp add: bnd_Ok thn_Ok get_inode_def getbuf_def Let_def)
    moreover have "length (content s ?a) = BSIZE" using content_length_fs [OF less.prems(1)] .
    ultimately show ?thesis using file_bytes_chunk [of "content s" ?ip off n] False rd_trans [OF sv w(2)] by auto
  qed
qed

section \<open>Overwriting an allocated file\<close>

definition file_distinct :: "nat \<Rightarrow> inode \<Rightarrow> (nat \<Rightarrow> byte list) \<Rightarrow> bool" where
  "file_distinct nb ip c = (inj_on (fblk c ip) {..<nb} \<and> (NDIRECT < nb \<longrightarrow> addrs ip ! NDIRECT \<notin> fblk c ip ` {..<nb}))"

text \<open>The number of blocks that the bytes from \<open>off\<close> touch.\<close>

definition touched :: "nat \<Rightarrow> nat \<Rightarrow> nat" where
  "touched off n = (if n = 0 then 0 else (off + n - 1) div BSIZE - off div BSIZE + 1)"

lemma touched_chunk:
  assumes "0 < n"
  shows "touched (off + chunk off n) (n - chunk off n) + 1 = touched off n"
proof (cases "chunk off n = n")
  case True
  have "(off + (n - 1)) div BSIZE = off div BSIZE" using chunk_block(1) [of "n - 1" off n] True assms by simp
  then show ?thesis using True assms by (simp add: touched_def)
next
  case False
  let ?m = "chunk off n"
  have m: "?m = BSIZE - off mod BSIZE" "?m < n" using False chunk_bounds(2) [where off = off and n = n] by (auto simp: chunk_def min_def split: if_splits)
  have B: "off mod BSIZE < BSIZE" by (simp add: BSIZE_def)
  have "off + ?m = BSIZE * (off div BSIZE) + BSIZE" using m(1) B by (metis add_diff_inverse_nat less_imp_not_less mult_div_mod_eq add.assoc)
  then have e: "(off + ?m) div BSIZE = off div BSIZE + 1" by (simp add: BSIZE_def)
  have "(off + ?m) div BSIZE \<le> (off + n - 1) div BSIZE" using m(2) by (intro div_le_mono) simp
  then show ?thesis using e m(2) by (simp add: touched_def)
qed

lemma overwrite_block:
  fixes v :: "byte list"
  assumes d: "file_distinct nb ip c" and k: "k < nb"
  defines "c' \<equiv> c(fblk c ip k := v)"
  shows "n < nb \<Longrightarrow> fblk c' ip n = fblk c ip n" "file_distinct nb ip c'"
    "p div BSIZE < nb \<Longrightarrow> fbyte c' ip p = (if p div BSIZE = k then v ! (p mod BSIZE) else fbyte c ip p)"
proof -
  have i: "fblk c ip k \<noteq> addrs ip ! NDIRECT" if "NDIRECT < nb"
    using d k that unfolding file_distinct_def by (metis imageI lessThan_iff)
  show e: "fblk c' ip n = fblk c ip n" if "n < nb" for n
  proof (cases "n < NDIRECT")
    case False
    then have "c' (addrs ip ! NDIRECT) = c (addrs ip ! NDIRECT)" using i that by (simp add: c'_def)
    then show ?thesis using False by (simp add: fblk_def [where n = n])
  qed (simp add: fblk_def [where n = n])
  then have "fblk c' ip ` {..<nb} = fblk c ip ` {..<nb}" "inj_on (fblk c' ip) {..<nb} = inj_on (fblk c ip) {..<nb}"
    by (auto simp: inj_on_def)
  then show "file_distinct nb ip c'" using d by (simp add: file_distinct_def)
  show "fbyte c' ip p = (if p div BSIZE = k then v ! (p mod BSIZE) else fbyte c ip p)" if "p div BSIZE < nb"
  proof -
    have "fblk c ip (p div BSIZE) = fblk c ip k \<longleftrightarrow> p div BSIZE = k"
      using d k that by (auto simp: file_distinct_def inj_on_def)
    then show ?thesis using e [OF that] by (simp add: fbyte_def c'_def)
  qed
qed

lemma writei_loop_run:
  fixes s :: "'z kcons_scheme"
  assumes "tx {} (Suc (m + touched off (length src))) s" "file_ok nb ip s" "icache s ! i = ip" "file_distinct nb ip (content s)"
    "src = [] \<or> (off + length src - 1) div BSIZE < nb"
  shows "\<exists>t. writei_loop i off src s = Ok () t \<and> tx {} (Suc m) t \<and> fs_frame s t \<and> file_ok nb ip t \<and> file_distinct nb ip (content t) \<and>
    (\<forall>p. p div BSIZE < nb \<longrightarrow> fbyte (content t) ip p = (if off \<le> p \<and> p < off + length src then src ! (p - off) else fbyte (content s) ip p))"
  using assms
proof (induction src arbitrary: off s rule: length_induct)
  case (1 src)
  note IH = 1(1) and pre = 1(2-6)
  show ?case
  proof (cases "src = []")
    case True
    then show ?thesis using pre by (auto simp: writei_loop.simps [of i off "[]"] touched_def)
  next
    case False
    let ?n = "length src"
    let ?m = "chunk off ?n"
    let ?k = "off div BSIZE"
    have cb: "0 < ?m" "?m \<le> ?n" "off mod BSIZE + ?m \<le> BSIZE" using chunk_bounds [where off = off and n = ?n] False by auto
    have k: "?k < nb" using pre(5) False by (metis add_diff_assoc div_le_mono le_add1 le_less_trans length_0_conv less_one not_le)
    let ?a = "fblk (content s) ip ?k"
    let ?d = "splice (off mod BSIZE) (take ?m src) (content s ?a)"
    have tc: "touched off ?n = Suc (touched (off + ?m) (length (drop ?m src)))"
      using touched_chunk [of ?n off] False by simp
    have tx1: "tx {} (Suc (Suc (m + touched (off + ?m) (length (drop ?m src))))) s" using pre(1) tc by simp
    obtain t where t: "bmap i ?k s = Ok ?a t" "rd {} (Suc (Suc (m + touched (off + ?m) (length (drop ?m src))))) s t"
      using bmap_run [OF tx1, of nb i ?k] pre(2,3) k by auto
    have ft: "icache t = icache s" "content t = content s" "fs_frame s t" using rdD [OF t(2)] by (auto simp: fs_frame_def)
    have a: "plain_block ?a t" "idev ip = ROOTDEV" using pre(2) k plain_block_frame [OF ft(3)] by (auto simp: file_ok_def)
    have la: "length (content s ?a) = BSIZE" using content_length_fs [OF pre(1)] .
    have len: "length ?d = BSIZE" using la cb by simp
    obtain b u v w x where x: "bread ROOTDEV ?a t = Ok b u" "bdata (bufs u ! b) = content s ?a" "set_data b ?d u = Ok () v"
      "log_write b v = Ok () w" "brelse b w = Ok () x" "upd {} (Suc (m + touched (off + ?m) (length (drop ?m src)))) ?a ?d t x"
      using update_block [OF rdD(1) [OF t(2)] _ a(1) len] ft(2) by auto
    have cx: "content x = (content s)(?a := ?d)" using upd_content [OF x(6)] ft(2) by simp
    have fx: "fs_frame s x" using fs_frame_trans [OF ft(3) updD(2) [OF x(6)]] .
    note o = overwrite_block [OF pre(4) k, where v = ?d, folded cx]
    have okx: "file_ok nb ip x" using pre(2) o(1) plain_block_frame [OF fx] by (auto simp: file_ok_def)
    have ipx: "icache x ! i = ip" using fx pre(3) by (simp add: fs_frame_def)
    have "drop ?m src = [] \<or> (off + ?m + length (drop ?m src) - 1) div BSIZE < nb" using pre(5) False cb by auto
    then obtain y where y: "writei_loop i (off + ?m) (drop ?m src) x = Ok () y" "tx {} (Suc m) y" "fs_frame x y" "file_ok nb ip y"
      "file_distinct nb ip (content y)" "\<forall>p. p div BSIZE < nb \<longrightarrow> fbyte (content y) ip p =
         (if off + ?m \<le> p \<and> p < off + ?m + length (drop ?m src) then drop ?m src ! (p - (off + ?m)) else fbyte (content x) ip p)"
      using IH [rule_format, of "drop ?m src" "off + ?m" x] updD(1) [OF x(6)] okx ipx o(2) cb False by auto
    have run: "writei_loop i off src s = Ok () y"
      using False t(1) x(1-5) y(1) ft(1) pre(3) a(2)
      by (subst writei_loop.simps) (simp add: bnd_Ok thn_Ok get_inode_def getbuf_def Let_def)
    have "fbyte (content y) ip p = (if off \<le> p \<and> p < off + ?n then src ! (p - off) else fbyte (content s) ip p)" if p: "p div BSIZE < nb" for p
    proof (cases "off + ?m \<le> p \<and> p < off + ?n")
      case True
      then show ?thesis using y(6) p cb by (auto simp: add.assoc [symmetric])
    next
      case out: False
      then have "fbyte (content y) ip p = fbyte (content x) ip p" using y(6) p cb by auto
      also have "\<dots> = (if off \<le> p \<and> p < off + ?m then src ! (p - off) else fbyte (content s) ip p)"
      proof (cases "off \<le> p \<and> p < off + ?m")
        case True
        then obtain q where q: "p = off + q" "q < ?m" by (metis add_less_cancel_left le_Suc_ex)
        then show ?thesis using o(3) [OF p] chunk_block [of q off ?n] la cb by (simp add: nth_splice)
      next
        case False
        have "?d ! (p mod BSIZE) = content s ?a ! (p mod BSIZE)" if "p div BSIZE = ?k"
        proof -
          have "p mod BSIZE < off mod BSIZE \<or> off mod BSIZE + ?m \<le> p mod BSIZE"
            using False that by (metis add.assoc add_le_cancel_left div_mult_mod_eq not_le)
          moreover have "p mod BSIZE < BSIZE" by (simp add: BSIZE_def)
          ultimately show ?thesis using la cb by (auto simp: nth_splice)
        qed
        then show ?thesis using False o(3) [OF p] by (auto simp: fbyte_def)
      qed
      finally show ?thesis using out cb by auto
    qed
    then show ?thesis using run y fs_frame_trans [OF fx y(3)] by blast
  qed
qed

section \<open>Properties of file contents\<close>

lemma unat_add_bound:
  fixes a b c :: u32
  assumes "unat a + unat b \<le> unat c"
  shows "unat (a + b) = unat a + unat b" "\<not> a + b < a" "\<not> a > c" "\<not> a + b > c"
proof -
  show u: "unat (a + b) = unat a + unat b"
    using assms unat_u32_less [of c] by (simp add: unat_word_ariths)
  show "\<not> a + b < a" "\<not> a > c" "\<not> a + b > c" using u assms by (simp_all add: word_less_nat_alt)
qed

lemma last_block:
  assumes "off + n \<le> nb * BSIZE" "0 < n"
  shows "(off + n - 1) div BSIZE < nb"
  using assms by (simp add: less_mult_imp_div_less)

lemma readi_run:
  fixes s :: "'z kcons_scheme"
  assumes "tx {} (Suc m) s" "file_ok nb (icache s ! i) s" "itype (icache s ! i) \<noteq> T_DEV"
    "unat (isize (icache s ! i)) \<le> nb * BSIZE" "unat off \<le> unat (isize (icache s ! i))" "unat off + unat n < 2 ^ 32"
  defines "k \<equiv> min (unat n) (unat (isize (icache s ! i)) - unat off)"
  shows "\<exists>t. readi i off n s = Ok (sint (of_nat k :: u32), file_bytes (content s) (icache s ! i) (unat off) k) t \<and> rd {} (Suc m) s t"
proof -
  let ?ip = "icache s ! i"
  have a: "unat (off + n) = unat off + unat n" using assms(6) by (simp add: unat_word_ariths)
  have b: "\<not> off > isize ?ip" "\<not> off + n < off" using a assms(5) by (simp_all add: word_less_nat_alt)
  let ?k = "if off + n > isize ?ip then isize ?ip - off else n"
  have "unat (isize ?ip - off) = unat (isize ?ip) - unat off" using assms(5) by (simp add: unat_sub word_le_nat_alt)
  then have uk: "unat ?k = k" using a by (auto simp: k_def word_less_nat_alt)
  have "(of_nat (unat ?k) :: u32) = ?k" by simp
  then have ok: "(of_nat k :: u32) = ?k" unfolding uk .
  have "k = 0 \<or> (unat off + k - 1) div BSIZE < nb" 
  proof (cases "k = 0")
    case False
    moreover have "unat off + k \<le> unat (isize ?ip)" using assms(5) by (simp add: k_def)
    ultimately show ?thesis using last_block [of "unat off" k nb] assms(4) by (meson le_trans not_gr_zero)
  qed simp
  then obtain t where "readi_loop i (unat off) k s = Ok (file_bytes (content s) ?ip (unat off) k) t" "rd {} (Suc m) s t"
    using readi_loop_run [OF assms(1,2)] by blast
  then show ?thesis using b assms(3) uk ok by (simp add: readi_def get_inode_def Let_def bnd_Ok)
qed

text \<open>\<open>readi\<close> reads the file. For a file whose blocks, direct and indirect, are allocated, a read
  at an offset inside the file returns the bytes of the file from there, cut off at its size, and
  changes neither the contents of the disk nor the inode cache.\<close>

theorem readi_returns_file:
  fixes s :: "'z kcons_scheme"
  assumes "tx {} (Suc m) s" and "file_ok nb (icache s ! i) s" and "itype (icache s ! i) \<noteq> T_DEV"
    and "unat (isize (icache s ! i)) \<le> nb * BSIZE" and "unat off \<le> unat (isize (icache s ! i))" and "unat off + unat n < 2 ^ 32"
    and "k = min (unat n) (unat (isize (icache s ! i)) - unat off)"
  shows "\<exists>t. readi i off n s = Ok (sint (of_nat k :: u32), file_bytes (content s) (icache s ! i) (unat off) k) t \<and>
    content t = content s \<and> icache t = icache s"
  using readi_run [OF assms(1-6)] assms(7) rdD by (fastforce simp: fs_frame_def)


text \<open>A machine with a file of 700 bytes in blocks 70 and 71.\<close>

definition cons0 :: "kinode \<Rightarrow> kcons" where
  "cons0 s = kinode.extend s \<lparr>panicked = False, locking = True, uart = True, uart_out = [], crt = (\<lambda>_. 0), cpos = 0,
     ibuf = replicate INPUT_BUF 0, ir = 0, iw = 0, ie = 0, devsw = (\<lambda>_. (None, None))\<rparr>"

lemma cons0_simps [simp]:
  "tx L n (cons0 s) = tx L n s" "content (cons0 s) = content s" "icache (cons0 s) = icache s" "sb (cons0 s) = sb s"
  "disksize (cons0 s) = disksize s" "lstart (cons0 s) = lstart s" "held (cons0 s) = held s" "curproc (cons0 s) = curproc s"
  by (simp_all add: cons0_def kinode.defs tx_def bio_ok_def bufs_held_def quiet_def log_ok_def log_region_def pinned_def
      content_def cached_at_def fun_eq_iff split: option.split)

lemma file_boot:
  "\<exists>s :: kcons. tx {} 20 s \<and> icache s = [inode0] \<and> content s = disk0 \<and> file_ok 2 inode0 s \<and> file_distinct 2 inode0 (content s)"
proof -
  obtain s :: kinode where s: "tx {} 20 s" "content s = disk0" "sb s = sb0" "icache s = [inode0]" "lstart s = 2" "disksize s = 1000"
    using tx_boot [of disk0 sb0 "[inode0]"] by auto
  have f: "fblk c inode0 0 = 70" "fblk c inode0 (Suc 0) = 71" for c by (simp_all add: fblk_def inode0_def NDIRECT_def)
  have "plain_block k (cons0 s)" if "k = 70 \<or> k = 71" for k
    using that s by (auto simp: plain_block_def log_region_def LOGSIZE_def MAXOPBLOCKS_def)
  then have "file_ok 2 inode0 (cons0 s)"
    using f by (auto simp: file_ok_def less_2_cases_iff inode0_def MAXFILE_def NDIRECT_def NINDIRECT_def BSIZE_def)
  moreover have "file_distinct 2 inode0 c" for c
    using f by (auto simp: file_distinct_def inj_on_def less_2_cases_iff NDIRECT_def)
  ultimately show ?thesis using s by (intro exI [of _ "cons0 s"]) simp
qed

theorem readi_returns_file_witness:
  "\<exists>(s :: kcons) t bs. readi 0 600 500 s = Ok (100, bs) t \<and> length bs = 100"
proof -
  obtain s :: kcons where s: "tx {} 20 s" "icache s = [inode0]" "content s = disk0" "file_ok 2 inode0 s" using file_boot by blast
  have "\<exists>t. readi 0 600 500 s = Ok (100, file_bytes disk0 inode0 600 100) t"
    using readi_returns_file [of 19 s 2 0 600 500 100] s
    by (auto simp: inode0_def T_FILE_def T_DEV_def BSIZE_def)
  then show ?thesis using length_file_bytes by blast
qed


section \<open>Path names\<close>

text \<open>The elements of a path: the non-empty pieces between slashes.\<close>

function elems :: "byte list \<Rightarrow> byte list list" where
  "elems p = (let q = dropWhile (\<lambda>c. c = slash) p in
     if q = [] then [] else takeWhile (\<lambda>c. c \<noteq> slash) q # elems (dropWhile (\<lambda>c. c \<noteq> slash) q))"
  by pat_completeness auto
termination
proof (relation "measure length")
  fix p q :: "byte list"
  assume q: "q = dropWhile (\<lambda>c. c = slash) p" "q \<noteq> []"
  obtain c cs where c: "q = c # cs" using q(2) by (meson neq_Nil_conv)
  have "c \<noteq> slash" using hd_dropWhile [of "\<lambda>c. c = slash" p] q c by (metis list.sel(1))
  then have "length (dropWhile (\<lambda>c. c \<noteq> slash) q) < length q"
    using c length_dropWhile_le [of "\<lambda>c. c \<noteq> slash" cs] by simp
  moreover have "length q \<le> length p" unfolding q(1) by (rule length_dropWhile_le)
  ultimately show "(dropWhile (\<lambda>c. c \<noteq> slash) q, p) \<in> measure length" by simp
qed simp

declare elems.simps [simp del]

lemma elems_skip: "elems (dropWhile (\<lambda>c. c = slash) p) = elems p"
  by (subst (1 2) elems.simps) simp

text \<open>\<open>skipelem\<close> takes paths apart. It returns null exactly when the path has no elements; otherwise
  it stores the first element, cut to \<open>DIRSIZ\<close> bytes and terminated when shorter, into the name
  buffer, and returns the rest of the path, which has the remaining elements and no leading slash.\<close>

theorem skipelem_elems:
  assumes "length name = DIRSIZ" and "0 \<notin> set pth"
  shows "case skipelem pth name of
      None \<Rightarrow> elems pth = []
    | Some (rest, name') \<Rightarrow> elems pth \<noteq> [] \<and> elems rest = tl (elems pth) \<and> (rest = [] \<or> hd rest \<noteq> slash) \<and>
        length name' = DIRSIZ \<and> takeWhile (\<lambda>c. c \<noteq> 0) name' = take DIRSIZ (hd (elems pth))"
proof (cases "dropWhile (\<lambda>c. c = slash) pth = []")
  case True
  then show ?thesis by (simp add: skipelem_def Let_def elems.simps [of pth])
next
  case False
  let ?p = "dropWhile (\<lambda>c. c = slash) pth"
  let ?e = "takeWhile (\<lambda>c. c \<noteq> slash) ?p"
  let ?r = "dropWhile (\<lambda>c. c = slash) (dropWhile (\<lambda>c. c \<noteq> slash) ?p)"
  have el: "elems pth = ?e # elems (dropWhile (\<lambda>c. c \<noteq> slash) ?p)" using False by (subst elems.simps) (simp add: Let_def)
  have nz: "0 \<notin> set ?e" using assms(2) by (auto dest!: set_takeWhileD set_dropWhileD)
  have tw: "takeWhile (\<lambda>c. c \<noteq> 0) (take n ?e) = take n ?e" for n
    using nz by (auto simp: takeWhile_eq_all_conv dest: in_set_takeD)
  have r: "?r = [] \<or> hd ?r \<noteq> slash" using hd_dropWhile [of "\<lambda>c. c = slash"] by blast
  show ?thesis
  proof (cases "length ?e \<ge> DIRSIZ")
    case True
    then have "skipelem pth name = Some (?r, take DIRSIZ ?e)"
      using False assms(1) by (simp add: skipelem_def Let_def splice_def min_def)
    then show ?thesis using el r tw True by (simp add: elems_skip)
  next
    case short: False
    have "skipelem pth name = Some (?r, splice 0 (?e @ [0]) name)"
      using False short by (simp add: skipelem_def Let_def)
    moreover have "takeWhile (\<lambda>c. c \<noteq> 0) (splice 0 (?e @ [0]) name) = ?e" "length (splice 0 (?e @ [0]) name) = DIRSIZ"
      using nz short assms(1) by (auto simp: splice_def takeWhile_append takeWhile_eq_all_conv)
    ultimately show ?thesis using el r short by (simp add: elems_skip)
  qed
qed

theorem skipelem_elems_witness:
  "skipelem (str ''///a//bb'') (replicate DIRSIZ 9) = Some (str ''bb'', [97, 0] @ replicate 12 9) \<and> elems (str ''bb'') = [str ''bb'']"
proof -
  have s: "skipelem (str ''///a//bb'') (replicate DIRSIZ 9) = Some (str ''bb'', [97, 0] @ replicate 12 9)"
    by (simp add: skipelem_def Let_def splice_def DIRSIZ_def str_def)
  have "elems (str ''bb'') = [str ''bb'']" by (subst elems.simps) (simp add: str_def elems.simps [of "[]"])
  moreover have "length (elems (str ''bb'')) = length (tl (elems (str ''///a//bb'')))"
    using skipelem_elems [of "replicate DIRSIZ 9" "str ''///a//bb''"] s by (simp add: str_def)
  ultimately show ?thesis using s by blast
qed

end
