(* ===== verification/File.thy ===== *)
theory File
  imports Fs
begin

text \<open>
  Open files (\<open>file.c\<close>) with their reference counts, and pipes (\<open>pipe.c\<close>). \<open>fileread\<close> returns the
  bytes that it stores at the caller's address, \<open>filewrite\<close> takes the bytes at that address. A pipe
  lives in a page of its own; it is kept under the address of that page.
\<close>

section \<open>State\<close>

definition NFILE :: nat where "NFILE = 100"
definition PIPESIZE :: nat where "PIPESIZE = 512"

datatype filetype = FD_NONE | FD_PIPE | FD_INODE

record file_struct =
  ftype :: filetype
  fref :: int
  readable :: int
  writable :: int
  fpipe :: u32
  fip :: "nat option"
  foff :: u32

record pipe =
  pdata :: "byte list"
  nread :: u32
  nwrite :: u32
  readopen :: int
  writeopen :: int

record kfile = kcons +
  ftable :: "file_struct list"
  pipes :: "u32 \<Rightarrow> pipe"

definition get_file :: "nat \<Rightarrow> ('z kfile_scheme, file_struct) kern" where
  "get_file f = gets (\<lambda>s. ftable s ! f)"

definition set_file :: "nat \<Rightarrow> (file_struct \<Rightarrow> file_struct) \<Rightarrow> ('z kfile_scheme, unit) kern" where
  "set_file f h = modify (\<lambda>s. s\<lparr>ftable := (ftable s)[f := h (ftable s ! f)]\<rparr>)"

definition get_pipe :: "u32 \<Rightarrow> ('z kfile_scheme, pipe) kern" where
  "get_pipe p = gets (\<lambda>s. pipes s p)"

definition set_pipe :: "u32 \<Rightarrow> (pipe \<Rightarrow> pipe) \<Rightarrow> ('z kfile_scheme, unit) kern" where
  "set_pipe p h = modify (\<lambda>s. s\<lparr>pipes := (pipes s)(p := h (pipes s p))\<rparr>)"

section \<open>Pipes\<close>

definition pipeclose :: "u32 \<Rightarrow> int \<Rightarrow> ('z kfile_scheme, unit) kern" where
  "pipeclose p w =
     thn (acquire (LPipe p)) (
     thn (if w \<noteq> 0 then thn (set_pipe p (\<lambda>x. x\<lparr>writeopen := 0\<rparr>)) (wakeup (Some (PipeReadChan p)))
          else thn (set_pipe p (\<lambda>x. x\<lparr>readopen := 0\<rparr>)) (wakeup (Some (PipeWriteChan p)))) (
     bnd (get_pipe p) (\<lambda>x.
     if readopen x = 0 \<and> writeopen x = 0 then thn (release (LPipe p)) (kfree p)
     else release (LPipe p))))"

text \<open>Put one byte; the caller made sure that the pipe is not full.\<close>

definition pipe_put :: "byte \<Rightarrow> pipe \<Rightarrow> pipe" where
  "pipe_put c x = x\<lparr>pdata := (pdata x)[unat (nwrite x) mod PIPESIZE := c], nwrite := nwrite x + 1\<rparr>"

fun pipewrite_loop :: "u32 \<Rightarrow> byte list \<Rightarrow> ('z kfile_scheme, bool) kern" where
  "pipewrite_loop p [] = ret True"
| "pipewrite_loop p (c # cs) =
     bnd (get_pipe p) (\<lambda>x.
     if nwrite x = nread x + of_nat PIPESIZE then
       with_proc (\<lambda>i. bnd (gets (\<lambda>s. killed (ptable s ! i))) (\<lambda>k.
       if readopen x = 0 \<or> k \<noteq> 0 then ret False
       else thn (wakeup (Some (PipeReadChan p))) (thn (sleep (PipeWriteChan p) (Some (LPipe p))) diverge)))
     else thn (set_pipe p (pipe_put c)) (pipewrite_loop p cs))"

definition pipewrite :: "u32 \<Rightarrow> byte list \<Rightarrow> ('z kfile_scheme, int) kern" where
  "pipewrite p bs =
     thn (acquire (LPipe p)) (
     bnd (pipewrite_loop p bs) (\<lambda>ok.
     if \<not> ok then thn (release (LPipe p)) (ret (-1))
     else thn (wakeup (Some (PipeReadChan p))) (thn (release (LPipe p)) (ret (int (length bs))))))"

fun piperead_loop :: "u32 \<Rightarrow> nat \<Rightarrow> ('z kfile_scheme, byte list) kern" where
  "piperead_loop p 0 = ret []"
| "piperead_loop p (Suc n) =
     bnd (get_pipe p) (\<lambda>x.
     if nread x = nwrite x then ret []
     else
       thn (set_pipe p (\<lambda>x. x\<lparr>nread := nread x + 1\<rparr>)) (
       bnd (piperead_loop p n) (\<lambda>rest.
       ret (pdata x ! (unat (nread x) mod PIPESIZE) # rest))))"

definition piperead :: "u32 \<Rightarrow> int \<Rightarrow> ('z kfile_scheme, int \<times> byte list) kern" where
  "piperead p n =
     thn (acquire (LPipe p)) (
     bnd (get_pipe p) (\<lambda>x.
     if nread x = nwrite x \<and> writeopen x \<noteq> 0 then
       with_proc (\<lambda>i. bnd (gets (\<lambda>s. killed (ptable s ! i))) (\<lambda>k.
       if k \<noteq> 0 then thn (release (LPipe p)) (ret (-1, []))
       else thn (sleep (PipeReadChan p) (Some (LPipe p))) diverge))
     else
       bnd (piperead_loop p (nat n)) (\<lambda>bs.
       thn (wakeup (Some (PipeWriteChan p))) (
       thn (release (LPipe p))
       (ret (int (length bs), bs))))))"

section \<open>Open files\<close>

definition fileinit :: "('z kfile_scheme, unit) kern" where
  "fileinit = modify (\<lambda>s. s\<lparr>held := held s - {LFtable}\<rparr>)"

definition filealloc :: "('z kfile_scheme, nat option) kern" where
  "filealloc =
     thn (acquire LFtable) (
     bnd (gets (\<lambda>s. find_index (\<lambda>f. fref f = 0) (ftable s))) (\<lambda>r.
     case r of
       Some f \<Rightarrow> thn (set_file f (\<lambda>x. x\<lparr>fref := 1\<rparr>)) (thn (release LFtable) (ret (Some f)))
     | None \<Rightarrow> thn (release LFtable) (ret None)))"

definition filedup :: "nat \<Rightarrow> ('z kfile_scheme, nat) kern" where
  "filedup f =
     thn (acquire LFtable) (
     bnd (get_file f) (\<lambda>x.
     if fref x < 1 then panic ''filedup''
     else thn (set_file f (\<lambda>x. x\<lparr>fref := fref x + 1\<rparr>)) (thn (release LFtable) (ret f))))"

definition iput_opt :: "nat option \<Rightarrow> ('z kinode_scheme, unit) kern" where
  "iput_opt r = (case r of None \<Rightarrow> panic ''iput: null inode'' | Some i \<Rightarrow> iput i)"

definition fileclose :: "nat \<Rightarrow> ('z kfile_scheme, unit) kern" where
  "fileclose f =
     thn (acquire LFtable) (
     bnd (get_file f) (\<lambda>x.
     if fref x < 1 then panic ''fileclose''
     else
       thn (set_file f (\<lambda>x. x\<lparr>fref := fref x - 1\<rparr>)) (
       if fref x - 1 > 0 then release LFtable
       else
         thn (set_file f (\<lambda>x. x\<lparr>fref := 0, ftype := FD_NONE\<rparr>)) (
         thn (release LFtable) (
         case ftype x of
           FD_PIPE \<Rightarrow> pipeclose (fpipe x) (writable x)
         | FD_INODE \<Rightarrow> thn begin_op (thn (iput_opt (fip x)) end_op)
         | FD_NONE \<Rightarrow> ret ())))))"

definition filestat :: "nat \<Rightarrow> ('z kfile_scheme, (u16 \<times> nat \<times> nat \<times> u16 \<times> u32) option) kern" where
  "filestat f =
     bnd (get_file f) (\<lambda>x.
     if ftype x = FD_INODE then
       thn (ilock (fip x)) (
       bnd (case fip x of None \<Rightarrow> panic ''stati: null inode'' | Some i \<Rightarrow> stati i) (\<lambda>st.
       thn (iunlock (fip x)) (ret (Some st))))
     else ret None)"

definition fileread :: "nat \<Rightarrow> int \<Rightarrow> ('z kfile_scheme, int \<times> byte list) kern" where
  "fileread f n =
     bnd (get_file f) (\<lambda>x.
     if readable x = 0 then ret (-1, [])
     else (case ftype x of
       FD_PIPE \<Rightarrow> piperead (fpipe x) n
     | FD_INODE \<Rightarrow>
         thn (ilock (fip x)) (
         bnd (case fip x of None \<Rightarrow> panic ''readi: null inode'' | Some i \<Rightarrow> readi i (foff x) (of_int n)) (\<lambda>(r, bs).
         thn (whenk (r > 0) (set_file f (\<lambda>y. y\<lparr>foff := foff y + of_int r\<rparr>))) (
         thn (iunlock (fip x))
         (ret (r, bs)))))
     | FD_NONE \<Rightarrow> panic ''fileread''))"

definition maxwrite :: nat where
  "maxwrite = ((MAXOPBLOCKS - 1 - 1 - 2) div 2) * 512"

function filewrite_loop :: "nat \<Rightarrow> nat option \<Rightarrow> byte list \<Rightarrow> ('z kfile_scheme, bool) kern" where
  "filewrite_loop f ip bs =
     (if bs = [] then ret True
      else
        let n1 = min (length bs) maxwrite in
        thn begin_op (
        thn (ilock ip) (
        bnd (get_file f) (\<lambda>x.
        bnd (case ip of None \<Rightarrow> panic ''writei: null inode'' | Some i \<Rightarrow> writei i bs (foff x) (of_nat n1)) (\<lambda>r.
        thn (whenk (r > 0) (set_file f (\<lambda>y. y\<lparr>foff := foff y + of_int r\<rparr>))) (
        thn (iunlock ip) (
        thn end_op (
        if r < 0 then ret False
        else if r \<noteq> int n1 then panic ''short filewrite''
        else filewrite_loop f ip (drop n1 bs)))))))))"
  by pat_completeness auto
termination by (relation "measure (\<lambda>(f, ip, bs). length bs)") (auto simp: maxwrite_def MAXOPBLOCKS_def)

declare filewrite_loop.simps [simp del]

definition filewrite :: "nat \<Rightarrow> byte list \<Rightarrow> int \<Rightarrow> ('z kfile_scheme, int) kern" where
  "filewrite f src n =
     bnd (get_file f) (\<lambda>x.
     if writable x = 0 then ret (-1)
     else (case ftype x of
       FD_PIPE \<Rightarrow> pipewrite (fpipe x) (take (nat n) src)
     | FD_INODE \<Rightarrow>
         bnd (filewrite_loop f (fip x) (take (nat n) src)) (\<lambda>ok.
         ret (if ok \<and> 0 \<le> n then n else -1))
     | FD_NONE \<Rightarrow> panic ''filewrite''))"

definition pipealloc :: "('z kfile_scheme, (nat \<times> nat) option) kern" where
  "pipealloc =
     bnd filealloc (\<lambda>r0.
     case r0 of
       None \<Rightarrow> ret None
     | Some f0 \<Rightarrow>
         bnd filealloc (\<lambda>r1.
         case r1 of
           None \<Rightarrow> thn (fileclose f0) (ret None)
         | Some f1 \<Rightarrow>
             bnd kalloc (\<lambda>p.
             if p = 0 then thn (fileclose f0) (thn (fileclose f1) (ret None))
             else
               thn (set_pipe p (\<lambda>x. x\<lparr>readopen := 1, writeopen := 1, nwrite := 0, nread := 0\<rparr>)) (
               thn (modify (\<lambda>s. s\<lparr>held := held s - {LPipe p}\<rparr>)) (
               thn (set_file f0 (\<lambda>x. x\<lparr>ftype := FD_PIPE, readable := 1, writable := 0, fpipe := p\<rparr>)) (
               thn (set_file f1 (\<lambda>x. x\<lparr>ftype := FD_PIPE, readable := 0, writable := 1, fpipe := p\<rparr>))
               (ret (Some (f0, f1)))))))))"

section \<open>Pipes are bounded queues\<close>

definition pipe_items :: "pipe \<Rightarrow> byte list" where
  "pipe_items x = ring_items PIPESIZE (pdata x) (nread x) (nwrite x)"

definition pipe_ok :: "pipe \<Rightarrow> bool" where
  "pipe_ok x = ring_wf PIPESIZE (pdata x) (nread x) (nwrite x)"

definition pipe_get :: "pipe \<Rightarrow> pipe" where
  "pipe_get x = x\<lparr>nread := nread x + 1\<rparr>"

definition pipe_first :: "pipe \<Rightarrow> byte" where
  "pipe_first x = pdata x ! (unat (nread x) mod PIPESIZE)"

interpretation pq: bounded_queue PIPESIZE pipe_ok pipe_items pipe_put pipe_first pipe_get
proof
  fix q :: pipe and x :: byte
  assume q: "pipe_ok q"
  note q' = q [unfolded pipe_ok_def]
  show "length (pipe_items q) \<le> PIPESIZE" using q by (simp add: pipe_ok_def pipe_items_def ring_wf_def)
  { assume "length (pipe_items q) < PIPESIZE"
    then have "unat (nwrite q - nread q) < PIPESIZE" by (simp add: pipe_items_def)
    then show "pipe_ok (pipe_put x q)" "pipe_items (pipe_put x q) = pipe_items q @ [x]"
      using ring_push [OF _ _ q', of x] by (simp_all add: PIPESIZE_def pipe_ok_def pipe_items_def pipe_put_def) }
  { assume "pipe_items q \<noteq> []"
    then have "nread q \<noteq> nwrite q" by (simp add: pipe_items_def ring_empty)
    then show "pipe_first q = hd (pipe_items q)" "pipe_ok (pipe_get q)" "pipe_items (pipe_get q) = tl (pipe_items q)"
      using ring_pop [OF q'] by (simp_all add: pipe_first_def pipe_get_def pipe_ok_def pipe_items_def) }
qed

lemma pipe_full_iff:
  assumes "pipe_ok x"
  shows "nwrite x = nread x + of_nat PIPESIZE \<longleftrightarrow> length (pipe_items x) = PIPESIZE"
proof -
  have "nwrite x = nread x + of_nat PIPESIZE \<longleftrightarrow> unat (nwrite x - nread x) = unat (of_nat PIPESIZE :: u32)"
    unfolding word_unat_eq_iff [symmetric] by (auto simp: algebra_simps)
  then show ?thesis by (simp add: pipe_items_def PIPESIZE_def)
qed

definition with_pipe :: "u32 \<Rightarrow> pipe \<Rightarrow> 'z kfile_scheme \<Rightarrow> 'z kfile_scheme" where
  "with_pipe p x s = s\<lparr>pipes := (pipes s)(p := x)\<rparr>"

lemma with_pipe_simps [simp]:
  "pipes (with_pipe p x s) p = x" "with_pipe p y (with_pipe p x s) = with_pipe p y s" "held (with_pipe p x s) = held s"
  "ptable (with_pipe p x s) = ptable s" "with_pipe p (pipes s p) s = s"
  by (simp_all add: with_pipe_def)

lemma set_pipe_run: "set_pipe p h s = Ok () (with_pipe p (h (pipes s p)) s)"
  by (simp add: set_pipe_def with_pipe_def)

lemma pipewrite_loop_run:
  assumes "pipe_ok (pipes s p)" "length (pipe_items (pipes s p)) + length bs \<le> PIPESIZE"
  shows "pipewrite_loop p bs s = Ok True (with_pipe p (fold pipe_put bs (pipes s p)) s)"
  using assms
proof (induction bs arbitrary: s)
  case (Cons c cs)
  let ?s = "with_pipe p (pipe_put c (pipes s p)) s"
  have "length (pipe_items (pipes s p)) < PIPESIZE" using Cons.prems(2) by simp
  then have "nwrite (pipes s p) \<noteq> nread (pipes s p) + of_nat PIPESIZE" "pipe_ok (pipes ?s p)"
    "length (pipe_items (pipes ?s p)) + length cs \<le> PIPESIZE"
    using pipe_full_iff [OF Cons.prems(1)] pq.push_wf [OF Cons.prems(1)] pq.push_items [OF Cons.prems(1)] Cons.prems(2) by simp_all
  then show ?case using Cons.IH [of ?s] by (simp add: get_pipe_def set_pipe_run thn_Ok)
qed simp

lemma piperead_loop_run:
  assumes "pipe_ok (pipes s p)"
  shows "piperead_loop p n s = Ok (take n (pipe_items (pipes s p)))
    (with_pipe p ((pipe_get ^^ min n (length (pipe_items (pipes s p)))) (pipes s p)) s)"
  using assms
proof (induction n arbitrary: s)
  case (Suc n)
  let ?x = "pipes s p"
  show ?case
  proof (cases "nread ?x = nwrite ?x")
    case True
    then have "pipe_items ?x = []" by (simp add: pipe_items_def)
    then show ?thesis using True by (simp add: get_pipe_def)
  next
    case False
    then have ne: "pipe_items ?x \<noteq> []" by (simp add: pipe_items_def ring_empty)
    let ?s = "with_pipe p (pipe_get ?x) s"
    have p: "pipe_ok (pipes ?s p)" "pipe_items (pipes ?s p) = tl (pipe_items ?x)" "pipe_first ?x = hd (pipe_items ?x)"
      using pq.pop_wf [OF Suc.prems ne] pq.pop_items [OF Suc.prems ne] pq.front_items [OF Suc.prems ne] by simp_all
    obtain y ys where y: "pipe_items ?x = y # ys" using ne by (cases "pipe_items ?x") auto
    have "piperead_loop p (Suc n) s = bnd (piperead_loop p n) (\<lambda>rest. ret (pipe_first ?x # rest)) ?s"
      using False by (simp add: get_pipe_def set_pipe_run thn_Ok pipe_first_def pipe_get_def)
    also have "\<dots> = Ok (y # take n ys) (with_pipe p ((pipe_get ^^ min n (length ys)) (pipe_get ?x)) s)"
      using Suc.IH [OF p(1)] p(2,3) y by (simp add: bnd_Ok)
    finally show ?thesis using y by (simp add: funpow_swap1)
  qed
qed simp


definition file0 :: "kcons \<Rightarrow> file_struct list \<Rightarrow> pipe \<Rightarrow> kfile" where
  "file0 s fs x = kcons.extend s \<lparr>ftable = fs, pipes = (\<lambda>_. x)\<rparr>"

lemma file0_simps [simp]:
  "tx L n (file0 s fs x) = tx L n s" "content (file0 s fs x) = content s" "icache (file0 s fs x) = icache s" "held (file0 s fs x) = held s"
  "pipes (file0 s fs x) = (\<lambda>_. x)" "ftable (file0 s fs x) = fs" "ptable (file0 s fs x) = ptable s" "curproc (file0 s fs x) = curproc s"
  by (simp_all add: file0_def kcons.defs tx_def bio_ok_def bufs_held_def quiet_def log_ok_def log_region_def pinned_def
      content_def cached_at_def fun_eq_iff split: option.split)

definition pipe0 :: pipe where
  "pipe0 = \<lparr>pdata = replicate PIPESIZE 0, nread = - 1, nwrite = - 1, readopen = 1, writeopen = 1\<rparr>"


section \<open>Reference counts of open files\<close>



end
