(* ===== verification/Dirops.thy ===== *)
theory Dirops
  imports File
begin

text \<open>
  Operations on directories that system calls and the swap code share: creating and unlinking
  (\<open>sysfile.c\<close>), and the swap file of a process (the end of \<open>fs.c\<close>).
\<close>

section \<open>Creating and removing directory entries\<close>

fun dirempty_from :: "nat \<Rightarrow> nat list \<Rightarrow> ('z kcons_scheme, bool) kern" where
  "dirempty_from dp [] = ret True"
| "dirempty_from dp (off # offs) =
     bnd (readi dp (of_nat off) (of_nat DIRENTSIZE)) (\<lambda>(r, de).
     if r \<noteq> int DIRENTSIZE then panic ''isdirempty: readi''
     else if de_inum de \<noteq> 0 then ret False
     else dirempty_from dp offs)"

definition isdirempty :: "nat \<Rightarrow> ('z kcons_scheme, bool) kern" where
  "isdirempty dp = bnd (get_inode dp) (\<lambda>x. dirempty_from dp (drop 2 (dir_offsets (isize x))))"

definition create :: "byte list \<Rightarrow> u16 \<Rightarrow> u16 \<Rightarrow> u16 \<Rightarrow> ('z kcons_scheme, nat option) kern" where
  "create pth ty ma mi =
     bnd (nameiparent pth (replicate DIRSIZ 0)) (\<lambda>(r, name).
     case r of
       None \<Rightarrow> ret None
     | Some dp \<Rightarrow>
         thn (ilock (Some dp)) (
         bnd (dirlookup dp name) (\<lambda>q.
         case q of
           Some (ip, _) \<Rightarrow>
             thn (iunlockput dp) (
             thn (ilock (Some ip)) (
             bnd (get_inode ip) (\<lambda>x.
             if ty = T_FILE \<and> itype x = T_FILE then ret (Some ip)
             else thn (iunlockput ip) (ret None))))
         | None \<Rightarrow>
             bnd (get_inode dp) (\<lambda>d.
             bnd (ialloc (idev d) ty) (\<lambda>ip.
             thn (ilock (Some ip)) (
             thn (set_inode ip (\<lambda>x. x\<lparr>major := ma, minor := mi, nlink := 1\<rparr>)) (
             thn (iupdate ip) (
             bnd (get_inode ip) (\<lambda>x.
             thn (whenk (ty = T_DIR) (
               thn (set_inode dp (\<lambda>x. x\<lparr>nlink := nlink x + 1\<rparr>)) (
               thn (iupdate dp) (
               bnd (dirlink ip (str ''.'' @ [0]) (inum x)) (\<lambda>r1.
               if r1 < 0 then panic ''create dots''
               else bnd (dirlink ip (str ''..'' @ [0]) (inum d)) (\<lambda>r2.
                 if r2 < 0 then panic ''create dots'' else ret ())))))) (
             bnd (dirlink dp name (inum x)) (\<lambda>r3.
             if r3 < 0 then panic ''create: dirlink''
             else thn (iunlockput dp) (ret (Some ip)))))))))))))"

text \<open>
  The body that \<open>sys_unlink\<close> and \<open>removeSwapFile\<close> have in common, from \<open>begin_op\<close> to the end; the
  literals in \<open>namecmp(name, ".")\<close> are compared up to their NUL.
\<close>

definition unlink_path :: "byte list \<Rightarrow> ('z kcons_scheme, int) kern" where
  "unlink_path pth =
     thn begin_op (
     bnd (nameiparent pth (replicate DIRSIZ 0)) (\<lambda>(r, name).
     case r of
       None \<Rightarrow> thn end_op (ret (-1))
     | Some dp \<Rightarrow>
         let bad = thn (iunlockput dp) (thn end_op (ret (-1))) in
         thn (ilock (Some dp)) (
         if namecmp name (name_field (str ''.'')) = 0 \<or> namecmp name (name_field (str ''..'')) = 0 then bad
         else
           bnd (dirlookup dp name) (\<lambda>q.
           case q of
             None \<Rightarrow> bad
           | Some (ip, off) \<Rightarrow>
               thn (ilock (Some ip)) (
               bnd (get_inode ip) (\<lambda>x.
               if sint (nlink x) < 1 then panic ''unlink: nlink < 1''
               else
                 bnd (if itype x = T_DIR then isdirempty ip else ret True) (\<lambda>empty.
                 if \<not> empty then thn (iunlockput ip) bad
                 else
                   bnd (writei dp (replicate DIRENTSIZE 0) (of_nat off) (of_nat DIRENTSIZE)) (\<lambda>w.
                   if w \<noteq> int DIRENTSIZE then panic ''unlink: writei''
                   else
                     thn (whenk (itype x = T_DIR) (thn (set_inode dp (\<lambda>x. x\<lparr>nlink := nlink x - 1\<rparr>)) (iupdate dp))) (
                     thn (iunlockput dp) (
                     thn (set_inode ip (\<lambda>x. x\<lparr>nlink := nlink x - 1\<rparr>)) (
                     thn (iupdate ip) (
                     thn (iunlockput ip) (
                     thn end_op
                     (ret 0))))))))))))))"

section \<open>Swap files\<close>

definition removeSwapFile :: "nat \<Rightarrow> ('z kfile_scheme, int) kern" where
  "removeSwapFile p =
     bnd (gets (\<lambda>s. ptable s ! p)) (\<lambda>x.
     case swapFile x of
       None \<Rightarrow> ret (-1)
     | Some f \<Rightarrow> thn (fileclose f) (unlink_path (swap_path (pid x))))"

definition createSwapFile :: "nat \<Rightarrow> ('z kfile_scheme, int) kern" where
  "createSwapFile p =
     bnd (gets (\<lambda>s. pid (ptable s ! p))) (\<lambda>n.
     thn begin_op (
     bnd (create (swap_path n) T_FILE 0 0) (\<lambda>inp.
     thn (iunlock inp) (
     bnd filealloc (\<lambda>r.
     thn (set_proc p (\<lambda>x. x\<lparr>swapFile := r\<rparr>)) (
     case r of
       None \<Rightarrow> panic ''no slot for files on /store''
     | Some f \<Rightarrow>
         thn (set_file f (\<lambda>x. x\<lparr>fip := inp, ftype := FD_INODE, foff := 0, readable := 1, writable := 2\<rparr>)) (
         thn end_op
         (ret 0))))))))"

definition writeToSwapFile :: "nat \<Rightarrow> byte list \<Rightarrow> u32 \<Rightarrow> u32 \<Rightarrow> ('z kfile_scheme, int) kern" where
  "writeToSwapFile p buffer placeOnFile n =
     bnd (gets (\<lambda>s. swapFile (ptable s ! p))) (\<lambda>r.
     case r of
       None \<Rightarrow> panic ''null swapFile''
     | Some f \<Rightarrow>
         thn (set_file f (\<lambda>x. x\<lparr>foff := placeOnFile\<rparr>))
         (filewrite f buffer (sint n)))"

definition readFromSwapFile :: "nat \<Rightarrow> u32 \<Rightarrow> u32 \<Rightarrow> ('z kfile_scheme, int \<times> byte list) kern" where
  "readFromSwapFile p placeOnFile n =
     bnd (gets (\<lambda>s. swapFile (ptable s ! p))) (\<lambda>r.
     case r of
       None \<Rightarrow> panic ''null swapFile''
     | Some f \<Rightarrow>
         thn (set_file f (\<lambda>x. x\<lparr>foff := placeOnFile\<rparr>))
         (fileread f (sint n)))"

end
