(* ===== verification/Paging.thy ===== *)
theory Paging
  imports Pagetable Dirops
begin

text \<open>
  Page replacement (the end of \<open>proc.c\<close>): the queue of pages in memory and the queue of free offsets
  in the swap file that each process has, and the four ways of choosing a page to swap out. The
  build uses second-chance FIFO (\<open>SELECTION := SCFIFO\<close> in the Makefile); the routines of the other
  policies are compiled too and modelled as they are.
\<close>

section \<open>State\<close>

text \<open>
  \<open>kdata\<close> is the linker symbol \<open>data\<close>, \<open>initcode\<close> the program the kernel embeds for its first
  process, \<open>ticks\<close> the count of timer interrupts.
\<close>

record kvm = kfile +
  kpgdir :: u32
  kdata :: u32
  initcode :: "byte list"
  ticks :: u32

definition cur :: "('z kproc_scheme, proc) kern" where
  "cur = with_proc (\<lambda>i. gets (\<lambda>s. ptable s ! i))"

definition set_cur :: "(proc \<Rightarrow> proc) \<Rightarrow> ('z kproc_scheme, unit) kern" where
  "set_cur f = with_proc (\<lambda>i. set_proc i f)"

lemma cur_run: "curproc s = Some c \<Longrightarrow> cur s = Ok (ptable s ! c) s"
  by (simp add: cur_def with_proc_def)

lemma set_cur_run: "curproc s = Some c \<Longrightarrow>
    set_cur f s = Ok () (s\<lparr>ptable := (ptable s)[c := f (ptable s ! c)]\<rparr>)"
  by (simp add: set_cur_def with_proc_def)

lemma cur_eq_Ok: "cur s = Ok p t \<longleftrightarrow> (\<exists>c. curproc s = Some c \<and> p = ptable s ! c \<and> t = s)"
  by (auto simp: cur_def with_proc_def split: option.splits)

text \<open>\<open>pages[k]\<close> of the current process; an index outside the array is a fault.\<close>

definition page_of :: "int \<Rightarrow> ('z kproc_scheme, page) kern" where
  "page_of k = bnd cur (\<lambda>p.
     if 0 \<le> k \<and> k < int MAX_TOTAL_PAGES then ret (ppages p ! nat k) else panic ''pages index'')"

definition set_page :: "nat \<Rightarrow> (page \<Rightarrow> page) \<Rightarrow> ('z kproc_scheme, unit) kern" where
  "set_page k f = set_cur (\<lambda>p. p\<lparr>ppages := (ppages p)[k := f (ppages p ! k)]\<rparr>)"

section \<open>The queue of resident pages\<close>

definition shift_queue :: "nat \<Rightarrow> int list \<Rightarrow> int list" where
  "shift_queue i q = (if i < MAX_PSYC_PAGES - 1 then take i q @ drop (Suc i) q @ [-1]
     else q[MAX_PSYC_PAGES - 1 := -1])"

definition updateQueue :: "nat \<Rightarrow> ('z kproc_scheme, unit) kern" where
  "updateQueue i = set_cur (\<lambda>p. p\<lparr>RAMQueue := shift_queue i (RAMQueue p)\<rparr>)"

text \<open>
  The first loop of \<open>removeSCFIFO\<close>: pages whose accessed bit is set lose it and move to \<open>temp\<close>; the
  scan stops at the first page without it.
\<close>

fun scfifo_scan :: "int list \<Rightarrow> int list \<Rightarrow> ('z kproc_scheme, int list \<times> (int \<times> int list) option) kern" where
  "scfifo_scan temp [] = ret (temp, None)"
| "scfifo_scan temp (q # qs) =
     bnd cur (\<lambda>p.
     bnd (page_of q) (\<lambda>x.
     bnd (walk_entry (pgdir p) (v_address x)) (\<lambda>pte.
     bnd (ld pte) (\<lambda>e.
     if e AND PTE_A \<noteq> 0 then thn (st pte (PTE_A_OFF e)) (scfifo_scan (temp @ [q]) qs)
     else ret (temp, Some (q, qs))))))"

definition removeSCFIFO :: "('z kproc_scheme, int) kern" where
  "removeSCFIFO =
     bnd cur (\<lambda>p.
     bnd (scfifo_scan [] (RAMQueue p)) (\<lambda>(temp, r).
     case r of
       None \<Rightarrow>
         let q = RAMQueue p ! 0 in
         if q \<noteq> -1 then thn (updateQueue 0) (ret q) else panic ''removeSCFIFO''
     | Some (q, qs) \<Rightarrow>
         let behind = takeWhile (\<lambda>k. k \<noteq> -1) qs;
             pad = replicate (MAX_PSYC_PAGES - length temp) (-1) in
         thn (set_cur (\<lambda>p. p\<lparr>RAMQueue := take MAX_PSYC_PAGES (behind @ temp @ pad)\<rparr>)) (ret q)))"

fun nfua_min :: "nat list \<Rightarrow> nat \<Rightarrow> ('z kproc_scheme, nat) kern" where
  "nfua_min [] m = ret m"
| "nfua_min (i # is) m =
     bnd cur (\<lambda>p.
     bnd (page_of (RAMQueue p ! i)) (\<lambda>x.
     bnd (page_of (RAMQueue p ! m)) (\<lambda>y.
     nfua_min is (if age x < age y then i else m))))"

definition removeNFUA :: "('z kproc_scheme, int) kern" where
  "removeNFUA =
     bnd (nfua_min [1..<MAX_PSYC_PAGES] 0) (\<lambda>m.
     bnd cur (\<lambda>p.
     thn (updateQueue m) (ret (RAMQueue p ! m))))"

text \<open>The number of bits set in an age; \<open>removeLAPA\<close> compares ages as signed numbers.\<close>

definition count_bits :: "u32 \<Rightarrow> nat" where
  "count_bits w = length (filter (bit w) [0..<32])"

fun lapa_min :: "nat list \<Rightarrow> int \<Rightarrow> int \<Rightarrow> nat \<Rightarrow> ('z kproc_scheme, int) kern" where
  "lapa_min [] mi ma mc = ret mi"
| "lapa_min (i # is) mi ma mc =
     bnd cur (\<lambda>p.
     bnd (page_of (RAMQueue p ! i)) (\<lambda>x.
     let a = sint (age x); c = count_bits (age x) in
     if c < mc then lapa_min is (int i) a c
     else if c = mc \<and> a < ma then lapa_min is (int i) a mc
     else lapa_min is mi ma mc))"

definition removeLAPA :: "('z kproc_scheme, int) kern" where
  "removeLAPA =
     bnd (lapa_min [0..<MAX_PSYC_PAGES] (-1) (-1) 33) (\<lambda>mi.
     if mi = -1 then panic ''removeLAPA''
     else
       bnd cur (\<lambda>p.
       thn (updateQueue (nat mi)) (ret (RAMQueue p ! nat mi))))"

definition removeAQ :: "('z kproc_scheme, int) kern" where
  "removeAQ = bnd cur (\<lambda>p. thn (updateQueue 0) (ret (RAMQueue p ! 0)))"

text \<open>
  The loop of \<open>insert\<close> tests its bound only after it has read the next entry. With a full
  queue that entry is the word after \<open>RAMQueue\<close> in \<open>struct proc\<close>, which is \<open>offsetQueue[0]\<close>.
\<close>

definition insert_page :: "int \<Rightarrow> ('z kproc_scheme, unit) kern" where
  "insert_page k =
     bnd cur (\<lambda>p.
     case find_index (\<lambda>x. x = -1) (RAMQueue p) of
       Some i \<Rightarrow> set_cur (\<lambda>p. p\<lparr>RAMQueue := (RAMQueue p)[i := k]\<rparr>)
     | None \<Rightarrow>
         if offsetQueue p ! 0 \<noteq> -1 then panic ''insert''
         else set_cur (\<lambda>p. p\<lparr>offsetQueue := (offsetQueue p)[0 := k]\<rparr>))"

section \<open>Aging\<close>

definition age_page :: "nat \<Rightarrow> ('z kproc_scheme, unit) kern" where
  "age_page i =
     bnd cur (\<lambda>p.
     let x = ppages p ! i in
     whenk (isAllocated x = 1) (
       thn (set_page i (\<lambda>x. x\<lparr>age := drop_bit 1 (age x)\<rparr>)) (
       bnd (walk_entry (pgdir p) (v_address x)) (\<lambda>pte.
       bnd (ld pte) (\<lambda>e.
       whenk (e AND PTE_A \<noteq> 0) (
         thn (set_page i (\<lambda>x. x\<lparr>age := age x OR 0x80000000\<rparr>))
         (st pte (PTE_A_OFF e))))))))"

definition agingPages :: "('z kproc_scheme, unit) kern" where
  "agingPages = foreach [0..<MAX_TOTAL_PAGES] age_page"

definition advance_at :: "nat \<Rightarrow> ('z kproc_scheme, unit) kern" where
  "advance_at i =
     bnd cur (\<lambda>p.
     let c = RAMQueue p ! i; b = RAMQueue p ! (i - 1) in
     whenk (c \<noteq> -1) (
       bnd (page_of c) (\<lambda>x.
       bnd (walk_entry (pgdir p) (v_address x)) (\<lambda>pc.
       bnd (page_of b) (\<lambda>y.
       bnd (walk_entry (pgdir p) (v_address y)) (\<lambda>pb.
       bnd (ld pb) (\<lambda>eb.
       bnd (ld pc) (\<lambda>ec.
       whenk (eb AND PTE_A \<noteq> 0 \<and> ec AND PTE_A = 0)
         (set_cur (\<lambda>p. p\<lparr>RAMQueue := (RAMQueue p)[i := b, i - 1 := c]\<rparr>))))))))))"

text \<open>The loop runs from \<open>MAX_PSYC_PAGES - 1\<close> down while the index is negative.\<close>

definition advanceQueue :: "('z kproc_scheme, unit) kern" where
  "advanceQueue = foreach (takeWhile (\<lambda>i. int i < 0) (rev [0..<MAX_PSYC_PAGES])) advance_at"

section \<open>Offsets in the swap file\<close>

definition updateOffsetQueue :: "('z kproc_scheme, unit) kern" where
  "updateOffsetQueue = set_cur (\<lambda>p. p\<lparr>offsetQueue := shift_queue 0 (offsetQueue p)\<rparr>)"

definition removeOffsetQueue :: "('z kproc_scheme, int) kern" where
  "removeOffsetQueue =
     bnd cur (\<lambda>p.
     let k = offsetQueue p ! 0 in
     thn (whenk (k \<noteq> -1) updateOffsetQueue) (ret k))"

text \<open>With a full queue the loop reads past the end of \<open>struct proc\<close>.\<close>

definition insertOffsetQueue :: "int \<Rightarrow> ('z kproc_scheme, unit) kern" where
  "insertOffsetQueue k =
     bnd cur (\<lambda>p.
     case find_index (\<lambda>x. x = -1) (offsetQueue p) of
       Some i \<Rightarrow> set_cur (\<lambda>p. p\<lparr>offsetQueue := (offsetQueue p)[i := k]\<rparr>)
     | None \<Rightarrow> panic ''offsetQueue index'')"

definition getFreeFileOffset :: "('z kproc_scheme, int) kern" where
  "getFreeFileOffset =
     bnd removeOffsetQueue (\<lambda>r.
     if r = -1 then
       bnd cur (\<lambda>p.
       thn (set_cur (\<lambda>p. p\<lparr>fileOffset := fileOffset p + PGSIZE\<rparr>))
       (ret (sint (fileOffset p))))
     else ret r)"

definition deallocatePage :: "u32 \<Rightarrow> ('z kproc_scheme, unit) kern" where
  "deallocatePage va =
     bnd cur (\<lambda>p.
     case find_index (\<lambda>x. isAllocated x \<noteq> 0 \<and> v_address x = va) (ppages p) of
       None \<Rightarrow> panic ''deallocatePage''
     | Some i \<Rightarrow>
         let x = ppages p ! i in
         thn (set_page i (\<lambda>x. x\<lparr>v_address := 0, age := 0, isAllocated := 0\<rparr>)) (
         thn (whenk (is_in_RAM x = 0) (insertOffsetQueue (file_offset x))) (
         thn (set_page i (\<lambda>x. x\<lparr>is_in_RAM := 0, file_offset := -1\<rparr>))
         (case find_index (\<lambda>k. k = int i) (RAMQueue p) of
            None \<Rightarrow> ret ()
          | Some j \<Rightarrow> updateQueue j))))"

section \<open>Scanning the queue\<close>

text \<open>What holds of the current process while its queue is scanned.\<close>

definition page_va :: "'z kproc_scheme \<Rightarrow> int \<Rightarrow> u32" where
  "page_va s k = v_address (ppages (ptable s ! the (curproc s)) ! nat k)"

definition cur_dir :: "'z kproc_scheme \<Rightarrow> u32" where
  "cur_dir s = pgdir (ptable s ! the (curproc s))"

definition resident :: "int list \<Rightarrow> 'z kproc_scheme \<Rightarrow> bool" where
  "resident xs s = (curproc s \<noteq> None \<and> pt_ok [] (mem s) (cur_dir s) \<and>
     (\<forall>k \<in> set xs. 0 \<le> k \<and> k < int MAX_TOTAL_PAGES \<and> is_dir (mem s) (cur_dir s) (PDX (page_va s k))) \<and>
     distinct (map (vpage \<circ> page_va s) xs))"

definition accessed :: "'z kproc_scheme \<Rightarrow> int \<Rightarrow> bool" where
  "accessed s k = (pte_of (mem s) (cur_dir s) (page_va s k) AND PTE_A \<noteq> 0)"

lemma scfifo_scan_run:
  assumes "resident xs s" "pad = [] \<or> (\<exists>k \<in> set xs. \<not> accessed s k)"
  shows "\<exists>m'. scfifo_scan temp (xs @ pad) s =
      Ok (temp @ takeWhile (accessed s) xs,
          case dropWhile (accessed s) xs of [] \<Rightarrow> None | k # ks \<Rightarrow> Some (k, ks @ pad)) (s\<lparr>mem := m'\<rparr>) \<and>
    pt_ok [] m' (cur_dir s) \<and> (\<forall>i. is_dir m' (cur_dir s) i = is_dir (mem s) (cur_dir s) i) \<and>
    (\<forall>b. pte_of m' (cur_dir s) b =
      (if vpage b \<in> (vpage \<circ> page_va s) ` set (takeWhile (accessed s) xs)
       then PTE_A_OFF (pte_of (mem s) (cur_dir s) b) else pte_of (mem s) (cur_dir s) b))"
  using assms
proof (induction xs arbitrary: temp s)
  case Nil
  then have "pad = []" by simp
  then show ?case using Nil by (intro exI [of _ "mem s"]) (simp add: resident_def)
next
  case (Cons q qs)
  let ?d = "cur_dir s" and ?va = "page_va s q"
  obtain c where c: "curproc s = Some c" using Cons.prems(1) by (auto simp: resident_def)
  have ok: "pt_ok [] (mem s) ?d" "is_dir (mem s) ?d (PDX ?va)" "0 \<le> q" "q < int MAX_TOTAL_PAGES"
    using Cons.prems(1) by (auto simp: resident_def)
  note w = walk_present [OF ok(1,2)]
  let ?p = "slot (table_of (mem s) ?d (PDX ?va)) (PTX ?va)" and ?e = "pte_of (mem s) ?d ?va"
  have pg: "page_of q s = Ok (ppages (ptable s ! c) ! nat q) s"
    using ok c by (simp add: page_of_def cur_run bnd_def)
  have dv: "pgdir (ptable s ! c) = ?d" "v_address (ppages (ptable s ! c) ! nat q) = ?va"
    using c by (simp_all add: cur_dir_def page_va_def)
  have step: "scfifo_scan temp ((q # qs) @ pad) s =
      (if ?e AND PTE_A \<noteq> 0 then thn (st ?p (PTE_A_OFF ?e)) (scfifo_scan (temp @ [q]) (qs @ pad)) s
       else Ok (temp, Some (q, qs @ pad)) s)"
    by (simp add: bnd_def cur_run [OF c] pg dv w)
  show ?case
  proof (cases "accessed s q")
    case False
    then show ?thesis using step ok(1) by (intro exI [of _ "mem s"]) (simp add: accessed_def)
  next
    case True
    let ?s = "s\<lparr>mem := st32 (mem s) ?p (PTE_A_OFF ?e)\<rparr>"
    have same: "cur_dir ?s = ?d" "page_va ?s = page_va s"
      by (simp_all add: cur_dir_def page_va_def fun_eq_iff)
    have pte: "pte_of (mem ?s) ?d b = (if vpage b = vpage ?va then PTE_A_OFF ?e else pte_of (mem s) ?d b)" for b
      using store_entry(2) [OF ok(1,2)] by simp
    have dir: "is_dir (mem ?s) ?d i = is_dir (mem s) ?d i" for i
      using is_dir_store [OF ok(1,2)] by simp
    have ne: "vpage (page_va s k) \<noteq> vpage ?va" if "k \<in> set qs" for k
      using Cons.prems(1) that by (auto simp: resident_def) (metis image_eqI)
    have acc: "accessed ?s k = accessed s k" if "k \<in> set qs" for k
      using pte [of "page_va s k"] ne [OF that] by (simp add: accessed_def same)
    have res: "resident qs ?s"
      using Cons.prems(1) dir store_entry(1) [OF ok(1,2)] by (simp add: resident_def same) 
    have "pad = [] \<or> (\<exists>k \<in> set qs. \<not> accessed ?s k)"
      using Cons.prems(2) True acc by auto
    from Cons.IH [OF res this, of "temp @ [q]"] obtain m' where m':
      "scfifo_scan (temp @ [q]) (qs @ pad) ?s = Ok (temp @ [q] @ takeWhile (accessed ?s) qs,
          case dropWhile (accessed ?s) qs of [] \<Rightarrow> None | k # ks \<Rightarrow> Some (k, ks @ pad)) (?s\<lparr>mem := m'\<rparr>)"
      "pt_ok [] m' ?d" "\<forall>i. is_dir m' ?d i = is_dir (mem ?s) ?d i"
      "\<forall>b. pte_of m' ?d b = (if vpage b \<in> (vpage \<circ> page_va s) ` set (takeWhile (accessed ?s) qs)
         then PTE_A_OFF (pte_of (mem ?s) ?d b) else pte_of (mem ?s) ?d b)"
      by (auto simp: same)
    have tk: "takeWhile (accessed ?s) qs = takeWhile (accessed s) qs" "dropWhile (accessed ?s) qs = dropWhile (accessed s) qs"
      using acc by (auto intro: takeWhile_cong dropWhile_cong)
    have "pte_of m' ?d b = (if vpage b \<in> (vpage \<circ> page_va s) ` set (takeWhile (accessed s) (q # qs))
       then PTE_A_OFF (pte_of (mem s) ?d b) else pte_of (mem s) ?d b)" for b
    proof (cases "vpage b = vpage ?va")
      case eq: True
      then have "vpage b \<notin> (vpage \<circ> page_va s) ` set (takeWhile (accessed s) qs)"
        using ne by (auto dest!: set_takeWhileD) blast
      then show ?thesis using m'(4) eq True pte [of b] tk pte_of_vpage [OF eq, of "mem s" ?d] by simp
    next
      case False
      then show ?thesis using m'(4) True pte [of b] tk by simp
    qed
    moreover have "scfifo_scan temp ((q # qs) @ pad) s = scfifo_scan (temp @ [q]) (qs @ pad) ?s"
      using step True by (simp add: accessed_def st_def)
    ultimately show ?thesis using m' True tk dir by (intro exI [of _ m']) simp
  qed
qed

section \<open>Second chance\<close>

text \<open>
  The policy on lists, oldest page first: the oldest page that was not accessed since the last scan is
  evicted, the accessed pages before it go to the back of the queue; when every page was accessed,
  the oldest is evicted.
\<close>

definition second_chance :: "('a \<Rightarrow> bool) \<Rightarrow> 'a list \<Rightarrow> 'a \<times> 'a list" where
  "second_chance acc xs = (case dropWhile acc xs of
     [] \<Rightarrow> (hd xs, tl xs) | k # ks \<Rightarrow> (k, ks @ takeWhile acc xs))"

definition padded :: "int list \<Rightarrow> int list" where
  "padded xs = xs @ replicate (MAX_PSYC_PAGES - length xs) (-1)"

lemma takeWhile_padded:
  "\<forall>k \<in> set ks. 0 \<le> k \<Longrightarrow> takeWhile (\<lambda>k. k \<noteq> -1) (ks @ replicate n (-1 :: int)) = ks"
  by (induction ks) auto

text \<open>C10: \<open>removeSCFIFO\<close> implements second-chance FIFO. On a queue that holds the resident pages \<open>xs\<close>
  of the current process, with their entries in its page table, and that is full or holds a page
  that was not accessed, the call returns the page that the policy evicts, leaves the queue that the
  policy leaves, and clears the accessed bit of exactly the pages it passed over.\<close>

theorem removeSCFIFO_second_chance:
  assumes "curproc s = Some c" "c < length (ptable s)" "RAMQueue (ptable s ! c) = padded xs" "xs \<noteq> []"
    "resident xs s" "length xs \<le> MAX_PSYC_PAGES" "length xs = MAX_PSYC_PAGES \<or> (\<exists>k \<in> set xs. \<not> accessed s k)"
  shows "\<exists>m'. removeSCFIFO s = Ok (fst (second_chance (accessed s) xs))
      (s\<lparr>mem := m', ptable := (ptable s)[c := (ptable s ! c)
         \<lparr>RAMQueue := padded (snd (second_chance (accessed s) xs))\<rparr>]\<rparr>) \<and>
    (\<forall>b. pte_of m' (cur_dir s) b =
      (if vpage b \<in> (vpage \<circ> page_va s) ` set (takeWhile (accessed s) xs)
       then PTE_A_OFF (pte_of (mem s) (cur_dir s) b) else pte_of (mem s) (cur_dir s) b))"
proof -
  let ?n = "MAX_PSYC_PAGES - length xs"
  have "replicate ?n (-1 :: int) = [] \<or> (\<exists>k \<in> set xs. \<not> accessed s k)" using assms(7) by auto
  from scfifo_scan_run [OF assms(5) this, of "[]"] obtain m' where m':
    "scfifo_scan [] (padded xs) s = Ok (takeWhile (accessed s) xs,
       case dropWhile (accessed s) xs of [] \<Rightarrow> None | k # ks \<Rightarrow> Some (k, ks @ replicate ?n (-1))) (s\<lparr>mem := m'\<rparr>)"
    "\<forall>b. pte_of m' (cur_dir s) b =
      (if vpage b \<in> (vpage \<circ> page_va s) ` set (takeWhile (accessed s) xs)
       then PTE_A_OFF (pte_of (mem s) (cur_dir s) b) else pte_of (mem s) (cur_dir s) b)"
    by (auto simp: padded_def)
  have cur': "cur (s\<lparr>mem := m'\<rparr>) = Ok (ptable s ! c) (s\<lparr>mem := m'\<rparr>)" for m' using assms(1) by (simp add: cur_run)
  have nn: "0 \<le> k" if "k \<in> set xs" for k using assms(5) that by (auto simp: resident_def)
  have "removeSCFIFO s = Ok (fst (second_chance (accessed s) xs)) (s\<lparr>mem := m', ptable := (ptable s)[c := (ptable s ! c)
         \<lparr>RAMQueue := padded (snd (second_chance (accessed s) xs))\<rparr>]\<rparr>)"
  proof (cases "dropWhile (accessed s) xs")
    case Nil
    then have "length xs = MAX_PSYC_PAGES" using assms(7) by (auto simp: dropWhile_eq_Nil_conv)
    moreover obtain x ys where "xs = x # ys" using assms(4) by (cases xs) auto
    ultimately show ?thesis using Nil m'(1) nn [of x]
      by (simp add: removeSCFIFO_def cur_run [OF assms(1)] bnd_def assms(1,3) second_chance_def updateQueue_def
        set_cur_run thn_def shift_queue_def padded_def MAX_PSYC_PAGES_def)
  next
    case (Cons k ks)
    let ?t = "takeWhile (accessed s) xs"
    have x: "xs = ?t @ k # ks" using Cons by (metis takeWhile_dropWhile_id)
    then have l: "length xs = Suc (length ?t + length ks)" by (metis add_Suc_right length_Cons length_append)
    have "\<forall>j \<in> set ks. 0 \<le> j" using nn x by (metis in_set_conv_decomp append.assoc append_Cons)
    then have b: "takeWhile (\<lambda>k. k \<noteq> -1) (ks @ replicate ?n (-1)) = ks" by (rule takeWhile_padded)
    have "take MAX_PSYC_PAGES (ks @ ?t @ replicate (MAX_PSYC_PAGES - length ?t) (-1)) = padded (ks @ ?t)"
      using l assms(6) by (simp add: padded_def take_replicate min_def)
    then show ?thesis using Cons m'(1) b
      by (simp add: removeSCFIFO_def cur_run [OF assms(1)] bnd_def assms(1,3) second_chance_def set_cur_run thn_def)
  qed
  with m'(2) show ?thesis by blast
qed

theorem removeSCFIFO_second_chance_witness:
  "\<exists>(s :: kproc) t. accessed s 0 \<and> \<not> accessed s 1 \<and> removeSCFIFO s = Ok 1 t \<and>
     RAMQueue (ptable t ! 0) = padded [0] \<and> \<not> accessed t 0"
proof -
  fix b :: kproc
  let ?pg = "\<lambda>a. empty_page\<lparr>v_address := a, is_in_RAM := 1, isAllocated := 1\<rparr>"
  define p where "p = empty_slot\<lparr>pgdir := 0x80001000, ppages := [?pg 0, ?pg 0x1000] @ replicate 30 empty_page, RAMQueue := padded [0, 1]\<rparr>"
  define s where "s = b\<lparr>mem := two_pages 0x3027 0x4007, ptable := [p], curproc := Some 0\<rparr>"
  have f: "curproc s = Some 0" "ptable s = [p]" "mem s = two_pages 0x3027 0x4007" by (simp_all add: s_def)
  have v: "page_va s 0 = 0" "page_va s 1 = 0x1000" "cur_dir s = 0x80001000" "RAMQueue p = padded [0, 1]"
    by (simp_all add: page_va_def cur_dir_def s_def p_def)
  have x: "PDX 0 = 0" "PDX 0x1000 = 0" "vpage 0 = 0" "vpage 0x1000 = 1"
    by (simp_all add: PDX_def PDXSHIFT_def vpage_def)
  have a: "accessed s 0" "\<not> accessed s 1"
    by (simp_all add: accessed_def v f two_pages_dir PTE_A_def)
  have r: "resident [0, 1] s"
    using two_pages_dir v x f by (simp add: resident_def MAX_TOTAL_PAGES_def)
  from removeSCFIFO_second_chance [OF f(1) _ _ _ r] a
  obtain m' where m': "removeSCFIFO s = Ok 1 (s\<lparr>mem := m', ptable := [p\<lparr>RAMQueue := padded [0]\<rparr>]\<rparr>)"
    "pte_of m' 0x80001000 0 = PTE_A_OFF 0x3027"
    by (auto simp: second_chance_def v x f MAX_PSYC_PAGES_def two_pages_dir)
  let ?t = "s\<lparr>mem := m', ptable := [p\<lparr>RAMQueue := padded [0]\<rparr>]\<rparr>"
  have "\<not> accessed ?t 0" using m'(2) v(1) f by (simp add: accessed_def page_va_def cur_dir_def p_def PTE_A_OFF_def PTE_A_def)
  with m'(1) a show ?thesis by (intro exI [of _ s] exI [of _ ?t]) simp
qed

section \<open>Arrays that end in -1 are bounded queues\<close>

definition arr_ok :: "int list \<Rightarrow> bool" where
  "arr_ok q = (\<exists>xs. q = padded (map int xs) \<and> length xs \<le> MAX_PSYC_PAGES)"

definition arr_items :: "int list \<Rightarrow> nat list" where
  "arr_items q = map nat (takeWhile (\<lambda>k. k \<noteq> -1) q)"

definition arr_put :: "nat \<Rightarrow> int list \<Rightarrow> int list" where
  "arr_put x q = (case find_index (\<lambda>k. k = -1) q of Some i \<Rightarrow> q[i := int x] | None \<Rightarrow> q)"

definition arr_first :: "int list \<Rightarrow> nat" where
  "arr_first q = nat (q ! 0)"

lemma arr_items_padded [simp]: "arr_items (padded (map int xs)) = xs"
proof -
  have "takeWhile (\<lambda>k. k \<noteq> -1) (padded (map int xs)) = map int xs"
    unfolding padded_def by (rule takeWhile_padded) auto
  then show ?thesis by (simp add: arr_items_def comp_def)
qed

lemma arr_put_padded:
  assumes "length xs < MAX_PSYC_PAGES"
  shows "find_index (\<lambda>k. k = -1) (padded (map int xs)) = Some (length xs)"
    and "arr_put x (padded (map int xs)) = padded (map int (xs @ [x]))"
proof -
  obtain n where n: "MAX_PSYC_PAGES - length xs = Suc n" using assms by (metis Suc_diff_Suc)
  have f: "find_index (\<lambda>k. k = -1) (map int xs @ (-1) # ys) = Some (length xs)" for ys
    by (induction xs) auto
  then show i: "find_index (\<lambda>k. k = -1) (padded (map int xs)) = Some (length xs)"
    by (simp add: padded_def n)
  have "MAX_PSYC_PAGES - Suc (length xs) = n" using n by simp
  then show "arr_put x (padded (map int xs)) = padded (map int (xs @ [x]))"
    unfolding arr_put_def i by (simp add: padded_def n list_update_append)
qed

lemma arr_pop_padded:
  assumes "length (x # xs) \<le> MAX_PSYC_PAGES"
  shows "shift_queue 0 (padded (map int (x # xs))) = padded (map int xs)"
proof -
  have "MAX_PSYC_PAGES - length xs = Suc (MAX_PSYC_PAGES - length (x # xs))" using assms by simp
  then show ?thesis
    by (simp add: shift_queue_def padded_def MAX_PSYC_PAGES_def replicate_append_same)
qed

interpretation aq: bounded_queue MAX_PSYC_PAGES arr_ok arr_items arr_put arr_first "shift_queue 0"
proof
  fix q :: "int list" and x :: nat
  assume "arr_ok q"
  then obtain xs where xs: "q = padded (map int xs)" "length xs \<le> MAX_PSYC_PAGES" by (auto simp: arr_ok_def)
  have i: "arr_items q = xs" unfolding xs(1) by (rule arr_items_padded)
  show "length (arr_items q) \<le> MAX_PSYC_PAGES" using xs i by simp
  { assume "length (arr_items q) < MAX_PSYC_PAGES"
    then have *: "arr_put x q = padded (map int (xs @ [x]))" "length (xs @ [x]) \<le> MAX_PSYC_PAGES"
      using xs arr_put_padded(2) [of xs x] by simp_all
    then show "arr_ok (arr_put x q)" unfolding arr_ok_def by blast
    from * show "arr_items (arr_put x q) = arr_items q @ [x]" using xs by (simp only: arr_items_padded) }
  { assume "arr_items q \<noteq> []"
    then obtain y ys where y: "xs = y # ys" using i by (cases xs) auto
    then have *: "shift_queue 0 q = padded (map int ys)" using arr_pop_padded xs by simp
    then show "arr_ok (shift_queue 0 q)" unfolding arr_ok_def using xs y by auto
    from * show "arr_items (shift_queue 0 q) = tl (arr_items q)" unfolding i y by simp
    show "arr_first q = hd (arr_items q)" unfolding i using xs y by (simp add: arr_first_def padded_def) }
qed

section \<open>Offsets in the swap file\<close>

text \<open>The offsets of the pages that are swapped out, and what keeps them apart.\<close>

definition used_offsets :: "proc \<Rightarrow> int set" where
  "used_offsets p = file_offset ` {x \<in> set (ppages p). isAllocated x \<noteq> 0 \<and> is_in_RAM x = 0}"

definition free_offsets :: "proc \<Rightarrow> int set" where
  "free_offsets p = int ` set (arr_items (offsetQueue p))"

definition swap_ok :: "proc \<Rightarrow> bool" where
  "swap_ok p = (arr_ok (offsetQueue p) \<and> distinct (arr_items (offsetQueue p)) \<and>
     free_offsets p \<inter> used_offsets p = {} \<and> uint (fileOffset p) mod 4096 = 0 \<and>
     (\<forall>k \<in> free_offsets p \<union> used_offsets p. 0 \<le> k \<and> k mod 4096 = 0 \<and> k + 4096 \<le> uint (fileOffset p)))"

lemma offsets_update [simp]:
  "used_offsets (p\<lparr>fileOffset := w\<rparr>) = used_offsets p" "free_offsets (p\<lparr>fileOffset := w\<rparr>) = free_offsets p"
  "used_offsets (p\<lparr>offsetQueue := q\<rparr>) = used_offsets p"
  "free_offsets (p\<lparr>offsetQueue := padded (map int xs)\<rparr>) = int ` set xs"
  by (simp_all add: used_offsets_def free_offsets_def)

lemma swap_ok_bounds: "swap_ok p \<Longrightarrow> uint (fileOffset p) \<notin> free_offsets p \<union> used_offsets p"
proof
  assume "swap_ok p" "uint (fileOffset p) \<in> free_offsets p \<union> used_offsets p"
  then have "uint (fileOffset p) + 4096 \<le> uint (fileOffset p)" unfolding swap_ok_def by blast
  then show False by simp
qed

lemma swap_ok_grow:
  assumes "swap_ok p" "uint w = uint (fileOffset p) + 4096"
  shows "swap_ok (p\<lparr>fileOffset := w\<rparr>)"
proof -
  have "uint w mod 4096 = 0" using assms by (simp add: swap_ok_def)
  moreover have "k + 4096 \<le> uint w" if "k + 4096 \<le> uint (fileOffset p)" for k using assms(2) that by simp
  ultimately show ?thesis using assms(1) by (simp add: swap_ok_def)
qed

lemma swap_ok_take:
  assumes "swap_ok p" "offsetQueue p = padded (map int (x # ys))" "length (x # ys) \<le> MAX_PSYC_PAGES"
  shows "swap_ok (p\<lparr>offsetQueue := padded (map int ys)\<rparr>)" "int x \<in> free_offsets p" "int x \<notin> int ` set ys"
proof -
  have i: "arr_items (offsetQueue p) = x # ys" unfolding assms(2) by (rule arr_items_padded)
  then have f: "free_offsets p = int ` set (x # ys)" by (simp add: free_offsets_def)
  have d: "distinct (x # ys)" using assms(1) i by (simp add: swap_ok_def)
  show "int x \<in> free_offsets p" "int x \<notin> int ` set ys" using f d by auto
  have "arr_ok (padded (map int ys))" using assms(3) by (auto simp: arr_ok_def)
  then show "swap_ok (p\<lparr>offsetQueue := padded (map int ys)\<rparr>)"
    using assms(1) f d unfolding swap_ok_def by auto
qed



end
