(* ===== verification/Vm.thy ===== *)
theory Vm
  imports Paging
begin

text \<open>
  Address spaces (the rest of \<open>vm.c\<close>): building and freeing page tables, growing and shrinking a
  process, copy-on-write copies, swapping pages out and in, and the page fault handlers.
\<close>

section \<open>Shrinking and freeing\<close>

definition dealloc_at :: "u32 \<Rightarrow> bool \<Rightarrow> u32 \<Rightarrow> u32 \<Rightarrow> ('z kproc_scheme, unit) kern" where
  "dealloc_at pd flag a pte =
     bnd (ld pte) (\<lambda>e.
     if e AND PTE_P \<noteq> 0 then
       (if PTE_ADDR e = 0 then panic ''kfree''
        else
          bnd cur (\<lambda>p.
          thn (whenk (pid p > DEF_PROCS \<and> flag) (deallocatePage a)) (
          thn (kfree (P2V (PTE_ADDR e)))
          (st pte 0))))
     else
       bnd cur (\<lambda>p.
       whenk (pid p > DEF_PROCS \<and> e AND PTE_PG \<noteq> 0)
         (if PTE_ADDR e = 0 then panic ''kfree''
          else thn (whenk (pid p > DEF_PROCS \<and> flag) (deallocatePage a)) (st pte 0))))"

text \<open>
  The loop of \<open>deallocuvm\<close>. Its address only grows as long as it does not wrap around; a
  wrap-around would start the loop over.
\<close>

function dealloc_loop :: "u32 \<Rightarrow> u32 \<Rightarrow> bool \<Rightarrow> u32 \<Rightarrow> ('z kproc_scheme, unit) kern" where
  "dealloc_loop pd oldsz flag a =
     (if a \<ge> oldsz then ret ()
      else
        bnd (walkpgdir pd a False) (\<lambda>pte.
        let next = (if pte = 0 then PGADDR (PDX a + 1) 0 0 else a + PGSIZE) in
        thn (if pte = 0 then ret () else dealloc_at pd flag a pte)
        (if a < next then dealloc_loop pd oldsz flag next else diverge)))"
  by pat_completeness auto
termination
  by (relation "measure (\<lambda>(d, n, f, a). unat n - unat a)") (auto simp: word_less_nat_alt word_le_nat_alt)

declare dealloc_loop.simps [simp del]

definition deallocuvm :: "u32 \<Rightarrow> u32 \<Rightarrow> u32 \<Rightarrow> bool \<Rightarrow> ('z kproc_scheme, u32) kern" where
  "deallocuvm pd oldsz newsz flag =
     (if newsz \<ge> oldsz then ret oldsz
      else thn (dealloc_loop pd oldsz flag (PGROUNDUP newsz)) (ret newsz))"

definition freevm :: "u32 \<Rightarrow> ('z kproc_scheme, unit) kern" where
  "freevm pd =
     (if pd = 0 then panic ''freevm: no pgdir''
      else
        thn (deallocuvm pd KERNBASE 0 False) (
        thn (foreach [0..<NPDENTRIES] (\<lambda>i.
          bnd (ld (pd + of_nat (4 * i))) (\<lambda>pde.
          whenk (pde AND PTE_P \<noteq> 0) (kfree (P2V (PTE_ADDR pde))))))
        (kfree pd)))"

section \<open>Kernel mappings\<close>

definition kmap :: "u32 \<Rightarrow> (u32 \<times> u32 \<times> u32 \<times> u32) list" where
  "kmap dat = [(KERNBASE, 0, EXTMEM, PTE_W), (KERNLINK, V2P KERNLINK, V2P dat, 0),
     (dat, V2P dat, PHYSTOP, PTE_W), (DEVSPACE, DEVSPACE, 0, PTE_W)]"

fun map_kernel :: "u32 \<Rightarrow> (u32 \<times> u32 \<times> u32 \<times> u32) list \<Rightarrow> ('z kproc_scheme, u32) kern" where
  "map_kernel pd [] = ret pd"
| "map_kernel pd ((virt, start, stop, perm) # ks) =
     bnd (mappages pd virt (stop - start) start perm) (\<lambda>r.
     if r < 0 then thn (freevm pd) (ret 0) else map_kernel pd ks)"

definition setupkvm :: "('z kvm_scheme, u32) kern" where
  "setupkvm =
     bnd kalloc (\<lambda>d.
     if d = 0 then ret 0
     else
       thn (modify (\<lambda>s. s\<lparr>mem := memset (mem s) d 0 PGSIZE\<rparr>)) (
       if P2V PHYSTOP > DEVSPACE then panic ''PHYSTOP too high''
       else bnd (gets kdata) (\<lambda>dat. map_kernel d (kmap dat))))"

definition kvmalloc :: "('z kvm_scheme, unit) kern" where
  "kvmalloc = bnd setupkvm (\<lambda>d. modify (\<lambda>s. s\<lparr>kpgdir := d\<rparr>))"

section \<open>Loading a program segment\<close>

text \<open>\<open>i\<close> runs through the pages of the segment; a wrap-around of \<open>i\<close> would start the loop over.\<close>

function load_loop :: "u32 \<Rightarrow> u32 \<Rightarrow> nat \<Rightarrow> u32 \<Rightarrow> u32 \<Rightarrow> u32 \<Rightarrow> ('z kvm_scheme, int) kern" where
  "load_loop pd addr ip off n i =
     (if i \<ge> n then ret 0
      else
        bnd (walkpgdir pd (addr + i) False) (\<lambda>pte.
        if pte = 0 then panic ''loaduvm: address should exist''
        else
          bnd (ld pte) (\<lambda>e.
          let k = (if n - i < PGSIZE then n - i else PGSIZE) in
          bnd (readi ip (off + i) k) (\<lambda>(r, bs).
          thn (modify (\<lambda>s. s\<lparr>mem := store_bytes (mem s) (P2V (PTE_ADDR e)) bs\<rparr>)) (
          if of_int r \<noteq> k then ret (-1)
          else if i < i + PGSIZE then load_loop pd addr ip off n (i + PGSIZE)
          else diverge)))))"
  by pat_completeness auto
termination
  by (relation "measure (\<lambda>(d, a, ip, f, n, i). unat n - unat i)") (auto simp: word_less_nat_alt word_le_nat_alt)

declare load_loop.simps [simp del]

definition loaduvm :: "u32 \<Rightarrow> u32 \<Rightarrow> nat \<Rightarrow> u32 \<Rightarrow> u32 \<Rightarrow> ('z kvm_scheme, int) kern" where
  "loaduvm pd addr ip off n =
     (if unat addr mod 4096 \<noteq> 0 then panic ''loaduvm: addr must be page aligned''
      else load_loop pd addr ip off n 0)"

section \<open>Swapping out\<close>

definition selectPage :: "('z kproc_scheme, u32) kern" where
  "selectPage = bnd removeSCFIFO (\<lambda>k. bnd (page_of k) (\<lambda>x. ret (v_address x)))"

text \<open>
  The kernel reads user memory through the page table of the running process, without regard to
  \<open>PTE_U\<close>. An access to an absent page faults; the fault handler either brings the page in or leaves
  the entry as it is, and then the access faults again, for ever.
\<close>

definition swap_bytes :: "u32 \<Rightarrow> nat \<Rightarrow> ('z kproc_scheme, byte list) kern" where
  "swap_bytes va n =
     bnd cur (\<lambda>p.
     bnd (gets mem) (\<lambda>m.
     let as = map (\<lambda>k. va + of_nat k) [0..<n]; d = pgdir p in
     case find (\<lambda>a. \<not> present m d a) as of
       None \<Rightarrow> ret (map (\<lambda>a. m (translate m d a)) as)
     | Some a \<Rightarrow>
         bnd (walk_entry d a) (\<lambda>pte.
         bnd (ld pte) (\<lambda>e.
         if e AND PTE_PG \<noteq> 0 then panic ''page fault while swapping'' else diverge))))"

definition swapToFile :: "u32 \<Rightarrow> ('z kfile_scheme, u32) kern" where
  "swapToFile pd = with_proc (\<lambda>c.
     bnd selectPage (\<lambda>addr.
     bnd getFreeFileOffset (\<lambda>off.
     bnd (swap_bytes addr 4096) (\<lambda>bs.
     thn (writeToSwapFile c bs (of_int off) PGSIZE) (
     bnd cur (\<lambda>p.
     case find_index (\<lambda>x. v_address x = addr) (ppages p) of
       None \<Rightarrow> panic ''pages index''
     | Some i \<Rightarrow>
         thn (set_page i (\<lambda>x. x\<lparr>file_offset := off, is_in_RAM := 0\<rparr>)) (
         thn (set_cur (\<lambda>p. p\<lparr>totalNumberOfPagedOut := totalNumberOfPagedOut p + 1,
           numberOfPagedOut := numberOfPagedOut p + 1\<rparr>)) (
         bnd (walk_entry pd addr) (\<lambda>pte.
         bnd (ld pte) (\<lambda>e.
         thn (st pte (PTE_PG_ON e)) (
         let v = P2V (PTE_ADDR (PTE_PG_ON e)) in
         thn (kfree v)
         (ret v))))))))))))"

section \<open>Growing\<close>

definition register_page :: "u32 \<Rightarrow> u32 \<Rightarrow> ('z kproc_scheme, unit) kern" where
  "register_page pd a =
     bnd cur (\<lambda>p.
     case find_index (\<lambda>x. isAllocated x \<noteq> 1) (ppages p) of
       None \<Rightarrow> panic ''pages index''
     | Some i \<Rightarrow>
         thn (set_page i (\<lambda>x. x\<lparr>isAllocated := 1, v_address := a, is_in_RAM := 1, file_offset := -1\<rparr>)) (
         thn (insert_page (int i)) (
         thn (set_cur (\<lambda>p. p\<lparr>numberOfAllocatedPages := numberOfAllocatedPages p + 1\<rparr>)) (
         bnd (walk_entry pd a) (\<lambda>pte.
         bnd (ld pte) (\<lambda>e.
         st pte (PTE_PG_OFF (PTE_P_ON e))))))))"

function alloc_loop :: "u32 \<Rightarrow> u32 \<Rightarrow> u32 \<Rightarrow> u32 \<Rightarrow> ('z kfile_scheme, u32) kern" where
  "alloc_loop pd oldsz newsz a =
     (if a \<ge> newsz then ret newsz
      else
        bnd cur (\<lambda>p.
        thn (whenk (pid p > DEF_PROCS \<and> a \<ge> PGSIZE * of_nat MAX_PSYC_PAGES) (thn (swapToFile pd) (ret ()))) (
        bnd kalloc (\<lambda>m.
        if m = 0 then
          thn (cprintf (str ''allocuvm out of memory'' @ [10]) []) (
          thn (deallocuvm pd newsz oldsz False)
          (ret 0))
        else
          thn (modify (\<lambda>s. s\<lparr>mem := memset (mem s) m 0 PGSIZE\<rparr>)) (
          bnd (mappages pd a PGSIZE (V2P m) (PTE_W OR PTE_U)) (\<lambda>r.
          if r < 0 then
            thn (cprintf (str ''allocuvm out of memory (2)'' @ [10]) []) (
            thn (deallocuvm pd newsz oldsz False) (
            thn (kfree m)
            (ret 0)))
          else
            thn (whenk (pid p > DEF_PROCS) (register_page pd a))
            (if a < a + PGSIZE then alloc_loop pd oldsz newsz (a + PGSIZE) else diverge)))))))"
  by pat_completeness auto
termination
  by (relation "measure (\<lambda>(d, o', n, a). unat n - unat a)") (auto simp: word_less_nat_alt word_le_nat_alt)

declare alloc_loop.simps [simp del]

definition allocuvm :: "u32 \<Rightarrow> u32 \<Rightarrow> u32 \<Rightarrow> ('z kfile_scheme, u32) kern" where
  "allocuvm pd oldsz newsz =
     (if newsz \<ge> KERNBASE then ret 0
      else if newsz < oldsz then ret oldsz
      else alloc_loop pd oldsz newsz (PGROUNDUP oldsz))"

section \<open>Copy on write\<close>

definition cow_flags :: "u32 \<Rightarrow> u32" where
  "cow_flags e = (if e AND PTE_W \<noteq> 0 then (e OR PTE_C) AND NOT PTE_W else e)"

function copy_loop :: "u32 \<Rightarrow> u32 \<Rightarrow> u32 \<Rightarrow> u32 \<Rightarrow> ('z kproc_scheme, u32) kern" where
  "copy_loop old d n i =
     (if i \<ge> n then ret d
      else
        let go = (if i < i + PGSIZE then copy_loop old d n (i + PGSIZE) else diverge) in
        bnd (walkpgdir old i False) (\<lambda>pte.
        if pte = 0 then panic ''copyuvm: pte should exist''
        else
          bnd (ld pte) (\<lambda>e.
          if e AND PTE_P = 0 then
            (if e AND PTE_PG = 0 then panic ''copyuvm: page not present'' else go)
          else
            thn (whenk (e AND PTE_W \<noteq> 0) (st pte (cow_flags e))) (
            bnd (mappages d i PGSIZE (PTE_ADDR e) (PTE_FLAGS (cow_flags e))) (\<lambda>r.
            if r < 0 then thn (freevm d) (ret 0)
            else
              thn (inc_ref_count (PTE_ADDR e)) (
              bnd cur (\<lambda>_. go)))))))"
  by pat_completeness auto
termination
  by (relation "measure (\<lambda>(p, d, n, i). unat n - unat i)") (auto simp: word_less_nat_alt word_le_nat_alt)

declare copy_loop.simps [simp del]

definition copyuvm :: "u32 \<Rightarrow> u32 \<Rightarrow> ('z kvm_scheme, u32) kern" where
  "copyuvm old n = bnd setupkvm (\<lambda>d. if d = 0 then ret 0 else copy_loop old d n 0)"

section \<open>Page faults\<close>

text \<open>
  A write to a present page that is not writable. The message for an illegal address reads the
  entry, also when there is none. \<open>P2V\<close> of a kernel address wraps around to its physical address.
\<close>

definition handle_page_fault :: "u32 \<Rightarrow> ('z kcons_scheme, int) kern" where
  "handle_page_fault va =
     bnd (gets curproc) (\<lambda>c.
     if c = None then panic ''handle_page_fault''
     else
       thn (set_cur (\<lambda>p. p\<lparr>numberOfPageFaults := numberOfPageFaults p + 1\<rparr>)) (
       bnd cur (\<lambda>p.
       bnd (walkpgdir (pgdir p) va False) (\<lambda>pte.
       if va \<ge> KERNBASE then
         thn (cprintf (str ''in kernbase'') []) (
         thn (set_cur (\<lambda>p. p\<lparr>killed := 1\<rparr>))
         (ret (-1)))
       else if pte = 0 then panic ''null pte''
       else
         bnd (ld pte) (\<lambda>e.
         if e AND PTE_P = 0 \<or> e AND PTE_U = 0 then
           thn (cprintf (str ''Illegal virtual address. kill proc with pid %d. va = 0x%x. pte = %x. present = %x, user = %x '' @ [10])
             [AInt (of_int (pid p)), AInt va, AInt pte, AInt (e AND PTE_P), AInt (e AND PTE_U)]) (
           thn (set_cur (\<lambda>p. p\<lparr>killed := 1\<rparr>))
           (ret (-1)))
         else if e AND PTE_W \<noteq> 0 then panic ''The page is already writeable''
         else
           let pa = PTE_ADDR e in
           bnd (get_ref_count pa) (\<lambda>refs.
           if refs > 1 then
             bnd kalloc (\<lambda>m.
             if m = 0 then
               thn (cprintf (str ''out of memory, kill proc with pid %d'' @ [10]) [AInt (of_int (pid p))]) (
               thn (set_cur (\<lambda>p. p\<lparr>killed := 1\<rparr>))
               (ret (-1)))
             else
               thn (modify (\<lambda>s. s\<lparr>mem := memmove (mem s) m (P2V pa) PGSIZE\<rparr>)) (
               thn (st pte (V2P m OR PTE_P OR PTE_U OR PTE_W)) (
               thn (dec_ref_count pa) (
               thn (inc_ref_count (P2V m))
               (ret 1)))))
           else if refs = 1 \<and> e AND PTE_C \<noteq> 0 then thn (st pte (e OR PTE_W)) (ret 1)
           else panic ''wrong ref count''))))))"

definition get_page :: "u32 \<Rightarrow> ('z kfile_scheme, int) kern" where
  "get_page va = with_proc (\<lambda>c.
     let page_va = PGROUNDDOWN va in
     bnd cur (\<lambda>p.
     thn (whenk (length (filter (\<lambda>x. isAllocated x = 1 \<and> is_in_RAM x \<noteq> 0) (ppages p)) = MAX_PSYC_PAGES)
       (thn (swapToFile (pgdir p)) (ret ()))) (
     bnd kalloc (\<lambda>m.
     if m = 0 then thn (cprintf (str ''kalloc failed (Page Fault case'' @ [10]) []) (ret (-1))
     else
       thn (modify (\<lambda>s. s\<lparr>mem := memset (mem s) m 0 PGSIZE\<rparr>)) (
       bnd cur (\<lambda>p.
       case find_index (\<lambda>x. v_address x = page_va) (ppages p) of
         None \<Rightarrow> panic ''can not find page''
       | Some i \<Rightarrow>
           let off = file_offset (ppages p ! i) in
           bnd (readFromSwapFile c (of_int off) PGSIZE) (\<lambda>(r, bs).
           thn (modify (\<lambda>s. s\<lparr>mem := store_bytes (mem s) m bs\<rparr>)) (
           bnd (walk_entry (pgdir p) va) (\<lambda>pte.
           bnd (ld pte) (\<lambda>e.
           thn (st pte (PTE_PG_ON (PTE_P_OFF e))) (
           thn (mappages (pgdir p) page_va PGSIZE (V2P m) (PTE_W OR PTE_U)) (
           bnd (ld pte) (\<lambda>e'.
           thn (st pte (PTE_PG_OFF (PTE_P_ON e'))) (
           thn (set_page i (\<lambda>x. x\<lparr>is_in_RAM := 1\<rparr>)) (
           thn (insertOffsetQueue off) (
           thn (set_page i (\<lambda>x. x\<lparr>file_offset := -1\<rparr>)) (
           thn (insert_page (int i)) (
           thn (set_cur (\<lambda>p. p\<lparr>numberOfPagedOut := numberOfPagedOut p - 1\<rparr>))
           (ret 0)))))))))))))))))))"

definition is_PG_on :: "u32 \<Rightarrow> ('z kproc_scheme, bool) kern" where
  "is_PG_on va = bnd cur (\<lambda>p. bnd (walk_entry (pgdir p) va) (\<lambda>pte. bnd (ld pte) (\<lambda>e. ret (e AND PTE_PG \<noteq> 0))))"

section \<open>Copy on write keeps address spaces apart\<close>

text \<open>The page entry of a copy-on-write page, and the state in which its last copy is made.\<close>

definition cow_entry :: "u32 \<Rightarrow> bool" where
  "cow_entry e = (e AND PTE_P \<noteq> 0 \<and> e AND PTE_U \<noteq> 0 \<and> e AND PTE_W = 0)"

definition fault_counted :: "nat \<Rightarrow> 'z kproc_scheme \<Rightarrow> 'z kproc_scheme" where
  "fault_counted c s = s\<lparr>ptable := (ptable s)[c := (ptable s ! c)
     \<lparr>numberOfPageFaults := numberOfPageFaults (ptable s ! c) + 1\<rparr>]\<rparr>"

definition copied_page :: "nat \<Rightarrow> u32 \<Rightarrow> u32 \<Rightarrow> u32 \<Rightarrow> 'z kproc_scheme \<Rightarrow> 'z kproc_scheme" where
  "copied_page c x pa pte s = set_refs (V2P x) (\<lambda>n. n + 1) (set_refs pa (\<lambda>n. n - 1)
     ((popped x (fault_counted c s))\<lparr>mem := st32 (memmove (mem s) x (P2V pa) PGSIZE) pte (V2P x OR PTE_P OR PTE_U OR PTE_W)\<rparr>))"

lemma fault_counted_simps [simp]:
  "mem (fault_counted c s) = mem s" "held (fault_counted c s) = held s" "freelist (fault_counted c s) = freelist s"
  "kend (fault_counted c s) = kend s" "page_refs_num (fault_counted c s) = page_refs_num s"
  "curproc (fault_counted c s) = curproc s" "use_lock (fault_counted c s) = use_lock s"
  "amount_of_free_pages (fault_counted c s) = amount_of_free_pages s"
  "c < length (ptable s) \<Longrightarrow> pgdir (ptable (fault_counted c s) ! c) = pgdir (ptable s ! c)"
  by (simp_all add: fault_counted_def)

lemma cow_fault_run:
  fixes s :: "'a kcons_scheme"
  assumes c: "curproc s = Some c" "c < length (ptable s)" and d: "pgdir (ptable s ! c) = d"
    and st: "pt_state (x # xs) d s" "LKmem \<notin> held s" "is_dir (mem s) d (PDX va)" "va < KERNBASE"
    and e: "e = pte_of (mem s) d va" "cow_entry e" "counted s (PTE_ADDR e)" "counted s (V2P x)"
      "page_refs_num s (pgidx (PTE_ADDR e)) > 1"
  shows "handle_page_fault va s = Ok 1 (copied_page c x (PTE_ADDR e) (slot (table_of (mem s) d (PDX va)) (PTX va)) s)"
proof -
  let ?pte = "slot (table_of (mem s) d (PDX va)) (PTX va)" and ?pa = "PTE_ADDR e" and ?s = "fault_counted c s"
  have k: "kmem_inv (x # xs) s" "kmem_ready s" "pt_ok (x # xs) (mem s) d" using st(1) by (auto simp: pt_state_def)
  have x: "freelist s = x" "x \<noteq> 0" using kmem_inv_Cons [OF k(1)] by auto
  have z: "?pte \<noteq> 0" using k(3) st(3) by (intro slot_nonzero page_aligned_table PTX_bound) (auto simp: pt_ok_def)
  have w: "walkpgdir d va False ?s = Ok ?pte ?s" using walk_slot [of ?s d va] st(3) by simp
  have l: "ld ?pte ?s = Ok e ?s" using st(3) e(1) by (simp add: ld_def pte_of_def is_dir_def)
  have f: "set_cur (\<lambda>p. p\<lparr>numberOfPageFaults := numberOfPageFaults p + 1\<rparr>) s = Ok () ?s"
    using c by (simp add: set_cur_run fault_counted_def)
  have u: "cur ?s = Ok (ptable ?s ! c) ?s" using c by (simp add: cur_run)
  have al: "kalloc ?s = Ok x (popped x ?s)"
    using kalloc_run [of ?s] k(2) x by (simp add: kmem_ready_def)
  have g: "get_ref_count ?pa ?s = Ok (page_refs_num s (pgidx ?pa)) ?s"
    using ref_count_run(1) [of ?s ?pa] e(3) st(2) by (simp add: counted_def)
  let ?t = "(popped x ?s)\<lparr>mem := st32 (memmove (mem s) x (P2V ?pa) PGSIZE) ?pte (V2P x OR PTE_P OR PTE_U OR PTE_W)\<rparr>"
  have m: "mem (popped x ?s) = mem s" "kend (popped x ?s) = kend s" by (simp_all add: popped_def)
  have dc: "dec_ref_count ?pa ?t = Ok () (set_refs ?pa (\<lambda>n. n - 1) ?t)"
    using ref_count_run(3) [of ?t ?pa] e(3) st(2) by (simp add: counted_def m)
  have ic: "inc_ref_count (P2V x) (set_refs ?pa (\<lambda>n. n - 1) ?t) = Ok () (copied_page c x ?pa ?pte s)"
    using ref_count_run(2) [of "set_refs ?pa (\<lambda>n. n - 1) ?t" "V2P x"] e(4) st(2)
    by (simp add: counted_def m copied_page_def P2V_eq_V2P)
  have nk: "\<not> KERNBASE \<le> va" using st(4) by simp
  show ?thesis
    using c z w l f u g al dc ic d e(2,5) nk x(2)
    by (simp add: handle_page_fault_def bnd_def thn_def Let_def cow_entry_def st_def m)
qed

lemma copied_page_refs:
  assumes "page_aligned w" "page_aligned x" "page_aligned (P2V pa)" "P2V pa \<noteq> x"
  shows "refs_of (copied_page c x pa pte s) w =
    (if w = x then 2 else if w = P2V pa then refs_of s (P2V pa) - 1 else refs_of s w)"
proof -
  have a: "unat w mod 4096 = 0" "unat x mod 4096 = 0" "unat (P2V pa) mod 4096 = 0"
    using assms(1-3) by (simp_all add: page_aligned_def)
  have ix: "pgidx (V2P w) = pgidx (V2P x) \<longleftrightarrow> w = x" "pgidx (V2P w) = pgidx pa \<longleftrightarrow> w = P2V pa"
    "pgidx (V2P x) \<noteq> pgidx pa" "pgidx pa \<noteq> pgidx (V2P x)"
    using a assms(4) pgidx_inj [of w x] pgidx_inj [of w "P2V pa"] pgidx_inj [of x "P2V pa"] by auto
  show ?thesis
    by (simp add: copied_page_def refs_of_def popped_def set_refs_def fault_counted_def ix)
qed

lemma copied_page_inv:
  assumes k: "kmem_inv (x # xs) s" and x: "page_aligned x" "page_aligned (P2V pa)" and r: "refs_of s (P2V pa) > 1"
    and ld: "\<And>y. y \<in> set xs \<Longrightarrow> ld32 (mem (copied_page c x pa pte s)) y = ld32 (mem s) y"
  shows "kmem_inv xs (copied_page c x pa pte s)"
proof -
  let ?t = "copied_page c x pa pte s"
  note xs = kmem_inv_Cons [OF k]
  have ne: "P2V pa \<noteq> x" using r xs(3) by auto
  have "kmem_inv xs (popped x s)" using popped_inv [OF k] .
  then have "fl (mem s) (ld32 (mem s) x) xs" "distinct xs" "unat (amount_of_free_pages s - 1) = length xs"
    "\<forall>y \<in> set xs. page_ok s y \<and> refs_of s y = 0"
    using k by (auto simp: kmem_inv_def popped_def)
  moreover have "refs_of ?t y = 0" if "y \<in> set xs" for y
    using that xs(5) calculation(4) r free_page_slot [OF k, of y]
    by (subst copied_page_refs [OF _ x ne]) auto
  moreover have "fl (mem ?t) p xs = fl (mem s) p xs" for p by (rule fl_cong) (rule ld)
  moreover have "page_ok ?t y = page_ok s y" for y
    by (simp add: page_ok_def copied_page_def popped_def)
  moreover have "freelist ?t = ld32 (mem s) x" "amount_of_free_pages ?t = amount_of_free_pages s - 1"
    by (simp_all add: copied_page_def popped_def)
  ultimately show ?thesis by (simp add: kmem_inv_def)
qed

lemma counted_page_end:
  assumes "counted s (PTE_ADDR e)"
  shows "unat (P2V (PTE_ADDR e)) + 4096 < 2 ^ 32"
proof (rule page_end [OF page_aligned_PTE_ADDR])
  show "V2P (P2V (PTE_ADDR e)) < PHYSTOP" using assms by (simp add: counted_def)
  have "unat (PTE_ADDR e) < 2 ^ 31" using assms by (simp add: counted_def word_less_nat_alt PHYSTOP_def)
  then show "KERNBASE \<le> P2V (PTE_ADDR e)" by (simp add: word_le_nat_alt P2V_def KERNBASE_def unat_plus_if')
qed

text \<open>C2: copy on write. When a process writes to a present user page that is not writable and whose
  frame has more than one reference, and there is a free page, the handler returns 1 and gives the
  process a copy of its own: the entry maps the new page writable, the new page has the contents
  of the shared one, every other entry of the address space is as before, the shared frame has one
  reference less, and the page table and the free list stay well formed. The new page, which
  \<open>kalloc\<close> counts once, ends with two references although only this process maps it.\<close>

theorem cow_fault_copies:
  fixes s :: "'a kcons_scheme"
  assumes "curproc s = Some c" "c < length (ptable s)" "pgdir (ptable s ! c) = d"
    "pt_state (x # xs) d s" "LKmem \<notin> held s" "KERNBASE \<le> kend s" "is_dir (mem s) d (PDX va)" "va < KERNBASE"
    "e = pte_of (mem s) d va" "cow_entry e" "counted s (PTE_ADDR e)" "page_refs_num s (pgidx (PTE_ADDR e)) > 1"
  shows "\<exists>t. handle_page_fault va s = Ok 1 t \<and> pt_state xs d t \<and>
    (\<forall>b. pte_of (mem t) d b = (if vpage b = vpage va then V2P x OR PTE_P OR PTE_U OR PTE_W else pte_of (mem s) d b)) \<and>
    bytes (mem t) x 4096 = bytes (mem s) (P2V (PTE_ADDR e)) 4096 \<and>
    refs_of t (P2V (PTE_ADDR e)) = refs_of s (P2V (PTE_ADDR e)) - 1 \<and> refs_of t x = 2"
proof -
  let ?y = "P2V (PTE_ADDR e)" and ?tab = "table_of (mem s) d (PDX va)"
  let ?t = "copied_page c x (PTE_ADDR e) (slot ?tab (PTX va)) s"
  let ?m = "memmove (mem s) x ?y PGSIZE"
  have k: "kmem_inv (x # xs) s" "kmem_ready s" "pt_ok (x # xs) (mem s) d" using assms(4) by (auto simp: pt_state_def)
  note x = kmem_inv_Cons [OF k(1)]
  have xa: "page_aligned x" "KERNBASE \<le> x" "V2P x < PHYSTOP"
    using x(2) assms(6) by (auto simp: page_ok_def page_aligned_def)
  have ya: "page_aligned ?y" by (rule page_aligned_PTE_ADDR)
  have cx: "counted s (V2P x)"
    using x(2) assms(6) xa by (simp add: counted_def page_ok_def word_le_nat_alt unat_V2P diff_le_mono)
  note yb = counted_page_end [OF assms(11)]
  have ry: "refs_of s ?y > 1" using assms(12) by (simp add: refs_of_def)
  then have ne: "?y \<noteq> x" using x(3) by auto
  note cp = copy_page [OF page_end [OF xa] yb, of "mem s"]
  note po = pt_outside [OF k(3) cp(1) xa(1)]
  have dir: "is_dir ?m d (PDX va)" "table_of ?m d (PDX va) = ?tab" using po(3,4) assms(7) by auto
  have tab: "?tab \<noteq> x" "?tab \<notin> set xs" using k(3) assms(7) by (auto simp: pt_ok_def)
  have mem: "mem ?t = st32 ?m (slot ?tab (PTX va)) (V2P x OR PTE_P OR PTE_U OR PTE_W)"
    by (simp add: copied_page_def)
  note se = store_entry [OF po(1) dir(1), unfolded dir(2)]
  have ld: "ld32 (mem ?t) y = ld32 (mem s) y" if "y \<in> set xs" for y
  proof -
    have y: "page_aligned y" "y = slot y 0" using free_page_slot [OF k(1)] that by auto
    have "ld32 (mem ?t) (slot y 0) = ld32 (mem s) (slot y 0)"
      unfolding mem using ld32_st32_slot [OF page_aligned_table PTX_bound y(1), where j = 0] that tab x(5)
        ld32_outside [OF cp(1) xa(1) y(1), of 0] by auto
    with y(2) show ?thesis by simp
  qed
  note rt = copied_page_refs [OF _ xa(1) ya ne, of _ c "slot ?tab (PTX va)" s]
  have "kmem_inv xs ?t" using copied_page_inv [OF k(1) xa(1) ya ry] ld by blast
  moreover have "kmem_ready ?t" using k(2) by (simp add: kmem_ready_def copied_page_def popped_def)
  moreover have "bytes (mem ?t) x 4096 = bytes (mem s) ?y 4096"
    unfolding mem using page_bytes_store [OF xa(1) page_aligned_table tab(1) PTX_bound] cp(2) by simp
  ultimately show ?thesis
    using cow_fault_run [OF assms(1-5,7-11) cx assms(12)] se po(2) mem rt [OF ya] rt [OF xa(1)] ne
    by (intro exI [of _ ?t]) (simp add: pt_state_def)
qed

theorem cow_fault_copies_witness:
  "\<exists>(s :: kcons) t. handle_page_fault 0x123 s = Ok 1 t \<and> refs_of s 0x80502000 = 2 \<and>
     refs_of t 0x80502000 = 1 \<and> refs_of t 0x80400000 = 2 \<and>
     pte_of (mem s) 0x80001000 0x123 = 0x502405 \<and> pte_of (mem t) 0x80001000 0x123 = 0x400007"
proof -
  fix b :: kcons
  define p where "p = empty_slot\<lparr>pgdir := 0x80001000\<rparr>"
  let ?m = "st32 (st32 (two_pages 0x502405 0) 0x80400000 0x80401000) 0x80401000 0"
  define s where "s = b\<lparr>held := {}, mem := ?m, freelist := 0x80400000, use_lock := True, amount_of_free_pages := 2,
    page_refs_num := (\<lambda>_. 0)(0x502 := 2), kend := 0x80110000, ptable := [p], curproc := Some 0\<rparr>"
  have f: "curproc s = Some 0" "ptable s = [p]" "pgdir p = 0x80001000" "held s = {}" "kend s = 0x80110000" "mem s = ?m"
    "page_refs_num s = (\<lambda>_. 0)(0x502 := 2)" "freelist s = 0x80400000" "amount_of_free_pages s = 2"
    by (simp_all add: s_def p_def)
  have al: "page_aligned 0x80400000" "page_aligned 0x80401000" by (simp_all add: page_aligned_def)
  have o: "ld32 ?m (slot q j) = ld32 (two_pages 0x502405 0) (slot q j)"
    if "page_aligned q" "q \<noteq> 0x80400000" "q \<noteq> 0x80401000" "unat j < 1024" for q j
    using ld32_st32_slot [OF al(1) _ that(1,4), where i = 0] ld32_st32_slot [OF al(2) _ that(1,4), where i = 0] that
    by (simp add: slot_def)
  have da: "page_aligned 0x80001000" by (simp add: page_aligned_def)
  have pd: "pde_of ?m 0x80001000 i = pde_of (two_pages 0x502405 0) 0x80001000 i" if "unat i < 1024" for i
    using o [OF da _ _ that] by (simp add: pde_of_def)
  have dir: "is_dir ?m 0x80001000 i = is_dir (two_pages 0x502405 0) 0x80001000 i" 
    "is_dir (two_pages 0x502405 0) 0x80001000 i \<Longrightarrow> table_of ?m 0x80001000 i = table_of (two_pages 0x502405 0) 0x80001000 i" for i
    using pd by (auto simp: is_dir_def table_of_def)
  note tp = two_pages_dir [of "0x502405" 0] two_pages_table [of "0x502405" 0]
  have ok: "pt_ok [0x80400000, 0x80401000] ?m 0x80001000"
    unfolding pt_ok_def using dir tp da by auto
  have x: "PDX 0x123 = 0" "PTX 0x123 = 0" "vpage 0x123 = 0" by (simp_all add: PDX_def PTX_def PDXSHIFT_def PTXSHIFT_def vpage_def)
  have e: "0x502405 = pte_of (mem s) 0x80001000 0x123"
    using o [of "0x80002000" 0] dir tp pd [of 0]
    by (simp add: f pte_of_def x is_dir_def page_aligned_def two_pages_entry)
  have "kmem_inv [0x80400000, 0x80401000] s"
    by (simp add: kmem_inv_def page_ok_def refs_of_def f V2P_def KERNBASE_def PHYSTOP_def pgidx_def PGSHIFT_def
      ld32_st32_other aligned4_def)
  then have ps: "pt_state [0x80400000, 0x80401000] 0x80001000 s"
    using ok by (simp add: pt_state_def kmem_ready_def f)
  have "\<exists>t. handle_page_fault 0x123 s = Ok 1 t \<and> pt_state [0x80401000] 0x80001000 t \<and>
    (\<forall>b. pte_of (mem t) 0x80001000 b = (if vpage b = vpage 0x123 then V2P 0x80400000 OR PTE_P OR PTE_U OR PTE_W else pte_of (mem s) 0x80001000 b)) \<and>
    bytes (mem t) 0x80400000 4096 = bytes (mem s) (P2V (PTE_ADDR 0x502405)) 4096 \<and>
    refs_of t (P2V (PTE_ADDR 0x502405)) = refs_of s (P2V (PTE_ADDR 0x502405)) - 1 \<and> refs_of t 0x80400000 = 2"
    by (rule cow_fault_copies [OF f(1) _ _ ps _ _ _ _ e])
      (use dir tp in \<open>simp_all add: f x KERNBASE_def cow_entry_def PTE_P_def PTE_U_def PTE_W_def counted_def PTE_ADDR_def
        V2P_def PHYSTOP_def pgidx_def PGSHIFT_def\<close>)
  then obtain t where t: "handle_page_fault 0x123 s = Ok 1 t" "pte_of (mem t) 0x80001000 0x123 = V2P 0x80400000 OR PTE_P OR PTE_U OR PTE_W"
    "refs_of t (P2V (PTE_ADDR 0x502405)) = refs_of s (P2V (PTE_ADDR 0x502405)) - 1" "refs_of t 0x80400000 = 2" by auto
  have "refs_of s 0x80502000 = 2" by (simp add: refs_of_def f V2P_def KERNBASE_def pgidx_def PGSHIFT_def)
  moreover have "P2V (PTE_ADDR 0x502405) = 0x80502000" by (simp add: P2V_def KERNBASE_def PTE_ADDR_def)
  ultimately show ?thesis using t e
    by (intro exI [of _ s] exI [of _ t]) (simp add: V2P_def KERNBASE_def PTE_P_def PTE_U_def PTE_W_def)
qed

end
