(* ===== verification/Procs.thy ===== *)
theory Procs
  imports Vm
begin

text \<open>
  The life of a process (the first half of \<open>proc.c\<close>): the first process, \<open>fork\<close>, \<open>exit\<close>, \<open>wait\<close> and
  growing; the page fault branch of \<open>trap\<close>, and through it the kernel's reads and writes of user
  memory.
\<close>

section \<open>Leaving\<close>

definition close_fd :: "nat \<Rightarrow> ('z kfile_scheme, unit) kern" where
  "close_fd fd =
     bnd cur (\<lambda>p.
     case ofile p ! fd of
       None \<Rightarrow> ret ()
     | Some f \<Rightarrow> thn (fileclose f) (set_cur (\<lambda>p. p\<lparr>ofile := (ofile p)[fd := None]\<rparr>)))"

definition exit :: "('z kfile_scheme, unit) kern" where
  "exit = with_proc (\<lambda>i.
     bnd (gets initproc) (\<lambda>ip.
     if ip = Some i then panic ''init exiting''
     else
       thn (foreach [0..<NOFILE] close_fd) (
       thn begin_op (
       thn (bnd cur (\<lambda>p. iput_opt (cwd p))) (
       thn end_op (
       thn (set_cur (\<lambda>p. p\<lparr>cwd := None\<rparr>)) (
       thn (removeSwapFile i) (
       thn (exit_zombie i) (
       thn sched
       (panic ''zombie exit''))))))))))"

text \<open>
  \<open>wait\<close> frees the first zombie child in the table; with children but no zombie it sleeps, with
  \<open>ptable.lock\<close> held up to the switch.
\<close>

definition reap :: "nat \<Rightarrow> ('z kproc_scheme, int) kern" where
  "reap k =
     bnd (gets (\<lambda>s. ptable s ! k)) (\<lambda>p.
     thn (kfree (kstack p)) (
     thn (set_proc k (\<lambda>p. p\<lparr>kstack := 0\<rparr>)) (
     thn (freevm (pgdir p)) (
     thn (set_proc k clear_slot) (
     thn (release LPtable)
     (ret (pid p)))))))"

definition wait :: "('z kproc_scheme, int) kern" where
  "wait = with_proc (\<lambda>i.
     thn (acquire LPtable) (
     bnd (gets ptable) (\<lambda>ps.
     case find_index (\<lambda>p. parent p = Some i \<and> state p = ZOMBIE) ps of
       Some k \<Rightarrow> reap k
     | None \<Rightarrow>
         if (\<forall>p \<in> set ps. parent p \<noteq> Some i) \<or> killed (ps ! i) \<noteq> 0
         then thn (release LPtable) (ret (-1))
         else thn (sleep (ProcChan i) (Some LPtable)) diverge)))"

section \<open>User memory\<close>

text \<open>The branch of \<open>trap\<close> for a page fault at \<open>va\<close>; \<open>wr\<close> is bit 1 of the error code, set by a write.\<close>

definition page_fault :: "bool \<Rightarrow> u32 \<Rightarrow> ('z kfile_scheme, unit) kern" where
  "page_fault wr va =
     bnd (is_PG_on va) (\<lambda>pg.
     if pg then thn (get_page va) (ret ())
     else whenk wr (
       bnd (handle_page_fault va) (\<lambda>r.
       whenk (r = 1) (bnd cur (\<lambda>p. whenk (killed p \<noteq> 0) exit)))))"

text \<open>
  The kernel reads and writes a user address through the page table of the current process; a write
  needs a writable page also in kernel mode (\<open>CR0_WP\<close>). After a fault the instruction is
  executed again; a fault handler that changes nothing leaves it faulting for ever.
\<close>

definition can_access :: "bool \<Rightarrow> memory \<Rightarrow> u32 \<Rightarrow> u32 \<Rightarrow> bool" where
  "can_access wr m d va = (present m d va \<and> (wr \<longrightarrow> pte_of m d va AND PTE_W \<noteq> 0))"

definition user_addr :: "bool \<Rightarrow> u32 \<Rightarrow> ('z kfile_scheme, u32) kern" where
  "user_addr wr va =
     bnd cur (\<lambda>p.
     bnd (gets mem) (\<lambda>m.
     if can_access wr m (pgdir p) va then ret (translate m (pgdir p) va)
     else
       thn (page_fault wr va) (
       bnd (gets mem) (\<lambda>m.
       if can_access wr m (pgdir p) va then ret (translate m (pgdir p) va) else diverge))))"

definition load_byte :: "u32 \<Rightarrow> ('z kfile_scheme, byte) kern" where
  "load_byte va = bnd (user_addr False va) (\<lambda>a. gets (\<lambda>s. mem s a))"

definition store_byte :: "u32 \<Rightarrow> byte \<Rightarrow> ('z kfile_scheme, unit) kern" where
  "store_byte va b = bnd (user_addr True va) (\<lambda>a. modify (\<lambda>s. s\<lparr>mem := (mem s)(a := b)\<rparr>))"

fun load_bytes :: "nat \<Rightarrow> u32 \<Rightarrow> ('z kfile_scheme, byte list) kern" where
  "load_bytes 0 va = ret []"
| "load_bytes (Suc n) va = bnd (load_byte va) (\<lambda>b. bnd (load_bytes n (va + 1)) (\<lambda>bs. ret (b # bs)))"

fun store_user :: "u32 \<Rightarrow> byte list \<Rightarrow> ('z kfile_scheme, unit) kern" where
  "store_user va [] = ret ()"
| "store_user va (b # bs) = thn (store_byte va b) (store_user (va + 1) bs)"

section \<open>Starting\<close>

text \<open>\<open>safestrcpy\<close> into a name of 16 bytes.\<close>

definition set_name :: "byte list \<Rightarrow> byte list \<Rightarrow> byte list" where
  "set_name new old = (let k = takeWhile (\<lambda>c. c \<noteq> 0) (take 15 new) in k @ [0] @ drop (Suc (length k)) old)"

text \<open>Offsets of fields of \<open>struct trapframe\<close>.\<close>

definition TF_EAX :: u32 where "TF_EAX = 28"
definition TF_ES :: u32 where "TF_ES = 40"
definition TF_DS :: u32 where "TF_DS = 44"
definition TF_TRAPNO :: u32 where "TF_TRAPNO = 48"
definition TF_ERR :: u32 where "TF_ERR = 52"
definition TF_EIP :: u32 where "TF_EIP = 56"
definition TF_CS :: u32 where "TF_CS = 60"
definition TF_EFLAGS :: u32 where "TF_EFLAGS = 64"
definition TF_ESP :: u32 where "TF_ESP = 68"
definition TF_SS :: u32 where "TF_SS = 72"
definition TF_SIZE :: u32 where "TF_SIZE = 76"

definition userinit :: "('z kvm_scheme, unit) kern" where
  "userinit =
     bnd numberOfFreePages (\<lambda>n.
     thn (modify (\<lambda>s. s\<lparr>initial_size := n\<rparr>)) (
     bnd allocproc (\<lambda>r.
     thn (modify (\<lambda>s. s\<lparr>initproc := r\<rparr>)) (
     case r of
       None \<Rightarrow> panic ''null proc''
     | Some i \<Rightarrow>
         bnd setupkvm (\<lambda>d.
         thn (set_proc i (\<lambda>p. p\<lparr>pgdir := d\<rparr>)) (
         if d = 0 then panic ''userinit: out of memory?''
         else
           bnd (gets initcode) (\<lambda>code.
           thn (inituvm d code) (
           thn (set_proc i (\<lambda>p. p\<lparr>sz := PGSIZE\<rparr>)) (
           bnd (gets (\<lambda>s. tf (ptable s ! i))) (\<lambda>t.
           thn (modify (\<lambda>s. s\<lparr>mem := memset (mem s) t 0 TF_SIZE\<rparr>)) (
           thn (st (t + TF_CS) 0x1B) (
           thn (st (t + TF_DS) 0x23) (
           thn (st (t + TF_ES) 0x23) (
           thn (st (t + TF_SS) 0x23) (
           thn (st (t + TF_EFLAGS) 0x200) (
           thn (st (t + TF_ESP) PGSIZE) (
           thn (st (t + TF_EIP) 0) (
           thn (set_proc i (\<lambda>p. p\<lparr>pname := set_name (str ''initcode'') (pname p)\<rparr>)) (
           bnd (namei (str ''/'')) (\<lambda>root.
           thn (set_proc i (\<lambda>p. p\<lparr>cwd := root\<rparr>))
           (publish i)))))))))))))))))))))"

text \<open>For negative \<open>n\<close> the counter of pages changes by \<open>PGROUNDUP(n)/PGSIZE\<close>, computed on integers.\<close>

definition growproc :: "int \<Rightarrow> ('z kfile_scheme, int) kern" where
  "growproc n = with_proc (\<lambda>c.
     bnd cur (\<lambda>p.
     bnd (if n > 0 then allocuvm (pgdir p) (sz p) (sz p + of_int n)
          else if n < 0 then
            thn (set_cur (\<lambda>p. p\<lparr>numberOfAllocatedPages := numberOfAllocatedPages p + (n + 4095) div 4096\<rparr>))
            (deallocuvm (pgdir p) (sz p) (sz p + of_int n) True)
          else ret (sz p)) (\<lambda>new.
     if n \<noteq> 0 \<and> new = 0 then ret (-1)
     else
       thn (set_cur (\<lambda>p. p\<lparr>sz := new\<rparr>)) (
       thn (switchuvm c)
       (ret 0)))))"

section \<open>Forking\<close>

definition dup_fd :: "nat \<Rightarrow> nat \<Rightarrow> ('z kfile_scheme, unit) kern" where
  "dup_fd n fd =
     bnd cur (\<lambda>p.
     case ofile p ! fd of
       None \<Rightarrow> ret ()
     | Some f \<Rightarrow> bnd (filedup f) (\<lambda>g. set_proc n (\<lambda>q. q\<lparr>ofile := (ofile q)[fd := Some g]\<rparr>)))"

definition copy_swap_page :: "nat \<Rightarrow> nat \<Rightarrow> u32 \<Rightarrow> nat \<Rightarrow> ('z kfile_scheme, unit) kern" where
  "copy_swap_page c n m i =
     (if m = 0 then panic ''null page''
      else
        bnd (readFromSwapFile c (of_nat (4096 * i)) PGSIZE) (\<lambda>(r, bs).
        thn (modify (\<lambda>s. s\<lparr>mem := store_bytes (mem s) m bs\<rparr>)) (
        bnd (gets (\<lambda>s. bytes (mem s) m 4096)) (\<lambda>pg.
        thn (writeToSwapFile n pg (of_nat (4096 * i)) PGSIZE)
        (ret ())))))"

definition fork_swap :: "nat \<Rightarrow> nat \<Rightarrow> ('z kfile_scheme, unit) kern" where
  "fork_swap c n =
     thn (createSwapFile n) (
     bnd cur (\<lambda>p.
     thn (set_proc n (\<lambda>q. q\<lparr>fileOffset := fileOffset p, numberOfPagedOut := numberOfPagedOut p,
       numberOfAllocatedPages := numberOfAllocatedPages p, numberOfPageFaults := 0,
       totalNumberOfPagedOut := 0, ppages := ppages p\<rparr>)) (
     bnd kalloc (\<lambda>m.
     thn (foreach [0..<unat (numberOfPagedOut p)] (copy_swap_page c n m)) (
     thn (set_proc n (\<lambda>q. q\<lparr>RAMQueue := RAMQueue p, offsetQueue := offsetQueue p\<rparr>))
     (kfree m))))))"

definition fork :: "('z kvm_scheme, int) kern" where
  "fork = with_proc (\<lambda>c.
     bnd allocproc (\<lambda>r.
     case r of
       None \<Rightarrow> ret (-1)
     | Some n \<Rightarrow>
         bnd cur (\<lambda>p.
         bnd (copyuvm (pgdir p) (sz p)) (\<lambda>d.
         thn (set_proc n (\<lambda>q. q\<lparr>pgdir := d\<rparr>)) (
         bnd (gets (\<lambda>s. ptable s ! n)) (\<lambda>np.
         if d = 0 then
           thn (kfree (kstack np)) (
           thn (set_proc n (\<lambda>q. q\<lparr>kstack := 0, state := UNUSED\<rparr>))
           (ret (-1)))
         else
           thn (set_proc n (\<lambda>q. q\<lparr>sz := sz p, parent := Some c\<rparr>)) (
           thn (modify (\<lambda>s. s\<lparr>mem := memmove (mem s) (tf np) (tf p) TF_SIZE\<rparr>)) (
           thn (st (tf np + TF_EAX) 0) (
           thn (foreach [0..<NOFILE] (dup_fd n)) (
           bnd (case cwd p of None \<Rightarrow> panic ''idup: null inode'' | Some ip \<Rightarrow> idup ip) (\<lambda>ip.
           thn (set_proc n (\<lambda>q. q\<lparr>cwd := Some ip\<rparr>)) (
           thn (set_proc n (\<lambda>q. q\<lparr>pname := set_name (pname p) (pname q)\<rparr>)) (
           thn (whenk (pid np > DEF_PROCS) (fork_swap c n)) (
           thn (publish n)
           (ret (pid np))))))))))))))))"

end
