(* ===== verification/Exec.thy ===== *)
theory Exec
  imports Procs
begin

text \<open>
  Replacing the image of a process (\<open>exec.c\<close>): the program is loaded into a new page table, and the
  process is switched to it only when every step has succeeded.
\<close>

section \<open>Page bookkeeping across an attempt\<close>

record backup =
  pagesBackup :: "page list"
  countersBackup :: "u32 \<times> u32 \<times> int \<times> int \<times> int"
  queueBackup :: "int list"
  offsetQueueBackup :: "int list"

definition clear_page :: "page \<Rightarrow> page" where
  "clear_page x = x\<lparr>v_address := 0, file_offset := -1, is_in_RAM := 0, isAllocated := 0\<rparr>"

text \<open>Restoring a page writes every field but the age.\<close>

definition restore_page :: "page \<Rightarrow> page \<Rightarrow> page" where
  "restore_page b x = x\<lparr>v_address := v_address b, file_offset := file_offset b,
     is_in_RAM := is_in_RAM b, isAllocated := isAllocated b\<rparr>"

definition initPagesData :: "('z kproc_scheme, backup) kern" where
  "initPagesData =
     bnd cur (\<lambda>p.
     thn (set_cur (\<lambda>p. p\<lparr>ppages := map clear_page (ppages p),
       RAMQueue := replicate MAX_PSYC_PAGES (-1), offsetQueue := replicate MAX_PSYC_PAGES (-1),
       fileOffset := 0, numberOfPagedOut := 0, numberOfPageFaults := 0, totalNumberOfPagedOut := 0,
       numberOfAllocatedPages := 0\<rparr>))
     (ret \<lparr>pagesBackup = ppages p,
       countersBackup = (fileOffset p, numberOfPagedOut p, numberOfPageFaults p,
         totalNumberOfPagedOut p, numberOfAllocatedPages p),
       queueBackup = RAMQueue p, offsetQueueBackup = offsetQueue p\<rparr>))"

definition restoreFromBackup :: "backup \<Rightarrow> ('z kproc_scheme, unit) kern" where
  "restoreFromBackup b =
     (case countersBackup b of (c0, c1, c2, c3, c4) \<Rightarrow>
        set_cur (\<lambda>p. p\<lparr>ppages := map2 restore_page (pagesBackup b) (ppages p),
          RAMQueue := queueBackup b, offsetQueue := offsetQueueBackup b,
          fileOffset := c0, numberOfPagedOut := c1, numberOfPageFaults := c2,
          totalNumberOfPagedOut := c3, numberOfAllocatedPages := c4\<rparr>))"

section \<open>Loading\<close>

definition ELF_MAGIC :: u32 where "ELF_MAGIC = 0x464C457F"
definition ELF_PROG_LOAD :: u32 where "ELF_PROG_LOAD = 1"
definition ELFHDR_SIZE :: u32 where "ELFHDR_SIZE = 52"
definition PROGHDR_SIZE :: u32 where "PROGHDR_SIZE = 32"
definition MAXARG :: nat where "MAXARG = 32"

text \<open>The 32-bit field at offset \<open>k\<close> of a structure read from the file.\<close>

definition fld :: "nat \<Rightarrow> byte list \<Rightarrow> u32" where
  "fld k bs = un32 (slice k 4 bs)"

record elfhdr =
  magic :: u32
  entry :: u32
  phoff :: u32
  phnum :: u16

definition elf_of :: "byte list \<Rightarrow> elfhdr" where
  "elf_of bs = \<lparr>magic = fld 0 bs, entry = fld 24 bs, phoff = fld 28 bs, phnum = un16 (slice 44 2 bs)\<rparr>"

record proghdr =
  phtype :: u32
  poff :: u32
  vaddr :: u32
  filesz :: u32
  memsz :: u32

definition ph_of :: "byte list \<Rightarrow> proghdr" where
  "ph_of bs = \<lparr>phtype = fld 0 bs, poff = fld 4 bs, vaddr = fld 8 bs, filesz = fld 16 bs, memsz = fld 20 bs\<rparr>"

text \<open>The loop over the program headers; the result is the size of the image, or none for \<open>goto bad\<close>.\<close>

fun load_segments :: "nat \<Rightarrow> u32 \<Rightarrow> nat \<Rightarrow> u32 \<Rightarrow> u32 \<Rightarrow> ('z kvm_scheme, u32 option) kern" where
  "load_segments 0 d ip off size0 = ret (Some size0)"
| "load_segments (Suc k) d ip off size0 =
     bnd (readi ip off PROGHDR_SIZE) (\<lambda>(r, bs).
     if r \<noteq> uint PROGHDR_SIZE then ret None
     else
       let ph = ph_of bs; next = off + PROGHDR_SIZE in
       if phtype ph \<noteq> ELF_PROG_LOAD then load_segments k d ip next size0
       else if memsz ph < filesz ph then ret None
       else if vaddr ph + memsz ph < vaddr ph then ret None
       else
         bnd (allocuvm d size0 (vaddr ph + memsz ph)) (\<lambda>size1.
         if size1 = 0 then ret None
         else if unat (vaddr ph) mod 4096 \<noteq> 0 then ret None
         else
           bnd (loaduvm d (vaddr ph) ip (poff ph) (filesz ph)) (\<lambda>q.
           if q < 0 then ret None else load_segments k d ip next size1)))"

section \<open>The argument stack\<close>

text \<open>The strings are pushed one by one, each on a word boundary; the result is the stack pointer and
  the addresses of the strings.\<close>

fun push_args :: "nat \<Rightarrow> u32 \<Rightarrow> byte list list \<Rightarrow> u32 \<Rightarrow> ('z kmem_scheme, (u32 \<times> u32 list) option) kern" where
  "push_args argc d [] sp = ret (Some (sp, []))"
| "push_args argc d (a # as) sp =
     (if argc \<ge> MAXARG then ret None
      else
        let sp1 = (sp - of_nat (length a + 1)) AND NOT 3 in
        bnd (copyout d sp1 (a @ [0])) (\<lambda>r.
        if r < 0 then ret None
        else
          bnd (push_args (Suc argc) d as sp1) (\<lambda>q.
          ret (map_option (\<lambda>(sp2, ps). (sp2, sp1 # ps)) q))))"

definition ustack_words :: "u32 \<Rightarrow> u32 list \<Rightarrow> u32 list" where
  "ustack_words sp ps = [0xFFFFFFFF, of_nat (length ps), sp - of_nat (4 * (length ps + 1))] @ ps @ [0]"

definition last_elem :: "byte list \<Rightarrow> byte list" where
  "last_elem pth = rev (takeWhile (\<lambda>c. c \<noteq> of_char CHR ''/'') (rev pth))"

section \<open>exec\<close>

definition exec_bad :: "u32 \<Rightarrow> nat option \<Rightarrow> backup \<Rightarrow> ('z kvm_scheme, int) kern" where
  "exec_bad d ip b =
     thn (restoreFromBackup b) (
     thn (whenk (d \<noteq> 0) (freevm d)) (
     thn (case ip of None \<Rightarrow> ret () | Some i \<Rightarrow> thn (iunlockput i) end_op)
     (ret (-1))))"

definition exec_commit :: "byte list \<Rightarrow> u32 \<Rightarrow> u32 \<Rightarrow> u32 \<Rightarrow> u32 \<Rightarrow> ('z kvm_scheme, int) kern" where
  "exec_commit pth d size1 ent sp = with_proc (\<lambda>c.
     thn (set_cur (\<lambda>p. p\<lparr>pname := set_name (last_elem pth) (pname p)\<rparr>)) (
     bnd cur (\<lambda>p.
     thn (set_cur (\<lambda>p. p\<lparr>pgdir := d, sz := size1\<rparr>)) (
     thn (st (tf p + TF_EIP) ent) (
     thn (st (tf p + TF_ESP) sp) (
     thn (whenk (pid p > DEF_PROCS) (thn (removeSwapFile c) (thn (createSwapFile c) (ret ())))) (
     thn (switchuvm c) (
     thn (freevm (pgdir p))
     (ret 0)))))))))"

definition exec :: "byte list \<Rightarrow> byte list list \<Rightarrow> ('z kvm_scheme, int) kern" where
  "exec pth argv =
     thn begin_op (
     bnd (namei pth) (\<lambda>r.
     case r of
       None \<Rightarrow> thn end_op (thn (cprintf (str ''exec: fail'' @ [10]) []) (ret (-1)))
     | Some ip \<Rightarrow>
         thn (ilock (Some ip)) (
         bnd initPagesData (\<lambda>b.
         bnd (readi ip 0 ELFHDR_SIZE) (\<lambda>(n, bs).
         let elf = elf_of bs in
         if n \<noteq> uint ELFHDR_SIZE \<or> magic elf \<noteq> ELF_MAGIC then exec_bad 0 (Some ip) b
         else
           bnd setupkvm (\<lambda>d.
           if d = 0 then exec_bad 0 (Some ip) b
           else
             bnd (load_segments (unat (phnum elf)) d ip (phoff elf) 0) (\<lambda>q.
             case q of
               None \<Rightarrow> exec_bad d (Some ip) b
             | Some size0 \<Rightarrow>
                 thn (iunlockput ip) (
                 thn end_op (
                 let base = PGROUNDUP size0 in
                 bnd (allocuvm d base (base + 2 * PGSIZE)) (\<lambda>size1.
                 if size1 = 0 then exec_bad d None b
                 else
                   thn (clearpteu d (size1 - 2 * PGSIZE)) (
                   bnd (push_args 0 d argv size1) (\<lambda>a.
                   case a of
                     None \<Rightarrow> exec_bad d None b
                   | Some (sp, ps) \<Rightarrow>
                       let sp1 = sp - of_nat (4 * (3 + length ps + 1)) in
                       bnd (copyout d sp1 (concat (map le32 (ustack_words sp ps)))) (\<lambda>w.
                       if w < 0 then exec_bad d None b
                       else exec_commit pth d size1 (entry elf) sp1)))))))))))))"

section \<open>A failed attempt leaves no trace in the bookkeeping\<close>

text \<open>What \<open>initPagesData\<close> clears and backs up, \<open>restoreFromBackup\<close> restores: run one after the
  other they leave the state exactly as it was, so that an \<open>exec\<close> that fails before it allocates
  keeps the page bookkeeping of the process.\<close>

theorem exec_backup_roundtrip:
  assumes "curproc s = Some c" "c < length (ptable s)"
  shows "bnd initPagesData restoreFromBackup s = Ok () s"
proof -
  have "map2 restore_page xs (map clear_page xs) = xs" for xs
    by (induction xs) (auto simp: restore_page_def clear_page_def)
  then show ?thesis
    using assms by (simp add: initPagesData_def restoreFromBackup_def cur_run set_cur_run bnd_def thn_def)
qed

theorem exec_backup_roundtrip_witness:
  "\<exists>(s :: kproc) b t. initPagesData s = Ok b t \<and> numberOfPageFaults (ptable t ! 0) = 0 \<and>
     restoreFromBackup b t = Ok () s \<and> numberOfPageFaults (ptable s ! 0) = 3"
proof -
  fix u :: kproc
  define s where "s = u\<lparr>ptable := [empty_slot\<lparr>numberOfPageFaults := 3\<rparr>], curproc := Some 0\<rparr>"
  have c: "curproc s = Some 0" "0 < length (ptable s)" "numberOfPageFaults (ptable s ! 0) = 3"
    by (simp_all add: s_def)
  obtain b t where t: "initPagesData s = Ok b t" "restoreFromBackup b t = Ok () s"
    using exec_backup_roundtrip [OF c(1,2)] by (auto simp: bnd_eq_Ok)
  moreover have "numberOfPageFaults (ptable t ! 0) = 0"
    using t(1) c by (auto simp: initPagesData_def cur_run set_cur_run bnd_def thn_def)
  ultimately show ?thesis using c(3) by blast
qed

end
