(* ===== verification/Syscall.thy ===== *)
theory Syscall
  imports Exec
begin

text \<open>
  System calls: fetching and checking arguments from user memory (\<open>syscall.c\<close>), the calls
  themselves (\<open>sysproc.c\<close>, \<open>sysfile.c\<close>), the dispatch table, and \<open>trap\<close> (\<open>trap.c\<close>).
\<close>

section \<open>Arguments\<close>

definition fetchint :: "u32 \<Rightarrow> ('z kfile_scheme, u32 option) kern" where
  "fetchint addr =
     bnd cur (\<lambda>p.
     if addr \<ge> sz p \<or> addr + 4 > sz p then ret None
     else bnd (load_bytes 4 addr) (\<lambda>bs. ret (Some (un32 bs))))"

text \<open>The scan of \<open>fetchstr\<close> for the NUL, from address \<open>a\<close> to the end \<open>ep\<close> of the process.\<close>

function scan_str :: "u32 \<Rightarrow> u32 \<Rightarrow> ('z kfile_scheme, byte list option) kern" where
  "scan_str ep a =
     (if a \<ge> ep then ret None
      else
        bnd (load_byte a) (\<lambda>c.
        if c = 0 then ret (Some [])
        else bnd (scan_str ep (a + 1)) (\<lambda>r. ret (map_option (Cons c) r))))"
  by pat_completeness auto
termination
proof (relation "measure (\<lambda>(ep, a). unat ep - unat a)")
  fix ep a :: u32 assume "\<not> ep \<le> a"
  then have "unat a < unat ep" by (simp add: word_le_nat_alt)
  moreover from this have "unat (a + 1) = unat a + 1"
    using unat_u32_less [of ep] by (simp add: unat_plus_if')
  ultimately show "((ep, a + 1), ep, a) \<in> measure (\<lambda>(ep, a). unat ep - unat a)" by simp
qed auto

declare scan_str.simps [simp del]

text \<open>\<open>fetchstr\<close> returns the string that the user address points to.\<close>

definition fetchstr :: "u32 \<Rightarrow> ('z kfile_scheme, byte list option) kern" where
  "fetchstr addr = bnd cur (\<lambda>p. if addr \<ge> sz p then ret None else scan_str (sz p) addr)"

definition argint :: "nat \<Rightarrow> ('z kfile_scheme, u32 option) kern" where
  "argint n = bnd cur (\<lambda>p. bnd (ld (tf p + TF_ESP)) (\<lambda>esp. fetchint (esp + 4 + of_nat (4 * n))))"

definition argptr :: "nat \<Rightarrow> int \<Rightarrow> ('z kfile_scheme, u32 option) kern" where
  "argptr n size0 =
     bnd (argint n) (\<lambda>r.
     bnd cur (\<lambda>p.
     case r of
       None \<Rightarrow> ret None
     | Some i \<Rightarrow>
         if size0 < 0 \<or> i \<ge> sz p \<or> i + of_int size0 > sz p then ret None else ret (Some i)))"

definition argstr :: "nat \<Rightarrow> ('z kfile_scheme, byte list option) kern" where
  "argstr n = bnd (argint n) (\<lambda>r. case r of None \<Rightarrow> ret None | Some a \<Rightarrow> fetchstr a)"

definition argfd :: "nat \<Rightarrow> ('z kfile_scheme, (nat \<times> nat) option) kern" where
  "argfd n =
     bnd (argint n) (\<lambda>r.
     bnd cur (\<lambda>p.
     case r of
       None \<Rightarrow> ret None
     | Some w \<Rightarrow>
         if sint w < 0 \<or> sint w \<ge> int NOFILE then ret None
         else (case ofile p ! unat w of
             None \<Rightarrow> ret None
           | Some f \<Rightarrow> ret (Some (unat w, f)))))"

definition fdalloc :: "nat \<Rightarrow> ('z kfile_scheme, int) kern" where
  "fdalloc f =
     bnd cur (\<lambda>p.
     case find_index (\<lambda>x. x = None) (ofile p) of
       None \<Rightarrow> ret (-1)
     | Some fd \<Rightarrow> thn (set_cur (\<lambda>p. p\<lparr>ofile := (ofile p)[fd := Some f]\<rparr>)) (ret (int fd)))"

text \<open>Argument checks that fail make the call return -1.\<close>

definition needs :: "('s, 'a option) kern \<Rightarrow> ('a \<Rightarrow> ('s, int) kern) \<Rightarrow> ('s, int) kern" where
  "needs m f = bnd m (\<lambda>r. case r of None \<Rightarrow> ret (-1) | Some x \<Rightarrow> f x)"

section \<open>Processes\<close>

definition sys_yield :: "('z kproc_scheme, int) kern" where
  "sys_yield = thn yield (ret 0)"

definition sys_fork :: "('z kvm_scheme, int) kern" where
  "sys_fork = fork"

definition sys_exit :: "('z kfile_scheme, int) kern" where
  "sys_exit = thn exit (ret 0)"

definition sys_wait :: "('z kproc_scheme, int) kern" where
  "sys_wait = wait"

definition sys_kill :: "('z kfile_scheme, int) kern" where
  "sys_kill = needs (argint 0) (\<lambda>n. kill (sint n))"

definition sys_getpid :: "('z kproc_scheme, int) kern" where
  "sys_getpid = bnd cur (\<lambda>p. ret (pid p))"

definition sys_sbrk :: "('z kfile_scheme, int) kern" where
  "sys_sbrk = needs (argint 0) (\<lambda>n.
     bnd cur (\<lambda>p.
     bnd (growproc (sint n)) (\<lambda>r. ret (if r < 0 then -1 else sint (sz p)))))"

text \<open>
  The loop of \<open>sys_sleep\<close>, entered again after each wakeup; \<open>ticks - ticks0 < n\<close> compares unsigned
  numbers.
\<close>

definition sleep_until :: "u32 \<Rightarrow> u32 \<Rightarrow> ('z kvm_scheme, int) kern" where
  "sleep_until ticks0 n =
     bnd (gets ticks) (\<lambda>t.
     if t - ticks0 < n then
       bnd cur (\<lambda>p.
       if killed p \<noteq> 0 then thn (release LTicks) (ret (-1))
       else thn (sleep TicksChan (Some LTicks)) diverge)
     else thn (release LTicks) (ret 0))"

definition sys_sleep :: "('z kvm_scheme, int) kern" where
  "sys_sleep = needs (argint 0) (\<lambda>n.
     thn (acquire LTicks) (bnd (gets ticks) (\<lambda>ticks0. sleep_until ticks0 n)))"

definition sys_uptime :: "('z kvm_scheme, int) kern" where
  "sys_uptime =
     thn (acquire LTicks) (bnd (gets ticks) (\<lambda>t. thn (release LTicks) (ret (sint t))))"

definition sys_getNumberOfFreePages :: "('z kmem_scheme, int) kern" where
  "sys_getNumberOfFreePages = numberOfFreePages"

section \<open>Files\<close>

definition sys_dup :: "('z kfile_scheme, int) kern" where
  "sys_dup = needs (argfd 0) (\<lambda>(_, f).
     bnd (fdalloc f) (\<lambda>fd.
     if fd < 0 then ret (-1) else thn (filedup f) (ret fd)))"

definition sys_read :: "('z kfile_scheme, int) kern" where
  "sys_read = needs (argfd 0) (\<lambda>(_, f).
     needs (argint 2) (\<lambda>n.
     needs (argptr 1 (sint n)) (\<lambda>p.
     bnd (fileread f (sint n)) (\<lambda>(r, bs).
     thn (store_user p bs) (ret r)))))"

definition sys_write :: "('z kfile_scheme, int) kern" where
  "sys_write = needs (argfd 0) (\<lambda>(_, f).
     needs (argint 2) (\<lambda>n.
     needs (argptr 1 (sint n)) (\<lambda>p.
     bnd (load_bytes (unat n) p) (\<lambda>bs. filewrite f bs (sint n)))))"

definition sys_close :: "('z kfile_scheme, int) kern" where
  "sys_close = needs (argfd 0) (\<lambda>(fd, f).
     thn (set_cur (\<lambda>p. p\<lparr>ofile := (ofile p)[fd := None]\<rparr>)) (
     thn (fileclose f)
     (ret 0)))"

text \<open>The fields of \<open>struct stat\<close>, each at its offset.\<close>

definition sys_fstat :: "('z kfile_scheme, int) kern" where
  "sys_fstat = needs (argfd 0) (\<lambda>(_, f).
     needs (argptr 1 20) (\<lambda>p.
     needs (filestat f) (\<lambda>(ty, dev, ino, nl, size0).
     thn (store_user (p + 4) (le32 (of_nat dev))) (
     thn (store_user (p + 8) (le32 (of_nat ino))) (
     thn (store_user p (le16 ty)) (
     thn (store_user (p + 12) (le16 nl)) (
     thn (store_user (p + 16) (le32 size0))
     (ret 0))))))))"

definition sys_link :: "('z kfile_scheme, int) kern" where
  "sys_link = needs (argstr 0) (\<lambda>old. needs (argstr 1) (\<lambda>new.
     thn begin_op (
     bnd (namei old) (\<lambda>r.
     case r of
       None \<Rightarrow> thn end_op (ret (-1))
     | Some ip \<Rightarrow>
         thn (ilock (Some ip)) (
         bnd (get_inode ip) (\<lambda>x.
         if itype x = T_DIR then thn (iunlockput ip) (thn end_op (ret (-1)))
         else
           let bad =
             thn (ilock (Some ip)) (
             thn (set_inode ip (\<lambda>x. x\<lparr>nlink := nlink x - 1\<rparr>)) (
             thn (iupdate ip) (
             thn (iunlockput ip) (
             thn end_op
             (ret (-1)))))) in
           thn (set_inode ip (\<lambda>x. x\<lparr>nlink := nlink x + 1\<rparr>)) (
           thn (iupdate ip) (
           thn (iunlock (Some ip)) (
           bnd (nameiparent new (replicate DIRSIZ 0)) (\<lambda>(q, name).
           case q of
             None \<Rightarrow> bad
           | Some dp \<Rightarrow>
               thn (ilock (Some dp)) (
               bnd (get_inode dp) (\<lambda>d.
               bnd (get_inode ip) (\<lambda>x.
               bnd (if idev d \<noteq> idev x then ret (-1) else dirlink dp name (inum x)) (\<lambda>l.
               if l < 0 then thn (iunlockput dp) bad
               else
                 thn (iunlockput dp) (
                 thn (iput ip) (
                 thn end_op
                 (ret 0)))))))))))))))))"

definition sys_unlink :: "('z kfile_scheme, int) kern" where
  "sys_unlink = needs (argstr 0) unlink_path"

definition O_RDONLY :: u32 where "O_RDONLY = 0"
definition O_WRONLY :: u32 where "O_WRONLY = 1"
definition O_RDWR :: u32 where "O_RDWR = 2"
definition O_CREATE :: u32 where "O_CREATE = 0x200"

text \<open>The inode that \<open>sys_open\<close> opens, locked; none after the operation has been ended.\<close>

definition open_inode :: "byte list \<Rightarrow> u32 \<Rightarrow> ('z kfile_scheme, nat option) kern" where
  "open_inode pth omode =
     (if omode AND O_CREATE \<noteq> 0 then
        bnd (create pth T_FILE 0 0) (\<lambda>r.
        case r of None \<Rightarrow> thn end_op (ret None) | Some ip \<Rightarrow> ret (Some ip))
      else
        bnd (namei pth) (\<lambda>r.
        case r of
          None \<Rightarrow> thn end_op (ret None)
        | Some ip \<Rightarrow>
            thn (ilock (Some ip)) (
            bnd (get_inode ip) (\<lambda>x.
            if itype x = T_DIR \<and> omode \<noteq> O_RDONLY then thn (iunlockput ip) (thn end_op (ret None))
            else ret (Some ip)))))"

definition sys_open :: "('z kfile_scheme, int) kern" where
  "sys_open = needs (argstr 0) (\<lambda>pth. needs (argint 1) (\<lambda>omode.
     thn begin_op (
     needs (open_inode pth omode) (\<lambda>ip.
     bnd filealloc (\<lambda>q.
     case q of
       None \<Rightarrow> thn (iunlockput ip) (thn end_op (ret (-1)))
     | Some f \<Rightarrow>
         bnd (fdalloc f) (\<lambda>fd.
         if fd < 0 then thn (fileclose f) (thn (iunlockput ip) (thn end_op (ret (-1))))
         else
           thn (iunlock (Some ip)) (
           thn end_op (
           thn (set_file f (\<lambda>x. x\<lparr>ftype := FD_INODE, fip := Some ip, foff := 0,
             readable := (if omode AND O_WRONLY = 0 then 1 else 0),
             writable := (if omode AND O_WRONLY \<noteq> 0 \<or> omode AND O_RDWR \<noteq> 0 then 1 else 0)\<rparr>))
           (ret fd)))))))))"

definition sys_mkdir :: "('z kfile_scheme, int) kern" where
  "sys_mkdir =
     thn begin_op (
     bnd (argstr 0) (\<lambda>a.
     bnd (case a of None \<Rightarrow> ret None | Some pth \<Rightarrow> create pth T_DIR 0 0) (\<lambda>r.
     case r of
       None \<Rightarrow> thn end_op (ret (-1))
     | Some ip \<Rightarrow> thn (iunlockput ip) (thn end_op (ret 0)))))"

definition sys_mknod :: "('z kfile_scheme, int) kern" where
  "sys_mknod =
     thn begin_op (
     bnd (argstr 0) (\<lambda>a.
     bnd (case a of None \<Rightarrow> ret None | Some pth \<Rightarrow>
       bnd (argint 1) (\<lambda>ma. case ma of None \<Rightarrow> ret None | Some j \<Rightarrow>
       bnd (argint 2) (\<lambda>mi. case mi of None \<Rightarrow> ret None | Some k \<Rightarrow>
       create pth T_DEV (ucast j) (ucast k)))) (\<lambda>r.
     case r of
       None \<Rightarrow> thn end_op (ret (-1))
     | Some ip \<Rightarrow> thn (iunlockput ip) (thn end_op (ret 0)))))"

definition sys_chdir :: "('z kfile_scheme, int) kern" where
  "sys_chdir =
     thn begin_op (
     bnd (argstr 0) (\<lambda>a.
     bnd (case a of None \<Rightarrow> ret None | Some pth \<Rightarrow> namei pth) (\<lambda>r.
     case r of
       None \<Rightarrow> thn end_op (ret (-1))
     | Some ip \<Rightarrow>
         thn (ilock (Some ip)) (
         bnd (get_inode ip) (\<lambda>x.
         if itype x \<noteq> T_DIR then thn (iunlockput ip) (thn end_op (ret (-1)))
         else
           thn (iunlock (Some ip)) (
           thn (bnd cur (\<lambda>p. iput_opt (cwd p))) (
           thn end_op (
           thn (set_cur (\<lambda>p. p\<lparr>cwd := Some ip\<rparr>))
           (ret 0)))))))))"

text \<open>The argument vector: at most \<open>MAXARG\<close> entries with the null that ends it.\<close>

fun fetch_argv :: "nat \<Rightarrow> u32 \<Rightarrow> ('z kfile_scheme, byte list list option) kern" where
  "fetch_argv 0 a = ret None"
| "fetch_argv (Suc k) a =
     bnd (fetchint a) (\<lambda>r.
     case r of
       None \<Rightarrow> ret None
     | Some u \<Rightarrow>
         if u = 0 then ret (Some [])
         else
           bnd (fetchstr u) (\<lambda>q.
           case q of
             None \<Rightarrow> ret None
           | Some str0 \<Rightarrow> bnd (fetch_argv k (a + 4)) (\<lambda>t. ret (map_option (Cons str0) t))))"

definition sys_exec :: "('z kvm_scheme, int) kern" where
  "sys_exec = needs (argstr 0) (\<lambda>pth. needs (argint 1) (\<lambda>uargv.
     needs (fetch_argv MAXARG uargv) (\<lambda>argv. exec pth argv)))"

definition sys_pipe :: "('z kfile_scheme, int) kern" where
  "sys_pipe = needs (argptr 0 8) (\<lambda>p.
     needs pipealloc (\<lambda>(rf, wf).
     bnd (fdalloc rf) (\<lambda>fd0.
     bnd (if fd0 < 0 then ret (-1) else fdalloc wf) (\<lambda>fd1.
     if fd0 < 0 \<or> fd1 < 0 then
       thn (whenk (fd0 \<ge> 0) (set_cur (\<lambda>p. p\<lparr>ofile := (ofile p)[nat fd0 := None]\<rparr>))) (
       thn (fileclose rf) (
       thn (fileclose wf)
       (ret (-1))))
     else
       thn (store_user p (le32 (of_int fd0))) (
       thn (store_user (p + 4) (le32 (of_int fd1)))
       (ret 0))))))"

section \<open>Dispatch\<close>

text \<open>The table \<open>syscalls\<close> with the numbers of \<open>syscall.h\<close>.\<close>

definition syscalls :: "int \<Rightarrow> ('z kvm_scheme, int) kern option" where
  "syscalls n =
     (if n = 1 then Some sys_fork else if n = 2 then Some sys_exit else if n = 3 then Some sys_wait
      else if n = 4 then Some sys_pipe else if n = 5 then Some sys_read else if n = 6 then Some sys_kill
      else if n = 7 then Some sys_exec else if n = 8 then Some sys_fstat else if n = 9 then Some sys_chdir
      else if n = 10 then Some sys_dup else if n = 11 then Some sys_getpid else if n = 12 then Some sys_sbrk
      else if n = 13 then Some sys_sleep else if n = 14 then Some sys_uptime else if n = 15 then Some sys_open
      else if n = 16 then Some sys_write else if n = 17 then Some sys_mknod else if n = 18 then Some sys_unlink
      else if n = 19 then Some sys_link else if n = 20 then Some sys_mkdir else if n = 21 then Some sys_close
      else if n = 22 then Some sys_yield else if n = 23 then Some sys_getNumberOfFreePages else None)"

definition syscall :: "('z kvm_scheme, unit) kern" where
  "syscall =
     bnd cur (\<lambda>p.
     bnd (ld (tf p + TF_EAX)) (\<lambda>eax.
     case syscalls (sint eax) of
       Some f \<Rightarrow> bnd f (\<lambda>r. st (tf p + TF_EAX) (of_int r))
     | None \<Rightarrow>
         thn (cprintf (str ''%d %s: unknown sys call %d'' @ [10])
           [AInt (of_int (pid p)), AStr (Some (takeWhile (\<lambda>c. c \<noteq> 0) (pname p))), AInt eax])
         (st (tf p + TF_EAX) 0xFFFFFFFF)))"

section \<open>Traps\<close>

text \<open>
  \<open>trap\<close> with the trap frame at \<open>t\<close>, on CPU \<open>cpu\<close>, with the faulting address \<open>cr2\<close> and the key codes
  \<open>keys\<close> that the keyboard or the serial line delivers. Acknowledging the interrupt controller and
  the disk interrupt of the memory disk have no effect on the state.
\<close>

definition when_live :: "(proc \<Rightarrow> bool) \<Rightarrow> ('z kproc_scheme, unit) kern \<Rightarrow> ('z kproc_scheme, unit) kern" where
  "when_live q m = bnd (gets curproc) (\<lambda>c.
     case c of None \<Rightarrow> ret () | Some i \<Rightarrow> bnd (gets (\<lambda>s. ptable s ! i)) (\<lambda>p. whenk (q p) m))"

definition trap_default :: "u32 \<Rightarrow> nat \<Rightarrow> u32 \<Rightarrow> ('z kvm_scheme, unit) kern" where
  "trap_default t cpu cr2 =
     bnd (ld (t + TF_TRAPNO)) (\<lambda>no.
     bnd (ld (t + TF_ERR)) (\<lambda>err.
     bnd (ld (t + TF_EIP)) (\<lambda>eip.
     bnd (ld (t + TF_CS)) (\<lambda>cs.
     bnd (gets curproc) (\<lambda>c.
     if c = None \<or> cs AND 3 = 0 then
       thn (cprintf (str ''unexpected trap %d from cpu %d eip %x (cr2=0x%x)'' @ [10])
         [AInt no, AInt (of_nat cpu), AInt eip, AInt cr2])
       (panic ''trap'')
     else
       bnd cur (\<lambda>p.
       thn (cprintf (str ''pid %d %s: trap %d err %d on cpu %d eip 0x%x addr 0x%x--kill proc'' @ [10])
         [AInt (of_int (pid p)), AStr (Some (takeWhile (\<lambda>c. c \<noteq> 0) (pname p))), AInt no, AInt err,
          AInt (of_nat cpu), AInt eip, AInt cr2])
       (set_cur (\<lambda>p. p\<lparr>killed := 1\<rparr>))))))))"

definition timer_tick :: "nat \<Rightarrow> ('z kvm_scheme, unit) kern" where
  "timer_tick cpu = whenk (cpu = 0) (
     thn (acquire LTicks) (
     thn (modify (\<lambda>s. s\<lparr>ticks := ticks s + 1\<rparr>)) (
     thn (wakeup (Some TicksChan))
     (release LTicks))))"

text \<open>What the switch does: by trap number, with the numbers of \<open>traps.h\<close>.\<close>

definition trap_switch :: "u32 \<Rightarrow> nat \<Rightarrow> u32 \<Rightarrow> int list \<Rightarrow> ('z kvm_scheme, unit) kern" where
  "trap_switch t cpu cr2 keys =
     bnd (ld (t + TF_TRAPNO)) (\<lambda>no.
     bnd (ld (t + TF_ERR)) (\<lambda>err.
     if no = 32 then timer_tick cpu
     else if no = 46 \<or> no = 47 then ret ()
     else if no = 33 \<or> no = 36 then consoleintr keys
     else if no = 39 \<or> no = 63 then
       bnd (ld (t + TF_CS)) (\<lambda>cs.
       bnd (ld (t + TF_EIP)) (\<lambda>eip.
       cprintf (str ''cpu%d: spurious interrupt at %x:%x'' @ [10])
         [AInt (of_nat cpu), AInt (cs AND 0xFFFF), AInt eip]))
     else if no = 14 then page_fault (err AND 2 \<noteq> 0) cr2
     else trap_default t cpu cr2))"

definition trap :: "u32 \<Rightarrow> nat \<Rightarrow> u32 \<Rightarrow> int list \<Rightarrow> ('z kvm_scheme, unit) kern" where
  "trap t cpu cr2 keys =
     bnd (ld (t + TF_TRAPNO)) (\<lambda>no.
     bnd (ld (t + TF_CS)) (\<lambda>cs.
     if no = 64 then
       bnd cur (\<lambda>p.
       thn (whenk (killed p \<noteq> 0) exit) (
       thn (set_cur (\<lambda>p. p\<lparr>tf := t\<rparr>)) (
       thn syscall (
       bnd cur (\<lambda>p.
       whenk (killed p \<noteq> 0) exit)))))
     else
       thn (trap_switch t cpu cr2 keys) (
       thn (when_live (\<lambda>p. killed p \<noteq> 0 \<and> cs AND 3 = 3) exit) (
       thn (when_live (\<lambda>p. state p = RUNNING \<and> no = 32) yield)
       (when_live (\<lambda>p. killed p \<noteq> 0 \<and> cs AND 3 = 3) exit)))))"

section \<open>Arguments stay within the process\<close>

text \<open>C11: a pointer that \<open>argptr\<close> accepts is safe to use: the block of \<open>size\<close> bytes at that address
  lies inside the address space of the process, without wrap-around, for every size that fits an
  \<open>int\<close> and every process whose size does not reach the kernel.\<close>

theorem argptr_in_bounds:
  assumes "argptr n size0 s = Ok (Some a) t" "curproc t = Some c" "sz (ptable t ! c) \<le> KERNBASE"
    "size0 < 2 ^ 31"
  shows "0 \<le> size0 \<and> unat a + nat size0 \<le> unat (sz (ptable t ! c))"
proof -
  let ?z = "sz (ptable t ! c)"
  from assms(1) obtain r s1 c' where r: "curproc s1 = Some c'"
      "(case r of None \<Rightarrow> ret None | Some i \<Rightarrow>
        if size0 < 0 \<or> i \<ge> sz (ptable s1 ! c') \<or> i + of_int size0 > sz (ptable s1 ! c') then ret None
        else ret (Some i)) s1 = Ok (Some a) t"
    by (fastforce simp only: argptr_def bnd_eq_Ok cur_eq_Ok)
  then have "r = Some a" "t = s1" "\<not> (size0 < 0 \<or> a \<ge> sz (ptable s1 ! c') \<or> a + of_int size0 > sz (ptable s1 ! c'))"
    by (auto split: option.splits if_splits)
  with r(1) assms(2) have *: "0 \<le> size0" "a < ?z" "a + of_int size0 \<le> ?z" by auto
  have z: "unat ?z \<le> 2 ^ 31" using assms(3) by (simp add: word_le_nat_alt KERNBASE_def)
  have a: "unat a < unat ?z" using *(2) by (simp add: word_less_nat_alt)
  have s: "unat (of_int size0 :: u32) = nat size0"
    using *(1) assms(4) by (simp add: unat_eq_nat_uint uint_word_of_int)
  have "unat (a + of_int size0) = unat a + nat size0"
    using a z s assms(4) *(1) by (subst unat_plus_if') (auto simp: s)
  then show ?thesis using * by (simp add: word_le_nat_alt)
qed

definition demo_mem :: memory where
  "demo_mem = st32 (st32 (st32 (st32 (\<lambda>_. 0) 0x80001000 0x2007) 0x80002000 0x3007) 0x80005044 0x100) 0x80003104 0x200"

lemma demo_words:
  "ld32 demo_mem 0x80001000 = 0x2007" "ld32 demo_mem 0x80002000 = 0x3007" "ld32 demo_mem 0x80005044 = 0x100"
  by (simp_all add: demo_mem_def ld32_st32_other aligned4_def)

lemma demo_pte: "unat va < 4096 \<Longrightarrow> pte_of demo_mem 0x80001000 va = 0x3007"
proof -
  assume "unat va < 4096"
  then have "PDX va = 0" "PTX va = 0" by (simp_all add: word_unat_eq_iff PDX_nat PTX_nat)
  then show ?thesis
    using demo_words by (simp add: pte_of_def pde_of_def table_of_def slot_def PTE_P_def PTE_ADDR_def P2V_def KERNBASE_def)
qed

lemma demo_bytes: "bytes demo_mem 0x80003104 4 = le32 0x200"
  by (simp add: bytes_def demo_mem_def st32_def le32_def upt_rec)

theorem argptr_in_bounds_witness:
  "\<exists>(s :: kfile) t. argptr 0 8 s = Ok (Some 0x200) t \<and> unat (0x200 :: u32) + nat 8 \<le> unat (sz (ptable t ! 0))"
proof -
  fix c :: kfile
  let ?p = "empty_slot\<lparr>sz := 0x1000, pgdir := 0x80001000, tf := 0x80005000\<rparr>"
  let ?s = "c\<lparr>mem := demo_mem, ptable := [?p], curproc := Some 0\<rparr>"
  have u: "user_addr False va ?s = Ok (0x80003000 + va) ?s" if "unat va < 4096" for va
  proof -
    have "va AND 0xFFF = va" using that by (simp add: word_unat_eq_iff page_offset_nat)
    then show ?thesis
    using demo_pte [OF that] by (simp add: user_addr_def cur_run bnd_def can_access_def present_def translate_def
      PTE_P_def PTE_ADDR_def P2V_def KERNBASE_def)
  qed
  have b: "load_byte va ?s = Ok (demo_mem (0x80003000 + va)) ?s" if "unat va < 4096" for va
    using u [OF that] by (simp add: load_byte_def bnd_def)
  have "load_bytes 4 0x104 ?s = Ok (bytes demo_mem 0x80003104 4) ?s"
  proof -
    have four: "(4 :: nat) = Suc (Suc (Suc (Suc 0)))" by simp
    show ?thesis unfolding four load_bytes.simps bytes_def by (simp add: b bnd_def)
  qed
  then have "argint 0 ?s = Ok (Some 0x200) ?s"
    by (simp add: argint_def fetchint_def ld_def cur_run bnd_def TF_ESP_def demo_words demo_bytes)
  then have a: "argptr 0 8 ?s = Ok (Some 0x200) ?s"
    by (simp add: argptr_def cur_run bnd_def)
  have "0 \<le> (8 :: int) \<and> unat (0x200 :: u32) + nat 8 \<le> unat (sz (ptable ?s ! 0))"
    by (rule argptr_in_bounds [OF a]) (simp_all add: KERNBASE_def)
  with a show ?thesis by blast
qed

end
