(* ===== verification/Cpp.thy ===== *)
theory Cpp
  imports Prelude
begin

text \<open>
  What the restaurant program (\<^verbatim>\<open>src/c++/spl/resturant\<close>) uses of the C++ language and its
  standard library: undefined behaviour and the exception of \<^verbatim>\<open>vector::at\<close> as outcomes of the
  monad of the prelude, subscripts of vectors and strings, checked \<^verbatim>\<open>int\<close> arithmetic,
  \<^verbatim>\<open>std::to_string\<close>, \<^verbatim>\<open>string::substr\<close> and output to \<^verbatim>\<open>std::cout\<close>.
\<close>

section \<open>Outcomes that end the program\<close>

text \<open>
  Undefined behaviour (a subscript out of range, a dangling pointer, signed overflow) and the
  uncaught exception of \<^verbatim>\<open>vector::at\<close> both end a run of the model, with different messages.
\<close>

abbreviation undef :: "('s, 'a) kern" where
  "undef \<equiv> panic ''undefined behaviour''"

abbreviation out_of_range :: "('s, 'a) kern" where
  "out_of_range \<equiv> panic ''std::out_of_range''"

section \<open>Subscripts\<close>

definition vec :: "'a list \<Rightarrow> int \<Rightarrow> ('s, 'a) kern" where
  "vec xs i = (if 0 \<le> i \<and> i < int (length xs) then ret (xs ! nat i) else undef)"

definition vec_at :: "'a list \<Rightarrow> int \<Rightarrow> ('s, 'a) kern" where
  "vec_at xs i = (if 0 \<le> i \<and> i < int (length xs) then ret (xs ! nat i) else out_of_range)"

text \<open>A string has a NUL behind its last character that may be read.\<close>

definition str_at :: "string \<Rightarrow> nat \<Rightarrow> ('s, char) kern" where
  "str_at s i = (if i < length s then ret (s ! i) else if i = length s then ret (CHR 0x00) else undef)"

text \<open>\<open>s.substr(p, n)\<close> throws when \<open>p\<close> is behind the end of \<open>s\<close>.\<close>

definition substr :: "string \<Rightarrow> nat \<Rightarrow> nat \<Rightarrow> ('s, string) kern" where
  "substr s p n = (if p \<le> length s then ret (take n (drop p s)) else out_of_range)"

lemma vec_ok [simp]: "0 \<le> i \<Longrightarrow> i < int (length xs) \<Longrightarrow> vec xs i s = Ok (xs ! nat i) s"
  by (simp add: vec_def)

lemma vec_at_ok [simp]: "0 \<le> i \<Longrightarrow> i < int (length xs) \<Longrightarrow> vec_at xs i s = Ok (xs ! nat i) s"
  by (simp add: vec_at_def)

lemma vec_at_out [simp]: "i < 0 \<or> int (length xs) \<le> i \<Longrightarrow> vec_at xs i s = Panic ''std::out_of_range''"
  by (auto simp: vec_at_def)

section \<open>Integers\<close>

text \<open>An \<^verbatim>\<open>int\<close> has 32 bits; a result outside its range is undefined. A \<^verbatim>\<open>char\<close> is signed.\<close>

definition chk :: "int \<Rightarrow> ('s, int) kern" where
  "chk n = (if - (2 ^ 31) \<le> n \<and> n < 2 ^ 31 then ret n else undef)"

definition schar :: "char \<Rightarrow> int" where
  "schar c = (let n = of_char c in if n < 128 then n else n - 256)"

lemma chk_ok [simp]: "- 2147483648 \<le> n \<Longrightarrow> n < 2147483648 \<Longrightarrow> chk n s = Ok n s"
  by (simp add: chk_def)

fun digits :: "nat \<Rightarrow> string" where
  "digits n = (if n < 10 then [char_of (48 + n)] else digits (n div 10) @ [char_of (48 + n mod 10)])"

declare digits.simps [simp del]

lemma char_of_digits:
  "char_of (48 :: nat) = CHR ''0''" "char_of (49 :: nat) = CHR ''1''" "char_of (50 :: nat) = CHR ''2''"
  "char_of (51 :: nat) = CHR ''3''" "char_of (52 :: nat) = CHR ''4''" "char_of (53 :: nat) = CHR ''5''"
  "char_of (54 :: nat) = CHR ''6''" "char_of (55 :: nat) = CHR ''7''" "char_of (56 :: nat) = CHR ''8''"
  "char_of (57 :: nat) = CHR ''9''"
  by code_simp+

definition to_string :: "int \<Rightarrow> string" where
  "to_string n = (if n < 0 then CHR ''-'' # digits (nat (- n)) else digits (nat n))"

text \<open>One step of the decimal readers of the program: \<open>num * 10 + c - 48\<close>, evaluated left to
  right.\<close>

definition dec_step :: "int \<Rightarrow> char \<Rightarrow> ('s, int) kern" where
  "dec_step num c = bnd (chk (num * 10)) (\<lambda>a. bnd (chk (a + schar c)) (\<lambda>b. chk (b - 48)))"

fun dec_scan :: "string \<Rightarrow> int \<Rightarrow> ('s, int) kern" where
  "dec_scan [] num = ret num"
| "dec_scan (c # cs) num = bnd (dec_step num c) (dec_scan cs)"

lemma dec_scan_append: "dec_scan (xs @ ys) n s = bnd (dec_scan xs n) (dec_scan ys) s"
proof (induction xs arbitrary: n s)
  case Nil
  then show ?case by (simp add: bnd_def)
next
  case (Cons c cs)
  show ?case
    by (simp add: bnd_def split: outcome.splits) (auto simp: Cons.IH bnd_def)
qed

lemma schar_digit: "d < 10 \<Longrightarrow> schar (char_of (48 + d)) = 48 + int d" for d :: nat
proof -
  have "of_char (char_of (48 + d)) = (48 + int d :: int)" if "d < 10"
  proof -
    have "of_char (char_of (48 + d)) = (of_nat (of_char (char_of (48 + d))) :: int)"
      by (simp only: of_nat_of_char)
    also have "\<dots> = of_nat ((48 + d) mod 256)"
      by (simp only: of_char_of)
    finally show ?thesis
      using that by simp
  qed
  then show "d < 10 \<Longrightarrow> schar (char_of (48 + d)) = 48 + int d"
    by (simp add: schar_def Let_def)
qed

lemma dec_step_digit:
  assumes "d < 10" "0 \<le> n" "10 * n + 48 + int d < 2147483648"
  shows "dec_step n (char_of (48 + d)) s = Ok (10 * n + int d) s"
  using assms by (simp add: dec_step_def schar_digit bnd_def mult.commute)

text \<open>Reading a printed number gives the number back. The reader overflows for the last 48
  numbers of the range: it adds the character before it takes 48 away.\<close>

lemma dec_scan_digits: "n + 48 < 2147483648 \<Longrightarrow> dec_scan (digits n) 0 s = Ok (int n) s"
proof (induction n rule: digits.induct)
  case (1 n)
  show ?case
  proof (cases "n < 10")
    case True
    then show ?thesis
      by (subst digits.simps) (simp add: dec_step_digit bnd_Ok)
  next
    case False
    have "int (n div 10) * 10 + int (n mod 10) = int n"
      by presburger
    moreover have "dec_scan (digits (n div 10)) 0 s = Ok (int (n div 10)) s"
      using 1 False by simp
    moreover have "10 * int (n div 10) + 48 + int (n mod 10) < 2147483648"
      using 1(2) calculation(1) by linarith
    ultimately show ?thesis
      using False
      by (subst digits.simps) (simp add: dec_scan_append bnd_Ok dec_step_digit mult.commute)
  qed
qed

end
