(* ===== verification/Customer.thy ===== *)
theory Customer
  imports Cpp "HOL-Library.Product_Lexorder"
begin

text \<open>
  Dishes and customers of the restaurant (\<^verbatim>\<open>Dish.cpp\<close>, \<^verbatim>\<open>Customer.cpp\<close>). The four subclasses
  of \<^verbatim>\<open>Customer\<close> are one record with a tag; \<^verbatim>\<open>firstOrder\<close> and \<^verbatim>\<open>idOrdered\<close> are members of the
  subclasses that have them. The member \<^verbatim>\<open>idNumber\<close>, which nothing reads, is left out. Each
  loop over the menu is a recursion over its list.
\<close>

section \<open>Dishes\<close>

datatype DishType = VEG | SPC | BVG | ALC

record dish =
  dish_id :: int
  dish_name :: string
  price :: int
  dish_type :: DishType

definition mk_dish :: "int \<Rightarrow> string \<Rightarrow> int \<Rightarrow> DishType \<Rightarrow> dish" where
  "mk_dish d_id d_name d_price d_type =
     \<lparr>dish_id = d_id, dish_name = d_name, price = d_price, dish_type = d_type\<rparr>"

definition dish_toString :: "dish \<Rightarrow> string" where
  "dish_toString d = dish_name d @ '' '' @
     (case dish_type d of VEG \<Rightarrow> ''VEG '' | SPC \<Rightarrow> ''SPC '' | BVG \<Rightarrow> ''BVG '' | ALC \<Rightarrow> ''ALC '')
     @ to_string (price d) @ ''NIS\<newline>''"

section \<open>Customers\<close>

datatype ctype = Vegetarian | Cheap | Spicy | Alchoholic

record customer =
  cust_name :: string
  cust_id :: int
  cust_type :: ctype
  ordered :: bool
  firstOrder :: bool
  idOrdered :: "int list"

definition mk_customer :: "ctype \<Rightarrow> string \<Rightarrow> int \<Rightarrow> customer" where
  "mk_customer t c_name c_id = \<lparr>cust_name = c_name, cust_id = c_id, cust_type = t,
     ordered = False, firstOrder = False, idOrdered = []\<rparr>"

text \<open>The copy constructors take over the name and the id only.\<close>

definition Customer_Clone :: "customer \<Rightarrow> customer" where
  "Customer_Clone c = mk_customer (cust_type c) (cust_name c) (cust_id c)"

definition getType :: "customer \<Rightarrow> string" where
  "getType c = (case cust_type c of Vegetarian \<Rightarrow> ''veg'' | Cheap \<Rightarrow> ''chp''
     | Spicy \<Rightarrow> ''spc'' | Alchoholic \<Rightarrow> ''alc'')"

definition customer_toString :: "customer \<Rightarrow> string" where
  "customer_toString c = '''' @ to_string (cust_id c) @ '' '' @ cust_name c"

subsection \<open>Orders\<close>

fun smallest_veg :: "dish list \<Rightarrow> int \<Rightarrow> int" where
  "smallest_veg [] smallestVegId = smallestVegId"
| "smallest_veg (d # menu) smallestVegId = smallest_veg menu
     (if dish_type d = VEG then
        if smallestVegId = -1 then dish_id d
        else if dish_id d < smallestVegId then dish_id d else smallestVegId
      else smallestVegId)"

fun pricest_bvg :: "dish list \<Rightarrow> int \<times> int \<Rightarrow> int \<times> int" where
  "pricest_bvg [] best = best"
| "pricest_bvg (d # menu) (pricestBVGId, pr) = pricest_bvg menu
     (if dish_type d = BVG then
        if pricestBVGId = -1 then (dish_id d, price d)
        else if pr < price d \<or> pr = price d \<and> pricestBVGId > dish_id d then (dish_id d, price d)
        else (pricestBVGId, pr)
      else (pricestBVGId, pr))"

definition vegetarian_order :: "customer \<Rightarrow> dish list \<Rightarrow> int list \<times> customer" where
  "vegetarian_order c menu =
     ([smallest_veg menu (-1), fst (pricest_bvg menu (-1, -1))], c\<lparr>ordered := True\<rparr>)"

fun cheapest_dish :: "dish list \<Rightarrow> int \<times> int \<Rightarrow> int \<times> int" where
  "cheapest_dish [] best = best"
| "cheapest_dish (d # menu) (cheapestId, cheapest) = cheapest_dish menu
     (if price d < cheapest then (dish_id d, price d) else (cheapestId, cheapest))"

definition cheap_order :: "customer \<Rightarrow> dish list \<Rightarrow> ('s, int list \<times> customer) kern" where
  "cheap_order c menu =
     (if ordered c = False then
        bnd (vec menu 0) (\<lambda>d.
        ret ([fst (cheapest_dish menu (dish_id d, price d))], c\<lparr>ordered := True\<rparr>))
      else ret ([], c))"

fun pricest_spc :: "dish list \<Rightarrow> int \<times> int \<Rightarrow> int \<times> int" where
  "pricest_spc [] best = best"
| "pricest_spc (d # menu) (pricestId, pricest) = pricest_spc menu
     (if pricestId = -1 \<and> dish_type d = SPC then (dish_id d, price d)
      else if price d \<ge> pricest \<and> dish_type d = SPC then
        if price d = pricest \<and> dish_id d < pricestId \<or> price d > pricest
        then (dish_id d, price d) else (pricestId, pricest)
      else (pricestId, pricest))"

fun cheapest_bvg :: "dish list \<Rightarrow> int \<times> int \<Rightarrow> int \<times> int" where
  "cheapest_bvg [] best = best"
| "cheapest_bvg (d # menu) (cheapestId, cheapest) = cheapest_bvg menu
     (if cheapestId = -1 \<and> dish_type d = BVG then (dish_id d, price d)
      else if price d \<le> cheapest \<and> dish_type d = BVG then
        if price d = cheapest \<and> dish_id d < cheapestId \<or> price d < cheapest
        then (dish_id d, price d) else (cheapestId, cheapest)
      else (cheapestId, cheapest))"

definition spicy_order :: "customer \<Rightarrow> dish list \<Rightarrow> int list \<times> customer" where
  "spicy_order c menu =
     (if firstOrder c = False then
        ([fst (pricest_spc menu (-1, -1))], c\<lparr>firstOrder := True\<rparr>)
      else ([fst (cheapest_bvg menu (-1, -1))], c))"

text \<open>The alcoholic's loop compares the ids he ordered with the index \<open>i\<close> of the dish.
  \<open>inOrdered\<close> is reset after each use, so it is the membership test.\<close>

fun next_alc :: "int list \<Rightarrow> dish list \<Rightarrow> int \<Rightarrow> int \<times> int \<Rightarrow> int \<times> int" where
  "next_alc done_ids [] i best = best"
| "next_alc done_ids (d # menu) i (cheapestId, cheapest) =
     (let (cheapestId, cheapest) =
            (if dish_type d = ALC \<and> cheapest = -1 \<and> i \<notin> set done_ids
             then (dish_id d, price d) else (cheapestId, cheapest));
          (cheapestId, cheapest) =
            (if price d < cheapest \<and> dish_type d = ALC \<and> i \<notin> set done_ids
             then (dish_id d, price d) else (cheapestId, cheapest))
      in next_alc done_ids menu (i + 1) (cheapestId, cheapest))"

definition alchoholic_order :: "customer \<Rightarrow> dish list \<Rightarrow> int list \<times> customer" where
  "alchoholic_order c menu =
     (let cheapestId = fst (next_alc (idOrdered c) menu 0 (-1, -1))
      in ([cheapestId], c\<lparr>idOrdered := idOrdered c @ [cheapestId]\<rparr>))"

definition customer_order :: "customer \<Rightarrow> dish list \<Rightarrow> ('s, int list \<times> customer) kern" where
  "customer_order c menu = (case cust_type c of
       Vegetarian \<Rightarrow> ret (vegetarian_order c menu)
     | Cheap \<Rightarrow> cheap_order c menu
     | Spicy \<Rightarrow> ret (spicy_order c menu)
     | Alchoholic \<Rightarrow> ret (alchoholic_order c menu))"

section \<open>What they order\<close>

text \<open>The menu that the constructor of the restaurant builds: each dish has its index as id.\<close>

definition menu_from :: "int \<Rightarrow> dish list \<Rightarrow> bool" where
  "menu_from k menu = (\<forall>i < length menu. dish_id (menu ! i) = k + int i)"

lemma menu_from_Nil [simp]: "menu_from k []"
  by (simp add: menu_from_def)

lemma menu_from_Cons [simp]: "menu_from k (d # menu) \<longleftrightarrow> dish_id d = k \<and> menu_from (k + 1) menu"
proof
  assume m: "menu_from k (d # menu)"
  have "dish_id (menu ! i) = k + 1 + int i" if "i < length menu" for i
    using m [unfolded menu_from_def, rule_format, of "Suc i"] that by simp
  with m [unfolded menu_from_def, rule_format, of 0] show "dish_id d = k \<and> menu_from (k + 1) menu"
    by (simp add: menu_from_def)
next
  assume m: "dish_id d = k \<and> menu_from (k + 1) menu"
  show "menu_from k (d # menu)"
    unfolding menu_from_def
  proof (intro allI impI)
    fix i
    assume "i < length (d # menu)"
    with m show "dish_id ((d # menu) ! i) = k + int i"
      by (cases i) (auto simp: menu_from_def)
  qed
qed

lemma menu_from_append:
  "menu_from k (xs @ ys) \<longleftrightarrow> menu_from k xs \<and> menu_from (k + int (length xs)) ys"
  by (induction xs arbitrary: k) (auto simp: algebra_simps)

lemma menu_from_ge: "menu_from k menu \<Longrightarrow> d \<in> set menu \<Longrightarrow> k \<le> dish_id d"
  by (induction menu arbitrary: k) force+

text \<open>
  \<open>chosen P before menu n\<close>: \<open>n\<close> is the id of the dish that comes first, in the order \<open>before\<close>,
  among the dishes of the menu that satisfy \<open>P\<close>, and \<open>-1\<close> when there is none.
\<close>

definition chosen :: "(dish \<Rightarrow> bool) \<Rightarrow> (dish \<Rightarrow> dish \<Rightarrow> bool) \<Rightarrow> dish list \<Rightarrow> int \<Rightarrow> bool" where
  "chosen P before menu n =
     (if \<exists>d \<in> set menu. P d
      then \<exists>d \<in> set menu. P d \<and> n = dish_id d \<and> (\<forall>e \<in> set menu. P e \<and> e \<noteq> d \<longrightarrow> before d e)
      else n = -1)"

definition dearer :: "dish \<Rightarrow> dish \<Rightarrow> bool" where
  "dearer d e = (price e < price d \<or> price e = price d \<and> dish_id d < dish_id e)"

definition dish_key :: "dish \<Rightarrow> int \<times> int" where
  "dish_key d = (price d, dish_id d)"

definition cheaper :: "dish \<Rightarrow> dish \<Rightarrow> bool" where
  "cheaper d e = (dish_key d < dish_key e)"

lemma cheaper_iff: "cheaper d e \<longleftrightarrow> price d < price e \<or> price d = price e \<and> dish_id d < dish_id e"
  by (auto simp: cheaper_def dish_key_def less_prod_def)

text \<open>\<open>best_so_far P before done n p\<close>: what the scans hold after the part \<open>done\<close> of the menu.\<close>

definition best_so_far ::
  "(dish \<Rightarrow> bool) \<Rightarrow> (dish \<Rightarrow> dish \<Rightarrow> bool) \<Rightarrow> dish list \<Rightarrow> int \<times> int \<Rightarrow> bool" where
  "best_so_far P before xs b =
     (if \<exists>d \<in> set xs. P d
      then \<exists>d \<in> set xs. P d \<and> b = (dish_id d, price d) \<and> (\<forall>e \<in> set xs. P e \<and> e \<noteq> d \<longrightarrow> before d e)
      else b = (-1, -1))"

lemma best_so_far_chosen: "best_so_far P before xs b \<Longrightarrow> chosen P before xs (fst b)"
  by (auto simp: best_so_far_def chosen_def split: if_splits)

lemma best_so_far_Nil: "best_so_far P before [] (-1, -1)"
  by (simp add: best_so_far_def)

lemma best_so_far_skip: "best_so_far P before xs b \<Longrightarrow> \<not> P d \<Longrightarrow> best_so_far P before (xs @ [d]) b"
  by (auto simp: best_so_far_def split: if_splits)

lemma best_so_far_first:
  "best_so_far P before xs b \<Longrightarrow> \<forall>e \<in> set xs. \<not> P e \<Longrightarrow> P d \<Longrightarrow>
   best_so_far P before (xs @ [d]) (dish_id d, price d)"
  by (auto simp: best_so_far_def)

lemma best_so_far_replace:
  assumes "best_so_far P before xs (dish_id b, price b)" "b \<in> set xs" "P b" "P d"
    and "\<forall>e \<in> set xs. P e \<and> e \<noteq> b \<longrightarrow> before b e" and "before d b"
    and "\<And>e. e \<in> set xs \<Longrightarrow> before b e \<Longrightarrow> before d e"
  shows "best_so_far P before (xs @ [d]) (dish_id d, price d)"
  using assms by (auto simp: best_so_far_def)

lemma best_so_far_keep:
  assumes "b \<in> set xs" "P b" "\<forall>e \<in> set xs. P e \<and> e \<noteq> b \<longrightarrow> before b e" and "before b d"
  shows "best_so_far P before (xs @ [d]) (dish_id b, price b)"
  using assms by (auto simp: best_so_far_def)

lemma best_so_far_cases:
  assumes "best_so_far P before xs b"
  obtains (none) "\<forall>e \<in> set xs. \<not> P e" "b = (-1, -1)"
    | (some) d where "d \<in> set xs" "P d" "b = (dish_id d, price d)"
        "\<forall>e \<in> set xs. P e \<and> e \<noteq> d \<longrightarrow> before d e"
  using assms by (auto simp: best_so_far_def split: if_splits)

text \<open>A scan that takes the next dish when it comes before the best one so far, and keeps the
  best one otherwise, finds the first dish. \<open>step\<close> is the body of the loop.\<close>

lemma scan_best:
  fixes step :: "dish \<Rightarrow> int \<times> int \<Rightarrow> int \<times> int"
  assumes step_none: "\<And>d. P d \<Longrightarrow> step d (-1, -1) = (dish_id d, price d)"
    and step_skip: "\<And>d b. \<not> P d \<Longrightarrow> step d b = b"
    and step_some: "\<And>i j. i < j \<Longrightarrow> j < length menu \<Longrightarrow> P (menu ! i) \<Longrightarrow> P (menu ! j) \<Longrightarrow>
       step (menu ! j) (dish_id (menu ! i), price (menu ! i)) =
         (if before (menu ! j) (menu ! i) then (dish_id (menu ! j), price (menu ! j))
          else (dish_id (menu ! i), price (menu ! i)))"
    and trans: "\<And>x y z. before x y \<Longrightarrow> before y z \<Longrightarrow> before x z"
    and total: "\<And>i j. i < j \<Longrightarrow> j < length menu \<Longrightarrow>
       before (menu ! i) (menu ! j) \<or> before (menu ! j) (menu ! i)"
  shows "best_so_far P before menu (foldl (\<lambda>b d. step d b) (-1, -1) menu)"
proof -
  have "best_so_far P before (take n menu) (foldl (\<lambda>b d. step d b) (-1, -1) (take n menu))"
    if "n \<le> length menu" for n
    using that
  proof (induction n)
    case 0
    then show ?case by (simp add: best_so_far_Nil)
  next
    case (Suc n)
    define xs where "xs = take n menu"
    define d where "d = menu ! n"
    define b where "b = foldl (\<lambda>b d. step d b) (-1, -1) xs"
    have tk: "take (Suc n) menu = xs @ [d]"
      using Suc.prems by (simp add: xs_def d_def take_Suc_conv_app_nth)
    have best: "best_so_far P before xs b"
      using Suc by (simp add: xs_def b_def)
    have "best_so_far P before (xs @ [d]) (step d b)"
    proof (cases "P d")
      case False
      then show ?thesis using best best_so_far_skip step_skip by simp
    next
      case True
      show ?thesis
        using best
      proof (cases rule: best_so_far_cases)
        case none
        then show ?thesis using best best_so_far_first step_none True by auto
      next
        case (some c)
        obtain i where i: "i < n" "c = menu ! i"
          using some(1) Suc.prems by (auto simp: xs_def in_set_conv_nth)
        then have tot: "before c d \<or> before d c"
          using i total [of i n] Suc.prems by (auto simp: d_def)
        have st: "step d b = (if before d c then (dish_id d, price d) else (dish_id c, price c))"
          using step_some [of i n] i some(2,3) True Suc.prems by (simp add: d_def)
        show ?thesis
        proof (cases "before d c")
          case True
          then show ?thesis
            using best some \<open>P d\<close> st trans best_so_far_replace [of P before xs c d] by auto
        next
          case False
          then show ?thesis
            using some tot st best_so_far_keep [of c xs P before d] by auto
        qed
      qed
    qed
    then show ?case by (simp add: tk b_def)
  qed
  from this [of "length menu"] show ?thesis by simp
qed

lemma menu_ids_distinct:
  "menu_from k menu \<Longrightarrow> i < j \<Longrightarrow> j < length menu \<Longrightarrow> dish_id (menu ! i) < dish_id (menu ! j)"
  by (simp add: menu_from_def)

lemma menu_id_nonneg: "menu_from 0 menu \<Longrightarrow> d \<in> set menu \<Longrightarrow> 0 \<le> dish_id d"
  by (rule menu_from_ge)

lemma dearer_total: "menu_from 0 menu \<Longrightarrow> i < j \<Longrightarrow> j < length menu \<Longrightarrow>
   dearer (menu ! i) (menu ! j) \<or> dearer (menu ! j) (menu ! i)"
  using menu_ids_distinct [of 0 menu i j] by (auto simp: dearer_def)

lemma cheaper_total: "menu_from 0 menu \<Longrightarrow> i < j \<Longrightarrow> j < length menu \<Longrightarrow>
   cheaper (menu ! i) (menu ! j) \<or> cheaper (menu ! j) (menu ! i)"
  using menu_ids_distinct [of 0 menu i j] by (auto simp: cheaper_iff)

lemma dearer_trans: "dearer x y \<Longrightarrow> dearer y z \<Longrightarrow> dearer x z"
  by (auto simp: dearer_def)

lemma cheaper_trans: "cheaper x y \<Longrightarrow> cheaper y z \<Longrightarrow> cheaper x z"
  by (auto simp: cheaper_def)

lemma smallest_veg_keeps: "menu_from k menu \<Longrightarrow> s \<noteq> -1 \<Longrightarrow> s < k \<Longrightarrow> smallest_veg menu s = s"
  by (induction menu arbitrary: k) auto

lemma smallest_veg_chosen:
  "menu_from k menu \<Longrightarrow> 0 \<le> k \<Longrightarrow>
   chosen (\<lambda>d. dish_type d = VEG) (\<lambda>d e. dish_id d < dish_id e) menu (smallest_veg menu (-1))"
proof (induction menu arbitrary: k)
  case Nil
  then show ?case by (simp add: chosen_def)
next
  case (Cons d menu)
  show ?case
  proof (cases "dish_type d = VEG")
    case True
    have "smallest_veg menu (dish_id d) = dish_id d"
      using Cons.prems smallest_veg_keeps [of "k + 1" menu "dish_id d"] by auto
    moreover have "dish_id d < dish_id e" if "e \<in> set menu" for e
      using menu_from_ge [of "k + 1" menu e] Cons.prems that by auto
    ultimately show ?thesis
      using True by (auto simp: chosen_def)
  next
    case False
    then show ?thesis
      using Cons.IH [of "k + 1"] Cons.prems by (auto simp: chosen_def split: if_splits)
  qed
qed

lemma pricest_bvg_foldl:
  "pricest_bvg menu b = foldl (\<lambda>b d. pricest_bvg [d] b) b menu"
  by (induction menu b rule: pricest_bvg.induct) auto

lemma pricest_bvg_chosen:
  assumes m: "menu_from 0 menu"
  shows "chosen (\<lambda>d. dish_type d = BVG) dearer menu (fst (pricest_bvg menu (-1, -1)))"
proof -
  have "best_so_far (\<lambda>d. dish_type d = BVG) dearer menu
      (foldl (\<lambda>b d. pricest_bvg [d] b) (-1, -1) menu)"
  proof (rule scan_best)
    fix i j
    assume "i < j" "j < length menu" "dish_type (menu ! i) = BVG" "dish_type (menu ! j) = BVG"
    with menu_id_nonneg [OF m, of "menu ! i"]
    show "pricest_bvg [menu ! j] (dish_id (menu ! i), price (menu ! i)) =
        (if dearer (menu ! j) (menu ! i) then (dish_id (menu ! j), price (menu ! j))
         else (dish_id (menu ! i), price (menu ! i)))"
      by (auto simp: dearer_def)
  next
    fix d :: dish and b :: "int \<times> int"
    assume "dish_type d \<noteq> BVG"
    then show "pricest_bvg [d] b = b" by (cases b) simp
  qed (use dearer_total [OF m] in \<open>auto intro: dearer_trans\<close>)
  then show ?thesis
    by (metis best_so_far_chosen pricest_bvg_foldl)
qed

lemma pricest_spc_foldl:
  "pricest_spc menu b = foldl (\<lambda>b d. pricest_spc [d] b) b menu"
  by (induction menu b rule: pricest_spc.induct) auto

lemma pricest_spc_chosen:
  assumes m: "menu_from 0 menu"
  shows "chosen (\<lambda>d. dish_type d = SPC) dearer menu (fst (pricest_spc menu (-1, -1)))"
proof -
  have "best_so_far (\<lambda>d. dish_type d = SPC) dearer menu
      (foldl (\<lambda>b d. pricest_spc [d] b) (-1, -1) menu)"
  proof (rule scan_best)
    fix i j
    assume "i < j" "j < length menu" "dish_type (menu ! i) = SPC" "dish_type (menu ! j) = SPC"
    with menu_id_nonneg [OF m, of "menu ! i"]
    show "pricest_spc [menu ! j] (dish_id (menu ! i), price (menu ! i)) =
        (if dearer (menu ! j) (menu ! i) then (dish_id (menu ! j), price (menu ! j))
         else (dish_id (menu ! i), price (menu ! i)))"
      by (auto simp: dearer_def)
  next
    fix d :: dish and b :: "int \<times> int"
    assume "dish_type d \<noteq> SPC"
    then show "pricest_spc [d] b = b" by (cases b) simp
  qed (use dearer_total [OF m] in \<open>auto intro: dearer_trans\<close>)
  then show ?thesis
    by (metis best_so_far_chosen pricest_spc_foldl)
qed

lemma cheapest_bvg_foldl:
  "cheapest_bvg menu b = foldl (\<lambda>b d. cheapest_bvg [d] b) b menu"
  by (induction menu b rule: cheapest_bvg.induct) auto

lemma cheapest_bvg_chosen:
  assumes m: "menu_from 0 menu"
  shows "chosen (\<lambda>d. dish_type d = BVG) cheaper menu (fst (cheapest_bvg menu (-1, -1)))"
proof -
  have "best_so_far (\<lambda>d. dish_type d = BVG) cheaper menu
      (foldl (\<lambda>b d. cheapest_bvg [d] b) (-1, -1) menu)"
  proof (rule scan_best)
    fix i j
    assume "i < j" "j < length menu" "dish_type (menu ! i) = BVG" "dish_type (menu ! j) = BVG"
    with menu_id_nonneg [OF m, of "menu ! i"]
    show "cheapest_bvg [menu ! j] (dish_id (menu ! i), price (menu ! i)) =
        (if cheaper (menu ! j) (menu ! i) then (dish_id (menu ! j), price (menu ! j))
         else (dish_id (menu ! i), price (menu ! i)))"
      by (auto simp: cheaper_iff)
  next
    fix d :: dish and b :: "int \<times> int"
    assume "dish_type d \<noteq> BVG"
    then show "cheapest_bvg [d] b = b" by (cases b) simp
  qed (use cheaper_total [OF m] in \<open>auto intro: cheaper_trans\<close>)
  then show ?thesis
    by (metis best_so_far_chosen cheapest_bvg_foldl)
qed

lemma next_alc_Cons: "next_alc ids (d # menu) k b = next_alc ids menu (k + 1) (next_alc ids [d] k b)"
  by (cases b) (simp add: Let_def)

lemma next_alc_foldl:
  "menu_from k menu \<Longrightarrow>
   next_alc ids menu k b = foldl (\<lambda>b d. next_alc ids [d] (dish_id d) b) b menu"
proof (induction menu arbitrary: k b)
  case Nil
  then show ?case by simp
next
  case (Cons d menu)
  then have "dish_id d = k" "menu_from (k + 1) menu" by auto
  with Cons.IH show ?case
    by (subst next_alc_Cons) simp
qed

lemma next_alc_chosen:
  assumes m: "menu_from 0 menu" and pos: "\<forall>d \<in> set menu. 0 \<le> price d"
  shows "chosen (\<lambda>d. dish_type d = ALC \<and> dish_id d \<notin> set ids) cheaper menu
    (fst (next_alc ids menu 0 (-1, -1)))"
proof -
  have "best_so_far (\<lambda>d. dish_type d = ALC \<and> dish_id d \<notin> set ids) cheaper menu
      (foldl (\<lambda>b d. if d \<in> set menu then next_alc ids [d] (dish_id d) b
                    else if dish_type d = ALC \<and> dish_id d \<notin> set ids then (dish_id d, price d) else b)
         (-1, -1) menu)"
  proof (rule scan_best)
    fix i j
    assume "i < j" "j < length menu"
      "dish_type (menu ! i) = ALC \<and> dish_id (menu ! i) \<notin> set ids"
      "dish_type (menu ! j) = ALC \<and> dish_id (menu ! j) \<notin> set ids"
    moreover from this have "0 \<le> price (menu ! i)"
      using pos by simp
    ultimately show "(if menu ! j \<in> set menu
         then next_alc ids [menu ! j] (dish_id (menu ! j)) (dish_id (menu ! i), price (menu ! i))
         else if dish_type (menu ! j) = ALC \<and> dish_id (menu ! j) \<notin> set ids
              then (dish_id (menu ! j), price (menu ! j)) else (dish_id (menu ! i), price (menu ! i))) =
        (if cheaper (menu ! j) (menu ! i) then (dish_id (menu ! j), price (menu ! j))
         else (dish_id (menu ! i), price (menu ! i)))"
      using menu_ids_distinct [OF m, of i j] by (auto simp: cheaper_iff)
  next
    fix d :: dish and b :: "int \<times> int"
    assume "\<not> (dish_type d = ALC \<and> dish_id d \<notin> set ids)"
    then show "(if d \<in> set menu then next_alc ids [d] (dish_id d) b
                    else if dish_type d = ALC \<and> dish_id d \<notin> set ids then (dish_id d, price d) else b) = b"
      by (cases b) auto
  qed (use cheaper_total [OF m] in \<open>auto intro: cheaper_trans simp: Let_def\<close>)
  moreover have "foldl (\<lambda>b d. if d \<in> set menu then next_alc ids [d] (dish_id d) b
                    else if dish_type d = ALC \<and> dish_id d \<notin> set ids then (dish_id d, price d) else b)
         (-1, -1) menu = foldl (\<lambda>b d. next_alc ids [d] (dish_id d) b) (-1, -1) menu"
    by (rule foldl_cong) auto
  ultimately show ?thesis
    by (metis best_so_far_chosen next_alc_foldl [OF m])
qed

lemma cheapest_dish_append: "cheapest_dish (xs @ ys) b = cheapest_dish ys (cheapest_dish xs b)"
  by (induction xs b rule: cheapest_dish.induct) auto

lemma cheapest_dish_best:
  "menu_from 0 menu \<Longrightarrow> menu \<noteq> [] \<Longrightarrow>
   best_so_far (\<lambda>_. True) cheaper menu (cheapest_dish menu (dish_id (hd menu), price (hd menu)))"
proof (induction menu rule: rev_induct)
  case Nil
  then show ?case by simp
next
  case (snoc d xs)
  have m: "menu_from 0 xs" "dish_id d = int (length xs)"
    using snoc.prems by (auto simp: menu_from_append)
  show ?case
  proof (cases "xs = []")
    case True
    then show ?thesis by (simp add: best_so_far_def)
  next
    case False
    define b where "b = cheapest_dish xs (dish_id (hd xs), price (hd xs))"
    have best: "best_so_far (\<lambda>_. True) cheaper xs b"
      using snoc.IH m False by (simp add: b_def)
    have split: "cheapest_dish (xs @ [d]) (dish_id (hd (xs @ [d])), price (hd (xs @ [d]))) =
        cheapest_dish [d] b"
      using False by (simp add: cheapest_dish_append b_def)
    have "best_so_far (\<lambda>_. True) cheaper (xs @ [d]) (cheapest_dish [d] b)"
      using best
    proof (cases rule: best_so_far_cases)
      case none
      then show ?thesis using False by (cases xs) auto
    next
      case (some c)
      have "dish_id c < dish_id d"
        using m some(1) by (auto simp: in_set_conv_nth menu_from_def)
      then have "cheaper d c \<longleftrightarrow> price d < price c" "cheaper c d \<longleftrightarrow> \<not> price d < price c"
        by (auto simp: cheaper_iff)
      moreover have "best_so_far (\<lambda>_. True) cheaper (xs @ [d]) (dish_id d, price d)" if "cheaper d c"
        by (rule best_so_far_replace [of _ _ xs c])
          (use some best that cheaper_trans in auto)
      ultimately show ?thesis
        using some best_so_far_keep [of c xs "\<lambda>_. True" cheaper d] by auto
    qed
    then show ?thesis by (simp only: split)
  qed
qed

text \<open>Every customer orders by the rule of his kind. On a menu numbered from 0 the vegetarian
  orders the vegetarian dish with the smallest id and the dearest beverage (the smaller id on
  equal prices); the cheap customer orders the cheapest dish of the menu once and nothing
  afterwards; the spicy customer orders the dearest spicy dish first and the cheapest beverage
  afterwards. Where the menu has no such dish the id ordered is \<open>-1\<close>.
\<close>

theorem customers_order_by_rule:
  assumes "menu_from 0 menu" "menu \<noteq> []"
  shows "case cust_type c of
     Vegetarian \<Rightarrow> (\<exists>v b. customer_order c menu s = Ok ([v, b], c\<lparr>ordered := True\<rparr>) s
        \<and> chosen (\<lambda>d. dish_type d = VEG) (\<lambda>d e. dish_id d < dish_id e) menu v
        \<and> chosen (\<lambda>d. dish_type d = BVG) dearer menu b)
   | Cheap \<Rightarrow> (if ordered c then customer_order c menu s = Ok ([], c) s
        else \<exists>v. customer_order c menu s = Ok ([v], c\<lparr>ordered := True\<rparr>) s
           \<and> chosen (\<lambda>_. True) cheaper menu v)
   | Spicy \<Rightarrow> (\<exists>v. customer_order c menu s = Ok ([v], c\<lparr>firstOrder := True\<rparr>) s
        \<and> (if firstOrder c then chosen (\<lambda>d. dish_type d = BVG) cheaper menu v
            else chosen (\<lambda>d. dish_type d = SPC) dearer menu v))
   | Alchoholic \<Rightarrow> True"
proof (cases "cust_type c")
  case Vegetarian
  then show ?thesis
    using smallest_veg_chosen [of 0 menu] pricest_bvg_chosen [of menu] assms
    by (simp add: customer_order_def vegetarian_order_def)
next
  case Cheap
  have "chosen (\<lambda>_. True) cheaper menu
      (fst (cheapest_dish menu (dish_id (menu ! 0), price (menu ! 0))))"
    using best_so_far_chosen [OF cheapest_dish_best [of menu]] assms by (simp add: hd_conv_nth)
  then show ?thesis
    using Cheap assms by (simp add: customer_order_def cheap_order_def bnd_Ok)
next
  case Spicy
  have "firstOrder c \<Longrightarrow> c\<lparr>firstOrder := True\<rparr> = c"
    by (cases c) simp
  then show ?thesis
    using pricest_spc_chosen [of menu] cheapest_bvg_chosen [of menu] assms Spicy
    by (auto simp: customer_order_def spicy_order_def)
qed simp

definition demo_menu :: "dish list" where
  "demo_menu = [mk_dish 0 ''Salad'' 40 VEG, mk_dish 1 ''Water'' 10 BVG, mk_dish 2 ''Curry'' 50 SPC,
     mk_dish 3 ''Beer'' 25 ALC, mk_dish 4 ''Cola'' 10 BVG, mk_dish 5 ''Wine'' 20 ALC]"

theorem customers_order_by_rule_witness:
  "menu_from 0 demo_menu \<and> demo_menu \<noteq> [] \<and>
   (\<exists>v b. customer_order (mk_customer Vegetarian ''Ann'' 0) demo_menu (0 :: nat) =
       Ok ([v, b], (mk_customer Vegetarian ''Ann'' 0)\<lparr>ordered := True\<rparr>) 0
     \<and> chosen (\<lambda>d. dish_type d = VEG) (\<lambda>d e. dish_id d < dish_id e) demo_menu v
     \<and> chosen (\<lambda>d. dish_type d = BVG) dearer demo_menu b)"
proof -
  have m: "menu_from 0 demo_menu" "demo_menu \<noteq> []"
    by (simp_all add: demo_menu_def mk_dish_def)
  from customers_order_by_rule [OF m, of "mk_customer Vegetarian ''Ann'' 0" 0] m
  show ?thesis by (simp add: mk_customer_def)
qed

text \<open>What an alcoholic orders in \<open>n\<close> rounds.\<close>

fun alc_rounds :: "nat \<Rightarrow> customer \<Rightarrow> dish list \<Rightarrow> int list" where
  "alc_rounds 0 c menu = []"
| "alc_rounds (Suc n) c menu =
     (let (ids, c') = alchoholic_order c menu in ids @ alc_rounds n c' menu)"

definition alc_list :: "dish list \<Rightarrow> dish list" where
  "alc_list menu = sort_key dish_key (filter (\<lambda>d. dish_type d = ALC) menu)"

definition alc_nth :: "dish list \<Rightarrow> nat \<Rightarrow> int" where
  "alc_nth menu j = (if j < length (alc_list menu) then dish_id (alc_list menu ! j) else -1)"

lemma set_alc_list [simp]: "set (alc_list menu) = {d \<in> set menu. dish_type d = ALC}"
  by (simp add: alc_list_def)

lemma alc_list_ids:
  assumes m: "menu_from 0 menu" and "i < length (alc_list menu)" "j < length (alc_list menu)"
    and "dish_id (alc_list menu ! i) = dish_id (alc_list menu ! j)"
  shows "i = j"
proof -
  have "inj_on dish_id (set menu)"
    using m by (auto simp: inj_on_def in_set_conv_nth menu_from_def)
  then have "inj_on dish_id (set (alc_list menu))"
    by (rule inj_on_subset) auto
  moreover have "distinct menu"
    using m by (auto simp: distinct_conv_nth menu_from_def)
      (metis nat_int of_nat_eq_iff)
  ultimately have "distinct (map dish_id (alc_list menu))"
    by (simp add: distinct_map alc_list_def)
  then show ?thesis
    using assms(2-4) by (auto simp: distinct_conv_nth)
qed

lemma alc_chosen:
  assumes m: "menu_from 0 menu"
    and ch: "chosen (\<lambda>d. dish_type d = ALC \<and> dish_id d \<notin> set (map (alc_nth menu) [0..<j]))
       cheaper menu x"
  shows "x = alc_nth menu j"
proof (cases "j < length (alc_list menu)")
  case True
  define L where "L = alc_list menu"
  have Lj: "L ! j \<in> set menu" "dish_type (L ! j) = ALC"
    using True nth_mem [of j L] by (auto simp: L_def)
  have new: "dish_id (L ! j) \<notin> set (map (alc_nth menu) [0..<j])"
  proof
    assume "dish_id (L ! j) \<in> set (map (alc_nth menu) [0..<j])"
    then obtain i where "i < j" "dish_id (L ! j) = alc_nth menu i"
      by auto
    then show False
      using alc_list_ids [OF m _ True, of i] True by (simp add: L_def alc_nth_def)
  qed
  with ch Lj obtain d where d: "d \<in> set menu" "dish_type d = ALC"
      "dish_id d \<notin> set (map (alc_nth menu) [0..<j])" "x = dish_id d"
      "L ! j \<noteq> d \<longrightarrow> cheaper d (L ! j)"
    by (auto simp: chosen_def split: if_splits)
  then have "d \<in> set L" by (simp add: L_def)
  then obtain k where k: "k < length L" "d = L ! k"
    by (metis in_set_conv_nth)
  have "\<not> k < j"
  proof
    assume "k < j"
    then have "alc_nth menu k \<in> set (map (alc_nth menu) [0..<j])" by simp
    then show False
      using d(3) k by (simp add: alc_nth_def L_def)
  qed
  moreover have "\<not> j < k"
  proof
    assume "j < k"
    then have "dish_key (L ! j) \<le> dish_key (L ! k)"
      using k sorted_nth_mono [of "map dish_key L" j k] by (simp add: L_def alc_list_def)
    moreover have "L ! j \<noteq> d"
      using alc_list_ids [OF m] True k \<open>j < k\<close> by (fastforce simp: L_def)
    ultimately show False
      using d(5) k by (simp add: cheaper_def)
  qed
  ultimately have "k = j" by simp
  with d k True show ?thesis
    by (simp add: alc_nth_def L_def)
next
  case False
  have "dish_id d \<in> set (map (alc_nth menu) [0..<j])" if "d \<in> set menu" "dish_type d = ALC" for d
  proof -
    have "d \<in> set (alc_list menu)" using that by simp
    then obtain i where "i < length (alc_list menu)" "d = alc_list menu ! i"
      by (auto simp: in_set_conv_nth simp del: set_alc_list)
    then have "i < j" "dish_id d = alc_nth menu i"
      using False by (auto simp: alc_nth_def)
    then show ?thesis by simp
  qed
  with ch False show ?thesis
    by (auto simp: chosen_def alc_nth_def split: if_splits)
qed

lemma alc_rounds_from:
  assumes m: "menu_from 0 menu" and pos: "\<forall>d \<in> set menu. 0 \<le> price d"
  shows "idOrdered c = map (alc_nth menu) [0..<j] \<Longrightarrow>
    alc_rounds n c menu = map (alc_nth menu) [j..<j + n]"
proof (induction n arbitrary: c j)
  case 0
  then show ?case by simp
next
  case (Suc n)
  define x where "x = fst (next_alc (idOrdered c) menu 0 (-1, -1))"
  have "x = alc_nth menu j"
    using alc_chosen [OF m, of j x] next_alc_chosen [OF m pos, of "idOrdered c"]
    by (simp add: x_def Suc.prems)
  moreover have "alc_rounds n (c\<lparr>idOrdered := idOrdered c @ [x]\<rparr>) menu =
      map (alc_nth menu) [Suc j..<Suc j + n]"
    by (rule Suc.IH) (simp add: Suc.prems calculation)
  ultimately show ?case
    by (simp add: alchoholic_order_def Let_def x_def upt_conv_Cons del: upt_Suc)
qed

text \<open>C31: in successive rounds an alcoholic orders every alcoholic beverage of the menu exactly once,
  from the cheapest to the dearest (the smaller id first on equal prices), and nothing (id \<open>-1\<close>)
  once he has had them all: the loop with its sentinel agrees with sorting the beverages.
\<close>

theorem alchoholic_orders_sorted:
  assumes "menu_from 0 menu" "\<forall>d \<in> set menu. 0 \<le> price d"
  shows "alc_rounds n (mk_customer Alchoholic nm k) menu =
    take n (map dish_id (sort_key dish_key (filter (\<lambda>d. dish_type d = ALC) menu)) @ replicate n (-1))"
proof -
  have "alc_rounds n (mk_customer Alchoholic nm k) menu = map (alc_nth menu) [0..<0 + n]"
    by (rule alc_rounds_from [OF assms]) (simp add: mk_customer_def)
  also have "\<dots> = take n (map dish_id (alc_list menu) @ replicate n (-1))"
    by (rule nth_equalityI) (auto simp: alc_nth_def nth_append)
  finally show ?thesis by (simp add: alc_list_def)
qed

theorem alchoholic_orders_sorted_witness:
  "menu_from 0 demo_menu \<and> alc_rounds 3 (mk_customer Alchoholic ''Bob'' 1) demo_menu = [5, 3, -1]"
proof -
  have m: "menu_from 0 demo_menu" "\<forall>d \<in> set demo_menu. 0 \<le> price d"
    by (simp_all add: demo_menu_def mk_dish_def)
  have "sort_key dish_key (filter (\<lambda>d. dish_type d = ALC) demo_menu) =
      [mk_dish 5 ''Wine'' 20 ALC, mk_dish 3 ''Beer'' 25 ALC]"
    by (simp add: demo_menu_def mk_dish_def dish_key_def less_eq_prod_def less_prod_def)
  with alchoholic_orders_sorted [OF m, of 3 "''Bob''" 1] m
  show ?thesis by (simp add: mk_dish_def numeral_3_eq_3)
qed

end
