(* ===== verification/Table.thy ===== *)
theory Table
  imports Customer
begin

text \<open>
  The customers of the program as objects on the heap, and the tables (\<^verbatim>\<open>Table.cpp\<close>). A pointer
  to a customer is the number of a cell, or \<open>None\<close> for \<^verbatim>\<open>nullptr\<close>; a deleted cell holds nothing
  and is never used again, so that using a dangling pointer and deleting twice are undefined.
  A table is held by one vector only and is a value. \<^verbatim>\<open>Table(int)\<close> leaves the member
  \<^verbatim>\<open>open\<close> uninitialised: the value found there is an argument.
\<close>

section \<open>Objects\<close>

type_synonym ptr = "nat option"

record world =
  cells :: "nat \<Rightarrow> customer option"
  fresh :: nat
  cout :: string

definition new_customer :: "customer \<Rightarrow> ('a world_scheme, ptr) kern" where
  "new_customer c = bnd (gets fresh) (\<lambda>n.
     thn (modify (\<lambda>w. w\<lparr>cells := (cells w)(n := Some c), fresh := Suc n\<rparr>)) (ret (Some n)))"

definition deref :: "ptr \<Rightarrow> ('a world_scheme, customer) kern" where
  "deref p = (case p of None \<Rightarrow> undef | Some n \<Rightarrow>
     bnd (gets (\<lambda>w. cells w n)) (\<lambda>c. case c of None \<Rightarrow> undef | Some c \<Rightarrow> ret c))"

definition set_customer :: "ptr \<Rightarrow> customer \<Rightarrow> ('a world_scheme, unit) kern" where
  "set_customer p c = (case p of None \<Rightarrow> undef | Some n \<Rightarrow>
     modify (\<lambda>w. w\<lparr>cells := (cells w)(n := Some c)\<rparr>))"

text \<open>\<open>delete\<close>: nothing for \<^verbatim>\<open>nullptr\<close>, undefined for an object that is not there.\<close>

definition delete :: "ptr \<Rightarrow> ('a world_scheme, unit) kern" where
  "delete p = (case p of None \<Rightarrow> ret () | Some n \<Rightarrow>
     bnd (deref p) (\<lambda>_. modify (\<lambda>w. w\<lparr>cells := (cells w)(n := None)\<rparr>)))"

definition put_cout :: "string \<Rightarrow> ('a world_scheme, unit) kern" where
  "put_cout s = modify (\<lambda>w. w\<lparr>cout := cout w @ s\<rparr>)"

fun clone_all :: "ptr list \<Rightarrow> ('a world_scheme, ptr list) kern" where
  "clone_all [] = ret []"
| "clone_all (p # ps) = bnd (deref p) (\<lambda>c. bnd (new_customer (Customer_Clone c)) (\<lambda>q.
     bnd (clone_all ps) (\<lambda>qs. ret (q # qs))))"

section \<open>Tables\<close>

type_synonym order_pair = "int \<times> dish"

record table =
  currentCapacity :: int
  capacity :: int
  is_open :: bool
  customersList :: "ptr list"
  orderList :: "order_pair list"

definition Table_new :: "bool \<Rightarrow> int \<Rightarrow> table" where
  "Table_new indeterminate t_capacity = \<lparr>currentCapacity = 0, capacity = t_capacity,
     is_open = indeterminate, customersList = [], orderList = []\<rparr>"

definition Table_copy :: "table \<Rightarrow> ('a world_scheme, table) kern" where
  "Table_copy t = bnd (clone_all (customersList t)) (\<lambda>ps.
     ret \<lparr>currentCapacity = currentCapacity t, capacity = capacity t, is_open = is_open t,
       customersList = ps, orderList = orderList t\<rparr>)"

definition addCustomer :: "ptr \<Rightarrow> table \<Rightarrow> table" where
  "addCustomer p t =
     (if currentCapacity t < capacity t
      then t\<lparr>customersList := customersList t @ [p], currentCapacity := currentCapacity t + 1\<rparr>
      else t)"

text \<open>The first customer with the id, and the list without him.\<close>

fun erase_customer :: "int \<Rightarrow> ptr list \<Rightarrow> ('a world_scheme, ptr list) kern" where
  "erase_customer i [] = ret []"
| "erase_customer i (p # ps) = bnd (deref p) (\<lambda>c.
     if cust_id c = i then ret ps
     else bnd (erase_customer i ps) (\<lambda>qs. ret (p # qs)))"

fun getCustomer :: "int \<Rightarrow> ptr list \<Rightarrow> ('a world_scheme, ptr) kern" where
  "getCustomer i [] = ret None"
| "getCustomer i (p # ps) = bnd (deref p) (\<lambda>c. if cust_id c = i then ret p else getCustomer i ps)"

definition closeTable :: "table \<Rightarrow> ('a world_scheme, table) kern" where
  "closeTable t = thn (foreach (customersList t) delete)
     (ret (t\<lparr>customersList := [], currentCapacity := 0, is_open := False\<rparr>))"

definition removeCustomer :: "int \<Rightarrow> table \<Rightarrow> ('a world_scheme, table) kern" where
  "removeCustomer i t =
     (let t = (if customersList t = [] then t\<lparr>is_open := False\<rparr> else t) in
      bnd (erase_customer i (customersList t)) (\<lambda>ps.
      let t = t\<lparr>customersList := ps,
                orderList := filter (\<lambda>p. fst p \<noteq> i) (orderList t),
                currentCapacity := currentCapacity t - 1\<rparr> in
      if currentCapacity t = 0 then closeTable t else ret t))"

definition addDishes :: "int \<Rightarrow> order_pair list \<Rightarrow> table \<Rightarrow> table" where
  "addDishes i dishes t = t\<lparr>orderList := orderList t @ filter (\<lambda>p. fst p = i) dishes\<rparr>"

text \<open>\<open>Table::order\<close>: the inner loop over the dishes of one customer, then the loop over the
  first \<open>currentCapacity\<close> customers.\<close>

fun add_orders :: "customer \<Rightarrow> dish list \<Rightarrow> int list \<Rightarrow> ('a world_scheme, order_pair list) kern" where
  "add_orders c menu [] = ret []"
| "add_orders c menu (i # singleOrder) =
     (if i \<noteq> -1 then
        bnd (vec menu i) (\<lambda>d.
        thn (put_cout (cust_name c @ '' ordered '' @ dish_name d @ ''\<newline>''))
        (bnd (add_orders c menu singleOrder) (\<lambda>ps. ret ((cust_id c, d) # ps))))
      else add_orders c menu singleOrder)"

fun order_all :: "ptr list \<Rightarrow> nat \<Rightarrow> dish list \<Rightarrow> ('a world_scheme, order_pair list) kern" where
  "order_all ps 0 menu = ret []"
| "order_all [] (Suc n) menu = undef"
| "order_all (p # ps) (Suc n) menu =
     bnd (deref p) (\<lambda>c. bnd (customer_order c menu) (\<lambda>(singleOrder, c').
     thn (set_customer p c') (bnd (add_orders c' menu singleOrder) (\<lambda>os.
     bnd (order_all ps n menu) (\<lambda>rest. ret (os @ rest))))))"

definition table_order :: "dish list \<Rightarrow> table \<Rightarrow> ('a world_scheme, table) kern" where
  "table_order menu t = bnd (order_all (customersList t) (nat (currentCapacity t)) menu) (\<lambda>os.
     ret (t\<lparr>orderList := orderList t @ os\<rparr>))"

definition openTable :: "table \<Rightarrow> table" where
  "openTable t = t\<lparr>is_open := True\<rparr>"

fun sum_prices :: "order_pair list \<Rightarrow> int \<Rightarrow> ('s, int) kern" where
  "sum_prices [] bill = ret bill"
| "sum_prices (p # ps) bill = bnd (chk (bill + price (snd p))) (sum_prices ps)"

definition getBill :: "table \<Rightarrow> ('s, int) kern" where
  "getBill t = sum_prices (orderList t) 0"

definition isFull :: "table \<Rightarrow> bool" where
  "isFull t = (currentCapacity t = capacity t)"

text \<open>\<open>Table::operator=\<close> shares the customers and appends the orders.\<close>

definition Table_assign :: "table \<Rightarrow> table \<Rightarrow> table" where
  "Table_assign this t = this\<lparr>capacity := capacity t, customersList := customersList t,
     currentCapacity := currentCapacity t, is_open := is_open t,
     orderList := orderList this @ orderList t\<rparr>"

end
