(* ===== verification/Action.thy ===== *)
theory Action
  imports Table
begin

text \<open>
  The actions of the restaurant (\<^verbatim>\<open>Action.h\<close>, \<^verbatim>\<open>Action.cpp\<close>). The subclasses of
  \<^verbatim>\<open>BaseAction\<close> are the constructors of \<open>action_kind\<close>; an action is a record of its kind and of
  the members of \<^verbatim>\<open>BaseAction\<close>. Each action is held by one vector only and is a value; the
  customers of an \<^verbatim>\<open>OpenTable\<close> are pointers that it shares with the table it opened.
  \<^verbatim>\<open>act\<close> gives the action back with its new status. \<^verbatim>\<open>CloseAll\<close> does not define
  \<^verbatim>\<open>Clone\<close>, so the class is abstract and no object of it exists; its \<^verbatim>\<open>act\<close> is here as a function.
\<close>

section \<open>Data\<close>

datatype ActionStatus = PENDING | COMPLETED | ERROR

datatype action_kind =
    OpenTable int "ptr list" | Order int | MoveCustomer int int int | Close int
  | PrintMenu | PrintTableStatus int | PrintActionsLog | BackupRestaurant | RestoreResturant

record action =
  status :: ActionStatus
  errorMsg :: string
  kind :: action_kind

definition BaseAction :: "action_kind \<Rightarrow> action" where
  "BaseAction k = \<lparr>status = PENDING, errorMsg = '''', kind = k\<rparr>"

record restaurant =
  numOfTables :: int
  tables :: "table list"
  menu :: "dish list"
  actionsLog :: "action list"
  customerCount :: int

text \<open>The restaurant that the program runs, and its global \<^verbatim>\<open>backup\<close>.\<close>

record rworld = world +
  rest :: restaurant
  backup :: "restaurant option"

type_synonym 'a cpp = "(rworld, 'a) kern"

section \<open>Members of BaseAction\<close>

definition set_error :: "string \<Rightarrow> action \<Rightarrow> action" where
  "set_error msg a = a\<lparr>errorMsg := msg\<rparr>"

definition getErrorMsg :: "action \<Rightarrow> string" where
  "getErrorMsg a = (if errorMsg a \<noteq> '''' then '': '' @ errorMsg a else '''')"

definition statusTostring :: "action \<Rightarrow> string" where
  "statusTostring a = (case status a of ERROR \<Rightarrow> ''Error'' | COMPLETED \<Rightarrow> ''Completed'' | PENDING \<Rightarrow> ''Pending'')"

section \<open>Access to the restaurant\<close>

definition getTable :: "int \<Rightarrow> table cpp" where
  "getTable ind = bnd (gets rest) (\<lambda>r. vec_at (tables r) ind)"

definition putTable :: "int \<Rightarrow> table \<Rightarrow> unit cpp" where
  "putTable ind t = modify (\<lambda>w. w\<lparr>rest := (rest w)\<lparr>tables := (tables (rest w))[nat ind := t]\<rparr>\<rparr>)"

definition getNumOfTables :: "restaurant \<Rightarrow> int" where
  "getNumOfTables r = int (length (tables r))"

section \<open>Copies and destruction\<close>

text \<open>\<^verbatim>\<open>OpenTable::Clone\<close> clones the customers and sets the error message to the one that
  \<^verbatim>\<open>getErrorMsg\<close> decorates; the other classes copy status and message.\<close>

definition action_Clone :: "action \<Rightarrow> ('a world_scheme, action) kern" where
  "action_Clone a = (case kind a of
       OpenTable t ps \<Rightarrow> bnd (clone_all ps) (\<lambda>qs.
         ret (set_error (getErrorMsg a) ((BaseAction (OpenTable t qs))\<lparr>status := status a\<rparr>)))
     | _ \<Rightarrow> ret a)"

fun clone_log :: "action list \<Rightarrow> ('a world_scheme, action list) kern" where
  "clone_log [] = ret []"
| "clone_log (a # as) = bnd (action_Clone a) (\<lambda>b. bnd (clone_log as) (\<lambda>bs. ret (b # bs)))"

text \<open>The loops of \<^verbatim>\<open>~OpenTable\<close>: the first runs over the vector up to a null pointer; the
  second tests \<open>0 < customers.size()\<close>, so with customers it runs to a null pointer or past the
  end.\<close>

fun delete_until_null :: "ptr list \<Rightarrow> ('a world_scheme, unit) kern" where
  "delete_until_null [] = ret ()"
| "delete_until_null (p # ps) = (if p = None then ret () else thn (delete p) (delete_until_null ps))"

fun delete_past_end :: "ptr list \<Rightarrow> ('a world_scheme, unit) kern" where
  "delete_past_end [] = undef"
| "delete_past_end (p # ps) = (if p = None then ret () else thn (delete p) (delete_past_end ps))"

definition destroy_action :: "action \<Rightarrow> ('a world_scheme, unit) kern" where
  "destroy_action a = (case kind a of
       OpenTable t ps \<Rightarrow>
         thn (whenk (status a = ERROR) (delete_until_null ps))
             (if ps = [] then ret () else delete_past_end ps)
     | _ \<Rightarrow> ret ())"

section \<open>Text\<close>

fun customers_text :: "ptr list \<Rightarrow> ('a world_scheme, string) kern" where
  "customers_text [] = ret ''''"
| "customers_text (p # ps) = bnd (deref p) (\<lambda>c. bnd (customers_text ps) (\<lambda>s.
     ret (cust_name c @ '','' @ getType c @ '' '' @ s)))"

definition action_toString :: "action \<Rightarrow> ('a world_scheme, string) kern" where
  "action_toString a = (case kind a of
       OpenTable t ps \<Rightarrow> bnd (customers_text ps) (\<lambda>s.
         ret (''open '' @ to_string t @ '' '' @ s @ statusTostring a @ getErrorMsg a))
     | Order t \<Rightarrow> ret (''order '' @ to_string t @ '' '' @ statusTostring a @ getErrorMsg a)
     | MoveCustomer src dst i \<Rightarrow> ret (''move '' @ to_string src @ '' '' @ to_string dst @ '' ''
         @ to_string i @ '' '' @ statusTostring a @ getErrorMsg a)
     | Close t \<Rightarrow> ret (statusTostring a @ '' '' @ getErrorMsg a @ ''\<newline>'')
     | PrintMenu \<Rightarrow> ret ''''
     | PrintTableStatus t \<Rightarrow> ret (''status '' @ to_string t @ '' '' @ statusTostring a @ getErrorMsg a)
     | PrintActionsLog \<Rightarrow> ret ''''
     | BackupRestaurant \<Rightarrow> ret (''backup '' @ statusTostring a)
     | RestoreResturant \<Rightarrow> ret (''restore '' @ statusTostring a))"

end
