(* ===== verification/RestConfig.thy ===== *)
theory RestConfig
  imports Action
begin

text \<open>
  Text handling of \<^verbatim>\<open>Restaurant.cpp\<close>: splitting a command into words, decimal numbers, and the
  constructor that reads the configuration file. A file is the list of its lines. Loops over the
  characters of a string are recursions over its list.
\<close>

section \<open>Words and numbers\<close>

definition is_sep :: "char \<Rightarrow> bool" where
  "is_sep c = (c = CHR '' '' \<or> c = CHR '','')"

text \<open>The condition that guards the inner loop of \<^verbatim>\<open>getWordVec\<close>, \<^verbatim>\<open>c != ' ' || c != ','\<close>, always
  holds: each turn of the outer loop takes one word, which may be empty, and one separator.\<close>

function getWordVec :: "string \<Rightarrow> string list" where
  "getWordVec str =
     (if str = [] then []
      else takeWhile (\<lambda>c. \<not> is_sep c) str #
           getWordVec (drop 1 (dropWhile (\<lambda>c. \<not> is_sep c) str)))"
  by pat_completeness auto
termination
proof (relation "measure length")
  fix str :: string
  assume "str \<noteq> []"
  moreover have "length (dropWhile (\<lambda>c. \<not> is_sep c) str) \<le> length str"
    by (rule length_dropWhile_le)
  ultimately show "(drop 1 (dropWhile (\<lambda>c. \<not> is_sep c) str), str) \<in> measure length"
    by (cases str) auto
qed simp

declare getWordVec.simps [simp del]

definition stringToInt :: "string \<Rightarrow> ('s, int) kern" where
  "stringToInt str = dec_scan str 0"

fun getFirstWord :: "string \<Rightarrow> string" where
  "getFirstWord [] = []"
| "getFirstWord (c # cs) = (if c \<noteq> CHR '' '' then c # getFirstWord cs else [])"

fun second_word :: "string \<Rightarrow> nat \<Rightarrow> string" where
  "second_word [] counter = []"
| "second_word (c # cs) counter =
     (if counter = 1 \<and> c \<noteq> CHR '' '' then [c] else [])
     @ second_word cs (if c = CHR '' '' then counter + 1 else counter)"

definition getSecondWord :: "string \<Rightarrow> string" where
  "getSecondWord str = second_word str 0"

fun after_two :: "string \<Rightarrow> nat \<Rightarrow> string" where
  "after_two [] counter = []"
| "after_two (c # cs) counter =
     (if counter = 2 then [c] else []) @ after_two cs (if c = CHR '' '' then counter + 1 else counter)"

definition getAftertTwo :: "string \<Rightarrow> string" where
  "getAftertTwo str = after_two str 0"

section \<open>The configuration file\<close>

text \<open>What the constructor holds between two lines.\<close>

record config =
  cfg_numOfTables :: int
  cfg_capacitys :: "int list"
  cfg_tables :: "table list"
  cfg_dishId :: int
  cfg_menu :: "dish list"

definition config0 :: config where
  "config0 = \<lparr>cfg_numOfTables = 0, cfg_capacitys = [], cfg_tables = [], cfg_dishId = 0, cfg_menu = []\<rparr>"

text \<open>A line that is neither empty nor a comment.\<close>

definition is_data :: "string \<Rightarrow> bool" where
  "is_data line = (line \<noteq> [] \<and> hd line \<noteq> CHR ''#'')"

text \<open>The first data line: one digit, the number of tables.\<close>

definition read_number :: "string \<Rightarrow> config \<Rightarrow> config" where
  "read_number line k =
     (let n = schar (hd line) - 48
      in k\<lparr>cfg_numOfTables := n, cfg_capacitys := cfg_capacitys k @ replicate (nat n) 0\<rparr>)"

text \<open>The second one: the capacities. The loop goes one step past the end of the line, where the
  last number ends. \<open>b\<close> is what a new table finds in its member \<^verbatim>\<open>open\<close>.\<close>

definition end_of_capacity :: "bool \<Rightarrow> nat \<Rightarrow> config \<Rightarrow> ('s, config) kern" where
  "end_of_capacity b index k =
     (if int index < cfg_numOfTables k
      then bnd (vec (cfg_capacitys k) (int index)) (\<lambda>c.
           ret (k\<lparr>cfg_tables := cfg_tables k @ [Table_new b c]\<rparr>))
      else ret k)"

fun read_capacities :: "bool \<Rightarrow> string \<Rightarrow> nat \<Rightarrow> config \<Rightarrow> ('s, config) kern" where
  "read_capacities b [] index k = end_of_capacity b index k"
| "read_capacities b (c # cs) index k =
     (if c \<noteq> CHR '','' \<and> c \<noteq> CHR 0x0D then
        bnd (vec (cfg_capacitys k) (int index)) (\<lambda>n.
        bnd (chk (n * 10)) (\<lambda>a. bnd (chk (a + (schar c - 48))) (\<lambda>m.
        read_capacities b cs index (k\<lparr>cfg_capacitys := (cfg_capacitys k)[index := m]\<rparr>))))
      else bnd (end_of_capacity b index k) (read_capacities b cs (index + 1)))"

text \<open>Every other one: a dish. \<open>field_end\<close> is the inner \<^verbatim>\<open>while\<close>, which first reads
  \<^verbatim>\<open>freader[index]\<close>: undefined when the line had too few fields and \<open>index\<close> is past the NUL.\<close>

function field_end :: "string \<Rightarrow> nat \<Rightarrow> ('s, nat) kern" where
  "field_end line index = bnd (str_at line index) (\<lambda>c.
     if c \<noteq> CHR '','' \<and> c \<noteq> CHR 0x0D \<and> index < length line
     then field_end line (index + 1) else ret index)"
  by pat_completeness auto
termination
  by (relation "measure (\<lambda>(line, index). length line - index)") auto

declare field_end.simps [simp del]

definition dish_type_of :: "string \<Rightarrow> DishType" where
  "dish_type_of s = (if s = ''VEG'' then VEG else if s = ''SPC'' then SPC
     else if s = ''BVG'' then BVG else ALC)"

definition read_dish :: "string \<Rightarrow> config \<Rightarrow> ('s, config) kern" where
  "read_dish line k =
     bnd (field_end line 0) (\<lambda>end0.
     bnd (field_end line (end0 + 1)) (\<lambda>end1.
     bnd (field_end line (end1 + 1)) (\<lambda>end2.
     bnd (dec_scan (slice (end1 + 1) (end2 - (end1 + 1)) line) 0) (\<lambda>pr.
     bnd (substr line (end0 + 1) (end1 - (end0 + 1))) (\<lambda>ty.
     bnd (substr line 0 end0) (\<lambda>nm.
     ret (k\<lparr>cfg_menu := cfg_menu k @ [mk_dish (cfg_dishId k) nm pr (dish_type_of ty)],
           cfg_dishId := cfg_dishId k + 1\<rparr>)))))))"

definition read_line :: "bool \<Rightarrow> string \<Rightarrow> config \<Rightarrow> ('s, config) kern" where
  "read_line b line k =
     (if \<not> is_data line then ret k
      else if cfg_numOfTables k = 0 then ret (read_number line k)
      else bnd (vec (cfg_capacitys k) 0) (\<lambda>c.
        if c = 0 then read_capacities b line 0 k else read_dish line k))"

fun read_lines :: "bool \<Rightarrow> string list \<Rightarrow> config \<Rightarrow> ('s, config) kern" where
  "read_lines b [] k = ret k"
| "read_lines b (line # lines) k = bnd (read_line b line k) (read_lines b lines)"

text \<open>\<^verbatim>\<open>Restaurant(configFilePath)\<close>: \<open>None\<close> is a file that cannot be opened.\<close>

definition Restaurant_new :: "bool \<Rightarrow> string list option \<Rightarrow> unit cpp" where
  "Restaurant_new b file = (case file of
       None \<Rightarrow> put_cout ''cant open''
     | Some lines \<Rightarrow> bnd (read_lines b lines config0) (\<lambda>k.
         modify (\<lambda>w. w\<lparr>rest := \<lparr>numOfTables = cfg_numOfTables k, tables = cfg_tables k,
            menu = cfg_menu k, actionsLog = [], customerCount = 0\<rparr>\<rparr>)))"

section \<open>Splitting is the inverse of joining\<close>

fun join_words :: "char \<Rightarrow> string list \<Rightarrow> string" where
  "join_words c [] = []"
| "join_words c [w] = w"
| "join_words c (w # ws) = w @ c # join_words c ws"

lemma getWordVec_step:
  assumes "\<forall>c \<in> set w. \<not> is_sep c"
  shows "getWordVec (w @ s # str) = (if is_sep s then w # getWordVec str else getWordVec (w @ s # str))"
proof (cases "is_sep s")
  case True
  then show ?thesis
    using assms by (subst getWordVec.simps) (simp add: takeWhile_append2 dropWhile_append2)
qed simp

lemma getWordVec_last:
  assumes "\<forall>c \<in> set w. \<not> is_sep c" "w \<noteq> []"
  shows "getWordVec w = [w]"
proof -
  have "takeWhile (\<lambda>c. \<not> is_sep c) w = w" "dropWhile (\<lambda>c. \<not> is_sep c) w = []"
    using assms by (simp_all add: takeWhile_eq_all_conv dropWhile_eq_Nil_conv)
  then have "getWordVec w = w # getWordVec (drop 1 [])"
    using assms(2) by (subst getWordVec.simps) (simp only: if_False)
  then show ?thesis
    by (simp add: getWordVec.simps [of "[]"])
qed

text \<open>A command line that is a list of words without blanks or commas, joined by single
  separators, is split into these words again. Words in the middle may be empty; an empty last
  word would be lost.
\<close>

theorem getWordVec_join:
  assumes "is_sep c" "\<forall>w \<in> set ws. \<forall>c \<in> set w. \<not> is_sep c" "ws \<noteq> []" "last ws \<noteq> []"
  shows "getWordVec (join_words c ws) = ws"
  using assms(2-4)
proof (induction ws rule: induct_list012)
  case 1
  then show ?case by simp
next
  case (2 w)
  then show ?case by (simp add: getWordVec_last)
next
  case (3 w v ws)
  then show ?case
    using getWordVec_step [of w c "join_words c (v # ws)"] assms(1) by simp
qed

theorem getWordVec_join_witness:
  "is_sep (CHR '' '') \<and>
   getWordVec (join_words (CHR '' '') [''open'', ''2'', ''Ann'', ''veg'']) = [''open'', ''2'', ''Ann'', ''veg'']"
  using getWordVec_join [of "CHR '' ''" "[''open'', ''2'', ''Ann'', ''veg'']"]
  by (simp add: is_sep_def)

section \<open>Reading a printed configuration\<close>

lemma digits_chars: "c \<in> set (digits n) \<Longrightarrow> \<exists>d < 10 :: nat. c = char_of (48 + d)"
proof (induction n rule: digits.induct)
  case (1 n)
  show ?case
  proof (cases "n < 10")
    case True
    with 1(2) show ?thesis by (auto simp: digits.simps [of n])
  next
    case False
    with 1 have "c \<in> set (digits (n div 10)) \<or> c = char_of (48 + n mod 10)"
      by (auto simp: digits.simps [of n])
    moreover have "n mod 10 < 10" by simp
    ultimately show ?thesis using 1(1) False by blast
  qed
qed

lemma digit_char: "d < 10 \<Longrightarrow> of_char (char_of (48 + d)) = (48 + d :: nat)"
  by (simp only: of_char_of) simp

lemma digits_plain:
  assumes "c \<in> set (digits n)"
  shows "c \<noteq> CHR '','' \<and> c \<noteq> CHR 0x0D"
proof -
  obtain d :: nat where d: "d < 10" "c = char_of (48 + d)"
    using digits_chars assms by blast
  then have "(of_char c :: nat) = 48 + d"
    using digit_char by simp
  moreover have "(of_char (CHR '','') :: nat) = 44" "(of_char (CHR 0x0D) :: nat) = 13"
    by simp_all
  ultimately show ?thesis by auto
qed

lemma digits_nonempty: "digits n \<noteq> []"
  by (subst digits.simps) simp

lemma field_end_run:
  assumes "\<forall>c \<in> set w. c \<noteq> CHR '','' \<and> c \<noteq> CHR 0x0D"
    and "line = pre @ w @ post" "post = [] \<or> hd post = CHR '',''"
  shows "field_end line (length pre) s = Ok (length pre + length w) s"
  using assms
proof (induction w arbitrary: pre)
  case Nil
  then show ?case
    by (subst field_end.simps) (cases post; auto simp: str_at_def bnd_def nth_append)
next
  case (Cons c w)
  have "field_end line (length (pre @ [c])) s = Ok (length (pre @ [c]) + length w) s"
    by (rule Cons.IH) (use Cons.prems in auto)
  then show ?case
    using Cons.prems by (subst field_end.simps) (simp add: str_at_def bnd_def nth_append)
qed

definition type_text :: "DishType \<Rightarrow> string" where
  "type_text t = (case t of VEG \<Rightarrow> ''VEG'' | SPC \<Rightarrow> ''SPC'' | BVG \<Rightarrow> ''BVG'' | ALC \<Rightarrow> ''ALC'')"

definition dish_line :: "string \<times> DishType \<times> nat \<Rightarrow> string" where
  "dish_line e = (case e of (nm, ty, pr) \<Rightarrow> nm @ '','' @ type_text ty @ '','' @ digits pr)"

definition good_entry :: "string \<times> DishType \<times> nat \<Rightarrow> bool" where
  "good_entry e = (case e of (nm, ty, pr) \<Rightarrow> nm \<noteq> [] \<and> hd nm \<noteq> CHR ''#'' \<and>
     (\<forall>c \<in> set nm. c \<noteq> CHR '','' \<and> c \<noteq> CHR 0x0D) \<and> pr + 48 < 2147483648)"

lemma type_text_plain: "c \<in> set (type_text ty) \<Longrightarrow> c \<noteq> CHR '','' \<and> c \<noteq> CHR 0x0D"
  by (cases ty) (auto simp: type_text_def)

lemma dish_type_of_text: "dish_type_of (type_text ty) = ty"
  by (cases ty) (simp_all add: dish_type_of_def type_text_def)

lemma read_dish_line:
  assumes "good_entry (nm, ty, pr)"
  shows "read_dish (dish_line (nm, ty, pr)) k s =
    Ok (k\<lparr>cfg_menu := cfg_menu k @ [mk_dish (cfg_dishId k) nm (int pr) ty],
          cfg_dishId := cfg_dishId k + 1\<rparr>) s"
proof -
  define line where "line = dish_line (nm, ty, pr)"
  have line: "line = nm @ '','' @ type_text ty @ '','' @ digits pr"
    by (simp add: line_def dish_line_def)
  define e1 where "e1 = length nm + 1 + length (type_text ty)"
  have f0: "field_end line 0 s = Ok (length nm) s"
    using field_end_run [of nm line "[]" "'','' @ type_text ty @ '','' @ digits pr" s] assms line
    by (simp add: good_entry_def)
  have f1: "field_end line (Suc (length nm)) s = Ok e1 s"
    using field_end_run [of "type_text ty" line "nm @ '',''" "'','' @ digits pr" s] line type_text_plain
    by (auto simp: e1_def)
  have f2: "field_end line (Suc e1) s = Ok (e1 + 1 + length (digits pr)) s"
    using field_end_run [of "digits pr" line "nm @ '','' @ type_text ty @ '',''" "[]" s] line digits_plain
    by (auto simp: e1_def)
  have pr: "slice (e1 + 1) (length (digits pr)) line = digits pr"
    "dec_scan (digits pr) 0 s = Ok (int pr) s"
    using dec_scan_digits [of pr s] assms by (simp_all add: slice_def line e1_def good_entry_def)
  have sub: "take (length (type_text ty)) (drop (Suc (length nm)) line) = type_text ty"
    "take (length nm) line = nm"
    by (simp_all add: line)
  have len: "Suc (length nm) \<le> length line"
    by (simp add: line)
  show ?thesis
    using f0 f1 f2 pr sub len
    by (simp add: read_dish_def bnd_def substr_def dish_type_of_text flip: line_def)
      (simp add: e1_def dish_type_of_text)
qed

text \<open>The dishes that the lines stand for, numbered from \<open>n\<close>.\<close>

fun dishes_of :: "(string \<times> DishType \<times> nat) list \<Rightarrow> int \<Rightarrow> dish list" where
  "dishes_of [] n = []"
| "dishes_of ((nm, ty, pr) # es) n = mk_dish n nm (int pr) ty # dishes_of es (n + 1)"

lemma menu_from_dishes_of: "menu_from n (dishes_of es n)"
  by (induction es n rule: dishes_of.induct) (auto simp: mk_dish_def)

lemma read_dish_lines:
  assumes "\<forall>e \<in> set es. good_entry e" "cfg_numOfTables k \<noteq> 0" "cfg_capacitys k \<noteq> []"
    "hd (cfg_capacitys k) \<noteq> 0"
  shows "read_lines b (map dish_line es) k s =
    Ok (k\<lparr>cfg_menu := cfg_menu k @ dishes_of es (cfg_dishId k),
          cfg_dishId := cfg_dishId k + int (length es)\<rparr>) s"
  using assms
proof (induction es arbitrary: k)
  case Nil
  then show ?case by simp
next
  case (Cons e es)
  obtain nm ty pr where e: "e = (nm, ty, pr)" by (cases e)
  have g: "good_entry (nm, ty, pr)" using Cons.prems e by simp
  have "is_data (dish_line e)"
    using g by (auto simp: e is_data_def dish_line_def good_entry_def)
  moreover have "cfg_capacitys k ! 0 \<noteq> 0" "0 < length (cfg_capacitys k)"
    using Cons.prems by (simp_all add: hd_conv_nth)
  ultimately show ?case
    using Cons.prems Cons.IH read_dish_line [OF g, of k s]
    by (simp add: read_line_def bnd_def e algebra_simps)
qed

lemma read_capacity_digits:
  assumes "index < length (cfg_capacitys k)" "cfg_capacitys k ! index = 0" "n < 2147483648"
  shows "read_capacities b (digits n @ cs) index k s =
    read_capacities b cs index (k\<lparr>cfg_capacitys := (cfg_capacitys k)[index := int n]\<rparr>) s"
  using assms
proof (induction n arbitrary: cs rule: digits.induct)
  case (1 n)
  have step: "read_capacities b (char_of (48 + d) # cs) index q s =
      read_capacities b cs index (q\<lparr>cfg_capacitys := (cfg_capacitys q)[index := v * 10 + int d]\<rparr>) s"
    if "d < 10" "index < length (cfg_capacitys q)" "cfg_capacitys q ! index = v" "0 \<le> v"
      "v * 10 + int d < 2147483648" for d q v cs
  proof -
    have "char_of (48 + d) \<noteq> CHR '','' \<and> char_of (48 + d) \<noteq> CHR 0x0D"
      using digits_plain [of "char_of (48 + d)" d] that(1) by (simp add: digits.simps [of d])
    then show ?thesis
      using that by (simp add: bnd_def schar_digit)
  qed
  show ?case
  proof (cases "n < 10")
    case True
    then show ?thesis
      using step [of n k 0] 1(2-) by (subst digits.simps) simp
  next
    case False
    have n: "int (n div 10) * 10 + int (n mod 10) = int n"
      by presburger
    have "read_capacities b (digits n @ cs) index k s =
        read_capacities b (char_of (48 + n mod 10) # cs) index
          (k\<lparr>cfg_capacitys := (cfg_capacitys k)[index := int (n div 10)]\<rparr>) s"
      using 1(1) [of "char_of (48 + n mod 10) # cs"] 1(2-) False by (subst digits.simps) simp
    also have "\<dots> = read_capacities b cs index
        (k\<lparr>cfg_capacitys := (cfg_capacitys k)[index := int n]\<rparr>) s"
      using step [of "n mod 10" "k\<lparr>cfg_capacitys := (cfg_capacitys k)[index := int (n div 10)]\<rparr>"
          "int (n div 10)" cs] 1(2-) n
      by simp
    finally show ?thesis .
  qed
qed

lemma read_capacities_line:
  assumes "caps \<noteq> []" "cfg_capacitys k = done_caps @ replicate (length caps) 0"
    "cfg_numOfTables k = int (length done_caps + length caps)" "\<forall>c \<in> set caps. c < 2147483648"
  shows "read_capacities b (join_words (CHR '','') (map digits caps)) (length done_caps) k s =
    Ok (k\<lparr>cfg_capacitys := done_caps @ map int caps,
          cfg_tables := cfg_tables k @ map (\<lambda>c. Table_new b (int c)) caps\<rparr>) s"
  using assms
proof (induction caps arbitrary: k done_caps rule: induct_list012)
  case 1
  then show ?case by simp
next
  case (2 c)
  then have "read_capacities b (digits c @ []) (length done_caps) k s =
      read_capacities b [] (length done_caps)
        (k\<lparr>cfg_capacitys := (cfg_capacitys k)[length done_caps := int c]\<rparr>) s"
    by (intro read_capacity_digits) (auto simp: nth_append)
  then show ?case
    using 2 by (simp add: end_of_capacity_def bnd_def nth_append)
next
  case (3 c d caps)
  define q where "q = k\<lparr>cfg_capacitys := (done_caps @ [int c]) @ replicate (length (d # caps)) 0,
    cfg_tables := cfg_tables k @ [Table_new b (int c)]\<rparr>"
  have "read_capacities b (digits c @ CHR '','' # join_words (CHR '','') (map digits (d # caps)))
      (length done_caps) k s =
    read_capacities b (CHR '','' # join_words (CHR '','') (map digits (d # caps))) (length done_caps)
      (k\<lparr>cfg_capacitys := (cfg_capacitys k)[length done_caps := int c]\<rparr>) s"
    by (rule read_capacity_digits) (use 3 in \<open>auto simp: nth_append\<close>)
  also have "\<dots> = read_capacities b (join_words (CHR '','') (map digits (d # caps)))
      (length (done_caps @ [int c])) q s"
    using 3(4) 3(5) by (simp add: end_of_capacity_def bnd_def nth_append q_def list_update_append)
  also have "\<dots> = Ok (q\<lparr>cfg_capacitys := (done_caps @ [int c]) @ map int (d # caps),
      cfg_tables := cfg_tables q @ map (\<lambda>c. Table_new b (int c)) (d # caps)\<rparr>) s"
    by (rule 3(2)) (use 3 in \<open>auto simp: q_def\<close>)
  finally show ?case by (simp add: q_def)
qed

text \<open>C36: a configuration file with a line for the number of tables (one digit), a line of
  capacities and a line per dish is read back: the constructor builds closed or indeterminate
  tables of these capacities and a menu that numbers the dishes from 0 in the order of the file.
\<close>

theorem configuration_roundtrip:
  assumes "0 < length caps" "length caps \<le> 9" "hd caps \<noteq> 0" "\<forall>c \<in> set caps. c < 2147483648"
    and "\<forall>e \<in> set es. good_entry e"
  shows "Restaurant_new b (Some ([char_of (48 + length caps)]
      # join_words (CHR '','') (map digits caps) # map dish_line es)) w =
    Ok () (w\<lparr>rest := \<lparr>numOfTables = int (length caps), tables = map (\<lambda>c. Table_new b (int c)) caps,
      menu = dishes_of es 0, actionsLog = [], customerCount = 0\<rparr>\<rparr>)
    \<and> menu_from 0 (dishes_of es 0)"
proof -
  define k1 where "k1 = config0\<lparr>cfg_numOfTables := int (length caps),
    cfg_capacitys := replicate (length caps) 0\<rparr>"
  define k2 where "k2 = k1\<lparr>cfg_capacitys := map int caps,
    cfg_tables := map (\<lambda>c. Table_new b (int c)) caps\<rparr>"
  have sharp: "(of_char (CHR ''#'') :: nat) = 35"
    by simp
  have data: "is_data (char_of (48 + d) # cs)" if "d < 10" for d :: nat and cs
  proof -
    have "char_of (48 + d) \<noteq> CHR ''#''"
    proof
      assume "char_of (48 + d) = CHR ''#''"
      then have "48 + d = 35"
        using digit_char [OF that] sharp by (simp only:)
      then show False by simp
    qed
    then show ?thesis by (simp add: is_data_def)
  qed
  have l1: "read_line b [char_of (48 + length caps)] config0 s = Ok k1 s" for s :: rworld
    using data [of "length caps"] assms(2)
    by (simp add: read_line_def read_number_def config0_def k1_def schar_digit)
  obtain c cs where caps: "caps = c # cs"
    using assms(1) by (cases caps) auto
  obtain x xs where x: "digits c = x # xs" "x \<in> set (digits c)"
    using digits_nonempty [of c] by (cases "digits c") auto
  then obtain d :: nat where "d < 10" "x = char_of (48 + d)"
    using digits_chars by blast
  then have "is_data (join_words (CHR '','') (map digits caps))"
    using data [of d] x caps by (cases cs) auto
  then have l2: "read_line b (join_words (CHR '','') (map digits caps)) k1 s = Ok k2 s" for s :: rworld
    using read_capacities_line [of caps k1 "[]" b s] assms
    by (simp add: read_line_def k1_def k2_def bnd_def config0_def)
  have "hd (cfg_capacitys k2) \<noteq> 0" "cfg_capacitys k2 \<noteq> []" "cfg_numOfTables k2 \<noteq> 0"
    using assms(3) caps by (simp_all add: k2_def k1_def)
  from this(3,2,1) have l3: "read_lines b (map dish_line es) k2 s =
      Ok (k2\<lparr>cfg_menu := cfg_menu k2 @ dishes_of es (cfg_dishId k2),
          cfg_dishId := cfg_dishId k2 + int (length es)\<rparr>) s" for s :: rworld
    by (rule read_dish_lines [OF assms(5)])
  show ?thesis
    using menu_from_dishes_of
    by (simp add: Restaurant_new_def bnd_def l1 l2 l3) (simp add: k2_def k1_def config0_def)
qed

theorem configuration_roundtrip_witness:
  "\<forall>w. \<exists>w'. Restaurant_new False (Some [''2'', ''4,12'', ''Salad,VEG,40'', ''Wine,ALC,20'']) w = Ok () w'
     \<and> map capacity (tables (rest w')) = [4, 12]
     \<and> menu (rest w') = [mk_dish 0 ''Salad'' 40 VEG, mk_dish 1 ''Wine'' 20 ALC]"
proof -
  have d: "digits 4 = ''4''" "digits 12 = ''12''" "digits 40 = ''40''" "digits 20 = ''20''"
    by (subst digits.simps, simp add: char_of_digits digits.simps [of 1] digits.simps [of 4] digits.simps [of 2])+
  have lines: "[char_of (48 + length [4 :: nat, 12])] = ''2''"
      "join_words (CHR '','') (map digits [4, 12]) = ''4,12''"
      "map dish_line [(''Salad'', VEG, 40), (''Wine'', ALC, 20)] = [''Salad,VEG,40'', ''Wine,ALC,20'']"
    by (simp_all add: d char_of_digits dish_line_def type_text_def)
  have good: "\<forall>e \<in> set [(''Salad'', VEG, 40), (''Wine'', ALC, 20)]. good_entry e"
    by (simp add: good_entry_def)
  show ?thesis
    using configuration_roundtrip [OF _ _ _ _ good, of "[4, 12]" False, unfolded lines]
    by (simp add: Table_new_def)
qed

end
