(* ===== verification/Restaurant.thy ===== *)
theory Restaurant
  imports RestConfig
begin

text \<open>
  The restaurant: copying, clearing and destroying it, the \<^verbatim>\<open>act\<close> of every action, the command
  loop and \<^verbatim>\<open>main\<close> (\<^verbatim>\<open>Restaurant.cpp\<close>, the \<^verbatim>\<open>act\<close> functions of \<^verbatim>\<open>Action.cpp\<close>,
  \<^verbatim>\<open>rest.cpp\<close>). Input is the list of the lines typed. The member \<^verbatim>\<open>open\<close> of the restaurant,
  which nothing sets, is left out.
\<close>

section \<open>Copies\<close>

fun copy_tables :: "table list \<Rightarrow> nat \<Rightarrow> ('a world_scheme, table list) kern" where
  "copy_tables ts 0 = ret []"
| "copy_tables [] (Suc n) = out_of_range"
| "copy_tables (t # ts) (Suc n) = bnd (Table_copy t) (\<lambda>c. bnd (copy_tables ts n) (\<lambda>cs. ret (c # cs)))"

text \<open>The copy constructor.\<close>

definition Restaurant_copy :: "restaurant \<Rightarrow> ('a world_scheme, restaurant) kern" where
  "Restaurant_copy res =
     bnd (clone_log (actionsLog res)) (\<lambda>as.
     bnd (copy_tables (tables res) (nat (numOfTables res))) (\<lambda>ts.
     ret \<lparr>numOfTables = numOfTables res, tables = ts, menu = menu res, actionsLog = as,
       customerCount = customerCount res\<rparr>))"

definition Restaurant_destroy :: "restaurant \<Rightarrow> ('a world_scheme, unit) kern" where
  "Restaurant_destroy r = foreach (actionsLog r) destroy_action"

definition Restaurant_clear :: "unit cpp" where
  "Restaurant_clear = bnd (gets rest) (\<lambda>r.
     thn (foreach (actionsLog r) destroy_action)
     (modify (\<lambda>w. w\<lparr>rest := (rest w)\<lparr>tables := [], actionsLog := [], menu := []\<rparr>\<rparr>)))"

text \<open>\<^verbatim>\<open>operator=\<close>: the loop that deletes the old tables tests \<^verbatim>\<open>tables.size()\<close> and leaves the
  vector when there are tables. The menu is not assigned.\<close>

definition Restaurant_assign :: "restaurant \<Rightarrow> unit cpp" where
  "Restaurant_assign res =
     bnd (clone_log (actionsLog res)) (\<lambda>as.
     thn (modify (\<lambda>w. w\<lparr>rest := (rest w)\<lparr>actionsLog := actionsLog (rest w) @ as,
       customerCount := customerCount res, numOfTables := numOfTables res\<rparr>\<rparr>))
     (bnd (gets rest) (\<lambda>r.
     if tables r \<noteq> [] then undef
     else bnd (copy_tables (tables res) (length (tables res))) (\<lambda>ts.
       modify (\<lambda>w. w\<lparr>rest := (rest w)\<lparr>tables := ts\<rparr>\<rparr>)))))"

section \<open>Actions\<close>

definition OpenTable_act :: "int \<Rightarrow> ptr list \<Rightarrow> action \<Rightarrow> action cpp" where
  "OpenTable_act tableId customers a =
     bnd (gets rest) (\<lambda>r.
     bnd (if tableId \<le> getNumOfTables r
          then bnd (getTable tableId) (\<lambda>t. ret (\<not> is_open t)) else ret False) (\<lambda>b.
     if b then
       thn (bnd (getTable tableId) (\<lambda>t. putTable tableId (openTable t)))
       (thn (foreach customers (\<lambda>p. bnd (getTable tableId) (\<lambda>t. putTable tableId (addCustomer p t))))
       (ret (a\<lparr>status := COMPLETED\<rparr>)))
     else
       let a = set_error ''Table does not exist or is already open'' (a\<lparr>status := ERROR\<rparr>) in
       thn (put_cout (statusTostring a @ getErrorMsg a @ ''\<newline>'')) (ret a)))"

definition Order_act :: "int \<Rightarrow> action \<Rightarrow> action cpp" where
  "Order_act tableId a =
     bnd (getTable tableId) (\<lambda>t. bnd (gets rest) (\<lambda>r.
     bnd (table_order (menu r) t) (\<lambda>t'. thn (putTable tableId t') (ret (a\<lparr>status := COMPLETED\<rparr>)))))"

text \<open>When source and destination are one table, \<^verbatim>\<open>addDishes\<close> appends to the vector it iterates
  over: with an order of the customer in it the loop does not end.\<close>

definition MoveCustomer_act :: "int \<Rightarrow> int \<Rightarrow> int \<Rightarrow> action \<Rightarrow> action cpp" where
  "MoveCustomer_act srcTable dstTable i a =
     bnd (getTable dstTable) (\<lambda>d.
     if \<not> isFull d \<and> is_open d then
       bnd (getTable srcTable) (\<lambda>s.
       bnd (getCustomer i (customersList s)) (\<lambda>cu.
       thn (putTable dstTable (addCustomer cu d))
       (bnd (getTable srcTable) (\<lambda>s.
       bnd (getTable dstTable) (\<lambda>d.
       if srcTable = dstTable \<and> list_ex (\<lambda>p. fst p = i) (orderList s) then diverge
       else
         thn (putTable dstTable (addDishes i (orderList s) d))
         (bnd (getTable srcTable) (\<lambda>s.
         bnd (removeCustomer i s) (\<lambda>s'.
         thn (putTable srcTable s') (ret (a\<lparr>status := COMPLETED\<rparr>))))))))))
     else
       thn (put_cout ''Error: Cannot move customer\<newline>'')
       (ret (set_error ''Cannot move customer'' (a\<lparr>status := ERROR\<rparr>))))"

definition Close_act :: "int \<Rightarrow> action \<Rightarrow> action cpp" where
  "Close_act tableId a =
     bnd (getTable tableId) (\<lambda>t.
     if is_open t then
       bnd (getBill t) (\<lambda>bill.
       thn (put_cout (''Table '' @ to_string tableId @ '' was closed. Bill '' @ to_string bill @ ''NIS\<newline>''))
       (bnd (closeTable t) (\<lambda>t'. thn (putTable tableId t') (ret (a\<lparr>status := COMPLETED\<rparr>)))))
     else ret ((set_error ''Table is already closed'' a)\<lparr>status := ERROR\<rparr>))"

definition CloseAll_act :: "unit cpp" where
  "CloseAll_act = bnd (gets rest) (\<lambda>r.
     foreach [0..<length (tables r)] (\<lambda>i. bnd (getTable (int i)) (\<lambda>t.
       bnd (closeTable t) (putTable (int i)))))"

definition PrintMenu_act :: "action \<Rightarrow> action cpp" where
  "PrintMenu_act a = bnd (gets rest) (\<lambda>r.
     thn (foreach (menu r) (\<lambda>d. put_cout (dish_toString d))) (ret a))"

definition PrintTableStatus_act :: "int \<Rightarrow> action \<Rightarrow> action cpp" where
  "PrintTableStatus_act tableId a =
     bnd (getTable tableId) (\<lambda>t.
     thn (if is_open t then
       thn (put_cout (''Table '' @ to_string tableId @ '' status: open\<newline>Customers:\<newline>''))
       (thn (foreach (customersList t) (\<lambda>p. bnd (deref p) (\<lambda>c. put_cout (customer_toString c @ ''\<newline>''))))
       (thn (put_cout ''Orders:\<newline>'')
       (thn (foreach (orderList t) (\<lambda>p. put_cout (dish_name (snd p) @ '' '' @ to_string (price (snd p))
          @ ''NIS '' @ to_string (fst p) @ ''\<newline>'')))
       (bnd (getBill t) (\<lambda>bill. put_cout (''Current Bill: '' @ to_string bill @ ''NIS \<newline>''))))))
     else put_cout (''Table '' @ to_string tableId @ '' status: closed\<newline>''))
     (ret (a\<lparr>status := COMPLETED\<rparr>)))"

definition PrintActionsLog_act :: "action \<Rightarrow> action cpp" where
  "PrintActionsLog_act a = bnd (gets rest) (\<lambda>r.
     thn (foreach (actionsLog r) (\<lambda>b. bnd (action_toString b) (\<lambda>s. put_cout (s @ ''\<newline>''))))
     (ret (a\<lparr>status := COMPLETED\<rparr>)))"

definition BackupRestaurant_act :: "action \<Rightarrow> action cpp" where
  "BackupRestaurant_act a = bnd (gets rest) (\<lambda>r. bnd (Restaurant_copy r) (\<lambda>b.
     thn (modify (\<lambda>w. w\<lparr>backup := Some b\<rparr>)) (ret (a\<lparr>status := COMPLETED\<rparr>))))"

definition RestoreResturant_act :: "action \<Rightarrow> action cpp" where
  "RestoreResturant_act a = bnd (gets backup) (\<lambda>b. case b of
       Some res \<Rightarrow> thn Restaurant_clear (thn (Restaurant_assign res) (ret (a\<lparr>status := COMPLETED\<rparr>)))
     | None \<Rightarrow> ret (set_error ''No backup'' (a\<lparr>status := ERROR\<rparr>)))"

definition act :: "action \<Rightarrow> action cpp" where
  "act a = (case kind a of
       OpenTable t ps \<Rightarrow> OpenTable_act t ps a
     | Order t \<Rightarrow> Order_act t a
     | MoveCustomer src dst i \<Rightarrow> MoveCustomer_act src dst i a
     | Close t \<Rightarrow> Close_act t a
     | PrintMenu \<Rightarrow> PrintMenu_act a
     | PrintTableStatus t \<Rightarrow> PrintTableStatus_act t a
     | PrintActionsLog \<Rightarrow> PrintActionsLog_act a
     | BackupRestaurant \<Rightarrow> BackupRestaurant_act a
     | RestoreResturant \<Rightarrow> RestoreResturant_act a)"

section \<open>The command loop\<close>

definition log_action :: "action \<Rightarrow> unit cpp" where
  "log_action a = modify (\<lambda>w. w\<lparr>rest := (rest w)\<lparr>actionsLog := actionsLog (rest w) @ [a]\<rparr>\<rparr>)"

definition run_action :: "action_kind \<Rightarrow> unit cpp" where
  "run_action k = bnd (act (BaseAction k)) log_action"

definition type_of_word :: "string \<Rightarrow> ctype option" where
  "type_of_word s = (if s = ''veg'' then Some Vegetarian else if s = ''chp'' then Some Cheap
     else if s = ''spc'' then Some Spicy else if s = ''alc'' then Some Alchoholic else None)"

text \<open>The words after the number of the table: names and kinds. A word of no kind makes no
  customer but counts; a name without a kind reads past the end of the vector.\<close>

fun make_customers :: "string list \<Rightarrow> ptr list cpp" where
  "make_customers [] = ret []"
| "make_customers [nm] = undef"
| "make_customers (nm # ty # ws) =
     bnd (gets rest) (\<lambda>r.
     bnd (case type_of_word ty of None \<Rightarrow> ret []
          | Some t \<Rightarrow> bnd (new_customer (mk_customer t nm (customerCount r))) (\<lambda>p. ret [p])) (\<lambda>ps.
     thn (modify (\<lambda>w. w\<lparr>rest := (rest w)\<lparr>customerCount := customerCount (rest w) + 1\<rparr>\<rparr>))
     (bnd (make_customers ws) (\<lambda>qs. ret (ps @ qs)))))"

definition word_int :: "string list \<Rightarrow> int \<Rightarrow> int cpp" where
  "word_int v i = bnd (vec v i) stringToInt"

definition close_restaurant :: "unit cpp" where
  "close_restaurant = bnd (gets rest) (\<lambda>r.
     thn (foreach [0..<length (tables r)] (\<lambda>i. run_action (Close (int i))))
     (thn (modify (\<lambda>w. w\<lparr>rest := (rest w)\<lparr>tables := []\<rparr>\<rparr>))
     (thn (bnd (gets rest) Restaurant_destroy)
     (modify (\<lambda>w. w\<lparr>rest := (rest w)\<lparr>actionsLog := [], menu := []\<rparr>\<rparr>)))))"

definition exec_command :: "string \<Rightarrow> unit cpp" where
  "exec_command str =
     (let v = getWordVec str in
      bnd (vec v 0) (\<lambda>cmd.
      if cmd = ''open'' then bnd (word_int v 1) (\<lambda>t.
        bnd (make_customers (drop 2 v)) (\<lambda>ps. run_action (OpenTable t ps)))
      else if cmd = ''order'' then bnd (word_int v 1) (\<lambda>t. run_action (Order t))
      else if cmd = ''move'' then bnd (word_int v 1) (\<lambda>src. bnd (word_int v 2) (\<lambda>dst.
        bnd (word_int v 3) (\<lambda>i. run_action (MoveCustomer src dst i))))
      else if cmd = ''close'' then bnd (word_int v 1) (\<lambda>t. run_action (Close t))
      else if cmd = ''menu'' then run_action PrintMenu
      else if cmd = ''status'' then bnd (word_int v 1) (\<lambda>t. run_action (PrintTableStatus t))
      else if cmd = ''log'' then bnd (act (BaseAction PrintActionsLog)) (\<lambda>_. ret ())
      else if cmd = ''backup'' then run_action BackupRestaurant
      else if cmd = ''restore'' then run_action RestoreResturant
      else if cmd = ''closeall'' then close_restaurant
      else ret ()))"

text \<open>At the end of the input \<^verbatim>\<open>getline\<close> gives an empty line, whose first word does not exist.\<close>

fun command_loop :: "string list \<Rightarrow> unit cpp" where
  "command_loop [] = exec_command ''''"
| "command_loop (str # lines) = thn (exec_command str)
     (if str \<noteq> ''closeall'' then command_loop lines else ret ())"

definition start :: "string list \<Rightarrow> unit cpp" where
  "start lines = thn (put_cout ''Restaurant is now open!\<newline>'') (command_loop lines)"

text \<open>\<^verbatim>\<open>main\<close>: the destructor of the local restaurant runs last.\<close>

definition rest_main :: "bool \<Rightarrow> string list \<Rightarrow> (string \<Rightarrow> string list option) \<Rightarrow> string list \<Rightarrow> unit cpp" where
  "rest_main b argv files lines =
     (if length argv \<noteq> 2 then put_cout ''usage: rest <config_path>\<newline>''
      else
        thn (Restaurant_new b (files (argv ! 1)))
        (thn (start lines)
        (thn (bnd (gets backup) (\<lambda>bk. case bk of None \<Rightarrow> ret () | Some r \<Rightarrow>
            thn (Restaurant_destroy r) (modify (\<lambda>w. w\<lparr>backup := None\<rparr>))))
        (bnd (gets rest) Restaurant_destroy))))"

text \<open>\<^verbatim>\<open>openTableInRes\<close>, an older form of the command \<open>open\<close> that nothing calls.\<close>

fun old_customers :: "string list \<Rightarrow> int \<Rightarrow> ptr list cpp" where
  "old_customers [] i = ret []"
| "old_customers [nm] i = undef"
| "old_customers (nm # ty # ws) i =
     bnd (if ty = ''VEG'' then bnd (new_customer (mk_customer Vegetarian nm i)) (\<lambda>p. ret [p]) else ret [])
       (\<lambda>ps. bnd (old_customers ws (i + 1)) (\<lambda>qs. ret (ps @ qs)))"

definition openTableInRes :: "string \<Rightarrow> unit cpp" where
  "openTableInRes str =
     (let v = getWordVec str in
      bnd (vec v 1) (\<lambda>w. bnd (str_at w 0) (\<lambda>c.
      bnd (old_customers (drop 3 v) 0) (\<lambda>ps.
      log_action (BaseAction (OpenTable (schar c - 48) ps))))))"

end
