(* ===== verification/RestSafety.thy ===== *)
theory RestSafety
  imports Restaurant "HOL-Library.Multiset"
begin

text \<open>
  What the commands of the restaurant do to its objects: they are memory safe on a well-formed
  restaurant, except for those that destroy or restore one; moving a customer keeps the bills;
  the answers to wrong table numbers; what destroying a log and restoring a backup really do.
\<close>

section \<open>Memory safety of the commands\<close>

text \<open>
  A well-formed restaurant: each table counts its customers, has not more than its capacity and
  holds live objects only; no customer sits at two tables or twice at one; the menu is numbered
  from 0; cells that are not allocated are empty.
\<close>

definition live :: "'a world_scheme \<Rightarrow> ptr \<Rightarrow> bool" where
  "live w p = (\<exists>n c. p = Some n \<and> cells w n = Some c)"

definition table_ok :: "'a world_scheme \<Rightarrow> table \<Rightarrow> bool" where
  "table_ok w t = (currentCapacity t = int (length (customersList t)) \<and>
     currentCapacity t \<le> capacity t \<and> (\<forall>p \<in> set (customersList t). live w p) \<and>
     (\<forall>q \<in> set (orderList t). 0 \<le> price (snd q)))"

definition owned :: "table list \<Rightarrow> ptr multiset" where
  "owned ts = mset (concat (map customersList ts))"

definition menu_ok :: "dish list \<Rightarrow> bool" where
  "menu_ok m = (m \<noteq> [] \<and> menu_from 0 m \<and> (\<forall>d \<in> set m. 0 \<le> price d))"

definition rest_ok :: "rworld \<Rightarrow> bool" where
  "rest_ok w = ((\<forall>t \<in> set (tables (rest w)). table_ok w t) \<and>
     (\<forall>p. count (owned (tables (rest w))) p \<le> 1) \<and> menu_ok (menu (rest w)) \<and>
     (\<forall>n \<ge> fresh w. cells w n = None))"

definition bill :: "table \<Rightarrow> int" where
  "bill t = (\<Sum>q \<leftarrow> orderList t. price (snd q))"

definition in_range :: "rworld \<Rightarrow> int \<Rightarrow> bool" where
  "in_range w i = (0 \<le> i \<and> i < int (length (tables (rest w))))"

text \<open>The commands that the program can serve: the table exists, the customers of \<open>open\<close> are new
  objects, the customer to move sits at the source, which is not the destination, and the bill
  fits an \<^verbatim>\<open>int\<close>.\<close>

definition servable :: "rworld \<Rightarrow> action_kind \<Rightarrow> bool" where
  "servable w k = (case k of
       OpenTable t ps \<Rightarrow> in_range w t \<and> distinct ps \<and>
         (\<forall>p \<in> set ps. live w p \<and> p \<notin># owned (tables (rest w)))
     | Order t \<Rightarrow> in_range w t
     | MoveCustomer src dst i \<Rightarrow> in_range w src \<and> in_range w dst \<and> src \<noteq> dst \<and>
         list_ex (\<lambda>p. \<exists>n \<in> set_option p. \<exists>c \<in> set_option (cells w n). cust_id c = i)
           (customersList (tables (rest w) ! nat src))
     | Close t \<Rightarrow> in_range w t \<and> bill (tables (rest w) ! nat t) < 2 ^ 31
     | PrintMenu \<Rightarrow> True
     | PrintTableStatus t \<Rightarrow> in_range w t \<and> bill (tables (rest w) ! nat t) < 2 ^ 31
     | _ \<Rightarrow> False)"

lemma live_iff: "live w p \<longleftrightarrow> (\<exists>c. deref p w = Ok c w)"
  by (auto simp: live_def deref_def split: option.splits)

lemma deref_live: "live w p \<Longrightarrow> deref p w = Ok (the (cells w (the p))) w"
  by (auto simp: live_def deref_def)

lemma owned_Nil [simp]: "owned [] = {#}"
  by (simp add: owned_def)

lemma owned_Cons [simp]: "owned (t # ts) = mset (customersList t) + owned ts"
  by (simp add: owned_def)

lemma owned_update:
  "i < length ts \<Longrightarrow> owned (ts[i := t]) + mset (customersList (ts ! i)) = owned ts + mset (customersList t)"
proof (induction ts arbitrary: i)
  case Nil
  then show ?case by simp
next
  case (Cons u ts)
  show ?case
  proof (cases i)
    case 0
    then show ?thesis by (simp add: ac_simps)
  next
    case (Suc j)
    then show ?thesis
      using Cons.IH [of j] Cons.prems by (simp add: ac_simps)
  qed
qed

lemma owned_nth: "i < length ts \<Longrightarrow> mset (customersList (ts ! i)) \<subseteq># owned ts"
proof (induction ts arbitrary: i)
  case Nil
  then show ?case by simp
next
  case (Cons t ts)
  then show ?case
    by (cases i) (auto intro: subset_mset.add_increasing)
qed

lemma getTable_ok: "in_range w i \<Longrightarrow> getTable i w = Ok (tables (rest w) ! nat i) w"
  by (simp add: getTable_def in_range_def)

definition with_table :: "rworld \<Rightarrow> int \<Rightarrow> table \<Rightarrow> rworld" where
  "with_table w i t = w\<lparr>rest := (rest w)\<lparr>tables := (tables (rest w))[nat i := t]\<rparr>\<rparr>"

lemma putTable_apply: "putTable i t w = Ok () (with_table w i t)"
  by (simp add: putTable_def with_table_def)

lemma with_table_sel [simp]:
  "tables (rest (with_table w i t)) = (tables (rest w))[nat i := t]"
  "menu (rest (with_table w i t)) = menu (rest w)"
  "cells (with_table w i t) = cells w" "fresh (with_table w i t) = fresh w"
  "cout (with_table w i t) = cout w"
  "in_range (with_table w i t) j = in_range w j"
  by (simp_all add: with_table_def in_range_def)

lemma with_table_twice [simp]: "with_table (with_table w i t) i u = with_table w i u"
  by (simp add: with_table_def)

lemma table_ok_cong: "cells w = cells w' \<Longrightarrow> table_ok w t = table_ok w' t"
  by (simp add: table_ok_def live_def)

text \<open>Replacing one table by one that is well-formed and owns no new customer, or only customers
  nobody owned.\<close>

lemma rest_ok_with_table:
  assumes ok: "rest_ok w" and i: "in_range w i" and t: "table_ok w t"
    and own: "\<And>p. count (owned ((tables (rest w))[nat i := t])) p \<le> 1"
  shows "rest_ok (with_table w i t)"
proof -
  have "table_ok (with_table w i t) u" if "u \<in> set ((tables (rest w))[nat i := t])" for u
    using that ok t set_update_subset_insert [of "tables (rest w)" "nat i" t]
      table_ok_cong [of "with_table w i t" w u]
    by (auto simp: rest_ok_def)
  then show ?thesis
    using ok own by (simp add: rest_ok_def)
qed

lemma rest_ok_same_customers:
  assumes ok: "rest_ok w" and i: "in_range w i" and t: "table_ok w t"
    and same: "mset (customersList t) \<subseteq># mset (customersList (tables (rest w) ! nat i))"
  shows "rest_ok (with_table w i t)"
proof (rule rest_ok_with_table [OF ok i t])
  fix p
  have "nat i < length (tables (rest w))"
    using i by (auto simp: in_range_def)
  then have "count (owned ((tables (rest w))[nat i := t])) p
      + count (mset (customersList (tables (rest w) ! nat i))) p =
      count (owned (tables (rest w))) p + count (mset (customersList t)) p"
    using owned_update by (metis count_union)
  moreover have "count (mset (customersList t)) p \<le> count (mset (customersList (tables (rest w) ! nat i))) p"
    using same by (simp add: mset_subset_eq_count)
  moreover have "count (owned (tables (rest w))) p \<le> 1"
    using ok by (simp add: rest_ok_def)
  ultimately show "count (owned ((tables (rest w))[nat i := t])) p \<le> 1"
    by linarith
qed

lemma rest_ok_cout: "rest_ok (w\<lparr>cout := x\<rparr>) = rest_ok w"
  by (simp add: rest_ok_def table_ok_def live_def)

lemma rest_ok_log:
  "rest_ok (w\<lparr>rest := (rest w)\<lparr>actionsLog := as\<rparr>\<rparr>) = rest_ok w"
  by (simp add: rest_ok_def table_ok_def live_def)

lemma put_cout_apply: "put_cout s w = Ok () (w\<lparr>cout := cout w @ s\<rparr>)"
  by (simp add: put_cout_def)

lemma foreach_put_cout:
  "foreach xs (\<lambda>x. put_cout (f x)) w = Ok () (w\<lparr>cout := cout w @ concat (map f xs)\<rparr>)"
  by (induction xs arbitrary: w) (simp_all add: thn_def bnd_def put_cout_def)

lemma in_range_nth: "in_range w i \<Longrightarrow> tables (rest w) ! nat i \<in> set (tables (rest w))"
  by (auto simp: in_range_def)

lemma rest_ok_table: "rest_ok w \<Longrightarrow> in_range w i \<Longrightarrow> table_ok w (tables (rest w) ! nat i)"
  using in_range_nth by (auto simp: rest_ok_def)

subsection \<open>Opening, closing, showing\<close>

lemma delete_all:
  "distinct ps \<Longrightarrow> \<forall>p \<in> set ps. live w p \<Longrightarrow>
   foreach ps delete w = Ok () (w\<lparr>cells := (\<lambda>n. if Some n \<in> set ps then None else cells w n)\<rparr>)"
proof (induction ps arbitrary: w)
  case Nil
  then show ?case by simp
next
  case (Cons p ps)
  obtain n c where p: "p = Some n" "cells w n = Some c"
    using Cons.prems(2) by (auto simp: live_def)
  define v where "v = w\<lparr>cells := (cells w)(n := None)\<rparr>"
  have d: "delete p w = Ok () v"
    by (simp add: delete_def deref_def p bnd_def v_def)
  have "foreach ps delete v = Ok () (v\<lparr>cells := (\<lambda>m. if Some m \<in> set ps then None else cells v m)\<rparr>)"
  proof (rule Cons.IH)
    show "\<forall>q \<in> set ps. live v q"
      using Cons.prems p by (fastforce simp: live_def v_def)
  qed (use Cons.prems in simp)
  moreover have "v\<lparr>cells := (\<lambda>m. if Some m \<in> set ps then None else cells v m)\<rparr> =
      w\<lparr>cells := (\<lambda>m. if Some m \<in> set (p # ps) then None else cells w m)\<rparr>"
    by (auto simp: v_def p fun_eq_iff intro!: world.fold_congs)
  ultimately show ?case
    using d by (simp only: foreach.simps thn_Ok)
qed

definition emptied :: "table \<Rightarrow> table" where
  "emptied t = t\<lparr>customersList := [], currentCapacity := 0, is_open := False\<rparr>"

lemma closeTable_ok:
  "distinct (customersList t) \<Longrightarrow> \<forall>p \<in> set (customersList t). live w p \<Longrightarrow>
   closeTable t w = Ok (emptied t)
     (w\<lparr>cells := (\<lambda>n. if Some n \<in> set (customersList t) then None else cells w n)\<rparr>)"
  by (simp add: closeTable_def thn_Ok delete_all emptied_def)

lemma owned_distinct:
  assumes "\<And>p. count (owned ts) p \<le> 1" "i < length ts"
  shows "distinct (customersList (ts ! i))"
proof -
  have "count (mset (customersList (ts ! i))) p = (if p \<in> set (customersList (ts ! i)) then 1 else 0)" for p
  proof -
    have "count (mset (customersList (ts ! i))) p \<le> 1"
      using owned_nth [OF assms(2)] assms(1) [of p] by (meson le_trans mset_subset_eq_count)
    moreover have "0 < count (mset (customersList (ts ! i))) p" if "p \<in> set (customersList (ts ! i))"
      using that by simp
    ultimately have "count (mset (customersList (ts ! i))) p = 1" if "p \<in> set (customersList (ts ! i))"
      using that by linarith
    then show ?thesis by simp
  qed
  then show ?thesis by (simp only: distinct_count_atmost_1) simp
qed

lemma owned_disjoint:
  assumes one: "\<And>p. count (owned ts) p \<le> 1" and i: "i < length ts" and j: "j < length ts" and "i \<noteq> j"
  shows "set (customersList (ts ! i)) \<inter> set (customersList (ts ! j)) = {}"
proof -
  have "p \<notin> set (customersList (ts ! j))" if p: "p \<in> set (customersList (ts ! i))" for p
  proof
    assume q: "p \<in> set (customersList (ts ! j))"
    have "owned (ts[i := emptied (ts ! i)]) + mset (customersList (ts ! i)) = owned ts"
      using owned_update [OF i, of "emptied (ts ! i)"] by (simp add: emptied_def)
    then have "count (owned (ts[i := emptied (ts ! i)])) p + count (mset (customersList (ts ! i))) p \<le> 1"
      using one [of p] by (metis count_union)
    moreover have "0 < count (mset (customersList (ts ! i))) p"
      using p by simp
    moreover have "count (mset (customersList (ts ! j))) p \<le> count (owned (ts[i := emptied (ts ! i)])) p"
      using owned_nth [of j "ts[i := emptied (ts ! i)]"] j \<open>i \<noteq> j\<close>
      by (simp add: mset_subset_eq_count)
    moreover have "0 < count (mset (customersList (ts ! j))) p"
      using q by simp
    ultimately show False by linarith
  qed
  then show ?thesis by auto
qed

lemma sum_prices_ok:
  assumes "\<forall>q \<in> set ps. 0 \<le> price (snd q)" "0 \<le> n" "n + (\<Sum>q \<leftarrow> ps. price (snd q)) < 2 ^ 31"
  shows "sum_prices ps n s = Ok (n + (\<Sum>q \<leftarrow> ps. price (snd q))) s"
  using assms
proof (induction ps arbitrary: n)
  case Nil
  then show ?case by simp
next
  case (Cons q ps)
  have "0 \<le> (\<Sum>q \<leftarrow> ps. price (snd q))"
    by (rule sum_list_nonneg) (use Cons.prems in auto)
  then show ?case
    using Cons by (simp add: bnd_def)
qed

lemma getBill_ok: "table_ok w t \<Longrightarrow> bill t < 2 ^ 31 \<Longrightarrow> getBill t s = Ok (bill t) s"
  by (simp add: getBill_def table_ok_def bill_def sum_prices_ok)

lemma foreach_show:
  "\<forall>p \<in> set ps. live w p \<Longrightarrow>
   \<exists>x. foreach ps (\<lambda>p. bnd (deref p) (\<lambda>c. put_cout (f c))) w = Ok () (w\<lparr>cout := x\<rparr>)"
proof (induction ps arbitrary: w)
  case Nil
  have "w = w\<lparr>cout := cout w\<rparr>" by simp
  then show ?case by (metis foreach.simps(1) ret_apply)
next
  case (Cons p ps)
  define v where "v = w\<lparr>cout := cout w @ f (the (cells w (the p)))\<rparr>"
  have "bnd (deref p) (\<lambda>c. put_cout (f c)) w = Ok () v"
    using Cons.prems by (simp add: deref_live bnd_def v_def put_cout_apply)
  moreover obtain x where "foreach ps (\<lambda>p. bnd (deref p) (\<lambda>c. put_cout (f c))) v = Ok () (v\<lparr>cout := x\<rparr>)"
    using Cons.IH [of v] Cons.prems by (auto simp: live_def v_def)
  ultimately show ?case
    by (simp add: thn_Ok) (auto simp: v_def)
qed

text \<open>Adding a list of customers one after the other: those for whom there is room.\<close>

definition seated :: "ptr list \<Rightarrow> table \<Rightarrow> table" where
  "seated ps t = foldl (\<lambda>t p. addCustomer p t) t ps"

lemma seated_customers:
  assumes "currentCapacity t = int (length (customersList t))" "currentCapacity t \<le> capacity t"
  shows "currentCapacity (seated ps t) = int (length (customersList (seated ps t))) \<and>
    currentCapacity (seated ps t) \<le> capacity (seated ps t) \<and>
    customersList (seated ps t) =
      customersList t @ take (nat (capacity t - currentCapacity t)) ps \<and>
    orderList (seated ps t) = orderList t \<and> is_open (seated ps t) = is_open t \<and>
    capacity (seated ps t) = capacity t"
  using assms
proof (induction ps arbitrary: t)
  case Nil
  then show ?case by (simp add: seated_def)
next
  case (Cons p ps)
  have "seated (p # ps) t = seated ps (addCustomer p t)"
    by (simp add: seated_def)
  then show ?case
    using Cons.IH [of "addCustomer p t"] Cons.prems
    by (auto simp: addCustomer_def take_Cons' nat_diff_distrib)
qed

lemma foreach_addCustomer:
  "in_range w i \<Longrightarrow>
   foreach ps (\<lambda>p. bnd (getTable i) (\<lambda>t. putTable i (addCustomer p t))) w =
   Ok () (with_table w i (seated ps (tables (rest w) ! nat i)))"
proof (induction ps arbitrary: w)
  case Nil
  then show ?case by (simp add: seated_def with_table_def in_range_def)
next
  case (Cons p ps)
  define t where "t = addCustomer p (tables (rest w) ! nat i)"
  have "bnd (getTable i) (\<lambda>t. putTable i (addCustomer p t)) w = Ok () (with_table w i t)"
    using Cons.prems by (simp add: bnd_def getTable_ok t_def putTable_apply)
  moreover have "nat i < length (tables (rest w))"
    using Cons.prems by (auto simp: in_range_def)
  ultimately show ?case
    using Cons.IH [of "with_table w i t"] Cons.prems
    by (simp add: thn_Ok t_def seated_def)
qed

lemma mset_take_le: "mset (take n xs) \<subseteq># mset xs"
  by (metis append_take_drop_id mset_append mset_subset_eq_add_left)

lemma OpenTable_safe:
  assumes ok: "rest_ok w" and sv: "servable w (OpenTable i ps)"
  shows "\<exists>a' w'. OpenTable_act i ps a w = Ok a' w' \<and> rest_ok w'"
proof -
  have i: "in_range w i" and ps: "distinct ps" "\<forall>p \<in> set ps. live w p \<and> p \<notin># owned (tables (rest w))"
    using sv by (simp_all add: servable_def)
  have n: "nat i < length (tables (rest w))"
    using i by (auto simp: in_range_def)
  define t where "t = tables (rest w) ! nat i"
  have t: "table_ok w t"
    using rest_ok_table ok i by (simp add: t_def)
  have r: "i \<le> getNumOfTables (rest w)"
    using i by (simp add: in_range_def getNumOfTables_def)
  define u where "u = seated ps (openTable t)"
  have u: "currentCapacity u = int (length (customersList u)) \<and> currentCapacity u \<le> capacity u \<and>
      customersList u = customersList t @ take (nat (capacity t - currentCapacity t)) ps \<and>
      orderList u = orderList t"
    using seated_customers [of "openTable t" ps] t unfolding u_def table_ok_def
    by (auto simp: openTable_def min_def)
  show ?thesis
  proof (cases "is_open t")
    case True
    then show ?thesis
      using r ok by (simp add: OpenTable_act_def bnd_def thn_def getTable_ok [OF i] rest_ok_cout
        put_cout_apply Let_def flip: t_def)
  next
    case False
    have "OpenTable_act i ps a w = Ok (a\<lparr>status := COMPLETED\<rparr>) (with_table w i u)"
      using r False n foreach_addCustomer [of "with_table w i (openTable t)" i ps] i
      by (simp add: OpenTable_act_def bnd_def thn_def getTable_ok u_def putTable_apply flip: t_def)
    moreover have "rest_ok (with_table w i u)"
    proof (rule rest_ok_with_table [OF ok i])
      show "table_ok w u"
        using t u ps by (auto simp: table_ok_def dest: in_set_takeD)
    next
      fix p
      have "owned ((tables (rest w))[nat i := u]) =
          owned (tables (rest w)) + mset (take (nat (capacity t - currentCapacity t)) ps)"
        using owned_update [OF n, of u] u by (simp add: t_def ac_simps)
      moreover have "count (mset (take (nat (capacity t - currentCapacity t)) ps)) p \<le> count (mset ps) p"
        by (simp add: mset_subset_eq_count mset_take_le)
      moreover have "count (mset ps) p \<le> 1" "count (mset ps) p \<noteq> 0 \<longrightarrow> count (owned (tables (rest w))) p = 0"
        using ps by (auto simp: distinct_count_atmost_1 count_eq_zero_iff)
      moreover have "count (owned (tables (rest w))) p \<le> 1"
        using ok by (simp add: rest_ok_def)
      ultimately show "count (owned ((tables (rest w))[nat i := u])) p \<le> 1"
        by (simp only: count_union) linarith
    qed
    ultimately show ?thesis by blast
  qed
qed

subsection \<open>Ordering\<close>

lemma chosen_range:
  "menu_from 0 m \<Longrightarrow> chosen P before m n \<Longrightarrow> n = -1 \<or> 0 \<le> n \<and> n < int (length m)"
  by (auto simp: chosen_def menu_from_def in_set_conv_nth split: if_splits)

lemma customer_order_range:
  assumes m: "menu_ok m"
  shows "\<exists>ids c'. customer_order c m s = Ok (ids, c') s \<and>
    (\<forall>i \<in> set ids. i = -1 \<or> 0 \<le> i \<and> i < int (length m))"
proof (cases "cust_type c")
  case Alchoholic
  then show ?thesis
    using chosen_range [OF _ next_alc_chosen [of m "idOrdered c"]] m
    by (simp add: customer_order_def alchoholic_order_def menu_ok_def Let_def)
next
  case Vegetarian
  then show ?thesis
    using customers_order_by_rule [of m c s] m chosen_range by (fastforce simp: menu_ok_def)
next
  case Cheap
  then show ?thesis
    using customers_order_by_rule [of m c s] m chosen_range
    by (cases "ordered c") (fastforce simp: menu_ok_def)+
next
  case Spicy
  then show ?thesis
    using customers_order_by_rule [of m c s] m chosen_range
    by (cases "firstOrder c") (fastforce simp: menu_ok_def)+
qed

text \<open>\<open>mutated w w'\<close>: objects may have changed, none appeared or went away; the rest is the same,
  but for the output.\<close>

definition mutated :: "'a world_scheme \<Rightarrow> 'a world_scheme \<Rightarrow> bool" where
  "mutated w w' = (\<exists>f x. w' = w\<lparr>cells := f, cout := x\<rparr> \<and> (\<forall>n. f n = None \<longleftrightarrow> cells w n = None))"

lemma mutated_refl: "mutated w w"
  unfolding mutated_def by (rule exI [of _ "cells w"], rule exI [of _ "cout w"]) simp

lemma mutated_trans: "mutated u v \<Longrightarrow> mutated v w \<Longrightarrow> mutated u w"
  unfolding mutated_def by (elim exE conjE, rule exI, rule exI, rule conjI) auto

lemma mutated_cout: "mutated w (w\<lparr>cout := x\<rparr>)"
  unfolding mutated_def by (rule exI [of _ "cells w"], rule exI [of _ x]) simp

lemma mutated_live: "mutated w w' \<Longrightarrow> live w' p = live w p"
  by (auto simp: mutated_def live_def) (metis option.exhaust)+

lemma add_orders_ok:
  assumes m: "menu_ok m" and "\<forall>i \<in> set ids. i = -1 \<or> 0 \<le> i \<and> i < int (length m)"
  shows "\<exists>os w'. add_orders c m ids w = Ok os w' \<and> mutated w w' \<and> (\<forall>q \<in> set os. 0 \<le> price (snd q))"
  using assms(2)
proof (induction ids arbitrary: w)
  case Nil
  then show ?case by (auto intro: mutated_refl)
next
  case (Cons i ids)
  show ?case
  proof (cases "i = -1")
    case True
    then show ?thesis using Cons by simp
  next
    case False
    then have i: "0 \<le> i" "i < int (length m)" using Cons.prems by auto
    define line where "line = cust_name c @ '' ordered '' @ dish_name (m ! nat i) @ ''\<newline>''"
    define v where "v = w\<lparr>cout := cout w @ line\<rparr>"
    have put: "put_cout line w = Ok () v"
      by (simp add: put_cout_apply v_def)
    obtain os w' where o: "add_orders c m ids v = Ok os w'" "mutated v w'"
        "\<forall>q \<in> set os. 0 \<le> price (snd q)"
      using Cons.IH [of v] Cons.prems by auto
    have "mutated w w'"
      using mutated_trans [OF _ o(2)] mutated_cout by (auto simp: v_def)
    moreover have "0 \<le> price (m ! nat i)"
      using m i by (simp add: menu_ok_def)
    moreover have "add_orders c m (i # ids) w = Ok ((cust_id c, m ! nat i) # os) w'"
      using False i o(1) put [unfolded line_def]
      by (simp add: bnd_def thn_def del: append_Cons append.simps)
    ultimately show ?thesis
      using o(3) by auto
  qed
qed

lemma order_all_ok:
  assumes m: "menu_ok m" and "\<forall>p \<in> set ps. live w p"
  shows "\<exists>os w'. order_all ps (length ps) m w = Ok os w' \<and> mutated w w' \<and>
    (\<forall>q \<in> set os. 0 \<le> price (snd q))"
  using assms(2)
proof (induction ps arbitrary: w)
  case Nil
  then show ?case by (auto intro: mutated_refl)
next
  case (Cons p ps)
  obtain n c where p: "p = Some n" "cells w n = Some c"
    using Cons.prems by (auto simp: live_def)
  obtain ids c' where o: "customer_order c m w = Ok (ids, c') w"
      "\<forall>i \<in> set ids. i = -1 \<or> 0 \<le> i \<and> i < int (length m)"
    using customer_order_range [OF m, of c w] by (elim exE conjE)
  define v where "v = w\<lparr>cells := (cells w)(n := Some c')\<rparr>"
  have "mutated w v"
    unfolding mutated_def
    by (rule exI [of _ "cells v"], rule exI [of _ "cout v"]) (simp add: v_def p)
  moreover obtain os v' where a: "add_orders c' m ids v = Ok os v'" "mutated v v'"
      "\<forall>q \<in> set os. 0 \<le> price (snd q)"
    using add_orders_ok [OF m o(2)] by blast
  moreover have "\<forall>p \<in> set ps. live v' p"
    using Cons.prems mutated_live [OF \<open>mutated w v\<close>] mutated_live [OF a(2)] by simp
  then obtain os' w' where b: "order_all ps (length ps) m v' = Ok os' w'" "mutated v' w'"
      "\<forall>q \<in> set os'. 0 \<le> price (snd q)"
    using Cons.IH by blast
  moreover have "set_customer p c' w = Ok () v" "deref p w = Ok c w"
    by (simp_all add: set_customer_def deref_def p v_def)
  then have "order_all (p # ps) (length (p # ps)) m w = Ok (os @ os') w'"
    using o(1) a(1) b(1) by (simp add: bnd_def thn_def)
  moreover have "mutated w w'"
    using \<open>mutated w v\<close> a(2) b(2) mutated_trans by blast
  ultimately show ?case by auto
qed

lemma rest_ok_mutated:
  assumes "mutated w w'" "rest_ok w"
  shows "rest_ok w'" "rest w' = rest w" "in_range w' i = in_range w i"
proof -
  have "rest w' = rest w" "fresh w' = fresh w" "\<And>n. cells w' n = None \<longleftrightarrow> cells w n = None"
    using assms(1) by (auto simp: mutated_def)
  moreover have "table_ok w' t = table_ok w t" for t
    using mutated_live [OF assms(1)] by (simp add: table_ok_def)
  ultimately show "rest_ok w'" "rest w' = rest w" "in_range w' i = in_range w i"
    using assms(2) by (simp_all add: rest_ok_def in_range_def)
qed

lemma Order_safe:
  assumes ok: "rest_ok w" and i: "in_range w i"
  shows "\<exists>a' w'. Order_act i a w = Ok a' w' \<and> rest_ok w'"
proof -
  define t where "t = tables (rest w) ! nat i"
  have t: "table_ok w t"
    using rest_ok_table ok i by (simp add: t_def)
  obtain os w' where o: "order_all (customersList t) (length (customersList t)) (menu (rest w)) w = Ok os w'"
      "mutated w w'" "\<forall>q \<in> set os. 0 \<le> price (snd q)"
    using order_all_ok [of "menu (rest w)" "customersList t" w] ok t
    by (auto simp: rest_ok_def table_ok_def)
  define u where "u = t\<lparr>orderList := orderList t @ os\<rparr>"
  note w' = rest_ok_mutated [OF o(2) ok]
  have "Order_act i a w = Ok (a\<lparr>status := COMPLETED\<rparr>) (with_table w' i u)"
    using o(1) t by (simp add: Order_act_def bnd_def thn_def getTable_ok [OF i] table_order_def
      table_ok_def putTable_apply u_def flip: t_def)
  moreover have "rest_ok (with_table w' i u)"
  proof (rule rest_ok_same_customers)
    show "table_ok w' u"
      using t o(3) mutated_live [OF o(2)] by (auto simp: table_ok_def u_def)
  qed (use w' i in \<open>simp_all add: u_def t_def\<close>)
  ultimately show ?thesis by blast
qed

lemma Close_safe:
  assumes ok: "rest_ok w" and i: "in_range w i" and b: "bill (tables (rest w) ! nat i) < 2 ^ 31"
  shows "\<exists>a' w'. Close_act i a w = Ok a' w' \<and> rest_ok w'"
proof -
  have n: "nat i < length (tables (rest w))"
    using i by (auto simp: in_range_def)
  define t where "t = tables (rest w) ! nat i"
  have t: "table_ok w t"
    using rest_ok_table ok i by (simp add: t_def)
  have one: "\<And>p. count (owned (tables (rest w))) p \<le> 1"
    using ok by (simp add: rest_ok_def)
  have dist: "distinct (customersList t)"
    using owned_distinct one n by (simp add: t_def)
  show ?thesis
  proof (cases "is_open t")
    case False
    then show ?thesis
      using ok by (simp add: Close_act_def bnd_def getTable_ok [OF i] flip: t_def)
  next
    case True
    define line where "line = ''Table '' @ to_string i @ '' was closed. Bill '' @ to_string (bill t) @ ''NIS\<newline>''"
    define v where "v = w\<lparr>cout := cout w @ line\<rparr>"
    have put: "put_cout line w = Ok () v"
      by (simp add: put_cout_apply v_def)
    define u where "u = v\<lparr>cells := (\<lambda>n. if Some n \<in> set (customersList t) then None else cells v n)\<rparr>"
    have "\<forall>p \<in> set (customersList t). live v p"
      using t by (simp add: v_def table_ok_def live_def)
    then have "closeTable t v = Ok (emptied t) u"
      using closeTable_ok dist by (simp add: u_def)
    then have "Close_act i a w = Ok (a\<lparr>status := COMPLETED\<rparr>) (with_table u i (emptied t))"
      using True getBill_ok [OF t, of w] b put [unfolded line_def]
      by (simp add: Close_act_def bnd_def thn_def getTable_ok [OF i] putTable_apply
        flip: t_def del: append_Cons append.simps)
    moreover have "rest_ok (with_table u i (emptied t))"
    proof -
      have "table_ok (with_table u i (emptied t)) x"
        if x_in: "x \<in> set ((tables (rest w))[nat i := emptied t])" for x
      proof -
        obtain j where j: "j < length (tables (rest w))"
          "x = (tables (rest w))[nat i := emptied t] ! j"
          using x_in by (auto simp: in_set_conv_nth)
        show ?thesis
        proof (cases "j = nat i")
          case True
          then show ?thesis
            using j t n by (simp add: table_ok_def emptied_def)
        next
          case False
          then have x: "x = tables (rest w) ! j"
            using j by simp
          have "set (customersList t) \<inter> set (customersList x) = {}"
            using owned_disjoint [OF one n j(1)] False by (simp add: x t_def)
          moreover have "table_ok w x"
            using ok j(1) by (simp add: rest_ok_def x)
          ultimately show ?thesis
            by (fastforce simp: table_ok_def live_def u_def v_def)
        qed
      qed
      moreover have "count (owned ((tables (rest w))[nat i := emptied t])) p \<le> 1" for p
      proof -
        have "owned ((tables (rest w))[nat i := emptied t]) + mset (customersList t) = owned (tables (rest w))"
          using owned_update [OF n, of "emptied t"] by (simp add: t_def emptied_def)
        then show ?thesis
          using one [of p] by (metis count_union le_add1 le_trans)
      qed
      ultimately show ?thesis
        using ok by (simp add: rest_ok_def u_def v_def)
    qed
    ultimately show ?thesis by blast
  qed
qed

subsection \<open>Moving a customer\<close>

definition id_at :: "'a world_scheme \<Rightarrow> ptr \<Rightarrow> int" where
  "id_at w p = cust_id (the (cells w (the p)))"

lemma find_customer:
  assumes "\<forall>p \<in> set ps. live w p" "\<exists>p \<in> set ps. id_at w p = i"
  shows "\<exists>p qs. getCustomer i ps w = Ok p w \<and> erase_customer i ps w = Ok qs w \<and> id_at w p = i \<and>
    mset ps = add_mset p (mset qs)"
  using assms
proof (induction ps)
  case Nil
  then show ?case by simp
next
  case (Cons p ps)
  have d: "deref p w = Ok (the (cells w (the p))) w"
    by (rule deref_live) (use Cons.prems(1) in simp)
  show ?case
  proof (cases "id_at w p = i")
    case True
    then show ?thesis using d by (auto simp: bnd_def id_at_def)
  next
    case False
    then obtain q qs where "getCustomer i ps w = Ok q w" "erase_customer i ps w = Ok qs w"
        "id_at w q = i" "mset ps = add_mset q (mset qs)"
      using Cons by auto
    then show ?thesis
      using d False by (auto simp: bnd_def id_at_def intro!: exI [of _ q] exI [of _ "p # qs"])
  qed
qed

definition without_customer :: "int \<Rightarrow> ptr list \<Rightarrow> table \<Rightarrow> table" where
  "without_customer i qs t =
     (let t = t\<lparr>customersList := qs, orderList := filter (\<lambda>p. fst p \<noteq> i) (orderList t),
        currentCapacity := currentCapacity t - 1\<rparr>
      in if qs = [] then emptied t else t)"

lemma removeCustomer_ok:
  assumes "table_ok w t" "erase_customer i (customersList t) w = Ok qs w"
    "mset (customersList t) = add_mset p (mset qs)"
  shows "removeCustomer i t w = Ok (without_customer i qs t) w"
proof -
  have ne: "customersList t \<noteq> []"
    using assms(3) by auto
  have "length (customersList t) = Suc (length qs)"
    using assms(3) by (metis size_add_mset size_mset)
  then have zero: "currentCapacity t - 1 = 0 \<longleftrightarrow> qs = []"
    using assms(1) by (simp add: table_ok_def)
  have close: "closeTable (t\<lparr>customersList := [], orderList := os, currentCapacity := 0\<rparr>) w =
      Ok (emptied (t\<lparr>customersList := [], orderList := os, currentCapacity := 0\<rparr>)) w" for os
    using closeTable_ok [of "t\<lparr>customersList := [], orderList := os, currentCapacity := 0\<rparr>" w] by simp
  show ?thesis
    using assms(2) ne zero close
    by (auto simp: removeCustomer_def Let_def bnd_def without_customer_def)
qed

lemma sum_filter_split:
  "(\<Sum>q \<leftarrow> filter P xs. f q) + (\<Sum>q \<leftarrow> filter (\<lambda>q. \<not> P q) xs. f q) = (\<Sum>q \<leftarrow> xs. f q)"
  for f :: "'a \<Rightarrow> int"
  by (induction xs) auto

lemma bill_without: "bill (without_customer i qs t) = (\<Sum>q \<leftarrow> filter (\<lambda>p. fst p \<noteq> i) (orderList t). price (snd q))"
  by (simp add: without_customer_def Let_def emptied_def bill_def)

lemma without_sel:
  "orderList (without_customer i qs t) = filter (\<lambda>p. fst p \<noteq> i) (orderList t)"
  "customersList (without_customer i qs t) = qs"
  "is_open (without_customer i qs t) = (is_open t \<and> qs \<noteq> [])"
  "capacity (without_customer i qs t) = capacity t"
  "currentCapacity (without_customer i qs t) = (if qs = [] then 0 else currentCapacity t - 1)"
  by (simp_all add: without_customer_def Let_def emptied_def)

lemma Move_ok:
  assumes ok: "rest_ok w" and sv: "servable w (MoveCustomer src dst i)"
    and d: "d = tables (rest w) ! nat dst" and s: "s = tables (rest w) ! nat src"
    and free: "is_open d" "\<not> isFull d"
  obtains p qs where "mset (customersList s) = add_mset p (mset qs)" "id_at w p = i"
    "MoveCustomer_act src dst i a w = Ok (a\<lparr>status := COMPLETED\<rparr>)
      (with_table (with_table w dst (d\<lparr>customersList := customersList d @ [p],
          currentCapacity := currentCapacity d + 1,
          orderList := orderList d @ filter (\<lambda>p. fst p = i) (orderList s)\<rparr>))
        src (without_customer i qs s))"
proof -
  have r: "in_range w src" "in_range w dst" "src \<noteq> dst"
    and here: "\<exists>p \<in> set (customersList s). id_at w p = i"
    using sv by (force simp: servable_def list_ex_iff s id_at_def)+
  have ne: "nat src \<noteq> nat dst" "nat src < length (tables (rest w))" "nat dst < length (tables (rest w))"
    using r by (auto simp: in_range_def)
  have ds: "table_ok w d" "table_ok w s"
    using rest_ok_table ok r by (simp_all add: d s)
  obtain p qs where f: "getCustomer i (customersList s) w = Ok p w"
      "erase_customer i (customersList s) w = Ok qs w" "id_at w p = i"
      "mset (customersList s) = add_mset p (mset qs)"
    using find_customer [of "customersList s" w i] ds here by (auto simp: table_ok_def)
  define u where "u = d\<lparr>customersList := customersList d @ [p], currentCapacity := currentCapacity d + 1\<rparr>"
  define u2 where "u2 = addDishes i (orderList s) u"
  have add: "addCustomer p d = u"
    using ds(1) free(2) by (simp add: addCustomer_def isFull_def table_ok_def u_def)
  define v where "v = with_table w dst u"
  define v2 where "v2 = with_table w dst u2"
  have gets: "getTable dst w = Ok d w" "getTable src w = Ok s w" "getTable src v = Ok s v"
      "getTable dst v = Ok u v" "getTable src v2 = Ok s v2"
    using r ne by (simp_all add: getTable_ok v_def v2_def d s)
  have puts: "putTable dst u w = Ok () v" "putTable dst u2 v = Ok () v2"
    by (simp_all add: putTable_apply v_def v2_def)
  have cells: "cells v2 = cells w" by (simp add: v2_def)
  have er: "erase_customer i xs v2 = (case erase_customer i xs w of Ok ys _ \<Rightarrow> Ok ys v2 | Panic e \<Rightarrow> Panic e
      | Block c _ \<Rightarrow> Block c v2 | Diverge \<Rightarrow> Diverge)" for xs
    by (induction xs) (auto simp: bnd_def deref_def cells split: option.splits outcome.splits)
  have "removeCustomer i s v2 = Ok (without_customer i qs s) v2"
    by (rule removeCustomer_ok [of _ _ _ _ p])
      (use ds f er table_ok_cong [OF cells] in auto)
  then have "MoveCustomer_act src dst i a w = Ok (a\<lparr>status := COMPLETED\<rparr>)
      (with_table v2 src (without_customer i qs s))"
    using free r(3) gets puts f(1) add
    by (simp add: MoveCustomer_act_def bnd_def thn_def putTable_apply [of src] u2_def)
  moreover have "u2 = d\<lparr>customersList := customersList d @ [p], currentCapacity := currentCapacity d + 1,
      orderList := orderList d @ filter (\<lambda>p. fst p = i) (orderList s)\<rparr>"
    by (simp add: u2_def u_def addDishes_def)
  ultimately show ?thesis
    using that f by (simp add: v2_def)
qed

lemma Move_keeps_ok:
  assumes ok: "rest_ok w" and r: "in_range w src" "in_range w dst" "src \<noteq> dst"
    and d: "d = tables (rest w) ! nat dst" and s: "s = tables (rest w) ! nat src"
    and free: "\<not> isFull d" and p: "mset (customersList s) = add_mset p (mset qs)"
  shows "rest_ok (with_table (with_table w dst (d\<lparr>customersList := customersList d @ [p],
          currentCapacity := currentCapacity d + 1,
          orderList := orderList d @ filter (\<lambda>p. fst p = i) (orderList s)\<rparr>))
        src (without_customer i qs s))"
proof -
  define u where "u = d\<lparr>customersList := customersList d @ [p],
          currentCapacity := currentCapacity d + 1,
          orderList := orderList d @ filter (\<lambda>p. fst p = i) (orderList s)\<rparr>"
  define s' where "s' = without_customer i qs s"
  define ts where "ts = tables (rest w)"
  have ne: "nat src \<noteq> nat dst" "nat src < length ts" "nat dst < length ts"
    using r by (auto simp: in_range_def ts_def)
  have ds: "table_ok w d" "table_ok w s"
    using rest_ok_table ok r by (simp_all add: d s)
  have sets: "set (customersList s) = insert p (set qs)"
    using p by (metis set_mset_add_mset_insert set_mset_mset)
  have len: "length (customersList s) = Suc (length qs)"
    using p by (metis size_add_mset size_mset)
  have u: "table_ok w u"
    using ds sets free by (auto simp: table_ok_def u_def isFull_def)
  have s': "table_ok w s'"
    using ds(2) sets len by (auto simp: table_ok_def s'_def without_sel)
  have "owned (ts[nat dst := u, nat src := s']) = owned ts"
  proof -
    have "owned (ts[nat dst := u, nat src := s']) + mset (customersList s) =
        owned (ts[nat dst := u]) + mset (customersList s')"
      using owned_update [of "nat src" "ts[nat dst := u]" s'] ne by (simp add: s ts_def)
    moreover have "owned (ts[nat dst := u]) + mset (customersList d) = owned ts + mset (customersList u)"
      using owned_update [of "nat dst" ts u] ne by (simp add: d ts_def)
    moreover have "mset (customersList u) = add_mset p (mset (customersList d))"
      by (simp add: u_def)
    moreover have "mset (customersList s) = add_mset p (mset (customersList s'))"
      using p by (simp add: s'_def without_sel)
    ultimately show ?thesis by simp
  qed
  moreover have "table_ok (with_table (with_table w dst u) src s') x"
    if "x \<in> set (ts[nat dst := u, nat src := s'])" for x
  proof -
    have "x = u \<or> x = s' \<or> x \<in> set ts"
      using that set_update_subset_insert [of "ts[nat dst := u]" "nat src" s']
        set_update_subset_insert [of ts "nat dst" u] by auto
    then have "table_ok w x"
      using u s' ok by (auto simp: rest_ok_def ts_def)
    then show ?thesis
      using table_ok_cong [of "with_table (with_table w dst u) src s'" w x] by simp
  qed
  ultimately have "rest_ok (with_table (with_table w dst u) src s')"
    using ok by (simp add: rest_ok_def ts_def)
  then show ?thesis by (simp add: u_def s'_def)
qed

text \<open>C35: moving a customer who sits at the source to an open table that is not full, another one,
  succeeds. He leaves the source and is the last customer of the destination, his orders go with
  him, everybody else stays, and the bills of the two tables together do not change. A source
  that he leaves empty is closed.
\<close>

theorem MoveCustomer_moves:
  assumes "rest_ok w" "servable w (MoveCustomer src dst i)"
    "is_open (tables (rest w) ! nat dst)" "\<not> isFull (tables (rest w) ! nat dst)"
  shows "\<exists>w' p. MoveCustomer_act src dst i a w = Ok (a\<lparr>status := COMPLETED\<rparr>) w' \<and>
    (let s = tables (rest w) ! nat src; d = tables (rest w) ! nat dst;
         s' = tables (rest w') ! nat src; d' = tables (rest w') ! nat dst in
     cells w' = cells w \<and> id_at w p = i \<and>
     customersList d' = customersList d @ [p] \<and>
     mset (customersList s) = add_mset p (mset (customersList s')) \<and>
     orderList d' = orderList d @ filter (\<lambda>q. fst q = i) (orderList s) \<and>
     orderList s' = filter (\<lambda>q. fst q \<noteq> i) (orderList s) \<and>
     bill s' + bill d' = bill s + bill d \<and>
     is_open s' = (is_open s \<and> customersList s' \<noteq> []) \<and>
     length (tables (rest w')) = length (tables (rest w)) \<and>
     list_all (\<lambda>j. j = nat src \<or> j = nat dst \<or> tables (rest w') ! j = tables (rest w) ! j)
       [0..<length (tables (rest w))])"
proof -
  define s where "s = tables (rest w) ! nat src"
  define d where "d = tables (rest w) ! nat dst"
  obtain p qs where f: "mset (customersList s) = add_mset p (mset qs)" "id_at w p = i"
    "MoveCustomer_act src dst i a w = Ok (a\<lparr>status := COMPLETED\<rparr>)
      (with_table (with_table w dst (d\<lparr>customersList := customersList d @ [p],
          currentCapacity := currentCapacity d + 1,
          orderList := orderList d @ filter (\<lambda>p. fst p = i) (orderList s)\<rparr>))
        src (without_customer i qs s))"
    using Move_ok [OF assms(1,2) d_def s_def, of a] assms(3,4) by (auto simp: d_def)
  have ne: "nat src \<noteq> nat dst" "nat src < length (tables (rest w))" "nat dst < length (tables (rest w))"
    using assms(2) by (auto simp: servable_def in_range_def)
  have "(\<Sum>q \<leftarrow> filter (\<lambda>q. fst q \<noteq> i) (orderList s). price (snd q)) +
      (bill d + (\<Sum>q \<leftarrow> filter (\<lambda>q. fst q = i) (orderList s). price (snd q))) = bill s + bill d"
    using sum_filter_split [of "\<lambda>q. price (snd q)" "\<lambda>q. fst q = i" "orderList s"]
    by (simp add: bill_def)
  then have "bill (without_customer i qs s) +
      bill (d\<lparr>customersList := customersList d @ [p], currentCapacity := currentCapacity d + 1,
          orderList := orderList d @ filter (\<lambda>p. fst p = i) (orderList s)\<rparr>) = bill s + bill d"
    by (simp add: bill_without) (simp add: bill_def)
  then show ?thesis
    using f ne unfolding Let_def s_def [symmetric] d_def [symmetric]
    by (intro exI [of _ "with_table (with_table w dst (d\<lparr>customersList := customersList d @ [p],
          currentCapacity := currentCapacity d + 1,
          orderList := orderList d @ filter (\<lambda>p. fst p = i) (orderList s)\<rparr>))
        src (without_customer i qs s)"] exI [of _ p] conjI)
      (simp_all add: without_sel list_all_iff nth_list_update)
qed

lemma MoveCustomer_safe:
  assumes ok: "rest_ok w" and sv: "servable w (MoveCustomer src dst i)"
  shows "\<exists>a' w'. MoveCustomer_act src dst i a w = Ok a' w' \<and> rest_ok w'"
proof -
  define s where "s = tables (rest w) ! nat src"
  define d where "d = tables (rest w) ! nat dst"
  have r: "in_range w src" "in_range w dst" "src \<noteq> dst"
    using sv by (simp_all add: servable_def)
  show ?thesis
  proof (cases "is_open d \<and> \<not> isFull d")
    case True
    then have free: "is_open d" "\<not> isFull d" by simp_all
    obtain p qs where f: "mset (customersList s) = add_mset p (mset qs)"
      "MoveCustomer_act src dst i a w = Ok (a\<lparr>status := COMPLETED\<rparr>)
        (with_table (with_table w dst (d\<lparr>customersList := customersList d @ [p],
            currentCapacity := currentCapacity d + 1,
            orderList := orderList d @ filter (\<lambda>p. fst p = i) (orderList s)\<rparr>))
          src (without_customer i qs s))"
      using Move_ok [OF ok sv d_def s_def free, of a] by blast
    then show ?thesis
      using Move_keeps_ok [OF ok r d_def s_def free(2) f(1)] by blast
  next
    case False
    then show ?thesis
      using ok getTable_ok [OF r(2)]
      by (auto simp: MoveCustomer_act_def bnd_def thn_def put_cout_apply rest_ok_cout simp flip: d_def)
  qed
qed

lemma PrintMenu_safe: "rest_ok w \<Longrightarrow> \<exists>a' w'. PrintMenu_act a w = Ok a' w' \<and> rest_ok w'"
  by (simp add: PrintMenu_act_def foreach_put_cout thn_Ok rest_ok_cout)

lemma thn_assoc: "thn (thn l m) n = thn l (thn m n)"
  by (auto simp: thn_def bnd_def fun_eq_iff split: outcome.splits)

lemma Status_safe:
  assumes ok: "rest_ok w" and i: "in_range w i" and b: "bill (tables (rest w) ! nat i) < 2 ^ 31"
  shows "\<exists>a' w'. PrintTableStatus_act i a w = Ok a' w' \<and> rest_ok w'"
proof -
  define t where "t = tables (rest w) ! nat i"
  have t: "table_ok w t"
    using rest_ok_table ok i by (simp add: t_def)
  have gb: "getBill t s = Ok (bill t) s" for s :: rworld
    using getBill_ok [OF t] b by (simp add: t_def)
  have "\<exists>x. foreach (customersList t) (\<lambda>p. bnd (deref p) (\<lambda>c. put_cout (customer_toString c @ ''\<newline>''))) v
      = Ok () (v\<lparr>cout := x\<rparr>)" if "v = w\<lparr>cout := y\<rparr>" for v y
    by (rule foreach_show) (use t that in \<open>auto simp: table_ok_def live_def\<close>)
  then have show_all: "\<exists>x. foreach (customersList t) (\<lambda>p. bnd (deref p) (\<lambda>c. put_cout (customer_toString c @ ''\<newline>'')))
      (w\<lparr>cout := y\<rparr>) = Ok () (w\<lparr>cout := x\<rparr>)" for y
    by fastforce
  show ?thesis
  proof (cases "is_open t")
    case True
    obtain x where "foreach (customersList t) (\<lambda>p. bnd (deref p) (\<lambda>c. put_cout (customer_toString c @ ''\<newline>'')))
        (w\<lparr>cout := cout w @ ''Table '' @ to_string i @ '' status: open\<newline>Customers:\<newline>''\<rparr>)
        = Ok () (w\<lparr>cout := x\<rparr>)"
      using show_all by blast
    then have "\<exists>y. PrintTableStatus_act i a w = Ok (a\<lparr>status := COMPLETED\<rparr>) (w\<lparr>cout := y\<rparr>)"
      using True getTable_ok [OF i]
      by (simp add: PrintTableStatus_act_def bnd_Ok thn_Ok thn_assoc put_cout_apply foreach_put_cout
        del: append_Cons append.simps flip: t_def)
        (simp add: thn_def bnd_def put_cout_def gb, rule exI, rule refl)
    then show ?thesis
      using ok rest_ok_cout by metis
  next
    case False
    then show ?thesis
      using ok getTable_ok [OF i]
      by (simp add: PrintTableStatus_act_def bnd_Ok thn_Ok put_cout_apply rest_ok_cout flip: t_def)
  qed
qed

text \<open>C30: in a well-formed restaurant every command that the program can serve (\<open>open\<close> with new
  customers, \<open>order\<close>, \<open>move\<close>, \<open>close\<close>, \<open>menu\<close>, \<open>status\<close>) runs to its end: it dereferences no
  dangling or null pointer, deletes nothing twice, leaves no vector, and the restaurant it
  leaves is well-formed again.
\<close>

theorem commands_are_memory_safe:
  assumes "rest_ok w" "servable w k"
  shows "\<exists>w'. run_action k w = Ok () w' \<and> rest_ok w'"
proof -
  have "\<exists>a' w'. act (BaseAction k) w = Ok a' w' \<and> rest_ok w'"
  proof (cases k)
    case (OpenTable t ps)
    then show ?thesis using OpenTable_safe assms by (simp add: act_def BaseAction_def)
  next
    case (Order t)
    then show ?thesis using Order_safe assms by (simp add: act_def BaseAction_def servable_def)
  next
    case (MoveCustomer src dst i)
    then show ?thesis using MoveCustomer_safe assms by (simp add: act_def BaseAction_def)
  next
    case (Close t)
    then show ?thesis using Close_safe assms by (simp add: act_def BaseAction_def servable_def)
  next
    case PrintMenu
    then show ?thesis using PrintMenu_safe assms by (simp add: act_def BaseAction_def)
  next
    case (PrintTableStatus t)
    then show ?thesis using Status_safe assms by (simp add: act_def BaseAction_def servable_def)
  qed (use assms in \<open>simp_all add: servable_def\<close>)
  then obtain a' w' where "act (BaseAction k) w = Ok a' w'" "rest_ok w'"
    by blast
  then show ?thesis
    by (simp add: run_action_def bnd_Ok log_action_def rest_ok_log)
qed

text \<open>A restaurant with two tables where a spicy and a cheap customer sit at the first.\<close>

definition demo_world :: rworld where
  "demo_world = \<lparr>cells = [0 \<mapsto> mk_customer Spicy ''Sam'' 0, 1 \<mapsto> mk_customer Cheap ''Chris'' 1],
     fresh = 2, cout = '''',
     rest = \<lparr>numOfTables = 2,
       tables = [\<lparr>currentCapacity = 2, capacity = 3, is_open = True, customersList = [Some 0, Some 1],
                  orderList = [(0, mk_dish 2 ''Curry'' 50 SPC), (1, mk_dish 1 ''Water'' 10 BVG)]\<rparr>,
                 \<lparr>currentCapacity = 0, capacity = 1, is_open = True, customersList = [], orderList = []\<rparr>],
       menu = demo_menu, actionsLog = [], customerCount = 2\<rparr>,
     backup = None\<rparr>"

lemma demo_world_ok: "rest_ok demo_world"
  by (auto simp: rest_ok_def demo_world_def table_ok_def live_def mk_dish_def mk_customer_def owned_def
    menu_ok_def demo_menu_def)

lemma demo_move_servable: "servable demo_world (MoveCustomer 0 1 1)"
  by (simp add: servable_def in_range_def demo_world_def mk_customer_def)

theorem MoveCustomer_moves_witness:
  "\<exists>w' p. MoveCustomer_act 0 1 1 (BaseAction (MoveCustomer 0 1 1)) demo_world =
       Ok ((BaseAction (MoveCustomer 0 1 1))\<lparr>status := COMPLETED\<rparr>) w'
     \<and> orderList (tables (rest w') ! 1) = [(1, mk_dish 1 ''Water'' 10 BVG)]
     \<and> customersList (tables (rest w') ! 1) = [p]"
proof -
  have t: "tables (rest demo_world) ! nat 1 = \<lparr>currentCapacity = 0, capacity = 1, is_open = True,
      customersList = [], orderList = []\<rparr>"
    and s: "orderList (tables (rest demo_world) ! nat 0) =
      [(0, mk_dish 2 ''Curry'' 50 SPC), (1, mk_dish 1 ''Water'' 10 BVG)]"
    by (simp_all add: demo_world_def)
  show ?thesis
    using MoveCustomer_moves [OF demo_world_ok demo_move_servable, of "BaseAction (MoveCustomer 0 1 1)"]
    unfolding Let_def s t by (simp add: isFull_def) blast
qed

theorem commands_are_memory_safe_witness:
  "rest_ok demo_world \<and> servable demo_world (Order 0) \<and>
   (\<exists>w'. run_action (Order 0) demo_world = Ok () w' \<and> rest_ok w')"
proof -
  have sv: "servable demo_world (Order 0)"
    by (simp add: servable_def in_range_def demo_world_def)
  show ?thesis
    using commands_are_memory_safe [OF demo_world_ok sv] sv demo_world_ok by simp
qed

section \<open>Errors\<close>

lemma OpenTable_refusal:
  "OpenTable_act i ps a w =
    (let n = int (length (tables (rest w)));
         e = a\<lparr>status := ERROR, errorMsg := ''Table does not exist or is already open''\<rparr> in
     if i < 0 \<or> i = n then Panic ''std::out_of_range''
     else if i > n \<or> is_open (tables (rest w) ! nat i)
     then Ok e (w\<lparr>cout := cout w @ ''Error: Table does not exist or is already open\<newline>''\<rparr>)
     else Ok (a\<lparr>status := COMPLETED\<rparr>) (with_table w i (seated ps (openTable (tables (rest w) ! nat i)))))"
proof -
  define n where "n = int (length (tables (rest w)))"
  consider "i < 0 \<or> i = n" | "i > n" | "in_range w i" "is_open (tables (rest w) ! nat i)"
    | "in_range w i" "\<not> is_open (tables (rest w) ! nat i)"
  proof -
    have "i < 0 \<or> i = n \<or> i > n \<or> in_range w i"
      unfolding in_range_def n_def by linarith
    then show ?thesis
      using that by blast
  qed
  then show ?thesis
  proof cases
    case 1
    then have "i \<le> getNumOfTables (rest w)" "vec_at (tables (rest w)) i w = Panic ''std::out_of_range''"
      by (auto simp: getNumOfTables_def n_def vec_at_def)
    then show ?thesis
      using 1 by (simp add: OpenTable_act_def getTable_def bnd_def n_def)
  next
    case 2
    then show ?thesis
      by (simp add: OpenTable_act_def getNumOfTables_def n_def bnd_def thn_def put_cout_apply
        set_error_def statusTostring_def getErrorMsg_def Let_def)
  next
    case 3
    then have "i \<le> getNumOfTables (rest w)" "\<not> i < 0" "i \<noteq> n" "\<not> i > n"
      by (auto simp: in_range_def n_def getNumOfTables_def)
    then show ?thesis
      using 3 by (simp add: OpenTable_act_def n_def bnd_def thn_def put_cout_apply getTable_ok
        set_error_def statusTostring_def getErrorMsg_def Let_def)
  next
    case 4
    then have i: "i \<le> getNumOfTables (rest w)" "\<not> i < 0" "i \<noteq> n" "\<not> i > n" "nat i < length (tables (rest w))"
      by (auto simp: in_range_def n_def getNumOfTables_def)
    have "in_range (with_table w i (openTable (tables (rest w) ! nat i))) i"
      using 4 by simp
    from foreach_addCustomer [OF this, of ps] show ?thesis
      using 4 i by (simp add: OpenTable_act_def n_def bnd_def thn_def putTable_apply getTable_ok Let_def)
  qed
qed

text \<open>What \<open>open\<close> answers for each table number. A number above the number of tables and a table
  that is open are reported as errors; the number of tables itself, which the test
  \<open>tableId <= getNumOfTables()\<close> lets through, and a negative number end the program with the
  exception of \<^verbatim>\<open>vector::at\<close>.
\<close>

theorem OpenTable_refusals:
  "OpenTable_act i ps a w =
    (let n = int (length (tables (rest w)));
         e = a\<lparr>status := ERROR, errorMsg := ''Table does not exist or is already open''\<rparr> in
     if i < 0 \<or> i = n then Panic ''std::out_of_range''
     else if i > n \<or> is_open (tables (rest w) ! nat i)
     then Ok e (w\<lparr>cout := cout w @ ''Error: Table does not exist or is already open\<newline>''\<rparr>)
     else Ok (a\<lparr>status := COMPLETED\<rparr>) (with_table w i (seated ps (openTable (tables (rest w) ! nat i)))))"
  by (rule OpenTable_refusal)

lemma delete_outcomes: "(\<exists>w'. delete p w = Ok () w') \<or> delete p w = Panic ''undefined behaviour''"
  by (cases p) (auto simp: delete_def deref_def bnd_def split: option.splits)

lemma delete_until_null_cases:
  "(\<exists>w'. delete_until_null ps w = Ok () w') \<or> delete_until_null ps w = Panic ''undefined behaviour''"
proof (induction ps arbitrary: w)
  case (Cons p ps)
  show ?case
    using delete_outcomes [of p w]
    by (cases p, simp) (elim disjE exE; simp add: thn_def bnd_def Cons.IH)
qed simp

lemma delete_past_end_undef:
  "None \<notin> set ps \<Longrightarrow> delete_past_end ps w = Panic ''undefined behaviour''"
proof (induction ps arbitrary: w)
  case (Cons p ps)
  then show ?case
    using delete_outcomes [of p w] by (cases p) (auto simp: thn_def bnd_def)
qed simp

lemma delete_past_end_cases:
  "(\<exists>w'. delete_past_end ps w = Ok () w') \<or> delete_past_end ps w = Panic ''undefined behaviour''"
proof (induction ps arbitrary: w)
  case (Cons p ps)
  show ?case
    using delete_outcomes [of p w]
    by (cases p, simp) (elim disjE exE; simp add: thn_def bnd_def Cons.IH)
qed simp

lemma destroy_action_cases:
  "(\<exists>w'. destroy_action a w = Ok () w') \<or> destroy_action a w = Panic ''undefined behaviour''"
proof (cases "kind a")
  case (OpenTable t ps)
  show ?thesis
    using delete_until_null_cases [of ps w]
    by (cases "status a = ERROR"; elim disjE exE)
      (simp_all add: destroy_action_def OpenTable thn_def bnd_def whenk_def delete_past_end_cases)
qed (simp_all add: destroy_action_def)

lemma destroy_open_undef:
  assumes "kind a = OpenTable t ps" "ps \<noteq> []" "None \<notin> set ps"
  shows "destroy_action a w = Panic ''undefined behaviour''"
  using assms delete_until_null_cases [of ps w] delete_past_end_undef [of ps]
  by (auto simp: destroy_action_def thn_def bnd_def whenk_def)

lemma destroy_log_undef:
  "\<exists>a \<in> set as. \<exists>t ps. kind a = OpenTable t ps \<and> ps \<noteq> [] \<and> None \<notin> set ps \<Longrightarrow>
   foreach as destroy_action w = Panic ''undefined behaviour''"
proof (induction as arbitrary: w)
  case Nil
  then show ?case by simp
next
  case (Cons a as)
  show ?case
  proof (cases "destroy_action a w = Panic ''undefined behaviour''")
    case True
    then show ?thesis by (simp add: thn_def bnd_def)
  next
    case False
    then obtain w' where "destroy_action a w = Ok () w'"
      using destroy_action_cases by blast
    moreover have "foreach as destroy_action w' = Panic ''undefined behaviour''"
      using Cons False destroy_open_undef by (metis set_ConsD)
    ultimately show ?thesis by (simp add: thn_def bnd_def)
  qed
qed

text \<open>C37: once a table was opened for customers, the log can no longer be destroyed: the second loop
  of \<^verbatim>\<open>~OpenTable\<close> tests \<open>0 < customers.size()\<close> instead of the index and runs past the end of the
  vector. So the destructor of the restaurant and \<open>clear\<close>, with which \<open>restore\<close> begins, are
  undefined for such a log, whatever else is in it.
\<close>

theorem opened_log_cannot_be_destroyed:
  assumes "a \<in> set (actionsLog (rest w))" "kind a = OpenTable t ps" "ps \<noteq> []" "None \<notin> set ps"
  shows "Restaurant_destroy (rest w) w = Panic ''undefined behaviour'' \<and>
    Restaurant_clear w = Panic ''undefined behaviour'' \<and>
    (\<forall>b. backup w \<noteq> None \<longrightarrow> RestoreResturant_act b w = Panic ''undefined behaviour'')"
proof -
  have "foreach (actionsLog (rest w)) destroy_action w = Panic ''undefined behaviour''"
    using destroy_log_undef assms by blast
  then show ?thesis
    by (auto simp: Restaurant_destroy_def Restaurant_clear_def RestoreResturant_act_def thn_def bnd_def
      split: option.splits)
qed

theorem opened_log_cannot_be_destroyed_witness:
  "\<exists>w. exec_command ''open 0 Ann,veg'' (demo_world\<lparr>rest := (rest demo_world)\<lparr>tables := [Table_new False 4]\<rparr>\<rparr>)
       = Ok () w \<and> Restaurant_destroy (rest w) w = Panic ''undefined behaviour''"
proof -
  define v where "v = demo_world\<lparr>rest := (rest demo_world)\<lparr>tables := [Table_new False 4]\<rparr>\<rparr>"
  have words: "getWordVec ''open 0 Ann,veg'' = [''open'', ''0'', ''Ann'', ''veg'']"
    by (simp add: getWordVec.simps is_sep_def)
  have zero: "stringToInt ''0'' s = Ok 0 s" for s :: rworld
    by (simp add: stringToInt_def dec_step_def bnd_def schar_def)
  obtain w where w: "exec_command ''open 0 Ann,veg'' v = Ok () w"
      "actionsLog (rest w) = [(BaseAction (OpenTable 0 [Some 2]))\<lparr>status := COMPLETED\<rparr>]"
    by (simp add: exec_command_def words word_int_def bnd_def thn_def zero new_customer_def
      type_of_word_def run_action_def act_def BaseAction_def OpenTable_refusal log_action_def
      with_table_def v_def demo_world_def Table_new_def Let_def)
  moreover have "Restaurant_destroy (rest w) w = Panic ''undefined behaviour''"
    using opened_log_cannot_be_destroyed [of _ w 0 "[Some 2]"] w(2) by (simp add: BaseAction_def)
  ultimately show ?thesis
    unfolding v_def by blast
qed

lemma clone_all_rest:
  "clone_all ps w = Ok qs w' \<Longrightarrow> rest w' = rest w"
proof (induction ps arbitrary: w qs)
  case (Cons p ps)
  then show ?case
    by (force simp: bnd_eq_Ok thn_eq_Ok deref_def new_customer_def split: option.splits)
qed simp

lemma copy_tables_rest:
  fixes w :: rworld
  shows "copy_tables ts n w = Ok us w' \<Longrightarrow> rest w' = rest w \<and> length us = n"
  by (induction ts n arbitrary: us w rule: copy_tables.induct)
    (auto simp: bnd_eq_Ok Table_copy_def dest!: clone_all_rest)

lemma clone_log_rest:
  fixes w :: rworld
  shows "clone_log as w = Ok bs w' \<Longrightarrow> rest w' = rest w \<and> length bs = length as"
  by (induction as arbitrary: bs w)
    (auto simp: bnd_eq_Ok action_Clone_def dest!: clone_all_rest split: action_kind.splits)

text \<open>When \<open>restore\<close> returns, the restaurant has the tables and the log of the backup (as many of
  each) and its counter of customers, but its menu is empty: \<open>clear\<close> removes the menu and
  \<^verbatim>\<open>operator=\<close> does not bring it back.
\<close>

theorem restore_loses_menu:
  assumes "backup w = Some res" "RestoreResturant_act a w = Ok a' w'"
  shows "menu (rest w') = [] \<and> length (tables (rest w')) = length (tables res) \<and>
    length (actionsLog (rest w')) = length (actionsLog res) \<and>
    customerCount (rest w') = customerCount res \<and> a' = a\<lparr>status := COMPLETED\<rparr>"
  using assms
  by (auto simp: RestoreResturant_act_def bnd_eq_Ok thn_eq_Ok Restaurant_clear_def Restaurant_assign_def
    dest!: copy_tables_rest clone_log_rest)

theorem restore_loses_menu_witness:
  "\<exists>a' w'. RestoreResturant_act (BaseAction RestoreResturant) (demo_world\<lparr>backup := Some (rest demo_world)\<rparr>)
      = Ok a' w' \<and> menu (rest demo_world) \<noteq> [] \<and> menu (rest w') = []"
proof -
  obtain a' w' where r: "RestoreResturant_act (BaseAction RestoreResturant)
      (demo_world\<lparr>backup := Some (rest demo_world)\<rparr>) = Ok a' w'"
    by (simp add: RestoreResturant_act_def Restaurant_clear_def Restaurant_assign_def demo_world_def
      bnd_def thn_def Table_copy_def deref_def new_customer_def Customer_Clone_def)
  show ?thesis
    using restore_loses_menu [OF _ r] r by (simp add: demo_world_def demo_menu_def)
qed

end
