(* ===== verification/ShParse.thy ===== *)
theory ShParse
  imports Prelude
begin

text \<open>
  The parser of the shell (\<^verbatim>\<open>sh.c\<close>). The line is a string without NUL; \<^verbatim>\<open>es\<close>, its end, is its
  length, where a NUL is read. The state of the parser is the pointer \<^verbatim>\<open>*ps\<close>, as an offset. A word
  of the line is the pair of its bounds \<open>(q, eq)\<close>, and \<open>nulterminate\<close> writes the NULs into the
  line. \<^verbatim>\<open>panic\<close>, which prints and exits, is a panic of the monad, and \<^verbatim>\<open>malloc\<close> is taken to
  succeed. The recursive functions count down fuel; \<open>parse_terminates\<close> below shows that the fuel
  \<open>parsecmd\<close> gives them is enough for every line.
\<close>

section \<open>Commands\<close>

text \<open>The structures of parsed commands, over the type of words. The mutable argument arrays of an
  \<^verbatim>\<open>execcmd\<close>, ended by null pointers, are a list of words.\<close>

datatype 'w cmd =
    ExecCmd "'w list"
  | RedirCmd "'w cmd" 'w nat nat
  | PipeCmd "'w cmd" "'w cmd"
  | ListCmd "'w cmd" "'w cmd"
  | BackCmd "'w cmd"

type_synonym slice = "nat \<times> nat"
type_synonym 'a parser = "(nat, 'a) kern"

definition MAXARGS :: nat where
  "MAXARGS = 10"

definition O_RDONLY :: nat where
  "O_RDONLY = 0"

definition O_WRONLY_CREATE :: nat where
  "O_WRONLY_CREATE = 0x201"

section \<open>Tokens\<close>

definition whitespace :: string where
  "whitespace = '' '' @ [CHR 0x09, CHR 0x0D, CHR 0x0A, CHR 0x0B]"

definition symbols :: string where
  "symbols = ''<|>&;()''"

abbreviation NUL :: char where
  "NUL \<equiv> CHR 0x00"

definition ch :: "string \<Rightarrow> nat \<Rightarrow> char" where
  "ch buf s = (if s < length buf then buf ! s else NUL)"

text \<open>\<^verbatim>\<open>while (s < es && p(*s)) s++\<close>\<close>

function scan :: "(char \<Rightarrow> bool) \<Rightarrow> string \<Rightarrow> nat \<Rightarrow> nat" where
  "scan p buf s = (if s < length buf \<and> p (buf ! s) then scan p buf (s + 1) else s)"
  by pat_completeness auto
termination
  by (relation "measure (\<lambda>(p, buf, s). length buf - s)") auto

declare scan.simps [simp del]

definition is_ws :: "char \<Rightarrow> bool" where
  "is_ws c = (c \<in> set whitespace)"

definition word_char :: "char \<Rightarrow> bool" where
  "word_char c = (c \<notin> set whitespace \<and> c \<notin> set symbols)"

definition gettoken :: "string \<Rightarrow> (char \<times> nat \<times> nat) parser" where
  "gettoken buf = bnd (gets (\<lambda>s. s)) (\<lambda>s.
     let q = scan is_ws buf s;
         c = ch buf q;
         (tok, eq) =
           (if c = NUL then (NUL, q)
            else if c \<in> set ''|();&<'' then (c, q + 1)
            else if c = CHR ''>'' then
              if ch buf (q + 1) = CHR ''>'' then (CHR ''+'', q + 2) else (CHR ''>'', q + 1)
            else (CHR ''a'', scan word_char buf q))
     in thn (modify (\<lambda>_. scan is_ws buf eq)) (ret (tok, q, eq)))"

definition peek :: "string \<Rightarrow> string \<Rightarrow> bool parser" where
  "peek buf toks =
     thn (modify (scan is_ws buf)) (bnd (gets (\<lambda>s. s)) (\<lambda>s.
     ret (ch buf s \<noteq> NUL \<and> ch buf s \<in> set toks)))"

section \<open>The grammar\<close>

definition redir_entry :: "char \<Rightarrow> slice \<Rightarrow> slice \<times> nat \<times> nat" where
  "redir_entry tok w = (if tok = CHR ''<'' then (w, O_RDONLY, 0) else (w, O_WRONLY_CREATE, 1))"

definition wrap_redirs :: "'w cmd \<Rightarrow> ('w \<times> nat \<times> nat) list \<Rightarrow> 'w cmd" where
  "wrap_redirs c rs = foldl (\<lambda>c (w, mode, fd). RedirCmd c w mode fd) c rs"

text \<open>The loop of \<^verbatim>\<open>parseredirs\<close> gives the redirections in the order in which they wrap the command.\<close>

fun redirs :: "nat \<Rightarrow> string \<Rightarrow> (slice \<times> nat \<times> nat) list parser" where
  "redirs 0 buf = diverge"
| "redirs (Suc n) buf = bnd (peek buf ''<>'') (\<lambda>b.
     if \<not> b then ret []
     else bnd (gettoken buf) (\<lambda>(tok, _, _). bnd (gettoken buf) (\<lambda>(t, q, eq).
       if t \<noteq> CHR ''a'' then panic ''missing file for redirection''
       else bnd (redirs n buf) (\<lambda>rs. ret (redir_entry tok (q, eq) # rs)))))"

definition parseredirs :: "nat \<Rightarrow> string \<Rightarrow> slice cmd \<Rightarrow> slice cmd parser" where
  "parseredirs n buf c = bnd (redirs n buf) (\<lambda>rs. ret (wrap_redirs c rs))"

text \<open>The loop of \<^verbatim>\<open>parseexec\<close>: the arguments and the redirections among them, which wrap the
  command while its arguments are still being added.\<close>

fun parse_args :: "nat \<Rightarrow> string \<Rightarrow> nat \<Rightarrow> (slice list \<times> (slice \<times> nat \<times> nat) list) parser" where
  "parse_args 0 buf argc = diverge"
| "parse_args (Suc n) buf argc = bnd (peek buf ''|)&;'') (\<lambda>b.
     if b then ret ([], [])
     else bnd (gettoken buf) (\<lambda>(tok, q, eq).
       if tok = NUL then ret ([], [])
       else if tok \<noteq> CHR ''a'' then panic ''syntax''
       else if argc + 1 \<ge> MAXARGS then panic ''too many args''
       else bnd (redirs n buf) (\<lambda>rs. bnd (parse_args n buf (argc + 1)) (\<lambda>(ws, rs').
         ret ((q, eq) # ws, rs @ rs')))))"

fun parse_backs :: "nat \<Rightarrow> string \<Rightarrow> slice cmd \<Rightarrow> slice cmd parser" where
  "parse_backs 0 buf c = diverge"
| "parse_backs (Suc n) buf c = bnd (peek buf ''&'') (\<lambda>b.
     if b then bnd (gettoken buf) (\<lambda>_. parse_backs n buf (BackCmd c)) else ret c)"

fun parseline :: "nat \<Rightarrow> string \<Rightarrow> slice cmd parser"
and parsepipe :: "nat \<Rightarrow> string \<Rightarrow> slice cmd parser"
and parseblock :: "nat \<Rightarrow> string \<Rightarrow> slice cmd parser"
and parseexec :: "nat \<Rightarrow> string \<Rightarrow> slice cmd parser" where
  "parseline 0 buf = diverge"
| "parseline (Suc n) buf = bnd (parsepipe n buf) (\<lambda>c. bnd (parse_backs n buf c) (\<lambda>c.
     bnd (peek buf '';'') (\<lambda>b.
     if b then bnd (gettoken buf) (\<lambda>_. bnd (parseline n buf) (\<lambda>d. ret (ListCmd c d)))
     else ret c)))"
| "parsepipe 0 buf = diverge"
| "parsepipe (Suc n) buf = bnd (parseexec n buf) (\<lambda>c. bnd (peek buf ''|'') (\<lambda>b.
     if b then bnd (gettoken buf) (\<lambda>_. bnd (parsepipe n buf) (\<lambda>d. ret (PipeCmd c d)))
     else ret c))"
| "parseblock 0 buf = diverge"
| "parseblock (Suc n) buf = bnd (peek buf ''('') (\<lambda>b.
     if \<not> b then panic ''parseblock''
     else bnd (gettoken buf) (\<lambda>_. bnd (parseline n buf) (\<lambda>c. bnd (peek buf '')'') (\<lambda>b.
       if \<not> b then panic ''syntax - missing )''
       else bnd (gettoken buf) (\<lambda>_. parseredirs n buf c)))))"
| "parseexec 0 buf = diverge"
| "parseexec (Suc n) buf = bnd (peek buf ''('') (\<lambda>b.
     if b then parseblock n buf
     else bnd (redirs n buf) (\<lambda>rs. bnd (parse_args n buf 0) (\<lambda>(ws, rs').
       ret (wrap_redirs (ExecCmd ws) (rs @ rs')))))"

text \<open>Writing a NUL at \<^verbatim>\<open>es\<close> writes what is there.\<close>

fun nulterminate :: "slice cmd \<Rightarrow> string \<Rightarrow> string" where
  "nulterminate (ExecCmd ws) buf = foldl (\<lambda>b (q, eq). b[eq := NUL]) buf ws"
| "nulterminate (RedirCmd c w mode fd) buf = (nulterminate c buf)[snd w := NUL]"
| "nulterminate (PipeCmd l r) buf = nulterminate r (nulterminate l buf)"
| "nulterminate (ListCmd l r) buf = nulterminate r (nulterminate l buf)"
| "nulterminate (BackCmd c) buf = nulterminate c buf"

definition parse_fuel :: "string \<Rightarrow> nat" where
  "parse_fuel buf = 5 * length buf + 6"

text \<open>\<^verbatim>\<open>parsecmd(s)\<close>: the command and the line with the NULs in it.\<close>

definition parsecmd :: "string \<Rightarrow> (slice cmd \<times> string) parser" where
  "parsecmd buf =
     thn (modify (\<lambda>_. 0))
     (bnd (parseline (parse_fuel buf) buf) (\<lambda>c.
     bnd (peek buf '''') (\<lambda>_. bnd (gets (\<lambda>s. s)) (\<lambda>s.
     if s \<noteq> length buf then panic (''leftovers: '' @ drop s buf @ ''\<newline>'' @ ''syntax'') else ret (c, nulterminate c buf)))))"

text \<open>What a process sees at the pointer \<open>q\<close> of the line: the characters up to a NUL.\<close>

definition c_string :: "string \<Rightarrow> nat \<Rightarrow> string" where
  "c_string buf q = takeWhile (\<lambda>c. c \<noteq> NUL) (drop q buf)"

definition word_at :: "string \<Rightarrow> slice \<Rightarrow> string" where
  "word_at buf w = take (snd w - fst w) (drop (fst w) buf)"

section \<open>Tokens move forward\<close>

lemma scan_ge: "s \<le> scan p buf s"
  by (induction p buf s rule: scan.induct) (subst scan.simps, auto)

lemma scan_le: "s \<le> length buf \<Longrightarrow> scan p buf s \<le> length buf"
  by (induction p buf s rule: scan.induct) (subst scan.simps, auto)

lemma scan_inside: "s \<le> i \<Longrightarrow> i < scan p buf s \<Longrightarrow> i < length buf \<and> p (buf ! i)"
proof (induction p buf s rule: scan.induct)
  case (1 p buf s)
  show ?case
  proof (cases "s < length buf \<and> p (buf ! s)")
    case True
    then have "scan p buf s = scan p buf (s + 1)" by (subst scan.simps) simp
    then show ?thesis using 1 True by (cases "i = s") auto
  next
    case False
    then have "scan p buf s = s" by (subst scan.simps) auto
    then show ?thesis using 1 by simp
  qed
qed

lemma scan_stop: "scan p buf s < length buf \<Longrightarrow> \<not> p (buf ! scan p buf s)"
proof (induction p buf s rule: scan.induct)
  case (1 p buf s)
  show ?case
  proof (cases "s < length buf \<and> p (buf ! s)")
    case True
    then have "scan p buf s = scan p buf (s + 1)" by (subst scan.simps) simp
    then show ?thesis using 1 True by simp
  next
    case False
    then have "scan p buf s = s" by (subst scan.simps) auto
    then show ?thesis using 1 False by simp
  qed
qed

lemma gettoken_result:
  "\<exists>tok q eq s'. gettoken buf s = Ok (tok, q, eq) s' \<and> q = scan is_ws buf s \<and> s' = scan is_ws buf eq \<and>
     (if ch buf q = NUL then tok = NUL \<and> eq = q
      else q < eq \<and> eq \<le> length buf \<and>
        (tok = CHR ''a'' \<longrightarrow> eq = scan word_char buf q \<and> word_char (ch buf q)))"
proof -
  define q where "q = scan is_ws buf s"
  have w: "word_char (ch buf q)" if "ch buf q \<noteq> NUL" "ch buf q \<notin> set ''|();&<''" "ch buf q \<noteq> CHR ''>''"
  proof -
    have "q < length buf" using that(1) by (simp add: ch_def split: if_splits)
    then have "\<not> is_ws (ch buf q)"
      using scan_stop [of is_ws buf s] by (simp add: ch_def q_def)
    then show ?thesis
      using that(2,3) by (auto simp: word_char_def is_ws_def symbols_def)
  qed
  moreover have "q < scan word_char buf q" if "ch buf q \<noteq> NUL" "word_char (ch buf q)"
    using that scan_ge [of "q + 1" word_char buf]
    by (subst scan.simps) (auto simp: ch_def split: if_splits)
  moreover have "scan word_char buf q \<le> length buf" "q < length buf" if "ch buf q \<noteq> NUL"
    using that scan_le [of q buf word_char] by (auto simp: ch_def split: if_splits)
  moreover have "q + 1 < length buf" if "ch buf (q + 1) = CHR ''>''"
    using that by (auto simp: ch_def split: if_splits)
  ultimately show ?thesis
    by (auto simp: gettoken_def Let_def thn_def bnd_def simp flip: q_def)
qed

section \<open>The parser terminates and finds words\<close>

text \<open>\<open>steps buf Q m s\<close>: from position \<open>s\<close> the parser \<open>m\<close> panics, or returns a result that satisfies
  \<open>Q\<close> at a position between \<open>s\<close> and the end; it does not run out of fuel.\<close>

definition steps :: "string \<Rightarrow> ('a \<Rightarrow> nat \<Rightarrow> bool) \<Rightarrow> 'a parser \<Rightarrow> nat \<Rightarrow> bool" where
  "steps buf Q m s = (case m s of Ok x t \<Rightarrow> s \<le> t \<and> t \<le> length buf \<and> Q x t
     | Panic _ \<Rightarrow> True | _ \<Rightarrow> False)"

lemma steps_bnd:
  assumes "steps buf P m s" "\<And>x t. P x t \<Longrightarrow> s \<le> t \<Longrightarrow> t \<le> length buf \<Longrightarrow> steps buf Q (f x) t"
  shows "steps buf Q (bnd m f) s"
  using assms by (auto simp: steps_def bnd_def split: outcome.splits) (force dest: assms(2))+

lemma steps_ret: "s \<le> length buf \<Longrightarrow> Q x s \<Longrightarrow> steps buf Q (ret x) s"
  by (simp add: steps_def)

lemma steps_panic: "steps buf Q (panic e) s"
  by (simp add: steps_def)

lemma steps_mono: "steps buf P m s \<Longrightarrow> (\<And>x t. P x t \<Longrightarrow> Q x t) \<Longrightarrow> steps buf Q m s"
  by (auto simp: steps_def split: outcome.splits)

definition good_slice :: "string \<Rightarrow> slice \<Rightarrow> bool" where
  "good_slice buf w = (fst w < snd w \<and> snd w \<le> length buf \<and>
     (\<forall>i < length buf. fst w \<le> i \<and> i < snd w \<longrightarrow> word_char (buf ! i)) \<and>
     (snd w < length buf \<longrightarrow> \<not> word_char (buf ! snd w)))"

definition all_good :: "string \<Rightarrow> slice list \<Rightarrow> bool" where
  "all_good buf ws = list_all (good_slice buf) ws"

lemma all_good_simps [simp]:
  "all_good buf []" "all_good buf (w # ws) = (good_slice buf w \<and> all_good buf ws)"
  "all_good buf (ws @ vs) = (all_good buf ws \<and> all_good buf vs)"
  by (simp_all add: all_good_def)

lemma if_swap: "(if \<not> b then x else y) = (if b then y else x)"
  by simp

lemma steps_peek: "s \<le> length buf \<Longrightarrow> steps buf (\<lambda>b t. b \<longrightarrow> ch buf (scan is_ws buf t) \<noteq> NUL) (peek buf toks) s"
proof -
  assume s: "s \<le> length buf"
  have "scan is_ws buf (scan is_ws buf s) = scan is_ws buf s"
    using scan_stop [of is_ws buf s] by (subst scan.simps) auto
  then show ?thesis
    using s by (simp add: steps_def peek_def thn_def bnd_def scan_ge scan_le)
qed

lemma steps_gettoken:
  assumes "s \<le> length buf"
  shows "steps buf (\<lambda>(tok, q, eq) t. (ch buf (scan is_ws buf s) \<noteq> NUL \<longrightarrow> s < t) \<and>
      (tok \<noteq> NUL \<longrightarrow> s < t) \<and> (tok = CHR ''a'' \<longrightarrow> good_slice buf (q, eq))) (gettoken buf) s"
proof -
  obtain tok q eq s' where g: "gettoken buf s = Ok (tok, q, eq) s'" "q = scan is_ws buf s"
      "s' = scan is_ws buf eq"
      "if ch buf q = NUL then tok = NUL \<and> eq = q
       else q < eq \<and> eq \<le> length buf \<and>
         (tok = CHR ''a'' \<longrightarrow> eq = scan word_char buf q \<and> word_char (ch buf q))"
    using gettoken_result [of buf s] by (elim exE conjE)
  have "q \<le> length buf" "s \<le> q"
    using assms by (simp_all add: g(2) scan_le scan_ge)
  moreover have "eq \<le> s'" "eq \<le> length buf \<Longrightarrow> s' \<le> length buf"
    by (simp_all add: g(3) scan_ge scan_le)
  moreover have "good_slice buf (q, eq)" if "tok = CHR ''a''"
  proof -
    have ne: "ch buf q \<noteq> NUL" using g(4) that by (auto split: if_splits)
    with g(4) that have e: "eq = scan word_char buf q" "q < eq" "eq \<le> length buf" by simp_all
    have "word_char (buf ! i)" if "q \<le> i" "i < eq" for i
      using scan_inside [of q i word_char buf] that e(1) by simp
    moreover have "eq < length buf \<Longrightarrow> \<not> word_char (buf ! eq)"
      using scan_stop [of word_char buf q] e(1) by simp
    ultimately show ?thesis
      using e(2,3) by (simp add: good_slice_def)
  qed
  ultimately show ?thesis
    using g(1,4) by (auto simp: steps_def simp flip: g(2) split: if_splits)
qed

lemma steps_redirs:
  "s \<le> length buf \<Longrightarrow> 5 * (length buf - s) < n \<Longrightarrow>
   steps buf (\<lambda>rs t. all_good buf (map fst rs)) (redirs n buf) s"
proof (induction n arbitrary: s)
  case 0
  then show ?case by simp
next
  case (Suc n)
  show ?case
    unfolding redirs.simps
  proof (rule steps_bnd [OF steps_peek [OF Suc.prems(1)]], goal_cases)
    case (1 b t)
    show ?case
    proof (cases b)
      case False
      then show ?thesis using 1 by (simp add: steps_ret)
    next
      case True
      show ?thesis
        unfolding if_not_P [OF not_not [THEN iffD2, OF True]]
      proof (rule steps_bnd [OF steps_gettoken [OF 1(3)]], goal_cases)
        case (1 x u)
        obtain tok q0 eq0 where x: "x = (tok, q0, eq0)" by (cases x)
        have "t < u" using 1(1) x True \<open>b \<longrightarrow> _\<close> by simp
        show ?case
          unfolding x prod.case
        proof (rule steps_bnd [OF steps_gettoken [OF 1(3)]], goal_cases)
          case (1 y v)
          obtain t' q eq where y: "y = (t', q, eq)" by (cases y)
          show ?case
          proof (cases "t' = CHR ''a''")
            case False
            then show ?thesis by (simp add: y steps_panic)
          next
            case True
            have "steps buf (\<lambda>rs t. all_good buf (map fst rs)) (redirs n buf) v"
              by (rule Suc.IH) (use Suc.prems \<open>t < u\<close> \<open>s \<le> t\<close> 1 in auto)
            moreover have "good_slice buf (q, eq)" using 1(1) True y by simp
            ultimately show ?thesis
              using True by (auto simp: y redir_entry_def intro!: steps_bnd steps_ret)
          qed
        qed
      qed
    qed
  qed
qed

text \<open>The common shape: look for a token, take it if it is there.\<close>

lemma steps_if_token:
  assumes "s \<le> length buf"
    and "\<And>x t. s < t \<Longrightarrow> t \<le> length buf \<Longrightarrow> steps buf Q (f x) t"
    and "\<And>t. s \<le> t \<Longrightarrow> t \<le> length buf \<Longrightarrow> steps buf Q g t"
  shows "steps buf Q (bnd (peek buf toks) (\<lambda>b. if b then bnd (gettoken buf) f else g)) s"
proof (rule steps_bnd [OF steps_peek [OF assms(1)]])
  fix b t
  assume b: "b \<longrightarrow> ch buf (scan is_ws buf t) \<noteq> NUL" "s \<le> t" "t \<le> length buf"
  show "steps buf Q (if b then bnd (gettoken buf) f else g) t"
  proof (cases b)
    case True
    have "steps buf Q (bnd (gettoken buf) f) t"
      by (rule steps_bnd [OF steps_gettoken [OF b(3)]]) (use True b assms(2) in auto)
    then show ?thesis using True by simp
  qed (use b assms(3) in simp)
qed

lemma steps_parse_args:
  "s \<le> length buf \<Longrightarrow> 5 * (length buf - s) < n \<Longrightarrow>
   steps buf (\<lambda>(ws, rs) t. all_good buf ws \<and> all_good buf (map fst rs))
     (parse_args n buf argc) s"
proof (induction n arbitrary: s argc)
  case 0
  then show ?case by simp
next
  case (Suc n)
  show ?case
    unfolding parse_args.simps
  proof (rule steps_bnd [OF steps_peek [OF Suc.prems(1)]], goal_cases)
    case (1 b t)
    show ?case
    proof (cases b)
      case True
      then show ?thesis using 1 by (simp add: steps_ret)
    next
      case False
      have "steps buf (\<lambda>(ws, rs) t. all_good buf ws \<and> all_good buf (map fst rs))
        (bnd (gettoken buf) (\<lambda>(tok, q, eq).
           if tok = NUL then ret ([], [])
           else if tok \<noteq> CHR ''a'' then panic ''syntax''
           else if argc + 1 \<ge> MAXARGS then panic ''too many args''
           else bnd (redirs n buf) (\<lambda>rs. bnd (parse_args n buf (argc + 1)) (\<lambda>(ws, rs').
             ret ((q, eq) # ws, rs @ rs'))))) t"
      proof (rule steps_bnd [OF steps_gettoken [OF 1(3)]], goal_cases)
        case (1 x u)
        obtain tok q eq where x: "x = (tok, q, eq)" by (cases x)
        show ?case
        proof (cases "tok = CHR ''a'' \<and> \<not> argc + 1 \<ge> MAXARGS")
          case False
          then show ?thesis using 1 by (auto simp: x steps_ret steps_panic)
        next
          case True
          then have u: "t < u" "good_slice buf (q, eq)" using 1(1) x by simp_all
          have L: "5 * (length buf - u) < n"
            using u(1) Suc.prems(2) \<open>s \<le> t\<close> 1(3) by linarith
          have "steps buf (\<lambda>(ws, rs) t. all_good buf ws \<and> all_good buf (map fst rs))
            (bnd (redirs n buf) (\<lambda>rs. bnd (parse_args n buf (argc + 1)) (\<lambda>(ws, rs').
               ret ((q, eq) # ws, rs @ rs')))) u"
          proof (rule steps_bnd [OF steps_redirs [OF 1(3) L]], goal_cases)
            case (1 rs v)
            have "steps buf (\<lambda>(ws, rs) t. all_good buf ws \<and> all_good buf (map fst rs)) (parse_args n buf (argc + 1)) v"
              by (rule Suc.IH) (use L 1 in auto)
            then show ?case
              by (rule steps_bnd) (use 1 u in \<open>auto intro!: steps_ret\<close>)
          qed
          then show ?thesis using True by (simp add: x)
        qed
      qed
      then show ?thesis using False by simp
    qed
  qed
qed

definition good_cmd :: "string \<Rightarrow> slice cmd \<Rightarrow> bool" where
  "good_cmd buf c = (\<forall>w \<in> set_cmd c. good_slice buf w)"

lemma good_cmd_simps [simp]:
  "good_cmd buf (ExecCmd ws) = all_good buf ws"
  "good_cmd buf (RedirCmd c w mode fd) = (good_cmd buf c \<and> good_slice buf w)"
  "good_cmd buf (PipeCmd c d) = (good_cmd buf c \<and> good_cmd buf d)"
  "good_cmd buf (ListCmd c d) = (good_cmd buf c \<and> good_cmd buf d)"
  "good_cmd buf (BackCmd c) = good_cmd buf c"
  unfolding good_cmd_def all_good_def by (auto simp: list_all_iff ball_Un)

lemma good_wrap: "good_cmd buf (wrap_redirs c rs) = (good_cmd buf c \<and> all_good buf (map fst rs))"
  by (induction rs arbitrary: c) (simp_all add: wrap_redirs_def split_def)

lemma steps_parse_backs:
  "s \<le> length buf \<Longrightarrow> 5 * (length buf - s) < n \<Longrightarrow> good_cmd buf c \<Longrightarrow>
   steps buf (\<lambda>c t. good_cmd buf c) (parse_backs n buf c) s"
proof (induction n arbitrary: s c)
  case 0
  then show ?case by simp
next
  case (Suc n)
  show ?case
    unfolding parse_backs.simps
    by (rule steps_if_token) (use Suc in \<open>auto intro!: Suc.IH steps_ret\<close>)
qed

lemma steps_parse:
  "s \<le> length buf \<Longrightarrow> 5 * (length buf - s) + 3 < n \<Longrightarrow> steps buf (\<lambda>c t. good_cmd buf c) (parseline n buf) s"
  "s \<le> length buf \<Longrightarrow> 5 * (length buf - s) + 2 < n \<Longrightarrow> steps buf (\<lambda>c t. good_cmd buf c) (parsepipe n buf) s"
  "s \<le> length buf \<Longrightarrow> 5 * (length buf - s) < n \<Longrightarrow> steps buf (\<lambda>c t. good_cmd buf c) (parseblock n buf) s"
  "s \<le> length buf \<Longrightarrow> 5 * (length buf - s) + 1 < n \<Longrightarrow> steps buf (\<lambda>c t. good_cmd buf c) (parseexec n buf) s"
proof (induction n arbitrary: s)
  case 0
  {
    case 1 then show ?case by simp
  next
    case 2 then show ?case by simp
  next
    case 3 then show ?case by simp
  next
    case 4 then show ?case by simp
  }
next
  case (Suc n)
  {
    case 1
    show ?case
      unfolding parseline.simps
    proof (rule steps_bnd [OF Suc.IH(2)], goal_cases)
      case (3 c t)
      show ?case
      proof (rule steps_bnd [OF steps_parse_backs], goal_cases)
        case (4 d u)
        show ?case
          by (rule steps_if_token, rule 4, rule steps_bnd, rule Suc.IH(1))
            (use 1 3 4 in \<open>auto intro!: steps_ret\<close>)
      qed (use 1 3 in auto)
    qed (use 1 in auto)
  next
    case 2
    show ?case
      unfolding parsepipe.simps
    proof (rule steps_bnd [OF Suc.IH(4)], goal_cases)
      case (3 c t)
      show ?case
        by (rule steps_if_token, rule 3, rule steps_bnd, rule Suc.IH(2))
          (use 2 3 in \<open>auto intro!: steps_ret\<close>)
    qed (use 2 in auto)
  next
    case 3
    have close: "steps buf (\<lambda>c t. good_cmd buf c) (bnd (peek buf '')'') (\<lambda>b.
         if b then bnd (gettoken buf) (\<lambda>_. parseredirs n buf c) else panic ''syntax - missing )'')) t"
      if "s \<le> t" "t \<le> length buf" "good_cmd buf c" for c t
      by (rule steps_if_token, rule that, unfold parseredirs_def, rule steps_bnd, rule steps_redirs)
        (use 3 that in \<open>auto intro!: steps_ret steps_panic simp: good_wrap\<close>)
    show ?case
      unfolding parseblock.simps if_swap
      by (rule steps_if_token, rule 3, rule steps_bnd, rule Suc.IH(1))
        (use 3 close in \<open>auto intro!: steps_panic\<close>)
  next
    case 4
    show ?case
      unfolding parseexec.simps
    proof (rule steps_bnd [OF steps_peek [OF 4(1)]], goal_cases)
      case (1 b t)
      show ?case
      proof (cases b)
        case True
        have "steps buf (\<lambda>c t. good_cmd buf c) (parseblock n buf) t"
          by (rule Suc.IH(3)) (use 1 4 in auto)
        then show ?thesis using True by simp
      next
        case False
        have "steps buf (\<lambda>c t. good_cmd buf c) (bnd (redirs n buf) (\<lambda>rs. bnd (parse_args n buf 0) (\<lambda>(ws, rs').
            ret (wrap_redirs (ExecCmd ws) (rs @ rs'))))) t"
        proof (rule steps_bnd [OF steps_redirs], goal_cases)
          case (3 rs u)
          show ?case
          proof (rule steps_bnd [OF steps_parse_args], goal_cases)
            case (3 x v)
            then show ?case
              using \<open>all_good buf (map fst rs)\<close> by (cases x) (auto intro!: steps_ret simp: good_wrap)
          qed (use 1 3 4 in auto)
        qed (use 1 4 in auto)
        then show ?thesis using False by simp
      qed
    qed
  }
qed

text \<open>C15: the parser of the shell terminates on every line, with the fuel it is given: it returns a
  command or panics with a syntax error.\<close>

theorem parse_terminates:
  "(\<exists>c line t. parsecmd buf s = Ok (c, line) t) \<or> (\<exists>e. parsecmd buf s = Panic e)"
proof -
  have "steps buf (\<lambda>c t. good_cmd buf c) (parseline (parse_fuel buf) buf) 0"
    by (rule steps_parse(1)) (simp_all add: parse_fuel_def)
  then show ?thesis
    by (auto simp: steps_def parsecmd_def peek_def thn_def bnd_def split: outcome.splits)
qed

lemma parsecmd_good:
  assumes "parsecmd buf s = Ok (c, line) t"
  shows "good_cmd buf c" "line = nulterminate c buf"
proof -
  have "steps buf (\<lambda>c t. good_cmd buf c) (parseline (parse_fuel buf) buf) 0"
    by (rule steps_parse(1)) (simp_all add: parse_fuel_def)
  with assms show "good_cmd buf c" "line = nulterminate c buf"
    by (auto simp: steps_def parsecmd_def peek_def thn_def bnd_def split: outcome.splits if_splits)
qed

text \<open>Writing NULs at a set of positions.\<close>

definition nuls :: "nat set \<Rightarrow> string \<Rightarrow> string" where
  "nuls S buf = map (\<lambda>i. if i \<in> S then NUL else buf ! i) [0..<length buf]"

lemma length_nuls [simp]: "length (nuls S buf) = length buf"
  by (simp add: nuls_def)

lemma nth_nuls: "i < length buf \<Longrightarrow> nuls S buf ! i = (if i \<in> S then NUL else buf ! i)"
  by (simp add: nuls_def)

lemma nuls_empty [simp]: "nuls {} buf = buf"
  by (rule nth_equalityI) (simp_all add: nth_nuls)

lemma nuls_nuls: "nuls S (nuls T buf) = nuls (S \<union> T) buf"
  by (rule nth_equalityI) (simp_all add: nth_nuls)

lemma nuls_update: "(nuls S buf)[e := NUL] = nuls (insert e S) buf"
  by (rule nth_equalityI) (cases "e < length buf"; auto simp: nth_nuls nth_list_update)+

lemma nulterminate_nuls: "nulterminate c (nuls S buf) = nuls (S \<union> snd ` set_cmd c) buf"
proof (induction c arbitrary: S)
  case (ExecCmd ws)
  have "foldl (\<lambda>b (q, eq). b[eq := NUL]) (nuls S buf) ws = nuls (S \<union> snd ` set ws) buf"
    by (induction ws arbitrary: S) (auto simp: nuls_update)
  then show ?case by simp
next
  case (RedirCmd c w mode fd)
  then show ?case by (simp add: nuls_update)
qed (simp_all add: image_Un Un_assoc)

lemma c_string_word:
  assumes good: "\<forall>v \<in> W. good_slice buf v" and w: "w \<in> W" and "NUL \<notin> set buf"
  shows "c_string (nuls (snd ` W) buf) (fst w) = word_at buf w"
proof -
  obtain q eq where w': "w = (q, eq)" by (cases w)
  have g: "q < eq" "eq \<le> length buf" "\<And>i. q \<le> i \<Longrightarrow> i < eq \<Longrightarrow> word_char (buf ! i)"
    using good w by (auto simp: good_slice_def w')
  have out: "i \<notin> snd ` W" if "q \<le> i" "i < eq" for i
  proof
    assume "i \<in> snd ` W"
    then obtain v where "v \<in> W" "snd v = i" by auto
    moreover have "i < length buf" using that g(2) by simp
    ultimately have "\<not> word_char (buf ! i)" using good by (auto simp: good_slice_def)
    then show False using g(3) that by blast
  qed
  define line where "line = nuls (snd ` W) buf"
  have A: "take (eq - q) (drop q line) = take (eq - q) (drop q buf)"
    by (rule nth_equalityI) (use g(2) out in \<open>simp_all add: line_def nth_nuls\<close>)
  have "drop q line = take (eq - q) (drop q line) @ drop eq line"
    using g(1) by (metis add_diff_cancel_left' append_take_drop_id drop_drop le_add_diff_inverse2 less_imp_le_nat)
  also have "takeWhile (\<lambda>c. c \<noteq> NUL) \<dots> = take (eq - q) (drop q line)"
  proof -
    have "\<forall>c \<in> set (take (eq - q) (drop q line)). c \<noteq> NUL"
      unfolding A using assms(3) by (auto dest: in_set_takeD in_set_dropD)
    moreover have "takeWhile (\<lambda>c. c \<noteq> NUL) (drop eq line) = []"
    proof (cases "eq < length buf")
      case True
      then have "drop eq line = NUL # drop (Suc eq) line"
        using w by (auto simp: line_def nth_nuls w' Cons_nth_drop_Suc [symmetric] image_iff)
      then show ?thesis by simp
    qed (simp add: line_def)
    ultimately show ?thesis by (simp add: takeWhile_append2)
  qed
  finally show ?thesis
    using A by (simp add: c_string_def word_at_def w' flip: line_def)
qed

text \<open>C14: what the processes that the shell starts see of a line. After \<open>parsecmd\<close>, the pointer to
  each argument and each file name of the command is a NUL-terminated string, namely the word of
  the line between the bounds that the tokenizer found: a non-empty run of characters that are
  neither blanks nor symbols. The NULs written for one word never cut another.\<close>

theorem parsecmd_words:
  assumes "parsecmd buf s = Ok (c, line) t" "NUL \<notin> set buf"
  shows "\<forall>w \<in> set_cmd c. c_string line (fst w) = word_at buf w \<and> word_at buf w \<noteq> [] \<and>
    list_all word_char (word_at buf w)"
proof
  fix w
  assume w: "w \<in> set_cmd c"
  note good = parsecmd_good [OF assms(1)]
  have "line = nuls (snd ` set_cmd c) buf"
    using good(2) nulterminate_nuls [of c "{}" buf] by simp
  then have "c_string line (fst w) = word_at buf w"
    using c_string_word [of "set_cmd c" buf w] good(1) w assms(2) by (simp add: good_cmd_def)
  moreover have g: "good_slice buf w"
    using good(1) w by (simp add: good_cmd_def)
  moreover have "list_all word_char (word_at buf w)"
    using g by (auto simp: list_all_length word_at_def good_slice_def)
  ultimately show "c_string line (fst w) = word_at buf w \<and> word_at buf w \<noteq> [] \<and>
      list_all word_char (word_at buf w)"
    by (auto simp: word_at_def good_slice_def)
qed

theorem parsecmd_words_witness:
  "\<exists>c line t. parsecmd ''ls>f'' 0 = Ok (c, line) t \<and> set_cmd c = {(0, 2), (3, 4)} \<and>
     c_string line 0 = ''ls'' \<and> c_string line 3 = ''f''"
proof -
  have r: "parsecmd ''ls>f'' 0 = Ok (RedirCmd (ExecCmd [(0, 2)]) (3, 4) O_WRONLY_CREATE 1,
      [CHR ''l'', CHR ''s'', NUL, CHR ''f'']) 4"
    by code_simp
  then show ?thesis
    using parsecmd_words [OF r] by (auto simp: word_at_def)
qed

end
