(* ===== verification/ShGrammar.thy ===== *)
theory ShGrammar
  imports ShParse
begin

text \<open>
  The grammar of the shell's command line, and the proof that the parser of \<open>ShParse\<close> reads every
  line the grammar writes: a lemma per parsing function says which text it takes, where it stops
  and what its slices stand for.
\<close>

section \<open>The parser reads what the grammar writes\<close>

text \<open>
  The grammar of the shell as trees over words: redirections, a simple command (redirections,
  then words each followed by redirections) or a block, a pipeline, a line with \<open>n\<close> ampersands.
  \<open>pr_line\<close> writes a tree with one blank behind each token; \<open>line_cmd\<close> is its meaning.
\<close>

datatype rkind = RIn | ROut | RAppend
type_synonym rd = "rkind \<times> string"

datatype ex = Simple "rd list" "(string \<times> rd list) list" | Paren line "rd list"
and pl = Single ex | Piped ex pl
and line = Line pl nat | Seq pl nat line

definition pr_redir :: "rd \<Rightarrow> string" where
  "pr_redir r = (case fst r of RIn \<Rightarrow> ''< '' | ROut \<Rightarrow> ''> '' | RAppend \<Rightarrow> ''>> '') @ snd r @ '' ''"

definition pr_redirs :: "rd list \<Rightarrow> string" where
  "pr_redirs rs = concat (map pr_redir rs)"

definition pr_args :: "(string \<times> rd list) list \<Rightarrow> string" where
  "pr_args as = concat (map (\<lambda>(w, rs). w @ '' '' @ pr_redirs rs) as)"

definition pr_backs :: "nat \<Rightarrow> string" where
  "pr_backs n = concat (replicate n ''& '')"

fun pr_ex :: "ex \<Rightarrow> string" and pr_pl :: "pl \<Rightarrow> string" and pr_line :: "line \<Rightarrow> string" where
  "pr_ex (Simple rs as) = pr_redirs rs @ pr_args as"
| "pr_ex (Paren l rs) = ''( '' @ pr_line l @ '') '' @ pr_redirs rs"
| "pr_pl (Single e) = pr_ex e"
| "pr_pl (Piped e p) = pr_ex e @ ''| '' @ pr_pl p"
| "pr_line (Line p n) = pr_pl p @ pr_backs n"
| "pr_line (Seq p n l) = pr_pl p @ pr_backs n @ ''; '' @ pr_line l"

definition rd_entry :: "rd \<Rightarrow> string \<times> nat \<times> nat" where
  "rd_entry r = (case fst r of RIn \<Rightarrow> (snd r, O_RDONLY, 0) | _ \<Rightarrow> (snd r, O_WRONLY_CREATE, 1))"

fun ex_cmd :: "ex \<Rightarrow> string cmd" and pl_cmd :: "pl \<Rightarrow> string cmd" and line_cmd :: "line \<Rightarrow> string cmd" where
  "ex_cmd (Simple rs as) =
     wrap_redirs (ExecCmd (map fst as)) (map rd_entry (rs @ concat (map snd as)))"
| "ex_cmd (Paren l rs) = wrap_redirs (line_cmd l) (map rd_entry rs)"
| "pl_cmd (Single e) = ex_cmd e"
| "pl_cmd (Piped e p) = PipeCmd (ex_cmd e) (pl_cmd p)"
| "line_cmd (Line p n) = (BackCmd ^^ n) (pl_cmd p)"
| "line_cmd (Seq p n l) = ListCmd ((BackCmd ^^ n) (pl_cmd p)) (line_cmd l)"

definition ok_word :: "string \<Rightarrow> bool" where
  "ok_word w = (w \<noteq> [] \<and> list_all (\<lambda>c. word_char c \<and> c \<noteq> NUL) w)"

definition ok_redirs :: "rd list \<Rightarrow> bool" where
  "ok_redirs rs = list_all (\<lambda>r. ok_word (snd r)) rs"

fun ok_ex :: "ex \<Rightarrow> bool" and ok_pl :: "pl \<Rightarrow> bool" and ok_line :: "line \<Rightarrow> bool" where
  "ok_ex (Simple rs as) = (ok_redirs rs \<and> length as < MAXARGS \<and>
     list_all (\<lambda>(w, rs). ok_word w \<and> ok_redirs rs) as)"
| "ok_ex (Paren l rs) = (ok_line l \<and> ok_redirs rs)"
| "ok_pl (Single e) = ok_ex e"
| "ok_pl (Piped e p) = (ok_ex e \<and> ok_pl p)"
| "ok_line (Line p n) = ok_pl p"
| "ok_line (Seq p n l) = (ok_pl p \<and> ok_line l)"

subsection \<open>Tokens\<close>

text \<open>\<open>at buf s x\<close>: at position \<open>s\<close> the rest of the line is \<open>x\<close>, which does not start with a blank.\<close>

definition at :: "string \<Rightarrow> nat \<Rightarrow> string \<Rightarrow> bool" where
  "at buf s x = (s \<le> length buf \<and> drop s buf = x \<and> (x = [] \<or> \<not> is_ws (hd x)) \<and> NUL \<notin> set buf)"

lemma scan_drop: "s \<le> length buf \<Longrightarrow> drop s buf = u @ x \<Longrightarrow> \<forall>c \<in> set u. p c \<Longrightarrow>
    x = [] \<or> \<not> p (hd x) \<Longrightarrow> scan p buf s = s + length u"
proof (induction u arbitrary: s)
  case Nil
  then show ?case
    by (subst scan.simps) (auto simp: hd_drop_conv_nth)
next
  case (Cons c u)
  then have s: "s < length buf" by (metis append_Cons drop_all linorder_not_less list.distinct(1))
  then have "buf ! s = c" "drop (s + 1) buf = u @ x"
    using Cons.prems(2) by (simp_all add: Cons_nth_drop_Suc [symmetric])
  then show ?case
    using Cons s by (subst scan.simps) simp
qed

lemma ch_drop: "drop s buf = c # x \<Longrightarrow> ch buf s = c"
  by (metis ch_def drop_all hd_drop_conv_nth linorder_not_less list.distinct(1) list.sel(1))

lemma at_scan: "at buf s x \<Longrightarrow> scan is_ws buf s = s"
  using scan_drop [of s buf "[]" x is_ws] by (auto simp: at_def)

lemma at_ch: "at buf s x \<Longrightarrow> ch buf s = (if x = [] then NUL else hd x)"
  by (auto simp: at_def ch_def hd_drop_conv_nth)

lemma at_not_NUL: "at buf s x \<Longrightarrow> c \<in> set x \<Longrightarrow> c \<noteq> NUL"
  by (auto simp: at_def dest: in_set_dropD)

lemma peek_at: "at buf s x \<Longrightarrow> peek buf toks s = Ok (x \<noteq> [] \<and> hd x \<in> set toks) s"
  using at_not_NUL [of buf s x "hd x"]
  by (auto simp: peek_def thn_def bnd_def at_scan at_ch)

lemma blank_ws: "is_ws (CHR '' '')"
  by (simp add: is_ws_def whitespace_def)

lemma scan_blank:
  assumes "s + length u \<le> length buf" "drop s buf = u @ '' '' @ x" "x = [] \<or> \<not> is_ws (hd x)"
  shows "scan is_ws buf (s + length u) = s + length u + 1"
proof -
  have "drop (s + length u) buf = '' '' @ x"
    using assms(2) by (metis add.commute append_eq_conv_conj drop_drop)
  then show ?thesis
    using scan_drop [of "s + length u" buf "'' ''" x is_ws] assms(1,3) blank_ws by simp
qed

text \<open>Behind a token \<open>u\<close> and its blank.\<close>

lemma at_next: "at buf s (u @ '' '' @ x) \<Longrightarrow> x = [] \<or> \<not> is_ws (hd x) \<Longrightarrow> at buf (s + length u + 1) x"
  unfolding at_def
proof (elim conjE, intro conjI)
  assume d: "drop s buf = u @ '' '' @ x" "s \<le> length buf"
  then have "length buf = s + length (u @ '' '' @ x)"
    by (metis add.commute le_add_diff_inverse2 length_drop)
  then show "s + length u + 1 \<le> length buf" by simp
  have "drop (length u + 1) (drop s buf) = x"
    using d by simp
  then show "drop (s + length u + 1) buf = x" by (simp add: add.commute add.left_commute)
qed auto

lemma at_room: "at buf s (u @ x) \<Longrightarrow> s + length u \<le> length buf"
  by (metis at_def add.commute diff_le_mono2 le_add_diff_inverse2 length_append length_drop le_add1 nat_add_left_cancel_le)

lemma gettoken_symbol:
  assumes a: "at buf s (c # '' '' @ x)" and c: "c \<in> set ''|();&<''" and x: "x = [] \<or> \<not> is_ws (hd x)"
  shows "gettoken buf s = Ok (c, s, s + 1) (s + 2)" "at buf (s + 2) x"
proof -
  have "ch buf s = c" using at_ch [OF a] by simp
  moreover have "c \<noteq> NUL" using c by auto
  moreover have "scan is_ws buf (s + 1) = s + 2"
    using scan_blank [of s "[c]" buf x] a x at_room [of buf s "[c]"] by (simp add: at_def)
  ultimately show "gettoken buf s = Ok (c, s, s + 1) (s + 2)"
    using c by (simp add: gettoken_def at_scan [OF a] Let_def thn_def bnd_def)
  show "at buf (s + 2) x"
    using at_next [of buf s "[c]" x] a x by simp
qed

lemma gettoken_gt:
  assumes a: "at buf s (CHR ''>'' # '' '' @ x)" and x: "x = [] \<or> \<not> is_ws (hd x)"
  shows "gettoken buf s = Ok (CHR ''>'', s, s + 1) (s + 2)" "at buf (s + 2) x"
proof -
  have "drop (s + 1) buf = '' '' @ x"
    using a by (simp add: at_def drop_Suc flip: tl_drop)
  then have "ch buf s = CHR ''>''" "ch buf (s + 1) = CHR '' ''"
    using at_ch [OF a] ch_drop by auto
  moreover have "scan is_ws buf (s + 1) = s + 2"
    using scan_blank [of s "[CHR ''>'']" buf x] a x at_room [of buf s "[CHR ''>'']"] by (simp add: at_def)
  ultimately show "gettoken buf s = Ok (CHR ''>'', s, s + 1) (s + 2)"
    by (simp add: gettoken_def at_scan [OF a] Let_def thn_def bnd_def)
  show "at buf (s + 2) x"
    using at_next [of buf s "[CHR ''>'']" x] a x by simp
qed

lemma gettoken_append:
  assumes a: "at buf s (''>>'' @ '' '' @ x)" and x: "x = [] \<or> \<not> is_ws (hd x)"
  shows "gettoken buf s = Ok (CHR ''+'', s, s + 2) (s + 3)" "at buf (s + 3) x"
proof -
  have "drop (s + 1) buf = CHR ''>'' # '' '' @ x"
    using a by (simp add: at_def drop_Suc flip: tl_drop)
  then have "ch buf s = CHR ''>''" "ch buf (s + 1) = CHR ''>''"
    using at_ch [OF a] ch_drop by auto
  moreover have "scan is_ws buf (s + 2) = s + 3"
    using scan_blank [of s "''>>''" buf x] a x at_room [of buf s "''>>''"] by (simp add: at_def)
  ultimately show "gettoken buf s = Ok (CHR ''+'', s, s + 2) (s + 3)"
    by (simp add: gettoken_def at_scan [OF a] Let_def thn_def bnd_def)
  show "at buf (s + 3) x"
    using at_next [of buf s "''>>''" x] a x by (simp add: numeral_3_eq_3)
qed

lemma word_char_facts: "word_char c \<Longrightarrow> c \<notin> set ''|();&<'' \<and> c \<noteq> CHR ''>'' \<and> \<not> is_ws c"
  by (auto simp: word_char_def symbols_def is_ws_def)

lemma gettoken_word:
  assumes a: "at buf s (w @ '' '' @ x)" and w: "ok_word w" and x: "x = [] \<or> \<not> is_ws (hd x)"
  shows "gettoken buf s = Ok (CHR ''a'', s, s + length w) (s + length w + 1)"
    "at buf (s + length w + 1) x" "word_at buf (s, s + length w) = w"
proof -
  obtain c v where cv: "w = c # v" using w by (cases w) (auto simp: ok_word_def)
  have "ch buf s = c" using at_ch [OF a] cv by simp
  moreover have "word_char c" "c \<noteq> NUL" using w cv by (simp_all add: ok_word_def)
  moreover have "scan word_char buf s = s + length w"
    by (rule scan_drop [of _ _ _ "'' '' @ x"])
      (use a w in \<open>auto simp: at_def ok_word_def list_all_iff word_char_def whitespace_def\<close>)
  moreover have "scan is_ws buf (s + length w) = s + length w + 1"
    using scan_blank [of s w buf x] a x at_room [of buf s w] by (simp add: at_def)
  ultimately show "gettoken buf s = Ok (CHR ''a'', s, s + length w) (s + length w + 1)"
    using word_char_facts [of c] by (simp add: gettoken_def at_scan [OF a] Let_def thn_def bnd_def)
  show "at buf (s + length w + 1) x"
    using at_next [OF a x] .
  show "word_at buf (s, s + length w) = w"
    using a by (simp add: word_at_def at_def)
qed

lemma gettoken_end: "at buf s [] \<Longrightarrow> gettoken buf s = Ok (NUL, s, s) s"
  by (simp add: gettoken_def at_scan at_ch Let_def thn_def bnd_def)

subsection \<open>Redirections and arguments\<close>

text \<open>What the slices of a parsed command stand for.\<close>

definition entry_words :: "string \<Rightarrow> slice \<times> nat \<times> nat \<Rightarrow> string \<times> nat \<times> nat" where
  "entry_words buf e = (word_at buf (fst e), snd e)"

definition sym_of :: "rkind \<Rightarrow> string" where
  "sym_of k = (case k of RIn \<Rightarrow> ''<'' | ROut \<Rightarrow> ''>'' | RAppend \<Rightarrow> ''>>'')"

lemma pr_redir_sym: "pr_redir (k, w) = sym_of k @ '' '' @ w @ '' ''"
  by (simp add: pr_redir_def sym_of_def split: rkind.splits)

lemma ok_word_hd: "ok_word w \<Longrightarrow> w @ y \<noteq> [] \<and> word_char (hd (w @ y))"
  by (cases w) (auto simp: ok_word_def)

lemma gettoken_redir:
  assumes a: "at buf s (sym_of k @ '' '' @ w @ y)" and w: "ok_word w"
  shows "\<exists>tok e. gettoken buf s = Ok (tok, s, e) (s + length (sym_of k) + 1) \<and>
    at buf (s + length (sym_of k) + 1) (w @ y) \<and>
    (\<forall>v buf'. word_at buf' v = w \<longrightarrow> entry_words buf' (redir_entry tok v) = rd_entry (k, w))"
proof -
  have x: "w @ y = [] \<or> \<not> is_ws (hd (w @ y))"
    using ok_word_hd [OF w, of y] word_char_facts by blast
  show ?thesis
  proof (cases k)
    case RIn
    then show ?thesis
      using gettoken_symbol [of buf s "CHR ''<''" "w @ y"] a x
      by (simp add: sym_of_def redir_entry_def rd_entry_def entry_words_def)
  next
    case ROut
    then show ?thesis
      using gettoken_gt [of buf s "w @ y"] a x
      by (simp add: sym_of_def redir_entry_def rd_entry_def entry_words_def)
  next
    case RAppend
    then show ?thesis
      using gettoken_append [of buf s "w @ y"] a x
      by (simp add: sym_of_def redir_entry_def rd_entry_def entry_words_def numeral_3_eq_3)
  qed
qed

definition starts :: "string \<Rightarrow> string \<Rightarrow> bool" where
  "starts toks x = (x \<noteq> [] \<and> hd x \<in> set toks)"

lemma at_nows: "at buf s x \<Longrightarrow> x = [] \<or> \<not> is_ws (hd x)"
  by (auto simp: at_def)

lemma pr_redirs_nows: "x = [] \<or> \<not> is_ws (hd x) \<Longrightarrow> pr_redirs rs @ x = [] \<or> \<not> is_ws (hd (pr_redirs rs @ x))"
  by (cases rs) (auto simp: pr_redirs_def pr_redir_def is_ws_def whitespace_def split: rkind.splits)

lemma redirs_parse:
  assumes "at buf s (pr_redirs rs @ x)" "ok_redirs rs" "x = [] \<or> \<not> is_ws (hd x)" "\<not> starts ''<>'' x"
    "5 * length (pr_redirs rs) < n"
  shows "\<exists>es. redirs n buf s = Ok es (s + length (pr_redirs rs)) \<and>
    map (entry_words buf) es = map rd_entry rs \<and> at buf (s + length (pr_redirs rs)) x"
  using assms
proof (induction rs arbitrary: s n)
  case Nil
  then obtain m where "n = Suc m" by (cases n) auto
  then show ?case
    using Nil peek_at [of buf s x "''<>''"] by (simp add: pr_redirs_def bnd_def starts_def)
next
  case (Cons r rs)
  obtain k w where r: "r = (k, w)" by (cases r)
  obtain m where n: "n = Suc m" using Cons.prems(5) by (cases n) auto
  have w: "ok_word w" and rs: "ok_redirs rs"
    using Cons.prems(2) by (simp_all add: ok_redirs_def r)
  define y where "y = pr_redirs rs @ x"
  have a: "at buf s (sym_of k @ '' '' @ w @ '' '' @ y)"
    using Cons.prems(1) by (simp add: pr_redirs_def r pr_redir_sym y_def)
  have y: "y = [] \<or> \<not> is_ws (hd y)"
    using pr_redirs_nows Cons.prems(3) by (simp add: y_def)
  define s1 where "s1 = s + length (sym_of k) + 1"
  obtain tok e where g: "gettoken buf s = Ok (tok, s, e) s1" "at buf s1 (w @ '' '' @ y)"
      "\<forall>v buf'. word_at buf' v = w \<longrightarrow> entry_words buf' (redir_entry tok v) = rd_entry (k, w)"
    using gettoken_redir [OF a w] by (auto simp: s1_def)
  note h = gettoken_word [OF g(2) w y]
  define s2 where "s2 = s1 + length w + 1"
  have "at buf s2 (pr_redirs rs @ x)" "5 * length (pr_redirs rs) < m"
    using h(2) Cons.prems(5) by (simp_all add: s2_def y_def n pr_redirs_def r pr_redir_sym)
  then obtain es where i: "redirs m buf s2 = Ok es (s2 + length (pr_redirs rs))"
      "map (entry_words buf) es = map rd_entry rs" "at buf (s2 + length (pr_redirs rs)) x"
    using Cons.IH [OF _ rs Cons.prems(3,4)] by blast
  have "peek buf ''<>'' s = Ok True s"
    using peek_at [OF a, of "''<>''"] by (cases k) (simp_all add: sym_of_def)
  then have "redirs n buf s = Ok (redir_entry tok (s1, s1 + length w) # es) (s2 + length (pr_redirs rs))"
    using g(1) h(1) i(1) by (simp add: n bnd_def s2_def)
  moreover have "s2 + length (pr_redirs rs) = s + length (pr_redirs (r # rs))"
    by (simp add: s2_def s1_def pr_redirs_def r pr_redir_sym)
  ultimately show ?case
    using i g(3) h(3) by (simp add: r)
qed

lemma pr_args_Cons: "pr_args ((w, rs) # as) = w @ '' '' @ pr_redirs rs @ pr_args as"
  by (simp add: pr_args_def)

lemma ends_exec: "x = [] \<or> starts ''|)&;'' x \<Longrightarrow> (x = [] \<or> \<not> is_ws (hd x)) \<and> \<not> starts ''<>'' x"
  by (auto simp: starts_def is_ws_def whitespace_def)

lemma args_nows:
  assumes "list_all (\<lambda>(w, rs). ok_word w \<and> ok_redirs rs) as" "x = [] \<or> starts ''|)&;'' x"
  shows "(pr_args as @ x = [] \<or> \<not> is_ws (hd (pr_args as @ x))) \<and> \<not> starts ''<>'' (pr_args as @ x)"
proof (cases as)
  case Nil
  then show ?thesis using ends_exec [OF assms(2)] by (simp add: pr_args_def)
next
  case (Cons a bs)
  obtain w rs where a: "a = (w, rs)" by (cases a)
  have "ok_word w" using assms(1) Cons a by simp
  then have "word_char (hd (pr_args as @ x))" "pr_args as @ x \<noteq> []"
    using ok_word_hd [of w] by (simp_all add: Cons a pr_args_Cons)
  then show ?thesis
    using word_char_facts by (auto simp: starts_def word_char_def symbols_def)
qed

lemma args_parse:
  assumes "at buf s (pr_args as @ x)" "list_all (\<lambda>(w, rs). ok_word w \<and> ok_redirs rs) as"
    "x = [] \<or> starts ''|)&;'' x" "5 * length (pr_args as) < n" "argc + length as < MAXARGS"
  shows "\<exists>ws es. parse_args n buf argc s = Ok (ws, es) (s + length (pr_args as)) \<and>
    map (word_at buf) ws = map fst as \<and>
    map (entry_words buf) es = map rd_entry (concat (map snd as)) \<and>
    at buf (s + length (pr_args as)) x"
  using assms
proof (induction as arbitrary: s n argc)
  case Nil
  then obtain m where n: "n = Suc m" by (cases n) auto
  have a: "at buf s x" using Nil.prems(1) by (simp add: pr_args_def)
  show ?case
  proof (cases "x = []")
    case True
    then show ?thesis
      using a peek_at [OF a, of "''|)&;''"] gettoken_end [of buf s]
      by (simp add: n pr_args_def bnd_def)
  next
    case False
    then show ?thesis
      using a peek_at [OF a, of "''|)&;''"] Nil.prems(3) by (simp add: n pr_args_def bnd_def starts_def)
  qed
next
  case (Cons b as)
  obtain w rs where b: "b = (w, rs)" by (cases b)
  obtain m where n: "n = Suc m" using Cons.prems(4) by (cases n) auto
  have w: "ok_word w" and rs: "ok_redirs rs" and as: "list_all (\<lambda>(w, rs). ok_word w \<and> ok_redirs rs) as"
    using Cons.prems(2) by (simp_all add: b)
  note nx = args_nows [OF as Cons.prems(3)]
  have a: "at buf s (w @ '' '' @ pr_redirs rs @ pr_args as @ x)"
    using Cons.prems(1) by (simp add: b pr_args_Cons)
  have y: "pr_redirs rs @ pr_args as @ x = [] \<or> \<not> is_ws (hd (pr_redirs rs @ pr_args as @ x))"
    using pr_redirs_nows nx by blast
  note h = gettoken_word [OF a w y]
  define s1 where "s1 = s + length w + 1"
  have L: "5 * length (pr_redirs rs) < m" "5 * length (pr_args as) < m"
    using Cons.prems(4) by (simp_all add: n b pr_args_Cons)
  obtain es where r: "redirs m buf s1 = Ok es (s1 + length (pr_redirs rs))"
      "map (entry_words buf) es = map rd_entry rs" "at buf (s1 + length (pr_redirs rs)) (pr_args as @ x)"
    using redirs_parse [of buf s1 rs "pr_args as @ x" m] h(2) rs nx L(1) by (auto simp: s1_def)
  define s2 where "s2 = s1 + length (pr_redirs rs)"
  obtain ws es' where i: "parse_args m buf (argc + 1) s2 = Ok (ws, es') (s2 + length (pr_args as))"
      "map (word_at buf) ws = map fst as" "map (entry_words buf) es' = map rd_entry (concat (map snd as))"
      "at buf (s2 + length (pr_args as)) x"
    using Cons.IH [of s2 m "argc + 1"] r(3) as Cons.prems(3,5) L(2) by (auto simp: s2_def)
  have "peek buf ''|)&;'' s = Ok False s"
    using peek_at [OF a, of "''|)&;''"] ok_word_hd [OF w, of "'' '' @ pr_redirs rs @ pr_args as @ x"]
    by (auto simp: word_char_def symbols_def)
  then have "parse_args n buf argc s = Ok ((s, s + length w) # ws, es @ es') (s2 + length (pr_args as))"
    using h(1) r(1) i(1) Cons.prems(5) by (simp add: n bnd_def s1_def s2_def)
  moreover have "s2 + length (pr_args as) = s + length (pr_args (b # as))"
    by (simp add: s2_def s1_def b pr_args_Cons)
  ultimately show ?case
    using i r h(3) by (simp add: b)
qed

subsection \<open>Commands\<close>

lemma map_wrap: "map_cmd (word_at buf) (wrap_redirs c es) =
    wrap_redirs (map_cmd (word_at buf) c) (map (entry_words buf) es)"
  by (induction es arbitrary: c) (simp_all add: wrap_redirs_def entry_words_def split_def)

lemma backs_parse:
  assumes "at buf s (pr_backs k @ x)" "x = [] \<or> \<not> is_ws (hd x)" "\<not> starts ''&'' x"
    "5 * length (pr_backs k) < n" "map_cmd f c = d"
  shows "\<exists>c'. parse_backs n buf c s = Ok c' (s + length (pr_backs k)) \<and>
    map_cmd f c' = (BackCmd ^^ k) d \<and> at buf (s + length (pr_backs k)) x"
  using assms
proof (induction k arbitrary: s n c d)
  case 0
  then obtain m where "n = Suc m" by (cases n) auto
  then show ?case
    using 0 peek_at [of buf s x "''&''"] by (auto simp: pr_backs_def bnd_def starts_def)
next
  case (Suc k)
  obtain m where n: "n = Suc m" using Suc.prems(4) by (cases n) auto
  have a: "at buf s (CHR ''&'' # '' '' @ pr_backs k @ x)"
    using Suc.prems(1) by (simp add: pr_backs_def)
  have y: "pr_backs k @ x = [] \<or> \<not> is_ws (hd (pr_backs k @ x))"
    using Suc.prems(2) by (cases k) (auto simp: pr_backs_def is_ws_def whitespace_def)
  note g = gettoken_symbol [OF a _ y]
  have p: "peek buf ''&'' s = Ok True s"
    using peek_at [OF a, of "''&''"] by simp
  obtain c' where i: "parse_backs m buf (BackCmd c) (s + 2) = Ok c' (s + 2 + length (pr_backs k))"
      "map_cmd f c' = (BackCmd ^^ k) (BackCmd d)" "at buf (s + 2 + length (pr_backs k)) x"
    using Suc.IH [of "s + 2" m "BackCmd c" "BackCmd d"] g(2) Suc.prems by (auto simp: n pr_backs_def)
  have "parse_backs n buf c s = Ok c' (s + 2 + length (pr_backs k))"
    using p g(1) i(1) by (simp add: n bnd_def)
  moreover have "(BackCmd ^^ k) (BackCmd d) = (BackCmd ^^ Suc k) d"
    by (simp add: funpow_swap1)
  ultimately show ?case
    using i by (simp add: pr_backs_def)
qed

lemma starts_nows: "x = [] \<or> starts ''|)&;'' x \<Longrightarrow> x = [] \<or> \<not> is_ws (hd x)"
  using ends_exec by blast

lemma simple_not_paren:
  assumes "ok_ex (Simple rs as)" "x = [] \<or> starts ''|)&;'' x"
  shows "\<not> starts ''('' (pr_ex (Simple rs as) @ x)"
proof (cases rs)
  case (Cons r rs')
  then show ?thesis
    by (auto simp: starts_def pr_redirs_def pr_redir_def split: rkind.splits)
next
  case Nil
  show ?thesis
  proof (cases as)
    case Nil
    then show ?thesis using assms(2) \<open>rs = []\<close> by (auto simp: starts_def pr_redirs_def pr_args_def)
  next
    case (Cons a bs)
    obtain w ss where a: "a = (w, ss)" by (cases a)
    have "ok_word w" using assms(1) Cons a by simp
    then have "word_char (hd (w @ '' '' @ pr_redirs ss @ pr_args bs @ x))"
      using ok_word_hd by blast
    then show ?thesis
      using \<open>rs = []\<close> by (auto simp: starts_def Cons a pr_redirs_def pr_args_Cons word_char_def symbols_def)
  qed
qed

lemma exec_simple:
  assumes "at buf s (pr_ex (Simple rs as) @ x)" "ok_ex (Simple rs as)" "x = [] \<or> starts ''|)&;'' x"
    "5 * length (pr_ex (Simple rs as)) + 1 < n"
  shows "\<exists>c. parseexec n buf s = Ok c (s + length (pr_ex (Simple rs as))) \<and>
    map_cmd (word_at buf) c = ex_cmd (Simple rs as) \<and> at buf (s + length (pr_ex (Simple rs as))) x"
proof -
  obtain m where n: "n = Suc m" using assms(4) by (cases n) auto
  have ok: "ok_redirs rs" "list_all (\<lambda>(w, rs). ok_word w \<and> ok_redirs rs) as" "length as < MAXARGS"
    using assms(2) by simp_all
  have a: "at buf s (pr_redirs rs @ pr_args as @ x)" using assms(1) by simp
  note nx = args_nows [OF ok(2) assms(3)]
  have L: "5 * length (pr_redirs rs) < m" "5 * length (pr_args as) < m"
    using assms(4) by (simp_all add: n)
  have p: "peek buf ''('' s = Ok False s"
    using peek_at [OF assms(1), of "''(''"] simple_not_paren [OF assms(2,3)] by (simp add: starts_def)
  obtain es where r: "redirs m buf s = Ok es (s + length (pr_redirs rs))"
      "map (entry_words buf) es = map rd_entry rs" "at buf (s + length (pr_redirs rs)) (pr_args as @ x)"
    using redirs_parse [OF a ok(1)] nx L(1) by auto
  obtain ws es' where i: "parse_args m buf 0 (s + length (pr_redirs rs)) =
        Ok (ws, es') (s + length (pr_redirs rs) + length (pr_args as))"
      "map (word_at buf) ws = map fst as" "map (entry_words buf) es' = map rd_entry (concat (map snd as))"
      "at buf (s + length (pr_redirs rs) + length (pr_args as)) x"
    using args_parse [OF r(3) ok(2) assms(3) L(2), of 0] ok(3) by auto
  show ?thesis
    using p r i by (simp add: n bnd_def map_wrap flip: add.assoc)
qed

lemma args_only_nows:
  assumes "list_all (\<lambda>(w, rs). ok_word w \<and> ok_redirs rs) as" "x = [] \<or> \<not> is_ws (hd x)"
  shows "pr_args as @ x = [] \<or> \<not> is_ws (hd (pr_args as @ x))"
proof (cases as)
  case Nil
  then show ?thesis using assms(2) by (simp add: pr_args_def)
next
  case (Cons a bs)
  obtain w rs where a: "a = (w, rs)" by (cases a)
  have "ok_word w" using assms(1) Cons a by simp
  then show ?thesis
    using ok_word_hd [of w] word_char_facts by (simp add: Cons a pr_args_Cons)
qed

lemma symbol_nows: "c \<in> set ''|();&<'' \<Longrightarrow> \<not> is_ws c"
  by (auto simp: is_ws_def whitespace_def)

lemma backs_nows: "x = [] \<or> \<not> is_ws (hd x) \<Longrightarrow> pr_backs k @ x = [] \<or> \<not> is_ws (hd (pr_backs k @ x))"
  by (cases k) (auto simp: pr_backs_def is_ws_def whitespace_def)

lemma pr_nows:
  "ok_ex e \<Longrightarrow> x = [] \<or> \<not> is_ws (hd x) \<Longrightarrow> pr_ex e @ x = [] \<or> \<not> is_ws (hd (pr_ex e @ x))"
  "ok_pl p \<Longrightarrow> x = [] \<or> \<not> is_ws (hd x) \<Longrightarrow> pr_pl p @ x = [] \<or> \<not> is_ws (hd (pr_pl p @ x))"
  "ok_line l \<Longrightarrow> x = [] \<or> \<not> is_ws (hd x) \<Longrightarrow> pr_line l @ x = [] \<or> \<not> is_ws (hd (pr_line l @ x))"
proof (induction e and p and l arbitrary: x and x and x)
  case (Simple rs as)
  then show ?case
    using pr_redirs_nows [of "pr_args as @ x" rs] args_only_nows [of as x] by simp
next
  case (Paren l rs)
  then show ?case using symbol_nows [of "CHR ''(''"] by simp
next
  case (Single e)
  then show ?case by simp
next
  case (Piped e p)
  then show ?case
    using Piped.IH(1) [of "''| '' @ pr_pl p @ x"] symbol_nows [of "CHR ''|''"] by simp
next
  case (Line p k)
  then show ?case
    using Line.IH [of "pr_backs k @ x"] backs_nows by simp
next
  case (Seq p k l)
  then show ?case
    using Seq.IH(1) [of "pr_backs k @ ''; '' @ pr_line l @ x"] backs_nows [of "''; '' @ pr_line l @ x" k]
      symbol_nows [of "CHR '';''"] by simp
qed

lemma parse_print:
  "at buf s (pr_ex e @ x) \<Longrightarrow> ok_ex e \<Longrightarrow> x = [] \<or> starts ''|)&;'' x \<Longrightarrow> 5 * length (pr_ex e) + 1 < n \<Longrightarrow>
   \<exists>c. parseexec n buf s = Ok c (s + length (pr_ex e)) \<and> map_cmd (word_at buf) c = ex_cmd e \<and>
     at buf (s + length (pr_ex e)) x"
  "at buf s (pr_pl p @ x) \<Longrightarrow> ok_pl p \<Longrightarrow> x = [] \<or> starts '')&;'' x \<Longrightarrow> 5 * length (pr_pl p) + 2 < n \<Longrightarrow>
   \<exists>c. parsepipe n buf s = Ok c (s + length (pr_pl p)) \<and> map_cmd (word_at buf) c = pl_cmd p \<and>
     at buf (s + length (pr_pl p)) x"
  "at buf s (pr_line l @ x) \<Longrightarrow> ok_line l \<Longrightarrow> x = [] \<or> starts '')'' x \<Longrightarrow> 5 * length (pr_line l) + 3 < n \<Longrightarrow>
   \<exists>c. parseline n buf s = Ok c (s + length (pr_line l)) \<and> map_cmd (word_at buf) c = line_cmd l \<and>
     at buf (s + length (pr_line l)) x"
proof (induction e and p and l arbitrary: s x n and s x n and s x n)
  case (Simple rs as)
  then show ?case by (rule exec_simple)
next
  case (Paren l rs)
  obtain k where n: "n = Suc (Suc k)"
    using Paren.prems(4) by (cases n; cases "n - 1") auto
  define y where "y = pr_redirs rs @ x"
  have nx: "x = [] \<or> \<not> is_ws (hd x)" "\<not> starts ''<>'' x"
    using ends_exec [OF Paren.prems(3)] by auto
  have yn: "y = [] \<or> \<not> is_ws (hd y)"
    using pr_redirs_nows nx(1) by (simp add: y_def)
  have a: "at buf s (CHR ''('' # '' '' @ pr_line l @ '') '' @ y)"
    using Paren.prems(1) by (simp add: y_def)
  have ln: "pr_line l @ '') '' @ y = [] \<or> \<not> is_ws (hd (pr_line l @ '') '' @ y))"
    using pr_nows(3) [of l "'') '' @ y"] Paren.prems(2) symbol_nows [of "CHR '')''"] by simp
  note g = gettoken_symbol [OF a _ ln]
  have p1: "peek buf ''('' s = Ok True s"
    using peek_at [OF a, of "''(''"] by simp
  obtain c where c: "parseline k buf (s + 2) = Ok c (s + 2 + length (pr_line l))"
      "map_cmd (word_at buf) c = line_cmd l" "at buf (s + 2 + length (pr_line l)) ('') '' @ y)"
    using Paren.IH [of "s + 2" "'') '' @ y" k] g(2) Paren.prems(2,4) by (auto simp: n starts_def)
  define u where "u = s + 2 + length (pr_line l)"
  have b: "at buf u (CHR '')'' # '' '' @ y)" using c(3) by (simp add: u_def)
  note h = gettoken_symbol [OF b _ yn]
  have p2: "peek buf '')'' u = Ok True u"
    using peek_at [OF b, of "'')''"] by simp
  obtain es where r: "redirs k buf (u + 2) = Ok es (u + 2 + length (pr_redirs rs))"
      "map (entry_words buf) es = map rd_entry rs" "at buf (u + 2 + length (pr_redirs rs)) x"
    using redirs_parse [of buf "u + 2" rs x k] h(2) nx Paren.prems(2,4) by (auto simp: y_def n)
  have "parseexec n buf s = Ok (wrap_redirs c es) (u + 2 + length (pr_redirs rs))"
    using p1 g(1) c(1) [folded u_def] p2 h(1) r(1) by (simp add: n bnd_def parseredirs_def)
  moreover have "u + 2 + length (pr_redirs rs) = s + length (pr_ex (Paren l rs))"
    by (simp add: u_def)
  ultimately show ?case
    using c(2) r(2,3) by (simp add: map_wrap add.assoc)
next
  case (Single e)
  obtain m where n: "n = Suc m" using Single.prems(4) by (cases n) auto
  have x: "x = [] \<or> starts ''|)&;'' x" using Single.prems(3) by (auto simp: starts_def)
  obtain c where c: "parseexec m buf s = Ok c (s + length (pr_ex e))" "map_cmd (word_at buf) c = ex_cmd e"
      "at buf (s + length (pr_ex e)) x"
    using Single.IH [of s x m] Single.prems x by (auto simp: n)
  have "peek buf ''|'' (s + length (pr_ex e)) = Ok False (s + length (pr_ex e))"
    using peek_at [OF c(3), of "''|''"] Single.prems(3) by (auto simp: starts_def)
  then show ?case
    using c by (simp add: n bnd_def)
next
  case (Piped e p)
  obtain m where n: "n = Suc m" using Piped.prems(4) by (cases n) auto
  have a: "at buf s (pr_ex e @ CHR ''|'' # '' '' @ pr_pl p @ x)"
    using Piped.prems(1) by simp
  obtain c where c: "parseexec m buf s = Ok c (s + length (pr_ex e))" "map_cmd (word_at buf) c = ex_cmd e"
      "at buf (s + length (pr_ex e)) (CHR ''|'' # '' '' @ pr_pl p @ x)"
    using Piped.IH(1) [OF a, of m] Piped.prems by (auto simp: n starts_def)
  have x: "x = [] \<or> starts ''|)&;'' x" using Piped.prems(3) by (auto simp: starts_def)
  have pn: "pr_pl p @ x = [] \<or> \<not> is_ws (hd (pr_pl p @ x))"
    using pr_nows(2) [of p x] Piped.prems(2) starts_nows [OF x] by simp
  define u where "u = s + length (pr_ex e)"
  note g = gettoken_symbol [OF c(3) [folded u_def] _ pn]
  have p1: "peek buf ''|'' u = Ok True u"
    using peek_at [OF c(3), of "''|''"] by (simp add: u_def)
  obtain d where d: "parsepipe m buf (u + 2) = Ok d (u + 2 + length (pr_pl p))"
      "map_cmd (word_at buf) d = pl_cmd p" "at buf (u + 2 + length (pr_pl p)) x"
    using Piped.IH(2) [of "u + 2" x m] g(2) Piped.prems by (auto simp: n)
  have "parsepipe n buf s = Ok (PipeCmd c d) (u + 2 + length (pr_pl p))"
    using c(1) p1 g(1) d(1) by (simp add: n bnd_def flip: u_def)
  moreover have "u + 2 + length (pr_pl p) = s + length (pr_pl (Piped e p))"
    by (simp add: u_def)
  ultimately show ?case
    using c(2) d(2,3) by (simp add: add.assoc)
next
  case (Line p k)
  obtain m where n: "n = Suc m" using Line.prems(4) by (cases n) auto
  have a: "at buf s (pr_pl p @ pr_backs k @ x)" using Line.prems(1) by simp
  have f: "pr_backs k @ x = [] \<or> starts '')&;'' (pr_backs k @ x)"
    using Line.prems(3) by (cases k) (auto simp: starts_def pr_backs_def)
  have x: "x = [] \<or> \<not> is_ws (hd x)" "\<not> starts ''&'' x" "\<not> starts '';'' x"
    using Line.prems(3) symbol_nows [of "CHR '')''"] by (auto simp: starts_def)
  obtain c where c: "parsepipe m buf s = Ok c (s + length (pr_pl p))" "map_cmd (word_at buf) c = pl_cmd p"
      "at buf (s + length (pr_pl p)) (pr_backs k @ x)"
    using Line.IH [OF a _ f, of m] Line.prems by (auto simp: n)
  obtain d where d: "parse_backs m buf c (s + length (pr_pl p)) = Ok d (s + length (pr_pl p) + length (pr_backs k))"
      "map_cmd (word_at buf) d = (BackCmd ^^ k) (pl_cmd p)" "at buf (s + length (pr_pl p) + length (pr_backs k)) x"
    using backs_parse [OF c(3) x(1,2) _ c(2), of m] Line.prems by (auto simp: n)
  show ?case
    using c(1) d peek_at [OF d(3), of "'';''"] x(3) by (auto simp: n bnd_def starts_def simp flip: add.assoc)
next
  case (Seq p k l)
  obtain m where n: "n = Suc m" using Seq.prems(4) by (cases n) auto
  define y where "y = CHR '';'' # '' '' @ pr_line l @ x"
  have a: "at buf s (pr_pl p @ pr_backs k @ y)" using Seq.prems(1) by (simp add: y_def)
  have f: "pr_backs k @ y = [] \<or> starts '')&;'' (pr_backs k @ y)"
    by (cases k) (auto simp: starts_def pr_backs_def y_def)
  have y: "y = [] \<or> \<not> is_ws (hd y)" "\<not> starts ''&'' y"
    using symbol_nows [of "CHR '';''"] by (auto simp: starts_def y_def)
  have ln: "pr_line l @ x = [] \<or> \<not> is_ws (hd (pr_line l @ x))"
    using pr_nows(3) [of l x] Seq.prems(2,3) symbol_nows [of "CHR '')''"] by (auto simp: starts_def)
  obtain c where c: "parsepipe m buf s = Ok c (s + length (pr_pl p))" "map_cmd (word_at buf) c = pl_cmd p"
      "at buf (s + length (pr_pl p)) (pr_backs k @ y)"
    using Seq.IH(1) [OF a _ f, of m] Seq.prems by (auto simp: n)
  define u where "u = s + length (pr_pl p) + length (pr_backs k)"
  obtain d where d: "parse_backs m buf c (s + length (pr_pl p)) = Ok d u"
      "map_cmd (word_at buf) d = (BackCmd ^^ k) (pl_cmd p)" "at buf u y"
    using backs_parse [OF c(3) y _ c(2), of m] Seq.prems by (auto simp: n u_def)
  note g = gettoken_symbol [OF d(3) [unfolded y_def] _ ln]
  have p1: "peek buf '';'' u = Ok True u"
    using peek_at [OF d(3), of "'';''"] by (simp add: y_def)
  obtain e where e: "parseline m buf (u + 2) = Ok e (u + 2 + length (pr_line l))"
      "map_cmd (word_at buf) e = line_cmd l" "at buf (u + 2 + length (pr_line l)) x"
    using Seq.IH(2) [of "u + 2" x m] g(2) Seq.prems by (auto simp: n)
  have "parseline n buf s = Ok (ListCmd d e) (u + 2 + length (pr_line l))"
    using c(1) d(1) p1 g(1) e(1) by (simp add: n bnd_def)
  moreover have "u + 2 + length (pr_line l) = s + length (pr_line (Seq p k l))"
    by (simp add: u_def)
  ultimately show ?case
    using d(2) e(2,3) by (simp add: add.assoc)
qed

lemma pr_line_chars:
  "ok_ex e \<Longrightarrow> NUL \<notin> set (pr_ex e)" "ok_pl p \<Longrightarrow> NUL \<notin> set (pr_pl p)" "ok_line l \<Longrightarrow> NUL \<notin> set (pr_line l)"
proof -
  have w: "NUL \<notin> set w" if "ok_word w" for w
    using that by (auto simp: ok_word_def list_all_iff)
  have r: "NUL \<notin> set (pr_redirs rs)" if "ok_redirs rs" for rs
    using that w by (induction rs) (auto simp: pr_redirs_def ok_redirs_def pr_redir_def split: rkind.splits)
  have a: "NUL \<notin> set (pr_args as)" if "list_all (\<lambda>(w, rs). ok_word w \<and> ok_redirs rs) as" for as
    using that w r by (induction as) (auto simp: pr_args_def)
  have b: "NUL \<notin> set (pr_backs k)" for k
    by (induction k) (auto simp: pr_backs_def)
  show "ok_ex e \<Longrightarrow> NUL \<notin> set (pr_ex e)" "ok_pl p \<Longrightarrow> NUL \<notin> set (pr_pl p)" "ok_line l \<Longrightarrow> NUL \<notin> set (pr_line l)"
    by (induction e and p and l) (use r a b in auto)
qed

text \<open>C13: the parser of the shell is the inverse of the grammar. A line written from a tree of
  redirections, commands, blocks, pipelines and lists, with one blank behind each token, words
  without blanks, symbols and NULs, and at most nine arguments to a command, is parsed back to the
  command the tree means: pipelines nest to the right, \<open>&\<close> applies to the whole pipeline before it,
  redirections wrap the command from the inside out, and \<open>>>\<close> means the same as \<open>>\<close>.\<close>

theorem parsecmd_reads_grammar:
  assumes "ok_line l"
  shows "\<exists>c line t. parsecmd (pr_line l) s = Ok (c, line) t \<and> map_cmd (word_at (pr_line l)) c = line_cmd l"
proof -
  define buf where "buf = pr_line l"
  have a: "at buf 0 (pr_line l @ [])"
    using pr_nows(3) [OF assms, of "[]"] pr_line_chars(3) [OF assms] by (simp add: at_def buf_def)
  obtain c where c: "parseline (parse_fuel buf) buf 0 = Ok c (length (pr_line l))"
      "map_cmd (word_at buf) c = line_cmd l" "at buf (length (pr_line l)) []"
    using parse_print(3) [OF a assms, of "parse_fuel buf"] by (auto simp: parse_fuel_def buf_def)
  show ?thesis
    using c peek_at [OF c(3), of "''''"] by (simp add: parsecmd_def bnd_def thn_def flip: buf_def)
qed

definition demo_line :: line where
  "demo_line = Seq (Piped (Simple [] [(''cat'', [(RIn, ''f'')]), (''x'', [])]) (Single (Simple [] [(''wc'', [])]))) 1
     (Line (Single (Paren (Line (Single (Simple [] [(''ls'', [])])) 0) [(RAppend, ''o'')])) 0)"

theorem parsecmd_reads_grammar_witness:
  "pr_line demo_line = ''cat < f x | wc & ; ( ls ) >> o '' \<and>
   (\<exists>c line t. parsecmd (pr_line demo_line) 0 = Ok (c, line) t \<and>
      map_cmd (word_at (pr_line demo_line)) c =
        ListCmd (BackCmd (PipeCmd (RedirCmd (ExecCmd [''cat'', ''x'']) ''f'' O_RDONLY 0) (ExecCmd [''wc''])))
          (RedirCmd (ExecCmd [''ls'']) ''o'' O_WRONLY_CREATE 1))"
proof -
  have ok: "ok_line demo_line"
    by code_simp
  have c: "line_cmd demo_line =
      ListCmd (BackCmd (PipeCmd (RedirCmd (ExecCmd [''cat'', ''x'']) ''f'' O_RDONLY 0) (ExecCmd [''wc''])))
        (RedirCmd (ExecCmd [''ls'']) ''o'' O_WRONLY_CREATE 1)"
    by (simp add: demo_line_def wrap_redirs_def rd_entry_def)
  have p: "pr_line demo_line = ''cat < f x | wc & ; ( ls ) >> o ''"
    by code_simp
  show ?thesis
    using parsecmd_reads_grammar [OF ok, of 0] p unfolding c by blast
qed

end
