(* ===== verification/ShRun.thy ===== *)
theory ShRun
  imports ShParse
begin

text \<open>
  Running commands (\<^verbatim>\<open>runcmd\<close>, \<^verbatim>\<open>getcmd\<close> and \<^verbatim>\<open>main\<close> of \<^verbatim>\<open>sh.c\<close>, \<^verbatim>\<open>gets\<close> of \<^verbatim>\<open>ulib.c\<close>). A
  process is the tree of the system calls it makes, with a branch for each result; \<open>execs\<close> runs
  the trees of a command and of its children on their file descriptors, as the kernel does, and
  collects the programs they execute. The order in which parent and children run does not matter
  to their descriptors, which they do not share.
\<close>

section \<open>Processes\<close>

datatype prog =
    Exit
  | Exec string "string list" prog
  | Close nat prog
  | Open string nat "int \<Rightarrow> prog"
  | Pipe "(nat \<times> nat) option \<Rightarrow> prog"
  | Fork prog prog prog
  | Dup nat prog
  | Wait prog
  | Chdir string "int \<Rightarrow> prog"
  | Printf nat string prog

definition panicp :: "string \<Rightarrow> prog" where
  "panicp s = Printf 2 (s @ ''\<newline>'') Exit"

text \<open>\<open>fork1() == 0\<close> in the child: \<open>child\<close> never returns, \<open>parent\<close> goes on.\<close>

definition fork1 :: "prog \<Rightarrow> prog \<Rightarrow> prog" where
  "fork1 child parent = Fork (panicp ''fork'') child parent"

fun runcmd :: "string cmd \<Rightarrow> prog" where
  "runcmd (ExecCmd []) = Exit"
| "runcmd (ExecCmd (a # argv)) = Exec a (a # argv) (Printf 2 (''exec '' @ a @ '' failed\<newline>'') Exit)"
| "runcmd (RedirCmd c file mode fd) = Close fd (Open file mode (\<lambda>r.
     if r < 0 then Printf 2 (''open '' @ file @ '' failed\<newline>'') Exit else runcmd c))"
| "runcmd (ListCmd l r) = fork1 (runcmd l) (Wait (runcmd r))"
| "runcmd (PipeCmd l r) = Pipe (\<lambda>p. case p of
       None \<Rightarrow> panicp ''pipe''
     | Some (p0, p1) \<Rightarrow>
         fork1 (Close 1 (Dup p1 (Close p0 (Close p1 (runcmd l)))))
         (fork1 (Close 0 (Dup p0 (Close p0 (Close p1 (runcmd r)))))
         (Close p0 (Close p1 (Wait (Wait Exit))))))"
| "runcmd (BackCmd c) = fork1 (runcmd c) Exit"

text \<open>\<^verbatim>\<open>gets(buf, max)\<close> on the characters still to be read from the console: it reads one at a time,
  up to a line end, the end of the input or \<open>max - 1\<close> characters.\<close>

fun gets_loop :: "nat \<Rightarrow> string \<Rightarrow> string \<times> string" where
  "gets_loop 0 input = ([], input)"
| "gets_loop (Suc n) [] = ([], [])"
| "gets_loop (Suc n) (c # input) =
     (if c = CHR 0x0A \<or> c = CHR 0x0D then ([c], input)
      else let (line, input) = gets_loop n input in (c # line, input))"

definition ugets :: "nat \<Rightarrow> string \<Rightarrow> string \<times> string" where
  "ugets sz input = gets_loop (sz - 1) input"

lemma ugets_shorter: "ugets sz input = (line, input') \<Longrightarrow> line \<noteq> [] \<Longrightarrow> length input' < length input"
proof -
  have "gets_loop n xs = (line, ys) \<Longrightarrow> length xs = length line + length ys" for n xs line ys
    by (induction n xs arbitrary: line ys rule: gets_loop.induct) (auto split: if_splits prod.splits)
  then show "ugets sz input = (line, input') \<Longrightarrow> line \<noteq> [] \<Longrightarrow> length input' < length input"
    unfolding ugets_def by (metis add_less_same_cancel2 length_greater_0_conv less_add_same_cancel2)
qed

definition O_RDWR :: nat where
  "O_RDWR = 2"

text \<open>\<^verbatim>\<open>while ((fd = open("console", O_RDWR)) >= 0) if (fd >= 3) ...\<close>: descriptors are handed out from
  the lowest free one, so the loop runs at most four times.\<close>

fun ensure_fds :: "nat \<Rightarrow> prog \<Rightarrow> prog" where
  "ensure_fds 0 k = k"
| "ensure_fds (Suc n) k = Open ''console'' O_RDWR (\<lambda>fd.
     if fd \<ge> 0 then if fd \<ge> 3 then Close (nat fd) k else ensure_fds n k else k)"

text \<open>What the child does with a line: the line as a C string, parsed, with the words read at their
  pointers.\<close>

definition run_line :: "string \<Rightarrow> prog" where
  "run_line buf = (case parsecmd (takeWhile (\<lambda>c. c \<noteq> NUL) buf) 0 of
       Ok (c, line) _ \<Rightarrow> runcmd (map_cmd (\<lambda>w. c_string line (fst w)) c)
     | Panic e \<Rightarrow> panicp e
     | _ \<Rightarrow> Exit)"

text \<open>The loop of \<^verbatim>\<open>main\<close> over the console input. \<^verbatim>\<open>getcmd\<close> fails when the first character of the
  buffer is NUL.\<close>

function sh_loop :: "string \<Rightarrow> prog" where
  "sh_loop input = (let (buf, input') = ugets 100 input in
     Printf 2 ''$ ''
     (if buf = [] \<or> hd buf = NUL then Exit
      else if take 3 buf = ''cd '' then
        let path = drop 3 (butlast (takeWhile (\<lambda>c. c \<noteq> NUL) buf)) in
        Chdir path (\<lambda>r. if r < 0 then Printf 2 (''cannot cd '' @ path @ ''\<newline>'') (sh_loop input')
                          else sh_loop input')
      else fork1 (run_line buf) (Wait (sh_loop input'))))"
  by pat_completeness auto
termination
proof (relation "measure length")
  fix input x buf input' path r
  assume "x = ugets 100 input" "(buf, input') = x" "\<not> (buf = [] \<or> hd buf = NUL)"
  then show "(input', input) \<in> measure length"
    using ugets_shorter [of 100 input buf input'] by simp
next
  fix input x buf input' path r
  assume "x = ugets 100 input" "(buf, input') = x" "\<not> (buf = [] \<or> hd buf = NUL)"
  then show "(input', input) \<in> measure length"
    using ugets_shorter [of 100 input buf input'] by simp
next
  fix input x buf input'
  assume "x = ugets 100 input" "(buf, input') = x" "\<not> (buf = [] \<or> hd buf = NUL)"
  then show "(input', input) \<in> measure length"
    using ugets_shorter [of 100 input buf input'] by simp
qed simp

declare sh_loop.simps [simp del]

definition sh_main :: "string \<Rightarrow> prog" where
  "sh_main input = Printf 1 ''SELECTION=SCFIFO\<newline>'' (ensure_fds 4 (sh_loop input))"

section \<open>File descriptors\<close>

datatype ofile = Named string nat | PipeRead nat | PipeWrite nat | Terminal

type_synonym fds = "nat \<Rightarrow> ofile option"
type_synonym event = "string \<times> string list \<times> fds"

definition NOFILE :: nat where
  "NOFILE = 16"

definition lowest :: "fds \<Rightarrow> nat option" where
  "lowest fds = find (\<lambda>n. fds n = None) [0..<NOFILE]"

text \<open>\<open>execs opens p fds k\<close>: the programs that the process \<open>p\<close> and its descendants execute, each with
  its arguments and descriptors, and the number of the next pipe. \<open>opens\<close> says what opening a
  file gives; \<open>fork\<close> and \<open>chdir\<close> are taken to succeed.\<close>

primrec execs :: "(string \<Rightarrow> nat \<Rightarrow> ofile option) \<Rightarrow> prog \<Rightarrow> fds \<Rightarrow> nat \<Rightarrow> event list \<times> nat" where
  "execs opens Exit = (\<lambda>fds k. ([], k))"
| "execs opens (Exec path argv q) = (\<lambda>fds k. ([(path, argv, fds)], k))"
| "execs opens (Close fd q) = (\<lambda>fds k. execs opens q (fds(fd := None)) k)"
| "execs opens (Open f mode q) = (\<lambda>fds k. case (opens f mode, lowest fds) of
       (Some x, Some n) \<Rightarrow> execs opens (q (int n)) (fds(n := Some x)) k
     | _ \<Rightarrow> execs opens (q (- 1)) fds k)"
| "execs opens (Pipe q) = (\<lambda>fds k. case lowest fds of
       None \<Rightarrow> execs opens (q None) fds k
     | Some r \<Rightarrow> (case lowest (fds(r := Some (PipeRead k))) of
         None \<Rightarrow> execs opens (q None) fds k
       | Some v \<Rightarrow> execs opens (q (Some (r, v))) (fds(r := Some (PipeRead k), v := Some (PipeWrite k))) (k + 1)))"
| "execs opens (Fork f child parent) = (\<lambda>fds k.
     let (es, k) = execs opens child fds k; (es', k) = execs opens parent fds k in (es @ es', k))"
| "execs opens (Dup fd q) = (\<lambda>fds k. case (fds fd, lowest fds) of
       (Some x, Some n) \<Rightarrow> execs opens q (fds(n := Some x)) k
     | _ \<Rightarrow> execs opens q fds k)"
| "execs opens (Wait q) = execs opens q"
| "execs opens (Chdir path q) = execs opens (q 0)"
| "execs opens (Printf fd s q) = execs opens q"

section \<open>What a command means\<close>

text \<open>The meaning of a command by its structure: a redirection replaces a descriptor, a pipe gives
  the left side a new pipe as its output and the right side the same pipe as its input.\<close>

fun meaning :: "(string \<Rightarrow> nat \<Rightarrow> ofile option) \<Rightarrow> string cmd \<Rightarrow> fds \<Rightarrow> nat \<Rightarrow> event list \<times> nat" where
  "meaning opens (ExecCmd []) fds k = ([], k)"
| "meaning opens (ExecCmd (a # argv)) fds k = ([(a, a # argv, fds)], k)"
| "meaning opens (RedirCmd c f mode fd) fds k = (case opens f mode of
       None \<Rightarrow> ([], k)
     | Some x \<Rightarrow> meaning opens c (fds(fd := Some x)) k)"
| "meaning opens (PipeCmd l r) fds k =
     (let (es, k') = meaning opens l (fds(1 := Some (PipeWrite k))) (k + 1);
          (es', k'') = meaning opens r (fds(0 := Some (PipeRead k))) k'
      in (es @ es', k''))"
| "meaning opens (ListCmd l r) fds k =
     (let (es, k') = meaning opens l fds k; (es', k'') = meaning opens r fds k' in (es @ es', k''))"
| "meaning opens (BackCmd c) fds k = meaning opens c fds k"

text \<open>The parser redirects the descriptors 0 and 1 only.\<close>

fun redirs_std :: "'w cmd \<Rightarrow> bool" where
  "redirs_std (ExecCmd ws) = True"
| "redirs_std (RedirCmd c w mode fd) = (fd \<le> 1 \<and> redirs_std c)"
| "redirs_std (PipeCmd l r) = (redirs_std l \<and> redirs_std r)"
| "redirs_std (ListCmd l r) = (redirs_std l \<and> redirs_std r)"
| "redirs_std (BackCmd c) = redirs_std c"

definition std_fds :: "fds \<Rightarrow> bool" where
  "std_fds fds = (\<forall>n. fds n = None \<longleftrightarrow> 3 \<le> n)"

lemma std_fds_update: "std_fds fds \<Longrightarrow> n < 3 \<Longrightarrow> std_fds (fds(n := Some x))"
  by (simp add: std_fds_def)

lemma std_fds_None: "std_fds fds \<Longrightarrow> 3 \<le> n \<Longrightarrow> fds n = None"
  by (simp add: std_fds_def)

lemma lowest_eq: "n < NOFILE \<Longrightarrow> fds n = None \<Longrightarrow> \<forall>m < n. fds m \<noteq> None \<Longrightarrow> lowest fds = Some n"
  unfolding lowest_def by (subst find_Some_iff) (auto intro!: exI [of _ n])

lemma lowest_std: "std_fds fds \<Longrightarrow> lowest fds = Some 3"
  by (rule lowest_eq) (simp_all add: std_fds_def NOFILE_def not_le)

lemma lowest_std_pipe: "std_fds fds \<Longrightarrow> lowest (fds(3 := Some x)) = Some 4"
proof (rule lowest_eq)
  assume std: "std_fds fds"
  show "\<forall>m < 4. (fds(3 := Some x)) m \<noteq> None"
  proof (intro allI impI)
    fix m :: nat
    assume "m < 4"
    then show "(fds(3 := Some x)) m \<noteq> None"
      using std by (cases "m = 3") (simp_all add: std_fds_def)
  qed
qed (auto simp: std_fds_def NOFILE_def)

lemma lowest_closed:
  assumes "std_fds fds" "n < 3"
  shows "lowest (fds(n := None)) = Some n"
  by (rule lowest_eq) (use assms in \<open>auto simp: std_fds_def NOFILE_def not_le\<close>)

text \<open>In a child of a pipe: descriptor \<open>n\<close> is closed, the end \<open>x\<close> in descriptor \<open>e\<close> takes its
  place, and both ends are closed.\<close>

lemma pipe_child:
  assumes std: "std_fds fds" and n: "n < 3" and e: "e = 3 \<and> x = PipeRead k \<or> e = 4 \<and> x = PipeWrite k"
  shows "execs opens (Close n (Dup e (Close 3 (Close 4 q)))) (fds(3 := Some (PipeRead k), 4 := Some (PipeWrite k))) j
    = execs opens q (fds(n := Some x)) j"
proof -
  define fds' where "fds' = fds(3 := Some (PipeRead k), 4 := Some (PipeWrite k), n := None)"
  have "lowest fds' = Some n"
    by (rule lowest_eq) (use std n in \<open>auto simp: fds'_def std_fds_def NOFILE_def not_le\<close>)
  moreover have "fds' e = Some x"
    using e n by (auto simp: fds'_def)
  moreover have "fds'(n := Some x, 3 := None, 4 := None) = fds(n := Some x)"
  proof (rule ext)
    fix m
    show "(fds'(n := Some x, 3 := None, 4 := None)) m = (fds(n := Some x)) m"
      using n std_fds_None [OF std, of 3] std_fds_None [OF std, of 4]
      by (cases "m = n"; cases "m = 3"; cases "m = 4") (simp_all add: fds'_def)
  qed
  ultimately have "execs opens (Dup e (Close 3 (Close 4 q))) fds' j = execs opens q (fds(n := Some x)) j"
    by (simp del: fun_upd_apply)
  then show ?thesis
    by (simp add: fds'_def del: fun_upd_apply)
qed

lemma pipe_parent:
  assumes "std_fds fds"
  shows "execs opens (Close 3 (Close 4 q)) (fds(3 := Some x, 4 := Some y)) j = execs opens q fds j"
proof -
  have "fds(3 := None, 4 := None) = fds"
    using std_fds_None [OF assms, of 3] std_fds_None [OF assms, of 4] by (auto simp: fun_eq_iff)
  then show ?thesis by (simp add: fun_upd_twist)
qed

text \<open>C12: the shell runs a command as its structure says. From the three standard descriptors, the
  system calls of \<open>runcmd\<close> (closing, opening, \<open>pipe\<close>, \<open>dup\<close> and \<open>fork\<close> in their order) execute
  exactly the programs that the meaning of the command lists, with the same arguments and the same
  descriptors; in particular no program inherits an end of a pipe that is not its input or output.\<close>

theorem runcmd_meaning:
  assumes "redirs_std c" "std_fds fds"
  shows "execs opens (runcmd c) fds k = meaning opens c fds k"
  using assms
proof (induction c arbitrary: fds k)
  case (ExecCmd ws)
  then show ?case by (cases ws) simp_all
next
  case (RedirCmd c f mode fd)
  have fd: "fd < 3" using RedirCmd.prems(1) by simp
  have IH: "execs opens (runcmd c) (fds(fd := Some x)) k = meaning opens c (fds(fd := Some x)) k" for x
    using RedirCmd.prems by (intro RedirCmd.IH std_fds_update [OF _ fd]) simp_all
  show ?case
  proof (cases "opens f mode")
    case (Some x)
    then show ?thesis
      using IH [of x] lowest_closed [OF RedirCmd.prems(2) fd] by (simp del: fun_upd_apply)
  qed simp
next
  case (PipeCmd l r)
  note std = PipeCmd.prems(2)
  have L: "execs opens (Close 1 (Dup 4 (Close 3 (Close 4 (runcmd l))))) (fds(3 := Some (PipeRead k), 4 := Some (PipeWrite k))) j
      = meaning opens l (fds(1 := Some (PipeWrite k))) j" for j
    by (rule trans [OF pipe_child [OF std] PipeCmd.IH(1)])
      (use PipeCmd.prems in \<open>simp_all add: std_fds_update del: fun_upd_apply\<close>)
  have R: "execs opens (Close 0 (Dup 3 (Close 3 (Close 4 (runcmd r))))) (fds(3 := Some (PipeRead k), 4 := Some (PipeWrite k))) j
      = meaning opens r (fds(0 := Some (PipeRead k))) j" for j
    by (rule trans [OF pipe_child [OF std] PipeCmd.IH(2)])
      (use PipeCmd.prems in \<open>simp_all add: std_fds_update del: fun_upd_apply\<close>)
  have P: "execs opens (Close 3 (Close 4 (Wait (Wait Exit)))) (fds(3 := Some (PipeRead k), 4 := Some (PipeWrite k))) j
      = ([], j)" for j
    using pipe_parent [OF std] by simp
  show ?case
    using L R P lowest_std [OF std] lowest_std_pipe [OF std]
    by (simp add: fork1_def Let_def split_def del: execs.simps(3,7))
next
  case (ListCmd l r)
  then show ?case by (simp add: fork1_def)
next
  case (BackCmd c)
  then show ?case by (simp add: fork1_def split_def)
qed

theorem runcmd_meaning_witness:
  "redirs_std (PipeCmd (ExecCmd [''ls'']) (ExecCmd [''wc''])) \<and>
   execs (\<lambda>_ _. None) (runcmd (PipeCmd (ExecCmd [''ls'']) (ExecCmd [''wc''])))
     [0 \<mapsto> Terminal, 1 \<mapsto> Terminal, 2 \<mapsto> Terminal] 7 =
   ([(''ls'', [''ls''], [0 \<mapsto> Terminal, 1 \<mapsto> PipeWrite 7, 2 \<mapsto> Terminal]),
     (''wc'', [''wc''], [0 \<mapsto> PipeRead 7, 1 \<mapsto> Terminal, 2 \<mapsto> Terminal])], 8)"
proof -
  have std: "std_fds [0 \<mapsto> Terminal, 1 \<mapsto> Terminal, 2 \<mapsto> Terminal]"
    by (auto simp: std_fds_def)
  have red: "redirs_std (PipeCmd (ExecCmd [''ls'']) (ExecCmd [''wc'']))" by simp
  show ?thesis
    unfolding runcmd_meaning [OF red std] by (auto simp: fun_eq_iff)
qed

end
