(* ===== verification/Ide.thy ===== *)
theory Ide
  imports Bio
begin

text \<open>
  The IDE disk driver (\<^verbatim>\<open>ide.c\<close>): the queue of requests, linked through the buffers, and the
  controller behind its ports. \<open>taskfile\<close> holds the last byte written to each port, \<open>status\<close> the
  values that the coming reads of the status port \<^verbatim>\<open>0x1f7\<close> give (a wait that exhausts them does not
  return), and the data port transfers the sector that the task file addresses. Drive 1, which
  has the file system, is the \<open>disk\<close> of the memory disk driver; drive 0 is \<open>disk0\<close>. \<^verbatim>\<open>ioapicenable\<close> is
  not modelled.
\<close>

section \<open>State\<close>

record kide = kbio +
  idequeue :: "nat option"
  qnext :: "nat \<Rightarrow> nat option"
  havedisk1 :: bool
  status :: "byte list"
  taskfile :: "nat \<Rightarrow> byte"
  disk0 :: "nat \<Rightarrow> byte list"

definition FSSIZE :: nat where
  "FSSIZE = 1000"

definition IDE_BSY :: byte where "IDE_BSY = 0x80"
definition IDE_DRDY :: byte where "IDE_DRDY = 0x40"
definition IDE_DF :: byte where "IDE_DF = 0x20"
definition IDE_ERR :: byte where "IDE_ERR = 0x01"
definition IDE_CMD_READ :: byte where "IDE_CMD_READ = 0x20"
definition IDE_CMD_WRITE :: byte where "IDE_CMD_WRITE = 0x30"

section \<open>The controller\<close>

definition outb :: "nat \<Rightarrow> byte \<Rightarrow> ('z kide_scheme, unit) kern" where
  "outb p v = modify (\<lambda>s. s\<lparr>taskfile := (taskfile s)(p := v)\<rparr>)"

definition lba :: "(nat \<Rightarrow> byte) \<Rightarrow> nat" where
  "lba r = unat (r 0x1f3) + 0x100 * unat (r 0x1f4) + 0x10000 * unat (r 0x1f5) + 0x1000000 * unat (r 0x1f6 AND 0x0f)"

definition slave :: "(nat \<Rightarrow> byte) \<Rightarrow> bool" where
  "slave r = bit (r 0x1f6) 4"

definition drive :: "'z kide_scheme \<Rightarrow> bool \<Rightarrow> nat \<Rightarrow> byte list" where
  "drive s d = (if d then disk s else disk0 s)"

definition set_drive :: "bool \<Rightarrow> nat \<Rightarrow> byte list \<Rightarrow> 'z kide_scheme \<Rightarrow> 'z kide_scheme" where
  "set_drive d n bs s = (if d then s\<lparr>disk := (disk s)(n := bs)\<rparr> else s\<lparr>disk0 := (disk0 s)(n := bs)\<rparr>)"

text \<open>\<^verbatim>\<open>insl\<close> and \<^verbatim>\<open>outsl\<close> of \<^verbatim>\<open>BSIZE/4\<close> words on the data port.\<close>

definition insl_data :: "('z kide_scheme, byte list) kern" where
  "insl_data = gets (\<lambda>s. drive s (slave (taskfile s)) (lba (taskfile s)))"

definition outsl_data :: "byte list \<Rightarrow> ('z kide_scheme, unit) kern" where
  "outsl_data bs = modify (\<lambda>s. set_drive (slave (taskfile s)) (lba (taskfile s)) bs s)"

fun ready_in :: "byte list \<Rightarrow> (byte \<times> byte list) option" where
  "ready_in [] = None"
| "ready_in (r # rs) = (if r AND (IDE_BSY OR IDE_DRDY) = IDE_DRDY then Some (r, rs) else ready_in rs)"

definition idewait :: "bool \<Rightarrow> ('z kide_scheme, int) kern" where
  "idewait checkerr = bnd (gets status) (\<lambda>st. case ready_in st of
       None \<Rightarrow> diverge
     | Some (r, st') \<Rightarrow>
         thn (modify (\<lambda>s. s\<lparr>status := st'\<rparr>))
         (ret (if checkerr \<and> r AND (IDE_DF OR IDE_ERR) \<noteq> 0 then - 1 else 0)))"

text \<open>The loop that looks for the second drive.\<close>

fun probe :: "nat \<Rightarrow> byte list \<Rightarrow> (bool \<times> byte list) option" where
  "probe 0 st = Some (False, st)"
| "probe (Suc n) [] = None"
| "probe (Suc n) (r # st) = (if r \<noteq> 0 then Some (True, st) else probe n st)"

definition ideinit :: "('z kide_scheme, unit) kern" where
  "ideinit =
     thn (modify (\<lambda>s. s\<lparr>held := held s - {LIde}\<rparr>)) (
     thn (idewait False) (
     thn (outb 0x1f6 (0xe0 OR push_bit 4 1)) (
     thn (bnd (gets status) (\<lambda>st. case probe 1000 st of
            None \<Rightarrow> diverge
          | Some (found, st') \<Rightarrow>
              modify (\<lambda>s. s\<lparr>status := st', havedisk1 := havedisk1 s \<or> found\<rparr>)))
     (outb 0x1f6 (0xe0 OR push_bit 4 0)))))"

section \<open>Requests\<close>

text \<open>One block is one sector, so the single-sector commands are used.\<close>

definition idestart :: "nat option \<Rightarrow> ('z kide_scheme, unit) kern" where
  "idestart bo = (case bo of
       None \<Rightarrow> panic ''idestart''
     | Some b \<Rightarrow> bnd (getbuf b) (\<lambda>x.
         if blockno x \<ge> FSSIZE then panic ''incorrect blockno''
         else let sector = (of_nat (blockno x) :: u32) in
           thn (idewait False) (
           thn (outb 0x3f6 0) (
           thn (outb 0x1f2 1) (
           thn (outb 0x1f3 (ucast (sector AND 0xff))) (
           thn (outb 0x1f4 (ucast (drop_bit 8 sector AND 0xff))) (
           thn (outb 0x1f5 (ucast (drop_bit 16 sector AND 0xff))) (
           thn (outb 0x1f6 (0xe0 OR push_bit 4 (of_nat (bdev x) AND 1) OR ucast (drop_bit 24 sector AND 0x0f))) (
           if bdirty x then thn (outb 0x1f7 IDE_CMD_WRITE) (outsl_data (bdata x))
           else outb 0x1f7 IDE_CMD_READ)))))))))"

definition ideintr :: "('z kide_scheme, unit) kern" where
  "ideintr =
     thn (acquire LIde) (
     bnd (gets idequeue) (\<lambda>h. case h of
       None \<Rightarrow> release LIde
     | Some b \<Rightarrow>
         thn (modify (\<lambda>s. s\<lparr>idequeue := qnext s b\<rparr>)) (
         bnd (getbuf b) (\<lambda>x.
         thn (whenk (\<not> bdirty x) (bnd (idewait True) (\<lambda>r. whenk (r \<ge> 0)
                (bnd insl_data (\<lambda>d. set_buf b (\<lambda>y. y\<lparr>bdata := d\<rparr>)))))) (
         thn (set_buf b (\<lambda>y. y\<lparr>bvalid := True, bdirty := False\<rparr>)) (
         thn (wakeup (Some (BufIOChan b))) (
         thn (bnd (gets idequeue) (\<lambda>n. whenk (n \<noteq> None) (idestart n)))
         (release LIde))))))))"

text \<open>The walk to the end of the queue; the queue never has more than \<open>NBUF\<close> buffers.\<close>

fun qtail :: "nat \<Rightarrow> (nat \<Rightarrow> nat option) \<Rightarrow> nat \<Rightarrow> nat option" where
  "qtail 0 nx a = None"
| "qtail (Suc n) nx a = (case nx a of None \<Rightarrow> Some a | Some c \<Rightarrow> qtail n nx c)"

definition ide_append :: "nat \<Rightarrow> ('z kide_scheme, unit) kern" where
  "ide_append b =
     thn (modify (\<lambda>s. s\<lparr>qnext := (qnext s)(b := None)\<rparr>)) (
     bnd (gets (\<lambda>s. (idequeue s, qnext s))) (\<lambda>(h, nx). case h of
       None \<Rightarrow> modify (\<lambda>s. s\<lparr>idequeue := Some b\<rparr>)
     | Some a \<Rightarrow> (case qtail (NBUF + 1) nx a of
         None \<Rightarrow> diverge
       | Some c \<Rightarrow> modify (\<lambda>s. s\<lparr>qnext := (qnext s)(c := Some b)\<rparr>))))"

text \<open>The waiting loop: \<open>sleep\<close> gives the CPU away (\<open>Block\<close>), and the process tests the flags again
  when it is resumed, in \<open>ide_resume\<close>.\<close>

definition ide_wait :: "nat \<Rightarrow> ('z kide_scheme, unit) kern" where
  "ide_wait b =
     thn (bnd (getbuf b) (\<lambda>x. whenk (\<not> (bvalid x \<and> \<not> bdirty x)) (sleep (BufIOChan b) (Some LIde))))
     (release LIde)"

definition ide_resume :: "nat \<Rightarrow> ('z kide_scheme, unit) kern" where
  "ide_resume b = thn (sleep_resume (Some LIde)) (ide_wait b)"

definition ide_rw :: "nat \<Rightarrow> ('z kide_scheme, unit) kern" where
  "ide_rw b =
     bnd (holdingsleep (BufLk b)) (\<lambda>h.
     bnd (getbuf b) (\<lambda>x.
     bnd (gets havedisk1) (\<lambda>d.
     if \<not> h then panic ''iderw: buf not locked''
     else if bvalid x \<and> \<not> bdirty x then panic ''iderw: nothing to do''
     else if bdev x \<noteq> 0 \<and> \<not> d then panic ''iderw: ide disk 1 not present''
     else
       thn (acquire LIde) (
       thn (ide_append b) (
       thn (bnd (gets idequeue) (\<lambda>n. whenk (n = Some b) (idestart n)))
       (ide_wait b))))))"

section \<open>Addresses\<close>

text \<open>The registers address the sector: the four address registers hold the bits of its number.\<close>

definition addressed :: "nat \<Rightarrow> bool \<Rightarrow> (nat \<Rightarrow> byte) \<Rightarrow> bool" where
  "addressed n d r = (lba r = n \<and> slave r = d)"

definition start_regs :: "nat \<Rightarrow> nat \<Rightarrow> bool \<Rightarrow> (nat \<Rightarrow> byte) \<Rightarrow> nat \<Rightarrow> byte" where
  "start_regs n dev w r = (let sector = (of_nat n :: u32) in r(
     0x3f6 := 0, 0x1f2 := 1, 0x1f3 := ucast (sector AND 0xff), 0x1f4 := ucast (drop_bit 8 sector AND 0xff),
     0x1f5 := ucast (drop_bit 16 sector AND 0xff),
     0x1f6 := 0xe0 OR push_bit 4 (of_nat dev AND 1) OR ucast (drop_bit 24 sector AND 0x0f),
     0x1f7 := if w then IDE_CMD_WRITE else IDE_CMD_READ))"

lemma unat_drop_sector: "n < 2 ^ 32 \<Longrightarrow> unat (drop_bit k (of_nat n :: u32)) = n div 2 ^ k"
  by (simp add: unat_drop_bit_eq unat_of_nat drop_bit_eq_div [where 'a = nat])

lemma byte_of_sector:
  assumes "n < 2 ^ 32"
  shows "unat (ucast (drop_bit k (of_nat n :: u32) AND 0xff) :: byte) = n div 2 ^ k mod 256"
proof -
  have "drop_bit k (of_nat n :: u32) AND 0xff = take_bit 8 (drop_bit k (of_nat n))"
    by (simp add: take_bit_eq_mask mask_numeral)
  then show ?thesis
    using unat_drop_sector [OF assms, of k]
    by (simp add: unsigned_ucast_eq unsigned_take_bit_eq take_bit_eq_mod unat_mod)
qed

lemma dev_bit: "(of_nat dev :: byte) AND 1 = (if even dev then 0 else 1)"
  by (simp add: and_one_eq mod_2_eq_odd)

lemma start_regs_addressed:
  assumes "n < FSSIZE"
  shows "addressed n (odd dev) (start_regs n dev w r)"
proof -
  have n: "n < 2 ^ 32" "n < 2 ^ 24" using assms by (simp_all add: FSSIZE_def)
  have top: "drop_bit 24 (of_nat n :: u32) = 0"
    using unat_drop_sector [OF n(1), of 24] n(2) by (simp add: unat_eq_0)
  have low: "unat (ucast ((of_nat n :: u32) AND 0xff) :: byte) = n mod 256"
    using byte_of_sector [OF n(1), of 0] by simp
  have "n mod 256 + 256 * (n div 2 ^ 8 mod 256) = n" "n div 65536 = 0"
    using assms unfolding FSSIZE_def by simp_all
  then have "lba (start_regs n dev w r) = n"
    by (simp add: lba_def start_regs_def Let_def low byte_of_sector [OF n(1)] top dev_bit
        del: drop_bit_of_nat)
  moreover have "slave (start_regs n dev w r) = odd dev"
    by (simp add: slave_def start_regs_def Let_def top dev_bit bit_simps)
  ultimately show ?thesis by (simp add: addressed_def)
qed

section \<open>Effects of the operations\<close>

definition started_state :: "nat \<Rightarrow> byte list \<Rightarrow> 'z kide_scheme \<Rightarrow> 'z kide_scheme" where
  "started_state b st' s = (let x = bufs s ! b; u = s\<lparr>status := st',
       taskfile := start_regs (blockno x) (bdev x) (bdirty x) (taskfile s)\<rparr>
     in if bdirty x then set_drive (odd (bdev x)) (blockno x) (bdata x) u else u)"

lemma idewait_run: "idewait c s = (case ready_in (status s) of None \<Rightarrow> Diverge
   | Some (r, st') \<Rightarrow> Ok (if c \<and> r AND (IDE_DF OR IDE_ERR) \<noteq> 0 then - 1 else 0) (s\<lparr>status := st'\<rparr>))"
  by (simp add: idewait_def diverge_def split: option.splits prod.splits)

lemma idestart_run:
  assumes "blockno (bufs s ! b) < FSSIZE"
  shows "idestart (Some b) s = (case ready_in (status s) of None \<Rightarrow> Diverge
    | Some (r, st') \<Rightarrow> Ok () (started_state b st' s))"
proof (cases "ready_in (status s)")
  case None
  then show ?thesis
    using assms by (simp add: idestart_def getbuf_def Let_def thn_def bnd_def idewait_run)
next
  case (Some p)
  obtain r st' where p: "p = (r, st')" by (cases p)
  have regs: "addressed (blockno (bufs s ! b)) (odd (bdev (bufs s ! b)))
      (start_regs (blockno (bufs s ! b)) (bdev (bufs s ! b)) w q)" for w q
    using assms by (rule start_regs_addressed)
  show ?thesis
    using assms Some p regs [of "bdirty (bufs s ! b)" "taskfile s"]
    by (cases "bdirty (bufs s ! b)") (simp_all add: idestart_def getbuf_def Let_def kdefs idewait_run outb_def outsl_data_def
        started_state_def start_regs_def addressed_def)
qed

fun ide_list :: "(nat \<Rightarrow> nat option) \<Rightarrow> nat option \<Rightarrow> nat list \<Rightarrow> bool" where
  "ide_list nx h [] = (h = None)"
| "ide_list nx h (b # q) = (h = Some b \<and> ide_list nx (nx b) q)"

definition pending :: "buf \<Rightarrow> bool" where
  "pending x = (\<not> (bvalid x \<and> \<not> bdirty x) \<and> blockno x < FSSIZE)"

text \<open>The controller works on \<open>b\<close>: it is addressed at the block, and has the data of a write.\<close>

definition started :: "nat \<Rightarrow> 'z kide_scheme \<Rightarrow> bool" where
  "started b s = (let x = bufs s ! b in
     addressed (blockno x) (odd (bdev x)) (taskfile s) \<and>
     (bdirty x \<longrightarrow> drive s (odd (bdev x)) (blockno x) = bdata x))"

definition ide_inv :: "nat list \<Rightarrow> 'z kide_scheme \<Rightarrow> bool" where
  "ide_inv q s = (ide_list (qnext s) (idequeue s) q \<and> distinct q \<and> set q \<subseteq> {..<NBUF} \<and>
     length (bufs s) = NBUF + 1 \<and> (\<forall>b \<in> set q. pending (bufs s ! b)) \<and>
     (q \<noteq> [] \<longrightarrow> started (hd q) s))"

lemma started_state_simps [simp]:
  "idequeue (started_state b st s) = idequeue s" "qnext (started_state b st s) = qnext s"
  "bufs (started_state b st s) = bufs s" "held (started_state b st s) = held s"
  "ptable (started_state b st s) = ptable s" "status (started_state b st s) = st"
  "curproc (started_state b st s) = curproc s" "havedisk1 (started_state b st s) = havedisk1 s"
  by (simp_all add: started_state_def Let_def set_drive_def)

lemma started_started_state: "blockno (bufs s ! b) < FSSIZE \<Longrightarrow> started b (started_state b st s)"
  using start_regs_addressed [of "blockno (bufs s ! b)" "bdev (bufs s ! b)"]
  by (cases "odd (bdev (bufs s ! b))"; cases "bdirty (bufs s ! b)")
    (simp_all add: started_def Let_def started_state_def set_drive_def drive_def)

lemma ide_list_upd: "ide_list nx h q \<Longrightarrow> b \<notin> set q \<Longrightarrow> ide_list (nx(b := v)) h q"
  by (induction nx h q rule: ide_list.induct) auto

lemma ide_list_append:
  "ide_list nx h (q @ [c]) \<Longrightarrow> b \<notin> set (q @ [c]) \<Longrightarrow> distinct (q @ [c]) \<Longrightarrow> nx b = None \<Longrightarrow>
   ide_list (nx(c := Some b)) h (q @ [c, b])"
proof (induction q arbitrary: h)
  case (Cons a q)
  then show ?case by (cases q) auto
qed auto

lemma qtail_ide_list:
  "ide_list nx (Some a) (q @ [c]) \<Longrightarrow> length q < n \<Longrightarrow> qtail n nx a = Some c"
proof (induction q arbitrary: a n)
  case Nil
  then show ?case by (cases n) auto
next
  case (Cons d q)
  then obtain m where "n = Suc m" by (cases n) auto
  moreover obtain e where "nx a = Some e"
    using Cons.prems(1) by (cases q) auto
  ultimately show ?case
    using Cons.IH [of e m] Cons.prems by auto
qed

lemma short_queue: "distinct q \<Longrightarrow> set q \<subseteq> {..<NBUF} \<Longrightarrow> length q \<le> NBUF"
  using card_mono [of "{..<NBUF}" "set q"] by (simp add: distinct_card)

section \<open>One interrupt\<close>

text \<open>The state after an interrupt that completes \<open>b\<close> and reads \<open>d\<close> for it, before the next request
  is started.\<close>

definition completed :: "nat \<Rightarrow> byte list \<Rightarrow> byte list \<Rightarrow> 'z kide_scheme \<Rightarrow> 'z kide_scheme" where
  "completed b d st' s = s\<lparr>idequeue := qnext s b, status := st',
     bufs := (bufs s)[b := (bufs s ! b)\<lparr>bdata := d, bvalid := True, bdirty := False\<rparr>],
     ptable := map (woken (Some (BufIOChan b))) (ptable s)\<rparr>"

definition no_error :: "byte list \<Rightarrow> bool" where
  "no_error st = (\<forall>r \<in> set st. r AND (IDE_DF OR IDE_ERR) = 0)"

lemma ready_in_mem: "ready_in st = Some (r, st') \<Longrightarrow> r \<in> set st \<and> set st' \<subseteq> set st"
  by (induction st) (auto split: if_splits)

lemma ideintr_empty: "idequeue s = None \<Longrightarrow> LIde \<notin> held s \<Longrightarrow> ideintr s = Ok () s"
  by (simp add: ideintr_def kdefs held_restore)

lemma held_started_state: "(started_state c st s)\<lparr>held := h\<rparr> = started_state c st (s\<lparr>held := h\<rparr>)"
  by (simp add: started_state_def Let_def set_drive_def)

lemma completed_held: "(completed b d st s)\<lparr>held := h\<rparr> = s\<lparr>held := h, idequeue := qnext s b, status := st,
     bufs := (bufs s)[b := (bufs s ! b)\<lparr>bdata := d, bvalid := True, bdirty := False\<rparr>],
     ptable := map (woken (Some (BufIOChan b))) (ptable s)\<rparr>"
  by (simp add: completed_def)

text \<open>The end of the handler: starting the next request.\<close>

definition start_next :: "('z kide_scheme, unit) kern" where
  "start_next = thn (bnd (gets idequeue) (\<lambda>n. whenk (n \<noteq> None) (idestart n))) (release LIde)"

lemma start_next_Ok:
  assumes "start_next (s\<lparr>held := {LIde}\<rparr>) = Ok () t" "held s = {}"
    and "\<And>c. idequeue s = Some c \<Longrightarrow> blockno (bufs s ! c) < FSSIZE"
  shows "\<exists>st'. t = (case idequeue s of None \<Rightarrow> s | Some c \<Rightarrow> started_state c st' s)"
proof (cases "idequeue s")
  case None
  then show ?thesis using assms(1) held_same [OF assms(2)] by (simp add: start_next_def kdefs)
next
  case (Some c)
  then show ?thesis
    using assms(1,2) assms(3) [OF Some]
    by (cases "ready_in (status s)")
      (auto simp: start_next_def kdefs idestart_run held_started_state held_same [OF assms(2)])
qed

lemma ideintr_Ok:
  assumes q: "idequeue s = Some b" and b: "b < length (bufs s)" and held: "held s = {}" and st: "no_error (status s)"
    and next_ok: "\<And>c. qnext s b = Some c \<Longrightarrow> c \<noteq> b \<and> blockno (bufs s ! c) < FSSIZE"
    and run: "ideintr s = Ok () t"
  shows "\<exists>st' st''. t = (let u = completed b (if bdirty (bufs s ! b) then bdata (bufs s ! b)
       else drive s (slave (taskfile s)) (lba (taskfile s))) st' s
     in case qnext s b of None \<Rightarrow> u | Some c \<Rightarrow> started_state c st'' u)"
proof -
  define d where "d = (if bdirty (bufs s ! b) then bdata (bufs s ! b)
       else drive s (slave (taskfile s)) (lba (taskfile s)))"
  have "\<exists>st'. start_next ((completed b d st' s)\<lparr>held := {LIde}\<rparr>) = Ok () t"
  proof (cases "bdirty (bufs s ! b)")
    case True
    then show ?thesis
      using run q b held
      by (auto simp: completed_held ideintr_def kdefs start_next_def wakeup_run set_buf_def getbuf_def d_def
          intro!: exI [of _ "status s"])
  next
    case False
    then obtain r st' where r: "ready_in (status s) = Some (r, st')"
      using run q b held
      by (cases "ready_in (status s)") (auto simp: ideintr_def kdefs getbuf_def idewait_run)
    then have "r AND (IDE_DF OR IDE_ERR) = 0"
      using ready_in_mem st by (auto simp: no_error_def)
    then show ?thesis
      using run q b held r False
      by (auto simp: completed_held ideintr_def kdefs start_next_def wakeup_run set_buf_def getbuf_def d_def
          idewait_run insl_data_def drive_def intro!: exI [of _ st'])
  qed
  then obtain st' where st': "start_next ((completed b d st' s)\<lparr>held := {LIde}\<rparr>) = Ok () t" by blast
  have "held (completed b d st' s) = {}" "idequeue (completed b d st' s) = qnext s b"
    by (simp_all add: completed_def held)
  moreover have "blockno (bufs (completed b d st' s) ! c) < FSSIZE" if "qnext s b = Some c" for c
    using next_ok [OF that] by (simp add: completed_def)
  ultimately have "\<exists>st''. t = (case qnext s b of None \<Rightarrow> completed b d st' s
      | Some c \<Rightarrow> started_state c st'' (completed b d st' s))"
    using start_next_Ok [OF st'] by simp
  then show ?thesis
    unfolding d_def [symmetric] Let_def by blast
qed

section \<open>Requests and interrupts\<close>

text \<open>
  A process that holds the buffer's sleep lock requests it, the controller interrupts, or something
  else happens in the kernel, which leaves the driver's state, the drives and the contents and flags
  of the requested buffers alone: their sleep locks are held. The drives report no error.
\<close>

datatype ide_event = Request nat | Interrupt | Elsewhere

definition outstanding :: "nat \<Rightarrow> 'z kide_scheme \<Rightarrow> bool" where
  "outstanding b s = (\<exists>q. ide_list (qnext s) (idequeue s) q \<and> b \<in> set q)"

definition same_io :: "buf \<Rightarrow> buf \<Rightarrow> bool" where
  "same_io x y = (bvalid y = bvalid x \<and> bdirty y = bdirty x \<and> bdev y = bdev x \<and>
     blockno y = blockno x \<and> bdata y = bdata x)"

definition undisturbed :: "'z kide_scheme \<Rightarrow> 'z kide_scheme \<Rightarrow> bool" where
  "undisturbed s t = (idequeue t = idequeue s \<and> qnext t = qnext s \<and> taskfile t = taskfile s \<and>
     disk t = disk s \<and> disk0 t = disk0 s \<and> length (bufs t) = length (bufs s) \<and>
     (\<forall>b. outstanding b s \<longrightarrow> same_io (bufs s ! b) (bufs t ! b)))"

inductive ide_step :: "kide \<Rightarrow> ide_event \<Rightarrow> kide \<Rightarrow> bool" where
  request: "held s = {} \<Longrightarrow> b < NBUF \<Longrightarrow> \<not> outstanding b s \<Longrightarrow> blockno (bufs s ! b) < FSSIZE \<Longrightarrow>
    ide_rw b (s\<lparr>status := st\<rparr>) = Block c t \<Longrightarrow> ide_step s (Request b) (t\<lparr>held := {}\<rparr>)"
| interrupt: "held s = {} \<Longrightarrow> no_error st \<Longrightarrow> ideintr (s\<lparr>status := st\<rparr>) = Ok () t \<Longrightarrow>
    ide_step s Interrupt t"
| elsewhere: "undisturbed s t \<Longrightarrow> ide_step s Elsewhere t"

inductive_cases ide_stepE: "ide_step s (Request b) t" "ide_step s Interrupt t" "ide_step s Elsewhere t"

inductive ide_run :: "kide \<Rightarrow> ide_event list \<Rightarrow> kide \<Rightarrow> bool" where
  stop: "ide_run s [] s"
| go: "ide_step s e t \<Longrightarrow> ide_run t es u \<Longrightarrow> ide_run s (e # es) u"

fun next_queue :: "nat list \<Rightarrow> ide_event \<Rightarrow> nat list" where
  "next_queue q (Request b) = q @ [b]"
| "next_queue q Interrupt = tl q"
| "next_queue q Elsewhere = q"

definition served :: "nat \<Rightarrow> kide \<Rightarrow> kide \<Rightarrow> bool" where
  "served b s t = (let x = bufs s ! b; y = bufs t ! b in
     bvalid y \<and> \<not> bdirty y \<and> bdev y = bdev x \<and> blockno y = blockno x \<and>
     bdata y = drive s (odd (bdev x)) (blockno x) \<and> (bdirty x \<longrightarrow> bdata y = bdata x) \<and>
     (\<forall>p \<in> set (ptable t). \<not> (state p = SLEEPING \<and> pchan p = Some (BufIOChan b))))"

lemma ide_list_unique: "ide_list nx h q \<Longrightarrow> ide_list nx h q' \<Longrightarrow> q' = q"
proof (induction nx h q arbitrary: q' rule: ide_list.induct)
  case (1 nx h)
  then show ?case by (cases q') auto
next
  case (2 nx h b q)
  then show ?case by (cases q') auto
qed

lemma outstanding_iff: "ide_inv q s \<Longrightarrow> outstanding b s \<longleftrightarrow> b \<in> set q"
  unfolding outstanding_def ide_inv_def by (metis ide_list_unique)

lemma interrupt_served:
  assumes inv: "ide_inv (b # q) s" and step: "ide_step s Interrupt t"
  shows "ide_inv q t \<and> served b s t"
proof -
  obtain st where held: "held s = {}" and st: "no_error st" and run: "ideintr (s\<lparr>status := st\<rparr>) = Ok () t"
    using step by (elim ide_stepE)
  define x where "x = bufs s ! b"
  have list: "ide_list (qnext s) (qnext s b) q" and h: "idequeue s = Some b" and b: "b < length (bufs s)"
    and dist: "distinct (b # q)" and pend: "\<forall>c \<in> set (b # q). pending (bufs s ! c)"
    and start: "started b s" and len: "length (bufs s) = NBUF + 1" and sub: "set q \<subseteq> {..<NBUF}"
    using inv by (auto simp: ide_inv_def)
  have nxt: "c \<noteq> b \<and> blockno (bufs s ! c) < FSSIZE" if "qnext s b = Some c" for c
    using list that dist pend by (cases q) (auto simp: pending_def)
  let ?s = "s\<lparr>status := st\<rparr>"
  define u where "u st' = completed b (drive s (odd (bdev x)) (blockno x)) st' ?s" for st'
  have d': "(if bdirty (bufs ?s ! b) then bdata (bufs ?s ! b) else drive ?s (slave (taskfile ?s)) (lba (taskfile ?s)))
      = drive s (odd (bdev x)) (blockno x)"
    using start by (auto simp: started_def Let_def addressed_def x_def drive_def)
  have "\<exists>st' st''. t = (let u = completed b (drive s (odd (bdev x)) (blockno x)) st' ?s
      in case qnext ?s b of None \<Rightarrow> u | Some c \<Rightarrow> started_state c st'' u)"
    unfolding d' [symmetric] by (rule ideintr_Ok [OF _ _ _ _ _ run]) (use h b held st nxt in simp_all)
  then have "\<exists>st' st''. t = (case qnext s b of None \<Rightarrow> u st' | Some c \<Rightarrow> started_state c st'' (u st'))"
    unfolding u_def by (simp add: Let_def)
  then obtain st' st'' where t: "t = (case qnext s b of None \<Rightarrow> u st' | Some c \<Rightarrow> started_state c st'' (u st'))"
    by (elim exE)
  have bufs_u: "bufs (u st') = (bufs s)[b := x\<lparr>bdata := drive s (odd (bdev x)) (blockno x), bvalid := True, bdirty := False\<rparr>]"
    and u [simp]: "qnext (u st') = qnext s" "idequeue (u st') = qnext s b"
    "ptable (u st') = map (woken (Some (BufIOChan b))) (ptable s)"
    by (simp_all add: u_def completed_def x_def)
  have bufs_t: "bufs t = bufs (u st')" and pt: "ptable t = map (woken (Some (BufIOChan b))) (ptable s)"
    and nt: "qnext t = qnext s" "idequeue t = qnext s b"
    by (simp_all add: t split: option.splits)
  have "started (hd q) t" if "q \<noteq> []"
  proof -
    have c: "qnext s b = Some (hd q)" using list that by (cases q) auto
    then have "blockno (bufs (u st') ! hd q) < FSSIZE"
      using nxt [OF c] by (simp add: bufs_u)
    then show ?thesis using started_started_state c by (simp add: t)
  qed
  moreover have "pending (bufs t ! c)" if "c \<in> set q" for c
    using that dist pend by (cases "b = c") (auto simp: bufs_t bufs_u)
  ultimately have "ide_inv q t"
    using list dist sub len by (simp add: ide_inv_def nt bufs_t bufs_u)
  moreover have "\<not> (state p = SLEEPING \<and> pchan p = Some (BufIOChan b))" if "p \<in> set (ptable t)" for p
    using that by (auto simp: pt woken_def split: if_splits)
  moreover have "bdirty x \<Longrightarrow> drive s (odd (bdev x)) (blockno x) = bdata x"
    using start by (simp add: started_def Let_def x_def)
  ultimately show ?thesis
    using b by (simp add: served_def Let_def bufs_t bufs_u x_def)
qed

definition append_nx :: "nat list \<Rightarrow> nat \<Rightarrow> (nat \<Rightarrow> nat option) \<Rightarrow> nat \<Rightarrow> nat option" where
  "append_nx q b nx = (if q = [] then nx(b := None) else nx(b := None, last q := Some b))"

lemma ide_append_run:
  assumes list: "ide_list (qnext s) (idequeue s) q" and d: "distinct q" "set q \<subseteq> {..<NBUF}" and b: "b \<notin> set q"
  shows "ide_append b s = Ok () (s\<lparr>qnext := append_nx q b (qnext s),
    idequeue := if q = [] then Some b else idequeue s\<rparr>)"
proof (cases q rule: rev_cases)
  case Nil
  then show ?thesis using list by (simp add: ide_append_def append_nx_def)
next
  case (snoc p c)
  obtain a where a: "idequeue s = Some a"
    using list snoc by (cases p) auto
  have "ide_list ((qnext s)(b := None)) (Some a) (p @ [c])"
    using ide_list_upd [OF list b] snoc a by simp
  then have "qtail (NBUF + 1) ((qnext s)(b := None)) a = Some c"
    using short_queue [OF d] snoc by (intro qtail_ide_list) auto
  then show ?thesis
    using a snoc by (simp add: ide_append_def append_nx_def)
qed

lemma append_nx_list:
  assumes "ide_list nx h q" "distinct q" "b \<notin> set q"
  shows "ide_list (append_nx q b nx) (if q = [] then Some b else h) (q @ [b])"
proof (cases q rule: rev_cases)
  case (snoc p c)
  then show ?thesis
    using ide_list_append [of "nx(b := None)" h p c b] ide_list_upd [OF assms(1,3)] assms(2,3)
    by (simp add: append_nx_def)
qed (simp add: append_nx_def)

lemma ide_wait_Block:
  assumes "ide_wait b s = Block c u" "held s = {LIde}"
  shows "\<exists>P. u = s\<lparr>held := {LPtable}, ptable := P\<rparr>"
  using assms
  by (auto simp: ide_wait_def kdefs getbuf_def sleep_def sleep_enter_def sched_def with_proc_def
      set_proc_def insert_Diff_if split: if_splits option.splits outcome.splits)

lemma request_queued:
  assumes inv: "ide_inv q s" and step: "ide_step s (Request b) t"
  shows "ide_inv (q @ [b]) t"
proof -
  obtain st c u where held: "held s = {}" and b: "b < NBUF" "b \<notin> set q" "blockno (bufs s ! b) < FSSIZE"
    and run: "ide_rw b (s\<lparr>status := st\<rparr>) = Block c u" and t: "t = u\<lparr>held := {}\<rparr>"
    using step inv by (elim ide_stepE) (simp add: outstanding_iff)
  define s1 where "s1 = s\<lparr>status := st, held := {LIde}, qnext := append_nx q b (qnext s),
    idequeue := if q = [] then Some b else idequeue s\<rparr>"
  have list: "ide_list (qnext s) (idequeue s) q" and dist: "distinct q" and sub: "set q \<subseteq> {..<NBUF}"
    using inv by (auto simp: ide_inv_def)
  have app: "ide_append b (s\<lparr>status := st, held := {LIde}\<rparr>) = Ok () s1"
    using ide_append_run [of "s\<lparr>status := st, held := {LIde}\<rparr>" q b] list dist sub b(2)
    by (simp add: s1_def)
  have hd_s1: "idequeue s1 = Some (hd (q @ [b]))"
    using list by (cases q) (auto simp: s1_def)
  have pend: "\<not> (bvalid (bufs s ! b) \<and> \<not> bdirty (bufs s ! b))"
    and rest: "thn (bnd (gets idequeue) (\<lambda>n. whenk (n = Some b) (idestart n))) (ide_wait b) s1 = Block c u"
    using run app held
    by (auto simp: ide_rw_def kdefs holdingsleep_run getbuf_def split: if_splits)
  have "\<exists>s2. ide_wait b s2 = Block c u \<and> held s2 = {LIde} \<and> qnext s2 = qnext s1 \<and> idequeue s2 = idequeue s1 \<and>
      bufs s2 = bufs s \<and> started (hd (q @ [b])) s2"
  proof (cases "q = []")
    case True
    then have "idestart (Some b) s1 = (case ready_in st of None \<Rightarrow> Diverge | Some (r, st') \<Rightarrow> Ok () (started_state b st' s1))"
      using idestart_run [of s1 b] b(3) by (simp add: s1_def)
    then show ?thesis
      using rest hd_s1 True b(3) started_started_state [of s1 b]
      by (cases "ready_in st") (auto simp: kdefs s1_def intro!: exI)
  next
    case False
    then have "hd q \<noteq> b" "started (hd q) s" using b(2) inv by (auto simp: ide_inv_def)
    moreover from this have "ide_wait b s1 = Block c u"
      using rest hd_s1 False by (simp add: kdefs)
    moreover have "started (hd q) s1 = started (hd q) s"
      by (simp add: s1_def started_def Let_def drive_def)
    moreover have "held s1 = {LIde}" "bufs s1 = bufs s" by (simp_all add: s1_def)
    ultimately show ?thesis
      using False by (intro exI [of _ s1]) simp
  qed
  then obtain s2 P where s2: "qnext s2 = qnext s1" "idequeue s2 = idequeue s1" "bufs s2 = bufs s"
      "started (hd (q @ [b])) s2" and u: "u = s2\<lparr>held := {LPtable}, ptable := P\<rparr>"
    using ide_wait_Block by blast
  have "ide_list (qnext s1) (idequeue s1) (q @ [b])"
    using append_nx_list [OF list dist b(2)] by (simp add: s1_def)
  moreover have "started (hd (q @ [b])) t"
    using s2(4) by (simp add: t u started_def Let_def drive_def split: if_splits)
  ultimately show ?thesis
    using inv b pend s2 by (auto simp: ide_inv_def t u pending_def)
qed

lemma elsewhere_keeps:
  assumes inv: "ide_inv q s" and step: "ide_step s Elsewhere t"
  shows "ide_inv q t"
proof -
  have und: "undisturbed s t" using step by (elim ide_stepE)
  then have same: "b \<in> set q \<Longrightarrow> same_io (bufs s ! b) (bufs t ! b)" for b
    using inv by (simp add: undisturbed_def outstanding_iff)
  have "started (hd q) t" if "q \<noteq> []"
    using same [of "hd q"] that inv und
    by (auto simp: ide_inv_def started_def Let_def same_io_def undisturbed_def drive_def)
  then show ?thesis
    using inv und same by (auto simp: ide_inv_def undisturbed_def pending_def same_io_def)
qed

lemma ide_step_inv:
  assumes "ide_inv q s" "ide_step s e t"
  shows "ide_inv (next_queue q e) t"
proof (cases e)
  case Interrupt
  show ?thesis
  proof (cases q)
    case Nil
    obtain st where "held s = {}" "ideintr (s\<lparr>status := st\<rparr>) = Ok () t"
      using assms(2) Interrupt by (auto elim: ide_stepE)
    then have "t = s\<lparr>status := st\<rparr>"
      using assms(1) Nil ideintr_empty [of "s\<lparr>status := st\<rparr>"] by (simp add: ide_inv_def)
    then show ?thesis
      using assms(1) Interrupt Nil by (simp add: ide_inv_def)
  next
    case (Cons b q')
    then show ?thesis using interrupt_served assms Interrupt by auto
  qed
qed (use assms request_queued elsewhere_keeps in auto)

lemma ide_run_inv: "ide_run s es t \<Longrightarrow> ide_inv q s \<Longrightarrow> ide_inv (fold (\<lambda>e q. next_queue q e) es q) t"
  by (induction arbitrary: q rule: ide_run.induct) (auto dest: ide_step_inv)

text \<open>With a controller that becomes ready, the interrupt handler returns.\<close>

lemma ready_in_DRDY: "ready_in (0x40 # st) = Some (0x40, st)"
  by (simp add: IDE_BSY_def IDE_DRDY_def)

lemma interrupt_possible:
  assumes inv: "ide_inv q s" and held: "held s = {}"
  shows "\<exists>t. ide_step s Interrupt t"
proof -
  let ?s = "s\<lparr>status := [0x40, 0x40]\<rparr>"
  have "\<exists>t. ideintr ?s = Ok () t"
  proof (cases q)
    case Nil
    then show ?thesis
      using inv held ideintr_empty [of ?s] by (simp add: ide_inv_def)
  next
    case (Cons b q')
    have h: "idequeue s = Some b" and b: "b < length (bufs s)" and list: "ide_list (qnext s) (qnext s b) q'"
      using inv Cons by (auto simp: ide_inv_def)
    show ?thesis
    proof (cases "qnext s b")
      case None
      then show ?thesis
        using h b held
        by (simp add: ideintr_def kdefs wakeup_run set_buf_def getbuf_def idewait_run insl_data_def
            ready_in_DRDY IDE_DF_def IDE_ERR_def del: ready_in.simps(2))
    next
      case (Some c)
      then have "c \<noteq> b" "blockno (bufs s ! c) < FSSIZE"
        using inv Cons list by (cases q'; auto simp: ide_inv_def pending_def)+
      then show ?thesis
        using h b held Some
        by (simp add: ideintr_def kdefs wakeup_run set_buf_def getbuf_def idewait_run insl_data_def
            ready_in_DRDY IDE_DF_def IDE_ERR_def idestart_run del: ready_in.simps(2))
    qed
  qed
  moreover have "no_error [0x40, 0x40]"
    by (simp add: no_error_def IDE_DF_def IDE_ERR_def)
  ultimately show ?thesis using held interrupt by blast
qed

section \<open>Every request is served\<close>

definition interrupts :: "ide_event list \<Rightarrow> nat" where
  "interrupts es = length (filter (\<lambda>e. e = Interrupt) es)"

lemma interrupts_simps [simp]:
  "interrupts [] = 0" "interrupts (e # es) = (if e = Interrupt then Suc (interrupts es) else interrupts es)"
  by (simp_all add: interrupts_def)

lemma nth_served:
  assumes "ide_run s es t" "ide_inv q s" "k < length q" "k < interrupts es"
  shows "\<exists>es1 u v es2. es = es1 @ Interrupt # es2 \<and> interrupts es1 = k \<and> ide_run s es1 u \<and>
    ide_step u Interrupt v \<and> ide_run v es2 t \<and> served (q ! k) u v"
  using assms
proof (induction arbitrary: q k rule: ide_run.induct)
  case (stop s)
  then show ?case by simp
next
  case (go s e t es u)
  have inv: "ide_inv (next_queue q e) t" using go ide_step_inv by blast
  show ?case
  proof (cases "e = Interrupt \<and> k = 0")
    case True
    then obtain b q' where q: "q = b # q'" using go.prems(2) by (cases q) auto
    then have "served (q ! k) s t"
      using interrupt_served [of b q' s t] go.prems(1) go.hyps(1) True by simp
    then show ?thesis
      using True go.hyps(1,2) by (intro exI [of _ "[]"] exI) (auto intro: ide_run.stop)
  next
    case False
    define k' where "k' = (if e = Interrupt then k - 1 else k)"
    have "k' < length (next_queue q e)" "k' < interrupts es" "next_queue q e ! k' = q ! k"
      using False go.prems(2,3) by (cases e; auto simp: k'_def nth_append nth_tl)+
    then obtain es1 u' v es2 where "es = es1 @ Interrupt # es2" "interrupts es1 = k'" "ide_run t es1 u'"
      "ide_step u' Interrupt v" "ide_run v es2 u" "served (q ! k) u' v"
      using go.IH [OF inv, of k'] by auto
    moreover have "interrupts (e # es1) = k"
      using False \<open>interrupts es1 = k'\<close> by (auto simp: k'_def)
    ultimately show ?thesis
      using go.hyps(1) by (intro exI [of _ "e # es1"] exI) (auto intro: ide_run.go)
  qed
qed

text \<open>C16: every disk request is served, in the order of the requests. Whatever else the kernel does and
  whatever is requested meanwhile, the interrupt after the \<open>k\<close> requests ahead of it completes the
  request at place \<open>k\<close> of the queue: its buffer becomes valid and clean with the contents of its
  block on its drive (which, for a write, are the buffer's data), and no process still sleeps on it.
  In every state that is reached an interrupt can be handled, so the queue never gets stuck.\<close>

theorem ide_requests_served:
  assumes "ide_inv q s" "ide_run s es t" "k < length q" "k < interrupts es"
  shows "(\<exists>es1 u v es2. es = es1 @ Interrupt # es2 \<and> interrupts es1 = k \<and> ide_run s es1 u \<and>
      ide_step u Interrupt v \<and> ide_run v es2 t \<and> served (q ! k) u v) \<and>
    (\<forall>es u. ide_run s es u \<and> held u = {} \<longrightarrow> (\<exists>v. ide_step u Interrupt v))"
proof (intro conjI allI impI)
  show "\<exists>es1 u v es2. es = es1 @ Interrupt # es2 \<and> interrupts es1 = k \<and> ide_run s es1 u \<and>
      ide_step u Interrupt v \<and> ide_run v es2 t \<and> served (q ! k) u v"
    using nth_served [OF assms(2,1,3,4)] .
  fix es u
  assume "ide_run s es u \<and> held u = {}"
  then show "\<exists>v. ide_step u Interrupt v"
    using ide_run_inv [OF _ assms(1)] interrupt_possible by blast
qed

definition ide0 :: kide where
  "ide0 = kbio.extend (kbio.truncate bio0) \<lparr>idequeue = Some 0, qnext = (\<lambda>_. None), havedisk1 = True,
     status = [], taskfile = start_regs 0 0 False (\<lambda>_. 0), disk0 = (\<lambda>_. replicate BSIZE 9)\<rparr>"

lemma ide0_simps [simp]:
  "idequeue ide0 = Some 0" "qnext ide0 = (\<lambda>_. None)" "bufs ide0 = bufs bio0" "held ide0 = {}"
  "taskfile ide0 = start_regs 0 0 False (\<lambda>_. 0)" "disk0 ide0 = (\<lambda>_. replicate BSIZE 9)"
  by (simp_all add: ide0_def kbio.defs bio0_def kproc.defs kproc0_def kmem.defs kmem2_def del: replicate_Suc)

lemma ide0_inv: "ide_inv [0] ide0"
  using start_regs_addressed [of 0 0 False "\<lambda>_. 0"]
  by (auto simp: ide_inv_def pending_def started_def Let_def NBUF_def FSSIZE_def bio0_def kproc.defs
      kproc0_def kmem.defs kmem2_def nth_Cons simp del: replicate_Suc)

inductive_cases ide_run_NilE: "ide_run s [] t"

theorem ide_requests_served_witness:
  "\<exists>t. ide_run ide0 [Interrupt] t \<and> bvalid (bufs t ! 0) \<and> bdata (bufs t ! 0) = replicate BSIZE 9"
proof -
  obtain t where t: "ide_step ide0 Interrupt t"
    using interrupt_possible [OF ide0_inv] by auto
  then have run: "ide_run ide0 [Interrupt] t" by (blast intro: ide_run.intros)
  obtain es1 u v es2 where u: "[Interrupt] = es1 @ Interrupt # es2" "ide_run ide0 es1 u" "ide_run v es2 t"
      "served ([0] ! 0) u v"
    using ide_requests_served [OF ide0_inv run, of 0] by auto
  then have "es1 = []" "es2 = []" by (auto simp: Cons_eq_append_conv)
  then have "served 0 ide0 t" using u by (auto elim: ide_run_NilE)
  moreover have "bdev (bufs bio0 ! 0) = 0" by (simp add: NBUF_def)
  ultimately show ?thesis using run by (auto simp: served_def Let_def drive_def)
qed

text \<open>A read on which the drive reports an error: the handler leaves the old contents in the buffer and
  still marks it valid.\<close>

lemma failed_read_is_valid:
  assumes "idequeue s = Some b" "qnext s b = None" "b < length (bufs s)" "held s = {}" "\<not> bdirty (bufs s ! b)"
    and "status s = [0x41]"
  shows "\<exists>t. ideintr s = Ok () t \<and> bvalid (bufs t ! b) \<and> bdata (bufs t ! b) = bdata (bufs s ! b)"
  using assms
  by (simp add: ideintr_def kdefs wakeup_run set_buf_def getbuf_def idewait_run IDE_BSY_def IDE_DRDY_def
      IDE_DF_def IDE_ERR_def)

end
