(* ===== verification/Chat.thy ===== *)
theory Chat
  imports Cpp
begin

text \<open>
  The chat client (\<^verbatim>\<open>src/c++/spl/chat_client\<close>): encoding the user's commands (\<^verbatim>\<open>Output.cpp\<close>), cutting the
  bytes of the server into frames (\<^verbatim>\<open>connectionHandler.cpp\<close>) and decoding them (\<^verbatim>\<open>input.cpp\<close>). The
  socket is the list of bytes that the server still sends; connecting and the two threads, which
  share only the socket, are not modelled.
\<close>

section \<open>Shorts and bytes\<close>

definition byte_char :: "int \<Rightarrow> char" where
  "byte_char n = char_of (nat (n mod 256))"

definition s16 :: "int \<Rightarrow> int" where
  "s16 n = (n + 2 ^ 15) mod 2 ^ 16 - 2 ^ 15"

definition shortToBytes :: "int \<Rightarrow> string" where
  "shortToBytes n = [byte_char (n div 256), byte_char n]"

definition shortToByte :: "int \<Rightarrow> string" where
  "shortToByte n = [byte_char n]"

definition bytesToShort :: "char \<Rightarrow> char \<Rightarrow> int" where
  "bytesToShort a b = s16 (s16 (of_char a * 256) + of_char b)"

definition byteToShort :: "char \<Rightarrow> int" where
  "byteToShort a = of_char a"

section \<open>Strings\<close>

fun find_char :: "char \<Rightarrow> string \<Rightarrow> nat option" where
  "find_char c [] = None"
| "find_char c (d # s) = (if d = c then Some 0 else map_option Suc (find_char c s))"

text \<open>\<open>s.substr(0, i)\<close> and \<open>s.substr(i + 1)\<close> for \<open>i = s.find(c)\<close>; without a \<open>c\<close> both are all of \<open>s\<close>,
  because \<open>npos + 1\<close> is 0.\<close>

definition upto_char :: "char \<Rightarrow> string \<Rightarrow> string" where
  "upto_char c s = (case find_char c s of Some i \<Rightarrow> take i s | None \<Rightarrow> s)"

definition from_char :: "char \<Rightarrow> string \<Rightarrow> string" where
  "from_char c s = (case find_char c s of Some i \<Rightarrow> drop (i + 1) s | None \<Rightarrow> s)"

definition substr_from :: "string \<Rightarrow> nat \<Rightarrow> ('s, string) kern" where
  "substr_from s p = substr s p (length s)"

abbreviation NUL :: char where
  "NUL \<equiv> CHR 0x00"

text \<open>\<^verbatim>\<open>std::stoi\<close>: white space, a sign and digits, as many as there are.\<close>

definition is_space :: "char \<Rightarrow> bool" where
  "is_space c = (of_char c = (32 :: nat) \<or> (9 \<le> (of_char c :: nat) \<and> (of_char c :: nat) \<le> 13))"

definition is_digit :: "char \<Rightarrow> bool" where
  "is_digit c = (48 \<le> (of_char c :: nat) \<and> (of_char c :: nat) \<le> 57)"

definition dec_value :: "string \<Rightarrow> int" where
  "dec_value ds = foldl (\<lambda>n c. n * 10 + (of_char c - 48)) 0 ds"

definition stoi :: "string \<Rightarrow> ('s, int) kern" where
  "stoi str = (let s = dropWhile is_space str;
     neg = (s \<noteq> [] \<and> hd s = CHR ''-'');
     ds = takeWhile is_digit (if s \<noteq> [] \<and> (hd s = CHR ''-'' \<or> hd s = CHR ''+'') then tl s else s);
     n = (if neg then - dec_value ds else dec_value ds)
     in if ds = [] then panic ''std::invalid_argument''
        else if - (2 ^ 31) \<le> n \<and> n < 2 ^ 31 then ret n else out_of_range)"

section \<open>Encoding the user's commands\<close>

record out_flags =
  flag :: bool
  flag2 :: bool

type_synonym 'a out = "(out_flags, 'a) kern"

definition encode_follow :: "string \<Rightarrow> string out" where
  "encode_follow str =
     bnd (substr_from str 7) (\<lambda>str.
     bnd (str_at str 0) (\<lambda>c. let ans = shortToBytes 4 @ shortToByte (schar c - 48) in
     bnd (substr_from str 2) (\<lambda>str.
     bnd (stoi (upto_char CHR '' '' str)) (\<lambda>n. let num = s16 n in
     ret (ans @ shortToBytes num @
       map (\<lambda>c. if c = CHR '' '' then NUL else c) (from_char CHR '' '' str) @ [NUL])))))"

definition encode_two :: "int \<Rightarrow> string \<Rightarrow> string" where
  "encode_two op str = shortToBytes op @ upto_char CHR '' '' str @ [NUL] @ from_char CHR '' '' str @ [NUL]"

definition encode :: "string \<Rightarrow> string out" where
  "encode str = bnd (str_at str 0) (\<lambda>c.
     if c = CHR ''R'' then bnd (substr_from str 9) (\<lambda>str. ret (encode_two 1 str))
     else if c = CHR ''L'' then bnd (str_at str 3) (\<lambda>d.
       if d = CHR ''I'' then
         thn (modify (\<lambda>s. s\<lparr>flag2 := True\<rparr>)) (bnd (substr_from str 6) (\<lambda>str. ret (encode_two 2 str)))
       else
         thn (modify (\<lambda>s. s\<lparr>flag := True\<rparr>)) (bnd (substr_from str 6) (\<lambda>_. ret (shortToBytes 3))))
     else if c = CHR ''F'' then encode_follow str
     else if c = CHR ''P'' then bnd (str_at str 1) (\<lambda>d.
       if d = CHR ''O'' then bnd (substr_from str 5) (\<lambda>str. ret (shortToBytes 5 @ str @ [NUL]))
       else bnd (substr_from str 3) (\<lambda>str. ret (encode_two 6 str)))
     else if c = CHR ''U'' then bnd (substr_from str 8) (\<lambda>_. ret (shortToBytes 7))
     else if c = CHR ''S'' then bnd (substr_from str 5) (\<lambda>str. ret (shortToBytes 8 @ str @ [NUL]))
     else ret [])"

text \<open>\<^verbatim>\<open>output::run\<close> on the lines that the user types, with what it sends; the socket accepts it. It
  ends when both flags are set.\<close>

fun output_run :: "string list \<Rightarrow> string out" where
  "output_run [] = diverge"
| "output_run (line # lines) = bnd (encode line) (\<lambda>ans. bnd (gets (\<lambda>s. flag s \<and> flag2 s)) (\<lambda>stop.
     if stop then ret ans else bnd (output_run lines) (\<lambda>rest. ret (ans @ rest))))"

section \<open>Frames\<close>

text \<open>\<open>exits\<close> is the \<open>flag\<close> of \<^verbatim>\<open>Input\<close>.\<close>

record conn =
  inbuf :: string
  closed :: bool
  exits :: bool
  sent :: string

definition count_nul :: "string \<Rightarrow> nat" where
  "count_nul s = length (filter (\<lambda>c. c = NUL) s)"

definition close_conn :: "('z conn_scheme, unit) kern" where
  "close_conn = modify (\<lambda>s. s\<lparr>closed := True\<rparr>)"

definition decodeable :: "string \<Rightarrow> ('z conn_scheme, bool) kern" where
  "decodeable str =
     (if length str < 4 then ret False
      else let num = bytesToShort (str ! 0) (str ! 1) in
        if num = 9 then ret (count_nul (drop 3 str) \<ge> 2)
        else if num = 10 then
          let op = bytesToShort (str ! 2) (str ! 3) in
          thn (whenk (op = 3) close_conn)
          (ret (if op = 8 then length str = 10
                else if op = 7 \<or> op = 4 then count_nul (drop 6 str) \<ge> 1
                else True))
        else if num = 11 then ret (length str = 4)
        else ret False)"

text \<open>\<^verbatim>\<open>sendBytes\<close>: \<open>accepts\<close> are the numbers of bytes that the calls of \<^verbatim>\<open>write_some\<close> take, after which
  the socket fails.\<close>

fun sendBytes :: "nat list \<Rightarrow> string \<Rightarrow> ('z conn_scheme, bool) kern" where
  "sendBytes accepts [] = ret True"
| "sendBytes [] (c # cs) = thn close_conn (ret False)"
| "sendBytes (k # accepts) (c # cs) = bnd (gets closed) (\<lambda>cl.
     if cl then thn close_conn (ret False)
     else thn (modify (\<lambda>s. s\<lparr>sent := sent s @ take k (c # cs)\<rparr>)) (sendBytes accepts (drop k (c # cs))))"

text \<open>\<^verbatim>\<open>getBytes\<close> of one byte: the byte, or None for the failure that the exception handler turns into
  \<^verbatim>\<open>false\<close>.\<close>

definition get_byte :: "('z conn_scheme, char option) kern" where
  "get_byte = bnd (gets (\<lambda>s. (closed s, inbuf s))) (\<lambda>(cl, i). case i of
       [] \<Rightarrow> ret None
     | c # i' \<Rightarrow> if cl then ret None else thn (modify (\<lambda>s. s\<lparr>inbuf := i'\<rparr>)) (ret (Some c)))"

text \<open>\<^verbatim>\<open>getFrameAscii\<close>: the result of \<^verbatim>\<open>getBytes\<close> is not looked at, so after a failure the loop appends the
  character that it read last (an uninitialised one, if there was none) and goes on.\<close>

fun frame_loop :: "nat \<Rightarrow> char option \<Rightarrow> string \<Rightarrow> ('z conn_scheme, string) kern" where
  "frame_loop 0 ch frame = diverge"
| "frame_loop (Suc n) ch frame = bnd get_byte (\<lambda>r.
     case (case r of None \<Rightarrow> ch | Some c \<Rightarrow> Some c) of
       None \<Rightarrow> undef
     | Some c \<Rightarrow> bnd (decodeable (frame @ [c])) (\<lambda>d.
         if d then ret (frame @ [c]) else frame_loop n (Some c) (frame @ [c])))"

definition getLine :: "nat \<Rightarrow> ('z conn_scheme, string) kern" where
  "getLine n = frame_loop n None []"

section \<open>Decoding\<close>

type_synonym 'a inp = "(conn, 'a) kern"

definition short_at_front :: "string \<Rightarrow> int inp" where
  "short_at_front ans = bnd (str_at ans 0) (\<lambda>a. bnd (str_at ans 1) (\<lambda>b. ret (bytesToShort a b)))"

definition decode_notification :: "string \<Rightarrow> string inp" where
  "decode_notification ans =
     bnd (str_at ans 0) (\<lambda>c. let kind = (if byteToShort c = 0 then ''PM '' else ''public '') in
     bnd (substr_from ans 1) (\<lambda>ans. let ans = from_char NUL ans in
     ret (''NOTIFICAION '' @ kind @
       (case find_char NUL ans of Some i \<Rightarrow> take (i + 1) ans | None \<Rightarrow> []) @ '' '' @ from_char NUL ans)))"

definition decode_ack :: "string \<Rightarrow> string inp" where
  "decode_ack ans = bnd (short_at_front ans) (\<lambda>op.
     let dec = ''ACK '' @ to_string op @ '' '' in
     thn (whenk (op = 3) (modify (\<lambda>s. s\<lparr>exits := True\<rparr>))) (
     if op = 8 then
       bnd (substr_from ans 2) (\<lambda>ans. bnd (short_at_front ans) (\<lambda>a.
       bnd (substr_from ans 2) (\<lambda>ans. bnd (short_at_front ans) (\<lambda>b.
       bnd (substr_from ans 2) (\<lambda>ans. bnd (short_at_front ans) (\<lambda>c.
       ret (dec @ to_string a @ '' '' @ to_string b @ '' '' @ to_string c)))))))
     else if op = 7 \<or> op = 4 then
       bnd (substr_from ans 2) (\<lambda>ans. bnd (short_at_front ans) (\<lambda>n.
       bnd (substr_from ans 2) (\<lambda>ans.
       ret (map (\<lambda>c. if c = NUL then CHR '' '' else c) (dec @ to_string n @ '' '' @ upto_char NUL ans)))))
     else ret dec))"

definition decode :: "string \<Rightarrow> string inp" where
  "decode ans = bnd (short_at_front ans) (\<lambda>op. bnd (substr_from ans 2) (\<lambda>ans.
     if op = 9 then decode_notification ans
     else if op = 10 then decode_ack ans
     else if op = 11 then bnd (short_at_front ans) (\<lambda>n. ret (''ERROR '' @ to_string n))
     else ret []))"

text \<open>\<^verbatim>\<open>Input::run\<close> for at most \<open>n\<close> frames, with what it prints; \<open>\<^verbatim>\<open>getLine\<close>\<close> never fails.\<close>

fun input_run :: "nat \<Rightarrow> nat \<Rightarrow> string inp" where
  "input_run fuel 0 = ret []"
| "input_run fuel (Suc n) = bnd (getLine fuel) (\<lambda>answer. bnd (decode answer) (\<lambda>shown.
     bnd (gets exits) (\<lambda>stop.
     if stop then thn close_conn (ret (shown @ ''\<newline>Exiting...\<newline>\<newline>''))
     else bnd (input_run fuel n) (\<lambda>rest. ret (shown @ ''\<newline>'' @ rest)))))"

section \<open>The messages of the server\<close>

text \<open>The messages that the client's rules for the end of a frame and for decoding agree on.\<close>

datatype server_msg =
    Notification bool string string
  | Ack int
  | AckNames int int string
  | AckStat int int int
  | ErrorMsg int

fun wire :: "server_msg \<Rightarrow> string" where
  "wire (Notification pm user body) = shortToBytes 9 @ [byte_char (if pm then 0 else 1)] @ user @ [NUL] @ body @ [NUL]"
| "wire (Ack op) = shortToBytes 10 @ shortToBytes op"
| "wire (AckNames op n names) = shortToBytes 10 @ shortToBytes op @ shortToBytes n @ names @ [NUL]"
| "wire (AckStat a b c) = shortToBytes 10 @ shortToBytes 8 @ shortToBytes a @ shortToBytes b @ shortToBytes c"
| "wire (ErrorMsg op) = shortToBytes 11 @ shortToBytes op"

definition is_short :: "int \<Rightarrow> bool" where
  "is_short n = (- (2 ^ 15) \<le> n \<and> n < 2 ^ 15)"

fun ok_msg :: "server_msg \<Rightarrow> bool" where
  "ok_msg (Notification pm user body) = (NUL \<notin> set user \<and> NUL \<notin> set body)"
| "ok_msg (Ack op) = (is_short op \<and> op \<notin> {3, 4, 7, 8})"
| "ok_msg (AckNames op n names) = (op \<in> {4, 7} \<and> is_short n \<and> NUL \<notin> set names)"
| "ok_msg (AckStat a b c) = (is_short a \<and> is_short b \<and> is_short c)"
| "ok_msg (ErrorMsg op) = is_short op"

fun shown :: "server_msg \<Rightarrow> string" where
  "shown (Notification pm user body) = ''NOTIFICAION '' @ (if pm then ''PM '' else ''public '') @ body @ [NUL] @ '' ''"
| "shown (Ack op) = ''ACK '' @ to_string op @ '' ''"
| "shown (AckNames op n names) = ''ACK '' @ to_string op @ '' '' @ to_string n @ '' '' @ names"
| "shown (AckStat a b c) = ''ACK 8 '' @ to_string a @ '' '' @ to_string b @ '' '' @ to_string c"
| "shown (ErrorMsg op) = ''ERROR '' @ to_string op"

lemma s16_add: "s16 (s16 a + b) = s16 (a + b)"
proof -
  have "((a + 2 ^ 15) mod 2 ^ 16 - 2 ^ 15 + b + 2 ^ 15) mod 2 ^ 16 = ((a + 2 ^ 15) mod 2 ^ 16 + b) mod 2 ^ 16"
    by (simp add: algebra_simps)
  also have "\<dots> = (a + 2 ^ 15 + b) mod 2 ^ 16"
    by (rule mod_add_left_eq)
  finally show ?thesis by (simp add: s16_def add.assoc add.commute [of b])
qed

lemma s16_short: "is_short n \<Longrightarrow> s16 n = n"
  by (simp add: s16_def is_short_def)

lemma of_char_byte [simp]: "(of_char (byte_char n) :: int) = n mod 256"
proof -
  have "(of_char (byte_char n) :: nat) = nat (n mod 256)"
    by (simp add: byte_char_def nat_less_iff)
  then have "int (of_char (byte_char n)) = n mod 256" by simp
  then show ?thesis by (simp only: of_nat_of_char)
qed

lemma short_roundtrip [simp]:
  assumes "is_short n"
  shows "bytesToShort (byte_char (n div 256)) (byte_char n) = n"
proof -
  have n: "n div 256 mod 256 * 256 + n mod 256 = n mod 65536"
    using zmod_zmult2_eq [of 256 n 256] by simp
  have "s16 (n mod 65536) = s16 n"
    by (simp add: s16_def mod_add_left_eq)
  then show ?thesis
    using assms by (simp add: bytesToShort_def s16_add n s16_short)
qed

lemma length_shortToBytes [simp]: "length (shortToBytes n) = 2"
  by (simp add: shortToBytes_def)

lemma is_short_small [simp]: "is_short 3" "is_short 4" "is_short 7" "is_short 8" "is_short 9" "is_short 10" "is_short 11"
  by (simp_all add: is_short_def)

section \<open>Cutting frames\<close>

lemma count_nul_none: "NUL \<notin> set s \<Longrightarrow> count_nul s = 0"
  by (auto simp: count_nul_def filter_empty_conv)

lemma count_nul_append [simp]: "count_nul (s @ t) = count_nul s + count_nul t"
  by (simp add: count_nul_def)

lemma count_nul_NUL [simp]: "count_nul (NUL # s) = Suc (count_nul s)" "count_nul [] = 0"
  by (simp_all add: count_nul_def)

lemma count_nul_take: "count_nul (take j s) \<le> count_nul s"
  by (metis append_take_drop_id count_nul_append le_add1)

lemma count_nul_before_last: "j < length (s @ [NUL]) \<Longrightarrow> count_nul (take j (s @ [NUL])) \<le> count_nul s"
  using count_nul_take [of j s] by simp

lemma front_short:
  assumes "is_short a"
  shows "bytesToShort ((shortToBytes a @ r) ! 0) ((shortToBytes a @ r) ! Suc 0) = a"
  using short_roundtrip [OF assms] by (simp add: shortToBytes_def del: short_roundtrip)

lemma front_short2:
  assumes "is_short a"
  shows "bytesToShort ((shortToBytes b @ shortToBytes a @ r) ! 2) ((shortToBytes b @ shortToBytes a @ r) ! 3) = a"
  using short_roundtrip [OF assms] by (simp add: shortToBytes_def del: short_roundtrip)

lemma decodeable_short: "length str < 4 \<Longrightarrow> decodeable str s = Ok False s"
  by (simp add: decodeable_def)

lemma drop_shortToBytes: "drop (Suc (Suc k)) (shortToBytes a @ r) = drop k r"
  by (simp add: shortToBytes_def)

lemma decodeable_9: "2 \<le> length r \<Longrightarrow> decodeable (shortToBytes 9 @ r) s = Ok (count_nul (drop 1 r) \<ge> 2) s"
  using drop_shortToBytes [of 1 9 r]
  by (simp add: decodeable_def Let_def front_short [of 9] eval_nat_numeral del: drop_append)

lemma decodeable_11: "2 \<le> length r \<Longrightarrow> decodeable (shortToBytes 11 @ r) s = Ok (length r = 2) s"
  by (simp add: decodeable_def Let_def front_short [of 11])

lemma decodeable_10:
  assumes "is_short op"
  shows "decodeable (shortToBytes 10 @ shortToBytes op @ r) s =
    Ok (if op = 8 then length r = 6 else if op = 7 \<or> op = 4 then count_nul (drop 2 r) \<ge> 1 else True)
      (if op = 3 then s\<lparr>closed := True\<rparr> else s)"
proof -
  define w where "w = shortToBytes 10 @ shortToBytes op @ r"
  have "bytesToShort (w ! 0) (w ! 1) = 10" "bytesToShort (w ! 2) (w ! 3) = op" "length w = length r + 4"
    "drop 6 w = drop 2 r"
    using front_short [of 10] front_short2 [OF assms] by (simp_all add: w_def shortToBytes_def)
  then have "decodeable w s = Ok (if op = 8 then length r = 6 else if op = 7 \<or> op = 4 then count_nul (drop 2 r) \<ge> 1 else True)
      (if op = 3 then s\<lparr>closed := True\<rparr> else s)"
    by (simp add: decodeable_def Let_def whenk_def thn_def bnd_def close_conn_def)
  then show ?thesis by (simp add: w_def)
qed

lemma take_shortToBytes: "2 \<le> k \<Longrightarrow> take k (shortToBytes a @ r) = shortToBytes a @ take (k - 2) r"
  by (cases k; cases "k - 1") (simp_all add: shortToBytes_def)

lemma frame_prefix:
  assumes "ok_msg m" "k < length (wire m)"
  shows "decodeable (take k (wire m)) s = Ok False s"
proof (cases "k < 4")
  case True
  then show ?thesis by (simp add: decodeable_short)
next
  case False
  show ?thesis
  proof (cases m)
    case (Notification pm user body)
    have "count_nul (take (k - 3) ((user @ [NUL] @ body) @ [NUL])) \<le> 1"
      using assms Notification count_nul_before_last [of "k - 3" "user @ [NUL] @ body"]
      by (simp add: count_nul_none)
    then show ?thesis
      using False assms Notification
        decodeable_9 [of "take (k - 2) (byte_char (if pm then 0 else 1) # user @ [NUL] @ body @ [NUL])" s]
      by (simp add: take_shortToBytes take_Cons' del: take_append)
  next
    case (AckNames op n names)
    have "count_nul (take (k - 6) (names @ [NUL])) = 0"
      using assms AckNames count_nul_before_last [of "k - 6" names] by (simp add: count_nul_none)
    moreover have "drop 2 (take (k - 4) (shortToBytes n @ names @ [NUL])) = take (k - 6) (names @ [NUL])"
      using drop_shortToBytes [of 0 n "names @ [NUL]"] by (simp add: drop_take eval_nat_numeral del: drop_append take_append)
    ultimately show ?thesis
      using False assms AckNames decodeable_10 [of op "take (k - 4) (shortToBytes n @ names @ [NUL])" s]
      by (auto simp: take_shortToBytes simp del: take_append)
  next
    case (AckStat a b c)
    then show ?thesis
      using False assms decodeable_10 [of 8 "take (k - 4) (shortToBytes a @ shortToBytes b @ shortToBytes c)" s]
      by (simp add: take_shortToBytes del: take_append)
  qed (use False assms in simp_all)
qed

lemma frame_whole:
  assumes "ok_msg m"
  shows "decodeable (wire m) s = Ok True s"
proof (cases m)
  case (Notification pm user body)
  then show ?thesis by (simp add: decodeable_9)
next
  case (Ack op)
  then show ?thesis using assms decodeable_10 [of op "[]" s] by simp
next
  case (AckNames op n names)
  then show ?thesis
    using assms decodeable_10 [of op "shortToBytes n @ names @ [NUL]" s] drop_shortToBytes [of 0 n "names @ [NUL]"]
    by (auto simp: eval_nat_numeral simp del: drop_append)
next
  case (AckStat a b c)
  then show ?thesis
    using decodeable_10 [of 8 "shortToBytes a @ shortToBytes b @ shortToBytes c" s] by simp
next
  case (ErrorMsg op)
  then show ?thesis by (simp add: decodeable_11)
qed

lemma logout_frame:
  "k < 4 \<Longrightarrow> decodeable (take k (wire (Ack 3))) s = Ok False s"
  "decodeable (wire (Ack 3)) s = Ok True (s\<lparr>closed := True\<rparr>)"
  using decodeable_10 [of 3 "[]" s] by (simp_all add: decodeable_short)

lemma frame_loop_reads:
  assumes "inbuf s = xs @ rest" "\<not> closed s" "xs \<noteq> []" "length xs \<le> n"
    and "\<And>k u. k < length xs \<Longrightarrow> k > 0 \<Longrightarrow> decodeable (f @ take k xs) (u :: 'a conn_scheme) = Ok False u"
    and "\<And>u :: 'a conn_scheme. decodeable (f @ xs) u = Ok True (g u)"
  shows "frame_loop n ch f s = Ok (f @ xs) (g (s\<lparr>inbuf := rest\<rparr>))"
  using assms
proof (induction xs arbitrary: n ch f s)
  case (Cons c xs)
  obtain m where n: "n = Suc m" using Cons.prems(4) by (cases n) auto
  show ?case
  proof (cases xs)
    case Nil
    then show ?thesis using Cons.prems n by (simp add: get_byte_def bnd_def thn_def)
  next
    case (Cons d ys)
    have "decodeable ((f @ [c]) @ take k xs) u = Ok False u" if "k < length xs" "k > 0" for k and u :: "'a conn_scheme"
      using Cons.prems(5) [of "Suc k" u] that by simp
    moreover have "decodeable (f @ [c]) u = Ok False u" for u :: "'a conn_scheme"
      using Cons.prems(5) [of 1 u] Cons by simp
    ultimately show ?thesis
      using Cons.prems n Cons Cons.IH [of "s\<lparr>inbuf := xs @ rest\<rparr>" m "f @ [c]" "Some c"]
      by (simp add: get_byte_def bnd_def thn_def)
  qed
qed simp

lemma wire_not_Nil: "wire m \<noteq> []"
  by (cases m) (simp_all add: shortToBytes_def)

lemma getLine_frame:
  assumes "ok_msg m" "inbuf s = wire m @ rest" "\<not> closed s" "length (wire m) \<le> n"
  shows "getLine n s = Ok (wire m) (s\<lparr>inbuf := rest\<rparr>)"
proof -
  have "frame_loop n None [] s = Ok ([] @ wire m) ((\<lambda>u. u) (s\<lparr>inbuf := rest\<rparr>))"
    by (rule frame_loop_reads)
      (use assms in \<open>simp_all add: frame_prefix frame_whole wire_not_Nil del: wire.simps\<close>)
  then show ?thesis by (simp add: getLine_def)
qed

lemma getLine_logout:
  assumes "inbuf s = wire (Ack 3) @ rest" "\<not> closed s" "4 \<le> n"
  shows "getLine n s = Ok (wire (Ack 3)) (s\<lparr>inbuf := rest, closed := True\<rparr>)"
proof -
  have len: "length (wire (Ack 3)) = 4" by simp
  have "frame_loop n None [] s = Ok ([] @ wire (Ack 3)) ((\<lambda>u. u\<lparr>closed := True\<rparr>) (s\<lparr>inbuf := rest\<rparr>))"
    by (rule frame_loop_reads)
      (use assms len in \<open>simp_all add: logout_frame wire_not_Nil del: wire.simps\<close>)
  then show ?thesis by (simp add: getLine_def)
qed

section \<open>Decoding what the server sends\<close>

lemma find_char_append: "c \<notin> set xs \<Longrightarrow> find_char c (xs @ c # ys) = Some (length xs)"
  by (induction xs) auto

lemma find_char_none: "c \<notin> set xs \<Longrightarrow> find_char c xs = None"
  by (induction xs) auto

lemma upto_char_append [simp]: "c \<notin> set xs \<Longrightarrow> upto_char c (xs @ c # ys) = xs"
  by (simp add: upto_char_def find_char_append)

lemma from_char_append [simp]: "c \<notin> set xs \<Longrightarrow> from_char c (xs @ c # ys) = ys"
  by (simp add: from_char_def find_char_append)

lemma short_front [simp]: "is_short n \<Longrightarrow> short_at_front (shortToBytes n @ r) s = Ok n s"
  using short_roundtrip [of n]
  by (simp add: short_at_front_def str_at_def shortToBytes_def bnd_def del: short_roundtrip)

lemma substr_front [simp]: "substr_from (shortToBytes n @ r) 2 s = Ok r s"
  by (simp add: substr_from_def substr_def shortToBytes_def)

lemma short_front_end [simp]: "is_short n \<Longrightarrow> short_at_front (shortToBytes n) s = Ok n s"
  using short_front [of n "[]" s] by (simp only: append_Nil2)

lemma digits_are_digits: "c \<in> set (digits n) \<Longrightarrow> is_digit c"
proof (induction n rule: digits.induct)
  case (1 n)
  then show ?case
    by (subst (asm) (2) digits.simps) (auto simp: is_digit_def of_char_of split: if_splits)
qed

lemma to_string_NUL [simp]: "NUL \<notin> set (to_string n)"
  using digits_are_digits by (force simp: to_string_def is_digit_def split: if_splits)

lemma map_NUL: "NUL \<notin> set xs \<Longrightarrow> map (\<lambda>c. if c = NUL then CHR '' '' else c) xs = xs"
  by (induction xs) auto

lemma decode_wire:
  assumes "ok_msg m"
  shows "decode (wire m) s = Ok (shown m) s"
proof (cases m)
  case (Notification pm user body)
  have "byteToShort (byte_char 0) = 0" "byteToShort (byte_char 1) = 1"
    by (simp_all add: byteToShort_def)
  then show ?thesis
    using assms Notification
    by (simp add: decode_def bnd_Ok decode_notification_def str_at_def substr_from_def substr_def Let_def
        find_char_append from_char_append [of NUL body "[]", simplified])
next
  case (AckNames op n names)
  then have "is_short op" "op \<noteq> 3" using assms by auto
  then show ?thesis
    using assms AckNames
    by (auto simp: decode_def decode_ack_def bnd_Ok thn_def whenk_def Let_def map_NUL)
next
  case (AckStat a b c)
  have "to_string 8 = ''8''"
    by (simp add: to_string_def digits.simps char_of_digits)
  then show ?thesis
    using assms AckStat
    by (simp add: decode_def decode_ack_def bnd_Ok thn_def whenk_def Let_def)
qed (use assms in \<open>auto simp: decode_def decode_ack_def bnd_Ok thn_def whenk_def Let_def\<close>)

lemma decode_logout: "decode (wire (Ack 3)) s = Ok ''ACK 3 '' (s\<lparr>exits := True\<rparr>)"
proof -
  have "to_string 3 = ''3''"
    by (simp add: to_string_def digits.simps char_of_digits)
  then show ?thesis
    by (simp add: decode_def decode_ack_def bnd_Ok thn_def whenk_def Let_def)
qed

text \<open>C33: the client shows every message of the server. When the server sends any sequence of
  messages and then acknowledges the logout, the loop of the client cuts the stream of bytes into
  exactly these messages, whatever follows, prints each of them, and stops with the connection
  closed; the user who posted a notification is not shown.\<close>

theorem client_shows_messages:
  assumes "list_all ok_msg ms" "inbuf s = concat (map wire ms) @ wire (Ack 3) @ rest"
    and "\<not> closed s" "\<not> exits s" "4 \<le> fuel" "\<forall>m \<in> set ms. length (wire m) \<le> fuel"
  shows "input_run fuel (Suc (length ms)) s =
    Ok (concat (map (\<lambda>m. shown m @ ''\<newline>'') ms) @ ''ACK 3 \<newline>Exiting...\<newline>\<newline>'')
      (s\<lparr>inbuf := rest, closed := True, exits := True\<rparr>)"
  using assms
proof (induction ms arbitrary: s)
  case Nil
  then show ?case
    by (simp add: bnd_Ok getLine_logout decode_logout thn_def close_conn_def del: wire.simps)
next
  case (Cons m ms)
  have "getLine fuel s = Ok (wire m) (s\<lparr>inbuf := concat (map wire ms) @ wire (Ack 3) @ rest\<rparr>)"
    using Cons.prems by (intro getLine_frame) simp_all
  then show ?case
    using Cons.prems Cons.IH [of "s\<lparr>inbuf := concat (map wire ms) @ wire (Ack 3) @ rest\<rparr>"]
    by (simp add: bnd_Ok decode_wire del: wire.simps)
qed

theorem client_shows_messages_witness:
  "input_run 20 3 \<lparr>inbuf = wire (Notification True ''al'' ''hi'') @ wire (AckStat 1 2 3) @ wire (Ack 3),
     closed = False, exits = False, sent = []\<rparr> =
   Ok (''NOTIFICAION PM hi'' @ [NUL] @ '' \<newline>ACK 8 1 2 3\<newline>ACK 3 \<newline>Exiting...\<newline>\<newline>'')
     \<lparr>inbuf = [], closed = True, exits = True, sent = []\<rparr>"
proof -
  define ms where "ms = [Notification True ''al'' ''hi'', AckStat 1 2 3]"
  have ok: "list_all ok_msg ms" "\<forall>m \<in> set ms. length (wire m) \<le> 20"
    by (simp_all add: ms_def is_short_def)
  have shown: "concat (map (\<lambda>m. shown m @ ''\<newline>'') ms) = ''NOTIFICAION PM hi'' @ [NUL] @ '' \<newline>ACK 8 1 2 3\<newline>''"
    by (simp add: ms_def to_string_def digits.simps char_of_digits)
  have "input_run 20 (Suc (length ms)) \<lparr>inbuf = concat (map wire ms) @ wire (Ack 3) @ [], closed = False, exits = False, sent = []\<rparr> =
      Ok (concat (map (\<lambda>m. shown m @ ''\<newline>'') ms) @ ''ACK 3 \<newline>Exiting...\<newline>\<newline>'')
        \<lparr>inbuf = [], closed = True, exits = True, sent = []\<rparr>"
    using client_shows_messages [OF ok(1) _ _ _ _ ok(2), of
        "\<lparr>inbuf = concat (map wire ms) @ wire (Ack 3) @ [], closed = False, exits = False, sent = []\<rparr>" "[]"]
    by simp
  moreover have "Suc (length ms) = 3" by (simp add: ms_def)
  moreover have "concat (map wire ms) @ wire (Ack 3) @ [] =
      wire (Notification True ''al'' ''hi'') @ wire (AckStat 1 2 3) @ wire (Ack 3)"
    by (simp add: ms_def del: wire.simps)
  ultimately show ?thesis
    by (simp only: shown append.assoc append_Cons append_Nil)
qed

text \<open>After the connection is lost the loop never ends: it appends the last character again and again.\<close>

lemma spin_step:
  assumes "inbuf s = []" "decodeable (g @ [c]) s = Ok False s"
  shows "frame_loop (Suc n) (Some c) g s = frame_loop n (Some c) (g @ [c]) s"
  using assms by (simp add: get_byte_def bnd_def)

lemma lost_connection_spins:
  fixes s :: conn
  assumes "inbuf s = []" "\<And>k. decodeable (f @ replicate (Suc k) c) s = Ok False s"
  shows "frame_loop n (Some c) (f @ replicate j c) s = Diverge"
proof (induction n arbitrary: j)
  case (Suc n)
  have "(f @ replicate j c) @ [c] = f @ replicate (Suc j) c"
    by (simp add: replicate_append_same)
  then show ?case
    using spin_step [OF assms(1), of "f @ replicate j c" c n] assms(2) [of j] Suc.IH [of "Suc j"] by metis
qed (simp add: diverge_def)

section \<open>Encoding what the user types\<close>

datatype user_cmd =
    Register string string | Login string string | Logout | Follow bool "string list"
  | Post string | PrivateMsg string string | Userlist | Stat string

definition no_space :: "string \<Rightarrow> bool" where
  "no_space s = (CHR '' '' \<notin> set s)"

definition spaced :: "string list \<Rightarrow> string" where
  "spaced us = concat (map (\<lambda>u. CHR '' '' # u) us)"

fun typed :: "user_cmd \<Rightarrow> string" where
  "typed (Register u p) = ''REGISTER '' @ u @ '' '' @ p"
| "typed (Login u p) = ''LOGIN '' @ u @ '' '' @ p"
| "typed Logout = ''LOGOUT''"
| "typed (Follow unfollow us) =
     ''FOLLOW '' @ (if unfollow then ''1'' else ''0'') @ '' '' @ to_string (int (length us)) @ spaced us"
| "typed (Post s) = ''POST '' @ s"
| "typed (PrivateMsg u s) = ''PM '' @ u @ '' '' @ s"
| "typed Userlist = ''USERLIST''"
| "typed (Stat u) = ''STAT '' @ u"

fun ok_cmd :: "user_cmd \<Rightarrow> bool" where
  "ok_cmd (Register u p) = no_space u"
| "ok_cmd (Login u p) = no_space u"
| "ok_cmd (Follow unfollow us) = (us \<noteq> [] \<and> length us < 2 ^ 15 \<and> list_all no_space us)"
| "ok_cmd (PrivateMsg u s) = no_space u"
| "ok_cmd _ = True"

text \<open>The messages of the protocol.\<close>

fun message :: "user_cmd \<Rightarrow> string" where
  "message (Register u p) = shortToBytes 1 @ u @ [NUL] @ p @ [NUL]"
| "message (Login u p) = shortToBytes 2 @ u @ [NUL] @ p @ [NUL]"
| "message Logout = shortToBytes 3"
| "message (Follow unfollow us) = shortToBytes 4 @ [byte_char (if unfollow then 1 else 0)] @
     shortToBytes (int (length us)) @ concat (map (\<lambda>u. u @ [NUL]) us)"
| "message (Post s) = shortToBytes 5 @ s @ [NUL]"
| "message (PrivateMsg u s) = shortToBytes 6 @ u @ [NUL] @ s @ [NUL]"
| "message Userlist = shortToBytes 7"
| "message (Stat u) = shortToBytes 8 @ u @ [NUL]"

fun flags_after :: "user_cmd \<Rightarrow> out_flags \<Rightarrow> out_flags" where
  "flags_after (Login u p) s = s\<lparr>flag2 := True\<rparr>"
| "flags_after Logout s = s\<lparr>flag := True\<rparr>"
| "flags_after _ s = s"

lemma encode_two_words: "no_space u \<Longrightarrow> encode_two op (u @ CHR '' '' # p) = shortToBytes op @ u @ [NUL] @ p @ [NUL]"
  by (simp add: encode_two_def no_space_def)

lemma dec_value_append: "dec_value (xs @ [c]) = dec_value xs * 10 + (of_char c - 48)"
  by (simp add: dec_value_def)

lemma of_char_digit: "d < 10 \<Longrightarrow> (of_char (char_of (48 + d)) :: int) = 48 + int d" for d :: nat
proof -
  assume "d < 10"
  then have "(of_char (char_of (48 + d)) :: nat) = 48 + d" by (simp add: of_char_of)
  then have "int (of_char (char_of (48 + d))) = 48 + int d" by simp
  then show ?thesis by (simp only: of_nat_of_char)
qed

lemma dec_value_digits: "dec_value (digits n) = int n"
proof (induction n rule: digits.induct)
  case (1 n)
  show ?case
  proof (cases "n < 10")
    case True
    then show ?thesis by (subst digits.simps) (simp add: dec_value_def of_char_digit)
  next
    case False
    have "int (n div 10) * 10 + int (n mod 10) = int n" by presburger
    then show ?thesis
      using 1 False by (subst digits.simps) (simp add: dec_value_append of_char_digit)
  qed
qed

lemma digits_not_Nil: "digits n \<noteq> []"
  by (subst digits.simps) simp

lemma stoi_number: "n < 2 ^ 31 \<Longrightarrow> stoi (to_string (int n)) s = Ok (int n) s"
proof -
  assume n: "n < 2 ^ 31"
  define ds where "ds = digits n"
  have ds: "ds \<noteq> []" "\<And>c. c \<in> set ds \<Longrightarrow> is_digit c" "dec_value ds = int n"
    using digits_are_digits digits_not_Nil dec_value_digits by (auto simp: ds_def)
  then have hd: "is_digit (hd ds)" by simp
  then have "\<not> is_space (hd ds)" "hd ds \<noteq> CHR ''-''" "hd ds \<noteq> CHR ''+''"
    by (auto simp: is_digit_def is_space_def)
  moreover from this have "dropWhile is_space ds = ds"
    using ds(1) by (cases ds) auto
  moreover have tw: "takeWhile is_digit ds = ds"
    using ds(2) by (simp add: takeWhile_eq_all_conv)
  ultimately have "stoi ds s = Ok (int n) s"
    using ds n by (simp add: stoi_def Let_def tw)
  then show ?thesis by (simp add: to_string_def ds_def)
qed

lemma digits_no_space: "CHR '' '' \<notin> set (to_string (int n))"
  using digits_are_digits by (force simp: to_string_def is_digit_def)

lemma spaced_Cons: "spaced (u # us) = CHR '' '' # u @ spaced us"
  by (simp add: spaced_def)

lemma blank_names: "list_all no_space us \<Longrightarrow> no_space u \<Longrightarrow>
  map (\<lambda>c. if c = CHR '' '' then NUL else c) (u @ spaced us) @ [NUL] = concat (map (\<lambda>u. u @ [NUL]) (u # us))"
proof (induction us arbitrary: u)
  case Nil
  then show ?case by (auto simp: spaced_def no_space_def intro!: map_idI)
next
  case (Cons v us)
  have "map (\<lambda>c. if c = CHR '' '' then NUL else c) u = u"
    using Cons.prems by (auto simp: no_space_def intro!: map_idI)
  then show ?case using Cons by (simp add: spaced_Cons)
qed

text \<open>C34: the client sends the message of the protocol for every command. Each command that is
  typed as the program expects it, with names without spaces, is encoded as its message: the number
  of the operation, and each argument with its NUL, or the flag and the number of the names for
  \<open>FOLLOW\<close>; login and logout set the two flags that end the loop.\<close>

theorem client_encodes_commands:
  assumes "ok_cmd c"
  shows "encode (typed c) s = Ok (message c) (flags_after c s)"
proof (cases c)
  case (Follow unfollow us)
  then obtain u vs where us: "us = u # vs" using assms by (cases us) auto
  have "no_space u" "list_all no_space vs" and n: "length us < 2 ^ 31" "is_short (int (length us))"
    using assms Follow us by (auto simp: is_short_def)
  then have names: "map (\<lambda>c. if c = CHR '' '' then NUL else c) (u @ spaced vs) @ [NUL] = concat (map (\<lambda>u. u @ [NUL]) us)"
    using blank_names us by simp
  have num: "upto_char CHR '' '' (to_string (int (length us)) @ spaced us) = to_string (int (length us))"
    "from_char CHR '' '' (to_string (int (length us)) @ spaced us) = u @ spaced vs"
    using digits_no_space [of "length us"] by (simp_all add: us spaced_Cons)
  have fl: "schar CHR ''1'' = 49" "schar CHR ''0'' = 48"
    by (simp_all add: schar_def)
  show ?thesis
    by (simp add: fl Follow encode_def str_at_def encode_follow_def substr_from_def substr_def bnd_Ok num
        stoi_number [OF n(1)] s16_short [OF n(2)] names Let_def shortToByte_def flip: names)
qed (use assms in \<open>simp_all add: encode_def str_at_def substr_from_def substr_def encode_two_words bnd_Ok\<close>)

theorem client_encodes_commands_witness:
  "encode ''FOLLOW 1 2 ann bob'' \<lparr>flag = False, flag2 = False\<rparr> =
   Ok (shortToBytes 4 @ [byte_char 1] @ shortToBytes 2 @ ''ann'' @ [NUL] @ ''bob'' @ [NUL]) \<lparr>flag = False, flag2 = False\<rparr>"
  using client_encodes_commands [of "Follow True [''ann'', ''bob'']" "\<lparr>flag = False, flag2 = False\<rparr>"]
  by (simp add: no_space_def to_string_def digits.simps char_of_digits spaced_def)

text \<open>A message that the socket takes in any pieces arrives whole.\<close>

lemma sendBytes_whole:
  "length bs \<le> sum_list accepts \<Longrightarrow> \<not> closed s \<Longrightarrow> sendBytes accepts bs s = Ok True (s\<lparr>sent := sent s @ bs\<rparr>)"
proof (induction accepts bs arbitrary: s rule: sendBytes.induct)
  case (3 k accepts c cs)
  have "take k (c # cs) @ drop k (c # cs) = c # cs" by (rule append_take_drop_id)
  moreover have "length (drop k (c # cs)) \<le> sum_list accepts" using 3(2) by simp
  ultimately show ?case using 3(1) [of False] 3(3) by simp
qed simp_all

end
