(* ===== verification/Devices.thy ===== *)
theory Devices
  imports Console
begin

text \<open>
  Segment and gate descriptors (\<^verbatim>\<open>mmu.h\<close>, \<^verbatim>\<open>seginit\<close> of \<^verbatim>\<open>vm.c\<close>, \<^verbatim>\<open>tvinit\<close> of \<^verbatim>\<open>trap.c\<close>) with their bit
  fields at their widths, and the keyboard (\<^verbatim>\<open>kbd.h\<close>, \<^verbatim>\<open>kbd.c\<close>), whose controller is the list of scan
  codes that it still delivers.
\<close>

section \<open>Segments\<close>

record segdesc =
  lim_15_0 :: "16 word"
  base_15_0 :: "16 word"
  base_23_16 :: "8 word"
  seg_type :: "4 word"
  seg_s :: "1 word"
  seg_dpl :: "2 word"
  seg_p :: "1 word"
  lim_19_16 :: "4 word"
  seg_avl :: "1 word"
  seg_rsv1 :: "1 word"
  seg_db :: "1 word"
  seg_g :: "1 word"
  base_31_24 :: "8 word"

definition SEG :: "4 word \<Rightarrow> u32 \<Rightarrow> u32 \<Rightarrow> 2 word \<Rightarrow> segdesc" where
  "SEG t b lim d = \<lparr>lim_15_0 = ucast (drop_bit 12 lim AND 0xffff), base_15_0 = ucast (b AND 0xffff),
     base_23_16 = ucast (drop_bit 16 b AND 0xff), seg_type = t, seg_s = 1, seg_dpl = d, seg_p = 1,
     lim_19_16 = ucast (drop_bit 28 lim), seg_avl = 0, seg_rsv1 = 0, seg_db = 1, seg_g = 1,
     base_31_24 = ucast (drop_bit 24 b)\<rparr>"

definition SEG_KCODE :: nat where "SEG_KCODE = 1"
definition SEG_KDATA :: nat where "SEG_KDATA = 2"
definition SEG_UCODE :: nat where "SEG_UCODE = 3"
definition SEG_UDATA :: nat where "SEG_UDATA = 4"
definition STA_X :: "4 word" where "STA_X = 0x8"
definition STA_W :: "4 word" where "STA_W = 0x2"
definition STA_R :: "4 word" where "STA_R = 0x2"
definition DPL_USER :: "2 word" where "DPL_USER = 3"

definition seginit :: "(nat \<Rightarrow> segdesc) \<Rightarrow> nat \<Rightarrow> segdesc" where
  "seginit gdt = gdt(SEG_KCODE := SEG (STA_X OR STA_R) 0 0xffffffff 0,
     SEG_KDATA := SEG STA_W 0 0xffffffff 0,
     SEG_UCODE := SEG (STA_X OR STA_R) 0 0xffffffff DPL_USER,
     SEG_UDATA := SEG STA_W 0 0xffffffff DPL_USER)"

text \<open>What the processor reads from a descriptor: the base, and with the granularity bit the limit in
  pages.\<close>

definition seg_base :: "segdesc \<Rightarrow> u32" where
  "seg_base d = ucast (base_15_0 d) OR push_bit 16 (ucast (base_23_16 d)) OR push_bit 24 (ucast (base_31_24 d))"

definition seg_limit :: "segdesc \<Rightarrow> u32" where
  "seg_limit d = (let l = ucast (lim_15_0 d) OR push_bit 16 (ucast (lim_19_16 d))
     in if seg_g d = 1 then push_bit 12 l OR 0xfff else l)"

lemma flat_segments:
  assumes "k \<in> {SEG_KCODE, SEG_KDATA, SEG_UCODE, SEG_UDATA}"
  shows "seg_base (seginit gdt k) = 0 \<and> seg_limit (seginit gdt k) = 0xffffffff \<and>
    (seg_dpl (seginit gdt k) = 3 \<longleftrightarrow> k \<in> {SEG_UCODE, SEG_UDATA}) \<and> seg_p (seginit gdt k) = 1"
  using assms
  by (auto simp: seginit_def SEG_def seg_base_def seg_limit_def Let_def DPL_USER_def SEG_KCODE_def
      SEG_KDATA_def SEG_UCODE_def SEG_UDATA_def)

section \<open>Gates\<close>

record gatedesc =
  off_15_0 :: "16 word"
  gate_cs :: "16 word"
  gate_args :: "5 word"
  gate_rsv1 :: "3 word"
  gate_type :: "4 word"
  gate_s :: "1 word"
  gate_dpl :: "2 word"
  gate_p :: "1 word"
  off_31_16 :: "16 word"

definition STS_IG32 :: "4 word" where "STS_IG32 = 0xE"
definition STS_TG32 :: "4 word" where "STS_TG32 = 0xF"
definition T_SYSCALL :: nat where "T_SYSCALL = 64"

definition SETGATE :: "bool \<Rightarrow> u16 \<Rightarrow> u32 \<Rightarrow> 2 word \<Rightarrow> gatedesc" where
  "SETGATE istrap sel off d = \<lparr>off_15_0 = ucast (off AND 0xffff), gate_cs = sel, gate_args = 0,
     gate_rsv1 = 0, gate_type = if istrap then STS_TG32 else STS_IG32, gate_s = 0, gate_dpl = d,
     gate_p = 1, off_31_16 = ucast (drop_bit 16 off)\<rparr>"

definition gate_off :: "gatedesc \<Rightarrow> u32" where
  "gate_off g = ucast (off_15_0 g) OR push_bit 16 (ucast (off_31_16 g))"

text \<open>The table that \<open>tvinit\<close> fills, from the entry points in \<open>vectors\<close>.\<close>

definition tvinit :: "(nat \<Rightarrow> u32) \<Rightarrow> gatedesc list" where
  "tvinit vectors = (map (\<lambda>i. SETGATE False (of_nat SEG_KCODE * 8) (vectors i) 0) [0..<256])
     [T_SYSCALL := SETGATE True (of_nat SEG_KCODE * 8) (vectors T_SYSCALL) DPL_USER]"

lemma gate_off_SETGATE: "gate_off (SETGATE t sel off d) = off"
proof -
  have low: "off AND 0xffff = take_bit 16 off"
    by (simp add: take_bit_eq_mask mask_numeral)
  have "gate_off (SETGATE t sel off d) =
      ucast (ucast (take_bit 16 off) :: 16 word) OR push_bit 16 (ucast (ucast (drop_bit 16 off) :: 16 word))"
    by (simp only: gate_off_def SETGATE_def low gatedesc.simps)
  also have "\<dots> = off"
  proof (rule bit_word_eqI)
    fix n
    assume "n < LENGTH(32)"
    then show "bit (ucast (ucast (take_bit 16 off) :: 16 word) OR
        push_bit 16 (ucast (ucast (drop_bit 16 off) :: 16 word)) :: u32) n = bit off n"
      by (auto simp: bit_simps)
  qed
  finally show ?thesis .
qed

text \<open>C8: user code can enter the kernel only by the system call. In the table that \<open>tvinit\<close> fills, all
  256 gates are present and lead to their entry point in the kernel's code segment; the gate of
  \<open>T_SYSCALL\<close> is the only one whose privilege level lets user code call it, and the only trap
  gate, which leaves interrupts on.\<close>

theorem only_syscall_from_user:
  "length (tvinit vectors) = 256 \<and> (\<forall>i. i < 256 \<longrightarrow> (let g = tvinit vectors ! i in
     gate_off g = vectors i \<and> gate_cs g = of_nat SEG_KCODE * 8 \<and> gate_p g = 1 \<and>
     (gate_dpl g = 3 \<longleftrightarrow> i = T_SYSCALL) \<and> (gate_type g = STS_TG32 \<longleftrightarrow> i = T_SYSCALL)))"
proof (intro conjI allI impI)
  show "length (tvinit vectors) = 256" by (simp add: tvinit_def)
  fix i :: nat
  assume i: "i < 256"
  have nth: "tvinit vectors ! i = (if i = T_SYSCALL then SETGATE True (of_nat SEG_KCODE * 8) (vectors i) DPL_USER
      else SETGATE False (of_nat SEG_KCODE * 8) (vectors i) 0)"
    using i by (simp add: tvinit_def nth_list_update)
  have fields: "gate_cs (SETGATE t c v d) = c" "gate_p (SETGATE t c v d) = 1" "gate_dpl (SETGATE t c v d) = d"
    "gate_type (SETGATE t c v d) = (if t then STS_TG32 else STS_IG32)" for t c v d
    by (simp_all add: SETGATE_def)
  have "STS_TG32 \<noteq> STS_IG32" "DPL_USER = 3" "(0 :: 2 word) \<noteq> 3"
    by (simp_all add: STS_TG32_def STS_IG32_def DPL_USER_def)
  then show "let g = tvinit vectors ! i in
     gate_off g = vectors i \<and> gate_cs g = of_nat SEG_KCODE * 8 \<and> gate_p g = 1 \<and>
     (gate_dpl g = 3 \<longleftrightarrow> i = T_SYSCALL) \<and> (gate_type g = STS_TG32 \<longleftrightarrow> i = T_SYSCALL)"
    by (simp add: nth gate_off_SETGATE fields Let_def)
qed

theorem only_syscall_from_user_witness:
  "gate_dpl (tvinit (\<lambda>i. of_nat i) ! 64) = 3 \<and> gate_dpl (tvinit (\<lambda>i. of_nat i) ! 14) \<noteq> 3"
  using only_syscall_from_user [of "\<lambda>i. of_nat i"]
  by (auto simp: Let_def T_SYSCALL_def dest: spec [of _ 64] spec [of _ 14])

section \<open>The serial port\<close>

text \<open>\<open>st\<close> is what the line status register reads in \<^verbatim>\<open>uartinit\<close>, \<open>rx\<close> the bytes that the port has
  received when it interrupts.\<close>

definition uartinit :: "byte \<Rightarrow> ('z kcons_scheme, unit) kern" where
  "uartinit st = (if st = 0xFF then ret ()
     else thn (modify (\<lambda>s. s\<lparr>uart := True\<rparr>)) (foreach (str ''xv6...\<newline>'') (\<lambda>c. uartputc (uint c))))"

definition uartgetc :: "byte list \<Rightarrow> ('z kcons_scheme, int \<times> byte list) kern" where
  "uartgetc rx = bnd (gets uart) (\<lambda>u. case rx of
       [] \<Rightarrow> ret (- 1, [])
     | c # rx' \<Rightarrow> ret (if u then (uint c, rx') else (- 1, rx)))"

definition uartintr :: "byte list \<Rightarrow> ('z kcons_scheme, unit) kern" where
  "uartintr rx = bnd (gets uart) (\<lambda>u. consoleintr (if u then map uint rx else []))"

section \<open>The first run of a process\<close>

text \<open>\<open>first\<close> is the static variable of \<^verbatim>\<open>forkret\<close>, given and returned.\<close>

definition forkret :: "bool \<Rightarrow> ('z kinode_scheme, bool) kern" where
  "forkret first = thn (release LPtable)
     (if first then thn (iinit ROOTDEV) (thn (initlog ROOTDEV) (ret False)) else ret first)"

section \<open>The keyboard\<close>

definition KEY_NO :: byte where "KEY_NO = 0"
definition SHIFT :: byte where "SHIFT = 0x01"
definition CTL :: byte where "CTL = 0x02"
definition ALT :: byte where "ALT = 0x04"
definition CAPSLOCK :: byte where "CAPSLOCK = 0x08"
definition NUMLOCK :: byte where "NUMLOCK = 0x10"
definition SCROLLLOCK :: byte where "SCROLLLOCK = 0x20"
definition E0ESC :: byte where "E0ESC = 0x40"

text \<open>A table of 256 bytes: its first entries, as characters, and the designated ones.\<close>

definition table :: "string \<Rightarrow> (nat \<times> byte) list \<Rightarrow> nat \<Rightarrow> byte" where
  "table bs ds i = (case map_of ds i of Some b \<Rightarrow> b | None \<Rightarrow> if i < length bs then of_char (bs ! i) else 0)"

abbreviation NO :: char where
  "NO \<equiv> CHR 0x00"

definition shiftcode :: "nat \<Rightarrow> byte" where
  "shiftcode = table [] [(0x1D, CTL), (0x2A, SHIFT), (0x36, SHIFT), (0x38, ALT), (0x9D, CTL), (0xB8, ALT)]"

definition togglecode :: "nat \<Rightarrow> byte" where
  "togglecode = table [] [(0x3A, CAPSLOCK), (0x45, NUMLOCK), (0x46, SCROLLLOCK)]"

definition keypad :: "(nat \<times> byte) list" where
  "keypad = [(0xC8, 0xE2), (0xD0, 0xE3), (0xC9, 0xE6), (0xD1, 0xE7), (0xCB, 0xE4), (0xCD, 0xE5),
     (0x97, 0xE0), (0xCF, 0xE1), (0xD2, 0xE8), (0xD3, 0xE9)]"

definition normalmap :: "nat \<Rightarrow> byte" where
  "normalmap = table ([NO, CHR 0x1B] @ ''1234567890-='' @ [CHR 0x08, CHR 0x09] @ ''qwertyuiop[]'' @
     [CHR 0x0A, NO] @ ''asdfghjkl;'' @ [CHR 0x27, CHR 0x60, NO, CHR 0x5C] @ ''zxcvbnm,./'' @ [NO] @ ''*'' @
     [NO] @ '' '' @ [NO, NO, NO, NO, NO, NO, NO, NO, NO, NO, NO, NO, NO] @ ''789-456+1230.'' @ [NO, NO, NO, NO])
     ([(0x9C, 10), (0xB5, 0x2F)] @ keypad)"

definition shiftmap :: "nat \<Rightarrow> byte" where
  "shiftmap = table ([NO, CHR 0x1B] @ ''!@#$%^&*()_+'' @ [CHR 0x08, CHR 0x09] @ ''QWERTYUIOP{}'' @
     [CHR 0x0A, NO] @ ''ASDFGHJKL:'' @ [CHR 0x22, CHR 0x7E, NO, CHR 0x7C] @ ''ZXCVBNM<>?'' @ [NO] @ ''*'' @
     [NO] @ '' '' @ [NO, NO, NO, NO, NO, NO, NO, NO, NO, NO, NO, NO, NO] @ ''789-456+1230.'' @ [NO, NO, NO, NO])
     ([(0x9C, 10), (0xB5, 0x2F)] @ keypad)"

definition C_key :: "string \<Rightarrow> string" where
  "C_key cs = map (\<lambda>x. char_of (nat ((of_char x - 0x40) mod 256))) cs"

definition ctlmap :: "nat \<Rightarrow> byte" where
  "ctlmap = table ([NO, NO, NO, NO, NO, NO, NO, NO, NO, NO, NO, NO, NO, NO, NO, NO] @ C_key ''QWERTYUIOP'' @
     [NO, NO, CHR 0x0D, NO] @ C_key ''ASDFGHJKL'' @ [NO, NO, NO, NO] @ C_key ([CHR 0x5C] @ ''ZXCVBNM'') @
     [NO, NO] @ C_key ''/'' @ [NO, NO])
     ([(0x9C, 13), (0xB5, 0x2F - 0x40)] @ keypad)"

definition charcode :: "byte \<Rightarrow> nat \<Rightarrow> byte" where
  "charcode n = (if n = 0 then normalmap else if n = 1 then shiftmap else ctlmap)"

text \<open>\<open>shift\<close> is the static variable of \<^verbatim>\<open>kbdgetc\<close>; its value stays below 256.\<close>

record kbd =
  shift :: byte
  scancodes :: "byte list"

definition upper_lower :: "byte \<Rightarrow> byte" where
  "upper_lower c = (if 0x61 \<le> c \<and> c \<le> 0x7A then c - 0x20 else if 0x41 \<le> c \<and> c \<le> 0x5A then c + 0x20 else c)"

text \<open>One scan code: the new value of \<open>shift\<close> and the character.\<close>

definition kbd_code :: "byte \<Rightarrow> byte \<Rightarrow> byte \<times> byte" where
  "kbd_code sh d =
     (if d = 0xE0 then (sh OR E0ESC, 0)
      else if d AND 0x80 \<noteq> 0 then
        let d = (if sh AND E0ESC \<noteq> 0 then d else d AND 0x7F)
        in (sh AND NOT (shiftcode (unat d) OR E0ESC), 0)
      else
        let (d, sh) = (if sh AND E0ESC \<noteq> 0 then (d OR 0x80, sh AND NOT E0ESC) else (d, sh));
            sh = sh OR shiftcode (unat d);
            sh = sh XOR togglecode (unat d);
            c = charcode (sh AND (CTL OR SHIFT)) (unat d)
        in (sh, if sh AND CAPSLOCK \<noteq> 0 then upper_lower c else c))"

definition kbdgetc :: "(kbd, int) kern" where
  "kbdgetc = bnd (gets (\<lambda>s. (shift s, scancodes s))) (\<lambda>(sh, cs). case cs of
       [] \<Rightarrow> ret (- 1)
     | d # cs' \<Rightarrow> let (sh', c) = kbd_code sh d in
         thn (modify (\<lambda>s. s\<lparr>shift := sh', scancodes := cs'\<rparr>)) (ret (uint c)))"

text \<open>The characters that \<^verbatim>\<open>kbdgetc\<close> gives \<^verbatim>\<open>consoleintr\<close> until it has no more.\<close>

fun kbd_chars :: "nat \<Rightarrow> (kbd, int list) kern" where
  "kbd_chars 0 = diverge"
| "kbd_chars (Suc n) = bnd kbdgetc (\<lambda>c. if c < 0 then ret [] else bnd (kbd_chars n) (\<lambda>cs. ret (c # cs)))"

text \<open>\<^verbatim>\<open>kbdintr\<close> on the kernel's state and the keyboard's.\<close>

definition kbdintr :: "kbd \<Rightarrow> ('z kcons_scheme, unit) kern" where
  "kbdintr k = (case kbd_chars (Suc (length (scancodes k))) k of Ok cs _ \<Rightarrow> consoleintr cs | _ \<Rightarrow> diverge)"

fun codes_chars :: "byte \<Rightarrow> byte list \<Rightarrow> byte list \<times> byte" where
  "codes_chars sh [] = ([], sh)"
| "codes_chars sh (d # ds) = (let (sh', c) = kbd_code sh d; (cs, sh'') = codes_chars sh' ds in (c # cs, sh''))"

text \<open>The scan codes of typing a character: the key that has it, pressed and released, with the left
  shift key around it where the character is in the shifted table.\<close>

definition key_with :: "(nat \<Rightarrow> byte) \<Rightarrow> byte \<Rightarrow> nat option" where
  "key_with t c = find (\<lambda>i. t i = c) [1..<0x3A]"

definition typed_key :: "byte \<Rightarrow> byte list" where
  "typed_key c = (case key_with normalmap c of
       Some i \<Rightarrow> [of_nat i, of_nat i OR 0x80]
     | None \<Rightarrow> (case key_with shiftmap c of
         Some i \<Rightarrow> [0x2A, of_nat i, of_nat i OR 0x80, 0xAA]
       | None \<Rightarrow> []))"

definition printable :: "byte \<Rightarrow> bool" where
  "printable c = (c = 10 \<or> (0x20 \<le> c \<and> c < 0x7F))"

definition plain_key :: "nat \<Rightarrow> bool" where
  "plain_key i = (1 \<le> i \<and> i < 0x3A \<and> i \<notin> {0x1D, 0x2A, 0x36, 0x38})"

lemma no_modifier: "plain_key i \<Longrightarrow> shiftcode i = 0 \<and> togglecode i = 0"
  by (auto simp: plain_key_def shiftcode_def togglecode_def table_def)

lemma modifier_codes:
  "shiftcode 0x2A = SHIFT" "togglecode 0x2A = 0"
  by (simp_all add: shiftcode_def togglecode_def table_def)

lemma make_code_bits:
  assumes "i < 0x3A"
  shows "(of_nat i :: byte) \<noteq> 0xE0" "(of_nat i :: byte) AND 0x80 = 0" "unat (of_nat i :: byte) = i"
    "(of_nat i OR 0x80 :: byte) \<noteq> 0xE0" "(of_nat i OR 0x80 :: byte) AND 0x80 \<noteq> 0"
    "(of_nat i OR 0x80 :: byte) AND 0x7F = of_nat i"
proof -
  show u: "unat (of_nat i :: byte) = i"
    using assms by (simp add: unat_of_nat)
  have "i \<in> set [0..<0x3A]" using assms by simp
  then show "(of_nat i :: byte) \<noteq> 0xE0" "(of_nat i :: byte) AND 0x80 = 0"
    "(of_nat i OR 0x80 :: byte) \<noteq> 0xE0" "(of_nat i OR 0x80 :: byte) AND 0x80 \<noteq> 0"
    "(of_nat i OR 0x80 :: byte) AND 0x7F = of_nat i"
    by (auto simp: upt_rec)
qed

lemma press:
  assumes "plain_key i"
  shows "kbd_code 0 (of_nat i) = (0, normalmap i)" "kbd_code SHIFT (of_nat i) = (SHIFT, shiftmap i)"
  using assms make_code_bits [of i] no_modifier [OF assms]
  by (simp_all add: kbd_code_def plain_key_def charcode_def SHIFT_def CTL_def CAPSLOCK_def E0ESC_def)

lemma release:
  assumes "plain_key i"
  shows "kbd_code 0 (of_nat i OR 0x80) = (0, 0)" "kbd_code SHIFT (of_nat i OR 0x80) = (SHIFT, 0)"
  using assms make_code_bits [of i] no_modifier [OF assms]
  by (simp_all add: kbd_code_def plain_key_def SHIFT_def E0ESC_def)

lemma shift_key: "kbd_code 0 0x2A = (SHIFT, 0)" "kbd_code SHIFT 0xAA = (0, 0)"
  by (simp_all add: kbd_code_def modifier_codes SHIFT_def CTL_def E0ESC_def CAPSLOCK_def charcode_def
      shiftmap_def table_def keypad_def)

lemma no_char_on_modifiers:
  assumes "i \<in> {0x1D, 0x2A, 0x36, 0x38}"
  shows "normalmap i = 0 \<and> shiftmap i = 0"
  using assms by (auto simp: normalmap_def shiftmap_def table_def keypad_def)

lemma key_with_plain: "key_with t c = Some i \<Longrightarrow> c \<noteq> 0 \<Longrightarrow> t \<in> {normalmap, shiftmap} \<Longrightarrow> t i = c \<and> plain_key i"
  unfolding key_with_def find_Some_iff plain_key_def using no_char_on_modifiers [of i]
  by (auto simp: nth_upt)

text \<open>Every printable character is in one of the two tables.\<close>

definition normal_keys :: string where
  "normal_keys = ''1234567890-='' @ [CHR 0x08, CHR 0x09] @ ''qwertyuiop[]'' @ [CHR 0x0A, NO] @ ''asdfghjkl;'' @
     [CHR 0x27, CHR 0x60, NO, CHR 0x5C] @ ''zxcvbnm,./'' @ [NO] @ ''*'' @ [NO] @ '' ''"

definition shift_keys :: string where
  "shift_keys = ''!@#$%^&*()_+'' @ [CHR 0x08, CHR 0x09] @ ''QWERTYUIOP{}'' @ [CHR 0x0A, NO] @ ''ASDFGHJKL:'' @
     [CHR 0x22, CHR 0x7E, NO, CHR 0x7C] @ ''ZXCVBNM<>?'' @ [NO] @ ''*'' @ [NO] @ '' ''"

lemma table_prefix:
  assumes "n \<le> length bs" "\<forall>k \<in> set (map fst ds). n \<le> k"
  shows "map (table bs ds) [0..<n] = map of_char (take n bs)"
proof (rule nth_equalityI)
  fix i
  assume "i < length (map (table bs ds) [0..<n])"
  then have i: "i < n" by simp
  then have "map_of ds i = None"
    using assms(2) by (force simp: map_of_eq_None_iff)
  then show "map (table bs ds) [0..<n] ! i = map of_char (take n bs) ! i"
    using i assms(1) by (simp add: table_def)
qed (use assms in simp)

lemma key_tables:
  "map normalmap [2..<0x3A] = map of_char normal_keys" "map shiftmap [2..<0x3A] = map of_char shift_keys"
proof -
  have l: "drop 2 (map t [0..<0x3A]) = map t [2..<0x3A]" for t :: "nat \<Rightarrow> byte"
    by (simp only: drop_map drop_upt add_0)
  have r: "drop 2 (map of_char ([NO, CHR 0x1B] @ k)) = (map of_char k :: byte list)" for k
    by simp
  have "map normalmap [0..<0x3A] = map of_char ([NO, CHR 0x1B] @ normal_keys)"
    unfolding normalmap_def by (subst table_prefix) (simp_all add: keypad_def normal_keys_def)
  then have "drop 2 (map normalmap [0..<0x3A]) = drop 2 (map of_char ([NO, CHR 0x1B] @ normal_keys))"
    by (rule arg_cong)
  then show "map normalmap [2..<0x3A] = map of_char normal_keys"
    unfolding l r .
  have "map shiftmap [0..<0x3A] = map of_char ([NO, CHR 0x1B] @ shift_keys)"
    unfolding shiftmap_def by (subst table_prefix) (simp_all add: keypad_def shift_keys_def)
  then have "drop 2 (map shiftmap [0..<0x3A]) = drop 2 (map of_char ([NO, CHR 0x1B] @ shift_keys))"
    by (rule arg_cong)
  then show "map shiftmap [2..<0x3A] = map of_char shift_keys"
    unfolding l r .
qed

lemma all_keys: "list_all (\<lambda>n. char_of n \<in> set normal_keys \<or> char_of n \<in> set shift_keys) ((10 :: nat) # [0x20..<0x7F])"
  by code_simp

lemma printable_key:
  assumes "printable c"
  shows "key_with normalmap c \<noteq> None \<or> key_with shiftmap c \<noteq> None"
proof -
  have "unat c = 10 \<or> (0x20 \<le> unat c \<and> unat c < 0x7F)"
    using assms by (auto simp: printable_def word_le_nat_alt word_less_nat_alt)
  then have "unat c \<in> set (10 # [0x20..<0x7F])"
    by (simp only: list.set set_upt atLeastLessThan_iff insert_iff)
  then have "char_of (unat c) \<in> set normal_keys \<or> char_of (unat c) \<in> set shift_keys"
    using all_keys unfolding list_all_iff by blast
  moreover have "(of_char (char_of (unat c)) :: byte) = c"
  proof -
    have "unat c < 2 ^ LENGTH(8)" by (rule unsigned_less)
    then have "unat c < 256" by simp
    then have "(of_char (char_of (unat c)) :: nat) = unat c" by (simp add: of_char_of)
    then have "(of_nat (of_char (char_of (unat c)) :: nat) :: byte) = c" by simp
    then show ?thesis by (simp only: of_nat_of_char)
  qed
  ultimately have "c \<in> set (map normalmap [2..<0x3A]) \<or> c \<in> set (map shiftmap [2..<0x3A])"
    unfolding key_tables by (metis (no_types) imageI list.set_map)
  then show ?thesis
    by (auto simp: key_with_def find_None_iff simp del: upt_rec_numeral)
qed

lemma typed_key_chars:
  assumes "printable c"
  shows "\<exists>cs. codes_chars 0 (typed_key c) = (cs, 0) \<and> filter (\<lambda>c. c \<noteq> 0) cs = [c]"
proof -
  have c: "c \<noteq> 0" using assms by (auto simp: printable_def)
  show ?thesis
  proof (cases "key_with normalmap c")
    case (Some i)
    then have "normalmap i = c" "plain_key i" using key_with_plain c by auto
    then show ?thesis
      using Some press(1) [of i] release(1) [of i] c by (simp add: typed_key_def)
  next
    case None
    then obtain i where i: "key_with shiftmap c = Some i" using printable_key [OF assms] by auto
    then have "shiftmap i = c" "plain_key i" using key_with_plain c by auto
    then show ?thesis
      using None i press(2) [of i] release(2) [of i] shift_key c by (simp add: typed_key_def)
  qed
qed

lemma codes_chars_append: "codes_chars sh (xs @ ys) =
   (let (cs, sh') = codes_chars sh xs; (ds, sh'') = codes_chars sh' ys in (cs @ ds, sh''))"
  by (induction xs arbitrary: sh) (auto simp: Let_def split: prod.splits)

lemma typed_text:
  "list_all printable w \<Longrightarrow>
   \<exists>cs. codes_chars 0 (concat (map typed_key w)) = (cs, 0) \<and> filter (\<lambda>c. c \<noteq> 0) cs = w"
proof (induction w)
  case (Cons c w)
  then show ?case using typed_key_chars [of c] by (auto simp: codes_chars_append)
qed simp

lemma kbd_chars_codes: "length (scancodes k) < n \<Longrightarrow>
   kbd_chars n k = Ok (map uint (fst (codes_chars (shift k) (scancodes k))))
     \<lparr>shift = snd (codes_chars (shift k) (scancodes k)), scancodes = []\<rparr>"
proof (induction n arbitrary: k)
  case (Suc n)
  show ?case
  proof (cases "scancodes k")
    case Nil
    then show ?thesis by (cases k) (simp add: kbdgetc_def bnd_def)
  next
    case (Cons d cs)
    obtain sh' c where step: "kbd_code (shift k) d = (sh', c)" by (cases "kbd_code (shift k) d")
    then show ?thesis
      using Cons Suc.IH [of "\<lparr>shift = sh', scancodes = cs\<rparr>"] Suc.prems
      by (cases k) (simp add: kbdgetc_def bnd_def thn_def split: prod.splits)
  qed
qed simp

text \<open>What is typed is what arrives. From a keyboard without pressed modifiers, the scan codes of
  typing any printable text (each key pressed and released, with the shift key around the upper
  characters) make \<^verbatim>\<open>kbdgetc\<close> return exactly the characters of the text, beside zeros, which
  \<^verbatim>\<open>consoleintr\<close> ignores, and leave no modifier pressed.\<close>

theorem typing_roundtrip:
  assumes "list_all printable w"
  shows "\<exists>cs. kbd_chars (Suc (length (concat (map typed_key w)))) \<lparr>shift = 0, scancodes = concat (map typed_key w)\<rparr> =
      Ok cs \<lparr>shift = 0, scancodes = []\<rparr> \<and> filter (\<lambda>c. c \<noteq> 0) cs = map uint w"
proof -
  obtain cs where "codes_chars 0 (concat (map typed_key w)) = (cs, 0)" "filter (\<lambda>c. c \<noteq> 0) cs = w"
    using typed_text [OF assms] by blast
  moreover from this have "filter (\<lambda>c. c \<noteq> 0) (map uint cs) = map uint w"
    by (auto simp: filter_map o_def uint_0_iff)
  ultimately show ?thesis
    by (simp add: kbd_chars_codes del: kbd_chars.simps)
qed

theorem typing_roundtrip_witness:
  "\<exists>cs k. kbd_chars (Suc (length (concat (map typed_key [0x4F, 0x6B])))) \<lparr>shift = 0, scancodes = concat (map typed_key [0x4F, 0x6B])\<rparr> =
      Ok cs k \<and> filter (\<lambda>c. c \<noteq> 0) cs = [0x4F, 0x6B]"
  using typing_roundtrip [of "[0x4F, 0x6B]"] by (auto simp: printable_def)

end
