(* ===== verification/Grep.thy ===== *)
theory Grep
  imports Main
begin

text \<open>
  \<^verbatim>\<open>grep.c\<close>: the matcher for patterns with \<open>^\<close>, \<open>.\<close>, \<open>*\<close> and \<open>$\<close>, and the loop that reads a file in
  pieces and prints the lines that match. Patterns and lines are strings without NUL; the NUL at
  their end is the end of the list.
\<close>

section \<open>The matcher\<close>

function matchhere :: "string \<Rightarrow> string \<Rightarrow> bool" and matchstar :: "char \<Rightarrow> string \<Rightarrow> string \<Rightarrow> bool" where
  "matchhere re text0 =
     (if re = [] then True
      else if tl re \<noteq> [] \<and> hd (tl re) = CHR ''*'' then matchstar (hd re) (drop 2 re) text0
      else if hd re = CHR ''$'' \<and> tl re = [] then text0 = []
      else if text0 \<noteq> [] \<and> (hd re = CHR ''.'' \<or> hd re = hd text0) then matchhere (tl re) (tl text0)
      else False)"
| "matchstar c re text0 =
     (if matchhere re text0 then True
      else if text0 \<noteq> [] \<and> (hd text0 = c \<or> c = CHR ''.'') then matchstar c re (tl text0)
      else False)"
  by pat_completeness auto
termination
  by (relation "inv_image (less_than <*lex*> less_than) (\<lambda>x. case x of
        Inl (re, t) \<Rightarrow> (2 * length re, length t) | Inr (c, re, t) \<Rightarrow> (2 * length re + 1, length t))")
    (auto simp: neq_Nil_conv)

declare matchhere.simps [simp del] matchstar.simps [simp del]

fun match_from :: "string \<Rightarrow> string \<Rightarrow> bool" where
  "match_from re [] = matchhere re []"
| "match_from re (c # t) = (if matchhere re (c # t) then True else match_from re t)"

definition match :: "string \<Rightarrow> string \<Rightarrow> bool" where
  "match re t = (if re \<noteq> [] \<and> hd re = CHR ''^'' then matchhere (tl re) t else match_from re t)"

section \<open>The language of a pattern\<close>

datatype item = One char | Dot | Many char | DotMany

definition one :: "char \<Rightarrow> item" where
  "one c = (if c = CHR ''.'' then Dot else One c)"

definition many :: "char \<Rightarrow> item" where
  "many c = (if c = CHR ''.'' then DotMany else Many c)"

text \<open>A pattern without its \<open>^\<close>: its items, and whether it ends in \<open>$\<close>.\<close>

fun parse_re :: "string \<Rightarrow> item list \<times> bool" where
  "parse_re [] = ([], False)"
| "parse_re [c] = (if c = CHR ''$'' then ([], True) else ([one c], False))"
| "parse_re (c # d # re) =
     (if d = CHR ''*'' then (let (is, e) = parse_re re in (many c # is, e))
      else (let (is, e) = parse_re (d # re) in (one c # is, e)))"

fun item_lang :: "item \<Rightarrow> string set" where
  "item_lang (One c) = {[c]}"
| "item_lang Dot = {[c] | c. True}"
| "item_lang (Many c) = {replicate n c | n. True}"
| "item_lang DotMany = UNIV"

fun lang :: "item list \<Rightarrow> string set" where
  "lang [] = {[]}"
| "lang (i # is) = {u @ v | u v. u \<in> item_lang i \<and> v \<in> lang is}"

definition prefix_in :: "item list \<times> bool \<Rightarrow> string \<Rightarrow> bool" where
  "prefix_in p t = (\<exists>u v. t = u @ v \<and> u \<in> lang (fst p) \<and> (snd p \<longrightarrow> v = []))"

lemma prefix_in_Nil: "prefix_in ([], e) t \<longleftrightarrow> (e \<longrightarrow> t = [])"
  by (auto simp: prefix_in_def)

lemma prefix_in_Cons: "prefix_in (i # is, e) t \<longleftrightarrow> (\<exists>u t'. t = u @ t' \<and> u \<in> item_lang i \<and> prefix_in (is, e) t')"
proof
  assume "prefix_in (i # is, e) t"
  then obtain x w where x: "t = x @ w" "x \<in> lang (i # is)" "e \<longrightarrow> w = []"
    by (auto simp: prefix_in_def)
  then obtain u v where "x = u @ v" "u \<in> item_lang i" "v \<in> lang is" by auto
  then have "t = u @ v @ w" "u \<in> item_lang i" "v \<in> lang is" "e \<longrightarrow> w = []" using x by simp_all
  then show "\<exists>u t'. t = u @ t' \<and> u \<in> item_lang i \<and> prefix_in (is, e) t'"
    by (intro exI [of _ u] exI [of _ "v @ w"]) (auto simp: prefix_in_def)
next
  assume "\<exists>u t'. t = u @ t' \<and> u \<in> item_lang i \<and> prefix_in (is, e) t'"
  then obtain u t' where u: "t = u @ t'" "u \<in> item_lang i" "prefix_in (is, e) t'" by blast
  then obtain v w where "t' = v @ w" "v \<in> lang is" "e \<longrightarrow> w = []"
    by (auto simp: prefix_in_def)
  then show "prefix_in (i # is, e) t"
    using u unfolding prefix_in_def by (intro exI [of _ "u @ v"] exI [of _ w]) auto
qed

lemma one_lang: "u \<in> item_lang (one c) \<longleftrightarrow> (\<exists>d. u = [d] \<and> (c = CHR ''.'' \<or> c = d))"
  by (auto simp: one_def)

lemma many_lang: "u \<in> item_lang (many c) \<longleftrightarrow> (\<forall>d \<in> set u. d = c \<or> c = CHR ''.'')"
proof (cases "c = CHR ''.''")
  case False
  have "u = replicate (length u) c" if "\<forall>d \<in> set u. d = c"
    using replicate_length_same [of u c] that by simp
  then show ?thesis using False by (auto simp: many_def)
qed (simp add: many_def)

lemma prefix_in_one: "prefix_in (one c # is, e) t \<longleftrightarrow>
  t \<noteq> [] \<and> (c = CHR ''.'' \<or> c = hd t) \<and> prefix_in (is, e) (tl t)"
proof
  assume "prefix_in (one c # is, e) t"
  then show "t \<noteq> [] \<and> (c = CHR ''.'' \<or> c = hd t) \<and> prefix_in (is, e) (tl t)"
    unfolding prefix_in_Cons one_lang by auto
next
  assume "t \<noteq> [] \<and> (c = CHR ''.'' \<or> c = hd t) \<and> prefix_in (is, e) (tl t)"
  then show "prefix_in (one c # is, e) t"
    unfolding prefix_in_Cons one_lang by (intro exI [of _ "[hd t]"] exI [of _ "tl t"]) auto
qed

lemma prefix_in_many: "prefix_in (many c # is, e) t \<longleftrightarrow>
  prefix_in (is, e) t \<or> (t \<noteq> [] \<and> (hd t = c \<or> c = CHR ''.'') \<and> prefix_in (many c # is, e) (tl t))"
proof
  assume "prefix_in (many c # is, e) t"
  then obtain u t' where u: "t = u @ t'" "\<forall>d \<in> set u. d = c \<or> c = CHR ''.''" "prefix_in (is, e) t'"
    unfolding prefix_in_Cons many_lang by blast
  then show "prefix_in (is, e) t \<or> (t \<noteq> [] \<and> (hd t = c \<or> c = CHR ''.'') \<and> prefix_in (many c # is, e) (tl t))"
    unfolding prefix_in_Cons many_lang by (cases u) auto
next
  assume "prefix_in (is, e) t \<or> (t \<noteq> [] \<and> (hd t = c \<or> c = CHR ''.'') \<and> prefix_in (many c # is, e) (tl t))"
  then show "prefix_in (many c # is, e) t"
  proof
    assume "prefix_in (is, e) t"
    then show ?thesis
      unfolding prefix_in_Cons [of "many c"] many_lang by (intro exI [of _ "[]"] exI [of _ t]) auto
  next
    assume t: "t \<noteq> [] \<and> (hd t = c \<or> c = CHR ''.'') \<and> prefix_in (many c # is, e) (tl t)"
    then obtain u t' where u: "tl t = u @ t'" "prefix_in (is, e) t'" "\<forall>d \<in> set u. d = c \<or> c = CHR ''.''"
      unfolding prefix_in_Cons [of "many c"] many_lang by blast
    have "t = (hd t # u) @ t'" using u(1) t by (cases t) simp_all
    moreover have "\<forall>d \<in> set (hd t # u). d = c \<or> c = CHR ''.''" using u(3) t by auto
    ultimately show ?thesis
      unfolding prefix_in_Cons [of "many c"] many_lang using u(2) by blast
  qed
qed

lemma matchhere_eqs:
  "matchhere [] t = True"
  "matchhere (c # CHR ''*'' # re) t = matchstar c re t"
  "matchhere [CHR ''$''] t = (t = [])"
  "c \<noteq> CHR ''$'' \<Longrightarrow> matchhere [c] t = (t \<noteq> [] \<and> (c = CHR ''.'' \<or> c = hd t))"
  "d \<noteq> CHR ''*'' \<Longrightarrow> matchhere (c # d # re) t = (t \<noteq> [] \<and> (c = CHR ''.'' \<or> c = hd t) \<and> matchhere (d # re) (tl t))"
  by (simp_all add: matchhere.simps [of "[]"] matchhere.simps [of "_ # _"])

lemma matchstar_eq:
  "matchstar c re t = (matchhere re t \<or> (t \<noteq> [] \<and> (hd t = c \<or> c = CHR ''.'') \<and> matchstar c re (tl t)))"
  by (subst matchstar.simps) simp

lemma match_parse:
  "matchhere re t \<longleftrightarrow> prefix_in (parse_re re) t"
  "matchstar c re t \<longleftrightarrow> prefix_in (many c # fst (parse_re re), snd (parse_re re)) t"
proof (induction re t and c re t rule: matchhere_matchstar.induct)
  case (1 re t)
  show ?case
  proof (cases re rule: parse_re.cases)
    case 1
    then show ?thesis by (simp add: matchhere_eqs prefix_in_Nil)
  next
    case (2 c)
    then show ?thesis
      by (cases "c = CHR ''$''") (simp_all add: matchhere_eqs prefix_in_Nil prefix_in_one)
  next
    case (3 c d re')
    show ?thesis
    proof (cases "d = CHR ''*''")
      case True
      then show ?thesis using 1 3 by (simp add: matchhere_eqs split_def Let_def)
    next
      case False
      then show ?thesis
        using 1 3 by (auto simp: matchhere_eqs split_def Let_def prefix_in_one)
    qed
  qed
next
  case (2 c re t)
  show ?case
    using 2 by (subst matchstar_eq, subst prefix_in_many) auto
qed

lemma match_from_parse: "match_from re t \<longleftrightarrow> (\<exists>s t'. t = s @ t' \<and> prefix_in (parse_re re) t')"
proof (induction t)
  case (Cons c t)
  have "(\<exists>s t'. c # t = s @ t' \<and> P t') \<longleftrightarrow> P (c # t) \<or> (\<exists>s t'. t = s @ t' \<and> P t')" for P
    by (metis append_Cons append_Nil append_eq_Cons_conv)
  then show ?case using Cons by (simp add: match_parse)
qed (simp add: match_parse)

text \<open>C20: the matcher decides the language of its pattern. A pattern stands for a sequence of
  characters, any characters (\<open>.\<close>) and repetitions (\<open>*\<close>); it matches a line exactly if some part of
  the line is in that language, a part at its start if the pattern begins with \<open>^\<close> and at its end if
  it ends with \<open>$\<close>.\<close>

theorem grep_matches_language:
  "match re t \<longleftrightarrow> (\<exists>pre mid post. t = pre @ mid @ post \<and>
     mid \<in> lang (fst (parse_re (if re \<noteq> [] \<and> hd re = CHR ''^'' then tl re else re))) \<and>
     (re \<noteq> [] \<and> hd re = CHR ''^'' \<longrightarrow> pre = []) \<and>
     (snd (parse_re (if re \<noteq> [] \<and> hd re = CHR ''^'' then tl re else re)) \<longrightarrow> post = []))"
proof (cases "re \<noteq> [] \<and> hd re = CHR ''^''")
  case True
  then show ?thesis by (auto simp: match_def match_parse prefix_in_def)
next
  case False
  then show ?thesis by (auto simp: match_def match_from_parse prefix_in_def)
qed

theorem grep_matches_language_witness: "match ''^ab*'' ''abb''"
proof -
  have p: "parse_re ''ab*'' = ([One (CHR ''a''), Many (CHR ''b'')], False)"
    by (simp add: one_def many_def)
  have "''bb'' \<in> lang [Many (CHR ''b'')]"
    by (auto intro!: exI [of _ 2] simp: numeral_2_eq_2)
  then have "''abb'' \<in> lang [One (CHR ''a''), Many (CHR ''b'')]"
    by simp
  then show ?thesis
    unfolding grep_matches_language
    by (intro exI [of _ "[]"] exI [of _ "''abb''"]) (simp add: p del: lang.simps parse_re.simps)
qed

section \<open>Reading a file\<close>

text \<open>\<open>input\<close> is what \<^verbatim>\<open>read\<close> still gives and \<open>sizes\<close> how much each call of it gives at most; a call that gives
  nothing ends the loop. \<open>rest\<close> is \<^verbatim>\<open>buf[0..m]\<close>.\<close>

definition BUFSIZE :: nat where
  "BUFSIZE = 1024"

text \<open>The inner loop: the lines in the buffer up to the last end of line that \<^verbatim>\<open>strchr\<close> finds before a
  NUL; what is printed, and what is left behind it.\<close>

fun next_line :: "string \<Rightarrow> (string \<times> string) option" where
  "next_line [] = None"
| "next_line (c # p) = (if c = CHR 0x00 then None else if c = CHR 0x0A then Some ([], p)
     else map_option (\<lambda>(l, p'). (c # l, p')) (next_line p))"

lemma next_line_shorter: "next_line p = Some (l, p') \<Longrightarrow> length p' < length p"
  by (induction p arbitrary: l) (auto split: if_splits)

function print_lines :: "string \<Rightarrow> string \<Rightarrow> string \<times> string" where
  "print_lines re p = (case next_line p of
       None \<Rightarrow> ([], p)
     | Some (l, p') \<Rightarrow> let (out, rest) = print_lines re p'
         in ((if match re l then l @ [CHR 0x0A] else []) @ out, rest))"
  by pat_completeness auto
termination
  by (relation "measure (length o snd)") (auto dest: next_line_shorter)

declare print_lines.simps [simp del]

text \<open>\<^verbatim>\<open>if (p == buf) m = 0\<close>: without an end of line in it the buffer is emptied.\<close>

definition grep_read :: "string \<Rightarrow> string \<Rightarrow> string \<times> string" where
  "grep_read re buf = (let (out, p) = print_lines re buf in (out, if length p = length buf then [] else p))"

primrec grep_loop :: "nat list \<Rightarrow> string \<Rightarrow> string \<Rightarrow> string \<Rightarrow> string" where
  "grep_loop [] re input buf = []"
| "grep_loop (k # sizes) re input buf =
     (let n = min k (BUFSIZE - length buf - 1) in
      if n = 0 \<or> input = [] then []
      else let (out, buf') = grep_read re (buf @ take n input) in out @ grep_loop sizes re (drop n input) buf')"

definition grep :: "string \<Rightarrow> nat list \<Rightarrow> string \<Rightarrow> string" where
  "grep re sizes input = grep_loop sizes re input []"

abbreviation NL :: char where
  "NL \<equiv> CHR 0x0A"

definition lines_text :: "string list \<Rightarrow> string" where
  "lines_text ls = concat (map (\<lambda>l. l @ [NL]) ls)"

definition plain :: "string \<Rightarrow> bool" where
  "plain s = (NL \<notin> set s \<and> CHR 0x00 \<notin> set s)"

lemma lines_text_simps [simp]: "lines_text [] = []" "lines_text (l # ls) = l @ NL # lines_text ls"
  by (simp_all add: lines_text_def)

lemma next_line_plain: "plain p \<Longrightarrow> next_line p = None"
  by (induction p) (auto simp: plain_def)

lemma next_line_line: "plain l \<Longrightarrow> next_line (l @ NL # p) = Some (l, p)"
  by (induction l) (auto simp: plain_def)

lemma print_plain: "plain p \<Longrightarrow> print_lines re p = ([], p)"
  by (simp add: print_lines.simps next_line_plain)

lemma plain_append [simp]: "plain (s @ t) \<longleftrightarrow> plain s \<and> plain t" "plain []"
  by (auto simp: plain_def)

lemma not_plain_line [simp]: "\<not> plain (NL # t)"
  by (simp add: plain_def)

lemma plain_lines_text: "plain (lines_text ls @ tail) \<Longrightarrow> ls = []"
  by (cases ls) simp_all

lemma grep_loop_step:
  assumes "n = min k (BUFSIZE - length buf - 1)"
  shows "grep_loop (k # sizes) re input buf = (if n = 0 \<or> input = [] then []
    else let (out, buf') = grep_read re (buf @ take n input) in out @ grep_loop sizes re (drop n input) buf')"
  unfolding assms by (simp only: grep_loop.simps Let_def)

text \<open>What is in the buffer is the start of the rest of the file: the lines that are complete in it are
  printed if they match, and the start of the next one stays.\<close>

lemma print_prefix:
  assumes "b @ r = lines_text ls @ tail" "\<forall>l \<in> set ls. plain l" "plain tail"
  shows "\<exists>ls1 ls2 p. ls = ls1 @ ls2 \<and> print_lines re b = (lines_text (filter (match re) ls1), p) \<and>
    b = lines_text ls1 @ p \<and> p @ r = lines_text ls2 @ tail \<and> plain p"
  using assms
proof (induction ls arbitrary: b)
  case Nil
  then have "plain b" by (metis append_Nil lines_text_simps(1) plain_append(1))
  then show ?case using Nil by (simp add: print_plain)
next
  case (Cons l ls)
  have l: "plain l" using Cons.prems(2) by simp
  consider (inside) b' where "b = l @ NL # b'" | (short) v where "l = b @ v"
    using Cons.prems(1) by (auto simp: append_eq_append_conv2 append_eq_Cons_conv)
  then show ?case
  proof cases
    case inside
    then have "b' @ r = lines_text ls @ tail" using Cons.prems(1) by simp
    then obtain ls1 ls2 p where ls: "ls = ls1 @ ls2" "print_lines re b' = (lines_text (filter (match re) ls1), p)"
        "b' = lines_text ls1 @ p" "p @ r = lines_text ls2 @ tail" "plain p"
      using Cons.IH [of b'] Cons.prems(2,3) by auto
    have "print_lines re b = (lines_text (filter (match re) (l # ls1)), p)"
      unfolding inside by (subst print_lines.simps) (simp add: next_line_line [OF l] ls(2))
    then show ?thesis
      using ls inside by (intro exI [of _ "l # ls1"] exI [of _ ls2] exI [of _ p]) simp
  next
    case short
    then have "plain b" using l by simp
    then show ?thesis
      using Cons.prems(1) by (intro exI [of _ "[]"] exI [of _ "l # ls"] exI [of _ b]) (simp add: print_plain)
  qed
qed

lemma grep_plain: "plain input \<Longrightarrow> plain buf \<Longrightarrow> grep_loop sizes re input buf = []"
proof (induction sizes arbitrary: input buf)
  case (Cons k sizes)
  define n where "n = min k (BUFSIZE - length buf - 1)"
  have "plain (take n input)" "plain (drop n input)"
    using Cons.prems(1) by (auto simp: plain_def dest: in_set_takeD in_set_dropD)
  then show ?case
    using Cons unfolding grep_loop_step [OF n_def] by (simp add: grep_read_def print_plain)
qed simp

lemma grep_loop_lines:
  assumes "buf @ input = lines_text ls @ tail" "\<forall>l \<in> set ls. plain l \<and> length l < BUFSIZE - 1" "plain tail"
    and "plain buf" "length buf < BUFSIZE - 1" "\<forall>k \<in> set sizes. BUFSIZE \<le> k" "length input \<le> length sizes"
  shows "grep_loop sizes re input buf = lines_text (filter (match re) ls)"
  using assms
proof (induction sizes arbitrary: input buf ls)
  case Nil
  then have "plain (lines_text ls @ tail)" by (metis append_Nil2 le_zero_eq length_0_conv list.size(3))
  then show ?case using plain_lines_text by fastforce
next
  case (Cons k sizes)
  show ?case
  proof (cases "input = []")
    case True
    then have "plain (lines_text ls @ tail)" using Cons.prems(1,4) by simp
    then show ?thesis using True plain_lines_text by fastforce
  next
    case False
    define n where "n = min k (BUFSIZE - length buf - 1)"
    have n: "0 < n" "n = BUFSIZE - length buf - 1" using Cons.prems(5,6) by (auto simp: n_def)
    have whole: "(buf @ take n input) @ drop n input = lines_text ls @ tail"
      using Cons.prems(1) by simp
    obtain ls1 ls2 p where ls: "ls = ls1 @ ls2" "print_lines re (buf @ take n input) = (lines_text (filter (match re) ls1), p)"
        "buf @ take n input = lines_text ls1 @ p" "p @ drop n input = lines_text ls2 @ tail" "plain p"
      using print_prefix [OF whole] Cons.prems(2,3) by blast
    have step: "grep_loop (k # sizes) re input buf = lines_text (filter (match re) ls1) @
        grep_loop sizes re (drop n input) (if ls1 = [] then [] else p)"
      using False n(1) ls(2,3) unfolding grep_loop_step [OF n_def] by (cases ls1) (simp_all add: grep_read_def)
    have b: "length (buf @ take n input) \<le> BUFSIZE - 1" using Cons.prems(5) by (simp add: n(2))
    show ?thesis
    proof (cases ls1)
      case Nil
      have "ls2 = []"
      proof (rule ccontr)
        assume "ls2 \<noteq> []"
        then obtain l ls' where l: "ls2 = l # ls'" by (cases ls2) auto
        have "length l < BUFSIZE - 1" using Cons.prems(2) ls(1) l by simp
        have eq: "p @ drop n input = l @ NL # lines_text ls' @ tail" using ls(4) l by simp
        then have "length p \<le> length l"
          using ls(5) by (auto simp: append_eq_append_conv2 append_eq_Cons_conv plain_def)
        moreover from eq this have "drop n input \<noteq> []" by auto
        then have "length (take n input) = n" by simp
        ultimately show False
          using ls(3) Nil \<open>length l < BUFSIZE - 1\<close> Cons.prems(5) by (auto simp: n(2) dest: arg_cong [of _ _ length])
      qed
      then have "plain (drop n input)" using ls(4) Cons.prems(3) by (metis append_Nil lines_text_simps(1) plain_append(1))
      then show ?thesis using step Nil \<open>ls2 = []\<close> ls(1) grep_plain by simp
    next
      case (Cons l ls1')
      have "length p < BUFSIZE - 1"
        using b ls(3) Cons by (auto dest: arg_cong [of _ _ length])
      moreover have "length (drop n input) \<le> length sizes" using \<open>0 < n\<close> Cons.prems(7) False by simp
      ultimately show ?thesis
        using step Cons.IH [OF ls(4)] Cons.prems ls(1,5) Cons by (simp add: lines_text_def)
    qed
  qed
qed

text \<open>C21: of a file whose lines fit the buffer, read in pieces as large as the buffer, exactly the lines
  that match are printed, in their order; a last line without an end is not.\<close>

theorem grep_prints_matching_lines:
  assumes "\<forall>l \<in> set ls. plain l \<and> length l < BUFSIZE - 1" "plain tail"
    and "\<forall>k \<in> set sizes. BUFSIZE \<le> k" "length (lines_text ls @ tail) \<le> length sizes"
  shows "grep re sizes (lines_text ls @ tail) = lines_text (filter (match re) ls)"
  unfolding grep_def using assms by (intro grep_loop_lines) (simp_all add: BUFSIZE_def)

theorem grep_prints_matching_lines_witness:
  "grep ''^a'' (replicate 20 2000) (lines_text [''ab'', ''ba'', ''ac''] @ ''x'') = lines_text [''ab'', ''ac'']"
  by (subst grep_prints_matching_lines)
    (simp_all add: plain_def BUFSIZE_def match_def matchhere.simps)

text \<open>A read that ends inside a line loses its start: a line in two pieces is not found.\<close>

lemma grep_short_read: "grep ''ab'' [1, 2] [CHR ''a'', CHR ''b'', NL] = []"
  "grep ''ab'' [3] [CHR ''a'', CHR ''b'', NL] = [CHR ''a'', CHR ''b'', NL]"
  by (simp_all add: grep_def grep_read_def print_lines.simps Let_def BUFSIZE_def match_def
      matchhere.simps)

section \<open>The program\<close>

text \<open>What \<^verbatim>\<open>main\<close> writes, each piece with the descriptor it goes to. \<open>files\<close> is what \<^verbatim>\<open>open\<close> finds,
  \<open>sizes\<close> how much each \<^verbatim>\<open>read\<close> of the given file may give, \<open>input\<close> the standard input.\<close>

primrec grep_files :: "(string \<Rightarrow> string option) \<Rightarrow> (string \<Rightarrow> nat list) \<Rightarrow> string \<Rightarrow> string list \<Rightarrow> (nat \<times> string) list" where
  "grep_files files sizes re [] = []"
| "grep_files files sizes re (name # names) = (case files name of
       None \<Rightarrow> [(1, ''grep: cannot open '' @ name @ [NL])]
     | Some content \<Rightarrow> (1, grep re (sizes name) content) # grep_files files sizes re names)"

definition grep_main :: "(string \<Rightarrow> string option) \<Rightarrow> (string \<Rightarrow> nat list) \<Rightarrow> string \<Rightarrow> string list \<Rightarrow> (nat \<times> string) list" where
  "grep_main files sizes input argv =
     (if length argv \<le> 1 then [(2, ''usage: grep pattern [file ...]'' @ [NL])]
      else if length argv \<le> 2 then [(1, grep (argv ! 1) (sizes []) input)]
      else grep_files files sizes (argv ! 1) (drop 2 argv))"

text \<open>After a file that cannot be opened no other is searched.\<close>

lemma grep_files_unopened:
  assumes "\<forall>f \<in> set fs. files f \<noteq> None" "files g = None"
  shows "grep_files files sizes re (fs @ g # hs) =
    map (\<lambda>f. (1, grep re (sizes f) (the (files f)))) fs @ [(1, ''grep: cannot open '' @ g @ [NL])]"
  using assms(1) by (induction fs) (auto simp: assms(2))

end
