(* ===== verification/Umalloc.thy ===== *)
theory Umalloc
  imports Main
begin

text \<open>
  The allocator of user programs (\<^verbatim>\<open>umalloc.c\<close>): the free blocks on a circular list in the order of
  their addresses, first fit from where the last search ended, and merging of neighbours. A header
  is named by its address; \<open>hptr\<close> and \<open>hsize\<close> are its two fields. Headers of the list and of blocks do
  not overlap, which is part of the invariant. \<open>brk\<close> is the size of the process and \<open>answers\<close>
  whether the kernel has the memory that the coming calls of \<^verbatim>\<open>sbrk\<close> ask for.
\<close>

record uheap =
  hptr :: "nat \<Rightarrow> nat"
  hsize :: "nat \<Rightarrow> nat"
  hbase :: nat
  freep :: nat
  brk :: nat
  answers :: "bool list"

abbreviation wrap32 :: "nat \<Rightarrow> nat" where
  "wrap32 n \<equiv> n mod 2 ^ 32"

text \<open>\<^verbatim>\<open>p + n\<close> for a pointer \<open>p\<close> to a header, which has 8 bytes.\<close>

definition hadd :: "nat \<Rightarrow> nat \<Rightarrow> nat" where
  "hadd p n = wrap32 (p + 8 * n)"

section \<open>The code\<close>

partial_function (option) find_place :: "(nat \<Rightarrow> nat) \<Rightarrow> nat \<Rightarrow> nat \<Rightarrow> nat option" where
  "find_place nx bp p =
     (if p < bp \<and> bp < nx p then Some p
      else if nx p \<le> p \<and> (p < bp \<or> bp < nx p) then Some p
      else find_place nx bp (nx p))"

text \<open>The two tests of \<^verbatim>\<open>free\<close> once the place \<open>p\<close> is found.\<close>

definition join_next :: "nat \<Rightarrow> nat \<Rightarrow> uheap \<Rightarrow> uheap" where
  "join_next bp p h =
     (let q = hptr h p in
      if hadd bp (hsize h bp) = q
      then h\<lparr>hsize := (hsize h)(bp := wrap32 (hsize h bp + hsize h q)), hptr := (hptr h)(bp := hptr h q)\<rparr>
      else h\<lparr>hptr := (hptr h)(bp := q)\<rparr>)"

definition join_prev :: "nat \<Rightarrow> nat \<Rightarrow> uheap \<Rightarrow> uheap" where
  "join_prev bp p h =
     (if hadd p (hsize h p) = bp
      then h\<lparr>hsize := (hsize h)(p := wrap32 (hsize h p + hsize h bp)), hptr := (hptr h)(p := hptr h bp)\<rparr>
      else h\<lparr>hptr := (hptr h)(p := bp)\<rparr>)"

definition free :: "nat \<Rightarrow> uheap \<Rightarrow> uheap option" where
  "free ap h =
     (let bp = ap - 8 in
      case find_place (hptr h) bp (freep h) of
        None \<Rightarrow> None
      | Some p \<Rightarrow> Some ((join_prev bp p (join_next bp p h))\<lparr>freep := p\<rparr>))"

text \<open>\<^verbatim>\<open>sbrk(n)\<close>, with its argument as an \<^verbatim>\<open>int\<close>: growing, which fails without memory or at
  \<^verbatim>\<open>KERNBASE\<close>, or shrinking (\<^verbatim>\<open>growproc\<close>, \<^verbatim>\<open>allocuvm\<close> and \<^verbatim>\<open>deallocuvm\<close>).\<close>

definition sbrk :: "nat \<Rightarrow> uheap \<Rightarrow> nat option \<times> uheap" where
  "sbrk n h =
     (if n = 0 then (Some (brk h), h)
      else if n < 2 ^ 31 then
        (case answers h of
           True # as \<Rightarrow> if brk h + n < 2 ^ 31 then (Some (brk h), h\<lparr>brk := brk h + n, answers := as\<rparr>)
                        else (None, h\<lparr>answers := as\<rparr>)
         | as \<Rightarrow> (None, h\<lparr>answers := tl as\<rparr>))
      else if brk h + n = 2 ^ 32 then (None, h)
      else (Some (brk h), h\<lparr>brk := (if 2 ^ 32 < brk h + n then brk h + n - 2 ^ 32 else brk h)\<rparr>))"

definition morecore :: "nat \<Rightarrow> uheap \<Rightarrow> (nat \<times> uheap) option" where
  "morecore nu h =
     (let nu = (if nu < 4096 then 4096 else nu) in
      case sbrk (wrap32 (nu * 8)) h of
        (None, h) \<Rightarrow> Some (0, h)
      | (Some p, h) \<Rightarrow> (case free (p + 8) (h\<lparr>hsize := (hsize h)(p := nu)\<rparr>) of
            None \<Rightarrow> None
          | Some h \<Rightarrow> Some (freep h, h)))"

text \<open>Taking \<open>n\<close> units from the block \<open>p\<close> behind \<open>prevp\<close>: all of it, or its end.\<close>

definition take_block :: "nat \<Rightarrow> nat \<Rightarrow> nat \<Rightarrow> uheap \<Rightarrow> nat \<times> uheap" where
  "take_block n prevp p h =
     (if hsize h p = n then (p + 8, h\<lparr>hptr := (hptr h)(prevp := hptr h p), freep := prevp\<rparr>)
      else (let q = hadd p (hsize h p - n) in
        (q + 8, h\<lparr>hsize := (hsize h)(p := hsize h p - n, q := n), freep := prevp\<rparr>)))"

partial_function (option) malloc_loop :: "nat \<Rightarrow> nat \<Rightarrow> nat \<Rightarrow> uheap \<Rightarrow> (nat \<times> uheap) option" where
  "malloc_loop n prevp p h =
     (if n \<le> hsize h p then Some (take_block n prevp p h)
      else if p = freep h then
        (case morecore n h of
           None \<Rightarrow> None
         | Some (q, h) \<Rightarrow> if q = 0 then Some (0, h) else malloc_loop n q (hptr h q) h)
      else malloc_loop n p (hptr h p) h)"

definition nunits :: "nat \<Rightarrow> nat" where
  "nunits nbytes = wrap32 (nbytes + 8 - 1) div 8 + 1"

definition malloc :: "nat \<Rightarrow> uheap \<Rightarrow> (nat \<times> uheap) option" where
  "malloc nbytes h =
     (let h = (if freep h = 0
               then h\<lparr>hptr := (hptr h)(hbase h := hbase h), hsize := (hsize h)(hbase h := 0), freep := hbase h\<rparr>
               else h)
      in malloc_loop (nunits nbytes) (freep h) (hptr h (freep h)) h)"

section \<open>The heap\<close>

text \<open>A block is its address and its size in units, the header included.\<close>

type_synonym block = "nat \<times> nat"

definition bend :: "block \<Rightarrow> nat" where
  "bend x = fst x + 8 * snd x"

definition apart :: "block \<Rightarrow> block \<Rightarrow> bool" where
  "apart x y = ({fst x ..< bend x} \<inter> {fst y ..< bend y} = {})"

definition bytes_of :: "block list \<Rightarrow> nat set" where
  "bytes_of xs = (\<Union>x \<in> set xs. {fst x ..< bend x})"

definition circular :: "(nat \<Rightarrow> nat) \<Rightarrow> nat list \<Rightarrow> bool" where
  "circular nx ns = (map nx ns = tl ns @ [hd ns])"

lemma circular_split:
  "circular nx (xs @ p # ys) \<longleftrightarrow> map nx xs = tl (xs @ [p]) \<and> map nx (p # ys) = ys @ [hd (xs @ [p])]"
proof -
  have "circular nx (xs @ p # ys) \<longleftrightarrow> map nx xs @ map nx (p # ys) = tl (xs @ [p]) @ ys @ [hd (xs @ [p])]"
    by (cases xs) (simp_all add: circular_def)
  then show ?thesis by (simp add: append_eq_append_conv)
qed

lemma circular_next:
  assumes "circular nx (xs @ p # ys)"
  shows "nx p = hd (ys @ [hd (xs @ [p])])"
  using assms unfolding circular_split by (cases ys) auto

lemma circular_inj:
  assumes "circular nx ns" "distinct ns" "ns \<noteq> []"
  shows "inj_on nx (set ns)"
proof -
  have "distinct (tl ns @ [hd ns])" using assms(2,3) by (cases ns) auto
  then have "distinct (map nx ns)" using assms(1) by (simp add: circular_def)
  then show ?thesis using assms(2) by (simp add: distinct_map)
qed

subsection \<open>Finding the place of a block\<close>

text \<open>\<open>ns\<close> is the list in the order of addresses, \<open>p'\<close> the last node below \<open>bp\<close>.\<close>

lemma place_here:
  assumes "circular nx (xs @ p' # ys)" "sorted_wrt (<) (xs @ p' # ys)" "p' < bp" "\<forall>y \<in> set ys. bp < y"
  shows "find_place nx bp p' = Some p'"
proof (cases ys)
  case Nil
  then have "nx p' = hd (xs @ [p'])" using circular_next [OF assms(1)] by simp
  then have "nx p' \<le> p'" using assms(2) Nil by (cases xs) (auto simp: sorted_wrt_append)
  then show ?thesis using assms(3) by (subst find_place.simps) auto
next
  case (Cons y ys')
  then have "nx p' = y" using circular_next [OF assms(1)] by simp
  then show ?thesis using assms(3,4) Cons by (subst find_place.simps) auto
qed

lemma place_before:
  assumes "circular nx (us @ vs @ p' # ys)" "sorted_wrt (<) (us @ vs @ p' # ys)" "p' < bp" "\<forall>y \<in> set ys. bp < y"
  shows "find_place nx bp (hd (vs @ [p'])) = Some p'"
  using assms(1,2)
proof (induction vs arbitrary: us)
  case Nil
  then show ?case using place_here [OF _ _ assms(3,4)] by simp
next
  case (Cons v vs)
  have nx: "nx v = hd (vs @ [p'])"
    using circular_next [of nx us v "vs @ p' # ys"] Cons.prems(1) by (cases vs) auto
  have "v < nx v" "nx v \<le> p'" using Cons.prems(2) nx by (cases vs; auto simp: sorted_wrt_append)+
  then have "find_place nx bp v = find_place nx bp (nx v)"
    using assms(3) by (subst find_place.simps) auto
  then show ?case using Cons.IH [of "us @ [v]"] Cons.prems nx by simp
qed

lemma place_behind:
  assumes "circular nx (xs @ p' # us @ vs)" "sorted_wrt (<) (xs @ p' # us @ vs)" "p' < bp" "\<forall>y \<in> set (us @ vs). bp < y" "vs \<noteq> []"
  shows "find_place nx bp (hd vs) = Some p'"
  using assms(1,2,4,5)
proof (induction vs arbitrary: us)
  case (Cons v vs)
  note s = Cons.prems(2)
  show ?case
  proof (cases vs)
    case Nil
    have nx: "nx v = hd (xs @ [p'])"
      using circular_next [of nx "xs @ p' # us" v "[]"] Cons.prems(1) Nil by (cases xs) auto
    have "nx v \<le> p'" using s nx by (cases xs) (auto simp: sorted_wrt_append)
    then have "find_place nx bp v = find_place nx bp (nx v)"
      using assms(3) Cons.prems(3) by (subst find_place.simps) auto
    also have "\<dots> = Some p'"
      using place_before [of nx "[]" xs p' "us @ [v]"] Cons.prems assms(3) Nil nx by simp
    finally show ?thesis by simp
  next
    case (Cons w ws)
    have nx: "nx v = w"
      using circular_next [of nx "xs @ p' # us" v vs] Cons.prems(1) Cons by simp
    have "v < w" using s Cons by (simp add: sorted_wrt_append)
    then have "find_place nx bp v = find_place nx bp w"
      using nx Cons.prems(3) by (subst find_place.simps) auto
    then show ?thesis using Cons.IH [of "us @ [v]"] Cons.prems Cons by simp
  qed
qed simp

lemma find_place_found:
  assumes "circular nx (xs @ p' # ys)" "sorted_wrt (<) (xs @ p' # ys)" "p' < bp" "\<forall>y \<in> set ys. bp < y"
    and "p \<in> set (xs @ p' # ys)"
  shows "find_place nx bp p = Some p'"
proof -
  consider "p = p'" | "p \<in> set xs" | "p \<in> set ys" using assms(5) by auto
  then show ?thesis
  proof cases
    case 1
    then show ?thesis using place_here [OF assms(1-4)] by simp
  next
    case 2
    then obtain us vs where "xs = us @ p # vs" by (meson split_list)
    then show ?thesis using place_before [of nx us "p # vs" p' ys bp] assms by simp
  next
    case 3
    then obtain us vs where "ys = us @ p # vs" by (meson split_list)
    then show ?thesis using place_behind [of nx xs p' us "p # vs" bp] assms by simp
  qed
qed

subsection \<open>Merging\<close>

lemma circular_cong: "(\<And>x. x \<in> set ns \<Longrightarrow> nx x = nx' x) \<Longrightarrow> circular nx ns = circular nx' ns"
  by (simp add: circular_def cong: map_cong)

lemma circular_insert:
  assumes "circular nx (xs @ p # ys)" "distinct (xs @ p # ys)" "a \<notin> set (xs @ p # ys)"
  shows "circular (nx(a := nx p, p := a)) (xs @ p # a # ys)"
  using assms unfolding circular_split by auto

lemma circular_remove:
  assumes "circular nx (xs @ p # y # ys)" "distinct (xs @ p # y # ys)"
  shows "circular (nx(p := nx y)) (xs @ p # ys)"
  using assms unfolding circular_split by auto

text \<open>The list with \<open>base\<close>, whose size is 0, as its first block.\<close>

definition gaps :: "block list \<Rightarrow> bool" where
  "gaps xs = sorted_wrt (\<lambda>x y. bend x < fst y) xs"

definition free_list :: "block list \<Rightarrow> uheap \<Rightarrow> bool" where
  "free_list xs h = (gaps xs \<and> circular (hptr h) (map fst xs) \<and> (\<forall>x \<in> set xs. hsize h (fst x) = snd x))"

lemma gaps_sorted: "gaps xs \<Longrightarrow> sorted_wrt (<) (map fst xs)"
  unfolding gaps_def sorted_wrt_map by (rule sorted_wrt_mono_rel) (auto simp: bend_def)

lemma gaps_distinct: "gaps xs \<Longrightarrow> distinct (map fst xs)"
  using gaps_sorted strict_sorted_iff by blast

lemma free_list_next: "free_list (xs @ (p, t) # ys) h \<Longrightarrow> hptr h p = hd (map fst ys @ [hd (map fst xs @ [p])])"
  using circular_next [of "hptr h" "map fst xs" p "map fst ys"] by (simp add: free_list_def)

lemma join_next_ok:
  assumes f: "free_list (xs @ (p, t) # ys) h" and a: "bend (p, t) \<le> a" "p < a" "hsize h a = s" "0 < s"
    and ys: "\<forall>y \<in> set ys. a + 8 * s \<le> fst y" and b: "a + 8 * s < 2 ^ 31" "\<forall>y \<in> set ys. bend y < 2 ^ 31"
  shows "\<exists>s' ys' q. join_next a p h = h\<lparr>hptr := (hptr h)(a := q), hsize := (hsize h)(a := s')\<rparr> \<and>
     circular ((hptr h)(p := q)) (map fst (xs @ (p, t) # ys')) \<and> (\<exists>zs. ys = zs @ ys') \<and> s \<le> s' \<and>
     (\<forall>y \<in> set ys'. bend (a, s') < fst y) \<and> bend (a, s') < 2 ^ 31 \<and>
     {a ..< bend (a, s')} \<union> bytes_of ys' = {a ..< bend (a, s)} \<union> bytes_of ys"
proof (cases "\<exists>r u zs. ys = (r, u) # zs \<and> a + 8 * s = r")
  case True
  then obtain u zs where y: "ys = (a + 8 * s, u) # zs" by auto
  let ?r = "a + 8 * s"
  have nx: "hptr h p = ?r" using free_list_next [OF f] y by simp
  have u: "hsize h ?r = u" using f y by (simp add: free_list_def)
  have g: "gaps (xs @ (p, t) # ys)" using f by (simp add: free_list_def)
  have "?r + 8 * u < 2 ^ 31" using b(2) y by (simp add: bend_def)
  then have "join_next a p h = h\<lparr>hptr := (hptr h)(a := hptr h ?r), hsize := (hsize h)(a := s + u)\<rparr>"
    using b(1) a(3) u nx by (simp add: join_next_def hadd_def)
  moreover have "circular ((hptr h)(p := hptr h ?r)) (map fst (xs @ (p, t) # zs))"
    using circular_remove [of "hptr h" "map fst xs" p ?r "map fst zs"] f gaps_distinct [OF g] y
    by (simp add: free_list_def)
  moreover have "\<forall>z \<in> set zs. bend (a, s + u) < fst z" using g y by (auto simp: gaps_def bend_def sorted_wrt_append algebra_simps)
  moreover have "{a ..< bend (a, s + u)} \<union> bytes_of zs = {a ..< bend (a, s)} \<union> bytes_of ys"
    unfolding y bytes_of_def by (auto simp: bend_def algebra_simps)
  moreover have "bend (a, s + u) < 2 ^ 31" using b(2) y by (simp add: bend_def algebra_simps)
  ultimately show ?thesis
    using y by (intro exI [of _ "s + u"] exI [of _ zs] exI [of _ "hptr h ?r"]) auto
next
  case False
  have ne: "hptr h p \<noteq> a + 8 * s"
  proof (cases ys)
    case Nil
    have "hd (map fst xs @ [p]) \<le> p"
      using gaps_sorted [of "xs @ (p, t) # ys"] f by (cases xs) (auto simp: free_list_def sorted_wrt_append)
    then show ?thesis using free_list_next [OF f] Nil a(2) by simp
  next
    case (Cons y ys')
    then show ?thesis using free_list_next [OF f] False by (cases y) auto
  qed
  have "join_next a p h = h\<lparr>hptr := (hptr h)(a := hptr h p), hsize := (hsize h)(a := s)\<rparr>"
    using ne b(1) a(3) by (auto simp: join_next_def hadd_def)
  moreover have "a + 8 * s < fst y" if "y \<in> set ys" for y
  proof (cases ys)
    case (Cons z zs)
    have "a + 8 * s < fst z" using ys False Cons by (cases z) (auto simp: le_less)
    moreover have "fst z \<le> fst y"
      using that f Cons gaps_sorted [of "xs @ (p, t) # ys"] by (auto simp: free_list_def sorted_wrt_append sorted_wrt_map intro: less_imp_le)
    ultimately show ?thesis by simp
  qed (use that in simp)
  moreover have "circular ((hptr h)(p := hptr h p)) (map fst (xs @ (p, t) # ys))"
    using f by (simp add: free_list_def)
  ultimately show ?thesis
    using b(1) by (intro exI [of _ s] exI [of _ ys] exI [of _ "hptr h p"]) (auto simp: bend_def)
qed

definition joined :: "block \<Rightarrow> block \<Rightarrow> block list" where
  "joined x y = (if bend x = fst y then [(fst x, snd x + snd y)] else [x, y])"

lemma joined_bytes: "bytes_of (joined x y) = {fst x ..< bend x} \<union> {fst y ..< bend y}"
  by (auto simp: joined_def bytes_of_def bend_def)

lemma join_prev_ok:
  assumes c: "circular ((hptr h)(p := q)) (map fst (xs @ (p, t) # ys))" and g: "gaps (xs @ (p, t) # ys)"
    and z: "\<forall>x \<in> set (xs @ (p, t) # ys). hsize h (fst x) = snd x"
    and a: "bend (p, t) \<le> a" "p < a" "\<forall>y \<in> set ys. bend (a, s) < fst y" "bend (a, s) < 2 ^ 31"
  defines "h1 \<equiv> h\<lparr>hptr := (hptr h)(a := q), hsize := (hsize h)(a := s)\<rparr>"
  shows "free_list (xs @ joined (p, t) (a, s) @ ys) (join_prev a p h1)"
proof -
  have n: "a \<notin> set (map fst (xs @ (p, t) # ys))" "distinct (map fst (xs @ (p, t) # ys))"
    using g a gaps_distinct [OF g] gaps_sorted [OF g]
    by (fastforce simp: sorted_wrt_append bend_def)+
  have o: "\<forall>x \<in> set xs \<union> set ys. fst x \<noteq> p \<and> fst x \<noteq> a \<and> hsize h (fst x) = snd x"
  proof
    fix x assume x: "x \<in> set xs \<union> set ys"
    then have "fst x \<in> fst ` set xs \<union> fst ` set ys" by auto
    then have "fst x \<noteq> p" "fst x \<noteq> a" using n by auto
    then show "fst x \<noteq> p \<and> fst x \<noteq> a \<and> hsize h (fst x) = snd x" using x z by auto
  qed
  have w: "hadd p t = bend (p, t)" using a by (simp add: hadd_def bend_def)
  have sz: "hsize h p = t" using z by force
  show ?thesis
  proof (cases "bend (p, t) = a")
    case True
    have "t + s < 2 ^ 32" using a(4) True by (simp add: bend_def)
    then have j: "join_prev a p h1 = h1\<lparr>hsize := (hsize h1)(p := t + s), hptr := (hptr h1)(p := q)\<rparr>"
      using w sz True a(2) by (simp add: join_prev_def h1_def)
    have "gaps (xs @ (p, t + s) # ys)" using g True a(3) by (auto simp: gaps_def sorted_wrt_append bend_def algebra_simps)
    moreover have "circular ((hptr h)(a := q, p := q)) (map fst (xs @ (p, t) # ys))"
      using c n(1) circular_cong [of "map fst (xs @ (p, t) # ys)" "(hptr h)(p := q)" "(hptr h)(a := q, p := q)"]
      by (metis fun_upd_other fun_upd_same)
    ultimately show ?thesis
      unfolding j using True o a(2) by (simp add: free_list_def joined_def h1_def)
  next
    case False
    then have j: "join_prev a p h1 = h1\<lparr>hptr := (hptr h1)(p := a)\<rparr>"
      using w sz a(2) by (simp add: join_prev_def h1_def)
    have "gaps (xs @ (p, t) # (a, s) # ys)" using g False a by (auto simp: gaps_def sorted_wrt_append bend_def le_less)
    moreover have "circular ((hptr h)(a := q, p := a)) (map fst (xs @ (p, t) # (a, s) # ys))"
      using circular_insert [of "(hptr h)(p := q)" "map fst xs" p "map fst ys" a] c n a(2)
      by (simp add: fun_upd_twist [of a p])
    ultimately show ?thesis
      unfolding j using False sz a(2) o by (simp add: free_list_def joined_def h1_def)
  qed
qed

lemma free_ok:
  assumes f: "free_list (xs @ (p, t) # ys) h" and r: "freep h \<in> set (map fst (xs @ (p, t) # ys))"
    and a: "bend (p, t) \<le> a" "p < a" "hsize h a = s" "0 < s" "\<forall>y \<in> set ys. a + 8 * s \<le> fst y"
    and b: "a + 8 * s < 2 ^ 31" "\<forall>y \<in> set ys. bend y < 2 ^ 31"
  shows "\<exists>h' s' ys'. free (a + 8) h = Some h' \<and> free_list (xs @ joined (p, t) (a, s') @ ys') h' \<and> freep h' = p \<and>
    bytes_of (joined (p, t) (a, s') @ ys') = {a ..< a + 8 * s} \<union> bytes_of ((p, t) # ys) \<and> s \<le> s' \<and>
    bend (a, s') < 2 ^ 31 \<and> set ys' \<subseteq> set ys \<and>
    hbase h' = hbase h \<and> brk h' = brk h \<and> answers h' = answers h \<and>
    (\<forall>y. y \<noteq> p \<longrightarrow> y \<noteq> a \<longrightarrow> hptr h' y = hptr h y \<and> hsize h' y = hsize h y)"
proof -
  have g: "gaps (xs @ (p, t) # ys)" using f by (simp add: free_list_def)
  have ya: "\<forall>y \<in> set ys. a < fst y" using a(4,5) by fastforce
  have place: "find_place (hptr h) a (freep h) = Some p"
    using find_place_found [of "hptr h" "map fst xs" p "map fst ys" a "freep h"] f r a(2) ya gaps_sorted [OF g]
    by (simp add: free_list_def)
  obtain s' ys' q where j: "join_next a p h = h\<lparr>hptr := (hptr h)(a := q), hsize := (hsize h)(a := s')\<rparr>"
      "circular ((hptr h)(p := q)) (map fst (xs @ (p, t) # ys'))" "\<exists>zs. ys = zs @ ys'" "s \<le> s'"
      "\<forall>y \<in> set ys'. bend (a, s') < fst y" "bend (a, s') < 2 ^ 31"
      "{a ..< bend (a, s')} \<union> bytes_of ys' = {a ..< bend (a, s)} \<union> bytes_of ys"
    using join_next_ok [OF f a b] by blast
  have sub: "set ys' \<subseteq> set ys" using j(3) by auto
  have g': "gaps (xs @ (p, t) # ys')" using g j(3) unfolding gaps_def by (elim exE) (simp add: sorted_wrt_append ball_Un)
  have z: "\<forall>x \<in> set (xs @ (p, t) # ys'). hsize h (fst x) = snd x" using f sub by (auto simp: free_list_def)
  note fl = join_prev_ok [OF j(2) g' z a(1,2) j(5,6)]
  let ?h = "join_prev a p (join_next a p h)"
  have "\<forall>y. y \<noteq> p \<longrightarrow> y \<noteq> a \<longrightarrow> hptr ?h y = hptr h y \<and> hsize ?h y = hsize h y"
    by (simp add: join_prev_def join_next_def Let_def)
  moreover have "hbase ?h = hbase h" "brk ?h = brk h" "answers ?h = answers h"
    by (simp_all add: join_prev_def join_next_def Let_def)
  moreover have "free_list (xs @ joined (p, t) (a, s') @ ys') (?h\<lparr>freep := p\<rparr>)"
    using fl by (simp add: free_list_def j(1))
  moreover have "bytes_of (joined (p, t) (a, s') @ ys') = {a ..< a + 8 * s} \<union> bytes_of ((p, t) # ys)"
    using j(7) joined_bytes [of "(p, t)" "(a, s')"] by (auto simp: bytes_of_def bend_def)
  ultimately show ?thesis
    using place j(4,6) sub
    by (intro exI [of _ "?h\<lparr>freep := p\<rparr>"] exI [of _ s'] exI [of _ ys']) (simp add: free_def)
qed

section \<open>The invariant\<close>

text \<open>\<open>bl\<close> are the free blocks, in the order of their addresses and with a gap between any two
  (neighbours have been merged), \<open>al\<close> the blocks given to the program.\<close>

definition heap_ok :: "block list \<Rightarrow> block list \<Rightarrow> uheap \<Rightarrow> bool" where
  "heap_ok bl al h =
     (free_list ((hbase h, 0) # bl) h \<and> freep h \<in> set (hbase h # map fst bl) \<and>
      sorted_wrt apart al \<and> bytes_of al \<inter> bytes_of bl = {} \<and> bytes_of (bl @ al) \<subseteq> {hbase h + 8 ..< brk h} \<and>
      (\<forall>x \<in> set (bl @ al). 0 < snd x) \<and> (\<forall>x \<in> set al. hsize h (fst x) = snd x) \<and>
      0 < hbase h \<and> hbase h + 8 \<le> brk h \<and> brk h < 2 ^ 31)"

text \<open>No header that overlaps a block of the program, its own among them, has changed.\<close>

definition untouched :: "block list \<Rightarrow> uheap \<Rightarrow> uheap \<Rightarrow> bool" where
  "untouched al h h' = (\<forall>x \<in> set al. \<forall>y. fst x < y + 8 \<longrightarrow> y < bend x \<longrightarrow> hptr h' y = hptr h y \<and> hsize h' y = hsize h y)"

lemma untouched_trans: "untouched al h h' \<Longrightarrow> untouched al h' h'' \<Longrightarrow> untouched al h h''"
  by (simp add: untouched_def)

lemma bytes_of_simps [simp]:
  "bytes_of [] = {}" "bytes_of (x # xs) = {fst x ..< bend x} \<union> bytes_of xs" "bytes_of (xs @ ys) = bytes_of xs \<union> bytes_of ys"
  by (simp_all add: bytes_of_def)

lemma span_in: "x \<in> set xs \<Longrightarrow> {fst x ..< bend x} \<subseteq> bytes_of xs"
  by (auto simp: bytes_of_def)

lemma span_bounds: "0 < snd x \<Longrightarrow> {fst x ..< bend x} \<subseteq> {lo ..< hi} \<longleftrightarrow> lo \<le> fst x \<and> bend x \<le> hi"
  by (auto simp: bend_def atLeastLessThan_subset_iff)

lemma block_bounds:
  assumes "heap_ok bl al h" "x \<in> set (bl @ al)"
  shows "0 < snd x" "hbase h + 8 \<le> fst x" "bend x \<le> brk h"
proof -
  show p: "0 < snd x" using assms unfolding heap_ok_def by blast
  have "{fst x ..< bend x} \<subseteq> {hbase h + 8 ..< brk h}"
    using span_in [OF assms(2)] assms(1) unfolding heap_ok_def by blast
  then show "hbase h + 8 \<le> fst x" "bend x \<le> brk h" using span_bounds [OF p] by simp_all
qed

lemma heap_ok_Cons:
  assumes "heap_ok bl (x # al) h"
  shows "heap_ok bl al h" "{fst x ..< bend x} \<inter> bytes_of al = {}"
proof -
  show "heap_ok bl al h" using assms by (simp add: heap_ok_def Int_Un_distrib2)
  have "\<forall>y \<in> set al. {fst x ..< bend x} \<inter> {fst y ..< bend y} = {}" using assms by (simp add: heap_ok_def apart_def)
  then show "{fst x ..< bend x} \<inter> bytes_of al = {}" unfolding bytes_of_def by blast
qed

text \<open>A header at the start of a free block does not overlap a block of the program.\<close>

lemma header_clear:
  assumes "{fst x ..< bend x} \<inter> {y ..< y + 8} = {}" "0 < snd x" "fst x < y + 8" "y < bend x"
  shows False
proof -
  have "max (fst x) y \<in> {fst x ..< bend x} \<inter> {y ..< y + 8}" using assms(2-4) by (auto simp: bend_def)
  with assms(1) show False by simp
qed

lemma untouchedI:
  assumes "heap_ok bl al h" "\<And>y. y \<notin> ys \<Longrightarrow> hptr h' y = hptr h y \<and> hsize h' y = hsize h y"
    and "\<And>y. y \<in> ys \<Longrightarrow> {y ..< y + 8} \<inter> bytes_of al = {}"
  shows "untouched al h h'"
  unfolding untouched_def
proof (intro ballI allI impI)
  fix x y assume x: "x \<in> set al" and y: "fst x < y + 8" "y < bend x"
  have "0 < snd x" using assms(1) x by (simp add: heap_ok_def)
  then have "y \<notin> ys" using header_clear [OF _ _ y] assms(3) [of y] span_in [OF x] by blast
  then show "hptr h' y = hptr h y \<and> hsize h' y = hsize h y" by (rule assms(2))
qed

lemma node_clear:
  assumes "heap_ok bl al h" "p \<in> set (hbase h # map fst bl)"
  shows "{p ..< p + 8} \<inter> bytes_of al = {}"
proof (cases "p = hbase h")
  case True
  have "bytes_of al \<subseteq> {hbase h + 8 ..< brk h}" using assms(1) by (simp add: heap_ok_def)
  then show ?thesis using True by fastforce
next
  case False
  then obtain x where x: "x \<in> set bl" "p = fst x" using assms(2) by auto
  then have "0 < snd x" using assms(1) by (simp add: heap_ok_def)
  then have "{p ..< p + 8} \<subseteq> {fst x ..< bend x}" using x(2) by (simp add: bend_def)
  then have "{p ..< p + 8} \<subseteq> bytes_of bl" using span_in [OF x(1)] by blast
  then show ?thesis using assms(1) unfolding heap_ok_def by blast
qed

section \<open>Freeing a block\<close>

lemma disjoint_mono: "A \<inter> B = {} \<Longrightarrow> A' \<subseteq> A \<Longrightarrow> B' \<subseteq> B \<Longrightarrow> A' \<inter> B' = {}"
  by blast

lemma gaps_split:
  assumes "gaps bl" "\<forall>y \<in> set bl. 0 < snd y \<and> apart (a, s) y" "0 < s"
  shows "\<exists>ls rs. bl = ls @ rs \<and> (\<forall>y \<in> set ls. bend y \<le> a \<and> fst y < a) \<and> (\<forall>y \<in> set rs. a + 8 * s \<le> fst y)"
proof -
  let ?ls = "takeWhile (\<lambda>y. fst y < a) bl" and ?rs = "dropWhile (\<lambda>y. fst y < a) bl"
  have ap: "bend y \<le> a \<or> a + 8 * s \<le> fst y" if "y \<in> set bl" for y
  proof (rule ccontr)
    assume n: "\<not> ?thesis"
    have "0 < snd y" "apart (a, s) y" using assms(2) that by auto
    then have "max a (fst y) \<in> {a ..< a + 8 * s} \<inter> {fst y ..< bend y}"
      using n assms(3) by (auto simp: bend_def)
    then show False using \<open>apart (a, s) y\<close> by (auto simp: apart_def bend_def)
  qed
  have l: "bend y \<le> a \<and> fst y < a" if "y \<in> set ?ls" for y
    using set_takeWhileD [OF that] ap [of y] by auto
  have r: "a \<le> fst y" if "y \<in> set ?rs" for y
  proof -
    have "?rs \<noteq> []" using that by force
    then obtain z zs where z: "?rs = z # zs" by (meson neq_Nil_conv)
    then have "\<not> fst z < a" using hd_dropWhile [of "\<lambda>y. fst y < a" bl] by simp
    moreover have "gaps ?rs" using assms(1) by (metis gaps_def sorted_wrt_append takeWhile_dropWhile_id)
    then have "\<forall>y \<in> set zs. fst z \<le> fst y" using z by (auto simp: gaps_def bend_def)
    ultimately show ?thesis using that z by auto
  qed
  have "a + 8 * s \<le> fst y" if "y \<in> set ?rs" for y
    using ap [OF set_dropWhileD [OF that]] r [OF that] assms(2) set_dropWhileD [OF that] by (fastforce simp: bend_def)
  then show ?thesis using l takeWhile_dropWhile_id [of "\<lambda>y. fst y < a" bl] by metis
qed

lemma free_heap:
  assumes h: "heap_ok bl ((a, s) # al) h"
  shows "\<exists>bl' h'. free (a + 8) h = Some h' \<and> heap_ok bl' al h' \<and> untouched al h h' \<and>
    bytes_of bl' = bytes_of bl \<union> {a ..< a + 8 * s} \<and> (\<exists>x \<in> set bl'. s \<le> snd x) \<and> brk h' = brk h"
proof -
  have fl: "free_list ((hbase h, 0) # bl) h" "gaps bl" "0 < s" "hsize h a = s" and
    cv: "bytes_of ((a, s) # al) \<inter> bytes_of bl = {}" "bytes_of (bl @ (a, s) # al) \<subseteq> {hbase h + 8 ..< brk h}" and
    ps: "\<forall>x \<in> set (bl @ al). 0 < snd x" and b: "0 < hbase h" "hbase h + 8 \<le> brk h" "brk h < 2 ^ 31"
    using h by (auto simp: heap_ok_def free_list_def gaps_def)
  have a: "hbase h + 8 \<le> a" "a + 8 * s \<le> brk h" using block_bounds [OF h, of "(a, s)"] by (simp_all add: bend_def)
  have "\<forall>y \<in> set bl. 0 < snd y \<and> apart (a, s) y"
  proof
    fix y assume y: "y \<in> set bl"
    then have "0 < snd y" using ps by simp
    moreover have "{a ..< bend (a, s)} \<inter> {fst y ..< bend y} = {}"
      by (rule disjoint_mono [OF cv(1) _ span_in [OF y]]) simp
    ultimately show "0 < snd y \<and> apart (a, s) y" by (simp add: apart_def)
  qed
  then obtain ls rs where lr: "bl = ls @ rs" "\<forall>y \<in> set ls. bend y \<le> a \<and> fst y < a" "\<forall>y \<in> set rs. a + 8 * s \<le> fst y"
    using gaps_split [OF fl(2) _ fl(3)] by blast
  obtain xs p t where xs: "(hbase h, 0) # ls = xs @ [(p, t)]" by (metis rev_exhaust list.discI surj_pair)
  then have full: "(hbase h, 0) # bl = xs @ (p, t) # rs" using lr(1) by simp
  have "(p, t) \<in> set ((hbase h, 0) # ls)" using xs by simp
  then have pt: "bend (p, t) \<le> a" "p < a" using lr(2) a(1) by (auto simp: bend_def)
  have "map fst ((hbase h, 0) # bl) = hbase h # map fst bl" by simp
  then have fr: "freep h \<in> set (map fst (xs @ (p, t) # rs))" using h full by (metis heap_ok_def)
  have rb: "\<forall>y \<in> set rs. bend y < 2 ^ 31"
    using block_bounds(3) [OF h] lr(1) b(3) by fastforce
  obtain h' s' ys' where f: "free (a + 8) h = Some h'" "free_list (xs @ joined (p, t) (a, s') @ ys') h'" "freep h' = p"
      "bytes_of (joined (p, t) (a, s') @ ys') = {a ..< a + 8 * s} \<union> bytes_of ((p, t) # rs)" "s \<le> s'"
      "set ys' \<subseteq> set rs" "hbase h' = hbase h" "brk h' = brk h"
      "\<forall>y. y \<noteq> p \<longrightarrow> y \<noteq> a \<longrightarrow> hptr h' y = hptr h y \<and> hsize h' y = hsize h y"
    using free_ok [OF fl(1) [unfolded full] fr pt fl(4,3) lr(3) _ rb] a(2) b(3) by force
  have "\<exists>bl'. xs @ joined (p, t) (a, s') @ ys' = (hbase h, 0) # bl'"
    using xs a(1) by (cases xs) (auto simp: joined_def bend_def)
  then obtain bl' where bl': "xs @ joined (p, t) (a, s') @ ys' = (hbase h, 0) # bl'" by blast
  have base: "{hbase h ..< bend (hbase h, 0)} = {}" by (simp add: bend_def)
  have bb: "bytes_of bl' = bytes_of bl \<union> {a ..< a + 8 * s}"
    using arg_cong [OF bl', of bytes_of] arg_cong [OF full, of bytes_of] f(4) base by auto
  have unt: "untouched al h h'"
  proof (rule untouchedI [OF heap_ok_Cons(1) [OF h], of "{p, a}"])
    fix y assume "y \<in> {p, a}"
    moreover have "p \<in> set (hbase h # map fst bl)" using arg_cong [OF full, of "\<lambda>l. set (map fst l)"] by auto
    then have "{p ..< p + 8} \<inter> bytes_of al = {}" using node_clear [OF heap_ok_Cons(1) [OF h]] by blast
    moreover have "{a ..< a + 8} \<inter> bytes_of al = {}"
      by (rule disjoint_mono [OF heap_ok_Cons(2) [OF h] _ subset_refl]) (use fl(3) in \<open>simp add: bend_def\<close>)
    ultimately show "{y ..< y + 8} \<inter> bytes_of al = {}" by blast
  qed (use f(9) in blast)
  have pos: "\<forall>x \<in> set bl'. 0 < snd x"
  proof
    fix x assume x: "x \<in> set bl'"
    then have m: "x \<in> set (xs @ joined (p, t) (a, s') @ ys')" unfolding bl' by simp
    have n: "x \<noteq> (hbase h, 0)" using f(2) x unfolding bl' by (auto simp: free_list_def gaps_def bend_def)
    have sub: "set xs \<union> set ys' \<union> {(p, t)} \<subseteq> set ((hbase h, 0) # bl)" using full f(6) by auto
    have pp: "\<forall>y \<in> set ((hbase h, 0) # bl). y = (hbase h, 0) \<or> 0 < snd y" using ps by simp
    have "0 < snd x" if "x \<in> set xs \<union> set ys' \<union> {(p, t)}"
      using bspec [OF pp subsetD [OF sub that]] n by simp
    moreover have "x \<in> set xs \<union> set ys' \<union> {(p, t)} \<or> snd x = s' \<or> snd x = t + s'"
      using m by (auto simp: joined_def split: if_splits)
    ultimately show "0 < snd x" using f(5) fl(3) by linarith
  qed
  have "p \<in> set (map fst (xs @ joined (p, t) (a, s') @ ys'))" by (auto simp: joined_def)
  then have "freep h' \<in> set (hbase h # map fst bl')" unfolding f(3) bl' by simp
  moreover have "\<forall>x \<in> set al. hsize h' (fst x) = snd x"
    using unt h by (auto simp: untouched_def heap_ok_def bend_def)
  moreover have "bytes_of al \<inter> bytes_of bl' = {}"
    using cv(1) heap_ok_Cons(2) [OF h] unfolding bb by (auto simp: bend_def)
  ultimately have "heap_ok bl' al h'"
    using h f(2,7,8) bl' bb pos cv(2) b by (simp add: heap_ok_def bend_def ball_Un)
  moreover have "\<exists>x \<in> set bl'. s \<le> snd x"
  proof -
    have "\<exists>x \<in> set (joined (p, t) (a, s')). s \<le> snd x" using f(5) by (simp add: joined_def)
    then obtain x where x: "x \<in> set (joined (p, t) (a, s'))" "s \<le> snd x" by blast
    then have "x \<in> set ((hbase h, 0) # bl')" using bl' by (metis Un_iff set_append)
    then show ?thesis using x(2) fl(3) by auto
  qed
  ultimately show ?thesis using f(1,8) unt bb by blast
qed

section \<open>Giving a block\<close>

lemma circular_rotate: "circular nx (xs @ y # ys) \<Longrightarrow> circular nx (y # ys @ xs)"
  unfolding circular_split by (cases xs) (simp_all add: circular_def)

definition grow :: "nat \<Rightarrow> uheap \<Rightarrow> (nat \<times> uheap) option" where
  "grow n h = (case morecore n h of
       None \<Rightarrow> None
     | Some (q, h) \<Rightarrow> if q = 0 then Some (0, h) else malloc_loop n q (hptr h q) h)"

text \<open>Once around the list from \<open>f\<close>: \<open>us\<close> have been looked at.\<close>

lemma around:
  assumes "circular (hptr h) (f # us @ vs)" "distinct (f # us @ vs)" "freep h = f"
  shows "(\<exists>pr \<in> set (f # us @ vs). n \<le> hsize h (hptr h pr) \<and>
        malloc_loop n (last (f # us)) (hd (vs @ [f])) h = Some (take_block n pr (hptr h pr) h)) \<or>
    ((\<forall>z \<in> set (f # vs). hsize h z < n) \<and> malloc_loop n (last (f # us)) (hd (vs @ [f])) h = grow n h)"
  using assms
proof (induction vs arbitrary: us)
  case Nil
  obtain ws l where l: "f # us = ws @ [l]" by (metis rev_exhaust list.discI)
  have nl: "hptr h l = f" using circular_next [of "hptr h" ws l "[]"] Nil(1) l by (cases ws) auto
  have m: "l \<in> set (f # us)" "last (f # us) = l" using l by simp_all
  show ?case
  proof (cases "n \<le> hsize h f")
    case True
    then show ?thesis using m nl
      by (intro disjI1 bexI [of _ l]) (simp_all add: malloc_loop.simps [of n l f])
  next
    case False
    then show ?thesis
      using m Nil(3) by (intro disjI2) (simp add: malloc_loop.simps [of n l f] grow_def)
  qed
next
  case (Cons v vs)
  obtain ws l where l: "f # us = ws @ [l]" by (metis rev_exhaust list.discI)
  have nl: "hptr h l = v" using circular_next [of "hptr h" ws l "v # vs"] Cons.prems(1) l by (metis append_Cons append_assoc append_Nil list.sel(1))
  have "l \<in> set (f # us)" and m2: "last (f # us) = l" using l by simp_all
  then have m: "l \<in> set (f # us @ v # vs)" "last (f # us) = l" by auto
  have nv: "hptr h v = hd (vs @ [f])" using circular_next [of "hptr h" "f # us" v vs] Cons.prems(1) by simp
  show ?case
  proof (cases "n \<le> hsize h v")
    case True
    then show ?thesis using m nl
      by (intro disjI1 bexI [of _ l]) (simp_all add: malloc_loop.simps [of n l v])
  next
    case False
    moreover have "v \<noteq> freep h" using Cons.prems(2,3) by auto
    ultimately have "malloc_loop n l v h = malloc_loop n v (hd (vs @ [f])) h"
      by (subst malloc_loop.simps) (simp add: nv)
    then show ?thesis
      using Cons.IH [of "us @ [v]"] Cons.prems m(2) False by auto
  qed
qed

text \<open>The search from \<open>freep\<close> finds a block that is large enough, if there is one.\<close>

lemma search:
  assumes h: "heap_ok bl al h" and n: "0 < n"
  shows "(\<exists>ls p u rs pr. bl = ls @ (p, u) # rs \<and> n \<le> u \<and> pr = fst (last ((hbase h, 0) # ls)) \<and>
      malloc_loop n (freep h) (hptr h (freep h)) h = Some (take_block n pr p h)) \<or>
    ((\<forall>x \<in> set bl. snd x < n) \<and> malloc_loop n (freep h) (hptr h (freep h)) h = grow n h)"
proof -
  let ?ns = "hbase h # map fst bl"
  have fl: "free_list ((hbase h, 0) # bl) h" using h by (simp add: heap_ok_def)
  then have c: "circular (hptr h) ?ns" and d: "distinct ?ns" and sz: "hsize h (hbase h) = 0" "\<forall>x \<in> set bl. hsize h (fst x) = snd x"
    using gaps_distinct [of "(hbase h, 0) # bl"] by (simp_all add: free_list_def)
  have "freep h \<in> set ?ns" using h by (simp add: heap_ok_def)
  then obtain xs ys where ns: "?ns = xs @ freep h # ys" by (meson split_list)
  have c': "circular (hptr h) (freep h # ys @ xs)" using circular_rotate [of "hptr h" xs "freep h" ys] c ns by simp
  have s: "set (freep h # ys @ xs) = set ?ns" unfolding ns by auto
  have nx: "hptr h (freep h) = hd ((ys @ xs) @ [freep h])"
    using circular_next [of "hptr h" "[]" "freep h" "ys @ xs"] c' by simp
  have d': "distinct (freep h # ys @ xs)" using d unfolding ns by auto
  note ar = around [of h "freep h" "[]" "ys @ xs" n, unfolded append_Nil, OF c' d' refl, unfolded s nx [symmetric] last.simps]
  from ar
  consider pr where "pr \<in> set ?ns" "n \<le> hsize h (hptr h pr)"
      "malloc_loop n (freep h) (hptr h (freep h)) h = Some (take_block n pr (hptr h pr) h)"
    | "\<forall>z \<in> set ?ns. hsize h z < n" "malloc_loop n (freep h) (hptr h (freep h)) h = grow n h"
    by auto
  then show ?thesis
  proof cases
    case 1
    have "hptr h ` set ?ns = set ?ns"
      using arg_cong [OF c [unfolded circular_def], of set] by (simp add: image_image)
    then have "hptr h pr \<in> set ?ns" using 1(1) by blast
    moreover have "hptr h pr \<noteq> hbase h" using 1(2) n sz(1) by auto
    ultimately obtain x where x: "x \<in> set bl" "fst x = hptr h pr" by auto
    then obtain ls rs where lr: "bl = ls @ x # rs" by (meson split_list)
    obtain ws p t where w: "(hbase h, 0) # ls = ws @ [(p, t)]" by (metis rev_exhaust list.discI surj_pair)
    have full: "(hbase h, 0) # bl = ws @ (p, t) # x # rs" using w lr by simp
    have "hptr h p = fst x" using free_list_next [OF fl [unfolded full]] by simp
    moreover have "p \<in> set ?ns" using arg_cong [OF full, of "\<lambda>l. set (map fst l)"] by auto
    ultimately have "pr = p" using inj_onD [OF circular_inj [OF c d]] x(2) 1(1) by simp
    then have "pr = fst (last ((hbase h, 0) # ls))" using w by simp
    moreover have "bl = ls @ (hptr h pr, snd x) # rs" "n \<le> snd x"
      using lr 1(2) sz(2) x by (metis prod.collapse, metis)
    ultimately show ?thesis using 1(3) by blast
  next
    case 2
    then show ?thesis using sz(2) by fastforce
  qed
qed

lemma apart_all: "bytes_of al \<inter> {fst y ..< bend y} = {} \<Longrightarrow> \<forall>x \<in> set al. apart y x"
  unfolding bytes_of_def apart_def by blast

lemma gaps_apart:
  assumes "gaps (xs @ y # zs)"
  shows "bytes_of (xs @ zs) \<inter> {fst y ..< bend y} = {}"
proof -
  have "bend x < fst y" if "x \<in> set xs" for x using assms that by (simp add: gaps_def sorted_wrt_append)
  moreover have "bend y < fst x" if "x \<in> set zs" for x using assms that by (simp add: gaps_def sorted_wrt_append)
  ultimately show ?thesis unfolding bytes_of_def by fastforce
qed

lemma gaps_del: "gaps (xs @ y # zs) \<Longrightarrow> gaps (xs @ zs)"
  by (simp add: gaps_def sorted_wrt_append)

lemma take_whole:
  assumes h: "heap_ok (ls @ (p, n) # rs) al h" and pr: "pr = fst (last ((hbase h, 0) # ls))"
  defines "h' \<equiv> h\<lparr>hptr := (hptr h)(pr := hptr h p), freep := pr\<rparr>"
  shows "heap_ok (ls @ rs) ((p, n) # al) h' \<and> untouched al h h'"
proof -
  obtain ws v where w: "(hbase h, 0) # ls = ws @ [(pr, v)]" by (metis rev_exhaust list.discI surj_pair last_snoc fst_conv pr)
  then have full: "(hbase h, 0) # ls @ (p, n) # rs = ws @ (pr, v) # (p, n) # rs" "(hbase h, 0) # ls @ rs = ws @ (pr, v) # rs" by simp_all
  have fl: "free_list (ws @ (pr, v) # (p, n) # rs) h" using h full(1) by (simp add: heap_ok_def)
  then have g: "gaps ((hbase h, 0) # ls @ (p, n) # rs)" unfolding full(1) by (simp add: free_list_def)
  have "circular (hptr h') (map fst ws @ pr # map fst rs)"
    using fl circular_remove [of "hptr h" "map fst ws" pr p "map fst rs"] gaps_distinct [of "ws @ (pr, v) # (p, n) # rs"]
    by (simp add: free_list_def h'_def)
  then have new: "free_list ((hbase h, 0) # ls @ rs) h'"
    using fl gaps_del [of "ws @ [(pr, v)]" "(p, n)" rs] unfolding full by (auto simp: free_list_def h'_def)
  have node: "pr \<in> set (hbase h # map fst (ls @ rs))" using arg_cong [OF full(2), of "\<lambda>l. set (map fst l)"] by auto
  have ap: "bytes_of (ls @ rs) \<inter> {p ..< bend (p, n)} = {}"
    using gaps_apart [of "(hbase h, 0) # ls" "(p, n)" rs] g by (simp add: Int_Un_distrib2)
  have cv: "bytes_of al \<inter> bytes_of (ls @ (p, n) # rs) = {}" using h by (simp add: heap_ok_def)
  have "\<forall>x \<in> set al. apart (p, n) x"
    by (rule apart_all, rule disjoint_mono [OF cv]) auto
  then have "heap_ok (ls @ rs) ((p, n) # al) h'"
    using h new node ap cv fl by (auto simp: heap_ok_def h'_def free_list_def)
  moreover have "untouched al h h'"
  proof (rule untouchedI [OF h, of "{pr}"])
    fix y assume "y \<in> {pr}"
    moreover have "pr \<in> set (hbase h # map fst (ls @ (p, n) # rs))" using node by auto
    ultimately show "{y ..< y + 8} \<inter> bytes_of al = {}" using node_clear [OF h] by blast
  qed (simp add: h'_def)
  ultimately show ?thesis by blast
qed

lemma take_end:
  assumes h: "heap_ok (ls @ (p, u) # rs) al h" and n: "0 < n" "n < u" and pr: "pr = fst (last ((hbase h, 0) # ls))"
  defines "q \<equiv> p + 8 * (u - n)"
  defines "h' \<equiv> h\<lparr>hsize := (hsize h)(p := u - n, q := n), freep := pr\<rparr>"
  shows "heap_ok (ls @ (p, u - n) # rs) ((q, n) # al) h' \<and> untouched al h h'"
proof -
  have fl: "free_list ((hbase h, 0) # ls @ (p, u) # rs) h" and cv: "bytes_of al \<inter> bytes_of (ls @ (p, u) # rs) = {}"
    using h by (simp_all add: heap_ok_def)
  then have g: "gaps ((hbase h, 0) # ls @ (p, u) # rs)" by (simp add: free_list_def)
  have q: "p < q" "q + 8 * n = p + 8 * u" using n by (simp_all add: q_def diff_mult_distrib2)
  have sub: "{q ..< bend (q, n)} \<subseteq> {p ..< bend (p, u)}" "{p ..< bend (p, u - n)} \<union> {q ..< bend (q, n)} = {p ..< bend (p, u)}"
    "{p ..< bend (p, u - n)} \<inter> {q ..< bend (q, n)} = {}"
    using q n by (auto simp: bend_def q_def)
  have ap: "bytes_of (ls @ rs) \<inter> {p ..< bend (p, u)} = {}"
    using gaps_apart [of "(hbase h, 0) # ls" "(p, u)" rs] g by (simp add: Int_Un_distrib2)
  have q_out: "fst x \<noteq> q \<and> fst x \<noteq> p" if "x \<in> set ((hbase h, 0) # ls @ rs)" for x
  proof -
    have "bend x < p \<or> p + 8 * u < fst x" using g that by (auto simp: gaps_def sorted_wrt_append bend_def)
    then show ?thesis using q n by (auto simp: bend_def)
  qed
  have qb: "hbase h \<noteq> q" "hbase h \<noteq> p" using q_out [of "(hbase h, 0)"] by auto
  have "gaps ((hbase h, 0) # ls @ (p, u - n) # rs)" using g n(2) by (auto simp: gaps_def sorted_wrt_append bend_def)
  moreover have "\<forall>x \<in> set ls \<union> set rs. hsize h' (fst x) = snd x" "hsize h' (hbase h) = 0" "hsize h' p = u - n"
    using fl q_out q qb by (auto simp: h'_def free_list_def)
  ultimately have new: "free_list ((hbase h, 0) # ls @ (p, u - n) # rs) h'"
    using fl q(1) qb by (simp add: free_list_def h'_def)
  have node: "pr \<in> set (hbase h # map fst (ls @ (p, u - n) # rs))"
    using pr last_in_set [of "(hbase h, 0) # ls"] by auto
  have unt: "untouched al h h'"
  proof (rule untouchedI [OF h, of "{p, q}"])
    fix y assume "y \<in> {p, q}"
    moreover have "p \<in> set (hbase h # map fst (ls @ (p, u) # rs))" by simp
    then have "{p ..< p + 8} \<inter> bytes_of al = {}" using node_clear [OF h] by blast
    moreover have "{q ..< q + 8} \<subseteq> {q ..< bend (q, n)}" using n by (simp add: bend_def)
    then have "{q ..< q + 8} \<inter> bytes_of al = {}" using cv sub(1) by auto
    ultimately show "{y ..< y + 8} \<inter> bytes_of al = {}" by blast
  qed (simp add: h'_def)
  have "\<forall>x \<in> set al. apart (q, n) x"
    by (rule apart_all, rule disjoint_mono [OF cv]) (use sub(1) in auto)
  moreover have "\<forall>x \<in> set al. hsize h' (fst x) = snd x"
    using unt h by (auto simp: untouched_def heap_ok_def bend_def)
  moreover have "bytes_of ((q, n) # al) \<inter> bytes_of (ls @ (p, u - n) # rs) = {}"
    using cv sub ap unfolding bytes_of_simps fst_conv by blast
  moreover have "bytes_of (ls @ (p, u) # rs) \<union> bytes_of al \<subseteq> {hbase h + 8 ..< brk h}"
    using h unfolding heap_ok_def bytes_of_simps by blast
  then have "bytes_of ((ls @ (p, u - n) # rs) @ (q, n) # al) \<subseteq> {hbase h + 8 ..< brk h}"
    using sub(2) unfolding bytes_of_simps fst_conv by blast
  ultimately have "heap_ok (ls @ (p, u - n) # rs) ((q, n) # al) h'"
    using h new node n by (simp add: heap_ok_def h'_def)
  then show ?thesis using unt by blast
qed

lemma take_ok:
  assumes h: "heap_ok (ls @ (p, u) # rs) al h" and n: "0 < n" "n \<le> u" and pr: "pr = fst (last ((hbase h, 0) # ls))"
  shows "\<exists>bl' a h'. take_block n pr p h = (a + 8, h') \<and> heap_ok bl' ((a, n) # al) h' \<and> untouched al h h' \<and>
    bytes_of (ls @ (p, u) # rs) \<subseteq> bytes_of bl' \<union> {a ..< a + 8 * n}"
proof -
  have u: "hsize h p = u" using h by (simp add: heap_ok_def free_list_def)
  have b: "p + 8 * u < 2 ^ 31" using block_bounds(3) [OF h, of "(p, u)"] h by (simp add: bend_def heap_ok_def)
  show ?thesis
  proof (cases "n = u")
    case True
    then have "take_block n pr p h = (p + 8, h\<lparr>hptr := (hptr h)(pr := hptr h p), freep := pr\<rparr>)"
      using u by (simp add: take_block_def)
    moreover have "bytes_of (ls @ (p, u) # rs) \<subseteq> bytes_of (ls @ rs) \<union> {p ..< p + 8 * n}" using True by (auto simp: bend_def)
    ultimately show ?thesis using take_whole [OF h pr] True by blast
  next
    case False
    then have "take_block n pr p h =
        (p + 8 * (u - n) + 8, h\<lparr>hsize := (hsize h)(p := u - n, p + 8 * (u - n) := n), freep := pr\<rparr>)"
      using u b by (simp add: take_block_def hadd_def Let_def)
    moreover have "n < u" using False n(2) by simp
    moreover have "bytes_of (ls @ (p, u) # rs) \<subseteq> bytes_of (ls @ (p, u - n) # rs) \<union> {p + 8 * (u - n) ..< p + 8 * (u - n) + 8 * n}"
      using n(2) by (auto simp: bend_def diff_mult_distrib2)
    ultimately show ?thesis using take_end [OF h n(1) _ pr] by blast
  qed
qed

lemma sbrk_grows:
  assumes "0 < m" "m < 2 ^ 31"
  shows "sbrk m h = (None, h\<lparr>answers := tl (answers h)\<rparr>) \<or>
    sbrk m h = (Some (brk h), h\<lparr>brk := brk h + m, answers := tl (answers h)\<rparr>) \<and> brk h + m < 2 ^ 31"
proof (cases "answers h")
  case (Cons a as)
  then show ?thesis using assms by (cases a) (simp_all add: sbrk_def)
qed (use assms in \<open>simp add: sbrk_def\<close>)

lemma morecore_ok:
  assumes h: "heap_ok bl al h" and n: "0 < n" "n \<le> 2 ^ 27 + 1"
  shows "(\<exists>h'. morecore n h = Some (0, h') \<and> heap_ok bl al h' \<and> untouched al h h') \<or>
    (\<exists>bl' h'. morecore n h = Some (freep h', h') \<and> freep h' \<noteq> 0 \<and> heap_ok bl' al h' \<and> untouched al h h' \<and>
      bytes_of bl \<subseteq> bytes_of bl' \<and> (\<exists>x \<in> set bl'. n \<le> snd x))"
proof -
  define nu where "nu = (if n < 4096 then 4096 else n)"
  have nu: "n \<le> nu" "0 < nu" "nu \<le> 2 ^ 27 + 1" using n by (simp_all add: nu_def)
  then have w: "wrap32 (nu * 8) = 8 * nu" "8 * nu < 2 ^ 31" by simp_all
  define as where "as = tl (answers h)"
  have s: "sbrk (8 * nu) h = (None, h\<lparr>answers := as\<rparr>) \<or>
      sbrk (8 * nu) h = (Some (brk h), h\<lparr>brk := brk h + 8 * nu, answers := as\<rparr>) \<and> brk h + 8 * nu < 2 ^ 31"
    unfolding as_def by (rule sbrk_grows) (use nu w(2) in simp_all)
  show ?thesis
  proof (cases "sbrk (8 * nu) h = (None, h\<lparr>answers := as\<rparr>)")
    case True
    then have "morecore n h = Some (0, h\<lparr>answers := as\<rparr>)" using w by (simp add: morecore_def Let_def mult.commute [of nu] flip: nu_def)
    moreover have "heap_ok bl al (h\<lparr>answers := as\<rparr>)" using h by (simp add: heap_ok_def free_list_def)
    moreover have "untouched al h (h\<lparr>answers := as\<rparr>)" by (simp add: untouched_def)
    ultimately show ?thesis by blast
  next
    case False
    then have s': "sbrk (8 * nu) h = (Some (brk h), h\<lparr>brk := brk h + 8 * nu, answers := as\<rparr>)" "brk h + 8 * nu < 2 ^ 31"
      using s by auto
    define h1 where "h1 = h\<lparr>brk := brk h + 8 * nu, answers := as, hsize := (hsize h)(brk h := nu)\<rparr>"
    have lo: "fst x + 8 \<le> brk h" if "x \<in> set (bl @ al)" for x
      using block_bounds [OF h that] by (simp add: bend_def)
    have b: "bytes_of (bl @ al) \<subseteq> {hbase h + 8 ..< brk h}" "hbase h + 8 \<le> brk h" using h by (simp_all add: heap_ok_def)
    then have dis: "bytes_of (bl @ al) \<inter> {brk h ..< bend (brk h, nu)} = {}" by fastforce
    have "free_list ((hbase h1, 0) # bl) h1"
      using h lo b(2) unfolding heap_ok_def free_list_def h1_def by force
    moreover have "\<forall>x \<in> set al. apart (brk h, nu) x" by (rule apart_all) (use dis in auto)
    moreover have "\<forall>x \<in> set al. hsize h1 (fst x) = snd x" using h lo unfolding heap_ok_def h1_def by force
    moreover have "bytes_of (bl @ (brk h, nu) # al) \<subseteq> {hbase h + 8 ..< brk h + 8 * nu}"
      using b by (fastforce simp: bend_def)
    ultimately have h1: "heap_ok bl ((brk h, nu) # al) h1"
      using h nu dis s'(2) b(2) by (auto simp: heap_ok_def h1_def bend_def)
    obtain bl' h' where f: "free (brk h + 8) h1 = Some h'" "heap_ok bl' al h'" "untouched al h1 h'"
        "bytes_of bl' = bytes_of bl \<union> {brk h ..< brk h + 8 * nu}" "\<exists>x \<in> set bl'. nu \<le> snd x"
      using free_heap [OF h1] by blast
    have "bytes_of al \<inter> {brk h ..< brk h + 8} = {}" 
      by (rule disjoint_mono [OF dis]) (use nu(2) in \<open>simp_all add: bend_def\<close>)
    then have "untouched al h h1"
      by (intro untouchedI [OF h, of "{brk h}"]) (auto simp: h1_def)
    then have "untouched al h h'" by (rule untouched_trans) (rule f(3))
    moreover have "morecore n h = Some (freep h', h')"
      using w s'(1) f(1) by (simp add: morecore_def Let_def h1_def mult.commute [of nu] flip: nu_def)
    moreover have "freep h' \<noteq> 0"
    proof -
      have "freep h' = hbase h' \<or> (\<exists>x \<in> set bl'. freep h' = fst x)" "0 < hbase h'" using f(2) by (auto simp: heap_ok_def)
      then show ?thesis using block_bounds(2) [OF f(2)] by fastforce
    qed
    moreover have "bytes_of bl \<subseteq> bytes_of bl'" using f(4) by simp
    moreover have "\<exists>x \<in> set bl'. n \<le> snd x" using f(5) nu(1) le_trans by blast
    ultimately show ?thesis using f(2) by blast
  qed
qed

section \<open>The allocator\<close>

text \<open>Before the first call, or with its list.\<close>

definition heap_state :: "block list \<Rightarrow> block list \<Rightarrow> uheap \<Rightarrow> bool" where
  "heap_state bl al h =
     (heap_ok bl al h \<or> freep h = 0 \<and> bl = [] \<and> al = [] \<and> 0 < hbase h \<and> hbase h + 8 \<le> brk h \<and> brk h < 2 ^ 31)"

lemma first_call:
  assumes "heap_state bl al h"
  defines "h0 \<equiv> (if freep h = 0
    then h\<lparr>hptr := (hptr h)(hbase h := hbase h), hsize := (hsize h)(hbase h := 0), freep := hbase h\<rparr> else h)"
  shows "heap_ok bl al h0 \<and> untouched al h h0"
proof (cases "heap_ok bl al h")
  case True
  then have "freep h = hbase h \<or> (\<exists>x \<in> set bl. freep h = fst x)" "0 < hbase h" by (auto simp: heap_ok_def)
  then have "freep h \<noteq> 0" using block_bounds(2) [OF True] by fastforce
  then show ?thesis using True by (simp add: h0_def untouched_def)
next
  case False
  then show ?thesis
    using assms(1) by (auto simp: heap_state_def h0_def heap_ok_def free_list_def gaps_def circular_def untouched_def)
qed

lemma nunits_bound: "nbytes \<le> 2 ^ 30 \<Longrightarrow> 0 < nunits nbytes \<and> nunits nbytes \<le> 2 ^ 27 + 1 \<and> nbytes \<le> 8 * (nunits nbytes - 1)"
  by (simp add: nunits_def) linarith


definition fresh :: uheap where
  "fresh = \<lparr>hptr = \<lambda>_. 0, hsize = \<lambda>_. 0, hbase = 0x2000, freep = 0, brk = 0x5000, answers = [True]\<rparr>"

lemma fresh_state: "heap_state [] [] fresh"
  by (simp add: heap_state_def fresh_def)


lemma heap_ok_swap: "heap_ok bl (xs @ y # zs) h \<Longrightarrow> heap_ok bl (y # xs @ zs) h"
  by (auto simp: heap_ok_def sorted_wrt_append apart_def ball_Un)

text \<open>C23: \<^verbatim>\<open>free\<close> of any block of the program ends, puts exactly its bytes back on the list and leaves
  the other blocks as they were.\<close>

theorem free_takes_back:
  assumes "heap_ok bl (al1 @ (a, s) # al2) h"
  shows "\<exists>bl' h'. free (a + 8) h = Some h' \<and> heap_ok bl' (al1 @ al2) h' \<and> untouched (al1 @ al2) h h' \<and>
    bytes_of bl' = bytes_of bl \<union> {a ..< a + 8 * s}"
  using free_heap [OF heap_ok_swap [OF assms]] by blast

text \<open>The heap with one free block of 100 units and one block of 50 units behind it in use.\<close>

definition used_heap :: uheap where
  "used_heap = \<lparr>hptr = (\<lambda>_. 0)(0x2000 := 0x5000, 0x5000 := 0x2000), hsize = (\<lambda>_. 0)(0x5000 := 100, 0x5320 := 50),
     hbase = 0x2000, freep = 0x5000, brk = 0x6000, answers = []\<rparr>"

lemma used_heap_ok: "heap_ok [(0x5000, 100)] [(0x5320, 50)] used_heap"
  by (simp add: heap_ok_def used_heap_def free_list_def gaps_def circular_def bend_def)

theorem free_takes_back_witness:
  "\<exists>bl h'. free 0x5328 used_heap = Some h' \<and> heap_ok bl [] h' \<and> bytes_of bl = {0x5000 ..< 0x54B0}"
proof -
  have "bytes_of [(0x5000, 100)] \<union> {0x5320 ..< 0x5320 + 8 * 50} = {0x5000 ..< 0x54B0}"
    by (auto simp: bend_def)
  then show ?thesis
    using free_takes_back [of "[(0x5000, 100)]" "[]" "0x5320" 50 "[]" used_heap] used_heap_ok by auto
qed

text \<open>The computation of the units wraps: a request for all but a few of the \<open>2 ^ 32\<close> bytes is served by
  a block of one unit, which holds only its header.\<close>

lemma nunits_wraps: "nunits (2 ^ 32 - 1) = 1" "nunits (2 ^ 32 - 8) = 2 ^ 29"
  by (simp_all add: nunits_def)

text \<open>Then \<open>morecore\<close> asks for 0 bytes, which the kernel grants, and writes a header behind the end of the
  process.\<close>

lemma morecore_wraps: "morecore (2 ^ 29) h =
  map_option (\<lambda>h. (freep h, h)) (free (brk h + 8) (h\<lparr>hsize := (hsize h)(brk h := 2 ^ 29)\<rparr>))"
  by (simp add: morecore_def sbrk_def split: option.split)

end
