(* ===== verification/Mkfs.thy ===== *)
theory Mkfs
  imports Fs Ide
begin

text \<open>
  Building the first file system (\<^verbatim>\<open>mkfs.c\<close>): a program of the host that writes an image block by
  block. The fields of the image are little-endian, which \<^verbatim>\<open>xshort\<close> and \<^verbatim>\<open>xint\<close> see to and \<open>le16\<close>,
  \<open>le32\<close> describe. The files to copy are given as the pieces that \<^verbatim>\<open>read\<close> returns. \<open>None\<close> is an exit
  with an error or a failed \<^verbatim>\<open>assert\<close>; reads and writes inside the image succeed. The last
  section shows that the kernel's \<open>file_bytes\<close> finds in the image what \<^verbatim>\<open>mkfs\<close> was given.
\<close>

section \<open>The image\<close>

definition NINODES :: nat where
  "NINODES = 200"

definition nbitmap :: nat where
  "nbitmap = FSSIZE div (BSIZE * 8) + 1"

definition ninodeblocks :: nat where
  "ninodeblocks = NINODES div IPB + 1"

definition nmeta :: nat where
  "nmeta = 2 + LOGSIZE + ninodeblocks + nbitmap"

definition mk_sb :: superblock where
  "mk_sb = \<lparr>sbsize = FSSIZE, nblocks = FSSIZE - nmeta, ninodes = NINODES, nlog = LOGSIZE, logstart = 2,
     inodestart = 2 + LOGSIZE, bmapstart = 2 + LOGSIZE + ninodeblocks\<rparr>"

record mkfs =
  img :: "nat \<Rightarrow> byte list"
  freeinode :: nat
  freeblock :: nat

definition wsect :: "nat \<Rightarrow> byte list \<Rightarrow> mkfs \<Rightarrow> mkfs" where
  "wsect sec buf m = m\<lparr>img := (img m)(sec := buf)\<rparr>"

text \<open>Reading behind the end of the image fails.\<close>

definition rsect :: "nat \<Rightarrow> mkfs \<Rightarrow> byte list option" where
  "rsect sec m = (if sec < FSSIZE then Some (img m sec) else None)"

definition winode :: "nat \<Rightarrow> dinode \<Rightarrow> mkfs \<Rightarrow> mkfs option" where
  "winode i din m = (let bn = IBLOCK i mk_sb in
     map_option (\<lambda>buf. wsect bn (splice (DINODESIZE * (i mod IPB)) (dinode_bytes din) buf) m) (rsect bn m))"

definition rinode :: "nat \<Rightarrow> mkfs \<Rightarrow> dinode option" where
  "rinode i m = map_option (\<lambda>buf. dinode_at buf (i mod IPB)) (rsect (IBLOCK i mk_sb) m)"

definition new_dinode :: "u16 \<Rightarrow> dinode" where
  "new_dinode type = \<lparr>dtype = type, dmajor = 0, dminor = 0, dnlink = 1, dsize = 0, daddrs = replicate (NDIRECT + 1) 0\<rparr>"

definition mk_ialloc :: "u16 \<Rightarrow> mkfs \<Rightarrow> (nat \<times> mkfs) option" where
  "mk_ialloc type m = (let i = freeinode m in
     map_option (\<lambda>m. (i, m)) (winode i (new_dinode type) (m\<lparr>freeinode := i + 1\<rparr>)))"

definition mk_balloc :: "nat \<Rightarrow> mkfs \<Rightarrow> mkfs option" where
  "mk_balloc nused m =
     (if nused < BSIZE * 8
      then Some (wsect (bmapstart mk_sb)
        (foldl (\<lambda>buf i. buf[i div 8 := buf ! (i div 8) OR bitmask i]) (replicate BSIZE 0) [0..<nused]) m)
      else None)"

text \<open>The block \<open>fbn\<close> of the file with the inode \<open>din\<close>, allocated if it has none.\<close>

definition mk_block :: "nat \<Rightarrow> dinode \<Rightarrow> mkfs \<Rightarrow> (nat \<times> dinode \<times> mkfs) option" where
  "mk_block fbn din m =
     (if fbn < NDIRECT then
        (if daddrs din ! fbn = 0
         then Some (freeblock m, din\<lparr>daddrs := (daddrs din)[fbn := freeblock m]\<rparr>, m\<lparr>freeblock := freeblock m + 1\<rparr>)
         else Some (daddrs din ! fbn, din, m))
      else
        (let (din, m) = (if daddrs din ! NDIRECT = 0
           then (din\<lparr>daddrs := (daddrs din)[NDIRECT := freeblock m]\<rparr>, m\<lparr>freeblock := freeblock m + 1\<rparr>) else (din, m));
             ind = daddrs din ! NDIRECT
         in case rsect ind m of
              None \<Rightarrow> None
            | Some indirect \<Rightarrow>
                if uint_at indirect (fbn - NDIRECT) = 0
                then Some (freeblock m, din, wsect ind (put_uint (fbn - NDIRECT) (freeblock m) indirect) (m\<lparr>freeblock := freeblock m + 1\<rparr>))
                else Some (uint_at indirect (fbn - NDIRECT), din, m)))"

function iappend_loop :: "nat \<Rightarrow> byte list \<Rightarrow> dinode \<Rightarrow> mkfs \<Rightarrow> (nat \<times> dinode \<times> mkfs) option" where
  "iappend_loop off p din m =
     (if p = [] then Some (off, din, m)
      else let fbn = off div BSIZE in
        if MAXFILE \<le> fbn then None
        else case mk_block fbn din m of
          None \<Rightarrow> None
        | Some (x, din, m) \<Rightarrow>
            let n1 = min (length p) ((fbn + 1) * BSIZE - off) in
            (case rsect x m of
               None \<Rightarrow> None
             | Some buf \<Rightarrow>
                 iappend_loop (off + n1) (drop n1 p) din (wsect x (splice (off - fbn * BSIZE) (take n1 p) buf) m)))"
  by pat_completeness auto

lemma block_room: "0 < (off div BSIZE + 1) * BSIZE - off"
  by (metis BSIZE_def add.commute dividend_less_div_times mult.commute zero_less_diff zero_less_numeral mult_Suc Suc_eq_plus1)

termination iappend_loop
  by (relation "measure (\<lambda>(off, p, din, m). length p)") (use block_room in \<open>auto simp: min_def\<close>)

declare iappend_loop.simps [simp del]

definition iappend :: "nat \<Rightarrow> byte list \<Rightarrow> mkfs \<Rightarrow> mkfs option" where
  "iappend i xp m = (case rinode i m of
       None \<Rightarrow> None
     | Some din \<Rightarrow> (case iappend_loop (unat (dsize din)) xp din m of
         None \<Rightarrow> None
       | Some (off, din, m) \<Rightarrow> winode i (din\<lparr>dsize := of_nat off\<rparr>) m))"

section \<open>The program\<close>

definition dirent :: "nat \<Rightarrow> byte list \<Rightarrow> byte list" where
  "dirent i name = le16 (of_nat i) @ name_field name"

fun append_all :: "nat \<Rightarrow> byte list list \<Rightarrow> mkfs \<Rightarrow> mkfs option" where
  "append_all i [] m = Some m"
| "append_all i (piece # pieces) m = (case iappend i piece m of None \<Rightarrow> None | Some m \<Rightarrow> append_all i pieces m)"

text \<open>\<open>files\<close>: the name of each argument and what \<^verbatim>\<open>open\<close> and \<^verbatim>\<open>read\<close> give for it.\<close>

definition copy_file :: "nat \<Rightarrow> byte list \<Rightarrow> byte list list option \<Rightarrow> mkfs \<Rightarrow> mkfs option" where
  "copy_file rootino name data m =
     (if slash \<in> set name then None
      else case data of
        None \<Rightarrow> None
      | Some pieces \<Rightarrow>
          let name = (if name \<noteq> [] \<and> hd name = of_char (CHR ''_'') then tl name else name) in
          (case mk_ialloc T_FILE m of
             None \<Rightarrow> None
           | Some (i, m) \<Rightarrow> (case iappend rootino (dirent i name) m of
               None \<Rightarrow> None
             | Some m \<Rightarrow> append_all i pieces m)))"

fun copy_files :: "nat \<Rightarrow> (byte list \<times> byte list list option) list \<Rightarrow> mkfs \<Rightarrow> mkfs option" where
  "copy_files rootino [] m = Some m"
| "copy_files rootino ((name, data) # files) m =
     (case copy_file rootino name data m of None \<Rightarrow> None | Some m \<Rightarrow> copy_files rootino files m)"

definition sb_bytes :: "superblock \<Rightarrow> byte list" where
  "sb_bytes s = concat (map (\<lambda>w. le32 (of_nat w))
     [sbsize s, nblocks s, ninodes s, nlog s, logstart s, inodestart s, bmapstart s])"

text \<open>The image after the superblock and the root directory with its two entries.\<close>

definition mk_root :: "(nat \<times> mkfs) option" where
  "mk_root =
     (let m = \<lparr>img = \<lambda>_. replicate BSIZE 0, freeinode = 1, freeblock = nmeta\<rparr>;
          m = wsect 1 (splice 0 (sb_bytes mk_sb) (replicate BSIZE 0)) m
      in case mk_ialloc T_DIR m of
           None \<Rightarrow> None
         | Some (rootino, m) \<Rightarrow>
             if rootino \<noteq> ROOTINO then None
             else (case iappend rootino (dirent rootino (str ''.'')) m of
                None \<Rightarrow> None
              | Some m \<Rightarrow> map_option (\<lambda>m. (rootino, m)) (iappend rootino (dirent rootino (str ''..'')) m)))"

text \<open>The size of the root directory is rounded up to the next block.\<close>

definition finish :: "nat \<Rightarrow> mkfs \<Rightarrow> mkfs option" where
  "finish rootino m = (case rinode rootino m of
       None \<Rightarrow> None
     | Some din \<Rightarrow>
         let off = (unat (dsize din) div BSIZE + 1) * BSIZE in
         (case winode rootino (din\<lparr>dsize := of_nat off\<rparr>) m of
            None \<Rightarrow> None
          | Some m \<Rightarrow> mk_balloc (freeblock m) m))"

definition mkfs_main :: "(byte list \<times> byte list list option) list \<Rightarrow> mkfs option" where
  "mkfs_main files = (case mk_root of
       None \<Rightarrow> None
     | Some (rootino, m) \<Rightarrow> (case copy_files rootino files m of
         None \<Rightarrow> None
       | Some m \<Rightarrow> finish rootino m))"

section \<open>The files in an image\<close>

text \<open>The blocks of an inode: its data blocks by number, and the indirect block as number \<open>MAXFILE\<close>.\<close>

definition blk :: "(nat \<Rightarrow> byte list) \<Rightarrow> dinode \<Rightarrow> nat \<Rightarrow> nat" where
  "blk c d k = (if k = MAXFILE then daddrs d ! NDIRECT
     else if k < NDIRECT then daddrs d ! k else uint_at (c (daddrs d ! NDIRECT)) (k - NDIRECT))"

definition roles :: "nat \<Rightarrow> nat set" where
  "roles nb = {..<nb} \<union> (if NDIRECT < nb then {MAXFILE} else {})"

definition inode_ok :: "(nat \<Rightarrow> byte list) \<Rightarrow> nat \<Rightarrow> dinode \<Rightarrow> nat \<Rightarrow> bool" where
  "inode_ok c fb d nb =
     (dinode_wf d \<and> nb \<le> MAXFILE \<and> (\<forall>k \<in> roles nb. nmeta \<le> blk c d k \<and> blk c d k < fb) \<and>
      (\<forall>k < NDIRECT. nb \<le> k \<longrightarrow> daddrs d ! k = 0) \<and> (nb \<le> NDIRECT \<longrightarrow> daddrs d ! NDIRECT = 0) \<and>
      (\<forall>k < NINDIRECT. NDIRECT < nb \<longrightarrow> nb \<le> NDIRECT + k \<longrightarrow> uint_at (c (daddrs d ! NDIRECT)) k = 0))"

text \<open>\<open>D i\<close> and \<open>NB i\<close>: the inode \<open>i\<close> and the number of its data blocks. No block has two uses, and
  those from \<open>fb\<close> on have none.\<close>

definition files_ok :: "(nat \<Rightarrow> byte list) \<Rightarrow> nat \<Rightarrow> nat set \<Rightarrow> (nat \<Rightarrow> dinode) \<Rightarrow> (nat \<Rightarrow> nat) \<Rightarrow> bool" where
  "files_ok c fb I D NB =
     (nmeta \<le> fb \<and> fb \<le> FSSIZE \<and> (\<forall>k. length (c k) = BSIZE) \<and> (\<forall>b \<ge> fb. c b = replicate BSIZE 0) \<and>
      (\<forall>i \<in> I. inode_ok c fb (D i) (NB i)) \<and> inj_on (\<lambda>(i, k). blk c (D i) k) (SIGMA i:I. roles (NB i)))"

lemma MAXFILE_eq: "MAXFILE = NDIRECT + NINDIRECT" "NINDIRECT = 128" "NDIRECT = 12" "BSIZE = 512" "FSSIZE = 1000"
  by (simp_all add: MAXFILE_def NINDIRECT_def NDIRECT_def BSIZE_def FSSIZE_def)

lemma uint_at_put:
  assumes "4 * (j + 1) \<le> length d" "4 * (j' + 1) \<le> length d" "v < 2 ^ 32"
  shows "uint_at (put_uint j v d) j' = (if j' = j then v else uint_at d j')"
proof (cases "j' = j")
  case True
  then show ?thesis
    using slice_splice_same [of "4 * j" "le32 (of_nat v)" d] assms
    by (simp add: put_uint_def hdr_word_def unat_of_nat take_bit_nat_eq_self)
next
  case False
  then have "slice (4 * j') 4 (splice (4 * j) (le32 (of_nat v)) d) = slice (4 * j') 4 d"
    using assms by (intro slice_splice_disjoint) auto
  then show ?thesis using False by (simp add: put_uint_def hdr_word_def)
qed

lemma length_put_uint: "4 * (j + 1) \<le> length d \<Longrightarrow> length (put_uint j v d) = length d"
  by (simp add: put_uint_def)

lemma uint_at_zero: "j < NINDIRECT \<Longrightarrow> uint_at (replicate BSIZE 0) j = 0"
  by (simp add: hdr_word_def slice_def un32_def MAXFILE_eq min_def)

lemma roles_Suc: "roles (Suc nb) = roles nb \<union> {nb} \<union> (if nb = NDIRECT then {MAXFILE} else {})"
  by (auto simp: roles_def less_Suc_eq)

lemma roles_le: "k \<in> roles nb \<Longrightarrow> nb \<le> MAXFILE \<Longrightarrow> k \<le> MAXFILE"
  by (auto simp: roles_def split: if_splits)

text \<open>An inode depends on its indirect block only.\<close>

lemma blk_frame:
  assumes "inode_ok c fb d nb" "NDIRECT < nb \<longrightarrow> c' (daddrs d ! NDIRECT) = c (daddrs d ! NDIRECT)" "k \<in> roles nb"
  shows "blk c' d k = blk c d k"
  using assms by (cases "NDIRECT < nb") (auto simp: blk_def roles_def)

lemma inode_ok_frame:
  assumes "inode_ok c fb d nb" "NDIRECT < nb \<longrightarrow> c' (daddrs d ! NDIRECT) = c (daddrs d ! NDIRECT)" "fb \<le> fb'"
  shows "inode_ok c' fb' d nb"
proof -
  have "\<forall>k \<in> roles nb. nmeta \<le> blk c' d k \<and> blk c' d k < fb'"
    using assms(1,3) blk_frame [where c' = c', OF assms(1,2)] unfolding inode_ok_def by fastforce
  then show ?thesis using assms(1,2) unfolding inode_ok_def by (metis leD leI)
qed

text \<open>The three ways in which a block is added.\<close>

lemma add_direct:
  assumes ok: "inode_ok c fb d nb" and nb: "nb < NDIRECT" and fb: "nmeta \<le> fb" "fb < FSSIZE"
  defines "d' \<equiv> d\<lparr>daddrs := (daddrs d)[nb := fb]\<rparr>"
  shows "inode_ok c (fb + 1) d' (Suc nb)" "blk c d' nb = fb" "\<And>k. k \<in> roles nb \<Longrightarrow> blk c d' k = blk c d k"
proof -
  have len: "length (daddrs d) = NDIRECT + 1" "\<forall>a \<in> set (daddrs d). a < 2 ^ 32"
    using ok by (simp_all add: inode_ok_def dinode_wf_def)
  show b: "blk c d' nb = fb" using nb len by (simp add: blk_def d'_def MAXFILE_eq)
  show k: "blk c d' k = blk c d k" if "k \<in> roles nb" for k
    using that nb by (auto simp: blk_def d'_def roles_def)
  have r: "roles (Suc nb) = roles nb \<union> {nb}" using nb by (simp add: roles_Suc)
  have "\<forall>a \<in> set (daddrs d'). a < 2 ^ 32"
    using len(2) fb(2) set_update_subset_insert [of "daddrs d" nb fb] by (auto simp: d'_def MAXFILE_eq)
  then have "dinode_wf d'" using len(1) by (simp add: dinode_wf_def d'_def)
  moreover have "\<forall>k \<in> roles (Suc nb). nmeta \<le> blk c d' k \<and> blk c d' k < fb + 1"
    using ok b k fb(1) unfolding r inode_ok_def by fastforce
  ultimately show "inode_ok c (fb + 1) d' (Suc nb)"
    using ok nb by (auto simp: inode_ok_def d'_def MAXFILE_eq nth_list_update)
qed

lemma add_indirect:
  assumes ok: "inode_ok c fb d nb" and nb: "NDIRECT < nb" "nb < MAXFILE" and fb: "nmeta \<le> fb" "fb < FSSIZE"
    and c: "\<And>k. length (c k) = BSIZE"
  defines "ind \<equiv> daddrs d ! NDIRECT"
  defines "c' \<equiv> c(ind := put_uint (nb - NDIRECT) fb (c ind))"
  shows "inode_ok c' (fb + 1) d (Suc nb)" "blk c' d nb = fb" "\<And>k. k \<in> roles nb \<Longrightarrow> blk c' d k = blk c d k"
proof -
  have put: "uint_at (c' ind) j = (if j = nb - NDIRECT then fb else uint_at (c ind) j)" if "j < NINDIRECT" for j
    using uint_at_put [of "nb - NDIRECT" "c ind" j fb] that nb fb(2) by (simp add: c'_def c MAXFILE_eq)
  show b: "blk c' d nb = fb" using put [of "nb - NDIRECT"] nb by (simp add: blk_def MAXFILE_eq ind_def)
  show k: "blk c' d k = blk c d k" if "k \<in> roles nb" for k
    using that nb put [of "k - NDIRECT"] by (auto simp: blk_def roles_def MAXFILE_eq ind_def)
  have r: "roles (Suc nb) = roles nb \<union> {nb}" using nb by (simp add: roles_Suc)
  have "\<forall>k \<in> roles (Suc nb). nmeta \<le> blk c' d k \<and> blk c' d k < fb + 1"
    using ok b k fb(1) unfolding r inode_ok_def by fastforce
  moreover have "\<forall>k < NINDIRECT. Suc nb \<le> NDIRECT + k \<longrightarrow> uint_at (c' ind) k = 0"
    using ok nb put by (auto simp: inode_ok_def ind_def)
  ultimately show "inode_ok c' (fb + 1) d (Suc nb)"
    using ok nb by (simp add: inode_ok_def ind_def)
qed

lemma add_first_indirect:
  assumes ok: "inode_ok c fb d NDIRECT" and fb: "nmeta \<le> fb" "fb + 1 < FSSIZE" and c: "c fb = replicate BSIZE 0"
  defines "d' \<equiv> d\<lparr>daddrs := (daddrs d)[NDIRECT := fb]\<rparr>"
  defines "c' \<equiv> c(fb := put_uint 0 (fb + 1) (c fb))"
  shows "inode_ok c' (fb + 2) d' (Suc NDIRECT)" "blk c' d' NDIRECT = fb + 1" "blk c' d' MAXFILE = fb"
    "\<And>k. k \<in> roles NDIRECT \<Longrightarrow> blk c' d' k = blk c d k"
proof -
  have len: "length (daddrs d) = NDIRECT + 1" "\<forall>a \<in> set (daddrs d). a < 2 ^ 32"
    using ok by (simp_all add: inode_ok_def dinode_wf_def)
  have put: "uint_at (c' fb) j = (if j = 0 then fb + 1 else 0)" if "j < NINDIRECT" for j
    using uint_at_put [of 0 "c fb" j "fb + 1"] uint_at_zero [OF that] that fb(2) by (simp add: c'_def c MAXFILE_eq)
  have ind: "daddrs d' ! NDIRECT = fb" using len(1) by (simp add: d'_def)
  show b: "blk c' d' NDIRECT = fb + 1" "blk c' d' MAXFILE = fb"
    using put [of 0] ind by (simp_all add: blk_def MAXFILE_eq)
  show k: "blk c' d' k = blk c d k" if "k \<in> roles NDIRECT" for k
    using that by (auto simp: blk_def roles_def MAXFILE_eq d'_def)
  have r: "roles (Suc NDIRECT) = roles NDIRECT \<union> {NDIRECT, MAXFILE}" by (auto simp: roles_Suc)
  have "\<forall>a \<in> set (daddrs d'). a < 2 ^ 32"
    using len(2) fb(2) set_update_subset_insert [of "daddrs d" NDIRECT fb] by (auto simp: d'_def MAXFILE_eq)
  then have "dinode_wf d'" using len(1) by (simp add: dinode_wf_def d'_def)
  moreover have "\<forall>k \<in> roles (Suc NDIRECT). nmeta \<le> blk c' d' k \<and> blk c' d' k < fb + 2"
    using ok b k fb(1) unfolding r inode_ok_def by fastforce
  moreover have "\<forall>k < NINDIRECT. Suc NDIRECT \<le> NDIRECT + k \<longrightarrow> uint_at (c' (daddrs d' ! NDIRECT)) k = 0"
    using put ind by simp
  ultimately show "inode_ok c' (fb + 2) d' (Suc NDIRECT)"
    by (simp add: inode_ok_def MAXFILE_eq)
qed

text \<open>The data blocks of all files are where they were, with the same contents.\<close>

definition same_data :: "(nat \<Rightarrow> byte list) \<Rightarrow> (nat \<Rightarrow> dinode) \<Rightarrow> (nat \<Rightarrow> byte list) \<Rightarrow> (nat \<Rightarrow> dinode) \<Rightarrow> nat set \<Rightarrow> (nat \<Rightarrow> nat) \<Rightarrow> bool" where
  "same_data c D c' D' I NB =
     (\<forall>j \<in> I. \<forall>k < NB j. blk c' (D' j) k = blk c (D j) k \<and> c' (blk c (D j) k) = c (blk c (D j) k))"

lemma files_ok_inj:
  assumes "files_ok c fb I D NB" "i \<in> I" "k \<in> roles (NB i)" "j \<in> I" "l \<in> roles (NB j)" "blk c (D i) k = blk c (D j) l"
  shows "i = j \<and> k = l"
proof -
  have "inj_on (\<lambda>(i, k). blk c (D i) k) (SIGMA i:I. roles (NB i))" using assms(1) by (simp add: files_ok_def)
  from inj_onD [OF this, of "(i, k)" "(j, l)"] show ?thesis using assms(2-6) by simp
qed

lemma files_ok_inode: "files_ok c fb I D NB \<Longrightarrow> i \<in> I \<Longrightarrow> inode_ok c fb (D i) (NB i)"
  by (simp add: files_ok_def)

lemma files_ok_blk: "files_ok c fb I D NB \<Longrightarrow> i \<in> I \<Longrightarrow> k \<in> roles (NB i) \<Longrightarrow> nmeta \<le> blk c (D i) k \<and> blk c (D i) k < fb"
  by (simp add: files_ok_def inode_ok_def)

lemma indirect_role: "NDIRECT < nb \<Longrightarrow> MAXFILE \<in> roles nb \<and> blk c d MAXFILE = daddrs d ! NDIRECT"
  by (simp add: roles_def blk_def)

text \<open>The changes that adding a block makes elsewhere: in new blocks and in the indirect block.\<close>

definition only_changes :: "(nat \<Rightarrow> byte list) \<Rightarrow> (nat \<Rightarrow> byte list) \<Rightarrow> nat \<Rightarrow> dinode \<Rightarrow> nat \<Rightarrow> bool" where
  "only_changes c c' fb d nb = (\<forall>b < fb. c' b \<noteq> c b \<longrightarrow> NDIRECT < nb \<and> b = daddrs d ! NDIRECT)"

lemma other_unchanged:
  assumes f: "files_ok c fb I D NB" and i: "i \<in> I" and w: "only_changes c c' fb (D i) (NB i)"
    and j: "j \<in> I" "k \<in> roles (NB j)" "(j, k) \<noteq> (i, MAXFILE)"
  shows "c' (blk c (D j) k) = c (blk c (D j) k)"
proof (rule ccontr)
  assume n: "\<not> ?thesis"
  have "blk c (D j) k < fb" using files_ok_blk [OF f j(1,2)] by simp
  then have "NDIRECT < NB i" "blk c (D j) k = daddrs (D i) ! NDIRECT" using w n by (auto simp: only_changes_def)
  then show False using files_ok_inj [OF f j(1,2) i, of MAXFILE] indirect_role [of "NB i" c "D i"] j(3) by simp
qed

lemma extend_file:
  assumes f: "files_ok c fb I D NB" and i: "i \<in> I" and ok: "inode_ok c' fb' d' (Suc (NB i))"
    and old: "\<And>k. k \<in> roles (NB i) \<Longrightarrow> blk c' d' k = blk c (D i) k"
    and new: "\<And>k. k \<in> roles (Suc (NB i)) - roles (NB i) \<Longrightarrow> fb \<le> blk c' d' k"
      "inj_on (blk c' d') (roles (Suc (NB i)) - roles (NB i))"
    and w: "only_changes c c' fb (D i) (NB i)"
    and c': "\<And>k. length (c' k) = BSIZE" "\<And>b. fb' \<le> b \<Longrightarrow> c' b = replicate BSIZE 0" "fb \<le> fb'" "fb' \<le> FSSIZE"
  shows "files_ok c' fb' I (D(i := d')) (NB(i := Suc (NB i)))" "same_data c D c' (D(i := d')) I NB"
proof -
  have ind: "NDIRECT < NB j \<longrightarrow> c' (daddrs (D j) ! NDIRECT) = c (daddrs (D j) ! NDIRECT)" if "j \<in> I" "j \<noteq> i" for j
    using other_unchanged [OF f i w that(1), of MAXFILE] indirect_role [of "NB j" c "D j"] that(2) by auto
  have other: "blk c' (D j) k = blk c (D j) k" if j: "j \<in> I" "j \<noteq> i" and k: "k \<in> roles (NB j)" for j k
    by (rule blk_frame [where c' = c', OF files_ok_inode [OF f j(1)] ind [OF j] k])
  have other_ok: "inode_ok c' fb' (D j) (NB j)" if j: "j \<in> I" "j \<noteq> i" for j
    by (rule inode_ok_frame [where c' = c', OF files_ok_inode [OF f j(1)] ind [OF j] c'(3)])
  have b: "blk c' ((D(i := d')) j) k = blk c (D j) k" if "j \<in> I" "k \<in> roles (NB j)" for j k
    using old other that by (cases "j = i") auto
  let ?dom = "SIGMA j:I. roles (NB j)" and ?R = "roles (Suc (NB i)) - roles (NB i)"
  have dom: "(SIGMA j:I. roles ((NB(i := Suc (NB i))) j)) = ?dom \<union> {i} \<times> ?R"
    using i by (auto simp: roles_Suc split: if_splits)
  have "inj_on (\<lambda>(j, k). blk c' ((D(i := d')) j) k) (?dom \<union> {i} \<times> ?R)"
  proof (rule inj_onI, clarsimp simp del: fun_upd_apply)
    fix j k j' k'
    assume e: "blk c' ((D(i := d')) j) k = blk c' ((D(i := d')) j') k'"
      and p: "j \<in> I \<and> k \<in> roles (NB j) \<or> j = i \<and> k \<in> roles (Suc (NB i)) \<and> k \<notin> roles (NB i)"
      and q: "j' \<in> I \<and> k' \<in> roles (NB j') \<or> j' = i \<and> k' \<in> roles (Suc (NB i)) \<and> k' \<notin> roles (NB i)"
    have lt: "blk c' ((D(i := d')) j) k < fb" if "j \<in> I" "k \<in> roles (NB j)" for j k
      using b [OF that] files_ok_blk [OF f that] by simp
    from p q show "j = j' \<and> k = k'"
    proof (elim disjE conjE)
      assume a: "j \<in> I" "k \<in> roles (NB j)" "j' \<in> I" "k' \<in> roles (NB j')"
      show ?thesis using files_ok_inj [OF f a(1,2) a(3,4)] e b [OF a(1,2)] b [OF a(3,4)] by simp
    next
      assume a: "j \<in> I" "k \<in> roles (NB j)" "j' = i" "k' \<in> roles (Suc (NB i))" "k' \<notin> roles (NB i)"
      show ?thesis using lt [OF a(1,2)] new(1) [of k'] a(3-5) e by simp
    next
      assume a: "j' \<in> I" "k' \<in> roles (NB j')" "j = i" "k \<in> roles (Suc (NB i))" "k \<notin> roles (NB i)"
      show ?thesis using lt [OF a(1,2)] new(1) [of k] a(3-5) e by simp
    next
      assume a: "j = i" "k \<in> roles (Suc (NB i))" "k \<notin> roles (NB i)" "j' = i" "k' \<in> roles (Suc (NB i))" "k' \<notin> roles (NB i)"
      show ?thesis using inj_onD [OF new(2), of k k'] a e by simp
    qed
  qed
  moreover have "\<forall>j \<in> I. inode_ok c' fb' ((D(i := d')) j) ((NB(i := Suc (NB i))) j)"
    using ok other_ok by simp
  ultimately show "files_ok c' fb' I (D(i := d')) (NB(i := Suc (NB i)))"
    using f c' unfolding dom [symmetric] files_ok_def by auto
  show "same_data c D c' (D(i := d')) I NB"
  proof -
    have "k \<in> roles (NB j) \<and> (j, k) \<noteq> (i, MAXFILE)" if "j \<in> I" "k < NB j" for j k
      using files_ok_inode [OF f that(1)] that(2) by (auto simp: roles_def inode_ok_def)
    then show ?thesis using b other_unchanged [OF f i w] unfolding same_data_def by blast
  qed
qed

definition extra :: "nat \<Rightarrow> nat" where
  "extra nb = (if nb = NDIRECT then 2 else 1)"

lemma mk_block_ok:
  assumes f: "files_ok (img m) (freeblock m) I D NB" and i: "i \<in> I" and n: "fbn < MAXFILE"
    and alloc: "fbn = NB i" "freeblock m + extra (NB i) \<le> FSSIZE"
  shows "\<exists>d' c'. mk_block fbn (D i) m = Some (blk c' d' fbn, d', m\<lparr>img := c', freeblock := freeblock m + extra (NB i)\<rparr>) \<and>
    files_ok c' (freeblock m + extra (NB i)) I (D(i := d')) (NB(i := Suc (NB i))) \<and>
    same_data (img m) D c' (D(i := d')) I NB \<and> (\<exists>as. d' = (D i)\<lparr>daddrs := as\<rparr>) \<and> (\<forall>b < nmeta. c' b = img m b)"
proof -
  let ?c = "img m" and ?fb = "freeblock m" and ?d = "D i"
  have ok: "inode_ok ?c ?fb ?d (NB i)" by (rule files_ok_inode [OF f i])
  have b: "nmeta \<le> ?fb" "\<And>k. length (?c k) = BSIZE" "\<And>b. ?fb \<le> b \<Longrightarrow> ?c b = replicate BSIZE 0"
    using f by (simp_all add: files_ok_def)
  consider (direct) "NB i < NDIRECT" | (first) "NB i = NDIRECT" | (indirect) "NDIRECT < NB i" by linarith
  then show ?thesis
  proof cases
    case direct
    have fb: "?fb < FSSIZE" and ex: "extra (NB i) = 1" using alloc(2) direct by (simp_all add: extra_def)
    note ad = add_direct [OF ok direct b(1) fb]
    let ?d' = "?d\<lparr>daddrs := (daddrs ?d)[NB i := ?fb]\<rparr>"
    have "daddrs ?d ! fbn = 0" using ok direct alloc(1) by (simp add: inode_ok_def)
    then have r: "mk_block fbn ?d m = Some (blk ?c ?d' fbn, ?d', m\<lparr>img := ?c, freeblock := ?fb + extra (NB i)\<rparr>)"
      using direct alloc(1) ad(2) ex by (simp add: mk_block_def)
    have R: "roles (Suc (NB i)) - roles (NB i) = {NB i}" using direct by (auto simp: roles_def)
    have n: "fb' \<le> blk ?c ?d' k" if "k \<in> roles (Suc (NB i)) - roles (NB i)" "fb' = ?fb" for k fb' using that R ad(2) by simp
    have inj: "inj_on (blk ?c ?d') (roles (Suc (NB i)) - roles (NB i))" unfolding R by simp
    have w: "only_changes ?c ?c ?fb ?d (NB i)" by (simp add: only_changes_def)
    have "files_ok ?c (?fb + 1) I (D(i := ?d')) (NB(i := Suc (NB i)))" "same_data ?c D ?c (D(i := ?d')) I NB"
      by (rule extend_file [OF f i ad(1,3) n [OF _ refl] inj w b(2)]; use b(3) fb in fastforce)+
    then show ?thesis unfolding ex using r [unfolded ex] by (intro exI [of _ ?d'] exI [of _ ?c]) auto
  next
    case first
    have fb: "?fb + 1 < FSSIZE" and ex: "extra (NB i) = 2" using alloc(2) first by (simp_all add: extra_def)
    note ad = add_first_indirect [OF ok [unfolded first] b(1) fb b(3) [OF order_refl]]
    let ?d' = "?d\<lparr>daddrs := (daddrs ?d)[NDIRECT := ?fb]\<rparr>" and ?c' = "?c(?fb := put_uint 0 (?fb + 1) (?c ?fb))"
    have len: "length (daddrs ?d) = NDIRECT + 1" "daddrs ?d ! NDIRECT = 0" using ok first by (simp_all add: inode_ok_def dinode_wf_def)
    have z: "uint_at (?c ?fb) 0 = 0" using uint_at_zero [of 0] b(3) by (simp add: MAXFILE_eq)
    have r: "mk_block fbn ?d m = Some (blk ?c' ?d' fbn, ?d', m\<lparr>img := ?c', freeblock := ?fb + extra (NB i)\<rparr>)"
      using first alloc(1) ad(2) ex len fb z by (simp add: mk_block_def rsect_def wsect_def Let_def)
    have R: "roles (Suc (NB i)) - roles (NB i) = {NDIRECT, MAXFILE}" using first by (auto simp: roles_def MAXFILE_eq)
    have pl: "length (put_uint 0 (?fb + 1) (?c ?fb)) = BSIZE" using b(2) by (simp add: length_put_uint MAXFILE_eq)
    have n: "fb' \<le> blk ?c' ?d' k" if "k \<in> roles (Suc (NB i)) - roles (NB i)" "fb' = ?fb" for k fb' using that R ad(2,3) by auto
    have inj: "inj_on (blk ?c' ?d') (roles (Suc (NB i)) - roles (NB i))" unfolding R using ad(2,3) by auto
    have w: "only_changes ?c ?c' ?fb ?d (NB i)" by (simp add: only_changes_def)
    have len': "length (?c' k) = BSIZE" for k using b(2) pl by simp
    have a1: "inode_ok ?c' (?fb + 2) ?d' (Suc (NB i))" using ad(1) first by simp
    have a4: "blk ?c' ?d' k = blk ?c ?d k" if "k \<in> roles (NB i)" for k using ad(4) that first by simp
    have "files_ok ?c' (?fb + 2) I (D(i := ?d')) (NB(i := Suc (NB i)))" "same_data ?c D ?c' (D(i := ?d')) I NB"
      by (rule extend_file [OF f i a1 a4 n [OF _ refl] inj w len']; use b(3) fb in fastforce)+
    moreover have "\<forall>b < nmeta. ?c' b = ?c b" using b(1) by simp
    ultimately show ?thesis unfolding ex using r [unfolded ex] by blast
  next
    case indirect
    have fb: "?fb < FSSIZE" and ex: "extra (NB i) = 1" using alloc(2) indirect by (simp_all add: extra_def)
    have nm: "NB i < MAXFILE" using n alloc(1) by simp
    note ad = add_indirect [OF ok indirect nm b(1) fb b(2)]
    let ?ind = "daddrs ?d ! NDIRECT"
    let ?c' = "?c(?ind := put_uint (NB i - NDIRECT) ?fb (?c ?ind))"
    have ib: "nmeta \<le> ?ind" "?ind < ?fb" using files_ok_blk [OF f i, of MAXFILE] indirect_role [OF indirect, of ?c ?d] by auto
    have z: "uint_at (?c ?ind) (NB i - NDIRECT) = 0" using ok indirect nm by (simp add: inode_ok_def MAXFILE_eq)
    have "?ind \<noteq> 0" using ib(1) by (simp add: nmeta_def)
    then have r: "mk_block fbn ?d m = Some (blk ?c' ?d fbn, ?d, m\<lparr>img := ?c', freeblock := ?fb + extra (NB i)\<rparr>)"
      using indirect alloc(1) ad(2) ex z ib fb by (simp add: mk_block_def rsect_def wsect_def Let_def)
    have R: "roles (Suc (NB i)) - roles (NB i) = {NB i}" using indirect nm by (auto simp: roles_Suc roles_def)
    have pl: "length (put_uint (NB i - NDIRECT) ?fb (?c ?ind)) = BSIZE" using b(2) nm indirect by (simp add: length_put_uint MAXFILE_eq)
    have n: "fb' \<le> blk ?c' ?d k" if "k \<in> roles (Suc (NB i)) - roles (NB i)" "fb' = ?fb" for k fb' using that R ad(2) by simp
    have inj: "inj_on (blk ?c' ?d) (roles (Suc (NB i)) - roles (NB i))" unfolding R by simp
    have w: "only_changes ?c ?c' ?fb ?d (NB i)" using indirect by (simp add: only_changes_def)
    have len': "length (?c' k) = BSIZE" for k using b(2) pl by simp
    have z': "?c' k = replicate BSIZE 0" if "?fb + 1 \<le> k" for k using that b(3) ib(2) by simp
    have "files_ok ?c' (?fb + 1) I (D(i := ?d)) (NB(i := Suc (NB i)))" "same_data ?c D ?c' (D(i := ?d)) I NB"
      by (rule extend_file [OF f i ad(1,3) n [OF _ refl] inj w len' z']; use fb in simp)+
    moreover have "\<forall>b < nmeta. ?c' b = ?c b" using ib(1) by simp
    moreover have "?d = ?d\<lparr>daddrs := daddrs ?d\<rparr>" by simp
    ultimately show ?thesis unfolding ex using r [unfolded ex] by blast
  qed
qed

lemma mk_block_old:
  assumes "files_ok (img m) (freeblock m) I D NB" "i \<in> I" "fbn < NB i"
  shows "mk_block fbn (D i) m = Some (blk (img m) (D i) fbn, D i, m)"
proof -
  have ok: "inode_ok (img m) (freeblock m) (D i) (NB i)" by (rule files_ok_inode [OF assms(1,2)])
  have le: "NB i \<le> MAXFILE" using ok by (simp add: inode_ok_def)
  have k: "nmeta \<le> blk (img m) (D i) fbn" using files_ok_blk [OF assms(1,2)] assms(3) by (simp add: roles_def)
  show ?thesis
  proof (cases "fbn < NDIRECT")
    case True
    then show ?thesis using k le assms(3) by (auto simp: mk_block_def blk_def nmeta_def)
  next
    case False
    then have "NDIRECT < NB i" using assms(3) by simp
    then have "nmeta \<le> daddrs (D i) ! NDIRECT" "daddrs (D i) ! NDIRECT < freeblock m"
      using files_ok_blk [OF assms(1,2), of MAXFILE] indirect_role [of "NB i" "img m" "D i"] by auto
    moreover have "freeblock m \<le> FSSIZE" using assms(1) by (simp add: files_ok_def)
    ultimately show ?thesis
      using False k le assms(3) by (auto simp: mk_block_def blk_def nmeta_def rsect_def Let_def)
  qed
qed

section \<open>Appending to a file\<close>

text \<open>Writing into a data block of a file.\<close>

lemma write_data:
  assumes f: "files_ok c fb I D NB" and i: "i \<in> I" and k: "k < NB i" and buf: "length buf = BSIZE"
  defines "x \<equiv> blk c (D i) k"
  defines "c' \<equiv> c(x := buf)"
  shows "files_ok c' fb I D NB" "j \<in> I \<Longrightarrow> l \<in> roles (NB j) \<Longrightarrow> blk c' (D j) l = blk c (D j) l"
    "j \<in> I \<Longrightarrow> l < NB j \<Longrightarrow> (j, l) \<noteq> (i, k) \<Longrightarrow> c' (blk c (D j) l) = c (blk c (D j) l)"
    "nmeta \<le> x \<and> x < fb"
proof -
  have kr: "k \<in> roles (NB i)" using k by (simp add: roles_def)
  have kM: "k < MAXFILE" using files_ok_inode [OF f i] k by (simp add: inode_ok_def)
  show x: "nmeta \<le> x \<and> x < fb" using files_ok_blk [OF f i kr] by (simp add: x_def)
  have ind: "NDIRECT < NB j \<longrightarrow> c' (daddrs (D j) ! NDIRECT) = c (daddrs (D j) ! NDIRECT)" if j: "j \<in> I" for j
  proof
    assume "NDIRECT < NB j"
    then have "daddrs (D j) ! NDIRECT \<noteq> x"
      using files_ok_inj [OF f i kr j, of MAXFILE] indirect_role [of "NB j" c "D j"] kM by (auto simp: x_def)
    then show "c' (daddrs (D j) ! NDIRECT) = c (daddrs (D j) ! NDIRECT)" by (simp add: c'_def)
  qed
  have b: "blk c' (D j) l = blk c (D j) l" if "j \<in> I" "l \<in> roles (NB j)" for j l
    by (rule blk_frame [where c' = c', OF files_ok_inode [OF f that(1)] ind [OF that(1)] that(2)])
  have "inode_ok c' fb (D j) (NB j)" if "j \<in> I" for j
    by (rule inode_ok_frame [where c' = c', OF files_ok_inode [OF f that] ind [OF that] order_refl])
  moreover have "inj_on (\<lambda>(i, k). blk c' (D i) k) (SIGMA i:I. roles (NB i)) = inj_on (\<lambda>(i, k). blk c (D i) k) (SIGMA i:I. roles (NB i))"
    by (rule inj_on_cong) (use b in auto)
  ultimately show "files_ok c' fb I D NB"
    using f x buf by (auto simp: files_ok_def c'_def)
  show "blk c' (D j) l = blk c (D j) l" if "j \<in> I" "l \<in> roles (NB j)" by (rule b [OF that])
  show "c' (blk c (D j) l) = c (blk c (D j) l)" if "j \<in> I" "l < NB j" "(j, l) \<noteq> (i, k)"
  proof -
    have "l \<in> roles (NB j)" using that(2) by (simp add: roles_def)
    then have "blk c (D j) l \<noteq> x" using files_ok_inj [OF f i kr that(1), of l] that(3) by (metis x_def)
    then show ?thesis by (simp add: c'_def)
  qed
qed

definition nblk :: "nat \<Rightarrow> nat" where
  "nblk n = (n + BSIZE - 1) div BSIZE"

text \<open>The first \<open>n\<close> bytes of a file.\<close>

definition cont :: "(nat \<Rightarrow> byte list) \<Rightarrow> dinode \<Rightarrow> nat \<Rightarrow> byte list" where
  "cont c d n = map (\<lambda>q. c (blk c d (q div BSIZE)) ! (q mod BSIZE)) [0..<n]"

lemma nblk_less: "q < n \<Longrightarrow> q div BSIZE < nblk n"
proof -
  assume "q < n"
  then have "(q + BSIZE) div BSIZE \<le> nblk n" unfolding nblk_def by (intro div_le_mono) simp
  then show ?thesis by (simp add: BSIZE_def)
qed

lemma cont_cong:
  assumes "\<And>k. k < nblk n \<Longrightarrow> c' (blk c' d' k) = c (blk c d k)"
  shows "cont c' d' n = cont c d n"
  unfolding cont_def by (rule map_cong [OF refl]) (use assms nblk_less in simp)

lemma same_data_cont:
  assumes "same_data c D c' D' I (nblk o S)" "j \<in> I"
  shows "cont c' (D' j) (S j) = cont c (D j) (S j)"
  by (rule cont_cong) (use assms in \<open>auto simp: same_data_def\<close>)

text \<open>One round of the loop.\<close>

definition round_len :: "nat \<Rightarrow> byte list \<Rightarrow> nat" where
  "round_len off p = min (length p) ((off div BSIZE + 1) * BSIZE - off)"

definition new_blocks :: "nat \<Rightarrow> nat" where
  "new_blocks off = (if off mod BSIZE = 0 then extra (off div BSIZE) else 0)"

lemma nblk_between: "a * BSIZE < n \<Longrightarrow> n \<le> (a + 1) * BSIZE \<Longrightarrow> nblk n = a + 1"
  unfolding nblk_def by (rule div_nat_eqI) (simp_all add: BSIZE_def)

lemma round_len:
  assumes "p \<noteq> []"
  shows "0 < round_len off p" "off + round_len off p \<le> (off div BSIZE + 1) * BSIZE" "round_len off p \<le> length p"
  using assms block_room [of off] by (auto simp: round_len_def min_def)

lemma nblk_round: "p \<noteq> [] \<Longrightarrow> nblk (off + round_len off p) = off div BSIZE + 1"
  using round_len [of p off] div_mult_mod_eq [of off BSIZE] by (intro nblk_between) linarith+

lemma nblk_here: "nblk off = off div BSIZE + (if off mod BSIZE = 0 then 0 else 1)"
proof (cases "off mod BSIZE = 0")
  case True
  then obtain a where "off = a * BSIZE" by (metis mod_0_imp_dvd dvd_def mult.commute)
  then show ?thesis by (simp add: nblk_def BSIZE_def)
next
  case False
  have "off mod BSIZE < BSIZE" by (simp add: BSIZE_def)
  moreover have "off = off div BSIZE * BSIZE + off mod BSIZE" by simp
  ultimately have "off div BSIZE * BSIZE < off" "off \<le> (off div BSIZE + 1) * BSIZE"
    using False unfolding add_mult_distrib by linarith+
  then have "nblk off = off div BSIZE + 1" by (rule nblk_between)
  then show ?thesis using False by simp
qed

lemma block_offset: "x < BSIZE \<Longrightarrow> (a * BSIZE + x) div BSIZE = a" "x < BSIZE \<Longrightarrow> (a * BSIZE + x) mod BSIZE = x"
  by simp_all

lemma mk_block_any:
  assumes f: "files_ok (img m) (freeblock m) I D NB" and i: "i \<in> I" and n: "off div BSIZE < MAXFILE"
    and NB: "NB i = nblk off" and fb: "freeblock m + new_blocks off \<le> FSSIZE"
  shows "\<exists>d' c'. mk_block (off div BSIZE) (D i) m =
      Some (blk c' d' (off div BSIZE), d', m\<lparr>img := c', freeblock := freeblock m + new_blocks off\<rparr>) \<and>
    files_ok c' (freeblock m + new_blocks off) I (D(i := d')) (NB(i := off div BSIZE + 1)) \<and>
    same_data (img m) D c' (D(i := d')) I NB \<and> (\<exists>as. d' = (D i)\<lparr>daddrs := as\<rparr>) \<and> (\<forall>b < nmeta. c' b = img m b)"
proof (cases "off mod BSIZE = 0")
  case True
  then show ?thesis
    using mk_block_ok [OF f i n] NB fb by (simp add: nblk_here new_blocks_def)
next
  case False
  have "NB(i := off div BSIZE + 1) = NB" "D(i := D i) = D" using False NB nblk_here [of off] by auto
  moreover have "same_data (img m) D (img m) D I NB" by (simp add: same_data_def)
  moreover have "mk_block (off div BSIZE) (D i) m = Some (blk (img m) (D i) (off div BSIZE), D i, m)"
    using mk_block_old [OF f i] False NB nblk_here [of off] by simp
  moreover have "\<exists>as. D i = (D i)\<lparr>daddrs := as\<rparr>" by (intro exI [of _ "daddrs (D i)"]) simp
  ultimately show ?thesis using f False
    by (intro exI [of _ "D i"] exI [of _ "img m"]) (simp add: new_blocks_def del: fun_upd_apply)
qed

lemma append_round:
  assumes f: "files_ok (img m) (freeblock m) I D (nblk o S)" and i: "i \<in> I" and n: "S i div BSIZE < MAXFILE"
    and p: "p \<noteq> []" and fb: "freeblock m + new_blocks (S i) \<le> FSSIZE"
  defines "l \<equiv> round_len (S i) p"
  shows "\<exists>x d' c' c'' as. mk_block (S i div BSIZE) (D i) m = Some (x, d', m\<lparr>img := c', freeblock := freeblock m + new_blocks (S i)\<rparr>) \<and>
    x < FSSIZE \<and> c'' = c'(x := splice (S i mod BSIZE) (take l p) (c' x)) \<and>
    files_ok c'' (freeblock m + new_blocks (S i)) I (D(i := d')) (nblk o (S(i := S i + l))) \<and>
    cont c'' d' (S i + l) = cont (img m) (D i) (S i) @ take l p \<and>
    (\<forall>j \<in> I - {i}. cont c'' (D j) (S j) = cont (img m) (D j) (S j)) \<and>
    d' = (D i)\<lparr>daddrs := as\<rparr> \<and> (\<forall>b < nmeta. c'' b = img m b)"
proof -
  let ?off = "S i" and ?k = "S i div BSIZE" and ?r = "S i mod BSIZE"
  let ?fb = "freeblock m + new_blocks ?off" and ?S = "S(i := S i + l)"
  obtain d' c' as where b: "mk_block ?k (D i) m = Some (blk c' d' ?k, d', m\<lparr>img := c', freeblock := ?fb\<rparr>)"
    and f': "files_ok c' ?fb I (D(i := d')) ((nblk o S)(i := ?k + 1))"
    and sd: "same_data (img m) D c' (D(i := d')) I (nblk o S)" and as: "d' = (D i)\<lparr>daddrs := as\<rparr>"
    and meta: "\<forall>b < nmeta. c' b = img m b"
    using mk_block_any [OF f i n _ fb] by auto
  let ?x = "blk c' d' ?k" and ?D = "D(i := d')" and ?N = "(nblk o S)(i := ?k + 1)"
  let ?buf = "splice ?r (take l p) (c' ?x)"
  let ?c = "c'(?x := ?buf)"
  have len: "length (c' k) = BSIZE" for k using f' by (simp add: files_ok_def)
  have N: "?N = nblk o ?S" using nblk_round [OF p, of ?off] by (auto simp: l_def)
  have l: "0 < l" "?r + l \<le> BSIZE" "l \<le> length p"
    using round_len [OF p, of ?off] div_mult_mod_eq [of ?off BSIZE] unfolding l_def add_mult_distrib by linarith+
  have lb: "length ?buf = BSIZE" using l len by simp
  note w = write_data [OF f' i _ lb, of ?k, simplified]
  have x: "nmeta \<le> ?x" "?x < FSSIZE" using w(4) f' by (auto simp: files_ok_def)
  have old: "?c (blk ?c (?D j) k) = img m (blk (img m) (D j) k)" if "j \<in> I" "k < nblk (S j)" "(j, k) \<noteq> (i, ?k)" for j k
  proof -
    have k: "k < ?N j" using that(2) nblk_here [of ?off] by (cases "j = i") (auto split: if_splits)
    then have "k \<in> roles (?N j)" by (simp add: roles_def)
    then have "?c (blk ?c (?D j) k) = c' (blk c' (?D j) k)" using w(2,3) [OF that(1), of k] k that(3) by simp
    moreover have "blk c' (?D j) k = blk (img m) (D j) k \<and> c' (blk (img m) (D j) k) = img m (blk (img m) (D j) k)"
      using sd that(1,2) unfolding same_data_def by simp
    ultimately show ?thesis by simp
  qed
  have self: "?c (blk ?c d' ?k) = ?buf" using w(2) [OF i, of ?k] by (simp add: roles_def)
  have "cont ?c d' (?off + l) = cont (img m) (D i) ?off @ take l p"
  proof (rule nth_equalityI)
    show "length (cont ?c d' (?off + l)) = length (cont (img m) (D i) ?off @ take l p)" using l by (simp add: cont_def)
    fix q assume q: "q < length (cont ?c d' (?off + l))"
    have q: "q < ?off + l" using q by (simp add: cont_def)
    show "cont ?c d' (?off + l) ! q = (cont (img m) (D i) ?off @ take l p) ! q"
    proof (cases "q < ?off")
      case True
      then have c: "cont ?c d' (?off + l) ! q = ?c (blk ?c d' (q div BSIZE)) ! (q mod BSIZE)"
        "(cont (img m) (D i) ?off @ take l p) ! q = img m (blk (img m) (D i) (q div BSIZE)) ! (q mod BSIZE)"
        by (simp_all add: cont_def nth_append)
      have k: "q div BSIZE < nblk ?off" by (rule nblk_less [OF True])
      show ?thesis
      proof (cases "q div BSIZE = ?k")
        case q': True
        have "?k * BSIZE + q mod BSIZE = q" unfolding q' [symmetric] by simp
        then have m: "q mod BSIZE < ?r" using True div_mult_mod_eq [of ?off BSIZE] by linarith
        have sp: "?r + length (take l p) \<le> length (c' ?x)" using l len by simp
        then have "?buf ! (q mod BSIZE) = c' ?x ! (q mod BSIZE)" using m by (simp add: nth_splice)
        moreover have "c' ?x = img m (blk (img m) (D i) ?k)" using sd i k q' by (auto simp: same_data_def)
        ultimately show ?thesis unfolding c using self q' by (simp del: fun_upd_apply)
      next
        case False
        then show ?thesis unfolding c using old [OF i k] by simp
      qed
    next
      case False
      then obtain t where t: "q = ?off + t" "t < l" using q by (metis add_less_cancel_left le_Suc_ex not_less)
      have e: "q = ?k * BSIZE + (?r + t)" using t(1) div_mult_mod_eq [of ?off BSIZE] by linarith
      have rt: "?r + t < BSIZE" using l(2) t(2) by linarith
      note qk = block_offset [OF rt, of ?k, folded e]
      have sp: "?r + length (take l p) \<le> length (c' ?x)" using l len by simp
      have "cont ?c d' (?off + l) ! q = ?buf ! (?r + t)" using q self qk by (simp add: cont_def del: fun_upd_apply)
      also have "\<dots> = p ! t" using sp t(2) l(3) rt len by (simp add: nth_splice)
      finally show ?thesis using t l(3) by (simp add: cont_def nth_append)
    qed
  qed
  moreover have "cont ?c (D j) (S j) = cont (img m) (D j) (S j)" if "j \<in> I - {i}" for j
  proof (rule cont_cong)
    fix k assume "k < nblk (S j)"
    moreover have "?D j = D j" using that by simp
    ultimately show "?c (blk ?c (D j) k) = img m (blk (img m) (D j) k)" using old [of j k] that by (metis DiffD1 DiffD2 insertI1 prod.inject)
  qed
  moreover have "files_ok ?c ?fb I ?D (nblk o ?S)" using w(1) unfolding N [simplified] .
  moreover have "\<forall>b < nmeta. ?c b = img m b" using meta x by simp
  ultimately show ?thesis using b x as by blast
qed

text \<open>The blocks that a file of \<open>n\<close> bytes has.\<close>

definition blocks_of :: "nat \<Rightarrow> nat" where
  "blocks_of n = nblk n + (if NDIRECT < nblk n then 1 else 0)"

lemma blocks_of_round: "p \<noteq> [] \<Longrightarrow> blocks_of (off + round_len off p) = blocks_of off + new_blocks off"
  using nblk_round [of p off] nblk_here [of off] by (auto simp: blocks_of_def new_blocks_def extra_def)

lemma blocks_of_mono: "a \<le> b \<Longrightarrow> blocks_of a \<le> blocks_of b"
proof -
  assume "a \<le> b"
  then have "nblk a \<le> nblk b" unfolding nblk_def by (intro div_le_mono) simp
  then show ?thesis by (simp add: blocks_of_def)
qed

lemma iappend_loop_ok:
  assumes "files_ok (img m) (freeblock m) I D (nblk o S)" "i \<in> I" "S i + length p \<le> MAXFILE * BSIZE"
    "freeblock m + blocks_of (S i + length p) \<le> FSSIZE + blocks_of (S i)"
  shows "\<exists>d' c' as. iappend_loop (S i) p (D i) m = Some (S i + length p, d',
        m\<lparr>img := c', freeblock := freeblock m + blocks_of (S i + length p) - blocks_of (S i)\<rparr>) \<and>
    files_ok c' (freeblock m + blocks_of (S i + length p) - blocks_of (S i)) I (D(i := d')) (nblk o (S(i := S i + length p))) \<and>
    cont c' d' (S i + length p) = cont (img m) (D i) (S i) @ p \<and>
    (\<forall>j \<in> I - {i}. cont c' (D j) (S j) = cont (img m) (D j) (S j)) \<and>
    d' = (D i)\<lparr>daddrs := as\<rparr> \<and> (\<forall>b < nmeta. c' b = img m b)"
  using assms
proof (induction "length p" arbitrary: p m D S rule: less_induct)
  case less
  show ?case
  proof (cases "p = []")
    case True
    then show ?thesis
      using less.prems(1) by (intro exI [of _ "D i"] exI [of _ "img m"] exI [of _ "daddrs (D i)"]) (simp add: iappend_loop.simps)
  next
    case False
    let ?off = "S i" let ?l = "round_len ?off p" let ?q = "drop ?l p" let ?S = "S(i := ?off + ?l)"
    have l: "0 < ?l" "?l \<le> length p" "?off + ?l + length ?q = ?off + length p" using round_len [OF False, of ?off] by simp_all
    have n: "?off div BSIZE < MAXFILE"
      using less.prems(3) False by (intro less_mult_imp_div_less) (simp add: order.strict_trans2 length_greater_0_conv [symmetric] del: length_greater_0_conv)
    note B = blocks_of_round [OF False, of ?off]
    have fb: "freeblock m + new_blocks ?off \<le> FSSIZE"
      using less.prems(4) B blocks_of_mono [of "?off + ?l" "?off + length p"] l(2) by simp
    obtain x d' c' c as where r: "mk_block (?off div BSIZE) (D i) m = Some (x, d', m\<lparr>img := c', freeblock := freeblock m + new_blocks ?off\<rparr>)"
      "x < FSSIZE" "c = c'(x := splice (?off mod BSIZE) (take ?l p) (c' x))"
      and f: "files_ok c (freeblock m + new_blocks ?off) I (D(i := d')) (nblk o ?S)"
      and ct: "cont c d' (?off + ?l) = cont (img m) (D i) ?off @ take ?l p"
      "\<forall>j \<in> I - {i}. cont c (D j) (S j) = cont (img m) (D j) (S j)"
      and d: "d' = (D i)\<lparr>daddrs := as\<rparr>" "\<forall>b < nmeta. c b = img m b"
      using append_round [where S = S and p = p, OF less.prems(1,2) n False fb] by blast
    let ?m = "m\<lparr>freeblock := freeblock m + new_blocks ?off, img := c\<rparr>"
    have md: "?off - ?off div BSIZE * BSIZE = ?off mod BSIZE" by (simp add: minus_div_mult_eq_mod)
    have s: "iappend_loop ?off p (D i) m = iappend_loop (?S i) ?q ((D(i := d')) i) ?m"
      using False n r md by (simp add: iappend_loop.simps [of ?off p] rsect_def wsect_def Let_def round_len_def)
    have a: "?S i + length ?q = ?off + length p" "blocks_of (?S i) = blocks_of ?off + new_blocks ?off" using l B by simp_all
    have le: "blocks_of (?S i) \<le> blocks_of (?off + length p)" using l(2) by (intro blocks_of_mono) simp
    have "length ?q < length p" "i \<in> I" "?S i + length ?q \<le> MAXFILE * BSIZE" using l less.prems(2,3) by simp_all
    moreover have "freeblock ?m + blocks_of (?S i + length ?q) \<le> FSSIZE + blocks_of (?S i)"
      unfolding a using less.prems(4) by simp
    moreover have "files_ok (img ?m) (freeblock ?m) I (D(i := d')) (nblk o ?S)" using f by simp
    ultimately obtain d2 c2 as2 where e: "iappend_loop (?S i) ?q ((D(i := d')) i) ?m = Some (?S i + length ?q, d2,
          ?m\<lparr>img := c2, freeblock := freeblock ?m + blocks_of (?S i + length ?q) - blocks_of (?S i)\<rparr>)"
      and f2: "files_ok c2 (freeblock ?m + blocks_of (?S i + length ?q) - blocks_of (?S i)) I ((D(i := d'))(i := d2)) (nblk o (?S(i := ?S i + length ?q)))"
      and ct2: "cont c2 d2 (?S i + length ?q) = cont (img ?m) ((D(i := d')) i) (?S i) @ ?q"
      "\<forall>j \<in> I - {i}. cont c2 ((D(i := d')) j) (?S j) = cont (img ?m) ((D(i := d')) j) (?S j)"
      and d2: "d2 = ((D(i := d')) i)\<lparr>daddrs := as2\<rparr>" "\<forall>b < nmeta. c2 b = img ?m b"
      using less.hyps [of ?q ?m "D(i := d')" ?S] by blast
    have fr: "freeblock ?m + blocks_of (?S i + length ?q) - blocks_of (?S i) = freeblock m + blocks_of (?off + length p) - blocks_of ?off"
      unfolding a by simp
    have "iappend_loop ?off p (D i) m = Some (?off + length p, d2,
        m\<lparr>img := c2, freeblock := freeblock m + blocks_of (?off + length p) - blocks_of ?off\<rparr>)"
      using B unfolding s e fr a(1) by (cases m) simp
    moreover have "files_ok c2 (freeblock m + blocks_of (?off + length p) - blocks_of ?off) I (D(i := d2)) (nblk o (S(i := ?off + length p)))"
      using f2 B unfolding fr a(1) by simp
    moreover have "cont c2 d2 (?off + length p) = cont (img m) (D i) ?off @ p" using ct2(1) ct(1) unfolding a(1) by simp
    moreover have "\<forall>j \<in> I - {i}. cont c2 (D j) (S j) = cont (img m) (D j) (S j)" using ct2(2) ct(2) by simp
    moreover have "d2 = (D i)\<lparr>daddrs := as2\<rparr>" "\<forall>b < nmeta. c2 b = img m b" using d d2 by simp_all
    ultimately show ?thesis by blast
  qed
qed

section \<open>The inodes in the image\<close>

definition inode_in :: "mkfs \<Rightarrow> nat \<Rightarrow> dinode" where
  "inode_in m i = dinode_at (img m (IBLOCK i mk_sb)) (i mod IPB)"

definition fsize :: "mkfs \<Rightarrow> nat \<Rightarrow> nat" where
  "fsize m i = unat (dsize (inode_in m i))"

definition file_of :: "mkfs \<Rightarrow> nat \<Rightarrow> byte list" where
  "file_of m i = cont (img m) (inode_in m i) (fsize m i)"

abbreviation inums :: "mkfs \<Rightarrow> nat set" where
  "inums m \<equiv> {1..<freeinode m}"

text \<open>Between two calls of \<open>iappend\<close>: the blocks before \<open>freeblock\<close> are exactly the ones in use.\<close>

definition mkfs_ok :: "mkfs \<Rightarrow> bool" where
  "mkfs_ok m = (1 \<le> freeinode m \<and> freeinode m \<le> NINODES \<and>
     files_ok (img m) (freeblock m) (inums m) (inode_in m) (nblk o fsize m) \<and>
     (\<forall>i \<in> inums m. fsize m i \<le> MAXFILE * BSIZE) \<and>
     freeblock m = nmeta + (\<Sum>i \<in> inums m. blocks_of (fsize m i)))"

lemma IBLOCK_mk_sb: "IBLOCK i mk_sb = i div 8 + 32"
  by (simp add: IBLOCK_def IPB_def BSIZE_def DINODESIZE_def mk_sb_def LOGSIZE_def MAXOPBLOCKS_def)

lemma nmeta_eq: "nmeta = 59"
  by (simp add: nmeta_def LOGSIZE_def MAXOPBLOCKS_def ninodeblocks_def NINODES_def IPB_def BSIZE_def DINODESIZE_def nbitmap_def FSSIZE_def)

lemma winode_run:
  assumes i: "i < NINODES" and wf: "dinode_wf din" and len: "\<And>k. length (img m k) = BSIZE"
  shows "\<exists>c. winode i din m = Some (m\<lparr>img := c\<rparr>) \<and> inode_in (m\<lparr>img := c\<rparr>) i = din \<and>
    (\<forall>j. j \<noteq> i \<longrightarrow> inode_in (m\<lparr>img := c\<rparr>) j = inode_in m j) \<and>
    (\<forall>b. b < 32 \<or> 58 \<le> b \<longrightarrow> c b = img m b) \<and> (\<forall>k. length (c k) = BSIZE)"
proof -
  let ?bn = "IBLOCK i mk_sb" and ?k = "i mod IPB"
  let ?buf = "splice (DINODESIZE * ?k) (dinode_bytes din) (img m ?bn)"
  let ?c = "(img m)(?bn := ?buf)"
  have bn: "32 \<le> ?bn" "?bn < 58" using i by (simp_all add: IBLOCK_mk_sb NINODES_def)
  have lb: "length (dinode_bytes din) = DINODESIZE" using wf by (simp add: length_dinode_bytes dinode_wf_def)
  have slot: "DINODESIZE * (j mod IPB + 1) \<le> length (img m k)" for j k
    using len [of k] by (simp add: IPB_def DINODESIZE_def BSIZE_def)
  have r: "winode i din m = Some (m\<lparr>img := ?c\<rparr>)"
    using bn by (simp add: winode_def rsect_def wsect_def Let_def FSSIZE_def)
  have self: "inode_in (m\<lparr>img := ?c\<rparr>) i = din"
    using dinode_at_splice [OF wf slot] by (simp add: inode_in_def)
  have other: "inode_in (m\<lparr>img := ?c\<rparr>) j = inode_in m j" if j: "j \<noteq> i" for j
  proof (cases "IBLOCK j mk_sb = ?bn")
    case True
    then have "j mod IPB \<noteq> ?k"
      using j div_mult_mod_eq [of i 8] div_mult_mod_eq [of j 8] by (auto simp: IBLOCK_mk_sb IPB_def BSIZE_def DINODESIZE_def)
    then show ?thesis using True dinode_at_splice_other [OF lb slot slot] by (simp add: inode_in_def)
  qed (simp add: inode_in_def)
  have "length ?buf = BSIZE" using lb len slot [of i ?bn] by simp
  then have "\<forall>k. length (?c k) = BSIZE" using len by simp
  moreover have "\<forall>b. b < 32 \<or> 58 \<le> b \<longrightarrow> ?c b = img m b" using bn by auto
  ultimately show ?thesis using r self other by blast
qed

text \<open>The blocks of the files are behind those of the inodes.\<close>

lemma indirect_meta: "inode_ok c fb d nb \<Longrightarrow> NDIRECT < nb \<Longrightarrow> nmeta \<le> daddrs d ! NDIRECT"
  using indirect_role [of nb c d] by (auto simp: inode_ok_def)

lemma blk_meta:
  assumes "inode_ok c fb d nb" "\<forall>b \<ge> nmeta. c' b = c b" "k \<in> roles nb"
  shows "blk c' d k = blk c d k \<and> c' (blk c d k) = c (blk c d k)"
proof -
  have n: "nmeta \<le> blk c d k" using assms(1,3) by (simp add: inode_ok_def)
  have "NDIRECT < nb \<longrightarrow> c' (daddrs d ! NDIRECT) = c (daddrs d ! NDIRECT)"
    using indirect_meta [OF assms(1)] assms(2) by simp
  then show ?thesis using blk_frame [where c' = c', OF assms(1) _ assms(3)] assms(2) n by simp
qed

lemma cont_meta:
  assumes "inode_ok c fb d (nblk n)" "\<forall>b \<ge> nmeta. c' b = c b"
  shows "cont c' d n = cont c d n"
  by (rule cont_cong) (use blk_meta [OF assms] in \<open>auto simp: roles_def\<close>)

lemma inode_ok_meta:
  assumes "inode_ok c fb d nb" "\<forall>b \<ge> nmeta. c' b = c b"
  shows "inode_ok c' fb d nb"
proof (rule inode_ok_frame [OF assms(1) _ order_refl])
  show "NDIRECT < nb \<longrightarrow> c' (daddrs d ! NDIRECT) = c (daddrs d ! NDIRECT)"
    using indirect_meta [OF assms(1)] assms(2) by simp
qed

lemma files_ok_meta:
  assumes f: "files_ok c fb I D NB" and c': "\<forall>b \<ge> nmeta. c' b = c b" "\<forall>k. length (c' k) = BSIZE"
  shows "files_ok c' fb I D NB"
proof -
  have "inj_on (\<lambda>(i, k). blk c' (D i) k) (SIGMA i:I. roles (NB i)) = inj_on (\<lambda>(i, k). blk c (D i) k) (SIGMA i:I. roles (NB i))"
    by (rule inj_on_cong) (use blk_meta [OF files_ok_inode [OF f] c'(1)] in auto)
  moreover have "\<forall>i \<in> I. inode_ok c' fb (D i) (NB i)" using inode_ok_meta [OF files_ok_inode [OF f] c'(1)] by blast
  ultimately show ?thesis using f c' by (simp add: files_ok_def)
qed

text \<open>They depend on the addresses only.\<close>

lemma blk_addrs: "daddrs d' = daddrs d \<Longrightarrow> blk c d' k = blk c d k"
  by (simp add: blk_def)

lemma cont_addrs: "daddrs d' = daddrs d \<Longrightarrow> cont c d' n = cont c d n"
  by (intro cont_cong arg_cong [where f = c] blk_addrs)

lemma inode_ok_addrs: "daddrs d' = daddrs d \<Longrightarrow> inode_ok c fb d' nb = inode_ok c fb d nb"
proof -
  assume e: "daddrs d' = daddrs d"
  have "blk c d' = blk c d" by (rule ext) (rule blk_addrs [OF e])
  then show ?thesis unfolding inode_ok_def dinode_wf_def e by simp
qed

lemma files_ok_addrs:
  assumes f: "files_ok c fb I D NB" and e: "\<And>i. i \<in> I \<Longrightarrow> daddrs (D' i) = daddrs (D i)" "\<And>i. i \<in> I \<Longrightarrow> NB' i = NB i"
  shows "files_ok c fb I D' NB'"
proof -
  have "(SIGMA i:I. roles (NB' i)) = (SIGMA i:I. roles (NB i))" using e(2) by auto
  moreover have "inj_on (\<lambda>(i, k). blk c (D' i) k) (SIGMA i:I. roles (NB i)) = inj_on (\<lambda>(i, k). blk c (D i) k) (SIGMA i:I. roles (NB i))"
    by (rule inj_on_cong) (use blk_addrs [OF e(1)] in auto)
  moreover have "\<forall>i \<in> I. inode_ok c fb (D' i) (NB' i)" using f e inode_ok_addrs [OF e(1)] by (simp add: files_ok_def)
  ultimately show ?thesis using f by (simp add: files_ok_def)
qed

lemma length_file_of [simp]: "length (file_of m i) = fsize m i"
  by (simp add: file_of_def cont_def)

lemma rinode_run: "i < NINODES \<Longrightarrow> rinode i m = Some (inode_in m i)"
  by (simp add: rinode_def rsect_def IBLOCK_mk_sb NINODES_def FSSIZE_def inode_in_def)

lemma inode_in_cong: "i < NINODES \<Longrightarrow> \<forall>b < nmeta. img m' b = img m b \<Longrightarrow> inode_in m' i = inode_in m i"
  by (simp add: inode_in_def IBLOCK_mk_sb NINODES_def nmeta_eq)

lemma u32_small: "n < 2 ^ 32 \<Longrightarrow> unat (of_nat n :: u32) = n"
  by (simp add: unat_of_nat take_bit_nat_eq_self)

lemma iappend_run:
  assumes m: "mkfs_ok m" and i: "i \<in> inums m" and sz: "fsize m i + length p \<le> MAXFILE * BSIZE"
    and fb: "freeblock m + blocks_of (fsize m i + length p) \<le> FSSIZE + blocks_of (fsize m i)"
  shows "\<exists>m'. iappend i p m = Some m' \<and> mkfs_ok m' \<and> freeinode m' = freeinode m \<and> file_of m' i = file_of m i @ p \<and>
    (\<forall>j \<in> inums m - {i}. file_of m' j = file_of m j) \<and> (\<forall>j \<in> inums m. dtype (inode_in m' j) = dtype (inode_in m j)) \<and>
    (\<forall>b < 32. img m' b = img m b)"
proof -
  let ?D = "inode_in m" and ?S = "fsize m" and ?off = "fsize m i + length p"
  let ?fb = "freeblock m + blocks_of ?off - blocks_of (fsize m i)"
  have N: "j < NINODES" if "j \<in> inums m" for j using that m by (auto simp: mkfs_ok_def)
  have f: "files_ok (img m) (freeblock m) (inums m) ?D (nblk o ?S)" using m unfolding mkfs_ok_def by blast
  obtain d' c' as where l: "iappend_loop (?S i) p (?D i) m = Some (?off, d', m\<lparr>img := c', freeblock := ?fb\<rparr>)"
    and f': "files_ok c' ?fb (inums m) (?D(i := d')) (nblk o (?S(i := ?off)))"
    and ct: "cont c' d' ?off = cont (img m) (?D i) (?S i) @ p" "\<forall>j \<in> inums m - {i}. cont c' (?D j) (?S j) = cont (img m) (?D j) (?S j)"
    and d': "d' = (?D i)\<lparr>daddrs := as\<rparr>" and meta: "\<forall>b < nmeta. c' b = img m b"
    using iappend_loop_ok [OF f i sz fb] by blast
  let ?m = "m\<lparr>img := c', freeblock := ?fb\<rparr>" and ?din = "d'\<lparr>dsize := of_nat ?off\<rparr>"
  have wf: "dinode_wf ?din" using files_ok_inode [OF f' i] by (simp add: inode_ok_def dinode_wf_def)
  have len: "length (img ?m k) = BSIZE" for k using f' by (simp add: files_ok_def)
  obtain c where w: "winode i ?din ?m = Some (?m\<lparr>img := c\<rparr>)" "inode_in (?m\<lparr>img := c\<rparr>) i = ?din"
      "\<And>j. j \<noteq> i \<Longrightarrow> inode_in (?m\<lparr>img := c\<rparr>) j = inode_in ?m j"
    and c: "\<And>b. b < 32 \<or> 58 \<le> b \<Longrightarrow> c b = c' b" "\<forall>k. length (c k) = BSIZE"
    using winode_run [OF N [OF i] wf len] by auto
  let ?m' = "?m\<lparr>img := c\<rparr>"
  have run: "iappend i p m = Some ?m'" using rinode_run [OF N [OF i]] l w(1) by (simp add: iappend_def fsize_def)
  have c59: "\<forall>b \<ge> nmeta. c b = c' b" using c(1) by (simp add: nmeta_eq)
  have other: "inode_in ?m' j = ?D j" if "j \<in> inums m" "j \<noteq> i" for j
    using w(3) [OF that(2)] inode_in_cong [OF N [OF that(1)], of ?m m] meta by simp
  have "?off < 2 ^ 32" using sz by (simp add: MAXFILE_eq)
  then have "unat (of_nat ?off :: u32) = ?off" by (rule u32_small)
  then have si: "fsize ?m' i = ?off" unfolding fsize_def [of ?m'] w(2) by simp
  have sj: "fsize ?m' j = (?S(i := ?off)) j" if "j \<in> inums m" for j
    using si other [OF that] by (cases "j = i") (simp_all add: fsize_def)
  have fc: "files_ok c ?fb (inums m) (?D(i := d')) (nblk o (?S(i := ?off)))" by (rule files_ok_meta [OF f' c59 c(2)])
  have g: "files_ok c ?fb (inums m) (inode_in ?m') (nblk o fsize ?m')"
    by (rule files_ok_addrs [OF fc]) (use w(2) other sj in \<open>auto simp: comp_def\<close>)
  have fj: "file_of ?m' j = file_of m j" if j: "j \<in> inums m - {i}" for j
  proof -
    have "file_of ?m' j = cont c (?D j) (?S j)" using other [of j] sj [of j] j by (simp add: file_of_def)
    also have "\<dots> = cont c' (?D j) (?S j)"
      using files_ok_inode [OF f', of j] j by (intro cont_meta [OF _ c59]) simp
    finally show ?thesis using ct(2) j by (simp add: file_of_def)
  qed
  have "file_of ?m' i = cont c ?din ?off" unfolding file_of_def w(2) si by simp
  also have "\<dots> = cont c d' ?off" by (rule cont_addrs) simp
  also have "\<dots> = cont c' d' ?off" using files_ok_inode [OF f' i] by (intro cont_meta [OF _ c59]) simp
  finally have fi: "file_of ?m' i = file_of m i @ p" using ct(1) by (simp add: file_of_def)
  have "(\<Sum>j \<in> inums m. blocks_of (fsize ?m' j)) = blocks_of ?off + (\<Sum>j \<in> inums m - {i}. blocks_of (?S j))"
    using i si sj by (subst sum.remove [OF _ i]) simp_all
  moreover have "(\<Sum>j \<in> inums m. blocks_of (?S j)) = blocks_of (?S i) + (\<Sum>j \<in> inums m - {i}. blocks_of (?S j))"
    using i by (subst sum.remove [OF _ i]) simp_all
  ultimately have "?fb = nmeta + (\<Sum>j \<in> inums m. blocks_of (fsize ?m' j))" using m unfolding mkfs_ok_def by linarith
  moreover have "\<forall>j \<in> inums m. fsize ?m' j \<le> MAXFILE * BSIZE" using sj sz m unfolding mkfs_ok_def by auto
  ultimately have ok: "mkfs_ok ?m'" using g m unfolding mkfs_ok_def by simp
  have "dtype (inode_in ?m' j) = dtype (?D j)" if "j \<in> inums m" for j
    using other [OF that] w(2) d' by (cases "j = i") simp_all
  moreover have "\<forall>b < 32. img ?m' b = img m b" using c(1) meta by (simp add: nmeta_eq)
  ultimately show ?thesis using run ok fi fj by auto
qed

lemma nblk_0: "nblk 0 = 0"
  by (simp add: nblk_def BSIZE_def)

lemma files_ok_new:
  assumes f: "files_ok c fb I D NB" and n: "daddrs d = replicate (NDIRECT + 1) 0" and new: "i \<notin> I"
  shows "files_ok c fb (insert i I) (D(i := d)) (NB(i := 0))"
proof -
  have "inode_ok c fb d 0" using n by (simp add: inode_ok_def dinode_wf_def roles_def nth_Cons')
  moreover have "inode_ok c fb ((D(i := d)) j) ((NB(i := 0)) j)" if "j \<in> I" for j
    using files_ok_inode [OF f that] new that by (cases "j = i") simp_all
  moreover have "(SIGMA j:insert i I. roles ((NB(i := 0)) j)) = (SIGMA j:I. roles (NB j))"
    using new by (auto simp: roles_def split: if_splits)
  moreover have "inj_on (\<lambda>(j, k). blk c ((D(i := d)) j) k) (SIGMA j:I. roles (NB j)) = inj_on (\<lambda>(j, k). blk c (D j) k) (SIGMA j:I. roles (NB j))"
    by (rule inj_on_cong) (use new in auto)
  ultimately show ?thesis using f unfolding files_ok_def by simp
qed

lemma mk_ialloc_run:
  assumes m: "mkfs_ok m" and n: "freeinode m < NINODES"
  shows "\<exists>m'. mk_ialloc t m = Some (freeinode m, m') \<and> mkfs_ok m' \<and> freeinode m' = freeinode m + 1 \<and>
    file_of m' (freeinode m) = [] \<and> dtype (inode_in m' (freeinode m)) = t \<and>
    (\<forall>j \<in> inums m. file_of m' j = file_of m j \<and> dtype (inode_in m' j) = dtype (inode_in m j)) \<and> (\<forall>b < 32. img m' b = img m b)"
proof -
  let ?i = "freeinode m" and ?m = "m\<lparr>freeinode := freeinode m + 1\<rparr>" and ?d = "new_dinode t"
  have f: "files_ok (img m) (freeblock m) (inums m) (inode_in m) (nblk o fsize m)" using m unfolding mkfs_ok_def by blast
  have wf: "dinode_wf ?d" by (simp add: dinode_wf_def new_dinode_def)
  have len: "length (img ?m k) = BSIZE" for k using f by (simp add: files_ok_def)
  obtain c where w: "winode ?i ?d ?m = Some (?m\<lparr>img := c\<rparr>)" "inode_in (?m\<lparr>img := c\<rparr>) ?i = ?d"
      "\<And>j. j \<noteq> ?i \<Longrightarrow> inode_in (?m\<lparr>img := c\<rparr>) j = inode_in ?m j"
    and c: "\<And>b. b < 32 \<or> 58 \<le> b \<Longrightarrow> c b = img m b" "\<forall>k. length (c k) = BSIZE"
    using winode_run [OF n wf len] by auto
  let ?m' = "?m\<lparr>img := c\<rparr>"
  have c59: "\<forall>b \<ge> nmeta. c b = img m b" using c(1) by (simp add: nmeta_eq)
  have I: "inums ?m' = insert ?i (inums m)" using m by (auto simp: mkfs_ok_def)
  have i: "inode_in ?m' ?i = ?d" "fsize ?m' ?i = 0" using w(2) by (simp_all add: fsize_def new_dinode_def)
  have o: "inode_in ?m' j = inode_in m j" "fsize ?m' j = fsize m j" if "j \<in> inums m" for j
    using w(3) [of j] that by (simp_all add: inode_in_def fsize_def)
  have "files_ok c (freeblock m) (insert ?i (inums m)) ((inode_in m)(?i := ?d)) ((nblk o fsize m)(?i := 0))"
    by (rule files_ok_new [OF files_ok_meta [OF f c59 c(2)]]) (simp_all add: new_dinode_def)
  then have g: "files_ok c (freeblock m) (inums ?m') (inode_in ?m') (nblk o fsize ?m')"
    unfolding I by (rule files_ok_addrs) (use i o nblk_0 in auto)
  have fj: "file_of ?m' j = file_of m j" if j: "j \<in> inums m" for j
    using files_ok_inode [OF f j] o [OF j] cont_meta [OF _ c59] by (simp add: file_of_def)
  have "(\<Sum>j \<in> inums ?m'. blocks_of (fsize ?m' j)) = (\<Sum>j \<in> inums m. blocks_of (fsize m j))"
    unfolding I using i o by (simp add: blocks_of_def nblk_0)
  moreover have "\<forall>j \<in> inums ?m'. fsize ?m' j \<le> MAXFILE * BSIZE" unfolding I using i o m by (simp add: mkfs_ok_def)
  ultimately have ok: "mkfs_ok ?m'" using g m n unfolding mkfs_ok_def by simp
  moreover have "mk_ialloc t m = Some (?i, ?m')" using w(1) by (simp add: mk_ialloc_def Let_def)
  moreover have "file_of ?m' ?i = []" using i by (simp add: file_of_def cont_def)
  moreover have "dtype (inode_in ?m' ?i) = t" using i by (simp add: new_dinode_def)
  moreover have "\<forall>b < 32. img ?m' b = img m b" using c by simp
  ultimately show ?thesis using fj o by (intro exI [of _ ?m']) simp
qed

section \<open>What the image holds\<close>

text \<open>The files in the order of their inode numbers, each with its type; the abstract view of the image.\<close>

definition files_in :: "mkfs \<Rightarrow> (u16 \<times> byte list) list" where
  "files_in m = map (\<lambda>i. (dtype (inode_in m i), file_of m i)) [1..<freeinode m]"

definition add_bytes :: "nat \<Rightarrow> byte list \<Rightarrow> (u16 \<times> byte list) list \<Rightarrow> (u16 \<times> byte list) list" where
  "add_bytes k p fs = fs[k := (fst (fs ! k), snd (fs ! k) @ p)]"

definition image_size :: "(u16 \<times> byte list) list \<Rightarrow> nat" where
  "image_size fs = nmeta + sum_list (map (\<lambda>f. blocks_of (length (snd f))) fs)"

definition fits :: "(u16 \<times> byte list) list \<Rightarrow> bool" where
  "fits fs = (length fs < NINODES \<and> (\<forall>f \<in> set fs. length (snd f) \<le> MAXFILE * BSIZE) \<and> image_size fs \<le> FSSIZE)"

lemma length_files_in [simp]: "length (files_in m) = freeinode m - 1"
  by (simp add: files_in_def)

lemma nth_files_in: "k < freeinode m - 1 \<Longrightarrow> files_in m ! k = (dtype (inode_in m (k + 1)), file_of m (k + 1))"
  by (simp add: files_in_def)

lemma freeblock_size: "mkfs_ok m \<Longrightarrow> freeblock m = image_size (files_in m)"
  by (simp add: mkfs_ok_def image_size_def files_in_def comp_def interv_sum_list_conv_sum_set_nat)

lemma length_add_bytes [simp]: "length (add_bytes k p fs) = length fs"
  by (simp add: add_bytes_def)

lemma nth_add_bytes: "k < length fs \<Longrightarrow> j < length fs \<Longrightarrow> add_bytes k p fs ! j = (if j = k then (fst (fs ! k), snd (fs ! k) @ p) else fs ! j)"
  by (simp add: add_bytes_def nth_list_update)

lemma add_bytes_twice: "k < length fs \<Longrightarrow> add_bytes k q (add_bytes k p fs) = add_bytes k (p @ q) fs"
  by (simp add: add_bytes_def)

lemma add_bytes_nil: "k < length fs \<Longrightarrow> add_bytes k [] fs = fs"
  by (simp add: add_bytes_def)

lemma image_size_add:
  assumes "k < length fs"
  shows "image_size (add_bytes k p fs) + blocks_of (length (snd (fs ! k))) = image_size fs + blocks_of (length (snd (fs ! k)) + length p)"
proof -
  let ?b = "\<lambda>f. blocks_of (length (snd f))"
  have "?b (fs ! k) \<le> sum_list (map ?b fs)" using assms by (intro elem_le_sum_list [of k "map ?b fs", simplified]) auto
  then show ?thesis using assms by (simp add: image_size_def add_bytes_def map_update sum_list_update)
qed

text \<open>What is shorter fits as well.\<close>

lemma image_size_mono:
  "length fs \<le> length gs \<Longrightarrow> \<forall>k < length fs. length (snd (fs ! k)) \<le> length (snd (gs ! k)) \<Longrightarrow> image_size fs \<le> image_size gs"
proof (induction fs arbitrary: gs)
  case (Cons f fs)
  then obtain g gs' where gs: "gs = g # gs'" by (cases gs) auto
  have "blocks_of (length (snd f)) \<le> blocks_of (length (snd g))" using Cons.prems(2) gs by (intro blocks_of_mono) force
  moreover have "image_size fs \<le> image_size gs'" using Cons.prems gs by (intro Cons.IH) auto
  ultimately show ?case by (simp add: gs image_size_def)
qed (simp add: image_size_def)

lemma fits_mono:
  assumes "fits gs" "length fs \<le> length gs" "\<And>k. k < length fs \<Longrightarrow> length (snd (fs ! k)) \<le> length (snd (gs ! k))"
  shows "fits fs"
proof -
  have "length (snd f) \<le> MAXFILE * BSIZE" if "f \<in> set fs" for f
  proof -
    obtain k where "k < length fs" "f = fs ! k" using \<open>f \<in> set fs\<close> by (auto simp: in_set_conv_nth)
    then show ?thesis using assms(1,2) assms(3) [of k] nth_mem [of k gs] unfolding fits_def by fastforce
  qed
  then show ?thesis using image_size_mono [of fs gs] assms unfolding fits_def by force
qed

lemma iappend_refines:
  assumes m: "mkfs_ok m" and k: "k < length (files_in m)" and fit: "fits (add_bytes k p (files_in m))"
  shows "\<exists>m'. iappend (k + 1) p m = Some m' \<and> mkfs_ok m' \<and> files_in m' = add_bytes k p (files_in m) \<and> (\<forall>b < 32. img m' b = img m b)"
proof -
  let ?fs = "files_in m"
  have i: "k + 1 \<in> inums m" using k by simp
  have e: "?fs ! k = (dtype (inode_in m (k + 1)), file_of m (k + 1))" using k by (simp add: nth_files_in)
  have "add_bytes k p ?fs ! k \<in> set (add_bytes k p ?fs)" using k by (intro nth_mem) simp
  then have "fsize m (k + 1) + length p \<le> MAXFILE * BSIZE" using fit k e unfolding fits_def by (fastforce simp: nth_add_bytes)
  moreover have "freeblock m + blocks_of (fsize m (k + 1) + length p) \<le> FSSIZE + blocks_of (fsize m (k + 1))"
    using image_size_add [OF k, of p] fit e freeblock_size [OF m] unfolding fits_def by simp
  ultimately obtain m' where m': "iappend (k + 1) p m = Some m'" "mkfs_ok m'" "freeinode m' = freeinode m" "file_of m' (k + 1) = file_of m (k + 1) @ p"
      "\<forall>j \<in> inums m - {k + 1}. file_of m' j = file_of m j" "\<forall>j \<in> inums m. dtype (inode_in m' j) = dtype (inode_in m j)" "\<forall>b < 32. img m' b = img m b"
    using iappend_run [OF m i] by blast
  have "files_in m' = add_bytes k p ?fs"
    by (rule nth_equalityI) (use k m' in \<open>auto simp: nth_files_in nth_add_bytes\<close>)
  then show ?thesis using m' by blast
qed

lemma mk_ialloc_refines:
  assumes m: "mkfs_ok m" and n: "length (files_in m) + 1 < NINODES"
  shows "\<exists>m'. mk_ialloc t m = Some (length (files_in m) + 1, m') \<and> mkfs_ok m' \<and> files_in m' = files_in m @ [(t, [])] \<and> (\<forall>b < 32. img m' b = img m b)"
proof -
  have f: "1 \<le> freeinode m" using m by (simp add: mkfs_ok_def)
  then have "freeinode m < NINODES" using n by simp
  then obtain m' where m': "mk_ialloc t m = Some (freeinode m, m')" "mkfs_ok m'" "freeinode m' = freeinode m + 1"
      "file_of m' (freeinode m) = []" "dtype (inode_in m' (freeinode m)) = t"
      "\<forall>j \<in> inums m. file_of m' j = file_of m j \<and> dtype (inode_in m' j) = dtype (inode_in m j)" "\<forall>b < 32. img m' b = img m b"
    using mk_ialloc_run [OF m] by blast
  have "[1..<freeinode m'] = [1..<freeinode m] @ [freeinode m]" using m'(3) f by simp
  then have "files_in m' = files_in m @ [(t, [])]" using m' by (simp add: files_in_def)
  then show ?thesis using m' f by simp
qed

section \<open>The whole program\<close>

text \<open>The name under which an argument is stored.\<close>

definition stored_name :: "byte list \<Rightarrow> byte list" where
  "stored_name name = (if name \<noteq> [] \<and> hd name = of_char (CHR ''_'') then tl name else name)"

fun dir_entries :: "nat \<Rightarrow> (byte list \<times> byte list list) list \<Rightarrow> byte list" where
  "dir_entries i [] = []"
| "dir_entries i ((name, data) # files) = dirent i (stored_name name) @ dir_entries (i + 1) files"

definition image_of :: "(byte list \<times> byte list list) list \<Rightarrow> (u16 \<times> byte list) list" where
  "image_of files = (T_DIR, dirent 1 (str ''.'') @ dirent 1 (str ''..'') @ dir_entries 2 files) #
     map (\<lambda>f. (T_FILE, concat (snd f))) files"

lemma append_all_refines:
  "mkfs_ok m \<Longrightarrow> k < length (files_in m) \<Longrightarrow> fits (add_bytes k (concat ps) (files_in m)) \<Longrightarrow>
   \<exists>m'. append_all (k + 1) ps m = Some m' \<and> mkfs_ok m' \<and> files_in m' = add_bytes k (concat ps) (files_in m) \<and> (\<forall>b < 32. img m' b = img m b)"
proof (induction ps arbitrary: m)
  case Nil
  then show ?case by (simp add: add_bytes_nil)
next
  case (Cons p ps)
  have fit: "fits (add_bytes k p (files_in m))"
    by (rule fits_mono [OF Cons.prems(3)]) (use Cons.prems(2) in \<open>simp_all add: nth_add_bytes\<close>)
  obtain m' where m': "iappend (k + 1) p m = Some m'" "mkfs_ok m'" "files_in m' = add_bytes k p (files_in m)" "\<forall>b < 32. img m' b = img m b"
    using iappend_refines [OF Cons.prems(1,2) fit] by blast
  have l: "length (files_in m') = length (files_in m)" unfolding m'(3) by (rule length_add_bytes)
  have a: "add_bytes k (concat ps) (files_in m') = add_bytes k (concat (p # ps)) (files_in m)"
    unfolding m'(3) using add_bytes_twice [OF Cons.prems(2)] by simp
  show ?case
    using Cons.IH [OF m'(2)] Cons.prems(2,3) l m'(1,4) unfolding a by (auto simp del: length_files_in)
qed

lemma copy_file_refines:
  assumes m: "mkfs_ok m" and n: "0 < length (files_in m)" and sl: "slash \<notin> set name"
    and fit: "fits (add_bytes 0 (dirent (length (files_in m) + 1) (stored_name name)) (files_in m) @ [(T_FILE, concat ps)])"
  shows "\<exists>m'. copy_file 1 name (Some ps) m = Some m' \<and> mkfs_ok m' \<and> (\<forall>b < 32. img m' b = img m b) \<and>
    files_in m' = add_bytes 0 (dirent (length (files_in m) + 1) (stored_name name)) (files_in m) @ [(T_FILE, concat ps)]"
proof -
  let ?n = "length (files_in m)" and ?fs = "files_in m"
  let ?e = "dirent (?n + 1) (stored_name name)"
  have "?n + 1 < NINODES" using fit by (simp add: fits_def)
  then obtain m1 where 1: "mk_ialloc T_FILE m = Some (?n + 1, m1)" "mkfs_ok m1" "files_in m1 = ?fs @ [(T_FILE, [])]" "\<forall>b < 32. img m1 b = img m b"
    using mk_ialloc_refines [OF m] by blast
  have a: "add_bytes 0 ?e (files_in m1) = add_bytes 0 ?e ?fs @ [(T_FILE, [])]"
    unfolding 1(3) using n by (simp add: add_bytes_def nth_append list_update_append del: length_files_in)
  have "fits (add_bytes 0 ?e (files_in m1))"
    unfolding a by (rule fits_mono [OF fit]) (auto simp: nth_append less_Suc_eq simp del: length_files_in)
  moreover have "0 < length (files_in m1)" unfolding 1(3) by simp
  ultimately obtain m2 where 2: "iappend (0 + 1) ?e m1 = Some m2" "mkfs_ok m2" "files_in m2 = add_bytes 0 ?e (files_in m1)" "\<forall>b < 32. img m2 b = img m1 b"
    using iappend_refines [OF 1(2)] by blast
  have b: "add_bytes ?n (concat ps) (files_in m2) = add_bytes 0 ?e ?fs @ [(T_FILE, concat ps)]" "?n < length (files_in m2)"
    unfolding 2(3) a by (simp_all add: add_bytes_def nth_append list_update_append del: length_files_in)
  obtain m3 where 3: "append_all (?n + 1) ps m2 = Some m3" "mkfs_ok m3" "files_in m3 = add_bytes ?n (concat ps) (files_in m2)" "\<forall>b < 32. img m3 b = img m2 b"
    using append_all_refines [OF 2(2) b(2)] fit b(1) by force
  have "copy_file 1 name (Some ps) m = Some m3"
    using sl 1(1) 2(1) 3(1) by (simp add: copy_file_def stored_name_def Let_def del: length_files_in)
  then show ?thesis using 1(4) 2(4) 3 b(1) by simp
qed

lemma copy_files_refines:
  "mkfs_ok m \<Longrightarrow> 0 < length (files_in m) \<Longrightarrow> \<forall>f \<in> set files. slash \<notin> set (fst f) \<Longrightarrow>
   fits (add_bytes 0 (dir_entries (length (files_in m) + 1) files) (files_in m) @ map (\<lambda>f. (T_FILE, concat (snd f))) files) \<Longrightarrow>
   \<exists>m'. copy_files 1 (map (apsnd Some) files) m = Some m' \<and> mkfs_ok m' \<and> (\<forall>b < 32. img m' b = img m b) \<and>
     files_in m' = add_bytes 0 (dir_entries (length (files_in m) + 1) files) (files_in m) @ map (\<lambda>f. (T_FILE, concat (snd f))) files"
proof (induction files arbitrary: m)
  case Nil
  then show ?case by (simp add: add_bytes_nil del: length_files_in)
next
  case (Cons f files)
  obtain name ps where f: "f = (name, ps)" by (cases f)
  let ?fs = "files_in m" and ?n = "length (files_in m) + 1" and ?rest = "map (\<lambda>f. (T_FILE, concat (snd f))) files"
  let ?e = "dirent ?n (stored_name name)"
  have n: "0 < length ?fs" by (rule Cons.prems(2))
  have target: "add_bytes 0 (dir_entries ?n (f # files)) ?fs @ map (\<lambda>f. (T_FILE, concat (snd f))) (f # files) =
      add_bytes 0 (dir_entries (?n + 1) files) (add_bytes 0 ?e ?fs @ [(T_FILE, concat ps)]) @ ?rest"
    using n by (simp add: f add_bytes_def nth_append list_update_append del: length_files_in)
  have "fits (add_bytes 0 ?e ?fs @ [(T_FILE, concat ps)])"
    by (rule fits_mono [OF Cons.prems(4) [unfolded target]]) (use n in \<open>auto simp: nth_append add_bytes_def nth_list_update less_Suc_eq simp del: length_files_in\<close>)
  then obtain m1 where 1: "copy_file 1 name (Some ps) m = Some m1" "mkfs_ok m1" "\<forall>b < 32. img m1 b = img m b"
      "files_in m1 = add_bytes 0 ?e ?fs @ [(T_FILE, concat ps)]"
    using copy_file_refines [OF Cons.prems(1) n, of name ps] Cons.prems(3) f by auto
  have l: "length (files_in m1) = ?n" unfolding 1(4) by simp
  have n1: "0 < length (files_in m1)" unfolding l by simp
  have "fits (add_bytes 0 (dir_entries (length (files_in m1) + 1) files) (files_in m1) @ ?rest)"
    using Cons.prems(4) unfolding l unfolding target 1(4) .
  then obtain m2 where 2: "copy_files 1 (map (apsnd Some) files) m1 = Some m2" "mkfs_ok m2" "\<forall>b < 32. img m2 b = img m1 b"
      "files_in m2 = add_bytes 0 (dir_entries (length (files_in m1) + 1) files) (files_in m1) @ ?rest"
    using Cons.IH [OF 1(2) n1] Cons.prems(3) by auto
  have "files_in m2 = add_bytes 0 (dir_entries ?n (f # files)) ?fs @ map (\<lambda>f. (T_FILE, concat (snd f))) (f # files)"
    unfolding target 2(4) unfolding l unfolding 1(4) ..
  then show ?case using 1 2 f by simp
qed

text \<open>The empty image.\<close>

definition blank :: mkfs where
  "blank = \<lparr>img = (\<lambda>_. replicate BSIZE 0)(1 := splice 0 (sb_bytes mk_sb) (replicate BSIZE 0)), freeinode = 1, freeblock = nmeta\<rparr>"

lemma length_sb_bytes: "length (sb_bytes s) = 28"
  by (simp add: sb_bytes_def)

lemma blank_ok: "mkfs_ok blank" "files_in blank = []"
  by (simp_all add: mkfs_ok_def blank_def files_ok_def nmeta_eq NINODES_def FSSIZE_def length_sb_bytes BSIZE_def files_in_def)

lemma blank_sb: "sb_of (img blank 1) = mk_sb"
proof -
  have "hdr_word (img blank 1) j = [sbsize mk_sb, nblocks mk_sb, ninodes mk_sb, nlog mk_sb, logstart mk_sb, inodestart mk_sb, bmapstart mk_sb] ! j"
    if "j < 7" for j
    unfolding blank_def splice_def sb_bytes_def
    using that by (simp only: mkfs.select_convs fun_upd_same take_0 append_Nil append_assoc)
      (rule hdr_word_concat, simp_all add: mk_sb_def FSSIZE_def nmeta_eq NINODES_def LOGSIZE_def MAXOPBLOCKS_def ninodeblocks_def IPB_def BSIZE_def DINODESIZE_def)
  then show ?thesis by (simp add: sb_of_def)
qed

lemma mk_root_run:
  "\<exists>m. mk_root = Some (1, m) \<and> mkfs_ok m \<and> files_in m = [(T_DIR, dirent 1 (str ''.'') @ dirent 1 (str ''..''))] \<and> (\<forall>b < 32. img m b = img blank b)"
proof -
  let ?e = "dirent 1 (str ''.'')" and ?e' = "dirent 1 (str ''..'')"
  have le: "length (dirent i n) = 16" for i n by (simp add: dirent_def name_field_def DIRSIZ_def)
  obtain m1 where 1: "mk_ialloc T_DIR blank = Some (1, m1)" "mkfs_ok m1" "files_in m1 = [(T_DIR, [])]" "\<forall>b < 32. img m1 b = img blank b"
    using mk_ialloc_refines [OF blank_ok(1), of T_DIR] by (auto simp: blank_ok(2) NINODES_def simp del: length_files_in)
  have small: "fits [(T_DIR, d)]" if "length d \<le> 32" for d
  proof -
    have "blocks_of (length d) \<le> blocks_of 32" by (rule blocks_of_mono [OF that])
    also have "\<dots> = 1" by (simp add: blocks_of_def nblk_def BSIZE_def NDIRECT_def)
    finally show ?thesis using that by (simp add: fits_def image_size_def nmeta_eq FSSIZE_def NINODES_def MAXFILE_eq)
  qed
  have "0 < length (files_in m1)" "fits (add_bytes 0 ?e (files_in m1))"
    unfolding 1(3) by (simp_all add: add_bytes_def small le)
  then obtain m2 where 2: "iappend (0 + 1) ?e m1 = Some m2" "mkfs_ok m2" "files_in m2 = add_bytes 0 ?e (files_in m1)" "\<forall>b < 32. img m2 b = img m1 b"
    using iappend_refines [OF 1(2)] by blast
  have f2: "files_in m2 = [(T_DIR, ?e)]" unfolding 2(3) 1(3) by (simp add: add_bytes_def)
  have "0 < length (files_in m2)" "fits (add_bytes 0 ?e' (files_in m2))"
    unfolding f2 by (simp_all add: add_bytes_def small le)
  then obtain m3 where 3: "iappend (0 + 1) ?e' m2 = Some m3" "mkfs_ok m3" "files_in m3 = add_bytes 0 ?e' (files_in m2)" "\<forall>b < 32. img m3 b = img m2 b"
    using iappend_refines [OF 2(2)] by blast
  have "mk_root = Some (1, m3)"
    using 1(1) 2(1) 3(1) unfolding mk_root_def blank_def by (simp add: wsect_def Let_def ROOTINO_def)
  moreover have "files_in m3 = [(T_DIR, ?e @ ?e')]" unfolding 3(3) f2 by (simp add: add_bytes_def)
  moreover have "\<forall>b < 32. img m3 b = img blank b" using 1(4) 2(4) 3(4) by simp
  ultimately show ?thesis using 3(2) by blast
qed

text \<open>The bitmap.\<close>

definition bitmap :: "nat \<Rightarrow> byte list" where
  "bitmap n = foldl (\<lambda>buf i. buf[i div 8 := buf ! (i div 8) OR bitmask i]) (replicate BSIZE 0) [0..<n]"

lemma bitmap_bits: "n \<le> BPB \<Longrightarrow> length (bitmap n) = BSIZE \<and> (\<forall>b < BPB. bit_free (bitmap n) b \<longleftrightarrow> n \<le> b)"
proof (induction n)
  case 0
  have "bit_free (replicate BSIZE 0) b" if "b < BPB" for b
  proof -
    have "b div 8 < BSIZE" using that by (simp add: BPB_def less_mult_imp_div_less)
    then show ?thesis by (simp add: bit_free_def)
  qed
  then show ?case by (simp add: bitmap_def)
next
  case (Suc n)
  have e: "bitmap (Suc n) = (bitmap n)[n div 8 := bitmap n ! (n div 8) OR bitmask n]" by (simp add: bitmap_def)
  have ih: "length (bitmap n) = BSIZE" "\<forall>b < BPB. bit_free (bitmap n) b \<longleftrightarrow> n \<le> b" using Suc by simp_all
  have "bit_free (bitmap (Suc n)) b \<longleftrightarrow> Suc n \<le> b" if "b < BPB" for b
    unfolding e using bit_free_update(1) [OF ih(1) _ that, of n] ih(2) that Suc.prems by auto
  then show ?case using ih(1) by (simp add: e)
qed

lemma fblk_load: "k < MAXFILE \<Longrightarrow> fblk c (load_dinode d ip) k = blk c d k"
  by (simp add: fblk_def load_dinode_def blk_def)

lemma kernel_reads:
  assumes "nblk n \<le> MAXFILE"
  shows "file_bytes c (load_dinode d ip) 0 n = cont c d n"
proof (rule nth_equalityI)
  fix q assume q: "q < length (file_bytes c (load_dinode d ip) 0 n)"
  then have "q div BSIZE < MAXFILE" using nblk_less [of q n] assms by simp
  then show "file_bytes c (load_dinode d ip) 0 n ! q = cont c d n ! q"
    using q by (simp add: file_bytes_def cont_def fbyte_def fblk_load)
qed (simp add: cont_def)

text \<open>What \<open>finish\<close> leaves: the files, with the size of the root rounded up, and the bitmap.\<close>

lemma finish_run:
  assumes m: "mkfs_ok m" and n: "0 < length (files_in m)"
  shows "\<exists>m'. finish 1 m = Some m' \<and> (\<forall>b < 32. img m' b = img m b) \<and>
    (\<forall>k < length (files_in m). dtype (inode_in m' (k + 1)) = fst (files_in m ! k) \<and>
       cont (img m') (inode_in m' (k + 1)) (length (snd (files_in m ! k))) = snd (files_in m ! k) \<and>
       (0 < k \<longrightarrow> dsize (inode_in m' (k + 1)) = of_nat (length (snd (files_in m ! k))))) \<and>
    (\<forall>b < BPB. bit_free (img m' (bmapstart mk_sb)) b \<longleftrightarrow> image_size (files_in m) \<le> b)"
proof -
  let ?din = "inode_in m 1" and ?off = "(fsize m 1 div BSIZE + 1) * BSIZE"
  let ?d = "?din\<lparr>dsize := of_nat ?off\<rparr>"
  have f: "files_ok (img m) (freeblock m) (inums m) (inode_in m) (nblk o fsize m)" using m unfolding mkfs_ok_def by blast
  have i1: "1 \<in> inums m" and N: "1 < NINODES" using n by (auto simp: NINODES_def)
  have wf: "dinode_wf ?d" using files_ok_inode [OF f i1] by (simp add: inode_ok_def dinode_wf_def)
  have len: "length (img m k) = BSIZE" for k using f by (simp add: files_ok_def)
  obtain c where w: "winode 1 ?d m = Some (m\<lparr>img := c\<rparr>)" "inode_in (m\<lparr>img := c\<rparr>) 1 = ?d"
      "\<And>j. j \<noteq> 1 \<Longrightarrow> inode_in (m\<lparr>img := c\<rparr>) j = inode_in m j"
    and c: "\<And>b. b < 32 \<or> 58 \<le> b \<Longrightarrow> c b = img m b" "\<forall>k. length (c k) = BSIZE"
    using winode_run [OF N wf len] by auto
  have fbs: "freeblock m = image_size (files_in m)" by (rule freeblock_size [OF m])
  have fb: "freeblock m \<le> BPB" "freeblock m < BSIZE * 8" using f by (auto simp: files_ok_def FSSIZE_def BPB_def BSIZE_def)
  have bm: "bmapstart mk_sb = 58" by (simp add: mk_sb_def LOGSIZE_def MAXOPBLOCKS_def ninodeblocks_def NINODES_def IPB_def BSIZE_def DINODESIZE_def)
  let ?c = "c(58 := bitmap (freeblock m))" let ?m = "m\<lparr>img := ?c\<rparr>"
  have run: "finish 1 m = Some ?m"
    using rinode_run [OF N, of m] w(1) fb(2) bm by (simp add: finish_def mk_balloc_def wsect_def bitmap_def fsize_def Let_def)
  have ic: "inode_in ?m j = inode_in (m\<lparr>img := c\<rparr>) j" if "j < NINODES" for j
    using that by (simp add: inode_in_def IBLOCK_mk_sb NINODES_def)
  have c59: "\<forall>b \<ge> nmeta. ?c b = img m b" using c(1) by (simp add: nmeta_eq)
  have files: "dtype (inode_in ?m i) = dtype (inode_in m i) \<and> cont ?c (inode_in ?m i) (fsize m i) = file_of m i \<and>
      (i \<noteq> 1 \<longrightarrow> inode_in ?m i = inode_in m i)" if i: "i \<in> inums m" for i
  proof -
    have "i < NINODES" using i m by (auto simp: mkfs_ok_def)
    note e = ic [OF this]
    have a: "daddrs (inode_in ?m i) = daddrs (inode_in m i)" "dtype (inode_in ?m i) = dtype (inode_in m i)"
      using e w(2,3) by (cases "i = 1"; simp)+
    have "cont ?c (inode_in ?m i) (fsize m i) = cont ?c (inode_in m i) (fsize m i)" by (rule cont_addrs [OF a(1)])
    also have "\<dots> = file_of m i"
      unfolding file_of_def using files_ok_inode [OF f i] by (intro cont_meta [OF _ c59]) simp
    finally show ?thesis using a(2) e w(3) by simp
  qed
  have fk: "dtype (inode_in ?m (k + 1)) = fst (files_in m ! k) \<and>
       cont (img ?m) (inode_in ?m (k + 1)) (length (snd (files_in m ! k))) = snd (files_in m ! k) \<and>
       (0 < k \<longrightarrow> dsize (inode_in ?m (k + 1)) = of_nat (length (snd (files_in m ! k))))" if k: "k < length (files_in m)" for k
  proof -
    have i: "k + 1 \<in> inums m" and k': "k < freeinode m - 1" using k by simp_all
    show ?thesis using files [OF i] by (simp add: nth_files_in [OF k'] fsize_def)
  qed
  have "bit_free (img ?m (bmapstart mk_sb)) b \<longleftrightarrow> image_size (files_in m) \<le> b" if "b < BPB" for b
    using bitmap_bits [OF fb(1)] that by (simp add: bm fbs)
  moreover have "\<forall>b < 32. img ?m b = img m b" using c(1) by simp
  ultimately show ?thesis using run fk by blast
qed

text \<open>C17: \<open>mkfs\<close>, given files that fit, writes an image from which the kernel reads back, for each
  of them, a file inode with its contents, and a root directory with the entries \<^verbatim>\<open>.\<close>, \<^verbatim>\<open>..\<close> and one
  for each file in order; its superblock says where the parts are, and its bitmap marks exactly the
  blocks in use.\<close>

theorem mkfs_builds_image:
  assumes sl: "\<forall>f \<in> set files. slash \<notin> set (fst f)" and fit: "fits (image_of files)"
  shows "\<exists>m. mkfs_main (map (apsnd Some) files) = Some m \<and> sb_of (img m 1) = mk_sb \<and>
    (\<forall>k \<le> length files. let d = inode_in m (k + 1); bs = snd (image_of files ! k) in
       dtype d = fst (image_of files ! k) \<and> (0 < k \<longrightarrow> dsize d = of_nat (length bs)) \<and>
       (\<forall>ip. file_bytes (img m) (load_dinode d ip) 0 (length bs) = bs)) \<and>
    (\<forall>b < FSSIZE. bit_free (img m (BBLOCK b mk_sb)) (b mod BPB) \<longleftrightarrow> image_size (image_of files) \<le> b)"
proof -
  let ?fs = "image_of files"
  obtain m0 where 0: "mk_root = Some (1, m0)" "mkfs_ok m0" "files_in m0 = [(T_DIR, dirent 1 (str ''.'') @ dirent 1 (str ''..''))]"
      "\<forall>b < 32. img m0 b = img blank b"
    using mk_root_run by blast
  have fs: "?fs = add_bytes 0 (dir_entries (length (files_in m0) + 1) files) (files_in m0) @ map (\<lambda>f. (T_FILE, concat (snd f))) files"
    unfolding 0(3) by (simp add: image_of_def add_bytes_def numeral_2_eq_2)
  have "0 < length (files_in m0)" unfolding 0(3) by simp
  then obtain m1 where 1: "copy_files 1 (map (apsnd Some) files) m0 = Some m1" "mkfs_ok m1" "files_in m1 = ?fs" "\<forall>b < 32. img m1 b = img m0 b"
    using copy_files_refines [OF 0(2) _ sl] fit unfolding fs by blast
  have l: "length (files_in m1) = length files + 1" unfolding 1(3) by (simp add: image_of_def)
  then obtain m where m: "finish 1 m1 = Some m" "\<forall>b < 32. img m b = img m1 b"
      "\<forall>k < length files + 1. dtype (inode_in m (k + 1)) = fst (?fs ! k) \<and>
         cont (img m) (inode_in m (k + 1)) (length (snd (?fs ! k))) = snd (?fs ! k) \<and>
         (0 < k \<longrightarrow> dsize (inode_in m (k + 1)) = of_nat (length (snd (?fs ! k))))"
      "\<forall>b < BPB. bit_free (img m (bmapstart mk_sb)) b \<longleftrightarrow> image_size ?fs \<le> b"
    using finish_run [OF 1(2)] unfolding 1(3) by auto
  have run: "mkfs_main (map (apsnd Some) files) = Some m"
    unfolding mkfs_main_def 0(1) option.case prod.case 1(1) m(1) ..
  have sb: "sb_of (img m 1) = mk_sb" using m(2) 1(4) 0(4) blank_sb by simp
  have rd: "file_bytes (img m) (load_dinode (inode_in m (k + 1)) ip) 0 (length (snd (?fs ! k))) = snd (?fs ! k)"
    if k: "k \<le> length files" for k ip
  proof -
    have "?fs ! k \<in> set ?fs" using k l 1(3) by (intro nth_mem) simp
    then have "length (snd (?fs ! k)) \<le> MAXFILE * BSIZE" using fit by (auto simp: fits_def)
    then have "nblk (length (snd (?fs ! k))) \<le> nblk (MAXFILE * BSIZE)" unfolding nblk_def by (intro div_le_mono) simp
    also have "\<dots> = MAXFILE" by (simp add: nblk_here BSIZE_def)
    finally have "nblk (length (snd (?fs ! k))) \<le> MAXFILE" .
    then show ?thesis using kernel_reads m(3) k by simp
  qed
  have bits: "bit_free (img m (BBLOCK b mk_sb)) (b mod BPB) \<longleftrightarrow> image_size ?fs \<le> b" if "b < FSSIZE" for b
  proof -
    have "b < BPB" using that by (simp add: FSSIZE_def BPB_def BSIZE_def)
    then show ?thesis using m(4) by (simp add: BBLOCK_def)
  qed
  show ?thesis
    by (rule exI [of _ m]) (use run sb rd bits m(3) in \<open>simp add: Let_def\<close>)
qed

text \<open>Two files, one given in two pieces and one with the underscore of the build.\<close>

lemma mkfs_builds_image_witness:
  "\<exists>m. mkfs_main (map (apsnd Some) [(str ''README'', [[1, 2], [3]]), (str ''_ls'', [])]) = Some m \<and>
     file_bytes (img m) (load_dinode (inode_in m 2) undefined) 0 3 = [1, 2, 3] \<and> dsize (inode_in m 2) = 3 \<and>
     file_bytes (img m) (load_dinode (inode_in m 1) undefined) 0 64 =
       dirent 1 (str ''.'') @ dirent 1 (str ''..'') @ dirent 2 (str ''README'') @ dirent 3 (str ''ls'') \<and>
     bit_free (img m (BBLOCK 61 mk_sb)) (61 mod BPB) \<and> \<not> bit_free (img m (BBLOCK 60 mk_sb)) (60 mod BPB)"
proof -
  let ?files = "[(str ''README'', [[1, 2], [3]]), (str ''_ls'', [])] :: (byte list \<times> byte list list) list"
  have le: "length (dirent i n) = 16" for i n by (simp add: dirent_def name_field_def DIRSIZ_def)
  have im: "image_of ?files = [(T_DIR, dirent 1 (str ''.'') @ dirent 1 (str ''..'') @ dirent 2 (str ''README'') @ dirent 3 (str ''ls'')),
      (T_FILE, [1, 2, 3]), (T_FILE, [])]"
    by (simp add: image_of_def stored_name_def str_def)
  have sz: "image_size (image_of ?files) = 61"
    unfolding im by (simp add: image_size_def le nmeta_eq blocks_of_def nblk_def BSIZE_def NDIRECT_def)
  have fit: "fits (image_of ?files)"
    unfolding fits_def sz unfolding im by (simp add: le NINODES_def MAXFILE_eq)
  have sl: "\<forall>f \<in> set ?files. slash \<notin> set (fst f)" by (simp add: str_def)
  obtain m where m: "mkfs_main (map (apsnd Some) ?files) = Some m"
    "\<forall>k \<le> length ?files. let d = inode_in m (k + 1); bs = snd (image_of ?files ! k) in
       dtype d = fst (image_of ?files ! k) \<and> (0 < k \<longrightarrow> dsize d = of_nat (length bs)) \<and>
       (\<forall>ip. file_bytes (img m) (load_dinode d ip) 0 (length bs) = bs)"
    "\<forall>b < FSSIZE. bit_free (img m (BBLOCK b mk_sb)) (b mod BPB) \<longleftrightarrow> image_size (image_of ?files) \<le> b"
    using mkfs_builds_image [OF sl fit] by blast
  have "file_bytes (img m) (load_dinode (inode_in m 2) undefined) 0 3 = [1, 2, 3]" "dsize (inode_in m 2) = 3"
    using m(2) [rule_format, of 1] by (simp_all add: im Let_def eval_nat_numeral)
  moreover have "file_bytes (img m) (load_dinode (inode_in m 1) undefined) 0 64 =
       dirent 1 (str ''.'') @ dirent 1 (str ''..'') @ dirent 2 (str ''README'') @ dirent 3 (str ''ls'')"
    using m(2) [rule_format, of 0] by (simp add: im Let_def le)
  moreover have "bit_free (img m (BBLOCK 61 mk_sb)) (61 mod BPB)" "\<not> bit_free (img m (BBLOCK 60 mk_sb)) (60 mod BPB)"
    using m(3) unfolding sz by (simp_all add: FSSIZE_def)
  ultimately show ?thesis using m(1) by blast
qed

text \<open>\<open>ialloc\<close> does not count: past the blocks of the inodes it hands out the bitmap block.\<close>

lemma ialloc_past_the_end:
  "freeinode m = 208 \<Longrightarrow> mk_ialloc t m = Some (208, wsect (bmapstart mk_sb)
     (splice 0 (dinode_bytes (new_dinode t)) (img m (bmapstart mk_sb))) (m\<lparr>freeinode := 209\<rparr>))"
  by (simp add: mk_ialloc_def winode_def rsect_def IBLOCK_def mk_sb_def LOGSIZE_def MAXOPBLOCKS_def ninodeblocks_def
    NINODES_def IPB_def BSIZE_def DINODESIZE_def FSSIZE_def Let_def)

end
