(* ===== verification/Boot.thy ===== *)
theory Boot
  imports Exec Ide
begin

text \<open>
  The boot loader (\<^verbatim>\<open>bootmain.c\<close>), which copies the kernel's ELF image from the disk into memory.
  The disk is a parameter: the bytes of each sector, as the drive gives them; \<^verbatim>\<open>waitdisk\<close> is the
  time the drive takes and has no effect. The registers are those of \<open>Ide\<close>, the fields of the ELF
  header those of \<open>Exec\<close>.
\<close>

section \<open>The loader\<close>

type_synonym sectors = "nat \<Rightarrow> byte list"

definition SECTSIZE :: u32 where "SECTSIZE = 512"

fun insl :: "memory \<Rightarrow> u32 \<Rightarrow> byte list \<Rightarrow> memory" where
  "insl m a [] = m"
| "insl m a (b # bs) = insl (m(a := b)) (a + 1) bs"

text \<open>The registers as they are when the command is issued.\<close>

definition read_regs :: "u32 \<Rightarrow> nat \<Rightarrow> byte" where
  "read_regs offset = (\<lambda>_. 0)(0x1f2 := 1, 0x1f3 := ucast offset, 0x1f4 := ucast (drop_bit 8 offset),
     0x1f5 := ucast (drop_bit 16 offset), 0x1f6 := ucast (drop_bit 24 offset) OR 0xe0, 0x1f7 := 0x20)"

definition readsect :: "sectors \<Rightarrow> u32 \<Rightarrow> u32 \<Rightarrow> memory \<Rightarrow> memory" where
  "readsect dk dst offset m = insl m dst (dk (lba (read_regs offset)))"

partial_function (option) readseg_loop :: "sectors \<Rightarrow> u32 \<Rightarrow> u32 \<Rightarrow> u32 \<Rightarrow> memory \<Rightarrow> memory option" where
  "readseg_loop dk pa epa offset m =
     (if pa < epa then readseg_loop dk (pa + SECTSIZE) epa (offset + 1) (readsect dk pa offset m) else Some m)"

definition readseg :: "sectors \<Rightarrow> u32 \<Rightarrow> u32 \<Rightarrow> u32 \<Rightarrow> memory \<Rightarrow> memory option" where
  "readseg dk pa count offset m =
     readseg_loop dk (pa - offset mod SECTSIZE) (pa + count) (offset div SECTSIZE + 1) m"

text \<open>The 32-bit field at offset \<open>k\<close> of a structure in memory.\<close>

definition fld_at :: "memory \<Rightarrow> u32 \<Rightarrow> nat \<Rightarrow> u32" where
  "fld_at m a k = fld k (bytes m a 32)"

text \<open>The loop over the program headers.\<close>

partial_function (option) boot_loop :: "sectors \<Rightarrow> u32 \<Rightarrow> u32 \<Rightarrow> memory \<Rightarrow> memory option" where
  "boot_loop dk ph eph m =
     (if ph < eph then
        (let pa = fld_at m ph 12 in
         case readseg dk pa (fld_at m ph 16) (fld_at m ph 4) m of
           None \<Rightarrow> None
         | Some m \<Rightarrow>
             boot_loop dk (ph + PROGHDR_SIZE) eph
               (if fld_at m ph 16 < fld_at m ph 20
                then stosb m (pa + fld_at m ph 16) 0 (unat (fld_at m ph 20 - fld_at m ph 16)) else m))
      else Some m)"

definition ELF_SCRATCH :: u32 where "ELF_SCRATCH = 0x10000"

text \<open>The memory and the entry point that is called, or none when the image is not an ELF file and
  \<^verbatim>\<open>bootmain\<close> returns.\<close>

definition bootmain :: "sectors \<Rightarrow> memory \<Rightarrow> (memory \<times> u32 option) option" where
  "bootmain dk m =
     (case readseg dk ELF_SCRATCH 4096 0 m of
        None \<Rightarrow> None
      | Some m \<Rightarrow>
          if magic (elf_of (bytes m ELF_SCRATCH 52)) \<noteq> ELF_MAGIC then Some (m, None)
          else
            (let elf = elf_of (bytes m ELF_SCRATCH 52); ph = ELF_SCRATCH + phoff elf;
                 eph = ph + of_nat (32 * unat (phnum elf)) in
             case boot_loop dk ph eph m of
               None \<Rightarrow> None
             | Some m \<Rightarrow> Some (m, Some (entry (elf_of (bytes m ELF_SCRATCH 52))))))"

section \<open>Reading\<close>

text \<open>Byte \<open>i\<close> of the kernel, which starts at sector 1.\<close>

definition kbyte :: "sectors \<Rightarrow> nat \<Rightarrow> byte" where
  "kbyte dk i = dk (i div 512 + 1) ! (i mod 512)"

lemma insl_apply: "length bs \<le> 2 ^ 32 \<Longrightarrow> insl m a bs x = (if in_range a (length bs) x then bs ! unat (x - a) else m x)"
proof (induction bs arbitrary: m a)
  case (Cons b bs)
  show ?case
  proof (cases "x = a")
    case True
    then show ?thesis using Cons not_in_range_below [of "length bs" a] in_range_Suc [of "length bs" a a] by simp
  next
    case False
    then show ?thesis using Cons in_range_Suc [of "length bs" a x] by (simp add: unat_diff_Suc [OF False])
  qed
qed simp

lemma sector_bytes: "n mod 256 + 256 * (n div 256 mod 256) + 65536 * (n div 65536) = n" for n :: nat
  using mod_mult2_eq [of n 256 256] div_mult_mod_eq [of n 65536] by simp

lemma lba_read_regs: "unat off < 2 ^ 24 \<Longrightarrow> lba (read_regs off) = unat off"
proof -
  assume o: "unat off < 2 ^ 24"
  have b: "unat (ucast (drop_bit k off) :: byte) = unat off div 2 ^ k mod 256" for k
    by (simp add: unsigned_ucast_eq take_bit_eq_mod unat_drop_bit_eq drop_bit_eq_div [where 'a = nat])
  have top: "ucast (drop_bit 24 off) = (0 :: byte)" using b [of 24] o by (simp add: unat_eq_0 [symmetric])
  show ?thesis using b [of 0] b [of 8] b [of 16] o sector_bytes [of "unat off"] by (simp add: lba_def read_regs_def top)
qed

lemma in_range_unat: "unat a + n \<le> 2 ^ 32 \<Longrightarrow> in_range a n x \<longleftrightarrow> unat a \<le> unat x \<and> unat x < unat a + n"
  unfolding in_range_def using unat_u32_less [of x] unat_u32_less [of a] by (auto simp: unat_sub_if' )

lemma readsect_apply:
  assumes "unat pa + 512 \<le> 2 ^ 32" "\<forall>k. length (dk k) = 512" "unat off < 2 ^ 24" "1 \<le> unat off"
  shows "readsect dk pa off m a =
    (if unat pa \<le> unat a \<and> unat a < unat pa + 512 then kbyte dk ((unat off - 1) * 512 + (unat a - unat pa)) else m a)"
proof (cases "unat pa \<le> unat a \<and> unat a < unat pa + 512")
  case True
  then have i: "in_range pa 512 a" using in_range_unat [OF assms(1)] by simp
  have d: "unat (a - pa) = unat a - unat pa" using True by (simp add: unat_sub word_le_nat_alt)
  let ?x = "unat a - unat pa"
  have x: "?x < 512" using True by linarith
  then have "kbyte dk ((unat off - 1) * 512 + ?x) = dk (unat off) ! ?x" using assms(4) by (simp add: kbyte_def)
  then show ?thesis
    using True i d x assms(2) insl_apply [of "dk (unat off)" m pa a] by (simp add: readsect_def lba_read_regs [OF assms(3)])
next
  case False
  then have "\<not> in_range pa 512 a" using in_range_unat [OF assms(1)] by simp
  then show ?thesis using False assms(2) by (auto simp: readsect_def insl_apply)
qed

lemma readseg_loop_run:
  "unat epa + 512 \<le> 2 ^ 32 \<Longrightarrow> \<forall>k. length (dk k) = 512 \<Longrightarrow>
   unat pa < unat epa \<longrightarrow> (unat off - 1) * 512 + (unat epa - unat pa) + 512 < 2 ^ 33 \<Longrightarrow> 1 \<le> unat off \<Longrightarrow>
   \<exists>m' E. readseg_loop dk pa epa off m = Some m' \<and> unat epa \<le> E \<and> E \<le> max (unat pa) (unat epa + 511) \<and>
     (\<forall>a. m' a = (if unat pa \<le> unat a \<and> unat a < E then kbyte dk ((unat off - 1) * 512 + (unat a - unat pa)) else m a))"
proof (induction "unat epa - unat pa" arbitrary: pa off m rule: less_induct)
  case less
  show ?case
  proof (cases "pa < epa")
    case False
    then show ?thesis
      using word_less_nat_alt [of pa epa] by (intro exI [of _ m] exI [of _ "unat epa"]) (auto simp: readseg_loop.simps [of dk pa])
  next
    case True
    then have lt: "unat pa < unat epa" by (simp add: word_less_nat_alt)
    let ?m = "readsect dk pa off m"
    have off: "unat off < 2 ^ 24" and pa: "unat pa + 512 \<le> 2 ^ 32" using less.prems(1,3) lt by simp_all
    have pa1: "unat (pa + SECTSIZE) = unat pa + 512" using less.prems(1) lt by (simp add: SECTSIZE_def unat_plus_if')
    have off1: "unat (off + 1) = unat off + 1" using off by (simp add: unat_plus_if')
    note rs = readsect_apply [OF pa less.prems(2) off less.prems(4), of m]
    obtain m' E where m': "readseg_loop dk (pa + SECTSIZE) epa (off + 1) ?m = Some m'" "unat epa \<le> E" "E \<le> max (unat pa + 512) (unat epa + 511)"
        "\<And>a. m' a = (if unat pa + 512 \<le> unat a \<and> unat a < E then kbyte dk (unat off * 512 + (unat a - (unat pa + 512))) else ?m a)"
    proof -
      have "unat pa + 512 < unat epa \<longrightarrow> unat off * 512 + (unat epa - (unat pa + 512)) + 512 < 2 ^ 33"
        using less.prems(3,4) lt by (simp add: diff_mult_distrib)
      moreover have "unat epa - (unat pa + 512) < unat epa - unat pa" using lt by simp
      moreover have "1 \<le> unat off + 1" by simp
      ultimately show ?thesis
        using less.hyps [of "pa + SECTSIZE" "off + 1" ?m, unfolded pa1 off1 add_diff_cancel_right'] less.prems(1,2) that by blast
    qed
    have e: "m' a = (if unat pa \<le> unat a \<and> unat a < max E (unat pa + 512) then kbyte dk ((unat off - 1) * 512 + (unat a - unat pa)) else m a)" for a
    proof (cases "unat pa + 512 \<le> unat a \<and> unat a < E")
      case True
      moreover have "unat off * 512 + (unat a - (unat pa + 512)) = (unat off - 1) * 512 + (unat a - unat pa)"
        using True less.prems(4) by (simp add: diff_mult_distrib)
      ultimately show ?thesis using m'(4) [of a] by simp
    next
      case False
      then show ?thesis using m'(4) [of a] rs [of a] by auto
    qed
    have "readseg_loop dk pa epa off m = Some m'" using True m'(1) by (simp add: readseg_loop.simps [of dk pa])
    moreover have "unat epa \<le> max E (unat pa + 512)" "max E (unat pa + 512) \<le> max (unat pa) (unat epa + 511)" using m'(2,3) lt by auto
    ultimately show ?thesis using e by blast
  qed
qed

lemma round_down: "q * 512 + r = off \<Longrightarrow> r \<le> pa \<Longrightarrow> pa - r \<le> a \<Longrightarrow> q * 512 + (a - (pa - r)) = off + a - pa" for q r off pa a :: nat
  by linarith

lemma readseg_run:
  assumes pa: "unat off mod 512 \<le> unat pa" "unat pa + unat count + 512 \<le> 2 ^ 32" and dk: "\<forall>k. length (dk k) = 512"
  shows "\<exists>m' E. readseg dk pa count off m = Some m' \<and> unat pa + unat count \<le> E \<and> E \<le> unat pa + unat count + 511 \<and>
    (\<forall>a. m' a = (if unat pa - unat off mod 512 \<le> unat a \<and> unat a < E then kbyte dk (unat off + unat a - unat pa) else m a))"
proof -
  let ?o = "unat off mod 512" and ?pa = "pa - off mod SECTSIZE" and ?off = "off div SECTSIZE + 1"
  have o: "unat (off mod SECTSIZE) = ?o" by (simp add: SECTSIZE_def unat_mod)
  have u: "unat ?pa = unat pa - ?o" using pa(1) o by (simp add: unat_sub word_le_nat_alt)
  have "unat (off div SECTSIZE) = unat off div 512" by (simp add: SECTSIZE_def unat_div)
  then have k: "unat ?off = unat off div 512 + 1" using unat_u32_less [of off] by (simp add: unat_plus_if')
  have e: "unat (pa + count) = unat pa + unat count" using pa(2) by (simp add: unat_plus_if')
  have "(unat ?off - 1) * 512 + (unat (pa + count) - unat ?pa) + 512 < 2 ^ 33"
    unfolding k u e using unat_u32_less [of off] pa div_mult_mod_eq [of "unat off" 512] by simp
  then obtain m' E where m': "readseg_loop dk ?pa (pa + count) ?off m = Some m'" "unat pa + unat count \<le> E"
      "E \<le> max (unat pa - ?o) (unat pa + unat count + 511)"
      "\<And>a. m' a = (if unat pa - ?o \<le> unat a \<and> unat a < E then kbyte dk (unat off div 512 * 512 + (unat a - (unat pa - ?o))) else m a)"
    using readseg_loop_run [where epa = "pa + count" and off = ?off and pa = ?pa and dk = dk and m = m] dk pa(2) unfolding k u e by auto
  have "m' a = (if unat pa - ?o \<le> unat a \<and> unat a < E then kbyte dk (unat off + unat a - unat pa) else m a)" for a
  proof -
    have e: "unat off div 512 * 512 + (unat a - (unat pa - ?o)) = unat off + unat a - unat pa" if "unat pa - ?o \<le> unat a"
      by (rule round_down [OF div_mult_mod_eq pa(1) that])
    show ?thesis
    proof (cases "unat pa - ?o \<le> unat a \<and> unat a < E")
      case True
      then have "m' a = kbyte dk (unat off div 512 * 512 + (unat a - (unat pa - ?o)))" using m'(4) [of a] by (simp only: if_True simp_thms)
      then show ?thesis unfolding e [OF True [THEN conjunct1]] using True by (simp only: if_True simp_thms)
    next
      case False
      then show ?thesis using m'(4) [of a] by (simp only: if_False)
    qed
  qed
  moreover have "E \<le> unat pa + unat count + 511" using m'(3) by simp
  ultimately show ?thesis using m'(1,2) unfolding readseg_def by blast
qed

section \<open>Loading the segments\<close>

text \<open>The field at offset \<open>f\<close> of the structure at offset \<open>a\<close> of the image.\<close>

definition kfld :: "sectors \<Rightarrow> nat \<Rightarrow> nat \<Rightarrow> nat" where
  "kfld dk a f = unat (fld f (map (kbyte dk) [a..<a + 32]))"

text \<open>A segment leaves the header that is still in use alone and ends within the address space.\<close>

definition seg_ok :: "sectors \<Rightarrow> nat \<Rightarrow> bool" where
  "seg_ok dk a = (kfld dk a 4 mod 512 + 0x11000 \<le> kfld dk a 12 \<and> kfld dk a 12 + kfld dk a 16 + 512 \<le> 2 ^ 32 \<and>
     kfld dk a 12 + kfld dk a 20 \<le> 2 ^ 32)"

definition seg_end :: "sectors \<Rightarrow> nat \<Rightarrow> nat" where
  "seg_end dk a = kfld dk a 12 + max (kfld dk a 16) (kfld dk a 20)"

text \<open>They are in increasing order, and no segment begins in the sector with which another ends.\<close>

definition segs_ok :: "sectors \<Rightarrow> nat \<Rightarrow> nat \<Rightarrow> bool" where
  "segs_ok dk p n = ((\<forall>k < n. seg_ok dk (p + 32 * k)) \<and>
     (\<forall>k < n. \<forall>j < k. seg_end dk (p + 32 * j) + kfld dk (p + 32 * k) 4 mod 512 \<le> kfld dk (p + 32 * k) 12))"

definition seg_loaded :: "sectors \<Rightarrow> nat \<Rightarrow> memory \<Rightarrow> bool" where
  "seg_loaded dk a m = (\<forall>i. kfld dk a 12 + i < seg_end dk a \<longrightarrow>
     m (of_nat (kfld dk a 12 + i)) = (if i < kfld dk a 16 then kbyte dk (kfld dk a 4 + i) else 0))"

definition scratch_ok :: "sectors \<Rightarrow> memory \<Rightarrow> bool" where
  "scratch_ok dk m = (\<forall>i < 4096. m (of_nat (0x10000 + i)) = kbyte dk i)"

lemma u32_of_nat: "n < 2 ^ 32 \<Longrightarrow> unat (of_nat n :: u32) = n"
  by (simp add: unat_of_nat take_bit_nat_eq_self)

lemma fld_at_scratch:
  assumes "scratch_ok dk m" "a + 32 \<le> 4096"
  shows "unat (fld_at m (of_nat (0x10000 + a)) f) = kfld dk a f"
proof -
  have "m (of_nat (0x10000 + a) + of_nat i) = kbyte dk (a + i)" if "i < 32" for i
    using assms that unfolding scratch_ok_def by (metis (no_types, lifting) add.assoc add_less_cancel_left less_le_trans of_nat_add)
  then have "bytes m (of_nat (0x10000 + a)) 32 = map (kbyte dk) [a..<a + 32]"
    by (intro nth_equalityI) (simp_all add: bytes_def)
  then show ?thesis by (simp add: fld_at_def kfld_def)
qed

text \<open>Loading one segment.\<close>

lemma load_one:
  assumes s: "scratch_ok dk m" and a: "a + 32 \<le> 4096" and seg: "seg_ok dk a" and dk: "\<forall>k. length (dk k) = 512"
  defines "ph \<equiv> of_nat (0x10000 + a)"
  shows "\<exists>m1. readseg dk (fld_at m ph 12) (fld_at m ph 16) (fld_at m ph 4) m = Some m1 \<and>
    (let m2 = (if fld_at m1 ph 16 < fld_at m1 ph 20
        then stosb m1 (fld_at m ph 12 + fld_at m1 ph 16) 0 (unat (fld_at m1 ph 20 - fld_at m1 ph 16)) else m1) in
     scratch_ok dk m2 \<and> seg_loaded dk a m2 \<and> (\<forall>x. unat x < kfld dk a 12 - kfld dk a 4 mod 512 \<longrightarrow> m2 x = m x))"
proof -
  let ?pa = "fld_at m ph 12" and ?fz = "fld_at m ph 16" and ?off = "fld_at m ph 4"
  let ?P = "kfld dk a 12" and ?F = "kfld dk a 16" and ?M = "kfld dk a 20" and ?O = "kfld dk a 4"
  note f = fld_at_scratch [OF _ a, folded ph_def]
  have b: "?O mod 512 + 0x11000 \<le> ?P" "?P + ?F + 512 \<le> 2 ^ 32" "?P + ?M \<le> 2 ^ 32" using seg by (simp_all add: seg_ok_def)
  have "unat ?off mod 512 \<le> unat ?pa" "unat ?pa + unat ?fz + 512 \<le> 2 ^ 32" unfolding f [OF s] using b by simp_all
  then obtain m1 E where m1: "readseg dk ?pa ?fz ?off m = Some m1" "?P + ?F \<le> E" "E \<le> ?P + ?F + 511"
      "\<And>x. m1 x = (if ?P - ?O mod 512 \<le> unat x \<and> unat x < E then kbyte dk (?O + unat x - ?P) else m x)"
    using readseg_run [OF _ _ dk, of ?off ?pa ?fz m] unfolding f [OF s] by blast
  have s1: "scratch_ok dk m1" unfolding scratch_ok_def
  proof (intro allI impI)
    fix i :: nat assume i: "i < 4096"
    have "unat (of_nat (0x10000 + i) :: u32) = 0x10000 + i" using i by (intro u32_of_nat) simp
    moreover have "\<not> ?P - ?O mod 512 \<le> 0x10000 + i" using b(1) i by linarith
    ultimately have "m1 (of_nat (0x10000 + i)) = m (of_nat (0x10000 + i))" using m1(4) by presburger
    then show "m1 (of_nat (0x10000 + i)) = kbyte dk i" using s i by (simp add: scratch_ok_def)
  qed
  let ?m2 = "if fld_at m1 ph 16 < fld_at m1 ph 20
        then stosb m1 (?pa + fld_at m1 ph 16) 0 (unat (fld_at m1 ph 20 - fld_at m1 ph 16)) else m1"
  have m2: "?m2 x = (if ?P + ?F \<le> unat x \<and> unat x < ?P + ?M then 0 else m1 x)" for x
  proof (cases "?F < ?M")
    case True
    then have c: "fld_at m1 ph 16 < fld_at m1 ph 20" "unat (fld_at m1 ph 20 - fld_at m1 ph 16) = ?M - ?F"
      by (simp_all add: word_less_nat_alt word_le_nat_alt unat_sub f [OF s1])
    have e: "unat (?pa + fld_at m1 ph 16) = ?P + ?F" using b(2) by (simp add: unat_plus_if' f [OF s] f [OF s1])
    have "in_range (?pa + fld_at m1 ph 16) (?M - ?F) x \<longleftrightarrow> ?P + ?F \<le> unat x \<and> unat x < ?P + ?M"
      using in_range_unat [of "?pa + fld_at m1 ph 16" "?M - ?F" x] True b(3) unfolding e by simp
    moreover have "?M - ?F \<le> 2 ^ 32" using b(3) by simp
    ultimately show ?thesis using c stosb_apply [of "?M - ?F"] by simp
  next
    case False
    then have "\<not> fld_at m1 ph 16 < fld_at m1 ph 20" by (simp add: word_less_nat_alt f [OF s1])
    then show ?thesis using False by auto
  qed
  have "scratch_ok dk ?m2" unfolding scratch_ok_def
  proof (intro allI impI)
    fix i :: nat assume i: "i < 4096"
    have "unat (of_nat (0x10000 + i) :: u32) = 0x10000 + i" using i by (intro u32_of_nat) simp
    then show "?m2 (of_nat (0x10000 + i)) = kbyte dk i" using s1 i b(1) unfolding m2 by (simp add: scratch_ok_def)
  qed
  moreover have "seg_loaded dk a ?m2" unfolding seg_loaded_def
  proof (intro allI impI)
    fix i assume i: "?P + i < seg_end dk a"
    have "?P + i < 2 ^ 32" using i b by (simp add: seg_end_def max_def split: if_splits)
    then have u: "unat (of_nat (?P + i) :: u32) = ?P + i" by (rule u32_of_nat)
    show "?m2 (of_nat (?P + i)) = (if i < ?F then kbyte dk (?O + i) else 0)"
    proof (cases "i < ?F")
      case True
      moreover have "?P - ?O mod 512 \<le> ?P + i" "?O + (?P + i) - ?P = ?O + i" by simp_all
      ultimately show ?thesis using m1(2) m1(4) [of "of_nat (?P + i)"] unfolding m2 u by (simp del: of_nat_add)
    next
      case False
      then show ?thesis using i unfolding m2 u by (simp add: seg_end_def max_def split: if_splits)
    qed
  qed
  moreover have "?m2 x = m x" if "unat x < ?P - ?O mod 512" for x
    using that less_le_trans [OF that diff_le_self] m1(4) [of x] unfolding m2 by simp
  ultimately show ?thesis using m1(1) unfolding Let_def by blast
qed

lemma boot_loop_run:
  assumes dk: "\<forall>k. length (dk k) = 512" and ok: "segs_ok dk p n" and p: "p + 32 * n \<le> 4096"
  shows "k \<le> n \<Longrightarrow> scratch_ok dk m \<Longrightarrow> \<forall>j < k. seg_loaded dk (p + 32 * j) m \<Longrightarrow>
    \<exists>m'. boot_loop dk (of_nat (0x10000 + (p + 32 * k))) (of_nat (0x10000 + (p + 32 * n))) m = Some m' \<and>
      scratch_ok dk m' \<and> (\<forall>j < n. seg_loaded dk (p + 32 * j) m')"
proof (induction "n - k" arbitrary: k m)
  case 0
  then show ?case by (simp add: boot_loop.simps)
next
  case (Suc l)
  let ?a = "p + 32 * k"
  let ?ph = "of_nat (0x10000 + ?a) :: u32"
  have k: "k < n" using Suc.hyps(2) by simp
  have a: "?a + 32 \<le> 4096" using p k by linarith
  have lt: "?ph < of_nat (0x10000 + (p + 32 * n))"
    unfolding word_less_nat_alt using u32_of_nat [of "0x10000 + ?a"] u32_of_nat [of "0x10000 + (p + 32 * n)"] p k by simp
  have seg: "seg_ok dk ?a" and before: "\<And>j. j < k \<Longrightarrow> seg_end dk (p + 32 * j) + kfld dk ?a 4 mod 512 \<le> kfld dk ?a 12"
    using ok k by (simp_all add: segs_ok_def)
  have next_ph: "?ph + PROGHDR_SIZE = of_nat (0x10000 + (p + 32 * Suc k))" by (simp add: PROGHDR_SIZE_def)
  obtain m1 m2 where m1: "readseg dk (fld_at m ?ph 12) (fld_at m ?ph 16) (fld_at m ?ph 4) m = Some m1"
    and m2: "m2 = (if fld_at m1 ?ph 16 < fld_at m1 ?ph 20
        then stosb m1 (fld_at m ?ph 12 + fld_at m1 ?ph 16) 0 (unat (fld_at m1 ?ph 20 - fld_at m1 ?ph 16)) else m1)"
    and s2: "scratch_ok dk m2" and l2: "seg_loaded dk ?a m2" and low: "\<And>x. unat x < kfld dk ?a 12 - kfld dk ?a 4 mod 512 \<Longrightarrow> m2 x = m x"
    using load_one [OF Suc.prems(2) a seg dk] unfolding Let_def by blast
  have "seg_loaded dk (p + 32 * j) m2" if j: "j < Suc k" for j
  proof (cases "j = k")
    case False
    then have jk: "j < k" using j by simp
    have e: "seg_end dk (p + 32 * j) \<le> kfld dk ?a 12 - kfld dk ?a 4 mod 512" using before [OF jk] by simp
    show ?thesis unfolding seg_loaded_def
    proof (intro allI impI)
      fix i assume i: "kfld dk (p + 32 * j) 12 + i < seg_end dk (p + 32 * j)"
      have "kfld dk ?a 12 < 2 ^ 32" unfolding kfld_def by (rule unat_u32_less)
      then have "unat (of_nat (kfld dk (p + 32 * j) 12 + i) :: u32) = kfld dk (p + 32 * j) 12 + i"
        using i e by (intro u32_of_nat) linarith
      then have "m2 (of_nat (kfld dk (p + 32 * j) 12 + i)) = m (of_nat (kfld dk (p + 32 * j) 12 + i))" using low i e by simp
      then show "m2 (of_nat (kfld dk (p + 32 * j) 12 + i)) = (if i < kfld dk (p + 32 * j) 16 then kbyte dk (kfld dk (p + 32 * j) 4 + i) else 0)"
        using Suc.prems(3) jk i by (simp add: seg_loaded_def)
    qed
  qed (use l2 in simp)
  then obtain m' where m': "boot_loop dk (of_nat (0x10000 + (p + 32 * Suc k))) (of_nat (0x10000 + (p + 32 * n))) m2 = Some m'"
      "scratch_ok dk m'" "\<forall>j < n. seg_loaded dk (p + 32 * j) m'"
  proof -
    have "l = n - Suc k" "Suc k \<le> n" using Suc.hyps(2) by simp_all
    then show ?thesis using Suc.hyps(1) [of "Suc k" m2] s2 that \<open>\<And>j. j < Suc k \<Longrightarrow> seg_loaded dk (p + 32 * j) m2\<close> by blast
  qed
  have "boot_loop dk ?ph (of_nat (0x10000 + (p + 32 * n))) m = Some m'"
    by (subst boot_loop.simps) (simp only: lt if_True Let_def m1 option.case next_ph m2 [symmetric] m'(1))
  then show ?case using m'(2,3) by blast
qed

text \<open>The header of the image.\<close>

definition kelf :: "sectors \<Rightarrow> elfhdr" where
  "kelf dk = elf_of (map (kbyte dk) [0..<52])"

text \<open>C18: The boot loader ends, and if the image is an ELF file it jumps to the image's entry point
  with every segment in memory: its bytes from the file, and zeros behind them up to its size in
  memory. The image needs its segments in increasing order and apart by sectors, since the loader
  reads whole sectors.\<close>

theorem bootmain_loads_kernel:
  assumes dk: "\<forall>k. length (dk k) = 512" and mg: "magic (kelf dk) = ELF_MAGIC"
    and p: "p = unat (phoff (kelf dk))" "n = unat (phnum (kelf dk))" "p + 32 * n \<le> 4096" and ok: "segs_ok dk p n"
  shows "\<exists>m'. bootmain dk m = Some (m', Some (entry (kelf dk))) \<and>
    (\<forall>k < n. \<forall>i. kfld dk (p + 32 * k) 12 + i < seg_end dk (p + 32 * k) \<longrightarrow>
       m' (of_nat (kfld dk (p + 32 * k) 12 + i)) = (if i < kfld dk (p + 32 * k) 16 then kbyte dk (kfld dk (p + 32 * k) 4 + i) else 0))"
proof -
  have u: "unat ELF_SCRATCH = 0x10000" by (simp add: ELF_SCRATCH_def)
  obtain m0 E where m0: "readseg dk ELF_SCRATCH 4096 0 m = Some m0" "0x11000 \<le> E"
      "\<And>x. m0 x = (if 0x10000 \<le> unat x \<and> unat x < E then kbyte dk (unat x - 0x10000) else m x)"
    using readseg_run [of 0 ELF_SCRATCH 4096 dk m] dk unfolding u by auto
  have s0: "scratch_ok dk m0" unfolding scratch_ok_def
  proof (intro allI impI)
    fix i :: nat assume i: "i < 4096"
    have "unat (of_nat (0x10000 + i) :: u32) = 0x10000 + i" using i by (intro u32_of_nat) simp
    then show "m0 (of_nat (0x10000 + i)) = kbyte dk i" using m0(2) m0(3) [of "of_nat (0x10000 + i)"] i by simp
  qed
  have elf: "elf_of (bytes m' ELF_SCRATCH 52) = kelf dk" if "scratch_ok dk m'" for m'
  proof -
    have "bytes m' ELF_SCRATCH 52 = map (kbyte dk) [0..<52]"
      by (rule nth_equalityI) (use that in \<open>simp_all add: bytes_def scratch_ok_def ELF_SCRATCH_def\<close>)
    then show ?thesis by (simp add: kelf_def)
  qed
  obtain m' where m': "boot_loop dk (of_nat (0x10000 + (p + 32 * 0))) (of_nat (0x10000 + (p + 32 * n))) m0 = Some m'" "scratch_ok dk m'"
      "\<forall>j < n. seg_loaded dk (p + 32 * j) m'"
    using boot_loop_run [OF dk ok p(3) _ s0, of 0] by auto
  have ph: "ELF_SCRATCH + phoff (kelf dk) = of_nat (0x10000 + (p + 32 * 0))" by (simp add: ELF_SCRATCH_def p(1))
  have eph: "of_nat (0x10000 + (p + 32 * 0)) + of_nat (32 * unat (phnum (kelf dk))) = (of_nat (0x10000 + (p + 32 * n)) :: u32)"
    by (simp add: p(2))
  have "bootmain dk m = Some (m', Some (entry (kelf dk)))"
    unfolding bootmain_def m0(1) option.case elf [OF s0] mg Let_def ph eph m'(1) elf [OF m'(2)] by simp
  then show ?thesis using m'(3) unfolding seg_loaded_def by blast
qed

text \<open>An image with one segment of 4 bytes in the file and 8 in memory.\<close>

definition image0 :: "byte list" where
  "image0 = (le32 ELF_MAGIC @ replicate 20 0 @ le32 0x100000 @ le32 52 @ replicate 12 0 @ le16 1 @ replicate 6 0) @
     (le32 1 @ le32 4096 @ le32 0 @ le32 0x100000 @ le32 4 @ le32 8 @ replicate 8 0)"

definition image0_sectors :: sectors where
  "image0_sectors s = map (\<lambda>i. let k = (s - 1) * 512 + i in if k < 84 then image0 ! k else of_nat k) [0..<512]"

lemma image0_kbyte: "kbyte image0_sectors k = (if k < 84 then image0 ! k else of_nat k)"
  by (simp add: kbyte_def image0_sectors_def Let_def)

lemma length_image0: "length image0 = 84"
  by (simp add: image0_def)

lemma image0_slice: "a + n \<le> 84 \<Longrightarrow> map (kbyte image0_sectors) [a..<a + n] = take n (drop a image0)"
  by (rule nth_equalityI) (simp_all add: image0_kbyte length_image0)

lemma image0_header: "map (kbyte image0_sectors) [0..<52] = take 52 image0" "map (kbyte image0_sectors) [52..<52 + 32] = take 32 (drop 52 image0)"
  by (rule image0_slice [of 0 52, unfolded add_0 drop_0] image0_slice, simp)+

lemma image0_elf: "kelf image0_sectors = \<lparr>magic = ELF_MAGIC, entry = 0x100000, phoff = 52, phnum = 1\<rparr>"
  unfolding kelf_def image0_header elf_of_def fld_def slice_def by (simp add: image0_def)

lemma image0_seg: "kfld image0_sectors 52 4 = 4096" "kfld image0_sectors 52 12 = 0x100000" "kfld image0_sectors 52 16 = 4" "kfld image0_sectors 52 20 = 8"
  unfolding kfld_def image0_header fld_def slice_def by (simp_all add: image0_def)

lemma bootmain_loads_kernel_witness:
  "\<exists>m'. bootmain image0_sectors (\<lambda>_. 7) = Some (m', Some 0x100000) \<and> m' 0x100001 = 1 \<and> m' 0x100007 = 0"
proof -
  have len: "\<forall>k. length (image0_sectors k) = 512" by (simp add: image0_sectors_def)
  have ok: "segs_ok image0_sectors 52 1" by (simp add: segs_ok_def seg_ok_def image0_seg)
  obtain m' where m': "bootmain image0_sectors (\<lambda>_. 7) = Some (m', Some 0x100000)"
      "\<forall>i. kfld image0_sectors 52 12 + i < seg_end image0_sectors 52 \<longrightarrow> m' (of_nat (kfld image0_sectors 52 12 + i)) =
         (if i < kfld image0_sectors 52 16 then kbyte image0_sectors (kfld image0_sectors 52 4 + i) else 0)"
    using bootmain_loads_kernel [OF len _ _ _ _ ok, of "\<lambda>_. 7"] by (auto simp: image0_elf)
  have "m' 0x100001 = 1" "m' 0x100007 = 0"
    using m'(2) [rule_format, of 1] m'(2) [rule_format, of 7] by (simp_all add: image0_seg seg_end_def image0_kbyte)
  then show ?thesis using m'(1) by blast
qed

text \<open>Bytes before the segment are overwritten when its offset is not that of a sector: zeros that the
  segment before it was given there do not survive.\<close>

lemma readseg_overwrites_before:
  assumes "0 < unat off mod 512" "unat off mod 512 \<le> unat pa" "unat pa + unat count + 512 \<le> 2 ^ 32" "\<forall>k. length (dk k) = 512"
  shows "\<exists>m'. readseg dk pa count off m = Some m' \<and> m' (pa - 1) = kbyte dk (unat off - 1)"
proof -
  obtain m' E where m': "readseg dk pa count off m = Some m'" "unat pa + unat count \<le> E"
      "\<And>a. m' a = (if unat pa - unat off mod 512 \<le> unat a \<and> unat a < E then kbyte dk (unat off + unat a - unat pa) else m a)"
    using readseg_run [OF assms(2-4)] by blast
  have "1 \<le> unat pa" using assms(1,2) by simp
  then have u: "unat (pa - 1) = unat pa - 1" by (simp add: unat_sub word_le_nat_alt)
  have "unat off mod 512 \<le> unat off" by simp
  then have "unat off + (unat pa - 1) - unat pa = unat off - 1" using \<open>1 \<le> unat pa\<close> assms(1) by linarith
  moreover have "unat pa - unat off mod 512 \<le> unat pa - 1" "unat pa - 1 < E" using assms(1) m'(2) \<open>1 \<le> unat pa\<close> by simp_all
  ultimately have "m' (pa - 1) = kbyte dk (unat off - 1)" using m'(3) [of "pa - 1"] u by (simp only: if_True simp_thms)
  then show ?thesis using m'(1) by blast
qed

end
