(* ===== verification/Mp.thy ===== *)
theory Mp
  imports Cstring
begin

text \<open>
  Finding the processors (\<^verbatim>\<open>mp.c\<close>): the tables that the BIOS leaves in memory. A loop that
  does not end is the outcome \<open>None\<close>, a panic the left side of the sum. The last section encodes a
  table entry by entry and shows what is found in it.
\<close>

section \<open>The search\<close>

definition NCPU :: nat where "NCPU = 8"
definition MP_SIG :: "byte list" where "MP_SIG = map of_char ''_MP_''"
definition PCMP_SIG :: "byte list" where "PCMP_SIG = map of_char ''PCMP''"

definition mpsum :: "memory \<Rightarrow> u32 \<Rightarrow> nat \<Rightarrow> byte" where
  "mpsum m addr len = of_int (\<Sum>i\<leftarrow>[0..<len]. uint (m (addr + of_nat i)))"

text \<open>The result 0 is the null pointer.\<close>

partial_function (option) mpsearch_loop :: "memory \<Rightarrow> u32 \<Rightarrow> u32 \<Rightarrow> u32 option" where
  "mpsearch_loop m p e =
     (if p < e then
        (if bytes m p 4 = MP_SIG \<and> mpsum m p 16 = 0 then Some p else mpsearch_loop m (p + 16) e)
      else Some 0)"

definition mpsearch1 :: "memory \<Rightarrow> u32 \<Rightarrow> u32 \<Rightarrow> u32 option" where
  "mpsearch1 m a len = mpsearch_loop m (P2V a) (P2V a + len)"

definition mpsearch :: "memory \<Rightarrow> u32 option" where
  "mpsearch m =
     (let bda = P2V 0x400;
          p = push_bit 4 (push_bit 8 (ucast (m (bda + 0x0f))) OR ucast (m (bda + 0x0e)));
          q = (push_bit 8 (ucast (m (bda + 0x14))) OR ucast (m (bda + 0x13))) * 1024
      in case (if p \<noteq> 0 then mpsearch1 m p 1024 else mpsearch1 m (q - 1024) 1024) of
           None \<Rightarrow> None
         | Some mp \<Rightarrow> if mp \<noteq> 0 then Some mp else mpsearch1 m 0xf0000 0x10000)"

definition mp_u32 :: "memory \<Rightarrow> u32 \<Rightarrow> u32" where
  "mp_u32 m a = un32 (bytes m a 4)"

definition mp_u16 :: "memory \<Rightarrow> u32 \<Rightarrow> u16" where
  "mp_u16 m a = un16 (bytes m a 2)"

text \<open>The pointer structure and the configuration table; 0 for none.\<close>

definition mpconfig :: "memory \<Rightarrow> (u32 \<times> u32) option" where
  "mpconfig m = (case mpsearch m of
       None \<Rightarrow> None
     | Some mp \<Rightarrow>
         if mp = 0 \<or> mp_u32 m (mp + 4) = 0 then Some (mp, 0)
         else let conf = P2V (mp_u32 m (mp + 4)) in
           if bytes m conf 4 \<noteq> PCMP_SIG then Some (mp, 0)
           else if m (conf + 6) \<noteq> 1 \<and> m (conf + 6) \<noteq> 4 then Some (mp, 0)
           else if mpsum m conf (unat (mp_u16 m (conf + 4))) \<noteq> 0 then Some (mp, 0)
           else Some (mp, conf))"

section \<open>The table\<close>

text \<open>\<open>apicids\<close> are those of \<open>cpus[0]\<close> to \<open>cpus[ncpu - 1]\<close>; \<open>imcr\<close> is what is written to the port
  \<open>0x23\<close>, if it is.\<close>

record mpstate =
  apicids :: "byte list"
  ioapicid :: byte
  lapicaddr :: u32
  imcr :: "byte option"

text \<open>The \<^verbatim>\<open>break\<close> of an unknown type leaves the \<^verbatim>\<open>switch\<close> only; the pointer stays where it is.\<close>

partial_function (option) mp_loop :: "memory \<Rightarrow> u32 \<Rightarrow> u32 \<Rightarrow> bool \<Rightarrow> mpstate \<Rightarrow> (bool \<times> mpstate) option" where
  "mp_loop m p e ismp s =
     (if p < e then
        (if m p = 0 then
           mp_loop m (p + 20) e ismp (if length (apicids s) < NCPU then s\<lparr>apicids := apicids s @ [m (p + 1)]\<rparr> else s)
         else if m p = 2 then mp_loop m (p + 8) e ismp (s\<lparr>ioapicid := m (p + 1)\<rparr>)
         else if m p = 1 \<or> m p = 3 \<or> m p = 4 then mp_loop m (p + 8) e ismp s
         else mp_loop m p e False s)
      else Some (ismp, s))"

definition mpinit :: "memory \<Rightarrow> byte \<Rightarrow> mpstate \<Rightarrow> (string + mpstate) option" where
  "mpinit m in23 s = (case mpconfig m of
       None \<Rightarrow> None
     | Some (mp, conf) \<Rightarrow>
         if conf = 0 then Some (Inl ''Expect to run on an SMP'')
         else (case mp_loop m (conf + 44) (conf + ucast (mp_u16 m (conf + 4))) True (s\<lparr>lapicaddr := mp_u32 m (conf + 36)\<rparr>) of
             None \<Rightarrow> None
           | Some (ismp, s) \<Rightarrow>
               if \<not> ismp then Some (Inl ''Didn't find a suitable machine'')
               else if m (mp + 12) \<noteq> 0 then Some (Inr (s\<lparr>imcr := Some (in23 OR 1)\<rparr>))
               else Some (Inr s)))"

section \<open>What is found in a table\<close>

datatype mpentry = Processor byte "byte list" | Ioapic byte "byte list" | OtherEntry byte "byte list"

fun entry_bytes :: "mpentry \<Rightarrow> byte list" where
  "entry_bytes (Processor apic rest) = 0 # apic # rest"
| "entry_bytes (Ioapic apic rest) = 2 # apic # rest"
| "entry_bytes (OtherEntry type rest) = type # rest"

fun entry_ok :: "mpentry \<Rightarrow> bool" where
  "entry_ok (Processor apic rest) = (length rest = 18)"
| "entry_ok (Ioapic apic rest) = (length rest = 6)"
| "entry_ok (OtherEntry type rest) = (type \<in> {1, 3, 4} \<and> length rest = 7)"

text \<open>The effect of one entry, and of all.\<close>

fun add_entry :: "mpentry \<Rightarrow> mpstate \<Rightarrow> mpstate" where
  "add_entry (Processor apic rest) s = s\<lparr>apicids := take NCPU (apicids s @ [apic])\<rparr>"
| "add_entry (Ioapic apic rest) s = s\<lparr>ioapicid := apic\<rparr>"
| "add_entry (OtherEntry type rest) s = s"

fun processors :: "mpentry list \<Rightarrow> byte list" where
  "processors [] = []"
| "processors (Processor apic rest # es) = apic # processors es"
| "processors (e # es) = processors es"

fun last_ioapic :: "byte \<Rightarrow> mpentry list \<Rightarrow> byte" where
  "last_ioapic a [] = a"
| "last_ioapic a (Ioapic apic rest # es) = last_ioapic apic es"
| "last_ioapic a (e # es) = last_ioapic a es"

lemma fold_add_entry:
  "length (apicids s) \<le> NCPU \<Longrightarrow> fold add_entry es s =
     s\<lparr>apicids := take NCPU (apicids s @ processors es), ioapicid := last_ioapic (ioapicid s) es\<rparr>"
proof (induction es arbitrary: s)
  case (Cons e es)
  show ?case
  proof (cases e)
    case (Processor apic rest)
    then show ?thesis using Cons by (cases "length (apicids s) < NCPU") (simp_all add: take_Cons' Suc_diff_Suc)
  qed (use Cons in simp_all)
qed simp

lemma bytes_append: "bytes m p (i + j) = bytes m p i @ bytes m (p + of_nat i) j"
  by (rule nth_equalityI) (auto simp: bytes_def nth_append algebra_simps simp flip: of_nat_add)

lemma mp_loop_entry:
  assumes "entry_ok x" "bytes m p (length (entry_bytes x)) = entry_bytes x" "p < e" "length (apicids s) \<le> NCPU"
  shows "mp_loop m p e ismp s = mp_loop m (p + of_nat (length (entry_bytes x))) e ismp (add_entry x s)"
proof -
  have i: "m (p + of_nat i) = entry_bytes x ! i" if "i < length (entry_bytes x)" for i
    using arg_cong [OF assms(2), where f = "\<lambda>bs. bs ! i"] that by (simp add: bytes_def)
  show ?thesis
proof (cases x)
  case (Processor apic rest)
  have "m p = 0" "m (p + 1) = apic" using i [of 0] i [of 1] Processor by simp_all
  then show ?thesis using assms Processor by (subst mp_loop.simps) auto
next
  case (Ioapic apic rest)
  have "m p = 2" "m (p + 1) = apic" using i [of 0] i [of 1] Ioapic by simp_all
  then show ?thesis using assms Ioapic by (subst mp_loop.simps) simp
next
  case (OtherEntry type rest)
  have "m p = type" using i [of 0] OtherEntry by simp
  then show ?thesis using assms OtherEntry by (subst mp_loop.simps) auto
qed
qed

lemma add_entry_length: "length (apicids s) \<le> NCPU \<Longrightarrow> length (apicids (add_entry x s)) \<le> NCPU"
  by (cases x) auto

lemma mp_loop_entries:
  "\<forall>x \<in> set es. entry_ok x \<Longrightarrow> bytes m p (length (concat (map entry_bytes es))) = concat (map entry_bytes es) \<Longrightarrow>
   e = p + of_nat (length (concat (map entry_bytes es))) \<Longrightarrow> unat p + length (concat (map entry_bytes es)) < 2 ^ 32 \<Longrightarrow>
   length (apicids s) \<le> NCPU \<Longrightarrow> mp_loop m p e ismp s = Some (ismp, fold add_entry es s)"
proof (induction es arbitrary: p s)
  case Nil
  then show ?case by (simp add: mp_loop.simps [of m p])
next
  case (Cons x es)
  let ?n = "length (entry_bytes x)" and ?l = "length (concat (map entry_bytes es))"
  have n: "0 < ?n" by (cases x) simp_all
  have b: "bytes m p ?n = entry_bytes x" "bytes m (p + of_nat ?n) ?l = concat (map entry_bytes es)"
    using Cons.prems(2) bytes_append [of m p ?n ?l] by simp_all
  have u: "unat (p + of_nat k) = unat p + k" if "k \<le> ?n + ?l" for k
    using that Cons.prems(4) by (simp add: unat_plus_if' unat_of_nat take_bit_nat_eq_self)
  have "p < e" unfolding word_less_nat_alt Cons.prems(3) using u [of "?n + ?l"] n by simp
  then have "mp_loop m p e ismp s = mp_loop m (p + of_nat ?n) e ismp (add_entry x s)"
    using mp_loop_entry [OF _ b(1)] Cons.prems(1,5) by simp
  also have "\<dots> = Some (ismp, fold add_entry es (add_entry x s))"
    using Cons.prems u [of ?n] b(2) add_entry_length by (intro Cons.IH) simp_all
  finally show ?case by simp
qed

text \<open>When the configuration table that is found holds the entries \<open>es\<close>, the processors are the
  first eight of the table in its order, and the I/O APIC is that of its last entry.\<close>

theorem mpinit_finds_processors:
  assumes cf: "mpconfig m = Some (mp, conf)" "conf \<noteq> 0" and ok: "\<forall>x \<in> set es. entry_ok x"
    and tab: "bytes m (conf + 44) (length (concat (map entry_bytes es))) = concat (map entry_bytes es)"
    and len: "unat (mp_u16 m (conf + 4)) = 44 + length (concat (map entry_bytes es))" "unat conf + unat (mp_u16 m (conf + 4)) < 2 ^ 32"
  shows "\<exists>s. mpinit m in23 \<lparr>apicids = [], ioapicid = a, lapicaddr = l, imcr = None\<rparr> = Some (Inr s) \<and>
    apicids s = take NCPU (processors es) \<and> lapicaddr s = mp_u32 m (conf + 36) \<and>
    ioapicid s = last_ioapic a es \<and> imcr s = (if m (mp + 12) = 0 then None else Some (in23 OR 1))"
proof -
  let ?s = "\<lparr>apicids = [], ioapicid = a, lapicaddr = mp_u32 m (conf + 36), imcr = None\<rparr>"
  let ?n = "length (concat (map entry_bytes es))"
  have "unat (conf + 44) + ?n < 2 ^ 32" using len by (simp add: unat_plus_if')
  moreover have "(ucast (mp_u16 m (conf + 4)) :: u32) = of_nat (44 + ?n)" unfolding len(1) [symmetric] by simp
  then have "conf + ucast (mp_u16 m (conf + 4)) = conf + 44 + of_nat ?n" by (simp add: add.assoc)
  ultimately have "mp_loop m (conf + 44) (conf + ucast (mp_u16 m (conf + 4))) True ?s = Some (True, fold add_entry es ?s)"
    by (intro mp_loop_entries [OF ok tab]) simp_all
  then show ?thesis using cf by (auto simp: mpinit_def fold_add_entry)
qed

text \<open>An entry of another type is not skipped: the search of the table does not end, and the panic
  behind the loop is not reached.\<close>

lemma unknown_entry_spins: "p < e \<Longrightarrow> m p \<notin> {0, 1, 2, 3, 4} \<Longrightarrow> mp_loop m p e ismp s = None"
proof (rule ccontr)
  assume a: "p < e" "m p \<notin> {0, 1, 2, 3, 4}" and "mp_loop m p e ismp s \<noteq> None"
  then obtain y where "mp_loop m p e ismp s = Some y" by blast
  then have "p < e \<longrightarrow> m p \<in> {0, 1, 2, 3, 4}"
  proof (rule mp_loop.raw_induct [rotated, where P = "\<lambda>m p e ismp s y. p < e \<longrightarrow> m p \<in> {0, 1, 2, 3, 4}"])
    fix loop :: "memory \<Rightarrow> u32 \<Rightarrow> u32 \<Rightarrow> bool \<Rightarrow> mpstate \<Rightarrow> (bool \<times> mpstate) option" and m :: memory and p e ismp s y
    assume IH: "\<And>m p e ismp s y. loop m p e ismp s = Some y \<Longrightarrow> p < e \<longrightarrow> m p \<in> {0, 1, 2, 3, 4}"
      and run: "(if p < e then
          if m p = 0 then loop m (p + 20) e ismp (if length (apicids s) < NCPU then s\<lparr>apicids := apicids s @ [m (p + 1)]\<rparr> else s)
          else if m p = 2 then loop m (p + 8) e ismp (s\<lparr>ioapicid := m (p + 1)\<rparr>)
          else if m p = 1 \<or> m p = 3 \<or> m p = 4 then loop m (p + 8) e ismp s
          else loop m p e False s
        else Some (ismp, s)) = Some y"
    show "p < e \<longrightarrow> m p \<in> {0, 1, 2, 3, 4}"
    proof (rule ccontr)
      assume n: "\<not> (p < e \<longrightarrow> m p \<in> {0, 1, 2, 3, 4})"
      then have "loop m p e False s = Some y" using run by simp
      then show False using IH [of m p e False s y] n by blast
    qed
  qed
  then show False using a by simp
qed

text \<open>A table with a processor and an I/O APIC, which the search finds in the EBDA.\<close>

definition tables0 :: "byte list" where
  "tables0 = MP_SIG @ [0x10, 0xfc, 9, 0] @ [1, 4, 139, 0, 0, 0, 0, 0] @
     PCMP_SIG @ [72, 0] @ [4, 156] @ replicate 26 0 @ [2, 0] @ [0, 0, 0xe0, 0xfe] @ [0, 0] @ [0, 0] @
     entry_bytes (Processor 1 (replicate 18 0)) @ entry_bytes (Ioapic 5 (replicate 6 0))"

definition bios0 :: memory where
  "bios0 a = (if a = P2V 0x40f then 0x9f else if a = P2V 0x40e then 0xc0 else tables0 ! unat (a - P2V 0x9fc00))"

lemma length_tables0: "length tables0 = 88"
  by (simp add: tables0_def MP_SIG_def PCMP_SIG_def)

lemma bios0_bytes: "k + n \<le> 88 \<Longrightarrow> bytes bios0 (P2V 0x9fc00 + of_nat k) n = take n (drop k tables0)"
proof (rule nth_equalityI)
  fix i assume k: "k + n \<le> 88" and "i < length (bytes bios0 (P2V 0x9fc00 + of_nat k) n)"
  then have i: "i < n" by simp
  have u: "unat (of_nat (k + i) :: u32) = k + i" using k i by (simp add: unat_of_nat take_bit_nat_eq_self del: of_nat_add)
  have "P2V 0x9fc00 + of_nat k + of_nat i = P2V 0x9fc00 + (of_nat (k + i) :: u32)" by simp
  moreover have "P2V 0x9fc00 + (of_nat (k + i) :: u32) \<noteq> P2V 0x40f" "P2V 0x9fc00 + (of_nat (k + i) :: u32) \<noteq> P2V 0x40e"
    using u k i by (auto simp: P2V_def KERNBASE_def unat_plus_if' dest!: arg_cong [where f = unat] simp del: of_nat_add)
  ultimately show "bytes bios0 (P2V 0x9fc00 + of_nat k) n ! i = take n (drop k tables0) ! i"
    using i k u by (simp add: bytes_def bios0_def length_tables0 add.assoc flip: of_nat_add)
qed (simp add: length_tables0)

lemma mpsum_bytes: "mpsum m p n = of_int (sum_list (map uint (bytes m p n)))"
  by (simp add: mpsum_def bytes_def comp_def)

lemma bios0_config: "mpconfig bios0 = Some (P2V 0x9fc00, P2V 0x9fc10)"
proof -
  have e: "le32 0x9fc10 = [0x10, 0xfc, 9, 0]" "le16 72 = [72, 0]" by (simp_all add: le32_def le16_def)
  have b: "bytes bios0 (P2V 0x9fc00) 4 = MP_SIG" "bytes bios0 (P2V 0x9fc00 + 4) 4 = le32 0x9fc10"
    "bytes bios0 (P2V 0x9fc10) 4 = PCMP_SIG" "bytes bios0 (P2V 0x9fc10 + 4) 2 = le16 72" "bytes bios0 (P2V 0x9fc10 + 6) 1 = [4]"
    "mpsum bios0 (P2V 0x9fc00) 16 = 0" "mpsum bios0 (P2V 0x9fc10) 72 = 0"
    using bios0_bytes [of 0 4] bios0_bytes [of 4 4] bios0_bytes [of 16 4] bios0_bytes [of 20 2] bios0_bytes [of 22 1] bios0_bytes [of 0 16] bios0_bytes [of 16 72]
    by (simp_all add: mpsum_bytes sum_list_replicate tables0_def MP_SIG_def PCMP_SIG_def e P2V_def KERNBASE_def)
  have "bios0 (P2V 0x400 + 0x0f) = 0x9f" "bios0 (P2V 0x400 + 0x0e) = 0xc0" by (simp_all add: bios0_def P2V_def KERNBASE_def)
  then have "push_bit 4 (push_bit 8 (ucast (bios0 (P2V 0x400 + 0x0f))) OR ucast (bios0 (P2V 0x400 + 0x0e))) = (0x9fc00 :: u32)" by simp
  moreover have "P2V 0x9fc00 < P2V 0x9fc00 + 1024" by (simp add: P2V_def KERNBASE_def)
  then have "mpsearch1 bios0 0x9fc00 1024 = Some (P2V 0x9fc00)"
    unfolding mpsearch1_def by (subst mpsearch_loop.simps) (simp add: b)
  moreover have "P2V 0x9fc00 \<noteq> 0" by (simp add: P2V_def KERNBASE_def)
  ultimately have "mpsearch bios0 = Some (P2V 0x9fc00)" unfolding mpsearch_def Let_def by simp
  moreover have "bios0 (P2V 0x9fc10 + 6) = 4" using b(5) by (simp add: bytes_def)
  ultimately show ?thesis using b \<open>P2V 0x9fc00 \<noteq> 0\<close> by (simp add: mpconfig_def mp_u32_def mp_u16_def Let_def)
qed

lemma mpinit_finds_processors_witness:
  "\<exists>s. mpinit bios0 0 \<lparr>apicids = [], ioapicid = 0, lapicaddr = 0, imcr = None\<rparr> = Some (Inr s) \<and>
     apicids s = [1] \<and> ioapicid s = 5 \<and> imcr s = None"
proof -
  let ?es = "[Processor 1 (replicate 18 0), Ioapic 5 (replicate 6 0)]"
  have nz: "P2V 0x9fc10 \<noteq> 0" by (simp add: P2V_def KERNBASE_def)
  have n: "length (concat (map entry_bytes ?es)) = 28" by simp
  have tab: "bytes bios0 (P2V 0x9fc10 + 44) (length (concat (map entry_bytes ?es))) = concat (map entry_bytes ?es)"
    unfolding n using bios0_bytes [of 60 28] by (simp add: tables0_def MP_SIG_def PCMP_SIG_def P2V_def KERNBASE_def)
  have "mp_u16 bios0 (P2V 0x9fc10 + 4) = 72"
    using bios0_bytes [of 20 2] by (simp add: mp_u16_def tables0_def MP_SIG_def PCMP_SIG_def P2V_def KERNBASE_def un16_def)
  then have len: "unat (mp_u16 bios0 (P2V 0x9fc10 + 4)) = 44 + length (concat (map entry_bytes ?es))"
    "unat (P2V 0x9fc10) + unat (mp_u16 bios0 (P2V 0x9fc10 + 4)) < 2 ^ 32"
    unfolding n by (simp_all add: P2V_def KERNBASE_def)
  have "bytes bios0 (P2V 0x9fc00 + 12) 1 = [0]"
    using bios0_bytes [of 12 1] by (simp add: tables0_def MP_SIG_def PCMP_SIG_def)
  then have "bios0 (P2V 0x9fc00 + 12) = 0" by (simp add: bytes_def)
  then show ?thesis
    using mpinit_finds_processors [OF bios0_config nz _ tab len, of 0 0 0] by (auto simp: NCPU_def)
qed

end
