(* ===== verification/Ulib.thy ===== *)
theory Ulib
  imports Console
begin

text \<open>
  The library of the user programs (\<^verbatim>\<open>ulib.c\<close>, \<^verbatim>\<open>printf.c\<close>) and the programs \<^verbatim>\<open>echo\<close>, \<^verbatim>\<open>cat\<close>, \<^verbatim>\<open>wc\<close> and
  \<^verbatim>\<open>ls\<close>. The string functions work on the memory of the process; a loop that finds no NUL, or an
  \<^verbatim>\<open>int\<close> that overflows, is the outcome \<open>None\<close>. What a program reads comes as the pieces that \<^verbatim>\<open>read\<close>
  returns; what it writes is a list of bytes.
\<close>

section \<open>Strings\<close>

partial_function (option) ustrcpy_loop :: "memory \<Rightarrow> u32 \<Rightarrow> u32 \<Rightarrow> memory option" where
  "ustrcpy_loop m s t =
     (let m' = m(s := m t) in if m t \<noteq> 0 then ustrcpy_loop m' (s + 1) (t + 1) else Some m')"

definition ustrcpy :: "memory \<Rightarrow> u32 \<Rightarrow> u32 \<Rightarrow> memory option" where
  "ustrcpy m s t = ustrcpy_loop m s t"

partial_function (option) ustrcmp :: "memory \<Rightarrow> u32 \<Rightarrow> u32 \<Rightarrow> int option" where
  "ustrcmp m p q =
     (if m p \<noteq> 0 \<and> m p = m q then ustrcmp m (p + 1) (q + 1) else Some (uint (m p) - uint (m q)))"

partial_function (option) ustrlen_from :: "memory \<Rightarrow> u32 \<Rightarrow> u32 \<Rightarrow> u32 option" where
  "ustrlen_from m s n = (if m (s + n) \<noteq> 0 then ustrlen_from m s (n + 1) else Some n)"

definition ustrlen :: "memory \<Rightarrow> u32 \<Rightarrow> u32 option" where
  "ustrlen m s = ustrlen_from m s 0"

definition umemset :: "memory \<Rightarrow> u32 \<Rightarrow> u32 \<Rightarrow> u32 \<Rightarrow> memory" where
  "umemset m dst c n = stosb m dst (ucast c) (unat n)"

partial_function (option) ustrchr :: "memory \<Rightarrow> u32 \<Rightarrow> byte \<Rightarrow> u32 option" where
  "ustrchr m s c = (if m s \<noteq> 0 then (if m s = c then Some s else ustrchr m (s + 1) c) else Some 0)"

definition umemmove :: "memory \<Rightarrow> u32 \<Rightarrow> u32 \<Rightarrow> int \<Rightarrow> memory" where
  "umemmove m vdst vsrc n = copy_up m vdst vsrc (nat n)"

text \<open>\<open>inp\<close>: the bytes that come from the standard input, one for each \<^verbatim>\<open>read\<close>.\<close>

fun gets_loop :: "nat \<Rightarrow> byte list \<Rightarrow> byte list \<times> byte list" where
  "gets_loop 0 inp = ([], inp)"
| "gets_loop (Suc room) [] = ([], [])"
| "gets_loop (Suc room) (c # inp) =
     (if c = 10 \<or> c = 13 then ([c], inp) else (case gets_loop room inp of (got, inp) \<Rightarrow> (c # got, inp)))"

definition gets_line :: "int \<Rightarrow> byte list \<Rightarrow> byte list \<times> byte list" where
  "gets_line maxn inp = (case gets_loop (nat (maxn - 1)) inp of (got, inp) \<Rightarrow> (got @ [0], inp))"

partial_function (option) atoi_loop :: "memory \<Rightarrow> u32 \<Rightarrow> int \<Rightarrow> int option" where
  "atoi_loop m s n =
     (if 48 \<le> m s \<and> m s \<le> 57 then
        (if 2 ^ 31 \<le> n * 10 + uint (m s) then None else atoi_loop m (s + 1) (n * 10 + uint (m s) - 48))
      else Some n)"

definition uatoi :: "memory \<Rightarrow> u32 \<Rightarrow> int option" where
  "uatoi m s = atoi_loop m s 0"

section \<open>Printing\<close>

definition udigit :: "nat \<Rightarrow> byte" where
  "udigit d = (str ''0123456789ABCDEF'') ! d"

definition uprintint :: "u32 \<Rightarrow> nat \<Rightarrow> bool \<Rightarrow> byte list" where
  "uprintint xx base sign =
     (let neg = (sign \<and> sint xx < 0); x = (if neg then - xx else xx) in
      (if neg then [45] else []) @ rev (map udigit (digs base (unat x))))"

text \<open>The arguments behind the format: words and strings; an argument of the wrong kind is not
  modelled.\<close>

datatype uarg = UInt u32 | UStr "byte list option"

fun uprintf :: "byte list \<Rightarrow> uarg list \<Rightarrow> byte list option" where
  "uprintf [] args = Some []"
| "uprintf [c] args = Some (if c = 37 then [] else [c])"
| "uprintf (c # d # fmt) args =
     (if c \<noteq> 37 then map_option ((#) c) (uprintf (d # fmt) args)
      else if d = of_char CHR ''d'' then
        (case args of UInt x # args \<Rightarrow> map_option ((@) (uprintint x 10 True)) (uprintf fmt args) | _ \<Rightarrow> None)
      else if d = of_char CHR ''x'' \<or> d = of_char CHR ''p'' then
        (case args of UInt x # args \<Rightarrow> map_option ((@) (uprintint x 16 False)) (uprintf fmt args) | _ \<Rightarrow> None)
      else if d = of_char CHR ''s'' then
        (case args of UStr s # args \<Rightarrow>
           map_option ((@) (case s of None \<Rightarrow> str ''(null)'' | Some t \<Rightarrow> t)) (uprintf fmt args) | _ \<Rightarrow> None)
      else if d = of_char CHR ''c'' then
        (case args of UInt x # args \<Rightarrow> map_option ((#) (ucast x)) (uprintf fmt args) | _ \<Rightarrow> None)
      else if d = 37 then map_option ((#) d) (uprintf fmt args)
      else map_option (\<lambda>out. 37 # d # out) (uprintf fmt args))"

section \<open>Programs\<close>

fun echo :: "byte list list \<Rightarrow> byte list option" where
  "echo [] = Some []"
| "echo (a # as) =
     (case uprintf (str ''%s%s'') [UStr (Some a), UStr (Some (if as \<noteq> [] then str '' '' else [10]))] of
        None \<Rightarrow> None
      | Some out \<Rightarrow> map_option ((@) out) (echo as))"

text \<open>\<open>cat\<close>: each piece is written in full or the program exits; \<open>ok\<close> tells of each write whether it
  was, \<open>err\<close> whether the last read failed. The second result tells whether the program goes on.\<close>

fun cat :: "byte list list \<Rightarrow> bool list \<Rightarrow> bool \<Rightarrow> byte list \<times> bool" where
  "cat (piece # pieces) (ok # oks) err =
     (if ok then (case cat pieces oks err of (out, go) \<Rightarrow> (piece @ out, go))
      else (str ''cat: write error'' @ [10], False))"
| "cat _ _ err = (if err then (str ''cat: read error'' @ [10], False) else ([], True))"

record wcounts =
  wl :: nat
  ww :: nat
  wchars :: nat
  inword :: bool

definition blank_chars :: "byte list" where
  "blank_chars = [32, 13, 9, 10, 11]"

definition wc_char :: "wcounts \<Rightarrow> byte \<Rightarrow> wcounts" where
  "wc_char s b =
     (let s = s\<lparr>wchars := wchars s + 1\<rparr>;
          s = (if b = 10 then s\<lparr>wl := wl s + 1\<rparr> else s)
      in if b \<in> set blank_chars then s\<lparr>inword := False\<rparr>
         else if \<not> inword s then s\<lparr>ww := ww s + 1, inword := True\<rparr> else s)"

definition wc :: "byte list list \<Rightarrow> bool \<Rightarrow> byte list \<Rightarrow> byte list option" where
  "wc pieces err name =
     (let s = foldl (foldl wc_char) \<lparr>wl = 0, ww = 0, wchars = 0, inword = False\<rparr> pieces in
      if err then uprintf (str ''wc: read error'' @ [10]) []
      else uprintf (str ''%d %d %d %s'' @ [10])
        [UInt (of_nat (wl s)), UInt (of_nat (ww s)), UInt (of_nat (wchars s)), UStr (Some name)])"

section \<open>Numbers\<close>

text \<open>The decimal numeral of a number, and what a list of digits stands for.\<close>

definition decimal :: "nat \<Rightarrow> byte list" where
  "decimal n = map (\<lambda>d. of_nat (48 + d)) (rev (digs 10 n))"

lemma udigit_decimal: "d < 10 \<Longrightarrow> udigit d = of_nat (48 + d)"
proof -
  have "list_all (\<lambda>d. udigit d = of_nat (48 + d)) [0..<10]" by code_simp
  then show "d < 10 \<Longrightarrow> udigit d = of_nat (48 + d)" unfolding list_all_iff by simp
qed

lemma uprintint_decimal: "n < 2 ^ 31 \<Longrightarrow> uprintint (of_nat n) 10 True = decimal n"
proof -
  assume n: "n < 2 ^ 31"
  have u: "unat (of_nat n :: u32) = n" using n by (simp add: unat_of_nat take_bit_nat_eq_self)
  have "sint (of_nat n :: u32) = int n" using n by (simp add: signed_of_nat signed_take_bit_int_eq_self)
  then have "\<not> sint (of_nat n :: u32) < 0" by simp
  moreover have "map udigit (digs 10 n) = map (\<lambda>d. of_nat (48 + d)) (digs 10 n)"
    using digs_spec(2) [of 10 n] by (intro map_cong [OF refl] udigit_decimal) simp
  ultimately show ?thesis by (simp add: uprintint_def decimal_def Let_def u rev_map)
qed

lemma atoi_digits:
  "\<forall>d \<in> set ds. d < 10 \<Longrightarrow> bytes m s (length ds + 1) = map (\<lambda>d. of_nat (48 + d)) ds @ [e] \<Longrightarrow> \<not> (48 \<le> e \<and> e \<le> 57) \<Longrightarrow>
   foldl (\<lambda>a d. 10 * a + d) n ds + 48 < 2 ^ 31 \<Longrightarrow> atoi_loop m s (int n) = Some (int (foldl (\<lambda>a d. 10 * a + d) n ds))"
proof (induction ds arbitrary: s n)
  case Nil
  then have "m s = e" by (simp add: bytes_Suc)
  then show ?case using Nil.prems(3) by (subst atoi_loop.simps) auto
next
  case (Cons d ds)
  have mono: "n \<le> foldl (\<lambda>a d. 10 * a + d) n ds" for n
  proof (induction ds arbitrary: n)
    case (Cons d ds)
    show ?case using Cons [of "10 * n + d"] by simp
  qed simp
  have d: "d < 10" using Cons.prems(1) by simp
  have m: "m s = of_nat (48 + d)" "bytes m (s + 1) (length ds + 1) = map (\<lambda>d. of_nat (48 + d)) ds @ [e]"
    using Cons.prems(2) by (simp_all add: bytes_Suc)
  have u: "uint (of_nat (48 + d) :: byte) = int (48 + d)" using d by (simp add: unsigned_of_nat take_bit_nat_eq_self del: of_nat_add)
  then have "48 \<le> m s \<and> m s \<le> 57" unfolding m(1) using d by (simp add: word_le_def del: of_nat_add)
  moreover have "\<not> 2 ^ 31 \<le> int n * 10 + int (48 + d)" using mono [of "10 * n + d"] Cons.prems(4) by simp
  moreover have "int n * 10 + int (48 + d) - 48 = int (10 * n + d)" by simp
  ultimately have "atoi_loop m s (int n) = atoi_loop m (s + 1) (int (10 * n + d))"
    by (subst atoi_loop.simps) (simp only: m(1) u if_True if_False simp_thms)
  then show ?case using Cons.IH [OF _ m(2) Cons.prems(3), of "10 * n + d"] Cons.prems(1,4) by simp
qed

lemma digits_value: "foldl (\<lambda>a d. 10 * a + d) 0 (rev (digs 10 n)) = n"
proof -
  have "foldl (\<lambda>a d. 10 * a + d) 0 (rev ds) = num_of 10 ds" for ds
    unfolding num_of_def foldl_conv_foldr rev_rev_ident by (rule foldr_cong) (simp_all add: add.commute)
  then show ?thesis using digs_spec(1) [of 10 n] by simp
qed

text \<open>\<open>atoi\<close> reads back what \<open>printf\<close> prints of a number with \<^verbatim>\<open>%d\<close>, whatever follows it in memory
  but another digit. The sum \<^verbatim>\<open>n*10 + *s\<close> is formed before \<^verbatim>\<open>'0'\<close> is subtracted, so the 48 numbers below
  2^31 are out of its range.\<close>

theorem atoi_printf_roundtrip:
  assumes "uprintf (str ''%d'') [UInt (of_nat n)] = Some t" "n + 48 < 2 ^ 31"
    and "bytes m s (length t) = t" "\<not> (48 \<le> m (s + of_nat (length t)) \<and> m (s + of_nat (length t)) \<le> 57)"
  shows "uatoi m s = Some (int n)"
proof -
  have t: "t = decimal n" using assms(1,2) uprintint_decimal [of n] by (simp add: str_def)
  let ?ds = "rev (digs 10 n)"
  have "bytes m s (length ?ds + 1) = map (\<lambda>d. of_nat (48 + d)) ?ds @ [m (s + of_nat (length t))]"
    using assms(3) by (simp add: t decimal_def bytes_def)
  then show ?thesis
    using atoi_digits [of ?ds m s _ 0] digs_spec(2) [of 10 n] assms(2,4) unfolding uatoi_def digits_value by simp
qed

text \<open>The number 407 in memory, followed by a blank.\<close>

lemma atoi_printf_roundtrip_witness: "uatoi (\<lambda>a. if a = 0 then 52 else if a = 1 then 48 else if a = 2 then 55 else 32) 0 = Some 407"
proof -
  let ?m = "(\<lambda>a. if a = 0 then 52 else if a = 1 then 48 else if a = 2 then 55 else 32) :: memory"
  have d: "digs 10 407 = [7, 0, 4]" by (simp add: digs.simps)
  have t: "uprintf (str ''%d'') [UInt (of_nat 407)] = Some [52, 48, 55]"
    using uprintint_decimal [of 407] by (simp add: str_def decimal_def d)
  have b: "bytes ?m 0 (length [52, 48, 55 :: byte]) = [52, 48, 55]" by (simp add: bytes_def)
  show ?thesis using atoi_printf_roundtrip [OF t _ b] by simp
qed

text \<open>Near the end of its range, \<open>atoi\<close> overflows on numbers that an \<^verbatim>\<open>int\<close> holds.\<close>

lemma atoi_overflows:
  "m s = 55 \<Longrightarrow> atoi_loop m s 214748364 = None"
  by (subst atoi_loop.simps) simp

section \<open>Comparing and copying strings\<close>

lemma ustrcmp_equal:
  "bytes m p (length t + 1) = t @ [0] \<Longrightarrow> bytes m q (length u + 1) = u @ [0] \<Longrightarrow> 0 \<notin> set t \<Longrightarrow> 0 \<notin> set u \<Longrightarrow>
   \<exists>r. ustrcmp m p q = Some r \<and> (r = 0 \<longleftrightarrow> t = u)"
proof (induction t arbitrary: u p q)
  case Nil
  then have "m p = 0" "m q = hd (u @ [0])" by (cases u; simp add: bytes_Suc)+
  then show ?case using Nil.prems(4) by (subst ustrcmp.simps) (cases u; auto)
next
  case (Cons c t)
  have c: "m p = c" "c \<noteq> 0" "bytes m (p + 1) (length t + 1) = t @ [0]" using Cons.prems(1,3) by (auto simp: bytes_Suc)
  show ?case
  proof (cases "u \<noteq> [] \<and> hd u = c")
    case True
    then obtain u' where u: "u = c # u'" by (cases u) auto
    have q: "m q = c" "bytes m (q + 1) (length u' + 1) = u' @ [0]" using Cons.prems(2) u by (simp_all add: bytes_Suc)
    obtain r where r: "ustrcmp m (p + 1) (q + 1) = Some r" "r = 0 \<longleftrightarrow> t = u'"
      using Cons.IH [OF c(3) q(2)] Cons.prems(3,4) u by auto
    have "ustrcmp m p q = Some r" using c q(1) r(1) by (subst ustrcmp.simps) simp
    then show ?thesis using r(2) u by blast
  next
    case False
    then have "m q \<noteq> c" using Cons.prems(2) c(2) by (cases u) (auto simp: bytes_Suc)
    then have "ustrcmp m p q = Some (uint c - uint (m q))" using c by (subst ustrcmp.simps) simp
    moreover have "u \<noteq> c # t" using False by auto
    ultimately show ?thesis using \<open>m q \<noteq> c\<close> by auto
  qed
qed

section \<open>Counting words\<close>

text \<open>The words of a text: the parts between blanks that are not empty.\<close>

fun parts :: "byte list \<Rightarrow> byte list list" where
  "parts [] = [[]]"
| "parts (b # bs) =
     (if b \<in> set blank_chars then [] # parts bs else (b # hd (parts bs)) # tl (parts bs))"

definition words_of :: "byte list \<Rightarrow> byte list list" where
  "words_of bs = filter (\<lambda>w. w \<noteq> []) (parts bs)"

lemma parts_not_Nil: "parts bs \<noteq> []"
  by (induction bs) auto

lemma wc_fold_counts:
  "wl (foldl wc_char s bs) = wl s + length (filter (\<lambda>b. b = 10) bs)" "wchars (foldl wc_char s bs) = wchars s + length bs"
  by (induction bs arbitrary: s) (simp_all add: wc_char_def Let_def)

text \<open>A word that has begun before the text is counted already.\<close>

lemma wc_fold_words:
  "ww (foldl wc_char s bs) + (if inword s \<and> hd (parts bs) \<noteq> [] then 1 else 0) = ww s + length (words_of bs)"
proof (induction bs arbitrary: s)
  case (Cons b bs)
  obtain p ps where p: "parts bs = p # ps" using parts_not_Nil [of bs] by (cases "parts bs") auto
  have ih: "ww (foldl wc_char (wc_char s b) bs) + (if inword (wc_char s b) \<and> p \<noteq> [] then 1 else 0) =
      ww (wc_char s b) + (if p = [] then 0 else 1) + length (filter (\<lambda>w. w \<noteq> []) ps)"
    using Cons [of "wc_char s b"] by (simp add: words_of_def p)
  show ?case
  proof (cases "b \<in> set blank_chars")
    case True
    then have "inword (wc_char s b) = False" "ww (wc_char s b) = ww s" by (simp_all add: wc_char_def Let_def)
    then show ?thesis using ih True by (simp add: words_of_def p)
  next
    case False
    then have "inword (wc_char s b) = True" "ww (wc_char s b) = (if inword s then ww s else ww s + 1)" by (simp_all add: wc_char_def Let_def)
    then show ?thesis using ih False by (simp add: words_of_def p split: if_splits)
  qed
qed (simp add: words_of_def)

lemma foldl_pieces: "foldl (foldl f) s ps = foldl f s (concat ps)"
  by (induction ps arbitrary: s) simp_all

text \<open>However the text arrives in pieces, \<open>wc\<close> prints its numbers of lines, words and characters in
  decimal, and the name.\<close>

theorem wc_counts:
  assumes "length (concat ps) < 2 ^ 31"
  shows "wc ps False name = Some (decimal (length (filter (\<lambda>b. b = 10) (concat ps))) @ [32] @
     decimal (length (words_of (concat ps))) @ [32] @ decimal (length (concat ps)) @ [32] @ name @ [10])"
proof -
  let ?bs = "concat ps"
  have w: "length (words_of bs) \<le> length bs" for bs
  proof -
    have "length (filter (\<lambda>w. w \<noteq> []) (parts bs)) \<le> length bs"
    proof (induction bs)
      case (Cons b bs)
      then show ?case using parts_not_Nil [of bs] by (cases "parts bs") (auto split: if_splits)
    qed simp
    then show ?thesis by (simp add: words_of_def)
  qed
  have "length (filter (\<lambda>b. b = 10) ?bs) < 2 ^ 31" using assms le_less_trans [OF length_filter_le] by blast
  note d = uprintint_decimal [OF this] uprintint_decimal [OF le_less_trans [OF w assms]] uprintint_decimal [OF assms]
  let ?s = "foldl wc_char \<lparr>wl = 0, ww = 0, wchars = 0, inword = False\<rparr> ?bs"
  have "wl ?s = length (filter (\<lambda>b. b = 10) ?bs)" "wchars ?s = length ?bs" by (simp_all add: wc_fold_counts)
  moreover have "ww ?s = length (words_of ?bs)" using wc_fold_words [of "\<lparr>wl = 0, ww = 0, wchars = 0, inword = False\<rparr>" ?bs] by simp
  ultimately show ?thesis using d by (simp add: wc_def foldl_pieces str_def Let_def)
qed

text \<open>The text \<^verbatim>\<open>ab c\<close> with its end of line, read in two pieces.\<close>

lemma wc_counts_witness: "wc [[97, 98], [32, 99, 10]] False [102] = Some [49, 32, 50, 32, 53, 32, 102, 10]"
proof -
  have "decimal n = [of_nat (48 + n)]" if "n < 10" for n using that by (simp add: decimal_def digs.simps)
  then show ?thesis
    using wc_counts [of "[[97, 98], [32, 99, 10]]" "[102]"] by (simp add: words_of_def blank_chars_def)
qed

section \<open>Other programs\<close>

text \<open>\<open>echo\<close> prints its arguments with blanks between them and an end of line.\<close>

lemma echo_joins: "as \<noteq> [] \<Longrightarrow> echo as = Some (concat (map (\<lambda>a. a @ [32]) (butlast as)) @ last as @ [10])"
proof (induction as)
  case (Cons a as)
  then show ?case by (cases "as = []") (simp_all add: str_def)
qed simp

text \<open>\<open>cat\<close> copies what it reads while every write succeeds.\<close>

lemma cat_copies: "length oks = length ps \<Longrightarrow> \<forall>ok \<in> set oks. ok \<Longrightarrow> cat ps oks False = (concat ps, True)"
  by (induction ps oks "False" rule: cat.induct) auto

text \<open>\<open>ls\<close>. Files are found by their paths: \<open>opened\<close> gives what \<^verbatim>\<open>open\<close> and \<^verbatim>\<open>read\<close> do, a directory's
  entries with their inode numbers and names of 14 bytes, and \<open>status\<close> what \<^verbatim>\<open>stat\<close> and \<^verbatim>\<open>fstat\<close> do. The output is
  a list of descriptors with what is written to them.\<close>

record ustat =
  st_type :: nat
  st_ino :: nat
  st_size :: u32

abbreviation UDIRSIZ :: nat where "UDIRSIZ \<equiv> 14"

definition after_slash :: "byte list \<Rightarrow> byte list" where
  "after_slash fpath = rev (takeWhile (\<lambda>c. c \<noteq> 47) (rev fpath))"

definition fmtname :: "byte list \<Rightarrow> byte list" where
  "fmtname fpath = (let p = after_slash fpath in
     if UDIRSIZ \<le> length p then p else p @ replicate (UDIRSIZ - length p) 32)"

definition ls_line :: "byte list \<Rightarrow> ustat \<Rightarrow> byte list option" where
  "ls_line fpath st = uprintf (str ''%s %d %d %d'' @ [10])
     [UStr (Some (fmtname fpath)), UInt (of_nat (st_type st)), UInt (of_nat (st_ino st)), UInt (st_size st)]"

fun ls_entries :: "(byte list \<Rightarrow> ustat option) \<Rightarrow> byte list \<Rightarrow> (u16 \<times> byte list) list \<Rightarrow> (nat \<times> byte list option) list" where
  "ls_entries status fpath [] = []"
| "ls_entries status fpath ((ino, name) # des) =
     (if ino = 0 then ls_entries status fpath des
      else
        let buf = fpath @ [47] @ takeWhile (\<lambda>c. c \<noteq> 0) (take UDIRSIZ name) in
        (case status buf of
           None \<Rightarrow> (1, uprintf (str ''ls: cannot stat %s'' @ [10]) [UStr (Some buf)])
         | Some st \<Rightarrow> (1, ls_line buf st)) # ls_entries status fpath des)"

definition ls :: "(byte list \<Rightarrow> (u16 \<times> byte list) list option) \<Rightarrow> (byte list \<Rightarrow> ustat option) \<Rightarrow> byte list \<Rightarrow> (nat \<times> byte list option) list" where
  "ls opened status fpath =
     (case opened fpath of
        None \<Rightarrow> [(2, uprintf (str ''ls: cannot open %s'' @ [10]) [UStr (Some fpath)])]
      | Some des \<Rightarrow>
          (case status fpath of
             None \<Rightarrow> [(2, uprintf (str ''ls: cannot stat %s'' @ [10]) [UStr (Some fpath)])]
           | Some st \<Rightarrow>
               if st_type st = 2 then [(1, ls_line fpath st)]
               else if st_type st = 1 then
                 (if length fpath + 1 + UDIRSIZ + 1 > 512 then [(1, uprintf (str ''ls: fpath too long'' @ [10]) [])]
                  else ls_entries status fpath des)
               else []))"

text \<open>A name of the directory has at most 14 bytes, so every line begins with a column of 14.\<close>

lemma length_fmtname: "length (after_slash fpath) \<le> UDIRSIZ \<Longrightarrow> length (fmtname fpath) = UDIRSIZ"
  by (simp add: fmtname_def Let_def)

lemma after_slash_append: "47 \<notin> set name \<Longrightarrow> after_slash (fpath @ [47] @ name) = name"
proof -
  assume n: "47 \<notin> set name"
  then have "takeWhile (\<lambda>c. c \<noteq> 47) (rev name @ 47 # rev fpath) = rev name"
    by (subst takeWhile_append2) auto
  then show ?thesis by (simp add: after_slash_def)
qed

text \<open>In a directory, each entry that is in use gets one line.\<close>

lemma ls_lists_directory:
  assumes "opened fpath = Some des" "status fpath = Some st" "st_type st = 1" "length fpath \<le> 496"
  shows "ls opened status fpath = map (\<lambda>(ino, name). let buf = fpath @ [47] @ takeWhile (\<lambda>c. c \<noteq> 0) (take UDIRSIZ name) in
     (1, case status buf of None \<Rightarrow> uprintf (str ''ls: cannot stat %s'' @ [10]) [UStr (Some buf)] | Some st \<Rightarrow> ls_line buf st))
     (filter (\<lambda>(ino, name). ino \<noteq> 0) des)"
proof -
  have "ls_entries status fpath des = map (\<lambda>(ino, name). let buf = fpath @ [47] @ takeWhile (\<lambda>c. c \<noteq> 0) (take UDIRSIZ name) in
     (1, case status buf of None \<Rightarrow> uprintf (str ''ls: cannot stat %s'' @ [10]) [UStr (Some buf)] | Some st \<Rightarrow> ls_line buf st))
     (filter (\<lambda>(ino, name). ino \<noteq> 0) des)"
    by (induction des) (auto simp: Let_def split: option.split)
  then show ?thesis using assms by (simp add: ls_def)
qed

end
