(* ===== verification/Pixels.thy ===== *)
theory Pixels
  imports Prelude
begin

text \<open>
  Permuting the channels of an image (\<^verbatim>\<open>src/c++/image permutation/main.cpp\<close>): the class
  \<^verbatim>\<open>ProcessingModule\<close>. The memory that the frames point into maps addresses, in units of a pixel,
  to pixels; an access where there is none is undefined behaviour, the outcome \<open>None\<close>. Frames may
  share memory, so the order of the reads and writes is kept.
\<close>

section \<open>The module\<close>

record Uchar3Pixel =
  px :: byte
  py :: byte
  pz :: byte

text \<open>The address 0 is the null pointer.\<close>

record Frame =
  m_height :: u32
  m_width :: u32
  m_pitch :: u32
  m_data :: nat

type_synonym pixels = "nat \<rightharpoonup> Uchar3Pixel"

record ProcessingModule =
  in_frame :: Frame
  out_frame :: Frame

definition no_frame :: Frame where
  "no_frame = \<lparr>m_height = 0, m_width = 0, m_pitch = 0, m_data = 0\<rparr>"

definition getInstance :: ProcessingModule where
  "getInstance = \<lparr>in_frame = no_frame, out_frame = no_frame\<rparr>"

definition checkFrameValidity :: "Frame \<Rightarrow> bool" where
  "checkFrameValidity frame =
     (if m_pitch frame = 0 \<or> m_width frame = 0 \<or> m_height frame = 0 \<or> m_data frame = 0 then False else True)"

definition checkOutputFrame :: "ProcessingModule \<Rightarrow> Frame \<Rightarrow> bool" where
  "checkOutputFrame m frame =
     (m_height (in_frame m) = m_height frame \<and> m_width (in_frame m) = m_width frame \<and>
      m_pitch (in_frame m) = m_pitch frame)"

definition assignInputFrame :: "Frame \<Rightarrow> ProcessingModule \<Rightarrow> bool \<times> ProcessingModule" where
  "assignInputFrame frameIn m =
     (if checkFrameValidity frameIn then (True, m\<lparr>in_frame := frameIn\<rparr>) else (False, m))"

definition assignOutputFrame :: "Frame \<Rightarrow> ProcessingModule \<Rightarrow> bool \<times> ProcessingModule" where
  "assignOutputFrame frameOut m =
     (if checkFrameValidity frameOut \<and> checkOutputFrame m frameOut then (True, m\<lparr>out_frame := frameOut\<rparr>) else (False, m))"

definition uchar3PixelCharIndex2Value :: "char \<Rightarrow> Uchar3Pixel \<Rightarrow> int" where
  "uchar3PixelCharIndex2Value index p =
     (if index = CHR ''x'' then uint (px p)
      else if index = CHR ''y'' then uint (py p)
      else if index = CHR ''z'' then uint (pz p)
      else - 1)"

text \<open>The pixel to read is passed by value; an \<^verbatim>\<open>int\<close> is stored in a channel modulo 256.\<close>

definition applyPermutationOnPixel :: "string \<Rightarrow> Uchar3Pixel \<Rightarrow> nat \<Rightarrow> pixels \<Rightarrow> pixels option" where
  "applyPermutationOnPixel permutation fromPixel toPixel mem =
     (if mem toPixel = None then None
      else Some (mem(toPixel \<mapsto>
        \<lparr>px = of_int (uchar3PixelCharIndex2Value (permutation ! 0) fromPixel),
         py = of_int (uchar3PixelCharIndex2Value (permutation ! 1) fromPixel),
         pz = of_int (uchar3PixelCharIndex2Value (permutation ! 2) fromPixel)\<rparr>)))"

text \<open>The loops; \<open>x + y * pitch\<close> is unsigned arithmetic, the bounds are signed.\<close>

primrec each :: "('a \<Rightarrow> 's \<Rightarrow> 's option) \<Rightarrow> 'a list \<Rightarrow> 's \<Rightarrow> 's option" where
  "each f [] s = Some s"
| "each f (x # xs) s = (case f x s of None \<Rightarrow> None | Some s \<Rightarrow> each f xs s)"

definition run_pixel :: "string \<Rightarrow> ProcessingModule \<Rightarrow> nat \<Rightarrow> nat \<Rightarrow> pixels \<Rightarrow> pixels option" where
  "run_pixel permutation m y x mem =
     (let k = unat (of_nat x + of_nat y * m_pitch (in_frame m) :: u32) in
      case mem (m_data (in_frame m) + k) of
        None \<Rightarrow> None
      | Some p \<Rightarrow> applyPermutationOnPixel permutation p (m_data (out_frame m) + k) mem)"

definition run_image :: "string \<Rightarrow> ProcessingModule \<Rightarrow> pixels \<Rightarrow> pixels option" where
  "run_image permutation m =
     each (\<lambda>y. each (run_pixel permutation m y) [0..<nat (sint (m_width (in_frame m)))])
       [0..<nat (sint (m_height (in_frame m)))]"

definition pattern_ok :: "string \<Rightarrow> bool" where
  "pattern_ok permutation = (if length permutation \<noteq> 3 then False else (\<forall>c \<in> set permutation. c \<in> set ''xyz''))"

definition run :: "(string \<rightharpoonup> string) \<Rightarrow> ProcessingModule \<Rightarrow> pixels \<Rightarrow> (bool \<times> pixels) option" where
  "run params m mem =
     (if \<not> (checkFrameValidity (in_frame m) \<and> checkFrameValidity (out_frame m)) then Some (False, mem)
      else case params ''OutPixelPattern'' of
        None \<Rightarrow> Some (False, mem)
      | Some permutation \<Rightarrow>
          if \<not> pattern_ok permutation then Some (False, mem)
          else map_option (\<lambda>mem. (True, mem)) (run_image permutation m mem))"

section \<open>What a run does\<close>

text \<open>The place of a pixel of a frame, and the pixel that a pattern makes of another.\<close>

definition place :: "Frame \<Rightarrow> nat \<times> nat \<Rightarrow> nat" where
  "place f p = m_data f + fst p + snd p * unat (m_pitch f)"

definition cells :: "Frame \<Rightarrow> (nat \<times> nat) set" where
  "cells f = {..<unat (m_width f)} \<times> {..<unat (m_height f)}"

definition permuted :: "string \<Rightarrow> Uchar3Pixel \<Rightarrow> Uchar3Pixel" where
  "permuted pat p = (let v = \<lambda>i. of_int (uchar3PixelCharIndex2Value (pat ! i) p) in \<lparr>px = v 0, py = v 1, pz = v 2\<rparr>)"

text \<open>The frame's pixels exist, and its sizes are such that no index wraps.\<close>

definition frame_in :: "Frame \<Rightarrow> pixels \<Rightarrow> bool" where
  "frame_in f mem =
     (checkFrameValidity f \<and> unat (m_height f) < 2 ^ 31 \<and> unat (m_width f) < 2 ^ 31 \<and>
      (unat (m_height f) - 1) * unat (m_pitch f) + unat (m_width f) \<le> 2 ^ 32 \<and>
      (\<forall>p \<in> cells f. mem (place f p) \<noteq> None))"

text \<open>No pixel is read after another has been written to its place.\<close>

definition no_clash :: "Frame \<Rightarrow> Frame \<Rightarrow> bool" where
  "no_clash f g = (\<forall>p \<in> cells f. \<forall>q \<in> cells g. place f p = place g q \<longrightarrow> p = q)"

lemma each_append: "each f (xs @ ys) s = (case each f xs s of None \<Rightarrow> None | Some s \<Rightarrow> each f ys s)"
  by (induction xs arbitrary: s) (auto split: option.splits)

lemma each_map: "each f (map g xs) s = each (\<lambda>x. f (g x)) xs s"
  by (induction xs arbitrary: s) (auto split: option.splits)

lemma each_nested: "each (\<lambda>y. each (f y) xs) ys s = each (\<lambda>p. f (snd p) (fst p)) (map prod.swap (List.product ys xs)) s"
proof (induction ys arbitrary: s)
  case (Cons y ys)
  have "each (f y) xs s = each (\<lambda>p. f (snd p) (fst p)) (map (\<lambda>x. (x, y)) xs) s" by (simp add: each_map)
  then show ?case using Cons by (simp add: each_append comp_def split: option.splits)
qed simp

lemma place_index:
  assumes f: "frame_in f mem" and p: "(x, y) \<in> cells f"
  shows "unat (of_nat x + of_nat y * m_pitch f :: u32) = x + y * unat (m_pitch f)"
proof -
  let ?P = "unat (m_pitch f)"
  have y: "y \<le> unat (m_height f) - 1" and x: "x < unat (m_width f)" using p by (auto simp: cells_def)
  have "y * ?P \<le> (unat (m_height f) - 1) * ?P" by (rule mult_le_mono1 [OF y])
  then have lt: "x + y * ?P < 2 ^ 32" using x f unfolding frame_in_def by linarith
  have "(of_nat x + of_nat y * m_pitch f :: u32) = of_nat (x + y * ?P)" by simp
  then show ?thesis using lt by (simp only: unat_of_nat) (simp add: take_bit_nat_eq_self)
qed

lemma run_cells:
  assumes "distinct ps" "set ps \<subseteq> cells f" "no_clash f g" "\<forall>p \<in> set ps. mem (place f p) \<noteq> None" "\<forall>p \<in> set ps. mem (place g p) \<noteq> None"
    and g: "m_pitch g = m_pitch f" "cells g = cells f"
    and step: "\<And>p mem. p \<in> set ps \<Longrightarrow> h p mem = (case mem (place f p) of None \<Rightarrow> None | Some v \<Rightarrow> applyPermutationOnPixel pat v (place g p) mem)"
  shows "\<exists>mem'. each h ps mem = Some mem' \<and> (\<forall>p \<in> set ps. mem' (place g p) = Some (permuted pat (the (mem (place f p))))) \<and>
    (\<forall>k. k \<notin> place g ` set ps \<longrightarrow> mem' k = mem k)"
  using assms(1,2,4,5) step
proof (induction ps arbitrary: mem)
  case (Cons p ps)
  obtain v where v: "mem (place f p) = Some v" using Cons.prems(3) by auto
  let ?m = "mem(place g p \<mapsto> permuted pat v)"
  have h: "h p mem = Some ?m"
    using Cons.prems(4,5) v by (simp add: applyPermutationOnPixel_def permuted_def Let_def)
  have rd: "?m (place f q) = mem (place f q)" if q: "q \<in> set ps" for q
  proof -
    have "place f q = place g p \<longrightarrow> q = p" using assms(3) q Cons.prems(2) g unfolding no_clash_def by auto
    then show ?thesis using q Cons.prems(1) by auto
  qed
  obtain mem' where m': "each h ps ?m = Some mem'" "\<forall>q \<in> set ps. mem' (place g q) = Some (permuted pat (the (?m (place f q))))"
      "\<forall>k. k \<notin> place g ` set ps \<longrightarrow> mem' k = ?m k"
  proof -
    have "distinct ps" "set ps \<subseteq> cells f" using Cons.prems(1,2) by simp_all
    moreover have "\<forall>q \<in> set ps. ?m (place f q) \<noteq> None" using rd Cons.prems(3) by (metis list.set_intros(2))
    moreover have "\<forall>q \<in> set ps. ?m (place g q) \<noteq> None" using Cons.prems(4) by simp
    moreover have "h q mem = (case mem (place f q) of None \<Rightarrow> None | Some v \<Rightarrow> applyPermutationOnPixel pat v (place g q) mem)"
      if "q \<in> set ps" for q mem using Cons.prems(5) that by simp
    ultimately show ?thesis using Cons.IH [of ?m] that by blast
  qed
  have same: "mem' (place g p) = Some (permuted pat (the (mem (place f p))))"
  proof (cases "place g p \<in> place g ` set ps")
    case True
    then obtain q where q: "q \<in> set ps" "place g p = place g q" by auto
    then have "place f p = place f q" using g(1) by (simp add: place_def)
    then show ?thesis using m'(2) q rd [OF q(1)] by simp
  qed (use m'(3) v in simp)
  show ?case using h m' rd same by auto
qed simp

lemma sint_small: "unat w < 2 ^ 31 \<Longrightarrow> nat (sint w) = unat w" for w :: u32
proof -
  assume "unat w < 2 ^ 31"
  then have "int (unat w) < int (2 ^ 31)" by (simp only: of_nat_less_iff)
  then have "uint w < 2 ^ 31" by simp
  moreover have "(- (2 ^ 31) :: int) \<le> uint w" by (rule order_trans [OF _ uint_ge_0]) simp
  ultimately have "sint w = uint w" unfolding sint_uint by (simp add: signed_take_bit_int_eq_self)
  then show ?thesis by simp
qed

lemma no_clash_disjoint: "(place f ` cells f) \<inter> (place g ` cells g) = {} \<Longrightarrow> no_clash f g"
  by (auto simp: no_clash_def)

lemma no_clash_same: "unat (m_width f) \<le> unat (m_pitch f) \<Longrightarrow> no_clash f f"
proof -
  assume w: "unat (m_width f) \<le> unat (m_pitch f)"
  have "x = x' \<and> y = y'" if "x + y * P = x' + y' * P" "x < P" "x' < P" for x y x' y' P :: nat
  proof -
    have "(x + y * P) div P = y" "(x + y * P) mod P = x" "(x' + y' * P) div P = y'" "(x' + y' * P) mod P = x'" using that(2,3) by simp_all
    then show ?thesis using that(1) by simp
  qed
  note inj = this
  show ?thesis unfolding no_clash_def
  proof (intro ballI impI)
    fix p q assume "p \<in> cells f" "q \<in> cells f" "place f p = place f q"
    then show "p = q"
      using inj [of "fst p" "snd p" "unat (m_pitch f)" "fst q" "snd q"] w by (auto simp: cells_def place_def prod_eq_iff)
  qed
qed

text \<open>C32: A run on an input and an output frame of the same sizes, whose memory is apart or is the
  same, sets every pixel of the output to the input's pixel with its channels chosen by the pattern,
  changes nothing else, and returns true.\<close>

theorem run_permutes:
  assumes f: "frame_in (in_frame m) mem" and g: "frame_in (out_frame m) mem" and sz: "checkOutputFrame m (out_frame m)"
    and pat: "params ''OutPixelPattern'' = Some pat" "pattern_ok pat"
    and apart: "place (in_frame m) ` cells (in_frame m) \<inter> place (out_frame m) ` cells (out_frame m) = {} \<or>
      in_frame m = out_frame m \<and> unat (m_width (in_frame m)) \<le> unat (m_pitch (in_frame m))"
  shows "\<exists>mem'. run params m mem = Some (True, mem') \<and>
    (\<forall>p \<in> cells (out_frame m). mem' (place (out_frame m) p) = Some (permuted pat (the (mem (place (in_frame m) p))))) \<and>
    (\<forall>k. k \<notin> place (out_frame m) ` cells (out_frame m) \<longrightarrow> mem' k = mem k)"
proof -
  let ?f = "in_frame m" and ?g = "out_frame m"
  let ?W = "unat (m_width ?f)" and ?H = "unat (m_height ?f)"
  let ?ps = "map prod.swap (List.product [0..<?H] [0..<?W])"
  have s: "nat (sint (m_width ?f)) = ?W" "nat (sint (m_height ?f)) = ?H"
    using f sint_small by (simp_all add: frame_in_def)
  have e: "cells ?g = cells ?f" "m_pitch ?g = m_pitch ?f" using sz by (simp_all add: checkOutputFrame_def cells_def)
  have ps: "set ?ps = cells ?f" "distinct ?ps"
    by (auto simp: cells_def distinct_map distinct_product intro: image_eqI [of "(x, y)" prod.swap "(y, x)" for x y])
  have nc: "no_clash ?f ?g" using apart no_clash_disjoint no_clash_same by metis
  have st: "run_pixel pat m (snd p) (fst p) mem =
      (case mem (place ?f p) of None \<Rightarrow> None | Some v \<Rightarrow> applyPermutationOnPixel pat v (place ?g p) mem)"
    if "p \<in> set ?ps" for p mem
    using place_index [OF f, of "fst p" "snd p"] that e(2) unfolding ps(1) by (simp add: run_pixel_def place_def add.assoc Let_def split: option.split)
  have ex: "\<forall>p \<in> set ?ps. mem (place ?f p) \<noteq> None" "\<forall>p \<in> set ?ps. mem (place ?g p) \<noteq> None"
    using f g e(1) unfolding ps(1) by (simp_all add: frame_in_def)
  obtain mem' where m': "each (\<lambda>p. run_pixel pat m (snd p) (fst p)) ?ps mem = Some mem'"
      "\<forall>p \<in> cells ?f. mem' (place ?g p) = Some (permuted pat (the (mem (place ?f p))))"
      "\<forall>k. k \<notin> place ?g ` cells ?f \<longrightarrow> mem' k = mem k"
    using run_cells [where h = "\<lambda>p. run_pixel pat m (snd p) (fst p)", OF ps(2) _ nc ex e(2,1) st] unfolding ps(1) by blast
  have "run_image pat m mem = Some mem'"
    unfolding run_image_def s each_nested by (rule m'(1))
  then have "run params m mem = Some (True, mem')"
    using f g pat by (simp add: run_def frame_in_def)
  then show ?thesis using m'(2,3) unfolding e(1) by blast
qed

text \<open>An image of two pixels, permuted into another one.\<close>

definition two_pixels :: pixels where
  "two_pixels = [1 \<mapsto> \<lparr>px = 1, py = 2, pz = 3\<rparr>, 2 \<mapsto> \<lparr>px = 4, py = 5, pz = 6\<rparr>, 3 \<mapsto> \<lparr>px = 0, py = 0, pz = 0\<rparr>, 4 \<mapsto> \<lparr>px = 0, py = 0, pz = 0\<rparr>]"

definition frame_at :: "nat \<Rightarrow> Frame" where
  "frame_at a = \<lparr>m_height = 1, m_width = 2, m_pitch = 2, m_data = a\<rparr>"

lemma run_permutes_witness:
  "\<exists>mem'. run [''OutPixelPattern'' \<mapsto> ''zxx''] \<lparr>in_frame = frame_at 1, out_frame = frame_at 3\<rparr> two_pixels = Some (True, mem') \<and>
     mem' 3 = Some \<lparr>px = 3, py = 1, pz = 1\<rparr> \<and> mem' 4 = Some \<lparr>px = 6, py = 4, pz = 4\<rparr> \<and> mem' 1 = two_pixels 1"
proof -
  have lt: "x < 2 \<longleftrightarrow> x = 0 \<or> x = 1" for x :: nat by auto
  have c: "cells (frame_at a) = {(0, 0), (1, 0)}" for a by (auto simp: cells_def frame_at_def lt)
  have p: "place (frame_at a) p = a + fst p + 2 * snd p" for a p by (simp add: place_def frame_at_def)
  have f: "frame_in (frame_at 1) two_pixels" "frame_in (frame_at 3) two_pixels"
    unfolding frame_in_def c p by (simp_all add: frame_at_def checkFrameValidity_def two_pixels_def)
  let ?m = "\<lparr>in_frame = frame_at 1, out_frame = frame_at 3\<rparr>"
  have ap: "place (in_frame ?m) ` cells (in_frame ?m) \<inter> place (out_frame ?m) ` cells (out_frame ?m) = {} \<or>
      in_frame ?m = out_frame ?m \<and> unat (m_width (in_frame ?m)) \<le> unat (m_pitch (in_frame ?m))"
    by (simp add: c p)
  have sz: "checkOutputFrame ?m (out_frame ?m)" by (simp add: checkOutputFrame_def frame_at_def)
  obtain mem' where m': "run [''OutPixelPattern'' \<mapsto> ''zxx''] ?m two_pixels = Some (True, mem')"
      "\<forall>p \<in> cells (frame_at 3). mem' (place (frame_at 3) p) = Some (permuted ''zxx'' (the (two_pixels (place (frame_at 1) p))))"
      "\<forall>k. k \<notin> place (frame_at 3) ` cells (frame_at 3) \<longrightarrow> mem' k = two_pixels k"
    using run_permutes [of ?m two_pixels "[''OutPixelPattern'' \<mapsto> ''zxx'']" "''zxx''", OF _ _ sz _ _ ap] f
    by (auto simp: pattern_ok_def)
  have "mem' 3 = Some \<lparr>px = 3, py = 1, pz = 1\<rparr>" "mem' 4 = Some \<lparr>px = 6, py = 4, pz = 4\<rparr>"
    using m'(2) unfolding c p
    by (simp_all add: two_pixels_def permuted_def uchar3PixelCharIndex2Value_def Let_def)
  moreover have "mem' 1 = two_pixels 1" using m'(3) unfolding c p by simp
  ultimately show ?thesis using m'(1) by blast
qed

text \<open>The patterns that are accepted: 27, as the description of the program says.\<close>

lemma accepted_patterns: "{p. pattern_ok p} = set (List.n_lists 3 ''xyz'')" "card {p. pattern_ok p} = 27"
proof -
  show e: "{p. pattern_ok p} = set (List.n_lists 3 ''xyz'')" by (auto simp: pattern_ok_def set_n_lists)
  have "distinct (List.n_lists 3 ''xyz'')" by (rule distinct_n_lists) simp
  then show "card {p. pattern_ok p} = 27" unfolding e by (simp add: distinct_card length_n_lists power3_eq_cube)
qed

text \<open>In every other case that the module tests for it refuses and leaves the memory alone.\<close>

lemma run_refuses:
  assumes "\<not> checkFrameValidity (in_frame m) \<or> \<not> checkFrameValidity (out_frame m) \<or> (\<forall>pat. params ''OutPixelPattern'' = Some pat \<longrightarrow> \<not> pattern_ok pat)"
  shows "run params m mem = Some (False, mem)"
  using assms by (auto simp: run_def split: option.split)

text \<open>The sizes are compared when the output frame is assigned only: after a larger input frame the
  run leaves the memory of the output.\<close>

lemma stale_output_frame:
  "let small = (\<lambda>a. \<lparr>m_height = 1, m_width = 1, m_pitch = 1, m_data = a\<rparr>);
       (a, m) = assignInputFrame (small 3) getInstance; (b, m) = assignOutputFrame (small 4) m;
       (c, m) = assignInputFrame (frame_at 1) m
   in a \<and> b \<and> c \<and> run [''OutPixelPattern'' \<mapsto> ''xyz''] m two_pixels = None"
  by (simp add: assignInputFrame_def assignOutputFrame_def checkFrameValidity_def checkOutputFrame_def frame_at_def run_def
    pattern_ok_def run_image_def upt_rec run_pixel_def two_pixels_def applyPermutationOnPixel_def Let_def)

text \<open>The bounds of the loops are signed: nothing is done to a frame of \<open>2^31\<close> rows, although it is valid.\<close>

lemma tall_frame_untouched:
  "sint (m_height (in_frame m)) < 0 \<Longrightarrow> run_image pat m mem = Some mem"
  by (simp add: run_image_def)

end
