(* ===== verification/LineParser.thy ===== *)
theory LineParser
  imports Main
begin

text \<open>
  The command lines of the shell of the labs (\<^verbatim>\<open>LineParser.c\<close>): words, redirections, pipes and \<open>&\<close>. A
  string without NUL is the list of its characters; writing a NUL into a line cuts it there. A chain
  of \<^verbatim>\<open>cmdLine\<close>s is the list of its commands, and \<^verbatim>\<open>NULL\<close> the empty chain or \<open>None\<close>.
\<close>

record cmdLine =
  arguments :: "string list"
  inputRedirect :: "string option"
  outputRedirect :: "string option"
  blocking :: bool
  idx :: nat

definition MAX_ARGUMENTS :: nat where
  "MAX_ARGUMENTS = 256"

section \<open>The code\<close>

text \<open>\<open>start\<close> is what has been read of the word, once it has begun.\<close>

fun clone_loop :: "string \<Rightarrow> string option \<Rightarrow> string option" where
  "clone_loop [] start = start"
| "clone_loop (c # str) start =
     (if c = CHR ''>'' \<or> c = CHR ''<'' then start
      else if c = CHR '' '' then (if start \<noteq> None then start else clone_loop str start)
      else clone_loop str (case start of None \<Rightarrow> Some [c] | Some w \<Rightarrow> Some (w @ [c])))"

definition cloneFirstWord :: "string \<Rightarrow> string option" where
  "cloneFirstWord str = clone_loop str None"

fun redirect_loop :: "string \<Rightarrow> cmdLine \<Rightarrow> cmdLine" where
  "redirect_loop [] cmd = cmd"
| "redirect_loop (c # s) cmd =
     redirect_loop s (if c = CHR ''<'' then cmd\<lparr>inputRedirect := cloneFirstWord s\<rparr>
       else if c = CHR ''>'' then cmd\<lparr>outputRedirect := cloneFirstWord s\<rparr> else cmd)"

text \<open>The line that is left ends at the first redirection.\<close>

definition extractRedirections :: "string \<Rightarrow> cmdLine \<Rightarrow> string \<times> cmdLine" where
  "extractRedirections strLine cmd = (takeWhile (\<lambda>c. c \<notin> set ''<>'') strLine, redirect_loop strLine cmd)"

definition isspace :: "char \<Rightarrow> bool" where
  "isspace c = (c = CHR '' '' \<or> (9 \<le> (of_char c :: nat) \<and> (of_char c :: nat) \<le> 13))"

fun isEmpty :: "string \<Rightarrow> bool" where
  "isEmpty [] = True"
| "isEmpty (c # str) = (if \<not> isspace c then False else isEmpty str)"

text \<open>The successive results of \<^verbatim>\<open>strtok(line, " ")\<close>.\<close>

function strtok :: "string \<Rightarrow> string list" where
  "strtok s = (let s = dropWhile (\<lambda>c. c = CHR '' '') s in
     if s = [] then [] else takeWhile (\<lambda>c. c \<noteq> CHR '' '') s # strtok (dropWhile (\<lambda>c. c \<noteq> CHR '' '') s))"
  by pat_completeness auto
termination
proof (relation "measure length")
  fix s x :: string
  assume x: "x = dropWhile (\<lambda>c. c = CHR '' '') s" "x \<noteq> []"
  then have "hd x \<noteq> CHR '' ''" using hd_dropWhile [of "\<lambda>c. c = CHR '' ''" s] by simp
  then have "dropWhile (\<lambda>c. c \<noteq> CHR '' '') x = dropWhile (\<lambda>c. c \<noteq> CHR '' '') (tl x)"
    using x(2) by (cases x) auto
  then have "length (dropWhile (\<lambda>c. c \<noteq> CHR '' '') x) < length x"
    using length_dropWhile_le [of "\<lambda>c. c \<noteq> CHR '' ''" "tl x"] x(2) by (cases x) auto
  also have "\<dots> \<le> length s" using x(1) length_dropWhile_le by blast
  finally show "(dropWhile (\<lambda>c. c \<noteq> CHR '' '') x, s) \<in> measure length" by simp
qed simp

declare strtok.simps [simp del]

definition parseSingleCmdLine :: "string \<Rightarrow> cmdLine option" where
  "parseSingleCmdLine strLine =
     (if isEmpty strLine then None
      else let (line, cmd) = extractRedirections strLine
             \<lparr>arguments = [], inputRedirect = None, outputRedirect = None, blocking = False, idx = 0\<rparr>
           in Some (cmd\<lparr>arguments := take (MAX_ARGUMENTS - 1) (strtok line)\<rparr>))"

function parse_lines :: "string \<Rightarrow> cmdLine list" where
  "parse_lines line =
     (if isEmpty line then []
      else let rest = dropWhile (\<lambda>c. c \<noteq> CHR ''|'') line in
        case parseSingleCmdLine (takeWhile (\<lambda>c. c \<noteq> CHR ''|'') line) of
          None \<Rightarrow> []
        | Some cmd \<Rightarrow> cmd # (if rest \<noteq> [] then parse_lines (tl rest) else []))"
  by pat_completeness auto
termination
proof (relation "measure length")
  fix line x :: string
  assume x: "x = dropWhile (\<lambda>c. c \<noteq> CHR ''|'') line" "x \<noteq> []"
  then have "length (tl x) < length x" by (cases x) auto
  also have "\<dots> \<le> length line" using x(1) length_dropWhile_le by blast
  finally show "(tl x, line) \<in> measure length" by simp
qed simp

declare parse_lines.simps [simp del]

definition parseCmdLines :: "string \<Rightarrow> cmdLine list" where
  "parseCmdLines strLine =
     (if isEmpty strLine then []
      else let line = (if last strLine = CHR 0x0A then butlast strLine else strLine);
               ampersand = (CHR ''&'' \<in> set line);
               cmds = parse_lines (takeWhile (\<lambda>c. c \<noteq> CHR ''&'') line);
               cmds = (if cmds = [] then [] else butlast cmds @ [(last cmds)\<lparr>blocking := \<not> ampersand\<rparr>])
           in map (\<lambda>(i, cmd). cmd\<lparr>idx := i\<rparr>) (enumerate 0 cmds))"

definition replaceCmdArg :: "cmdLine \<Rightarrow> nat \<Rightarrow> string \<Rightarrow> cmdLine option" where
  "replaceCmdArg cmd num newString =
     (if length (arguments cmd) \<le> num then None else Some (cmd\<lparr>arguments := (arguments cmd)[num := newString]\<rparr>))"

section \<open>Lines that are printed are read back\<close>

text \<open>A word of a line: not empty, and without blanks and the characters the parser treats.\<close>

definition word_ok :: "string \<Rightarrow> bool" where
  "word_ok w = (w \<noteq> [] \<and> (\<forall>c \<in> set w. \<not> isspace c \<and> c \<notin> set ''<>|&''))"

definition spaced :: "string list \<Rightarrow> string" where
  "spaced ws = concat (map (\<lambda>w. w @ '' '') ws)"

definition print_redirect :: "char \<Rightarrow> string option \<Rightarrow> string" where
  "print_redirect c r = (case r of None \<Rightarrow> [] | Some w \<Rightarrow> c # '' '' @ w @ '' '')"

definition print_cmd :: "cmdLine \<Rightarrow> string" where
  "print_cmd cmd = spaced (arguments cmd) @ print_redirect (CHR ''<'') (inputRedirect cmd) @
     print_redirect (CHR ''>'') (outputRedirect cmd)"

fun print_pipe :: "cmdLine list \<Rightarrow> string" where
  "print_pipe [] = []"
| "print_pipe [cmd] = print_cmd cmd"
| "print_pipe (cmd # cmds) = print_cmd cmd @ ''| '' @ print_pipe cmds"

definition cmd_ok :: "cmdLine \<Rightarrow> bool" where
  "cmd_ok cmd = (arguments cmd \<noteq> [] \<and> length (arguments cmd) < MAX_ARGUMENTS \<and> (\<forall>w \<in> set (arguments cmd). word_ok w) \<and>
     pred_option word_ok (inputRedirect cmd) \<and> pred_option word_ok (outputRedirect cmd))"

text \<open>A command as it is before \<^verbatim>\<open>parseCmdLines\<close> sets \<^verbatim>\<open>blocking\<close> and \<^verbatim>\<open>idx\<close>.\<close>

definition bare :: "cmdLine \<Rightarrow> cmdLine" where
  "bare cmd = cmd\<lparr>blocking := False, idx := 0\<rparr>"

lemma word_okD:
  assumes "word_ok w" "c \<in> set w"
  shows "c \<noteq> CHR '' ''" "c \<noteq> CHR ''<''" "c \<noteq> CHR ''>''" "c \<noteq> CHR ''|''" "c \<noteq> CHR ''&''" "c \<noteq> CHR 0x0A" "\<not> isspace c"
proof -
  have c: "\<not> isspace c" "c \<notin> set ''<>|&''" using assms by (simp_all add: word_ok_def)
  show "\<not> isspace c" by (rule c(1))
  show "c \<noteq> CHR '' ''" "c \<noteq> CHR 0x0A" using c(1) by (rule contrapos_nn, simp add: isspace_def)+
  show "c \<noteq> CHR ''<''" "c \<noteq> CHR ''>''" "c \<noteq> CHR ''|''" "c \<noteq> CHR ''&''" using c(2) by simp_all
qed

lemma word_ok_no [simp]:
  assumes "word_ok w"
  shows "CHR '' '' \<notin> set w" "CHR ''<'' \<notin> set w" "CHR ''>'' \<notin> set w" "CHR ''|'' \<notin> set w" "CHR ''&'' \<notin> set w" "CHR 0x0A \<notin> set w"
  using word_okD [OF assms] by blast+

lemma isEmpty_all: "isEmpty s \<longleftrightarrow> (\<forall>c \<in> set s. isspace c)"
  by (induction s) auto

lemma clone_word: "\<forall>c \<in> set w. c \<noteq> CHR '' '' \<and> c \<noteq> CHR ''<'' \<and> c \<noteq> CHR ''>'' \<Longrightarrow>
  clone_loop (w @ '' '' @ rest) (Some v) = Some (v @ w)"
  by (induction w arbitrary: v) auto

lemma cloneFirstWord_word: "word_ok w \<Longrightarrow> cloneFirstWord ('' '' @ w @ '' '' @ rest) = Some w"
proof -
  assume w: "word_ok w"
  then obtain c v where v: "w = c # v" by (cases w) (auto simp: word_ok_def)
  have "clone_loop (v @ '' '' @ rest) (Some [c]) = Some ([c] @ v)"
    by (rule clone_word) (use word_okD(1-3) [OF w] v in simp)
  then show ?thesis using word_okD [OF w, of c] v by (simp add: cloneFirstWord_def)
qed

lemma strtok_word:
  assumes "w \<noteq> []" "\<forall>c \<in> set w. c \<noteq> CHR '' ''"
  shows "strtok (w @ '' '' @ rest) = w # strtok rest"
proof -
  obtain c v where v: "w = c # v" "c \<noteq> CHR '' ''" using assms by (cases w) auto
  have t: "takeWhile (\<lambda>c. c \<noteq> CHR '' '') (w @ '' '' @ rest) = w" "dropWhile (\<lambda>c. c \<noteq> CHR '' '') (w @ '' '' @ rest) = '' '' @ rest"
    using assms(2) by (simp_all add: takeWhile_append dropWhile_append)
  have "strtok (w @ '' '' @ rest) = w # strtok ('' '' @ rest)"
    using t v by (subst strtok.simps) simp
  also have "strtok ('' '' @ rest) = strtok rest"
    by (subst (1 2) strtok.simps) simp
  finally show ?thesis .
qed

lemma strtok_spaced: "\<forall>w \<in> set ws. word_ok w \<Longrightarrow> strtok (spaced ws) = ws"
proof (induction ws)
  case (Cons w ws)
  then have w: "word_ok w" by simp
  have "strtok (w @ '' '' @ spaced ws) = w # strtok (spaced ws)"
    by (rule strtok_word) (use w word_okD(1) [OF w] in \<open>auto simp: word_ok_def\<close>)
  then show ?case using Cons by (simp add: spaced_def)
qed (simp add: spaced_def strtok.simps)

lemma redirect_skip: "\<forall>c \<in> set s. c \<noteq> CHR ''<'' \<and> c \<noteq> CHR ''>'' \<Longrightarrow> redirect_loop (s @ t) cmd = redirect_loop t cmd"
  by (induction s) auto

lemma redirect_word: "word_ok w \<Longrightarrow> redirect_loop ('' '' @ w @ '' '' @ t) cmd = redirect_loop t cmd"
  using redirect_skip [of w "'' '' @ t" cmd] word_okD(2,3) [of w] by (auto simp del: redirect_loop.simps simp: redirect_loop.simps(2) [of "CHR '' ''"])

lemma redirect_in: "word_ok w \<Longrightarrow> redirect_loop (print_redirect (CHR ''<'') (Some w) @ t) cmd =
    redirect_loop t (cmd\<lparr>inputRedirect := Some w\<rparr>)"
  using cloneFirstWord_word [of w t] redirect_word [of w t] by (simp add: print_redirect_def)

lemma redirect_out: "word_ok w \<Longrightarrow> redirect_loop (print_redirect (CHR ''>'') (Some w) @ t) cmd =
    redirect_loop t (cmd\<lparr>outputRedirect := Some w\<rparr>)"
  using cloneFirstWord_word [of w t] redirect_word [of w t] by (simp add: print_redirect_def)

lemma spaced_chars: "\<forall>w \<in> set ws. word_ok w \<Longrightarrow> c \<in> set (spaced ws) \<Longrightarrow> c = CHR '' '' \<or> (\<exists>w. word_ok w \<and> c \<in> set w)"
  by (induction ws) (auto simp: spaced_def)

lemma spaced_plain:
  assumes "\<forall>w \<in> set ws. word_ok w" "c \<in> set (spaced ws)"
  shows "c \<noteq> CHR ''<''" "c \<noteq> CHR ''>''" "c \<noteq> CHR ''|''" "c \<noteq> CHR ''&''" "c \<noteq> CHR 0x0A"
  using spaced_chars [OF assms] by (elim disjE exE conjE; auto)+

lemma print_redirect_None [simp]: "print_redirect c None = []"
  by (simp add: print_redirect_def)

lemma parse_print_cmd:
  assumes "cmd_ok cmd"
  shows "parseSingleCmdLine (print_cmd cmd) = Some (bare cmd)"
proof -
  let ?cmd = "\<lparr>arguments = [], inputRedirect = None, outputRedirect = None, blocking = False, idx = 0\<rparr>"
  have ws: "\<forall>w \<in> set (arguments cmd). word_ok w" "arguments cmd \<noteq> []" and len: "length (arguments cmd) < MAX_ARGUMENTS"
    and ir: "\<And>w. inputRedirect cmd = Some w \<Longrightarrow> word_ok w" and outr: "\<And>w. outputRedirect cmd = Some w \<Longrightarrow> word_ok w"
    using assms by (auto simp: cmd_ok_def)
  let ?red = "print_redirect (CHR ''<'') (inputRedirect cmd) @ print_redirect (CHR ''>'') (outputRedirect cmd)"
  have "redirect_loop (spaced (arguments cmd) @ ?red) ?cmd = redirect_loop ?red ?cmd"
    by (rule redirect_skip) (use spaced_plain(1,2) [OF ws(1)] in auto)
  also have "\<dots> = ?cmd\<lparr>inputRedirect := inputRedirect cmd, outputRedirect := outputRedirect cmd\<rparr>"
    using redirect_in [of _ "print_redirect (CHR ''>'') (outputRedirect cmd)"] redirect_out [of _ "[]"] ir outr
    by (cases "inputRedirect cmd"; cases "outputRedirect cmd") simp_all
  finally have r: "redirect_loop (print_cmd cmd) ?cmd = ?cmd\<lparr>inputRedirect := inputRedirect cmd, outputRedirect := outputRedirect cmd\<rparr>"
    by (simp add: print_cmd_def)
  have "takeWhile (\<lambda>c. c \<notin> set ''<>'') (spaced (arguments cmd) @ ?red) = spaced (arguments cmd)"
  proof -
    have "takeWhile (\<lambda>c. c \<notin> set ''<>'') ?red = []"
      by (cases "inputRedirect cmd"; cases "outputRedirect cmd") (simp_all add: print_redirect_def)
    then show ?thesis using spaced_plain(1,2) [OF ws(1)] by (simp add: takeWhile_append)
  qed
  then have t: "strtok (takeWhile (\<lambda>c. c \<notin> set ''<>'') (print_cmd cmd)) = arguments cmd"
    using strtok_spaced [OF ws(1)] by (simp add: print_cmd_def)
  obtain w v where "arguments cmd = w # v" "word_ok w" using ws by (cases "arguments cmd") auto
  then obtain c where "c \<in> set (print_cmd cmd)" "\<not> isspace c"
    by (cases w) (auto simp: print_cmd_def spaced_def word_ok_def)
  then have "\<not> isEmpty (print_cmd cmd)" by (auto simp: isEmpty_all)
  then show ?thesis
    using r t len by (simp add: parseSingleCmdLine_def extractRedirections_def bare_def)
qed

lemma strtok_blank: "strtok (CHR '' '' # s) = strtok s"
  by (subst (1 2) strtok.simps) simp

lemma isEmpty_blank: "isEmpty (CHR '' '' # s) = isEmpty s"
  by (simp add: isspace_def)

lemma single_blank: "parseSingleCmdLine (CHR '' '' # s) = parseSingleCmdLine s"
  by (simp add: parseSingleCmdLine_def isEmpty_blank extractRedirections_def strtok_blank del: isEmpty.simps)

lemma parse_lines_blank: "parse_lines (CHR '' '' # s) = parse_lines s"
  by (subst (1 2) parse_lines.simps) (simp add: isEmpty_blank single_blank Let_def del: isEmpty.simps)

lemma print_cmd_plain:
  assumes "cmd_ok cmd" "c \<in> set (print_cmd cmd)"
  shows "c \<noteq> CHR ''|''" "c \<noteq> CHR ''&''" "c \<noteq> CHR 0x0A"
proof -
  have "c \<in> set (spaced (arguments cmd)) \<or> c = CHR ''<'' \<or> c = CHR ''>'' \<or> c = CHR '' '' \<or> (\<exists>w. word_ok w \<and> c \<in> set w)"
    using assms by (cases "inputRedirect cmd"; cases "outputRedirect cmd") (auto simp: print_cmd_def print_redirect_def cmd_ok_def)
  moreover have "\<forall>w \<in> set (arguments cmd). word_ok w" using assms(1) by (simp add: cmd_ok_def)
  ultimately show "c \<noteq> CHR ''|''" "c \<noteq> CHR ''&''" "c \<noteq> CHR 0x0A"
    using spaced_plain [of "arguments cmd" c] by (elim disjE exE conjE; auto)+
qed

lemma parse_print_pipe: "\<forall>cmd \<in> set cmds. cmd_ok cmd \<Longrightarrow> parse_lines (print_pipe cmds) = map bare cmds"
proof (induction cmds rule: print_pipe.induct)
  case 1
  then show ?case by (simp add: parse_lines.simps)
next
  case (2 cmd)
  then have ok: "cmd_ok cmd" by simp
  have "parseSingleCmdLine (print_cmd cmd) = Some (bare cmd)" by (rule parse_print_cmd [OF ok])
  moreover have "\<not> isEmpty (print_cmd cmd)" using calculation by (auto simp: parseSingleCmdLine_def split: if_splits)
  moreover have "\<forall>c \<in> set (print_cmd cmd). c \<noteq> CHR ''|''" using print_cmd_plain(1) [OF ok] by blast
  ultimately show ?case
    by (simp add: parse_lines.simps [of "print_cmd cmd"] Let_def takeWhile_eq_all_conv [THEN iffD2])
next
  case (3 cmd c cmds)
  then have ok: "cmd_ok cmd" by simp
  let ?rest = "print_pipe (c # cmds)"
  have p: "parseSingleCmdLine (print_cmd cmd) = Some (bare cmd)" by (rule parse_print_cmd [OF ok])
  have "\<not> isEmpty (print_cmd cmd)" using p by (auto simp: parseSingleCmdLine_def split: if_splits)
  then have "\<not> isEmpty (print_cmd cmd @ ''| '' @ ?rest)" by (auto simp: isEmpty_all)
  moreover have "takeWhile (\<lambda>c. c \<noteq> CHR ''|'') (print_cmd cmd @ ''| '' @ ?rest) = print_cmd cmd"
    "dropWhile (\<lambda>c. c \<noteq> CHR ''|'') (print_cmd cmd @ ''| '' @ ?rest) = ''| '' @ ?rest"
    using print_cmd_plain(1) [OF ok] by (auto simp: takeWhile_append dropWhile_append)
  ultimately show ?case using 3 p by (subst parse_lines.simps) (simp add: parse_lines_blank)
qed

lemma print_pipe_plain:
  "\<forall>cmd \<in> set cmds. cmd_ok cmd \<Longrightarrow> c \<in> set (print_pipe cmds) \<Longrightarrow> c \<noteq> CHR ''&'' \<and> c \<noteq> CHR 0x0A"
  by (induction cmds rule: print_pipe.induct) (auto dest: print_cmd_plain(2,3))

text \<open>The chain that the shell gets: the last command waits unless the line ends with \<open>&\<close>.\<close>

definition numbered :: "bool \<Rightarrow> cmdLine list \<Rightarrow> cmdLine list" where
  "numbered background cmds =
     map (\<lambda>(i, cmd). cmd\<lparr>blocking := (Suc i = length cmds \<and> \<not> background), idx := i\<rparr>) (enumerate 0 cmds)"

text \<open>C24: the parser reads back every pipeline that is printed as a line: each command with its words
  and redirections, numbered in order, and only the last one blocking, if the line does not end
  with \<open>&\<close>.\<close>

theorem parseCmdLines_reads_pipeline:
  assumes "\<forall>cmd \<in> set cmds. cmd_ok cmd" "cmds \<noteq> []"
  shows "parseCmdLines (print_pipe cmds @ (if background then ''&'' else []) @ [CHR 0x0A]) = numbered background cmds"
proof -
  let ?line = "print_pipe cmds @ (if background then ''&'' else [])"
  have pl: "parse_lines (print_pipe cmds) = map bare cmds" by (rule parse_print_pipe [OF assms(1)])
  then have "\<not> isEmpty (print_pipe cmds)" using assms(2) by (subst (asm) parse_lines.simps) auto
  then have ne: "\<not> isEmpty (print_pipe cmds @ (if background then ''&'' else []) @ [CHR 0x0A])" by (auto simp: isEmpty_all)
  have amp: "CHR ''&'' \<in> set ?line \<longleftrightarrow> background" using print_pipe_plain [OF assms(1)] by auto
  have cut: "takeWhile (\<lambda>c. c \<noteq> CHR ''&'') ?line = print_pipe cmds"
    using print_pipe_plain [OF assms(1)] by (auto simp: takeWhile_append takeWhile_eq_all_conv)
  have last: "last (print_pipe cmds @ (if background then ''&'' else []) @ [CHR 0x0A]) = CHR 0x0A"
    "butlast (print_pipe cmds @ (if background then ''&'' else []) @ [CHR 0x0A]) = ?line"
    by (simp_all add: butlast_append)
  obtain xs x where c: "cmds = xs @ [x]" using assms(2) by (metis rev_exhaust)
  have "parseCmdLines (?line @ [CHR 0x0A]) =
      map (\<lambda>(i, cmd). cmd\<lparr>idx := i\<rparr>) (enumerate 0 (map bare xs @ [(bare x)\<lparr>blocking := \<not> background\<rparr>]))"
    using ne last amp cut pl c by (simp add: parseCmdLines_def Let_def)
  also have "\<dots> = numbered background cmds"
    unfolding numbered_def c by (rule nth_equalityI) (auto simp: nth_enumerate_eq nth_append bare_def)
  finally show ?thesis by simp
qed

definition ls_cmd :: cmdLine where
  "ls_cmd = \<lparr>arguments = [''ls'', ''-l''], inputRedirect = Some ''in'', outputRedirect = None, blocking = False, idx = 0\<rparr>"

definition wc_cmd :: cmdLine where
  "wc_cmd = \<lparr>arguments = [''wc''], inputRedirect = None, outputRedirect = Some ''out'', blocking = False, idx = 0\<rparr>"

theorem parseCmdLines_reads_pipeline_witness:
  "parseCmdLines (''ls -l < in | wc > out &'' @ [CHR 0x0A]) = [ls_cmd, wc_cmd\<lparr>idx := 1\<rparr>]"
proof -
  have ok: "\<forall>cmd \<in> set [ls_cmd, wc_cmd]. cmd_ok cmd"
    by (simp add: ls_cmd_def wc_cmd_def cmd_ok_def MAX_ARGUMENTS_def word_ok_def isspace_def)
  have "print_pipe [ls_cmd, wc_cmd] @ ''&'' = ''ls -l < in | wc > out &''"
    by (simp add: ls_cmd_def wc_cmd_def print_cmd_def spaced_def print_redirect_def)
  then show ?thesis
    using parseCmdLines_reads_pipeline [OF ok, of True]
    by (simp add: numbered_def enumerate_eq_zip) (simp add: ls_cmd_def wc_cmd_def)
qed

end
