(* ===== verification/MyShell.thy ===== *)
theory MyShell
  imports ShRun Cpp LineParser
begin

text \<open>
  The shell of the labs (\<^verbatim>\<open>lab6/task4/myshell.c\<close>): its variables, the list of the processes it has
  started, and its command loop. Lists linked by pointers are HOL lists; what is freed is dropped.
  The system calls of children are trees of theory \<open>ShRun\<close>; what the operating system answers to
  the shell itself is in the record \<open>answers\<close>. A use of a null pointer is \<open>Crash\<close>.
\<close>

unbundle bit_operations_syntax

section \<open>Variables\<close>

type_synonym vars = "(string \<times> string) list"

primrec delete_var :: "vars \<Rightarrow> string \<Rightarrow> vars" where
  "delete_var [] nameToDelete = []"
| "delete_var (v # list) nameToDelete =
     (if fst v = nameToDelete then delete_var list nameToDelete else v # delete_var list nameToDelete)"

primrec addVar :: "vars \<Rightarrow> string \<Rightarrow> string \<Rightarrow> vars" where
  "addVar [] insertName insertVal = [(insertName, insertVal)]"
| "addVar (v # list) insertName insertVal =
     (if fst v = insertName then (fst v, insertVal) # list else v # addVar list insertName insertVal)"

primrec getvalue :: "vars \<Rightarrow> string \<Rightarrow> string option" where
  "getvalue [] name = None"
| "getvalue (v # list) name = (if fst v = name then Some (snd v) else getvalue list name)"

primrec printVars :: "vars \<Rightarrow> string" where
  "printVars [] = []"
| "printVars (v # list) = ''name:'' @ fst v @ [CHR 0x09] @ '' value:'' @ snd v @ [CHR 0x0A] @ printVars list"

section \<open>Processes\<close>

text \<open>The status is the \<^verbatim>\<open>int\<close> that \<^verbatim>\<open>waitpid\<close> may overwrite.\<close>

record process =
  cmd :: cmdLine
  pid :: int
  status :: int

definition TERMINATED :: int where
  "TERMINATED = -1"

definition RUNNING :: int where
  "RUNNING = 1"

definition SUSPENDED :: int where
  "SUSPENDED = 0"

definition WIFSTOPPED :: "int \<Rightarrow> bool" where
  "WIFSTOPPED s = (s mod 256 = 0x7F)"

definition WIFCONTINUED :: "int \<Rightarrow> bool" where
  "WIFCONTINUED s = (s = 0xFFFF)"

primrec updateProcessStatus :: "process list \<Rightarrow> int \<Rightarrow> int \<Rightarrow> process list" where
  "updateProcessStatus [] i s = []"
| "updateProcessStatus (p # ps) i s = (if pid p = i then p\<lparr>status := s\<rparr> # ps else p # updateProcessStatus ps i s)"

text \<open>\<open>waits i\<close>: what \<^verbatim>\<open>waitpid(i, ..., WNOHANG)\<close> returns, and the status that it writes if it returns a
  process.\<close>

definition update_process :: "(int \<Rightarrow> int \<times> int) \<Rightarrow> process \<Rightarrow> process" where
  "update_process waits p =
     (let (i, s) = waits (pid p); p = (if 0 < i then p\<lparr>status := s\<rparr> else p) in
      if i = -1 then p\<lparr>status := TERMINATED\<rparr>
      else if WIFSTOPPED (status p) then p\<lparr>status := SUSPENDED\<rparr>
      else if WIFCONTINUED (status p) then p\<lparr>status := RUNNING\<rparr>
      else p)"

definition updateProcessList :: "(int \<Rightarrow> int \<times> int) \<Rightarrow> process list \<Rightarrow> process list" where
  "updateProcessList waits ps = map (update_process waits) ps"

definition addProcess :: "process list \<Rightarrow> cmdLine \<Rightarrow> int \<Rightarrow> process list" where
  "addProcess ps c i = \<lparr>cmd = c, pid = i, status = RUNNING\<rparr> # ps"

definition status_text :: "int \<Rightarrow> string" where
  "status_text s = (if s = RUNNING then ''RUNNING'' @ [CHR 0x0A] else []) @
     (if s = SUSPENDED then ''SUSPENDED'' @ [CHR 0x0A] else []) @
     (if s = TERMINATED then ''TERMINATED'' @ [CHR 0x0A] else [])"

text \<open>The text of the list, and the list without its terminated processes.\<close>

primrec print_processes :: "process list \<Rightarrow> string \<times> process list" where
  "print_processes [] = ([], [])"
| "print_processes (p # ps) = (let (s, rest) = print_processes ps in
     (to_string (pid p) @ '' '' @ [CHR 0x09] @ '' '' @ hd (arguments (cmd p)) @ '' '' @ [CHR 0x09, CHR 0x09] @ status_text (status p) @ s,
      if status p = TERMINATED then rest else p # rest))"

definition printProcessList :: "(int \<Rightarrow> int \<times> int) \<Rightarrow> process list \<Rightarrow> string \<times> process list" where
  "printProcessList waits ps = (let (s, ps) = print_processes (updateProcessList waits ps) in
     (''PID '' @ [CHR 0x09] @ '' Command'' @ [CHR 0x09] @ '' STATUS'' @ [CHR 0x0A] @ s, ps))"

section \<open>Running commands\<close>

text \<open>The flags of the call for \<open>>\<close>: the permissions are given with the flags, where \<^verbatim>\<open>S_IWUSR\<close> is
  \<^verbatim>\<open>O_EXCL\<close>.\<close>

definition O_CREAT :: nat where
  "O_CREAT = 0x40"

definition O_EXCL :: nat where
  "O_EXCL = 0x80"

definition S_IRUSR :: nat where
  "S_IRUSR = 0x100"

definition S_IWUSR :: nat where
  "S_IWUSR = 0x80"

definition S_IRWXU :: nat where
  "S_IRWXU = 0x1C0"

definition out_flags :: nat where
  "out_flags = O_CREAT OR 1 OR S_IRUSR OR S_IWUSR OR S_IRWXU"

definition redirect_fd :: "nat \<Rightarrow> nat \<Rightarrow> string option \<Rightarrow> prog \<Rightarrow> prog" where
  "redirect_fd fd flags name k = (case name of
       None \<Rightarrow> k
     | Some f \<Rightarrow> Open f flags (\<lambda>r. Close fd (if r < 0 then Exit else Dup (nat r) k)))"

text \<open>When \<^verbatim>\<open>execvp\<close> fails, the loop of the shell leaves the child.\<close>

definition execute_child :: "cmdLine \<Rightarrow> prog" where
  "execute_child c = redirect_fd 0 0 (inputRedirect c) (redirect_fd 1 out_flags (outputRedirect c)
     (Exec (hd (arguments c)) (arguments c) Exit))"

definition execute :: "cmdLine \<Rightarrow> prog \<Rightarrow> prog" where
  "execute c k = Fork Exit (execute_child c) (if blocking c then Wait k else k)"

text \<open>The code does not test the results of \<^verbatim>\<open>pipe\<close>, \<^verbatim>\<open>fork\<close> and \<^verbatim>\<open>execvp\<close>: a child whose program
  cannot be executed goes on as the shell. Without a pipe its descriptors are undefined, which the
  model leaves out.\<close>

definition executePipe :: "cmdLine \<Rightarrow> cmdLine \<Rightarrow> prog \<Rightarrow> prog" where
  "executePipe c next k = Pipe (\<lambda>p. case p of
       None \<Rightarrow> Exit
     | Some (p0, p1) \<Rightarrow>
         let waiting = Close p0 (Wait (Wait k));
             right = Close 0 (Dup p0 (Close p0 (Exec (hd (arguments next)) (arguments next) waiting)));
             rest = Close p1 (Fork waiting right waiting)
         in Fork rest (Close 1 (Dup p1 (Close p1 (Exec (hd (arguments c)) (arguments c) rest)))) rest)"

section \<open>The command loop\<close>

record shell =
  varlist :: vars
  mylist :: "process list"

record answers =
  fork_pid :: int
  waits :: "int \<Rightarrow> int \<times> int"
  wait_ok :: bool
  chdir_ok :: bool
  home :: "string option"

text \<open>\<open>Next\<close>: the shell, what it printed, the signals it sent and the processes it ran. \<open>Leave\<close>: it
  exits, with an error or because of \<^verbatim>\<open>quit\<close>. The texts of \<^verbatim>\<open>perror\<close> and of the debug mode are left
  out.\<close>

datatype result = Next shell string "(int \<times> nat) list" "prog option" | Leave | Crash

definition atoi :: "string \<Rightarrow> int" where
  "atoi s = (let s = dropWhile isspace s;
       (sign, s) = (if s \<noteq> [] \<and> hd s = CHR ''-'' then (-1, tl s) else if s \<noteq> [] \<and> hd s = CHR ''+'' then (1, tl s) else (1, s))
     in sign * foldl (\<lambda>n c. n * 10 + (of_char c - 48)) 0 (takeWhile (\<lambda>c. 48 \<le> (of_char c :: nat) \<and> (of_char c :: nat) \<le> 57) s))"

text \<open>The loop that replaces \<open>~\<close> and \<open>$name\<close> in the arguments behind the first. Cloning a missing
  \<^verbatim>\<open>HOME\<close> crashes.\<close>

definition expand_arg :: "vars \<Rightarrow> string option \<Rightarrow> string \<Rightarrow> (string \<times> string) option" where
  "expand_arg list hm arg = (case (if arg = ''~'' then hm else Some arg) of
       None \<Rightarrow> None
     | Some arg \<Rightarrow> (if arg \<noteq> [] \<and> hd arg = CHR ''$'' then (case getvalue list (tl arg) of
           Some v \<Rightarrow> Some (v, [])
         | None \<Rightarrow> Some (arg, ''no such var''))
       else Some (arg, [])))"

primrec expand_args :: "vars \<Rightarrow> string option \<Rightarrow> string list \<Rightarrow> (string list \<times> string) option" where
  "expand_args list hm [] = Some ([], [])"
| "expand_args list hm (arg # args) = (case expand_arg list hm arg of
       None \<Rightarrow> None
     | Some (arg, s) \<Rightarrow> map_option (\<lambda>(args, t). (arg # args, s @ t)) (expand_args list hm args))"

text \<open>The commands that the shell does itself, and the others. \<open>SIGINT\<close> is 2, \<open>SIGCONT\<close> 18 and
  \<open>SIGTSTP\<close> 20.\<close>

definition signal_command :: "shell \<Rightarrow> string list \<Rightarrow> nat \<Rightarrow> int \<Rightarrow> result" where
  "signal_command sh args sig s =
     (if length args < 2 then Crash
      else Next (sh\<lparr>mylist := updateProcessStatus (mylist sh) (atoi (args ! 1)) s\<rparr>) [] [(atoi (args ! 1), sig)] None)"

definition command :: "answers \<Rightarrow> cmdLine \<Rightarrow> cmdLine list \<Rightarrow> shell \<Rightarrow> result" where
  "command a c next sh =
     (let args = arguments c in
      if args = [] then Crash
      else if hd args = ''quit'' then Leave
      else if hd args = ''cd'' then (if length args < 2 \<or> \<not> chdir_ok a then Leave else Next sh [] [] None)
      else if hd args = ''procs'' then (let (s, ps) = printProcessList (waits a) (mylist sh) in Next (sh\<lparr>mylist := ps\<rparr>) s [] None)
      else if hd args = ''suspend'' then signal_command sh args 20 SUSPENDED
      else if hd args = ''kill'' then signal_command sh args 2 TERMINATED
      else if hd args = ''wake'' then signal_command sh args 18 RUNNING
      else if hd args = ''set'' then
        (if length args < 3 then Crash else Next (sh\<lparr>varlist := addVar (varlist sh) (args ! 1) (args ! 2)\<rparr>) [] [] None)
      else if hd args = ''vars'' then Next sh (printVars (varlist sh)) [] None
      else if hd args = ''delete'' then
        (if length args < 2 then (if varlist sh = [] then Next sh [] [] None else Crash)
         else Next (sh\<lparr>varlist := delete_var (varlist sh) (args ! 1)\<rparr>) [] [] None)
      else if next = [] then
        (if fork_pid a = -1 \<or> blocking c \<and> \<not> wait_ok a then Leave
         else Next (sh\<lparr>mylist := addProcess (mylist sh) c (fork_pid a)\<rparr>) [] [] (Some (execute c Exit)))
      else Next sh [] [] (Some (executePipe c (hd next) Exit)))"

text \<open>One round: the line that \<^verbatim>\<open>fgets\<close> read is parsed, its arguments are expanded, and it is run. An
  empty line parses to a null pointer.\<close>

definition round :: "answers \<Rightarrow> string \<Rightarrow> shell \<Rightarrow> result" where
  "round a buf sh = (case parseCmdLines buf of
       [] \<Rightarrow> Crash
     | c # next \<Rightarrow> (case (arguments c) of
         [] \<Rightarrow> Crash
       | arg # args \<Rightarrow> (case expand_args (varlist sh) (home a) args of
           None \<Rightarrow> Crash
         | Some (args, text1) \<Rightarrow> (case command a (c\<lparr>arguments := arg # args\<rparr>) next sh of
             Next sh text2 sigs p \<Rightarrow> Next sh (text1 @ text2) sigs p
           | r \<Rightarrow> r))))"

section \<open>The variables are a map\<close>

lemma getvalue_map_of: "getvalue list = map_of list"
  by (induction list) (auto simp: fun_eq_iff)

lemma addVar_map: "map_of (addVar list n v) = (map_of list)(n \<mapsto> v)"
  by (induction list) (auto simp: fun_eq_iff)

lemma delete_var_map: "map_of (delete_var list n) = (map_of list)(n := None)"
  by (induction list) (auto simp: fun_eq_iff)

lemma addVar_names: "fst ` set (addVar list n v) = insert n (fst ` set list)"
  by (induction list) auto

lemma delete_var_names: "fst ` set (delete_var list n) = fst ` set list - {n}"
  by (induction list) auto

lemma addVar_distinct: "distinct (map fst list) \<Longrightarrow> distinct (map fst (addVar list n v))"
proof (induction list)
  case (Cons a list)
  then show ?case using addVar_names [of list n v] by auto
qed simp

lemma delete_var_distinct: "distinct (map fst list) \<Longrightarrow> distinct (map fst (delete_var list n))"
  by (induction list) (auto simp: delete_var_names)

datatype var_line = SetVar string string | DeleteVar string

text \<open>The rounds of the shell for such lines, and the map they mean.\<close>

definition var_cmd :: "var_line \<Rightarrow> cmdLine" where
  "var_cmd x = \<lparr>arguments = (case x of SetVar n v \<Rightarrow> [''set'', n, v] | DeleteVar n \<Rightarrow> [''delete'', n]),
     inputRedirect = None, outputRedirect = None, blocking = True, idx = 0\<rparr>"

primrec var_rounds :: "answers \<Rightarrow> var_line list \<Rightarrow> shell \<Rightarrow> shell option" where
  "var_rounds a [] sh = Some sh"
| "var_rounds a (x # xs) sh = (case command a (var_cmd x) [] sh of
       Next sh t sigs p \<Rightarrow> var_rounds a xs sh
     | _ \<Rightarrow> None)"

primrec var_meaning :: "var_line list \<Rightarrow> (string \<rightharpoonup> string) \<Rightarrow> string \<rightharpoonup> string" where
  "var_meaning [] m = m"
| "var_meaning (x # xs) m = var_meaning xs (case x of SetVar n v \<Rightarrow> m(n \<mapsto> v) | DeleteVar n \<Rightarrow> m(n := None))"

lemma var_rounds_run:
  "\<exists>sh'. var_rounds a xs sh = Some sh' \<and> mylist sh' = mylist sh \<and>
     map_of (varlist sh') = var_meaning xs (map_of (varlist sh)) \<and>
     (distinct (map fst (varlist sh)) \<longrightarrow> distinct (map fst (varlist sh')))"
proof (induction xs arbitrary: sh)
  case (Cons x xs)
  show ?case
  proof (cases x)
    case (SetVar n v)
    then have c: "command a (var_cmd x) [] sh = Next (sh\<lparr>varlist := addVar (varlist sh) n v\<rparr>) [] [] None"
      by (simp add: command_def var_cmd_def)
    show ?thesis
      using Cons.IH [of "sh\<lparr>varlist := addVar (varlist sh) n v\<rparr>"] SetVar addVar_distinct [of "varlist sh" n v]
      unfolding var_rounds.simps c result.case by (auto simp: addVar_map simp del: fun_upd_apply)
  next
    case (DeleteVar n)
    then have c: "command a (var_cmd x) [] sh = Next (sh\<lparr>varlist := delete_var (varlist sh) n\<rparr>) [] [] None"
      by (simp add: command_def var_cmd_def)
    show ?thesis
      using Cons.IH [of "sh\<lparr>varlist := delete_var (varlist sh) n\<rparr>"] DeleteVar delete_var_distinct [of "varlist sh" n]
      unfolding var_rounds.simps c result.case by (auto simp: delete_var_map simp del: fun_upd_apply)
  qed
qed simp

text \<open>C26: the variables refine a map. After any lines \<open>set\<close> and \<open>delete\<close>, \<open>$name\<close> in an argument expands
  to the value that name was last set to, if it has not been deleted since, and stays as it is
  otherwise; no name is listed twice.\<close>

theorem variables_refine_map:
  "\<exists>sh'. var_rounds a xs \<lparr>varlist = [], mylist = ps\<rparr> = Some sh' \<and> distinct (map fst (varlist sh')) \<and>
    expand_arg (varlist sh') (home a) (CHR ''$'' # name) =
      (case var_meaning xs Map.empty name of Some v \<Rightarrow> Some (v, []) | None \<Rightarrow> Some (CHR ''$'' # name, ''no such var''))"
proof -
  obtain sh' where "var_rounds a xs \<lparr>varlist = [], mylist = ps\<rparr> = Some sh'"
      "map_of (varlist sh') = var_meaning xs Map.empty" "distinct (map fst (varlist sh'))"
    using var_rounds_run [of a xs "\<lparr>varlist = [], mylist = ps\<rparr>"] by auto
  then show ?thesis
    by (intro exI [of _ sh']) (simp add: expand_arg_def getvalue_map_of)
qed

section \<open>What a command runs\<close>

text \<open>The descriptors of the program: a redirection replaces descriptor 0 or 1, and the file stays open
  in the descriptor that \<^verbatim>\<open>open\<close> gave it.\<close>

definition in_fds :: "(string \<Rightarrow> nat \<Rightarrow> ofile option) \<Rightarrow> cmdLine \<Rightarrow> fds \<Rightarrow> fds option" where
  "in_fds opens c fds = (case inputRedirect c of
       None \<Rightarrow> Some fds
     | Some f \<Rightarrow> map_option (\<lambda>x. fds(3 \<mapsto> x, 0 \<mapsto> x)) (opens f 0))"

definition out_fds :: "(string \<Rightarrow> nat \<Rightarrow> ofile option) \<Rightarrow> cmdLine \<Rightarrow> fds \<Rightarrow> fds option" where
  "out_fds opens c fds = (case outputRedirect c of
       None \<Rightarrow> Some fds
     | Some f \<Rightarrow> map_option (\<lambda>x. fds((if inputRedirect c = None then 3 else 4) \<mapsto> x, 1 \<mapsto> x)) (opens f 0x1C1))"

lemma out_flags_value: "out_flags = 0x1C1"
  by (simp add: out_flags_def O_CREAT_def S_IRUSR_def S_IWUSR_def S_IRWXU_def)

text \<open>They ask for a new file: an existing one cannot be opened.\<close>

lemma out_flags_exclusive: "out_flags AND O_CREAT \<noteq> 0" "out_flags AND O_EXCL \<noteq> 0"
  by (simp_all add: out_flags_value O_CREAT_def O_EXCL_def)

lemma std_fds_Some: "std_fds fds \<Longrightarrow> (\<exists>y. fds n = Some y) = (n < 3)"
  unfolding std_fds_def by (metis not_None_eq not_le)

lemma redirect_run:
  assumes n: "n < NOFILE" "fds n = None" "\<forall>m < n. fds m \<noteq> None" and fd: "fd < n"
  shows "execs opens (redirect_fd fd flags (Some f) k) fds j = (case opens f flags of
      None \<Rightarrow> ([], j)
    | Some x \<Rightarrow> execs opens k (fds(n \<mapsto> x, fd \<mapsto> x)) j)"
proof (cases "opens f flags")
  case (Some x)
  have l: "lowest fds = Some n" by (rule lowest_eq [OF n])
  have "lowest (fds(n := Some x, fd := None)) = Some fd"
    by (rule lowest_eq) (use n fd in auto)
  moreover have "(fds(n := Some x, fd := None)) n = Some x" using fd by simp
  ultimately show ?thesis using Some l by (simp add: redirect_fd_def del: fun_upd_apply)
qed (simp add: redirect_fd_def)

text \<open>C25: a command that is not in a pipe runs its program with its arguments, on the descriptors of
  the shell with the redirected ones replaced; if a file cannot be opened nothing runs.\<close>

theorem execute_runs_program:
  assumes std: "std_fds fds"
  shows "execs opens (execute c Exit) fds k =
    (case in_fds opens c fds of None \<Rightarrow> ([], k)
     | Some fds1 \<Rightarrow> (case out_fds opens c fds1 of None \<Rightarrow> ([], k)
         | Some fds2 \<Rightarrow> ([(hd (arguments c), arguments c, fds2)], k)))"
proof -
  have "execs opens (execute c Exit) fds k = execs opens (execute_child c) fds k"
    by (simp add: execute_def split_def)
  moreover have o: "execs opens (redirect_fd 1 out_flags (outputRedirect c) (Exec p as Exit)) fds1 k =
      (case out_fds opens c fds1 of None \<Rightarrow> ([], k) | Some fds2 \<Rightarrow> ([(p, as, fds2)], k))"
    if "in_fds opens c fds = Some fds1" for fds1 p as
  proof (cases "outputRedirect c")
    case (Some f)
    let ?n = "if inputRedirect c = None then 3 else (4 :: nat)"
    have "fds1 ?n = None" "\<forall>m < ?n. fds1 m \<noteq> None" "?n < NOFILE" "1 < ?n"
      using that std_fds_Some [OF std] std_fds_None [OF std]
      by (auto simp: in_fds_def NOFILE_def split: option.splits if_splits)
    then have "execs opens (redirect_fd 1 out_flags (Some f) (Exec p as Exit)) fds1 k =
        (case opens f out_flags of None \<Rightarrow> ([], k) | Some x \<Rightarrow> execs opens (Exec p as Exit) (fds1(?n \<mapsto> x, 1 \<mapsto> x)) k)"
      by (intro redirect_run)
    then show ?thesis using Some by (simp add: out_fds_def out_flags_value split: option.split)
  qed (simp add: redirect_fd_def out_fds_def)
  moreover have "execs opens (redirect_fd 0 0 (inputRedirect c) q) fds k =
      (case in_fds opens c fds of None \<Rightarrow> ([], k) | Some fds1 \<Rightarrow> execs opens q fds1 k)" for q
  proof (cases "inputRedirect c")
    case (Some f)
    then show ?thesis
      using redirect_run [of 3 fds 0 opens 0 f q k] std_fds_None [OF std, of 3] std_fds_Some [OF std]
      by (auto simp: in_fds_def NOFILE_def split: option.split)
  qed (simp add: redirect_fd_def in_fds_def)
  ultimately show ?thesis by (simp add: execute_child_def split: option.split)
qed

theorem execute_runs_program_witness:
  "execs (\<lambda>f m. if f = ''out'' then Some (Named f m) else None)
     (execute \<lparr>arguments = [''ls'', ''-l''], inputRedirect = None, outputRedirect = Some ''out'', blocking = True, idx = 0\<rparr> Exit)
     [0 \<mapsto> Terminal, 1 \<mapsto> Terminal, 2 \<mapsto> Terminal] 7 =
   ([(''ls'', [''ls'', ''-l''], [0 \<mapsto> Terminal, 1 \<mapsto> Named ''out'' 0x1C1, 2 \<mapsto> Terminal, 3 \<mapsto> Named ''out'' 0x1C1])], 7)"
proof -
  have std: "std_fds [0 \<mapsto> Terminal, 1 \<mapsto> Terminal, 2 \<mapsto> Terminal]"
    by (auto simp: std_fds_def)
  show ?thesis
    unfolding execute_runs_program [OF std] by (auto simp: in_fds_def out_fds_def fun_eq_iff)
qed

text \<open>In a pipe the left program keeps the read end of the pipe as descriptor 3, so it is not told when
  the right one has stopped reading.\<close>

lemma executePipe_leaks:
  assumes std: "std_fds fds"
  shows "execs opens (executePipe c next Exit) fds k =
    ([(hd (arguments c), arguments c, fds(1 \<mapsto> PipeWrite k, 3 \<mapsto> PipeRead k)),
      (hd (arguments next), arguments next, fds(0 \<mapsto> PipeRead k))], k + 1)"
proof -
  let ?f = "fds(3 := Some (PipeRead k), 4 := Some (PipeWrite k))"
  define f1 f2 where "f1 = ?f(1 := None)" and "f2 = fds(3 := Some (PipeRead k), 4 := None, 0 := None)"
  note none = std_fds_None [OF std, of 3] std_fds_None [OF std, of 4]
  have low: "lowest f1 = Some 1" "lowest f2 = Some 0"
    unfolding f1_def f2_def by (rule lowest_eq; use std in \<open>auto simp: std_fds_def NOFILE_def\<close>)+
  have fd: "f1 4 = Some (PipeWrite k)" "f2 3 = Some (PipeRead k)" by (simp_all add: f1_def f2_def)
  have u: "f1(1 := Some (PipeWrite k), 4 := None) = fds(1 \<mapsto> PipeWrite k, 3 \<mapsto> PipeRead k)"
    "f2(0 := Some (PipeRead k), 3 := None) = fds(0 \<mapsto> PipeRead k)"
    unfolding f1_def f2_def using none by (auto simp: fun_eq_iff)
  have "execs opens (Dup 4 (Close 4 (Exec p as q))) f1 j = ([(p, as, fds(1 \<mapsto> PipeWrite k, 3 \<mapsto> PipeRead k))], j)"
    for p as q j using low(1) fd(1) u(1) by (simp del: fun_upd_apply)
  then have left: "execs opens (Close 1 (Dup 4 (Close 4 (Exec p as q)))) ?f j =
      ([(p, as, fds(1 \<mapsto> PipeWrite k, 3 \<mapsto> PipeRead k))], j)" for p as q j
    by (simp add: f1_def del: fun_upd_apply execs.simps(7))
  have "execs opens (Dup 3 (Close 3 (Exec p as q))) f2 j = ([(p, as, fds(0 \<mapsto> PipeRead k))], j)"
    for p as q j using low(2) fd(2) u(2) by (simp del: fun_upd_apply)
  then have right: "execs opens (Close 0 (Dup 3 (Close 3 (Exec p as q)))) (fds(3 := Some (PipeRead k), 4 := None)) j =
      ([(p, as, fds(0 \<mapsto> PipeRead k))], j)" for p as q j
    by (simp add: f2_def del: fun_upd_apply execs.simps(7))
  have wait: "execs opens (Close 3 (Wait (Wait Exit))) f j = ([], j)" for f j by simp
  have close: "execs opens (Close 4 q) ?f j = execs opens q (fds(3 := Some (PipeRead k), 4 := None)) j" for q j by simp
  show ?thesis
    using lowest_std [OF std] lowest_std_pipe [OF std]
    by (simp add: executePipe_def Let_def left right wait close del: fun_upd_apply fun_upd_upd execs.simps(3,7) One_nat_def)
qed

text \<open>A process that ended with exit status 0 is first listed as suspended.\<close>

lemma finished_is_listed_suspended:
  assumes "w (pid p) = (pid p, 0)" "0 < pid p"
  shows "status (update_process w p) = SUSPENDED"
  using assms by (simp add: update_process_def WIFSTOPPED_def WIFCONTINUED_def SUSPENDED_def)

lemma empty_line_crashes: "isEmpty buf \<Longrightarrow> round a buf sh = Crash"
  by (simp add: round_def parseCmdLines_def)

text \<open>\<^verbatim>\<open>procs\<close> drops exactly the processes that have terminated.\<close>

lemma procs_keeps_live:
  "snd (printProcessList w ps) = filter (\<lambda>p. status p \<noteq> TERMINATED) (map (update_process w) ps)"
proof -
  have "snd (print_processes qs) = filter (\<lambda>p. status p \<noteq> TERMINATED) qs" for qs
    by (induction qs) (simp_all add: split_def Let_def)
  then show ?thesis by (simp add: printProcessList_def updateProcessList_def split_def Let_def)
qed

end
