(* ===== verification/Elfview.thy ===== *)
theory Elfview
  imports Console "HOL-Library.Monad_Syntax"
begin

text \<open>
  The ELF viewer of lab 8 (\<^verbatim>\<open>lab8/submit/task3.c\<close>): a program of the host that maps a 32-bit ELF file
  into memory and prints its header, sections, symbols and relocations. The file is a list of bytes;
  an access outside of it (which reads zeros or traps, depending on where its last page ends), or
  the use of a pointer that was not set, is the outcome \<open>None\<close>. Opening and mapping the file
  succeed. A builder of ELF files states what the listings mean: \<open>SecName_lists_sections\<close>,
  \<open>printSym_lists_symbols\<close>; \<open>sym_line_reads_past_headers\<close> says when a
  symbol makes it read behind the section headers.
\<close>

section \<open>Access to the file\<close>

definition rd8 :: "byte list \<Rightarrow> nat \<Rightarrow> byte option" where
  "rd8 f a = (if a < length f then Some (f ! a) else None)"

definition rd16 :: "byte list \<Rightarrow> nat \<Rightarrow> u16 option" where
  "rd16 f a = (if a + 2 \<le> length f then Some (un16 (slice a 2 f)) else None)"

definition rd32 :: "byte list \<Rightarrow> nat \<Rightarrow> u32 option" where
  "rd32 f a = (if a + 4 \<le> length f then Some (un32 (slice a 4 f)) else None)"

text \<open>A string ends at its NUL.\<close>

definition rdstr :: "byte list \<Rightarrow> nat \<Rightarrow> byte list option" where
  "rdstr f a = (if 0 \<in> set (drop a f) then Some (takeWhile (\<lambda>c. c \<noteq> 0) (drop a f)) else None)"

abbreviation SHT_SYMTAB :: u32 where "SHT_SYMTAB \<equiv> 2"
abbreviation SHT_REL :: u32 where "SHT_REL \<equiv> 9"
abbreviation SHT_DYNSYM :: u32 where "SHT_DYNSYM \<equiv> 11"

definition e_shnum :: "byte list \<Rightarrow> u16 option" where "e_shnum f = rd16 f 48"

text \<open>The field at offset \<open>k\<close> of the section header \<open>sh[i]\<close>, and the name of a section.\<close>

definition sh :: "byte list \<Rightarrow> nat \<Rightarrow> nat \<Rightarrow> u32 option" where
  "sh f i k = do { shoff \<leftarrow> rd32 f 32; rd32 f (unat shoff + 40 * i + k) }"

definition sec_name :: "byte list \<Rightarrow> nat \<Rightarrow> byte list option" where
  "sec_name f i = do {
     strndx \<leftarrow> rd16 f 50;
     stroff \<leftarrow> sh f (unat strndx) 16;
     name \<leftarrow> sh f i 0;
     rdstr f (unat stroff + unat name) }"

section \<open>Printing\<close>

definition hex :: "u32 \<Rightarrow> byte list" where "hex w = printint_text w 16 False"
definition dec :: "u32 \<Rightarrow> byte list" where "dec w = printint_text w 10 True"
definition hex_alt :: "u32 \<Rightarrow> byte list" where "hex_alt w = (if w = 0 then hex w else str ''0x'' @ hex w)"
definition hex_left :: "nat \<Rightarrow> u32 \<Rightarrow> byte list" where "hex_left n w = hex w @ replicate (n - length (hex w)) 32"

definition tabbed :: "byte list list \<Rightarrow> byte list" where
  "tabbed xs = concat (map (\<lambda>x. x @ [9]) (butlast xs)) @ last xs @ [10]"

section \<open>The functions of the menu\<close>

definition exemainElf :: "byte list \<Rightarrow> byte list option" where
  "exemainElf f = do {
     entry \<leftarrow> rd32 f 24;
     i0 \<leftarrow> rd8 f 0; i1 \<leftarrow> rd8 f 1; i2 \<leftarrow> rd8 f 2;
     shoff \<leftarrow> rd32 f 32;
     shnum \<leftarrow> e_shnum f;
     shentsize \<leftarrow> rd16 f 46;
     phoff \<leftarrow> rd32 f 28;
     phnum \<leftarrow> rd16 f 44;
     phentsize \<leftarrow> rd16 f 42;
     Some (hex_alt entry @ [10] @ hex (ucast i0) @ [32] @ hex (ucast i1) @ [32] @ hex (ucast i2) @ [10] @
       dec shoff @ [10] @ dec (ucast shnum) @ [10] @ dec (ucast shentsize) @ [10] @ dec phoff @ [10] @
       dec (ucast phnum) @ [10] @ dec (ucast phentsize) @ [10]) }"

definition sec_line :: "byte list \<Rightarrow> nat \<Rightarrow> byte list option" where
  "sec_line f i = do {
     name \<leftarrow> sec_name f i;
     addr \<leftarrow> sh f i 12; off \<leftarrow> sh f i 16; size0 \<leftarrow> sh f i 20; type \<leftarrow> sh f i 4;
     Some (tabbed [dec (of_nat i), name, hex addr, hex off, hex size0, dec type]) }"

definition SecName :: "byte list \<Rightarrow> byte list option" where
  "SecName f = do {
     shnum \<leftarrow> e_shnum f;
     strndx \<leftarrow> rd16 f 50;
     _ \<leftarrow> sh f (unat strndx) 16;
     ls \<leftarrow> those (map (sec_line f) [0..<unat shnum]);
     Some (str ''section'' @ [10] @ concat ls) }"

definition sym_line :: "byte list \<Rightarrow> nat \<Rightarrow> nat \<Rightarrow> nat \<Rightarrow> byte list option" where
  "sym_line f symt symStr j = do {
     shndx \<leftarrow> rd16 f (symt + 16 * j + 14);
     shnum \<leftarrow> e_shnum f;
     val \<leftarrow> rd32 f (symt + 16 * j + 4);
     where0 \<leftarrow> (if shndx \<le> shnum then sec_name f (unat shndx) else Some (str ''NULL''));
     nm \<leftarrow> rd32 f (symt + 16 * j);
     name \<leftarrow> rdstr f (symStr + unat nm);
     Some (tabbed [dec (of_nat j) @ str '':'', hex val, dec (ucast shndx), where0, name]) }"

definition sym_section :: "byte list \<Rightarrow> nat \<Rightarrow> byte list option" where
  "sym_section f i = do {
     type \<leftarrow> sh f i 4;
     if type = SHT_DYNSYM \<or> type = SHT_SYMTAB then do {
       symStr \<leftarrow> sh f (i + 1) 16;
       symt \<leftarrow> sh f i 16;
       name \<leftarrow> sec_name f i;
       size0 \<leftarrow> sh f i 20;
       ls \<leftarrow> those (map (sym_line f (unat symt) (unat symStr)) [0..<unat size0 div 16]);
       Some (name @ [10] @ concat ls) }
     else Some [] }"

definition printSym :: "byte list \<Rightarrow> byte list option" where
  "printSym f = do {
     strndx \<leftarrow> rd16 f 50;
     _ \<leftarrow> sh f (unat strndx) 16;
     shnum \<leftarrow> e_shnum f;
     ls \<leftarrow> those (map (sym_section f) [0..<unat shnum]);
     Some (concat ls) }"

text \<open>The sections of type \<^verbatim>\<open>SHT_REL\<close> with their entries; \<open>line\<close> prints one.\<close>

definition rel_section :: "byte list \<Rightarrow> (u32 \<Rightarrow> u32 \<Rightarrow> byte list option) \<Rightarrow> nat \<Rightarrow> byte list option" where
  "rel_section f pr i = do {
     type \<leftarrow> sh f i 4;
     if type = SHT_REL then do {
       _ \<leftarrow> sh f (i + 1) 16;
       rel \<leftarrow> sh f i 16;
       name \<leftarrow> sec_name f i;
       size0 \<leftarrow> sh f i 20;
       ls \<leftarrow> those (map (\<lambda>j. do { off \<leftarrow> rd32 f (unat rel + 8 * j); info \<leftarrow> rd32 f (unat rel + 8 * j + 4); pr off info })
         [0..<unat size0 div 8]);
       Some (name @ [10] @ concat ls) }
     else Some [] }"

definition rel_sections :: "byte list \<Rightarrow> (u32 \<Rightarrow> u32 \<Rightarrow> byte list option) \<Rightarrow> byte list option" where
  "rel_sections f pr = do {
     strndx \<leftarrow> rd16 f 50;
     _ \<leftarrow> sh f (unat strndx) 16;
     shnum \<leftarrow> e_shnum f;
     ls \<leftarrow> those (map (rel_section f pr) [0..<unat shnum]);
     Some (concat ls) }"

definition linkChk :: "byte list \<Rightarrow> byte list option" where
  "linkChk f = rel_sections f (\<lambda>off info. Some (tabbed [hex_left 8 off, hex_left 8 info]))"

text \<open>The first section of dynamic symbols: where it and its strings begin.\<close>

fun find_dyn :: "byte list \<Rightarrow> nat list \<Rightarrow> (nat \<times> nat) option option" where
  "find_dyn f [] = Some None"
| "find_dyn f (i # is) = do {
     type \<leftarrow> sh f i 4;
     if type = SHT_DYNSYM then do { dyn \<leftarrow> sh f i 16; symStr \<leftarrow> sh f (i + 1) 16; Some (Some (unat dyn, unat symStr)) }
     else find_dyn f is }"

definition relTable :: "byte list \<Rightarrow> byte list option" where
  "relTable f = do {
     shnum \<leftarrow> e_shnum f;
     dyn \<leftarrow> find_dyn f [0..<unat shnum];
     rel_sections f (\<lambda>off info. do {
       (d, symStr) \<leftarrow> dyn;
       val \<leftarrow> rd32 f (d + 16 * unat (drop_bit 8 info) + 4);
       nm \<leftarrow> rd32 f (d + 16 * unat (drop_bit 8 info));
       name \<leftarrow> rdstr f (symStr + unat nm);
       Some (tabbed [hex off, hex info, hex val, name]) }) }"

section \<open>Building a file\<close>

text \<open>A section header is a list of ten words: name, type, flags, address, offset, size, link, info,
  alignment and entry size. A file has its section headers right behind the ELF header.\<close>

definition word_bytes :: "u32 list \<Rightarrow> byte list" where
  "word_bytes ws = concat (map le32 ws)"

definition elf_header :: "byte list \<Rightarrow> u32 \<Rightarrow> u32 \<Rightarrow> u32 \<Rightarrow> u16 \<Rightarrow> u16 \<Rightarrow> nat \<Rightarrow> u16 \<Rightarrow> byte list" where
  "elf_header ident start phoff flags phentsize phnum shnum strndx =
     ident @ le32 start @ le32 phoff @ le32 52 @ le32 flags @ le16 52 @ le16 phentsize @ le16 phnum @ le16 40 @
     le16 (of_nat shnum) @ le16 strndx"

text \<open>The string at an offset of the file.\<close>

definition string_at :: "byte list \<Rightarrow> nat \<Rightarrow> byte list \<Rightarrow> bool" where
  "string_at f a s \<longleftrightarrow> 0 \<notin> set s \<and> slice a (length s + 1) f = s @ [0]"

text \<open>\<open>holds_sections f strndx secs names\<close>: \<open>f\<close> is a file with the section headers \<open>secs\<close>, whose names are
  \<open>names\<close>.\<close>

definition holds_sections :: "byte list \<Rightarrow> nat \<Rightarrow> u32 list list \<Rightarrow> byte list list \<Rightarrow> bool" where
  "holds_sections f strndx secs names \<longleftrightarrow>
     length names = length secs \<and> length secs < 2 ^ 16 \<and> strndx < length secs \<and>
     rd16 f 48 = Some (of_nat (length secs)) \<and> rd16 f 50 = Some (of_nat strndx) \<and>
     (\<forall>i < length secs. \<forall>k < 10. sh f i (4 * k) = Some (secs ! i ! k)) \<and>
     (\<forall>i < length secs. string_at f (unat (secs ! strndx ! 4) + unat (secs ! i ! 0)) (names ! i))"

lemma rd32_le32: "length pre = a \<Longrightarrow> rd32 (pre @ le32 w @ post) a = Some w"
  by (auto simp: rd32_def slice_def)

lemma rd16_le16: "length pre = a \<Longrightarrow> rd16 (pre @ le16 w @ post) a = Some w"
  by (auto simp: rd16_def slice_def)

lemma length_word_bytes [simp]: "length (word_bytes ws) = 4 * length ws"
  by (induction ws) (auto simp: word_bytes_def)

lemma rd32_word_bytes:
  assumes "k < length ws" "length pre = a"
  shows "rd32 (pre @ word_bytes ws @ post) (a + 4 * k) = Some (ws ! k)"
proof -
  have "pre @ word_bytes ws @ post = (pre @ word_bytes (take k ws)) @ le32 (ws ! k) @ word_bytes (drop (Suc k) ws) @ post"
    by (subst (1) id_take_nth_drop [OF assms(1)]) (simp add: word_bytes_def)
  then show ?thesis
    using assms by (simp only:) (rule rd32_le32, simp)
qed

lemma nth_concat_tens:
  "\<forall>ws \<in> set secs. length ws = 10 \<Longrightarrow> i < length secs \<Longrightarrow> k < 10 \<Longrightarrow> concat secs ! (10 * i + k) = secs ! i ! k"
proof (induction secs arbitrary: i)
  case (Cons ws secs)
  then show ?case
    by (cases i) (auto simp: nth_append)
qed simp

lemma length_concat_tens: "\<forall>ws \<in> set secs. length ws = 10 \<Longrightarrow> length (concat secs) = 10 * length secs"
  by (induction secs) auto

lemma rdstr_string_at: "string_at f a s \<Longrightarrow> rdstr f a = Some s"
proof -
  assume "string_at f a s"
  then have nz: "0 \<notin> set s" and eq: "take (length s + 1) (drop a f) = s @ [0]"
    by (auto simp: string_at_def slice_def)
  have "drop a f = (s @ [0]) @ drop (length s + 1) (drop a f)"
    using eq by (metis append_take_drop_id)
  then obtain rest where "drop a f = s @ 0 # rest"
    by auto
  then show ?thesis
    using nz by (auto simp: rdstr_def takeWhile_append2 takeWhile_append)
qed

text \<open>A file with these headers and any bytes behind them holds its sections.\<close>

lemma elf_file_holds:
  assumes "f = elf_header ident start phoff flags phentsize phnum (length secs) (of_nat strndx) @
      word_bytes (concat secs) @ data"
    and "length ident = 24" "length secs < 2 ^ 16" "strndx < length secs" "length names = length secs"
    and tens: "\<forall>ws \<in> set secs. length ws = 10"
    and "\<forall>i < length secs. string_at f (unat (secs ! strndx ! 4) + unat (secs ! i ! 0)) (names ! i)"
  shows "holds_sections f strndx secs names"
proof -
  have shoff: "rd32 f 32 = Some 52"
    using assms(2) rd32_le32 [of "ident @ le32 start @ le32 phoff" 32 52] unfolding assms(1) elf_header_def by simp
  have "rd16 f 48 = Some (of_nat (length secs))"
    using assms(2) rd16_le16 [of "ident @ le32 start @ le32 phoff @ le32 52 @ le32 flags @ le16 52 @ le16 phentsize @
        le16 phnum @ le16 40" 48] unfolding assms(1) elf_header_def by simp
  moreover have "rd16 f 50 = Some (of_nat strndx)"
    using assms(2) rd16_le16 [of "ident @ le32 start @ le32 phoff @ le32 52 @ le32 flags @ le16 52 @ le16 phentsize @
        le16 phnum @ le16 40 @ le16 (of_nat (length secs))" 50] unfolding assms(1) elf_header_def by simp
  moreover have "sh f i (4 * k) = Some (secs ! i ! k)" if "i < length secs" "k < 10" for i k
  proof -
    have "10 * i + k < length (concat secs)"
      using that by (simp add: length_concat_tens [OF tens])
    moreover have "length (elf_header ident start phoff flags phentsize phnum (length secs) (of_nat strndx)) = 52"
      using assms(2) by (simp add: elf_header_def)
    ultimately have "rd32 f (52 + 4 * (10 * i + k)) = Some (concat secs ! (10 * i + k))"
      unfolding assms(1) by (rule rd32_word_bytes)
    then have "rd32 f (52 + 40 * i + 4 * k) = Some (secs ! i ! k)"
      using that by (simp add: nth_concat_tens [OF tens] add_mult_distrib2 add.assoc)
    then show ?thesis
      by (simp add: sh_def shoff)
  qed
  ultimately show ?thesis
    using assms(3-5,7) by (simp add: holds_sections_def)
qed

section \<open>The listings\<close>

lemma holds_sh:
  assumes "holds_sections f strndx secs names" "i < length secs"
  shows "sh f i 0 = Some (secs ! i ! 0)" "sh f i 4 = Some (secs ! i ! 1)" "sh f i 12 = Some (secs ! i ! 3)"
    "sh f i 16 = Some (secs ! i ! 4)" "sh f i 20 = Some (secs ! i ! 5)"
proof -
  have "sh f i (4 * k) = Some (secs ! i ! k)" if "k < 10" for k
    using assms that by (simp add: holds_sections_def)
  from this [of 0] this [of 1] this [of 3] this [of 4] this [of 5] show
    "sh f i 0 = Some (secs ! i ! 0)" "sh f i 4 = Some (secs ! i ! 1)" "sh f i 12 = Some (secs ! i ! 3)"
    "sh f i 16 = Some (secs ! i ! 4)" "sh f i 20 = Some (secs ! i ! 5)"
    by simp_all
qed

lemma holds_header:
  assumes "holds_sections f strndx secs names"
  shows "e_shnum f = Some (of_nat (length secs))" "unat (of_nat (length secs) :: u16) = length secs"
    "rd16 f 50 = Some (of_nat strndx)" "unat (of_nat strndx :: u16) = strndx" "strndx < length secs"
  using assms by (auto simp: holds_sections_def e_shnum_def unat_of_nat take_bit_nat_eq_self)

lemma holds_sec_name:
  assumes "holds_sections f strndx secs names" "i < length secs"
  shows "sec_name f i = Some (names ! i)"
  using assms holds_sh(1) [OF assms] holds_sh(4) [OF assms(1) holds_header(5) [OF assms(1)]]
    rdstr_string_at [of f "unat (secs ! strndx ! 4) + unat (secs ! i ! 0)" "names ! i"]
  by (simp add: sec_name_def holds_header [OF assms(1)]) (simp add: holds_sections_def)

lemma those_map_Some: "(\<And>x. x \<in> set xs \<Longrightarrow> g x = Some (h x)) \<Longrightarrow> those (map g xs) = Some (map h xs)"
  by (induction xs) auto

text \<open>For each section \<^verbatim>\<open>SecName\<close> prints its number, name, address, offset, size and type.\<close>

theorem SecName_lists_sections:
  assumes "holds_sections f strndx secs names"
  shows "SecName f = Some (str ''section'' @ [10] @ concat (map (\<lambda>i. tabbed [dec (of_nat i), names ! i,
    hex (secs ! i ! 3), hex (secs ! i ! 4), hex (secs ! i ! 5), dec (secs ! i ! 1)]) [0..<length secs]))"
proof -
  note h = holds_header [OF assms]
  have "those (map (sec_line f) [0..<length secs]) = Some (map (\<lambda>i. tabbed [dec (of_nat i), names ! i,
      hex (secs ! i ! 3), hex (secs ! i ! 4), hex (secs ! i ! 5), dec (secs ! i ! 1)]) [0..<length secs])"
    by (rule those_map_Some) (simp add: sec_line_def holds_sec_name [OF assms] holds_sh [OF assms])
  then show ?thesis
    by (simp add: SecName_def h holds_sh(4) [OF assms h(5)])
qed

text \<open>An entry of a symbol table, as the file holds it.\<close>

record elf_sym =
  st_name :: u32
  st_value :: u32
  st_size :: u32
  st_info :: byte
  st_other :: byte
  st_shndx :: u16

definition sym_bytes :: "elf_sym \<Rightarrow> byte list" where
  "sym_bytes y = le32 (st_name y) @ le32 (st_value y) @ le32 (st_size y) @ [st_info y, st_other y] @ le16 (st_shndx y)"

definition sym_at :: "byte list \<Rightarrow> nat \<Rightarrow> elf_sym \<Rightarrow> bool" where
  "sym_at f a y \<longleftrightarrow> a + 16 \<le> length f \<and> slice a 16 f = sym_bytes y"

lemma slice_slice: "b + m \<le> n \<Longrightarrow> slice b m (slice a n f) = slice (a + b) m f"
  by (simp add: slice_def drop_take add.commute)

lemma sym_at_reads:
  assumes "sym_at f a y"
  shows "rd32 f a = Some (st_name y)" "rd32 f (a + 4) = Some (st_value y)" "rd16 f (a + 14) = Some (st_shndx y)"
proof -
  note y = assms [unfolded sym_at_def]
  have "slice a 4 f = slice 0 4 (sym_bytes y)" "slice (a + 4) 4 f = slice 4 4 (sym_bytes y)"
    "slice (a + 14) 2 f = slice 14 2 (sym_bytes y)"
    using slice_slice [of 0 4 16 a f] slice_slice [of 4 4 16 a f] slice_slice [of 14 2 16 a f] y by simp_all
  moreover have "slice 0 4 (sym_bytes y) = le32 (st_name y)" "slice 4 4 (sym_bytes y) = le32 (st_value y)"
    "slice 14 2 (sym_bytes y) = le16 (st_shndx y)"
    by (simp_all add: sym_bytes_def slice_def le32_def le16_def)
  ultimately have "slice a 4 f = le32 (st_name y)" "slice (a + 4) 4 f = le32 (st_value y)"
    "slice (a + 14) 2 f = le16 (st_shndx y)"
    by simp_all
  then show "rd32 f a = Some (st_name y)" "rd32 f (a + 4) = Some (st_value y)" "rd16 f (a + 14) = Some (st_shndx y)"
    using y by (simp_all add: rd32_def rd16_def)
qed

text \<open>What the line of a symbol shows: its section is NULL for an index that is none.\<close>

definition sym_text :: "byte list list \<Rightarrow> nat \<Rightarrow> elf_sym \<Rightarrow> byte list \<Rightarrow> byte list" where
  "sym_text names j y nm = tabbed [dec (of_nat j) @ str '':'', hex (st_value y), dec (ucast (st_shndx y)),
     if unat (st_shndx y) < length names then names ! unat (st_shndx y) else str ''NULL'', nm]"

lemma sym_line_text:
  assumes "holds_sections f strndx secs names" "sym_at f (symt + 16 * j) y"
    and "string_at f (symStr + unat (st_name y)) nm" "unat (st_shndx y) \<noteq> length secs"
  shows "sym_line f symt symStr j = Some (sym_text names j y nm)"
proof -
  have "length names = length secs"
    using assms(1) by (simp add: holds_sections_def)
  moreover have "st_shndx y \<le> of_nat (length secs) \<longleftrightarrow> unat (st_shndx y) < length secs"
    using assms(4) holds_header(2) [OF assms(1)] by (simp add: word_le_nat_alt le_less)
  ultimately show ?thesis
    using holds_sec_name [OF assms(1), of "unat (st_shndx y)"]
    by (auto simp: sym_line_def sym_at_reads [OF assms(2)] holds_header [OF assms(1)] rdstr_string_at [OF assms(3)]
        sym_text_def)
qed

text \<open>The comparison with the number of sections admits that number: then the name is looked up in a
  header behind the last one, which in a file that ends with its section headers is outside.\<close>

lemma sym_line_reads_past_headers:
  assumes "rd16 f (symt + 16 * j + 14) = Some n" "e_shnum f = Some n" "rd32 f 32 = Some shoff"
    and "length f = unat shoff + 40 * unat n"
  shows "sym_line f symt symStr j = None"
  using assms by (auto simp: sym_line_def sec_name_def sh_def rd32_def split: Option.bind_split)

text \<open>\<^verbatim>\<open>printSym\<close> prints the symbols of all symbol tables, if the strings of a table are the section
  behind it and no symbol has the number of sections for its section. The code does not look at the
  link of the section header (word 6), which is where the format names the section of the strings.\<close>

theorem printSym_lists_symbols:
  assumes "holds_sections f strndx secs names"
    and tabs: "\<And>i. i < length secs \<Longrightarrow> secs ! i ! 1 = SHT_DYNSYM \<or> secs ! i ! 1 = SHT_SYMTAB \<Longrightarrow>
      i + 1 < length secs \<and> length (syms i) = unat (secs ! i ! 5) div 16"
    and entries: "\<And>i j. i < length secs \<Longrightarrow> secs ! i ! 1 = SHT_DYNSYM \<or> secs ! i ! 1 = SHT_SYMTAB \<Longrightarrow> j < length (syms i) \<Longrightarrow>
      sym_at f (unat (secs ! i ! 4) + 16 * j) (syms i ! j) \<and> unat (st_shndx (syms i ! j)) \<noteq> length secs \<and>
      string_at f (unat (secs ! (i + 1) ! 4) + unat (st_name (syms i ! j))) (symnames i j)"
  shows "printSym f = Some (concat (map (\<lambda>i.
    if secs ! i ! 1 = SHT_DYNSYM \<or> secs ! i ! 1 = SHT_SYMTAB
    then names ! i @ [10] @ concat (map (\<lambda>j. sym_text names j (syms i ! j) (symnames i j)) [0..<length (syms i)])
    else []) [0..<length secs]))"
proof -
  note h = holds_header [OF assms(1)]
  let ?tab = "\<lambda>i. secs ! i ! 1 = SHT_DYNSYM \<or> secs ! i ! 1 = SHT_SYMTAB"
  let ?lines = "\<lambda>i. map (\<lambda>j. sym_text names j (syms i ! j) (symnames i j)) [0..<length (syms i)]"
  have "sym_section f i = Some (if ?tab i then names ! i @ [10] @ concat (?lines i) else [])" if i: "i < length secs" for i
  proof (cases "?tab i")
    case True
    have "those (map (sym_line f (unat (secs ! i ! 4)) (unat (secs ! (i + 1) ! 4))) [0..<length (syms i)]) = Some (?lines i)"
      by (rule those_map_Some) (use entries [OF i True] sym_line_text [OF assms(1)] in auto)
    then show ?thesis
      using tabs [OF i True] True
      by (simp add: sym_section_def holds_sh [OF assms(1) i] holds_sec_name [OF assms(1) i]
          holds_sh(4) [OF assms(1), of "i + 1", simplified] del: upt_Suc)
  next
    case False
    then show ?thesis
      by (simp add: sym_section_def holds_sh [OF assms(1) i])
  qed
  then have "those (map (sym_section f) [0..<length secs]) =
      Some (map (\<lambda>i. if ?tab i then names ! i @ [10] @ concat (?lines i) else []) [0..<length secs])"
    by (intro those_map_Some) auto
  then show ?thesis
    by (simp add: printSym_def h holds_sh(4) [OF assms(1) h(5)])
qed

text \<open>The relocations of a section: pairs of an offset and an info word.\<close>

definition rel_at :: "byte list \<Rightarrow> nat \<Rightarrow> u32 \<times> u32 \<Rightarrow> bool" where
  "rel_at f a r \<longleftrightarrow> a + 8 \<le> length f \<and> slice a 8 f = le32 (fst r) @ le32 (snd r)"

definition holds_rels :: "byte list \<Rightarrow> u32 list list \<Rightarrow> (nat \<Rightarrow> (u32 \<times> u32) list) \<Rightarrow> bool" where
  "holds_rels f secs rels \<longleftrightarrow> (\<forall>i < length secs. secs ! i ! 1 = SHT_REL \<longrightarrow>
     i + 1 < length secs \<and> length (rels i) = unat (secs ! i ! 5) div 8 \<and>
     (\<forall>j < length (rels i). rel_at f (unat (secs ! i ! 4) + 8 * j) (rels i ! j)))"

definition rel_text :: "u32 list list \<Rightarrow> byte list list \<Rightarrow> (nat \<Rightarrow> (u32 \<times> u32) list) \<Rightarrow> (u32 \<times> u32 \<Rightarrow> byte list) \<Rightarrow> byte list" where
  "rel_text secs names rels txt = concat (map (\<lambda>i. if secs ! i ! 1 = SHT_REL
     then names ! i @ [10] @ concat (map txt (rels i)) else []) [0..<length secs])"

lemma rel_at_reads:
  assumes "rel_at f a r"
  shows "rd32 f a = Some (fst r)" "rd32 f (a + 4) = Some (snd r)"
proof -
  note r = assms [unfolded rel_at_def]
  have "slice a 4 f = slice 0 4 (le32 (fst r) @ le32 (snd r))" "slice (a + 4) 4 f = slice 4 4 (le32 (fst r) @ le32 (snd r))"
    using slice_slice [of 0 4 8 a f] slice_slice [of 4 4 8 a f] r by simp_all
  then have "slice a 4 f = le32 (fst r)" "slice (a + 4) 4 f = le32 (snd r)"
    by (simp_all add: slice_def)
  then show "rd32 f a = Some (fst r)" "rd32 f (a + 4) = Some (snd r)"
    using r by (simp_all add: rd32_def)
qed

lemma rel_sections_text:
  assumes "holds_sections f strndx secs names" "holds_rels f secs rels"
    and pr: "\<And>i r. i < length secs \<Longrightarrow> secs ! i ! 1 = SHT_REL \<Longrightarrow> r \<in> set (rels i) \<Longrightarrow> pr (fst r) (snd r) = Some (txt r)"
  shows "rel_sections f pr = Some (rel_text secs names rels txt)"
proof -
  note h = holds_header [OF assms(1)]
  have "rel_section f pr i = Some (if secs ! i ! 1 = SHT_REL then names ! i @ [10] @ concat (map txt (rels i)) else [])"
    if i: "i < length secs" for i
  proof (cases "secs ! i ! 1 = SHT_REL")
    case True
    then have r: "i + 1 < length secs" "length (rels i) = unat (secs ! i ! 5) div 8"
      "\<And>j. j < length (rels i) \<Longrightarrow> rel_at f (unat (secs ! i ! 4) + 8 * j) (rels i ! j)"
      using assms(2) i by (auto simp: holds_rels_def)
    have "those (map (\<lambda>j. rd32 f (unat (secs ! i ! 4) + 8 * j) \<bind>
        (\<lambda>off. rd32 f (unat (secs ! i ! 4) + 8 * j + 4) \<bind> pr off)) [0..<length (rels i)]) =
        Some (map (\<lambda>j. txt (rels i ! j)) [0..<length (rels i)])"
      by (rule those_map_Some) (use rel_at_reads [OF r(3)] pr [OF i True] in auto)
    moreover have "map (\<lambda>j. txt (rels i ! j)) [0..<length (rels i)] = map txt (rels i)"
      by (rule nth_equalityI) auto
    ultimately show ?thesis
      using r(1,2) True holds_sh(4) [OF assms(1) r(1)]
      by (simp add: rel_section_def holds_sh [OF assms(1) i] holds_sec_name [OF assms(1) i])
  next
    case False
    then show ?thesis
      by (simp add: rel_section_def holds_sh [OF assms(1) i])
  qed
  then have "those (map (rel_section f pr) [0..<length secs]) =
      Some (map (\<lambda>i. if secs ! i ! 1 = SHT_REL then names ! i @ [10] @ concat (map txt (rels i)) else []) [0..<length secs])"
    by (intro those_map_Some) auto
  then show ?thesis
    by (simp add: rel_sections_def rel_text_def h holds_sh(4) [OF assms(1) h(5)])
qed

lemma linkChk_lists_relocations:
  assumes "holds_sections f strndx secs names" "holds_rels f secs rels"
  shows "linkChk f = Some (rel_text secs names rels (\<lambda>r. tabbed [hex_left 8 (fst r), hex_left 8 (snd r)]))"
  unfolding linkChk_def by (rule rel_sections_text [OF assms]) simp

lemma find_dyn_first:
  assumes "holds_sections f strndx secs names" "set is \<subseteq> {..<length secs}"
    and "find (\<lambda>i. secs ! i ! 1 = SHT_DYNSYM) is = Some d" "d + 1 < length secs"
  shows "find_dyn f is = Some (Some (unat (secs ! d ! 4), unat (secs ! (d + 1) ! 4)))"
  using assms(2,3)
  by (induction "is") (use holds_sh(2,4) [OF assms(1)] assms(4) in \<open>auto split: if_splits\<close>)

text \<open>\<^verbatim>\<open>relTable\<close> gives each relocation with the value and the name of its symbol in the first table of
  dynamic symbols. When relocations exist and no such table does, its pointer is used uninitialised.\<close>

theorem relTable_resolves_symbols:
  assumes "holds_sections f strndx secs names" "holds_rels f secs rels"
    and dyn: "find (\<lambda>i. secs ! i ! 1 = SHT_DYNSYM) [0..<length secs] = Some d" "d + 1 < length secs"
    and syms: "\<And>i r. i < length secs \<Longrightarrow> secs ! i ! 1 = SHT_REL \<Longrightarrow> r \<in> set (rels i) \<Longrightarrow>
      sym_at f (unat (secs ! d ! 4) + 16 * unat (drop_bit 8 (snd r))) (sy (drop_bit 8 (snd r))) \<and>
      string_at f (unat (secs ! (d + 1) ! 4) + unat (st_name (sy (drop_bit 8 (snd r))))) (nm (drop_bit 8 (snd r)))"
  shows "relTable f = Some (rel_text secs names rels (\<lambda>r.
    tabbed [hex (fst r), hex (snd r), hex (st_value (sy (drop_bit 8 (snd r)))), nm (drop_bit 8 (snd r))]))"
proof -
  have "find_dyn f [0..<length secs] = Some (Some (unat (secs ! d ! 4), unat (secs ! (d + 1) ! 4)))"
    by (rule find_dyn_first [OF assms(1) _ dyn]) auto
  moreover have "rel_sections f (\<lambda>off info. Some (unat (secs ! d ! 4), unat (secs ! (d + 1) ! 4)) \<bind> (\<lambda>(d, symStr).
      rd32 f (d + 16 * unat (drop_bit 8 info) + 4) \<bind> (\<lambda>v. rd32 f (d + 16 * unat (drop_bit 8 info)) \<bind>
      (\<lambda>n. rdstr f (symStr + unat n) \<bind> (\<lambda>name. Some (tabbed [hex off, hex info, hex v, name])))))) =
    Some (rel_text secs names rels (\<lambda>r.
      tabbed [hex (fst r), hex (snd r), hex (st_value (sy (drop_bit 8 (snd r)))), nm (drop_bit 8 (snd r))]))"
  proof (rule rel_sections_text [OF assms(1,2)])
    fix i r
    assume "i < length secs" "secs ! i ! 1 = SHT_REL" "r \<in> set (rels i)"
    note y = conjunct1 [OF syms [OF this]] conjunct2 [OF syms [OF this]]
    show "Some (unat (secs ! d ! 4), unat (secs ! (d + 1) ! 4)) \<bind> (\<lambda>(d, symStr).
        rd32 f (d + 16 * unat (drop_bit 8 (snd r)) + 4) \<bind> (\<lambda>v. rd32 f (d + 16 * unat (drop_bit 8 (snd r))) \<bind>
        (\<lambda>n. rdstr f (symStr + unat n) \<bind> (\<lambda>name. Some (tabbed [hex (fst r), hex (snd r), hex v, name]))))) =
      Some (tabbed [hex (fst r), hex (snd r), hex (st_value (sy (drop_bit 8 (snd r)))), nm (drop_bit 8 (snd r))])"
      using rdstr_string_at [OF y(2)] by (simp add: sym_at_reads [OF y(1)])
  qed
  ultimately show ?thesis
    by (simp add: relTable_def holds_header [OF assms(1)])
qed

lemma relTable_needs_dynsym:
  assumes "holds_sections f strndx secs names" "find (\<lambda>i. secs ! i ! 1 = SHT_DYNSYM) [0..<length secs] = None"
  shows "relTable f = rel_sections f (\<lambda>off info. None)"
proof -
  have "find_dyn f is = Some None" if "set is \<subseteq> {..<length secs}" "find (\<lambda>i. secs ! i ! 1 = SHT_DYNSYM) is = None" for "is"
    using that by (induction "is") (use holds_sh(2) [OF assms(1)] in \<open>auto split: if_splits\<close>)
  from this [of "[0..<length secs]"] show ?thesis
    using assms(2) by (simp add: relTable_def holds_header [OF assms(1)] atLeast0LessThan del: find_None_iff)
qed

end
