(* ===== verification/Encoder.thy ===== *)
theory Encoder
  imports Console "HOL-Library.Monad_Syntax"
begin

text \<open>
  The encoder of lab 1 (\<^verbatim>\<open>lab1/task2/main.c\<close>), a program of the host: it copies its input to its
  output in lower case, or adds (\<^verbatim>\<open>+e\<close>) or subtracts (\<^verbatim>\<open>-e\<close>) a repeated key. Reading the key behind its
  end is the outcome \<open>None\<close>; opening a file succeeds, and what \<^verbatim>\<open>-D\<close> prints on the error output is left
  out. The position in the key is a natural number: lines are shorter than \<open>2 ^ 31\<close> characters.
\<close>

section \<open>The options\<close>

record encoder =
  enc_debug :: bool
  enc_mode :: int
  enc_key :: "byte list option"
  enc_size :: nat
  enc_input :: "byte list option"
  enc_output :: "byte list option"

definition enc0 :: encoder where
  "enc0 = \<lparr>enc_debug = False, enc_mode = 0, enc_key = None, enc_size = 0, enc_input = None, enc_output = None\<rparr>"

definition set_key :: "int \<Rightarrow> byte list \<Rightarrow> encoder \<Rightarrow> encoder" where
  "set_key m key c = c\<lparr>enc_mode := m, enc_key := Some key,
     enc_size := (if key = [] then enc_size c else length key - 1)\<rparr>"

text \<open>One argument; the tests are one after the other, and at most one of them holds.\<close>

definition enc_option :: "byte list \<Rightarrow> encoder \<Rightarrow> encoder" where
  "enc_option arg c =
     (let c = (if arg = str ''-D'' then c\<lparr>enc_debug := True\<rparr> else c);
          c = (if take 2 arg = str ''-e'' then set_key (- 1) (drop 2 arg) c else c);
          c = (if take 2 arg = str ''+e'' then set_key 1 (drop 2 arg) c else c);
          c = (if take 2 arg = str ''-i'' then c\<lparr>enc_input := Some (drop 2 arg)\<rparr> else c)
      in if take 2 arg = str ''-o'' then c\<lparr>enc_output := Some (drop 2 arg)\<rparr> else c)"

definition enc_options :: "byte list list \<Rightarrow> encoder" where
  "enc_options argv = fold enc_option argv enc0"

section \<open>The loop\<close>

text \<open>\<^verbatim>\<open>encrypt[counter % (encryptSize + 1)]\<close>; the key is followed by its NUL.\<close>

definition key_at :: "encoder \<Rightarrow> nat \<Rightarrow> byte option" where
  "key_at c n = (case enc_key c of None \<Rightarrow> None | Some key \<Rightarrow>
     (let i = n mod (enc_size c + 1) in if i < length key then Some (key ! i) else if i = length key then Some 0 else None))"

definition lower :: "byte \<Rightarrow> byte" where
  "lower a = (if 65 \<le> a \<and> a \<le> 90 then a + 32 else a)"

text \<open>A character is kept in a \<^verbatim>\<open>char\<close>, in which the byte 255 is EOF.\<close>

fun enc_loop :: "encoder \<Rightarrow> nat \<Rightarrow> byte list \<Rightarrow> byte list option" where
  "enc_loop c n [] = Some []"
| "enc_loop c n (a # as) =
     (if a = 255 then Some []
      else if enc_mode c = 0 then do { out \<leftarrow> enc_loop c n as; Some (lower a # out) }
      else do {
        k \<leftarrow> key_at c n;
        (let a' = (if enc_mode c = 1 then a + k else a - k) in
         if a = 10 then do { out \<leftarrow> enc_loop c 0 as; Some (a' # 10 # out) }
         else do { out \<leftarrow> enc_loop c (n + 1) as; Some (a' # out) }) })"

definition enc_main :: "byte list list \<Rightarrow> (byte list option \<Rightarrow> byte list) \<Rightarrow> byte list option" where
  "enc_main argv contents = (let c = enc_options argv in enc_loop c 0 (contents (enc_input c)))"

section \<open>What it does\<close>

text \<open>Without a key it converts to lower case, up to the first byte 255.\<close>

lemma enc_lower: "enc_mode c = 0 \<Longrightarrow> enc_loop c n xs = Some (map lower (takeWhile (\<lambda>a. a \<noteq> 255) xs))"
  by (induction xs) auto

definition key_char :: "byte list \<Rightarrow> nat \<Rightarrow> byte" where "key_char key n = key ! (n mod length key)"

definition keyed :: "int \<Rightarrow> byte list \<Rightarrow> encoder \<Rightarrow> bool" where
  "keyed m key c \<longleftrightarrow> enc_mode c = m \<and> enc_key c = Some key \<and> enc_size c = length key - 1 \<and> key \<noteq> []"

lemma enc_option_key:
  "key \<noteq> [] \<Longrightarrow> keyed 1 key (enc_option (str ''+e'' @ key) c)"
  "key \<noteq> [] \<Longrightarrow> keyed (- 1) key (enc_option (str ''-e'' @ key) c)"
  by (auto simp: keyed_def enc_option_def set_key_def str_def Let_def)

lemma key_at_keyed: "keyed m key c \<Longrightarrow> key_at c n = Some (key_char key n)"
  by (auto simp: keyed_def key_at_def key_char_def Let_def)

text \<open>The characters of a line are shifted one by one.\<close>

lemma enc_loop_line:
  assumes "keyed m key c" "m = 1 \<or> m = - 1" "10 \<notin> set xs" "255 \<notin> set xs"
  shows "enc_loop c n (xs @ ys) = map_option (\<lambda>out. map (\<lambda>i. if m = 1 then xs ! i + key_char key (n + i)
      else xs ! i - key_char key (n + i)) [0..<length xs] @ out) (enc_loop c (n + length xs) ys)"
  using assms(3,4)
proof (induction xs arbitrary: n)
  case Nil
  then show ?case by (simp add: option.map_id0 [unfolded id_def])
next
  case (Cons x xs)
  have "enc_mode c = m" "m \<noteq> 0"
    using assms(1,2) by (auto simp: keyed_def)
  moreover have "[0..<length (x # xs)] = 0 # map Suc [0..<length xs]"
    by (simp add: map_Suc_upt upt_conv_Cons del: upt_Suc)
  ultimately show ?case
    using Cons by (cases "enc_loop c (n + length (x # xs)) ys") (auto simp: key_at_keyed [OF assms(1)] comp_def)
qed

text \<open>A text of one line without its end is restored by the inverse option and the same key, if neither
  it nor its code has the byte 255 or an end of line.\<close>

theorem decoding_restores_line:
  assumes "keyed 1 key c" "keyed (- 1) key d" "{10, 255} \<inter> set xs = {}"
    and "enc_loop c 0 xs = Some ys" "{10, 255} \<inter> set ys = {}"
  shows "enc_loop d 0 ys = Some xs"
proof -
  have ys: "ys = map (\<lambda>i. xs ! i + key_char key i) [0..<length xs]"
    using enc_loop_line [OF assms(1), of xs 0 "[]"] assms(3,4) by auto
  have "map (\<lambda>i. ys ! i - key_char key i) [0..<length ys] = xs"
    by (rule nth_equalityI) (auto simp: ys)
  then show ?thesis
    using enc_loop_line [OF assms(2), of ys 0 "[]"] assms(5) by auto
qed

text \<open>A line with its end is not: encoding adds an end of line that decoding shifts, and doubles.\<close>

lemma decoding_extends_text:
  assumes "keyed 1 key c" "keyed (- 1) key d" "{10, 255} \<inter> set xs = {}"
    and "enc_loop c 0 (xs @ [10]) = Some ys" "{10, 255} \<inter> set (butlast ys) = {}"
  shows "enc_loop d 0 ys = Some (xs @ [10, 10 - key_char key (length xs + 1), 10])"
proof -
  let ?zs = "map (\<lambda>i. xs ! i + key_char key i) [0..<length xs] @ [10 + key_char key (length xs)]"
  have modes: "enc_mode c = 1" "enc_mode d = - 1"
    using assms(1,2) by (auto simp: keyed_def)
  have ys: "ys = ?zs @ [10]"
    using enc_loop_line [OF assms(1), of xs 0 "[10]"] assms(3,4) by (auto simp: key_at_keyed [OF assms(1)] modes)
  have "map (\<lambda>i. ?zs ! i - key_char key i) [0..<length ?zs] = xs @ [10]"
    by (rule nth_equalityI) (auto simp: nth_append less_Suc_eq)
  moreover have "10 \<notin> set ?zs" "255 \<notin> set ?zs"
    using assms(5) unfolding ys butlast_snoc by auto
  ultimately show ?thesis
    using enc_loop_line [OF assms(2), of ?zs 0 "[10]"] unfolding ys
    by (simp add: key_at_keyed [OF assms(2)] modes del: upt_Suc)
qed

text \<open>An empty key shifts by its NUL, so it does nothing; after a longer one it is read behind its end.\<close>

lemma empty_key: "enc_loop (enc_options [str ''+e'']) 0 (str ''ab'') = Some (str ''ab'')"
  "enc_loop (enc_options [str ''+exyz'', str ''+e'']) 0 (str ''ab'') = None"
  by (simp_all add: enc_options_def enc_option_def enc0_def set_key_def key_at_def str_def Let_def)

end
