(* ===== verification/Spec2Isabelle.thy ===== *)
theory Spec2Isabelle
  imports Spinlock Syscall RestSafety ShGrammar ShRun Ide Chat Devices Grep Umalloc Mkfs Boot Mp Ulib Pixels MyShell Elfview Encoder
begin

text \<open>
  Verification of the programs of this repository: the xv6 kernel with copy-on-write and paging, its
  boot loader, its image builder and its user programs (\<^verbatim>\<open>src/c/os-master\<close>); the restaurant
  (\<^verbatim>\<open>src/c++/spl/resturant\<close>) and the chat client (\<^verbatim>\<open>src/c++/spl/chat_client\<close>); the image permutation
  (\<^verbatim>\<open>src/c++/image permutation\<close>); and of the labs (\<^verbatim>\<open>src/c/Computer Architecture labs\<close>) the shell of
  \<^verbatim>\<open>lab6\<close>, the ELF viewer of \<^verbatim>\<open>lab8\<close> and the encoder of \<^verbatim>\<open>lab1\<close>.

  \<^bold>\<open>How code is translated.\<close> A C function that reads or changes the state is a function into the monad
  of \<open>Prelude\<close>: it takes the state and ends in \<open>Ok\<close> with a result and a new state, in \<open>Panic\<close> (the
  kernel's \<^verbatim>\<open>panic\<close>; an undefined access such as a null dereference that would trap is one too), in
  \<open>Block\<close> (the running process went to sleep, with the state it left), or in \<open>Diverge\<close> (the loop does
  not end, or memory the model does not describe would be touched). The state is one record,
  extended layer by layer as the kernel's files build on each other: \<open>kbase\<close> (held spinlocks),
  \<open>kmem\<close> (memory and free list), \<open>kproc\<close> (process table), \<open>kslp\<close> (sleep locks), \<open>kbio\<close> (buffers,
  disk), \<open>klog\<close>, \<open>kinode\<close>, \<open>kcons\<close>, \<open>kfile\<close>, \<open>kvm\<close>; an operation of a layer runs on every extension.
  Machine integers that wrap are words (\<open>u32\<close> is \<open>32 word\<close>, addresses included); counters that the
  code cannot bring near their bounds are integers. The C++ programs use the same monad, with
  undefined behaviour and the exception of \<^verbatim>\<open>vector::at\<close> as panics.

  \<^bold>\<open>Shared theories.\<close> \<open>Prelude\<close>: the monad, its rules and byte encodings; the locale
  \<open>transition_system\<close> for invariants of step relations, interpreted on the spinlocks, the sleep locks
  and the process table. \<open>Kernel\<close>: \<^verbatim>\<open>acquire\<close> and \<^verbatim>\<open>release\<close> as one processor sees them. \<open>Ring\<close>: the
  locale \<open>bounded_queue\<close>, interpreted on pipes and on the queues of pages. \<open>Memory\<close>: bytes, 32-bit
  loads and stores, the macros of \<^verbatim>\<open>mmu.h\<close> and \<^verbatim>\<open>memlayout.h\<close>.

  \<^bold>\<open>The kernel.\<close>
  \<^item> \<open>Cstring\<close> (\<^verbatim>\<open>string.c\<close>): the memory and string routines, each with its effect on every byte.
  \<^item> \<open>Kalloc\<close> (\<^verbatim>\<open>kalloc.c\<close>): the free list threaded through the free pages refines a list of pages
    (\<open>kmem_inv\<close>); the locale \<open>page_source\<close> states what its clients rely on.
  \<^item> \<open>Pagetable\<close>, \<open>Vm\<close> (\<^verbatim>\<open>vm.c\<close>): page tables in memory, with the invariant \<open>pt_state\<close> that keeps
    directory, tables and free pages apart; mapping, copying to user memory, copy on write, swapping.
  \<^item> \<open>Spinlock\<close> (\<^verbatim>\<open>spinlock.c\<close>): processors interleaved between the atomic exchange and the release;
    mutual exclusion for every number of processors and steps.
  \<^item> \<open>Proc\<close>, \<open>Procs\<close>, \<open>Paging\<close> (\<^verbatim>\<open>proc.c\<close>): the process table, sleeping and waking, scheduling, fork,
    exit and wait; the page queues with the four replacement policies, of which the build uses
    second-chance FIFO.
  \<^item> \<open>Sleeplock\<close> (\<^verbatim>\<open>sleeplock.c\<close>): any number of processes competing for a lock; no wakeup is lost.
  \<^item> \<open>Bio\<close> (\<^verbatim>\<open>bio.c\<close>, \<^verbatim>\<open>memide.c\<close>), \<open>Log\<close> (\<^verbatim>\<open>log.c\<close>), \<open>Inode\<close>, \<open>Fs\<close>, \<open>Dirops\<close> (\<^verbatim>\<open>fs.c\<close>): the file system
    from the buffer cache up. A crash is a prefix of the block writes of a commit; recovery from it
    leaves the old or the new contents.
  \<^item> \<open>File\<close> (\<^verbatim>\<open>file.c\<close>, \<^verbatim>\<open>pipe.c\<close>), \<open>Console\<close> (\<^verbatim>\<open>console.c\<close>), \<open>Devices\<close> (\<^verbatim>\<open>kbd.c\<close>, \<^verbatim>\<open>uart.c\<close>,
    descriptors), \<open>Ide\<close> (\<^verbatim>\<open>ide.c\<close>): devices and what is read and written through them.
  \<^item> \<open>Exec\<close> (\<^verbatim>\<open>exec.c\<close>), \<open>Syscall\<close> (\<^verbatim>\<open>syscall.c\<close>, \<^verbatim>\<open>sysproc.c\<close>, \<^verbatim>\<open>sysfile.c\<close>, \<^verbatim>\<open>trap.c\<close>): loading programs,
    fetching arguments, the calls, and the dispatch of traps.
  \<^item> \<open>Boot\<close> (\<^verbatim>\<open>bootmain.c\<close>): loading the kernel from the sectors behind the boot sector; \<open>Mp\<close> (\<^verbatim>\<open>mp.c\<close>):
    finding the tables of the BIOS in memory and the processors they list.

  \<^bold>\<open>User programs of the kernel.\<close>
  \<^item> \<open>ShParse\<close>, \<open>ShGrammar\<close>, \<open>ShRun\<close> (\<^verbatim>\<open>sh.c\<close>): the parser, the grammar it reads, and running a
    command as the tree of the system calls of its processes.
  \<^item> \<open>Grep\<close> (\<^verbatim>\<open>grep.c\<close>): the matcher against the language of its pattern, and the loop over a file.
  \<^item> \<open>Umalloc\<close> (\<^verbatim>\<open>umalloc.c\<close>): the allocator over memory, whose circular list of free blocks keeps the
    invariant \<open>heap_ok\<close>; requests below \<open>2 ^ 30\<close> bytes, above which the size computed wraps.
  \<^item> \<open>Ulib\<close> (\<^verbatim>\<open>ulib.c\<close>, \<^verbatim>\<open>printf.c\<close>, \<^verbatim>\<open>echo.c\<close>, \<^verbatim>\<open>cat.c\<close>, \<^verbatim>\<open>wc.c\<close>, \<^verbatim>\<open>ls.c\<close>): the user library and
    programs on it; what the system calls give them is a parameter.
  \<^item> \<open>Mkfs\<close> (\<^verbatim>\<open>mkfs.c\<close>), which runs on the host: the image it writes refines a list of files
    (\<open>files_ok\<close>, \<open>files_in\<close>), and the file system of \<open>Fs\<close> reads them back from it.

  \<^bold>\<open>The restaurant.\<close> \<open>Cpp\<close> (what it uses of C++), \<open>Customer\<close> (dishes and customers), \<open>Table\<close> (tables with
  customers as objects on a heap, where the use of a deleted object is undefined), \<open>Action\<close>,
  \<open>RestConfig\<close> (the configuration file), \<open>Restaurant\<close> (the commands and \<^verbatim>\<open>main\<close>), \<open>RestSafety\<close> (memory
  safety of the commands, and what destroying or restoring a restaurant does).

  \<^bold>\<open>The chat client.\<close> \<open>Chat\<close>: encoding commands, cutting the bytes of the server into frames, decoding.

  \<^bold>\<open>The image permutation.\<close> \<open>Pixels\<close>: the class \<^verbatim>\<open>ProcessingModule\<close> over frames that are places in one
  memory, so that input and output may overlap.

  \<^bold>\<open>The labs.\<close> \<open>LineParser\<close> (\<^verbatim>\<open>LineParser.c\<close>) and \<open>MyShell\<close> (\<^verbatim>\<open>myshell.c\<close> of \<^verbatim>\<open>lab6/task4\<close>): the lines
  the shell reads, its variables and processes, and the system calls a command makes. \<open>Elfview\<close>
  (\<^verbatim>\<open>task3.c\<close> of \<^verbatim>\<open>lab8\<close>): what the listings of an ELF file show. \<open>Encoder\<close> (\<^verbatim>\<open>main.c\<close> of \<^verbatim>\<open>lab1/task2\<close>).

  \<^bold>\<open>Bounds and fuel.\<close> Loops over arrays and lists are structural recursions over them. The list walks
  of \<open>Bio\<close> get \<open>NBUF + 1\<close> steps, one more than the list has buffers (\<open>bwalk_run\<close> and its users show that
  it suffices on a well-formed cache); \<open>freerange\<close> gets \<open>2 ^ 20\<close> pages, all of a 32-bit address space;
  \<open>kill_line\<close> gets one step more than the line buffer has characters; \<open>acquire_spin\<close> as many steps as the caller gives,
  since another processor may hold the lock for ever; the parser of the shell gets
  \<open>parse_fuel\<close>, linear in the line, and \<open>parse_terminates\<close> shows that it is enough for every line;
  the frame reader of the chat client gets the length of the longest message its theorem allows.
  The loops that need not end are partial functions: those over strings in memory (\<open>Cstring\<close>, \<open>Ulib\<close>),
  which end at a NUL, and those of \<open>Boot\<close>, \<open>Mp\<close> and \<open>Umalloc\<close>, whose theorems show that they return;
  \<open>unknown_entry_spins\<close> shows that one of \<open>Mp\<close> does not.
  Loops that end only when a device answers (\<open>idewait\<close>) consume the answers the device will give.

  \<^bold>\<open>What is taken as given.\<close> The accessed bits of page entries are set by the hardware, hence by the
  environment. The kernel reads and writes user memory through the page table of the current
  process. The driver below the buffer cache is \<^verbatim>\<open>memide.c\<close>; \<open>Ide\<close> models the real disk by its
  registers and the answers of its status port. The choice of policy is the Makefile's
  (\<^verbatim>\<open>SELECTION\<close> is SCFIFO). In the user programs \<^verbatim>\<open>malloc\<close> succeeds, unless a part says otherwise. In the restaurant an
  object's address is not used again after it is deleted, and the uninitialised member \<^verbatim>\<open>open\<close> of a
  new table is a parameter.

  \<^bold>\<open>Not modelled.\<close> Assembly (boot, context switch, trap entry) and generated code. The programming of
  the interrupt controllers (\<^verbatim>\<open>lapic.c\<close>, \<^verbatim>\<open>ioapic.c\<close>, \<^verbatim>\<open>picirq.c\<close>): sequences of device register writes
  on which no other part depends. User programs that make one system call (\<^verbatim>\<open>kill\<close>, \<^verbatim>\<open>ln\<close>, \<^verbatim>\<open>mkdir\<close>,
  \<^verbatim>\<open>rm\<close>) and the test programs (\<^verbatim>\<open>usertests.c\<close> and others), which print what the system calls give.
  In the chat client connecting through \<^verbatim>\<open>boost::asio\<close> and starting the two threads. The test program
  of the image permutation. The earlier stages of the lab programs and the other lab exercises. The
  gateway around LoRa radio modules.
\<close>

end
